(* ===== verification/Nstd_Prelude.thy ===== *)
theory Nstd_Prelude
  imports Main
begin

text \<open>
  Shared vocabulary of the development. The library hands out raw pointers; an address is a
  natural number and \<^verbatim>\<open>0\<close> is the null pointer. The theory holds the names of the model's
  basic types, the fact collections that the component theories fill, and the generic lemmas
  on lists that several components need.
\<close>

type_synonym addr = nat

abbreviation (input) null :: addr where
  "null \<equiv> 0"

named_theorems heap_defs
  \<open>the defining equations of pointer operations, unfolded together\<close>

named_theorems inv_intros
  \<open>operations preserve the invariant of their container\<close>

subsection \<open>Folding a fallible operation over a list\<close>

fun foldo :: "('x \<Rightarrow> 's \<Rightarrow> 's option) \<Rightarrow> 'x list \<Rightarrow> 's \<Rightarrow> 's option" where
  "foldo f [] s = Some s"
| "foldo f (x # xs) s = Option.bind (f x s) (foldo f xs)"

lemma foldo_append: "foldo f (xs @ ys) s = Option.bind (foldo f xs s) (foldo f ys)"
  by (induction xs arbitrary: s) (auto split: bind_splits)

subsection \<open>Lists\<close>

lemma hd_append_singleton: "hd (xs @ [e]) = (if xs = [] then e else hd xs)"
  by (cases xs) auto

lemma hd_app_in: "hd (xs @ [e]) \<in> insert e (set xs)"
  by (cases xs) auto

lemma last_Cons_cases: "last (a # xs) = (if xs = [] then a else last xs)"
  by simp

lemma split_at_mem:
  assumes "a \<in> set xs"
  obtains ys zs where "xs = ys @ a # zs" "a \<notin> set ys"
  using assms by (meson split_list_first)

lemma distinct_app_Cons_iff:
  "distinct (xs @ a # ys) \<longleftrightarrow> a \<notin> set xs \<and> a \<notin> set ys \<and> distinct (xs @ ys)"
  by auto

lemma map_fun_upd_notin [simp]: "a \<notin> set xs \<Longrightarrow> map (f(a := b)) xs = map f xs"
  by (auto simp: map_eq_conv)

lemma list_pos_cases:
  assumes "p \<in> insert e (set xs)" "e \<notin> set xs"
  obtains us vs where "xs = us @ vs" "p = hd (vs @ [e])" "p \<notin> set us"
proof (cases "p = e")
  case True
  with assms show ?thesis by (intro that[of xs "[]"]) auto
next
  case False
  with assms have "p \<in> set xs" by simp
  then obtain us vs where "xs = us @ p # vs" "p \<notin> set us" by (rule split_at_mem)
  then show ?thesis by (intro that[of us "p # vs"]) auto
qed

end
