(* ===== verification/Nstd_Links.thy ===== *)
theory Nstd_Links
  imports Nstd_Prelude
begin

text \<open>
  The pointer structure that every node-based container of the library (List, PoolList,
  HashMap, HashSet, PoolMap, Map, MultiMap) repeats in its own source file:
  \<^item> items doubly linked through \<^verbatim>\<open>prev\<close>/\<^verbatim>\<open>next\<close>, closed by the container's own
    \<^verbatim>\<open>endItem\<close>, whose \<^verbatim>\<open>prev\<close> is the last item;
  \<^item> a free list threaded through \<^verbatim>\<open>prev\<close>, refilled by blocks of four items.
  The heap of items is a record of field functions; containers extend it with their own
  fields. \<^verbatim>\<open>new char[...]\<close> hands out the next unused addresses and never fails.
\<close>

section \<open>State\<close>

record links =
  brk :: addr
  prevp :: "addr \<Rightarrow> addr"
  nextp :: "addr \<Rightarrow> addr"

record cont =
  endItem :: addr
  beginp :: addr
  csize :: nat
  freeItem :: addr
  blocks :: "addr list"

text \<open>Number of items in one \<^verbatim>\<open>ItemBlock\<close>.\<close>

abbreviation block_len :: nat where
  "block_len \<equiv> 4"

section \<open>Operations\<close>

text \<open>The constructor: the container object brings its \<^verbatim>\<open>endItem\<close> with it.\<close>

definition init_cont :: "'z links_scheme \<Rightarrow> 'z links_scheme \<times> cont" where
  "init_cont h =
     (h\<lparr>brk := Suc (brk h), prevp := (prevp h)(brk h := null),
        nextp := (nextp h)(brk h := null)\<rparr>,
      \<lparr>endItem = brk h, beginp = brk h, csize = 0, freeItem = null, blocks = []\<rparr>)"

text \<open>\<^verbatim>\<open>for(Item* i = first; i < end; ++i) { i->prev = item; item = i; }\<close>\<close>

fun thread_free :: "addr list \<Rightarrow> addr \<Rightarrow> (addr \<Rightarrow> addr) \<Rightarrow> addr \<times> (addr \<Rightarrow> addr)" where
  "thread_free [] item p = (item, p)"
| "thread_free (i # is) item p = thread_free is i (p(i := item))"

text \<open>
  \<^verbatim>\<open>Item* item = freeItem; if(!item) { ...new block...; freeItem = item; }\<close>
\<close>

definition alloc_item :: "'z links_scheme \<Rightarrow> 'c cont_scheme \<Rightarrow> 'z links_scheme \<times> 'c cont_scheme \<times> addr" where
  "alloc_item h c =
     (if freeItem c = null then
        (let b = brk h;
             (item, p) = thread_free [b, b + 1, b + 2, b + 3] null (prevp h)
         in (h\<lparr>brk := b + block_len, prevp := p\<rparr>,
             c\<lparr>freeItem := item, blocks := b # blocks c\<rparr>, item))
      else (h, c, freeItem c))"

text \<open>\<^verbatim>\<open>freeItem = item->prev;\<close>\<close>

definition take_free :: "'z links_scheme \<Rightarrow> 'c cont_scheme \<Rightarrow> addr \<Rightarrow> 'c cont_scheme" where
  "take_free h c item = c\<lparr>freeItem := prevp h item\<rparr>"

text \<open>
  \<^verbatim>\<open>if((item->prev = insertPos->prev)) insertPos->prev->next = item; else _begin.item = item;
  item->next = insertPos; insertPos->prev = item; ++_size;\<close>
\<close>

definition link_before :: "'z links_scheme \<Rightarrow> 'c cont_scheme \<Rightarrow> addr \<Rightarrow> addr \<Rightarrow> 'z links_scheme \<times> 'c cont_scheme" where
  "link_before h c item pos =
     (let p = prevp h pos;
          h1 = h\<lparr>prevp := (prevp h)(item := p)\<rparr>;
          (h2, c2) =
            (if p \<noteq> null then (h1\<lparr>nextp := (nextp h1)(p := item)\<rparr>, c)
             else (h1, c\<lparr>beginp := item\<rparr>))
      in (h2\<lparr>nextp := (nextp h2)(item := pos), prevp := (prevp h2)(pos := item)\<rparr>,
          c2\<lparr>csize := Suc (csize c2)\<rparr>))"

text \<open>
  \<^verbatim>\<open>if(!item->prev) (_begin.item = item->next)->prev = 0;
  else (item->prev->next = item->next)->prev = item->prev; --_size;\<close>
\<close>

definition unlink :: "'z links_scheme \<Rightarrow> 'c cont_scheme \<Rightarrow> addr \<Rightarrow> 'z links_scheme \<times> 'c cont_scheme" where
  "unlink h c item =
     (let p = prevp h item; n = nextp h item in
      (if p = null then (h\<lparr>prevp := (prevp h)(n := null)\<rparr>, c\<lparr>beginp := n, csize := csize c - 1\<rparr>)
       else (h\<lparr>nextp := (nextp h)(p := n), prevp := (prevp h)(n := p)\<rparr>,
             c\<lparr>csize := csize c - 1\<rparr>)))"

text \<open>\<^verbatim>\<open>item->prev = freeItem; freeItem = item;\<close>\<close>

definition release :: "'z links_scheme \<Rightarrow> 'c cont_scheme \<Rightarrow> addr \<Rightarrow> 'z links_scheme \<times> 'c cont_scheme" where
  "release h c item =
     (h\<lparr>prevp := (prevp h)(item := freeItem c)\<rparr>, c\<lparr>freeItem := item\<rparr>)"

section \<open>What the pointers represent\<close>

fun dseg :: "(addr \<Rightarrow> addr) \<Rightarrow> (addr \<Rightarrow> addr) \<Rightarrow> addr \<Rightarrow> addr list \<Rightarrow> addr \<Rightarrow> bool" where
  "dseg P N a [] e = (P e = a)"
| "dseg P N a (x # xs) e = (P x = a \<and> N x = hd (xs @ [e]) \<and> dseg P N x xs e)"

fun fchain :: "(addr \<Rightarrow> addr) \<Rightarrow> addr \<Rightarrow> addr list \<Rightarrow> bool" where
  "fchain P f [] = (f = null)"
| "fchain P f (x # xs) = (f = x \<and> x \<noteq> null \<and> fchain P (P x) xs)"

definition pool :: "'c cont_scheme \<Rightarrow> addr set" where
  "pool c = (\<Union>b\<in>set (blocks c). {b..<b + block_len})"

text \<open>
  \<open>xs\<close> are the linked items from first to last, \<open>fs\<close> the free list from its head, \<open>ls\<close> the
  items an operation has in its hands (taken from the free list or unlinked, not yet put
  back). The last conjunct is the accounting of the pool: no item is lost or invented.
\<close>

definition cont_st :: "'z links_scheme \<Rightarrow> 'c cont_scheme \<Rightarrow> addr list \<Rightarrow> addr list \<Rightarrow> addr list \<Rightarrow> bool" where
  "cont_st h c xs fs ls \<longleftrightarrow>
     dseg (prevp h) (nextp h) null xs (endItem c) \<and>
     beginp c = hd (xs @ [endItem c]) \<and> nextp h (endItem c) = null \<and>
     fchain (prevp h) (freeItem c) fs \<and>
     csize c = length xs \<and>
     distinct (endItem c # xs @ fs @ ls) \<and>
     null \<notin> set (endItem c # xs @ fs @ ls) \<and>
     (\<forall>a\<in>set (endItem c # xs @ fs @ ls). a < brk h) \<and>
     pool c = set (xs @ fs @ ls)"

abbreviation cont_inv :: "'z links_scheme \<Rightarrow> 'c cont_scheme \<Rightarrow> addr list \<Rightarrow> addr list \<Rightarrow> bool" where
  "cont_inv h c xs fs \<equiv> cont_st h c xs fs []"


lemmas cont_stD = cont_st_def [THEN iffD1]

subsection \<open>Segments\<close>

lemma dseg_cong:
  assumes "\<forall>x\<in>set xs. P x = P' x \<and> N x = N' x" "P e = P' e"
  shows "dseg P N a xs e = dseg P' N' a xs e"
  using assms by (induction xs arbitrary: a) auto

lemma dseg_frame:
  assumes "dseg P N a xs e" "\<And>x. x \<in> set (e # xs) \<Longrightarrow> P' x = P x"
    and "\<And>x. x \<in> set xs \<Longrightarrow> N' x = N x"
  shows "dseg P' N' a xs e"
  using assms dseg_cong[of xs P P' N N' e a] by auto

lemma dseg_hd_prev: "dseg P N a xs e \<Longrightarrow> P (hd (xs @ [e])) = a"
  by (cases xs) auto

lemma dseg_append:
  "dseg P N a (xs @ y # ys) e \<longleftrightarrow> dseg P N a xs y \<and> dseg P N (last (a # xs)) (y # ys) e"
proof (induction xs arbitrary: a)
  case Nil
  then show ?case by auto
next
  case (Cons x xs)
  show ?case using Cons.IH[of x] by (auto simp: hd_append)
qed

lemma dseg_last_prev: "dseg P N a xs e \<Longrightarrow> P e = last (a # xs)"
  by (induction xs arbitrary: a) auto

lemma dseg_mid_prev: "dseg P N a (xs @ ys) e \<Longrightarrow> P (hd (ys @ [e])) = last (a # xs)"
  by (cases ys) (auto simp: dseg_append dest: dseg_last_prev)

lemma dseg_mid_next: "dseg P N a (xs @ y # ys) e \<Longrightarrow> N y = hd (ys @ [e])"
  by (auto simp: dseg_append)

lemma dseg_insert:
  assumes "dseg P N a (xs @ ys) e" "distinct (xs @ ys)" "z \<notin> set (xs @ ys)" "e \<notin> set (xs @ ys)"
    and "z \<noteq> e" "a \<notin> set ys" "a \<noteq> z"
  shows "dseg (P(z := last (a # xs), hd (ys @ [e]) := z)) (N(last (a # xs) := z, z := hd (ys @ [e])))
           a (xs @ z # ys) e"
  using assms
proof (induction xs arbitrary: a)
  case Nil
  show ?case
  proof (cases ys)
    case Nil
    with \<open>z \<noteq> e\<close> show ?thesis by simp
  next
    case (Cons y ws)
    have "dseg P N y ws e" using Nil.prems(1) Cons by simp
    then have "dseg (P(z := a, y := z)) (N(a := z, z := y)) y ws e"
      by (rule dseg_frame) (use Nil.prems Cons in auto)
    then show ?thesis using Nil.prems Cons by (auto simp: fun_upd_def)
  qed
next
  case (Cons x xs)
  have "dseg P N x (xs @ ys) e" using Cons.prems(1) by simp
  then have IH: "dseg (P(z := last (x # xs), hd (ys @ [e]) := z))
       (N(last (x # xs) := z, z := hd (ys @ [e]))) x (xs @ z # ys) e"
    using Cons.prems by (intro Cons.IH) auto
  have hd_ne: "hd (ys @ [e]) \<noteq> x" using Cons.prems hd_app_in[of ys e] by auto
  show ?case using IH Cons.prems hd_ne
    by (cases xs) (auto simp: fun_upd_def)
qed

lemma dseg_delete:
  assumes "dseg P N a (xs @ z # ys) e" "distinct (xs @ z # ys)" "e \<notin> set (xs @ z # ys)"
    and "a \<notin> set (z # ys)"
  shows "dseg (P(hd (ys @ [e]) := last (a # xs))) (N(last (a # xs) := hd (ys @ [e]))) a (xs @ ys) e"
  using assms
proof (induction xs arbitrary: a)
  case Nil
  show ?case
  proof (cases ys)
    case Nil
    then show ?thesis by simp
  next
    case (Cons y ws)
    have "dseg P N y ws e" using Nil.prems(1) Cons by simp
    then have "dseg (P(y := a)) (N(a := y)) y ws e"
      by (rule dseg_frame) (use Nil.prems Cons in auto)
    then show ?thesis using Nil.prems Cons by (auto simp: fun_upd_def)
  qed
next
  case (Cons x xs)
  have "dseg P N x (xs @ z # ys) e" using Cons.prems(1) by simp
  then have IH: "dseg (P(hd (ys @ [e]) := last (x # xs))) (N(last (x # xs) := hd (ys @ [e]))) x
      (xs @ ys) e"
    using Cons.prems by (intro Cons.IH) auto
  have hd_ne: "hd (ys @ [e]) \<noteq> x" using Cons.prems hd_app_in[of ys e] by auto
  show ?case using IH Cons.prems hd_ne
    by (cases xs) (auto simp: fun_upd_def)
qed

subsection \<open>Free lists\<close>

lemma fchain_frame:
  "fchain P f xs \<Longrightarrow> (\<And>x. x \<in> set xs \<Longrightarrow> P' x = P x) \<Longrightarrow> fchain P' f xs"
  by (induction xs arbitrary: f) auto

lemma fchain_upd [simp]: "a \<notin> set xs \<Longrightarrow> fchain (P(a := b)) f xs = fchain P f xs"
  by (induction xs arbitrary: f) auto

lemma fchain_if [simp]:
  "a \<notin> set xs \<Longrightarrow> fchain (\<lambda>x. if x = a then b else P x) f xs = fchain P f xs"
  by (induction xs arbitrary: f) auto

lemma fchain_null [simp]: "fchain P null xs \<longleftrightarrow> xs = []"
  by (cases xs) auto

lemma fchain_nonnull: "fchain P f xs \<Longrightarrow> f \<noteq> null \<Longrightarrow> xs = f # tl xs"
  by (cases xs) auto

lemma fchain_null_iff: "fchain P f xs \<Longrightarrow> f = null \<longleftrightarrow> xs = []"
  by (cases xs) auto

subsection \<open>Frames\<close>

text \<open>A container does not notice changes outside its own items.\<close>

definition footprint :: "'c cont_scheme \<Rightarrow> addr list \<Rightarrow> addr list \<Rightarrow> addr set" where
  "footprint c xs fs = set (endItem c # xs @ fs)"

lemma cont_inv_frame:
  assumes "cont_inv h c xs fs"
    and "\<And>a. a \<in> footprint c xs fs \<Longrightarrow> prevp h' a = prevp h a \<and> nextp h' a = nextp h a"
    and "brk h \<le> brk h'"
  shows "cont_inv h' c xs fs"
proof -
  have "dseg (prevp h') (nextp h') null xs (endItem c)"
    by (rule dseg_frame[of "prevp h" "nextp h"]) (use assms in \<open>auto simp: cont_st_def footprint_def\<close>)
  moreover have "fchain (prevp h') (freeItem c) fs"
    by (rule fchain_frame[of "prevp h"]) (use assms in \<open>auto simp: cont_st_def footprint_def\<close>)
  moreover have "nextp h' (endItem c) = null"
    using assms(1,2) by (simp add: cont_st_def footprint_def)
  moreover have "\<forall>a\<in>set (endItem c # xs @ fs @ []). a < brk h'"
    using assms(1,3) unfolding cont_st_def by (meson less_le_trans)
  ultimately show ?thesis
    using assms(1) unfolding cont_st_def by blast
qed

section \<open>Closed forms of the operations\<close>

lemma alloc_item_eq:
  "alloc_item h c =
     (if freeItem c = null then
        (h\<lparr>brk := brk h + block_len,
           prevp := (prevp h)(brk h := null, brk h + 1 := brk h, brk h + 2 := brk h + 1,
                              brk h + 3 := brk h + 2)\<rparr>,
         c\<lparr>freeItem := brk h + 3, blocks := brk h # blocks c\<rparr>, brk h + 3)
      else (h, c, freeItem c))"
  by (simp add: alloc_item_def Let_def)

lemma link_before_eq:
  "link_before h c z pos =
     (h\<lparr>prevp := (prevp h)(z := prevp h pos, pos := z),
        nextp := (if prevp h pos = null then nextp h
                  else (nextp h)(prevp h pos := z))(z := pos)\<rparr>,
      c\<lparr>csize := Suc (csize c), beginp := if prevp h pos = null then z else beginp c\<rparr>)"
  by (simp add: link_before_def Let_def)

lemma unlink_eq:
  "unlink h c z =
     (h\<lparr>prevp := (prevp h)(nextp h z := prevp h z),
        nextp := if prevp h z = null then nextp h else (nextp h)(prevp h z := nextp h z)\<rparr>,
      c\<lparr>csize := csize c - 1, beginp := if prevp h z = null then nextp h z else beginp c\<rparr>)"
  by (simp add: unlink_def Let_def)

section \<open>The operations keep the representation\<close>

lemma init_cont_st:
  assumes "init_cont h = (h', c)" "0 < brk h"
  shows "cont_inv h' c [] []"
  using assms by (auto simp: init_cont_def cont_st_def pool_def)

lemma pool_upd [simp]:
  "pool (c\<lparr>freeItem := f\<rparr>) = pool c"
  "pool (c\<lparr>csize := n\<rparr>) = pool c"
  "pool (c\<lparr>csize := n, beginp := b\<rparr>) = pool c"
  "pool (c\<lparr>freeItem := f, blocks := b # blocks c\<rparr>) = {b..<b + block_len} \<union> pool c"
  by (simp_all add: pool_def)

lemma cont_st_valid:
  assumes "cont_st h c xs fs ls" "a \<in> set xs \<union> set fs \<union> set ls \<union> {endItem c}"
  shows "a \<noteq> null" "a < brk h"
  using assms by (auto simp: cont_st_def)

lemma cont_st_distinct:
  "cont_st h c xs fs ls \<Longrightarrow> distinct (endItem c # xs @ fs @ ls)"
  by (simp add: cont_st_def)

lemma block_items: "{b..<b + block_len} = {b + 3, b + 2, b + 1, b}" for b :: nat
  by auto

lemma alloc_item_st:
  assumes inv: "cont_st h c xs fs ls" and eq: "alloc_item h c = (h', c', item)"
  shows "\<exists>fs'. cont_st h' c' xs (item # fs') ls \<and> freeItem c' = item \<and>
           set fs' \<subseteq> set fs \<union> {brk h..<brk h'} \<and> (item \<in> set fs \<or> brk h \<le> item)"
proof (cases "freeItem c = null")
  case False
  with inv have "fs = freeItem c # tl fs"
    by (auto simp: cont_st_def intro: fchain_nonnull)
  then obtain fs' where fs': "fs = freeItem c # fs'" by blast
  have "h' = h" "c' = c" "item = freeItem c" using eq False by (auto simp: alloc_item_eq)
  then show ?thesis using inv fs' by (intro exI[of _ fs']) auto
next
  case True
  have fs: "fs = []" using inv True by (auto simp: cont_st_def)
  let ?b = "brk h"
  have fresh: "\<forall>a\<in>set (endItem c # xs @ ls). a < ?b" "0 < ?b"
    using inv by (auto simp: cont_st_def)
  have h': "prevp h' = (prevp h)(?b := null, ?b + 1 := ?b, ?b + 2 := ?b + 1, ?b + 3 := ?b + 2)"
    "nextp h' = nextp h" "brk h' = ?b + block_len" and item: "item = ?b + 3"
    and c': "c' = c\<lparr>freeItem := ?b + 3, blocks := ?b # blocks c\<rparr>"
    using eq True by (auto simp: alloc_item_eq)
  have ag: "prevp h' x = prevp h x" if "x < ?b" for x using that by (simp add: h')
  have "dseg (prevp h') (nextp h') null xs (endItem c)"
    by (rule dseg_frame[of "prevp h" "nextp h"])
       (use inv fresh ag in \<open>auto simp: cont_st_def h'(2) simp del: One_nat_def\<close>)
  moreover have "fchain (prevp h') (?b + 3) [?b + 3, ?b + 2, ?b + 1, ?b]"
    using fresh by (simp add: h')
  moreover have "distinct (endItem c # xs @ [?b + 3, ?b + 2, ?b + 1, ?b] @ ls)"
  proof -
    have "x \<notin> set (endItem c # xs @ ls)" if "?b \<le> x" for x
      using fresh that by (meson leD)
    from this[of ?b] this[of "?b + 1"] this[of "?b + 2"] this[of "?b + 3"]
    show ?thesis using cont_st_distinct[OF inv] by auto
  qed
  moreover have "{?b..<?b + block_len} \<union> pool c = set (xs @ [?b + 3, ?b + 2, ?b + 1, ?b] @ ls)"
    using inv fs by (simp only: block_items) (auto simp: cont_st_def)
  moreover have "\<forall>a\<in>set (endItem c # xs @ [?b + 3, ?b + 2, ?b + 1, ?b] @ ls). a < ?b + block_len"
    using fresh by (auto intro: less_trans)
  ultimately have "cont_st h' c' xs [?b + 3, ?b + 2, ?b + 1, ?b] ls"
    using inv fresh unfolding cont_st_def by (simp add: h' c')
  then show ?thesis unfolding item
    by (intro exI[of _ "[?b + 2, ?b + 1, ?b]"]) (auto simp: h' c')
qed

lemma take_free_st:
  assumes "cont_st h c xs (item # fs) ls"
  shows "cont_st h (take_free h c item) xs fs (item # ls)"
  using assms by (auto simp: cont_st_def take_free_def)

lemma link_before_st:
  assumes inv: "cont_st h c (us @ vs) fs (z # ls)" and pos: "pos = hd (vs @ [endItem c])"
    and eq: "link_before h c z pos = (h', c')"
  shows "cont_st h' c' (us @ z # vs) fs ls"
proof -
  let ?e = "endItem c"
  note dist = cont_st_distinct[OF inv]
  have nn: "a \<noteq> null" if "a \<in> set us \<union> set vs \<union> {z, ?e}" for a
    using cont_st_valid(1)[OF inv, of a] that by auto
  have P: "prevp h pos = last (null # us)"
    using inv pos by (auto simp: cont_st_def dest: dseg_mid_prev)
  have lst: "last us \<in> set us" "last us \<noteq> null" if "us \<noteq> []"
    using that nn[of "last us"] by simp_all
  have pos_in: "pos \<in> insert ?e (set vs)" using pos hd_app_in by simp
  have h': "prevp h' = (prevp h)(z := last (null # us), pos := z)"
    "nextp h' = (if us = [] then nextp h else (nextp h)(last us := z))(z := pos)"
    "brk h' = brk h"
    and c': "c' = c\<lparr>csize := Suc (csize c), beginp := if us = [] then z else beginp c\<rparr>"
    using eq lst(2) by (cases "us = []"; auto simp: link_before_eq P)+
  have "dseg ((prevp h)(z := last (null # us), hd (vs @ [?e]) := z))
          ((nextp h)(last (null # us) := z, z := hd (vs @ [?e]))) null (us @ z # vs) ?e"
    by (rule dseg_insert) (use inv in \<open>auto simp: cont_st_def\<close>)
  then have D: "dseg (prevp h') (nextp h') null (us @ z # vs) ?e"
    by (rule dseg_frame) (use nn in \<open>auto simp: h' pos\<close>)
  have "pos \<notin> set fs" "z \<notin> set fs" using pos_in dist by auto
  then have F: "fchain (prevp h') (freeItem c) fs"
    using inv by (simp add: h' cont_st_def)
  have B: "beginp c' = hd ((us @ z # vs) @ [?e])"
    using inv by (cases us) (auto simp: c' cont_st_def)
  have E: "nextp h' ?e = null"
    using inv dist lst by (auto simp: h' cont_st_def)
  have "distinct (?e # (us @ z # vs) @ fs @ ls)" using dist by auto
  then show ?thesis using inv D F B E unfolding cont_st_def by (auto simp: c' h')
qed

lemma unlink_st:
  assumes inv: "cont_st h c (us @ z # vs) fs ls" and eq: "unlink h c z = (h', c')"
  shows "cont_st h' c' (us @ vs) fs (z # ls)" and "nextp h' z = hd (vs @ [endItem c])"
proof -
  let ?e = "endItem c" and ?n = "hd (vs @ [endItem c])"
  note dist = cont_st_distinct[OF inv]
  have nn: "a \<noteq> null" if "a \<in> set us \<union> set vs \<union> {z, ?e}" for a
    using cont_st_valid(1)[OF inv, of a] that by auto
  have P: "prevp h z = last (null # us)"
    using inv dseg_mid_prev[of _ _ _ us "z # vs"] by (auto simp: cont_st_def)
  have N: "nextp h z = ?n"
    using inv by (auto simp: cont_st_def dest: dseg_mid_next)
  have lst: "last us \<in> set us" "last us \<noteq> null" if "us \<noteq> []"
    using that nn[of "last us"] by simp_all
  have n_in: "?n \<in> insert ?e (set vs)" by (rule hd_app_in)
  have h': "prevp h' = (prevp h)(?n := last (null # us))"
    "nextp h' = (if us = [] then nextp h else (nextp h)(last us := ?n))" "brk h' = brk h"
    and c': "c' = c\<lparr>csize := csize c - 1, beginp := if us = [] then ?n else beginp c\<rparr>"
    using eq lst(2) by (cases "us = []"; auto simp: unlink_eq P N)+
  have "dseg ((prevp h)(?n := last (null # us))) ((nextp h)(last (null # us) := ?n)) null (us @ vs) ?e"
    by (rule dseg_delete) (use inv in \<open>auto simp: cont_st_def\<close>)
  then have D: "dseg (prevp h') (nextp h') null (us @ vs) ?e"
    by (rule dseg_frame) (use nn in \<open>auto simp: h'\<close>)
  have "?n \<notin> set fs" using n_in dist by auto
  then have F: "fchain (prevp h') (freeItem c) fs"
    using inv by (simp add: h' cont_st_def)
  have B: "beginp c' = hd ((us @ vs) @ [?e])"
    using inv by (cases us) (auto simp: c' cont_st_def)
  have E: "nextp h' ?e = null"
    using inv dist lst by (auto simp: h' cont_st_def)
  have "distinct (?e # (us @ vs) @ fs @ z # ls)" using dist by auto
  then show "cont_st h' c' (us @ vs) fs (z # ls)"
    using inv D F B E unfolding cont_st_def by (auto simp: c' h')
  show "nextp h' z = ?n"
    using dist N lst by (auto simp: h')
qed

lemma release_st:
  assumes inv: "cont_st h c xs fs (z # ls)" and eq: "release h c z = (h', c')"
  shows "cont_st h' c' xs (z # fs) ls"
proof -
  note dist = cont_st_distinct[OF inv]
  have "dseg (prevp h') (nextp h') null xs (endItem c)"
    by (rule dseg_frame[of "prevp h" "nextp h"])
       (use inv eq in \<open>auto simp: cont_st_def release_def\<close>)
  moreover have "distinct (endItem c # xs @ (z # fs) @ ls)" using dist by auto
  ultimately show ?thesis using inv eq unfolding cont_st_def by (auto simp: release_def)
qed

section \<open>What an operation leaves alone\<close>

text \<open>\<open>A\<close> bounds the items an operation may have written; fresh items are above \<^verbatim>\<open>brk\<close>.\<close>

definition same_outside :: "'z links_scheme \<Rightarrow> 'z links_scheme \<Rightarrow> addr set \<Rightarrow> bool" where
  "same_outside h h' A \<longleftrightarrow> brk h \<le> brk h' \<and>
     (\<forall>a. a < brk h \<longrightarrow> a \<notin> A \<longrightarrow> prevp h' a = prevp h a \<and> nextp h' a = nextp h a)"

lemma same_outside_refl [simp]: "same_outside h h A"
  by (simp add: same_outside_def)

lemma same_outside_trans:
  "same_outside h h1 A \<Longrightarrow> same_outside h1 h2 B \<Longrightarrow> same_outside h h2 (A \<union> B)"
  by (auto simp: same_outside_def)

lemma same_outside_mono: "same_outside h h' A \<Longrightarrow> A \<subseteq> B \<Longrightarrow> same_outside h h' B"
  by (auto simp: same_outside_def)

lemma same_outside_fresh:
  "same_outside h h' (A \<union> B) \<Longrightarrow> (\<And>b. b \<in> B \<Longrightarrow> brk h \<le> b) \<Longrightarrow> same_outside h h' A"
  unfolding same_outside_def by (metis UnE leD)

lemma alloc_item_same: "alloc_item h c = (h', c', item) \<Longrightarrow> same_outside h h' {}"
  by (auto simp: alloc_item_eq same_outside_def split: if_splits)

lemma link_before_same:
  assumes "cont_st h c (us @ vs) fs (z # ls)" "pos = hd (vs @ [endItem c])"
    and "link_before h c z pos = (h', c')"
  shows "same_outside h h' (set (endItem c # z # us @ vs))"
proof -
  have "prevp h pos = last (null # us)"
    using assms by (auto simp: cont_st_def dest: dseg_mid_prev)
  moreover have "pos \<in> set (endItem c # vs)" using assms(2) hd_app_in by simp
  moreover have "last (null # us) \<in> insert null (set us)" by auto
  ultimately show ?thesis using assms(3) by (auto simp: link_before_eq same_outside_def)
qed

lemma unlink_same:
  assumes "cont_st h c (us @ z # vs) fs ls" "unlink h c z = (h', c')"
  shows "same_outside h h' (set (endItem c # z # us @ vs))"
proof -
  have "prevp h z = last (null # us)"
    using assms(1) dseg_mid_prev[of _ _ _ us "z # vs"] by (auto simp: cont_st_def)
  moreover have "nextp h z \<in> set (endItem c # vs)"
    using assms(1) hd_app_in[of vs "endItem c"] by (auto simp: cont_st_def dest: dseg_mid_next)
  moreover have "last (null # us) \<in> insert null (set us)" by auto
  ultimately show ?thesis using assms(2) by (auto simp: unlink_eq same_outside_def)
qed

lemma release_same: "release h c z = (h', c') \<Longrightarrow> same_outside h h' {z}"
  by (auto simp: release_def same_outside_def)

lemma cont_inv_other:
  assumes "cont_inv h d ys gs" "same_outside h h' A" "footprint d ys gs \<inter> A = {}"
  shows "cont_inv h' d ys gs"
proof (rule cont_inv_frame[OF assms(1)])
  fix a assume "a \<in> footprint d ys gs"
  moreover from this have "a < brk h" using assms(1) by (auto simp: cont_st_def footprint_def)
  ultimately show "prevp h' a = prevp h a \<and> nextp h' a = nextp h a"
    using assms(2,3) by (auto simp: same_outside_def)
qed (use assms(2) in \<open>simp add: same_outside_def\<close>)

lemma footprint_bound: "cont_inv h c xs fs \<Longrightarrow> a \<in> footprint c xs fs \<Longrightarrow> a < brk h"
  by (auto simp: cont_st_def footprint_def)

lemma footprint_pool: "cont_inv h c xs fs \<Longrightarrow> footprint c xs fs = insert (endItem c) (pool c)"
  by (auto simp: cont_st_def footprint_def)

section \<open>Clearing\<close>

text \<open>
  \<^verbatim>\<open>for(Item* i = _begin.item, * end = &endItem; i != end; i = i->next)
  { i->prev = freeItem; freeItem = i; }\<close>: \<open>None\<close> would be a loop that does not end.
\<close>

partial_function (option) clear_loop ::
    "'z links_scheme \<Rightarrow> addr \<Rightarrow> addr \<Rightarrow> addr \<Rightarrow> ('z links_scheme \<times> addr) option" where
  "clear_loop h f i e =
     (if i = e then Some (h, f)
      else clear_loop (h\<lparr>prevp := (prevp h)(i := f)\<rparr>) i (nextp h i) e)"

definition clear_links :: "'z links_scheme \<Rightarrow> 'c cont_scheme \<Rightarrow> ('z links_scheme \<times> 'c cont_scheme) option" where
  "clear_links h c =
     map_option (\<lambda>(h', f).
        (h'\<lparr>prevp := (prevp h')(endItem c := null)\<rparr>,
         c\<lparr>freeItem := f, beginp := endItem c, csize := 0\<rparr>))
       (clear_loop h (freeItem c) (beginp c) (endItem c))"

lemma clear_loop_returns:
  assumes "dseg P (nextp h) a xs e" "distinct xs" "e \<notin> set xs" "fchain (prevp h) f fs"
    and "set xs \<inter> set fs = {}" "null \<notin> set xs"
  shows "\<exists>h'. clear_loop h f (hd (xs @ [e])) e = Some (h', hd (rev xs @ [f])) \<and>
           fchain (prevp h') (hd (rev xs @ [f])) (rev xs @ fs) \<and>
           (\<exists>p. h' = h\<lparr>prevp := p\<rparr> \<and> (\<forall>b. b \<notin> set xs \<longrightarrow> p b = prevp h b))"
  using assms
proof (induction xs arbitrary: h f fs a)
  case Nil
  then show ?case by (subst clear_loop.simps) (auto intro!: exI[of _ "prevp h"])
next
  case (Cons x xs)
  let ?h = "h\<lparr>prevp := (prevp h)(x := f)\<rparr>"
  have "\<exists>h'. clear_loop ?h x (hd (xs @ [e])) e = Some (h', hd (rev xs @ [x])) \<and>
           fchain (prevp h') (hd (rev xs @ [x])) (rev xs @ x # fs) \<and>
           (\<exists>p. h' = ?h\<lparr>prevp := p\<rparr> \<and> (\<forall>b. b \<notin> set xs \<longrightarrow> p b = prevp ?h b))"
    by (rule Cons.IH) (use Cons.prems in auto)
  then obtain h' p where "clear_loop ?h x (hd (xs @ [e])) e = Some (h', hd (rev xs @ [x]))"
    "fchain (prevp h') (hd (rev xs @ [x])) (rev xs @ x # fs)" "h' = ?h\<lparr>prevp := p\<rparr>"
    "\<forall>b. b \<notin> set xs \<longrightarrow> p b = prevp ?h b"
    by blast
  then show ?case using Cons.prems
    by (subst clear_loop.simps) (auto simp: hd_append_singleton intro!: exI[of _ p])
qed

lemma clear_links_st:
  assumes inv: "cont_inv h c xs fs"
  shows "\<exists>h' c'. clear_links h c = Some (h', c') \<and> cont_inv h' c' [] (rev xs @ fs) \<and>
           endItem c' = endItem c \<and> (\<exists>p. h' = h\<lparr>prevp := p\<rparr>) \<and>
           same_outside h h' (footprint c xs fs)"
proof -
  note dist = cont_st_distinct[OF inv]
  have B: "beginp c = hd (xs @ [endItem c])" using inv by (simp add: cont_st_def)
  have "\<exists>h'. clear_loop h (freeItem c) (hd (xs @ [endItem c])) (endItem c)
           = Some (h', hd (rev xs @ [freeItem c])) \<and>
           fchain (prevp h') (hd (rev xs @ [freeItem c])) (rev xs @ fs) \<and>
           (\<exists>p. h' = h\<lparr>prevp := p\<rparr> \<and> (\<forall>b. b \<notin> set xs \<longrightarrow> p b = prevp h b))"
    by (rule clear_loop_returns) (use inv in \<open>auto simp: cont_st_def\<close>)
  then obtain h1 p where h1: "clear_loop h (freeItem c) (beginp c) (endItem c)
           = Some (h1, hd (rev xs @ [freeItem c]))"
    "fchain (prevp h1) (hd (rev xs @ [freeItem c])) (rev xs @ fs)"
    "h1 = h\<lparr>prevp := p\<rparr>" "\<forall>b. b \<notin> set xs \<longrightarrow> p b = prevp h b"
    unfolding B by blast
  let ?h = "h\<lparr>prevp := p(endItem c := null)\<rparr>"
  let ?c = "c\<lparr>freeItem := hd (rev xs @ [freeItem c]), beginp := endItem c, csize := 0\<rparr>"
  have "clear_links h c = Some (?h, ?c)"
    using h1 by (simp add: clear_links_def)
  moreover have "endItem c \<notin> set (rev xs @ fs)" using dist by auto
  then have "fchain (prevp ?h) (freeItem ?c) (rev xs @ fs)"
    using h1 by (simp del: set_append)
  then have "cont_inv ?h ?c [] (rev xs @ fs)"
    using inv dist by (auto simp: cont_st_def pool_def)
  moreover have "same_outside h ?h (footprint c xs fs)"
    using h1(4) by (auto simp: same_outside_def footprint_def)
  ultimately show ?thesis by (intro exI[of _ ?h] exI[of _ ?c]) auto
qed

section \<open>Whole insertions and removals\<close>

text \<open>
  The containers write their own fields (value, key, hash cell) between these steps, which does
  not concern the links. \<open>fresh_for h fs i\<close>: the item was free or is new.
\<close>

definition same_links :: "'z links_scheme \<Rightarrow> 'z links_scheme \<Rightarrow> bool" where
  "same_links h h' \<longleftrightarrow> brk h' = brk h \<and> prevp h' = prevp h \<and> nextp h' = nextp h"

definition fresh_for :: "'z links_scheme \<Rightarrow> addr list \<Rightarrow> addr \<Rightarrow> bool" where
  "fresh_for h fs i \<longleftrightarrow> i \<in> set fs \<or> brk h \<le> i"

lemma cont_st_same_links: "same_links h h' \<Longrightarrow> cont_st h' c xs fs ls = cont_st h c xs fs ls"
  by (simp add: same_links_def cont_st_def)

lemma same_outside_links: "same_outside h h1 A \<Longrightarrow> same_links h1 h2 \<Longrightarrow> same_outside h h2 A"
  by (simp add: same_outside_def same_links_def)

lemma alloc_item_keep: "alloc_item h c = (h', c', i) \<Longrightarrow> endItem c' = endItem c"
  by (auto simp: alloc_item_eq split: if_splits)

text \<open>
  \<open>taken h c xs fs h1 c1 i\<close>: from \<open>(h, c)\<close> an item \<open>i\<close> has been taken out of the free list,
  which was refilled when it was empty.
\<close>

definition taken ::
    "'z links_scheme \<Rightarrow> 'c cont_scheme \<Rightarrow> addr list \<Rightarrow> addr list \<Rightarrow> 'z links_scheme \<Rightarrow> 'c cont_scheme
     \<Rightarrow> addr \<Rightarrow> bool" where
  "taken h c xs fs h1 c1 i \<longleftrightarrow> (\<exists>fs1. cont_st h1 c1 xs fs1 [i] \<and>
     same_outside h h1 {} \<and> endItem c1 = endItem c \<and> fresh_for h fs i \<and>
     set fs1 \<subseteq> set fs \<union> {brk h..<brk h1})"

lemma taken_same_links: "taken h c xs fs h1 c1 i \<Longrightarrow> same_links h1 h2 \<Longrightarrow> taken h c xs fs h2 c1 i"
  unfolding taken_def using cont_st_same_links same_outside_links
  by (metis same_links_def)

lemma alloc_item_taken:
  assumes inv: "cont_inv h c xs fs" and alloc: "alloc_item h c = (h1, c1, i)" and same: "same_links h1 h2"
  shows "taken h c xs fs h2 (take_free h2 c1 i) i"
proof -
  obtain fs1 where a: "cont_st h1 c1 xs (i # fs1) []" and
    sub: "set fs1 \<subseteq> set fs \<union> {brk h..<brk h1}" and fr: "i \<in> set fs \<or> brk h \<le> i"
    using alloc_item_st[OF inv alloc] by blast
  have b: "cont_st h2 (take_free h2 c1 i) xs fs1 [i]"
    by (rule take_free_st) (simp add: cont_st_same_links[OF same] a)
  have "same_outside h h2 {}"
    using same_outside_links[OF alloc_item_same[OF alloc] same] .
  moreover have "brk h1 = brk h2" using same by (simp add: same_links_def)
  moreover have "endItem (take_free h2 c1 i) = endItem c"
    using alloc_item_keep[OF alloc] by (simp add: take_free_def)
  ultimately show ?thesis using b sub fr unfolding taken_def fresh_for_def by metis
qed

text \<open>
  HashMap and HashSet allocate differently: \<^verbatim>\<open>if(freeItem) { item = freeItem; freeItem =
  freeItem->prev; } else { ...new block, whose first item is taken and the others freed... }\<close>
\<close>

definition alloc_first :: "'z links_scheme \<Rightarrow> 'c cont_scheme \<Rightarrow> 'z links_scheme \<times> 'c cont_scheme \<times> addr" where
  "alloc_first h c =
     (if freeItem c \<noteq> null then (h, c\<lparr>freeItem := prevp h (freeItem c)\<rparr>, freeItem c)
      else (let item = brk h;
                (f, p) = thread_free [item + 1, item + 2, item + 3] (freeItem c) (prevp h)
            in (h\<lparr>brk := item + block_len, prevp := p\<rparr>,
                c\<lparr>freeItem := f, blocks := item # blocks c\<rparr>, item)))"

lemma alloc_first_taken:
  assumes inv: "cont_inv h c xs fs" and alloc: "alloc_first h c = (h1, c1, i)"
  shows "taken h c xs fs h1 c1 i"
proof (cases "freeItem c = null")
  case False
  with inv have "fs = freeItem c # tl fs" by (auto simp: cont_st_def intro: fchain_nonnull)
  then obtain fs' where fs': "fs = freeItem c # fs'" by blast
  have eq: "h1 = h" "c1 = take_free h c (freeItem c)" "i = freeItem c"
    using alloc False by (auto simp: alloc_first_def take_free_def)
  have "cont_st h (take_free h c (freeItem c)) xs fs' [freeItem c]"
    by (rule take_free_st) (use inv fs' in simp)
  then show ?thesis unfolding taken_def eq using fs'
    by (intro exI[of _ fs']) (auto simp: take_free_def fresh_for_def)
next
  case True
  have fs: "fs = []" using inv True by (auto simp: cont_st_def)
  let ?b = "brk h"
  let ?p = "(prevp h)(?b + 1 := null, ?b + 2 := ?b + 1, ?b + 3 := ?b + 2)"
  have eq: "i = ?b" "h1 = h\<lparr>brk := ?b + block_len, prevp := ?p\<rparr>"
      "c1 = c\<lparr>freeItem := ?b + 3, blocks := ?b # blocks c\<rparr>"
    using alloc True by (auto simp: alloc_first_def Let_def)
  have fresh: "\<forall>a\<in>set (endItem c # xs). a < ?b" "0 < ?b"
    using inv by (auto simp: cont_st_def)
  have ag: "prevp h1 x = prevp h x" if "x < ?b" for x using that by (simp add: eq)
  have n1: "nextp h1 = nextp h" by (simp add: eq)
  have "dseg (prevp h1) (nextp h1) null xs (endItem c)"
    by (rule dseg_frame[of "prevp h" "nextp h"]) (use inv fresh ag n1 in \<open>auto simp: cont_st_def\<close>)
  moreover have "fchain (prevp h1) (?b + 3) [?b + 3, ?b + 2, ?b + 1]"
    using fresh by (simp add: eq)
  moreover have "distinct (endItem c # xs @ [?b + 3, ?b + 2, ?b + 1] @ [?b])"
  proof -
    have "x \<notin> set (endItem c # xs)" if "?b \<le> x" for x
      using fresh that by (meson leD)
    from this[of ?b] this[of "?b + 1"] this[of "?b + 2"] this[of "?b + 3"]
    show ?thesis using cont_st_distinct[OF inv] by auto
  qed
  moreover have "{?b..<?b + block_len} \<union> pool c = set (xs @ [?b + 3, ?b + 2, ?b + 1] @ [?b])"
    using inv fs by (simp only: block_items) (auto simp: cont_st_def)
  moreover have "\<forall>a\<in>set (endItem c # xs @ [?b + 3, ?b + 2, ?b + 1] @ [?b]). a < ?b + block_len"
    using fresh by (auto intro: less_trans)
  ultimately have "cont_st h1 c1 xs [?b + 3, ?b + 2, ?b + 1] [?b]"
    using inv fresh unfolding cont_st_def by (simp add: eq)
  then show ?thesis unfolding taken_def
    by (intro exI[of _ "[?b + 3, ?b + 2, ?b + 1]"]) (auto simp: eq fresh_for_def same_outside_def)
qed

lemma link_taken_st:
  assumes t: "taken h c (us @ vs) fs h2 c2 i" and pos: "pos = hd (vs @ [endItem c])"
    and link: "link_before h2 c2 i pos = (h3, c3)"
  shows "\<exists>fs'. cont_inv h3 c3 (us @ i # vs) fs' \<and> endItem c3 = endItem c \<and>
           same_outside h h3 (footprint c (us @ vs) fs) \<and> fresh_for h fs i \<and>
           set fs' \<subseteq> set fs \<union> {brk h..<brk h3}"
proof -
  obtain fs1 where b: "cont_st h2 c2 (us @ vs) fs1 [i]" and out: "same_outside h h2 {}"
    and e: "endItem c2 = endItem c" and fr: "fresh_for h fs i"
    and sub: "set fs1 \<subseteq> set fs \<union> {brk h..<brk h2}" using t unfolding taken_def by blast
  have pos2: "pos = hd (vs @ [endItem c2])" by (simp add: e pos)
  have st: "cont_inv h3 c3 (us @ i # vs) fs1" using link_before_st[OF b pos2 link] .
  have e3: "endItem c3 = endItem c" using link e by (auto simp: link_before_eq)
  have b23: "brk h2 = brk h3" using link by (auto simp: link_before_eq)
  have "same_outside h2 h3 (set (endItem c # i # us @ vs))"
    using link_before_same[OF b pos2 link] by (simp add: e)
  with out have "same_outside h h3 ({} \<union> set (endItem c # i # us @ vs))"
    by (rule same_outside_trans)
  then have "same_outside h h3 (footprint c (us @ vs) fs \<union> ({i} - set fs))"
    by (rule same_outside_mono) (auto simp: footprint_def)
  then have "same_outside h h3 (footprint c (us @ vs) fs)"
    by (rule same_outside_fresh) (use fr in \<open>auto simp: fresh_for_def\<close>)
  then show ?thesis using st e3 fr sub b23 by auto
qed

lemma insert_links_st:
  assumes inv: "cont_inv h c (us @ vs) fs" and pos: "pos = hd (vs @ [endItem c])"
    and alloc: "alloc_item h c = (h1, c1, i)" and same: "same_links h1 h2"
    and link: "link_before h2 (take_free h2 c1 i) i pos = (h3, c3)"
  shows "\<exists>fs'. cont_inv h3 c3 (us @ i # vs) fs' \<and> endItem c3 = endItem c \<and>
           same_outside h h3 (footprint c (us @ vs) fs) \<and> fresh_for h fs i \<and>
           set fs' \<subseteq> set fs \<union> {brk h..<brk h3}"
  using link_taken_st[OF alloc_item_taken[OF inv alloc same] pos link] .

text \<open>The links of a container do not depend on what its type adds to the record.\<close>

definition same_cont :: "'c cont_scheme \<Rightarrow> 'd cont_scheme \<Rightarrow> bool" where
  "same_cont c c' \<longleftrightarrow> endItem c' = endItem c \<and> beginp c' = beginp c \<and> csize c' = csize c \<and>
     freeItem c' = freeItem c \<and> blocks c' = blocks c"

lemma cont_st_same_cont: "same_cont c c' \<Longrightarrow> cont_st h c' xs fs ls = cont_st h c xs fs ls"
  by (simp add: same_cont_def cont_st_def pool_def)

lemma remove_links_st:
  assumes inv: "cont_inv h c (us @ i # vs) fs"
    and un: "unlink h c i = (h1, c1)" and same: "same_links h1 h2"
    and rel: "release h2 c1 i = (h3, c3)"
  shows "cont_inv h3 c3 (us @ vs) (i # fs)" and "nextp h3 i = hd (vs @ [endItem c])"
    and "endItem c3 = endItem c" and "same_outside h h3 (footprint c (us @ i # vs) fs)"
proof -
  note a = unlink_st[OF inv un]
  have b: "cont_st h2 c1 (us @ vs) fs [i]" using cont_st_same_links[OF same] a(1) by blast
  show "cont_inv h3 c3 (us @ vs) (i # fs)" by (rule release_st[OF b rel])
  show "nextp h3 i = hd (vs @ [endItem c])"
    using a(2) rel same by (auto simp: release_def same_links_def)
  show "endItem c3 = endItem c" using un rel by (auto simp: unlink_eq release_def)
  have "same_outside h h2 (set (endItem c # i # us @ vs))"
    using same_outside_links[OF unlink_same[OF inv un] same] .
  then have "same_outside h h3 (set (endItem c # i # us @ vs) \<union> {i})"
    using release_same[OF rel] by (rule same_outside_trans)
  then show "same_outside h h3 (footprint c (us @ i # vs) fs)"
    by (rule same_outside_mono) (auto simp: footprint_def)
qed

text \<open>Two containers stay apart when one of them takes a fresh item.\<close>

lemma footprint_fresh:
  assumes "cont_inv h d ys gs" "footprint c xs fs \<inter> footprint d ys gs = {}" "fresh_for h fs i"
  shows "i \<notin> footprint d ys gs"
  using assms footprint_bound[OF assms(1), of i] by (auto simp: fresh_for_def footprint_def)

lemma footprint_apart:
  assumes "cont_inv h d ys gs" "footprint c xs fs \<inter> footprint d ys gs = {}"
    and "endItem c' = endItem c" "set xs' \<union> set fs' \<subseteq> set xs \<union> set fs \<union> {b. brk h \<le> b}"
  shows "footprint c' xs' fs' \<inter> footprint d ys gs = {}"
proof -
  have "\<forall>a\<in>footprint d ys gs. a < brk h" using footprint_bound[OF assms(1)] by blast
  then have "\<forall>a\<in>footprint d ys gs. a \<notin> {b. brk h \<le> b}" by auto
  moreover have "footprint c' xs' fs' \<subseteq> footprint c xs fs \<union> {b. brk h \<le> b}"
    using assms(3,4) by (auto simp: footprint_def)
  ultimately show ?thesis using assms(2) by blast
qed

section \<open>Swapping two containers\<close>

text \<open>
  \<^verbatim>\<open>if((endItem.prev = last)) { endItem.prev->next = &endItem; _begin.item = first; }
  else _begin.item = &endItem;\<close>
\<close>

definition adopt :: "'z links_scheme \<Rightarrow> 'c cont_scheme \<Rightarrow> addr \<Rightarrow> addr \<Rightarrow> 'z links_scheme \<times> 'c cont_scheme" where
  "adopt h c first lst =
     (let h1 = h\<lparr>prevp := (prevp h)(endItem c := lst)\<rparr> in
      if lst \<noteq> null then (h1\<lparr>nextp := (nextp h1)(lst := endItem c)\<rparr>, c\<lparr>beginp := first\<rparr>)
      else (h1, c\<lparr>beginp := endItem c\<rparr>))"

definition swap_links :: "'z links_scheme \<Rightarrow> 'c cont_scheme \<Rightarrow> 'c cont_scheme \<Rightarrow> 'z links_scheme \<times> 'c cont_scheme \<times> 'c cont_scheme" where
  "swap_links h c d =
     (let tmpFirst = beginp c; tmpLast = prevp h (endItem c); tmpSize = csize c;
          tmpFreeItem = freeItem c; tmpBlocks = blocks c;
          (h1, c1) = adopt h c (beginp d) (prevp h (endItem d));
          c2 = c1\<lparr>csize := csize d, freeItem := freeItem d, blocks := blocks d\<rparr>;
          (h2, d1) = adopt h1 d tmpFirst tmpLast;
          d2 = d1\<lparr>csize := tmpSize, freeItem := tmpFreeItem, blocks := tmpBlocks\<rparr>
      in (h2, c2, d2))"

lemma dseg_retarget:
  assumes "dseg P N a xs e" "distinct xs" "\<And>x. x \<in> set xs \<Longrightarrow> P' x = P x" "P' e' = last (a # xs)"
    and "\<And>x. x \<in> set xs \<Longrightarrow> N' x = (if x = last xs then e' else N x)"
  shows "dseg P' N' a xs e'"
  using assms
proof (induction xs arbitrary: a)
  case Nil
  then show ?case by simp
next
  case (Cons x xs)
  have "dseg P' N' x xs e'"
    by (rule Cons.IH) (use Cons.prems in \<open>auto split: if_splits\<close>)
  moreover have "N' x = hd (xs @ [e'])"
    using Cons.prems(1,2) Cons.prems(5)[of x] by (cases xs) auto
  ultimately show ?case using Cons.prems by auto
qed

lemma adopt_st:
  assumes c: "cont_inv h c xs fs" and d: "dseg P N null ys e" "distinct ys" "null \<notin> set ys"
    and out: "endItem c \<notin> set ys"
    and same: "\<And>y. y \<in> set ys \<Longrightarrow> prevp h y = P y"
      "\<And>y. y \<in> set ys \<Longrightarrow> y \<noteq> last ys \<Longrightarrow> nextp h y = N y"
    and first: "first = hd (ys @ [e])" and lst: "lst = last (null # ys)"
    and eq: "adopt h c first lst = (h', c')"
  shows "dseg (prevp h') (nextp h') null ys (endItem c)" and "beginp c' = hd (ys @ [endItem c])"
    and "prevp h' = (prevp h)(endItem c := lst)"
    and "nextp h' = (if ys = [] then nextp h else (nextp h)(last ys := endItem c))"
    and "c' = c\<lparr>beginp := beginp c'\<rparr>" and "brk h' = brk h"
proof -
  have nn: "last ys \<noteq> null" if "ys \<noteq> []" using d(3) last_in_set[OF that] by metis
  show P': "prevp h' = (prevp h)(endItem c := lst)"
    and N': "nextp h' = (if ys = [] then nextp h else (nextp h)(last ys := endItem c))"
    and "brk h' = brk h" and "c' = c\<lparr>beginp := beginp c'\<rparr>"
    using eq lst nn by (cases "ys = []"; auto simp: adopt_def Let_def)+
  show "beginp c' = hd (ys @ [endItem c])"
    using eq lst first nn by (cases ys) (auto simp: adopt_def Let_def)
  show "dseg (prevp h') (nextp h') null ys (endItem c)"
    by (rule dseg_retarget[OF d(1,2)]) (use same out lst in \<open>auto simp: P' N'\<close>)
qed

lemma swap_links_st:
  assumes c: "cont_inv h c xs fs" and d: "cont_inv h d ys gs"
    and dis: "footprint c xs fs \<inter> footprint d ys gs = {}"
    and eq: "swap_links h c d = (h', c', d')"
  shows "cont_inv h' c' ys gs" "cont_inv h' d' xs fs" "endItem c' = endItem c" "endItem d' = endItem d"
    "\<exists>P N. h' = h\<lparr>prevp := P, nextp := N\<rparr>"
proof -
  let ?e = "endItem c" and ?f = "endItem d"
  obtain h1 c1 where a1: "adopt h c (beginp d) (prevp h ?f) = (h1, c1)" by fastforce
  obtain d1 where a2: "adopt h1 d (beginp c) (prevp h ?e) = (h', d1)"
    and c': "c' = c1\<lparr>csize := csize d, freeItem := freeItem d, blocks := blocks d\<rparr>"
    and d': "d' = d1\<lparr>csize := csize c, freeItem := freeItem c, blocks := blocks c\<rparr>"
    using eq a1 by (auto simp: swap_links_def Let_def split: prod.splits)
  note distc = cont_st_distinct[OF c] and distd = cont_st_distinct[OF d]
  have dis': "?e \<notin> set ys" "?f \<notin> set xs" "?e \<noteq> ?f" "set xs \<inter> set ys = {}"
    "?e \<notin> set gs" "?f \<notin> set fs" "set xs \<inter> set gs = {}" "set ys \<inter> set fs = {}"
    using dis by (auto simp: footprint_def)
  have lc: "prevp h ?e = last (null # xs)" using c by (auto simp: cont_st_def dest: dseg_last_prev)
  have ld: "prevp h ?f = last (null # ys)" using d by (auto simp: cont_st_def dest: dseg_last_prev)
  have bc: "beginp c = hd (xs @ [?e])" using c by (simp add: cont_st_def)
  have bd: "beginp d = hd (ys @ [?f])" using d by (simp add: cont_st_def)
  have dc: "dseg (prevp h) (nextp h) null xs ?e" using c by (simp add: cont_st_def)
  have dd: "dseg (prevp h) (nextp h) null ys ?f" using d by (simp add: cont_st_def)
  have nys: "null \<notin> set ys" using cont_st_valid(1)[OF d] by auto
  have dys: "distinct ys" using distd by simp
  note A = adopt_st[OF c dd dys nys dis'(1) refl refl bd ld a1]
  have r1: "dseg (prevp h1) (nextp h1) null ys ?e" "beginp c1 = hd (ys @ [?e])"
    "prevp h1 = (prevp h)(?e := last (null # ys))"
    "nextp h1 = (if ys = [] then nextp h else (nextp h)(last ys := ?e))"
    "c1 = c\<lparr>beginp := beginp c1\<rparr>" "brk h1 = brk h"
    by (fact A[unfolded ld])+
  have lxs: "last ys \<notin> set xs" "last ys \<notin> set fs" "last ys \<noteq> ?f" if "ys \<noteq> []"
    using dis' that distd by (auto dest: last_in_set)
  have lys: "last xs \<notin> set ys" "last xs \<notin> set gs" "last xs \<noteq> ?e" if "xs \<noteq> []"
    using dis' that distc by (auto dest: last_in_set)
  have nnx: "last xs \<noteq> null" if "xs \<noteq> []" using cont_st_valid(1)[OF c, of "last xs"] that by auto
  have r2P: "prevp h' = (prevp h1)(?f := last (null # xs))"
    and r2N: "nextp h' = (if xs = [] then nextp h1 else (nextp h1)(last xs := ?f))"
    and r2b: "brk h' = brk h" and d1: "d1 = d\<lparr>beginp := beginp d1\<rparr>"
    using a2 lc r1(6) nnx by (cases "xs = []"; auto simp: adopt_def Let_def)+
  have r2B: "beginp d1 = hd (xs @ [?f])"
    using a2 lc bc nnx by (cases xs) (auto simp: adopt_def Let_def)
  have D2: "dseg (prevp h') (nextp h') null xs ?f"
    by (rule dseg_retarget[OF dc])
       (use distc dis' lxs in \<open>auto simp: r2P r2N r1(3,4)\<close>)
  have D1: "dseg (prevp h') (nextp h') null ys ?e"
    by (rule dseg_frame[OF r1(1)]) (use dis' lys distd in \<open>auto simp: r2P r2N\<close>)
  have F1: "fchain (prevp h') (freeItem d) gs"
    by (rule fchain_frame[of "prevp h"]) (use d dis' distd in \<open>auto simp: r2P r1(3) cont_st_def\<close>)
  have F2: "fchain (prevp h') (freeItem c) fs"
    by (rule fchain_frame[of "prevp h"]) (use c dis' distc in \<open>auto simp: r2P r1(3) cont_st_def\<close>)
  have ne: "nextp h ?e = null" "nextp h ?f = null" using c d by (simp_all add: cont_st_def)
  have le: "last ys \<noteq> ?e" if "ys \<noteq> []" using dis'(1) last_in_set[OF that] by metis
  have lf: "last xs \<noteq> ?f" if "xs \<noteq> []" using dis'(2) last_in_set[OF that] by metis
  have "nextp h1 ?e = nextp h ?e" unfolding r1(4) by (cases "ys = []") (use le in auto)
  moreover have "nextp h' ?e = nextp h1 ?e"
    unfolding r2N by (cases "xs = []") (use lys(3) in auto)
  ultimately have E1: "nextp h' ?e = null" by (metis ne(1))
  have "nextp h1 ?f = nextp h ?f" unfolding r1(4) by (cases "ys = []") (use lxs(3) in auto)
  moreover have "nextp h' ?f = nextp h1 ?f"
    unfolding r2N by (cases "xs = []") (use lf in auto)
  ultimately have E2: "nextp h' ?f = null" by (metis ne(2))
  have "endItem c1 = ?e" by (subst r1(5)) simp
  then show ee: "endItem c' = ?e" by (simp add: c')
  have "endItem d1 = ?f" by (subst d1) simp
  then show ff: "endItem d' = ?f" by (simp add: d')
  have pc: "pool c' = pool d" "pool d' = pool c" by (simp_all add: pool_def c' d')
  have vc: "\<forall>a\<in>set (?e # ys @ gs @ []). a < brk h" "null \<notin> set (?e # ys @ gs @ [])"
    and vd: "\<forall>a\<in>set (?f # xs @ fs @ []). a < brk h" "null \<notin> set (?f # xs @ fs @ [])"
    using c d by (auto simp: cont_st_def)
  have sizes: "csize c = length xs" "csize d = length ys" "pool c = set (xs @ fs @ [])"
    "pool d = set (ys @ gs @ [])" using c d by (simp_all add: cont_st_def)
  have B: "beginp c' = beginp c1" "beginp d' = beginp d1" "freeItem c' = freeItem d"
    "freeItem d' = freeItem c" "csize c' = csize d" "csize d' = csize c" by (simp_all add: c' d')
  have dd': "distinct (?e # ys @ gs @ [])" "distinct (?f # xs @ fs @ [])"
    using distc distd dis' by simp_all
  show "cont_inv h' c' ys gs"
    unfolding cont_st_def ee B pc r2b using D1 F1 E1 vc dd'(1) r1(2) sizes by blast
  show "cont_inv h' d' xs fs"
    unfolding cont_st_def ff B pc r2b using D2 F2 E2 vd dd'(2) r2B sizes by blast
  have "h' = h\<lparr>prevp := prevp h', nextp := nextp h'\<rparr>"
    using a1 a2 by (auto simp: adopt_def Let_def split: if_splits)
  then show "\<exists>P N. h' = h\<lparr>prevp := P, nextp := N\<rparr>" by blast
qed

end
