(* ===== verification/Nstd_Interfaces.thy ===== *)
theory Nstd_Interfaces
  imports Nstd_Prelude
begin

text \<open>
  The contracts that the containers share, as the code that uses them sees them. A state may
  be more than the container (the heap it lives in, other containers beside it); an operation
  that might not return gives an option, and the laws promise that it does return.
\<close>

section \<open>Sequences\<close>

text \<open>
  What a copy constructor and \<^verbatim>\<open>operator=\<close> rely on: elements are added at the end, and clearing
  leaves the empty sequence.
\<close>

locale sequence =
  fixes rel :: "'s \<Rightarrow> 'x list \<Rightarrow> bool"
    and push :: "'x \<Rightarrow> 's \<Rightarrow> 's option"
    and wipe :: "'s \<Rightarrow> 's option"
  assumes push_rel: "rel s xs \<Longrightarrow> \<exists>s'. push x s = Some s' \<and> rel s' (xs @ [x])"
    and wipe_rel: "rel s xs \<Longrightarrow> \<exists>s'. wipe s = Some s' \<and> rel s' []"
begin

lemma push_all: "rel s xs \<Longrightarrow> \<exists>s'. foldo push ys s = Some s' \<and> rel s' (xs @ ys)"
proof (induction ys arbitrary: s xs)
  case (Cons y ys)
  obtain s1 where s1: "push y s = Some s1" "rel s1 (xs @ [y])"
    using push_rel[OF Cons.prems] by blast
  with Cons.IH[OF s1(2)] show ?case by auto
qed auto

lemma rebuild:
  assumes "rel s xs"
  shows "\<exists>s'. Option.bind (wipe s) (foldo push ys) = Some s' \<and> rel s' ys"
proof -
  obtain s' where "wipe s = Some s'" "rel s' []" using wipe_rel[OF assms] by blast
  then show ?thesis using push_all[of s' "[]" ys] by simp
qed

end

section \<open>Finite maps\<close>

text \<open>
  What a client of a map container relies on, and histories of updates with their meaning on
  the abstract map.
\<close>

datatype ('k, 'v) map_op = Put 'k 'v | Del 'k

fun apply_op :: "('k, 'v) map_op \<Rightarrow> ('k \<Rightarrow> 'v option) \<Rightarrow> 'k \<Rightarrow> 'v option" where
  "apply_op (Put k v) m = m(k \<mapsto> v)"
| "apply_op (Del k) m = m(k := None)"

locale finite_map =
  fixes rel :: "'s \<Rightarrow> ('k \<Rightarrow> 'v option) \<Rightarrow> bool"
    and look :: "'k \<Rightarrow> 's \<Rightarrow> 'v option option"
    and ins :: "'k \<Rightarrow> 'v \<Rightarrow> 's \<Rightarrow> 's option"
    and del :: "'k \<Rightarrow> 's \<Rightarrow> 's option"
  assumes look_rel: "rel s m \<Longrightarrow> look k s = Some (m k)"
    and ins_rel: "rel s m \<Longrightarrow> \<exists>s'. ins k v s = Some s' \<and> rel s' (m(k \<mapsto> v))"
    and del_rel: "rel s m \<Longrightarrow> \<exists>s'. del k s = Some s' \<and> rel s' (m(k := None))"
begin

lemma look_after_ins:
  assumes "rel s m"
  shows "Option.bind (ins k v s) (look j) = Some (if j = k then Some v else m j)"
proof -
  obtain s' where "ins k v s = Some s'" "rel s' (m(k \<mapsto> v))" using ins_rel[OF assms] by blast
  then show ?thesis by (simp add: look_rel)
qed

lemma look_after_del:
  assumes "rel s m"
  shows "Option.bind (del k s) (look j) = Some (if j = k then None else m j)"
proof -
  obtain s' where "del k s = Some s'" "rel s' (m(k := None))" using del_rel[OF assms] by blast
  then show ?thesis by (simp add: look_rel)
qed

lemma run_rel:
  "rel s m \<Longrightarrow> \<exists>s'. foldo (case_map_op ins del) ops s = Some s' \<and> rel s' (fold apply_op ops m)"
proof (induction ops arbitrary: s m)
  case (Cons op ops)
  have "\<exists>s1. case_map_op ins del op s = Some s1 \<and> rel s1 (apply_op op m)"
    using ins_rel[OF Cons.prems] del_rel[OF Cons.prems] by (cases op) auto
  then obtain s1 where s1: "case_map_op ins del op s = Some s1" "rel s1 (apply_op op m)" by blast
  with Cons.IH[OF s1(2)] show ?case by auto
next
  case Nil
  then show ?case by simp
qed

lemma look_after_run:
  assumes "rel s m"
  shows "Option.bind (foldo (case_map_op ins del) ops s) (look k) = Some (fold apply_op ops m k)"
proof -
  obtain s' where "foldo (case_map_op ins del) ops s = Some s'" "rel s' (fold apply_op ops m)"
    using run_rel[OF assms] by blast
  then show ?thesis by (simp add: look_rel)
qed

end

end
