(* ===== verification/Nstd_List.thy ===== *)
theory Nstd_List
  imports Nstd_Links Nstd_Interfaces "HOL-Library.Multiset"
begin

text \<open>
  \<^verbatim>\<open>List<T>\<close> (include/nstd/List.hpp): a doubly linked list of values. Iterators are item
  addresses; an operation that walks the list is a \<^verbatim>\<open>partial_function\<close>, so that a walk without
  end would be \<open>None\<close>. A list operation whose argument is another list has a second definition
  for the call in which both are the same object, where the code behaves differently.
\<close>

section \<open>State\<close>

record 'a list_heap = links +
  ival :: "addr \<Rightarrow> 'a"

section \<open>Operations\<close>

definition list_insert ::
    "'a list_heap \<Rightarrow> cont \<Rightarrow> addr \<Rightarrow> 'a \<Rightarrow> 'a list_heap \<times> cont \<times> addr" where
  "list_insert h l position v =
     (let (h1, l1, item) = alloc_item h l;
          h2 = h1\<lparr>ival := (ival h1)(item := v)\<rparr>;
          l2 = take_free h2 l1 item;
          (h3, l3) = link_before h2 l2 item position
      in (h3, l3, item))"

definition list_prepend :: "'a list_heap \<Rightarrow> cont \<Rightarrow> 'a \<Rightarrow> 'a list_heap \<times> cont \<times> addr" where
  "list_prepend h l v = list_insert h l (beginp l) v"

definition list_append :: "'a list_heap \<Rightarrow> cont \<Rightarrow> 'a \<Rightarrow> 'a list_heap \<times> cont \<times> addr" where
  "list_append h l v = list_insert h l (endItem l) v"

definition list_remove ::
    "'a list_heap \<Rightarrow> cont \<Rightarrow> addr \<Rightarrow> 'a list_heap \<times> cont \<times> addr" where
  "list_remove h l item =
     (let (h1, l1) = unlink h l item;
          (h2, l2) = release h1 l1 item
      in (h2, l2, nextp h2 item))"

definition list_removeFront :: "'a list_heap \<Rightarrow> cont \<Rightarrow> 'a list_heap \<times> cont \<times> addr" where
  "list_removeFront h l = list_remove h l (beginp l)"

definition list_removeBack :: "'a list_heap \<Rightarrow> cont \<Rightarrow> 'a list_heap \<times> cont \<times> addr" where
  "list_removeBack h l = list_remove h l (prevp h (endItem l))"

definition list_front :: "'a list_heap \<Rightarrow> cont \<Rightarrow> 'a" where
  "list_front h l = ival h (beginp l)"

definition list_back :: "'a list_heap \<Rightarrow> cont \<Rightarrow> 'a" where
  "list_back h l = ival h (prevp h (endItem l))"

definition list_isEmpty :: "'a list_heap \<Rightarrow> cont \<Rightarrow> bool" where
  "list_isEmpty h l \<longleftrightarrow> prevp h (endItem l) = null"

partial_function (option) list_find_loop ::
    "'a list_heap \<Rightarrow> addr \<Rightarrow> addr \<Rightarrow> 'a \<Rightarrow> addr option" where
  "list_find_loop h i e v =
     (if i = e then Some e
      else if ival h i = v then Some i
      else list_find_loop h (nextp h i) e v)"

definition list_find :: "'a list_heap \<Rightarrow> cont \<Rightarrow> 'a \<Rightarrow> addr option" where
  "list_find h l v = list_find_loop h (beginp l) (endItem l) v"

definition list_remove_value ::
    "'a list_heap \<Rightarrow> cont \<Rightarrow> 'a \<Rightarrow> ('a list_heap \<times> cont) option" where
  "list_remove_value h l v =
     Option.bind (list_find h l v) (\<lambda>it.
       if it \<noteq> endItem l then (let (h', l', _) = list_remove h l it in Some (h', l'))
       else Some (h, l))"

text \<open>\<^verbatim>\<open>for(i = first; i != end; i = i->next) insert(pos, i->value);\<close>\<close>

partial_function (option) list_insert_loop ::
    "'a list_heap \<Rightarrow> cont \<Rightarrow> addr \<Rightarrow> addr \<Rightarrow> addr \<Rightarrow> ('a list_heap \<times> cont) option" where
  "list_insert_loop h l pos i e =
     (if i = e then Some (h, l)
      else (let (h1, l1, _) = list_insert h l pos (ival h i)
            in list_insert_loop h1 l1 pos (nextp h1 i) e))"

definition list_insert_list ::
    "'a list_heap \<Rightarrow> cont \<Rightarrow> addr \<Rightarrow> cont \<Rightarrow> ('a list_heap \<times> cont \<times> addr) option" where
  "list_insert_list h l position d =
     (if prevp h (endItem d) = null then Some (h, l, position)
      else (let (h1, l1, result) = list_insert h l position (ival h (beginp d))
            in map_option (\<lambda>(h2, l2). (h2, l2, result))
                 (list_insert_loop h1 l1 position (nextp h1 (beginp d)) (endItem d))))"

text \<open>The same call with \<^verbatim>\<open>&list == this\<close>: \<^verbatim>\<open>list._begin\<close> is read after the first insertion.\<close>

definition list_insert_self ::
    "'a list_heap \<Rightarrow> cont \<Rightarrow> addr \<Rightarrow> ('a list_heap \<times> cont \<times> addr) option" where
  "list_insert_self h l position =
     (if prevp h (endItem l) = null then Some (h, l, position)
      else (let (h1, l1, result) = list_insert h l position (ival h (beginp l))
            in map_option (\<lambda>(h2, l2). (h2, l2, result))
                 (list_insert_loop h1 l1 position (nextp h1 (beginp l1)) (endItem l1))))"

definition list_copy :: "'a list_heap \<Rightarrow> cont \<Rightarrow> ('a list_heap \<times> cont) option" where
  "list_copy h other =
     (let (h1, l) = init_cont h
      in list_insert_loop h1 l (endItem l) (beginp other) (endItem other))"

definition list_assign :: "'a list_heap \<Rightarrow> cont \<Rightarrow> cont \<Rightarrow> ('a list_heap \<times> cont) option" where
  "list_assign h l other =
     Option.bind (clear_links h l) (\<lambda>(h1, l1).
       list_insert_loop h1 l1 (endItem l1) (beginp other) (endItem other))"

text \<open>\<^verbatim>\<open>operator=\<close> with \<^verbatim>\<open>&other == this\<close>\<close>

definition list_assign_self :: "'a list_heap \<Rightarrow> cont \<Rightarrow> ('a list_heap \<times> cont) option" where
  "list_assign_self h l =
     Option.bind (clear_links h l) (\<lambda>(h1, l1).
       list_insert_loop h1 l1 (endItem l1) (beginp l1) (endItem l1))"

partial_function (option) list_eq_loop ::
    "'a list_heap \<Rightarrow> addr \<Rightarrow> addr \<Rightarrow> addr \<Rightarrow> bool option" where
  "list_eq_loop h a b e =
     (if a = e then Some True
      else if ival h a \<noteq> ival h b then Some False
      else list_eq_loop h (nextp h a) (nextp h b) e)"

definition list_eq :: "'a list_heap \<Rightarrow> cont \<Rightarrow> cont \<Rightarrow> bool option" where
  "list_eq h l other =
     (if csize l \<noteq> csize other then Some False
      else list_eq_loop h (beginp l) (beginp other) (endItem l))"

subsection \<open>Sorting\<close>

text \<open>\<^verbatim>\<open>QuickSort\<close> exchanges values and never relinks items.\<close>

definition swap_val :: "'a list_heap \<Rightarrow> addr \<Rightarrow> addr \<Rightarrow> 'a list_heap" where
  "swap_val h a b =
     (let tmp = ival h a; h1 = h\<lparr>ival := (ival h)(a := ival h b)\<rparr>
      in h1\<lparr>ival := (ival h1)(b := tmp)\<rparr>)"

text \<open>The \<^verbatim>\<open>do\<close> loop; \<^verbatim>\<open>pivot\<close> is a reference to \<^verbatim>\<open>left->value\<close>.\<close>

partial_function (option) part_loop ::
    "('a :: linorder) list_heap \<Rightarrow> addr \<Rightarrow> addr \<Rightarrow> addr \<Rightarrow> addr \<Rightarrow> addr
     \<Rightarrow> ('a list_heap \<times> addr \<times> addr) option" where
  "part_loop h left right ptr0 ptr1 ptr2 =
     (let p2 = nextp h ptr2;
          (h', p0, p1) =
            (if ival h p2 < ival h left
             then (swap_val h (nextp h ptr1) p2, ptr1, nextp h ptr1)
             else (h, ptr0, ptr1))
      in if p2 \<noteq> right then part_loop h' left right p0 p1 p2 else Some (h', p0, p1))"

partial_function (option) quick_sort ::
    "('a :: linorder) list_heap \<Rightarrow> addr \<Rightarrow> addr \<Rightarrow> 'a list_heap option" where
  "quick_sort h left right =
     Option.bind (part_loop h left right left left left) (\<lambda>(h1, ptr0, ptr1).
       let h2 = swap_val h1 left ptr1;
           p1 = (if ptr1 \<noteq> right then nextp h2 ptr1 else ptr1)
       in Option.bind (if left \<noteq> ptr0 then quick_sort h2 left ptr0 else Some h2) (\<lambda>h3.
            if p1 \<noteq> right then quick_sort h3 p1 right else Some h3))"

definition list_sort :: "('a :: linorder) list_heap \<Rightarrow> cont \<Rightarrow> 'a list_heap option" where
  "list_sort h l =
     (if prevp h (endItem l) = null \<or> beginp l = prevp h (endItem l) then Some h
      else quick_sort h (beginp l) (prevp h (endItem l)))"

section \<open>What a list holds\<close>

text \<open>\<open>xs\<close> are the items, \<open>vs\<close> their values, from first to last.\<close>

definition list_ok :: "'a list_heap \<Rightarrow> cont \<Rightarrow> addr list \<Rightarrow> 'a list \<Rightarrow> bool" where
  "list_ok h l xs vs \<longleftrightarrow> (\<exists>fs. cont_inv h l xs fs) \<and> vs = map (ival h) xs"

text \<open>Two containers that share no item.\<close>

definition apart :: "cont \<Rightarrow> cont \<Rightarrow> bool" where
  "apart l d \<longleftrightarrow> insert (endItem l) (pool l) \<inter> insert (endItem d) (pool d) = {}"

text \<open>From \<open>(h, l)\<close> to \<open>(h', l')\<close> every other list stays what it was.\<close>

definition list_frame :: "'a list_heap \<Rightarrow> cont \<Rightarrow> 'a list_heap \<Rightarrow> cont \<Rightarrow> bool" where
  "list_frame h l h' l' \<longleftrightarrow>
     (\<forall>d ys ws. list_ok h d ys ws \<longrightarrow> apart l d \<longrightarrow> list_ok h' d ys ws \<and> apart l' d)"

lemma list_frame_refl [simp]: "list_frame h l h l"
  by (simp add: list_frame_def)

lemma list_frame_trans:
  "list_frame h l h1 l1 \<Longrightarrow> list_frame h1 l1 h2 l2 \<Longrightarrow> list_frame h l h2 l2"
  unfolding list_frame_def by blast

lemma list_okE:
  assumes "list_ok h l xs vs"
  obtains fs where "cont_inv h l xs fs" "vs = map (ival h) xs"
  using assms by (auto simp: list_ok_def)

lemma list_ok_ends:
  assumes "list_ok h l xs vs"
  shows "beginp l = hd (xs @ [endItem l])" "prevp h (endItem l) = last (null # xs)"
    "csize l = length vs" "distinct xs" "endItem l \<notin> set xs" "null \<notin> set xs"
    "prevp h (endItem l) = null \<longleftrightarrow> xs = []"
proof -
  obtain fs where inv: "cont_inv h l xs fs" and vs: "vs = map (ival h) xs"
    using assms by (rule list_okE)
  show "beginp l = hd (xs @ [endItem l])" "csize l = length vs" "distinct xs"
    "endItem l \<notin> set xs" "null \<notin> set xs"
    using inv vs by (auto simp: cont_st_def)
  show P: "prevp h (endItem l) = last (null # xs)"
    using inv by (auto simp: cont_st_def dest: dseg_last_prev)
  show "prevp h (endItem l) = null \<longleftrightarrow> xs = []"
    using P cont_st_valid(1)[OF inv, of "last xs"] by auto
qed

lemma list_ok_next:
  assumes "list_ok h l (us @ x # vs) ws"
  shows "nextp h x = hd (vs @ [endItem l])"
  using assms by (auto simp: list_ok_def cont_st_def dest: dseg_mid_next)

lemma apart_footprint:
  assumes "cont_inv h l xs fs" "cont_inv h d ys gs"
  shows "apart l d \<longleftrightarrow> footprint l xs fs \<inter> footprint d ys gs = {}"
  using footprint_pool[OF assms(1)] footprint_pool[OF assms(2)] by (simp add: apart_def)

lemma list_frameI:
  assumes inv: "cont_inv h l xs fs" and inv': "cont_inv h' l' xs' fs'"
    and same: "same_outside h h' (footprint l xs fs)" and e: "endItem l' = endItem l"
    and items: "set xs' \<union> set fs' \<subseteq> set xs \<union> set fs \<union> {b. brk h \<le> b}"
    and vals: "\<And>a. a < brk h \<Longrightarrow> a \<notin> footprint l xs fs \<Longrightarrow> ival h' a = ival h a"
  shows "list_frame h l h' l'"
  unfolding list_frame_def
proof (intro allI impI)
  fix d ys ws assume d: "list_ok h d ys ws" and ap: "apart l d"
  obtain gs where gs: "cont_inv h d ys gs" and ws: "ws = map (ival h) ys"
    using d by (rule list_okE)
  have dis: "footprint l xs fs \<inter> footprint d ys gs = {}"
    using ap apart_footprint[OF inv gs] by simp
  have d': "cont_inv h' d ys gs"
    using cont_inv_other[OF gs same] dis by blast
  moreover have "ival h' y = ival h y" if "y \<in> set ys" for y
  proof (rule vals)
    have "y \<in> footprint d ys gs" using that by (simp add: footprint_def)
    then show "y < brk h" "y \<notin> footprint l xs fs"
      using footprint_bound[OF gs] dis by auto
  qed
  ultimately have "list_ok h' d ys ws" using ws by (auto simp: list_ok_def)
  moreover have "footprint l' xs' fs' \<inter> footprint d ys gs = {}"
    by (rule footprint_apart[OF gs dis e items])
  then have "apart l' d" using apart_footprint[OF inv' d'] by simp
  ultimately show "list_ok h' d ys ws \<and> apart l' d" ..
qed

section \<open>Inserting and removing\<close>

lemma list_insert_ok:
  assumes ok: "list_ok h l (us @ vs) ws" and pos: "pos = hd (vs @ [endItem l])"
  shows "\<exists>h' l' i. list_insert h l pos v = (h', l', i) \<and>
           list_ok h' l' (us @ i # vs) (map (ival h) us @ v # map (ival h) vs) \<and>
           endItem l' = endItem l \<and> ival h' = (ival h)(i := v) \<and> i \<notin> set (us @ vs) \<and>
           list_frame h l h' l'"
proof -
  obtain fs where inv: "cont_inv h l (us @ vs) fs" using ok by (rule list_okE)
  obtain h1 l1 i where a: "alloc_item h l = (h1, l1, i)" by (metis prod_cases3)
  define h2 where "h2 = h1\<lparr>ival := (ival h1)(i := v)\<rparr>"
  obtain h3 l3 where b: "link_before h2 (take_free h2 l1 i) i pos = (h3, l3)" by fastforce
  have same: "same_links h1 h2" by (simp add: same_links_def h2_def)
  obtain fs' where inv': "cont_inv h3 l3 (us @ i # vs) fs'" and e: "endItem l3 = endItem l"
    and out: "same_outside h h3 (footprint l (us @ vs) fs)" and fr: "fresh_for h fs i"
    and sub: "set fs' \<subseteq> set fs \<union> {brk h..<brk h3}"
    using insert_links_st[OF inv pos a same b] by blast
  have new: "i \<notin> set (us @ vs)" using cont_st_distinct[OF inv'] by auto
  have h1v: "ival h1 = ival h" using a by (auto simp: alloc_item_eq split: if_splits)
  then have vals: "ival h3 = (ival h)(i := v)" using b by (auto simp: link_before_eq h2_def)
  have "list_insert h l pos v = (h3, l3, i)"
    by (simp add: list_insert_def a b h2_def[symmetric])
  moreover have "map (ival h3) (us @ i # vs) = map (ival h) us @ v # map (ival h) vs"
    using new by (simp add: vals)
  then have "list_ok h3 l3 (us @ i # vs) (map (ival h) us @ v # map (ival h) vs)"
    using inv' by (auto simp: list_ok_def)
  moreover have "list_frame h l h3 l3"
    by (rule list_frameI[OF inv inv' out e])
       (use fr sub in \<open>auto simp: vals fresh_for_def footprint_def\<close>)
  ultimately show ?thesis using e vals new by blast
qed

lemma list_remove_ok:
  assumes ok: "list_ok h l (us @ i # vs) ws"
  shows "\<exists>h' l'. list_remove h l i = (h', l', hd (vs @ [endItem l])) \<and>
           list_ok h' l' (us @ vs) (map (ival h) (us @ vs)) \<and>
           endItem l' = endItem l \<and> ival h' = ival h \<and> list_frame h l h' l'"
proof -
  obtain fs where inv: "cont_inv h l (us @ i # vs) fs" using ok by (rule list_okE)
  obtain h1 l1 where a: "unlink h l i = (h1, l1)" by fastforce
  obtain h2 l2 where b: "release h1 l1 i = (h2, l2)" by fastforce
  have same: "same_links h1 h1" by (simp add: same_links_def)
  note R = remove_links_st[OF inv a same b]
  have vals: "ival h2 = ival h" using a b by (auto simp: unlink_eq release_def)
  have "list_remove h l i = (h2, l2, hd (vs @ [endItem l]))"
    by (simp add: list_remove_def a b R(2))
  moreover have "list_ok h2 l2 (us @ vs) (map (ival h) (us @ vs))"
    using R(1) vals by (auto simp: list_ok_def)
  moreover have "list_frame h l h2 l2"
    by (rule list_frameI[OF inv R(1,4,3)]) (auto simp: vals)
  ultimately show ?thesis using R(3) vals by blast
qed

lemma list_clear_ok:
  assumes ok: "list_ok h l xs vs"
  shows "\<exists>h' l'. clear_links h l = Some (h', l') \<and> list_ok h' l' [] [] \<and>
           endItem l' = endItem l \<and> ival h' = ival h \<and> list_frame h l h' l'"
proof -
  obtain fs where inv: "cont_inv h l xs fs" using ok by (rule list_okE)
  obtain h' l' p where c: "clear_links h l = Some (h', l')" "cont_inv h' l' [] (rev xs @ fs)"
    "endItem l' = endItem l" "h' = h\<lparr>prevp := p\<rparr>" "same_outside h h' (footprint l xs fs)"
    using clear_links_st[OF inv] by blast
  have "list_frame h l h' l'"
    by (rule list_frameI[OF inv c(2,5,3)]) (auto simp: c(4))
  then show ?thesis using c by (auto simp: list_ok_def)
qed

section \<open>Searching\<close>

lemma list_find_loop_ok:
  assumes "list_ok h l (us @ xs) ws"
  shows "list_find_loop h (hd (xs @ [endItem l])) (endItem l) v
           = Some (hd (dropWhile (\<lambda>x. ival h x \<noteq> v) xs @ [endItem l]))"
  using assms
proof (induction xs arbitrary: us)
  case Nil
  then show ?case by (subst list_find_loop.simps) simp
next
  case (Cons x xs)
  have "list_find_loop h (hd (xs @ [endItem l])) (endItem l) v
          = Some (hd (dropWhile (\<lambda>x. ival h x \<noteq> v) xs @ [endItem l]))"
    using Cons.IH[of "us @ [x]"] Cons.prems by simp
  moreover have "x \<noteq> endItem l" using list_ok_ends(5)[OF Cons.prems] by auto
  ultimately show ?case using list_ok_next[OF Cons.prems]
    by (subst list_find_loop.simps) simp
qed

lemma list_find_ok:
  assumes "list_ok h l xs vs"
  shows "list_find h l v = Some (hd (dropWhile (\<lambda>x. ival h x \<noteq> v) xs @ [endItem l]))"
  using list_find_loop_ok[of h l "[]"] assms list_ok_ends(1)[OF assms]
  by (simp add: list_find_def)

lemma list_remove_value_ok:
  assumes ok: "list_ok h l xs vs"
  shows "\<exists>h' l' xs'. list_remove_value h l v = Some (h', l') \<and> list_ok h' l' xs' (remove1 v vs) \<and>
           endItem l' = endItem l \<and> list_frame h l h' l'"
proof -
  have vs: "vs = map (ival h) xs" using ok by (simp add: list_ok_def)
  let ?ys = "takeWhile (\<lambda>x. ival h x \<noteq> v) xs" and ?zs = "dropWhile (\<lambda>x. ival h x \<noteq> v) xs"
  have split: "xs = ?ys @ ?zs" by simp
  have ys: "v \<notin> set (map (ival h) ?ys)" by (auto dest: set_takeWhileD)
  show ?thesis
  proof (cases ?zs)
    case Nil
    then have "v \<notin> set vs" using ys split vs by (metis append_Nil2)
    then have "remove1 v vs = vs" by (rule remove1_idem)
    moreover have "list_remove_value h l v = Some (h, l)"
      using list_find_ok[OF ok, of v] Nil by (simp add: list_remove_value_def)
    ultimately show ?thesis using ok by auto
  next
    case (Cons i zs)
    then have i: "ival h i = v" by (metis (mono_tags, lifting) dropWhile_eq_Cons_conv)
    have ok': "list_ok h l (?ys @ i # zs) vs" using ok split Cons by simp
    then have "i \<noteq> endItem l" using list_ok_ends(5)[OF ok'] by auto
    moreover have "list_find h l v = Some i" using list_find_ok[OF ok, of v] Cons by simp
    moreover obtain h' l' where r: "list_remove h l i = (h', l', hd (zs @ [endItem l]))"
      "list_ok h' l' (?ys @ zs) (map (ival h) (?ys @ zs))" "endItem l' = endItem l"
      "list_frame h l h' l'"
      using list_remove_ok[OF ok'] by blast
    moreover have "vs = map (ival h) (?ys @ i # zs)" using vs split Cons by simp
    then have "remove1 v vs = map (ival h) (?ys @ zs)"
      using ys i by (simp add: remove1_append)
    ultimately show ?thesis by (auto simp: list_remove_value_def)
  qed
qed

section \<open>Copying from another list\<close>

lemma list_insert_loop_ok:
  assumes "list_ok h l (us @ vs) ws" and "pos = hd (vs @ [endItem l])"
    and "list_ok h d (ys0 @ ys) zs" and "apart l d"
  shows "\<exists>h' l' xs. list_insert_loop h l pos (hd (ys @ [endItem d])) (endItem d) = Some (h', l') \<and>
           list_ok h' l' (us @ xs @ vs) (map (ival h) us @ map (ival h) ys @ map (ival h) vs) \<and>
           endItem l' = endItem l \<and> list_frame h l h' l'"
  using assms
proof (induction ys arbitrary: h l us ys0 ws zs)
  case Nil
  then show ?case
    by (subst list_insert_loop.simps) (auto simp: list_ok_def intro!: exI[of _ h] exI[of _ l] exI[of _ "[]"])
next
  case (Cons y ys)
  note okl = Cons.prems(1) and okd = Cons.prems(3)
  obtain h1 l1 i where ins: "list_insert h l pos (ival h y) = (h1, l1, i)"
    and ok1: "list_ok h1 l1 (us @ i # vs) (map (ival h) us @ ival h y # map (ival h) vs)"
    and e1: "endItem l1 = endItem l" and v1: "ival h1 = (ival h)(i := ival h y)"
    and i: "i \<notin> set (us @ vs)" and fr: "list_frame h l h1 l1"
    using list_insert_ok[OF okl Cons.prems(2), of "ival h y"] by blast
  have okd1: "list_ok h1 d (ys0 @ y # ys) zs" and ap: "apart l1 d"
    using fr okd Cons.prems(4) unfolding list_frame_def by blast+
  have zs: "map (ival h) (ys0 @ y # ys) = map (ival h1) (ys0 @ y # ys)"
    using okd okd1 by (simp add: list_ok_def)
  have "\<exists>h' l' xs. list_insert_loop h1 l1 pos (hd (ys @ [endItem d])) (endItem d) = Some (h', l') \<and>
           list_ok h' l' ((us @ [i]) @ xs @ vs)
             (map (ival h1) (us @ [i]) @ map (ival h1) ys @ map (ival h1) vs) \<and>
           endItem l' = endItem l1 \<and> list_frame h1 l1 h' l'"
    by (rule Cons.IH[of h1 l1 "us @ [i]" _ "ys0 @ [y]"])
       (use ok1 okd1 ap e1 Cons.prems(2) in auto)
  then obtain h' l' xs where rec: "list_insert_loop h1 l1 pos (hd (ys @ [endItem d])) (endItem d)
         = Some (h', l')"
      "list_ok h' l' ((us @ [i]) @ xs @ vs)
             (map (ival h1) (us @ [i]) @ map (ival h1) ys @ map (ival h1) vs)"
      "endItem l' = endItem l1" "list_frame h1 l1 h' l'" by blast
  have vals: "map (ival h1) (us @ [i]) @ map (ival h1) ys @ map (ival h1) vs
      = map (ival h) us @ map (ival h) (y # ys) @ map (ival h) vs"
    using v1 i zs by simp
  have "y \<noteq> endItem d" using list_ok_ends(5)[OF okd] by auto
  then have "list_insert_loop h l pos (hd ((y # ys) @ [endItem d])) (endItem d) = Some (h', l')"
    using rec(1) list_ok_next[OF okd1] by (subst list_insert_loop.simps) (simp add: ins)
  moreover have "list_ok h' l' (us @ (i # xs) @ vs)
      (map (ival h) us @ map (ival h) (y # ys) @ map (ival h) vs)"
    using rec(2) unfolding vals by simp
  ultimately show ?case using rec(3,4) e1 list_frame_trans[OF fr] by metis
qed

lemma list_insert_list_ok:
  assumes l: "list_ok h l (us @ vs) ws" and pos: "pos = hd (vs @ [endItem l])"
    and d: "list_ok h d ys zs" and ap: "apart l d"
  shows "\<exists>h' l' xs. list_insert_list h l pos d = Some (h', l', hd (xs @ vs @ [endItem l])) \<and>
           list_ok h' l' (us @ xs @ vs) (map (ival h) us @ zs @ map (ival h) vs) \<and>
           length xs = length zs \<and> endItem l' = endItem l \<and> list_frame h l h' l'"
proof (cases ys)
  case Nil
  then have "zs = []" "prevp h (endItem d) = null"
    using d list_ok_ends(7)[OF d] by (auto simp: list_ok_def)
  then show ?thesis using l pos
    by (intro exI[of _ h] exI[of _ l] exI[of _ "[]"]) (auto simp: list_insert_list_def list_ok_def)
next
  case (Cons y ys')
  have zs: "zs = map (ival h) (y # ys')" using d Cons by (simp add: list_ok_def)
  have bd: "beginp d = y" using list_ok_ends(1)[OF d] Cons by simp
  obtain h1 l1 i where ins: "list_insert h l pos (ival h y) = (h1, l1, i)"
    and ok1: "list_ok h1 l1 (us @ i # vs) (map (ival h) us @ ival h y # map (ival h) vs)"
    and e1: "endItem l1 = endItem l" and v1: "ival h1 = (ival h)(i := ival h y)"
    and i: "i \<notin> set (us @ vs)" and fr: "list_frame h l h1 l1"
    using list_insert_ok[OF l pos, of "ival h y"] by blast
  have d1: "list_ok h1 d ([y] @ ys') zs" and ap1: "apart l1 d"
    using fr d ap unfolding list_frame_def Cons by auto
  have keep: "map (ival h1) (y # ys') = zs" using d1 by (simp add: list_ok_def)
  have "\<exists>h' l' xs. list_insert_loop h1 l1 pos (hd (ys' @ [endItem d])) (endItem d) = Some (h', l')
      \<and> list_ok h' l' ((us @ [i]) @ xs @ vs)
         (map (ival h1) (us @ [i]) @ map (ival h1) ys' @ map (ival h1) vs)
      \<and> endItem l' = endItem l1 \<and> list_frame h1 l1 h' l'"
    by (rule list_insert_loop_ok[OF _ _ d1 ap1]) (use ok1 pos e1 in simp_all)
  then obtain h' l' xs where loop: "list_insert_loop h1 l1 pos (hd (ys' @ [endItem d])) (endItem d)
         = Some (h', l')"
      "list_ok h' l' ((us @ [i]) @ xs @ vs)
         (map (ival h1) (us @ [i]) @ map (ival h1) ys' @ map (ival h1) vs)"
      "endItem l' = endItem l1" "list_frame h1 l1 h' l'" by blast
  have "prevp h (endItem d) \<noteq> null" using list_ok_ends(7)[OF d] Cons by simp
  then have "list_insert_list h l pos d = Some (h', l', i)"
    using loop(1) list_ok_next[of h1 d "[]" y ys'] d1
    by (simp add: list_insert_list_def bd ins)
  moreover have vals: "map (ival h1) (us @ [i]) @ map (ival h1) ys' @ map (ival h1) vs
      = map (ival h) us @ zs @ map (ival h) vs"
    using v1 i keep zs by simp
  then have fin: "list_ok h' l' (us @ (i # xs) @ vs) (map (ival h) us @ zs @ map (ival h) vs)"
    using loop(2) unfolding vals by simp
  moreover have "length (us @ (i # xs) @ vs) = length (map (ival h) us @ zs @ map (ival h) vs)"
    using fin unfolding list_ok_def by (metis length_map)
  ultimately show ?thesis using loop(3,4) e1 list_frame_trans[OF fr]
    by (intro exI[of _ h'] exI[of _ l'] exI[of _ "i # xs"]) auto
qed

subsection \<open>Lists as sequences\<close>

text \<open>
  The contract of \<^verbatim>\<open>append\<close> and \<^verbatim>\<open>clear\<close>, beside a list \<open>d\<close> that holds \<open>ws\<close>.
\<close>

definition list_beside ::
    "cont \<Rightarrow> addr list \<Rightarrow> 'a list \<Rightarrow> 'a list_heap \<times> cont \<Rightarrow> 'a list \<Rightarrow> bool" where
  "list_beside d ys ws s vs \<longleftrightarrow>
     (case s of (h, l) \<Rightarrow> (\<exists>xs. list_ok h l xs vs) \<and> list_ok h d ys ws \<and> apart l d)"

definition list_push :: "'a \<Rightarrow> 'a list_heap \<times> cont \<Rightarrow> ('a list_heap \<times> cont) option" where
  "list_push v s = (case s of (h, l) \<Rightarrow> (case list_append h l v of (h', l', _) \<Rightarrow> Some (h', l')))"

definition list_wipe :: "'a list_heap \<times> cont \<Rightarrow> ('a list_heap \<times> cont) option" where
  "list_wipe s = (case s of (h, l) \<Rightarrow> clear_links h l)"

lemma list_append_ok:
  assumes ok: "list_ok h l xs vs"
  shows "\<exists>h' l' i. list_append h l v = (h', l', i) \<and> list_ok h' l' (xs @ [i]) (vs @ [v]) \<and>
           endItem l' = endItem l \<and> ival h' = (ival h)(i := v) \<and> i \<notin> set xs \<and> list_frame h l h' l'"
proof -
  have "vs = map (ival h) xs" using ok by (simp add: list_ok_def)
  then show ?thesis
    using list_insert_ok[of h l xs "[]" vs "endItem l" v] ok by (simp add: list_append_def)
qed

lemma list_prepend_ok:
  assumes ok: "list_ok h l xs vs"
  shows "\<exists>h' l' i. list_prepend h l v = (h', l', i) \<and> list_ok h' l' (i # xs) (v # vs) \<and>
           endItem l' = endItem l \<and> ival h' = (ival h)(i := v) \<and> i \<notin> set xs \<and> list_frame h l h' l'"
proof -
  have "vs = map (ival h) xs" using ok by (simp add: list_ok_def)
  then show ?thesis
    using list_insert_ok[of h l "[]" xs vs "beginp l" v] ok list_ok_ends(1)[OF ok]
    by (simp add: list_prepend_def)
qed

lemma list_push_beside:
  assumes "list_beside d ys ws s vs"
  shows "\<exists>s'. list_push v s = Some s' \<and> list_beside d ys ws s' (vs @ [v])"
proof -
  obtain h l xs where s: "s = (h, l)" and ok: "list_ok h l xs vs" and d: "list_ok h d ys ws" "apart l d"
    using assms by (auto simp: list_beside_def)
  obtain h' l' i where a: "list_append h l v = (h', l', i)" "list_ok h' l' (xs @ [i]) (vs @ [v])"
      "list_frame h l h' l'" using list_append_ok[OF ok] by blast
  moreover have "list_ok h' d ys ws" "apart l' d" using a(3) d unfolding list_frame_def by blast+
  ultimately show ?thesis by (auto simp: list_push_def list_beside_def s)
qed

lemma list_wipe_beside:
  assumes "list_beside d ys ws s vs"
  shows "\<exists>s'. list_wipe s = Some s' \<and> list_beside d ys ws s' []"
proof -
  obtain h l xs where s: "s = (h, l)" and ok: "list_ok h l xs vs" and d: "list_ok h d ys ws" "apart l d"
    using assms by (auto simp: list_beside_def)
  obtain h' l' where a: "clear_links h l = Some (h', l')" "list_ok h' l' [] []"
      "list_frame h l h' l'" using list_clear_ok[OF ok] by blast
  moreover have "list_ok h' d ys ws" "apart l' d" using a(3) d unfolding list_frame_def by blast+
  ultimately show ?thesis by (auto simp: list_wipe_def list_beside_def s)
qed

interpretation lseq: sequence "list_beside d ys ws" list_push list_wipe for d ys ws
  by unfold_locales (fact list_push_beside list_wipe_beside)+

text \<open>The copying loop is a sequence of \<^verbatim>\<open>append\<close>s of the other list's values.\<close>

lemma list_insert_loop_foldo:
  assumes "list_beside d (ys0 @ ys) ws (h, l) vs"
  shows "list_insert_loop h l (endItem l) (hd (ys @ [endItem d])) (endItem d)
           = foldo list_push (map (ival h) ys) (h, l)"
  using assms
proof (induction ys arbitrary: h l ys0 vs)
  case Nil
  then show ?case by (subst list_insert_loop.simps) simp
next
  case (Cons y ys)
  obtain xs where ok: "list_ok h l xs vs" and okd: "list_ok h d (ys0 @ y # ys) ws" and ap: "apart l d"
    using Cons.prems by (auto simp: list_beside_def)
  obtain h1 l1 i where a: "list_append h l (ival h y) = (h1, l1, i)"
      "list_ok h1 l1 (xs @ [i]) (vs @ [ival h y])" "endItem l1 = endItem l"
      "list_frame h l h1 l1" using list_append_ok[OF ok] by blast
  have d1: "list_ok h1 d (ys0 @ y # ys) ws" "apart l1 d"
    using a(4) okd ap unfolding list_frame_def by blast+
  then have "list_beside d ((ys0 @ [y]) @ ys) ws (h1, l1) (vs @ [ival h y])"
    using a(2) by (auto simp: list_beside_def)
  then have IH: "list_insert_loop h1 l1 (endItem l) (hd (ys @ [endItem d])) (endItem d)
           = foldo list_push (map (ival h1) ys) (h1, l1)"
    using Cons.IH a(3) by metis
  have vals: "map (ival h1) ys = map (ival h) ys"
    using d1(1) okd by (simp add: list_ok_def)
  have "y \<noteq> endItem d" using list_ok_ends(5)[OF okd] by auto
  then show ?case using IH list_ok_next[OF d1(1)] a(1) vals
    by (subst list_insert_loop.simps) (simp add: list_push_def list_append_def)
qed

lemma list_assign_ok:
  assumes l: "list_ok h l xs vs" and d: "list_ok h d ys ws" and ap: "apart l d"
  shows "\<exists>h' l' xs'. list_assign h l d = Some (h', l') \<and> list_ok h' l' xs' ws \<and>
           list_ok h' d ys ws \<and> apart l' d"
proof -
  have b: "list_beside d ys ws (h, l) vs" using assms by (auto simp: list_beside_def)
  obtain h1 l1 where w: "clear_links h l = Some (h1, l1)" and b1: "list_beside d ys ws (h1, l1) []"
    using lseq.wipe_rel[OF b] by (auto simp: list_wipe_def)
  have d1: "list_ok h1 d ys ws" using b1 by (simp add: list_beside_def)
  have "list_assign h l d = Option.bind (list_wipe (h, l)) (foldo list_push ws)"
    using list_insert_loop_foldo[of d "[]" ys ws h1 l1] b1 list_ok_ends(1)[OF d1] d1
    by (simp add: list_assign_def list_wipe_def w list_ok_def)
  then show ?thesis using lseq.rebuild[OF b, of ws] by (auto simp: list_beside_def)
qed

lemma list_copy_ok:
  assumes d: "list_ok h d ys ws"
  shows "\<exists>h' l' xs'. list_copy h d = Some (h', l') \<and> list_ok h' l' xs' ws \<and>
           list_ok h' d ys ws \<and> apart l' d"
proof -
  obtain gs where inv: "cont_inv h d ys gs" using d by (rule list_okE)
  have pos: "0 < brk h" using cont_st_valid[OF inv, of "endItem d"] by auto
  obtain h1 l where i: "init_cont h = (h1, l)" by fastforce
  have l: "cont_inv h1 l [] []" by (rule init_cont_st[OF i pos])
  have "cont_inv h1 d ys gs"
    by (rule cont_inv_frame[OF inv])
       (use i in \<open>auto simp: init_cont_def dest: footprint_bound[OF inv]\<close>)
  then have d1: "list_ok h1 d ys ws" using d i by (auto simp: list_ok_def init_cont_def)
  have "footprint l [] [] \<inter> footprint d ys gs = {}"
    using i footprint_bound[OF inv] by (fastforce simp: init_cont_def footprint_def)
  then have "apart l d"
    using apart_footprint[OF l \<open>cont_inv h1 d ys gs\<close>] by simp
  then have b: "list_beside d ([] @ ys) ws (h1, l) []"
    using l d1 by (auto simp: list_beside_def list_ok_def)
  have "list_copy h d = foldo list_push ws (h1, l)"
    using list_insert_loop_foldo[OF b] list_ok_ends(1)[OF d1] d1
    by (simp add: list_copy_def i list_ok_def)
  then show ?thesis using lseq.push_all[of d ys ws "(h1, l)" "[]" ws] b
    by (auto simp: list_beside_def)
qed

section \<open>A list inserted into itself\<close>

text \<open>
  Behind its first item the walk never reaches the end: every step adds an item between the
  walk and the insertion position.
\<close>

lemma list_insert_loop_diverges:
  "list_insert_loop h l pos i e = Some r \<Longrightarrow> list_ok h l (us @ vs) ws \<Longrightarrow> i \<in> set us \<Longrightarrow>
    pos = hd (vs @ [endItem l]) \<Longrightarrow> e = endItem l \<Longrightarrow> False"
proof (induction arbitrary: us ws rule: list_insert_loop.raw_induct[rotated, consumes 1, case_names step])
  case (step loop h l pos i e r us ws)
  note ok = step(3) and i = step(4) and pos = step(5) and e = step(6)
  have "i \<noteq> e" using list_ok_ends(5)[OF ok] i e by auto
  obtain h1 l1 z where ins: "list_insert h l pos (ival h i) = (h1, l1, z)"
    and ok1: "list_ok h1 l1 (us @ z # vs) (map (ival h) us @ ival h i # map (ival h) vs)"
    and e1: "endItem l1 = endItem l"
    using list_insert_ok[OF ok pos] by blast
  have loop: "loop h1 l1 pos (nextp h1 i) e = Some r"
    using step(2) \<open>i \<noteq> e\<close> ins by simp
  obtain as bs where us: "us = as @ i # bs" using i by (meson split_list)
  have "nextp h1 i = hd (bs @ z # vs @ [endItem l1])"
    using list_ok_next[of h1 l1 as i "bs @ z # vs"] ok1 us by simp
  then have "nextp h1 i \<in> set (us @ [z])" using us by (cases bs) auto
  then show False
    using step(1)[OF loop, of "us @ [z]"] ok1 pos e e1 by simp
qed

lemma list_insert_self_diverges:
  assumes ok: "list_ok h l (us @ vs) ws" and pos: "pos = hd (vs @ [endItem l])" and us: "us \<noteq> []"
  shows "list_insert_self h l pos = None"
proof (rule ccontr)
  assume "list_insert_self h l pos \<noteq> None"
  have b: "beginp l \<in> set us" using list_ok_ends(1)[OF ok] us by (cases us) auto
  have ne: "prevp h (endItem l) \<noteq> null" using list_ok_ends(7)[OF ok] us by simp
  obtain h1 l1 z where ins: "list_insert h l pos (ival h (beginp l)) = (h1, l1, z)"
    and ok1: "list_ok h1 l1 (us @ z # vs) (map (ival h) us @ ival h (beginp l) # map (ival h) vs)"
    and e1: "endItem l1 = endItem l"
    using list_insert_ok[OF ok pos] by blast
  obtain x us' where x: "us = x # us'" using us by (cases us) auto
  have b1: "beginp l1 = x" using list_ok_ends(1)[OF ok1] x by simp
  have "nextp h1 x = hd ((us' @ z # vs) @ [endItem l1])"
    using list_ok_next[of h1 l1 "[]" x "us' @ z # vs"] ok1 x by simp
  then have i: "nextp h1 x \<in> set (us @ [z])" by (cases us') (auto simp: x)
  obtain r where "list_insert_loop h1 l1 pos (nextp h1 x) (endItem l1) = Some r"
    using \<open>list_insert_self h l pos \<noteq> None\<close> ne by (auto simp: list_insert_self_def ins b1)
  then show False
    using list_insert_loop_diverges[of h1 l1 pos _ _ r "us @ [z]" vs] ok1 i pos e1 by simp
qed

text \<open>In front of its first item the walk ends, and the first value has been inserted twice.\<close>

lemma list_insert_loop_front:
  assumes "list_ok h l (us @ zs @ ys) ws" and "zs @ ys \<noteq> []" and "pos = hd (zs @ ys)"
  shows "\<exists>h' l' xs. list_insert_loop h l pos (hd (ys @ [endItem l])) (endItem l) = Some (h', l') \<and>
           list_ok h' l' (us @ xs @ zs @ ys) (map (ival h) (us @ ys @ zs @ ys)) \<and>
           endItem l' = endItem l"
  using assms
proof (induction ys arbitrary: h l us zs ws)
  case Nil
  then show ?case
    by (subst list_insert_loop.simps)
       (auto simp: list_ok_def intro!: exI[of _ h] exI[of _ l] exI[of _ "[]"])
next
  case (Cons y ys)
  note ok = Cons.prems(1)
  have pos: "pos = hd ((zs @ y # ys) @ [endItem l])" using Cons.prems(2,3) by (cases zs) auto
  obtain h1 l1 i where ins: "list_insert h l pos (ival h y) = (h1, l1, i)"
    and ok1: "list_ok h1 l1 (us @ i # zs @ y # ys)
                (map (ival h) us @ ival h y # map (ival h) (zs @ y # ys))"
    and e1: "endItem l1 = endItem l" and v1: "ival h1 = (ival h)(i := ival h y)"
    and i: "i \<notin> set (us @ zs @ y # ys)"
    using list_insert_ok[OF ok pos, of "ival h y"] by blast
  have "\<exists>h' l' xs. list_insert_loop h1 l1 pos (hd (ys @ [endItem l1])) (endItem l1) = Some (h', l') \<and>
           list_ok h' l' ((us @ [i]) @ xs @ (zs @ [y]) @ ys)
             (map (ival h1) ((us @ [i]) @ ys @ (zs @ [y]) @ ys)) \<and> endItem l' = endItem l1"
    by (rule Cons.IH) (use ok1 pos in \<open>auto simp: hd_append\<close>)
  then obtain h' l' xs where rec:
      "list_insert_loop h1 l1 pos (hd (ys @ [endItem l1])) (endItem l1) = Some (h', l')"
      "list_ok h' l' ((us @ [i]) @ xs @ (zs @ [y]) @ ys)
             (map (ival h1) ((us @ [i]) @ ys @ (zs @ [y]) @ ys))" "endItem l' = endItem l1"
    by blast
  have vals: "map (ival h1) ((us @ [i]) @ ys @ (zs @ [y]) @ ys)
      = map (ival h) (us @ (y # ys) @ zs @ y # ys)"
    using v1 i by simp
  have "y \<noteq> endItem l" using list_ok_ends(5)[OF ok] by auto
  moreover have "nextp h1 y = hd (ys @ [endItem l1])"
    using list_ok_next[of h1 l1 "us @ i # zs" y ys] ok1 by simp
  ultimately have "list_insert_loop h l pos (hd ((y # ys) @ [endItem l])) (endItem l) = Some (h', l')"
    using rec(1) e1 by (subst list_insert_loop.simps) (simp add: ins)
  moreover have "list_ok h' l' (us @ (i # xs) @ zs @ y # ys)
      (map (ival h) (us @ (y # ys) @ zs @ y # ys))"
    using rec(2) unfolding vals by simp
  ultimately show ?case using rec(3) e1 by metis
qed

lemma list_insert_self_front:
  assumes ok: "list_ok h l xs (v # vs)"
  shows "\<exists>h' l' xs' r. list_insert_self h l (beginp l) = Some (h', l', r) \<and>
           list_ok h' l' xs' (v # v # vs @ v # vs)"
proof -
  obtain x xs0 where xs: "xs = x # xs0" and v: "v = ival h x" "vs = map (ival h) xs0"
    using ok by (cases xs) (auto simp: list_ok_def)
  have b: "beginp l = x" using list_ok_ends(1)[OF ok] xs by simp
  have ne: "prevp h (endItem l) \<noteq> null" using list_ok_ends(7)[OF ok] xs by simp
  obtain h1 l1 i where ins: "list_insert h l x v = (h1, l1, i)"
    and ok1: "list_ok h1 l1 (i # xs) (v # v # vs)"
    and e1: "endItem l1 = endItem l" and v1: "ival h1 = (ival h)(i := v)" and i: "i \<notin> set xs"
    using list_prepend_ok[OF ok, of v] unfolding list_prepend_def b by blast
  have b1: "beginp l1 = i" "nextp h1 i = x"
    using list_ok_ends(1)[OF ok1] list_ok_next[of h1 l1 "[]" i xs] ok1 xs by simp_all
  have ok2: "list_ok h1 l1 ([i] @ [] @ xs) (v # v # vs)" using ok1 by simp
  have ne2: "[] @ xs \<noteq> []" "x = hd ([] @ xs)" using xs by simp_all
  obtain h' l' ys where loop: "list_insert_loop h1 l1 x (hd (xs @ [endItem l1])) (endItem l1) = Some (h', l')"
     "list_ok h' l' ([i] @ ys @ [] @ xs) (map (ival h1) ([i] @ xs @ [] @ xs))"
    using list_insert_loop_front[OF ok2 ne2] by blast
  have "map (ival h1) xs = v # vs" using v1 i v xs by auto
  then have "map (ival h1) ([i] @ xs @ [] @ xs) = v # v # vs @ v # vs"
    using v1 by simp
  moreover have "list_insert_self h l (beginp l) = Some (h', l', i)"
    using ne ins loop(1) b b1 v(1) by (simp add: list_insert_self_def xs)
  ultimately show ?thesis using loop(2) by metis
qed

lemma list_assign_self_ok:
  assumes ok: "list_ok h l xs vs"
  shows "\<exists>h' l'. list_assign_self h l = Some (h', l') \<and> list_ok h' l' [] []"
proof -
  obtain h' l' where a: "clear_links h l = Some (h', l')" "list_ok h' l' [] []"
    using list_clear_ok[OF ok] by blast
  have "beginp l' = endItem l'" using list_ok_ends(1)[OF a(2)] by simp
  then have "list_assign_self h l = Some (h', l')"
    by (simp add: list_assign_self_def a(1) list_insert_loop.simps)
  then show ?thesis using a(2) by blast
qed

section \<open>Comparing\<close>

lemma list_eq_loop_ok:
  assumes "list_ok h l (us @ xs) vs0" "list_ok h d (ws @ ys) vs1" "length xs = length ys"
  shows "list_eq_loop h (hd (xs @ [endItem l])) (hd (ys @ [endItem d])) (endItem l)
           = Some (map (ival h) xs = map (ival h) ys)"
  using assms
proof (induction xs arbitrary: us ws ys)
  case Nil
  then show ?case by (subst list_eq_loop.simps) simp
next
  case (Cons x xs)
  obtain y ys' where ys: "ys = y # ys'" using Cons.prems(3) by (cases ys) auto
  have "x \<noteq> endItem l" using list_ok_ends(5)[OF Cons.prems(1)] by auto
  moreover have "nextp h x = hd (xs @ [endItem l])" "nextp h y = hd (ys' @ [endItem d])"
    using list_ok_next[OF Cons.prems(1)] list_ok_next[of h d ws y ys' vs1] Cons.prems(2) ys by auto
  moreover have "list_eq_loop h (hd (xs @ [endItem l])) (hd (ys' @ [endItem d])) (endItem l)
           = Some (map (ival h) xs = map (ival h) ys')"
    by (rule Cons.IH[of "us @ [x]" "ws @ [y]"]) (use Cons.prems ys in auto)
  ultimately show ?case by (subst list_eq_loop.simps) (simp add: ys)
qed

lemma list_eq_ok:
  assumes "list_ok h l xs vs" "list_ok h d ys ws"
  shows "list_eq h l d = Some (vs = ws)"
proof (cases "length vs = length ws")
  case True
  then have "length xs = length ys" using assms by (simp add: list_ok_def)
  then have "list_eq_loop h (beginp l) (beginp d) (endItem l) = Some (vs = ws)"
    using list_eq_loop_ok[of h l "[]" xs vs d "[]" ys ws] assms list_ok_ends(1)[OF assms(1)]
      list_ok_ends(1)[OF assms(2)] by (simp add: list_ok_def)
  then show ?thesis
    using True list_ok_ends(3)[OF assms(1)] list_ok_ends(3)[OF assms(2)] by (simp add: list_eq_def)
next
  case False
  then show ?thesis
    using list_ok_ends(3)[OF assms(1)] list_ok_ends(3)[OF assms(2)] by (auto simp: list_eq_def)
qed

section \<open>Sorting\<close>

text \<open>\<open>steps N xs\<close>: each item's \<^verbatim>\<open>next\<close> is the item after it in \<open>xs\<close>.\<close>

fun steps :: "(addr \<Rightarrow> addr) \<Rightarrow> addr list \<Rightarrow> bool" where
  "steps N (x # y # xs) \<longleftrightarrow> N x = y \<and> steps N (y # xs)"
| "steps N _ \<longleftrightarrow> True"

lemma steps_append: "steps N (xs @ y # ys) \<longleftrightarrow> steps N (xs @ [y]) \<and> steps N (y # ys)"
  by (induction N xs rule: steps.induct) auto

lemma steps_appendD: "steps N (xs @ ys) \<Longrightarrow> steps N xs \<and> steps N ys"
  by (induction N xs rule: steps.induct) (auto elim: steps.elims)

lemma steps_last: "steps N (xs @ y # ys) \<Longrightarrow> xs \<noteq> [] \<Longrightarrow> N (last xs) = y"
  by (induction N xs rule: steps.induct) auto

lemma dseg_steps: "dseg P N a xs e \<Longrightarrow> steps N xs"
  by (induction N xs arbitrary: a rule: steps.induct) auto

lemma swap_val_eq: "swap_val h a b = h\<lparr>ival := (ival h)(a := ival h b, b := ival h a)\<rparr>"
  by (simp add: swap_val_def Let_def fun_upd_twist)

lemma mset_map_swap:
  assumes "a \<in> set xs" "b \<in> set xs" "distinct xs"
  shows "mset (map (f(a := f b, b := f a)) xs) = mset (map f xs)"
proof (cases "a = b")
  case True
  then show ?thesis by simp
next
  case False
  have "mset xs = {#a, b#} + (mset xs - {#a, b#})"
    using assms False by (intro subset_mset.add_diff_inverse[symmetric])
      (simp add: insert_subset_eq_iff in_diff_count)
  then obtain M where M: "mset xs = {#a, b#} + M" by blast
  have "count (mset xs) a = 1" "count (mset xs) b = 1"
    using assms by (simp_all add: distinct_count_atmost_1)
  then have "a \<notin># M" "b \<notin># M" using M False by (simp_all add: not_in_iff)
  then have "image_mset (f(a := f b, b := f a)) M = image_mset f M"
    by (intro image_mset_cong) auto
  then show ?thesis using M False by simp
qed

text \<open>The partition loop from a state with the items \<open>as\<close> below the pivot and \<open>bs\<close> not below.\<close>

lemma part_loop_ok:
  assumes "steps (nextp h) (left # as @ bs @ cs)" "distinct (left # as @ bs @ cs)" "cs \<noteq> []"
    and "\<forall>a\<in>set as. ival h a < ival h left" "\<forall>b\<in>set bs. \<not> ival h b < ival h left"
    and "p0 = (if as = [] then left else last (left # butlast as))"
  shows "\<exists>g as' bs'. part_loop h left (last cs) p0 (last (left # as)) (last (left # as @ bs))
      = Some (h\<lparr>ival := g\<rparr>, if as' = [] then left else last (left # butlast as'), last (left # as')) \<and>
      as' @ bs' = as @ bs @ cs \<and> g left = ival h left \<and>
      (\<forall>a\<in>set as'. g a < g left) \<and> (\<forall>b\<in>set bs'. \<not> g b < g left) \<and>
      mset (map g (as @ bs @ cs)) = mset (map (ival h) (as @ bs @ cs)) \<and>
      (\<forall>a. a \<notin> set (as @ bs @ cs) \<longrightarrow> g a = ival h a)"
  using assms
proof (induction cs arbitrary: h as bs p0)
  case Nil
  then show ?case by simp
next
  case (Cons c cs)
  note st = Cons.prems(1) and di = Cons.prems(2) and lo = Cons.prems(4) and hi = Cons.prems(5)
  have p2: "nextp h (last (left # as @ bs)) = c"
    using steps_last[of "nextp h" "left # as @ bs" c cs] st by simp
  show ?case
  proof (cases "ival h c < ival h left")
    case True
    obtain q bq where q: "bs @ [c] = q # bq" by (cases bs) auto
    define h1 where "h1 = h\<lparr>ival := (ival h)(q := ival h c, c := ival h q)\<rparr>"
    have v1: "ival h1 = (ival h)(q := ival h c, c := ival h q)" and n0: "nextp h1 = nextp h"
      and u1: "\<And>g. h1\<lparr>ival := g\<rparr> = h\<lparr>ival := g\<rparr>" by (simp_all add: h1_def)
    have items: "as @ bs @ c # cs = (as @ [q]) @ bq @ cs"
      using q by (metis append.assoc append_Cons append_Nil)
    define p1 where "p1 = last (left # as)"
    define r where "r = last (c # cs)"
    have n1: "nextp h p1 = q"
      using steps_last[of "nextp h" "left # as" q "bq @ cs"] st items by (simp add: p1_def)
    have q_in: "q = c \<or> q \<in> set bs" using q by (cases bs) auto
    then have nq: "q \<noteq> left" "q \<notin> set as" using di by auto
    have lo': "\<forall>a\<in>set (as @ [q]). ival h1 a < ival h1 left"
      using lo True nq di by (auto simp: v1)
    have hi': "\<forall>b\<in>set bq. \<not> ival h1 b < ival h1 left"
      using hi di q by (cases bs) (auto simp: v1)
    have qs: "q \<in> set (as @ bs @ c # cs)" "c \<in> set (as @ bs @ c # cs)" using q_in by auto
    have "distinct (as @ bs @ c # cs)" using di by simp
    then have ms: "mset (map (ival h1) (as @ bs @ c # cs)) = mset (map (ival h) (as @ bs @ c # cs))"
      unfolding v1 by (rule mset_map_swap[OF qs])
    have left: "ival h1 left = ival h left" using nq di by (auto simp: v1)
    have out: "\<forall>a. a \<notin> set (as @ bs @ c # cs) \<longrightarrow> ival h1 a = ival h a" using q_in by (auto simp: v1)
    have unf: "part_loop h left r p0 p1 (last (left # as @ bs))
        = (if c \<noteq> r then part_loop h1 left r p1 q c else Some (h1, p1, q))"
      by (subst part_loop.simps) (simp only: p2, simp add: True n1 Let_def swap_val_eq h1_def)
    have goalI: ?thesis
      if "part_loop h left r p0 p1 (last (left # as @ bs)) =
            Some (h\<lparr>ival := g\<rparr>, if as' = [] then left else last (left # butlast as'), last (left # as'))"
        "as' @ bs' = (as @ [q]) @ bq @ cs" "g left = ival h1 left"
        "\<forall>a\<in>set as'. g a < g left" "\<forall>b\<in>set bs'. \<not> g b < g left"
        "mset (map g ((as @ [q]) @ bq @ cs)) = mset (map (ival h1) ((as @ [q]) @ bq @ cs))"
        "\<forall>a. a \<notin> set ((as @ [q]) @ bq @ cs) \<longrightarrow> g a = ival h1 a" for g as' bs'
      using that(1-5) that(6,7)[folded items] ms left out unfolding p1_def r_def items[symmetric]
      by (intro exI[of _ g] exI[of _ as'] exI[of _ bs']) simp
    show ?thesis
    proof (cases "cs = []")
      case True
      have p0': "last (left # butlast (as @ [q])) = p1" by (simp add: p1_def)
      have "part_loop h left r p0 p1 (last (left # as @ bs)) = Some (h1, p1, q)"
        using unf True by (simp add: r_def)
      then have "part_loop h left r p0 p1 (last (left # as @ bs))
          = Some (h\<lparr>ival := ival h1\<rparr>, if as @ [q] = [] then left else last (left # butlast (as @ [q])),
              last (left # as @ [q]))"
        unfolding p0' by (simp add: h1_def)
      then show ?thesis by (rule goalI[of _ _ bq]) (use True lo' hi' in auto)
    next
      case False
      have "c \<noteq> r" using di False by (auto simp: r_def)
      moreover have "last (left # (as @ [q]) @ bq) = c"
      proof -
        have "left # (as @ [q]) @ bq = (left # as @ bs) @ [c]" using q by simp
        then show ?thesis by (metis last_snoc)
      qed
      moreover have "r = last cs" "last (left # as @ [q]) = q" using False by (simp_all add: r_def)
      ultimately have unf': "part_loop h left r p0 p1 (last (left # as @ bs))
        = part_loop h1 left (last cs) p1 (last (left # as @ [q])) (last (left # (as @ [q]) @ bq))"
        using unf by simp
      have "\<exists>g as' bs'. part_loop h1 left (last cs) p1 (last (left # as @ [q]))
            (last (left # (as @ [q]) @ bq))
          = Some (h1\<lparr>ival := g\<rparr>, if as' = [] then left else last (left # butlast as'), last (left # as')) \<and>
          as' @ bs' = (as @ [q]) @ bq @ cs \<and> g left = ival h1 left \<and>
          (\<forall>a\<in>set as'. g a < g left) \<and> (\<forall>b\<in>set bs'. \<not> g b < g left) \<and>
          mset (map g ((as @ [q]) @ bq @ cs)) = mset (map (ival h1) ((as @ [q]) @ bq @ cs)) \<and>
          (\<forall>a. a \<notin> set ((as @ [q]) @ bq @ cs) \<longrightarrow> g a = ival h1 a)"
        by (rule Cons.IH) (use st di False lo' hi' n0 in \<open>simp_all only: items p1_def butlast_snoc snoc_eq_iff_butlast\<close>, auto)
      then show ?thesis unfolding unf'[symmetric] u1 by (elim exE conjE) (rule goalI)
    qed
  next
    case False
    have hi': "\<forall>b\<in>set (bs @ [c]). \<not> ival h b < ival h left" using hi False by auto
    define p1 where "p1 = last (left # as)"
    define r where "r = last (c # cs)"
    have unf: "part_loop h left r p0 p1 (last (left # as @ bs))
        = (if c \<noteq> r then part_loop h left r p0 p1 c else Some (h, p0, p1))"
      by (subst part_loop.simps) (simp only: p2, simp add: False Let_def)
    show ?thesis
    proof (cases "cs = []")
      case True
      have "part_loop h left r p0 p1 (last (left # as @ bs)) = Some (h, p0, p1)"
        using unf True by (simp add: r_def)
      then show ?thesis using True lo hi' Cons.prems(6) unfolding p1_def r_def
        by (intro exI[of _ "ival h"] exI[of _ as] exI[of _ "bs @ [c]"]) auto
    next
      case False
      have "c \<noteq> r" "r = last cs" "last (left # as @ (bs @ [c])) = c" using di False by (auto simp: r_def)
      then have unf': "part_loop h left r p0 p1 (last (left # as @ bs))
        = part_loop h left (last cs) p0 p1 (last (left # as @ (bs @ [c])))"
        using unf by simp
      have "\<exists>g as' bs'. part_loop h left (last cs) p0 p1 (last (left # as @ (bs @ [c])))
          = Some (h\<lparr>ival := g\<rparr>, if as' = [] then left else last (left # butlast as'), last (left # as')) \<and>
          as' @ bs' = as @ (bs @ [c]) @ cs \<and> g left = ival h left \<and>
          (\<forall>a\<in>set as'. g a < g left) \<and> (\<forall>b\<in>set bs'. \<not> g b < g left) \<and>
          mset (map g (as @ (bs @ [c]) @ cs)) = mset (map (ival h) (as @ (bs @ [c]) @ cs)) \<and>
          (\<forall>a. a \<notin> set (as @ (bs @ [c]) @ cs) \<longrightarrow> g a = ival h a)"
        unfolding p1_def by (rule Cons.IH) (use st di False lo hi' Cons.prems(6) in auto)
      note this[folded unf', unfolded append_assoc append_Cons append_Nil p1_def r_def]
      then show ?thesis .
    qed
  qed
qed

text \<open>\<open>sorted_seg h h' xs\<close>: \<open>h'\<close> is \<open>h\<close> with the values on the items \<open>xs\<close> sorted.\<close>

definition sorted_seg :: "('a :: linorder) list_heap \<Rightarrow> 'a list_heap \<Rightarrow> addr list \<Rightarrow> bool" where
  "sorted_seg h h' xs \<longleftrightarrow> (\<exists>g. h' = h\<lparr>ival := g\<rparr> \<and> sorted (map g xs) \<and>
     mset (map g xs) = mset (map (ival h) xs) \<and> (\<forall>a. a \<notin> set xs \<longrightarrow> g a = ival h a))"

lemma sorted_seg_refl: "length xs \<le> 1 \<Longrightarrow> sorted_seg h h xs"
  unfolding sorted_seg_def by (intro exI[of _ "ival h"]) (auto simp: le_Suc_eq length_Suc_conv)

lemma sorted_segE:
  assumes "sorted_seg h h' xs"
  obtains g where "h' = h\<lparr>ival := g\<rparr>" "sorted (map g xs)"
    "mset (map g xs) = mset (map (ival h) xs)" "g ` set xs = ival h ` set xs"
    "\<And>a. a \<notin> set xs \<Longrightarrow> g a = ival h a"
  using assms unfolding sorted_seg_def by (metis mset_eq_setD image_set)

lemma hd_last_neq: "distinct xs \<Longrightarrow> xs \<noteq> [] \<Longrightarrow> hd xs \<noteq> last xs \<longleftrightarrow> 2 \<le> length xs"
  by (cases xs) (auto simp: Suc_le_eq)

lemma quick_sort_ok:
  assumes "steps (nextp h) xs" "distinct xs" "2 \<le> length xs"
  shows "\<exists>h'. quick_sort h (hd xs) (last xs) = Some h' \<and> sorted_seg h h' xs"
  using assms
proof (induction "length xs" arbitrary: xs h rule: less_induct)
  case less
  obtain left ds where xs: "xs = left # ds" "ds \<noteq> []"
    using less.prems(3) by (cases xs) (auto simp: Suc_le_eq)
  have st0: "steps (nextp h) (left # ds)" "distinct (left # ds)" using less.prems(1,2) xs by simp_all
  note pl = part_loop_ok[of h left "[]" "[]" ds left, unfolded append_Nil last_ConsL[OF refl]]
  obtain g as bs where part: "part_loop h left (last ds) left left left =
      Some (h\<lparr>ival := g\<rparr>, if as = [] then left else last (left # butlast as), last (left # as))"
      and ds: "as @ bs = ds" and gl: "g left = ival h left"
      and lo: "\<forall>a\<in>set as. g a < g left" and hi: "\<forall>b\<in>set bs. \<not> g b < g left"
      and ms: "mset (map g ds) = mset (map (ival h) ds)"
      and out: "\<forall>a. a \<notin> set ds \<longrightarrow> g a = ival h a"
    using pl[OF st0 xs(2)] by simp metis
  define ls where "ls = butlast (left # as)"
  define m where "m = last (left # as)"
  have lsm: "left # as = ls @ [m]" unfolding ls_def m_def by (metis append_butlast_last_id list.discI)
  have items: "xs = ls @ m # bs" using xs(1) ds lsm by (metis append_Cons append_assoc append_Nil)
  have di: "distinct (ls @ m # bs)" using less.prems(2) items by simp
  have left: "left = hd (ls @ [m])" using lsm by (metis list.sel(1))
  let ?g2 = "g(left := g m, m := g left)"
  define h2 where "h2 = h\<lparr>ival := ?g2\<rparr>"
  have h2: "swap_val (h\<lparr>ival := g\<rparr>) left m = h2" by (simp add: swap_val_eq h2_def)
  have N2: "nextp h2 = nextp h" and V2: "ival h2 = ?g2" by (simp_all add: h2_def)
  have g2m: "?g2 m = g left" by simp
  have m_in: "m = left \<or> m \<in> set as" unfolding m_def by auto
  have lsas: "set ls = (if as = [] then {} else insert left (set (butlast as)))" by (simp add: ls_def)
  have g2lo: "\<forall>a\<in>set ls. ?g2 a < g left"
  proof
    fix a assume a: "a \<in> set ls"
    then have ne: "as \<noteq> []" by (auto simp: lsas split: if_splits)
    have "m \<in> set as" using ne by (simp add: m_def)
    moreover have "a \<noteq> m" using a di by auto
    moreover have "a = left \<or> a \<in> set as" using a by (auto simp: lsas dest: in_set_butlastD split: if_splits)
    ultimately show "?g2 a < g left" using lo by auto
  qed
  have bsn: "left \<notin> set bs" "m \<notin> set bs" using di left by (cases ls; auto)+
  have g2hi: "\<forall>b\<in>set bs. ?g2 b = g b \<and> g left \<le> g b" using hi bsn by auto
  have "mset (map ?g2 xs) = mset (map g xs)"
    by (rule mset_map_swap) (use less.prems(2) m_in xs ds in auto)
  also have "\<dots> = mset (map (ival h) xs)" using ms gl xs by simp
  finally have ms2: "mset (map ?g2 xs) = mset (map (ival h) xs)" .
  have out2: "?g2 a = ival h a" if "a \<notin> set xs" for a using that out m_in xs ds by auto
  have p0: "(if as = [] then left else last (left # butlast as)) = (if ls = [] then left else last ls)"
    by (simp add: ls_def)
  define p0v where "p0v = (if ls = [] then left else last ls)"
  have st: "steps (nextp h) (ls @ m # bs)" using less.prems(1) items by simp
  have c0: "left \<noteq> p0v \<longleftrightarrow> 2 \<le> length ls"
    using hd_last_neq[of ls] di left by (cases ls) (auto simp: p0v_def)
  have sl: "\<exists>h3. (if left \<noteq> p0v then quick_sort h2 left p0v else Some h2) = Some h3 \<and> sorted_seg h2 h3 ls"
  proof (cases "2 \<le> length ls")
    case True
    then have "left = hd ls" "p0v = last ls" using left by (cases ls; auto simp: p0v_def)+
    moreover have "\<exists>h3. quick_sort h2 (hd ls) (last ls) = Some h3 \<and> sorted_seg h2 h3 ls"
      using less.hyps[of ls h2] items di steps_appendD[OF st] True by (auto simp: N2)
    ultimately show ?thesis using c0 True by simp
  next
    case False
    then show ?thesis using c0 sorted_seg_refl[of ls h2] by simp
  qed
  then obtain h3 where s3: "(if left \<noteq> p0v then quick_sort h2 left p0v else Some h2) = Some h3"
    "sorted_seg h2 h3 ls" by blast
  obtain g3 where g3': "h3 = h2\<lparr>ival := g3\<rparr>" "sorted (map g3 ls)"
    "mset (map g3 ls) = mset (map (ival h2) ls)" "g3 ` set ls = ival h2 ` set ls"
    "\<And>a. a \<notin> set ls \<Longrightarrow> g3 a = ival h2 a"
    using s3(2) by (rule sorted_segE) (rule that)
  note g3 = g3'[unfolded V2]
  define right where "right = last ds"
  define p1v where "p1v = (if m \<noteq> right then nextp h2 m else m)"
  have r: "right = last (m # bs)" using ds lsm xs(2) by (cases bs) (auto simp: right_def m_def)
  have c1: "p1v \<noteq> right \<longleftrightarrow> 2 \<le> length bs"
  proof (cases bs)
    case Nil
    then show ?thesis using r by (simp add: p1v_def)
  next
    case (Cons b bs')
    then have "m \<noteq> right" using r di by auto
    moreover have "nextp h2 m = b" using steps_last[of "nextp h" "ls @ [m]" b bs'] st Cons N2 by simp
    ultimately show ?thesis using hd_last_neq[of bs] di r Cons by (simp add: p1v_def)
  qed
  have p1h: "p1v = hd bs" if "2 \<le> length bs"
  proof -
    obtain b bs' where b: "bs = b # bs'" using \<open>2 \<le> length bs\<close> by (cases bs) auto
    then have "m \<noteq> right" using r di by auto
    then show ?thesis using steps_last[of "nextp h" "ls @ [m]" b bs'] st b N2 by (simp add: p1v_def)
  qed
  have sr: "\<exists>h4. (if p1v \<noteq> right then quick_sort h3 p1v right else Some h3) = Some h4 \<and> sorted_seg h3 h4 bs"
  proof (cases "2 \<le> length bs")
    case True
    then have "right = last bs" using r by (cases bs) auto
    moreover have "\<exists>h4. quick_sort h3 (hd bs) (last bs) = Some h4 \<and> sorted_seg h3 h4 bs"
      using less.hyps[of bs h3] items di steps_appendD[of "nextp h" "ls @ [m]" bs] st True
      by (auto simp: N2 g3(1))
    ultimately show ?thesis using c1 True p1h by simp
  next
    case False
    then show ?thesis using c1 sorted_seg_refl[of bs h3] by simp
  qed
  then obtain h4 where s4: "(if p1v \<noteq> right then quick_sort h3 p1v right else Some h3) = Some h4"
    "sorted_seg h3 h4 bs" by blast
  obtain g4 where g4: "h4 = h3\<lparr>ival := g4\<rparr>" "sorted (map g4 bs)"
    "mset (map g4 bs) = mset (map (ival h3) bs)" "g4 ` set bs = ival h3 ` set bs"
    "\<And>a. a \<notin> set bs \<Longrightarrow> g4 a = ival h3 a"
    using s4(2) by (rule sorted_segE) (rule that)
  have V3: "ival h3 = g3" by (simp add: g3(1))
  note g4 = g4[unfolded V3]
  have "last xs = right" "hd xs = left" using xs by (simp_all add: right_def)
  have part': "part_loop h left right left left left = Some (h\<lparr>ival := g\<rparr>, p0v, m)"
    unfolding right_def p0v_def m_def part p0 ..
  have run: "quick_sort h (hd xs) (last xs) = Some h4"
    unfolding \<open>last xs = right\<close> \<open>hd xs = left\<close>
    by (subst quick_sort.simps)
       (simp only: part' bind.simps prod.case Let_def h2 p1v_def[symmetric] s3(1) s4(1))
  have nls: "b \<notin> set ls" if "b \<in> insert m (set bs)" for b using that di by auto
  have g3bs: "\<forall>b\<in>set bs. g3 b = g b" "g3 m = g left"
    using g3(5) nls g2hi g2m by (metis insertCI)+
  have onls: "map g4 ls = map g3 ls" "g4 m = g left" using g4(5) di g3bs by auto
  have "sorted (map g4 xs)"
  proof -
    have "\<forall>a\<in>set ls. g3 a < g left" using g3(4) g2lo by (metis (no_types, lifting) imageE imageI)
    moreover have "\<forall>b\<in>set bs. g left \<le> g4 b" using g4(4) g3bs g2hi by (metis (no_types, lifting) imageE imageI)
    moreover have "sorted (map g4 ls)" using g3(2) by (simp only: onls)
    moreover have "\<forall>a\<in>set ls. g4 a = g3 a" using onls(1) by simp
    ultimately show ?thesis using g4(2) onls(2)
      by (auto simp: items sorted_append intro: less_imp_le order.trans[OF less_imp_le])
  qed
  moreover have "mset (map g4 xs) = mset (map ?g2 xs)"
    using g3(3) g4(3) onls g3bs g2m g2hi by (simp add: items cong: map_cong)
  then have "mset (map g4 xs) = mset (map (ival h) xs)" using ms2 by simp
  moreover have "\<forall>a. a \<notin> set xs \<longrightarrow> g4 a = ival h a"
    using g4(5) g3(5) out2 by (simp add: items)
  moreover have "h4 = h\<lparr>ival := g4\<rparr>" by (simp add: g4(1) g3(1) h2_def)
  ultimately show ?case using run unfolding sorted_seg_def by blast
qed

lemma list_sort_ok:
  assumes ok: "list_ok h l xs vs"
  shows "\<exists>h'. list_sort h l = Some h' \<and> list_ok h' l xs (sort vs) \<and> sorted_seg h h' xs"
proof -
  obtain fs where inv: "cont_inv h l xs fs" and vs: "vs = map (ival h) xs" using ok by (rule list_okE)
  note ends = list_ok_ends[OF ok]
  have "\<exists>h'. list_sort h l = Some h' \<and> sorted_seg h h' xs"
  proof (cases "2 \<le> length xs")
    case True
    then have ne: "xs \<noteq> []" by auto
    have "beginp l = hd xs" "prevp h (endItem l) = last xs" using ends(1,2) ne by simp_all
    moreover have "hd xs \<noteq> last xs" using hd_last_neq[OF ends(4) ne] True by simp
    moreover have "steps (nextp h) xs" using inv by (auto simp: cont_st_def dest: dseg_steps)
    ultimately show ?thesis
      using quick_sort_ok[of h xs] ends(4,7) True ne by (simp add: list_sort_def)
  next
    case False
    then have "xs = [] \<or> beginp l = prevp h (endItem l)" using ends(1,2) by (cases xs) (auto simp: Suc_le_eq)
    then have "list_sort h l = Some h" using ends(7) by (auto simp: list_sort_def)
    then show ?thesis using sorted_seg_refl[of xs h] False by auto
  qed
  then obtain h' where h1: "list_sort h l = Some h'" "sorted_seg h h' xs" by blast
  obtain g where h': "h' = h\<lparr>ival := g\<rparr>" "sorted (map g xs)" "mset (map g xs) = mset (map (ival h) xs)"
    using h1(2) by (rule sorted_segE)
  have "cont_inv h' l xs fs" using inv by (simp add: h'(1) cont_st_def)
  moreover have "sort vs = map g xs"
    by (rule properties_for_sort) (use h'(2,3) vs in auto)
  ultimately show ?thesis using h1 h' by (auto simp: list_ok_def)
qed

section \<open>Lists to evaluate on\<close>

definition list_heap0 :: "'a \<Rightarrow> 'a list_heap" where
  "list_heap0 v = \<lparr>brk = 1, prevp = \<lambda>_. null, nextp = \<lambda>_. null, ival = \<lambda>_. v\<rparr>"

text \<open>\<open>list_of v vs\<close>: a list built by \<^verbatim>\<open>append\<close>ing \<open>vs\<close> to a new one in an empty heap.\<close>

definition list_of :: "'a \<Rightarrow> 'a list \<Rightarrow> ('a list_heap \<times> cont) option" where
  "list_of v vs = foldo list_push vs (init_cont (list_heap0 v))"

lemma list_of_ok: "\<exists>h l xs. list_of v vs = Some (h, l) \<and> list_ok h l xs vs"
proof -
  obtain h1 l1 where i: "init_cont (list_heap0 v) = (h1, l1)" by fastforce
  have l1: "cont_inv h1 l1 [] []" by (rule init_cont_st[OF i]) (simp add: list_heap0_def)
  obtain h d where d: "init_cont h1 = (h, d)" by fastforce
  have pos: "0 < brk h1" using cont_st_valid[OF l1, of "endItem l1"] by auto
  have "\<exists>h' l' xs. foldo list_push vs (h1, l1) = Some (h', l') \<and> list_ok h' l' xs (ws @ vs)"
    if "list_ok h1 l1 ys ws" for h1 :: "'a list_heap" and l1 ys ws
    using that
  proof (induction vs arbitrary: h1 l1 ys ws)
    case (Cons v vs)
    obtain h2 l2 i where "list_append h1 l1 v = (h2, l2, i)" "list_ok h2 l2 (ys @ [i]) (ws @ [v])"
      using list_append_ok[OF Cons.prems] by blast
    with Cons.IH[OF this(2)] show ?case by (auto simp: list_push_def)
  qed auto
  from this[of h1 l1 "[]" "[]"] show ?thesis
    using l1 by (auto simp: list_of_def i list_ok_def)
qed

lemma two_lists: "\<exists>h l d xs ys. list_ok h l xs vs \<and> list_ok h d ys ws \<and> apart l d"
proof -
  obtain h0 d ys where "list_ok h0 d ys ws" using list_of_ok[of undefined ws] by blast
  then obtain h1 l1 zs where "list_ok h1 l1 zs ws" "list_ok h1 d ys ws" "apart l1 d"
    using list_copy_ok by blast
  then have "list_beside d ys ws (h1, l1) ws" by (auto simp: list_beside_def)
  then show ?thesis using lseq.rebuild[of d ys ws "(h1, l1)" ws vs] by (auto simp: list_beside_def)
qed

lemma list_ok_length: "list_ok h l xs vs \<Longrightarrow> length xs = length vs"
  by (simp add: list_ok_def)

section \<open>Properties\<close>

text \<open>C1. \<^verbatim>\<open>List::sort\<close> returns on every list; it leaves the values of the list in ascending order,
  each as often as before, moves no item (iterators stay valid) and writes nothing else.\<close>

theorem list_sort_correct:
  assumes "list_ok h l xs vs"
  shows "\<exists>h'. list_sort h l = Some h' \<and> list_ok h' l xs (sort vs) \<and>
           prevp h' = prevp h \<and> nextp h' = nextp h \<and> (\<forall>a. a \<notin> set xs \<longrightarrow> ival h' a = ival h a)"
proof -
  obtain h' where h': "list_sort h l = Some h'" "list_ok h' l xs (sort vs)" "sorted_seg h h' xs"
    using list_sort_ok[OF assms] by blast
  obtain g where "h' = h\<lparr>ival := g\<rparr>" "\<And>a. a \<notin> set xs \<Longrightarrow> g a = ival h a"
    using h'(3) by (rule sorted_segE) (rule that)
  with h'(1,2) show ?thesis by auto
qed

theorem list_sort_correct_witness:
  "\<exists>h l xs h'. list_of (0 :: nat) [3, 1, 2, 1] = Some (h, l) \<and> list_sort h l = Some h' \<and>
     list_ok h' l xs [1, 1, 2, 3]"
proof -
  obtain h l xs where ok: "list_of (0 :: nat) [3, 1, 2, 1] = Some (h, l)" "list_ok h l xs [3, 1, 2, 1]"
    using list_of_ok[of 0 "[3, 1, 2, 1]"] by blast
  show ?thesis using ok(1) list_sort_correct[OF ok(2)] by auto
qed

text \<open>C2. \<^verbatim>\<open>List::insert\<close> before the iterator \<open>pos\<close> puts the new item exactly there: the items before
  and behind it stay in place with their values, the returned iterator is the new item, and no
  other list that lives in the same heap changes.\<close>

theorem list_insert_correct:
  assumes "list_ok h l (us @ vs) (ps @ qs)" "length us = length ps"
    and "list_ok h d ys ws" "apart l d"
  shows "case list_insert h l (hd (vs @ [endItem l])) v of (h', l', i) \<Rightarrow>
           list_ok h' l' (us @ i # vs) (ps @ v # qs) \<and> i \<notin> set (us @ vs) \<and>
           csize l' = Suc (csize l) \<and> list_ok h' d ys ws \<and> apart l' d"
proof -
  obtain h' l' i where a: "list_insert h l (hd (vs @ [endItem l])) v = (h', l', i)"
    "list_ok h' l' (us @ i # vs) (map (ival h) us @ v # map (ival h) vs)"
    "i \<notin> set (us @ vs)" "list_frame h l h' l'"
    using list_insert_ok[OF assms(1) refl] by blast
  have "map (ival h) us @ v # map (ival h) vs = ps @ v # qs"
    using assms(1,2) by (simp add: list_ok_def append_eq_append_conv)
  then have "list_ok h' l' (us @ i # vs) (ps @ v # qs)" using a(2) by simp
  then show ?thesis
    using a list_ok_ends(3)[OF assms(1)] list_ok_ends(3)[of h' l'] assms(3,4)
    by (auto simp: list_frame_def)
qed

theorem list_insert_correct_witness:
  "\<exists>h l d x y ys. list_ok h l ([x] @ [y]) [1, 2] \<and> list_ok h d ys [7] \<and> apart l d \<and>
     (case list_insert h l y 5 of (h', l', i) \<Rightarrow>
        list_ok h' l' ([x] @ i # [y]) [1, 5, 2 :: nat] \<and> list_ok h' d ys [7])"
proof -
  obtain h l d xs ys where l: "list_ok h l xs [1, 2 :: nat]" and d: "list_ok h d ys [7]" "apart l d"
    using two_lists[of "[1, 2 :: nat]" "[7]"] by blast
  obtain x y where "xs = [x] @ [y]"
    using list_ok_length[OF l] by (auto simp: length_Suc_conv)
  with l have l': "list_ok h l ([x] @ [y]) ([1] @ [2])" by simp
  have len: "length [x] = length [1 :: nat]" by simp
  show ?thesis using list_insert_correct[OF l' len d, of 5] l' d
    by (intro exI[of _ h] exI[of _ l] exI[of _ d] exI[of _ x] exI[of _ y] exI[of _ ys])
      (auto split: prod.splits)
qed

text \<open>\<^verbatim>\<open>List::remove\<close> unlinks exactly the item of the iterator, returns the iterator behind it,
  keeps every other item in place, and puts the item in front of the free list, so that the next
  insertion, wherever it goes, uses that very item again.\<close>

theorem list_remove_correct:
  assumes "list_ok h l (us @ i # vs) (ps @ v # qs)" "length us = length ps"
  shows "case list_remove h l i of (h', l', next) \<Rightarrow>
           list_ok h' l' (us @ vs) (ps @ qs) \<and> next = hd (vs @ [endItem l]) \<and>
           csize l' = csize l - 1 \<and> (\<forall>pos w. snd (snd (list_insert h' l' pos w)) = i)"
proof -
  obtain h' l' where a: "list_remove h l i = (h', l', hd (vs @ [endItem l]))"
    "list_ok h' l' (us @ vs) (map (ival h) (us @ vs))"
    using list_remove_ok[OF assms(1)] by blast
  have vals: "map (ival h) (us @ vs) = ps @ qs"
    using assms by (simp add: list_ok_def append_eq_append_conv)
  have "i \<noteq> null" using list_ok_ends(6)[OF assms(1)] by auto
  moreover have "freeItem l' = i" using a(1) by (auto simp: list_remove_def release_def Let_def split: prod.splits)
  ultimately have "snd (snd (list_insert h' l' pos w)) = i" for pos w
    by (simp add: list_insert_def alloc_item_def Let_def split: prod.splits)
  then show ?thesis
    using a vals list_ok_ends(3)[OF assms(1)] list_ok_ends(3)[OF a(2)] by simp
qed

theorem list_remove_correct_witness:
  "\<exists>h l x y z h' l'. list_ok h l ([x] @ y # [z]) [1, 2, 3 :: nat] \<and>
     list_remove h l y = (h', l', z) \<and> list_ok h' l' ([x] @ [z]) [1, 3]"
proof -
  obtain h l xs where ok: "list_ok h l xs [1, 2, 3 :: nat]" using list_of_ok[of 0 "[1, 2, 3]"] by blast
  obtain x y z where "xs = [x] @ y # [z]"
    using list_ok_length[OF ok] by (auto simp: length_Suc_conv)
  with ok have ok': "list_ok h l ([x] @ y # [z]) ([1] @ 2 # [3 :: nat])" by simp
  have len: "length [x] = length [1 :: nat]" by simp
  obtain h' l' where "list_remove h l y = (h', l', z)" "list_ok h' l' ([x] @ [z]) [1, 3]"
    using list_remove_correct[OF ok' len] by (auto split: prod.splits)
  with ok' show ?thesis by (metis append_Cons append_Nil)
qed

text \<open>\<^verbatim>\<open>operator=\<close> from another list returns, makes the target's values those of the source, and
  leaves the source as it was; assigning a list to itself, however, empties it.\<close>

theorem list_assign_correct:
  assumes "list_ok h l xs vs" "list_ok h d ys ws" "apart l d"
  shows "(\<exists>h' l' xs'. list_assign h l d = Some (h', l') \<and> list_ok h' l' xs' ws \<and>
            list_ok h' d ys ws \<and> list_eq h' l' d = Some True) \<and>
         (\<exists>h' l'. list_assign_self h l = Some (h', l') \<and> list_ok h' l' [] [])"
proof -
  obtain h' l' xs' where a: "list_assign h l d = Some (h', l')" "list_ok h' l' xs' ws"
    "list_ok h' d ys ws" using list_assign_ok[OF assms] by blast
  then show ?thesis using list_eq_ok[OF a(2,3)] list_assign_self_ok[OF assms(1)] by auto
qed

theorem list_assign_correct_witness:
  "\<exists>h l d xs ys h' l' xs'. list_ok h l xs [7] \<and> list_ok h d ys [1, 2 :: nat] \<and>
     list_assign h l d = Some (h', l') \<and> list_ok h' l' xs' [1, 2]"
proof -
  obtain h l d xs ys where l: "list_ok h l xs [7 :: nat]" and d: "list_ok h d ys [1, 2]" "apart l d"
    using two_lists[of "[7 :: nat]" "[1, 2]"] by blast
  obtain h' l' xs' where "list_assign h l d = Some (h', l')" "list_ok h' l' xs' [1, 2]"
    using list_assign_correct[OF l d] by blast
  with l d show ?thesis by blast
qed

text \<open>\<^verbatim>\<open>insert(position, list)\<close> puts the values of another list in order before the position
  and returns the first new item; but with the list itself as the argument it does not terminate
  unless the position is the front, where it inserts the first value twice.\<close>

theorem list_insert_list_correct:
  assumes "list_ok h l (us @ vs) (ps @ qs)" "length us = length ps"
    and "list_ok h d ys ws" "apart l d"
  shows "(\<exists>h' l' xs. list_insert_list h l (hd (vs @ [endItem l])) d
             = Some (h', l', hd (xs @ vs @ [endItem l])) \<and> list_ok h' l' (us @ xs @ vs) (ps @ ws @ qs)) \<and>
         (us \<noteq> [] \<longrightarrow> list_insert_self h l (hd (vs @ [endItem l])) = None) \<and>
         (us = [] \<longrightarrow> qs \<noteq> [] \<longrightarrow> (\<exists>h' l' xs r. list_insert_self h l (beginp l) = Some (h', l', r) \<and>
            list_ok h' l' xs (hd qs # qs @ qs)))"
proof (intro conjI impI)
  have "map (ival h) us @ ws @ map (ival h) vs = ps @ ws @ qs"
    using assms(1,2) by (simp add: list_ok_def append_eq_append_conv)
  then show "\<exists>h' l' xs. list_insert_list h l (hd (vs @ [endItem l])) d
      = Some (h', l', hd (xs @ vs @ [endItem l])) \<and> list_ok h' l' (us @ xs @ vs) (ps @ ws @ qs)"
    using list_insert_list_ok[OF assms(1) refl assms(3,4)] by auto
  show "list_insert_self h l (hd (vs @ [endItem l])) = None" if "us \<noteq> []"
    by (rule list_insert_self_diverges[OF assms(1) refl that])
  assume "us = []" "qs \<noteq> []"
  then obtain q qs' where "qs = q # qs'" "ps = []" using assms(2) by (cases qs) auto
  then show "\<exists>h' l' xs r. list_insert_self h l (beginp l) = Some (h', l', r) \<and>
      list_ok h' l' xs (hd qs # qs @ qs)"
    using list_insert_self_front[of h l "us @ vs" q qs'] assms(1) by auto
qed

theorem list_insert_list_correct_witness:
  "\<exists>h l d x y ys. list_ok h l ([x] @ [y]) [1, 2 :: nat] \<and> list_ok h d ys [8, 9] \<and> apart l d \<and>
     (\<exists>h' l' xs. list_insert_list h l y d = Some (h', l', hd (xs @ [y, endItem l])) \<and>
        list_ok h' l' ([x] @ xs @ [y]) [1, 8, 9, 2]) \<and>
     list_insert_self h l y = None"
proof -
  obtain h l d xs ys where l: "list_ok h l xs [1, 2 :: nat]" and d: "list_ok h d ys [8, 9]" "apart l d"
    using two_lists[of "[1, 2 :: nat]" "[8, 9]"] by blast
  obtain x y where "xs = [x] @ [y]"
    using list_ok_length[OF l] by (auto simp: length_Suc_conv)
  with l have l': "list_ok h l ([x] @ [y]) ([1] @ [2])" by simp
  have len: "length [x] = length [1 :: nat]" by simp
  show ?thesis using list_insert_list_correct[OF l' len d] l' d by simp blast
qed

end
