(* ===== verification/Nstd_PoolList.thy ===== *)
theory Nstd_PoolList
  imports Nstd_List
begin

text \<open>
  \<^verbatim>\<open>PoolList<T>\<close> (include/nstd/PoolList.hpp): elements are constructed in place behind their
  item header and addressed by reference. The item address stands for the header and for the
  element behind it (\<^verbatim>\<open>(T*)(item + 1)\<close> and back), so that an element reference is an address.
  The arguments of \<^verbatim>\<open>append\<close> enter as the value their constructor makes.
\<close>

section \<open>Operations\<close>

definition pl_allocateFreeItem ::
    "'a list_heap \<Rightarrow> cont \<Rightarrow> 'a list_heap \<times> cont \<times> addr" where
  "pl_allocateFreeItem h l =
     (let item = freeItem l in
      if item = null then
        (let b = brk h;
             (item', p) = thread_free [b, b + 1, b + 2, b + 3] item (prevp h)
         in (h\<lparr>brk := b + block_len, prevp := p\<rparr>,
             l\<lparr>freeItem := item', blocks := b # blocks l\<rparr>, item'))
      else (h, l, item))"

definition pl_linkFreeItem :: "'a list_heap \<Rightarrow> cont \<Rightarrow> addr \<Rightarrow> 'a list_heap \<times> cont \<times> addr" where
  "pl_linkFreeItem h l t =
     (let item = freeItem l;
          l1 = l\<lparr>freeItem := prevp h item\<rparr>;
          (h2, l2) = link_before h l1 item (endItem l1)
      in (h2, l2, t))"

definition pl_append :: "'a list_heap \<Rightarrow> cont \<Rightarrow> 'a \<Rightarrow> 'a list_heap \<times> cont \<times> addr" where
  "pl_append h l v =
     (let (h1, l1, t) = pl_allocateFreeItem h l
      in pl_linkFreeItem (h1\<lparr>ival := (ival h1)(t := v)\<rparr>) l1 t)"

text \<open>\<^verbatim>\<open>remove(const T& value)\<close>, given the address of the element\<close>

definition pl_remove_value :: "'a list_heap \<Rightarrow> cont \<Rightarrow> addr \<Rightarrow> 'a list_heap \<times> cont" where
  "pl_remove_value h l item =
     (let (h1, l1) =
            (if prevp h item = null then
               (h\<lparr>prevp := (prevp h)(nextp h item := null)\<rparr>, l\<lparr>beginp := nextp h item\<rparr>)
             else
               (h\<lparr>nextp := (nextp h)(prevp h item := nextp h item),
                  prevp := (prevp h)(nextp h item := prevp h item)\<rparr>, l));
          l2 = l1\<lparr>csize := csize l1 - 1\<rparr>
      in release h1 l2 item)"

definition pl_remove :: "'a list_heap \<Rightarrow> cont \<Rightarrow> addr \<Rightarrow> 'a list_heap \<times> cont \<times> addr" where
  "pl_remove h l item =
     (let (h', l') = pl_remove_value h l item in (h', l', nextp h' item))"

definition pl_removeFront :: "'a list_heap \<Rightarrow> cont \<Rightarrow> 'a list_heap \<times> cont \<times> addr" where
  "pl_removeFront h l = pl_remove h l (beginp l)"

definition pl_removeBack :: "'a list_heap \<Rightarrow> cont \<Rightarrow> 'a list_heap \<times> cont \<times> addr" where
  "pl_removeBack h l = pl_remove h l (prevp h (endItem l))"

definition pl_isEmpty :: "'a list_heap \<Rightarrow> cont \<Rightarrow> bool" where
  "pl_isEmpty h l \<longleftrightarrow> prevp h (endItem l) = null"

text \<open>\<^verbatim>\<open>clear\<close> and \<^verbatim>\<open>swap\<close> are word for word those of \<^verbatim>\<open>List\<close>.\<close>

definition pl_clear :: "'a list_heap \<Rightarrow> cont \<Rightarrow> ('a list_heap \<times> cont) option" where
  "pl_clear h l = clear_links h l"

definition pl_swap :: "'a list_heap \<Rightarrow> cont \<Rightarrow> cont \<Rightarrow> 'a list_heap \<times> cont \<times> cont" where
  "pl_swap h l d = swap_links h l d"

section \<open>The operations as list operations\<close>

lemma pl_append_eq: "pl_append h l v = list_append h l v"
proof -
  have a: "pl_allocateFreeItem h l = alloc_item h l"
    by (simp add: pl_allocateFreeItem_def alloc_item_def Let_def)
  obtain h1 l1 t where al: "alloc_item h l = (h1, l1, t)" by (metis prod_cases3)
  have "freeItem l1 = t" "endItem l1 = endItem l"
    using al by (auto simp: alloc_item_eq split: if_splits)
  then show ?thesis
    by (simp add: pl_append_def a al pl_linkFreeItem_def list_append_def list_insert_def
        take_free_def Let_def split: prod.splits)
qed

lemma pl_remove_eq: "pl_remove h l i = list_remove h l i"
  by (simp add: pl_remove_def pl_remove_value_def list_remove_def unlink_def Let_def split: prod.splits)

lemma pl_remove_value_eq: "pl_remove_value h l i = (case list_remove h l i of (h', l', _) \<Rightarrow> (h', l'))"
  by (simp add: pl_remove_eq[symmetric] pl_remove_def split: prod.splits)

interpretation plseq: sequence "list_beside d ys ws"
    "\<lambda>v (h, l). case pl_append h l v of (h', l', _) \<Rightarrow> Some (h', l')"
    "\<lambda>(h, l). pl_clear h l" for d ys ws
proof unfold_locales
  fix s :: "'a list_heap \<times> cont" and xs x
  assume r: "list_beside d ys ws s xs"
  show "\<exists>s'. (case s of (h, l) \<Rightarrow> (case pl_append h l x of (h', l', _) \<Rightarrow> Some (h', l'))) = Some s' \<and>
      list_beside d ys ws s' (xs @ [x])"
    using lseq.push_rel[OF r, of x] by (simp add: list_push_def pl_append_eq)
  show "\<exists>s'. (case s of (h, l) \<Rightarrow> pl_clear h l) = Some s' \<and> list_beside d ys ws s' []"
    using lseq.wipe_rel[OF r] by (simp add: list_wipe_def pl_clear_def)
qed

section \<open>Properties\<close>

text \<open>C3. \<^verbatim>\<open>PoolList::append\<close> constructs the element at the end of any list, the empty one included, and
  returns its address; removing an element through its reference takes exactly that element out, wherever it stands, and
  returns the element behind it. No other element is moved: each keeps its address and value.\<close>

theorem pl_append_remove_correct:
  assumes "list_ok h l xs ws"
  shows "(case pl_append h l v of (h', l', t) \<Rightarrow>
            list_ok h' l' (xs @ [t]) (ws @ [v]) \<and> t \<notin> set xs \<and> csize l' = csize l + 1) \<and>
         (\<forall>us x vs ps p qs. xs = us @ x # vs \<and> ws = ps @ p # qs \<and> length us = length ps \<longrightarrow>
            (case pl_remove_value h l x of (h', l') \<Rightarrow> list_ok h' l' (us @ vs) (ps @ qs) \<and> csize l' = csize l - 1) \<and>
            snd (snd (pl_remove h l x)) = hd (vs @ [endItem l]))"
proof (intro conjI allI impI)
  obtain h' l' t where a: "list_append h l v = (h', l', t)" "list_ok h' l' (xs @ [t]) (ws @ [v])" "t \<notin> set xs"
    using list_append_ok[OF assms] by blast
  then show "case pl_append h l v of (h', l', t) \<Rightarrow>
      list_ok h' l' (xs @ [t]) (ws @ [v]) \<and> t \<notin> set xs \<and> csize l' = csize l + 1"
    using list_ok_ends(3)[OF assms] list_ok_ends(3)[OF a(2)] by (simp add: pl_append_eq)
next
  fix us x vs ps p qs
  assume split: "xs = us @ x # vs \<and> ws = ps @ p # qs \<and> length us = length ps"
  then have ok: "list_ok h l (us @ x # vs) (ps @ p # qs)"
    using assms by simp
  obtain h2 l2 where r: "list_remove h l x = (h2, l2, hd (vs @ [endItem l]))"
    "list_ok h2 l2 (us @ vs) (map (ival h) (us @ vs))"
    using list_remove_ok[OF ok] by blast
  have "map (ival h) (us @ vs) = ps @ qs"
    using ok split by (simp add: list_ok_def append_eq_append_conv)
  moreover have "length vs = length qs"
    using list_ok_length[OF ok] split by simp
  moreover note r list_ok_ends(3)[OF ok] list_ok_ends(3)[OF r(2)] split
  ultimately
  show "case pl_remove_value h l x of (h', l') \<Rightarrow> list_ok h' l' (us @ vs) (ps @ qs) \<and> csize l' = csize l - 1"
    and "snd (snd (pl_remove h l x)) = hd (vs @ [endItem l])"
    by (simp_all add: pl_remove_value_eq pl_remove_eq)
qed

theorem pl_append_remove_correct_witness:
  "\<exists>h l x y z. list_ok h l [x, y, z] [1, 2, 3 :: nat] \<and>
     (case pl_remove_value h l y of (h', l') \<Rightarrow> list_ok h' l' [x, z] [1, 3]) \<and>
     (\<exists>h0 l0. list_ok h0 l0 [] ([] :: nat list) \<and> (case pl_append h0 l0 7 of (h', l', t) \<Rightarrow> list_ok h' l' [t] [7]))"
proof -
  obtain h l xs where ok: "list_ok h l xs [1, 2, 3 :: nat]" using list_of_ok[of 0 "[1, 2, 3]"] by blast
  obtain x y z where xs: "xs = [x, y, z]"
    using list_ok_length[OF ok] by (auto simp: length_Suc_conv)
  note ok = ok [unfolded xs]
  have sp: "[x, y, z] = [x] @ y # [z] \<and> [1, 2, 3 :: nat] = [1] @ 2 # [3] \<and> length [x] = length [1 :: nat]" by simp
  have "case pl_remove_value h l y of (h', l') \<Rightarrow> list_ok h' l' [x, z] [1, 3]"
    using pl_append_remove_correct[OF ok, THEN conjunct2, rule_format, OF sp] by (auto split: prod.splits)
  moreover obtain h0 l0 ys where e: "list_ok h0 l0 ys ([] :: nat list)" using list_of_ok[of 0 "[]"] by blast
  then have ys: "ys = []" using list_ok_length[OF e] by simp
  note e = e [unfolded ys]
  have "case pl_append h0 l0 7 of (h', l', t) \<Rightarrow> list_ok h' l' [t] [7]"
    using pl_append_remove_correct[OF e, of 7] by (auto split: prod.splits)
  ultimately show ?thesis using ok e by (intro exI conjI)
qed

text \<open>Swapping two pool lists exchanges their contents without moving a single element: every
  element reference stays valid and now belongs to the other list, and clearing returns an empty
  list whose items all wait in the free list.\<close>

theorem pl_swap_correct:
  assumes "list_ok h l xs vs" "list_ok h d ys ws" "apart l d"
  shows "(case pl_swap h l d of (h', l', d') \<Rightarrow>
            list_ok h' l' ys ws \<and> list_ok h' d' xs vs \<and> ival h' = ival h) \<and>
         (\<exists>h' l'. pl_clear h l = Some (h', l') \<and> list_ok h' l' [] [] \<and> pool l' = pool l)"
proof -
  obtain fs where l: "cont_inv h l xs fs" "vs = map (ival h) xs" using assms(1) by (rule list_okE)
  obtain gs where d: "cont_inv h d ys gs" "ws = map (ival h) ys" using assms(2) by (rule list_okE)
  obtain h' l' d' where s: "swap_links h l d = (h', l', d')" by (metis prod_cases3)
  have dis: "footprint l xs fs \<inter> footprint d ys gs = {}"
    using assms(3) apart_footprint[OF l(1) d(1)] by simp
  note S = swap_links_st[OF l(1) d(1) dis s]
  have "ival h' = ival h" using S(5) by auto
  moreover obtain h2 l2 where c: "clear_links h l = Some (h2, l2)" "cont_inv h2 l2 [] (rev xs @ fs)"
    using clear_links_st[OF l(1)] by blast
  moreover have "pool l2 = pool l"
    using c(2) l(1) by (auto simp: cont_st_def)
  ultimately show ?thesis using S(1,2) l(2) d(2) s
    by (auto simp: pl_swap_def pl_clear_def list_ok_def)
qed

theorem pl_swap_correct_witness:
  "\<exists>h l d xs ys. list_ok h l xs [1 :: nat] \<and> list_ok h d ys [2, 3] \<and>
     (case pl_swap h l d of (h', l', d') \<Rightarrow> list_ok h' l' ys [2, 3] \<and> list_ok h' d' xs [1])"
proof -
  obtain h l d xs ys where l: "list_ok h l xs [1 :: nat]" and d: "list_ok h d ys [2, 3]" "apart l d"
    using two_lists[of "[1 :: nat]" "[2, 3]"] by blast
  show ?thesis using pl_swap_correct[OF l d] l d
    by (intro exI[of _ h] exI[of _ l] exI[of _ d] exI[of _ xs] exI[of _ ys]) (auto split: prod.splits)
qed

end
