(* ===== verification/Nstd_HashTable.thy ===== *)
theory Nstd_HashTable
  imports Nstd_Links Nstd_Interfaces
begin

text \<open>
  The part that HashMap, HashSet and PoolMap share: chained buckets over the linked items. The
  table \<^verbatim>\<open>data\<close> is an array of item pointers, and every item knows through \<^verbatim>\<open>cell\<close> the pointer
  that points at it: a slot of a table or the \<^verbatim>\<open>nextCell\<close> of its predecessor in the bucket. The
  hash function of the key type is a parameter \<open>hf\<close>.
\<close>

section \<open>State\<close>

text \<open>A value of type \<^verbatim>\<open>Item**\<close>.\<close>

datatype cellref = Slot addr nat | NextOf addr

record 'k hash_heap = links +
  ikey :: "addr \<Rightarrow> 'k"
  icell :: "addr \<Rightarrow> cellref"
  nextCell :: "addr \<Rightarrow> addr"
  slots :: "addr \<Rightarrow> nat \<Rightarrow> addr"

text \<open>\<^verbatim>\<open>htable\<close> is the container's \<^verbatim>\<open>data\<close> pointer.\<close>

record hcont = cont +
  capacity :: nat
  htable :: addr

section \<open>Operations\<close>

definition read_cell :: "('k, 'z) hash_heap_scheme \<Rightarrow> cellref \<Rightarrow> addr" where
  "read_cell h c = (case c of Slot d i \<Rightarrow> slots h d i | NextOf a \<Rightarrow> nextCell h a)"

definition write_cell ::
    "('k, 'z) hash_heap_scheme \<Rightarrow> cellref \<Rightarrow> addr \<Rightarrow> ('k, 'z) hash_heap_scheme" where
  "write_cell h c x =
     (case c of
        Slot d i \<Rightarrow> h\<lparr>slots := (slots h)(d := (slots h d)(i := x))\<rparr>
      | NextOf a \<Rightarrow> h\<lparr>nextCell := (nextCell h)(a := x)\<rparr>)"

text \<open>The constructor from a capacity: \<^verbatim>\<open>this->capacity |= (usize)!capacity;\<close>\<close>

definition init_hcont :: "('k, 'z) hash_heap_scheme \<Rightarrow> nat \<Rightarrow> ('k, 'z) hash_heap_scheme \<times> hcont" where
  "init_hcont h cap =
     (let (h', c) = init_cont h
      in (h', cont.extend c
            \<lparr>capacity = Bit_Operations.or cap (of_bool (cap = 0)), htable = null\<rparr>))"

text \<open>\<^verbatim>\<open>if(!data) { data = new ...; Memory::zero(data, ...); }\<close>\<close>

definition ensure_table ::
    "('k, 'z) hash_heap_scheme \<Rightarrow> hcont \<Rightarrow> ('k, 'z) hash_heap_scheme \<times> hcont" where
  "ensure_table h c =
     (if htable c = null
      then (h\<lparr>brk := Suc (brk h), slots := (slots h)(brk h := (\<lambda>_. null))\<rparr>, c\<lparr>htable := brk h\<rparr>)
      else (h, c))"

text \<open>\<^verbatim>\<open>while(item) { if(item->key == key) return item; item = item->nextCell; } return _end;\<close>\<close>

partial_function (option) bucket_loop ::
    "('k, 'z) hash_heap_scheme \<Rightarrow> addr \<Rightarrow> 'k \<Rightarrow> addr \<Rightarrow> addr option" where
  "bucket_loop h item k e =
     (if item = null then Some e
      else if ikey h item = k then Some item
      else bucket_loop h (nextCell h item) k e)"

definition hash_find ::
    "('k \<Rightarrow> nat) \<Rightarrow> ('k, 'z) hash_heap_scheme \<Rightarrow> hcont \<Rightarrow> 'k \<Rightarrow> addr option" where
  "hash_find hf h c k =
     (if htable c = null then Some (endItem c)
      else bucket_loop h (slots h (htable c) (hf k mod capacity c)) k (endItem c))"

text \<open>
  \<^verbatim>\<open>item->cell = (cell = &data[hashCode % capacity]);
  if((item->nextCell = *cell)) item->nextCell->cell = &item->nextCell; *cell = item;\<close>
\<close>

definition link_cell ::
    "('k \<Rightarrow> nat) \<Rightarrow> ('k, 'z) hash_heap_scheme \<Rightarrow> hcont \<Rightarrow> addr \<Rightarrow> 'k \<Rightarrow> ('k, 'z) hash_heap_scheme" where
  "link_cell hf h c item k =
     (let cl = Slot (htable c) (hf k mod capacity c);
          h1 = h\<lparr>icell := (icell h)(item := cl)\<rparr>;
          n = read_cell h1 cl;
          h2 = h1\<lparr>nextCell := (nextCell h1)(item := n)\<rparr>;
          h3 = (if n \<noteq> null then h2\<lparr>icell := (icell h2)(n := NextOf item)\<rparr> else h2)
      in write_cell h3 cl item)"

text \<open>\<^verbatim>\<open>if((*item->cell = item->nextCell)) item->nextCell->cell = item->cell;\<close>\<close>

definition unlink_cell ::
    "('k, 'z) hash_heap_scheme \<Rightarrow> addr \<Rightarrow> ('k, 'z) hash_heap_scheme" where
  "unlink_cell h item =
     (let n = nextCell h item; h1 = write_cell h (icell h item) n
      in if n \<noteq> null then h1\<lparr>icell := (icell h1)(nextCell h1 item := icell h1 item)\<rparr> else h1)"

text \<open>\<^verbatim>\<open>clear\<close>: the loop also resets the cell of every item.\<close>

partial_function (option) hash_clear_loop ::
    "('k, 'z) hash_heap_scheme \<Rightarrow> addr \<Rightarrow> addr \<Rightarrow> addr \<Rightarrow> (('k, 'z) hash_heap_scheme \<times> addr) option"
    where
  "hash_clear_loop h f i e =
     (if i = e then Some (h, f)
      else (let h1 = write_cell h (icell h i) null;
                h2 = h1\<lparr>prevp := (prevp h1)(i := f)\<rparr>
            in hash_clear_loop h2 i (nextp h2 i) e))"

definition hash_clear ::
    "('k, 'z) hash_heap_scheme \<Rightarrow> hcont \<Rightarrow> (('k, 'z) hash_heap_scheme \<times> hcont) option" where
  "hash_clear h c =
     map_option (\<lambda>(h', f).
        (h'\<lparr>prevp := (prevp h')(endItem c := null)\<rparr>,
         c\<lparr>freeItem := f, beginp := endItem c, csize := 0\<rparr>))
       (hash_clear_loop h (freeItem c) (beginp c) (endItem c))"

definition hash_swap ::
    "('k, 'z) hash_heap_scheme \<Rightarrow> hcont \<Rightarrow> hcont \<Rightarrow> ('k, 'z) hash_heap_scheme \<times> hcont \<times> hcont" where
  "hash_swap h c d =
     (let tmpCapacity = capacity c; tmpData = htable c;
          (h', c', d') = swap_links h c d
      in (h', c'\<lparr>capacity := capacity d, htable := htable d\<rparr>,
              d'\<lparr>capacity := tmpCapacity, htable := tmpData\<rparr>))"

section \<open>The invariant\<close>

fun bchain :: "('k, 'z) hash_heap_scheme \<Rightarrow> cellref \<Rightarrow> addr list \<Rightarrow> bool" where
  "bchain h c [] \<longleftrightarrow> read_cell h c = null"
| "bchain h c (x # xs) \<longleftrightarrow>
     read_cell h c = x \<and> x \<noteq> null \<and> icell h x = c \<and> bchain h (NextOf x) xs"

text \<open>\<open>B i\<close> are the items of bucket \<open>i\<close>: those of the container whose key hashes to \<open>i\<close>.\<close>

definition buckets ::
    "('k \<Rightarrow> nat) \<Rightarrow> ('k, 'z) hash_heap_scheme \<Rightarrow> hcont \<Rightarrow> addr list \<Rightarrow> (nat \<Rightarrow> addr list) \<Rightarrow> bool" where
  "buckets hf h c xs B \<longleftrightarrow>
     (\<forall>i<capacity c. bchain h (Slot (htable c) i) (B i) \<and> distinct (B i) \<and>
        set (B i) = {x \<in> set xs. hf (ikey h x) mod capacity c = i})"

definition hash_ok ::
    "('k \<Rightarrow> nat) \<Rightarrow> ('k, 'z) hash_heap_scheme \<Rightarrow> hcont \<Rightarrow> addr list \<Rightarrow> addr list \<Rightarrow> bool" where
  "hash_ok hf h c xs fs \<longleftrightarrow>
     cont_inv h c xs fs \<and> 0 < capacity c \<and> htable c < brk h \<and> distinct (map (ikey h) xs) \<and>
     (if htable c = null then xs = [] else (\<exists>B. buckets hf h c xs B))"

lemma read_write_cell [simp]:
  "read_cell (write_cell h c x) d = (if d = c then x else read_cell h d)"
  by (auto simp: read_cell_def write_cell_def split: cellref.splits)

lemma write_cell_keep [simp]:
  "brk (write_cell h c x) = brk h" "prevp (write_cell h c x) = prevp h"
  "nextp (write_cell h c x) = nextp h" "ikey (write_cell h c x) = ikey h"
  "icell (write_cell h c x) = icell h"
  by (simp_all add: write_cell_def split: cellref.splits)

lemma read_cell_upd [simp]:
  "read_cell (h\<lparr>icell := f\<rparr>) c = read_cell h c" "read_cell (h\<lparr>ikey := k\<rparr>) c = read_cell h c"
  "read_cell (h\<lparr>prevp := p\<rparr>) c = read_cell h c" "read_cell (h\<lparr>nextp := p\<rparr>) c = read_cell h c"
  "read_cell (h\<lparr>brk := b\<rparr>) c = read_cell h c"
  by (simp_all add: read_cell_def split: cellref.splits)

lemma read_cell_nextCell [simp]:
  "read_cell (h\<lparr>nextCell := (nextCell h)(a := x)\<rparr>) c = (if c = NextOf a then x else read_cell h c)"
  by (auto simp: read_cell_def split: cellref.splits)

lemma bchain_frame:
  assumes "bchain h c xs" "read_cell h' c = read_cell h c"
    and "\<And>x. x \<in> set xs \<Longrightarrow> icell h' x = icell h x \<and> read_cell h' (NextOf x) = read_cell h (NextOf x)"
  shows "bchain h' c xs"
  using assms by (induction xs arbitrary: c) auto

section \<open>Searching\<close>

definition item_of :: "('k, 'z) hash_heap_scheme \<Rightarrow> addr list \<Rightarrow> 'k \<Rightarrow> addr option" where
  "item_of h xs k = find (\<lambda>x. ikey h x = k) xs"

lemma bucket_loop_ok:
  "bchain h c xs \<Longrightarrow>
     bucket_loop h (read_cell h c) k e = Some (case item_of h xs k of None \<Rightarrow> e | Some x \<Rightarrow> x)"
proof (induction xs arbitrary: c)
  case Nil
  then show ?case by (subst bucket_loop.simps) (simp add: item_of_def)
next
  case (Cons x xs)
  have "read_cell h (NextOf x) = nextCell h x" by (simp add: read_cell_def)
  with Cons.IH[of "NextOf x"] Cons.prems
  have "bucket_loop h (nextCell h x) k e = Some (case item_of h xs k of None \<Rightarrow> e | Some x \<Rightarrow> x)"
    by simp
  with Cons.prems show ?case by (subst bucket_loop.simps) (auto simp: item_of_def)
qed

lemma item_of_None: "item_of h xs k = None \<longleftrightarrow> k \<notin> ikey h ` set xs"
  by (auto simp: item_of_def find_None_iff)

lemma item_of_Some: "item_of h xs k = Some x \<Longrightarrow> x \<in> set xs \<and> ikey h x = k"
  by (auto simp: item_of_def find_Some_iff)

lemma item_of_eq:
  assumes "distinct (map (ikey h) xs)" "x \<in> set xs" "ikey h x = k" "set ys \<subseteq> set xs" "x \<in> set ys"
  shows "item_of h ys k = Some x"
proof -
  have "item_of h ys k \<noteq> None" using assms by (auto simp: item_of_None)
  then obtain y where y: "item_of h ys k = Some y" by blast
  have "y \<in> set ys" "ikey h y = k" using item_of_Some[OF y] by simp_all
  then have "y = x" using assms by (auto simp: distinct_map dest: inj_onD)
  with y show ?thesis by simp
qed

lemma hash_find_ok:
  assumes ok: "hash_ok hf h c xs fs"
  shows "hash_find hf h c k = Some (case item_of h xs k of None \<Rightarrow> endItem c | Some x \<Rightarrow> x)"
proof (cases "htable c = null")
  case True
  with ok show ?thesis by (simp add: hash_find_def hash_ok_def item_of_def)
next
  case False
  let ?j = "hf k mod capacity c"
  obtain B where B: "buckets hf h c xs B" using ok False by (auto simp: hash_ok_def)
  have j: "?j < capacity c" using ok by (simp add: hash_ok_def)
  have di: "distinct (map (ikey h) xs)" using ok by (simp add: hash_ok_def)
  have ch: "bchain h (Slot (htable c) ?j) (B ?j)"
    and se: "set (B ?j) = {x \<in> set xs. hf (ikey h x) mod capacity c = ?j}"
    using B j by (auto simp: buckets_def)
  have "item_of h (B ?j) k = item_of h xs k"
  proof (cases "item_of h xs k")
    case None
    then have "k \<notin> ikey h ` set (B ?j)" using se by (auto simp: item_of_None)
    then have "item_of h (B ?j) k = None" by (simp add: item_of_None)
    with None show ?thesis by simp
  next
    case (Some x)
    have x: "x \<in> set xs" "ikey h x = k" using item_of_Some[OF Some] by simp_all
    then have "item_of h (B ?j) k = Some x" by (intro item_of_eq[OF di]) (use se in auto)
    with Some show ?thesis by simp
  qed
  then show ?thesis
    using bucket_loop_ok[OF ch, of k "endItem c"] False
    by (simp add: hash_find_def read_cell_def)
qed

section \<open>Frames\<close>

text \<open>What lies outside the items \<open>A\<close> and the table \<open>t\<close> is the same in \<open>h'\<close>.\<close>

definition hash_same :: "('k, 'z) hash_heap_scheme \<Rightarrow> ('k, 'z) hash_heap_scheme \<Rightarrow> addr set \<Rightarrow> addr \<Rightarrow> bool"
  where
  "hash_same h h' A t \<longleftrightarrow> same_outside h h' A \<and>
     (\<forall>a. a < brk h \<longrightarrow> a \<notin> A \<longrightarrow>
        ikey h' a = ikey h a \<and> icell h' a = icell h a \<and> nextCell h' a = nextCell h a) \<and>
     (\<forall>a. a < brk h \<longrightarrow> a \<noteq> t \<longrightarrow> slots h' a = slots h a)"

definition hash_apart :: "hcont \<Rightarrow> hcont \<Rightarrow> bool" where
  "hash_apart c d \<longleftrightarrow> insert (endItem c) (pool c) \<inter> insert (endItem d) (pool d) = {} \<and>
     (htable c = htable d \<longrightarrow> htable c = null)"

definition hash_frame ::
    "('k \<Rightarrow> nat) \<Rightarrow> ('k, 'z) hash_heap_scheme \<Rightarrow> hcont \<Rightarrow> ('k, 'z) hash_heap_scheme \<Rightarrow> hcont \<Rightarrow> bool" where
  "hash_frame hf h c h' c' \<longleftrightarrow>
     (\<forall>d ys gs. hash_ok hf h d ys gs \<longrightarrow> hash_apart c d \<longrightarrow>
        hash_ok hf h' d ys gs \<and> hash_apart c' d \<and> (\<forall>y\<in>set ys. ikey h' y = ikey h y))"

lemma hash_frame_refl [simp]: "hash_frame hf h c h c"
  by (simp add: hash_frame_def)

lemma hash_frame_trans:
  "hash_frame hf h c h1 c1 \<Longrightarrow> hash_frame hf h1 c1 h2 c2 \<Longrightarrow> hash_frame hf h c h2 c2"
  unfolding hash_frame_def by (metis (no_types, lifting))

lemma hash_ok_inv: "hash_ok hf h c xs fs \<Longrightarrow> cont_inv h c xs fs"
  by (simp add: hash_ok_def)

lemma hash_apart_footprint:
  assumes "hash_ok hf h c xs fs" "hash_ok hf h d ys gs"
  shows "hash_apart c d \<longleftrightarrow> footprint c xs fs \<inter> footprint d ys gs = {} \<and>
           (htable c = htable d \<longrightarrow> htable c = null)"
  using footprint_pool[OF hash_ok_inv[OF assms(1)]] footprint_pool[OF hash_ok_inv[OF assms(2)]]
  by (simp add: hash_apart_def)

lemma hash_ok_other:
  assumes d: "hash_ok hf h d ys gs" and same: "hash_same h h' A t"
    and dis: "footprint d ys gs \<inter> A = {}" and t: "htable d = t \<Longrightarrow> t = null"
  shows "hash_ok hf h' d ys gs \<and> (\<forall>y\<in>set ys. ikey h' y = ikey h y)"
proof -
  have inv: "cont_inv h d ys gs" using d by (rule hash_ok_inv)
  have inv': "cont_inv h' d ys gs"
    by (rule cont_inv_other[OF inv _ dis]) (use same in \<open>simp add: hash_same_def\<close>)
  have at: "ikey h' y = ikey h y \<and> icell h' y = icell h y \<and> nextCell h' y = nextCell h y" if "y \<in> set ys" for y
  proof -
    have "y \<in> footprint d ys gs" using that by (simp add: footprint_def)
    then show ?thesis using footprint_bound[OF inv, of y] same dis by (auto simp: hash_same_def)
  qed
  have "map (ikey h') ys = map (ikey h) ys" using at by simp
  then have "distinct (map (ikey h') ys)" using d by (simp only: hash_ok_def)
  moreover have "\<exists>B. buckets hf h' d ys B" if nn: "htable d \<noteq> null"
  proof -
    obtain B where B: "buckets hf h d ys B" using d nn by (auto simp: hash_ok_def)
    have sl: "slots h' (htable d) = slots h (htable d)"
      using d same t nn by (auto simp: hash_same_def hash_ok_def)
    have "buckets hf h' d ys B" unfolding buckets_def
    proof (intro allI impI conjI)
      fix i assume i: "i < capacity d"
      have ch: "bchain h (Slot (htable d) i) (B i)" and se: "distinct (B i)"
        "set (B i) = {x \<in> set ys. hf (ikey h x) mod capacity d = i}"
        using B i by (auto simp: buckets_def)
      show "bchain h' (Slot (htable d) i) (B i)"
        by (rule bchain_frame[OF ch]) (use sl se at in \<open>auto simp: read_cell_def\<close>)
      show "distinct (B i)" by (rule se(1))
      show "set (B i) = {x \<in> set ys. hf (ikey h' x) mod capacity d = i}" using se(2) at by auto
    qed
    then show ?thesis by blast
  qed
  ultimately show ?thesis
    using d inv' at same by (auto simp: hash_ok_def hash_same_def same_outside_def)
qed

lemma hash_frameI:
  assumes ok: "hash_ok hf h c xs fs" and ok': "hash_ok hf h' c' xs' fs'"
    and same: "hash_same h h' (footprint c xs fs) (htable c)"
    and e: "endItem c' = endItem c" and t: "htable c' = htable c \<or> brk h \<le> htable c'"
    and items: "set xs' \<union> set fs' \<subseteq> set xs \<union> set fs \<union> {b. brk h \<le> b}"
  shows "hash_frame hf h c h' c'"
  unfolding hash_frame_def
proof (intro allI impI)
  fix d ys gs assume d: "hash_ok hf h d ys gs" and ap: "hash_apart c d"
  have dis: "footprint c xs fs \<inter> footprint d ys gs = {}" and tt: "htable c = htable d \<longrightarrow> htable c = null"
    using ap hash_apart_footprint[OF ok d] by auto
  have d': "hash_ok hf h' d ys gs" and keys: "\<forall>y\<in>set ys. ikey h' y = ikey h y"
    using hash_ok_other[OF d same] dis tt by (auto simp: Int_commute)
  have "footprint c' xs' fs' \<inter> footprint d ys gs = {}"
    by (rule footprint_apart[OF hash_ok_inv[OF d] dis e items])
  moreover have "htable c' = htable d \<longrightarrow> htable c' = null"
    using t tt d by (auto simp: hash_ok_def)
  ultimately have "hash_apart c' d" using hash_apart_footprint[OF ok' d'] by blast
  with d' keys show "hash_ok hf h' d ys gs \<and> hash_apart c' d \<and> (\<forall>y\<in>set ys. ikey h' y = ikey h y)"
    by blast
qed

section \<open>Linking an item into its bucket\<close>

lemma link_cell_keep [simp]:
  "brk (link_cell hf h c i k) = brk h" "prevp (link_cell hf h c i k) = prevp h"
  "nextp (link_cell hf h c i k) = nextp h" "ikey (link_cell hf h c i k) = ikey h"
  by (simp_all add: link_cell_def Let_def)

lemma link_cell_icell:
  "icell (link_cell hf h c i k) =
     (let cl = Slot (htable c) (hf k mod capacity c); n = read_cell h cl
      in if n \<noteq> null then (icell h)(i := cl, n := NextOf i) else (icell h)(i := cl))"
  by (simp add: link_cell_def Let_def)

lemma link_cell_read:
  "read_cell (link_cell hf h c i k) d =
     (let cl = Slot (htable c) (hf k mod capacity c)
      in if d = cl then i else if d = NextOf i then read_cell h cl else read_cell h d)"
  by (cases d) (auto simp: link_cell_def Let_def read_cell_def write_cell_def)

lemma bchain_head: "bchain h c xs \<Longrightarrow> read_cell h c = hd (xs @ [null])"
  by (cases xs) auto

lemma link_cell_chain:
  assumes ch: "bchain h (Slot (htable c) (hf k mod capacity c)) ys"
    and i: "i \<notin> set ys" "i \<noteq> null" and di: "distinct ys"
  shows "bchain (link_cell hf h c i k) (Slot (htable c) (hf k mod capacity c)) (i # ys)"
proof (cases ys)
  case Nil
  with ch i show ?thesis by (simp add: link_cell_read link_cell_icell)
next
  case (Cons y zs)
  have y: "read_cell h (Slot (htable c) (hf k mod capacity c)) = y" "y \<noteq> null" "y \<noteq> i"
    and rest: "bchain h (NextOf y) zs" using ch Cons i by auto
  have "bchain (link_cell hf h c i k) (NextOf y) zs"
    by (rule bchain_frame[OF rest])
       (use i di y Cons in \<open>auto simp: link_cell_read link_cell_icell\<close>)
  then show ?thesis using y i Cons by (simp add: link_cell_read link_cell_icell)
qed

lemma link_cell_other:
  assumes ch: "bchain h cl ys" and cl: "cl \<noteq> Slot (htable c) (hf k mod capacity c)" "cl \<noteq> NextOf i"
    and i: "i \<notin> set ys" and n: "read_cell h (Slot (htable c) (hf k mod capacity c)) \<notin> set ys"
  shows "bchain (link_cell hf h c i k) cl ys"
  by (rule bchain_frame[OF ch]) (use assms in \<open>auto simp: link_cell_read link_cell_icell Let_def\<close>)

lemma buckets_link:
  assumes B: "buckets hf h c xs B" and cap: "0 < capacity c" and i: "i \<notin> set xs" "i \<noteq> null"
    and key: "ikey h i = k" and xs': "set xs' = insert i (set xs)"
  shows "\<exists>B'. buckets hf (link_cell hf h c i k) c xs' B'"
proof -
  let ?j = "hf k mod capacity c"
  let ?B = "B(?j := i # B ?j)"
  have j: "?j < capacity c" using cap by simp
  have at: "bchain h (Slot (htable c) b) (B b)" "distinct (B b)"
      "set (B b) = {x \<in> set xs. hf (ikey h x) mod capacity c = b}" if "b < capacity c" for b
    using B that by (auto simp: buckets_def)
  have "buckets hf (link_cell hf h c i k) c xs' ?B" unfolding buckets_def
  proof (intro allI impI conjI)
    fix b assume b: "b < capacity c"
    show "bchain (link_cell hf h c i k) (Slot (htable c) b) (?B b)"
    proof (cases "b = ?j")
      case True
      have "i \<notin> set (B ?j)" using at(3)[OF j] i by auto
      with True show ?thesis using link_cell_chain[of h c hf k "B ?j" i] at[OF j] i(2) by simp
    next
      case False
      have "read_cell h (Slot (htable c) ?j) \<in> insert null (set (B ?j))"
        using bchain_head[OF at(1)[OF j]] by (cases "B ?j") auto
      moreover have "null \<notin> set (B b)"
      proof -
        have "bchain h cl ys \<Longrightarrow> null \<notin> set ys" for cl ys by (induction ys arbitrary: cl) auto
        then show ?thesis using at(1)[OF b] by blast
      qed
      ultimately have "read_cell h (Slot (htable c) ?j) \<notin> set (B b)"
        using at(3)[OF j] at(3)[OF b] False by auto
      moreover have "i \<notin> set (B b)" using at(3)[OF b] i by auto
      ultimately show ?thesis using link_cell_other[OF at(1)[OF b]] False by simp
    qed
    show "distinct (?B b)" using at(2,3)[OF b] i by auto
    show "set (?B b) = {x \<in> set xs'. hf (ikey (link_cell hf h c i k) x) mod capacity c = b}"
      using at(3)[OF b] at(3)[OF j] key i xs' by auto
  qed
  then show ?thesis by blast
qed

lemma buckets_cong:
  assumes "buckets hf h c xs B"
    and "icell h' = icell h" "nextCell h' = nextCell h" "slots h' = slots h"
    and "\<forall>x\<in>set xs. ikey h' x = ikey h x" "capacity c' = capacity c" "htable c' = htable c"
    and "set xs' = set xs"
  shows "buckets hf h' c' xs' B"
proof -
  have r: "read_cell h' = read_cell h" using assms(3,4) by (auto simp: read_cell_def split: cellref.splits)
  have "bchain h' cl ys = bchain h cl ys" for cl ys
    using assms(2) r by (induction ys arbitrary: cl) auto
  then show ?thesis using assms by (auto simp: buckets_def)
qed

text \<open>The hash fields of two heaps agree (links may differ).\<close>

definition same_cells :: "('k, 'z) hash_heap_scheme \<Rightarrow> ('k, 'z) hash_heap_scheme \<Rightarrow> bool" where
  "same_cells h h' \<longleftrightarrow> ikey h' = ikey h \<and> icell h' = icell h \<and> nextCell h' = nextCell h \<and> slots h' = slots h"

lemma hash_ok_cong:
  assumes ok: "hash_ok hf h c xs fs" and l: "same_links h h'" and s: "same_cells h h'"
  shows "hash_ok hf h' c xs fs"
proof -
  have "buckets hf h' c xs B" if "buckets hf h c xs B" for B
    by (rule buckets_cong[OF that]) (use s in \<open>simp_all add: same_cells_def\<close>)
  then have "Ex (buckets hf h c xs) \<Longrightarrow> Ex (buckets hf h' c xs)" by blast
  moreover have "cont_inv h' c xs fs" using ok cont_st_same_links[OF l] hash_ok_inv by blast
  ultimately show ?thesis
    using ok l s by (auto simp: hash_ok_def same_cells_def same_links_def)
qed

lemma alloc_item_cells: "alloc_item h c = (h', c', i) \<Longrightarrow>
    same_cells h h' \<and> capacity c' = capacity c \<and> htable c' = htable c" for c :: hcont
  by (auto simp: alloc_item_eq same_cells_def split: if_splits)

lemma alloc_first_cells: "alloc_first h c = (h', c', i) \<Longrightarrow>
    same_cells h h' \<and> capacity c' = capacity c \<and> htable c' = htable c" for c :: hcont
  by (auto simp: alloc_first_def same_cells_def Let_def split: if_splits)

lemma link_before_cells: "link_before h c i pos = (h', c') \<Longrightarrow>
    same_cells h h' \<and> capacity c' = capacity c \<and> htable c' = htable c" for c :: hcont
  by (auto simp: link_before_eq same_cells_def)

lemma unlink_cells: "unlink h c i = (h', c') \<Longrightarrow>
    same_cells h h' \<and> capacity c' = capacity c \<and> htable c' = htable c" for c :: hcont
  by (auto simp: unlink_eq same_cells_def)

lemma release_cells: "release h c i = (h', c') \<Longrightarrow>
    same_cells h h' \<and> capacity c' = capacity c \<and> htable c' = htable c" for c :: hcont
  by (auto simp: release_def same_cells_def)

section \<open>Tables\<close>

lemma ensure_table_ok:
  assumes ok: "hash_ok hf h c xs fs" and eq: "ensure_table h c = (h', c')"
  shows "hash_ok hf h' c' xs fs" "htable c' \<noteq> null" "endItem c' = endItem c"
    "hash_frame hf h c h' c'" "ikey h' = ikey h" "same_cont c c'"
proof -
  have inv: "cont_inv h c xs fs" using ok by (rule hash_ok_inv)
  have pos: "0 < brk h" using cont_st_valid[OF inv, of "endItem c"] by auto
  have sc: "same_cont c c'" using eq by (auto simp: ensure_table_def same_cont_def split: if_splits)
  then show "same_cont c c'" .
  show k: "ikey h' = ikey h" and nn: "htable c' \<noteq> null" and e: "endItem c' = endItem c"
    using eq pos by (auto simp: ensure_table_def split: if_splits)
  have inv': "cont_inv h' c' xs fs"
    unfolding cont_st_same_cont[OF sc]
    by (rule cont_inv_frame[OF inv]) (use eq in \<open>auto simp: ensure_table_def split: if_splits\<close>)
  have new: "htable c' = brk h \<and> xs = [] \<and> h' = h\<lparr>brk := Suc (brk h), slots := (slots h)(brk h := (\<lambda>_. null))\<rparr>"
    if "htable c = null" using that eq ok by (auto simp: ensure_table_def hash_ok_def)
  have old: "h' = h \<and> c' = c" if "htable c \<noteq> null" using that eq by (simp add: ensure_table_def)
  have "\<exists>B. buckets hf h' c' xs B"
  proof (cases "htable c = null")
    case True
    then have "buckets hf h' c' xs (\<lambda>_. [])"
      using new by (auto simp: buckets_def read_cell_def)
    then show ?thesis by blast
  next
    case False
    then show ?thesis using old ok by (auto simp: hash_ok_def)
  qed
  moreover have "0 < capacity c'" "htable c' < brk h'" "distinct (map (ikey h') xs)"
    using eq ok by (auto simp: ensure_table_def hash_ok_def split: if_splits)
  ultimately show ok': "hash_ok hf h' c' xs fs" using inv' nn by (auto simp: hash_ok_def)
  show "hash_frame hf h c h' c'"
  proof (cases "htable c = null")
    case True
    have "hash_same h h' (footprint c xs fs) (htable c)"
      using new[OF True] by (auto simp: hash_same_def same_outside_def)
    then show ?thesis using hash_frameI[OF ok ok' _ e] new[OF True] by auto
  next
    case False
    then show ?thesis using old by simp
  qed
qed

section \<open>Inserting a new item\<close>

lemma hash_insert_st:
  assumes ok: "hash_ok hf h c (us @ vs) fs" and nn: "htable c \<noteq> null" and abs: "k \<notin> ikey h ` set (us @ vs)"
    and pos: "pos = hd (vs @ [endItem c])"
    and t: "taken h c (us @ vs) fs h1 c1 i" and s1: "same_cells h h1 \<and> capacity c1 = capacity c \<and> htable c1 = htable c"
    and s2: "same_links h1 h2" "icell h2 = icell h1" "nextCell h2 = nextCell h1" "slots h2 = slots h1"
    and key: "ikey h2 = (ikey h1)(i := k)"
    and link: "link_before (link_cell hf h2 c1 i k) c1 i pos = (h4, c4)"
  shows "(\<exists>fs'. hash_ok hf h4 c4 (us @ i # vs) fs') \<and> endItem c4 = endItem c \<and>
           ikey h4 = (ikey h)(i := k) \<and> i \<notin> set (us @ vs) \<and> hash_frame hf h c h4 c4"
proof -
  let ?h3 = "link_cell hf h2 c1 i k"
  have inv: "cont_inv h c (us @ vs) fs" using ok by (rule hash_ok_inv)
  have "same_links h1 ?h3" using s2(1) by (simp add: same_links_def)
  then have t3: "taken h c (us @ vs) fs ?h3 c1 i" using taken_same_links[OF t] by blast
  obtain fs' where inv4: "cont_inv h4 c4 (us @ i # vs) fs'" and e4: "endItem c4 = endItem c"
    and out: "same_outside h h4 (footprint c (us @ vs) fs)" and fr: "fresh_for h fs i"
    and sub: "set fs' \<subseteq> set fs \<union> {brk h..<brk h4}"
    using link_taken_st[OF t3 pos link] by blast
  have new: "i \<notin> set (us @ vs)" "i \<noteq> null"
    using cont_st_distinct[OF inv4] cont_st_valid(1)[OF inv4, of i] by auto
  have l4: "same_cells ?h3 h4 \<and> capacity c4 = capacity c1 \<and> htable c4 = htable c1"
    by (rule link_before_cells[OF link])
  then have k4: "ikey h4 = (ikey h)(i := k)" using key s1 by (simp add: same_cells_def)
  obtain B where B: "buckets hf h c (us @ vs) B" using ok nn by (auto simp: hash_ok_def)
  have B2: "buckets hf h2 c1 (us @ vs) B"
    by (rule buckets_cong[OF B]) (use s1 s2 key new in \<open>auto simp: same_cells_def\<close>)
  have cap: "0 < capacity c1" using ok s1 by (simp add: hash_ok_def)
  have "\<exists>B'. buckets hf ?h3 c1 (us @ i # vs) B'"
    by (rule buckets_link[OF B2 cap new]) (simp_all add: key)
  then obtain B' where "buckets hf ?h3 c1 (us @ i # vs) B'" by blast
  then have B4: "buckets hf h4 c4 (us @ i # vs) B'"
    by (rule buckets_cong) (use l4 in \<open>auto simp: same_cells_def\<close>)
  have keys: "distinct (map (ikey h4) (us @ i # vs))"
    using ok new abs by (auto simp: k4 hash_ok_def)
  have "htable c4 < brk h4"
    using ok s1 l4 out by (simp add: hash_ok_def same_outside_def)
  then have ok4: "hash_ok hf h4 c4 (us @ i # vs) fs'"
    using inv4 cap keys B4 l4 s1 nn by (auto simp: hash_ok_def)
  let ?F = "footprint c (us @ vs) fs" and ?cl = "Slot (htable c1) (hf k mod capacity c1)"
  have j: "hf k mod capacity c1 < capacity c1" using cap by simp
  have "bchain h2 ?cl (B (hf k mod capacity c1))" "set (B (hf k mod capacity c1)) \<subseteq> set (us @ vs)"
    using B2 j unfolding buckets_def by auto
  then have n: "read_cell h2 ?cl \<in> insert null (set (us @ vs))"
    using bchain_head[of h2 ?cl] by (cases "B (hf k mod capacity c1)") auto
  have a: "icell h4 a = icell h a \<and> nextCell h4 a = nextCell h a \<and> ikey h4 a = ikey h a"
    if "a < brk h" "a \<notin> ?F" for a
  proof -
    have ai: "a \<noteq> i" "a \<notin> set (us @ vs)"
      using that fr by (auto simp: fresh_for_def footprint_def)
    then have "read_cell h2 ?cl = null \<or> a \<noteq> read_cell h2 ?cl" using n by auto
    then have "icell ?h3 a = icell h2 a" using ai by (auto simp: link_cell_icell Let_def)
    moreover have "nextCell ?h3 a = nextCell h2 a"
      using link_cell_read[of hf h2 c1 i k "NextOf a"] ai by (simp add: Let_def read_cell_def)
    moreover have "ikey h4 a = ikey h a" using ai k4 by simp
    ultimately show ?thesis using s1 s2 l4 by (simp add: same_cells_def)
  qed
  have sl: "slots h4 t = slots h t" if "t \<noteq> htable c" for t
  proof
    fix b
    have "slots ?h3 t b = slots h2 t b"
      using link_cell_read[of hf h2 c1 i k "Slot t b"] that s1 by (simp add: Let_def read_cell_def)
    then show "slots h4 t b = slots h t b" using l4 s1 s2 by (simp add: same_cells_def)
  qed
  have "hash_same h h4 ?F (htable c)" using out a sl by (simp add: hash_same_def)
  then have "hash_frame hf h c h4 c4"
    by (rule hash_frameI[OF ok ok4 _ e4]) (use l4 s1 fr sub in \<open>auto simp: fresh_for_def\<close>)
  with ok4 e4 k4 new show ?thesis by blast
qed

section \<open>Removing an item\<close>

lemma unlink_cell_keep [simp]:
  "brk (unlink_cell h i) = brk h" "prevp (unlink_cell h i) = prevp h"
  "nextp (unlink_cell h i) = nextp h" "ikey (unlink_cell h i) = ikey h"
  by (simp_all add: unlink_cell_def Let_def)

lemma unlink_cell_read:
  "read_cell (unlink_cell h i) d = (if d = icell h i then nextCell h i else read_cell h d)"
  by (simp add: unlink_cell_def Let_def)

lemma unlink_cell_icell:
  assumes "icell h i \<noteq> NextOf i"
  shows "icell (unlink_cell h i) =
     (if nextCell h i \<noteq> null then (icell h)(nextCell h i := icell h i) else icell h)"
proof -
  have "nextCell (write_cell h (icell h i) (nextCell h i)) i = nextCell h i"
    using assms by (auto simp: write_cell_def split: cellref.splits)
  then show ?thesis by (simp add: unlink_cell_def Let_def)
qed

lemma bchain_append:
  "bchain h c (as @ x # bs) \<Longrightarrow> icell h x = (if as = [] then c else NextOf (last as)) \<and>
     bchain h (NextOf x) bs \<and> x \<noteq> null"
proof (induction as arbitrary: c)
  case Nil
  then show ?case by simp
next
  case (Cons a as)
  have "bchain h (NextOf a) (as @ x # bs)" using Cons.prems by simp
  then show ?case using Cons.IH[of "NextOf a"] by simp
qed

lemma bchain_nonnull: "bchain h c xs \<Longrightarrow> null \<notin> set xs"
  by (induction xs arbitrary: c) auto

lemma unlink_cell_chain:
  assumes "bchain h c (as @ x # bs)" "distinct (as @ x # bs)" "\<forall>y\<in>set (as @ x # bs). c \<noteq> NextOf y"
  shows "bchain (unlink_cell h x) c (as @ bs)"
  using assms
proof (induction as arbitrary: c)
  case Nil
  have x: "icell h x = c" "bchain h (NextOf x) bs" using Nil.prems(1) by auto
  have ne: "icell h x \<noteq> NextOf x" using x(1) Nil.prems(3) by auto
  have n: "nextCell h x = hd (bs @ [null])" using bchain_head[OF x(2)] by (simp add: read_cell_def)
  show ?case
  proof (cases bs)
    case Nil
    then show ?thesis using n x by (simp add: unlink_cell_read)
  next
    case (Cons b zs)
    have b: "nextCell h x = b" "b \<noteq> null" "bchain h (NextOf b) zs"
      using n Cons x(2) by auto
    have "bchain (unlink_cell h x) (NextOf b) zs"
      by (rule bchain_frame[OF b(3)])
         (use Nil.prems Cons x b ne in \<open>auto simp: unlink_cell_read unlink_cell_icell\<close>)
    then show ?thesis using Cons x b ne by (auto simp: unlink_cell_read unlink_cell_icell)
  qed
next
  case (Cons a as)
  have IH: "bchain (unlink_cell h x) (NextOf a) (as @ bs)"
    by (rule Cons.IH) (use Cons.prems in auto)
  have x: "icell h x = NextOf (last (a # as))" "bchain h (NextOf x) bs"
    using bchain_append[of h c "a # as" x bs] Cons.prems(1) by auto
  have la: "last (a # as) \<in> set (a # as)" by simp
  have ne: "icell h x \<noteq> NextOf x" using x(1) Cons.prems(2) la by auto
  have c: "c \<noteq> icell h x" using Cons.prems(3) x(1) la by auto
  have "nextCell h x \<noteq> a \<or> nextCell h x = null"
    using bchain_head[OF x(2)] Cons.prems(2) by (cases bs) (auto simp: read_cell_def)
  then have "icell (unlink_cell h x) a = icell h a" using ne by (auto simp: unlink_cell_icell)
  then show ?case using IH Cons.prems(1) c by (simp add: unlink_cell_read)
qed

lemma unlink_cell_other:
  assumes "bchain h c ys" "icell h x \<noteq> NextOf x" "c \<noteq> icell h x" "\<forall>y\<in>set ys. icell h x \<noteq> NextOf y"
    and "nextCell h x \<notin> set ys"
  shows "bchain (unlink_cell h x) c ys"
  by (rule bchain_frame[OF assms(1)]) (use assms in \<open>auto simp: unlink_cell_read unlink_cell_icell\<close>)

lemma buckets_unlink:
  assumes B: "buckets hf h c xs B" and cap: "0 < capacity c" and x: "x \<in> set xs"
    and xs': "set xs' = set xs - {x}"
  shows "\<exists>B'. buckets hf (unlink_cell h x) c xs' B'"
proof -
  let ?j = "hf (ikey h x) mod capacity c"
  have j: "?j < capacity c" using cap by simp
  have at: "bchain h (Slot (htable c) b) (B b)" "distinct (B b)"
      "set (B b) = {x \<in> set xs. hf (ikey h x) mod capacity c = b}" if "b < capacity c" for b
    using B that by (auto simp: buckets_def)
  have "x \<in> set (B ?j)" using at(3)[OF j] x by simp
  then obtain as bs where Bj: "B ?j = as @ x # bs" by (meson split_list)
  note ch = at(1)[OF j, unfolded Bj]
  have di: "distinct (as @ x # bs)" using at(2)[OF j] Bj by simp
  have cell: "icell h x = (if as = [] then Slot (htable c) ?j else NextOf (last as))"
    and rest: "bchain h (NextOf x) bs" "x \<noteq> null" using bchain_append[OF ch] by auto
  have n: "nextCell h x \<in> insert null (set bs)"
    using bchain_head[OF rest(1)] by (cases bs) (auto simp: read_cell_def)
  have ne: "icell h x \<noteq> NextOf x" using cell di by auto
  let ?B = "B(?j := as @ bs)"
  have "buckets hf (unlink_cell h x) c xs' ?B" unfolding buckets_def
  proof (intro allI impI conjI)
    fix b assume b: "b < capacity c"
    show "bchain (unlink_cell h x) (Slot (htable c) b) (?B b)"
    proof (cases "b = ?j")
      case True
      have "bchain (unlink_cell h x) (Slot (htable c) ?j) (as @ bs)"
        by (rule unlink_cell_chain[OF ch di]) simp
      with True show ?thesis by simp
    next
      case False
      have dis: "set (B b) \<inter> set (as @ x # bs) = {}"
        using at(3)[OF b] at(3)[OF j] Bj False by auto
      have "bchain (unlink_cell h x) (Slot (htable c) b) (B b)"
      proof (rule unlink_cell_other[OF at(1)[OF b] ne])
        show "Slot (htable c) b \<noteq> icell h x" using cell False by auto
        show "\<forall>y\<in>set (B b). icell h x \<noteq> NextOf y"
          using cell dis by (auto dest: last_in_set)
        show "nextCell h x \<notin> set (B b)" using n dis bchain_nonnull[OF at(1)[OF b]] by auto
      qed
      with False show ?thesis by simp
    qed
    show "distinct (?B b)" using at(2)[OF b] di by auto
    show "set (?B b) = {y \<in> set xs'. hf (ikey (unlink_cell h x) y) mod capacity c = b}"
      using at(3)[OF b] at(3)[OF j] Bj di xs' by auto
  qed
  then show ?thesis by blast
qed

text \<open>Where the removal of \<open>x\<close> writes.\<close>

lemma unlink_cell_same:
  assumes B: "buckets hf h c xs B" and cap: "0 < capacity c" and x: "x \<in> set xs"
    and a: "a \<notin> set xs"
  shows "icell (unlink_cell h x) a = icell h a" "nextCell (unlink_cell h x) a = nextCell h a"
    "t \<noteq> htable c \<Longrightarrow> slots (unlink_cell h x) t = slots h t"
proof -
  let ?j = "hf (ikey h x) mod capacity c"
  have j: "?j < capacity c" using cap by simp
  have Bj: "bchain h (Slot (htable c) ?j) (B ?j)" "set (B ?j) \<subseteq> set xs" "x \<in> set (B ?j)" "distinct (B ?j)"
    using B j x unfolding buckets_def by auto
  obtain as bs where sp: "B ?j = as @ x # bs" using Bj(3) by (meson split_list)
  have cell: "icell h x = (if as = [] then Slot (htable c) ?j else NextOf (last as))"
    and rest: "bchain h (NextOf x) bs" using bchain_append[of h _ as x bs] Bj(1) sp by auto
  have n: "nextCell h x \<in> insert null (set bs)"
    using bchain_head[OF rest] by (cases bs) (auto simp: read_cell_def)
  have ne: "icell h x \<noteq> NextOf x" using cell Bj(4) sp by (auto dest: last_in_set)
  have na: "nextCell h x \<noteq> a \<or> nextCell h x = null" using n Bj(2) sp a by auto
  have ca: "icell h x \<noteq> NextOf a" using cell Bj(2) sp a by (auto dest: last_in_set)
  show "icell (unlink_cell h x) a = icell h a" using na ne by (auto simp: unlink_cell_icell)
  show "nextCell (unlink_cell h x) a = nextCell h a"
    using unlink_cell_read[of h x "NextOf a"] ca by (auto simp: read_cell_def)
  show "slots (unlink_cell h x) t = slots h t" if t: "t \<noteq> htable c"
  proof
    fix b
    have "icell h x \<noteq> Slot t b" using cell t by auto
    then show "slots (unlink_cell h x) t b = slots h t b"
      using unlink_cell_read[of h x "Slot t b"] by (auto simp: read_cell_def)
  qed
qed

lemma hash_remove_st:
  assumes ok: "hash_ok hf h c (us @ x # vs) fs" and un: "unlink (unlink_cell h x) c x = (h1, c1)"
    and re: "release h1 c1 x = (h2, c2)"
  shows "hash_ok hf h2 c2 (us @ vs) (x # fs)" "endItem c2 = endItem c"
    "ikey h2 = ikey h" "hash_frame hf h c h2 c2" "nextp h2 x = hd (vs @ [endItem c])"
proof -
  let ?h = "unlink_cell h x" and ?F = "footprint c (us @ x # vs) fs"
  have inv: "cont_inv h c (us @ x # vs) fs" using ok by (rule hash_ok_inv)
  have sl: "same_links h ?h" by (simp add: same_links_def)
  then have inv': "cont_inv ?h c (us @ x # vs) fs" using inv cont_st_same_links[OF sl] by blast
  have s1: "same_links h1 h1" by (simp add: same_links_def)
  note R = remove_links_st[OF inv' un s1 re]
  have cells: "same_cells ?h h2 \<and> capacity c2 = capacity c \<and> htable c2 = htable c"
    using unlink_cells[OF un] release_cells[OF re] by (simp add: same_cells_def)
  have cap: "0 < capacity c" using ok by (simp add: hash_ok_def)
  have nn: "htable c \<noteq> null" using ok by (auto simp: hash_ok_def split: if_splits)
  then obtain B where B: "buckets hf h c (us @ x # vs) B" using ok by (auto simp: hash_ok_def)
  have di: "distinct (us @ x # vs)" using cont_st_distinct[OF inv] by auto
  have "\<exists>B'. buckets hf ?h c (us @ vs) B'"
    by (rule buckets_unlink[OF B cap]) (use di in auto)
  then obtain B' where "buckets hf ?h c (us @ vs) B'" by blast
  then have B2: "buckets hf h2 c2 (us @ vs) B'"
    by (rule buckets_cong) (use cells in \<open>auto simp: same_cells_def\<close>)
  show k: "ikey h2 = ikey h" using cells by (simp add: same_cells_def)
  show e: "endItem c2 = endItem c" by (rule R(3))
  show "nextp h2 x = hd (vs @ [endItem c])" by (rule R(2))
  have out: "same_outside h h2 ?F" using R(4) by (simp add: same_outside_def)
  then show ok2: "hash_ok hf h2 c2 (us @ vs) (x # fs)"
    using R(1) ok cells B2 k by (auto simp: hash_ok_def same_outside_def)
  have xin: "x \<in> set (us @ x # vs)" by simp
  note US = unlink_cell_same[OF B cap xin]
  have "hash_same h h2 ?F (htable c)" unfolding hash_same_def
  proof (intro conjI allI impI)
    show "same_outside h h2 ?F" by (rule out)
    fix a
    show "ikey h2 a = ikey h a" by (simp add: k)
    { assume "a \<notin> ?F"
      then have "a \<notin> set (us @ x # vs)" by (simp add: footprint_def)
      then show "icell h2 a = icell h a" "nextCell h2 a = nextCell h a"
        using US(1,2)[of a] cells by (simp_all add: same_cells_def) }
    assume "a \<noteq> htable c"
    moreover have "endItem c \<notin> set (us @ x # vs)" using cont_st_distinct[OF inv] by auto
    ultimately show "slots h2 a = slots h a"
      using US(3)[of "endItem c" a] cells by (simp add: same_cells_def)
  qed
  then show "hash_frame hf h c h2 c2"
    by (rule hash_frameI[OF ok ok2 _ e]) (use cells in auto)
qed

section \<open>Clearing\<close>

lemma hash_clear_loop_ok:
  assumes "clear_loop g f (hd (xs @ [e])) e = Some (g', f')" "dseg P (nextp g) a xs e" "same_links g h"
    and "e \<notin> set xs"
  shows "\<exists>h'. hash_clear_loop h f (hd (xs @ [e])) e = Some (h', f') \<and> same_links g' h' \<and>
           icell h' = icell h \<and> ikey h' = ikey h \<and>
           (\<forall>cl. read_cell h' cl = (if cl \<in> icell h ` set xs then null else read_cell h cl))"
  using assms
proof (induction xs arbitrary: g h f a)
  case Nil
  then show ?case
    by (subst hash_clear_loop.simps) (auto simp: clear_loop.simps)
next
  case (Cons x xs)
  let ?g = "g\<lparr>prevp := (prevp g)(x := f)\<rparr>"
  let ?h1 = "write_cell h (icell h x) null"
  let ?h2 = "?h1\<lparr>prevp := (prevp ?h1)(x := f)\<rparr>"
  have nx: "nextp g x = hd (xs @ [e])" "x \<noteq> e" using Cons.prems(2,4) by auto
  have gr: "clear_loop ?g x (hd (xs @ [e])) e = Some (g', f')"
    using Cons.prems(1) nx by (subst (asm) clear_loop.simps) simp
  have sl: "same_links ?g ?h2" using Cons.prems(3) by (simp add: same_links_def)
  have "\<exists>h'. hash_clear_loop ?h2 x (hd (xs @ [e])) e = Some (h', f') \<and> same_links g' h' \<and>
           icell h' = icell ?h2 \<and> ikey h' = ikey ?h2 \<and>
           (\<forall>cl. read_cell h' cl = (if cl \<in> icell ?h2 ` set xs then null else read_cell ?h2 cl))"
    by (rule Cons.IH[OF gr _ sl, of x]) (use Cons.prems in auto)
  then obtain h' where h': "hash_clear_loop ?h2 x (hd (xs @ [e])) e = Some (h', f')" "same_links g' h'"
      "icell h' = icell h" "ikey h' = ikey h"
      "\<forall>cl. read_cell h' cl = (if cl \<in> icell h ` set xs then null else read_cell ?h2 cl)"
    by auto
  have "nextp h x = hd (xs @ [e])" using nx(1) Cons.prems(3) by (simp add: same_links_def)
  then have "hash_clear_loop h f x e = Some (h', f')"
    using h'(1) nx(2) by (subst hash_clear_loop.simps) (simp add: Let_def)
  moreover have "read_cell h' cl = (if cl \<in> icell h ` set (x # xs) then null else read_cell h cl)" for cl
    using h'(5) by auto
  ultimately show ?case using h'(2,3,4) by auto
qed

lemma hash_clear_ok:
  assumes ok: "hash_ok hf h c xs fs"
  shows "\<exists>h' c'. hash_clear h c = Some (h', c') \<and> hash_ok hf h' c' [] (rev xs @ fs) \<and>
           endItem c' = endItem c \<and> ikey h' = ikey h \<and> hash_frame hf h c h' c'"
proof -
  have inv: "cont_inv h c xs fs" using ok by (rule hash_ok_inv)
  obtain h1 c1 p where c1: "clear_links h c = Some (h1, c1)" "cont_inv h1 c1 [] (rev xs @ fs)"
    "endItem c1 = endItem c" "h1 = h\<lparr>prevp := p\<rparr>" "same_outside h h1 (footprint c xs fs)"
    using clear_links_st[OF inv] by blast
  obtain g f where g: "clear_loop h (freeItem c) (beginp c) (endItem c) = Some (g, f)"
    "h1 = g\<lparr>prevp := (prevp g)(endItem c := null)\<rparr>"
    "c1 = c\<lparr>freeItem := f, beginp := endItem c, csize := 0\<rparr>"
    using c1(1) by (auto simp: clear_links_def)
  have b: "beginp c = hd (xs @ [endItem c])" "endItem c \<notin> set xs"
    "dseg (prevp h) (nextp h) null xs (endItem c)"
    using inv by (auto simp: cont_st_def)
  have s0: "same_links h h" by (simp add: same_links_def)
  obtain h2 where h2: "hash_clear_loop h (freeItem c) (beginp c) (endItem c) = Some (h2, f)"
    "same_links g h2" "icell h2 = icell h" "ikey h2 = ikey h"
    "\<forall>cl. read_cell h2 cl = (if cl \<in> icell h ` set xs then null else read_cell h cl)"
    using hash_clear_loop_ok[OF g(1)[unfolded b(1)] b(3) s0 b(2)] unfolding b(1) by blast
  let ?h = "h2\<lparr>prevp := (prevp h2)(endItem c := null)\<rparr>"
  have run: "hash_clear h c = Some (?h, c1)" by (simp add: hash_clear_def h2(1) g(3))
  have sl: "same_links h1 ?h" using h2(2) by (simp add: same_links_def g(2))
  have inv': "cont_inv ?h c1 [] (rev xs @ fs)" using c1(2) cont_st_same_links[OF sl] by blast
  have ct: "capacity c1 = capacity c" "htable c1 = htable c" by (simp_all add: g(3))
  have bk: "htable c < brk ?h" using ok sl c1(4) by (simp add: hash_ok_def same_links_def)
  have keep: "read_cell ?h cl = read_cell h cl" if "cl \<notin> icell h ` set xs" for cl
    using h2(5) that by simp
  have cells: "icell h x \<in> {Slot (htable c) b |b. True} \<union> NextOf ` set xs" if "x \<in> set xs" for x
  proof -
    have "htable c \<noteq> null" using ok that by (auto simp: hash_ok_def split: if_splits)
    then obtain B where B: "buckets hf h c xs B" using ok by (auto simp: hash_ok_def)
    let ?j = "hf (ikey h x) mod capacity c"
    have j: "?j < capacity c" using ok by (simp add: hash_ok_def)
    have Bj: "bchain h (Slot (htable c) ?j) (B ?j)" "set (B ?j) \<subseteq> set xs" "x \<in> set (B ?j)"
      using B j that unfolding buckets_def by auto
    obtain as bs where sp: "B ?j = as @ x # bs" using Bj(3) by (meson split_list)
    have "icell h x = (if as = [] then Slot (htable c) ?j else NextOf (last as))"
      using bchain_append[of h _ as x bs] Bj(1) sp by auto
    then show ?thesis using Bj(2) sp by (auto dest: last_in_set)
  qed
  have "\<exists>B. buckets hf ?h c1 [] B" if nn: "htable c \<noteq> null"
  proof -
    obtain B where B: "buckets hf h c xs B" using ok nn by (auto simp: hash_ok_def)
    have "read_cell ?h (Slot (htable c) b) = null" if "b < capacity c" for b
    proof (cases "B b")
      case Nil
      then have "read_cell h (Slot (htable c) b) = null" using B that by (auto simp: buckets_def)
      then show ?thesis using h2(5) by simp
    next
      case (Cons y ys)
      have "set (B b) \<subseteq> set xs" using B that by (auto simp: buckets_def)
      moreover have "bchain h (Slot (htable c) b) (B b)" using B that by (simp add: buckets_def)
      ultimately have "bchain h (Slot (htable c) b) (y # ys)" "y \<in> set xs" using Cons by auto
      then have "Slot (htable c) b \<in> icell h ` set xs" by force
      then show ?thesis using h2(5) by simp
    qed
    then have "buckets hf ?h c1 [] (\<lambda>_. [])" using ct by (simp add: buckets_def)
    then show ?thesis by blast
  qed
  then have ok': "hash_ok hf ?h c1 [] (rev xs @ fs)"
    using inv' ok ct bk by (auto simp: hash_ok_def)
  have "hash_same h ?h (footprint c xs fs) (htable c)" unfolding hash_same_def
  proof (intro conjI allI impI)
    show "same_outside h ?h (footprint c xs fs)" by (rule same_outside_links[OF c1(5) sl])
    fix a
    show "ikey ?h a = ikey h a" "icell ?h a = icell h a" using h2(3,4) by simp_all
    { assume "a \<notin> footprint c xs fs"
      then have "a \<notin> set xs" by (simp add: footprint_def)
      have "NextOf a \<notin> icell h ` set xs"
      proof
        assume "NextOf a \<in> icell h ` set xs"
        then obtain x where "x \<in> set xs" "icell h x = NextOf a" by auto
        with cells[of x] \<open>a \<notin> set xs\<close> show False by auto
      qed
      then show "nextCell ?h a = nextCell h a" using keep[of "NextOf a"] by (simp add: read_cell_def) }
    assume t: "a \<noteq> htable c"
    show "slots ?h a = slots h a"
    proof
      fix b
      have "Slot a b \<notin> icell h ` set xs"
      proof
        assume "Slot a b \<in> icell h ` set xs"
        then obtain x where "x \<in> set xs" "icell h x = Slot a b" by auto
        with cells[of x] t show False by auto
      qed
      then show "slots ?h a b = slots h a b" using keep[of "Slot a b"] by (simp add: read_cell_def)
    qed
  qed
  then have "hash_frame hf h c ?h c1"
    by (rule hash_frameI[OF ok ok' _ c1(3)]) (auto simp: ct)
  then show ?thesis using run ok' c1(3) h2(4) by auto
qed

section \<open>Swapping\<close>

lemma adopt_cells:
  "adopt h c first lst = (h', c') \<Longrightarrow>
     same_cells h h' \<and> capacity c' = capacity c \<and> htable c' = htable c" for c :: hcont
  by (auto simp: adopt_def same_cells_def Let_def split: if_splits)

lemma hash_swap_ok:
  assumes c: "hash_ok hf h c xs fs" and d: "hash_ok hf h d ys gs" and ap: "hash_apart c d"
    and eq: "hash_swap h c d = (h', c', d')"
  shows "hash_ok hf h' c' ys gs" "hash_ok hf h' d' xs fs" "ikey h' = ikey h" "hash_apart c' d'"
proof -
  obtain c1 d1 where s: "swap_links h c d = (h', c1, d1)"
    and c': "c' = c1\<lparr>capacity := capacity d, htable := htable d\<rparr>"
    and d': "d' = d1\<lparr>capacity := capacity c, htable := htable c\<rparr>"
    using eq by (auto simp: hash_swap_def Let_def split: prod.splits)
  have dis: "footprint c xs fs \<inter> footprint d ys gs = {}"
    using hash_apart_footprint[OF c d] ap by blast
  note S = swap_links_st[OF hash_ok_inv[OF c] hash_ok_inv[OF d] dis s]
  have cells: "same_cells h h'" and bk: "brk h' = brk h"
    using s S(5) by (auto simp: same_cells_def)
  have sc: "same_cont c1 c'" "same_cont d1 d'" by (simp_all add: same_cont_def c' d')
  have i: "cont_inv h' c' ys gs" "cont_inv h' d' xs fs"
    using S(1,2) cont_st_same_cont[OF sc(1)] cont_st_same_cont[OF sc(2)] by blast+
  show k: "ikey h' = ikey h" using cells by (simp add: same_cells_def)
  have f: "capacity c' = capacity d" "htable c' = htable d" "capacity d' = capacity c" "htable d' = htable c"
    by (simp_all add: c' d')
  have "buckets hf h' c' ys B" if "buckets hf h d ys B" for B
    by (rule buckets_cong[OF that]) (use cells f in \<open>auto simp: same_cells_def\<close>)
  then have "Ex (buckets hf h d ys) \<Longrightarrow> Ex (buckets hf h' c' ys)" by blast
  then show ok1: "hash_ok hf h' c' ys gs" using d i(1) f bk k by (auto simp: hash_ok_def)
  have "buckets hf h' d' xs B" if "buckets hf h c xs B" for B
    by (rule buckets_cong[OF that]) (use cells f in \<open>auto simp: same_cells_def\<close>)
  then have "Ex (buckets hf h c xs) \<Longrightarrow> Ex (buckets hf h' d' xs)" by blast
  then show ok2: "hash_ok hf h' d' xs fs" using c i(2) f bk k by (auto simp: hash_ok_def)
  have e: "endItem c' = endItem c" "endItem d' = endItem d" using S(3,4) by (simp_all add: c' d')
  have "footprint c' ys gs \<inter> footprint d' xs fs = {}"
    using dis e cont_st_distinct[OF hash_ok_inv[OF c]] cont_st_distinct[OF hash_ok_inv[OF d]]
      cont_st_distinct[OF i(1)] cont_st_distinct[OF i(2)] by (auto simp: footprint_def)
  then show "hash_apart c' d'" using hash_apart_footprint[OF ok1 ok2] f ap by (auto simp: hash_apart_def)
qed

section \<open>A new container\<close>

lemma init_hcont_ok:
  assumes eq: "init_hcont h cap = (h', c)" and pos: "0 < brk h"
  shows "hash_ok hf h' c [] []" "ikey h' = ikey h"
    "hash_ok hf h d ys gs \<Longrightarrow> hash_ok hf h' d ys gs \<and> hash_apart c d"
proof -
  obtain c0 where i: "init_cont h = (h', c0)"
    and c: "c = cont.extend c0 \<lparr>capacity = Bit_Operations.or cap (of_bool (cap = 0)), htable = null\<rparr>"
    using eq by (auto simp: init_hcont_def split: prod.splits)
  have sc: "same_cont c0 c" by (simp add: same_cont_def c cont.defs)
  have "cont_inv h' c [] []" using init_cont_st[OF i pos] cont_st_same_cont[OF sc] by blast
  moreover have "capacity c = Bit_Operations.or cap (of_bool (cap = 0))" "htable c = null"
    by (simp_all add: c cont.defs)
  moreover from this have "0 < capacity c" by (cases "cap = 0") simp_all
  moreover have "brk h' = Suc (brk h)" using i by (auto simp: init_cont_def)
  ultimately show ok: "hash_ok hf h' c [] []" by (simp add: hash_ok_def)
  show "ikey h' = ikey h" using i by (auto simp: init_cont_def)
  assume d: "hash_ok hf h d ys gs"
  have "hash_same h h' {} null"
    using i by (auto simp: hash_same_def same_outside_def init_cont_def)
  then have d': "hash_ok hf h' d ys gs" using hash_ok_other[OF d] by blast
  have "endItem c = brk h" using i by (auto simp: c init_cont_def cont.defs)
  then have "footprint c [] [] \<inter> footprint d ys gs = {}"
    using footprint_bound[OF hash_ok_inv[OF d], of "brk h"] by (auto simp: footprint_def)
  then show "hash_ok hf h' d ys gs \<and> hash_apart c d"
    using d' hash_apart_footprint[OF ok d'] \<open>htable c = null\<close> by simp
qed

end
