(* ===== verification/Nstd_HashMap.thy ===== *)
theory Nstd_HashMap
  imports Nstd_HashTable
begin

text \<open>
  \<^verbatim>\<open>HashMap<T, V>\<close> (include/nstd/HashMap.hpp): the hash table with values, which keeps its items in
  insertion order. The abstract value of a map is the list of its key/value pairs from first to
  last; an insertion looks the key up first, and only an absent key gets a new item.
\<close>

section \<open>State\<close>

record ('k, 'v) hmap_heap = "'k hash_heap" +
  hval :: "addr \<Rightarrow> 'v"

section \<open>Operations\<close>

definition hashmap_init :: "('k, 'v) hmap_heap \<Rightarrow> ('k, 'v) hmap_heap \<times> hcont" where
  "hashmap_init h = init_hcont h 500"

definition hashmap_find :: "('k \<Rightarrow> nat) \<Rightarrow> ('k, 'v) hmap_heap \<Rightarrow> hcont \<Rightarrow> 'k \<Rightarrow> addr option" where
  "hashmap_find hf h c k = hash_find hf h c k"

definition hashmap_contains :: "('k \<Rightarrow> nat) \<Rightarrow> ('k, 'v) hmap_heap \<Rightarrow> hcont \<Rightarrow> 'k \<Rightarrow> bool option" where
  "hashmap_contains hf h c k = map_option (\<lambda>it. it \<noteq> endItem c) (hashmap_find hf h c k)"

definition hashmap_insert ::
    "('k \<Rightarrow> nat) \<Rightarrow> ('k, 'v) hmap_heap \<Rightarrow> hcont \<Rightarrow> addr \<Rightarrow> 'k \<Rightarrow> 'v \<Rightarrow> bool
     \<Rightarrow> (('k, 'v) hmap_heap \<times> hcont \<times> addr) option" where
  "hashmap_insert hf h c position k v overwrite =
     Option.bind (hashmap_find hf h c k) (\<lambda>it.
       if it \<noteq> endItem c
       then Some (if overwrite then h\<lparr>hval := (hval h)(it := v)\<rparr> else h, c, it)
       else (let (h1, c1) = ensure_table h c;
                 (h2, c2, item) = alloc_first h1 c1;
                 h3 = h2\<lparr>ikey := (ikey h2)(item := k), hval := (hval h2)(item := v)\<rparr>;
                 h4 = link_cell hf h3 c2 item k;
                 (h5, c3) = link_before h4 c2 item position
             in Some (h5, c3, item)))"

definition hashmap_prepend ::
    "('k \<Rightarrow> nat) \<Rightarrow> ('k, 'v) hmap_heap \<Rightarrow> hcont \<Rightarrow> 'k \<Rightarrow> 'v \<Rightarrow> bool
     \<Rightarrow> (('k, 'v) hmap_heap \<times> hcont \<times> addr) option" where
  "hashmap_prepend hf h c k v overwrite = hashmap_insert hf h c (beginp c) k v overwrite"

definition hashmap_append ::
    "('k \<Rightarrow> nat) \<Rightarrow> ('k, 'v) hmap_heap \<Rightarrow> hcont \<Rightarrow> 'k \<Rightarrow> 'v \<Rightarrow> bool
     \<Rightarrow> (('k, 'v) hmap_heap \<times> hcont \<times> addr) option" where
  "hashmap_append hf h c k v overwrite = hashmap_insert hf h c (endItem c) k v overwrite"

definition hashmap_remove ::
    "('k, 'v) hmap_heap \<Rightarrow> hcont \<Rightarrow> addr \<Rightarrow> ('k, 'v) hmap_heap \<times> hcont \<times> addr" where
  "hashmap_remove h c item =
     (let h1 = unlink_cell h item;
          (h2, c2) = unlink h1 c item;
          (h3, c3) = release h2 c2 item
      in (h3, c3, nextp h3 item))"

definition hashmap_remove_key ::
    "('k \<Rightarrow> nat) \<Rightarrow> ('k, 'v) hmap_heap \<Rightarrow> hcont \<Rightarrow> 'k \<Rightarrow> (('k, 'v) hmap_heap \<times> hcont) option" where
  "hashmap_remove_key hf h c k =
     Option.bind (hashmap_find hf h c k) (\<lambda>it.
       if it \<noteq> endItem c then (let (h', c', _) = hashmap_remove h c it in Some (h', c'))
       else Some (h, c))"

definition hashmap_removeFront :: "('k, 'v) hmap_heap \<Rightarrow> hcont \<Rightarrow> ('k, 'v) hmap_heap \<times> hcont \<times> addr" where
  "hashmap_removeFront h c = hashmap_remove h c (beginp c)"

definition hashmap_removeBack :: "('k, 'v) hmap_heap \<Rightarrow> hcont \<Rightarrow> ('k, 'v) hmap_heap \<times> hcont \<times> addr" where
  "hashmap_removeBack h c = hashmap_remove h c (prevp h (endItem c))"

definition hashmap_clear :: "('k, 'v) hmap_heap \<Rightarrow> hcont \<Rightarrow> (('k, 'v) hmap_heap \<times> hcont) option" where
  "hashmap_clear h c = hash_clear h c"

definition hashmap_swap :: "('k, 'v) hmap_heap \<Rightarrow> hcont \<Rightarrow> hcont \<Rightarrow> ('k, 'v) hmap_heap \<times> hcont \<times> hcont" where
  "hashmap_swap h c d = hash_swap h c d"

partial_function (option) hashmap_copy_loop ::
    "('k \<Rightarrow> nat) \<Rightarrow> ('k, 'v) hmap_heap \<Rightarrow> hcont \<Rightarrow> addr \<Rightarrow> addr \<Rightarrow> (('k, 'v) hmap_heap \<times> hcont) option" where
  "hashmap_copy_loop hf h c i e =
     (if i = e then Some (h, c)
      else Option.bind (hashmap_append hf h c (ikey h i) (hval h i) True) (\<lambda>(h1, c1, _).
             hashmap_copy_loop hf h1 c1 (nextp h1 i) e))"

definition hashmap_copy ::
    "('k \<Rightarrow> nat) \<Rightarrow> ('k, 'v) hmap_heap \<Rightarrow> hcont \<Rightarrow> (('k, 'v) hmap_heap \<times> hcont) option" where
  "hashmap_copy hf h other =
     (let (h1, c) = hashmap_init h
      in hashmap_copy_loop hf h1 c (beginp other) (endItem other))"

definition hashmap_assign ::
    "('k \<Rightarrow> nat) \<Rightarrow> ('k, 'v) hmap_heap \<Rightarrow> hcont \<Rightarrow> hcont \<Rightarrow> (('k, 'v) hmap_heap \<times> hcont) option" where
  "hashmap_assign hf h c other =
     Option.bind (hashmap_clear h c) (\<lambda>(h1, c1).
       hashmap_copy_loop hf h1 c1 (beginp other) (endItem other))"

text \<open>\<^verbatim>\<open>operator=\<close> with \<^verbatim>\<open>&other == this\<close>\<close>

definition hashmap_assign_self ::
    "('k \<Rightarrow> nat) \<Rightarrow> ('k, 'v) hmap_heap \<Rightarrow> hcont \<Rightarrow> (('k, 'v) hmap_heap \<times> hcont) option" where
  "hashmap_assign_self hf h c =
     Option.bind (hashmap_clear h c) (\<lambda>(h1, c1).
       hashmap_copy_loop hf h1 c1 (beginp c1) (endItem c1))"

partial_function (option) hashmap_eq_loop ::
    "('k, 'v) hmap_heap \<Rightarrow> addr \<Rightarrow> addr \<Rightarrow> addr \<Rightarrow> bool option" where
  "hashmap_eq_loop h a b e =
     (if a = e then Some True
      else if ikey h a \<noteq> ikey h b \<or> hval h a \<noteq> hval h b then Some False
      else hashmap_eq_loop h (nextp h a) (nextp h b) e)"

definition hashmap_eq :: "('k, 'v) hmap_heap \<Rightarrow> hcont \<Rightarrow> hcont \<Rightarrow> bool option" where
  "hashmap_eq h c other =
     (if csize c \<noteq> csize other then Some False
      else hashmap_eq_loop h (beginp c) (beginp other) (endItem c))"

section \<open>What a map holds\<close>

definition hm_ok ::
    "('k \<Rightarrow> nat) \<Rightarrow> ('k, 'v) hmap_heap \<Rightarrow> hcont \<Rightarrow> addr list \<Rightarrow> ('k \<times> 'v) list \<Rightarrow> bool" where
  "hm_ok hf h c xs kvs \<longleftrightarrow>
     (\<exists>fs. hash_ok hf h c xs fs) \<and> kvs = map (\<lambda>x. (ikey h x, hval h x)) xs"

definition hm_frame ::
    "('k \<Rightarrow> nat) \<Rightarrow> ('k, 'v) hmap_heap \<Rightarrow> hcont \<Rightarrow> ('k, 'v) hmap_heap \<Rightarrow> hcont \<Rightarrow> bool" where
  "hm_frame hf h c h' c' \<longleftrightarrow>
     (\<forall>d ys kvs. hm_ok hf h d ys kvs \<longrightarrow> hash_apart c d \<longrightarrow> hm_ok hf h' d ys kvs \<and> hash_apart c' d)"

lemma hm_frame_refl [simp]: "hm_frame hf h c h c"
  by (simp add: hm_frame_def)

lemma hm_frame_trans: "hm_frame hf h c h1 c1 \<Longrightarrow> hm_frame hf h1 c1 h2 c2 \<Longrightarrow> hm_frame hf h c h2 c2"
  unfolding hm_frame_def by blast

lemma hm_okE:
  assumes "hm_ok hf h c xs kvs"
  obtains fs where "hash_ok hf h c xs fs" "kvs = map (\<lambda>x. (ikey h x, hval h x)) xs"
  using assms by (auto simp: hm_ok_def)

lemma hm_ok_facts:
  assumes "hm_ok hf h c xs kvs"
  shows "distinct (map fst kvs)" "csize c = length kvs" "length xs = length kvs"
    "beginp c = hd (xs @ [endItem c])" "endItem c \<notin> set xs" "distinct xs" "set xs \<subseteq> pool c"
    "prevp h (endItem c) = null \<longleftrightarrow> xs = []" "prevp h (endItem c) = last (null # xs)" "0 < brk h"
proof -
  obtain fs where ok: "hash_ok hf h c xs fs" and kvs: "kvs = map (\<lambda>x. (ikey h x, hval h x)) xs"
    using assms by (rule hm_okE)
  have inv: "cont_inv h c xs fs" using ok by (rule hash_ok_inv)
  have "map fst kvs = map (ikey h) xs" by (simp add: kvs)
  then show "distinct (map fst kvs)" using ok by (simp add: hash_ok_def)
  show "csize c = length kvs" "length xs = length kvs" "beginp c = hd (xs @ [endItem c])"
    "endItem c \<notin> set xs" "distinct xs" "set xs \<subseteq> pool c"
    using inv kvs by (auto simp: cont_st_def)
  show P: "prevp h (endItem c) = last (null # xs)" using inv by (auto simp: cont_st_def dest: dseg_last_prev)
  show "prevp h (endItem c) = null \<longleftrightarrow> xs = []"
    using P cont_st_valid(1)[OF inv, of "last xs"] by auto
  show "0 < brk h" using cont_st_valid(2)[OF inv, of "endItem c"] by auto
qed

lemma hm_ok_next:
  assumes "hm_ok hf h c (us @ x # vs) kvs"
  shows "nextp h x = hd (vs @ [endItem c])"
proof -
  obtain fs where "hash_ok hf h c (us @ x # vs) fs" using assms by (rule hm_okE)
  from hash_ok_inv[OF this] show ?thesis by (auto simp: cont_st_def dest: dseg_mid_next)
qed

lemma hm_frameI:
  assumes fr: "hash_frame hf h c h' c'" and vals: "\<And>a. a \<notin> pool c' \<Longrightarrow> hval h' a = hval h a"
  shows "hm_frame hf h c h' c'"
  unfolding hm_frame_def
proof (intro allI impI)
  fix d ys kvs assume d: "hm_ok hf h d ys kvs" and ap: "hash_apart c d"
  obtain gs where ok: "hash_ok hf h d ys gs" and kvs: "kvs = map (\<lambda>x. (ikey h x, hval h x)) ys"
    using d by (rule hm_okE)
  have ok': "hash_ok hf h' d ys gs" and ap': "hash_apart c' d" and k: "\<forall>y\<in>set ys. ikey h' y = ikey h y"
    using fr ok ap unfolding hash_frame_def by blast+
  have "hval h' y = hval h y" if "y \<in> set ys" for y
  proof (rule vals)
    show "y \<notin> pool c'" using hm_ok_facts(7)[OF d] that ap' by (auto simp: hash_apart_def)
  qed
  then show "hm_ok hf h' d ys kvs \<and> hash_apart c' d"
    using ok' ap' k kvs by (auto simp: hm_ok_def)
qed

section \<open>Looking up\<close>

lemma item_of_split:
  assumes "hm_ok hf h c (us @ x # vs) (ps @ (k, v) # qs)" "length us = length ps"
  shows "item_of h (us @ x # vs) k = Some x" "hval h x = v"
    "ps = map (\<lambda>x. (ikey h x, hval h x)) us" "qs = map (\<lambda>x. (ikey h x, hval h x)) vs"
proof -
  obtain fs where ok: "hash_ok hf h c (us @ x # vs) fs"
    and kvs: "ps @ (k, v) # qs = map (\<lambda>x. (ikey h x, hval h x)) (us @ x # vs)"
    using assms(1) by (rule hm_okE)
  then have "ps @ (k, v) # qs = map (\<lambda>x. (ikey h x, hval h x)) us @
      (ikey h x, hval h x) # map (\<lambda>x. (ikey h x, hval h x)) vs" by simp
  moreover have "length ps = length (map (\<lambda>x. (ikey h x, hval h x)) us)" using assms(2) by simp
  ultimately have eq: "ps = map (\<lambda>x. (ikey h x, hval h x)) us \<and>
      (k, v) # qs = (ikey h x, hval h x) # map (\<lambda>x. (ikey h x, hval h x)) vs"
    by (simp add: append_eq_append_conv)
  then show "ps = map (\<lambda>x. (ikey h x, hval h x)) us" by blast
  show "hval h x = v" "qs = map (\<lambda>x. (ikey h x, hval h x)) vs" using eq by simp_all
  have k: "ikey h x = k" using eq by simp
  have "distinct (map (ikey h) (us @ x # vs))" using ok unfolding hash_ok_def by blast
  then show "item_of h (us @ x # vs) k = Some x" by (rule item_of_eq) (simp_all add: k)
qed

lemma hashmap_find_ok:
  assumes ok: "hm_ok hf h c xs kvs"
  shows "hashmap_find hf h c k = Some (case item_of h xs k of None \<Rightarrow> endItem c | Some x \<Rightarrow> x)"
  using ok by (auto simp: hm_ok_def hashmap_find_def hash_find_ok)

lemma hm_item_of:
  assumes ok: "hm_ok hf h c xs kvs"
  shows "item_of h xs k = None \<longleftrightarrow> map_of kvs k = None"
    and "item_of h xs k = Some x \<Longrightarrow> map_of kvs k = Some (hval h x) \<and> x \<in> set xs \<and> x \<noteq> endItem c"
proof -
  obtain fs where h: "hash_ok hf h c xs fs" and kvs: "kvs = map (\<lambda>x. (ikey h x, hval h x)) xs"
    using ok by (rule hm_okE)
  have "fst ` set kvs = ikey h ` set xs" by (auto simp: kvs image_iff)
  then show "item_of h xs k = None \<longleftrightarrow> map_of kvs k = None"
    by (simp add: item_of_None map_of_eq_None_iff)
  assume "item_of h xs k = Some x"
  from item_of_Some[OF this] have x: "x \<in> set xs" "ikey h x = k" by simp_all
  then have "(k, hval h x) \<in> set kvs" by (auto simp: kvs)
  then show "map_of kvs k = Some (hval h x) \<and> x \<in> set xs \<and> x \<noteq> endItem c"
    using map_of_is_SomeI[OF hm_ok_facts(1)[OF ok]] x hm_ok_facts(5)[OF ok] by auto
qed

section \<open>Inserting\<close>

lemma hashmap_insert_new_ok:
  assumes ok: "hm_ok hf h c (us @ vs) (ps @ qs)" and len: "length us = length ps"
    and pos: "pos = hd (vs @ [endItem c])" and new: "map_of (ps @ qs) k = None"
  shows "\<exists>h' c' i. hashmap_insert hf h c pos k v ow = Some (h', c', i) \<and>
           hm_ok hf h' c' (us @ i # vs) (ps @ (k, v) # qs) \<and> i \<notin> set (us @ vs) \<and>
           endItem c' = endItem c \<and> hm_frame hf h c h' c'"
proof -
  let ?kv = "\<lambda>h x. (ikey h x, hval h x)"
  obtain fs where h: "hash_ok hf h c (us @ vs) fs" and kvs: "ps @ qs = map (?kv h) (us @ vs)"
    using ok by (rule hm_okE)
  have pq: "ps = map (?kv h) us" "qs = map (?kv h) vs"
    using kvs len by (simp_all add: append_eq_append_conv)
  have none: "item_of h (us @ vs) k = None" using hm_item_of(1)[OF ok] new by blast
  then have find: "hashmap_find hf h c k = Some (endItem c)" by (simp add: hashmap_find_ok[OF ok])
  obtain h1 c1 where e: "ensure_table h c = (h1, c1)" by fastforce
  note E = ensure_table_ok[OF h e]
  obtain h2 c2 i where a: "alloc_first h1 c1 = (h2, c2, i)" by (metis prod_cases3)
  define h3 where "h3 = h2\<lparr>ikey := (ikey h2)(i := k), hval := (hval h2)(i := v)\<rparr>"
  obtain h5 c3 where l: "link_before (link_cell hf h3 c2 i k) c2 i pos = (h5, c3)" by fastforce
  have t: "taken h1 c1 (us @ vs) fs h2 c2 i"
    by (rule alloc_first_taken[OF hash_ok_inv[OF E(1)] a])
  have abs: "k \<notin> ikey h1 ` set (us @ vs)" using none E(5) by (simp add: item_of_None)
  have pos1: "pos = hd (vs @ [endItem c1])" using pos E(3) by simp
  have h3: "same_links h2 h3" "icell h3 = icell h2" "nextCell h3 = nextCell h2" "slots h3 = slots h2"
    "ikey h3 = (ikey h2)(i := k)" by (simp_all add: h3_def same_links_def)
  obtain fs' where ok5: "hash_ok hf h5 c3 (us @ i # vs) fs'" and e5: "endItem c3 = endItem c1"
    and k5: "ikey h5 = (ikey h1)(i := k)" and i: "i \<notin> set (us @ vs)" and fr: "hash_frame hf h1 c1 h5 c3"
    using hash_insert_st[OF E(1,2) abs pos1 t alloc_first_cells[OF a] h3 l] by blast
  have v1: "hval h1 = hval h" using e by (auto simp: ensure_table_def split: if_splits)
  have v2: "hval h2 = hval h1" using a by (auto simp: alloc_first_def Let_def split: if_splits)
  have "hval (link_cell hf h3 c2 i k) = hval h3"
    by (simp add: link_cell_def Let_def write_cell_def split: cellref.splits)
  then have v5: "hval h5 = (hval h)(i := v)" using l v1 v2 by (auto simp: link_before_eq h3_def)
  have "map (?kv h5) (us @ i # vs) = ps @ (k, v) # qs"
    using i by (simp add: pq k5 v5 E(5))
  then have ok': "hm_ok hf h5 c3 (us @ i # vs) (ps @ (k, v) # qs)" using ok5 by (auto simp: hm_ok_def)
  have "i \<in> pool c3" using hm_ok_facts(7)[OF ok'] by simp
  then have "hm_frame hf h c h5 c3"
    by (intro hm_frameI[OF hash_frame_trans[OF E(4) fr]]) (auto simp: v5)
  moreover have "hashmap_insert hf h c pos k v ow = Some (h5, c3, i)"
    using find by (simp add: hashmap_insert_def e a h3_def[symmetric] l)
  ultimately show ?thesis using ok' i e5 E(3) by metis
qed

lemma hashmap_append_new_ok:
  assumes ok: "hm_ok hf h c xs kvs" and new: "map_of kvs k = None"
  shows "\<exists>h' c' i. hashmap_append hf h c k v ow = Some (h', c', i) \<and>
           hm_ok hf h' c' (xs @ [i]) (kvs @ [(k, v)]) \<and> hm_frame hf h c h' c'"
proof -
  have ok': "hm_ok hf h c (xs @ []) (kvs @ [])" and new': "map_of (kvs @ []) k = None"
    and pos: "endItem c = hd ([] @ [endItem c])" using ok new by simp_all
  show ?thesis
    using hashmap_insert_new_ok[OF ok' hm_ok_facts(3)[OF ok] pos new', of v ow]
    unfolding hashmap_append_def by blast
qed

lemma hashmap_insert_old_ok:
  assumes ok: "hm_ok hf h c (us @ x # vs) (ps @ (k, w) # qs)" and len: "length us = length ps"
  shows "\<exists>h'. hashmap_insert hf h c pos k v ow = Some (h', c, x) \<and>
           hm_ok hf h' c (us @ x # vs) (ps @ (k, if ow then v else w) # qs) \<and> hm_frame hf h c h' c"
proof -
  let ?h = "if ow then h\<lparr>hval := (hval h)(x := v)\<rparr> else h"
  note S = item_of_split[OF ok len]
  have "x \<noteq> endItem c" using hm_ok_facts(5)[OF ok] by auto
  then have run: "hashmap_insert hf h c pos k v ow = Some (?h, c, x)"
    by (simp add: hashmap_insert_def hashmap_find_ok[OF ok] S(1))
  obtain fs where h: "hash_ok hf h c (us @ x # vs) fs"
    and kvs: "ps @ (k, w) # qs = map (\<lambda>x. (ikey h x, hval h x)) (us @ x # vs)"
    using ok by (rule hm_okE)
  have l: "same_links h ?h" and c: "same_cells h ?h" by (simp_all add: same_cells_def same_links_def)
  have di: "distinct (us @ x # vs)" using hm_ok_facts(6)[OF ok] .
  have "hash_ok hf ?h c (us @ x # vs) fs" by (rule hash_ok_cong[OF h l c])
  moreover have "map (\<lambda>x. (ikey ?h x, hval ?h x)) (us @ x # vs) = ps @ (k, if ow then v else w) # qs"
    using di kvs S item_of_Some[OF S(1)] by auto
  ultimately have ok': "hm_ok hf ?h c (us @ x # vs) (ps @ (k, if ow then v else w) # qs)"
    by (auto simp: hm_ok_def)
  have "hash_frame hf h c ?h c"
    unfolding hash_frame_def using hash_ok_cong[OF _ l c] c by (auto simp: same_cells_def)
  moreover have "x \<in> pool c" using hm_ok_facts(7)[OF ok] by simp
  ultimately have "hm_frame hf h c ?h c" by (intro hm_frameI) auto
  with run ok' show ?thesis by blast
qed

section \<open>Removing and clearing\<close>

lemma hashmap_remove_ok:
  assumes ok: "hm_ok hf h c (us @ x # vs) (ps @ (k, v) # qs)" and len: "length us = length ps"
  shows "\<exists>h' c'. hashmap_remove h c x = (h', c', hd (vs @ [endItem c])) \<and>
           hm_ok hf h' c' (us @ vs) (ps @ qs) \<and> endItem c' = endItem c \<and> hm_frame hf h c h' c'"
proof -
  obtain fs where h: "hash_ok hf h c (us @ x # vs) fs" using ok by (rule hm_okE)
  note S = item_of_split[OF ok len]
  obtain h1 c1 where u: "unlink (unlink_cell h x) c x = (h1, c1)" by fastforce
  obtain h2 c2 where r: "release h1 c1 x = (h2, c2)" by fastforce
  note R = hash_remove_st[OF h u r]
  have "hval (unlink_cell h x) = hval h"
    by (simp add: unlink_cell_def Let_def write_cell_def split: cellref.splits)
  then have v: "hval h2 = hval h" using u r by (auto simp: unlink_eq release_def)
  have "hm_ok hf h2 c2 (us @ vs) (ps @ qs)" using R(1) S(3,4) by (auto simp: hm_ok_def R(3) v)
  moreover have "hm_frame hf h c h2 c2" by (rule hm_frameI[OF R(4)]) (simp add: v)
  moreover have "hashmap_remove h c x = (h2, c2, hd (vs @ [endItem c]))"
    by (simp add: hashmap_remove_def u r R(5))
  ultimately show ?thesis using R(2) by blast
qed

lemma hm_split_key:
  assumes ok: "hm_ok hf h c xs kvs" and k: "map_of kvs k = Some v"
  obtains us x vs ps qs where "xs = us @ x # vs" "kvs = ps @ (k, v) # qs" "length us = length ps"
    "map_of ps k = None" "map_of qs k = None"
proof -
  obtain ps qs where kvs: "kvs = ps @ (k, v) # qs" using map_of_SomeD[OF k] by (meson split_list)
  have len: "length xs = length kvs" by (rule hm_ok_facts(3)[OF ok])
  have "xs = take (length ps) xs @ xs ! length ps # drop (Suc (length ps)) xs"
    using len kvs by (simp add: id_take_nth_drop)
  moreover have "length (take (length ps) xs) = length ps" using len kvs by simp
  moreover have "map_of ps k = None" "map_of qs k = None"
    using hm_ok_facts(1)[OF ok] kvs by (auto simp: map_of_eq_None_iff)
  ultimately show ?thesis using that kvs by blast
qed

lemma hashmap_remove_key_ok:
  assumes ok: "hm_ok hf h c xs kvs"
  shows "\<exists>h' c' xs'. hashmap_remove_key hf h c k = Some (h', c') \<and>
           hm_ok hf h' c' xs' (filter (\<lambda>kv. fst kv \<noteq> k) kvs) \<and> endItem c' = endItem c \<and>
           hm_frame hf h c h' c'"
proof (cases "map_of kvs k")
  case None
  then have "item_of h xs k = None" using hm_item_of(1)[OF ok] by blast
  then have "hashmap_remove_key hf h c k = Some (h, c)"
    by (simp add: hashmap_remove_key_def hashmap_find_ok[OF ok])
  moreover have "filter (\<lambda>kv. fst kv \<noteq> k) kvs = kvs"
    using None by (auto simp: filter_id_conv map_of_eq_None_iff)
  ultimately show ?thesis using ok by auto
next
  case (Some v)
  obtain us x vs ps qs where sp: "xs = us @ x # vs" "kvs = ps @ (k, v) # qs" "length us = length ps"
    "map_of ps k = None" "map_of qs k = None"
    using hm_split_key[OF ok Some] by blast
  note ok' = ok[unfolded sp(1,2)]
  obtain h' c' where r: "hashmap_remove h c x = (h', c', hd (vs @ [endItem c]))"
    "hm_ok hf h' c' (us @ vs) (ps @ qs)" "endItem c' = endItem c" "hm_frame hf h c h' c'"
    using hashmap_remove_ok[OF ok' sp(3)] by blast
  have "x \<noteq> endItem c" using hm_ok_facts(5)[OF ok'] by auto
  then have "hashmap_remove_key hf h c k = Some (h', c')"
    by (simp add: hashmap_remove_key_def hashmap_find_ok[OF ok] sp(1) item_of_split(1)[OF ok' sp(3)] r(1))
  moreover have "filter (\<lambda>kv. fst kv \<noteq> k) ps = ps" "filter (\<lambda>kv. fst kv \<noteq> k) qs = qs"
    using sp(4,5) by (auto simp: filter_id_conv map_of_eq_None_iff)
  then have "filter (\<lambda>kv. fst kv \<noteq> k) kvs = ps @ qs" by (simp add: sp(2))
  ultimately show ?thesis using r by auto
qed

lemma hash_clear_loop_hval:
  "hash_clear_loop h f i e = Some r \<Longrightarrow> hval (fst r) = hval h"
  for h :: "('k, 'v) hmap_heap"
proof (induction rule: hash_clear_loop.raw_induct[rotated, consumes 1, case_names step])
  case (step loop h f i e r)
  have w: "hval (write_cell h cl a) = hval h" for cl a
    by (simp add: write_cell_def split: cellref.splits)
  show ?case
  proof (cases "i = e")
    case True
    with step(2) show ?thesis by auto
  next
    case False
    let ?h = "write_cell h (icell h i) null"
    have "loop (?h\<lparr>prevp := (prevp ?h)(i := f)\<rparr>) i (nextp ?h i) e = Some r"
      using step(2) False by (simp add: Let_def)
    from step(1)[OF this] show ?thesis by (simp add: w)
  qed
qed

lemma hashmap_clear_ok:
  assumes ok: "hm_ok hf h c xs kvs"
  shows "\<exists>h' c'. hashmap_clear h c = Some (h', c') \<and> hm_ok hf h' c' [] [] \<and>
           endItem c' = endItem c \<and> hm_frame hf h c h' c'"
proof -
  obtain fs where h: "hash_ok hf h c xs fs" using ok by (rule hm_okE)
  obtain h' c' where r: "hash_clear h c = Some (h', c')" "hash_ok hf h' c' [] (rev xs @ fs)"
    "endItem c' = endItem c" "hash_frame hf h c h' c'"
    using hash_clear_ok[OF h] by blast
  have "hval h' = hval h" using r(1) by (auto simp: hash_clear_def dest!: hash_clear_loop_hval)
  then have "hm_frame hf h c h' c'" by (intro hm_frameI[OF r(4)]) simp
  then show ?thesis using r by (auto simp: hashmap_clear_def hm_ok_def)
qed

section \<open>Copying, comparing, swapping\<close>

lemma hashmap_copy_loop_ok:
  assumes "hm_ok hf h c xs ps" "hm_ok hf h d (ys0 @ ys) (ps @ qs)" "hash_apart c d" "length ys = length qs"
  shows "\<exists>h' c' xs'. hashmap_copy_loop hf h c (hd (ys @ [endItem d])) (endItem d) = Some (h', c') \<and>
           hm_ok hf h' c' xs' (ps @ qs) \<and> hm_ok hf h' d (ys0 @ ys) (ps @ qs) \<and> hash_apart c' d"
  using assms
proof (induction ys arbitrary: h c xs ps ys0 qs)
  case Nil
  then show ?case by (subst hashmap_copy_loop.simps) auto
next
  case (Cons y ys)
  note okc = Cons.prems(1) and okd = Cons.prems(2)
  obtain k v qs' where qs: "qs = (k, v) # qs'" using Cons.prems(4) by (cases qs) auto
  have "length (ys0 @ y # ys) = length (ps @ qs)" by (rule hm_ok_facts(3)[OF okd])
  then have len: "length ys0 = length ps" using Cons.prems(4) by simp
  have "ps @ (k, v) # qs' = map (\<lambda>x. (ikey h x, hval h x)) (ys0 @ y # ys)"
    using okd qs by (auto simp: hm_ok_def)
  then have y: "ikey h y = k" "hval h y = v"
    using item_of_split(2)[OF okd[unfolded qs] len] len
    by (simp_all add: append_eq_append_conv)
  have new: "map_of ps k = None"
    using hm_ok_facts(1)[OF okd] qs by (auto simp: map_of_eq_None_iff)
  obtain h1 c1 i where ins: "hashmap_append hf h c k v True = Some (h1, c1, i)"
    "hm_ok hf h1 c1 (xs @ [i]) (ps @ [(k, v)])" "hm_frame hf h c h1 c1"
    using hashmap_append_new_ok[OF okc new] by blast
  have d1: "hm_ok hf h1 d ((ys0 @ [y]) @ ys) ((ps @ [(k, v)]) @ qs')" "hash_apart c1 d"
    using ins(3) okd Cons.prems(3) qs unfolding hm_frame_def by auto
  obtain h' c' xs' where rec: "hashmap_copy_loop hf h1 c1 (hd (ys @ [endItem d])) (endItem d) = Some (h', c')"
    "hm_ok hf h' c' xs' ((ps @ [(k, v)]) @ qs')" "hm_ok hf h' d ((ys0 @ [y]) @ ys) ((ps @ [(k, v)]) @ qs')"
    "hash_apart c' d"
    using Cons.IH[OF ins(2) d1] Cons.prems(4) qs by auto
  have "y \<noteq> endItem d" using hm_ok_facts(5)[OF okd] by auto
  moreover have "nextp h1 y = hd (ys @ [endItem d])" using hm_ok_next[of hf h1 d ys0 y ys] d1(1) by simp
  ultimately have "hashmap_copy_loop hf h c (hd ((y # ys) @ [endItem d])) (endItem d) = Some (h', c')"
    using rec(1) ins(1) y by (subst hashmap_copy_loop.simps) simp
  then show ?case using rec qs by auto
qed

lemma hashmap_assign_ok:
  assumes c: "hm_ok hf h c xs kvs" and d: "hm_ok hf h d ys ws" and ap: "hash_apart c d"
  shows "\<exists>h' c' xs'. hashmap_assign hf h c d = Some (h', c') \<and> hm_ok hf h' c' xs' ws \<and>
           hm_ok hf h' d ys ws \<and> hash_apart c' d"
proof -
  obtain h1 c1 where w: "hashmap_clear h c = Some (h1, c1)" "hm_ok hf h1 c1 [] []" "hm_frame hf h c h1 c1"
    using hashmap_clear_ok[OF c] by blast
  have d1: "hm_ok hf h1 d ([] @ ys) ([] @ ws)" "hash_apart c1 d"
    using w(3) d ap unfolding hm_frame_def by auto
  have b: "beginp d = hd (ys @ [endItem d])" "length ys = length ws"
    using hm_ok_facts(3,4)[OF d] by auto
  show ?thesis using hashmap_copy_loop_ok[OF w(2) d1 b(2)] by (simp add: hashmap_assign_def w(1) b(1))
qed

lemma hashmap_assign_self_ok:
  assumes ok: "hm_ok hf h c xs kvs"
  shows "\<exists>h' c'. hashmap_assign_self hf h c = Some (h', c') \<and> hm_ok hf h' c' [] []"
proof -
  obtain h1 c1 where w: "hashmap_clear h c = Some (h1, c1)" "hm_ok hf h1 c1 [] []"
    using hashmap_clear_ok[OF ok] by blast
  have "beginp c1 = endItem c1" using hm_ok_facts(4)[OF w(2)] by simp
  then have "hashmap_assign_self hf h c = Some (h1, c1)"
    by (simp add: hashmap_assign_self_def w(1) hashmap_copy_loop.simps)
  then show ?thesis using w(2) by blast
qed

lemma hashmap_init_ok:
  assumes "hashmap_init h = (h', c)" "0 < brk h"
  shows "hm_ok hf h' c [] []" "hm_ok hf h d ys ws \<Longrightarrow> hm_ok hf h' d ys ws \<and> hash_apart c d"
proof -
  note I = init_hcont_ok[OF assms(1)[unfolded hashmap_init_def] assms(2)]
  show "hm_ok hf h' c [] []" using I(1) by (auto simp: hm_ok_def)
  have "hval h' = hval h"
    using assms(1) by (auto simp: hashmap_init_def init_hcont_def init_cont_def)
  then show "hm_ok hf h d ys ws \<Longrightarrow> hm_ok hf h' d ys ws \<and> hash_apart c d"
    using I(2,3) by (fastforce simp: hm_ok_def)
qed

lemma hashmap_copy_ok:
  assumes d: "hm_ok hf h d ys ws"
  shows "\<exists>h' c' xs'. hashmap_copy hf h d = Some (h', c') \<and> hm_ok hf h' c' xs' ws \<and>
           hm_ok hf h' d ys ws \<and> hash_apart c' d"
proof -
  obtain h1 c where i: "hashmap_init h = (h1, c)" by fastforce
  note I = hashmap_init_ok[OF i hm_ok_facts(10)[OF d]]
  have d1: "hm_ok hf h1 d ([] @ ys) ([] @ ws)" "hash_apart c d" using I(2)[OF d] by simp_all
  have b: "beginp d = hd (ys @ [endItem d])" "length ys = length ws"
    using hm_ok_facts(3,4)[OF d] by auto
  show ?thesis using hashmap_copy_loop_ok[OF I(1) d1 b(2)] by (simp add: hashmap_copy_def i b(1))
qed

lemma hashmap_eq_loop_ok:
  assumes "hm_ok hf h c (us @ xs) vs0" "hm_ok hf h d (ws @ ys) vs1" "length xs = length ys"
  shows "hashmap_eq_loop h (hd (xs @ [endItem c])) (hd (ys @ [endItem d])) (endItem c)
           = Some (map (\<lambda>x. (ikey h x, hval h x)) xs = map (\<lambda>x. (ikey h x, hval h x)) ys)"
  using assms
proof (induction xs arbitrary: us ws ys)
  case Nil
  then show ?case by (subst hashmap_eq_loop.simps) simp
next
  case (Cons x xs)
  obtain y ys' where ys: "ys = y # ys'" using Cons.prems(3) by (cases ys) auto
  have "x \<noteq> endItem c" using hm_ok_facts(5)[OF Cons.prems(1)] by auto
  moreover have "nextp h x = hd (xs @ [endItem c])" "nextp h y = hd (ys' @ [endItem d])"
    using hm_ok_next[OF Cons.prems(1)] hm_ok_next[of hf h d ws y ys' vs1] Cons.prems(2) ys by auto
  moreover have "hashmap_eq_loop h (hd (xs @ [endItem c])) (hd (ys' @ [endItem d])) (endItem c)
           = Some (map (\<lambda>x. (ikey h x, hval h x)) xs = map (\<lambda>x. (ikey h x, hval h x)) ys')"
    by (rule Cons.IH[of "us @ [x]" "ws @ [y]"]) (use Cons.prems ys in auto)
  ultimately show ?case by (subst hashmap_eq_loop.simps) (auto simp: ys)
qed

lemma hashmap_eq_ok:
  assumes c: "hm_ok hf h c xs kvs" and d: "hm_ok hf h d ys ws"
  shows "hashmap_eq h c d = Some (kvs = ws)"
proof (cases "length kvs = length ws")
  case True
  have "length xs = length ys" using True hm_ok_facts(3)[OF c] hm_ok_facts(3)[OF d] by simp
  then have "hashmap_eq_loop h (beginp c) (beginp d) (endItem c) = Some (kvs = ws)"
    using hashmap_eq_loop_ok[of hf h c "[]" xs kvs d "[]" ys ws] c d hm_ok_facts(4)[OF c]
      hm_ok_facts(4)[OF d] by (simp add: hm_ok_def)
  then show ?thesis using True hm_ok_facts(2)[OF c] hm_ok_facts(2)[OF d] by (simp add: hashmap_eq_def)
next
  case False
  then show ?thesis using hm_ok_facts(2)[OF c] hm_ok_facts(2)[OF d] by (auto simp: hashmap_eq_def)
qed

lemma hashmap_swap_ok:
  assumes c: "hm_ok hf h c xs kvs" and d: "hm_ok hf h d ys ws" and ap: "hash_apart c d"
    and eq: "hashmap_swap h c d = (h', c', d')"
  shows "hm_ok hf h' c' ys ws" "hm_ok hf h' d' xs kvs"
proof -
  obtain fs gs where "hash_ok hf h c xs fs" "hash_ok hf h d ys gs" using c d by (auto simp: hm_ok_def)
  note S = hash_swap_ok[OF this ap eq[unfolded hashmap_swap_def]]
  have "hval h' = hval h"
    using eq by (auto simp: hashmap_swap_def hash_swap_def swap_links_def adopt_def Let_def
        split: prod.splits if_splits)
  then show "hm_ok hf h' c' ys ws" "hm_ok hf h' d' xs kvs" using S c d by (auto simp: hm_ok_def)
qed

section \<open>Hash maps as finite maps\<close>

definition hm_rel :: "('k \<Rightarrow> nat) \<Rightarrow> ('k, 'v) hmap_heap \<times> hcont \<Rightarrow> ('k \<Rightarrow> 'v option) \<Rightarrow> bool" where
  "hm_rel hf s m \<longleftrightarrow> (\<exists>xs kvs. hm_ok hf (fst s) (snd s) xs kvs \<and> m = map_of kvs)"

definition hm_look :: "('k \<Rightarrow> nat) \<Rightarrow> 'k \<Rightarrow> ('k, 'v) hmap_heap \<times> hcont \<Rightarrow> 'v option option" where
  "hm_look hf k s = map_option (\<lambda>it. if it = endItem (snd s) then None else Some (hval (fst s) it))
     (hashmap_find hf (fst s) (snd s) k)"

definition hm_ins ::
    "('k \<Rightarrow> nat) \<Rightarrow> 'k \<Rightarrow> 'v \<Rightarrow> ('k, 'v) hmap_heap \<times> hcont \<Rightarrow> (('k, 'v) hmap_heap \<times> hcont) option" where
  "hm_ins hf k v s = map_option (\<lambda>(h, c, _). (h, c)) (hashmap_append hf (fst s) (snd s) k v True)"

definition hm_del ::
    "('k \<Rightarrow> nat) \<Rightarrow> 'k \<Rightarrow> ('k, 'v) hmap_heap \<times> hcont \<Rightarrow> (('k, 'v) hmap_heap \<times> hcont) option" where
  "hm_del hf k s = hashmap_remove_key hf (fst s) (snd s) k"

lemma map_of_update_mid:
  "map_of ps k = None \<Longrightarrow> map_of (ps @ (k, v) # qs) = (map_of (ps @ qs))(k \<mapsto> v)"
  "map_of ps k = None \<Longrightarrow> map_of (ps @ (k, v) # qs) = (map_of (ps @ (k, w) # qs))(k \<mapsto> v)"
  by (auto simp: map_add_def fun_eq_iff split: option.splits)

lemma hm_relI: "hm_ok hf h c xs kvs \<Longrightarrow> map_of kvs = m \<Longrightarrow> hm_rel hf (h, c) m"
  by (auto simp: hm_rel_def)

lemma hm_ins_rel:
  assumes "hm_rel hf s m"
  shows "\<exists>s'. hm_ins hf k v s = Some s' \<and> hm_rel hf s' (m(k \<mapsto> v))"
proof -
  obtain h c xs kvs where s: "s = (h, c)" and ok: "hm_ok hf h c xs kvs" and m: "m = map_of kvs"
    using assms by (cases s) (auto simp: hm_rel_def)
  show ?thesis
  proof (cases "map_of kvs k")
    case None
    obtain h' c' i where ins: "hashmap_append hf h c k v True = Some (h', c', i)"
      "hm_ok hf h' c' (xs @ [i]) (kvs @ [(k, v)])"
      using hashmap_append_new_ok[OF ok None] by blast
    have "map_of (kvs @ [(k, v)]) = m(k \<mapsto> v)" unfolding m using map_of_update_mid(1)[OF None, of v "[]"] by (simp only: append_Nil2)
    then have "hm_rel hf (h', c') (m(k \<mapsto> v))" by (rule hm_relI[OF ins(2)])
    moreover have "hm_ins hf k v s = Some (h', c')" by (simp add: s hm_ins_def ins(1))
    ultimately show ?thesis by blast
  next
    case (Some w)
    obtain us x vs ps qs where sp: "xs = us @ x # vs" "kvs = ps @ (k, w) # qs" "length us = length ps"
      "map_of ps k = None" "map_of qs k = None"
      using hm_split_key[OF ok Some] by blast
    obtain h' where ins: "hashmap_insert hf h c (endItem c) k v True = Some (h', c, x)"
      "hm_ok hf h' c (us @ x # vs) (ps @ (k, v) # qs)"
      using hashmap_insert_old_ok[OF ok[unfolded sp(1,2)] sp(3), of "endItem c" v True] by auto
    have "map_of (ps @ (k, v) # qs) = m(k \<mapsto> v)" unfolding m sp(2) by (rule map_of_update_mid(2)[OF sp(4)])
    then have "hm_rel hf (h', c) (m(k \<mapsto> v))" by (rule hm_relI[OF ins(2)])
    moreover have "hm_ins hf k v s = Some (h', c)" by (simp add: s hm_ins_def hashmap_append_def ins(1))
    ultimately show ?thesis by blast
  qed
qed

lemma hm_del_rel:
  assumes "hm_rel hf s m"
  shows "\<exists>s'. hm_del hf k s = Some s' \<and> hm_rel hf s' (m(k := None))"
proof -
  obtain h c xs kvs where s: "s = (h, c)" and ok: "hm_ok hf h c xs kvs" and m: "m = map_of kvs"
    using assms by (cases s) (auto simp: hm_rel_def)
  obtain h' c' xs' where r: "hashmap_remove_key hf h c k = Some (h', c')"
    "hm_ok hf h' c' xs' (filter (\<lambda>kv. fst kv \<noteq> k) kvs)"
    using hashmap_remove_key_ok[OF ok] by blast
  have "map_of (filter (\<lambda>kv. fst kv \<noteq> k) kvs) = m(k := None)"
    unfolding m by (induction kvs) (auto simp: fun_eq_iff)
  then have "hm_rel hf (h', c') (m(k := None))" by (rule hm_relI[OF r(2)])
  moreover have "hm_del hf k s = Some (h', c')" by (simp add: s hm_del_def r(1))
  ultimately show ?thesis by blast
qed

lemma hm_look_rel:
  assumes "hm_rel hf s m"
  shows "hm_look hf k s = Some (m k)"
proof -
  obtain h c xs kvs where s: "s = (h, c)" and ok: "hm_ok hf h c xs kvs" and m: "m = map_of kvs"
    using assms by (cases s) (auto simp: hm_rel_def)
  show ?thesis using hm_item_of[OF ok, of k] hashmap_find_ok[OF ok, of k]
    by (cases "item_of h xs k") (auto simp: s m hm_look_def)
qed

interpretation hmap: finite_map "hm_rel hf" "hm_look hf" "hm_ins hf" "hm_del hf" for hf
  by unfold_locales (fact hm_look_rel hm_ins_rel hm_del_rel)+

section \<open>Maps to evaluate on\<close>

definition hmap_heap0 :: "'k \<Rightarrow> 'v \<Rightarrow> ('k, 'v) hmap_heap" where
  "hmap_heap0 k v = \<lparr>brk = 1, prevp = \<lambda>_. null, nextp = \<lambda>_. null, ikey = \<lambda>_. k, icell = \<lambda>_. Slot null 0,
     nextCell = \<lambda>_. null, slots = \<lambda>_ _. null, hval = \<lambda>_. v\<rparr>"

definition hashmap0 :: "'k \<Rightarrow> 'v \<Rightarrow> ('k, 'v) hmap_heap \<times> hcont" where
  "hashmap0 k v = hashmap_init (hmap_heap0 k v)"

lemma hashmap0_ok: "hm_ok hf (fst (hashmap0 k v)) (snd (hashmap0 k v)) [] []"
  using hashmap_init_ok(1)[of "hmap_heap0 k v" _ _ hf]
  by (cases "hashmap0 k v") (simp add: hashmap0_def hmap_heap0_def)

lemma hm_fill:
  assumes "hm_ok hf h c xs kvs" "distinct (map fst (kvs @ ws))"
  shows "\<exists>h' c' xs'. hm_ok hf h' c' xs' (kvs @ ws) \<and> hm_frame hf h c h' c'"
  using assms
proof (induction ws arbitrary: h c xs kvs)
  case Nil
  then show ?case by (auto intro: hm_frame_refl)
next
  case (Cons w ws)
  obtain k v where w: "w = (k, v)" by force
  have new: "map_of kvs k = None" using Cons.prems(2) w by (auto simp: map_of_eq_None_iff)
  obtain h1 c1 i where a: "hm_ok hf h1 c1 (xs @ [i]) (kvs @ [(k, v)])" "hm_frame hf h c h1 c1"
    using hashmap_append_new_ok[OF Cons.prems(1) new] by blast
  show ?case using Cons.IH[OF a(1)] Cons.prems(2) w hm_frame_trans[OF a(2)] by fastforce
qed

lemma two_hashmaps:
  assumes "distinct (map fst kvs)" "distinct (map fst ws)"
  shows "\<exists>h c d xs ys. hm_ok hf h c xs kvs \<and> hm_ok hf h d ys ws \<and> hash_apart c d"
proof -
  obtain h0 d ys where d: "hm_ok hf h0 d ys ([] @ ws)"
    using hm_fill[OF hashmap0_ok[of hf undefined undefined], of ws] assms(2) by auto
  obtain h1 c1 xs1 where c1: "hm_ok hf h1 c1 xs1 ws" "hm_ok hf h1 d ys ws" "hash_apart c1 d"
    using hashmap_copy_ok[OF d] by auto
  obtain h2 c2 where c2: "hm_ok hf h2 c2 [] []" "hm_frame hf h1 c1 h2 c2"
    using hashmap_clear_ok[OF c1(1)] by blast
  obtain h c xs where c: "hm_ok hf h c xs ([] @ kvs)" "hm_frame hf h2 c2 h c"
    using hm_fill[OF c2(1), of kvs] assms(1) by auto
  have "hm_ok hf h d ys ws" "hash_apart c d"
    using hm_frame_trans[OF c2(2) c(2)] c1(2,3) unfolding hm_frame_def by blast+
  then show ?thesis using c(1) by auto
qed

section \<open>Properties\<close>

text \<open>C4. Whatever the hash function and however the keys collide: after any history of
  \<^verbatim>\<open>append\<close>s and removals on a new \<^verbatim>\<open>HashMap\<close>, every operation has returned and \<^verbatim>\<open>find\<close> answers for
  every key exactly what the same history gives on a mathematical map.\<close>

theorem hashmap_history_correct:
  "Option.bind (foldo (case_map_op (hm_ins hf) (hm_del hf)) ops (hashmap0 k0 v0)) (hm_look hf k)
     = Some (fold apply_op ops Map.empty k)"
proof (rule hmap.look_after_run)
  show "hm_rel hf (hashmap0 k0 v0) Map.empty"
    using hashmap0_ok[of hf k0 v0] by (auto simp: hm_rel_def)
qed

text \<open>\<^verbatim>\<open>HashMap::insert\<close> at a position: an absent key gets a new item exactly there and the
  other pairs keep their order; for a present key nothing moves, its item is returned, and its
  value is replaced if and only if \<^verbatim>\<open>overwrite\<close> is set.\<close>

theorem hashmap_insert_correct:
  assumes "hm_ok hf h c (us @ vs) (ps @ qs)" "length us = length ps"
  shows "(map_of (ps @ qs) k = None \<longrightarrow>
           (\<exists>h' c' i. hashmap_insert hf h c (hd (vs @ [endItem c])) k v ow = Some (h', c', i) \<and>
              hm_ok hf h' c' (us @ i # vs) (ps @ (k, v) # qs))) \<and>
         (\<forall>x zs w rs. vs = x # zs \<longrightarrow> qs = (k, w) # rs \<longrightarrow>
           (\<exists>h'. hashmap_insert hf h c pos k v ow = Some (h', c, x) \<and>
              hm_ok hf h' c (us @ vs) (ps @ (k, if ow then v else w) # rs)))"
proof (intro conjI impI allI)
  assume "map_of (ps @ qs) k = None"
  from hashmap_insert_new_ok[OF assms refl this, of v ow]
  show "\<exists>h' c' i. hashmap_insert hf h c (hd (vs @ [endItem c])) k v ow = Some (h', c', i) \<and>
      hm_ok hf h' c' (us @ i # vs) (ps @ (k, v) # qs)" by blast
next
  fix x zs w rs assume "vs = x # zs" "qs = (k, w) # rs"
  then show "\<exists>h'. hashmap_insert hf h c pos k v ow = Some (h', c, x) \<and>
      hm_ok hf h' c (us @ vs) (ps @ (k, if ow then v else w) # rs)"
    using hashmap_insert_old_ok[of hf h c us x zs ps k w rs pos v ow] assms by auto
qed

theorem hashmap_insert_correct_witness:
  "\<exists>h c x y h' c' i. hm_ok (\<lambda>_. 3) h c ([x] @ [y]) [(1, ''a''), (2, ''b'')] \<and>
     hashmap_insert (\<lambda>_. 3) h c y (7 :: nat) ''z'' False = Some (h', c', i) \<and>
     hm_ok (\<lambda>_. 3) h' c' ([x] @ i # [y]) [(1, ''a''), (7, ''z''), (2, ''b'')]"
proof -
  obtain h c xs where ok: "hm_ok (\<lambda>_. 3) h c xs [(1 :: nat, ''a''), (2, ''b'')]"
    using two_hashmaps[of "[(1 :: nat, ''a''), (2, ''b'')]" "[]" "\<lambda>_. 3"] by auto
  obtain x y where "xs = [x] @ [y]"
    using hm_ok_facts(3)[OF ok] by (auto simp: length_Suc_conv)
  with ok have ok': "hm_ok (\<lambda>_. 3) h c ([x] @ [y]) ([(1, ''a'')] @ [(2 :: nat, ''b'')])" by simp
  have len: "length [x] = length [(1 :: nat, ''a'')]" by simp
  show ?thesis using hashmap_insert_correct[OF ok' len, of 7 "''z''" False] ok' by simp blast
qed

text \<open>Copying and assigning a \<^verbatim>\<open>HashMap\<close> reproduce the pairs of the other map in its iteration
  order, so that the two compare equal, and leave the other map alone; \<^verbatim>\<open>swap\<close> exchanges the two
  contents item by item; assigning a map to itself empties it.\<close>

theorem hashmap_assign_correct:
  assumes "hm_ok hf h c xs kvs" "hm_ok hf h d ys ws" "hash_apart c d"
  shows "(\<exists>h' c' xs'. hashmap_assign hf h c d = Some (h', c') \<and> hm_ok hf h' c' xs' ws \<and>
            hm_ok hf h' d ys ws \<and> hashmap_eq h' c' d = Some True) \<and>
         (\<exists>h' c' xs'. hashmap_copy hf h d = Some (h', c') \<and> hm_ok hf h' c' xs' ws \<and>
            hm_ok hf h' d ys ws) \<and>
         (case hashmap_swap h c d of (h', c', d') \<Rightarrow> hm_ok hf h' c' ys ws \<and> hm_ok hf h' d' xs kvs) \<and>
         (\<exists>h' c'. hashmap_assign_self hf h c = Some (h', c') \<and> hm_ok hf h' c' [] [])"
proof (intro conjI)
  obtain h' c' xs' where a: "hashmap_assign hf h c d = Some (h', c')" "hm_ok hf h' c' xs' ws"
    "hm_ok hf h' d ys ws" using hashmap_assign_ok[OF assms] by blast
  then show "\<exists>h' c' xs'. hashmap_assign hf h c d = Some (h', c') \<and> hm_ok hf h' c' xs' ws \<and>
            hm_ok hf h' d ys ws \<and> hashmap_eq h' c' d = Some True"
    using hashmap_eq_ok[OF a(2,3)] by auto
  show "\<exists>h' c' xs'. hashmap_copy hf h d = Some (h', c') \<and> hm_ok hf h' c' xs' ws \<and> hm_ok hf h' d ys ws"
    using hashmap_copy_ok[OF assms(2)] by blast
  show "case hashmap_swap h c d of (h', c', d') \<Rightarrow> hm_ok hf h' c' ys ws \<and> hm_ok hf h' d' xs kvs"
    using hashmap_swap_ok[OF assms] by (auto split: prod.splits)
  show "\<exists>h' c'. hashmap_assign_self hf h c = Some (h', c') \<and> hm_ok hf h' c' [] []"
    by (rule hashmap_assign_self_ok[OF assms(1)])
qed

theorem hashmap_assign_correct_witness:
  "\<exists>h c d xs ys h' c' xs'. hm_ok id h c xs [(1, ''a'')] \<and> hm_ok id h d ys [(5, ''x''), (505, ''y'')] \<and>
     hashmap_assign id h c d = Some (h', c') \<and> hm_ok id h' c' xs' [(5, ''x''), (505, ''y'')]"
proof -
  obtain h c d xs ys where ok: "hm_ok id h c xs [(1, ''a'')]" "hm_ok id h d ys [(5, ''x''), (505, ''y'')]"
    "hash_apart c d"
    using two_hashmaps[of "[(1, ''a'')]" "[(5, ''x''), (505, ''y'')]" id] by auto
  obtain h' c' xs' where "hashmap_assign id h c d = Some (h', c')"
      "hm_ok id h' c' xs' [(5, ''x''), (505, ''y'')]"
    using hashmap_assign_correct[OF ok] by blast
  with ok show ?thesis by blast
qed

end
