(* ===== verification/Nstd_HashSet.thy ===== *)
theory Nstd_HashSet
  imports Nstd_HashTable
begin

text \<open>
  \<^verbatim>\<open>HashSet<T>\<close> (include/nstd/HashSet.hpp): the hash table without values. The abstract value of a
  set is the list of its keys from first to last; two operations take another set, and the
  removal of one is also modelled for the set itself, whose items go while it is walked.
\<close>

section \<open>Operations\<close>

definition hashset_init :: "'k hash_heap \<Rightarrow> 'k hash_heap \<times> hcont" where
  "hashset_init h = init_hcont h 500"

definition hashset_find :: "('k \<Rightarrow> nat) \<Rightarrow> 'k hash_heap \<Rightarrow> hcont \<Rightarrow> 'k \<Rightarrow> addr option" where
  "hashset_find hf h c k = hash_find hf h c k"

definition hashset_contains :: "('k \<Rightarrow> nat) \<Rightarrow> 'k hash_heap \<Rightarrow> hcont \<Rightarrow> 'k \<Rightarrow> bool option" where
  "hashset_contains hf h c k = map_option (\<lambda>it. it \<noteq> endItem c) (hashset_find hf h c k)"

definition hashset_insert ::
    "('k \<Rightarrow> nat) \<Rightarrow> 'k hash_heap \<Rightarrow> hcont \<Rightarrow> addr \<Rightarrow> 'k \<Rightarrow> ('k hash_heap \<times> hcont \<times> addr) option" where
  "hashset_insert hf h c position k =
     Option.bind (hashset_find hf h c k) (\<lambda>it.
       if it \<noteq> endItem c then Some (h, c, it)
       else (let (h1, c1) = ensure_table h c;
                 (h2, c2, item) = alloc_first h1 c1;
                 h3 = h2\<lparr>ikey := (ikey h2)(item := k)\<rparr>;
                 h4 = link_cell hf h3 c2 item k;
                 (h5, c3) = link_before h4 c2 item position
             in Some (h5, c3, item)))"

definition hashset_prepend ::
    "('k \<Rightarrow> nat) \<Rightarrow> 'k hash_heap \<Rightarrow> hcont \<Rightarrow> 'k \<Rightarrow> ('k hash_heap \<times> hcont) option" where
  "hashset_prepend hf h c k = map_option (\<lambda>(h', c', _). (h', c')) (hashset_insert hf h c (beginp c) k)"

definition hashset_append ::
    "('k \<Rightarrow> nat) \<Rightarrow> 'k hash_heap \<Rightarrow> hcont \<Rightarrow> 'k \<Rightarrow> ('k hash_heap \<times> hcont) option" where
  "hashset_append hf h c k = map_option (\<lambda>(h', c', _). (h', c')) (hashset_insert hf h c (endItem c) k)"

definition hashset_remove :: "'k hash_heap \<Rightarrow> hcont \<Rightarrow> addr \<Rightarrow> 'k hash_heap \<times> hcont \<times> addr" where
  "hashset_remove h c item =
     (let h1 = unlink_cell h item;
          (h2, c2) = unlink h1 c item;
          (h3, c3) = release h2 c2 item
      in (h3, c3, nextp h3 item))"

definition hashset_remove_key ::
    "('k \<Rightarrow> nat) \<Rightarrow> 'k hash_heap \<Rightarrow> hcont \<Rightarrow> 'k \<Rightarrow> ('k hash_heap \<times> hcont) option" where
  "hashset_remove_key hf h c k =
     Option.bind (hashset_find hf h c k) (\<lambda>it.
       if it \<noteq> endItem c then (let (h', c', _) = hashset_remove h c it in Some (h', c'))
       else Some (h, c))"

definition hashset_removeFront :: "'k hash_heap \<Rightarrow> hcont \<Rightarrow> 'k hash_heap \<times> hcont \<times> addr" where
  "hashset_removeFront h c = hashset_remove h c (beginp c)"

definition hashset_removeBack :: "'k hash_heap \<Rightarrow> hcont \<Rightarrow> 'k hash_heap \<times> hcont \<times> addr" where
  "hashset_removeBack h c = hashset_remove h c (prevp h (endItem c))"

definition hashset_front :: "'k hash_heap \<Rightarrow> hcont \<Rightarrow> 'k" where
  "hashset_front h c = ikey h (beginp c)"

definition hashset_back :: "'k hash_heap \<Rightarrow> hcont \<Rightarrow> 'k" where
  "hashset_back h c = ikey h (prevp h (endItem c))"

definition hashset_isEmpty :: "'k hash_heap \<Rightarrow> hcont \<Rightarrow> bool" where
  "hashset_isEmpty h c \<longleftrightarrow> prevp h (endItem c) = null"

definition hashset_clear :: "'k hash_heap \<Rightarrow> hcont \<Rightarrow> ('k hash_heap \<times> hcont) option" where
  "hashset_clear h c = hash_clear h c"

definition hashset_swap :: "'k hash_heap \<Rightarrow> hcont \<Rightarrow> hcont \<Rightarrow> 'k hash_heap \<times> hcont \<times> hcont" where
  "hashset_swap h c d = hash_swap h c d"

text \<open>The loop of \<^verbatim>\<open>append(const HashSet&)\<close>, of the copy constructor and of \<^verbatim>\<open>operator=\<close>\<close>

partial_function (option) hashset_append_loop ::
    "('k \<Rightarrow> nat) \<Rightarrow> 'k hash_heap \<Rightarrow> hcont \<Rightarrow> addr \<Rightarrow> addr \<Rightarrow> ('k hash_heap \<times> hcont) option" where
  "hashset_append_loop hf h c i e =
     (if i = e then Some (h, c)
      else Option.bind (hashset_append hf h c (ikey h i)) (\<lambda>(h1, c1).
             hashset_append_loop hf h1 c1 (nextp h1 i) e))"

definition hashset_append_set ::
    "('k \<Rightarrow> nat) \<Rightarrow> 'k hash_heap \<Rightarrow> hcont \<Rightarrow> hcont \<Rightarrow> ('k hash_heap \<times> hcont) option" where
  "hashset_append_set hf h c other = hashset_append_loop hf h c (beginp other) (endItem other)"

definition hashset_copy :: "('k \<Rightarrow> nat) \<Rightarrow> 'k hash_heap \<Rightarrow> hcont \<Rightarrow> ('k hash_heap \<times> hcont) option" where
  "hashset_copy hf h other =
     (let (h1, c) = hashset_init h
      in hashset_append_loop hf h1 c (beginp other) (endItem other))"

definition hashset_assign ::
    "('k \<Rightarrow> nat) \<Rightarrow> 'k hash_heap \<Rightarrow> hcont \<Rightarrow> hcont \<Rightarrow> ('k hash_heap \<times> hcont) option" where
  "hashset_assign hf h c other =
     Option.bind (hashset_clear h c) (\<lambda>(h1, c1).
       hashset_append_loop hf h1 c1 (beginp other) (endItem other))"

text \<open>\<^verbatim>\<open>remove(const HashSet&)\<close>; with \<open>other = c\<close> it is the call on the set itself, whose
  \<^verbatim>\<open>begin\<close> and \<^verbatim>\<open>endItem\<close> are read before the loop.\<close>

partial_function (option) hashset_remove_loop ::
    "('k \<Rightarrow> nat) \<Rightarrow> 'k hash_heap \<Rightarrow> hcont \<Rightarrow> addr \<Rightarrow> addr \<Rightarrow> ('k hash_heap \<times> hcont) option" where
  "hashset_remove_loop hf h c i e =
     (if i = e then Some (h, c)
      else Option.bind (hashset_remove_key hf h c (ikey h i)) (\<lambda>(h1, c1).
             hashset_remove_loop hf h1 c1 (nextp h1 i) e))"

definition hashset_remove_set ::
    "('k \<Rightarrow> nat) \<Rightarrow> 'k hash_heap \<Rightarrow> hcont \<Rightarrow> hcont \<Rightarrow> ('k hash_heap \<times> hcont) option" where
  "hashset_remove_set hf h c other = hashset_remove_loop hf h c (beginp other) (endItem other)"

partial_function (option) hashset_eq_loop :: "'k hash_heap \<Rightarrow> addr \<Rightarrow> addr \<Rightarrow> addr \<Rightarrow> bool option" where
  "hashset_eq_loop h a b e =
     (if a = e then Some True
      else if ikey h a \<noteq> ikey h b then Some False
      else hashset_eq_loop h (nextp h a) (nextp h b) e)"

definition hashset_eq :: "'k hash_heap \<Rightarrow> hcont \<Rightarrow> hcont \<Rightarrow> bool option" where
  "hashset_eq h c other =
     (if csize c \<noteq> csize other then Some False
      else hashset_eq_loop h (beginp c) (beginp other) (endItem c))"

section \<open>What a set holds\<close>

definition hs_ok :: "('k \<Rightarrow> nat) \<Rightarrow> 'k hash_heap \<Rightarrow> hcont \<Rightarrow> addr list \<Rightarrow> 'k list \<Rightarrow> bool" where
  "hs_ok hf h c xs ks \<longleftrightarrow> (\<exists>fs. hash_ok hf h c xs fs) \<and> ks = map (ikey h) xs"

definition hs_frame :: "('k \<Rightarrow> nat) \<Rightarrow> 'k hash_heap \<Rightarrow> hcont \<Rightarrow> 'k hash_heap \<Rightarrow> hcont \<Rightarrow> bool" where
  "hs_frame hf h c h' c' \<longleftrightarrow>
     (\<forall>d ys ws. hs_ok hf h d ys ws \<longrightarrow> hash_apart c d \<longrightarrow> hs_ok hf h' d ys ws \<and> hash_apart c' d)"

lemma hs_frame_refl [simp]: "hs_frame hf h c h c"
  by (simp add: hs_frame_def)

lemma hs_frame_trans: "hs_frame hf h c h1 c1 \<Longrightarrow> hs_frame hf h1 c1 h2 c2 \<Longrightarrow> hs_frame hf h c h2 c2"
  unfolding hs_frame_def by blast

lemma hs_frameI: "hash_frame hf h c h' c' \<Longrightarrow> hs_frame hf h c h' c'"
  unfolding hash_frame_def hs_frame_def hs_ok_def by (metis (no_types, lifting) map_eq_conv)

lemma hs_okE:
  assumes "hs_ok hf h c xs ks"
  obtains fs where "hash_ok hf h c xs fs" "ks = map (ikey h) xs"
  using assms by (auto simp: hs_ok_def)

lemma hs_ok_facts:
  assumes "hs_ok hf h c xs ks"
  shows "distinct ks" "csize c = length ks" "length xs = length ks"
    "beginp c = hd (xs @ [endItem c])" "endItem c \<notin> set xs" "distinct xs" "0 < brk h"
proof -
  obtain fs where ok: "hash_ok hf h c xs fs" and ks: "ks = map (ikey h) xs"
    using assms by (rule hs_okE)
  have inv: "cont_inv h c xs fs" using ok by (rule hash_ok_inv)
  show "distinct ks" using ok ks by (simp add: hash_ok_def)
  show "csize c = length ks" "length xs = length ks" "beginp c = hd (xs @ [endItem c])"
    "endItem c \<notin> set xs" "distinct xs"
    using inv ks by (auto simp: cont_st_def)
  show "0 < brk h" using cont_st_valid(2)[OF inv, of "endItem c"] by auto
qed

lemma hs_ok_next:
  assumes "hs_ok hf h c (us @ x # vs) ks"
  shows "nextp h x = hd (vs @ [endItem c])"
proof -
  obtain fs where "hash_ok hf h c (us @ x # vs) fs" using assms by (rule hs_okE)
  from hash_ok_inv[OF this] show ?thesis by (auto simp: cont_st_def dest: dseg_mid_next)
qed

section \<open>The operations\<close>

lemma hashset_find_ok:
  assumes ok: "hs_ok hf h c xs ks"
  shows "k \<notin> set ks \<Longrightarrow> hashset_find hf h c k = Some (endItem c)"
    and "xs = us @ x # vs \<Longrightarrow> hashset_find hf h c (ikey h x) = Some x"
    and "hashset_contains hf h c k = Some (k \<in> set ks)"
proof -
  obtain fs where h: "hash_ok hf h c xs fs" and ks: "ks = map (ikey h) xs"
    using ok by (rule hs_okE)
  note F = hash_find_ok[OF h]
  have none: "hashset_find hf h c k = Some (endItem c)" if "k \<notin> set ks" for k
  proof -
    have "item_of h xs k = None" using that by (simp add: item_of_None ks)
    then show ?thesis by (simp add: hashset_find_def F)
  qed
  show "k \<notin> set ks \<Longrightarrow> hashset_find hf h c k = Some (endItem c)" by (rule none)
  have some: "hashset_find hf h c (ikey h x) = Some x" if "x \<in> set xs" for x
  proof -
    have "distinct (map (ikey h) xs)" using h unfolding hash_ok_def by blast
    then have "item_of h xs (ikey h x) = Some x" by (rule item_of_eq) (use that in simp_all)
    then show ?thesis by (simp add: hashset_find_def F)
  qed
  then show "xs = us @ x # vs \<Longrightarrow> hashset_find hf h c (ikey h x) = Some x" by simp
  show "hashset_contains hf h c k = Some (k \<in> set ks)"
  proof (cases "k \<in> set ks")
    case True
    then obtain x where "x \<in> set xs" "k = ikey h x" using ks by auto
    then show ?thesis using some hs_ok_facts(5)[OF ok] True by (auto simp: hashset_contains_def)
  next
    case False
    then show ?thesis by (simp add: hashset_contains_def none)
  qed
qed

lemma hashset_insert_new_ok:
  assumes ok: "hs_ok hf h c (us @ vs) (ps @ qs)" and len: "length us = length ps"
    and pos: "pos = hd (vs @ [endItem c])" and new: "k \<notin> set (ps @ qs)"
  shows "\<exists>h' c' i. hashset_insert hf h c pos k = Some (h', c', i) \<and>
           hs_ok hf h' c' (us @ i # vs) (ps @ k # qs) \<and> hs_frame hf h c h' c'"
proof -
  obtain fs where h: "hash_ok hf h c (us @ vs) fs" and ks: "ps @ qs = map (ikey h) (us @ vs)"
    using ok by (rule hs_okE)
  have pq: "ps = map (ikey h) us" "qs = map (ikey h) vs"
    using ks len by (simp_all add: append_eq_append_conv)
  have find: "hashset_find hf h c k = Some (endItem c)" by (rule hashset_find_ok(1)[OF ok new])
  obtain h1 c1 where e: "ensure_table h c = (h1, c1)" by fastforce
  note E = ensure_table_ok[OF h e]
  obtain h2 c2 i where a: "alloc_first h1 c1 = (h2, c2, i)" by (metis prod_cases3)
  define h3 where "h3 = h2\<lparr>ikey := (ikey h2)(i := k)\<rparr>"
  obtain h5 c3 where l: "link_before (link_cell hf h3 c2 i k) c2 i pos = (h5, c3)" by fastforce
  have t: "taken h1 c1 (us @ vs) fs h2 c2 i"
    by (rule alloc_first_taken[OF hash_ok_inv[OF E(1)] a])
  have abs: "k \<notin> ikey h1 ` set (us @ vs)" using new ks E(5) by (simp add: image_Un pq)
  have pos1: "pos = hd (vs @ [endItem c1])" using pos E(3) by simp
  have h3: "same_links h2 h3" "icell h3 = icell h2" "nextCell h3 = nextCell h2" "slots h3 = slots h2"
    "ikey h3 = (ikey h2)(i := k)" by (simp_all add: h3_def same_links_def)
  obtain fs' where ok5: "hash_ok hf h5 c3 (us @ i # vs) fs'"
    and k5: "ikey h5 = (ikey h1)(i := k)" and i: "i \<notin> set (us @ vs)" and fr: "hash_frame hf h1 c1 h5 c3"
    using hash_insert_st[OF E(1,2) abs pos1 t alloc_first_cells[OF a] h3 l] by blast
  have "map (ikey h5) (us @ i # vs) = ps @ k # qs"
    using i by (simp add: pq k5 E(5))
  then have "hs_ok hf h5 c3 (us @ i # vs) (ps @ k # qs)" using ok5 by (auto simp: hs_ok_def)
  moreover have "hs_frame hf h c h5 c3"
    by (rule hs_frameI[OF hash_frame_trans[OF E(4) fr]])
  moreover have "hashset_insert hf h c pos k = Some (h5, c3, i)"
    using find by (simp add: hashset_insert_def e a h3_def[symmetric] l)
  ultimately show ?thesis by blast
qed

lemma hashset_append_ok:
  assumes ok: "hs_ok hf h c xs ks"
  shows "\<exists>h' c' xs'. hashset_append hf h c k = Some (h', c') \<and>
           hs_ok hf h' c' xs' (if k \<in> set ks then ks else ks @ [k]) \<and> hs_frame hf h c h' c'"
proof (cases "k \<in> set ks")
  case True
  then obtain us x vs where x: "xs = us @ x # vs" "k = ikey h x"
    using ok by (auto simp: hs_ok_def dest: split_list)
  then have "hashset_find hf h c k = Some x" "x \<noteq> endItem c"
    using hashset_find_ok(2)[OF ok x(1)] hs_ok_facts(5)[OF ok] by auto
  then have "hashset_append hf h c k = Some (h, c)"
    by (simp add: hashset_append_def hashset_insert_def)
  then show ?thesis using ok True by auto
next
  case False
  have ok': "hs_ok hf h c (xs @ []) (ks @ [])" and new: "k \<notin> set (ks @ [])"
    and pos: "endItem c = hd ([] @ [endItem c])" using ok False by simp_all
  obtain h' c' i where "hashset_insert hf h c (endItem c) k = Some (h', c', i)"
    "hs_ok hf h' c' (xs @ [i]) (ks @ [k])" "hs_frame hf h c h' c'"
    using hashset_insert_new_ok[OF ok' hs_ok_facts(3)[OF ok] pos new] by blast
  then show ?thesis using False by (auto simp: hashset_append_def)
qed

lemma hashset_remove_ok:
  assumes ok: "hs_ok hf h c (us @ x # vs) ks"
  shows "\<exists>h' c'. hashset_remove h c x = (h', c', hd (vs @ [endItem c])) \<and>
           hs_ok hf h' c' (us @ vs) (map (ikey h) (us @ vs)) \<and> endItem c' = endItem c \<and>
           ikey h' = ikey h \<and> nextp h' x = hd (vs @ [endItem c]) \<and> hs_frame hf h c h' c'"
proof -
  obtain fs where h: "hash_ok hf h c (us @ x # vs) fs" using ok by (rule hs_okE)
  obtain h1 c1 where u: "unlink (unlink_cell h x) c x = (h1, c1)" by fastforce
  obtain h2 c2 where r: "release h1 c1 x = (h2, c2)" by fastforce
  note R = hash_remove_st[OF h u r]
  have "hs_ok hf h2 c2 (us @ vs) (map (ikey h) (us @ vs))" using R(1,3) by (auto simp: hs_ok_def)
  moreover have "hs_frame hf h c h2 c2" by (rule hs_frameI[OF R(4)])
  moreover have "hashset_remove h c x = (h2, c2, hd (vs @ [endItem c]))"
    by (simp add: hashset_remove_def u r R(5))
  ultimately show ?thesis using R(2,3,5) by blast
qed

text \<open>Both ends: what is there, and taking it out.\<close>

lemma hashset_last:
  assumes "hs_ok hf h c xs ks"
  shows "prevp h (endItem c) = last (null # xs)" "hashset_isEmpty h c \<longleftrightarrow> ks = []"
proof -
  obtain fs where "hash_ok hf h c xs fs" and ks: "ks = map (ikey h) xs"
    using assms by (rule hs_okE)
  then have inv: "cont_inv h c xs fs" by (simp add: hash_ok_inv)
  show P: "prevp h (endItem c) = last (null # xs)" using inv by (auto simp: cont_st_def dest: dseg_last_prev)
  have "null \<notin> set xs" using cont_st_valid[OF inv] by auto
  then show "hashset_isEmpty h c \<longleftrightarrow> ks = []"
    using P ks by (cases xs rule: rev_cases) (auto simp: hashset_isEmpty_def)
qed

lemma hashset_ends_ok:
  assumes ok: "hs_ok hf h c xs ks" and ne: "ks \<noteq> []"
  shows "hashset_front h c = hd ks" "hashset_back h c = last ks"
    "\<exists>h' c' i. hashset_removeFront h c = (h', c', i) \<and> hs_ok hf h' c' (tl xs) (tl ks) \<and> hs_frame hf h c h' c'"
    "\<exists>h' c'. hashset_removeBack h c = (h', c', endItem c) \<and> hs_ok hf h' c' (butlast xs) (butlast ks) \<and> hs_frame hf h c h' c'"
proof -
  have ks: "ks = map (ikey h) xs" and xs: "xs \<noteq> []" using ok ne by (auto simp: hs_ok_def)
  show "hashset_front h c = hd ks" using hs_ok_facts(4)[OF ok] xs by (simp add: hashset_front_def ks hd_map)
  show "hashset_back h c = last ks" using hashset_last(1)[OF ok] xs by (simp add: hashset_back_def ks last_map)
  obtain x vs where x: "xs = x # vs" using xs by (cases xs) auto
  then have f: "hs_ok hf h c ([] @ x # vs) ks" "beginp c = x" using ok hs_ok_facts(4)[OF ok] by simp_all
  obtain h1 c1 where "hashset_remove h c x = (h1, c1, hd (vs @ [endItem c]))"
    "hs_ok hf h1 c1 ([] @ vs) (map (ikey h) ([] @ vs))" "hs_frame hf h c h1 c1"
    using hashset_remove_ok[OF f(1)] by blast
  then show "\<exists>h' c' i. hashset_removeFront h c = (h', c', i) \<and> hs_ok hf h' c' (tl xs) (tl ks) \<and> hs_frame hf h c h' c'"
    using x f(2) by (simp add: hashset_removeFront_def ks)
  obtain us y where y: "xs = us @ [y]" using xs by (cases xs rule: rev_cases) auto
  then have b: "hs_ok hf h c (us @ y # []) ks" "prevp h (endItem c) = y" using ok hashset_last(1)[OF ok] by simp_all
  obtain h2 c2 where "hashset_remove h c y = (h2, c2, hd ([] @ [endItem c]))"
    "hs_ok hf h2 c2 (us @ []) (map (ikey h) (us @ []))" "hs_frame hf h c h2 c2"
    using hashset_remove_ok[OF b(1)] by blast
  then show "\<exists>h' c'. hashset_removeBack h c = (h', c', endItem c) \<and> hs_ok hf h' c' (butlast xs) (butlast ks) \<and> hs_frame hf h c h' c'"
    using y b(2) by (simp add: hashset_removeBack_def ks)
qed

lemma hashset_remove_key_ok:
  assumes ok: "hs_ok hf h c xs ks"
  shows "\<exists>h' c' xs'. hashset_remove_key hf h c k = Some (h', c') \<and>
           hs_ok hf h' c' xs' (remove1 k ks) \<and> hs_frame hf h c h' c'"
proof (cases "k \<in> set ks")
  case True
  then obtain x where "x \<in> set xs" "k = ikey h x" using ok by (auto simp: hs_ok_def)
  then obtain us vs where x: "xs = us @ x # vs" "k = ikey h x" by (meson split_list)
  have f: "hashset_find hf h c k = Some x" "x \<noteq> endItem c"
    using hashset_find_ok(2)[OF ok x(1)] hs_ok_facts(5)[OF ok] x by auto
  obtain h' c' where r: "hashset_remove h c x = (h', c', hd (vs @ [endItem c]))"
    "hs_ok hf h' c' (us @ vs) (map (ikey h) (us @ vs))" "hs_frame hf h c h' c'"
    using hashset_remove_ok[OF ok[unfolded x(1)]] by blast
  have ks: "ks = map (ikey h) us @ k # map (ikey h) vs" using ok x by (simp add: hs_ok_def)
  then have "k \<notin> set (map (ikey h) us)" using hs_ok_facts(1)[OF ok] by auto
  then have "remove1 k ks = map (ikey h) (us @ vs)" using ks by (simp add: remove1_append)
  then show ?thesis using r f by (auto simp: hashset_remove_key_def)
next
  case False
  then have "hashset_remove_key hf h c k = Some (h, c)" "remove1 k ks = ks"
    using hashset_find_ok(1)[OF ok] by (simp_all add: hashset_remove_key_def remove1_idem)
  then show ?thesis using ok by auto
qed

lemma hashset_clear_ok:
  assumes ok: "hs_ok hf h c xs ks"
  shows "\<exists>h' c'. hashset_clear h c = Some (h', c') \<and> hs_ok hf h' c' [] [] \<and> hs_frame hf h c h' c'"
proof -
  obtain fs where h: "hash_ok hf h c xs fs" using ok by (rule hs_okE)
  obtain h' c' where r: "hash_clear h c = Some (h', c')" "hash_ok hf h' c' [] (rev xs @ fs)"
    "hash_frame hf h c h' c'"
    using hash_clear_ok[OF h] by blast
  then show ?thesis using hs_frameI[OF r(3)] by (auto simp: hashset_clear_def hs_ok_def)
qed

section \<open>Operations with another set\<close>

definition add_end :: "'k \<Rightarrow> 'k list \<Rightarrow> 'k list" where
  "add_end k ks = (if k \<in> set ks then ks else ks @ [k])"

lemma fold_add_end: "distinct ws \<Longrightarrow> fold add_end ws ks = ks @ filter (\<lambda>w. w \<notin> set ks) ws"
proof (induction ws arbitrary: ks)
  case (Cons w ws)
  have "filter (\<lambda>v. v \<notin> set (ks @ [w])) ws = filter (\<lambda>v. v \<notin> set ks) ws"
    using Cons.prems by (intro filter_cong) auto
  then show ?case using Cons by (simp add: add_end_def)
qed simp

lemma fold_remove1: "distinct ks \<Longrightarrow> fold remove1 ws ks = filter (\<lambda>k. k \<notin> set ws) ks"
proof (induction ws arbitrary: ks)
  case (Cons w ws)
  then show ?case by (auto simp: distinct_remove1_removeAll removeAll_filter_not_eq intro: filter_cong)
qed simp

lemma hashset_append_loop_ok:
  assumes "hs_ok hf h c xs ks" "hs_ok hf h d (ys0 @ ys) (ws0 @ ws)" "hash_apart c d" "length ys = length ws"
  shows "\<exists>h' c' xs'. hashset_append_loop hf h c (hd (ys @ [endItem d])) (endItem d) = Some (h', c') \<and>
           hs_ok hf h' c' xs' (fold add_end ws ks) \<and> hs_ok hf h' d (ys0 @ ys) (ws0 @ ws) \<and> hash_apart c' d"
  using assms
proof (induction ys arbitrary: h c xs ks ys0 ws0 ws)
  case Nil
  then show ?case by (subst hashset_append_loop.simps) auto
next
  case (Cons y ys)
  note okc = Cons.prems(1) and okd = Cons.prems(2)
  obtain k ws' where ws: "ws = k # ws'" using Cons.prems(4) by (cases ws) auto
  have "ws0 @ ws = map (ikey h) (ys0 @ y # ys)" using okd by (simp add: hs_ok_def)
  moreover have "length ws0 = length ys0" using hs_ok_facts(3)[OF okd] Cons.prems(4) by simp
  ultimately have y: "ikey h y = k" using ws by (simp add: append_eq_append_conv)
  obtain h1 c1 xs1 where a: "hashset_append hf h c k = Some (h1, c1)" "hs_ok hf h1 c1 xs1 (add_end k ks)"
    "hs_frame hf h c h1 c1" using hashset_append_ok[OF okc, of k] unfolding add_end_def by blast
  have d1: "hs_ok hf h1 d (ys0 @ y # ys) (ws0 @ ws)" "hash_apart c1 d"
    using a(3) okd Cons.prems(3) unfolding hs_frame_def by blast+
  then have d2: "hs_ok hf h1 d ((ys0 @ [y]) @ ys) ((ws0 @ [k]) @ ws')" using ws by simp
  have len: "length ys = length ws'" using Cons.prems(4) ws by simp
  obtain h' c' xs' where rec: "hashset_append_loop hf h1 c1 (hd (ys @ [endItem d])) (endItem d) = Some (h', c')"
    "hs_ok hf h' c' xs' (fold add_end ws' (add_end k ks))"
    "hs_ok hf h' d ((ys0 @ [y]) @ ys) ((ws0 @ [k]) @ ws')" "hash_apart c' d"
    using Cons.IH[OF a(2) d2 d1(2) len] by blast
  have "y \<noteq> endItem d" using hs_ok_facts(5)[OF okd] by auto
  moreover have "nextp h1 y = hd (ys @ [endItem d])" by (rule hs_ok_next[OF d1(1)])
  ultimately have "hashset_append_loop hf h c (hd ((y # ys) @ [endItem d])) (endItem d) = Some (h', c')"
    using rec(1) a(1) y by (subst hashset_append_loop.simps) simp
  then show ?case using rec ws by auto
qed

lemma hashset_remove_loop_ok:
  assumes "hs_ok hf h c xs ks" "hs_ok hf h d (ys0 @ ys) (ws0 @ ws)" "hash_apart c d" "length ys = length ws"
  shows "\<exists>h' c' xs'. hashset_remove_loop hf h c (hd (ys @ [endItem d])) (endItem d) = Some (h', c') \<and>
           hs_ok hf h' c' xs' (fold remove1 ws ks) \<and> hs_ok hf h' d (ys0 @ ys) (ws0 @ ws) \<and> hash_apart c' d"
  using assms
proof (induction ys arbitrary: h c xs ks ys0 ws0 ws)
  case Nil
  then show ?case by (subst hashset_remove_loop.simps) auto
next
  case (Cons y ys)
  note okc = Cons.prems(1) and okd = Cons.prems(2)
  obtain k ws' where ws: "ws = k # ws'" using Cons.prems(4) by (cases ws) auto
  have "ws0 @ ws = map (ikey h) (ys0 @ y # ys)" using okd by (simp add: hs_ok_def)
  moreover have "length ws0 = length ys0" using hs_ok_facts(3)[OF okd] Cons.prems(4) by simp
  ultimately have y: "ikey h y = k" using ws by (simp add: append_eq_append_conv)
  obtain h1 c1 xs1 where a: "hashset_remove_key hf h c k = Some (h1, c1)" "hs_ok hf h1 c1 xs1 (remove1 k ks)"
    "hs_frame hf h c h1 c1" using hashset_remove_key_ok[OF okc, of k] by blast
  have d1: "hs_ok hf h1 d (ys0 @ y # ys) (ws0 @ ws)" "hash_apart c1 d"
    using a(3) okd Cons.prems(3) unfolding hs_frame_def by blast+
  then have d2: "hs_ok hf h1 d ((ys0 @ [y]) @ ys) ((ws0 @ [k]) @ ws')" using ws by simp
  have len: "length ys = length ws'" using Cons.prems(4) ws by simp
  obtain h' c' xs' where rec: "hashset_remove_loop hf h1 c1 (hd (ys @ [endItem d])) (endItem d) = Some (h', c')"
    "hs_ok hf h' c' xs' (fold remove1 ws' (remove1 k ks))"
    "hs_ok hf h' d ((ys0 @ [y]) @ ys) ((ws0 @ [k]) @ ws')" "hash_apart c' d"
    using Cons.IH[OF a(2) d2 d1(2) len] by blast
  have "y \<noteq> endItem d" using hs_ok_facts(5)[OF okd] by auto
  moreover have "nextp h1 y = hd (ys @ [endItem d])" by (rule hs_ok_next[OF d1(1)])
  ultimately have "hashset_remove_loop hf h c (hd ((y # ys) @ [endItem d])) (endItem d) = Some (h', c')"
    using rec(1) a(1) y by (subst hashset_remove_loop.simps) simp
  then show ?case using rec ws by auto
qed

text \<open>The set itself as the argument: each step removes the first item, whose \<^verbatim>\<open>next\<close> survives.\<close>

lemma hashset_remove_self_ok:
  assumes "hs_ok hf h c xs ks" "e = endItem c"
  shows "\<exists>h' c'. hashset_remove_loop hf h c (hd (xs @ [e])) e = Some (h', c') \<and> hs_ok hf h' c' [] []"
  using assms
proof (induction xs arbitrary: h c ks)
  case Nil
  then show ?case by (subst hashset_remove_loop.simps) (auto simp: hs_ok_def)
next
  case (Cons x xs)
  have ok: "hs_ok hf h c ([] @ x # xs) ks" using Cons.prems(1) by simp
  have f: "hashset_find hf h c (ikey h x) = Some x" "x \<noteq> endItem c"
    using hashset_find_ok(2)[OF ok refl] hs_ok_facts(5)[OF ok] by auto
  obtain h1 c1 where r: "hashset_remove h c x = (h1, c1, hd (xs @ [endItem c]))"
    "hs_ok hf h1 c1 ([] @ xs) (map (ikey h) ([] @ xs))" "endItem c1 = endItem c"
    "nextp h1 x = hd (xs @ [endItem c])"
    using hashset_remove_ok[OF ok] by blast
  have ok1: "hs_ok hf h1 c1 xs (map (ikey h) xs)" using r(2) by simp
  have e1: "e = endItem c1" using r(3) Cons.prems(2) by simp
  obtain h' c' where "hashset_remove_loop hf h1 c1 (hd (xs @ [e])) e = Some (h', c')" "hs_ok hf h' c' [] []"
    using Cons.IH[OF ok1 e1] by blast
  then show ?case using f r Cons.prems(2)
    by (subst hashset_remove_loop.simps) (simp add: hashset_remove_key_def)
qed

lemma hashset_init_ok:
  assumes "hashset_init h = (h', c)" "0 < brk h"
  shows "hs_ok hf h' c [] []" "hs_ok hf h d ys ws \<Longrightarrow> hs_ok hf h' d ys ws \<and> hash_apart c d"
proof -
  note I = init_hcont_ok[OF assms(1)[unfolded hashset_init_def] assms(2)]
  show "hs_ok hf h' c [] []" using I(1) by (auto simp: hs_ok_def)
  show "hs_ok hf h d ys ws \<Longrightarrow> hs_ok hf h' d ys ws \<and> hash_apart c d"
    using I(2,3) by (fastforce simp: hs_ok_def)
qed

lemma hashset_assign_ok:
  assumes c: "hs_ok hf h c xs ks" and d: "hs_ok hf h d ys ws" and ap: "hash_apart c d"
  shows "\<exists>h' c' xs'. hashset_assign hf h c d = Some (h', c') \<and> hs_ok hf h' c' xs' ws \<and>
           hs_ok hf h' d ys ws \<and> hash_apart c' d"
proof -
  obtain h1 c1 where w: "hashset_clear h c = Some (h1, c1)" "hs_ok hf h1 c1 [] []" "hs_frame hf h c h1 c1"
    using hashset_clear_ok[OF c] by blast
  have d1: "hs_ok hf h1 d ([] @ ys) ([] @ ws)" "hash_apart c1 d"
    using w(3) d ap unfolding hs_frame_def by auto
  have b: "beginp d = hd (ys @ [endItem d])" "length ys = length ws" "distinct ws"
    using hs_ok_facts[OF d] by auto
  show ?thesis using hashset_append_loop_ok[OF w(2) d1 b(2)] fold_add_end[OF b(3), of "[]"]
    by (simp add: hashset_assign_def w(1) b(1))
qed

lemma hashset_copy_ok:
  assumes d: "hs_ok hf h d ys ws"
  shows "\<exists>h' c' xs'. hashset_copy hf h d = Some (h', c') \<and> hs_ok hf h' c' xs' ws \<and>
           hs_ok hf h' d ys ws \<and> hash_apart c' d"
proof -
  obtain h1 c where i: "hashset_init h = (h1, c)" by fastforce
  note I = hashset_init_ok[OF i hs_ok_facts(7)[OF d]]
  have d1: "hs_ok hf h1 d ([] @ ys) ([] @ ws)" "hash_apart c d" using I(2)[OF d] by simp_all
  have b: "beginp d = hd (ys @ [endItem d])" "length ys = length ws" "distinct ws"
    using hs_ok_facts[OF d] by auto
  show ?thesis using hashset_append_loop_ok[OF I(1) d1 b(2)] fold_add_end[OF b(3), of "[]"]
    by (simp add: hashset_copy_def i b(1))
qed

lemma hashset_eq_loop_ok:
  assumes "hs_ok hf h c (us @ xs) vs0" "hs_ok hf h d (ws @ ys) vs1" "length xs = length ys"
  shows "hashset_eq_loop h (hd (xs @ [endItem c])) (hd (ys @ [endItem d])) (endItem c)
           = Some (map (ikey h) xs = map (ikey h) ys)"
  using assms
proof (induction xs arbitrary: us ws ys)
  case Nil
  then show ?case by (subst hashset_eq_loop.simps) simp
next
  case (Cons x xs)
  obtain y ys' where ys: "ys = y # ys'" using Cons.prems(3) by (cases ys) auto
  have "x \<noteq> endItem c" using hs_ok_facts(5)[OF Cons.prems(1)] by auto
  moreover have "nextp h x = hd (xs @ [endItem c])" "nextp h y = hd (ys' @ [endItem d])"
    using hs_ok_next[OF Cons.prems(1)] hs_ok_next[of hf h d ws y ys' vs1] Cons.prems(2) ys by auto
  moreover have "hashset_eq_loop h (hd (xs @ [endItem c])) (hd (ys' @ [endItem d])) (endItem c)
           = Some (map (ikey h) xs = map (ikey h) ys')"
    by (rule Cons.IH[of "us @ [x]" "ws @ [y]"]) (use Cons.prems ys in auto)
  ultimately show ?case by (subst hashset_eq_loop.simps) (auto simp: ys)
qed

lemma hashset_eq_ok:
  assumes c: "hs_ok hf h c xs ks" and d: "hs_ok hf h d ys ws"
  shows "hashset_eq h c d = Some (ks = ws)"
proof (cases "length ks = length ws")
  case True
  have "length xs = length ys" using True hs_ok_facts(3)[OF c] hs_ok_facts(3)[OF d] by simp
  then have "hashset_eq_loop h (beginp c) (beginp d) (endItem c) = Some (ks = ws)"
    using hashset_eq_loop_ok[of hf h c "[]" xs ks d "[]" ys ws] c d hs_ok_facts(4)[OF c]
      hs_ok_facts(4)[OF d] by (simp add: hs_ok_def)
  then show ?thesis using True hs_ok_facts(2)[OF c] hs_ok_facts(2)[OF d] by (simp add: hashset_eq_def)
next
  case False
  then show ?thesis using hs_ok_facts(2)[OF c] hs_ok_facts(2)[OF d] by (auto simp: hashset_eq_def)
qed

section \<open>Hash sets as finite maps to the unit value\<close>

definition hs_rel :: "('k \<Rightarrow> nat) \<Rightarrow> 'k hash_heap \<times> hcont \<Rightarrow> ('k \<Rightarrow> unit option) \<Rightarrow> bool" where
  "hs_rel hf s m \<longleftrightarrow> (\<exists>xs ks. hs_ok hf (fst s) (snd s) xs ks \<and> m = (\<lambda>k. if k \<in> set ks then Some () else None))"

definition hs_look :: "('k \<Rightarrow> nat) \<Rightarrow> 'k \<Rightarrow> 'k hash_heap \<times> hcont \<Rightarrow> unit option option" where
  "hs_look hf k s = map_option (\<lambda>b. if b then Some () else None) (hashset_contains hf (fst s) (snd s) k)"

definition hs_ins :: "('k \<Rightarrow> nat) \<Rightarrow> 'k \<Rightarrow> unit \<Rightarrow> 'k hash_heap \<times> hcont \<Rightarrow> ('k hash_heap \<times> hcont) option" where
  "hs_ins hf k u s = hashset_append hf (fst s) (snd s) k"

definition hs_del :: "('k \<Rightarrow> nat) \<Rightarrow> 'k \<Rightarrow> 'k hash_heap \<times> hcont \<Rightarrow> ('k hash_heap \<times> hcont) option" where
  "hs_del hf k s = hashset_remove_key hf (fst s) (snd s) k"

lemma hs_relI:
  "hs_ok hf h c xs ks \<Longrightarrow> (\<And>k. m k = (if k \<in> set ks then Some () else None)) \<Longrightarrow> hs_rel hf (h, c) m"
  by (auto simp: hs_rel_def)

lemma hs_relE:
  assumes "hs_rel hf s m"
  obtains h c xs ks where "s = (h, c)" "hs_ok hf h c xs ks"
    "m = (\<lambda>k. if k \<in> set ks then Some () else None)"
  using assms by (cases s) (auto simp: hs_rel_def)

lemma hs_look_rel: "hs_rel hf s m \<Longrightarrow> hs_look hf k s = Some (m k)"
  by (erule hs_relE) (simp add: hs_look_def hashset_find_ok(3))

lemma hs_ins_rel:
  assumes "hs_rel hf s m"
  shows "\<exists>s'. hs_ins hf k v s = Some s' \<and> hs_rel hf s' (m(k \<mapsto> v))"
proof -
  obtain h c xs ks where s: "s = (h, c)" and ok: "hs_ok hf h c xs ks"
    and m: "m = (\<lambda>k. if k \<in> set ks then Some () else None)" using assms by (rule hs_relE)
  obtain h1 c1 xs1 where a: "hashset_append hf h c k = Some (h1, c1)"
    "hs_ok hf h1 c1 xs1 (if k \<in> set ks then ks else ks @ [k])"
    using hashset_append_ok[OF ok] by blast
  have "hs_rel hf (h1, c1) (m(k \<mapsto> v))" by (rule hs_relI[OF a(2)]) (auto simp: m)
  then show ?thesis using a(1) by (simp add: hs_ins_def s)
qed

lemma hs_del_rel:
  assumes "hs_rel hf s m"
  shows "\<exists>s'. hs_del hf k s = Some s' \<and> hs_rel hf s' (m(k := None))"
proof -
  obtain h c xs ks where s: "s = (h, c)" and ok: "hs_ok hf h c xs ks"
    and m: "m = (\<lambda>k. if k \<in> set ks then Some () else None)" using assms by (rule hs_relE)
  obtain h2 c2 xs2 where r: "hashset_remove_key hf h c k = Some (h2, c2)"
    "hs_ok hf h2 c2 xs2 (remove1 k ks)"
    using hashset_remove_key_ok[OF ok] by blast
  have "hs_rel hf (h2, c2) (m(k := None))"
    by (rule hs_relI[OF r(2)]) (use hs_ok_facts(1)[OF ok] in \<open>auto simp: m\<close>)
  then show ?thesis using r(1) by (simp add: hs_del_def s)
qed

interpretation hset: finite_map "hs_rel hf" "hs_look hf" "hs_ins hf" "hs_del hf" for hf
  by unfold_locales (fact hs_look_rel hs_ins_rel hs_del_rel)+

section \<open>Sets to evaluate on\<close>

definition hset_heap0 :: "'k \<Rightarrow> 'k hash_heap" where
  "hset_heap0 k = \<lparr>brk = 1, prevp = \<lambda>_. null, nextp = \<lambda>_. null, ikey = \<lambda>_. k,
     icell = \<lambda>_. Slot null 0, nextCell = \<lambda>_. null, slots = \<lambda>_ _. null\<rparr>"

definition hashset0 :: "'k \<Rightarrow> 'k hash_heap \<times> hcont" where
  "hashset0 k = hashset_init (hset_heap0 k)"

lemma hashset0_ok: "hs_ok hf (fst (hashset0 k)) (snd (hashset0 k)) [] []"
  using hashset_init_ok(1)[of "hset_heap0 k" _ _ hf]
  by (cases "hashset0 k") (simp add: hashset0_def hset_heap0_def)

lemma hs_fill:
  assumes "hs_ok hf h c xs ks"
  shows "\<exists>h' c' xs'. hs_ok hf h' c' xs' (fold add_end ws ks) \<and> hs_frame hf h c h' c'"
  using assms
proof (induction ws arbitrary: h c xs ks)
  case Nil
  then show ?case by (auto intro: hs_frame_refl)
next
  case (Cons w ws)
  obtain h1 c1 xs1 where a: "hs_ok hf h1 c1 xs1 (add_end w ks)" "hs_frame hf h c h1 c1"
    using hashset_append_ok[OF Cons.prems, of w] unfolding add_end_def by blast
  show ?case using Cons.IH[OF a(1)] hs_frame_trans[OF a(2)] by fastforce
qed

lemma two_hashsets:
  assumes "distinct ks" "distinct ws"
  shows "\<exists>h c d xs ys. hs_ok hf h c xs ks \<and> hs_ok hf h d ys ws \<and> hash_apart c d"
proof -
  obtain h0 d ys where d: "hs_ok hf h0 d ys ws"
    using hs_fill[OF hashset0_ok[of hf undefined], of ws] fold_add_end[OF assms(2), of "[]"] by auto
  obtain h1 c1 xs1 where c1: "hs_ok hf h1 c1 xs1 ws" "hs_ok hf h1 d ys ws" "hash_apart c1 d"
    using hashset_copy_ok[OF d] by auto
  obtain h2 c2 where c2: "hs_ok hf h2 c2 [] []" "hs_frame hf h1 c1 h2 c2"
    using hashset_clear_ok[OF c1(1)] by blast
  obtain h c xs where c: "hs_ok hf h c xs ks" "hs_frame hf h2 c2 h c"
    using hs_fill[OF c2(1), of ks] fold_add_end[OF assms(1), of "[]"] by auto
  have "hs_ok hf h d ys ws" "hash_apart c d"
    using hs_frame_trans[OF c2(2) c(2)] c1(2,3) unfolding hs_frame_def by blast+
  then show ?thesis using c(1) by auto
qed

section \<open>Properties\<close>

text \<open>C5. After any history of \<^verbatim>\<open>append\<close>s and removals on a new \<^verbatim>\<open>HashSet\<close>, for every hash function,
  every operation has returned and \<^verbatim>\<open>contains\<close> tells exactly the elements of the mathematical set
  with that history.\<close>

theorem hashset_history_correct:
  "Option.bind (foldo (case_map_op (hs_ins hf) (hs_del hf)) ops (hashset0 k0)) (hs_look hf k)
     = Some (fold apply_op ops Map.empty k)"
proof (rule hset.look_after_run)
  show "hs_rel hf (hashset0 k0) Map.empty"
    using hs_relI[OF hashset0_ok[of hf k0], of Map.empty] by simp
qed

text \<open>\<^verbatim>\<open>append(other)\<close> is the union, which keeps the own elements first and adds the missing ones
  in the other's order; \<^verbatim>\<open>remove(other)\<close> is the difference and returns also when the set is its own
  argument, which empties it; \<^verbatim>\<open>operator==\<close>, however, compares the two insertion orders, so two sets
  with the same elements can compare unequal.\<close>

theorem hashset_set_operations_correct:
  assumes "hs_ok hf h c xs ks" "hs_ok hf h d ys ws" "hash_apart c d"
  shows "(\<exists>h' c' xs'. hashset_append_set hf h c d = Some (h', c') \<and>
            hs_ok hf h' c' xs' (ks @ filter (\<lambda>w. w \<notin> set ks) ws) \<and> hs_ok hf h' d ys ws) \<and>
         (\<exists>h' c' xs'. hashset_remove_set hf h c d = Some (h', c') \<and>
            hs_ok hf h' c' xs' (filter (\<lambda>k. k \<notin> set ws) ks) \<and> hs_ok hf h' d ys ws) \<and>
         (\<exists>h' c'. hashset_remove_set hf h c c = Some (h', c') \<and> hs_ok hf h' c' [] []) \<and>
         hashset_eq h c d = Some (ks = ws)"
proof (intro conjI)
  have d: "hs_ok hf h d ([] @ ys) ([] @ ws)" using assms(2) by simp
  have b: "beginp d = hd (ys @ [endItem d])" "length ys = length ws" "distinct ws"
    using hs_ok_facts[OF assms(2)] by auto
  show "\<exists>h' c' xs'. hashset_append_set hf h c d = Some (h', c') \<and>
            hs_ok hf h' c' xs' (ks @ filter (\<lambda>w. w \<notin> set ks) ws) \<and> hs_ok hf h' d ys ws"
    using hashset_append_loop_ok[OF assms(1) d assms(3) b(2)] fold_add_end[OF b(3), of ks]
    unfolding hashset_append_set_def b(1) append_Nil by fastforce
  show "\<exists>h' c' xs'. hashset_remove_set hf h c d = Some (h', c') \<and>
            hs_ok hf h' c' xs' (filter (\<lambda>k. k \<notin> set ws) ks) \<and> hs_ok hf h' d ys ws"
    using hashset_remove_loop_ok[OF assms(1) d assms(3) b(2)]
      fold_remove1[OF hs_ok_facts(1)[OF assms(1)], of ws]
    unfolding hashset_remove_set_def b(1) append_Nil by fastforce
  have "beginp c = hd (xs @ [endItem c])" by (rule hs_ok_facts(4)[OF assms(1)])
  then show "\<exists>h' c'. hashset_remove_set hf h c c = Some (h', c') \<and> hs_ok hf h' c' [] []"
    using hashset_remove_self_ok[OF assms(1) refl] by (simp add: hashset_remove_set_def)
  show "hashset_eq h c d = Some (ks = ws)" by (rule hashset_eq_ok[OF assms(1,2)])
qed

theorem hashset_set_operations_correct_witness:
  "\<exists>h c d xs ys. hs_ok (\<lambda>k. k) h c xs [1, 501, 2] \<and> hs_ok (\<lambda>k. k) h d ys [2, 501, 1 :: nat] \<and>
     hashset_eq h c d = Some False \<and>
     (\<exists>h' c' xs'. hashset_remove_set (\<lambda>k. k) h c d = Some (h', c') \<and> hs_ok (\<lambda>k. k) h' c' xs' [])"
proof -
  obtain h c d xs ys where ok: "hs_ok (\<lambda>k. k) h c xs [1, 501, 2]" "hs_ok (\<lambda>k. k) h d ys [2, 501, 1 :: nat]"
    "hash_apart c d"
    using two_hashsets[of "[1, 501, 2]" "[2, 501, 1 :: nat]" "\<lambda>k. k"] by auto
  show ?thesis using hashset_set_operations_correct[OF ok] ok by simp blast
qed

end
