(* ===== verification/Nstd_PoolMap.thy ===== *)
theory Nstd_PoolMap
  imports Nstd_HashTable
begin

text \<open>
  \<^verbatim>\<open>PoolMap<T, V>\<close> (include/nstd/PoolMap.hpp): a hash map whose values are default-constructed in
  their item and addressed by reference. As the value is the first member of the item, a value
  reference is the item's address. The default value \<open>v0\<close> of \<^verbatim>\<open>V\<close> is a parameter.
\<close>

section \<open>State\<close>

record ('k, 'v) pmap_heap = "'k hash_heap" +
  pval :: "addr \<Rightarrow> 'v"

section \<open>Operations\<close>

definition poolmap_init :: "('k, 'v) pmap_heap \<Rightarrow> nat \<Rightarrow> ('k, 'v) pmap_heap \<times> hcont" where
  "poolmap_init h cap = init_hcont h cap"

definition poolmap_find :: "('k \<Rightarrow> nat) \<Rightarrow> ('k, 'v) pmap_heap \<Rightarrow> hcont \<Rightarrow> 'k \<Rightarrow> addr option" where
  "poolmap_find hf h c k = hash_find hf h c k"

definition poolmap_contains :: "('k \<Rightarrow> nat) \<Rightarrow> ('k, 'v) pmap_heap \<Rightarrow> hcont \<Rightarrow> 'k \<Rightarrow> bool option" where
  "poolmap_contains hf h c k = map_option (\<lambda>it. it \<noteq> endItem c) (poolmap_find hf h c k)"

definition poolmap_insert ::
    "('k \<Rightarrow> nat) \<Rightarrow> 'v \<Rightarrow> ('k, 'v) pmap_heap \<Rightarrow> hcont \<Rightarrow> addr \<Rightarrow> 'k
     \<Rightarrow> (('k, 'v) pmap_heap \<times> hcont \<times> addr) option" where
  "poolmap_insert hf v0 h c position k =
     Option.bind (poolmap_find hf h c k) (\<lambda>it.
       if it \<noteq> endItem c then Some (h, c, it)
       else (let (h1, c1) = ensure_table h c;
                 (h2, c2, item) = alloc_item h1 c1;
                 h3 = h2\<lparr>ikey := (ikey h2)(item := k), pval := (pval h2)(item := v0)\<rparr>;
                 c3 = take_free h3 c2 item;
                 h4 = link_cell hf h3 c3 item k;
                 (h5, c4) = link_before h4 c3 item position
             in Some (h5, c4, item)))"

definition poolmap_append ::
    "('k \<Rightarrow> nat) \<Rightarrow> 'v \<Rightarrow> ('k, 'v) pmap_heap \<Rightarrow> hcont \<Rightarrow> 'k
     \<Rightarrow> (('k, 'v) pmap_heap \<times> hcont \<times> addr) option" where
  "poolmap_append hf v0 h c k = poolmap_insert hf v0 h c (endItem c) k"

text \<open>\<^verbatim>\<open>remove(const V& value)\<close>, given the address of the value\<close>

definition poolmap_remove_value ::
    "('k, 'v) pmap_heap \<Rightarrow> hcont \<Rightarrow> addr \<Rightarrow> ('k, 'v) pmap_heap \<times> hcont" where
  "poolmap_remove_value h c item =
     (let h1 = unlink_cell h item;
          (h2, c2) = unlink h1 c item
      in release h2 c2 item)"

definition poolmap_remove ::
    "('k, 'v) pmap_heap \<Rightarrow> hcont \<Rightarrow> addr \<Rightarrow> ('k, 'v) pmap_heap \<times> hcont \<times> addr" where
  "poolmap_remove h c item =
     (let (h', c') = poolmap_remove_value h c item in (h', c', nextp h' item))"

definition poolmap_remove_key ::
    "('k \<Rightarrow> nat) \<Rightarrow> ('k, 'v) pmap_heap \<Rightarrow> hcont \<Rightarrow> 'k \<Rightarrow> (('k, 'v) pmap_heap \<times> hcont) option" where
  "poolmap_remove_key hf h c k =
     Option.bind (poolmap_find hf h c k) (\<lambda>it.
       if it \<noteq> endItem c then Some (poolmap_remove_value h c it) else Some (h, c))"

definition poolmap_removeFront :: "('k, 'v) pmap_heap \<Rightarrow> hcont \<Rightarrow> ('k, 'v) pmap_heap \<times> hcont \<times> addr" where
  "poolmap_removeFront h c = poolmap_remove h c (beginp c)"

definition poolmap_removeBack :: "('k, 'v) pmap_heap \<Rightarrow> hcont \<Rightarrow> ('k, 'v) pmap_heap \<times> hcont \<times> addr" where
  "poolmap_removeBack h c = poolmap_remove h c (prevp h (endItem c))"

definition poolmap_clear :: "('k, 'v) pmap_heap \<Rightarrow> hcont \<Rightarrow> (('k, 'v) pmap_heap \<times> hcont) option" where
  "poolmap_clear h c = hash_clear h c"

definition poolmap_swap :: "('k, 'v) pmap_heap \<Rightarrow> hcont \<Rightarrow> hcont \<Rightarrow> ('k, 'v) pmap_heap \<times> hcont \<times> hcont" where
  "poolmap_swap h c d = hash_swap h c d"

text \<open>Writing through the reference that \<^verbatim>\<open>append\<close> returned.\<close>

definition poolmap_set :: "('k, 'v) pmap_heap \<Rightarrow> addr \<Rightarrow> 'v \<Rightarrow> ('k, 'v) pmap_heap" where
  "poolmap_set h item v = h\<lparr>pval := (pval h)(item := v)\<rparr>"

section \<open>What a map holds\<close>

text \<open>The abstract value lists item, key and value, because references to values are items.\<close>

definition pm_ok ::
    "('k \<Rightarrow> nat) \<Rightarrow> ('k, 'v) pmap_heap \<Rightarrow> hcont \<Rightarrow> (addr \<times> 'k \<times> 'v) list \<Rightarrow> bool" where
  "pm_ok hf h c es \<longleftrightarrow>
     (\<exists>fs. hash_ok hf h c (map fst es) fs) \<and> (\<forall>x k v. (x, k, v) \<in> set es \<longrightarrow> ikey h x = k \<and> pval h x = v)"

lemma pm_okE:
  assumes "pm_ok hf h c es"
  obtains fs where "hash_ok hf h c (map fst es) fs"
  using assms by (auto simp: pm_ok_def)

lemma pm_okD: "pm_ok hf h c es \<Longrightarrow> (x, k, v) \<in> set es \<Longrightarrow> ikey h x = k \<and> pval h x = v"
  by (simp add: pm_ok_def)

definition entry_of :: "(addr \<times> 'k \<times> 'v) list \<Rightarrow> 'k \<Rightarrow> (addr \<times> 'v) option" where
  "entry_of es k = map_of (map (\<lambda>(x, k, v). (k, x, v)) es) k"

lemma entry_of_simps [simp]:
  "entry_of [] j = None"
  "entry_of ((x, k, v) # es) j = (if k = j then Some (x, v) else entry_of es j)"
  by (simp_all add: entry_of_def)

lemma entry_of_append: "entry_of (es @ fs) k = (case entry_of es k of None \<Rightarrow> entry_of fs k | Some r \<Rightarrow> Some r)"
  by (simp add: entry_of_def map_add_def split: option.splits)
   
lemma entry_of_Some: "entry_of es k = Some (x, v) \<Longrightarrow> (x, k, v) \<in> set es"
  unfolding entry_of_def by (drule map_of_SomeD) auto

lemma entry_of_None: "entry_of es k = None \<longleftrightarrow> k \<notin> (fst \<circ> snd) ` set es"
  by (auto simp: entry_of_def map_of_eq_None_iff image_iff split_beta)

lemma pm_ok_facts:
  assumes ok: "pm_ok hf h c es"
  shows "endItem c \<notin> fst ` set es" "distinct (map fst es)" "csize c = length es"
    "item_of h (map fst es) k = map_option fst (entry_of es k)"
    "beginp c = hd (map fst es @ [endItem c])" "prevp h (endItem c) = last (null # map fst es)"
proof -
  obtain fs where h: "hash_ok hf h c (map fst es) fs" using ok by (rule pm_okE)
  note kv = pm_okD[OF ok]
  have inv: "cont_inv h c (map fst es) fs" using h by (rule hash_ok_inv)
  show "endItem c \<notin> fst ` set es" "distinct (map fst es)" "csize c = length es"
     "beginp c = hd (map fst es @ [endItem c])"
    using inv by (auto simp: cont_st_def)
  show "prevp h (endItem c) = last (null # map fst es)"
    using inv by (auto simp: cont_st_def dest: dseg_last_prev)
  show "item_of h (map fst es) k = map_option fst (entry_of es k)"
  proof (cases "entry_of es k")
    case None
    have "k \<notin> ikey h ` set (map fst es)"
    proof
      assume "k \<in> ikey h ` set (map fst es)"
      then obtain x k' v where e: "(x, k', v) \<in> set es" "k = ikey h x" by force
      then have "k' = k" using kv by auto
      with None e show False by (force simp: entry_of_None)
    qed
    then show ?thesis using None by (simp add: item_of_None[THEN iffD2])
  next
    case (Some r)
    obtain x v where r: "r = (x, v)" by force
    have e: "(x, k, v) \<in> set es" using entry_of_Some Some r by metis
    have d: "distinct (map (ikey h) (map fst es))" using h unfolding hash_ok_def by blast
    have "item_of h (map fst es) k = Some x"
      by (rule item_of_eq[OF d]) (use e kv in force)+
    then show ?thesis using Some r by simp
  qed
qed

lemma poolmap_find_ok:
  assumes ok: "pm_ok hf h c es"
  shows "poolmap_find hf h c k = Some (case entry_of es k of None \<Rightarrow> endItem c | Some (x, _) \<Rightarrow> x)"
proof -
  obtain fs where h: "hash_ok hf h c (map fst es) fs" using ok by (rule pm_okE)
  show ?thesis using hash_find_ok[OF h, of k] pm_ok_facts(4)[OF ok, of k]
    by (cases "entry_of es k") (auto simp: poolmap_find_def)
qed

lemma poolmap_insert_new_ok:
  assumes ok: "pm_ok hf h c (us @ vs)" and pos: "pos = hd (map fst vs @ [endItem c])"
    and new: "entry_of (us @ vs) k = None"
  shows "\<exists>h' c' i. poolmap_insert hf v0 h c pos k = Some (h', c', i) \<and>
           pm_ok hf h' c' (us @ (i, k, v0) # vs) \<and> endItem c' = endItem c"
proof -
  obtain fs where h: "hash_ok hf h c (map fst us @ map fst vs) fs"
    using ok by (auto simp: pm_ok_def)
  note kv = pm_okD[OF ok]
  have find: "poolmap_find hf h c k = Some (endItem c)" by (simp add: poolmap_find_ok[OF ok] new)
  have none: "item_of h (map fst us @ map fst vs) k = None"
    using pm_ok_facts(4)[OF ok, of k] new by simp
  obtain h1 c1 where e: "ensure_table h c = (h1, c1)" by fastforce
  note E = ensure_table_ok[OF h e]
  obtain h2 c2 i where a: "alloc_item h1 c1 = (h2, c2, i)" by (metis prod_cases3)
  define h3 where "h3 = h2\<lparr>ikey := (ikey h2)(i := k), pval := (pval h2)(i := v0)\<rparr>"
  define c3 where "c3 = take_free h3 c2 i"
  obtain h5 c4 where l: "link_before (link_cell hf h3 c3 i k) c3 i pos = (h5, c4)" by fastforce
  have h3: "same_links h2 h3" "icell h3 = icell h2" "nextCell h3 = nextCell h2" "slots h3 = slots h2"
    "ikey h3 = (ikey h2)(i := k)" by (simp_all add: h3_def same_links_def)
  have t: "taken h1 c1 (map fst us @ map fst vs) fs h3 c3 i"
    unfolding c3_def by (rule alloc_item_taken[OF hash_ok_inv[OF E(1)] a h3(1)])
  then have t2: "taken h1 c1 (map fst us @ map fst vs) fs h2 c3 i"
    by (rule taken_same_links) (use h3(1) in \<open>simp add: same_links_def\<close>)
  have cells: "same_cells h1 h2 \<and> capacity c3 = capacity c1 \<and> htable c3 = htable c1"
    using alloc_item_cells[OF a] by (simp add: c3_def take_free_def)
  have abs: "k \<notin> ikey h1 ` set (map fst us @ map fst vs)" using none E(5) by (simp add: item_of_None)
  have pos1: "pos = hd (map fst vs @ [endItem c1])" using pos E(3) by simp
  obtain fs' where ok5: "hash_ok hf h5 c4 (map fst us @ i # map fst vs) fs'" and e5: "endItem c4 = endItem c1"
    and k5: "ikey h5 = (ikey h1)(i := k)" and i: "i \<notin> set (map fst us @ map fst vs)"
    using hash_insert_st[OF E(1,2) abs pos1 t2 cells h3 l] by blast
  have v1: "pval h1 = pval h" using e by (auto simp: ensure_table_def split: if_splits)
  have v2: "pval h2 = pval h1" using a by (auto simp: alloc_item_eq split: if_splits)
  have "pval (link_cell hf h3 c3 i k) = pval h3"
    by (simp add: link_cell_def Let_def write_cell_def split: cellref.splits)
  then have v5: "pval h5 = (pval h)(i := v0)" using l v1 v2 by (auto simp: link_before_eq h3_def)
  have "ikey h5 x = k' \<and> pval h5 x = v" if "(x, k', v) \<in> set (us @ (i, k, v0) # vs)" for x k' v
  proof (cases "(x, k', v) \<in> set (us @ vs)")
    case True
    then have "x \<noteq> i" using i by force
    then show ?thesis using kv[OF True] by (simp add: k5 v5 E(5))
  next
    case False
    then show ?thesis using that by (auto simp: k5 v5)
  qed
  then have "pm_ok hf h5 c4 (us @ (i, k, v0) # vs)" using ok5 by (auto simp: pm_ok_def)
  moreover have "poolmap_insert hf v0 h c pos k = Some (h5, c4, i)"
    using find by (simp add: poolmap_insert_def e a h3_def[symmetric] c3_def[symmetric] l)
  ultimately show ?thesis using e5 E(3) by metis
qed

lemma poolmap_remove_value_ok:
  assumes ok: "pm_ok hf h c (us @ (x, k, v) # vs)"
  shows "\<exists>h' c'. poolmap_remove_value h c x = (h', c') \<and> pm_ok hf h' c' (us @ vs) \<and>
           endItem c' = endItem c \<and> nextp h' x = hd (map fst vs @ [endItem c])"
proof -
  obtain fs where h: "hash_ok hf h c (map fst us @ x # map fst vs) fs"
    using ok by (auto simp: pm_ok_def)
  note kv = pm_okD[OF ok]
  obtain h1 c1 where u: "unlink (unlink_cell h x) c x = (h1, c1)" by fastforce
  obtain h2 c2 where r: "release h1 c1 x = (h2, c2)" by fastforce
  note R = hash_remove_st[OF h u r]
  have "pval (unlink_cell h x) = pval h"
    by (simp add: unlink_cell_def Let_def write_cell_def split: cellref.splits)
  then have pv: "pval h2 = pval h" using u r by (auto simp: unlink_eq release_def)
  have "pm_ok hf h2 c2 (us @ vs)" using R(1,3) pv kv by (auto simp: pm_ok_def)
  then show ?thesis using R(2,5) by (simp add: poolmap_remove_value_def u r)
qed

lemma poolmap_set_ok:
  assumes ok: "pm_ok hf h c (us @ (x, k, v) # vs)"
  shows "pm_ok hf (poolmap_set h x w) c (us @ (x, k, w) # vs)"
proof -
  obtain fs where h: "hash_ok hf h c (map fst us @ x # map fst vs) fs"
    using ok by (auto simp: pm_ok_def)
  note kv = pm_okD[OF ok]
  have "hash_ok hf (poolmap_set h x w) c (map fst us @ x # map fst vs) fs"
    by (rule hash_ok_cong[OF h]) (simp_all add: poolmap_set_def same_links_def same_cells_def)
  moreover have "x \<notin> fst ` set (us @ vs)" using pm_ok_facts(2)[OF ok] by auto
  then have "ikey (poolmap_set h x w) x' = k' \<and> pval (poolmap_set h x w) x' = v'"
    if "(x', k', v') \<in> set (us @ (x, k, w) # vs)" for x' k' v'
    using that kv[of x' k' v'] kv[of x k v] by (auto simp: poolmap_set_def image_iff split: if_splits) force+
  ultimately show ?thesis by (auto simp: pm_ok_def)
qed

lemma entry_split:
  assumes "entry_of es k = Some (x, v)"
  obtains us vs where "es = us @ (x, k, v) # vs" "entry_of us k = None"
  using assms
proof (induction es arbitrary: thesis)
  case (Cons e es)
  obtain x' k' v' where e: "e = (x', k', v')" by (cases e) auto
  show ?case
  proof (cases "k' = k")
    case True
    then show ?thesis using Cons.prems(2) e by (intro Cons.prems(1)[of "[]" es]) (auto simp: entry_of_def)
  next
    case False
    then have "entry_of es k = Some (x, v)" using Cons.prems(2) e by (simp add: entry_of_def)
    from Cons.IH[OF _ this] obtain us vs where "es = us @ (x, k, v) # vs" "entry_of us k = None" by blast
    then show ?thesis using False e by (intro Cons.prems(1)[of "e # us" vs]) (auto simp: entry_of_def)
  qed
qed (simp add: entry_of_def)

lemma poolmap_append_old_ok:
  assumes ok: "pm_ok hf h c es" and e: "entry_of es k = Some (x, v)"
  shows "poolmap_append hf v0 h c k = Some (h, c, x)"
proof -
  have "(x, k, v) \<in> set es" by (rule entry_of_Some[OF e])
  then have "x \<noteq> endItem c" using pm_ok_facts(1)[OF ok] by force
  then show ?thesis by (simp add: poolmap_append_def poolmap_insert_def poolmap_find_ok[OF ok] e)
qed

lemma poolmap_append_new_ok:
  assumes ok: "pm_ok hf h c es" and new: "entry_of es k = None"
  shows "\<exists>h' c' i. poolmap_append hf v0 h c k = Some (h', c', i) \<and>
           pm_ok hf h' c' (es @ [(i, k, v0)]) \<and> endItem c' = endItem c"
proof -
  have ok': "pm_ok hf h c (es @ [])" and new': "entry_of (es @ []) k = None"
    and pos: "endItem c = hd (map fst [] @ [endItem c])" using ok new by simp_all
  show ?thesis using poolmap_insert_new_ok[OF ok' pos new', of v0] unfolding poolmap_append_def .
qed

lemma poolmap_remove_key_ok:
  assumes ok: "pm_ok hf h c es"
  shows "\<exists>h' c'. poolmap_remove_key hf h c k = Some (h', c') \<and>
           pm_ok hf h' c' (filter (\<lambda>e. fst (snd e) \<noteq> k) es)"
proof (cases "entry_of es k")
  case None
  then have "poolmap_remove_key hf h c k = Some (h, c)"
    by (simp add: poolmap_remove_key_def poolmap_find_ok[OF ok])
  moreover have "filter (\<lambda>e. fst (snd e) \<noteq> k) es = es"
    using None by (auto simp: filter_id_conv entry_of_None image_iff)
  ultimately show ?thesis using ok by auto
next
  case (Some r)
  obtain x v where r: "r = (x, v)" by force
  obtain us vs where sp: "es = us @ (x, k, v) # vs" "entry_of us k = None"
    using entry_split[of es k x v] Some r by blast
  note ok' = ok[unfolded sp(1)]
  obtain h' c' where rm: "poolmap_remove_value h c x = (h', c')" "pm_ok hf h' c' (us @ vs)"
    using poolmap_remove_value_ok[OF ok'] by blast
  obtain fs where h: "hash_ok hf h c (map fst us @ x # map fst vs) fs"
    using ok' by (auto simp: pm_ok_def)
  then have d: "distinct (map (ikey h) (map fst us @ x # map fst vs))" unfolding hash_ok_def by blast
  have keys: "fst (snd e) = ikey h (fst e)" if "e \<in> set es" for e
    using pm_okD[OF ok, of "fst e" "fst (snd e)" "snd (snd e)"] that by simp
  have kx: "ikey h x = k" using pm_okD[OF ok', of x k v] by simp
  have "fst (snd e) \<noteq> k" if "e \<in> set (us @ vs)" for e
  proof -
    have "ikey h x \<notin> ikey h ` fst ` set (us @ vs)" using d by auto
    then have "ikey h (fst e) \<noteq> ikey h x" using that by (metis imageI)
    then show ?thesis using keys[of e] that kx sp(1) by auto
  qed
  then have "filter (\<lambda>e. fst (snd e) \<noteq> k) es = us @ vs" by (auto simp: sp(1) filter_id_conv)
  moreover have "x \<noteq> endItem c" using pm_ok_facts(1)[OF ok'] by auto
  ultimately show ?thesis using rm Some r
    by (simp add: poolmap_remove_key_def poolmap_find_ok[OF ok])
qed

section \<open>Pool maps as finite maps\<close>

definition pm_rel :: "('k \<Rightarrow> nat) \<Rightarrow> ('k, 'v) pmap_heap \<times> hcont \<Rightarrow> ('k \<Rightarrow> 'v option) \<Rightarrow> bool" where
  "pm_rel hf s m \<longleftrightarrow> (\<exists>es. pm_ok hf (fst s) (snd s) es \<and> (\<forall>k. m k = map_option snd (entry_of es k)))"

definition pm_look :: "('k \<Rightarrow> nat) \<Rightarrow> 'k \<Rightarrow> ('k, 'v) pmap_heap \<times> hcont \<Rightarrow> 'v option option" where
  "pm_look hf k s = map_option (\<lambda>it. if it = endItem (snd s) then None else Some (pval (fst s) it))
     (poolmap_find hf (fst s) (snd s) k)"

text \<open>\<^verbatim>\<open>map.append(k) = v\<close>\<close>

definition pm_ins ::
    "('k \<Rightarrow> nat) \<Rightarrow> 'v \<Rightarrow> 'k \<Rightarrow> 'v \<Rightarrow> ('k, 'v) pmap_heap \<times> hcont \<Rightarrow> (('k, 'v) pmap_heap \<times> hcont) option" where
  "pm_ins hf v0 k v s =
     map_option (\<lambda>(h, c, i). (poolmap_set h i v, c)) (poolmap_append hf v0 (fst s) (snd s) k)"

definition pm_del ::
    "('k \<Rightarrow> nat) \<Rightarrow> 'k \<Rightarrow> ('k, 'v) pmap_heap \<times> hcont \<Rightarrow> (('k, 'v) pmap_heap \<times> hcont) option" where
  "pm_del hf k s = poolmap_remove_key hf (fst s) (snd s) k"

lemma pm_relE:
  assumes "pm_rel hf s m"
  obtains h c es where "s = (h, c)" "pm_ok hf h c es" "\<And>k. m k = map_option snd (entry_of es k)"
proof -
  obtain es where "pm_ok hf (fst s) (snd s) es" "\<forall>k. m k = map_option snd (entry_of es k)"
    using assms by (auto simp: pm_rel_def)
  then show ?thesis using that[of "fst s" "snd s" es] by simp
qed

lemma pm_look_rel:
  assumes "pm_rel hf s m"
  shows "pm_look hf k s = Some (m k)"
proof -
  obtain h c es where s: "s = (h, c)" and ok: "pm_ok hf h c es"
    and m: "\<And>k. m k = map_option snd (entry_of es k)"
    using assms by (rule pm_relE) (rule that)
  show ?thesis
  proof (cases "entry_of es k")
    case None
    then show ?thesis by (simp add: pm_look_def s m poolmap_find_ok[OF ok])
  next
    case (Some r)
    obtain x v where r: "r = (x, v)" by force
    have e: "(x, k, v) \<in> set es" using entry_of_Some Some r by metis
    then have "x \<noteq> endItem c" using pm_ok_facts(1)[OF ok] by force
    then show ?thesis using pm_okD[OF ok e] Some r by (simp add: pm_look_def s m poolmap_find_ok[OF ok])
  qed
qed

lemma pm_ins_rel:
  assumes "pm_rel hf s m"
  shows "\<exists>s'. pm_ins hf v0 k v s = Some s' \<and> pm_rel hf s' (m(k \<mapsto> v))"
proof -
  obtain h c es where s: "s = (h, c)" and ok: "pm_ok hf h c es"
    and m: "\<And>k. m k = map_option snd (entry_of es k)"
    using assms by (rule pm_relE) (rule that)
  show ?thesis
  proof (cases "entry_of es k")
    case None
    obtain h1 c1 i where a: "poolmap_append hf v0 h c k = Some (h1, c1, i)"
      "pm_ok hf h1 c1 (es @ [(i, k, v0)])"
      using poolmap_append_new_ok[OF ok None] by blast
    have ok1: "pm_ok hf (poolmap_set h1 i v) c1 (es @ [(i, k, v)])"
      using poolmap_set_ok[of hf h1 c1 es i k v0 "[]" v] a(2) by simp
    have "(m(k \<mapsto> v)) j = map_option snd (entry_of (es @ [(i, k, v)]) j)" for j
      using None by (auto simp: m entry_of_append split: option.splits)
    then have "pm_rel hf (poolmap_set h1 i v, c1) (m(k \<mapsto> v))"
      using ok1 unfolding pm_rel_def fst_conv snd_conv by blast
    moreover have "pm_ins hf v0 k v s = Some (poolmap_set h1 i v, c1)" by (simp add: pm_ins_def s a(1))
    ultimately show ?thesis by blast
  next
    case (Some r)
    obtain x w where r: "r = (x, w)" by force
    obtain us vs where sp: "es = us @ (x, k, w) # vs" "entry_of us k = None"
      using entry_split[of es k x w] Some r by blast
    have ok1: "pm_ok hf (poolmap_set h x v) c (us @ (x, k, v) # vs)"
      by (rule poolmap_set_ok[OF ok[unfolded sp(1)]])
    have "(m(k \<mapsto> v)) j = map_option snd (entry_of (us @ (x, k, v) # vs) j)" for j
      using sp(2) by (auto simp: m sp(1) entry_of_append split: option.splits)
    then have "pm_rel hf (poolmap_set h x v, c) (m(k \<mapsto> v))"
      using ok1 unfolding pm_rel_def fst_conv snd_conv by blast
    moreover have "pm_ins hf v0 k v s = Some (poolmap_set h x v, c)"
      using Some r by (simp add: pm_ins_def s poolmap_append_old_ok[OF ok])
    ultimately show ?thesis by blast
  qed
qed

lemma entry_of_filter:
  "entry_of (filter (\<lambda>e. fst (snd e) \<noteq> k) es) j = (if j = k then None else entry_of es j)"
  by (induction es) (auto simp: entry_of_def)

lemma pm_del_rel:
  assumes "pm_rel hf s m"
  shows "\<exists>s'. pm_del hf k s = Some s' \<and> pm_rel hf s' (m(k := None))"
proof -
  obtain h c es where s: "s = (h, c)" and ok: "pm_ok hf h c es"
    and m: "\<And>k. m k = map_option snd (entry_of es k)"
    using assms by (rule pm_relE) (rule that)
  obtain h1 c1 where r: "poolmap_remove_key hf h c k = Some (h1, c1)"
    "pm_ok hf h1 c1 (filter (\<lambda>e. fst (snd e) \<noteq> k) es)"
    using poolmap_remove_key_ok[OF ok] by blast
  have "(m(k := None)) j = map_option snd (entry_of (filter (\<lambda>e. fst (snd e) \<noteq> k) es) j)" for j
    by (simp add: m entry_of_filter)
  then have "pm_rel hf (h1, c1) (m(k := None))"
    using r(2) unfolding pm_rel_def fst_conv snd_conv by blast
  then show ?thesis using r(1) by (simp add: pm_del_def s)
qed

interpretation pmap: finite_map "pm_rel hf" "pm_look hf" "pm_ins hf v0" "pm_del hf" for hf v0
  by unfold_locales (fact pm_look_rel pm_ins_rel pm_del_rel)+

section \<open>Maps to evaluate on\<close>

definition pmap_heap0 :: "'k \<Rightarrow> 'v \<Rightarrow> ('k, 'v) pmap_heap" where
  "pmap_heap0 k v = \<lparr>brk = 1, prevp = \<lambda>_. null, nextp = \<lambda>_. null, ikey = \<lambda>_. k, icell = \<lambda>_. Slot null 0,
     nextCell = \<lambda>_. null, slots = \<lambda>_ _. null, pval = \<lambda>_. v\<rparr>"

definition poolmap0 :: "'k \<Rightarrow> 'v \<Rightarrow> nat \<Rightarrow> ('k, 'v) pmap_heap \<times> hcont" where
  "poolmap0 k v cap = poolmap_init (pmap_heap0 k v) cap"

lemma poolmap0_ok: "pm_ok hf (fst (poolmap0 k v cap)) (snd (poolmap0 k v cap)) []"
proof -
  obtain h c where i: "init_hcont (pmap_heap0 k v) cap = (h, c)" by fastforce
  have "hash_ok hf h c [] []" by (rule init_hcont_ok(1)[OF i]) (simp add: pmap_heap0_def)
  then show ?thesis by (auto simp: poolmap0_def poolmap_init_def i pm_ok_def)
qed

section \<open>Properties\<close>

text \<open>C6. After any history of \<^verbatim>\<open>append(key) = value\<close> and removals on a new \<^verbatim>\<open>PoolMap\<close> of any requested
  capacity, zero included, every operation has returned and \<^verbatim>\<open>find\<close> leads for every key to the value
  that the mathematical map with that history has.\<close>

theorem poolmap_history_correct:
  "Option.bind (foldo (case_map_op (pm_ins hf v0) (pm_del hf)) ops (poolmap0 k0 v1 cap)) (pm_look hf k)
     = Some (fold apply_op ops Map.empty k)"
proof (rule pmap.look_after_run)
  have "\<forall>k. Map.empty k = map_option snd (entry_of [] k)" by (simp add: entry_of_def)
  then show "pm_rel hf (poolmap0 k0 v1 cap) Map.empty"
    using poolmap0_ok[of hf k0 v1 cap] unfolding pm_rel_def by blast
qed

text \<open>\<^verbatim>\<open>PoolMap::append\<close> returns the reference of the existing value when the key is there and
  changes nothing; otherwise the new value is the default one, at the end. Removing through a value
  reference takes out exactly that entry; all other entries keep their addresses.\<close>

theorem poolmap_append_remove_correct:
  assumes "pm_ok hf h c (us @ (x, k, v) # vs)"
  shows "poolmap_append hf v0 h c k = Some (h, c, x) \<and>
         (case poolmap_remove_value h c x of (h', c') \<Rightarrow> pm_ok hf h' c' (us @ vs)) \<and>
         (j \<notin> (fst \<circ> snd) ` set (us @ (x, k, v) # vs) \<longrightarrow>
           (\<exists>h' c' i. poolmap_append hf v0 h c j = Some (h', c', i) \<and>
              pm_ok hf h' c' (us @ (x, k, v) # vs @ [(i, j, v0)])))"
proof (intro conjI impI)
  have d: "distinct (map fst (us @ (x, k, v) # vs))" by (rule pm_ok_facts(2)[OF assms])
  have kx: "ikey h x = k" using pm_okD[OF assms, of x k v] by simp
  obtain fs where h: "hash_ok hf h c (map fst us @ x # map fst vs) fs"
    using assms by (auto simp: pm_ok_def)
  then have dk: "distinct (map (ikey h) (map fst us @ x # map fst vs))" unfolding hash_ok_def by blast
  have "k \<notin> (fst \<circ> snd) ` set us"
  proof
    assume "k \<in> (fst \<circ> snd) ` set us"
    then obtain y w where y: "(y, k, w) \<in> set us" by force
    then have "ikey h y = k" using pm_okD[OF assms, of y k w] by simp
    with dk kx y show False by force
  qed
  then have "entry_of us k = None" by (simp add: entry_of_None)
  then have "entry_of (us @ (x, k, v) # vs) k = Some (x, v)"
    unfolding entry_of_append by (simp add: entry_of_def)
  then show "poolmap_append hf v0 h c k = Some (h, c, x)" by (rule poolmap_append_old_ok[OF assms])
  show "case poolmap_remove_value h c x of (h', c') \<Rightarrow> pm_ok hf h' c' (us @ vs)"
    using poolmap_remove_value_ok[OF assms] by auto
  assume "j \<notin> (fst \<circ> snd) ` set (us @ (x, k, v) # vs)"
  then have "entry_of (us @ (x, k, v) # vs) j = None" by (simp add: entry_of_None)
  from poolmap_append_new_ok[OF assms this, of v0]
  show "\<exists>h' c' i. poolmap_append hf v0 h c j = Some (h', c', i) \<and>
      pm_ok hf h' c' (us @ (x, k, v) # vs @ [(i, j, v0)])" by fastforce
qed

theorem poolmap_append_remove_correct_witness:
  "\<exists>h c x y h' c'. pm_ok (\<lambda>_. 0) h c ([(x, 1, 0)] @ (y, 2, 0) # []) \<and>
     poolmap_append (\<lambda>_. 0) 0 h c (2 :: nat) = Some (h, c, y) \<and>
     poolmap_remove_value h c y = (h', c') \<and> pm_ok (\<lambda>_. 0) h' c' [(x, 1, 0 :: nat)]"
proof -
  let ?hf = "\<lambda>_ :: nat. 0 :: nat"
  have new: "entry_of [] k = None" for k :: nat by (simp add: entry_of_def)
  obtain h1 c1 x where a: "pm_ok ?hf h1 c1 ([] @ [(x, 1, 0 :: nat)])"
    using poolmap_append_new_ok[OF poolmap0_ok[of ?hf 0 0 0] new[of 1], of "0 :: nat"] by blast
  have "entry_of ([] @ [(x, 1, 0 :: nat)]) (2 :: nat) = None" by simp
  from poolmap_append_new_ok[OF a this, of 0] obtain h c y
    where ok: "pm_ok ?hf h c ([(x, 1, 0 :: nat)] @ (y, 2, 0) # [])" by auto
  obtain h' c' where r: "poolmap_remove_value h c y = (h', c')" by fastforce
  have "poolmap_append ?hf 0 h c 2 = Some (h, c, y)" "pm_ok ?hf h' c' [(x, 1, 0)]"
    using poolmap_append_remove_correct[OF ok, of 0 0] r by auto
  with ok r show ?thesis by blast
qed

end
