(* ===== verification/Nstd_Avl.thy ===== *)
theory Nstd_Avl
  imports Nstd_Prelude
begin

text \<open>
  The shape of the search trees of Map and MultiMap without the heap: trees of item addresses,
  their balance, and contexts (the path from a place in the tree up to its root), which describe
  the state of a rebalancing loop: below the loop the tree is repaired, above it the items still
  carry the heights from before the change.
\<close>

section \<open>Trees and balance\<close>

datatype atree = Lf | Nd atree addr atree

fun ht :: "atree \<Rightarrow> nat" where
  "ht Lf = 0"
| "ht (Nd l x r) = max (ht l) (ht r) + 1"

fun inord :: "atree \<Rightarrow> addr list" where
  "inord Lf = []"
| "inord (Nd l x r) = inord l @ x # inord r"

fun avl :: "atree \<Rightarrow> bool" where
  "avl Lf = True"
| "avl (Nd l x r) \<longleftrightarrow> avl l \<and> avl r \<and> ht l \<le> ht r + 1 \<and> ht r \<le> ht l + 1"

section \<open>Contexts\<close>

text \<open>\<open>CL x r\<close>: the hole is the left child of \<open>x\<close>; \<open>CR l x\<close>: it is the right child.\<close>

datatype crumb = CL addr atree | CR atree addr

fun owner :: "crumb list \<Rightarrow> addr" where
  "owner [] = null"
| "owner (CL x r # cs) = x"
| "owner (CR l x # cs) = x"

fun plug :: "crumb list \<Rightarrow> atree \<Rightarrow> atree" where
  "plug [] t = t"
| "plug (CL x r # cs) t = plug cs (Nd t x r)"
| "plug (CR l x # cs) t = plug cs (Nd l x t)"

fun ctx_l :: "crumb list \<Rightarrow> addr list" where
  "ctx_l [] = []"
| "ctx_l (CL x r # cs) = ctx_l cs"
| "ctx_l (CR l x # cs) = ctx_l cs @ inord l @ [x]"

fun ctx_r :: "crumb list \<Rightarrow> addr list" where
  "ctx_r [] = []"
| "ctx_r (CL x r # cs) = x # inord r @ ctx_r cs"
| "ctx_r (CR l x # cs) = ctx_r cs"

text \<open>The height of a whole whose hole has height \<open>n\<close>, one crumb at a time.\<close>

fun crumb_ht :: "crumb \<Rightarrow> nat \<Rightarrow> nat" where
  "crumb_ht (CL x r) n = max n (ht r) + 1"
| "crumb_ht (CR l x) n = max (ht l) n + 1"

fun crumb_ok :: "crumb \<Rightarrow> nat \<Rightarrow> bool" where
  "crumb_ok (CL x r) n \<longleftrightarrow> avl r \<and> n \<le> ht r + 1 \<and> ht r \<le> n + 1"
| "crumb_ok (CR l x) n \<longleftrightarrow> avl l \<and> ht l \<le> n + 1 \<and> n \<le> ht l + 1"

fun ctx_ok :: "crumb list \<Rightarrow> nat \<Rightarrow> bool" where
  "ctx_ok [] n = True"
| "ctx_ok (c # cs) n \<longleftrightarrow> crumb_ok c n \<and> ctx_ok cs (crumb_ht c n)"

fun plug1 :: "crumb \<Rightarrow> atree \<Rightarrow> atree" where
  "plug1 (CL x r) t = Nd t x r"
| "plug1 (CR l x) t = Nd l x t"

lemma plug_Cons: "plug (c # cs) t = plug cs (plug1 c t)"
  by (cases c) auto

lemma inord_plug: "inord (plug cs t) = ctx_l cs @ inord t @ ctx_r cs"
  by (induction cs t rule: plug.induct) auto

lemma ht_plug1: "ht (plug1 c t) = crumb_ht c (ht t)"
  by (cases c) auto

lemma avl_plug1: "avl (plug1 c t) \<longleftrightarrow> avl t \<and> crumb_ok c (ht t)"
  by (cases c) auto

lemma avl_plug: "avl (plug cs t) \<longleftrightarrow> avl t \<and> ctx_ok cs (ht t)"
  by (induction cs arbitrary: t) (auto simp: plug_Cons avl_plug1 ht_plug1)

lemma plug_append: "plug (cs @ ds) t = plug ds (plug cs t)"
  by (induction cs arbitrary: t) (auto simp: plug_Cons)

lemma ctx_append [simp]:
  "ctx_l (cs @ ds) = ctx_l ds @ ctx_l cs" "ctx_r (cs @ ds) = ctx_r cs @ ctx_r ds"
proof (induction cs)
  case (Cons c cs)
  { case 1 then show ?case using Cons by (cases c) auto }
  { case 2 then show ?case using Cons by (cases c) auto }
qed auto

text \<open>Every item of a tree stands in some context.\<close>

lemma tree_split:
  assumes "x \<in> set (inord t)"
  shows "\<exists>cs l r. t = plug cs (Nd l x r)"
  using assms
proof (induction t)
  case (Nd l y r)
  show ?case
  proof (cases "x = y")
    case True
    then have "Nd l y r = plug [] (Nd l x r)" by simp
    then show ?thesis by blast
  next
    case False
    with Nd.prems consider "x \<in> set (inord l)" | "x \<in> set (inord r)" by auto
    then show ?thesis
    proof cases
      case 1
      then obtain cs a b where "l = plug cs (Nd a x b)" using Nd.IH(1) by blast
      then have "Nd l y r = plug (cs @ [CL y r]) (Nd a x b)" by (simp add: plug_append)
      then show ?thesis by blast
    next
      case 2
      then obtain cs a b where "r = plug cs (Nd a x b)" using Nd.IH(2) by blast
      then have "Nd l y r = plug (cs @ [CR l y]) (Nd a x b)" by (simp add: plug_append)
      then show ?thesis by blast
    qed
  qed
qed simp

text \<open>The first and the last item hang at the end of a path that only goes left, or right.\<close>

lemma leftmost_split:
  assumes "inord t = x # xs"
  shows "\<exists>cs r. t = plug cs (Nd Lf x r) \<and> ctx_l cs = []"
  using assms
proof (induction t arbitrary: xs)
  case (Nd l y r)
  show ?case
  proof (cases "inord l")
    case Nil
    then have "l = Lf" "y = x" using Nd.prems by (cases l; auto)+
    then have "Nd l y r = plug [] (Nd Lf x r) \<and> ctx_l [] = []" by simp
    then show ?thesis by blast
  next
    case (Cons z zs)
    then have "inord l = x # zs" using Nd.prems by simp
    from Nd.IH(1)[OF this] obtain cs a where "l = plug cs (Nd Lf x a)" "ctx_l cs = []" by blast
    then have "Nd l y r = plug (cs @ [CL y r]) (Nd Lf x a) \<and> ctx_l (cs @ [CL y r]) = []"
      by (simp add: plug_append)
    then show ?thesis by blast
  qed
qed simp

lemma rightmost_split:
  assumes "inord t = xs @ [x]"
  shows "\<exists>cs l. t = plug cs (Nd l x Lf) \<and> ctx_r cs = []"
  using assms
proof (induction t arbitrary: xs)
  case (Nd l y r)
  show ?case
  proof (cases "inord r" rule: rev_cases)
    case Nil
    then have "r = Lf" "y = x" using Nd.prems by (cases r; auto)+
    then have "Nd l y r = plug [] (Nd l x Lf) \<and> ctx_r [] = []" by simp
    then show ?thesis by blast
  next
    case (snoc zs z)
    then have "inord r = zs @ [x]" using Nd.prems by simp
    from Nd.IH(2)[OF this] obtain cs a where "r = plug cs (Nd a x Lf)" "ctx_r cs = []" by blast
    then have "Nd l y r = plug (cs @ [CR l y]) (Nd a x Lf) \<and> ctx_r (cs @ [CR l y]) = []"
      by (simp add: plug_append)
    then show ?thesis by blast
  qed
qed simp

section \<open>Rebalancing one item\<close>

fun rot_r :: "atree \<Rightarrow> atree" where
  "rot_r (Nd (Nd a y b) x c) = Nd a y (Nd b x c)"
| "rot_r t = t"

fun rot_l :: "atree \<Rightarrow> atree" where
  "rot_l (Nd a x (Nd b y c)) = Nd (Nd a x b) y c"
| "rot_l t = t"

fun shift_r :: "atree \<Rightarrow> atree" where
  "shift_r (Nd (Nd a y b) x c) =
     (if ht b = ht a + 1 then rot_r (Nd (rot_l (Nd a y b)) x c) else rot_r (Nd (Nd a y b) x c))"
| "shift_r t = t"

fun shift_l :: "atree \<Rightarrow> atree" where
  "shift_l (Nd a x (Nd b y c)) =
     (if ht b = ht c + 1 then rot_l (Nd a x (rot_r (Nd b y c))) else rot_l (Nd a x (Nd b y c)))"
| "shift_l t = t"

fun rebal_t :: "atree \<Rightarrow> atree" where
  "rebal_t (Nd l x r) =
     (if ht l > ht r + 1 then shift_r (Nd l x r)
      else if ht r > ht l + 1 then shift_l (Nd l x r)
      else Nd l x r)"
| "rebal_t Lf = Lf"

lemma rebal_t_left_heavy:
  assumes "avl l" "avl r" "ht l = ht r + 2"
  shows "avl (shift_r (Nd l x r)) \<and> inord (shift_r (Nd l x r)) = inord l @ x # inord r \<and>
    (ht (shift_r (Nd l x r)) = ht l \<or> ht (shift_r (Nd l x r)) = ht l + 1)"
proof (cases l)
  case Lf
  with assms show ?thesis by simp
next
  case l: (Nd a y b)
  show ?thesis
  proof (cases "ht b = ht a + 1")
    case False
    then show ?thesis using assms l by (auto simp: max_def split: if_splits)
  next
    case True
    then obtain c z d where b: "b = Nd c z d" by (cases b) auto
    show ?thesis using assms True unfolding l b by (auto simp: max_def split: if_splits)
  qed
qed

lemma rebal_t_right_heavy:
  assumes "avl l" "avl r" "ht r = ht l + 2"
  shows "avl (shift_l (Nd l x r)) \<and> inord (shift_l (Nd l x r)) = inord l @ x # inord r \<and>
    (ht (shift_l (Nd l x r)) = ht r \<or> ht (shift_l (Nd l x r)) = ht r + 1)"
proof (cases r)
  case Lf
  with assms show ?thesis by simp
next
  case r: (Nd b y c)
  show ?thesis
  proof (cases "ht b = ht c + 1")
    case False
    then show ?thesis using assms r by (auto simp: max_def split: if_splits)
  next
    case True
    then obtain d z e where b: "b = Nd d z e" by (cases b) auto
    show ?thesis using assms True unfolding r b by (auto simp: max_def split: if_splits)
  qed
qed

text \<open>
  One step of a rebalancing loop: the hole had height \<open>n\<close> and now holds a balanced tree whose
  height differs by at most one; then so does the rebalanced next item.
\<close>

lemma rebal_t_step:
  assumes "avl t" "crumb_ok c n" "ht t \<le> n + 1" "n \<le> ht t + 1"
  shows "avl (rebal_t (plug1 c t))" "inord (rebal_t (plug1 c t)) = inord (plug1 c t)"
    "ht (rebal_t (plug1 c t)) \<le> crumb_ht c n + 1" "crumb_ht c n \<le> ht (rebal_t (plug1 c t)) + 1"
    "rebal_t (plug1 c t) \<noteq> Lf"
proof -
  obtain l x r where p: "plug1 c t = Nd l x r" by (cases c) auto
  have lr: "avl l" "avl r" "ht l \<le> ht r + 2" "ht r \<le> ht l + 2"
    using p assms by (cases c; auto)+
  consider "ht l = ht r + 2" | "ht r = ht l + 2" | "ht l \<le> ht r + 1" "ht r \<le> ht l + 1"
    using lr by linarith
  then have "avl (rebal_t (plug1 c t)) \<and> inord (rebal_t (plug1 c t)) = inord (plug1 c t) \<and>
    ht (rebal_t (plug1 c t)) \<le> crumb_ht c n + 1 \<and> crumb_ht c n \<le> ht (rebal_t (plug1 c t)) + 1"
  proof cases
    case 1
    then have "rebal_t (plug1 c t) = shift_r (Nd l x r)" by (simp add: p)
    then show ?thesis using rebal_t_left_heavy[OF lr(1,2) 1, of x] p assms 1
      by (cases c) (auto simp: max_def split: if_splits)
  next
    case 2
    then have "rebal_t (plug1 c t) = shift_l (Nd l x r)" by (simp add: p)
    then show ?thesis using rebal_t_right_heavy[OF lr(1,2) 2, of x] p assms 2
      by (cases c) (auto simp: max_def split: if_splits)
  next
    case 3
    then have "rebal_t (plug1 c t) = Nd l x r" by (simp add: p)
    then show ?thesis using p assms lr 3
      by (cases c) (auto simp: max_def split: if_splits)
  qed
  then show "avl (rebal_t (plug1 c t))" "inord (rebal_t (plug1 c t)) = inord (plug1 c t)"
    "ht (rebal_t (plug1 c t)) \<le> crumb_ht c n + 1" "crumb_ht c n \<le> ht (rebal_t (plug1 c t)) + 1"
    by auto
  from \<open>inord (rebal_t (plug1 c t)) = inord (plug1 c t)\<close> show "rebal_t (plug1 c t) \<noteq> Lf"
    by (auto simp: p)
qed

text \<open>A balanced item stays as it is.\<close>

lemma rebal_t_id: "avl t \<Longrightarrow> rebal_t t = t"
  by (cases t) auto

end
