(* ===== verification/Nstd_AvlTree.thy ===== *)
theory Nstd_AvlTree
  imports Nstd_Links Nstd_Avl
begin

text \<open>
  The search tree that Map and MultiMap (include/nstd/Map.hpp, MultiMap.hpp) build over their
  linked items, with its pointers: \<^verbatim>\<open>parent\<close>, \<^verbatim>\<open>left\<close>, \<^verbatim>\<open>right\<close> and the stored \<^verbatim>\<open>height\<close> and
  \<^verbatim>\<open>slope\<close>. A value of type \<^verbatim>\<open>Item**\<close> or \<^verbatim>\<open>Item*&\<close> is a cell: the root of the container or a
  child pointer of an item. The keys and values live in the same heap.
\<close>

section \<open>State\<close>

datatype tcell = RootCell | LeftOf addr | RightOf addr

record ('k, 'v) tree_heap = links +
  tkey :: "addr \<Rightarrow> 'k"
  tval :: "addr \<Rightarrow> 'v"
  parent :: "addr \<Rightarrow> addr"
  left :: "addr \<Rightarrow> addr"
  right :: "addr \<Rightarrow> addr"
  height :: "addr \<Rightarrow> nat"
  slope :: "addr \<Rightarrow> int"

record tcont = cont +
  troot :: addr

section \<open>Operations\<close>

definition get_cell :: "('k, 'v) tree_heap \<Rightarrow> tcont \<Rightarrow> tcell \<Rightarrow> addr" where
  "get_cell h c cell = (case cell of RootCell \<Rightarrow> troot c | LeftOf a \<Rightarrow> left h a | RightOf a \<Rightarrow> right h a)"

definition set_cell ::
    "('k, 'v) tree_heap \<Rightarrow> tcont \<Rightarrow> tcell \<Rightarrow> addr \<Rightarrow> ('k, 'v) tree_heap \<times> tcont" where
  "set_cell h c cell x =
     (case cell of
        RootCell \<Rightarrow> (h, c\<lparr>troot := x\<rparr>)
      | LeftOf a \<Rightarrow> (h\<lparr>left := (left h)(a := x)\<rparr>, c)
      | RightOf a \<Rightarrow> (h\<lparr>right := (right h)(a := x)\<rparr>, c))"

definition update_height_slope :: "('k, 'v) tree_heap \<Rightarrow> addr \<Rightarrow> ('k, 'v) tree_heap" where
  "update_height_slope h item =
     (let leftHeight = (if left h item \<noteq> null then height h (left h item) else 0);
          rightHeight = (if right h item \<noteq> null then height h (right h item) else 0);
          h1 = h\<lparr>slope := (slope h)(item := int leftHeight - int rightHeight)\<rparr>
      in h1\<lparr>height := (height h1)(item :=
            (if leftHeight > rightHeight then leftHeight else rightHeight) + 1)\<rparr>)"

definition rotr :: "('k, 'v) tree_heap \<Rightarrow> tcont \<Rightarrow> tcell \<Rightarrow> ('k, 'v) tree_heap \<times> tcont" where
  "rotr h c cell =
     (let oldTop = get_cell h c cell;
          result = left h oldTop;
          tmp = right h result;
          h1 = h\<lparr>parent := (parent h)(result := parent h oldTop)\<rparr>;
          h2 = h1\<lparr>right := (right h1)(result := oldTop)\<rparr>;
          h3 = h2\<lparr>left := (left h2)(oldTop := tmp)\<rparr>;
          h4 = (if tmp \<noteq> null then h3\<lparr>parent := (parent h3)(tmp := oldTop)\<rparr> else h3);
          h5 = h4\<lparr>parent := (parent h4)(oldTop := result)\<rparr>;
          (h6, c6) = set_cell h5 c cell result;
          h7 = update_height_slope h6 oldTop
      in (update_height_slope h7 result, c6))"

definition rotl :: "('k, 'v) tree_heap \<Rightarrow> tcont \<Rightarrow> tcell \<Rightarrow> ('k, 'v) tree_heap \<times> tcont" where
  "rotl h c cell =
     (let oldTop = get_cell h c cell;
          result = right h oldTop;
          tmp = left h result;
          h1 = h\<lparr>parent := (parent h)(result := parent h oldTop)\<rparr>;
          h2 = h1\<lparr>left := (left h1)(result := oldTop)\<rparr>;
          h3 = h2\<lparr>right := (right h2)(oldTop := tmp)\<rparr>;
          h4 = (if tmp \<noteq> null then h3\<lparr>parent := (parent h3)(tmp := oldTop)\<rparr> else h3);
          h5 = h4\<lparr>parent := (parent h4)(oldTop := result)\<rparr>;
          (h6, c6) = set_cell h5 c cell result;
          h7 = update_height_slope h6 oldTop
      in (update_height_slope h7 result, c6))"

definition shiftr :: "('k, 'v) tree_heap \<Rightarrow> tcont \<Rightarrow> tcell \<Rightarrow> ('k, 'v) tree_heap \<times> tcont" where
  "shiftr h c cell =
     (let oldTop = get_cell h c cell;
          (h1, c1) = (if slope h (left h oldTop) = - 1 then rotl h c (LeftOf oldTop) else (h, c))
      in rotr h1 c1 cell)"

definition shiftl :: "('k, 'v) tree_heap \<Rightarrow> tcont \<Rightarrow> tcell \<Rightarrow> ('k, 'v) tree_heap \<times> tcont" where
  "shiftl h c cell =
     (let oldTop = get_cell h c cell;
          (h1, c1) = (if slope h (right h oldTop) = 1 then rotr h c (RightOf oldTop) else (h, c))
      in rotl h1 c1 cell)"

text \<open>\<^verbatim>\<open>parent ? (parent->left == item ? parent->left : parent->right) : root\<close>\<close>

definition cell_at :: "('k, 'v) tree_heap \<Rightarrow> addr \<Rightarrow> tcell" where
  "cell_at h item =
     (let p = parent h item in
      if p \<noteq> null then (if left h p = item then LeftOf p else RightOf p) else RootCell)"

definition rebal :: "('k, 'v) tree_heap \<Rightarrow> tcont \<Rightarrow> addr \<Rightarrow> ('k, 'v) tree_heap \<times> tcont \<times> addr" where
  "rebal h c item =
     (if slope h item > 1 then
        (let cell = cell_at h item; (h1, c1) = shiftr h c cell in (h1, c1, get_cell h1 c1 cell))
      else if slope h item < - 1 then
        (let cell = cell_at h item; (h1, c1) = shiftl h c cell in (h1, c1, get_cell h1 c1 cell))
      else (h, c, item))"

text \<open>
  The loop of \<^verbatim>\<open>insert\<close> and, after \<^verbatim>\<open>rebalParentUpwards:\<close>, of \<^verbatim>\<open>remove\<close>. (\<^verbatim>\<open>insert\<close> writes it as a
  do-while, which it enters with a parent only.)
\<close>

partial_function (option) rebal_upwards ::
    "('k, 'v) tree_heap \<Rightarrow> tcont \<Rightarrow> addr \<Rightarrow> (('k, 'v) tree_heap \<times> tcont) option" where
  "rebal_upwards h c par =
     (if par = null then Some (h, c)
      else (let oldHeight = height h par;
                (h1, c1, p) = rebal (update_height_slope h par) c par
            in if oldHeight = height h1 p then Some (h1, c1)
               else rebal_upwards h1 c1 (parent h1 p)))"

text \<open>The loop after \<^verbatim>\<open>rebalParent:\<close>; it returns the item to go on from.\<close>

partial_function (option) rebal_inner ::
    "('k, 'v) tree_heap \<Rightarrow> tcont \<Rightarrow> addr \<Rightarrow> tcell \<Rightarrow> addr
     \<Rightarrow> (('k, 'v) tree_heap \<times> tcont \<times> addr) option" where
  "rebal_inner h c par cell origParent =
     (let oldHeight = height h par;
          (h1, c1, p) = rebal (update_height_slope h par) c par
      in if oldHeight = height h1 p then
           (let q = get_cell h1 c1 cell;
                (h2, c2, q') = rebal (update_height_slope h1 q) c1 q
            in Some (h2, c2, parent h2 q'))
         else if parent h1 p \<noteq> origParent then rebal_inner h1 c1 (parent h1 p) cell origParent
         else Some (h1, c1, parent h1 p))"

text \<open>The unlinking of \<^verbatim>\<open>remove\<close> from the tree, up to the end of the loops.\<close>

definition tree_unlink :: "('k, 'v) tree_heap \<Rightarrow> tcont \<Rightarrow> addr \<Rightarrow> (('k, 'v) tree_heap \<times> tcont) option" where
  "tree_unlink h c item =
     (let origParent = parent h item;
          cell = (if origParent \<noteq> null
                  then (if item = left h origParent then LeftOf origParent else RightOf origParent)
                  else RootCell);
          l = left h item;
          r = right h item
      in if l = null \<and> r = null then
           (let (h1, c1) = set_cell h c cell null in rebal_upwards h1 c1 origParent)
         else if l = null then
           (let (h1, c1) = set_cell h c cell r
            in rebal_upwards (h1\<lparr>parent := (parent h1)(r := origParent)\<rparr>) c1 origParent)
         else if r = null then
           (let (h1, c1) = set_cell h c cell l
            in rebal_upwards (h1\<lparr>parent := (parent h1)(l := origParent)\<rparr>) c1 origParent)
         else if height h l < height h r then
           (let next = nextp h item; nextParent = parent h next in
            if nextParent = item then
              (let (h1, c1) = set_cell h c cell next;
                   h2 = h1\<lparr>parent := (parent h1)(next := origParent)\<rparr>;
                   h3 = h2\<lparr>left := (left h2)(next := l)\<rparr>;
                   h4 = h3\<lparr>parent := (parent h3)(l := next)\<rparr>
               in Option.bind (rebal_inner h4 c1 next cell origParent)
                    (\<lambda>(h5, c5, p). rebal_upwards h5 c5 p))
            else
              (let nextRight = right h next;
                   h1 = h\<lparr>left := (left h)(nextParent := nextRight)\<rparr>;
                   h2 = (if nextRight \<noteq> null
                         then h1\<lparr>parent := (parent h1)(nextRight := nextParent)\<rparr> else h1);
                   (h3, c3) = set_cell h2 c cell next;
                   h4 = h3\<lparr>parent := (parent h3)(next := origParent)\<rparr>;
                   h5 = h4\<lparr>left := (left h4)(next := l)\<rparr>;
                   h6 = h5\<lparr>parent := (parent h5)(l := next)\<rparr>;
                   h7 = h6\<lparr>right := (right h6)(next := r)\<rparr>;
                   h8 = h7\<lparr>parent := (parent h7)(r := next)\<rparr>
               in Option.bind (rebal_inner h8 c3 nextParent cell origParent)
                    (\<lambda>(h9, c9, p). rebal_upwards h9 c9 p)))
         else
           (let prev = prevp h item; prevParent = parent h prev in
            if prevParent = item then
              (let (h1, c1) = set_cell h c cell prev;
                   h2 = h1\<lparr>parent := (parent h1)(prev := origParent)\<rparr>;
                   h3 = h2\<lparr>right := (right h2)(prev := r)\<rparr>;
                   h4 = h3\<lparr>parent := (parent h3)(r := prev)\<rparr>
               in Option.bind (rebal_inner h4 c1 prev cell origParent)
                    (\<lambda>(h5, c5, p). rebal_upwards h5 c5 p))
            else
              (let prevLeft = left h prev;
                   h1 = h\<lparr>right := (right h)(prevParent := prevLeft)\<rparr>;
                   h2 = (if prevLeft \<noteq> null
                         then h1\<lparr>parent := (parent h1)(prevLeft := prevParent)\<rparr> else h1);
                   (h3, c3) = set_cell h2 c cell prev;
                   h4 = h3\<lparr>parent := (parent h3)(prev := origParent)\<rparr>;
                   h5 = h4\<lparr>right := (right h4)(prev := r)\<rparr>;
                   h6 = h5\<lparr>parent := (parent h5)(r := prev)\<rparr>;
                   h7 = h6\<lparr>left := (left h6)(prev := l)\<rparr>;
                   h8 = h7\<lparr>parent := (parent h7)(l := prev)\<rparr>
               in Option.bind (rebal_inner h8 c3 prevParent cell origParent)
                    (\<lambda>(h9, c9, p). rebal_upwards h9 c9 p))))"

definition tree_remove ::
    "('k, 'v) tree_heap \<Rightarrow> tcont \<Rightarrow> addr \<Rightarrow> (('k, 'v) tree_heap \<times> tcont \<times> addr) option" where
  "tree_remove h c item =
     Option.bind (tree_unlink h c item) (\<lambda>(h1, c1).
       let (h2, c2) = unlink h1 c1 item;
           (h3, c3) = release h2 c2 item
       in Some (h3, c3, nextp h3 item))"

section \<open>What the pointers represent\<close>

text \<open>The subtree at \<open>a\<close> under \<open>p\<close> is \<open>t\<close>, and its items store the right heights and slopes.\<close>

fun ptree :: "('k, 'v) tree_heap \<Rightarrow> addr \<Rightarrow> atree \<Rightarrow> addr \<Rightarrow> bool" where
  "ptree h p Lf a \<longleftrightarrow> a = null"
| "ptree h p (Nd l x r) a \<longleftrightarrow> a = x \<and> x \<noteq> null \<and> parent h x = p \<and>
     ptree h x l (left h x) \<and> ptree h x r (right h x) \<and>
     height h x = ht (Nd l x r) \<and> slope h x = int (ht l) - int (ht r)"

text \<open>The cell in which the hole of a context stands.\<close>

fun cell_of :: "crumb list \<Rightarrow> tcell" where
  "cell_of [] = RootCell"
| "cell_of (CL x r # cs) = LeftOf x"
| "cell_of (CR l x # cs) = RightOf x"

text \<open>The child that a crumb keeps.\<close>

fun sibling :: "('k, 'v) tree_heap \<Rightarrow> crumb \<Rightarrow> bool" where
  "sibling h (CL x r) \<longleftrightarrow> ptree h x r (right h x)"
| "sibling h (CR l x) \<longleftrightarrow> ptree h x l (left h x)"

fun crumb_slope :: "crumb \<Rightarrow> nat \<Rightarrow> int" where
  "crumb_slope (CL x r) n = int n - int (ht r)"
| "crumb_slope (CR l x) n = int (ht l) - int n"

text \<open>
  The context of a hole: its items store the values that are right if the hole has height \<open>n\<close>,
  but for the items of \<open>S\<close>, whose stored height and slope are stale.
\<close>

fun pctx :: "('k, 'v) tree_heap \<Rightarrow> tcont \<Rightarrow> addr set \<Rightarrow> crumb list \<Rightarrow> nat \<Rightarrow> bool" where
  "pctx h c S [] n \<longleftrightarrow> True"
| "pctx h c S (k # cs) n \<longleftrightarrow> (let x = owner (k # cs) in
     x \<noteq> null \<and> parent h x = owner cs \<and> get_cell h c (cell_of cs) = x \<and> sibling h k \<and>
     (x \<in> S \<or> height h x = crumb_ht k n \<and> slope h x = crumb_slope k n)) \<and>
     pctx h c S cs (crumb_ht k n)"

text \<open>All five tree fields outside \<open>A\<close>, and everything else, are the same.\<close>

definition tfields :: "('k, 'v) tree_heap \<Rightarrow> addr \<Rightarrow> addr \<times> addr \<times> addr \<times> nat \<times> int" where
  "tfields h a = (parent h a, left h a, right h a, height h a, slope h a)"

definition same_rest :: "('k, 'v) tree_heap \<Rightarrow> ('k, 'v) tree_heap \<Rightarrow> bool" where
  "same_rest h h' \<longleftrightarrow> brk h' = brk h \<and> prevp h' = prevp h \<and> nextp h' = nextp h \<and>
     tkey h' = tkey h \<and> tval h' = tval h"

definition tsame :: "('k, 'v) tree_heap \<Rightarrow> ('k, 'v) tree_heap \<Rightarrow> addr set \<Rightarrow> bool" where
  "tsame h h' A \<longleftrightarrow> same_rest h h' \<and> (\<forall>a. a \<notin> A \<longrightarrow> tfields h' a = tfields h a)"

lemma tsame_refl [simp]: "tsame h h A"
  by (simp add: tsame_def same_rest_def)

lemma tsame_trans: "tsame h h1 A \<Longrightarrow> tsame h1 h2 B \<Longrightarrow> A \<subseteq> C \<Longrightarrow> B \<subseteq> C \<Longrightarrow> tsame h h2 C"
  unfolding tsame_def same_rest_def by (metis (no_types, lifting) subsetD)

lemma same_rest_trans: "same_rest h h1 \<Longrightarrow> same_rest h1 h2 \<Longrightarrow> same_rest h h2"
  by (simp add: same_rest_def)

subsection \<open>Subtrees\<close>

fun root_of :: "atree \<Rightarrow> addr" where
  "root_of Lf = null"
| "root_of (Nd l x r) = x"

lemma ptree_root: "ptree h p t a \<Longrightarrow> a = root_of t"
  by (cases t) auto

lemma ptree_nonnull: "ptree h p t a \<Longrightarrow> null \<notin> set (inord t)"
  by (induction h p t a rule: ptree.induct) auto

lemma root_in: "t \<noteq> Lf \<Longrightarrow> root_of t \<in> set (inord t)"
  by (cases t) auto

lemma ptree_null: "ptree h p t a \<Longrightarrow> a = null \<longleftrightarrow> t = Lf"
  by (cases t) auto

lemma ptree_height: "ptree h p t a \<Longrightarrow> (if a \<noteq> null then height h a else 0) = ht t"
  by (cases t) auto

lemma ptree_frame:
  "ptree h p t a \<Longrightarrow> (\<And>x. x \<in> set (inord t) \<Longrightarrow> tfields h' x = tfields h x) \<Longrightarrow> ptree h' p t a"
  by (induction t arbitrary: p a) (auto simp: tfields_def)

lemma ptree_reparent:
  assumes pt: "ptree h p t a" and di: "distinct (inord t)"
    and f: "\<And>x. x \<in> set (inord t) \<Longrightarrow> x \<noteq> a \<Longrightarrow> tfields h' x = tfields h x"
    and a: "a \<noteq> null \<Longrightarrow> parent h' a = q \<and> left h' a = left h a \<and> right h' a = right h a \<and>
              height h' a = height h a \<and> slope h' a = slope h a"
  shows "ptree h' q t a"
proof (cases t)
  case Lf
  with pt show ?thesis by simp
next
  case (Nd l x r)
  have x: "a = x" "x \<noteq> null" using pt Nd by auto
  have "x \<notin> set (inord l)" "x \<notin> set (inord r)" using di Nd by auto
  then have fl: "tfields h' y = tfields h y" if "y \<in> set (inord l) \<union> set (inord r)" for y
    using f[of y] that Nd x by auto
  have "ptree h' x l (left h x)" by (rule ptree_frame[of h]) (use pt Nd fl in auto)
  moreover have "ptree h' x r (right h x)" by (rule ptree_frame[of h]) (use pt Nd fl in auto)
  ultimately show ?thesis using pt Nd a x by auto
qed

subsection \<open>Cells\<close>

lemma set_cell_rest [simp]:
  "parent (fst (set_cell h c cell v)) = parent h" "height (fst (set_cell h c cell v)) = height h"
  "slope (fst (set_cell h c cell v)) = slope h"
  "left (fst (set_cell h c cell v)) a = (if cell = LeftOf a then v else left h a)"
  "right (fst (set_cell h c cell v)) a = (if cell = RightOf a then v else right h a)"
  "troot (snd (set_cell h c cell v)) = (if cell = RootCell then v else troot c)"
  by (auto simp: set_cell_def split: tcell.splits)

lemma set_cell_same_rest: "same_rest h (fst (set_cell h c cell v))"
  by (simp add: set_cell_def same_rest_def split: tcell.splits)

lemma set_cell_cont: "same_cont c (snd (set_cell h c cell v))"
  by (simp add: set_cell_def same_cont_def split: tcell.splits)

lemma get_set_cell [simp]:
  "get_cell (fst (set_cell h c cell v)) (snd (set_cell h c cell v)) d = (if d = cell then v else get_cell h c d)"
  by (auto simp: get_cell_def set_cell_def split: tcell.splits)

lemma set_get_cell: "get_cell h c cell = v \<Longrightarrow> set_cell h c cell v = (h, c)"
  by (auto simp: get_cell_def set_cell_def split: tcell.splits)

definition cell_owner :: "tcell \<Rightarrow> addr set" where
  "cell_owner cell = (case cell of RootCell \<Rightarrow> {} | LeftOf a \<Rightarrow> {a} | RightOf a \<Rightarrow> {a})"

text \<open>The effect of a rotation below \<open>cell\<close>: outside the items \<open>A\<close> only the cell is written.\<close>

definition moved ::
    "('k, 'v) tree_heap \<Rightarrow> tcont \<Rightarrow> tcell \<Rightarrow> ('k, 'v) tree_heap \<Rightarrow> tcont \<Rightarrow> addr set \<Rightarrow> bool" where
  "moved h c cell h' c' A \<longleftrightarrow>
     c' = snd (set_cell h c cell (get_cell h' c' cell)) \<and>
     tsame (fst (set_cell h c cell (get_cell h' c' cell))) h' A"

lemma get_cell_frame:
  assumes "\<And>a. a \<in> cell_owner cell \<Longrightarrow> tfields h' a = tfields h a" "troot c' = troot c"
  shows "get_cell h' c' cell = get_cell h c cell"
  using assms by (cases cell) (auto simp: get_cell_def cell_owner_def tfields_def)

subsection \<open>Updating one item\<close>

lemma uhs_fields:
  "parent (update_height_slope h x) = parent h" "left (update_height_slope h x) = left h"
  "right (update_height_slope h x) = right h"
  "a \<noteq> x \<Longrightarrow> height (update_height_slope h x) a = height h a"
  "a \<noteq> x \<Longrightarrow> slope (update_height_slope h x) a = slope h a"
  "same_rest h (update_height_slope h x)"
  by (simp_all add: update_height_slope_def Let_def same_rest_def)

lemma uhs_tsame: "tsame h (update_height_slope h x) {x}"
  by (simp add: tsame_def tfields_def uhs_fields)

lemma uhs_get_cell: "get_cell (update_height_slope h x) c cell = get_cell h c cell"
  by (simp add: get_cell_def uhs_fields split: tcell.splits)

lemma uhs_ptree:
  assumes x: "x \<noteq> null" "parent h x = p" and l: "ptree h x l (left h x)" and r: "ptree h x r (right h x)"
    and out: "x \<notin> set (inord l)" "x \<notin> set (inord r)"
  shows "ptree (update_height_slope h x) p (Nd l x r) x"
proof -
  let ?h = "update_height_slope h x"
  have s: "tfields ?h y = tfields h y" if "y \<noteq> x" for y using uhs_tsame[of h x] that by (simp add: tsame_def)
  have "ptree ?h x l (left ?h x)" using ptree_frame[OF l, of ?h] s out by (metis uhs_fields(2))
  moreover have "ptree ?h x r (right ?h x)" using ptree_frame[OF r, of ?h] s out by (metis uhs_fields(3))
  moreover have "height ?h x = ht (Nd l x r)" "slope ?h x = int (ht l) - int (ht r)"
    using ptree_height[OF l] ptree_height[OF r]
    by (auto simp: update_height_slope_def Let_def max_def)
  ultimately show ?thesis using x uhs_fields(1)[of h x] by simp
qed

subsection \<open>Rotations\<close>

lemma snd_set_cell: "snd (set_cell h1 c cell v) = snd (set_cell h2 c cell v)"
  by (simp add: set_cell_def split: tcell.splits)

lemma same_rest_upd:
  "same_rest h (h\<lparr>parent := f\<rparr>)" "same_rest h (h\<lparr>left := f\<rparr>)" "same_rest h (h\<lparr>right := f\<rparr>)"
  by (simp_all add: same_rest_def)

lemma cell_owner_notin:
  assumes "cell_owner cell \<inter> A = {}" "a \<in> A"
  shows "cell \<noteq> LeftOf a" "cell \<noteq> RightOf a"
  using assms by (auto simp: cell_owner_def)

lemma rotr_ok:
  assumes top: "get_cell h c cell = x" and x: "x \<noteq> null" "parent h x = p"
    and l: "ptree h x (Nd la y lb) (left h x)" and r: "ptree h x r (right h x)"
    and di: "distinct (inord (Nd (Nd la y lb) x r))"
    and ow: "cell_owner cell \<inter> set (inord (Nd (Nd la y lb) x r)) = {}"
    and eq: "rotr h c cell = (h', c')"
  shows "ptree h' p (Nd la y (Nd lb x r)) y" "get_cell h' c' cell = y"
    "moved h c cell h' c' (set (inord (Nd (Nd la y lb) x r)))"
proof -
  let ?A = "set (inord (Nd (Nd la y lb) x r))"
  define b where "b = root_of lb"
  have y: "left h x = y" "y \<noteq> null" "ptree h y la (left h y)" "ptree h y lb b" "right h y = b"
    using l ptree_root[of h y lb "right h y"] by (auto simp: b_def)
  define h5 where "h5 = h\<lparr>right := (right h)(y := x), left := (left h)(x := b),
     parent := (if b \<noteq> null then (parent h)(y := p, b := x, x := y) else (parent h)(y := p, x := y))\<rparr>"
  define h6 where "h6 = fst (set_cell h5 c cell y)"
  define c6 where "c6 = snd (set_cell h5 c cell y)"
  define h7 where "h7 = update_height_slope h6 x"
  have h': "h' = update_height_slope h7 y" and c': "c' = c6"
    using eq by (cases "b = null"; simp add: rotr_def Let_def top y(1,5) x h5_def h6_def c6_def h7_def split_beta)+
  have bin: "b \<noteq> null \<Longrightarrow> b \<in> set (inord lb)" using root_in[of lb] by (cases lb) (auto simp: b_def)
  have ne: "x \<noteq> y" "b \<noteq> null \<Longrightarrow> b \<noteq> x" "b \<noteq> null \<Longrightarrow> b \<noteq> y" using di bin by auto
  have cl: "cell \<noteq> LeftOf a" "cell \<noteq> RightOf a" if "a \<in> ?A" for a
    using cell_owner_notin[OF ow that] .
  have P: "parent h6 a = (if a = x then y else if b \<noteq> null \<and> a = b then x else if a = y then p else parent h a)" for a
    using ne by (auto simp: h6_def h5_def)
  have L: "left h6 a = (if cell = LeftOf a then y else if a = x then b else left h a)" for a
    by (simp add: h6_def h5_def)
  have R: "right h6 a = (if cell = RightOf a then y else if a = y then x else right h a)" for a
    by (simp add: h6_def h5_def)
  have HS: "height h6 = height h" "slope h6 = slope h" by (simp_all add: h6_def h5_def)
  have s6: "tfields h6 a = tfields h a" if "a \<in> ?A" "a \<noteq> x" "a \<noteq> y" "b \<noteq> null \<Longrightarrow> a \<noteq> b" for a
    using that cl[OF that(1)] by (auto simp: tfields_def P L R HS)
  have t1: "ptree h6 x lb (left h6 x)"
  proof -
    have "ptree h6 x lb b"
    proof (rule ptree_reparent[OF y(4)])
      show "distinct (inord lb)" using di by simp
      show "tfields h6 z = tfields h z" if "z \<in> set (inord lb)" "z \<noteq> b" for z
        by (rule s6) (use that di in auto)
      assume b: "b \<noteq> null"
      then have "b \<in> ?A" using bin by simp
      then show "parent h6 b = x \<and> left h6 b = left h b \<and> right h6 b = right h b \<and>
          height h6 b = height h b \<and> slope h6 b = slope h b"
        using b ne cl by (simp add: P L R HS)
    qed
    then show ?thesis using cl[of x] by (simp add: L)
  qed
  have t2: "ptree h6 x r (right h6 x)"
  proof -
    have "ptree h6 x r (right h x)"
      by (rule ptree_frame[OF r]) (rule s6, use di bin in auto)
    then show ?thesis using cl[of x] ne by (simp add: R)
  qed
  have t3: "ptree h6 y la (left h6 y)"
  proof -
    have "ptree h6 y la (left h y)"
      by (rule ptree_frame[OF y(3)]) (rule s6, use di bin in auto)
    then show ?thesis using cl[of y] ne by (simp add: L)
  qed
  have "parent h6 x = y" by (simp add: P)
  then have t4: "ptree h7 y (Nd lb x r) x"
    unfolding h7_def by (rule uhs_ptree[OF x(1) _ t1 t2]) (use di in auto)
  have s7: "tfields h7 a = tfields h6 a" if "a \<noteq> x" for a
    using uhs_tsame[of h6 x] that by (simp add: tsame_def h7_def)
  have t5: "ptree h7 y la (left h7 y)"
    unfolding h7_def uhs_fields(2)
    by (rule ptree_frame[OF t3]) (rule s7[unfolded h7_def], use di in auto)
  have "right h7 y = x" using cl[of y] by (simp add: h7_def uhs_fields R)
  moreover have "parent h7 y = p" using ne by (auto simp: h7_def uhs_fields P)
  ultimately show "ptree h' p (Nd la y (Nd lb x r)) y"
    unfolding h' by (intro uhs_ptree[OF y(2) _ t5]) (use t4 di in auto)
  have s8: "tfields h' a = tfields h7 a" if "a \<noteq> y" for a
    using uhs_tsame[of h7 y] that by (simp add: tsame_def h')
  show g: "get_cell h' c' cell = y"
    by (simp add: h' h7_def uhs_get_cell c' c6_def h6_def)
  have "same_rest h h5" by (simp add: h5_def same_rest_def)
  moreover have "same_rest h5 h6" by (simp add: h6_def set_cell_same_rest)
  moreover have "same_rest h6 h'"
    using same_rest_trans[OF uhs_fields(6)[of h6 x] uhs_fields(6)[of h7 y, unfolded h7_def]]
    by (simp add: h' h7_def)
  ultimately have "same_rest h h'" by (blast intro: same_rest_trans)
  then have "same_rest (fst (set_cell h c cell y)) h'"
    using set_cell_same_rest[of h c cell y] by (simp add: same_rest_def)
  moreover have "tfields h' a = tfields (fst (set_cell h c cell y)) a" if a: "a \<notin> ?A" for a
  proof -
    have n: "a \<noteq> x" "a \<noteq> y" and nb: "\<not> (b \<noteq> null \<and> a = b)" using a bin by auto
    have "tfields h' a = tfields h6 a" by (simp add: s8[OF n(2)] s7[OF n(1)])
    then show ?thesis using n nb by (simp only: tfields_def P L R HS set_cell_rest if_False)
  qed
  moreover have "c' = snd (set_cell h c cell y)" unfolding c' c6_def by (rule snd_set_cell)
  ultimately show "moved h c cell h' c' ?A"
    unfolding moved_def g tsame_def by blast
qed

lemma rotl_ok:
  assumes top: "get_cell h c cell = x" and x: "x \<noteq> null" "parent h x = p"
    and l: "ptree h x l (left h x)" and r: "ptree h x (Nd lb y lc) (right h x)"
    and di: "distinct (inord (Nd l x (Nd lb y lc)))"
    and ow: "cell_owner cell \<inter> set (inord (Nd l x (Nd lb y lc))) = {}"
    and eq: "rotl h c cell = (h', c')"
  shows "ptree h' p (Nd (Nd l x lb) y lc) y" "get_cell h' c' cell = y"
    "moved h c cell h' c' (set (inord (Nd l x (Nd lb y lc))))"
proof -
  let ?A = "set (inord (Nd l x (Nd lb y lc)))"
  define b where "b = root_of lb"
  have y: "right h x = y" "y \<noteq> null" "ptree h y lc (right h y)" "ptree h y lb b" "left h y = b"
    using r ptree_root[of h y lb "left h y"] by (auto simp: b_def)
  define h5 where "h5 = h\<lparr>left := (left h)(y := x), right := (right h)(x := b),
     parent := (if b \<noteq> null then (parent h)(y := p, b := x, x := y) else (parent h)(y := p, x := y))\<rparr>"
  define h6 where "h6 = fst (set_cell h5 c cell y)"
  define c6 where "c6 = snd (set_cell h5 c cell y)"
  define h7 where "h7 = update_height_slope h6 x"
  have h': "h' = update_height_slope h7 y" and c': "c' = c6"
    using eq by (cases "b = null"; simp add: rotl_def Let_def top y(1,5) x h5_def h6_def c6_def h7_def split_beta)+
  have bin: "b \<noteq> null \<Longrightarrow> b \<in> set (inord lb)" using root_in[of lb] by (cases lb) (auto simp: b_def)
  have ne: "x \<noteq> y" "b \<noteq> null \<Longrightarrow> b \<noteq> x" "b \<noteq> null \<Longrightarrow> b \<noteq> y" using di bin by auto
  have cl: "cell \<noteq> LeftOf a" "cell \<noteq> RightOf a" if "a \<in> ?A" for a
    using cell_owner_notin[OF ow that] .
  have P: "parent h6 a = (if a = x then y else if b \<noteq> null \<and> a = b then x else if a = y then p else parent h a)" for a
    using ne by (auto simp: h6_def h5_def)
  have L: "left h6 a = (if cell = LeftOf a then y else if a = y then x else left h a)" for a
    by (simp add: h6_def h5_def)
  have R: "right h6 a = (if cell = RightOf a then y else if a = x then b else right h a)" for a
    by (simp add: h6_def h5_def)
  have HS: "height h6 = height h" "slope h6 = slope h" by (simp_all add: h6_def h5_def)
  have s6: "tfields h6 a = tfields h a" if "a \<in> ?A" "a \<noteq> x" "a \<noteq> y" "b \<noteq> null \<Longrightarrow> a \<noteq> b" for a
    using that cl[OF that(1)] by (auto simp: tfields_def P L R HS)
  have t1: "ptree h6 x lb (right h6 x)"
  proof -
    have "ptree h6 x lb b"
    proof (rule ptree_reparent[OF y(4)])
      show "distinct (inord lb)" using di by simp
      show "tfields h6 z = tfields h z" if "z \<in> set (inord lb)" "z \<noteq> b" for z
        by (rule s6) (use that di in auto)
      assume b: "b \<noteq> null"
      then have "b \<in> ?A" using bin by simp
      then show "parent h6 b = x \<and> left h6 b = left h b \<and> right h6 b = right h b \<and>
          height h6 b = height h b \<and> slope h6 b = slope h b"
        using b ne cl by (simp add: P L R HS)
    qed
    then show ?thesis using cl[of x] by (simp add: R)
  qed
  have t2: "ptree h6 x l (left h6 x)"
  proof -
    have "ptree h6 x l (left h x)"
      by (rule ptree_frame[OF l]) (rule s6, use di bin in auto)
    then show ?thesis using cl[of x] ne by (simp add: L)
  qed
  have t3: "ptree h6 y lc (right h6 y)"
  proof -
    have "ptree h6 y lc (right h y)"
      by (rule ptree_frame[OF y(3)]) (rule s6, use di bin in auto)
    then show ?thesis using cl[of y] ne by (simp add: R)
  qed
  have "parent h6 x = y" by (simp add: P)
  then have t4: "ptree h7 y (Nd l x lb) x"
    unfolding h7_def by (rule uhs_ptree[OF x(1) _ t2 t1]) (use di in auto)
  have s7: "tfields h7 a = tfields h6 a" if "a \<noteq> x" for a
    using uhs_tsame[of h6 x] that by (simp add: tsame_def h7_def)
  have t5: "ptree h7 y lc (right h7 y)"
    unfolding h7_def uhs_fields(3)
    by (rule ptree_frame[OF t3]) (rule s7[unfolded h7_def], use di in auto)
  have "left h7 y = x" using cl[of y] by (simp add: h7_def uhs_fields L)
  moreover have "parent h7 y = p" using ne by (auto simp: h7_def uhs_fields P)
  ultimately show "ptree h' p (Nd (Nd l x lb) y lc) y"
    unfolding h' by (intro uhs_ptree[OF y(2) _ _ t5]) (use t4 di in auto)
  have s8: "tfields h' a = tfields h7 a" if "a \<noteq> y" for a
    using uhs_tsame[of h7 y] that by (simp add: tsame_def h')
  show g: "get_cell h' c' cell = y"
    by (simp add: h' h7_def uhs_get_cell c' c6_def h6_def)
  have "same_rest h h5" by (simp add: h5_def same_rest_def)
  moreover have "same_rest h5 h6" by (simp add: h6_def set_cell_same_rest)
  moreover have "same_rest h6 h'"
    using same_rest_trans[OF uhs_fields(6)[of h6 x] uhs_fields(6)[of h7 y, unfolded h7_def]]
    by (simp add: h' h7_def)
  ultimately have "same_rest h h'" by (blast intro: same_rest_trans)
  then have "same_rest (fst (set_cell h c cell y)) h'"
    using set_cell_same_rest[of h c cell y] by (simp add: same_rest_def)
  moreover have "tfields h' a = tfields (fst (set_cell h c cell y)) a" if a: "a \<notin> ?A" for a
  proof -
    have n: "a \<noteq> x" "a \<noteq> y" and nb: "\<not> (b \<noteq> null \<and> a = b)" using a bin by auto
    have "tfields h' a = tfields h6 a" by (simp add: s8[OF n(2)] s7[OF n(1)])
    then show ?thesis using n nb by (simp only: tfields_def P L R HS set_cell_rest if_False)
  qed
  moreover have "c' = snd (set_cell h c cell y)" unfolding c' c6_def by (rule snd_set_cell)
  ultimately show "moved h c cell h' c' ?A"
    unfolding moved_def g tsame_def by blast
qed

subsection \<open>Composing rotations\<close>

lemma moved_refl: "moved h c cell h c A"
  by (simp add: moved_def set_get_cell)

lemma movedD:
  assumes "moved h c cell h' c' A"
  shows "same_rest h h'" "same_cont c c'" "cell \<noteq> RootCell \<Longrightarrow> c' = c"
    "a \<notin> A \<Longrightarrow> a \<notin> cell_owner cell \<Longrightarrow> tfields h' a = tfields h a"
    "a \<notin> A \<Longrightarrow> parent h' a = parent h a \<and> height h' a = height h a \<and> slope h' a = slope h a"
    "a \<notin> A \<Longrightarrow> cell \<noteq> LeftOf a \<Longrightarrow> left h' a = left h a"
    "a \<notin> A \<Longrightarrow> cell \<noteq> RightOf a \<Longrightarrow> right h' a = right h a"
proof -
  let ?v = "get_cell h' c' cell"
  have c: "c' = snd (set_cell h c cell ?v)" and t: "tsame (fst (set_cell h c cell ?v)) h' A"
    using assms unfolding moved_def by blast+
  show "same_rest h h'" using t set_cell_same_rest same_rest_trans unfolding tsame_def by blast
  show "same_cont c c'" by (subst c) (rule set_cell_cont)
  show "cell \<noteq> RootCell \<Longrightarrow> c' = c" by (subst c) (simp add: set_cell_def split: tcell.splits)
  have e: "tfields h' a = tfields (fst (set_cell h c cell ?v)) a" if "a \<notin> A" for a
    using t that unfolding tsame_def by blast
  show "tfields h' a = tfields h a" if "a \<notin> A" "a \<notin> cell_owner cell"
    using e[OF that(1)] that(2) by (auto simp: tfields_def cell_owner_def)
  show "a \<notin> A \<Longrightarrow> parent h' a = parent h a \<and> height h' a = height h a \<and> slope h' a = slope h a"
    using e[of a] by (auto simp: tfields_def)
  show "a \<notin> A \<Longrightarrow> cell \<noteq> LeftOf a \<Longrightarrow> left h' a = left h a"
    using e[of a] by (auto simp: tfields_def)
  show "a \<notin> A \<Longrightarrow> cell \<noteq> RightOf a \<Longrightarrow> right h' a = right h a"
    using e[of a] by (auto simp: tfields_def)
qed

lemma movedI:
  assumes "same_rest h h'" "c' = snd (set_cell h c cell (get_cell h' c' cell))"
    and "\<And>a. a \<notin> A \<Longrightarrow> parent h' a = parent h a \<and> height h' a = height h a \<and> slope h' a = slope h a"
    and "\<And>a. a \<notin> A \<Longrightarrow> cell \<noteq> LeftOf a \<Longrightarrow> left h' a = left h a"
    and "\<And>a. a \<notin> A \<Longrightarrow> cell \<noteq> RightOf a \<Longrightarrow> right h' a = right h a"
  shows "moved h c cell h' c' A"
proof -
  let ?g = "fst (set_cell h c cell (get_cell h' c' cell))"
  have "same_rest ?g h'" using assms(1) set_cell_same_rest[of h c cell]
    by (simp add: same_rest_def)
  moreover have "tfields h' a = tfields ?g a" if "a \<notin> A" for a
    using assms(3,4,5)[OF that] by (auto simp: tfields_def get_cell_def)
  ultimately show ?thesis using assms(2) unfolding moved_def tsame_def by blast
qed

text \<open>A change below an item that is then moved itself.\<close>

lemma moved_inside:
  assumes m1: "moved h c d h1 c1 A1" and m2: "moved h1 c1 cell h' c' A"
    and d: "d \<noteq> RootCell" "cell_owner d \<subseteq> A" and sub: "A1 \<subseteq> A"
  shows "moved h c cell h' c' A"
proof (rule movedI)
  note a = movedD[OF m1] and b = movedD[OF m2]
  show "same_rest h h'" by (rule same_rest_trans[OF a(1) b(1)])
  have "c1 = c" by (rule a(3)[OF d(1)])
  then show "c' = snd (set_cell h c cell (get_cell h' c' cell))"
    using m2 unfolding moved_def by (metis snd_set_cell)
  fix x assume x: "x \<notin> A"
  then have "x \<notin> A1" "x \<notin> cell_owner d" using sub d by auto
  from a(4)[OF this] have t: "tfields h1 x = tfields h x" .
  show "parent h' x = parent h x \<and> height h' x = height h x \<and> slope h' x = slope h x"
    using b(5)[OF x] t by (simp add: tfields_def)
  show "cell \<noteq> LeftOf x \<Longrightarrow> left h' x = left h x" using b(6)[OF x] t by (simp add: tfields_def)
  show "cell \<noteq> RightOf x \<Longrightarrow> right h' x = right h x" using b(7)[OF x] t by (simp add: tfields_def)
qed

text \<open>An update of an item below the cell comes first.\<close>

lemma moved_after_upd:
  assumes t: "tsame h h1 A1" "A1 \<subseteq> A" and m: "moved h1 c cell h' c' A"
  shows "moved h c cell h' c' A"
proof (rule movedI)
  note b = movedD[OF m]
  show "same_rest h h'" using t b(1) same_rest_trans unfolding tsame_def by blast
  show "c' = snd (set_cell h c cell (get_cell h' c' cell))"
    using m unfolding moved_def by (metis snd_set_cell)
  fix x assume x: "x \<notin> A"
  then have e: "tfields h1 x = tfields h x" using t unfolding tsame_def by blast
  show "parent h' x = parent h x \<and> height h' x = height h x \<and> slope h' x = slope h x"
    using b(5)[OF x] e by (simp add: tfields_def)
  show "cell \<noteq> LeftOf x \<Longrightarrow> left h' x = left h x" using b(6)[OF x] e by (simp add: tfields_def)
  show "cell \<noteq> RightOf x \<Longrightarrow> right h' x = right h x" using b(7)[OF x] e by (simp add: tfields_def)
qed

lemma shiftr_ok:
  assumes top: "get_cell h c cell = x" and x: "x \<noteq> null" "parent h x = p"
    and l: "ptree h x (Nd la y lb) (left h x)" and r: "ptree h x r (right h x)"
    and di: "distinct (inord (Nd (Nd la y lb) x r))"
    and ow: "cell_owner cell \<inter> set (inord (Nd (Nd la y lb) x r)) = {}"
    and eq: "shiftr h c cell = (h', c')"
  shows "ptree h' p (shift_r (Nd (Nd la y lb) x r)) (get_cell h' c' cell)"
    "moved h c cell h' c' (set (inord (Nd (Nd la y lb) x r)))"
proof -
  let ?A = "set (inord (Nd (Nd la y lb) x r))"
  have y: "left h x = y" "y \<noteq> null" "parent h y = x"
    "ptree h y la (left h y)" "ptree h y lb (right h y)"
    and sl: "slope h y = int (ht la) - int (ht lb)" using l by auto
  have b: "slope h (left h x) = - 1 \<longleftrightarrow> ht lb = ht la + 1" using y(1) sl by auto
  have "ptree h' p (shift_r (Nd (Nd la y lb) x r)) (get_cell h' c' cell) \<and> moved h c cell h' c' ?A"
  proof (cases "ht lb = ht la + 1")
    case False
    then have "rotr h c cell = (h', c')" using eq b top by (simp add: shiftr_def)
    from rotr_ok[OF top x l r di ow this] show ?thesis using False by simp
  next
    case True
    then obtain c1 z d where lb: "lb = Nd c1 z d" by (cases lb) auto
    obtain h1 k1 where e1: "rotl h c (LeftOf x) = (h1, k1)" by fastforce
    have e2: "rotr h1 k1 cell = (h', c')" using eq b True top e1 by (simp add: shiftr_def)
    have g: "get_cell h c (LeftOf x) = y" using y(1) by (simp add: get_cell_def)
    have di0: "distinct (inord (Nd la y (Nd c1 z d)))" using di lb by auto
    have ow0: "cell_owner (LeftOf x) \<inter> set (inord (Nd la y (Nd c1 z d))) = {}" using di lb by (auto simp: cell_owner_def)
    note a = rotl_ok[OF g y(2,3,4) y(5)[unfolded lb] di0 ow0 e1]
    note mv = movedD[OF a(3)]
    have A1: "set (inord (Nd la y (Nd c1 z d))) \<subseteq> ?A" using lb by auto
    have xo: "x \<notin> set (inord (Nd la y (Nd c1 z d)))" using di lb by auto
    have k1: "k1 = c" by (rule mv(3)) simp
    have "get_cell h1 k1 cell = get_cell h c cell"
      unfolding k1
    proof (rule get_cell_frame)
      fix w assume "w \<in> cell_owner cell"
      then have "w \<notin> ?A" using ow by blast
      then have "w \<notin> set (inord (Nd la y (Nd c1 z d)))" "w \<notin> cell_owner (LeftOf x)" using A1 by (auto simp: cell_owner_def)
      from mv(4)[OF this] show "tfields h1 w = tfields h w" .
    qed simp
    then have top1: "get_cell h1 k1 cell = x" using top by simp
    have p1: "parent h1 x = p" using mv(5)[OF xo] x by simp
    have t1: "ptree h1 x (Nd (Nd la y c1) z d) (left h1 x)" using a(1,2) by (simp add: get_cell_def)
    have "ptree h1 x r (right h x)"
    proof (rule ptree_frame[OF r])
      fix w assume "w \<in> set (inord r)"
      then have "w \<notin> set (inord (Nd la y (Nd c1 z d)))" "w \<notin> cell_owner (LeftOf x)" using di lb by (auto simp: cell_owner_def)
      from mv(4)[OF this] show "tfields h1 w = tfields h w" .
    qed
    moreover have "right h1 x = right h x" by (rule mv(7)[OF xo]) simp
    ultimately have r1: "ptree h1 x r (right h1 x)" by simp
    have Ae: "set (inord (Nd (Nd (Nd la y c1) z d) x r)) = ?A" using lb by auto
    have di1: "distinct (inord (Nd (Nd (Nd la y c1) z d) x r))" using di lb by auto
    have ow1: "cell_owner cell \<inter> set (inord (Nd (Nd (Nd la y c1) z d) x r)) = {}" using ow unfolding Ae .
    note bb = rotr_ok[OF top1 x(1) p1 t1 r1 di1 ow1 e2]
    have "moved h c cell h' c' ?A"
      by (rule moved_inside[OF a(3) bb(3)[unfolded Ae]]) (use A1 in \<open>auto simp: cell_owner_def\<close>)
    then show ?thesis using bb(1,2) True lb by simp
  qed
  then show "ptree h' p (shift_r (Nd (Nd la y lb) x r)) (get_cell h' c' cell)" "moved h c cell h' c' ?A" by auto
qed

lemma shiftl_ok:
  assumes top: "get_cell h c cell = x" and x: "x \<noteq> null" "parent h x = p"
    and l: "ptree h x l (left h x)" and r: "ptree h x (Nd lb y lc) (right h x)"
    and di: "distinct (inord (Nd l x (Nd lb y lc)))"
    and ow: "cell_owner cell \<inter> set (inord (Nd l x (Nd lb y lc))) = {}"
    and eq: "shiftl h c cell = (h', c')"
  shows "ptree h' p (shift_l (Nd l x (Nd lb y lc))) (get_cell h' c' cell)"
    "moved h c cell h' c' (set (inord (Nd l x (Nd lb y lc))))"
proof -
  let ?A = "set (inord (Nd l x (Nd lb y lc)))"
  have y: "right h x = y" "y \<noteq> null" "parent h y = x"
    "ptree h y lb (left h y)" "ptree h y lc (right h y)"
    and sl: "slope h y = int (ht lb) - int (ht lc)" using r by auto
  have b: "slope h (right h x) = 1 \<longleftrightarrow> ht lb = ht lc + 1" using y(1) sl by auto
  have "ptree h' p (shift_l (Nd l x (Nd lb y lc))) (get_cell h' c' cell) \<and> moved h c cell h' c' ?A"
  proof (cases "ht lb = ht lc + 1")
    case False
    then have "rotl h c cell = (h', c')" using eq b top by (simp add: shiftl_def)
    from rotl_ok[OF top x l r di ow this] show ?thesis using False by simp
  next
    case True
    then obtain c1 z d where lb: "lb = Nd c1 z d" by (cases lb) auto
    obtain h1 k1 where e1: "rotr h c (RightOf x) = (h1, k1)" by fastforce
    have e2: "rotl h1 k1 cell = (h', c')" using eq b True top e1 by (simp add: shiftl_def)
    have g: "get_cell h c (RightOf x) = y" using y(1) by (simp add: get_cell_def)
    have di0: "distinct (inord (Nd (Nd c1 z d) y lc))" using di lb by auto
    have ow0: "cell_owner (RightOf x) \<inter> set (inord (Nd (Nd c1 z d) y lc)) = {}" using di lb by (auto simp: cell_owner_def)
    note a = rotr_ok[OF g y(2,3) y(4)[unfolded lb] y(5) di0 ow0 e1]
    note mv = movedD[OF a(3)]
    have A1: "set (inord (Nd (Nd c1 z d) y lc)) \<subseteq> ?A" using lb by auto
    have xo: "x \<notin> set (inord (Nd (Nd c1 z d) y lc))" using di lb by auto
    have k1: "k1 = c" by (rule mv(3)) simp
    have "get_cell h1 k1 cell = get_cell h c cell"
      unfolding k1
    proof (rule get_cell_frame)
      fix w assume "w \<in> cell_owner cell"
      then have "w \<notin> ?A" using ow by blast
      then have "w \<notin> set (inord (Nd (Nd c1 z d) y lc))" "w \<notin> cell_owner (RightOf x)" using A1 by (auto simp: cell_owner_def)
      from mv(4)[OF this] show "tfields h1 w = tfields h w" .
    qed simp
    then have top1: "get_cell h1 k1 cell = x" using top by simp
    have p1: "parent h1 x = p" using mv(5)[OF xo] x by simp
    have t1: "ptree h1 x (Nd c1 z (Nd d y lc)) (right h1 x)" using a(1,2) by (simp add: get_cell_def)
    have "ptree h1 x l (left h x)"
    proof (rule ptree_frame[OF l])
      fix w assume "w \<in> set (inord l)"
      then have "w \<notin> set (inord (Nd (Nd c1 z d) y lc))" "w \<notin> cell_owner (RightOf x)" using di lb by (auto simp: cell_owner_def)
      from mv(4)[OF this] show "tfields h1 w = tfields h w" .
    qed
    moreover have "left h1 x = left h x" by (rule mv(6)[OF xo]) simp
    ultimately have r1: "ptree h1 x l (left h1 x)" by simp
    have Ae: "set (inord (Nd l x (Nd c1 z (Nd d y lc)))) = ?A" using lb by auto
    have di1: "distinct (inord (Nd l x (Nd c1 z (Nd d y lc))))" using di lb by auto
    have ow1: "cell_owner cell \<inter> set (inord (Nd l x (Nd c1 z (Nd d y lc)))) = {}" using ow unfolding Ae .
    note bb = rotl_ok[OF top1 x(1) p1 r1 t1 di1 ow1 e2]
    have "moved h c cell h' c' ?A"
      by (rule moved_inside[OF a(3) bb(3)[unfolded Ae]]) (use A1 in \<open>auto simp: cell_owner_def\<close>)
    then show ?thesis using bb(1,2) True lb by simp
  qed
  then show "ptree h' p (shift_l (Nd l x (Nd lb y lc))) (get_cell h' c' cell)" "moved h c cell h' c' ?A" by auto
qed

subsection \<open>Contexts\<close>

abbreviation ctx_items :: "crumb list \<Rightarrow> addr list" where
  "ctx_items cs \<equiv> ctx_l cs @ ctx_r cs"

lemma owner_in: "cs \<noteq> [] \<Longrightarrow> owner cs \<in> set (ctx_items cs)"
  by (cases cs rule: owner.cases) auto

lemma cell_owner_of: "cell_owner (cell_of cs) = (if cs = [] then {} else {owner cs})"
  by (cases cs rule: owner.cases) (auto simp: cell_owner_def)

lemma ctx_items_Cons: "set (ctx_items (k # cs)) = insert (owner (k # cs)) (set (inord (plug1 k Lf)) \<union> set (ctx_items cs))"
  by (cases k) auto

lemma ctx_items_dist:
  "distinct (ctx_l (k # cs) @ xs @ ctx_r (k # cs)) \<Longrightarrow>
     distinct (ctx_l cs @ xs @ ctx_r cs) \<and> owner (k # cs) \<notin> set (ctx_items cs)"
  by (cases k) auto

lemma sibling_frame:
  assumes "sibling h k" "\<And>x. x \<in> set (inord (plug1 k Lf)) \<Longrightarrow> tfields h' x = tfields h x"
  shows "sibling h' k"
proof (cases k)
  case (CL x r)
  with assms have "ptree h' x r (right h x)" by (auto intro: ptree_frame)
  moreover have "tfields h' x = tfields h x" using assms(2)[of x] CL by simp
  ultimately show ?thesis using CL by (simp add: tfields_def)
next
  case (CR l x)
  with assms have "ptree h' x l (left h x)" by (auto intro: ptree_frame)
  moreover have "tfields h' x = tfields h x" using assms(2)[of x] CR by simp
  ultimately show ?thesis using CR by (simp add: tfields_def)
qed

lemma pctx_frame:
  assumes "pctx h c S cs n" "\<And>x. x \<in> set (ctx_items cs) \<Longrightarrow> tfields h' x = tfields h x"
    and "troot c' = troot c"
  shows "pctx h' c' S cs n"
  using assms
proof (induction cs arbitrary: n)
  case (Cons k cs)
  have t: "tfields h' x = tfields h x" if "x \<in> set (ctx_items cs)" for x
    by (rule Cons.prems(2)) (use that in \<open>auto simp: ctx_items_Cons simp del: set_append\<close>)
  have s: "sibling h' k"
    by (rule sibling_frame[of h]) (use Cons.prems in \<open>auto simp: Let_def ctx_items_Cons simp del: set_append\<close>)
  have "tfields h' (owner (k # cs)) = tfields h (owner (k # cs))"
    by (rule Cons.prems(2)) (simp add: ctx_items_Cons del: set_append)
  moreover have "get_cell h' c' (cell_of cs) = get_cell h c (cell_of cs)"
    by (rule get_cell_frame) (use t owner_in[of cs] Cons.prems(3) in \<open>auto simp: cell_owner_of split: if_splits\<close>)
  ultimately show ?case using Cons.IH[OF _ t Cons.prems(3)] Cons.prems(1) s
    by (simp add: Let_def tfields_def)
qed simp

lemma pctx_stale: "pctx h c S cs n \<Longrightarrow> S \<subseteq> S' \<Longrightarrow> pctx h c S' cs n"
  by (induction cs arbitrary: n) (auto simp: Let_def)

lemma pctx_fresh: "pctx h c S cs n \<Longrightarrow> S \<inter> set (ctx_items cs) = {} \<Longrightarrow> pctx h c {} cs n"
proof (induction cs arbitrary: n)
  case (Cons k cs)
  have "S \<inter> set (ctx_items cs) = {}" "owner (k # cs) \<notin> S"
    using Cons.prems(2) by (auto simp: ctx_items_Cons simp del: set_append)
  then show ?case using Cons.prems(1) Cons.IH by (simp add: Let_def)
qed simp

text \<open>A change below the hole leaves the context as it is.\<close>

lemma pctx_moved:
  assumes p: "pctx h c S cs n" and m: "moved h c (cell_of cs) h' c' A"
    and di: "distinct (ctx_items cs)" and A: "A \<inter> set (ctx_items cs) = {}"
  shows "pctx h' c' S cs n"
proof (cases cs)
  case (Cons k ks)
  note d = movedD[OF m]
  have co: "cell_owner (cell_of cs) = {owner cs}" by (simp add: cell_owner_of Cons)
  have dd: "distinct (ctx_l (k # ks) @ [] @ ctx_r (k # ks))" using di unfolding Cons by simp
  have c': "c' = c" by (rule d(3)) (cases k; simp add: Cons)
  have ow: "owner cs \<notin> set (ctx_items ks)" "owner cs \<notin> set (inord (plug1 k Lf)) - {owner cs}"
    using ctx_items_dist[OF dd] unfolding Cons by auto
  have t: "tfields h' x = tfields h x" if "x \<in> set (ctx_items cs)" "x \<noteq> owner cs" for x
    by (rule d(4)) (use that A co in auto)
  have tk: "tfields h' x = tfields h x" if "x \<in> set (ctx_items ks)" for x
    by (rule t) (use that ow in \<open>auto simp: Cons ctx_items_Cons simp del: set_append\<close>)
  have pk: "pctx h' c' S ks (crumb_ht k n)"
    by (rule pctx_frame[of h c]) (use p Cons tk c' in auto)
  have oA: "owner cs \<notin> A" using A owner_in[of cs] Cons by auto
  note o = d(5,6,7)[OF oA]
  have "get_cell h' c' (cell_of ks) = get_cell h c (cell_of ks)"
    by (rule get_cell_frame) (use tk owner_in[of ks] c' in \<open>auto simp: cell_owner_of split: if_splits\<close>)
  moreover have "sibling h' k"
  proof (cases k)
    case (CL x r)
    have "ptree h x r (right h x)" using p by (simp add: Cons CL Let_def)
    then have "ptree h' x r (right h x)"
      by (rule ptree_frame) (use t di in \<open>auto simp: Cons CL\<close>)
    then show ?thesis using o(3) by (simp add: Cons CL)
  next
    case (CR l x)
    have "ptree h x l (left h x)" using p by (simp add: Cons CR Let_def)
    then have "ptree h' x l (left h x)"
      by (rule ptree_frame) (use t di in \<open>auto simp: Cons CR\<close>)
    then show ?thesis using o(2) by (simp add: Cons CR)
  qed
  ultimately show ?thesis using p pk o(1) unfolding Cons by (simp add: Let_def)
qed simp

text \<open>The hole filled: a place in the tree, and the tree as a whole.\<close>

definition zipper :: "('k, 'v) tree_heap \<Rightarrow> tcont \<Rightarrow> addr set \<Rightarrow> crumb list \<Rightarrow> nat \<Rightarrow> atree \<Rightarrow> bool" where
  "zipper h c S cs n t \<longleftrightarrow> pctx h c S cs n \<and> ptree h (owner cs) t (get_cell h c (cell_of cs)) \<and>
     distinct (ctx_l cs @ inord t @ ctx_r cs)"

lemma zipper_Cons:
  "zipper h c {} (k # cs) (ht t) t \<longleftrightarrow> zipper h c {} cs (ht (plug1 k t)) (plug1 k t)"
  by (cases k) (auto simp: zipper_def Let_def get_cell_def)

lemma zipper_plug:
  "zipper h c {} cs (ht t) t \<longleftrightarrow> ptree h null (plug cs t) (troot c) \<and> distinct (inord (plug cs t))"
proof (induction cs arbitrary: t)
  case Nil
  show ?case by (simp add: zipper_def get_cell_def)
next
  case (Cons k cs)
  show ?case unfolding zipper_Cons plug_Cons by (rule Cons.IH)
qed

subsection \<open>One step of rebalancing\<close>

lemma cell_at_hole:
  assumes p: "pctx h c S cs n" and a: "get_cell h c (cell_of cs) = a" "parent h a = owner cs"
    and out: "a \<notin> set (ctx_items cs)" "a \<noteq> null"
  shows "cell_at h a = cell_of cs"
proof (cases cs)
  case Nil
  then show ?thesis using a by (simp add: cell_at_def)
next
  case (Cons k ks)
  show ?thesis
  proof (cases k)
    case (CL x r)
    then show ?thesis using p a Cons by (simp add: cell_at_def Let_def get_cell_def)
  next
    case (CR l x)
    have "ptree h x l (left h x)" using p Cons CR by (simp add: Let_def)
    then have "left h x = root_of l" by (rule ptree_root)
    then have "left h x \<noteq> a" using out root_in[of l] Cons CR by (cases l) auto
    then show ?thesis using p a Cons CR by (simp add: cell_at_def Let_def get_cell_def)
  qed
qed

lemma rebal_ok:
  assumes z: "zipper h c S cs n T" and T: "T = Nd l x r" and eq: "rebal h c x = (h', c', p)"
  shows "ptree h' (owner cs) (rebal_t T) p" "get_cell h' c' (cell_of cs) = p"
    "moved h c (cell_of cs) h' c' (set (inord T))"
proof -
  have pt: "ptree h (owner cs) T (get_cell h c (cell_of cs))" and pc: "pctx h c S cs n"
    and di: "distinct (ctx_l cs @ inord T @ ctx_r cs)" using z by (auto simp: zipper_def)
  have top: "get_cell h c (cell_of cs) = x" and x: "x \<noteq> null" "parent h x = owner cs"
    and l: "ptree h x l (left h x)" and r: "ptree h x r (right h x)"
    and sl: "slope h x = int (ht l) - int (ht r)" using pt T by auto
  have dT: "distinct (inord T)" using di by simp
  have cx: "cell_at h x = cell_of cs"
    by (rule cell_at_hole[OF pc top x(2)]) (use di T x in auto)
  have ow: "cell_owner (cell_of cs) \<inter> set (inord T) = {}"
    using di owner_in[of cs] by (auto simp: cell_owner_of)
  have "ptree h' (owner cs) (rebal_t T) p \<and> get_cell h' c' (cell_of cs) = p \<and>
    moved h c (cell_of cs) h' c' (set (inord T))"
  proof -
    consider (L) "ht l > ht r + 1" | (R) "ht r > ht l + 1" | (B) "ht l \<le> ht r + 1" "ht r \<le> ht l + 1"
      by linarith
    then show ?thesis
    proof cases
      case L
      then obtain la y lb where l': "l = Nd la y lb" by (cases l) auto
      have s: "shiftr h c (cell_of cs) = (h', c')" "get_cell h' c' (cell_of cs) = p"
        using eq L sl cx by (auto simp: rebal_def Let_def split: prod.splits)
      show ?thesis
        using shiftr_ok[OF top x l[unfolded l'] r dT[unfolded T l'] ow[unfolded T l'] s(1)] s(2) L
        by (simp add: T l')
    next
      case R
      then obtain lb y lc where r': "r = Nd lb y lc" by (cases r) auto
      have s: "shiftl h c (cell_of cs) = (h', c')" "get_cell h' c' (cell_of cs) = p"
        using eq R sl cx by (auto simp: rebal_def Let_def split: prod.splits)
      show ?thesis
        using shiftl_ok[OF top x l r[unfolded r'] dT[unfolded T r'] ow[unfolded T r'] s(1)] s(2) R
        by (simp add: T r')
    next
      case B
      then have "h' = h" "c' = c" "p = x" using eq sl by (auto simp: rebal_def)
      then show ?thesis using B pt top by (simp add: T moved_refl)
    qed
  qed
  then show "ptree h' (owner cs) (rebal_t T) p" "get_cell h' c' (cell_of cs) = p"
    "moved h c (cell_of cs) h' c' (set (inord T))" by auto
qed

text \<open>
  The body of the loops: \<^verbatim>\<open>parent->updateHeightAndSlope(); parent = rebal(parent);\<close>
\<close>

lemma step_ok:
  assumes z: "zipper h c S (k # cs) n t" and a: "avl t" "crumb_ok k n" "ht t \<le> n + 1" "n \<le> ht t + 1"
    and eq: "rebal (update_height_slope h (owner (k # cs))) c (owner (k # cs)) = (h', c', p)"
  defines "T \<equiv> rebal_t (plug1 k t)"
  shows "zipper h' c' S cs (crumb_ht k n) T" "p = get_cell h' c' (cell_of cs)" "p \<noteq> null"
    "parent h' p = owner cs" "height h' p = ht T"
    "avl T" "ht T \<le> crumb_ht k n + 1" "crumb_ht k n \<le> ht T + 1"
    "ctx_l cs @ inord T @ ctx_r cs = ctx_l (k # cs) @ inord t @ ctx_r (k # cs)"
    "moved h c (cell_of cs) h' c' (set (inord T))"
proof -
  let ?x = "owner (k # cs)" and ?h = "update_height_slope h (owner (k # cs))"
  obtain l r where P: "plug1 k t = Nd l ?x r" by (cases k) auto
  have pc: "pctx h c S (k # cs) n" and pt: "ptree h ?x t (get_cell h c (cell_of (k # cs)))"
    and di: "distinct (ctx_l (k # cs) @ inord t @ ctx_r (k # cs))" using z by (simp_all add: zipper_def)
  have ie: "ctx_l (k # cs) @ inord t @ ctx_r (k # cs) = ctx_l cs @ inord (plug1 k t) @ ctx_r cs"
    by (cases k) auto
  have di2: "distinct (ctx_l cs @ inord (Nd l ?x r) @ ctx_r cs)" using di ie P by simp
  have x: "?x \<noteq> null" "parent h ?x = owner cs" and top: "get_cell h c (cell_of cs) = ?x"
    and si: "sibling h k" and pk: "pctx h c S cs (crumb_ht k n)" using pc by (simp_all add: Let_def)
  have l: "ptree h ?x l (left h ?x)" using P pt si by (cases k) (auto simp: get_cell_def)
  have r: "ptree h ?x r (right h ?x)" using P pt si by (cases k) (auto simp: get_cell_def)
  have pt1: "ptree ?h (owner cs) (Nd l ?x r) ?x"
    by (rule uhs_ptree[OF x l r]) (use di2 in auto)
  have ts: "tsame h ?h {?x}" by (rule uhs_tsame)
  have pk1: "pctx ?h c S cs (crumb_ht k n)"
  proof (rule pctx_frame[OF pk])
    fix a assume "a \<in> set (ctx_items cs)"
    then have "a \<noteq> ?x" using di2 by auto
    then show "tfields ?h a = tfields h a" using ts by (simp add: tsame_def)
  qed simp
  have z1: "zipper ?h c S cs (crumb_ht k n) (Nd l ?x r)"
    using pk1 pt1 di2 top by (simp add: zipper_def uhs_get_cell)
  note R = rebal_ok[OF z1 refl eq]
  note t = rebal_t_step[OF a]
  have ino: "inord T = inord (plug1 k t)" unfolding T_def by (rule t(2))
  show g: "p = get_cell h' c' (cell_of cs)" using R(2) by simp
  have TR: "ptree h' (owner cs) T p" using R(1) by (simp add: T_def P)
  have Tn: "T \<noteq> Lf" unfolding T_def by (rule t(5))
  show "p \<noteq> null" "parent h' p = owner cs" "height h' p = ht T" using TR Tn by (cases T; auto)+
  show "avl T" "ht T \<le> crumb_ht k n + 1" "crumb_ht k n \<le> ht T + 1" using t(1,3,4) by (simp_all add: T_def)
  show ie2: "ctx_l cs @ inord T @ ctx_r cs = ctx_l (k # cs) @ inord t @ ctx_r (k # cs)"
    using ie ino by simp
  have m: "moved ?h c (cell_of cs) h' c' (set (inord T))" using R(3) ino P by simp
  show "moved h c (cell_of cs) h' c' (set (inord T))"
    by (rule moved_after_upd[OF ts _ m]) (simp add: ino P)
  have "pctx h' c' S cs (crumb_ht k n)"
    by (rule pctx_moved[OF pk1 m]) (use di2 ino P in auto)
  then show "zipper h' c' S cs (crumb_ht k n) T"
    using TR g di ie2 unfolding zipper_def by (metis)
qed

subsection \<open>The loops\<close>

definition tframe ::
    "('k, 'v) tree_heap \<Rightarrow> tcont \<Rightarrow> ('k, 'v) tree_heap \<Rightarrow> tcont \<Rightarrow> addr set \<Rightarrow> bool" where
  "tframe h c h' c' A \<longleftrightarrow> same_rest h h' \<and> same_cont c c' \<and> (\<forall>a. a \<notin> A \<longrightarrow> tfields h' a = tfields h a)"

lemma tframe_refl [simp]: "tframe h c h c A"
  by (simp add: tframe_def same_rest_def same_cont_def)

lemma tframe_trans: "tframe h c h1 c1 A \<Longrightarrow> tframe h1 c1 h2 c2 A \<Longrightarrow> tframe h c h2 c2 A"
  by (simp add: tframe_def same_rest_def same_cont_def)

lemma tframe_mono: "tframe h c h1 c1 A \<Longrightarrow> A \<subseteq> B \<Longrightarrow> tframe h c h1 c1 B"
  by (auto simp: tframe_def)

lemma moved_tframe:
  assumes "moved h c cell h' c' A" "A \<subseteq> B" "cell_owner cell \<subseteq> B"
  shows "tframe h c h' c' B"
  unfolding tframe_def using movedD(1,2)[OF assms(1)] movedD(4)[OF assms(1)] assms(2,3) by blast

text \<open>The loop starts where the hole has changed its height by at most one, and repairs the tree.\<close>

lemma rebal_upwards_ok:
  assumes "zipper h c {} cs n t" "avl t" "ctx_ok cs n" "ht t \<le> n + 1" "n \<le> ht t + 1"
  shows "\<exists>h' c' T. rebal_upwards h c (owner cs) = Some (h', c') \<and> ptree h' null T (troot c') \<and> avl T \<and>
    inord T = ctx_l cs @ inord t @ ctx_r cs \<and> tframe h c h' c' (set (inord T))"
  using assms
proof (induction cs arbitrary: h c n t)
  case Nil
  then have "ptree h null t (troot c)" by (simp add: zipper_def get_cell_def)
  moreover have "rebal_upwards h c (owner []) = Some (h, c)" by (simp add: rebal_upwards.simps)
  ultimately show ?case using Nil.prems by (intro exI[of _ h] exI[of _ c] exI[of _ t]) simp
next
  case (Cons k cs)
  let ?x = "owner (k # cs)"
  obtain h1 c1 p where e: "rebal (update_height_slope h ?x) c ?x = (h1, c1, p)" by (metis prod_cases3)
  have co: "crumb_ok k n" "ctx_ok cs (crumb_ht k n)" using Cons.prems(3) by simp_all
  define T where "T = rebal_t (plug1 k t)"
  note s = step_ok[OF Cons.prems(1,2) co(1) Cons.prems(4,5) e, folded T_def]
  have x: "?x \<noteq> null" "height h ?x = crumb_ht k n"
    using Cons.prems(1) by (simp_all add: zipper_def Let_def)
  have f: "tframe h c h1 c1 (set (ctx_l cs @ inord T @ ctx_r cs))"
    by (rule moved_tframe[OF s(10)]) (use owner_in[of cs] in \<open>auto simp: cell_owner_of\<close>)
  have unf: "rebal_upwards h c ?x = (if crumb_ht k n = ht T then Some (h1, c1) else rebal_upwards h1 c1 (owner cs))"
    using x e s(4,5) by (simp add: rebal_upwards.simps[of h c])
  show ?case
  proof (cases "crumb_ht k n = ht T")
    case True
    have "ptree h1 null (plug cs T) (troot c1)" using s(1) zipper_plug[of h1 c1 cs T] True by simp
    moreover have "avl (plug cs T)" using avl_plug s(6) co(2) True by simp
    moreover have "inord (plug cs T) = ctx_l cs @ inord T @ ctx_r cs" by (rule inord_plug)
    ultimately show ?thesis using unf True s(9) f by (intro exI[of _ h1] exI[of _ c1] exI[of _ "plug cs T"]) simp
  next
    case False
    obtain h' c' T' where I: "rebal_upwards h1 c1 (owner cs) = Some (h', c')" "ptree h' null T' (troot c')"
      "avl T'" "inord T' = ctx_l cs @ inord T @ ctx_r cs" "tframe h1 c1 h' c' (set (inord T'))"
      using Cons.IH[OF s(1) s(6) co(2) s(7,8)] by blast
    have "tframe h c h' c' (set (inord T'))" by (rule tframe_trans[OF f[folded I(4)] I(5)])
    then show ?thesis using unf False I s(9)
      by (intro exI[of _ h'] exI[of _ c'] exI[of _ T']) simp
  qed
qed

fun ctx_ht :: "crumb list \<Rightarrow> nat \<Rightarrow> nat" where
  "ctx_ht [] n = n"
| "ctx_ht (k # cs) n = ctx_ht cs (crumb_ht k n)"

lemma ctx_ok_append: "ctx_ok (cs @ ds) n \<longleftrightarrow> ctx_ok cs n \<and> ctx_ok ds (ctx_ht cs n)"
  by (induction cs arbitrary: n) auto

lemma ctx_ht_plug: "ctx_ht cs (ht t) = ht (plug cs t)"
  by (induction cs arbitrary: t) (auto simp: plug_Cons ht_plug1 [symmetric])

lemma ctx_ht_append_one: "ctx_ht (ds @ [k]) n = crumb_ht k (ctx_ht ds n)"
  by (induction ds arbitrary: n) auto

lemma zipper_skip:
  assumes "S \<inter> set (ctx_items ds) = {}"
  shows "zipper h c S (ds @ cs) (ht t) t \<longleftrightarrow> zipper h c S cs (ht (plug ds t)) (plug ds t)"
  using assms
proof (induction ds arbitrary: t)
  case (Cons k ds)
  have "owner (k # ds) \<notin> S" "S \<inter> set (ctx_items ds) = {}"
    using Cons.prems by (auto simp: ctx_items_Cons simp del: set_append)
  moreover have "owner (k # ds) = owner (k # ds @ cs)" by (cases k) simp_all
  ultimately have "zipper h c S (k # ds @ cs) (ht t) t \<longleftrightarrow> zipper h c S (ds @ cs) (ht (plug1 k t)) (plug1 k t)"
    by (cases k) (auto simp: zipper_def Let_def get_cell_def)
  then show ?case using Cons.IH[of "plug1 k t"] \<open>S \<inter> set (ctx_items ds) = {}\<close> by (simp add: plug_Cons)
qed simp

lemma zipper_fresh:
  "zipper h c S cs n t \<Longrightarrow> S \<inter> set (ctx_items cs) = {} \<Longrightarrow> zipper h c {} cs n t"
  unfolding zipper_def using pctx_fresh by blast

lemma pctx_inner:
  "pctx h c S (ds @ k # up) n \<Longrightarrow>
     get_cell h c (cell_of up) = owner (k # up) \<and> owner (k # up) \<noteq> null"
  by (induction ds arbitrary: n) (auto simp: Let_def)

lemma owner_append: "owner (ds @ k # up) = (if ds = [] then owner (k # up) else owner ds)"
  by (cases ds rule: owner.cases) auto

text \<open>A balanced item with the right values is left alone.\<close>

lemma step_idle:
  assumes "ptree h q t x" "avl t" "t \<noteq> Lf"
  shows "rebal (update_height_slope h x) c x = (h, c, x)"
proof -
  obtain l r where t: "t = Nd l x r" using assms by (cases t) auto
  have "ptree h x l (left h x)" "ptree h x r (right h x)" using assms(1) t by auto
  note l = this(1) [THEN ptree_height] and r = this(2) [THEN ptree_height]
  have v: "height h x = max (ht l) (ht r) + 1" "slope h x = int (ht l) - int (ht r)"
    using assms(1) t by simp_all
  have "update_height_slope h x = h\<lparr>slope := (slope h)(x := slope h x), height := (height h)(x := height h x)\<rparr>"
    unfolding update_height_slope_def Let_def l r by (simp add: v max_def)
  then have "update_height_slope h x = h" by simp
  then show ?thesis using v assms(2) t by (auto simp: rebal_def)
qed

lemma rebal_inner_ok:
  assumes "zipper h c {nx} (ds @ k # up) n t" "avl t" "ctx_ok (ds @ k # up) n" "ht t \<le> n + 1" "n \<le> ht t + 1"
    and nx: "nx = owner (k # up)"
  shows "\<exists>h' c' T. rebal_inner h c (owner (ds @ k # up)) (cell_of up) (owner up) = Some (h', c', owner up) \<and>
    zipper h' c' {} up (ctx_ht (ds @ [k]) n) T \<and> avl T \<and> ht T \<le> ctx_ht (ds @ [k]) n + 1 \<and>
    ctx_ht (ds @ [k]) n \<le> ht T + 1 \<and>
    ctx_l up @ inord T @ ctx_r up = ctx_l (ds @ k # up) @ inord t @ ctx_r (ds @ k # up) \<and>
    tframe h c h' c' (set (ctx_l up @ inord T @ ctx_r up))"
  using assms(1-5)
proof (induction ds arbitrary: h c n t)
  case Nil
  obtain h1 c1 p where e: "rebal (update_height_slope h nx) c nx = (h1, c1, p)" by (metis prod_cases3)
  have co: "crumb_ok k n" "ctx_ok up (crumb_ht k n)" using Nil.prems(3) by simp_all
  define T where "T = rebal_t (plug1 k t)"
  have z: "zipper h c {nx} (k # up) n t" using Nil.prems(1) by simp
  note s = step_ok[OF z Nil.prems(2) co(1) Nil.prems(4,5) e[unfolded nx], folded T_def]
  have f: "tframe h c h1 c1 (set (ctx_l up @ inord T @ ctx_r up))"
    by (rule moved_tframe[OF s(10)]) (use owner_in[of up] in \<open>auto simp: cell_owner_of\<close>)
  have "distinct (ctx_l (k # up) @ inord t @ ctx_r (k # up))" using z by (simp add: zipper_def)
  then have "{nx} \<inter> set (ctx_items up) = {}" using ctx_items_dist[of k up "inord t"] nx by simp
  then have zf: "zipper h1 c1 {} up (crumb_ht k n) T" by (rule zipper_fresh[OF s(1)])
  have pt: "ptree h1 (owner up) T p" using zf s(2) by (simp add: zipper_def)
  have Tn: "T \<noteq> Lf" using s(3) ptree_null[OF pt] by auto
  have "rebal_inner h c nx (cell_of up) (owner up) = Some (h1, c1, owner up)"
    using e s(2,4) step_idle[OF pt s(6) Tn] by (simp add: rebal_inner.simps[of h c])
  then show ?case using zf s(6,7,8,9) f nx
    by (intro exI[of _ h1] exI[of _ c1] exI[of _ T]) simp
next
  case (Cons j ds)
  let ?cs = "ds @ k # up" and ?x = "owner (j # ds @ k # up)"
  obtain h1 c1 p where e: "rebal (update_height_slope h ?x) c ?x = (h1, c1, p)" by (metis prod_cases3)
  have co: "crumb_ok j n" "ctx_ok ?cs (crumb_ht j n)" using Cons.prems(3) by simp_all
  define T where "T = rebal_t (plug1 j t)"
  have z: "zipper h c {nx} (j # ?cs) n t" using Cons.prems(1) by simp
  note s = step_ok[OF z Cons.prems(2) co(1) Cons.prems(4,5) e, folded T_def]
  have di: "distinct (ctx_l (j # ?cs) @ inord t @ ctx_r (j # ?cs))" using z by (simp add: zipper_def)
  have di2: "distinct (ctx_l ?cs @ inord t @ ctx_r ?cs)" and xo: "?x \<notin> set (ctx_items ?cs)"
    using ctx_items_dist[OF di] by simp_all
  have nin: "nx \<in> set (ctx_items (k # up))" using owner_in[of "k # up"] nx by simp
  have xn: "?x \<noteq> nx" using xo nin by auto
  have hx: "height h ?x = crumb_ht j n" using z xn by (simp add: zipper_def Let_def)
  have f: "tframe h c h1 c1 (set (ctx_l ?cs @ inord T @ ctx_r ?cs))"
    by (rule moved_tframe[OF s(10)]) (use owner_in[of ?cs] in \<open>auto simp: cell_owner_of simp del: ctx_append\<close>)
  have pc1: "pctx h1 c1 {nx} ?cs (crumb_ht j n)" using s(1) by (simp add: zipper_def)
  have q: "get_cell h1 c1 (cell_of up) = nx" "nx \<noteq> null" using pctx_inner[OF pc1] nx by simp_all
  show ?case
  proof (cases "crumb_ht j n = ht T")
    case True
    define U where "U = plug ds T"
    have dd: "{nx} \<inter> set (ctx_items ds) = {}"
    proof -
      have "distinct (ctx_l ds @ ctx_r ds @ ctx_l (k # up) @ ctx_r (k # up))" using di2 by auto
      then show ?thesis using nin by auto
    qed
    have zU: "zipper h1 c1 {nx} (k # up) (ht U) U"
      using s(1) True zipper_skip[OF dd, of h1 c1 "k # up" T] by (simp add: U_def)
    have hU: "ht U = ctx_ht ds (crumb_ht j n)" using True ctx_ht_plug[of ds T] by (simp add: U_def)
    have ok: "ctx_ok ds (ht T)" "crumb_ok k (ht U)" "ctx_ok up (crumb_ht k (ht U))"
      using co(2) True by (simp_all add: ctx_ok_append hU)
    have aU: "avl U" using s(6) ok(1) by (simp add: U_def avl_plug)
    obtain h2 c2 p2 where e2: "rebal (update_height_slope h1 nx) c1 nx = (h2, c2, p2)" by (metis prod_cases3)
    define V where "V = rebal_t (plug1 k U)"
    note s2 = step_ok[OF zU aU ok(2) _ _ e2[unfolded nx], folded V_def]
    have "distinct (ctx_l (k # up) @ inord U @ ctx_r (k # up))" using zU by (simp add: zipper_def)
    then have "{nx} \<inter> set (ctx_items up) = {}" using ctx_items_dist[of k up "inord U"] nx by simp
    then have zf: "zipper h2 c2 {} up (crumb_ht k (ht U)) V" 
      using zipper_fresh[OF s2(1)] by simp
    have f2: "tframe h1 c1 h2 c2 (set (ctx_l up @ inord V @ ctx_r up))"
      by (rule moved_tframe[OF s2(10)]) (use owner_in[of up] in \<open>auto simp: cell_owner_of\<close>)
    have ieU: "ctx_l up @ inord V @ ctx_r up = ctx_l ?cs @ inord T @ ctx_r ?cs"
      using s2(9) by (simp add: U_def inord_plug)
    have F: "tframe h c h2 c2 (set (ctx_l up @ inord V @ ctx_r up))"
      by (rule tframe_trans[OF f[folded ieU] f2])
    have "rebal_inner h c ?x (cell_of up) (owner up) = Some (h2, c2, owner up)"
      using e s(5) hx True q(1) e2 s2(4) by (simp add: rebal_inner.simps[of h c] Let_def)
    then show ?thesis using zf s2(6,7,8) ieU s(9) F hU
      by (intro exI[of _ h2] exI[of _ c2] exI[of _ V]) (simp add: ctx_ht_append_one)
  next
    case False
    have ne: "parent h1 p \<noteq> owner up"
    proof -
      have "owner ?cs \<noteq> null" using pctx_inner[OF pc1] pc1
        by (cases ds) (simp_all add: Let_def)
      moreover have "owner ?cs \<noteq> owner up" if "up \<noteq> []"
      proof (cases ds)
        case Nil
        then show ?thesis using ctx_items_dist[of k up "inord t"] di2 owner_in[OF that] by auto
      next
        case (Cons i ds1)
        then have "owner ?cs \<in> set (ctx_items ds)" using owner_in[of ds] owner_append[of ds k up] by simp
        then show ?thesis using di2 owner_in[OF that] by (cases k) auto
      qed
      ultimately show ?thesis using s(4) by (cases "up = []") auto
    qed
    have unf: "rebal_inner h c ?x (cell_of up) (owner up) = rebal_inner h1 c1 (owner ?cs) (cell_of up) (owner up)"
      using e s(4,5) hx False ne by (simp add: rebal_inner.simps[of h c] Let_def)
    obtain h' c' V where I: "rebal_inner h1 c1 (owner ?cs) (cell_of up) (owner up) = Some (h', c', owner up)"
      "zipper h' c' {} up (ctx_ht (ds @ [k]) (crumb_ht j n)) V" "avl V"
      "ht V \<le> ctx_ht (ds @ [k]) (crumb_ht j n) + 1" "ctx_ht (ds @ [k]) (crumb_ht j n) \<le> ht V + 1"
      "ctx_l up @ inord V @ ctx_r up = ctx_l ?cs @ inord T @ ctx_r ?cs"
      "tframe h1 c1 h' c' (set (ctx_l up @ inord V @ ctx_r up))"
      using Cons.IH[OF s(1) s(6) co(2) s(7,8)] by blast
    have F: "tframe h c h' c' (set (ctx_l up @ inord V @ ctx_r up))"
      by (rule tframe_trans[OF f[folded I(6)] I(7)])
    have J: "ctx_l up @ inord V @ ctx_r up = ctx_l ((j # ds) @ k # up) @ inord t @ ctx_r ((j # ds) @ k # up)"
      unfolding I(6) using s(9) by simp
    have K: "rebal_inner h c (owner ((j # ds) @ k # up)) (cell_of up) (owner up) = Some (h', c', owner up)"
      using unf I(1) by simp
    have N: "ctx_ht ((j # ds) @ [k]) n = ctx_ht (ds @ [k]) (crumb_ht j n)" by simp
    show ?thesis unfolding N using K I(2-5) J F by blast
  qed
qed

lemma rebal_both_ok:
  assumes z: "zipper h c {nx} (ds @ k # up) n t" and a: "avl t" "ctx_ok (ds @ k # up) n"
      "ht t \<le> n + 1" "n \<le> ht t + 1"
    and nx: "nx = owner (k # up)"
  shows "\<exists>h' c' T. Option.bind (rebal_inner h c (owner (ds @ k # up)) (cell_of up) (owner up))
      (\<lambda>(h9, c9, p). rebal_upwards h9 c9 p) = Some (h', c') \<and>
    ptree h' null T (troot c') \<and> avl T \<and>
    inord T = ctx_l (ds @ k # up) @ inord t @ ctx_r (ds @ k # up) \<and> tframe h c h' c' (set (inord T))"
proof -
  let ?n = "ctx_ht (ds @ [k]) n"
  obtain h1 c1 U where I: "rebal_inner h c (owner (ds @ k # up)) (cell_of up) (owner up) = Some (h1, c1, owner up)"
    "zipper h1 c1 {} up ?n U" "avl U" "ht U \<le> ?n + 1" "?n \<le> ht U + 1"
    "ctx_l up @ inord U @ ctx_r up = ctx_l (ds @ k # up) @ inord t @ ctx_r (ds @ k # up)"
    "tframe h c h1 c1 (set (ctx_l up @ inord U @ ctx_r up))"
    using rebal_inner_ok[OF z a nx] by blast
  have "ctx_ok up ?n" using a(2) by (simp add: ctx_ok_append ctx_ht_append_one)
  then obtain h' c' T where J: "rebal_upwards h1 c1 (owner up) = Some (h', c')" "ptree h' null T (troot c')" "avl T"
    "inord T = ctx_l up @ inord U @ ctx_r up" "tframe h1 c1 h' c' (set (inord T))"
    using rebal_upwards_ok[OF I(2,3) _ I(4,5)] by blast
  have "Option.bind (rebal_inner h c (owner (ds @ k # up)) (cell_of up) (owner up))
      (\<lambda>(h9, c9, p). rebal_upwards h9 c9 p) = Some (h', c')" using I(1) J(1) by simp
  moreover have "tframe h c h' c' (set (inord T))"
    by (rule tframe_trans[OF I(7)[folded J(4)] J(5)])
  moreover have "inord T = ctx_l (ds @ k # up) @ inord t @ ctx_r (ds @ k # up)" using J(4) I(6) by simp
  ultimately show ?thesis using J(2,3) by blast
qed

end
