(* ===== verification/Nstd_TreeRemove.thy ===== *)
theory Nstd_TreeRemove
  imports Nstd_AvlTree
begin

text \<open>
  Taking an item out of the search tree of Map and MultiMap: each branch of \<^verbatim>\<open>remove\<close> leaves the
  context of a hole for the rebalancing loops of \<^verbatim>\<open>Nstd_AvlTree\<close>.
\<close>

section \<open>Contexts with another owner\<close>

lemma root_plug: "ds \<noteq> [] \<Longrightarrow> root_of (plug ds t) = owner [last ds]"
proof (induction ds arbitrary: t)
  case (Cons k ds)
  then show ?case by (cases ds; cases k) (auto simp: plug_Cons)
qed simp

lemma pctx_tail: "pctx h c S (ds @ cs) n \<Longrightarrow> pctx h c S cs (ctx_ht ds n)"
  by (induction ds arbitrary: n) (auto simp: Let_def)

text \<open>Another item takes the place of the owner of a crumb.\<close>

lemma pctx_new_owner:
  assumes "pctx h c S (ds @ k # cs) n" "pctx h' c' S' (k' # cs) (ctx_ht ds n)" "S \<subseteq> S'"
    and "ds \<noteq> [] \<Longrightarrow> get_cell h' c' (cell_of (k' # cs)) = owner [last ds]"
    and "ds \<noteq> [] \<Longrightarrow> parent h' (owner [last ds]) = owner (k' # cs)"
    and "\<And>a. a \<in> set (ctx_items ds) \<Longrightarrow> left h' a = left h a \<and> right h' a = right h a \<and>
           height h' a = height h a \<and> slope h' a = slope h a"
    and "\<And>a. a \<in> set (ctx_items ds) \<Longrightarrow> a \<noteq> owner [last ds] \<Longrightarrow> parent h' a = parent h a"
    and "distinct (ctx_items ds)"
  shows "pctx h' c' S' (ds @ k' # cs) n"
  using assms
proof (induction ds arbitrary: n)
  case (Cons j ds)
  let ?x = "owner (j # ds)"
  have x: "owner (j # ds @ k # cs) = ?x" "owner (j # ds @ k' # cs) = ?x" by (cases j; simp)+
  have xin: "?x \<in> set (ctx_items (j # ds))" by (rule owner_in) simp
  have sub: "set (ctx_items ds) \<subseteq> set (ctx_items (j # ds))" by (auto simp: ctx_items_Cons simp del: set_append)
  have "distinct (ctx_l (j # ds) @ [] @ ctx_r (j # ds))" using Cons.prems(8) by simp
  note dd = ctx_items_dist[OF this]
  have la: "owner [last (j # ds)] = owner [last ds]" "owner [last ds] \<in> set (ctx_items ds)" if "ds \<noteq> []"
  proof -
    show "owner [last (j # ds)] = owner [last ds]" using that by simp
    obtain es e where "ds = es @ [e]" using \<open>ds \<noteq> []\<close> by (cases ds rule: rev_cases) auto
    then show "owner [last ds] \<in> set (ctx_items ds)" by (cases e) auto
  qed
  have p: "pctx h c S (ds @ k # cs) (crumb_ht j n)" using Cons.prems(1) by (simp add: Let_def)
  have I: "pctx h' c' S' (ds @ k' # cs) (crumb_ht j n)"
  proof (rule Cons.IH[OF p])
    show "pctx h' c' S' (k' # cs) (ctx_ht ds (crumb_ht j n))" using Cons.prems(2) by simp
    show "S \<subseteq> S'" by fact
    show "ds \<noteq> [] \<Longrightarrow> get_cell h' c' (cell_of (k' # cs)) = owner [last ds]"
      "ds \<noteq> [] \<Longrightarrow> parent h' (owner [last ds]) = owner (k' # cs)" using Cons.prems(4,5) la by simp_all
    show "left h' a = left h a \<and> right h' a = right h a \<and> height h' a = height h a \<and> slope h' a = slope h a"
      if "a \<in> set (ctx_items ds)" for a using Cons.prems(6)[of a] that sub by blast
    show "parent h' a = parent h a" if "a \<in> set (ctx_items ds)" "a \<noteq> owner [last ds]" for a
    proof -
      have "ds \<noteq> []" using that by auto
      then show ?thesis using Cons.prems(7)[of a] that sub la by auto
    qed
    show "distinct (ctx_items ds)" using dd by simp
  qed
  have par: "parent h' ?x = owner (ds @ k' # cs)"
  proof (cases "ds = []")
    case True
    then show ?thesis using Cons.prems(5) by simp
  next
    case False
    then have "?x \<noteq> owner [last (j # ds)]" using la dd by auto
    from Cons.prems(7)[OF xin this] show ?thesis using Cons.prems(1) False x
      by (simp add: Let_def owner_append)
  qed
  have cel: "get_cell h' c' (cell_of (ds @ k' # cs)) = ?x"
  proof (cases ds)
    case Nil
    then show ?thesis using Cons.prems(4) by simp
  next
    case (Cons i es)
    have "owner ds \<in> set (ctx_items (j # ds))" using owner_in[of ds] sub Cons by auto
    then have "left h' (owner ds) = left h (owner ds)" "right h' (owner ds) = right h (owner ds)"
      using Cons.prems(6) by blast+
    then show ?thesis using Cons.prems(1) x Cons by (cases i) (simp_all add: Let_def get_cell_def)
  qed
  have si: "sibling h' j"
  proof -
    have t: "tfields h' a = tfields h a" if a: "a \<in> set (inord (plug1 j Lf))" "a \<noteq> ?x" for a
    proof -
      have i: "a \<in> set (ctx_items (j # ds))" using a by (simp add: ctx_items_Cons del: set_append)
      have "a \<notin> set (ctx_items ds)" using Cons.prems(8) a by (cases j) auto
      then have "a \<noteq> owner [last (j # ds)]" using la a(2) by (cases "ds = []") auto
      then show ?thesis using Cons.prems(6)[OF i] Cons.prems(7)[OF i] by (simp add: tfields_def)
    qed
    show ?thesis
    proof (cases j)
      case (CL y r)
      have "ptree h y r (right h y)" using Cons.prems(1) CL by (simp add: Let_def)
      then have "ptree h' y r (right h y)" by (rule ptree_frame) (rule t, use CL Cons.prems(8) in auto)
      then show ?thesis using Cons.prems(6)[OF xin] CL by simp
    next
      case (CR l y)
      have "ptree h y l (left h y)" using Cons.prems(1) CR by (simp add: Let_def)
      then have "ptree h' y l (left h y)" by (rule ptree_frame) (rule t, use CR Cons.prems(8) in auto)
      then show ?thesis using Cons.prems(6)[OF xin] CR by simp
    qed
  qed
  show ?case using Cons.prems(1,3) I par cel si Cons.prems(6)[OF xin] x by (auto simp: Let_def)
qed simp

lemma moved_set_cell:
  assumes "set_cell h c cell v = (h1, c1)"
  shows "moved h c cell h1 c1 {}"
proof -
  have "h1 = fst (set_cell h c cell v)" "c1 = snd (set_cell h c cell v)" using assms by simp_all
  then show ?thesis by (simp add: moved_def)
qed

text \<open>The place of an item with one child, or with none, is taken by the child.\<close>

lemma splice_ok:
  assumes z: "zipper h c {} cs n T" and T: "T = Nd l x r" and av: "avl T" "ctx_ok cs n" "n = ht T"
    and t: "l = Lf \<and> t = r \<or> r = Lf \<and> t = l"
    and sc: "set_cell h c (cell_of cs) (root_of t) = (h1, c1)"
    and h2: "h2 = (if t = Lf then h1 else h1\<lparr>parent := (parent h1)(root_of t := owner cs)\<rparr>)"
  shows "\<exists>h' c' T'. rebal_upwards h2 c1 (owner cs) = Some (h', c') \<and> ptree h' null T' (troot c') \<and> avl T' \<and>
    inord T' = ctx_l cs @ inord t @ ctx_r cs \<and> tframe h c h' c' (set (ctx_l cs @ inord T @ ctx_r cs))"
proof -
  let ?cell = "cell_of cs" and ?y = "root_of t"
  have pt: "ptree h (owner cs) T (get_cell h c ?cell)" and pc: "pctx h c {} cs n"
    and di: "distinct (ctx_l cs @ inord T @ ctx_r cs)" using z by (auto simp: zipper_def)
  obtain a where ch: "ptree h x t a" using pt T t by auto
  have ay: "a = ?y" using ptree_root[OF ch] .
  have yi: "t \<noteq> Lf \<Longrightarrow> ?y \<in> set (inord t)" by (rule root_in)
  have tT: "set (inord t) \<subseteq> set (inord T)" using T t by auto
  have ow: "cell_owner ?cell \<inter> set (inord T) = {}"
    using di owner_in[of cs] by (auto simp: cell_owner_of)
  have h1: "h1 = fst (set_cell h c ?cell ?y)" "c1 = snd (set_cell h c ?cell ?y)" using sc by simp_all
  have fld: "height h2 = height h" "slope h2 = slope h"
    "parent h2 b = (if t \<noteq> Lf \<and> b = ?y then owner cs else parent h b)"
    "left h2 b = (if ?cell = LeftOf b then ?y else left h b)"
    "right h2 b = (if ?cell = RightOf b then ?y else right h b)" for b
    by (simp_all add: h2 h1)
  have sr: "same_rest h h2"
    using set_cell_same_rest[of h c ?cell ?y] by (cases "t = Lf"; simp add: h2 h1 same_rest_def)
  have g: "get_cell h2 c1 ?cell = ?y"
    by (cases ?cell) (simp_all add: get_cell_def fld h1 set_cell_def)
  have m: "moved h c ?cell h2 c1 (set (inord t))"
  proof (rule movedI[OF sr])
    show "c1 = snd (set_cell h c ?cell (get_cell h2 c1 ?cell))" unfolding g by (rule h1(2))
  qed (use fld yi in auto)
  have p2: "pctx h2 c1 {} cs n"
    by (rule pctx_moved[OF pc m]) (use di tT in auto)
  have ct: "?cell \<noteq> LeftOf b" "?cell \<noteq> RightOf b" if "b \<in> set (inord t)" for b
    using ow that tT by (auto simp: cell_owner_def)
  have "ptree h2 (owner cs) t a"
  proof (rule ptree_reparent[OF ch])
    show "distinct (inord t)" using di T t by auto
    show "tfields h2 b = tfields h b" if "b \<in> set (inord t)" "b \<noteq> a" for b
      using that ct[OF that(1)] by (auto simp: tfields_def fld ay)
    assume "a \<noteq> null"
    then have "t \<noteq> Lf" using ay by auto
    then show "parent h2 a = owner cs \<and> left h2 a = left h a \<and> right h2 a = right h a \<and>
        height h2 a = height h a \<and> slope h2 a = slope h a"
      using ct[OF yi] by (auto simp: fld ay)
  qed
  then have z2: "zipper h2 c1 {} cs n t"
    using p2 g ay di T t unfolding zipper_def by auto
  have "avl t" "ht t \<le> n + 1" "n \<le> ht t + 1" using av T t by auto
  then obtain h' c' T' where R: "rebal_upwards h2 c1 (owner cs) = Some (h', c')" "ptree h' null T' (troot c')" "avl T'"
    "inord T' = ctx_l cs @ inord t @ ctx_r cs" "tframe h2 c1 h' c' (set (inord T'))"
    using rebal_upwards_ok[OF z2 _ av(2)] by blast
  let ?A = "set (ctx_l cs @ inord T @ ctx_r cs)"
  have "tframe h c h2 c1 ?A"
    by (rule moved_tframe[OF m]) (use tT owner_in[of cs] in \<open>auto simp: cell_owner_of\<close>)
  moreover have "tframe h2 c1 h' c' ?A" by (rule tframe_mono[OF R(5)]) (use R(4) tT in auto)
  ultimately have "tframe h c h' c' ?A" by (rule tframe_trans)
  then show ?thesis using R by blast
qed

lemma around_hole:
  assumes "distinct (us @ ts @ vs)"
  shows "distinct (us @ vs)" "A \<subseteq> set ts \<Longrightarrow> A \<inter> set (us @ vs) = {}"
  using assms by auto


text \<open>The successor takes the place of an item whose right side is higher.\<close>

lemma unlink_next_near:
  assumes z: "zipper h c {} cs (ht T) T" and T: "T = Nd l x (Nd Lf nx nr)" and ln: "l \<noteq> Lf"
    and sc: "set_cell h c (cell_of cs) nx = (h1, c1)"
    and h4: "h4 = h1\<lparr>left := (left h1)(nx := root_of l), parent := (parent h1)(nx := owner cs, root_of l := nx)\<rparr>"
  shows "zipper h4 c1 {nx} (CR l nx # cs) (ht (Nd Lf nx nr)) nr"
    "tframe h c h4 c1 (set (ctx_l cs @ inord T @ ctx_r cs))"
proof -
  let ?cell = "cell_of cs" and ?y = "root_of l"
  have pt: "ptree h (owner cs) T (get_cell h c ?cell)" and pc: "pctx h c {} cs (ht T)"
    and di: "distinct (ctx_l cs @ inord T @ ctx_r cs)" using z by (auto simp: zipper_def)
  have ch: "ptree h x l (left h x)" "ptree h nx nr (right h nx)" "nx \<noteq> null" using pt T by auto
  have ay: "left h x = ?y" using ptree_root[OF ch(1)] .
  have yi: "?y \<in> set (inord l)" by (rule root_in[OF ln])
  have ow: "cell_owner ?cell \<inter> set (inord T) = {}"
    using di owner_in[of cs] by (auto simp: cell_owner_of)
  have h1: "h1 = fst (set_cell h c ?cell nx)" "c1 = snd (set_cell h c ?cell nx)" using sc by simp_all
  have nxy: "nx \<noteq> ?y" using di T yi by auto
  have fld: "height h4 = height h" "slope h4 = slope h"
    "parent h4 b = (if b = ?y then nx else if b = nx then owner cs else parent h b)"
    "left h4 b = (if b = nx then ?y else if ?cell = LeftOf b then nx else left h b)"
    "right h4 b = (if ?cell = RightOf b then nx else right h b)" for b
    by (simp_all add: h4 h1)
  have sr: "same_rest h h4"
    using set_cell_same_rest[of h c ?cell nx] by (simp add: h4 h1 same_rest_def)
  have ct: "?cell \<noteq> LeftOf b" "?cell \<noteq> RightOf b" if "b \<in> set (inord T)" for b
    using ow that by (auto simp: cell_owner_def)
  have nT: "nx \<in> set (inord T)" using T by simp
  have g: "get_cell h4 c1 ?cell = nx"
    using ct[OF nT] by (cases ?cell) (simp_all add: get_cell_def fld h1 set_cell_def)
  have m: "moved h c ?cell h4 c1 {nx, ?y}"
  proof (rule movedI[OF sr])
    show "c1 = snd (set_cell h c ?cell (get_cell h4 c1 ?cell))" unfolding g by (rule h1(2))
  qed (use fld in auto)
  have p4: "pctx h4 c1 {} cs (ht T)"
    by (rule pctx_moved[OF pc m]) (use di T yi in auto)
  have tl: "ptree h4 nx l ?y"
  proof (rule ptree_reparent[OF ch(1)[unfolded ay]])
    show "distinct (inord l)" using di T by auto
    show "tfields h4 b = tfields h b" if "b \<in> set (inord l)" "b \<noteq> ?y" for b
    proof -
      have "b \<noteq> nx" "b \<in> set (inord T)" using that di T by auto
      then show ?thesis using ct[of b] that by (auto simp: tfields_def fld)
    qed
    show "parent h4 ?y = nx \<and> left h4 ?y = left h ?y \<and> right h4 ?y = right h ?y \<and>
        height h4 ?y = height h ?y \<and> slope h4 ?y = slope h ?y"
      using ct[of ?y] yi nxy T by (auto simp: fld)
  qed
  have tr: "ptree h4 nx nr (right h4 nx)"
  proof -
    have "ptree h4 nx nr (right h nx)"
    proof (rule ptree_frame[OF ch(2)])
      fix b assume b: "b \<in> set (inord nr)"
      then have "b \<noteq> nx" "b \<noteq> ?y" "b \<in> set (inord T)" using di T yi by auto
      then show "tfields h4 b = tfields h b" using ct[of b] by (auto simp: tfields_def fld)
    qed
    then show ?thesis using ct[OF nT] by (simp add: fld)
  qed
  have lf: "left h4 nx = ?y" "parent h4 nx = owner cs" using nxy by (simp_all add: fld)
  show "tframe h c h4 c1 (set (ctx_l cs @ inord T @ ctx_r cs))"
    by (rule moved_tframe[OF m]) (use T yi owner_in[of cs] in \<open>auto simp: cell_owner_of\<close>)
  have "pctx h4 c1 {nx} cs (ht T)" by (rule pctx_stale[OF p4]) simp
  moreover have "ht T = crumb_ht (CR l nx) (ht (Nd Lf nx nr))" by (simp add: T)
  ultimately have "pctx h4 c1 {nx} (CR l nx # cs) (ht (Nd Lf nx nr))"
    using g tl lf ch(3) by (simp add: Let_def)
  moreover have "ptree h4 (owner (CR l nx # cs)) nr (get_cell h4 c1 (cell_of (CR l nx # cs)))"
    using tr by (simp add: get_cell_def)
  moreover have "distinct (ctx_l (CR l nx # cs) @ inord nr @ ctx_r (CR l nx # cs))"
    using di T by auto
  ultimately show "zipper h4 c1 {nx} (CR l nx # cs) (ht (Nd Lf nx nr)) nr"
    unfolding zipper_def by blast
qed

lemma unlink_next_far:
  assumes z: "zipper h c {} cs (ht T) T" and T: "T = Nd l x (plug ds (Nd Lf nx nr))" and ln: "l \<noteq> Lf"
    and ds: "ds = CL np rr # ds'"
    and h2: "h2 = (if nr = Lf then h\<lparr>left := (left h)(np := null)\<rparr>
             else h\<lparr>left := (left h)(np := root_of nr), parent := (parent h)(root_of nr := np)\<rparr>)"
    and sc: "set_cell h2 c (cell_of cs) nx = (h3, c3)"
    and h8: "h8 = h3\<lparr>left := (left h3)(nx := root_of l), right := (right h3)(nx := right h x),
               parent := (parent h3)(nx := owner cs, root_of l := nx, right h x := nx)\<rparr>"
  shows "zipper h8 c3 {nx} (ds @ CR l nx # cs) (ht (Nd Lf nx nr)) nr"
    "tframe h c h8 c3 (set (ctx_l cs @ inord T @ ctx_r cs))"
proof -
  let ?cell = "cell_of cs" and ?y = "root_of l" and ?t = "Nd Lf nx nr" and ?top = "owner [last ds]"
  have pt: "ptree h (owner cs) T (get_cell h c ?cell)"
    and di: "distinct (ctx_l cs @ inord T @ ctx_r cs)" using z by (auto simp: zipper_def)
  have iT: "set (inord T) = insert x (set (inord l) \<union> set (ctx_items ds) \<union> insert nx (set (inord nr)))"
    by (auto simp: T inord_plug)
  have dcs: "set (inord T) \<inter> set (ctx_items cs) = {}" and dT: "distinct (inord T)" using di by auto
  have dis: "distinct (inord l @ x # ctx_items ds @ nx # inord nr)"
    using dT by (simp add: T inord_plug) blast
  have ch: "ptree h x l (left h x)" "x \<noteq> null" using pt T by auto
  have ay: "left h x = ?y" using ptree_root[OF ch(1)] .
  have yi: "?y \<in> set (inord l)" by (rule root_in[OF ln])
  have rx: "right h x = ?top"
    using pt T ptree_root[of h x "plug ds ?t" "right h x"] root_plug[of ds ?t] ds by simp
  have topin: "?top \<in> set (ctx_items ds)"
  proof -
    obtain es e where "ds = es @ [e]" by (rule that[of "butlast ds" "last ds"]) (simp add: ds)
    then show ?thesis by (cases e) auto
  qed
  have npin: "np \<in> set (ctx_items ds)" by (simp add: ds)
  \<comment> \<open>the item to move is cut out of its place\<close>
  have z0: "zipper h c {} (ds @ CR l x # cs) (ht ?t) ?t"
  proof -
    have "zipper h c {} (CR l x # cs) (ht (plug ds ?t)) (plug ds ?t)"
      using z unfolding T by (simp add: zipper_Cons)
    then show ?thesis using zipper_skip[of "{}" ds h c "CR l x # cs" ?t] by simp
  qed
  have pt0: "ptree h np ?t (left h np)" and pc0: "pctx h c {} (ds @ CR l x # cs) (ht ?t)"
    using z0 by (auto simp: zipper_def ds get_cell_def)
  have chn: "ptree h nx nr (right h nx)" "nx \<noteq> null" using pt0 by auto
  have an: "right h nx = root_of nr" using ptree_root[OF chn(1)] .
  have ni: "nr \<noteq> Lf \<Longrightarrow> root_of nr \<in> set (inord nr)" by (rule root_in)
  have f2: "height h2 = height h" "slope h2 = slope h" "right h2 = right h"
    "left h2 b = (if b = np then root_of nr else left h b)"
    "parent h2 b = (if nr \<noteq> Lf \<and> b = root_of nr then np else parent h b)" for b
    by (simp_all add: h2)
  have sr2: "same_rest h h2" by (simp add: h2 same_rest_def)
  have m2: "moved h c (cell_of (ds @ CR l x # cs)) h2 c (set (inord nr))"
    by (rule movedI[OF sr2]) (use f2 ni in \<open>auto simp: ds set_cell_def\<close>)
  have pc2: "pctx h2 c {} (ds @ CR l x # cs) (ht ?t)"
  proof (rule pctx_moved[OF pc0 m2])
    have dz: "distinct (ctx_l (ds @ CR l x # cs) @ inord ?t @ ctx_r (ds @ CR l x # cs))"
      using z0 unfolding zipper_def by blast
    show "distinct (ctx_items (ds @ CR l x # cs))" by (rule around_hole(1)[OF dz])
    show "set (inord nr) \<inter> set (ctx_items (ds @ CR l x # cs)) = {}"
      by (rule around_hole(2)[OF dz]) auto
  qed
  have pcs: "pctx h2 c {} cs (ht T)"
    using pctx_tail[OF pc2] ctx_ht_plug[of ds ?t] by (simp add: T Let_def)
  have t2: "ptree h2 np nr (root_of nr)"
  proof (rule ptree_reparent[OF chn(1)[unfolded an]])
    show "distinct (inord nr)" using dis by auto
    show "tfields h2 b = tfields h b" if "b \<in> set (inord nr)" "b \<noteq> root_of nr" for b
    proof -
      have "b \<noteq> np" using that dis npin by auto
      then show ?thesis using that by (simp add: tfields_def f2)
    qed
    assume "root_of nr \<noteq> null"
    then have "nr \<noteq> Lf" by auto
    with ni have "root_of nr \<noteq> np" using dis npin by auto
    then show "parent h2 (root_of nr) = np \<and> left h2 (root_of nr) = left h (root_of nr) \<and>
        right h2 (root_of nr) = right h (root_of nr) \<and> height h2 (root_of nr) = height h (root_of nr) \<and>
        slope h2 (root_of nr) = slope h (root_of nr)"
      using \<open>nr \<noteq> Lf\<close> by (simp add: f2)
  qed
  \<comment> \<open>and put where \<open>x\<close> was\<close>
  have ow: "cell_owner ?cell \<inter> set (inord T) = {}"
    using dcs owner_in[of cs] by (auto simp: cell_owner_of)
  have ct: "?cell \<noteq> LeftOf b" "?cell \<noteq> RightOf b" if "b \<in> set (inord T)" for b
    using ow that by (auto simp: cell_owner_def)
  have h3: "h3 = fst (set_cell h2 c ?cell nx)" "c3 = snd (set_cell h2 c ?cell nx)" using sc by simp_all
  have ne: "nx \<noteq> ?y" "nx \<noteq> ?top" "?y \<noteq> ?top" using dis yi topin by auto
  have f8: "height h8 = height h2" "slope h8 = slope h2"
    "parent h8 b = (if b = ?top then nx else if b = ?y then nx else if b = nx then owner cs else parent h2 b)"
    "left h8 b = (if b = nx then ?y else if ?cell = LeftOf b then nx else left h2 b)"
    "right h8 b = (if b = nx then ?top else if ?cell = RightOf b then nx else right h2 b)" for b
    by (simp_all add: h8 h3 rx)
  have sr8: "same_rest h2 h8"
    using set_cell_same_rest[of h2 c ?cell nx] by (simp add: h8 h3 same_rest_def)
  have nT: "nx \<in> set (inord T)" by (simp add: iT)
  have g: "get_cell h8 c3 ?cell = nx"
    using ct[OF nT] by (cases ?cell) (simp_all add: get_cell_def f8 h3 set_cell_def)
  have m8: "moved h2 c ?cell h8 c3 {nx, ?y, ?top}"
  proof (rule movedI[OF sr8])
    show "c3 = snd (set_cell h2 c ?cell (get_cell h8 c3 ?cell))" unfolding g by (rule h3(2))
  qed (use f8 in auto)
  have A8: "{nx, ?y, ?top} \<subseteq> set (inord T)" using yi topin unfolding iT by blast
  have p8: "pctx h8 c3 {} cs (ht T)"
    by (rule pctx_moved[OF pcs m8]) (use di A8 dcs in auto)
  have same8: "tfields h8 b = tfields h2 b" if "b \<in> set (inord T)" "b \<noteq> nx" "b \<noteq> ?y" "b \<noteq> ?top" for b
    using ct[OF that(1)] that by (auto simp: tfields_def f8)
  have same2: "tfields h2 b = tfields h b" if "b \<notin> set (inord nr)" "b \<noteq> np" for b
    using that ni by (auto simp: tfields_def f2)
  have tl: "ptree h8 nx l ?y"
  proof (rule ptree_reparent[OF ch(1)[unfolded ay]])
    show "distinct (inord l)" using dis by auto
    fix b assume b: "b \<in> set (inord l)"
    have o: "b \<noteq> nx" "b \<noteq> ?top" "b \<in> set (inord T)" "b \<notin> set (inord nr)" "b \<noteq> np"
      using b dis topin npin unfolding iT by auto
    show "tfields h8 b = tfields h b" if "b \<noteq> ?y"
      using same8[OF o(3,1) that o(2)] same2[OF o(4,5)] by simp
  next
    have o: "?y \<in> set (inord T)" "?y \<notin> set (inord nr)" "?y \<noteq> np" using yi dis npin unfolding iT by auto
    show "parent h8 ?y = nx \<and> left h8 ?y = left h ?y \<and> right h8 ?y = right h ?y \<and>
        height h8 ?y = height h ?y \<and> slope h8 ?y = slope h ?y"
      using ct[OF o(1)] ne o by (auto simp: f8 f2)
  qed
  have tn: "ptree h8 np nr (left h8 np)"
  proof -
    have "ptree h8 np nr (root_of nr)"
    proof (rule ptree_frame[OF t2])
      fix b assume b: "b \<in> set (inord nr)"
      show "tfields h8 b = tfields h2 b"
        by (rule same8) (use b dis yi topin in \<open>auto simp: iT\<close>)
    qed
    moreover have "np \<noteq> nx" "np \<in> set (inord T)" using dis npin unfolding iT by auto
    ultimately show ?thesis using ct[of np] by (simp add: f8 f2)
  qed
  have hT: "ht T = crumb_ht (CR l nx) (ctx_ht ds (ht ?t))"
    using ctx_ht_plug[of ds ?t] by (simp add: T)
  have base: "pctx h8 c3 {nx} (CR l nx # cs) (ctx_ht ds (ht ?t))"
    using pctx_stale[OF p8, of "{nx}"] tl g ne chn(2) unfolding hT by (simp add: Let_def f8)
  have full: "pctx h8 c3 {nx} (ds @ CR l nx # cs) (ht ?t)"
  proof (rule pctx_new_owner[OF pc2 base])
    show "get_cell h8 c3 (cell_of (CR l nx # cs)) = ?top" by (simp add: get_cell_def f8)
    show "parent h8 ?top = owner (CR l nx # cs)" by (simp add: f8)
    fix b assume b: "b \<in> set (ctx_items ds)"
    have o: "b \<noteq> nx" "b \<noteq> ?y" "b \<in> set (inord T)" using b dis yi unfolding iT by auto
    show "left h8 b = left h2 b \<and> right h8 b = right h2 b \<and> height h8 b = height h2 b \<and> slope h8 b = slope h2 b"
      using ct[OF o(3)] o by (auto simp: f8)
    show "parent h8 b = parent h2 b" if "b \<noteq> ?top" using o that by (auto simp: f8)
  qed (use dis in auto)
  have "ptree h8 (owner (ds @ CR l nx # cs)) nr (get_cell h8 c3 (cell_of (ds @ CR l nx # cs)))"
    using tn by (simp add: ds get_cell_def)
  moreover have "distinct (ctx_l (ds @ CR l nx # cs) @ inord nr @ ctx_r (ds @ CR l nx # cs))"
    using di unfolding T by (auto simp: inord_plug)
  ultimately show "zipper h8 c3 {nx} (ds @ CR l nx # cs) (ht ?t) nr"
    using full unfolding zipper_def by blast
  let ?A = "set (ctx_l cs @ inord T @ ctx_r cs)"
  have "tframe h c h2 c ?A"
    by (rule moved_tframe[OF m2]) (use iT npin in \<open>auto simp: cell_owner_def ds\<close>)
  moreover have "tframe h2 c h8 c3 ?A"
    by (rule moved_tframe[OF m8]) (use A8 owner_in[of cs] in \<open>auto simp: cell_owner_of\<close>)
  ultimately show "tframe h c h8 c3 ?A" by (rule tframe_trans)
qed

lemma unlink_next_ok:
  assumes z: "zipper h c {} cs (ht T) T" and T: "T = Nd l x r" and av: "avl (plug cs T)" and ln: "l \<noteq> Lf"
    and hr: "ht l < ht r" and nx: "nextp h x = nx" "inord r = nx # xs"
  shows "\<exists>h' c' T'. tree_unlink h c x = Some (h', c') \<and> ptree h' null T' (troot c') \<and> avl T' \<and>
    inord T' = ctx_l cs @ inord l @ inord r @ ctx_r cs \<and> tframe h c h' c' (set (ctx_l cs @ inord T @ ctx_r cs))"
proof -
  let ?A = "set (ctx_l cs @ inord T @ ctx_r cs)"
  have pt: "ptree h (owner cs) T (get_cell h c (cell_of cs))" and pc: "pctx h c {} cs (ht T)"
    and di: "distinct (ctx_l cs @ inord T @ ctx_r cs)" using z by (auto simp: zipper_def)
  have x: "get_cell h c (cell_of cs) = x" "x \<noteq> null" "parent h x = owner cs"
    and pl: "ptree h x l (left h x)" and pr: "ptree h x r (right h x)" using pt T by auto
  have "cell_at h x = cell_of cs" by (rule cell_at_hole[OF pc x(1,3) _ x(2)]) (use di T in auto)
  then have cell: "(if owner cs \<noteq> null then if x = left h (owner cs) then LeftOf (owner cs) else RightOf (owner cs)
      else RootCell) = cell_of cs"
    by (auto simp: cell_at_def Let_def x(3))
  have rn: "r \<noteq> Lf" using nx(2) by auto
  have lr: "left h x = root_of l" "root_of l \<noteq> null" "right h x = root_of r" "root_of r \<noteq> null"
    "height h (root_of l) = ht l" "height h (root_of r) = ht r"
    using ptree_root[OF pl] ptree_root[OF pr] ptree_null[OF pl] ptree_null[OF pr] ln rn
      ptree_height[OF pl] ptree_height[OF pr] by (auto split: if_splits)
  have avT: "avl T" "ctx_ok cs (ht T)" using av by (simp_all add: avl_plug)
  obtain ds nr where D: "r = plug ds (Nd Lf nx nr)" "ctx_l ds = []"
    using leftmost_split[OF nx(2)] by blast
  show ?thesis
  proof (cases ds)
    case Nil
    have r: "r = Nd Lf nx nr" using D Nil by simp
    have T': "T = Nd l x (Nd Lf nx nr)" using T r by simp
    have pn: "parent h nx = x" using pr r by auto
    obtain h1 c1 where sc: "set_cell h c (cell_of cs) nx = (h1, c1)" by fastforce
    define h4 where "h4 = h1\<lparr>left := (left h1)(nx := root_of l), parent := (parent h1)(nx := owner cs, root_of l := nx)\<rparr>"
    note N = unlink_next_near[OF z T' ln sc h4_def]
    have co: "avl nr" "ctx_ok (CR l nx # cs) (ht r)" "ht nr \<le> ht r + 1" "ht r \<le> ht nr + 1"
      using avT T' r by auto
    have B: "tree_unlink h c x = Option.bind (rebal_inner h4 c1 nx (cell_of cs) (owner cs))
        (\<lambda>(h5, c5, p). rebal_upwards h5 c5 p)"
      unfolding tree_unlink_def x(3) cell Let_def
      using lr hr nx(1) pn sc by (simp add: h4_def split_beta)
    obtain h' c' T2 where R: "Option.bind (rebal_inner h4 c1 nx (cell_of cs) (owner cs))
        (\<lambda>(h5, c5, p). rebal_upwards h5 c5 p) = Some (h', c')" "ptree h' null T2 (troot c')" "avl T2"
      "inord T2 = ctx_l (CR l nx # cs) @ inord nr @ ctx_r (CR l nx # cs)" "tframe h4 c1 h' c' (set (inord T2))"
      using rebal_both_ok[of h4 c1 nx "[]" "CR l nx" cs "ht r" nr] N(1) co r by auto
    have "tframe h4 c1 h' c' ?A" by (rule tframe_mono[OF R(5)]) (use R(4) T' in auto)
    then have "tframe h c h' c' ?A" by (rule tframe_trans[OF N(2)])
    moreover have "inord T2 = ctx_l cs @ inord l @ inord r @ ctx_r cs" using R(4) nx(2) r by simp
    ultimately show ?thesis using B R(1-3) by auto
  next
    case (Cons k ds')
    then obtain np rr where k: "k = CL np rr" using D(2) by (cases k) auto
    have ds: "ds = CL np rr # ds'" using Cons k by simp
    have T': "T = Nd l x (plug ds (Nd Lf nx nr))" using T D(1) by simp
    have "zipper h c {} (CR l x # cs) (ht (plug ds (Nd Lf nx nr))) (plug ds (Nd Lf nx nr))"
      using z T' by (simp add: zipper_Cons)
    then have z0: "zipper h c {} (ds @ CR l x # cs) (ht (Nd Lf nx nr)) (Nd Lf nx nr)"
      using zipper_skip[of "{}" ds h c "CR l x # cs" "Nd Lf nx nr"] by simp
    have pn: "parent h nx = np" "right h nx = root_of nr" "nr \<noteq> Lf \<Longrightarrow> root_of nr \<noteq> null"
      using z0 ptree_root[of h nx nr "right h nx"] ptree_null[of h nx nr "right h nx"]
      by (auto simp: zipper_def ds)
    have npx: "np \<noteq> x" using di T' by (auto simp: inord_plug ds)
    define h2 where "h2 = (if nr = Lf then h\<lparr>left := (left h)(np := null)\<rparr>
             else h\<lparr>left := (left h)(np := root_of nr), parent := (parent h)(root_of nr := np)\<rparr>)"
    obtain h3 c3 where sc: "set_cell h2 c (cell_of cs) nx = (h3, c3)" by fastforce
    define h8 where "h8 = h3\<lparr>left := (left h3)(nx := root_of l), right := (right h3)(nx := right h x),
               parent := (parent h3)(nx := owner cs, root_of l := nx, right h x := nx)\<rparr>"
    note N = unlink_next_far[OF z T' ln ds h2_def sc h8_def]
    have "avl (plug (ds @ CR l nx # cs) (Nd Lf nx nr))"
      using av T' by (simp add: plug_append avl_plug)
    then have co: "avl nr" "ctx_ok (ds @ CR l nx # cs) (ht (Nd Lf nx nr))"
      "ht nr \<le> ht (Nd Lf nx nr) + 1" "ht (Nd Lf nx nr) \<le> ht nr + 1"
      unfolding avl_plug by auto
    have B: "tree_unlink h c x = Option.bind (rebal_inner h8 c3 np (cell_of cs) (owner cs))
        (\<lambda>(h5, c5, p). rebal_upwards h5 c5 p)"
      unfolding tree_unlink_def x(3) cell Let_def
      by (cases "nr = Lf") (use lr hr nx(1) pn npx sc in \<open>simp_all add: h8_def h2_def split_beta\<close>)
    obtain h' c' T2 where R: "Option.bind (rebal_inner h8 c3 np (cell_of cs) (owner cs))
        (\<lambda>(h5, c5, p). rebal_upwards h5 c5 p) = Some (h', c')" "ptree h' null T2 (troot c')" "avl T2"
      "inord T2 = ctx_l (ds @ CR l nx # cs) @ inord nr @ ctx_r (ds @ CR l nx # cs)"
      "tframe h8 c3 h' c' (set (inord T2))"
      using rebal_both_ok[OF N(1) co] by (auto simp: ds)
    have "tframe h8 c3 h' c' ?A" by (rule tframe_mono[OF R(5)]) (use R(4) T' in \<open>auto simp: inord_plug\<close>)
    then have "tframe h c h' c' ?A" by (rule tframe_trans[OF N(2)])
    moreover have "inord T2 = ctx_l cs @ inord l @ inord r @ ctx_r cs" using R(4) nx(2) D by (simp add: inord_plug)
    ultimately show ?thesis using B R(1-3) by auto
  qed
qed

text \<open>Otherwise the predecessor takes it.\<close>

lemma unlink_prev_near:
  assumes z: "zipper h c {} cs (ht T) T" and T: "T = Nd (Nd pl px Lf) x r" and ln: "r \<noteq> Lf"
    and sc: "set_cell h c (cell_of cs) px = (h1, c1)"
    and h4: "h4 = h1\<lparr>right := (right h1)(px := root_of r), parent := (parent h1)(px := owner cs, root_of r := px)\<rparr>"
  shows "zipper h4 c1 {px} (CL px r # cs) (ht (Nd pl px Lf)) pl"
    "tframe h c h4 c1 (set (ctx_l cs @ inord T @ ctx_r cs))"
proof -
  let ?cell = "cell_of cs" and ?y = "root_of r"
  have pt: "ptree h (owner cs) T (get_cell h c ?cell)" and pc: "pctx h c {} cs (ht T)"
    and di: "distinct (ctx_l cs @ inord T @ ctx_r cs)" using z by (auto simp: zipper_def)
  have ch: "ptree h x r (right h x)" "ptree h px pl (left h px)" "px \<noteq> null" using pt T by auto
  have ay: "right h x = ?y" using ptree_root[OF ch(1)] .
  have yi: "?y \<in> set (inord r)" by (rule root_in[OF ln])
  have ow: "cell_owner ?cell \<inter> set (inord T) = {}"
    using di owner_in[of cs] by (auto simp: cell_owner_of)
  have h1: "h1 = fst (set_cell h c ?cell px)" "c1 = snd (set_cell h c ?cell px)" using sc by simp_all
  have nxy: "px \<noteq> ?y" using di T yi by auto
  have fld: "height h4 = height h" "slope h4 = slope h"
    "parent h4 b = (if b = ?y then px else if b = px then owner cs else parent h b)"
    "right h4 b = (if b = px then ?y else if ?cell = RightOf b then px else right h b)"
    "left h4 b = (if ?cell = LeftOf b then px else left h b)" for b
    by (simp_all add: h4 h1)
  have sr: "same_rest h h4"
    using set_cell_same_rest[of h c ?cell px] by (simp add: h4 h1 same_rest_def)
  have ct: "?cell \<noteq> LeftOf b" "?cell \<noteq> RightOf b" if "b \<in> set (inord T)" for b
    using ow that by (auto simp: cell_owner_def)
  have nT: "px \<in> set (inord T)" using T by simp
  have g: "get_cell h4 c1 ?cell = px"
    using ct[OF nT] by (cases ?cell) (simp_all add: get_cell_def fld h1 set_cell_def)
  have m: "moved h c ?cell h4 c1 {px, ?y}"
  proof (rule movedI[OF sr])
    show "c1 = snd (set_cell h c ?cell (get_cell h4 c1 ?cell))" unfolding g by (rule h1(2))
  qed (use fld in auto)
  have p4: "pctx h4 c1 {} cs (ht T)"
    by (rule pctx_moved[OF pc m]) (use di T yi in auto)
  have tr: "ptree h4 px r ?y"
  proof (rule ptree_reparent[OF ch(1)[unfolded ay]])
    show "distinct (inord r)" using di T by auto
    show "tfields h4 b = tfields h b" if "b \<in> set (inord r)" "b \<noteq> ?y" for b
    proof -
      have "b \<noteq> px" "b \<in> set (inord T)" using that di T by auto
      then show ?thesis using ct[of b] that by (auto simp: tfields_def fld)
    qed
    show "parent h4 ?y = px \<and> left h4 ?y = left h ?y \<and> right h4 ?y = right h ?y \<and>
        height h4 ?y = height h ?y \<and> slope h4 ?y = slope h ?y"
      using ct[of ?y] yi nxy T by (auto simp: fld)
  qed
  have tl: "ptree h4 px pl (left h4 px)"
  proof -
    have "ptree h4 px pl (left h px)"
    proof (rule ptree_frame[OF ch(2)])
      fix b assume b: "b \<in> set (inord pl)"
      then have "b \<noteq> px" "b \<noteq> ?y" "b \<in> set (inord T)" using di T yi by auto
      then show "tfields h4 b = tfields h b" using ct[of b] by (auto simp: tfields_def fld)
    qed
    then show ?thesis using ct[OF nT] by (simp add: fld)
  qed
  have lf: "right h4 px = ?y" "parent h4 px = owner cs" using nxy by (simp_all add: fld)
  show "tframe h c h4 c1 (set (ctx_l cs @ inord T @ ctx_r cs))"
    by (rule moved_tframe[OF m]) (use T yi owner_in[of cs] in \<open>auto simp: cell_owner_of\<close>)
  have "pctx h4 c1 {px} cs (ht T)" by (rule pctx_stale[OF p4]) simp
  moreover have "ht T = crumb_ht (CL px r) (ht (Nd pl px Lf))" by (simp add: T)
  ultimately have "pctx h4 c1 {px} (CL px r # cs) (ht (Nd pl px Lf))"
    using g tr lf ch(3) by (simp add: Let_def)
  moreover have "ptree h4 (owner (CL px r # cs)) pl (get_cell h4 c1 (cell_of (CL px r # cs)))"
    using tl by (simp add: get_cell_def)
  moreover have "distinct (ctx_l (CL px r # cs) @ inord pl @ ctx_r (CL px r # cs))"
    using di T by auto
  ultimately show "zipper h4 c1 {px} (CL px r # cs) (ht (Nd pl px Lf)) pl"
    unfolding zipper_def by blast
qed

lemma unlink_prev_far:
  assumes z: "zipper h c {} cs (ht T) T" and T: "T = Nd (plug ds (Nd pl px Lf)) x r" and ln: "r \<noteq> Lf"
    and ds: "ds = CR rr pp # ds'"
    and h2: "h2 = (if pl = Lf then h\<lparr>right := (right h)(pp := null)\<rparr>
             else h\<lparr>right := (right h)(pp := root_of pl), parent := (parent h)(root_of pl := pp)\<rparr>)"
    and sc: "set_cell h2 c (cell_of cs) px = (h3, c3)"
    and h8: "h8 = h3\<lparr>right := (right h3)(px := root_of r), left := (left h3)(px := left h x),
               parent := (parent h3)(px := owner cs, root_of r := px, left h x := px)\<rparr>"
  shows "zipper h8 c3 {px} (ds @ CL px r # cs) (ht (Nd pl px Lf)) pl"
    "tframe h c h8 c3 (set (ctx_l cs @ inord T @ ctx_r cs))"
proof -
  let ?cell = "cell_of cs" and ?y = "root_of r" and ?t = "Nd pl px Lf" and ?top = "owner [last ds]"
  have pt: "ptree h (owner cs) T (get_cell h c ?cell)"
    and di: "distinct (ctx_l cs @ inord T @ ctx_r cs)" using z by (auto simp: zipper_def)
  have iT: "set (inord T) = insert x (set (inord r) \<union> set (ctx_items ds) \<union> insert px (set (inord pl)))"
    by (auto simp: T inord_plug)
  have dcs: "set (inord T) \<inter> set (ctx_items cs) = {}" and dT: "distinct (inord T)" using di by auto
  have dis: "distinct (inord r @ x # ctx_items ds @ px # inord pl)"
    using dT by (simp add: T inord_plug) blast
  have ch: "ptree h x r (right h x)" "x \<noteq> null" using pt T by auto
  have ay: "right h x = ?y" using ptree_root[OF ch(1)] .
  have yi: "?y \<in> set (inord r)" by (rule root_in[OF ln])
  have rx: "left h x = ?top"
    using pt T ptree_root[of h x "plug ds ?t" "left h x"] root_plug[of ds ?t] ds by simp
  have topin: "?top \<in> set (ctx_items ds)"
  proof -
    obtain es e where "ds = es @ [e]" by (rule that[of "butlast ds" "last ds"]) (simp add: ds)
    then show ?thesis by (cases e) auto
  qed
  have npin: "pp \<in> set (ctx_items ds)" by (simp add: ds)
  \<comment> \<open>the item to move is cut out of its place\<close>
  have z0: "zipper h c {} (ds @ CL x r # cs) (ht ?t) ?t"
  proof -
    have "zipper h c {} (CL x r # cs) (ht (plug ds ?t)) (plug ds ?t)"
      using z unfolding T by (simp add: zipper_Cons)
    then show ?thesis using zipper_skip[of "{}" ds h c "CL x r # cs" ?t] by simp
  qed
  have pt0: "ptree h pp ?t (right h pp)" and pc0: "pctx h c {} (ds @ CL x r # cs) (ht ?t)"
    using z0 by (auto simp: zipper_def ds get_cell_def)
  have chn: "ptree h px pl (left h px)" "px \<noteq> null" using pt0 by auto
  have an: "left h px = root_of pl" using ptree_root[OF chn(1)] .
  have ni: "pl \<noteq> Lf \<Longrightarrow> root_of pl \<in> set (inord pl)" by (rule root_in)
  have f2: "height h2 = height h" "slope h2 = slope h" "left h2 = left h"
    "right h2 b = (if b = pp then root_of pl else right h b)"
    "parent h2 b = (if pl \<noteq> Lf \<and> b = root_of pl then pp else parent h b)" for b
    by (simp_all add: h2)
  have sr2: "same_rest h h2" by (simp add: h2 same_rest_def)
  have m2: "moved h c (cell_of (ds @ CL x r # cs)) h2 c (set (inord pl))"
    by (rule movedI[OF sr2]) (use f2 ni in \<open>auto simp: ds set_cell_def\<close>)
  have pc2: "pctx h2 c {} (ds @ CL x r # cs) (ht ?t)"
  proof (rule pctx_moved[OF pc0 m2])
    have dz: "distinct (ctx_l (ds @ CL x r # cs) @ inord ?t @ ctx_r (ds @ CL x r # cs))"
      using z0 unfolding zipper_def by blast
    show "distinct (ctx_items (ds @ CL x r # cs))" by (rule around_hole(1)[OF dz])
    show "set (inord pl) \<inter> set (ctx_items (ds @ CL x r # cs)) = {}"
      by (rule around_hole(2)[OF dz]) auto
  qed
  have pcs: "pctx h2 c {} cs (ht T)"
    using pctx_tail[OF pc2] ctx_ht_plug[of ds ?t] by (simp add: T Let_def)
  have t2: "ptree h2 pp pl (root_of pl)"
  proof (rule ptree_reparent[OF chn(1)[unfolded an]])
    show "distinct (inord pl)" using dis by auto
    show "tfields h2 b = tfields h b" if "b \<in> set (inord pl)" "b \<noteq> root_of pl" for b
    proof -
      have "b \<noteq> pp" using that dis npin by auto
      then show ?thesis using that by (simp add: tfields_def f2)
    qed
    assume "root_of pl \<noteq> null"
    then have "pl \<noteq> Lf" by auto
    with ni have "root_of pl \<noteq> pp" using dis npin by auto
    then show "parent h2 (root_of pl) = pp \<and> left h2 (root_of pl) = left h (root_of pl) \<and>
        right h2 (root_of pl) = right h (root_of pl) \<and> height h2 (root_of pl) = height h (root_of pl) \<and>
        slope h2 (root_of pl) = slope h (root_of pl)"
      using \<open>pl \<noteq> Lf\<close> by (simp add: f2)
  qed
  \<comment> \<open>and put where \<open>x\<close> was\<close>
  have ow: "cell_owner ?cell \<inter> set (inord T) = {}"
    using dcs owner_in[of cs] by (auto simp: cell_owner_of)
  have ct: "?cell \<noteq> LeftOf b" "?cell \<noteq> RightOf b" if "b \<in> set (inord T)" for b
    using ow that by (auto simp: cell_owner_def)
  have h3: "h3 = fst (set_cell h2 c ?cell px)" "c3 = snd (set_cell h2 c ?cell px)" using sc by simp_all
  have ne: "px \<noteq> ?y" "px \<noteq> ?top" "?y \<noteq> ?top" using dis yi topin by auto
  have f8: "height h8 = height h2" "slope h8 = slope h2"
    "parent h8 b = (if b = ?top then px else if b = ?y then px else if b = px then owner cs else parent h2 b)"
    "right h8 b = (if b = px then ?y else if ?cell = RightOf b then px else right h2 b)"
    "left h8 b = (if b = px then ?top else if ?cell = LeftOf b then px else left h2 b)" for b
    by (simp_all add: h8 h3 rx)
  have sr8: "same_rest h2 h8"
    using set_cell_same_rest[of h2 c ?cell px] by (simp add: h8 h3 same_rest_def)
  have nT: "px \<in> set (inord T)" by (simp add: iT)
  have g: "get_cell h8 c3 ?cell = px"
    using ct[OF nT] by (cases ?cell) (simp_all add: get_cell_def f8 h3 set_cell_def)
  have m8: "moved h2 c ?cell h8 c3 {px, ?y, ?top}"
  proof (rule movedI[OF sr8])
    show "c3 = snd (set_cell h2 c ?cell (get_cell h8 c3 ?cell))" unfolding g by (rule h3(2))
  qed (use f8 in auto)
  have A8: "{px, ?y, ?top} \<subseteq> set (inord T)" using yi topin unfolding iT by blast
  have p8: "pctx h8 c3 {} cs (ht T)"
    by (rule pctx_moved[OF pcs m8]) (use di A8 dcs in auto)
  have same8: "tfields h8 b = tfields h2 b" if "b \<in> set (inord T)" "b \<noteq> px" "b \<noteq> ?y" "b \<noteq> ?top" for b
    using ct[OF that(1)] that by (auto simp: tfields_def f8)
  have same2: "tfields h2 b = tfields h b" if "b \<notin> set (inord pl)" "b \<noteq> pp" for b
    using that ni by (auto simp: tfields_def f2)
  have tr: "ptree h8 px r ?y"
  proof (rule ptree_reparent[OF ch(1)[unfolded ay]])
    show "distinct (inord r)" using dis by auto
    fix b assume b: "b \<in> set (inord r)"
    have o: "b \<noteq> px" "b \<noteq> ?top" "b \<in> set (inord T)" "b \<notin> set (inord pl)" "b \<noteq> pp"
      using b dis topin npin unfolding iT by auto
    show "tfields h8 b = tfields h b" if "b \<noteq> ?y"
      using same8[OF o(3,1) that o(2)] same2[OF o(4,5)] by simp
  next
    have o: "?y \<in> set (inord T)" "?y \<notin> set (inord pl)" "?y \<noteq> pp" using yi dis npin unfolding iT by auto
    show "parent h8 ?y = px \<and> left h8 ?y = left h ?y \<and> right h8 ?y = right h ?y \<and>
        height h8 ?y = height h ?y \<and> slope h8 ?y = slope h ?y"
      using ct[OF o(1)] ne o by (auto simp: f8 f2)
  qed
  have tn: "ptree h8 pp pl (right h8 pp)"
  proof -
    have "ptree h8 pp pl (root_of pl)"
    proof (rule ptree_frame[OF t2])
      fix b assume b: "b \<in> set (inord pl)"
      show "tfields h8 b = tfields h2 b"
        by (rule same8) (use b dis yi topin in \<open>auto simp: iT\<close>)
    qed
    moreover have "pp \<noteq> px" "pp \<in> set (inord T)" using dis npin unfolding iT by auto
    ultimately show ?thesis using ct[of pp] by (simp add: f8 f2)
  qed
  have hT: "ht T = crumb_ht (CL px r) (ctx_ht ds (ht ?t))"
    using ctx_ht_plug[of ds ?t] by (simp add: T)
  have base: "pctx h8 c3 {px} (CL px r # cs) (ctx_ht ds (ht ?t))"
    using pctx_stale[OF p8, of "{px}"] tr g ne chn(2) unfolding hT by (simp add: Let_def f8)
  have full: "pctx h8 c3 {px} (ds @ CL px r # cs) (ht ?t)"
  proof (rule pctx_new_owner[OF pc2 base])
    show "get_cell h8 c3 (cell_of (CL px r # cs)) = ?top" by (simp add: get_cell_def f8)
    show "parent h8 ?top = owner (CL px r # cs)" by (simp add: f8)
    fix b assume b: "b \<in> set (ctx_items ds)"
    have o: "b \<noteq> px" "b \<noteq> ?y" "b \<in> set (inord T)" using b dis yi unfolding iT by auto
    show "left h8 b = left h2 b \<and> right h8 b = right h2 b \<and> height h8 b = height h2 b \<and> slope h8 b = slope h2 b"
      using ct[OF o(3)] o by (auto simp: f8)
    show "parent h8 b = parent h2 b" if "b \<noteq> ?top" using o that by (auto simp: f8)
  qed (use dis in auto)
  have "ptree h8 (owner (ds @ CL px r # cs)) pl (get_cell h8 c3 (cell_of (ds @ CL px r # cs)))"
    using tn by (simp add: ds get_cell_def)
  moreover have "distinct (ctx_l (ds @ CL px r # cs) @ inord pl @ ctx_r (ds @ CL px r # cs))"
    using di unfolding T by (auto simp: inord_plug)
  ultimately show "zipper h8 c3 {px} (ds @ CL px r # cs) (ht ?t) pl"
    using full unfolding zipper_def by blast
  let ?A = "set (ctx_l cs @ inord T @ ctx_r cs)"
  have "tframe h c h2 c ?A"
    by (rule moved_tframe[OF m2]) (use iT npin in \<open>auto simp: cell_owner_def ds\<close>)
  moreover have "tframe h2 c h8 c3 ?A"
    by (rule moved_tframe[OF m8]) (use A8 owner_in[of cs] in \<open>auto simp: cell_owner_of\<close>)
  ultimately show "tframe h c h8 c3 ?A" by (rule tframe_trans)
qed

lemma unlink_prev_ok:
  assumes z: "zipper h c {} cs (ht T) T" and T: "T = Nd l x r" and av: "avl (plug cs T)" and ln: "r \<noteq> Lf"
    and hr: "\<not> ht l < ht r" and px: "prevp h x = px" "inord l = xs @ [px]"
  shows "\<exists>h' c' T'. tree_unlink h c x = Some (h', c') \<and> ptree h' null T' (troot c') \<and> avl T' \<and>
    inord T' = ctx_l cs @ inord l @ inord r @ ctx_r cs \<and> tframe h c h' c' (set (ctx_l cs @ inord T @ ctx_r cs))"
proof -
  let ?A = "set (ctx_l cs @ inord T @ ctx_r cs)"
  have pt: "ptree h (owner cs) T (get_cell h c (cell_of cs))" and pc: "pctx h c {} cs (ht T)"
    and di: "distinct (ctx_l cs @ inord T @ ctx_r cs)" using z by (auto simp: zipper_def)
  have x: "get_cell h c (cell_of cs) = x" "x \<noteq> null" "parent h x = owner cs"
    and qr: "ptree h x r (right h x)" and ql: "ptree h x l (left h x)" using pt T by auto
  have "cell_at h x = cell_of cs" by (rule cell_at_hole[OF pc x(1,3) _ x(2)]) (use di T in auto)
  then have cell: "(if owner cs \<noteq> null then if x = left h (owner cs) then LeftOf (owner cs) else RightOf (owner cs)
      else RootCell) = cell_of cs"
    by (auto simp: cell_at_def Let_def x(3))
  have rn: "l \<noteq> Lf" using px(2) by auto
  have lr: "right h x = root_of r" "root_of r \<noteq> null" "left h x = root_of l" "root_of l \<noteq> null"
    "height h (root_of r) = ht r" "height h (root_of l) = ht l"
    using ptree_root[OF qr] ptree_root[OF ql] ptree_null[OF qr] ptree_null[OF ql] ln rn
      ptree_height[OF qr] ptree_height[OF ql] by (auto split: if_splits)
  have avT: "avl T" "ctx_ok cs (ht T)" using av by (simp_all add: avl_plug)
  obtain ds pl where D: "l = plug ds (Nd pl px Lf)" "ctx_r ds = []"
    using rightmost_split[OF px(2)] by blast
  show ?thesis
  proof (cases ds)
    case Nil
    have l: "l = Nd pl px Lf" using D Nil by simp
    have T': "T = Nd (Nd pl px Lf) x r" using T l by simp
    have pn: "parent h px = x" using ql l by auto
    obtain h1 c1 where sc: "set_cell h c (cell_of cs) px = (h1, c1)" by fastforce
    define h4 where "h4 = h1\<lparr>right := (right h1)(px := root_of r), parent := (parent h1)(px := owner cs, root_of r := px)\<rparr>"
    note N = unlink_prev_near[OF z T' ln sc h4_def]
    have co: "avl pl" "ctx_ok (CL px r # cs) (ht l)" "ht pl \<le> ht l + 1" "ht l \<le> ht pl + 1"
      using avT T' l by auto
    have B: "tree_unlink h c x = Option.bind (rebal_inner h4 c1 px (cell_of cs) (owner cs))
        (\<lambda>(h5, c5, p). rebal_upwards h5 c5 p)"
      unfolding tree_unlink_def x(3) cell Let_def
      using lr hr px(1) pn sc by (simp add: h4_def split_beta)
    obtain h' c' T2 where R: "Option.bind (rebal_inner h4 c1 px (cell_of cs) (owner cs))
        (\<lambda>(h5, c5, p). rebal_upwards h5 c5 p) = Some (h', c')" "ptree h' null T2 (troot c')" "avl T2"
      "inord T2 = ctx_l (CL px r # cs) @ inord pl @ ctx_r (CL px r # cs)" "tframe h4 c1 h' c' (set (inord T2))"
      using rebal_both_ok[of h4 c1 px "[]" "CL px r" cs "ht l" pl] N(1) co l by auto
    have "tframe h4 c1 h' c' ?A" by (rule tframe_mono[OF R(5)]) (use R(4) T' in auto)
    then have "tframe h c h' c' ?A" by (rule tframe_trans[OF N(2)])
    moreover have "inord T2 = ctx_l cs @ inord l @ inord r @ ctx_r cs" using R(4) px(2) l by simp
    ultimately show ?thesis using B R(1-3) by auto
  next
    case (Cons k ds')
    then obtain pp rr where k: "k = CR rr pp" using D(2) by (cases k) auto
    have ds: "ds = CR rr pp # ds'" using Cons k by simp
    have T': "T = Nd (plug ds (Nd pl px Lf)) x r" using T D(1) by simp
    have "zipper h c {} (CL x r # cs) (ht (plug ds (Nd pl px Lf))) (plug ds (Nd pl px Lf))"
      using z T' by (simp add: zipper_Cons)
    then have z0: "zipper h c {} (ds @ CL x r # cs) (ht (Nd pl px Lf)) (Nd pl px Lf)"
      using zipper_skip[of "{}" ds h c "CL x r # cs" "Nd pl px Lf"] by simp
    have pn: "parent h px = pp" "left h px = root_of pl" "pl \<noteq> Lf \<Longrightarrow> root_of pl \<noteq> null"
      using z0 ptree_root[of h px pl "left h px"] ptree_null[of h px pl "left h px"]
      by (auto simp: zipper_def ds)
    have npx: "pp \<noteq> x" using di T' by (auto simp: inord_plug ds)
    define h2 where "h2 = (if pl = Lf then h\<lparr>right := (right h)(pp := null)\<rparr>
             else h\<lparr>right := (right h)(pp := root_of pl), parent := (parent h)(root_of pl := pp)\<rparr>)"
    obtain h3 c3 where sc: "set_cell h2 c (cell_of cs) px = (h3, c3)" by fastforce
    define h8 where "h8 = h3\<lparr>right := (right h3)(px := root_of r), left := (left h3)(px := left h x),
               parent := (parent h3)(px := owner cs, root_of r := px, left h x := px)\<rparr>"
    note N = unlink_prev_far[OF z T' ln ds h2_def sc h8_def]
    have "avl (plug (ds @ CL px r # cs) (Nd pl px Lf))"
      using av T' by (simp add: plug_append avl_plug)
    then have co: "avl pl" "ctx_ok (ds @ CL px r # cs) (ht (Nd pl px Lf))"
      "ht pl \<le> ht (Nd pl px Lf) + 1" "ht (Nd pl px Lf) \<le> ht pl + 1"
      unfolding avl_plug by auto
    have B: "tree_unlink h c x = Option.bind (rebal_inner h8 c3 pp (cell_of cs) (owner cs))
        (\<lambda>(h5, c5, p). rebal_upwards h5 c5 p)"
      unfolding tree_unlink_def x(3) cell Let_def
      by (cases "pl = Lf") (use lr hr px(1) pn npx sc in \<open>simp_all add: h8_def h2_def split_beta\<close>)
    obtain h' c' T2 where R: "Option.bind (rebal_inner h8 c3 pp (cell_of cs) (owner cs))
        (\<lambda>(h5, c5, p). rebal_upwards h5 c5 p) = Some (h', c')" "ptree h' null T2 (troot c')" "avl T2"
      "inord T2 = ctx_l (ds @ CL px r # cs) @ inord pl @ ctx_r (ds @ CL px r # cs)"
      "tframe h8 c3 h' c' (set (inord T2))"
      using rebal_both_ok[OF N(1) co] by (auto simp: ds)
    have "tframe h8 c3 h' c' ?A" by (rule tframe_mono[OF R(5)]) (use R(4) T' in \<open>auto simp: inord_plug\<close>)
    then have "tframe h c h' c' ?A" by (rule tframe_trans[OF N(2)])
    moreover have "inord T2 = ctx_l cs @ inord l @ inord r @ ctx_r cs" using R(4) px(2) D by (simp add: inord_plug)
    ultimately show ?thesis using B R(1-3) by auto
  qed
qed

section \<open>Removing an item\<close>

lemma split_at:
  assumes "us @ x # vs = ls @ x # rs" "distinct (us @ x # vs)"
  shows "us = ls \<and> vs = rs"
proof -
  have "x \<notin> set us" "x \<notin> set ls" using assms by (auto dest: arg_cong[of _ _ distinct])
  then show ?thesis using assms(1) by (auto simp: append_eq_Cons_conv append_eq_append_conv2 Cons_eq_append_conv)
qed

lemma tree_unlink_ok:
  assumes inv: "cont_inv h c (us @ x # vs) fs" and pt: "ptree h null T (troot c)" and av: "avl T"
    and ino: "inord T = us @ x # vs"
  shows "\<exists>h' c' T'. tree_unlink h c x = Some (h', c') \<and> ptree h' null T' (troot c') \<and> avl T' \<and>
    inord T' = us @ vs \<and> tframe h c h' c' (set (us @ x # vs))"
proof -
  have di: "distinct (us @ x # vs)" using cont_st_distinct[OF inv] by auto
  obtain cs l r where T: "T = plug cs (Nd l x r)" using tree_split[of x T] ino by auto
  let ?N = "Nd l x r"
  have "us @ x # vs = (ctx_l cs @ inord l) @ x # (inord r @ ctx_r cs)"
    using ino by (simp add: T inord_plug)
  note uv = split_at[OF this di]
  have z: "zipper h c {} cs (ht ?N) ?N" using zipper_plug[of h c cs ?N] pt di ino T by simp
  have avN: "avl ?N" "ctx_ok cs (ht ?N)" and avP: "avl (plug cs ?N)" using av by (simp_all add: T avl_plug)
  have A: "ctx_l cs @ inord ?N @ ctx_r cs = us @ x # vs" using uv by simp
  have pn: "ptree h (owner cs) ?N (get_cell h c (cell_of cs))" and pc: "pctx h c {} cs (ht ?N)"
    using z by (auto simp: zipper_def)
  have x: "get_cell h c (cell_of cs) = x" "x \<noteq> null" "parent h x = owner cs"
    and lr: "left h x = root_of l" "right h x = root_of r"
    "root_of l = null \<longleftrightarrow> l = Lf" "root_of r = null \<longleftrightarrow> r = Lf"
    using pn ptree_root[of h x l "left h x"] ptree_root[of h x r "right h x"]
      ptree_null[of h x l "left h x"] ptree_null[of h x r "right h x"] by auto
  have "cell_at h x = cell_of cs" by (rule cell_at_hole[OF pc x(1,3) _ x(2)]) (use di uv in auto)
  then have cell: "(if owner cs \<noteq> null then if x = left h (owner cs) then LeftOf (owner cs) else RightOf (owner cs)
      else RootCell) = cell_of cs"
    by (auto simp: cell_at_def Let_def x(3))
  have link: "nextp h x = hd (vs @ [endItem c])" "prevp h x = last (null # us)"
    using inv dseg_mid_prev[of _ _ _ us "x # vs"] by (auto simp: cont_st_def dest: dseg_mid_next)
  consider (L) "l = Lf" | (R) "l \<noteq> Lf" "r = Lf" | (N) "l \<noteq> Lf" "r \<noteq> Lf" "ht l < ht r"
    | (P) "l \<noteq> Lf" "r \<noteq> Lf" "\<not> ht l < ht r" by blast
  then show ?thesis
  proof cases
    case L
    obtain h1 c1 where sc: "set_cell h c (cell_of cs) (root_of r) = (h1, c1)" by fastforce
    define h2 where "h2 = (if r = Lf then h1 else h1\<lparr>parent := (parent h1)(root_of r := owner cs)\<rparr>)"
    have "tree_unlink h c x = rebal_upwards h2 c1 (owner cs)"
      unfolding tree_unlink_def x(3) cell Let_def
      by (cases "r = Lf") (use sc lr L in \<open>simp_all add: h2_def\<close>)
    then show ?thesis
      using splice_ok[OF z refl avN refl _ sc h2_def] L uv A by auto
  next
    case R
    obtain h1 c1 where sc: "set_cell h c (cell_of cs) (root_of l) = (h1, c1)" by fastforce
    define h2 where "h2 = (if l = Lf then h1 else h1\<lparr>parent := (parent h1)(root_of l := owner cs)\<rparr>)"
    have "tree_unlink h c x = rebal_upwards h2 c1 (owner cs)"
      unfolding tree_unlink_def x(3) cell Let_def using sc lr R by (simp add: h2_def)
    then show ?thesis
      using splice_ok[OF z refl avN refl _ sc h2_def] R uv A by auto
  next
    case N
    then obtain nx xs where nx: "inord r = nx # xs" by (cases r) (auto simp: neq_Nil_conv, metis append_is_Nil_conv list.exhaust list.discI)
    have "nextp h x = nx" using link(1) uv nx by simp
    from unlink_next_ok[OF z refl avP N(1,3) this nx] show ?thesis using uv A by auto
  next
    case P
    then obtain px xs where px: "inord l = xs @ [px]" by (cases "inord l" rule: rev_cases) (auto, cases l; simp)
    have "prevp h x = px" using link(2) uv px by simp
    from unlink_prev_ok[OF z refl avP P(2,3) this px] show ?thesis using uv A by auto
  qed
qed

end
