(* ===== verification/Nstd_TreeCont.thy ===== *)
theory Nstd_TreeCont
  imports Nstd_TreeRemove
begin

text \<open>
  What Map and MultiMap share beside the tree itself: the constructor, \<^verbatim>\<open>find\<close>, \<^verbatim>\<open>clear\<close>, the branch
  of \<^verbatim>\<open>insert\<close> that has reached an empty cell, and \<^verbatim>\<open>remove\<close>; their invariant ties the tree to the
  linked list of items: the list is the in-order walk of the tree.
\<close>

section \<open>Operations\<close>

definition init_tcont :: "('k, 'v) tree_heap \<Rightarrow> ('k, 'v) tree_heap \<times> tcont" where
  "init_tcont h =
     (let (h', c) = init_cont h
      in (h'\<lparr>parent := (parent h')(endItem c := null)\<rparr>, cont.extend c \<lparr>troot = null\<rparr>))"

text \<open>The items between a place and a key: the loop of \<^verbatim>\<open>find\<close>, which ends at null.\<close>

partial_function (option) find_loop :: "('k::linorder, 'v) tree_heap \<Rightarrow> addr \<Rightarrow> 'k \<Rightarrow> addr option" where
  "find_loop h item key =
     (if item = null then Some null
      else if key > tkey h item then find_loop h (right h item) key
      else if key < tkey h item then find_loop h (left h item) key
      else Some item)"

definition tree_find :: "('k::linorder, 'v) tree_heap \<Rightarrow> tcont \<Rightarrow> 'k \<Rightarrow> addr option" where
  "tree_find h c key =
     map_option (\<lambda>i. if i \<noteq> null then i else endItem c) (find_loop h (troot c) key)"

definition tree_clear :: "('k, 'v) tree_heap \<Rightarrow> tcont \<Rightarrow> (('k, 'v) tree_heap \<times> tcont) option" where
  "tree_clear h c = map_option (\<lambda>(h1, c1). (h1, c1\<lparr>troot := null\<rparr>)) (clear_links h c)"

text \<open>
  The branch \<^verbatim>\<open>if(!position)\<close> of the private \<^verbatim>\<open>insert\<close>: a new item in an empty cell, linked beside
  its parent, and the loop that rebalances. (\<^verbatim>\<open>link_before\<close> does the \<^verbatim>\<open>++_size\<close> too.)
\<close>

definition tree_attach ::
    "('k, 'v) tree_heap \<Rightarrow> tcont \<Rightarrow> tcell \<Rightarrow> addr \<Rightarrow> 'k \<Rightarrow> 'v \<Rightarrow> (('k, 'v) tree_heap \<times> tcont \<times> addr) option" where
  "tree_attach h c cell par key value =
     (let (h1, c1, item) = alloc_item h c;
          h2 = h1\<lparr>tkey := (tkey h1)(item := key), tval := (tval h1)(item := value),
                  parent := (parent h1)(item := par), left := (left h1)(item := null),
                  right := (right h1)(item := null), height := (height h1)(item := 1),
                  slope := (slope h1)(item := 0)\<rparr>;
          c2 = take_free h2 c1 item;
          (h3, c3) = set_cell h2 c2 cell item
      in if par = null then
           (let h4 = h3\<lparr>prevp := (prevp h3)(item := null), nextp := (nextp h3)(item := beginp c3)\<rparr>;
                c4 = c3\<lparr>beginp := item, csize := Suc (csize c3)\<rparr>
            in Some (h4\<lparr>prevp := (prevp h4)(endItem c4 := item)\<rparr>, c4, item))
         else
           (let insertPos = (if cell = RightOf par then nextp h3 par else par);
                (h4, c4) = link_before h3 c3 item insertPos
            in map_option (\<lambda>(h5, c5). (h5, c5, item)) (rebal_upwards h4 c4 par)))"

section \<open>The invariant\<close>

definition tm_ok ::
    "('k \<Rightarrow> 'k \<Rightarrow> bool) \<Rightarrow> ('k, 'v) tree_heap \<Rightarrow> tcont \<Rightarrow> addr list \<Rightarrow> ('k \<times> 'v) list \<Rightarrow> bool" where
  "tm_ok R h c xs kvs \<longleftrightarrow>
     (\<exists>fs T. cont_inv h c xs fs \<and> ptree h null T (troot c) \<and> avl T \<and> inord T = xs) \<and>
     kvs = map (\<lambda>x. (tkey h x, tval h x)) xs \<and> sorted_wrt R (map fst kvs)"

definition tree_apart :: "tcont \<Rightarrow> tcont \<Rightarrow> bool" where
  "tree_apart c d \<longleftrightarrow> insert (endItem c) (pool c) \<inter> insert (endItem d) (pool d) = {}"

definition tree_frame ::
    "('k, 'v) tree_heap \<Rightarrow> tcont \<Rightarrow> ('k, 'v) tree_heap \<Rightarrow> tcont \<Rightarrow> bool" where
  "tree_frame h c h' c' \<longleftrightarrow>
     (\<forall>R d ys kvs. tm_ok R h d ys kvs \<longrightarrow> tree_apart c d \<longrightarrow> tm_ok R h' d ys kvs \<and> tree_apart c' d)"

lemma tree_frame_refl [simp]: "tree_frame h c h c"
  by (simp add: tree_frame_def)

lemma tree_frame_trans:
  "tree_frame h c h1 c1 \<Longrightarrow> tree_frame h1 c1 h2 c2 \<Longrightarrow> tree_frame h c h2 c2"
  unfolding tree_frame_def by blast

lemma tm_okE:
  assumes "tm_ok R h c xs kvs"
  obtains fs T where "cont_inv h c xs fs" "ptree h null T (troot c)" "avl T" "inord T = xs"
    "kvs = map (\<lambda>x. (tkey h x, tval h x)) xs" "sorted_wrt R (map (tkey h) xs)"
proof -
  from assms obtain fs T where "cont_inv h c xs fs" "ptree h null T (troot c)" "avl T" "inord T = xs"
    "kvs = map (\<lambda>x. (tkey h x, tval h x)) xs" "sorted_wrt R (map fst kvs)"
    unfolding tm_ok_def by blast
  then show ?thesis using that[of fs T] by (simp add: o_def)
qed

lemma tm_okI:
  assumes "cont_inv h c xs fs" "ptree h null T (troot c)" "avl T" "inord T = xs"
    and "kvs = map (\<lambda>x. (tkey h x, tval h x)) xs" "sorted_wrt R (map fst kvs)"
  shows "tm_ok R h c xs kvs"
  unfolding tm_ok_def using assms by blast

lemma tree_frameI:
  assumes c: "cont_inv h c xs fs" and c': "cont_inv h' c' xs' fs'" and e: "endItem c' = endItem c"
    and out: "same_outside h h' (footprint c xs fs)"
    and sub: "set xs' \<union> set fs' \<subseteq> set xs \<union> set fs \<union> {b. brk h \<le> b}"
    and fld: "\<And>a. a < brk h \<Longrightarrow> a \<notin> footprint c xs fs \<Longrightarrow>
                tfields h' a = tfields h a \<and> tkey h' a = tkey h a \<and> tval h' a = tval h a"
  shows "tree_frame h c h' c'"
  unfolding tree_frame_def
proof (intro allI impI)
  fix R d ys and kvs :: "('a \<times> 'b) list" assume d: "tm_ok R h d ys kvs" and ap: "tree_apart c d"
  obtain gs T where D: "cont_inv h d ys gs" "ptree h null T (troot d)" "avl T" "inord T = ys"
    "kvs = map (\<lambda>x. (tkey h x, tval h x)) ys" "sorted_wrt R (map (tkey h) ys)"
    using d by (rule tm_okE)
  have dis: "footprint c xs fs \<inter> footprint d ys gs = {}"
    using ap unfolding tree_apart_def footprint_pool[OF c] footprint_pool[OF D(1)] .
  have d': "cont_inv h' d ys gs" by (rule cont_inv_other[OF D(1) out]) (use dis in blast)
  have same: "tfields h' y = tfields h y" "tkey h' y = tkey h y" "tval h' y = tval h y" if "y \<in> set ys" for y
  proof -
    have "y \<in> footprint d ys gs" using that by (simp add: footprint_def)
    then have "y < brk h" "y \<notin> footprint c xs fs" using footprint_bound[OF D(1)] dis by blast+
    from fld[OF this] show "tfields h' y = tfields h y" "tkey h' y = tkey h y" "tval h' y = tval h y" by auto
  qed
  have "ptree h' null T (troot d)" by (rule ptree_frame[OF D(2)]) (use same D(4) in auto)
  moreover have "kvs = map (\<lambda>x. (tkey h' x, tval h' x)) ys" using D(5) same by simp
  moreover have "sorted_wrt R (map fst kvs)" using D(5,6) by (simp add: o_def)
  ultimately have "tm_ok R h' d ys kvs" using d' D(3,4) by (intro tm_okI)
  moreover have "footprint c' xs' fs' \<inter> footprint d ys gs = {}"
    by (rule footprint_apart[OF D(1) dis e sub])
  then have "tree_apart c' d"
    unfolding tree_apart_def footprint_pool[OF c'] footprint_pool[OF d'] .
  ultimately show "tm_ok R h' d ys kvs \<and> tree_apart c' d" by blast
qed

lemma tframe_links:
  assumes "tframe h c h' c' A" "cont_inv h c xs fs"
  shows "cont_inv h' c' xs fs"
proof -
  have "same_links h h'" "same_cont c c'" using assms(1) by (auto simp: tframe_def same_rest_def same_links_def)
  then show ?thesis using assms(2) cont_st_same_links cont_st_same_cont by blast
qed

section \<open>Facts of a container\<close>

lemma tm_ok_facts:
  assumes "tm_ok R h c xs kvs"
  shows "length xs = length kvs" "csize c = length kvs" "beginp c = hd (xs @ [endItem c])"
    "endItem c \<notin> set xs" "distinct xs" "set xs \<subseteq> pool c" "null \<notin> set xs" "endItem c \<noteq> null" "0 < brk h"
    "prevp h (endItem c) = last (null # xs)" "sorted_wrt R (map fst kvs)"
    "kvs = map (\<lambda>x. (tkey h x, tval h x)) xs" "troot c = null \<longleftrightarrow> xs = []"
    "sorted_wrt R (map (tkey h) xs)"
proof -
  obtain fs T where D: "cont_inv h c xs fs" "ptree h null T (troot c)" "avl T" "inord T = xs"
    "kvs = map (\<lambda>x. (tkey h x, tval h x)) xs" "sorted_wrt R (map (tkey h) xs)"
    using assms by (rule tm_okE)
  show "kvs = map (\<lambda>x. (tkey h x, tval h x)) xs" "length xs = length kvs" "csize c = length kvs"
    "sorted_wrt R (map (tkey h) xs)" using D by (auto simp: cont_st_def)
  show "beginp c = hd (xs @ [endItem c])" "endItem c \<notin> set xs" "distinct xs" "set xs \<subseteq> pool c"
    "null \<notin> set xs" "endItem c \<noteq> null"
    using D(1) by (auto simp: cont_st_def)
  have "dseg (prevp h) (nextp h) null xs (endItem c)" using D(1) by (simp add: cont_st_def)
  then show "prevp h (endItem c) = last (null # xs)" by (rule dseg_last_prev)
  show "0 < brk h" using D(1) by (auto simp: cont_st_def)
  show "sorted_wrt R (map fst kvs)" using D(5,6) by (simp add: o_def)
  show "troot c = null \<longleftrightarrow> xs = []" using ptree_null[OF D(2)] D(4) by (cases T) auto
qed

lemma tm_ok_links:
  assumes "tm_ok R h c (us @ x # vs) kvs"
  shows "nextp h x = hd (vs @ [endItem c])" "prevp h x = last (null # us)"
proof -
  obtain fs where D: "cont_inv h c (us @ x # vs) fs" using assms by (rule tm_okE)
  then show "nextp h x = hd (vs @ [endItem c])" "prevp h x = last (null # us)"
    using dseg_mid_prev[of _ _ _ us "x # vs"] by (auto simp: cont_st_def dest: dseg_mid_next)
qed

section \<open>Finding\<close>

lemma find_loop_ok:
  assumes "ptree h p t a" "sorted (map (tkey h) (inord t))"
  shows "\<exists>r. find_loop h a k = Some r \<and> (if r = null then k \<notin> tkey h ` set (inord t)
           else r \<in> set (inord t) \<and> tkey h r = k)"
  using assms
proof (induction t arbitrary: p a)
  case Lf
  then show ?case by (simp add: find_loop.simps)
next
  case (Nd l x r)
  have a: "a = x" "x \<noteq> null" "ptree h x l (left h x)" "ptree h x r (right h x)" using Nd.prems by auto
  have s: "sorted (map (tkey h) (inord l))" "sorted (map (tkey h) (inord r))"
    "\<forall>y\<in>set (inord l). tkey h y \<le> tkey h x" "\<forall>y\<in>set (inord r). tkey h x \<le> tkey h y"
    using Nd.prems(2) by (auto simp: sorted_append)
  let ?S = "\<lambda>t r. (if r = null then k \<notin> tkey h ` set (inord t) else r \<in> set (inord t) \<and> tkey h r = k)"
  have lift: "?S (Nd l x r) q" if "?S t' q" "set (inord t') \<subseteq> set (inord (Nd l x r))"
      "\<forall>y\<in>set (inord (Nd l x r)) - set (inord t'). tkey h y \<noteq> k" for t' q
    using that by (cases "q = null") (simp_all, blast+)
  consider (R) "k > tkey h x" | (L) "k < tkey h x" | (E) "k = tkey h x" by (metis linorder_neqE)
  then show ?case
  proof cases
    case R
    have e: "find_loop h a k = find_loop h (right h x) k"
      unfolding a(1) using R a(2) by (subst find_loop.simps) (simp only: if_False if_True)
    obtain q where q: "find_loop h (right h x) k = Some q" "?S r q" using Nd.IH(2)[OF a(4) s(2)] by blast
    have "?S (Nd l x r) q" by (rule lift[OF q(2)]) (use R s(3) in auto)
    then show ?thesis using q(1) unfolding e by blast
  next
    case L
    have e: "find_loop h a k = find_loop h (left h x) k"
      unfolding a(1) using L a(2) less_not_sym[OF L] by (subst find_loop.simps) (simp only: if_False if_True not_False_eq_True)
    obtain q where q: "find_loop h (left h x) k = Some q" "?S l q" using Nd.IH(1)[OF a(3) s(1)] by blast
    have "?S (Nd l x r) q" by (rule lift[OF q(2)]) (use L s(4) in auto)
    then show ?thesis using q(1) unfolding e by blast
  next
    case E
    have "find_loop h a k = Some x" unfolding a(1) using E a(2) by (subst find_loop.simps) simp
    then show ?thesis using a E by auto
  qed
qed

lemma tree_find_ok:
  assumes ok: "tm_ok R h c xs kvs" and srt: "sorted (map fst kvs)"
  shows "\<exists>it. tree_find h c k = Some it \<and> (if it = endItem c then k \<notin> tkey h ` set xs
           else it \<in> set xs \<and> tkey h it = k)"
proof -
  obtain fs T where D: "cont_inv h c xs fs" "ptree h null T (troot c)" "inord T = xs"
    using ok by (rule tm_okE)
  have "map fst kvs = map (tkey h) xs" using tm_ok_facts(12)[OF ok] by (auto simp: o_def)
  then obtain r where r: "find_loop h (troot c) k = Some r"
    "if r = null then k \<notin> tkey h ` set xs else r \<in> set xs \<and> tkey h r = k"
    using find_loop_ok[OF D(2), of k] srt D(3) by auto
  have "tree_find h c k = Some (if r \<noteq> null then r else endItem c)" by (simp add: tree_find_def r(1))
  then show ?thesis using r(2) tm_ok_facts(4,8)[OF ok] by (auto split: if_splits)
qed

section \<open>Adding an item\<close>

lemma taken_same_cont: "taken h c xs fs h1 c1 i \<Longrightarrow> same_cont c1 c2 \<Longrightarrow> taken h c xs fs h1 c2 i"
  unfolding taken_def using cont_st_same_cont[of c1 c2] same_cont_def by metis

lemma zipper_frame:
  assumes "zipper h c S cs n t" "tfields h' = tfields h" "troot c' = troot c"
  shows "zipper h' c' S cs n t"
proof -
  have f: "tfields h' x = tfields h x" for x using assms(2) by simp
  have "get_cell h' c' (cell_of cs) = get_cell h c (cell_of cs)"
    by (rule get_cell_frame) (use f assms(3) in auto)
  moreover have "ptree h' (owner cs) t (get_cell h c (cell_of cs))"
    by (rule ptree_frame[of h]) (use assms(1) f in \<open>auto simp: zipper_def\<close>)
  moreover have "pctx h' c' S cs n"
    by (rule pctx_frame[of h c]) (use assms(1,3) f in \<open>auto simp: zipper_def\<close>)
  ultimately show ?thesis using assms(1) by (simp add: zipper_def)
qed

lemma tree_attach_ok:
  assumes inv: "cont_inv h c (ctx_l cs @ ctx_r cs) fs" and z: "zipper h c {} cs 0 Lf"
    and av: "avl (plug cs Lf)"
  shows "\<exists>h' c' i T fs'. tree_attach h c (cell_of cs) (owner cs) k v = Some (h', c', i) \<and>
    cont_inv h' c' (ctx_l cs @ i # ctx_r cs) fs' \<and> ptree h' null T (troot c') \<and> avl T \<and>
    inord T = ctx_l cs @ i # ctx_r cs \<and> tkey h' = (tkey h)(i := k) \<and> tval h' = (tval h)(i := v) \<and>
    i \<notin> set (ctx_l cs @ ctx_r cs) \<and> endItem c' = endItem c \<and> tree_frame h c h' c'"
proof -
  let ?xs = "ctx_l cs @ ctx_r cs"
  obtain h1 c1 i where al: "alloc_item h c = (h1, c1, i)" by (metis prod_cases3)
  define h2 where "h2 = h1\<lparr>tkey := (tkey h1)(i := k), tval := (tval h1)(i := v),
                  parent := (parent h1)(i := owner cs), left := (left h1)(i := null),
                  right := (right h1)(i := null), height := (height h1)(i := 1),
                  slope := (slope h1)(i := 0)\<rparr>"
  define c2 where "c2 = take_free h2 c1 i"
  obtain h3 c3 where sc: "set_cell h2 c2 (cell_of cs) i = (h3, c3)" by fastforce
  have sl12: "same_links h1 h2" by (simp add: same_links_def h2_def)
  have tk2: "taken h c ?xs fs h2 c2 i" unfolding c2_def by (rule alloc_item_taken[OF inv al sl12])
  have i: "i \<notin> set ?xs" "i \<noteq> null"
    using tk2 by (auto simp: taken_def cont_st_def)
  have e1: "tfields h1 = tfields h" "tkey h1 = tkey h" "tval h1 = tval h" "nextp h1 = nextp h" "troot c1 = troot c"
    using al by (auto simp: alloc_item_eq tfields_def fun_eq_iff split: if_splits)
  have e2: "tfields h2 a = tfields h a" if "a \<noteq> i" for a
    using that fun_cong[OF e1(1), of a] by (simp add: h2_def tfields_def)
  have t2: "troot c2 = troot c" by (simp add: c2_def take_free_def e1)
  have pc: "pctx h c {} cs 0" and g0: "get_cell h c (cell_of cs) = null" and di: "distinct ?xs"
    using z by (auto simp: zipper_def)
  have pc2: "pctx h2 c2 {} cs 0"
  proof (rule pctx_frame[OF pc])
    fix a assume "a \<in> set ?xs"
    then have "a \<noteq> i" using i(1) by metis
    then show "tfields h2 a = tfields h a" by (rule e2)
  qed (rule t2)
  have m3: "moved h2 c2 (cell_of cs) h3 c3 {}" by (rule moved_set_cell[OF sc])
  have pc3: "pctx h3 c3 {} cs 0" by (rule pctx_moved[OF pc2 m3]) (use di in auto)
  have cel: "cell_of cs \<noteq> LeftOf i" "cell_of cs \<noteq> RightOf i"
    using i(1) owner_in[of cs] by (cases cs rule: cell_of.cases; auto)+
  have h3: "h3 = fst (set_cell h2 c2 (cell_of cs) i)" "c3 = snd (set_cell h2 c2 (cell_of cs) i)"
    using sc by simp_all
  have f3: "parent h3 i = owner cs" "left h3 i = null" "right h3 i = null" "height h3 i = 1" "slope h3 i = 0"
    using cel by (simp_all add: h3 h2_def)
  have g3: "get_cell h3 c3 (cell_of cs) = i" by (simp add: h3)
  have z3: "zipper h3 c3 {} cs 0 (Nd Lf i Lf)"
    using pc3 f3 g3 i di by (simp add: zipper_def)
  have sr23: "same_rest h2 h3" and sc23: "same_cont c2 c3"
    unfolding h3 by (rule set_cell_same_rest, rule set_cell_cont)
  have sl23: "same_links h2 h3" using sr23 by (simp add: same_rest_def same_links_def)
  have tk3: "taken h c ?xs fs h3 c3 i"
    by (rule taken_same_cont[OF taken_same_links[OF tk2 sl23] sc23])
  have e3: "endItem c3 = endItem c" using tk3 by (auto simp: taken_def)
  define pos where "pos = (if cs \<noteq> [] \<and> cell_of cs = RightOf (owner cs) then nextp h3 (owner cs)
     else if cs \<noteq> [] then owner cs else endItem c3)"
  have pos: "pos = hd (ctx_r cs @ [endItem c])"
  proof (cases cs rule: cell_of.cases)
    case 1
    then show ?thesis by (simp add: pos_def e3)
  next
    case (2 x r cs')
    then show ?thesis by (simp add: pos_def)
  next
    case (3 l x cs')
    have "dseg (prevp h) (nextp h) null ((ctx_l cs' @ inord l) @ x # ctx_r cs') (endItem c)"
      using inv 3 by (simp add: cont_st_def)
    then have "nextp h x = hd (ctx_r cs' @ [endItem c])" by (rule dseg_mid_next)
    moreover have "nextp h3 = nextp h" using sr23 e1(4) by (simp add: same_rest_def h2_def)
    ultimately show ?thesis by (simp add: pos_def 3)
  qed
  obtain h4 c4 where lb: "link_before h3 c3 i pos = (h4, c4)" by fastforce
  obtain fs' where L: "cont_inv h4 c4 (ctx_l cs @ i # ctx_r cs) fs'" "endItem c4 = endItem c"
    "same_outside h h4 (footprint c ?xs fs)" "fresh_for h fs i" "set fs' \<subseteq> set fs \<union> {brk h..<brk h4}"
    using link_taken_st[OF tk3 pos lb] by blast
  have f4: "tfields h4 = tfields h3" "tkey h4 = tkey h3" "tval h4 = tval h3" "troot c4 = troot c3"
    using lb by (auto simp: link_before_eq tfields_def fun_eq_iff)
  have z4: "zipper h4 c4 {} cs 0 (Nd Lf i Lf)" by (rule zipper_frame[OF z3 f4(1,4)])
  have "avl (Nd Lf i Lf)" "ctx_ok cs 0" "ht (Nd Lf i Lf) \<le> 0 + 1" "0 \<le> ht (Nd Lf i Lf) + 1"
    using av by (simp_all add: avl_plug)
  then obtain h5 c5 T where R: "rebal_upwards h4 c4 (owner cs) = Some (h5, c5)" "ptree h5 null T (troot c5)" "avl T"
    "inord T = ctx_l cs @ i # ctx_r cs" "tframe h4 c4 h5 c5 (set (inord T))"
    using rebal_upwards_ok[OF z4] by auto
  have sr45: "same_rest h4 h5" using R(5) by (simp add: tframe_def)
  have c5: "cont_inv h5 c5 (ctx_l cs @ i # ctx_r cs) fs'" by (rule tframe_links[OF R(5) L(1)])
  have att: "tree_attach h c (cell_of cs) (owner cs) k v = Some (h5, c5, i)"
  proof (cases "cs = []")
    case False
    then have "owner cs \<noteq> null" using pc by (cases cs) (simp_all add: Let_def)
    then show ?thesis
      unfolding tree_attach_def al Let_def prod.case h2_def[symmetric] c2_def[symmetric] sc
      using lb R(1) False by (cases "cell_of cs = RightOf (owner cs)") (simp_all add: pos_def)
  next
    case True
    have "prevp h3 (endItem c3) = null" "beginp c3 = endItem c3"
      using tk3 True dseg_last_prev[of "prevp h3" "nextp h3" null "[]" "endItem c3"]
      by (auto simp: taken_def cont_st_def)
    then have "(h4, c4) = (h3\<lparr>nextp := (nextp h3)(i := beginp c3), prevp := (prevp h3)(i := null, endItem c3 := i)\<rparr>,
        c3\<lparr>beginp := i, csize := Suc (csize c3)\<rparr>)"
      using lb True by (simp add: pos_def link_before_def Let_def)
    moreover have "(h5, c5) = (h4, c4)" using R(1) True by (simp add: rebal_upwards.simps)
    ultimately show ?thesis
      unfolding tree_attach_def al Let_def prod.case h2_def[symmetric] c2_def[symmetric] sc
      using True by simp
  qed
  have k5: "tkey h5 = (tkey h)(i := k)" "tval h5 = (tval h)(i := v)"
    using sr45 f4(2,3) sr23 e1 by (simp_all add: same_rest_def h2_def)
  have b5: "brk h5 = brk h4" using sr45 by (simp add: same_rest_def)
  have e5: "endItem c5 = endItem c" using R(5) L(2) by (simp add: tframe_def same_cont_def)
  have fr: "tree_frame h c h5 c5"
  proof (rule tree_frameI[OF inv c5 e5])
    show "same_outside h h5 (footprint c ?xs fs)"
      using L(3) sr45 by (simp add: same_outside_def same_rest_def)
    show "set (ctx_l cs @ i # ctx_r cs) \<union> set fs' \<subseteq> set ?xs \<union> set fs \<union> {b. brk h \<le> b}"
      using L(4,5) by (auto simp: fresh_for_def)
    fix a assume a: "a < brk h" "a \<notin> footprint c ?xs fs"
    have ai: "a \<noteq> i" using a L(4) by (auto simp: fresh_for_def footprint_def)
    have ax: "a \<notin> set ?xs" using a(2) by (auto simp: footprint_def)
    have "tfields h5 a = tfields h4 a" using R(4,5) ai ax by (auto simp: tframe_def)
    also have "\<dots> = tfields h3 a" by (simp add: f4)
    also have "\<dots> = tfields h2 a"
      by (rule movedD(4)[OF m3]) (use ax owner_in[of cs] in \<open>auto simp: cell_owner_of\<close>)
    finally have "tfields h5 a = tfields h a" using e2[OF ai] by simp
    then show "tfields h5 a = tfields h a \<and> tkey h5 a = tkey h a \<and> tval h5 a = tval h a"
      using k5 ai by simp
  qed
  show ?thesis using att c5 R(2,3,4) k5 i(1) e5 fr by blast
qed

section \<open>Removing an item\<close>

lemma tree_remove_ok:
  assumes ok: "tm_ok R h c (us @ x # vs) (ps @ p # qs)" and len: "length us = length ps"
  shows "\<exists>h' c'. tree_remove h c x = Some (h', c', hd (vs @ [endItem c])) \<and>
    tm_ok R h' c' (us @ vs) (ps @ qs) \<and> endItem c' = endItem c \<and> freeItem c' = x \<and>
    tkey h' = tkey h \<and> tval h' = tval h \<and> tree_frame h c h' c'"
proof -
  obtain fs T where D: "cont_inv h c (us @ x # vs) fs" "ptree h null T (troot c)" "avl T" "inord T = us @ x # vs"
    "ps @ p # qs = map (\<lambda>x. (tkey h x, tval h x)) (us @ x # vs)" "sorted_wrt R (map (tkey h) (us @ x # vs))"
    using ok by (rule tm_okE)
  obtain h1 c1 T' where U: "tree_unlink h c x = Some (h1, c1)" "ptree h1 null T' (troot c1)" "avl T'"
    "inord T' = us @ vs" "tframe h c h1 c1 (set (us @ x # vs))"
    using tree_unlink_ok[OF D(1-4)] by blast
  have c1: "cont_inv h1 c1 (us @ x # vs) fs" by (rule tframe_links[OF U(5) D(1)])
  have e1: "endItem c1 = endItem c" "same_rest h h1" using U(5) by (auto simp: tframe_def same_cont_def)
  obtain h2 c2 where un: "unlink h1 c1 x = (h2, c2)" by fastforce
  obtain h3 c3 where re: "release h2 c2 x = (h3, c3)" by fastforce
  have "same_links h2 h2" by (simp add: same_links_def)
  note L = remove_links_st[OF c1 un this re]
  have f: "tfields h3 = tfields h1" "tkey h3 = tkey h1" "tval h3 = tval h1" "troot c3 = troot c1" "brk h3 = brk h1"
    "freeItem c3 = x"
    using un re by (auto simp: unlink_eq release_def tfields_def fun_eq_iff)
  have "tree_remove h c x = Some (h3, c3, hd (vs @ [endItem c]))"
    using U(1) un re L(2) e1(1) by (simp add: tree_remove_def)
  moreover have k: "tkey h3 = tkey h" "tval h3 = tval h" using f e1(2) by (simp_all add: same_rest_def)
  moreover have "tm_ok R h3 c3 (us @ vs) (ps @ qs)"
  proof (rule tm_okI[OF L(1)])
    show "ptree h3 null T' (troot c3)"
      unfolding f(4) by (rule ptree_frame[OF U(2)]) (simp add: f(1))
    show "ps @ qs = map (\<lambda>x. (tkey h3 x, tval h3 x)) (us @ vs)"
      using D(5) len by (simp add: k append_eq_append_conv)
    then show "sorted_wrt R (map fst (ps @ qs))" using D(6) k by (simp add: o_def sorted_wrt_append)
  qed (rule U(3,4))+
  moreover have "endItem c3 = endItem c" using L(3) e1 by simp
  moreover have "tree_frame h c h3 c3"
  proof (rule tree_frameI[OF D(1) L(1) \<open>endItem c3 = endItem c\<close>])
    show "same_outside h h3 (footprint c (us @ x # vs) fs)"
      using L(4) e1 by (simp add: same_outside_def same_rest_def footprint_def)
    show "set (us @ vs) \<union> set (x # fs) \<subseteq> set (us @ x # vs) \<union> set fs \<union> {b. brk h \<le> b}" by auto
    fix a assume "a < brk h" "a \<notin> footprint c (us @ x # vs) fs"
    then have "a \<notin> set (us @ x # vs)" by (auto simp: footprint_def)
    then have "tfields h1 a = tfields h a" using U(5) unfolding tframe_def by blast
    then show "tfields h3 a = tfields h a \<and> tkey h3 a = tkey h a \<and> tval h3 a = tval h a"
      by (simp add: f(1) k)
  qed
  ultimately show ?thesis using f(6) by blast
qed

section \<open>Clearing, constructing\<close>

lemma tree_clear_ok:
  assumes ok: "tm_ok R h c xs kvs"
  shows "\<exists>h' c'. tree_clear h c = Some (h', c') \<and> tm_ok R h' c' [] [] \<and> tree_frame h c h' c'"
proof -
  obtain fs where D: "cont_inv h c xs fs" using ok by (rule tm_okE)
  obtain h1 c1 p where C: "clear_links h c = Some (h1, c1)" "cont_inv h1 c1 [] (rev xs @ fs)"
    "endItem c1 = endItem c" "h1 = h\<lparr>prevp := p\<rparr>" "same_outside h h1 (footprint c xs fs)"
    using clear_links_st[OF D] by blast
  have c2: "cont_inv h1 (c1\<lparr>troot := null\<rparr>) [] (rev xs @ fs)"
    by (subst cont_st_same_cont[of c1]) (simp_all add: same_cont_def C(2))
  have "tm_ok R h1 (c1\<lparr>troot := null\<rparr>) [] []" by (rule tm_okI[OF c2, of Lf]) simp_all
  moreover have "tree_frame h c h1 (c1\<lparr>troot := null\<rparr>)"
    by (rule tree_frameI[OF D c2 _ C(5)]) (auto simp: C(3,4) tfields_def)
  ultimately show ?thesis by (simp add: tree_clear_def C(1))
qed

lemma init_tcont_ok:
  assumes eq: "init_tcont h = (h', c)" and pos: "0 < brk h"
  shows "tm_ok R h' c [] []" "tm_ok R h d ys kvs \<Longrightarrow> tm_ok R h' d ys kvs \<and> tree_apart c d"
proof -
  obtain h1 c0 where i: "init_cont h = (h1, c0)" and h': "h' = h1\<lparr>parent := (parent h1)(endItem c0 := null)\<rparr>"
    and c: "c = cont.extend c0 \<lparr>troot = null\<rparr>"
    using eq by (auto simp: init_tcont_def split: prod.splits)
  have sc: "same_cont c0 c" by (simp add: same_cont_def c cont.defs)
  have sl: "same_links h1 h'" by (simp add: h' same_links_def)
  have c': "cont_inv h' c [] []"
    using init_cont_st[OF i pos] cont_st_same_cont[OF sc] cont_st_same_links[OF sl] by blast
  have "troot c = null" by (simp add: c cont.defs)
  then show "tm_ok R h' c [] []" by (intro tm_okI[OF c', of Lf]) simp_all
  assume d: "tm_ok R h d ys kvs"
  obtain gs T where D: "cont_inv h d ys gs" "ptree h null T (troot d)" "avl T" "inord T = ys"
    "kvs = map (\<lambda>x. (tkey h x, tval h x)) ys" "sorted_wrt R (map (tkey h) ys)"
    using d by (rule tm_okE)
  have e: "endItem c = brk h" using i by (auto simp: c init_cont_def cont.defs)
  have out: "same_outside h h' {}" using i by (auto simp: h' same_outside_def init_cont_def)
  have d': "cont_inv h' d ys gs" by (rule cont_inv_other[OF D(1) out]) simp
  have lt: "y < brk h" if "y \<in> set ys" for y using footprint_bound[OF D(1), of y] that by (simp add: footprint_def)
  have "endItem c0 = brk h" using i by (auto simp: init_cont_def)
  then have f: "tfields h' y = tfields h y" "tkey h' y = tkey h y" "tval h' y = tval h y" if "y \<in> set ys" for y
    using lt[OF that] i by (auto simp: h' init_cont_def tfields_def)
  have "ptree h' null T (troot d)" by (rule ptree_frame[OF D(2)]) (use f D(4) in auto)
  moreover have "kvs = map (\<lambda>x. (tkey h' x, tval h' x)) ys" using D(5) f by simp
  moreover have "sorted_wrt R (map fst kvs)" using D(5,6) by (simp add: o_def)
  ultimately have "tm_ok R h' d ys kvs" using d' D(3,4) by (intro tm_okI)
  moreover have "footprint c [] [] \<inter> footprint d ys gs = {}"
    using footprint_bound[OF D(1), of "brk h"] e by (auto simp: footprint_def)
  then have "tree_apart c d"
    unfolding tree_apart_def footprint_pool[OF c'] footprint_pool[OF d'] .
  ultimately show "tm_ok R h' d ys kvs \<and> tree_apart c d" by blast
qed

section \<open>Replacing a value\<close>

lemma tree_set_val_ok:
  assumes ok: "tm_ok R h c (us @ x # vs) (ps @ (k, w) # qs)" and len: "length us = length ps"
  shows "tm_ok R (h\<lparr>tval := (tval h)(x := v)\<rparr>) c (us @ x # vs) (ps @ (k, v) # qs)"
    "tree_frame h c (h\<lparr>tval := (tval h)(x := v)\<rparr>) c"
proof -
  let ?h = "h\<lparr>tval := (tval h)(x := v)\<rparr>"
  obtain fs T where D: "cont_inv h c (us @ x # vs) fs" "ptree h null T (troot c)" "avl T" "inord T = us @ x # vs"
    "ps @ (k, w) # qs = map (\<lambda>x. (tkey h x, tval h x)) (us @ x # vs)" "sorted_wrt R (map (tkey h) (us @ x # vs))"
    using ok by (rule tm_okE)
  have c: "cont_inv ?h c (us @ x # vs) fs"
    by (subst cont_st_same_links[of h]) (simp_all add: same_links_def D(1))
  have di: "x \<notin> set us" "x \<notin> set vs" using cont_st_distinct[OF D(1)] by auto
  show "tm_ok R ?h c (us @ x # vs) (ps @ (k, v) # qs)"
  proof (rule tm_okI[OF c])
    show "ptree ?h null T (troot c)" by (rule ptree_frame[OF D(2)]) (simp add: tfields_def)
    show "ps @ (k, v) # qs = map (\<lambda>x. (tkey ?h x, tval ?h x)) (us @ x # vs)"
      using D(5) len di by (auto simp: append_eq_append_conv)
    then show "sorted_wrt R (map fst (ps @ (k, v) # qs))" using D(6) by (simp add: o_def)
  qed (rule D(3,4))+
  show "tree_frame h c ?h c"
    by (rule tree_frameI[OF D(1) c refl]) (auto simp: same_outside_def tfields_def footprint_def)
qed

end
