(* ===== verification/Nstd_Map.thy ===== *)
theory Nstd_Map
  imports Nstd_TreeCont Nstd_Interfaces
begin

text \<open>
  \<^verbatim>\<open>Map\<close> (include/nstd/Map.hpp): a search tree with one item per key, whose items are also linked
  in key order. The comparison of keys is the one of a linear order.
\<close>

section \<open>Operations\<close>

definition map_init :: "('k::linorder, 'v) tree_heap \<Rightarrow> ('k, 'v) tree_heap \<times> tcont" where
  "map_init h = init_tcont h"

definition map_isEmpty :: "('k::linorder, 'v) tree_heap \<Rightarrow> tcont \<Rightarrow> bool" where
  "map_isEmpty h c \<longleftrightarrow> \<not> troot c \<noteq> null"

definition map_clear :: "('k::linorder, 'v) tree_heap \<Rightarrow> tcont \<Rightarrow> (('k, 'v) tree_heap \<times> tcont) option" where
  "map_clear h c = tree_clear h c"

definition map_find :: "('k::linorder, 'v) tree_heap \<Rightarrow> tcont \<Rightarrow> 'k \<Rightarrow> addr option" where
  "map_find h c key = tree_find h c key"

definition map_contains :: "('k::linorder, 'v) tree_heap \<Rightarrow> tcont \<Rightarrow> 'k \<Rightarrow> bool option" where
  "map_contains h c key = map_option (\<lambda>it. it \<noteq> endItem c) (map_find h c key)"

text \<open>The private \<^verbatim>\<open>insert(Item** cell, Item* parent, key, value)\<close>: its \<^verbatim>\<open>goto begin\<close> is the recursion.\<close>

partial_function (option) map_insert_at ::
    "('k::linorder, 'v) tree_heap \<Rightarrow> tcont \<Rightarrow> tcell \<Rightarrow> addr \<Rightarrow> 'k \<Rightarrow> 'v
     \<Rightarrow> (('k, 'v) tree_heap \<times> tcont \<times> addr) option" where
  "map_insert_at h c cell par key value =
     (let position = get_cell h c cell in
      if position = null then tree_attach h c cell par key value
      else if key > tkey h position then map_insert_at h c (RightOf position) position key value
      else if key < tkey h position then map_insert_at h c (LeftOf position) position key value
      else Some (h\<lparr>tval := (tval h)(position := value)\<rparr>, c, position))"

definition map_insert ::
    "('k::linorder, 'v) tree_heap \<Rightarrow> tcont \<Rightarrow> 'k \<Rightarrow> 'v \<Rightarrow> (('k, 'v) tree_heap \<times> tcont \<times> addr) option" where
  "map_insert h c key value = map_insert_at h c RootCell null key value"

text \<open>\<^verbatim>\<open>insert(const Iterator& position, key, value)\<close>: the position is a hint.\<close>

definition map_insert_hint ::
    "('k::linorder, 'v) tree_heap \<Rightarrow> tcont \<Rightarrow> addr \<Rightarrow> 'k \<Rightarrow> 'v
     \<Rightarrow> (('k, 'v) tree_heap \<times> tcont \<times> addr) option" where
  "map_insert_hint h c insertPos key value =
     (if insertPos = endItem c then
        (let prev = prevp h insertPos in
         if prev \<noteq> null \<and> key > tkey h prev then map_insert_at h c (RightOf prev) prev key value
         else map_insert_at h c RootCell null key value)
      else if key < tkey h insertPos then
        (let prev = prevp h insertPos in
         if prev = null \<or> key > tkey h prev then map_insert_at h c (LeftOf insertPos) insertPos key value
         else map_insert_at h c RootCell null key value)
      else if key > tkey h insertPos then
        (let next = nextp h insertPos in
         if next = endItem c \<or> key < tkey h next then map_insert_at h c (RightOf insertPos) insertPos key value
         else map_insert_at h c RootCell null key value)
      else Some (h\<lparr>tval := (tval h)(insertPos := value)\<rparr>, c, insertPos))"

text \<open>\<^verbatim>\<open>for(++i; i != other._end; ++i) it = insert(it, i.item->key, i.item->value);\<close>\<close>

partial_function (option) map_merge_loop ::
    "('k::linorder, 'v) tree_heap \<Rightarrow> tcont \<Rightarrow> addr \<Rightarrow> addr \<Rightarrow> addr \<Rightarrow> (('k, 'v) tree_heap \<times> tcont) option" where
  "map_merge_loop h c it i e =
     (if i = e then Some (h, c)
      else Option.bind (map_insert_hint h c it (tkey h i) (tval h i)) (\<lambda>(h1, c1, it1).
             map_merge_loop h1 c1 it1 (nextp h1 i) e))"

definition map_insert_map ::
    "('k::linorder, 'v) tree_heap \<Rightarrow> tcont \<Rightarrow> tcont \<Rightarrow> (('k, 'v) tree_heap \<times> tcont) option" where
  "map_insert_map h c d =
     (if troot d \<noteq> null then
        (let i = beginp d in
         Option.bind (map_insert_at h c RootCell null (tkey h i) (tval h i)) (\<lambda>(h1, c1, it).
           map_merge_loop h1 c1 it (nextp h1 i) (endItem d)))
      else Some (h, c))"

definition map_remove ::
    "('k::linorder, 'v) tree_heap \<Rightarrow> tcont \<Rightarrow> addr \<Rightarrow> (('k, 'v) tree_heap \<times> tcont \<times> addr) option" where
  "map_remove h c item = tree_remove h c item"

definition map_remove_key ::
    "('k::linorder, 'v) tree_heap \<Rightarrow> tcont \<Rightarrow> 'k \<Rightarrow> (('k, 'v) tree_heap \<times> tcont) option" where
  "map_remove_key h c key =
     Option.bind (map_find h c key) (\<lambda>it.
       if it \<noteq> endItem c then map_option (\<lambda>(h1, c1, _). (h1, c1)) (map_remove h c it) else Some (h, c))"

definition map_removeFront :: "('k::linorder, 'v) tree_heap \<Rightarrow> tcont \<Rightarrow> (('k, 'v) tree_heap \<times> tcont \<times> addr) option" where
  "map_removeFront h c = map_remove h c (beginp c)"

definition map_removeBack :: "('k::linorder, 'v) tree_heap \<Rightarrow> tcont \<Rightarrow> (('k, 'v) tree_heap \<times> tcont \<times> addr) option" where
  "map_removeBack h c = map_remove h c (prevp h (endItem c))"

definition map_front :: "('k::linorder, 'v) tree_heap \<Rightarrow> tcont \<Rightarrow> 'v" where
  "map_front h c = tval h (beginp c)"

definition map_back :: "('k::linorder, 'v) tree_heap \<Rightarrow> tcont \<Rightarrow> 'v" where
  "map_back h c = tval h (prevp h (endItem c))"

text \<open>The loop of the copy constructor and of \<^verbatim>\<open>operator=\<close>\<close>

partial_function (option) map_copy_loop ::
    "('k::linorder, 'v) tree_heap \<Rightarrow> tcont \<Rightarrow> addr \<Rightarrow> addr \<Rightarrow> (('k, 'v) tree_heap \<times> tcont) option" where
  "map_copy_loop h c i e =
     (if i = e then Some (h, c)
      else Option.bind (map_insert h c (tkey h i) (tval h i)) (\<lambda>(h1, c1, _).
             map_copy_loop h1 c1 (nextp h1 i) e))"

definition map_copy :: "('k::linorder, 'v) tree_heap \<Rightarrow> tcont \<Rightarrow> (('k, 'v) tree_heap \<times> tcont) option" where
  "map_copy h d = (let (h1, c) = map_init h in map_copy_loop h1 c (beginp d) (endItem d))"

definition map_assign ::
    "('k::linorder, 'v) tree_heap \<Rightarrow> tcont \<Rightarrow> tcont \<Rightarrow> (('k, 'v) tree_heap \<times> tcont) option" where
  "map_assign h c d =
     Option.bind (map_clear h c) (\<lambda>(h1, c1). map_copy_loop h1 c1 (beginp d) (endItem d))"

text \<open>\<^verbatim>\<open>operator=\<close> with the map itself on the right\<close>

definition map_assign_self ::
    "('k::linorder, 'v) tree_heap \<Rightarrow> tcont \<Rightarrow> (('k, 'v) tree_heap \<times> tcont) option" where
  "map_assign_self h c =
     Option.bind (map_clear h c) (\<lambda>(h1, c1). map_copy_loop h1 c1 (beginp c1) (endItem c1))"

section \<open>What insert does to the pairs\<close>

fun ins_sorted :: "'k::linorder \<Rightarrow> 'v \<Rightarrow> ('k \<times> 'v) list \<Rightarrow> ('k \<times> 'v) list" where
  "ins_sorted k v [] = [(k, v)]"
| "ins_sorted k v ((j, w) # kvs) =
     (if k < j then (k, v) # (j, w) # kvs
      else if k = j then (k, v) # kvs
      else (j, w) # ins_sorted k v kvs)"

lemma ins_sorted_new:
  "\<forall>j\<in>fst ` set ps. j < k \<Longrightarrow> \<forall>j\<in>fst ` set qs. k < j \<Longrightarrow> ins_sorted k v (ps @ qs) = ps @ (k, v) # qs"
proof (induction ps)
  case Nil
  then show ?case by (cases qs) auto
next
  case (Cons p ps)
  then show ?case by (cases p) auto
qed

lemma ins_sorted_old:
  "\<forall>j\<in>fst ` set ps. j < k \<Longrightarrow> ins_sorted k v (ps @ (k, w) # qs) = ps @ (k, v) # qs"
proof (induction ps)
  case (Cons p ps)
  then show ?case by (cases p) auto
qed simp

lemma ins_sorted_map_of:
  "sorted_wrt (<) (map fst kvs) \<Longrightarrow> map_of (ins_sorted k v kvs) = (map_of kvs)(k \<mapsto> v)"
  by (induction k v kvs rule: ins_sorted.induct) (auto simp: fun_eq_iff)

lemma ins_sorted_keys: "fst ` set (ins_sorted k v kvs) = insert k (fst ` set kvs)"
  by (induction k v kvs rule: ins_sorted.induct) auto

lemma ins_sorted_sorted:
  "sorted_wrt (<) (map fst kvs) \<Longrightarrow> sorted_wrt (<) (map fst (ins_sorted k v kvs))"
proof (induction k v kvs rule: ins_sorted.induct)
  case (2 k v j w kvs)
  have "fst ` set (ins_sorted k v kvs) = insert k (fst ` set kvs)" by (rule ins_sorted_keys)
  with 2 show ?case by auto
qed simp

section \<open>Inserting below a cell\<close>

text \<open>
  \<open>ins_at h c xs k v res\<close>: the items \<open>xs\<close> fall into those with smaller keys and those with greater
  keys, perhaps with an item for \<open>k\<close> between them, and \<open>res\<close> is right for that.
\<close>

definition ins_at ::
    "('k::linorder, 'v) tree_heap \<Rightarrow> tcont \<Rightarrow> addr list \<Rightarrow> 'k \<Rightarrow> 'v
     \<Rightarrow> (('k, 'v) tree_heap \<times> tcont \<times> addr) option \<Rightarrow> bool" where
  "ins_at h c xs k v res \<longleftrightarrow>
     (\<exists>us vs. (\<forall>a\<in>set us. tkey h a < k) \<and> (\<forall>a\<in>set vs. k < tkey h a) \<and>
       (xs = us @ vs \<and> (\<exists>h' c' i T fs'. res = Some (h', c', i) \<and>
           cont_inv h' c' (us @ i # vs) fs' \<and> ptree h' null T (troot c') \<and> avl T \<and>
           inord T = us @ i # vs \<and> tkey h' = (tkey h)(i := k) \<and> tval h' = (tval h)(i := v) \<and>
           i \<notin> set xs \<and> endItem c' = endItem c \<and> tree_frame h c h' c') \<or>
        (\<exists>x. xs = us @ x # vs \<and> tkey h x = k \<and> res = Some (h\<lparr>tval := (tval h)(x := v)\<rparr>, c, x))))"

lemma map_insert_at_ok:
  assumes "zipper h c {} cs (ht t) t" "avl (plug cs t)" "cont_inv h c (ctx_l cs @ inord t @ ctx_r cs) fs"
    and "sorted_wrt (<) (map (tkey h) (ctx_l cs @ inord t @ ctx_r cs))"
    and "\<forall>a\<in>set (ctx_l cs). tkey h a < k" "\<forall>a\<in>set (ctx_r cs). k < tkey h a"
  shows "ins_at h c (ctx_l cs @ inord t @ ctx_r cs) k v (map_insert_at h c (cell_of cs) (owner cs) k v)"
  using assms
proof (induction t arbitrary: cs)
  case Lf
  have z: "zipper h c {} cs 0 Lf" using Lf.prems(1) by simp
  then have "get_cell h c (cell_of cs) = null" by (simp add: zipper_def)
  then have e: "map_insert_at h c (cell_of cs) (owner cs) k v = tree_attach h c (cell_of cs) (owner cs) k v"
    by (subst map_insert_at.simps) simp
  have inv: "cont_inv h c (ctx_l cs @ ctx_r cs) fs" using Lf.prems(3) by simp
  show ?case unfolding e ins_at_def
    using tree_attach_ok[OF inv z Lf.prems(2), of k v] Lf.prems(5,6)
    by (intro exI[of _ "ctx_l cs"] exI[of _ "ctx_r cs"]) (simp only: inord.simps append_Nil, blast)
next
  case (Nd l x r)
  have g: "get_cell h c (cell_of cs) = x" "x \<noteq> null" using Nd.prems(1) by (auto simp: zipper_def)
  have s: "\<forall>a\<in>set (inord l). tkey h a < tkey h x" "\<forall>a\<in>set (inord r). tkey h x < tkey h a"
    using Nd.prems(4) by (auto simp: sorted_wrt_append)
  consider (R) "k > tkey h x" | (L) "k < tkey h x" | (E) "k = tkey h x" by (metis linorder_neqE)
  then show ?case
  proof cases
    case R
    have z: "zipper h c {} (CR l x # cs) (ht r) r" using Nd.prems(1) zipper_Cons[of h c "CR l x" cs r] by simp
    have e: "map_insert_at h c (cell_of cs) (owner cs) k v
        = map_insert_at h c (cell_of (CR l x # cs)) (owner (CR l x # cs)) k v"
      by (subst map_insert_at.simps) (use g R in \<open>simp add: Let_def\<close>)
    have b: "\<forall>a\<in>set (ctx_l (CR l x # cs)). tkey h a < k" "\<forall>a\<in>set (ctx_r (CR l x # cs)). k < tkey h a"
      using Nd.prems(5,6) R s(1) by auto
    show ?thesis unfolding e using Nd.IH(2)[OF z _ _ _ b] Nd.prems(2,3,4) by simp
  next
    case L
    have z: "zipper h c {} (CL x r # cs) (ht l) l" using Nd.prems(1) zipper_Cons[of h c "CL x r" cs l] by simp
    have e: "map_insert_at h c (cell_of cs) (owner cs) k v
        = map_insert_at h c (cell_of (CL x r # cs)) (owner (CL x r # cs)) k v"
      by (subst map_insert_at.simps) (use g L less_not_sym[OF L] in \<open>simp add: Let_def\<close>)
    have b: "\<forall>a\<in>set (ctx_l (CL x r # cs)). tkey h a < k" "\<forall>a\<in>set (ctx_r (CL x r # cs)). k < tkey h a"
      using Nd.prems(5,6) L s(2) by auto
    show ?thesis unfolding e using Nd.IH(1)[OF z _ _ _ b] Nd.prems(2,3,4) by simp
  next
    case E
    have e: "map_insert_at h c (cell_of cs) (owner cs) k v = Some (h\<lparr>tval := (tval h)(x := v)\<rparr>, c, x)"
      by (subst map_insert_at.simps) (use g E in \<open>simp add: Let_def\<close>)
    show ?thesis unfolding e ins_at_def
      by (intro exI[of _ "ctx_l cs @ inord l"] exI[of _ "inord r @ ctx_r cs"])
         (use Nd.prems(5,6) s E in auto)
  qed
qed

text \<open>What that means for the pairs.\<close>

lemma ins_at_pairs:
  assumes ok: "tm_ok (<) h c xs kvs" and ins: "ins_at h c xs k v res"
  shows "\<exists>h' c' i xs'. res = Some (h', c', i) \<and> tm_ok (<) h' c' xs' (ins_sorted k v kvs) \<and>
    i \<in> set xs' \<and> tkey h' i = k \<and> tval h' i = v \<and> set xs \<subseteq> set xs' \<and> tree_frame h c h' c'"
proof -
  have kvs: "kvs = map (\<lambda>x. (tkey h x, tval h x)) xs" by (rule tm_ok_facts(12)[OF ok])
  have srt: "sorted_wrt (<) (map fst kvs)" by (rule tm_ok_facts(11)[OF ok])
  let ?f = "\<lambda>x. (tkey h x, tval h x)"
  from ins obtain us vs where b: "\<forall>a\<in>set us. tkey h a < k" "\<forall>a\<in>set vs. k < tkey h a" and
    dj: "(xs = us @ vs \<and> (\<exists>h' c' i T fs'. res = Some (h', c', i) \<and>
           cont_inv h' c' (us @ i # vs) fs' \<and> ptree h' null T (troot c') \<and> avl T \<and>
           inord T = us @ i # vs \<and> tkey h' = (tkey h)(i := k) \<and> tval h' = (tval h)(i := v) \<and>
           i \<notin> set xs \<and> endItem c' = endItem c \<and> tree_frame h c h' c')) \<or>
        (\<exists>x. xs = us @ x # vs \<and> tkey h x = k \<and> res = Some (h\<lparr>tval := (tval h)(x := v)\<rparr>, c, x))"
    unfolding ins_at_def by blast
  have bu: "\<forall>j\<in>fst ` set (map ?f us). j < k" "\<forall>j\<in>fst ` set (map ?f vs). k < j" using b by auto
  from dj show ?thesis
  proof
    assume "xs = us @ vs \<and> (\<exists>h' c' i T fs'. res = Some (h', c', i) \<and>
           cont_inv h' c' (us @ i # vs) fs' \<and> ptree h' null T (troot c') \<and> avl T \<and>
           inord T = us @ i # vs \<and> tkey h' = (tkey h)(i := k) \<and> tval h' = (tval h)(i := v) \<and>
           i \<notin> set xs \<and> endItem c' = endItem c \<and> tree_frame h c h' c')"
    then obtain h' c' i T fs' where A: "xs = us @ vs" "res = Some (h', c', i)" "cont_inv h' c' (us @ i # vs) fs'"
      "ptree h' null T (troot c')" "avl T" "inord T = us @ i # vs" "tkey h' = (tkey h)(i := k)"
      "tval h' = (tval h)(i := v)" "i \<notin> set xs" "tree_frame h c h' c'" by blast
    have ik: "ins_sorted k v kvs = map ?f us @ (k, v) # map ?f vs"
      unfolding kvs A(1) map_append by (rule ins_sorted_new[OF bu])
    have "tm_ok (<) h' c' (us @ i # vs) (ins_sorted k v kvs)"
    proof (rule tm_okI[OF A(3-6)])
      show "ins_sorted k v kvs = map (\<lambda>x. (tkey h' x, tval h' x)) (us @ i # vs)"
        unfolding ik A(7,8) using A(1,9) by auto
      show "sorted_wrt (<) (map fst (ins_sorted k v kvs))" by (rule ins_sorted_sorted[OF srt])
    qed
    then show ?thesis using A by (intro exI[of _ h'] exI[of _ c'] exI[of _ i] exI[of _ "us @ i # vs"]) auto
  next
    assume "\<exists>x. xs = us @ x # vs \<and> tkey h x = k \<and> res = Some (h\<lparr>tval := (tval h)(x := v)\<rparr>, c, x)"
    then obtain x where A: "xs = us @ x # vs" "tkey h x = k" "res = Some (h\<lparr>tval := (tval h)(x := v)\<rparr>, c, x)" by blast
    have k1: "kvs = map ?f us @ (k, tval h x) # map ?f vs" unfolding kvs A(1) by (simp add: A(2))
    have ik: "ins_sorted k v kvs = map ?f us @ (k, v) # map ?f vs"
      unfolding k1 by (rule ins_sorted_old[OF bu(1)])
    note S = tree_set_val_ok[OF ok[unfolded A(1) k1], of v]
    show ?thesis unfolding ik using S A
      by (intro exI[of _ "h\<lparr>tval := (tval h)(x := v)\<rparr>"] exI[of _ c] exI[of _ x] exI[of _ xs]) simp
  qed
qed

section \<open>The operations on the pairs\<close>

abbreviation map_ok :: "('k::linorder, 'v) tree_heap \<Rightarrow> tcont \<Rightarrow> addr list \<Rightarrow> ('k \<times> 'v) list \<Rightarrow> bool" where
  "map_ok \<equiv> tm_ok (<)"

definition inserted ::
    "('k::linorder, 'v) tree_heap \<Rightarrow> tcont \<Rightarrow> addr list \<Rightarrow> ('k \<times> 'v) list \<Rightarrow> 'k \<Rightarrow> 'v
     \<Rightarrow> (('k, 'v) tree_heap \<times> tcont \<times> addr) option \<Rightarrow> bool" where
  "inserted h c xs kvs k v res \<longleftrightarrow> (\<exists>h' c' i xs'. res = Some (h', c', i) \<and>
     map_ok h' c' xs' (ins_sorted k v kvs) \<and> i \<in> set xs' \<and> tkey h' i = k \<and> tval h' i = v \<and>
     set xs \<subseteq> set xs' \<and> tree_frame h c h' c')"

lemma map_insert_top_ok:
  assumes ok: "map_ok h c xs kvs"
  shows "inserted h c xs kvs k v (map_insert_at h c RootCell null k v)"
proof -
  obtain fs T where D: "cont_inv h c xs fs" "ptree h null T (troot c)" "avl T" "inord T = xs"
    "sorted_wrt (<) (map (tkey h) xs)" using ok by (rule tm_okE)
  have "distinct (inord T)" using D(4) cont_st_distinct[OF D(1)] by simp
  then have z: "zipper h c {} [] (ht T) T" using zipper_plug[of h c "[]" T] D(2) by simp
  have "ins_at h c xs k v (map_insert_at h c RootCell null k v)"
    using map_insert_at_ok[OF z, of fs k v] D by simp
  from ins_at_pairs[OF ok this] show ?thesis unfolding inserted_def .
qed

lemma map_insert_beside_ok:
  assumes ok: "map_ok h c (us @ x # vs) kvs"
  shows "tkey h x < k \<Longrightarrow> \<forall>a\<in>set vs. k < tkey h a \<Longrightarrow>
           inserted h c (us @ x # vs) kvs k v (map_insert_at h c (RightOf x) x k v)"
    and "k < tkey h x \<Longrightarrow> \<forall>a\<in>set us. tkey h a < k \<Longrightarrow>
           inserted h c (us @ x # vs) kvs k v (map_insert_at h c (LeftOf x) x k v)"
proof -
  let ?xs = "us @ x # vs"
  obtain fs T where D: "cont_inv h c ?xs fs" "ptree h null T (troot c)" "avl T" "inord T = ?xs"
    "sorted_wrt (<) (map (tkey h) ?xs)" using ok by (rule tm_okE)
  have di: "distinct ?xs" using cont_st_distinct[OF D(1)] by auto
  obtain cs l r where T: "T = plug cs (Nd l x r)" using tree_split[of x T] D(4) by auto
  have "?xs = (ctx_l cs @ inord l) @ x # (inord r @ ctx_r cs)" using D(4) by (simp add: T inord_plug)
  note uv = split_at[OF this di]
  have z: "zipper h c {} cs (ht (Nd l x r)) (Nd l x r)" using zipper_plug[of h c cs "Nd l x r"] D(2,4) di T by simp
  have zr: "zipper h c {} (CR l x # cs) (ht r) r" and zl: "zipper h c {} (CL x r # cs) (ht l) l"
    using z by (simp_all add: zipper_Cons)
  have srt: "\<forall>a\<in>set us. tkey h a < tkey h x" "\<forall>a\<in>set vs. tkey h x < tkey h a"
    using D(5) by (auto simp: sorted_wrt_append)
  have xr: "ctx_l (CR l x # cs) @ inord r @ ctx_r (CR l x # cs) = ?xs"
    and xl: "ctx_l (CL x r # cs) @ inord l @ ctx_r (CL x r # cs) = ?xs" using uv by simp_all
  show "inserted h c ?xs kvs k v (map_insert_at h c (RightOf x) x k v)"
    if k: "tkey h x < k" "\<forall>a\<in>set vs. k < tkey h a"
  proof -
    have "\<forall>a\<in>set (ctx_l (CR l x # cs)). tkey h a < k" "\<forall>a\<in>set (ctx_r (CR l x # cs)). k < tkey h a"
      using k srt uv by (auto intro: less_trans)
    from map_insert_at_ok[OF zr _ D(1)[folded xr] D(5)[folded xr] this, of v]
    have "ins_at h c ?xs k v (map_insert_at h c (RightOf x) x k v)" using D(3) T xr by simp
    from ins_at_pairs[OF ok this] show ?thesis unfolding inserted_def .
  qed
  show "inserted h c ?xs kvs k v (map_insert_at h c (LeftOf x) x k v)"
    if k: "k < tkey h x" "\<forall>a\<in>set us. tkey h a < k"
  proof -
    have "\<forall>a\<in>set (ctx_l (CL x r # cs)). tkey h a < k" "\<forall>a\<in>set (ctx_r (CL x r # cs)). k < tkey h a"
      using k srt uv by (auto intro: less_trans)
    from map_insert_at_ok[OF zl _ D(1)[folded xl] D(5)[folded xl] this, of v]
    have "ins_at h c ?xs k v (map_insert_at h c (LeftOf x) x k v)" using D(3) T xl by simp
    from ins_at_pairs[OF ok this] show ?thesis unfolding inserted_def .
  qed
qed

lemma map_insert_hint_end:
  assumes ok: "map_ok h c xs kvs"
  shows "inserted h c xs kvs k v (map_insert_hint h c (endItem c) k v)"
proof -
  have p: "prevp h (endItem c) = last (null # xs)" by (rule tm_ok_facts(10)[OF ok])
  show ?thesis
  proof (cases "prevp h (endItem c) \<noteq> null \<and> k > tkey h (prevp h (endItem c))")
    case True
    then obtain us x where xs: "xs = us @ x # []" using p by (cases xs rule: rev_cases) auto
    have "prevp h (endItem c) = x" using p xs by simp
    then show ?thesis using map_insert_beside_ok(1)[of h c us x "[]" kvs k v] ok xs True
      by (simp add: map_insert_hint_def)
  next
    case False
    then have "map_insert_hint h c (endItem c) k v = map_insert_at h c RootCell null k v"
      by (auto simp: map_insert_hint_def Let_def)
    then show ?thesis using map_insert_top_ok[OF ok] by simp
  qed
qed

lemma map_insert_hint_item:
  assumes ok: "map_ok h c (us @ x # vs) kvs"
  shows "inserted h c (us @ x # vs) kvs k v (map_insert_hint h c x k v)"
proof -
  let ?top = "map_insert_at h c RootCell null k v"
  have xe: "x \<noteq> endItem c" using tm_ok_facts(4)[OF ok] by auto
  have P: "prevp h x = last (null # us)" and N: "nextp h x = hd (vs @ [endItem c])"
    using tm_ok_links[OF ok] by simp_all
  have nn: "null \<notin> set us" and en: "endItem c \<notin> set vs" using tm_ok_facts(4,7)[OF ok] by auto
  have srt: "sorted_wrt (<) (map (tkey h) us)" "sorted_wrt (<) (map (tkey h) vs)"
    using tm_ok_facts(14)[OF ok] by (auto simp: sorted_wrt_append)
  have top: "inserted h c (us @ x # vs) kvs k v ?top" by (rule map_insert_top_ok[OF ok])
  consider (L) "k < tkey h x" | (R) "k > tkey h x" | (E) "k = tkey h x" by (metis linorder_neqE)
  then show ?thesis
  proof cases
    case L
    show ?thesis
    proof (cases "prevp h x = null \<or> k > tkey h (prevp h x)")
      case True
      have "\<forall>a\<in>set us. tkey h a < k"
      proof (cases us rule: rev_cases)
        case (snoc us' y)
        then have "prevp h x = y" "y \<noteq> null" using P nn by auto
        then show ?thesis using True srt(1) snoc by (auto simp: sorted_wrt_append)
      qed simp
      then have "inserted h c (us @ x # vs) kvs k v (map_insert_at h c (LeftOf x) x k v)"
        by (rule map_insert_beside_ok(2)[OF ok L])
      then show ?thesis using xe L True by (simp add: map_insert_hint_def Let_def)
    next
      case False
      then show ?thesis using xe L top by (simp add: map_insert_hint_def Let_def)
    qed
  next
    case R
    show ?thesis
    proof (cases "nextp h x = endItem c \<or> k < tkey h (nextp h x)")
      case True
      have "\<forall>a\<in>set vs. k < tkey h a"
      proof (cases vs)
        case (Cons y vs')
        then have "nextp h x = y" "y \<noteq> endItem c" using N en by auto
        then show ?thesis using True srt(2) Cons by auto
      qed simp
      then have "inserted h c (us @ x # vs) kvs k v (map_insert_at h c (RightOf x) x k v)"
        by (rule map_insert_beside_ok(1)[OF ok R])
      then show ?thesis using xe R less_not_sym[OF R] True by (simp add: map_insert_hint_def Let_def)
    next
      case False
      then show ?thesis using xe R less_not_sym[OF R] top by (simp add: map_insert_hint_def Let_def)
    qed
  next
    case E
    have "map_insert_hint h c x k v = Some (h\<lparr>tval := (tval h)(x := v)\<rparr>, c, x)"
      using xe E by (simp add: map_insert_hint_def)
    moreover have "ins_at h c (us @ x # vs) k v (Some (h\<lparr>tval := (tval h)(x := v)\<rparr>, c, x))"
      unfolding ins_at_def using tm_ok_facts(14)[OF ok] E
      by (intro exI[of _ us] exI[of _ vs]) (auto simp: sorted_wrt_append)
    from ins_at_pairs[OF ok this] have "inserted h c (us @ x # vs) kvs k v (Some (h\<lparr>tval := (tval h)(x := v)\<rparr>, c, x))"
      unfolding inserted_def .
    ultimately show ?thesis by simp
  qed
qed

lemma map_insert_hint_ok:
  assumes ok: "map_ok h c xs kvs" and pos: "pos \<in> insert (endItem c) (set xs)"
  shows "inserted h c xs kvs k v (map_insert_hint h c pos k v)"
proof (cases "pos = endItem c")
  case True
  then show ?thesis using map_insert_hint_end[OF ok] by simp
next
  case False
  then obtain us vs where "xs = us @ pos # vs" using pos by (auto dest: split_list)
  then show ?thesis using map_insert_hint_item[of h c us pos vs kvs k v] ok by simp
qed

section \<open>Merging and copying\<close>

definition ins_all :: "('k::linorder \<times> 'v) list \<Rightarrow> ('k \<times> 'v) list \<Rightarrow> ('k \<times> 'v) list" where
  "ins_all ws kvs = fold (\<lambda>(k, v). ins_sorted k v) ws kvs"

lemma tm_ok_item:
  assumes "tm_ok R h d (us @ y # ys) (ps @ p # qs)" "length us = length ps"
  shows "tkey h y = fst p" "tval h y = snd p"
proof -
  have "ps @ p # qs = map (\<lambda>x. (tkey h x, tval h x)) us @ (tkey h y, tval h y) # map (\<lambda>x. (tkey h x, tval h x)) ys"
    using tm_ok_facts(12)[OF assms(1)] by simp
  then show "tkey h y = fst p" "tval h y = snd p" using assms(2) by (auto simp: append_eq_append_conv)
qed

lemma map_merge_loop_ok:
  assumes "map_ok h c xs kvs" "map_ok h d (us @ ys) (ps @ qs)" "length us = length ps" "tree_apart c d"
    and "it \<in> set xs"
  shows "\<exists>h' c' xs'. map_merge_loop h c it (hd (ys @ [endItem d])) (endItem d) = Some (h', c') \<and>
    map_ok h' c' xs' (ins_all qs kvs) \<and> tree_frame h c h' c'"
  using assms
proof (induction ys arbitrary: h c xs kvs us ps qs it)
  case Nil
  have "qs = []" using tm_ok_facts(1)[OF Nil.prems(2)] Nil.prems(3) by simp
  then show ?case using Nil.prems(1)
    by (subst map_merge_loop.simps) (auto simp: ins_all_def intro: tree_frame_refl)
next
  case (Cons y ys)
  have "length (us @ y # ys) = length (ps @ qs)" by (rule tm_ok_facts(1)[OF Cons.prems(2)])
  then obtain k v qs' where qs: "qs = (k, v) # qs'" using Cons.prems(3) by (cases qs) auto
  have kv: "tkey h y = k" "tval h y = v"
    using tm_ok_item[OF Cons.prems(2)[unfolded qs] Cons.prems(3)] by simp_all
  have "it \<in> insert (endItem c) (set xs)" using Cons.prems(5) by simp
  from map_insert_hint_ok[OF Cons.prems(1) this, of k v]
  obtain h1 c1 i xs1 where I: "map_insert_hint h c it k v = Some (h1, c1, i)"
    "map_ok h1 c1 xs1 (ins_sorted k v kvs)" "i \<in> set xs1" "tree_frame h c h1 c1"
    unfolding inserted_def by blast
  have d1: "map_ok h1 d ((us @ [y]) @ ys) ((ps @ [(k, v)]) @ qs')" "tree_apart c1 d"
    using I(4) Cons.prems(2,4) qs unfolding tree_frame_def by auto
  obtain h' c' xs' where J: "map_merge_loop h1 c1 i (hd (ys @ [endItem d])) (endItem d) = Some (h', c')"
    "map_ok h' c' xs' (ins_all qs' (ins_sorted k v kvs))" "tree_frame h1 c1 h' c'"
    using Cons.IH[OF I(2) d1(1) _ d1(2) I(3)] Cons.prems(3) by auto
  have "nextp h1 y = hd (ys @ [endItem d])" using tm_ok_links(1)[of "(<)" h1 d us y ys] d1(1) by simp
  moreover have "y \<noteq> endItem d" using tm_ok_facts(4)[OF Cons.prems(2)] by auto
  ultimately have "map_merge_loop h c it (hd ((y # ys) @ [endItem d])) (endItem d) = Some (h', c')"
    using I(1) J(1) kv by (subst map_merge_loop.simps) simp
  moreover have "ins_all qs' (ins_sorted k v kvs) = ins_all qs kvs" by (simp add: ins_all_def qs)
  ultimately show ?case using J(2) tree_frame_trans[OF I(4) J(3)] by auto
qed

lemma map_insert_map_ok:
  assumes c: "map_ok h c xs kvs" and d: "map_ok h d ys ws" and ap: "tree_apart c d"
  shows "\<exists>h' c' xs'. map_insert_map h c d = Some (h', c') \<and> map_ok h' c' xs' (ins_all ws kvs) \<and>
    map_ok h' d ys ws \<and> tree_apart c' d"
proof (cases ys)
  case Nil
  then have "ws = []" "troot d = null" using tm_ok_facts(1,13)[OF d] by auto
  then show ?thesis using c d ap Nil by (auto simp: map_insert_map_def ins_all_def)
next
  case (Cons y ys')
  then obtain k v ws' where ws: "ws = (k, v) # ws'" using tm_ok_facts(1)[OF d] by (cases ws) auto
  have d0: "map_ok h d ([] @ y # ys') ([] @ (k, v) # ws')" using d Cons ws by simp
  have kv: "tkey h y = k" "tval h y = v" using tm_ok_item[OF d0] by simp_all
  have b: "beginp d = y" "troot d \<noteq> null" using tm_ok_facts(3,13)[OF d] Cons by simp_all
  from map_insert_top_ok[OF c, of k v]
  obtain h1 c1 i xs1 where I: "map_insert_at h c RootCell null k v = Some (h1, c1, i)"
    "map_ok h1 c1 xs1 (ins_sorted k v kvs)" "i \<in> set xs1" "tree_frame h c h1 c1"
    unfolding inserted_def by blast
  have d1: "map_ok h1 d ([y] @ ys') ([(k, v)] @ ws')" "tree_apart c1 d"
    using I(4) d0 ap unfolding tree_frame_def by auto
  obtain h' c' xs' where J: "map_merge_loop h1 c1 i (hd (ys' @ [endItem d])) (endItem d) = Some (h', c')"
    "map_ok h' c' xs' (ins_all ws' (ins_sorted k v kvs))" "tree_frame h1 c1 h' c'"
    using map_merge_loop_ok[OF I(2) d1(1) _ d1(2) I(3)] by auto
  have "nextp h1 y = hd (ys' @ [endItem d])" using tm_ok_links(1)[of "(<)" h1 d "[]" y ys'] d1(1) by simp
  then have "map_insert_map h c d = Some (h', c')"
    using b I(1) J(1) kv by (simp add: map_insert_map_def)
  moreover have "map_ok h' d ys ws" "tree_apart c' d"
    using J(3) d1 Cons ws unfolding tree_frame_def by auto
  moreover have "ins_all ws' (ins_sorted k v kvs) = ins_all ws kvs" by (simp add: ins_all_def ws)
  ultimately show ?thesis using J(2) by auto
qed

lemma map_copy_loop_ok:
  assumes "map_ok h c xs kvs" "map_ok h d (us @ ys) (ps @ qs)" "length us = length ps" "tree_apart c d"
  shows "\<exists>h' c' xs'. map_copy_loop h c (hd (ys @ [endItem d])) (endItem d) = Some (h', c') \<and>
    map_ok h' c' xs' (ins_all qs kvs) \<and> tree_frame h c h' c'"
  using assms
proof (induction ys arbitrary: h c xs kvs us ps qs)
  case Nil
  have "qs = []" using tm_ok_facts(1)[OF Nil.prems(2)] Nil.prems(3) by simp
  then show ?case using Nil.prems(1)
    by (subst map_copy_loop.simps) (auto simp: ins_all_def intro: tree_frame_refl)
next
  case (Cons y ys)
  have "length (us @ y # ys) = length (ps @ qs)" by (rule tm_ok_facts(1)[OF Cons.prems(2)])
  then obtain k v qs' where qs: "qs = (k, v) # qs'" using Cons.prems(3) by (cases qs) auto
  have kv: "tkey h y = k" "tval h y = v"
    using tm_ok_item[OF Cons.prems(2)[unfolded qs] Cons.prems(3)] by simp_all
  from map_insert_top_ok[OF Cons.prems(1), of k v]
  obtain h1 c1 i xs1 where I: "map_insert h c k v = Some (h1, c1, i)"
    "map_ok h1 c1 xs1 (ins_sorted k v kvs)" "tree_frame h c h1 c1"
    unfolding inserted_def map_insert_def by blast
  have d1: "map_ok h1 d ((us @ [y]) @ ys) ((ps @ [(k, v)]) @ qs')" "tree_apart c1 d"
    using I(3) Cons.prems(2,4) qs unfolding tree_frame_def by auto
  obtain h' c' xs' where J: "map_copy_loop h1 c1 (hd (ys @ [endItem d])) (endItem d) = Some (h', c')"
    "map_ok h' c' xs' (ins_all qs' (ins_sorted k v kvs))" "tree_frame h1 c1 h' c'"
    using Cons.IH[OF I(2) d1(1) _ d1(2)] Cons.prems(3) by auto
  have "nextp h1 y = hd (ys @ [endItem d])" using tm_ok_links(1)[of "(<)" h1 d us y ys] d1(1) by simp
  moreover have "y \<noteq> endItem d" using tm_ok_facts(4)[OF Cons.prems(2)] by auto
  ultimately have "map_copy_loop h c (hd ((y # ys) @ [endItem d])) (endItem d) = Some (h', c')"
    using I(1) J(1) kv by (subst map_copy_loop.simps) simp
  moreover have "ins_all qs' (ins_sorted k v kvs) = ins_all qs kvs" by (simp add: ins_all_def qs)
  ultimately show ?case using J(2) tree_frame_trans[OF I(3) J(3)] by auto
qed

lemma ins_all_sorted:
  "sorted_wrt (<) (map fst (ps @ ws)) \<Longrightarrow> ins_all ws ps = ps @ ws"
proof (induction ws arbitrary: ps)
  case (Cons w ws)
  obtain k v where w: "w = (k, v)" by force
  have "\<forall>j\<in>fst ` set ps. j < k" using Cons.prems w by (auto simp: sorted_wrt_append)
  then have "ins_sorted k v ps = ps @ [(k, v)]" using ins_sorted_new[of ps k "[]" v] by simp
  then show ?case using Cons.IH[of "ps @ [w]"] Cons.prems by (simp add: ins_all_def w)
qed (simp add: ins_all_def)

lemma map_copied_ok:
  assumes c: "map_ok h c [] []" and d: "map_ok h d ys ws" and ap: "tree_apart c d"
  shows "\<exists>h' c' xs'. map_copy_loop h c (beginp d) (endItem d) = Some (h', c') \<and> map_ok h' c' xs' ws \<and>
    map_ok h' d ys ws \<and> tree_apart c' d"
proof -
  have d0: "map_ok h d ([] @ ys) ([] @ ws)" using d by simp
  obtain h' c' xs' where J: "map_copy_loop h c (hd (ys @ [endItem d])) (endItem d) = Some (h', c')"
    "map_ok h' c' xs' (ins_all ws [])" "tree_frame h c h' c'"
    using map_copy_loop_ok[OF c d0 _ ap] by auto
  have "ins_all ws [] = ws" using ins_all_sorted[of "[]" ws] tm_ok_facts(11)[OF d] by simp
  then show ?thesis using J d ap tm_ok_facts(3)[OF d] unfolding tree_frame_def by auto
qed

lemma map_assign_ok:
  assumes c: "map_ok h c xs kvs" and d: "map_ok h d ys ws" and ap: "tree_apart c d"
  shows "\<exists>h' c' xs'. map_assign h c d = Some (h', c') \<and> map_ok h' c' xs' ws \<and> map_ok h' d ys ws \<and> tree_apart c' d"
proof -
  obtain h1 c1 where w: "map_clear h c = Some (h1, c1)" "map_ok h1 c1 [] []" "tree_frame h c h1 c1"
    using tree_clear_ok[OF c] unfolding map_clear_def by blast
  have "map_ok h1 d ys ws" "tree_apart c1 d" using w(3) d ap unfolding tree_frame_def by auto
  from map_copied_ok[OF w(2) this] show ?thesis by (simp add: map_assign_def w(1))
qed

lemma map_assign_self_ok:
  assumes c: "map_ok h c xs kvs"
  shows "\<exists>h' c'. map_assign_self h c = Some (h', c') \<and> map_ok h' c' [] []"
proof -
  obtain h1 c1 where w: "map_clear h c = Some (h1, c1)" "map_ok h1 c1 [] []"
    using tree_clear_ok[OF c] unfolding map_clear_def by blast
  have "beginp c1 = endItem c1" using tm_ok_facts(3)[OF w(2)] by simp
  then show ?thesis using w by (simp add: map_assign_self_def map_copy_loop.simps)
qed

lemma map_copy_ok:
  assumes d: "map_ok h d ys ws"
  shows "\<exists>h' c' xs'. map_copy h d = Some (h', c') \<and> map_ok h' c' xs' ws \<and> map_ok h' d ys ws \<and> tree_apart c' d"
proof -
  obtain h1 c where i: "map_init h = (h1, c)" by fastforce
  note I = init_tcont_ok[OF i[unfolded map_init_def] tm_ok_facts(9)[OF d]]
  have "map_ok h1 d ys ws" "tree_apart c d" using I(2)[OF d] by simp_all
  from map_copied_ok[OF I(1) this] show ?thesis by (simp add: map_copy_def i)
qed

section \<open>Removing by key\<close>

lemma map_find_ok:
  assumes ok: "map_ok h c xs kvs"
  shows "\<exists>it. map_find h c k = Some it \<and> (if it = endItem c then map_of kvs k = None
           else it \<in> set xs \<and> tkey h it = k \<and> map_of kvs k = Some (tval h it))"
proof -
  have kvs: "kvs = map (\<lambda>x. (tkey h x, tval h x)) xs" and sw: "sorted_wrt (<) (map fst kvs)"
    by (rule tm_ok_facts(12,11)[OF ok])+
  have srt: "sorted (map fst kvs)" and di: "distinct (map fst kvs)"
    using sw by (simp_all add: strict_sorted_iff)
  obtain it where F: "tree_find h c k = Some it" "if it = endItem c then k \<notin> tkey h ` set xs
           else it \<in> set xs \<and> tkey h it = k" using tree_find_ok[OF ok srt] by blast
  have "map_of kvs k = None" if "k \<notin> tkey h ` set xs" using that kvs by (auto simp: map_of_eq_None_iff)
  moreover have "map_of kvs k = Some (tval h it)" if "it \<in> set xs" "tkey h it = k"
    using that kvs di by (auto intro!: map_of_is_SomeI)
  ultimately show ?thesis using F unfolding map_find_def by (intro exI[of _ it]) auto
qed

lemma map_remove_key_ok:
  assumes ok: "map_ok h c xs kvs"
  shows "\<exists>h' c' xs'. map_remove_key h c k = Some (h', c') \<and>
    map_ok h' c' xs' (filter (\<lambda>kv. fst kv \<noteq> k) kvs) \<and> tree_frame h c h' c'"
proof -
  have kvs: "kvs = map (\<lambda>x. (tkey h x, tval h x)) xs" and sw: "sorted_wrt (<) (map fst kvs)"
    by (rule tm_ok_facts(12,11)[OF ok])+
  obtain it where F: "map_find h c k = Some it" "if it = endItem c then map_of kvs k = None
           else it \<in> set xs \<and> tkey h it = k \<and> map_of kvs k = Some (tval h it)" using map_find_ok[OF ok] by blast
  show ?thesis
  proof (cases "it = endItem c")
    case True
    then have "filter (\<lambda>kv. fst kv \<noteq> k) kvs = kvs"
      using F(2) by (force simp: map_of_eq_None_iff filter_id_conv)
    then show ?thesis using ok F(1) True by (auto simp: map_remove_key_def)
  next
    case False
    then obtain us vs where xs: "xs = us @ it # vs" "tkey h it = k" using F(2) by (auto dest: split_list)
    let ?f = "\<lambda>x. (tkey h x, tval h x)"
    have k1: "kvs = map ?f us @ ?f it # map ?f vs" by (simp add: kvs xs)
    obtain h' c' where R: "tree_remove h c it = Some (h', c', hd (vs @ [endItem c]))"
      "map_ok h' c' (us @ vs) (map ?f us @ map ?f vs)" "tree_frame h c h' c'"
      using tree_remove_ok[OF ok[unfolded xs(1) k1]] by auto
    have s: "\<forall>a\<in>set us. tkey h a < k" "\<forall>a\<in>set vs. k < tkey h a"
      using tm_ok_facts(14)[OF ok] xs by (auto simp: sorted_wrt_append)
    have "filter (\<lambda>kv. fst kv \<noteq> k) (map ?f us) = map ?f us" "filter (\<lambda>kv. fst kv \<noteq> k) (map ?f vs) = map ?f vs"
      using s by (auto simp: filter_id_conv)
    then have "filter (\<lambda>kv. fst kv \<noteq> k) kvs = map ?f us @ map ?f vs" using xs(2) by (simp add: k1)
    moreover have "map_remove_key h c k = Some (h', c')"
      using F(1) False R(1) by (simp add: map_remove_key_def map_remove_def)
    ultimately show ?thesis using R(2,3) by auto
  qed
qed

section \<open>Maps as finite maps\<close>

definition mp_rel :: "('k::linorder, 'v) tree_heap \<times> tcont \<Rightarrow> ('k \<Rightarrow> 'v option) \<Rightarrow> bool" where
  "mp_rel s m \<longleftrightarrow> (\<exists>xs kvs. map_ok (fst s) (snd s) xs kvs \<and> m = map_of kvs)"

definition mp_look :: "'k::linorder \<Rightarrow> ('k, 'v) tree_heap \<times> tcont \<Rightarrow> 'v option option" where
  "mp_look k s = map_option (\<lambda>it. if it = endItem (snd s) then None else Some (tval (fst s) it))
     (map_find (fst s) (snd s) k)"

definition mp_ins ::
    "'k::linorder \<Rightarrow> 'v \<Rightarrow> ('k, 'v) tree_heap \<times> tcont \<Rightarrow> (('k, 'v) tree_heap \<times> tcont) option" where
  "mp_ins k v s = map_option (\<lambda>(h, c, _). (h, c)) (map_insert (fst s) (snd s) k v)"

definition mp_del :: "'k::linorder \<Rightarrow> ('k, 'v) tree_heap \<times> tcont \<Rightarrow> (('k, 'v) tree_heap \<times> tcont) option" where
  "mp_del k s = map_remove_key (fst s) (snd s) k"

lemma mp_ins_rel:
  assumes "mp_rel s m"
  shows "\<exists>s'. mp_ins k v s = Some s' \<and> mp_rel s' (m(k \<mapsto> v))"
proof -
  obtain xs kvs where ok: "map_ok (fst s) (snd s) xs kvs" and m: "m = map_of kvs"
    using assms by (auto simp: mp_rel_def)
  obtain h' c' i xs' where I: "map_insert (fst s) (snd s) k v = Some (h', c', i)"
    "map_ok h' c' xs' (ins_sorted k v kvs)"
    using map_insert_top_ok[OF ok, of k v] unfolding inserted_def map_insert_def by blast
  have "m(k \<mapsto> v) = map_of (ins_sorted k v kvs)"
    unfolding m by (rule ins_sorted_map_of[symmetric]) (rule tm_ok_facts(11)[OF ok])
  then show ?thesis using I by (auto simp: mp_ins_def mp_rel_def)
qed

lemma mp_del_rel:
  assumes "mp_rel s m"
  shows "\<exists>s'. mp_del k s = Some s' \<and> mp_rel s' (m(k := None))"
proof -
  obtain xs kvs where ok: "map_ok (fst s) (snd s) xs kvs" and m: "m = map_of kvs"
    using assms by (auto simp: mp_rel_def)
  obtain h' c' xs' where R: "map_remove_key (fst s) (snd s) k = Some (h', c')"
    "map_ok h' c' xs' (filter (\<lambda>kv. fst kv \<noteq> k) kvs)" using map_remove_key_ok[OF ok] by blast
  have "map_of (filter (\<lambda>kv. fst kv \<noteq> k) kvs) = m(k := None)"
    unfolding m by (induction kvs) (auto simp: fun_eq_iff)
  then have "m(k := None) = map_of (filter (\<lambda>kv. fst kv \<noteq> k) kvs)" by simp
  then show ?thesis using R by (auto simp: mp_del_def mp_rel_def)
qed

lemma mp_look_rel: "mp_rel s m \<Longrightarrow> mp_look k s = Some (m k)"
proof -
  assume "mp_rel s m"
  then obtain xs kvs where ok: "map_ok (fst s) (snd s) xs kvs" and m: "m = map_of kvs"
    by (auto simp: mp_rel_def)
  obtain it where F: "map_find (fst s) (snd s) k = Some it"
    "if it = endItem (snd s) then map_of kvs k = None
           else it \<in> set xs \<and> tkey (fst s) it = k \<and> map_of kvs k = Some (tval (fst s) it)"
    using map_find_ok[OF ok] by blast
  show "mp_look k s = Some (m k)"
    using F(2) by (cases "it = endItem (snd s)") (simp_all add: mp_look_def F(1) m)
qed

interpretation tmap: finite_map mp_rel mp_look mp_ins mp_del
  by unfold_locales (fact mp_look_rel mp_ins_rel mp_del_rel)+

section \<open>The height of the tree\<close>

lemma avl_size: "avl t \<Longrightarrow> 2 ^ (ht t div 2) \<le> length (inord t) + 1"
proof (induction t)
  case (Nd l x r)
  let ?n = "ht (Nd l x r)"
  have "ht l \<ge> ?n - 2" "ht r \<ge> ?n - 2" using Nd.prems by auto
  then have "(2::nat) ^ ((?n - 2) div 2) \<le> 2 ^ (ht l div 2)" "(2::nat) ^ ((?n - 2) div 2) \<le> 2 ^ (ht r div 2)"
    by (simp_all add: div_le_mono)
  then have s: "2 ^ ((?n - 2) div 2) \<le> length (inord l) + 1" "2 ^ ((?n - 2) div 2) \<le> length (inord r) + 1"
    using Nd.IH Nd.prems order_trans[of "2 ^ ((?n - 2) div 2)"] unfolding avl.simps by blast+
  show ?case
  proof (cases "?n \<ge> 2")
    case True
    have "m div 2 = Suc ((m - 2) div 2)" if "2 \<le> m" for m :: nat using that by presburger
    from this[OF True] have "?n div 2 = Suc ((?n - 2) div 2)" .
    then have "(2::nat) ^ (?n div 2) = 2 * 2 ^ ((?n - 2) div 2)" by (simp only: power_Suc)
    then show ?thesis using s unfolding inord.simps length_append list.size by linarith
  next
    case False
    then have "?n div 2 = 0" by linarith
    then have "(2::nat) ^ (?n div 2) = 1" by (simp only: power_0)
    then show ?thesis by simp
  qed
qed simp

lemma map_height_ok:
  assumes "map_ok h c xs kvs" "troot c \<noteq> null"
  shows "2 ^ (height h (troot c) div 2) \<le> csize c + 1"
proof -
  obtain fs T where D: "cont_inv h c xs fs" "ptree h null T (troot c)" "avl T" "inord T = xs"
    using assms(1) by (rule tm_okE)
  have "height h (troot c) = ht T" using ptree_height[OF D(2)] assms(2) by simp
  moreover have "csize c = length xs" using D(1) by (simp add: cont_st_def)
  ultimately show ?thesis using avl_size[OF D(3)] D(4) by simp
qed

section \<open>Maps to evaluate on\<close>

definition tree_heap0 :: "'k \<Rightarrow> 'v \<Rightarrow> ('k, 'v) tree_heap" where
  "tree_heap0 k v = \<lparr>brk = 1, prevp = \<lambda>_. null, nextp = \<lambda>_. null, tkey = \<lambda>_. k, tval = \<lambda>_. v,
     parent = \<lambda>_. null, left = \<lambda>_. null, right = \<lambda>_. null, height = \<lambda>_. 0, slope = \<lambda>_. 0\<rparr>"

definition map0 :: "'k::linorder \<Rightarrow> 'v \<Rightarrow> ('k, 'v) tree_heap \<times> tcont" where
  "map0 k v = map_init (tree_heap0 k v)"

lemma map0_ok: "map_ok (fst (map0 k v)) (snd (map0 k v)) [] []"
  using init_tcont_ok(1)[of "tree_heap0 k v" _ _ "(<)"]
  by (cases "map0 k v") (simp add: map0_def map_init_def tree_heap0_def)

lemma mp_history:
  obtains s xs kvs where "foldo (case_map_op mp_ins mp_del) ops (map0 k0 v0) = Some s"
    "map_ok (fst s) (snd s) xs kvs" "map_of kvs = fold apply_op ops Map.empty"
proof -
  have "mp_rel (map0 k0 v0) Map.empty" using map0_ok[of k0 v0] by (auto simp: mp_rel_def)
  from tmap.run_rel[OF this, of ops] show ?thesis using that by (auto simp: mp_rel_def)
qed

lemma map_of_sorted_unique:
  "sorted_wrt (<) (map fst xs) \<Longrightarrow> sorted_wrt (<) (map fst ys) \<Longrightarrow> map_of xs = map_of ys \<Longrightarrow> xs = (ys :: ('k::linorder \<times> 'v) list)"
proof (induction xs arbitrary: ys)
  case Nil
  then show ?case by (cases ys) (auto simp: fun_eq_iff split: if_splits)
next
  case (Cons x xs)
  show ?case
  proof (cases ys)
    case Nil
    then show ?thesis using Cons.prems(3) fun_cong[OF Cons.prems(3), of "fst x"] by (cases x) simp
  next
    case (Cons y ys')
    have a: "\<forall>k\<in>fst ` set xs. fst x < k" "\<forall>k\<in>fst ` set ys'. fst y < k"
      using Cons.prems(1,2) \<open>ys = y # ys'\<close> by auto
    have dx: "fst x \<in> fst ` set ys" using fun_cong[OF Cons.prems(3), of "fst x"]
      by (cases x) (auto simp: rev_image_eqI dest!: sym[of "Some _"] dest: map_of_SomeD)
    have dy: "fst y \<in> fst ` set (x # xs)" using fun_cong[OF Cons.prems(3), of "fst y"] Cons
      by (cases y) (auto simp: rev_image_eqI dest: map_of_SomeD split: if_splits)
    have f: "fst x = fst y" using dx dy a Cons by fastforce
    have "snd x = snd y" using fun_cong[OF Cons.prems(3), of "fst x"] Cons f
      by (cases x; cases y) auto
    then have xy: "x = y" using f by (simp add: prod_eq_iff)
    have "map_of xs k = map_of ys' k" for k
    proof (cases "k = fst x")
      case True
      then have "map_of xs k = None" "map_of ys' k = None" using a f by (auto simp: map_of_eq_None_iff)
      then show ?thesis by simp
    next
      case False
      then show ?thesis using fun_cong[OF Cons.prems(3), of k] Cons xy by (cases x) (auto split: if_splits)
    qed
    then have "xs = ys'" using Cons.IH[of ys'] Cons.prems(1,2) Cons by auto
    then show ?thesis using xy Cons by simp
  qed
qed

lemma map_add_front:
  assumes "k \<notin> fst ` set us"
  shows "m(k \<mapsto> v) ++ map_of us = m ++ map_of ((k, v) # us)"
proof -
  have "k \<notin> dom (map_of us)" using assms by (simp add: dom_map_of_conv_image_fst)
  from map_add_upd_left[OF this] show ?thesis by simp
qed

lemma fold_Put:
  "distinct (map fst us) \<Longrightarrow> fold apply_op (map (\<lambda>(k, v). Put k v) us) m = m ++ map_of us"
proof (induction us arbitrary: m)
  case (Cons u us)
  obtain k v where u: "u = (k, v)" by force
  have "fold apply_op (map (\<lambda>(k, v). Put k v) us) (m(k \<mapsto> v)) = m(k \<mapsto> v) ++ map_of us"
    by (rule Cons.IH) (use Cons.prems in simp)
  also have "\<dots> = m ++ map_of (u # us)" unfolding u by (rule map_add_front) (use Cons.prems u in simp)
  finally show ?case by (simp only: u list.map fold.simps o_apply prod.case apply_op.simps)
qed simp

lemma ins_all_map_of:
  "sorted_wrt (<) (map fst vs) \<Longrightarrow> distinct (map fst us) \<Longrightarrow> map_of (ins_all us vs) = map_of vs ++ map_of us"
proof (induction us arbitrary: vs)
  case (Cons u us)
  obtain k v where u: "u = (k, v)" by force
  have "map_of (ins_all us (ins_sorted k v vs)) = map_of (ins_sorted k v vs) ++ map_of us"
    by (rule Cons.IH) (use Cons.prems ins_sorted_sorted in auto)
  also have "\<dots> = (map_of vs)(k \<mapsto> v) ++ map_of us" unfolding ins_sorted_map_of[OF Cons.prems(1)] ..
  also have "\<dots> = map_of vs ++ map_of (u # us)" unfolding u by (rule map_add_front) (use Cons.prems u in simp)
  finally show ?case by (simp only: u ins_all_def fold.simps o_apply prod.case)
qed (simp add: ins_all_def)

lemma map_build:
  assumes "sorted_wrt (<) (map fst kvs)"
  obtains h c xs where "map_ok h c xs (kvs :: ('k::linorder \<times> 'v) list)"
proof -
  obtain s xs ws where "map_ok (fst s) (snd s) xs (ws :: ('k \<times> 'v) list)"
    "map_of ws = fold apply_op (map (\<lambda>(k, v). Put k v) kvs) Map.empty"
    using mp_history[of "map (\<lambda>(k, v). Put k v) kvs" undefined undefined] by blast
  then have m: "map_ok (fst s) (snd s) xs ws" "map_of ws = fold apply_op (map (\<lambda>(k, v). Put k v) kvs) Map.empty"
    by blast+
  from fold_Put[of kvs Map.empty] have "map_of ws = map_of kvs"
    using m(2) assms by (simp add: strict_sorted_iff)
  then have "ws = kvs" using map_of_sorted_unique tm_ok_facts(11)[OF m(1)] assms by blast
  then show ?thesis using m(1) that by blast
qed

lemma two_maps:
  assumes "sorted_wrt (<) (map fst kvs)" "sorted_wrt (<) (map fst ws)"
  obtains h c d xs ys where "map_ok h c xs (kvs :: ('k::linorder \<times> 'v) list)" "map_ok h d ys ws" "tree_apart c d"
proof -
  obtain h0 d ys where d: "map_ok h0 d ys ws" using map_build[OF assms(2)] by blast
  obtain h1 c1 where i: "map_init h0 = (h1, c1)" by fastforce
  note I = init_tcont_ok[OF i[unfolded map_init_def] tm_ok_facts(9)[OF d]]
  have "\<exists>h' c' xs'. map_ok h' c' xs' (ins_all us vs) \<and> map_ok h' d ys ws \<and> tree_apart c' d"
    if "map_ok h c xs vs" "map_ok h d ys ws" "tree_apart c d" for h c xs us and vs :: "('k \<times> 'v) list"
    using that
  proof (induction us arbitrary: h c xs vs)
    case (Cons u us)
    obtain k v where u: "u = (k, v)" by force
    from map_insert_top_ok[OF Cons.prems(1), of k v]
    obtain h' c' i xs' where "map_ok h' c' xs' (ins_sorted k v vs)" "tree_frame h c h' c'"
      unfolding inserted_def by blast
    then show ?case using Cons.IH[of h' c' xs' "ins_sorted k v vs"] Cons.prems
      unfolding tree_frame_def by (auto simp: u ins_all_def)
  qed (auto simp: ins_all_def)
  from this[OF I(1)[of "(<)"] _ _, of kvs] I(2)[OF d]
  obtain h' c' xs' where "map_ok h' c' xs' (ins_all kvs [])" "map_ok h' d ys ws" "tree_apart c' d" by blast
  moreover have "ins_all kvs [] = kvs" using ins_all_sorted[of "[]" kvs] assms(1) by simp
  ultimately show ?thesis using that by simp
qed

section \<open>Properties\<close>

text \<open>C7. After any history of insertions and removals of keys on a new \<^verbatim>\<open>Map\<close>, every operation
  has returned (the descents, the climbing loops and the rotations all end) and \<^verbatim>\<open>find\<close> answers
  for every key exactly what the same history gives on a mathematical map.\<close>

theorem map_history_correct:
  "Option.bind (foldo (case_map_op mp_ins mp_del) ops (map0 k0 v0)) (mp_look k)
     = Some (fold apply_op ops Map.empty k)"
proof (rule tmap.look_after_run)
  show "mp_rel (map0 k0 v0) Map.empty" using map0_ok[of k0 v0] by (auto simp: mp_rel_def)
qed

text \<open>C8. The tree of a \<^verbatim>\<open>Map\<close> stays balanced: after any history of insertions and removals the
  height that the root item stores is at most twice the binary logarithm of the number of pairs
  plus one, and the items, followed through \<^verbatim>\<open>next\<close>, carry strictly increasing keys.\<close>

theorem map_balanced:
  "\<exists>h c xs kvs. foldo (case_map_op mp_ins mp_del) ops (map0 k0 v0) = Some (h, c) \<and> map_ok h c xs kvs \<and>
     sorted_wrt (<) (map (tkey h) xs) \<and>
     (if troot c = null then csize c = 0 else 2 ^ (height h (troot c) div 2) \<le> csize c + 1)"
proof -
  obtain s xs kvs where H: "foldo (case_map_op mp_ins mp_del) ops (map0 k0 v0) = Some s"
    "map_ok (fst s) (snd s) xs kvs" using mp_history[of ops k0 v0] by blast
  note f = tm_ok_facts(1,2,13,14)[OF H(2)]
  have "2 ^ (height (fst s) (troot (snd s)) div 2) \<le> csize (snd s) + 1" if "troot (snd s) \<noteq> null"
    by (rule map_height_ok[OF H(2) that])
  then show ?thesis using H f
    by (intro exI[of _ "fst s"] exI[of _ "snd s"] exI[of _ xs] exI[of _ kvs]) auto
qed

text \<open>C9. The hint of \<^verbatim>\<open>Map::insert(position, key, value)\<close> only helps: whatever position of the map
  (or its end) is given, the result holds the same pairs as \<^verbatim>\<open>insert(key, value)\<close>, namely the old
  ones in key order with the new value for the key, and the returned iterator is at that pair.\<close>

theorem map_insert_hint_correct:
  assumes "map_ok h c xs kvs" "pos \<in> insert (endItem c) (set xs)"
  shows "\<exists>h1 c1 i1 xs1 h2 c2 i2 xs2.
     map_insert_hint h c pos k v = Some (h1, c1, i1) \<and> map_ok h1 c1 xs1 (ins_sorted k v kvs) \<and>
     i1 \<in> set xs1 \<and> tkey h1 i1 = k \<and> tval h1 i1 = v \<and>
     map_insert h c k v = Some (h2, c2, i2) \<and> map_ok h2 c2 xs2 (ins_sorted k v kvs) \<and>
     i2 \<in> set xs2 \<and> tkey h2 i2 = k \<and> tval h2 i2 = v"
  using map_insert_hint_ok[OF assms, of k v] map_insert_top_ok[OF assms(1), of k v]
  unfolding inserted_def map_insert_def by blast

theorem map_insert_hint_correct_witness:
  "\<exists>h c xs h1 c1 i1 xs1. map_ok h c xs [(1 :: nat, ''a''), (5, ''b'')] \<and>
     map_insert_hint h c (hd xs) 3 ''x'' = Some (h1, c1, i1) \<and>
     map_ok h1 c1 xs1 [(1, ''a''), (3, ''x''), (5, ''b'')]"
proof -
  have "sorted_wrt (<) (map fst [(1 :: nat, ''a''), (5, ''b'')])" by simp
  then obtain h c xs where ok: "map_ok h c xs [(1 :: nat, ''a''), (5, ''b'')]" by (rule map_build)
  have "xs \<noteq> []" using tm_ok_facts(1)[OF ok] by auto
  then have "hd xs \<in> insert (endItem c) (set xs)" by simp
  from map_insert_hint_correct[OF ok this, of 3 "''x''"] ok show ?thesis by simp blast
qed

text \<open>\<^verbatim>\<open>Map::remove\<close> of an iterator takes out exactly that pair, whatever rotations it needs,
  returns the iterator of the next pair, keeps every other item at its address, and the freed
  item is the one that the next insertion reuses.\<close>

theorem map_remove_correct:
  assumes "map_ok h c (us @ x # vs) (ps @ p # qs)" "length us = length ps"
  shows "\<exists>h' c'. map_remove h c x = Some (h', c', hd (vs @ [endItem c])) \<and>
     map_ok h' c' (us @ vs) (ps @ qs) \<and> freeItem c' = x \<and>
     (\<forall>d ys ws. map_ok h d ys ws \<longrightarrow> tree_apart c d \<longrightarrow> map_ok h' d ys ws)"
  using tree_remove_ok[OF assms] unfolding map_remove_def tree_frame_def by blast

theorem map_remove_correct_witness:
  "\<exists>h c x y z h' c'. map_ok h c [x, y, z] [(1 :: nat, ''a''), (5, ''b''), (8, ''c'')] \<and>
     map_remove h c y = Some (h', c', z) \<and> map_ok h' c' [x, z] [(1, ''a''), (8, ''c'')]"
proof -
  have "sorted_wrt (<) (map fst [(1 :: nat, ''a''), (5, ''b''), (8, ''c'')])" by simp
  then obtain h c xs where ok: "map_ok h c xs [(1 :: nat, ''a''), (5, ''b''), (8, ''c'')]" by (rule map_build)
  obtain x y z where "xs = [x] @ y # [z]" using tm_ok_facts(1)[OF ok] by (auto simp: length_Suc_conv)
  with ok have ok': "map_ok h c ([x] @ y # [z]) ([(1, ''a'')] @ (5, ''b'') # [(8 :: nat, ''c'')])" by simp
  have len: "length [x] = length [(1 :: nat, ''a'')]" by simp
  from map_remove_correct[OF ok' len] ok' show ?thesis by simp blast
qed

text \<open>Inserting a whole map, copying and assigning: \<^verbatim>\<open>insert(other)\<close> leaves the pairs of both, with
  the values of \<^verbatim>\<open>other\<close> for common keys; the copy constructor and \<^verbatim>\<open>operator=\<close> give the pairs of the
  other map, which none of them changes; assigning a map to itself empties it.\<close>

theorem map_whole_correct:
  assumes "map_ok h c xs kvs" "map_ok h d ys ws" "tree_apart c d"
  shows "(\<exists>h' c' xs' us. map_insert_map h c d = Some (h', c') \<and> map_ok h' c' xs' us \<and>
            map_of us = map_of kvs ++ map_of ws \<and> map_ok h' d ys ws) \<and>
         (\<exists>h' c' xs'. map_assign h c d = Some (h', c') \<and> map_ok h' c' xs' ws \<and> map_ok h' d ys ws) \<and>
         (\<exists>h' c' xs'. map_copy h d = Some (h', c') \<and> map_ok h' c' xs' ws \<and> map_ok h' d ys ws) \<and>
         (\<exists>h' c'. map_assign_self h c = Some (h', c') \<and> map_ok h' c' [] [])"
proof (intro conjI)
  obtain h' c' xs' where M: "map_insert_map h c d = Some (h', c')" "map_ok h' c' xs' (ins_all ws kvs)" "map_ok h' d ys ws"
    using map_insert_map_ok[OF assms] by blast
  have "map_of (ins_all ws kvs) = map_of kvs ++ map_of ws"
    by (rule ins_all_map_of) (use tm_ok_facts(11)[OF assms(1)] tm_ok_facts(11)[OF assms(2)] in \<open>simp_all add: strict_sorted_iff\<close>)
  then show "\<exists>h' c' xs' us. map_insert_map h c d = Some (h', c') \<and> map_ok h' c' xs' us \<and>
            map_of us = map_of kvs ++ map_of ws \<and> map_ok h' d ys ws" using M by blast
  show "\<exists>h' c' xs'. map_assign h c d = Some (h', c') \<and> map_ok h' c' xs' ws \<and> map_ok h' d ys ws"
    using map_assign_ok[OF assms] by blast
  show "\<exists>h' c' xs'. map_copy h d = Some (h', c') \<and> map_ok h' c' xs' ws \<and> map_ok h' d ys ws"
    using map_copy_ok[OF assms(2)] by blast
  show "\<exists>h' c'. map_assign_self h c = Some (h', c') \<and> map_ok h' c' [] []"
    by (rule map_assign_self_ok[OF assms(1)])
qed

theorem map_whole_correct_witness:
  "\<exists>h c d xs ys h' c' xs' us. map_ok h c xs [(1 :: nat, ''a''), (5, ''b'')] \<and>
     map_ok h d ys [(5, ''x''), (9, ''y'')] \<and> map_insert_map h c d = Some (h', c') \<and> map_ok h' c' xs' us \<and>
     map_of us = map_of [(1, ''a''), (5, ''b'')] ++ map_of [(5, ''x''), (9, ''y'')]"
proof -
  have s: "sorted_wrt (<) (map fst [(1 :: nat, ''a''), (5, ''b'')])"
    "sorted_wrt (<) (map fst [(5 :: nat, ''x''), (9, ''y'')])" by simp_all
  obtain h c d xs ys where ok: "map_ok h c xs [(1 :: nat, ''a''), (5, ''b'')]"
    "map_ok h d ys [(5 :: nat, ''x''), (9, ''y'')]" "tree_apart c d" by (rule two_maps[OF s])
  obtain h' c' xs' us where "map_insert_map h c d = Some (h', c')" "map_ok h' c' xs' us"
     "map_of us = map_of [(1 :: nat, ''a''), (5, ''b'')] ++ map_of [(5, ''x''), (9, ''y'')]"
    using map_whole_correct[OF ok] by blast
  with ok show ?thesis by blast
qed

end
