(* ===== verification/Nstd_MultiMap.thy ===== *)
theory Nstd_MultiMap
  imports Nstd_Map
begin

text \<open>
  \<^verbatim>\<open>MultiMap\<close> (include/nstd/MultiMap.hpp): the tree of Map, which takes equal keys: a new item goes
  behind the items whose keys are not greater.
\<close>

section \<open>Operations\<close>

text \<open>The constructor also default-constructs the key and the value of \<^verbatim>\<open>endItem\<close>.\<close>

definition multimap_init :: "'k::linorder \<Rightarrow> 'v \<Rightarrow> ('k, 'v) tree_heap \<Rightarrow> ('k, 'v) tree_heap \<times> tcont" where
  "multimap_init k0 v0 h =
     (let (h1, c) = init_tcont h
      in (h1\<lparr>tkey := (tkey h1)(endItem c := k0), tval := (tval h1)(endItem c := v0)\<rparr>, c))"

definition multimap_isEmpty :: "('k::linorder, 'v) tree_heap \<Rightarrow> tcont \<Rightarrow> bool" where
  "multimap_isEmpty h c \<longleftrightarrow> \<not> troot c \<noteq> null"

definition multimap_clear :: "('k::linorder, 'v) tree_heap \<Rightarrow> tcont \<Rightarrow> (('k, 'v) tree_heap \<times> tcont) option" where
  "multimap_clear h c = tree_clear h c"

definition multimap_find :: "('k::linorder, 'v) tree_heap \<Rightarrow> tcont \<Rightarrow> 'k \<Rightarrow> addr option" where
  "multimap_find h c key = tree_find h c key"

definition multimap_contains :: "('k::linorder, 'v) tree_heap \<Rightarrow> tcont \<Rightarrow> 'k \<Rightarrow> bool option" where
  "multimap_contains h c key = map_option (\<lambda>it. it \<noteq> endItem c) (multimap_find h c key)"

text \<open>\<^verbatim>\<open>for(Item* item = it.item->next; item && item->key == key; item = item->next) ++count;\<close>\<close>

partial_function (option) count_loop :: "('k::linorder, 'v) tree_heap \<Rightarrow> addr \<Rightarrow> 'k \<Rightarrow> nat \<Rightarrow> nat option" where
  "count_loop h item key n =
     (if item \<noteq> null \<and> tkey h item = key then count_loop h (nextp h item) key (Suc n) else Some n)"

definition multimap_count :: "('k::linorder, 'v) tree_heap \<Rightarrow> tcont \<Rightarrow> 'k \<Rightarrow> nat option" where
  "multimap_count h c key =
     Option.bind (multimap_find h c key) (\<lambda>it.
       if it = endItem c then Some 0 else count_loop h (nextp h it) key 1)"

partial_function (option) multimap_insert_at ::
    "('k::linorder, 'v) tree_heap \<Rightarrow> tcont \<Rightarrow> tcell \<Rightarrow> addr \<Rightarrow> 'k \<Rightarrow> 'v
     \<Rightarrow> (('k, 'v) tree_heap \<times> tcont \<times> addr) option" where
  "multimap_insert_at h c cell par key value =
     (let position = get_cell h c cell in
      if position = null then tree_attach h c cell par key value
      else if key < tkey h position then multimap_insert_at h c (LeftOf position) position key value
      else multimap_insert_at h c (RightOf position) position key value)"

definition multimap_insert ::
    "('k::linorder, 'v) tree_heap \<Rightarrow> tcont \<Rightarrow> 'k \<Rightarrow> 'v \<Rightarrow> (('k, 'v) tree_heap \<times> tcont \<times> addr) option" where
  "multimap_insert h c key value = multimap_insert_at h c RootCell null key value"

definition multimap_insert_hint ::
    "('k::linorder, 'v) tree_heap \<Rightarrow> tcont \<Rightarrow> addr \<Rightarrow> 'k \<Rightarrow> 'v
     \<Rightarrow> (('k, 'v) tree_heap \<times> tcont \<times> addr) option" where
  "multimap_insert_hint h c insertPos key value =
     (if insertPos = endItem c then
        (let prev = prevp h insertPos in
         if prev \<noteq> null \<and> key > tkey h prev then multimap_insert_at h c (RightOf prev) prev key value
         else multimap_insert_at h c RootCell null key value)
      else if key < tkey h insertPos then
        (let prev = prevp h insertPos in
         if prev = null \<or> key \<ge> tkey h prev then multimap_insert_at h c (LeftOf insertPos) insertPos key value
         else multimap_insert_at h c RootCell null key value)
      else
        (let next = nextp h insertPos in
         if next = endItem c \<or> key \<le> tkey h next then multimap_insert_at h c (RightOf insertPos) insertPos key value
         else multimap_insert_at h c RootCell null key value))"

definition multimap_remove ::
    "('k::linorder, 'v) tree_heap \<Rightarrow> tcont \<Rightarrow> addr \<Rightarrow> (('k, 'v) tree_heap \<times> tcont \<times> addr) option" where
  "multimap_remove h c item = tree_remove h c item"

definition multimap_remove_key ::
    "('k::linorder, 'v) tree_heap \<Rightarrow> tcont \<Rightarrow> 'k \<Rightarrow> (('k, 'v) tree_heap \<times> tcont) option" where
  "multimap_remove_key h c key =
     Option.bind (multimap_find h c key) (\<lambda>it.
       if it \<noteq> endItem c then map_option (\<lambda>(h1, c1, _). (h1, c1)) (multimap_remove h c it) else Some (h, c))"

definition multimap_removeFront ::
    "('k::linorder, 'v) tree_heap \<Rightarrow> tcont \<Rightarrow> (('k, 'v) tree_heap \<times> tcont \<times> addr) option" where
  "multimap_removeFront h c = multimap_remove h c (beginp c)"

definition multimap_removeBack ::
    "('k::linorder, 'v) tree_heap \<Rightarrow> tcont \<Rightarrow> (('k, 'v) tree_heap \<times> tcont \<times> addr) option" where
  "multimap_removeBack h c = multimap_remove h c (prevp h (endItem c))"

section \<open>Inserting below a cell\<close>

abbreviation multimap_ok :: "('k::linorder, 'v) tree_heap \<Rightarrow> tcont \<Rightarrow> addr list \<Rightarrow> ('k \<times> 'v) list \<Rightarrow> bool" where
  "multimap_ok \<equiv> tm_ok (\<le>)"

text \<open>
  The new item stands between smaller or equal and greater or equal keys; only items of \<open>B\<close> after it
  may have the same key.
\<close>

definition mins_at ::
    "('k::linorder, 'v) tree_heap \<Rightarrow> tcont \<Rightarrow> addr list \<Rightarrow> addr set \<Rightarrow> 'k \<Rightarrow> 'v
     \<Rightarrow> (('k, 'v) tree_heap \<times> tcont \<times> addr) option \<Rightarrow> bool" where
  "mins_at h c xs B k v res \<longleftrightarrow>
     (\<exists>us vs h' c' i T fs'. (\<forall>a\<in>set us. tkey h a \<le> k) \<and> (\<forall>a\<in>set vs. k < tkey h a \<or> a \<in> B \<and> tkey h a = k) \<and>
       xs = us @ vs \<and> res = Some (h', c', i) \<and>
       cont_inv h' c' (us @ i # vs) fs' \<and> ptree h' null T (troot c') \<and> avl T \<and>
       inord T = us @ i # vs \<and> tkey h' = (tkey h)(i := k) \<and> tval h' = (tval h)(i := v) \<and>
       i \<notin> set xs \<and> endItem c' = endItem c \<and> tree_frame h c h' c')"

lemma multimap_insert_at_ok:
  assumes "zipper h c {} cs (ht t) t" "avl (plug cs t)" "cont_inv h c (ctx_l cs @ inord t @ ctx_r cs) fs"
    and "sorted (map (tkey h) (ctx_l cs @ inord t @ ctx_r cs))"
    and "\<forall>a\<in>set (ctx_l cs). tkey h a \<le> k" "\<forall>a\<in>set (ctx_r cs). k < tkey h a \<or> a \<in> B \<and> tkey h a = k"
  shows "mins_at h c (ctx_l cs @ inord t @ ctx_r cs) B k v (multimap_insert_at h c (cell_of cs) (owner cs) k v)"
  using assms
proof (induction t arbitrary: cs)
  case Lf
  have z: "zipper h c {} cs 0 Lf" using Lf.prems(1) by simp
  then have "get_cell h c (cell_of cs) = null" by (simp add: zipper_def)
  then have e: "multimap_insert_at h c (cell_of cs) (owner cs) k v = tree_attach h c (cell_of cs) (owner cs) k v"
    by (subst multimap_insert_at.simps) simp
  have inv: "cont_inv h c (ctx_l cs @ ctx_r cs) fs" using Lf.prems(3) by simp
  show ?case unfolding e mins_at_def
    using tree_attach_ok[OF inv z Lf.prems(2), of k v] Lf.prems(5,6)
    by (intro exI[of _ "ctx_l cs"] exI[of _ "ctx_r cs"]) (simp only: inord.simps append_Nil, blast)
next
  case (Nd l x r)
  have g: "get_cell h c (cell_of cs) = x" "x \<noteq> null" using Nd.prems(1) by (auto simp: zipper_def)
  have s: "\<forall>a\<in>set (inord l). tkey h a \<le> tkey h x" "\<forall>a\<in>set (inord r). tkey h x \<le> tkey h a"
    using Nd.prems(4) by (auto simp: sorted_append)
  show ?case
  proof (cases "k < tkey h x")
    case False
    have z: "zipper h c {} (CR l x # cs) (ht r) r" using Nd.prems(1) zipper_Cons[of h c "CR l x" cs r] by simp
    have e: "multimap_insert_at h c (cell_of cs) (owner cs) k v
        = multimap_insert_at h c (cell_of (CR l x # cs)) (owner (CR l x # cs)) k v"
      by (subst multimap_insert_at.simps) (use g False in \<open>simp add: Let_def\<close>)
    have b: "\<forall>a\<in>set (ctx_l (CR l x # cs)). tkey h a \<le> k"
      using Nd.prems(5) False s(1) by (auto intro: order_trans)
    have b2: "\<forall>a\<in>set (ctx_r (CR l x # cs)). k < tkey h a \<or> a \<in> B \<and> tkey h a = k"
      using Nd.prems(6) by simp
    show ?thesis unfolding e using Nd.IH(2)[OF z _ _ _ b b2] Nd.prems(2,3,4) by simp
  next
    case True
    have z: "zipper h c {} (CL x r # cs) (ht l) l" using Nd.prems(1) zipper_Cons[of h c "CL x r" cs l] by simp
    have e: "multimap_insert_at h c (cell_of cs) (owner cs) k v
        = multimap_insert_at h c (cell_of (CL x r # cs)) (owner (CL x r # cs)) k v"
      by (subst multimap_insert_at.simps) (use g True in \<open>simp add: Let_def\<close>)
    have b: "\<forall>a\<in>set (ctx_l (CL x r # cs)). tkey h a \<le> k" using Nd.prems(5) by simp
    have b2: "\<forall>a\<in>set (ctx_r (CL x r # cs)). k < tkey h a \<or> a \<in> B \<and> tkey h a = k"
      using Nd.prems(6) True s(2) by (auto dest: less_le_trans)
    show ?thesis unfolding e using Nd.IH(1)[OF z _ _ _ b b2] Nd.prems(2,3,4) by simp
  qed
qed

definition minserted ::
    "('k::linorder, 'v) tree_heap \<Rightarrow> tcont \<Rightarrow> addr list \<Rightarrow> ('k \<times> 'v) list \<Rightarrow> addr set \<Rightarrow> 'k \<Rightarrow> 'v
     \<Rightarrow> (('k, 'v) tree_heap \<times> tcont \<times> addr) option \<Rightarrow> bool" where
  "minserted h c xs kvs B k v res \<longleftrightarrow> (\<exists>h' c' us vs i ps qs. res = Some (h', c', i) \<and>
     xs = us @ vs \<and> kvs = ps @ qs \<and> length us = length ps \<and> i \<notin> set xs \<and>
     multimap_ok h' c' (us @ i # vs) (ps @ (k, v) # qs) \<and> (\<forall>j\<in>fst ` set ps. j \<le> k) \<and>
     (\<forall>j\<in>fst ` set qs. k \<le> j) \<and> (B = {} \<longrightarrow> (\<forall>j\<in>fst ` set qs. k < j)) \<and> tree_frame h c h' c' \<and>
     tkey h' (endItem c') = tkey h (endItem c))"

lemma minsertedI:
  assumes "res = Some (h', c', i)" "xs = us @ vs" "kvs = ps @ qs" "length us = length ps" "i \<notin> set xs"
    "multimap_ok h' c' (us @ i # vs) (ps @ (k, v) # qs)" "\<forall>j\<in>fst ` set ps. j \<le> k"
    "\<forall>j\<in>fst ` set qs. k \<le> j" "B = {} \<longrightarrow> (\<forall>j\<in>fst ` set qs. k < j)" "tree_frame h c h' c'"
    "tkey h' (endItem c') = tkey h (endItem c)"
  shows "minserted h c xs kvs B k v res"
  unfolding minserted_def
  by (rule exI[of _ h'], rule exI[of _ c'], rule exI[of _ us], rule exI[of _ vs], rule exI[of _ i],
      rule exI[of _ ps], rule exI[of _ qs]) (intro conjI assms)

lemma minserted_topE:
  assumes "minserted h c xs kvs {} k v res"
  obtains h' c' us vs i ps qs where "res = Some (h', c', i)" "xs = us @ vs" "kvs = ps @ qs"
    "length us = length ps" "i \<notin> set xs" "multimap_ok h' c' (us @ i # vs) (ps @ (k, v) # qs)"
    "\<forall>j\<in>fst ` set ps. j \<le> k" "\<forall>j\<in>fst ` set qs. k < j" "tree_frame h c h' c'"
    "tkey h' (endItem c') = tkey h (endItem c)"
proof -
  from assms show ?thesis
    unfolding minserted_def simp_thms
    by (elim exE conjE) (rule that, assumption+)
qed

lemma mins_at_pairs:
  assumes ok: "multimap_ok h c xs kvs" and ins: "mins_at h c xs B k v res"
  shows "minserted h c xs kvs B k v res"
proof -
  let ?f = "\<lambda>x. (tkey h x, tval h x)"
  have kvs: "kvs = map ?f xs" by (rule tm_ok_facts(12)[OF ok])
  have srt: "sorted (map (tkey h) xs)" by (rule tm_ok_facts(14)[OF ok])
  from ins obtain us vs h' c' i T fs' where A: "\<forall>a\<in>set us. tkey h a \<le> k"
    "\<forall>a\<in>set vs. k < tkey h a \<or> a \<in> B \<and> tkey h a = k" "xs = us @ vs" "res = Some (h', c', i)"
    "cont_inv h' c' (us @ i # vs) fs'" "ptree h' null T (troot c')" "avl T" "inord T = us @ i # vs"
    "tkey h' = (tkey h)(i := k)" "tval h' = (tval h)(i := v)" "i \<notin> set xs" "tree_frame h c h' c'"
    "endItem c' = endItem c"
    unfolding mins_at_def by blast
  have vs: "\<forall>a\<in>set vs. k \<le> tkey h a" and vs': "B = {} \<longrightarrow> (\<forall>a\<in>set vs. k < tkey h a)"
    using A(2) by (metis order.order_iff_strict) (use A(2) in blast)
  have ok': "multimap_ok h' c' (us @ i # vs) (map ?f us @ (k, v) # map ?f vs)"
  proof (rule tm_okI[OF A(5-8)])
    show "map ?f us @ (k, v) # map ?f vs = map (\<lambda>x. (tkey h' x, tval h' x)) (us @ i # vs)"
      unfolding A(9,10) using A(3,11) by auto
    have "sorted (map (tkey h) us)" "sorted (map (tkey h) vs)" "\<forall>a\<in>set us. \<forall>b\<in>set vs. tkey h a \<le> tkey h b"
      using srt by (auto simp: A(3) sorted_append)
    then show "sorted (map fst (map ?f us @ (k, v) # map ?f vs))"
      using A(1) vs by (simp add: sorted_append o_def)
  qed
  have q: "\<forall>j\<in>fst ` set (map ?f vs). k \<le> j" "B = {} \<longrightarrow> (\<forall>j\<in>fst ` set (map ?f vs). k < j)"
    using vs vs' by simp_all
  have p: "\<forall>j\<in>fst ` set (map ?f us). j \<le> k" using A(1) by simp
  have "kvs = map ?f us @ map ?f vs" "length us = length (map ?f us)" using kvs A(3) by simp_all
  moreover have "i \<noteq> endItem c'" using A(5) by (auto simp: cont_st_def)
  then have "tkey h' (endItem c') = tkey h (endItem c)" by (simp add: A(9,13))
  ultimately show ?thesis using minsertedI[OF A(4,3) _ _ A(11) ok' p q A(12)] by metis
qed

lemma multimap_insert_top_ok:
  assumes ok: "multimap_ok h c xs kvs"
  shows "minserted h c xs kvs {} k v (multimap_insert_at h c RootCell null k v)"
proof -
  obtain fs T where D: "cont_inv h c xs fs" "ptree h null T (troot c)" "avl T" "inord T = xs"
    "sorted (map (tkey h) xs)" using ok by (rule tm_okE)
  have "distinct (inord T)" using D(4) cont_st_distinct[OF D(1)] by simp
  then have z: "zipper h c {} [] (ht T) T" using zipper_plug[of h c "[]" T] D(2) by simp
  have "mins_at h c xs {} k v (multimap_insert_at h c RootCell null k v)"
    using multimap_insert_at_ok[OF z, of fs k "{}" v] D by simp
  from mins_at_pairs[OF ok this] show ?thesis .
qed

lemma multimap_insert_beside_ok:
  assumes ok: "multimap_ok h c (us @ x # vs) kvs"
  shows "tkey h x \<le> k \<Longrightarrow> \<forall>a\<in>set vs. k \<le> tkey h a \<Longrightarrow>
           minserted h c (us @ x # vs) kvs (set vs) k v (multimap_insert_at h c (RightOf x) x k v)"
    and "k < tkey h x \<Longrightarrow> \<forall>a\<in>set us. tkey h a \<le> k \<Longrightarrow>
           minserted h c (us @ x # vs) kvs {} k v (multimap_insert_at h c (LeftOf x) x k v)"
proof -
  let ?xs = "us @ x # vs"
  obtain fs T where D: "cont_inv h c ?xs fs" "ptree h null T (troot c)" "avl T" "inord T = ?xs"
    "sorted (map (tkey h) ?xs)" using ok by (rule tm_okE)
  have di: "distinct ?xs" using cont_st_distinct[OF D(1)] by auto
  obtain cs l r where T: "T = plug cs (Nd l x r)" using tree_split[of x T] D(4) by auto
  have "?xs = (ctx_l cs @ inord l) @ x # (inord r @ ctx_r cs)" using D(4) by (simp add: T inord_plug)
  note uv = split_at[OF this di]
  have z: "zipper h c {} cs (ht (Nd l x r)) (Nd l x r)" using zipper_plug[of h c cs "Nd l x r"] D(2,4) di T by simp
  have zr: "zipper h c {} (CR l x # cs) (ht r) r" and zl: "zipper h c {} (CL x r # cs) (ht l) l"
    using z by (simp_all add: zipper_Cons)
  have srt: "\<forall>a\<in>set us. tkey h a \<le> tkey h x" "\<forall>a\<in>set vs. tkey h x \<le> tkey h a"
    using D(5) by (auto simp: sorted_append)
  have xr: "ctx_l (CR l x # cs) @ inord r @ ctx_r (CR l x # cs) = ?xs"
    and xl: "ctx_l (CL x r # cs) @ inord l @ ctx_r (CL x r # cs) = ?xs" using uv by simp_all
  show "minserted h c ?xs kvs (set vs) k v (multimap_insert_at h c (RightOf x) x k v)"
    if k: "tkey h x \<le> k" "\<forall>a\<in>set vs. k \<le> tkey h a"
  proof -
    have b: "\<forall>a\<in>set (ctx_l (CR l x # cs)). tkey h a \<le> k"
      using k srt uv by (auto intro: order_trans)
    have "\<forall>a\<in>set (ctx_r (CR l x # cs)). k < tkey h a \<or> a \<in> set vs \<and> tkey h a = k"
      using k uv by (auto simp: le_less)
    from multimap_insert_at_ok[OF zr _ D(1)[folded xr] D(5)[folded xr] b this, of v]
    have "mins_at h c ?xs (set vs) k v (multimap_insert_at h c (RightOf x) x k v)" using D(3) T xr by simp
    from mins_at_pairs[OF ok this] show ?thesis .
  qed
  show "minserted h c ?xs kvs {} k v (multimap_insert_at h c (LeftOf x) x k v)"
    if k: "k < tkey h x" "\<forall>a\<in>set us. tkey h a \<le> k"
  proof -
    have b: "\<forall>a\<in>set (ctx_l (CL x r # cs)). tkey h a \<le> k" using k uv by auto
    have "\<forall>a\<in>set (ctx_r (CL x r # cs)). k < tkey h a \<or> a \<in> {} \<and> tkey h a = k"
      using k srt uv by (auto intro: less_le_trans)
    from multimap_insert_at_ok[OF zl _ D(1)[folded xl] D(5)[folded xl] b this, of v]
    have "mins_at h c ?xs {} k v (multimap_insert_at h c (LeftOf x) x k v)" using D(3) T xl by simp
    from mins_at_pairs[OF ok this] show ?thesis .
  qed
qed

lemma multimap_insert_hint_ok:
  assumes ok: "multimap_ok h c xs kvs" and pos: "pos \<in> insert (endItem c) (set xs)"
  shows "\<exists>B. minserted h c xs kvs B k v (multimap_insert_hint h c pos k v)"
proof (cases "pos = endItem c")
  case True
  have p: "prevp h (endItem c) = last (null # xs)" by (rule tm_ok_facts(10)[OF ok])
  show ?thesis
  proof (cases "prevp h (endItem c) \<noteq> null \<and> k > tkey h (prevp h (endItem c))")
    case pr: True
    then obtain us x where xs: "xs = us @ x # []" using p by (cases xs rule: rev_cases) auto
    have px: "prevp h (endItem c) = x" using p xs by simp
    have "tkey h x \<le> k" using pr px by auto
    from multimap_insert_beside_ok(1)[OF ok[unfolded xs] this, of v]
    have "minserted h c xs kvs (set []) k v (multimap_insert_at h c (RightOf x) x k v)" by (simp add: xs)
    moreover have "multimap_insert_hint h c pos k v = multimap_insert_at h c (RightOf x) x k v"
      using True pr px by (simp add: multimap_insert_hint_def Let_def)
    ultimately show ?thesis by metis
  next
    case False
    then have "multimap_insert_hint h c pos k v = multimap_insert_at h c RootCell null k v"
      using True by (auto simp: multimap_insert_hint_def Let_def)
    then show ?thesis using multimap_insert_top_ok[OF ok, of k v] by metis
  qed
next
  case False
  then obtain us vs where xs: "xs = us @ pos # vs" using pos by (auto dest: split_list)
  have ok': "multimap_ok h c (us @ pos # vs) kvs" using ok xs by simp
  have P: "prevp h pos = last (null # us)" and N: "nextp h pos = hd (vs @ [endItem c])"
    using tm_ok_links[OF ok'] by simp_all
  have nn: "null \<notin> set us" and en: "endItem c \<notin> set vs" using tm_ok_facts(4,7)[OF ok'] by auto
  have srt: "sorted (map (tkey h) us)" "sorted (map (tkey h) vs)"
    using tm_ok_facts(14)[OF ok'] by (auto simp: sorted_append)
  consider (L) "k < tkey h pos" "prevp h pos = null \<or> k \<ge> tkey h (prevp h pos)"
    | (R) "\<not> k < tkey h pos" "nextp h pos = endItem c \<or> k \<le> tkey h (nextp h pos)"
    | (T) "k < tkey h pos \<longrightarrow> \<not> (prevp h pos = null \<or> k \<ge> tkey h (prevp h pos))"
      "\<not> k < tkey h pos \<longrightarrow> \<not> (nextp h pos = endItem c \<or> k \<le> tkey h (nextp h pos))" by blast
  then show ?thesis
  proof cases
    case L
    have "\<forall>a\<in>set us. tkey h a \<le> k"
    proof (cases us rule: rev_cases)
      case (snoc us' y)
      then have "prevp h pos = y" "y \<noteq> null" using P nn by auto
      then have "tkey h y \<le> k" using L(2) by auto
      then show ?thesis using srt(1) snoc by (auto simp: sorted_append intro: order_trans)
    qed simp
    from multimap_insert_beside_ok(2)[OF ok' L(1) this, of v]
    have "minserted h c xs kvs {} k v (multimap_insert_at h c (LeftOf pos) pos k v)" by (simp only: xs)
    moreover have "multimap_insert_hint h c pos k v = multimap_insert_at h c (LeftOf pos) pos k v"
      using False L by (simp add: multimap_insert_hint_def Let_def)
    ultimately show ?thesis by metis
  next
    case R
    have "\<forall>a\<in>set vs. k \<le> tkey h a"
    proof (cases vs)
      case (Cons y vs')
      then have "nextp h pos = y" "y \<noteq> endItem c" using N en by auto
      then have "k \<le> tkey h y" using R(2) by auto
      then show ?thesis using srt(2) Cons by (auto intro: order_trans)
    qed simp
    moreover have "tkey h pos \<le> k" using R(1) by simp
    ultimately have "minserted h c xs kvs (set vs) k v (multimap_insert_at h c (RightOf pos) pos k v)"
      using multimap_insert_beside_ok(1)[OF ok', of k v] by (simp only: xs)
    moreover have "multimap_insert_hint h c pos k v = multimap_insert_at h c (RightOf pos) pos k v"
      using False R by (simp add: multimap_insert_hint_def Let_def)
    ultimately show ?thesis by metis
  next
    case T
    have "multimap_insert_hint h c pos k v = multimap_insert_at h c RootCell null k v"
      by (cases "k < tkey h pos") (use False T in \<open>simp_all add: multimap_insert_hint_def Let_def\<close>)
    then show ?thesis using multimap_insert_top_ok[OF ok, of k v] by metis
  qed
qed

section \<open>Counting\<close>

lemma count_loop_ok:
  assumes "multimap_ok h c (us @ xs) kvs"
  shows "count_loop h (hd (xs @ [endItem c])) k n =
    Some (n + length (takeWhile (\<lambda>x. tkey h x = k) xs) +
      (if (\<forall>x\<in>set xs. tkey h x = k) \<and> tkey h (endItem c) = k then 1 else 0))"
  using assms
proof (induction xs arbitrary: us n)
  case Nil
  obtain fs where "cont_inv h c (us @ []) fs" using Nil by (rule tm_okE)
  then have e: "nextp h (endItem c) = null" "endItem c \<noteq> null" by (auto simp: cont_st_def)
  have "count_loop h null k m = Some m" for m by (subst count_loop.simps) simp
  then show ?case using e by (subst count_loop.simps) simp
next
  case (Cons x xs)
  have x: "x \<noteq> null" "nextp h x = hd (xs @ [endItem c])"
    using tm_ok_facts(7)[OF Cons.prems] tm_ok_links(1)[OF Cons.prems] by auto
  show ?case
  proof (cases "tkey h x = k")
    case True
    have "count_loop h x k n = count_loop h (hd (xs @ [endItem c])) k (Suc n)"
      by (subst count_loop.simps) (use x True in simp)
    then show ?thesis using Cons.IH[of "us @ [x]" "Suc n"] Cons.prems True by simp
  next
    case False
    have "count_loop h x k n = Some n" by (subst count_loop.simps) (use False in simp)
    then show ?thesis using False by simp
  qed
qed

lemma multimap_count_ok:
  assumes ok: "multimap_ok h c xs kvs"
  shows "\<exists>it. multimap_find h c k = Some it \<and>
    (if it = endItem c then k \<notin> tkey h ` set xs \<and> multimap_count h c k = Some 0
     else \<exists>us vs. xs = us @ it # vs \<and> tkey h it = k \<and>
       multimap_count h c k = Some (1 + length (takeWhile (\<lambda>x. tkey h x = k) vs) +
         (if (\<forall>x\<in>set vs. tkey h x = k) \<and> tkey h (endItem c) = k then 1 else 0)))"
proof -
  obtain it where F: "tree_find h c k = Some it" "if it = endItem c then k \<notin> tkey h ` set xs
           else it \<in> set xs \<and> tkey h it = k"
    using tree_find_ok[OF ok tm_ok_facts(11)[OF ok]] by blast
  show ?thesis
  proof (cases "it = endItem c")
    case True
    then show ?thesis using F by (simp add: multimap_count_def multimap_find_def)
  next
    case False
    then obtain us vs where xs: "xs = us @ it # vs" "tkey h it = k" using F(2) by (auto dest: split_list)
    have ok': "multimap_ok h c ((us @ [it]) @ vs) kvs" using ok xs by simp
    have "nextp h it = hd (vs @ [endItem c])" using tm_ok_links(1)[of "(\<le>)" h c us it vs] ok xs by simp
    then have "multimap_count h c k = Some (1 + length (takeWhile (\<lambda>x. tkey h x = k) vs) +
         (if (\<forall>x\<in>set vs. tkey h x = k) \<and> tkey h (endItem c) = k then 1 else 0))"
      using F(1) False count_loop_ok[OF ok', of k 1] by (simp add: multimap_count_def multimap_find_def)
    then show ?thesis using F(1) False xs by (auto simp: multimap_find_def)
  qed
qed

section \<open>Removing by key\<close>

lemma multimap_remove_key_ok:
  assumes ok: "multimap_ok h c xs kvs"
  shows "if k \<in> fst ` set kvs
    then \<exists>h' c' xs' ps v qs. multimap_remove_key h c k = Some (h', c') \<and> kvs = ps @ (k, v) # qs \<and>
           multimap_ok h' c' xs' (ps @ qs) \<and> tree_frame h c h' c'
    else multimap_remove_key h c k = Some (h, c)"
proof -
  have kvs: "kvs = map (\<lambda>x. (tkey h x, tval h x)) xs" by (rule tm_ok_facts(12)[OF ok])
  have keys: "fst ` set kvs = tkey h ` set xs" by (auto simp: kvs image_iff)
  obtain it where F: "tree_find h c k = Some it" "if it = endItem c then k \<notin> tkey h ` set xs
           else it \<in> set xs \<and> tkey h it = k"
    using tree_find_ok[OF ok tm_ok_facts(11)[OF ok]] by blast
  show ?thesis
  proof (cases "it = endItem c")
    case True
    then show ?thesis using F keys by (simp add: multimap_remove_key_def multimap_find_def)
  next
    case False
    then obtain us vs where xs: "xs = us @ it # vs" "tkey h it = k" using F(2) by (auto dest: split_list)
    let ?f = "\<lambda>x. (tkey h x, tval h x)"
    have k1: "kvs = map ?f us @ (k, tval h it) # map ?f vs" by (simp add: kvs xs)
    obtain h' c' where R: "tree_remove h c it = Some (h', c', hd (vs @ [endItem c]))"
      "multimap_ok h' c' (us @ vs) (map ?f us @ map ?f vs)" "tree_frame h c h' c'"
      using tree_remove_ok[OF ok[unfolded xs(1) k1]] by auto
    have "multimap_remove_key h c k = Some (h', c')"
      using F(1) False R(1) by (simp add: multimap_remove_key_def multimap_find_def multimap_remove_def)
    moreover have "k \<in> fst ` set kvs" unfolding k1 by simp
    ultimately show ?thesis using R(2,3) k1 by auto
  qed
qed

section \<open>Multimaps to evaluate on\<close>

definition multimap0 :: "'k::linorder \<Rightarrow> 'v \<Rightarrow> ('k, 'v) tree_heap \<times> tcont" where
  "multimap0 k v = multimap_init k v (tree_heap0 k v)"

definition mm_ins ::
    "'k::linorder \<times> 'v \<Rightarrow> ('k, 'v) tree_heap \<times> tcont \<Rightarrow> (('k, 'v) tree_heap \<times> tcont) option" where
  "mm_ins kv s = map_option (\<lambda>(h, c, _). (h, c)) (multimap_insert (fst s) (snd s) (fst kv) (snd kv))"

lemma multimap0_ok:
  "multimap_ok (fst (multimap0 k v)) (snd (multimap0 k v)) [] []"
  "tkey (fst (multimap0 k v)) (endItem (snd (multimap0 k v))) = k"
proof -
  obtain h c where i: "init_tcont (tree_heap0 k v) = (h, c)" by fastforce
  have e: "multimap0 k v = (h\<lparr>tkey := (tkey h)(endItem c := k), tval := (tval h)(endItem c := v)\<rparr>, c)"
    by (simp add: multimap0_def multimap_init_def i)
  have ok: "multimap_ok h c [] []" by (rule init_tcont_ok(1)[OF i]) (simp add: tree_heap0_def)
  then obtain fs T where D: "cont_inv h c [] fs" "ptree h null T (troot c)" "avl T" "inord T = []" by (rule tm_okE)
  let ?h = "h\<lparr>tkey := (tkey h)(endItem c := k), tval := (tval h)(endItem c := v)\<rparr>"
  have "cont_inv ?h c [] fs" by (subst cont_st_same_links[of h]) (simp_all add: same_links_def D(1))
  moreover have "ptree ?h null T (troot c)" by (rule ptree_frame[OF D(2)]) (simp add: tfields_def)
  ultimately show "multimap_ok (fst (multimap0 k v)) (snd (multimap0 k v)) [] []"
    unfolding e using tm_okI[of ?h c "[]" fs T "[]" "(\<le>)"] D(3,4) by simp
  show "tkey (fst (multimap0 k v)) (endItem (snd (multimap0 k v))) = k" by (simp add: e)
qed

lemma mm_ins_sorted:
  assumes "multimap_ok h c xs kvs" "sorted (map fst (kvs @ ws))"
  shows "\<exists>h' c' xs'. foldo mm_ins ws (h, c) = Some (h', c') \<and> multimap_ok h' c' xs' (kvs @ ws) \<and>
    tkey h' (endItem c') = tkey h (endItem c) \<and> tree_frame h c h' c'"
  using assms
proof (induction ws arbitrary: h c xs kvs)
  case Nil
  then show ?case by auto
next
  case (Cons w ws)
  obtain k v where w: "w = (k, v)" by force
  obtain h1 c1 us vs i ps qs where I: "multimap_insert h c k v = Some (h1, c1, i)" "kvs = ps @ qs"
    "multimap_ok h1 c1 (us @ i # vs) (ps @ (k, v) # qs)" "\<forall>j\<in>fst ` set qs. k < j"
    "tkey h1 (endItem c1) = tkey h (endItem c)" "tree_frame h c h1 c1"
    by (rule minserted_topE[OF multimap_insert_top_ok[OF Cons.prems(1), of k v, folded multimap_insert_def]])
       (rule that, assumption+)
  have "qs = []" using I(2,4) Cons.prems(2) w by (cases qs) (auto simp: sorted_append)
  then have "multimap_ok h1 c1 (us @ i # vs) (kvs @ [w])" using I(2,3) w by simp
  from Cons.IH[OF this] obtain h' c' xs' where "foldo mm_ins ws (h1, c1) = Some (h', c')"
    "multimap_ok h' c' xs' (kvs @ w # ws)" "tkey h' (endItem c') = tkey h1 (endItem c1)" "tree_frame h1 c1 h' c'"
    using Cons.prems(2) by auto
  moreover have "foldo mm_ins (w # ws) (h, c) = foldo mm_ins ws (h1, c1)" using I(1) by (simp add: mm_ins_def w)
  ultimately show ?case using I(5) tree_frame_trans[OF I(6)] by auto
qed

lemma multimap_build:
  assumes "sorted (map fst ws)"
  obtains h c xs where "multimap_ok h c xs (ws :: ('k::linorder \<times> 'v) list)" "tkey h (endItem c) = k0"
    "foldo mm_ins ws (multimap0 k0 v0) = Some (h, c)"
proof -
  have "sorted (map fst ([] @ ws))" using assms by simp
  from mm_ins_sorted[OF multimap0_ok(1)[of k0 v0] this]
  show ?thesis using that multimap0_ok(2)[of k0 v0] by auto
qed

lemma tree_sizes:
  "ht t = 0 \<longleftrightarrow> t = Lf" "inord t = [] \<longleftrightarrow> t = Lf" "inord t = [a] \<longleftrightarrow> t = Nd Lf a Lf"
proof -
  show "ht t = 0 \<longleftrightarrow> t = Lf" by (cases t) simp_all
  have e: "inord s = [] \<longleftrightarrow> s = Lf" for s by (cases s) simp_all
  then show "inord t = [] \<longleftrightarrow> t = Lf" .
  show "inord t = [a] \<longleftrightarrow> t = Nd Lf a Lf" by (cases t) (auto simp: append_eq_Cons_conv e)
qed

lemma avl_three:
  assumes "avl t" "inord t = [a, b, c]"
  shows "t = Nd (Nd Lf a Lf) b (Nd Lf c Lf)"
proof -
  obtain l x r where t: "t = Nd l x r" using assms(2) by (cases t) auto
  have low: "length (inord s) \<le> 1" if "ht s \<le> 1" for s
    using that by (cases s) (auto simp: tree_sizes(1))
  have sum: "length (inord l) + length (inord r) = 2" using arg_cong[OF assms(2), of length] by (simp add: t)
  have bal: "ht l \<le> ht r + 1" "ht r \<le> ht l + 1" using assms(1) by (simp_all add: t)
  have "l \<noteq> Lf"
  proof
    assume "l = Lf"
    then have "length (inord r) \<le> 1" using bal(2) low[of r] by simp
    then show False using sum \<open>l = Lf\<close> by simp
  qed
  moreover have "r \<noteq> Lf"
  proof
    assume "r = Lf"
    then have "length (inord l) \<le> 1" using bal(1) low[of l] by simp
    then show False using sum \<open>r = Lf\<close> by simp
  qed
  ultimately have "inord l \<noteq> []" "inord r \<noteq> []" using tree_sizes(2) by simp_all
  then have "length (inord l) = 1" "length (inord r) = 1" using sum by (cases "inord l"; cases "inord r"; simp)+
  then obtain y z where "inord l = [y]" "inord r = [z]" by (auto simp: length_Suc_conv)
  then show ?thesis using assms(2) tree_sizes(3) by (auto simp: t)
qed

section \<open>Properties\<close>

text \<open>C10. \<^verbatim>\<open>MultiMap::insert\<close> keeps the pairs sorted by key and puts the new pair behind all pairs
  with the same key, so that equal keys stay in the order of their insertion; with a position as a
  hint, whatever it is, the new pair stands somewhere among the pairs with its key.\<close>

theorem multimap_insert_correct:
  assumes "multimap_ok h c xs kvs" "pos \<in> insert (endItem c) (set xs)"
  shows "(\<exists>h' c' i xs' ps qs. multimap_insert h c k v = Some (h', c', i) \<and> kvs = ps @ qs \<and>
            multimap_ok h' c' xs' (ps @ (k, v) # qs) \<and> (\<forall>j\<in>fst ` set ps. j \<le> k) \<and> (\<forall>j\<in>fst ` set qs. k < j)) \<and>
         (\<exists>h' c' i xs' ps qs. multimap_insert_hint h c pos k v = Some (h', c', i) \<and> kvs = ps @ qs \<and>
            multimap_ok h' c' xs' (ps @ (k, v) # qs) \<and> (\<forall>j\<in>fst ` set ps. j \<le> k) \<and> (\<forall>j\<in>fst ` set qs. k \<le> j))"
proof
  show "\<exists>h' c' i xs' ps qs. multimap_insert h c k v = Some (h', c', i) \<and> kvs = ps @ qs \<and>
      multimap_ok h' c' xs' (ps @ (k, v) # qs) \<and> (\<forall>j\<in>fst ` set ps. j \<le> k) \<and> (\<forall>j\<in>fst ` set qs. k < j)"
    by (rule minserted_topE[OF multimap_insert_top_ok[OF assms(1), of k v, folded multimap_insert_def]])
       (intro exI conjI, assumption+)
  obtain B where "minserted h c xs kvs B k v (multimap_insert_hint h c pos k v)"
    using multimap_insert_hint_ok[OF assms, of k v] by blast
  then show "\<exists>h' c' i xs' ps qs. multimap_insert_hint h c pos k v = Some (h', c', i) \<and> kvs = ps @ qs \<and>
      multimap_ok h' c' xs' (ps @ (k, v) # qs) \<and> (\<forall>j\<in>fst ` set ps. j \<le> k) \<and> (\<forall>j\<in>fst ` set qs. k \<le> j)"
    unfolding minserted_def by (elim exE conjE) (intro exI conjI, assumption+)
qed

theorem multimap_insert_correct_witness:
  "\<exists>h c xs h' c' i xs'. multimap_ok h c xs [(1 :: nat, ''a''), (1, ''b'')] \<and>
     multimap_insert h c 1 ''x'' = Some (h', c', i) \<and>
     multimap_ok h' c' xs' [(1, ''a''), (1, ''b''), (1, ''x'')]"
proof -
  have s: "sorted (map fst [(1 :: nat, ''a''), (1, ''b'')])" by simp
  obtain h c xs where ok: "multimap_ok h c xs [(1 :: nat, ''a''), (1, ''b'')]"
    by (rule multimap_build[OF s, where ?k0.0 = 0 and ?v0.0 = "''''"])
  have "endItem c \<in> insert (endItem c) (set xs)" by simp
  from multimap_insert_correct[OF ok this, of 1 "''x''", THEN conjunct1]
  obtain h' c' i xs' ps qs where R: "multimap_insert h c 1 ''x'' = Some (h', c', i)"
    "[(1 :: nat, ''a''), (1, ''b'')] = ps @ qs" "multimap_ok h' c' xs' (ps @ (1, ''x'') # qs)"
    "\<forall>j\<in>fst ` set qs. 1 < j"
    by (elim exE conjE) (rule that, assumption+)
  have "set qs \<subseteq> {(1 :: nat, ''a''), (1, ''b'')}" using arg_cong[OF R(2), of set] by auto
  then have q: "qs = []" using R(4) by (cases qs) auto
  have p: "ps = [(1 :: nat, ''a''), (1, ''b'')]" using R(2) by (simp only: q append_Nil2)
  from R(3) have "multimap_ok h' c' xs' [(1, ''a''), (1, ''b''), (1, ''x'')]" by (simp only: p q append.simps)
  with R(1) ok show ?thesis by (intro exI conjI)
qed

text \<open>\<^verbatim>\<open>MultiMap::remove(key)\<close> takes out one pair with the key, if there is one, and leaves the
  others in their order.\<close>

theorem multimap_remove_key_correct:
  assumes "multimap_ok h c xs kvs"
  shows "if k \<in> fst ` set kvs
    then \<exists>h' c' xs' ps v qs. multimap_remove_key h c k = Some (h', c') \<and> kvs = ps @ (k, v) # qs \<and>
           multimap_ok h' c' xs' (ps @ qs)
    else multimap_remove_key h c k = Some (h, c)"
proof (cases "k \<in> fst ` set kvs")
  case True
  then show ?thesis using multimap_remove_key_ok[OF assms, of k] unfolding if_P[OF True]
    by (elim exE conjE) (intro exI conjI, assumption+)
next
  case False
  then show ?thesis using multimap_remove_key_ok[OF assms, of k] by (simp only: if_False)
qed

theorem multimap_remove_key_correct_witness:
  "\<exists>h c xs h' c' xs'. multimap_ok h c xs [(1 :: nat, ''a''), (2, ''b'')] \<and>
     multimap_remove_key h c 2 = Some (h', c') \<and> multimap_ok h' c' xs' [(1, ''a'')]"
proof -
  have s: "sorted (map fst [(1 :: nat, ''a''), (2, ''b'')])" by simp
  obtain h c xs where ok: "multimap_ok h c xs [(1 :: nat, ''a''), (2, ''b'')]"
    by (rule multimap_build[OF s, where ?k0.0 = 0 and ?v0.0 = "''''"])
  have two: "2 \<in> fst ` set [(1 :: nat, ''a''), (2, ''b'')]" by simp
  obtain h' c' xs' ps v qs where R: "multimap_remove_key h c 2 = Some (h', c')"
    "[(1 :: nat, ''a''), (2, ''b'')] = ps @ (2, v) # qs" "multimap_ok h' c' xs' (ps @ qs)"
    using multimap_remove_key_correct[OF ok, of 2] unfolding if_P[OF two]
    by (elim exE conjE) (rule that, assumption+)
  have pq: "ps @ qs = [(1, ''a'')]" using R(2) by (auto simp: Cons_eq_append_conv)
  from R(3) have "multimap_ok h' c' xs' [(1, ''a'')]" by (simp only: pq)
  with R(1) ok show ?thesis by (intro exI conjI)
qed

text \<open>\<^verbatim>\<open>MultiMap::count\<close> is zero exactly for absent keys, but for present keys it is only the
  number of pairs from the found one on, and one more when the run of equal keys reaches the end
  and the key is the default-constructed one of \<^verbatim>\<open>endItem\<close>: so it may be too small or too large.\<close>

theorem multimap_count_correct:
  assumes "multimap_ok h c xs kvs"
  shows "\<exists>n. multimap_count h c k = Some n \<and> (n = 0 \<longleftrightarrow> k \<notin> fst ` set kvs) \<and>
     n \<le> length (filter (\<lambda>kv. fst kv = k) kvs) + (if tkey h (endItem c) = k then 1 else 0)"
proof -
  have kvs: "kvs = map (\<lambda>x. (tkey h x, tval h x)) xs" by (rule tm_ok_facts(12)[OF assms])
  have keys: "fst ` set kvs = tkey h ` set xs" by (auto simp: kvs image_iff)
  have len: "length (filter (\<lambda>kv. fst kv = k) kvs) = length (filter (\<lambda>x. tkey h x = k) xs)"
    by (simp add: kvs filter_map o_def)
  obtain it where F: "if it = endItem c then k \<notin> tkey h ` set xs \<and> multimap_count h c k = Some 0
     else \<exists>us vs. xs = us @ it # vs \<and> tkey h it = k \<and>
       multimap_count h c k = Some (1 + length (takeWhile (\<lambda>x. tkey h x = k) vs) +
         (if (\<forall>x\<in>set vs. tkey h x = k) \<and> tkey h (endItem c) = k then 1 else 0))"
    using multimap_count_ok[OF assms] by blast
  show ?thesis
  proof (cases "it = endItem c")
    case True
    then show ?thesis using F keys by auto
  next
    case False
    then obtain us vs where xs: "xs = us @ it # vs" "tkey h it = k" and
      n: "multimap_count h c k = Some (1 + length (takeWhile (\<lambda>x. tkey h x = k) vs) +
         (if (\<forall>x\<in>set vs. tkey h x = k) \<and> tkey h (endItem c) = k then 1 else 0))" using F by auto
    have "length (takeWhile (\<lambda>x. tkey h x = k) vs) \<le> length (filter (\<lambda>x. tkey h x = k) vs)"
      by (induction vs) auto
    moreover have "k \<in> fst ` set kvs" unfolding keys using xs by auto
    ultimately show ?thesis unfolding n len using xs by auto
  qed
qed

theorem multimap_count_correct_witness:
  "\<exists>h c xs n. multimap_ok h c xs [(1 :: nat, ''a''), (2, ''b'')] \<and> multimap_count h c 5 = Some n \<and> n = 0"
proof -
  have s: "sorted (map fst [(1 :: nat, ''a''), (2, ''b'')])" by simp
  obtain h c xs where ok: "multimap_ok h c xs [(1 :: nat, ''a''), (2, ''b'')]"
    by (rule multimap_build[OF s, where ?k0.0 = 0 and ?v0.0 = "''''"])
  from multimap_count_correct[OF ok, of 5] ok show ?thesis by auto
qed

text \<open>Three insertions of the same key into a new \<^verbatim>\<open>MultiMap\<close> make \<^verbatim>\<open>count\<close> of that key two,
  because \<^verbatim>\<open>find\<close> starts it at the root of the tree, the middle one of the three.\<close>

theorem multimap_count_undercounts:
  "\<exists>h c. foldo mm_ins [(1, ''a''), (1, ''b''), (1, ''c'')] (multimap0 (0 :: nat) '''') = Some (h, c) \<and>
     csize c = 3 \<and> multimap_count h c 1 = Some 2"
proof -
  have s: "sorted (map fst [(1 :: nat, ''a''), (1, ''b''), (1, ''c'')])" by simp
  obtain h c xs where ok: "multimap_ok h c xs [(1 :: nat, ''a''), (1, ''b''), (1, ''c'')]"
    and e: "tkey h (endItem c) = 0"
    and r: "foldo mm_ins [(1 :: nat, ''a''), (1, ''b''), (1, ''c'')] (multimap0 0 '''') = Some (h, c)"
    by (rule multimap_build[OF s, where ?k0.0 = 0 and ?v0.0 = "''''"])
  obtain a b d where xs: "xs = [a, b, d]" using tm_ok_facts(1)[OF ok] by (auto simp: length_Suc_conv)
  have keys: "tkey h a = 1" "tkey h b = 1" "tkey h d = 1" using tm_ok_facts(12)[OF ok] by (simp_all add: xs)
  obtain fs T where D: "cont_inv h c xs fs" "ptree h null T (troot c)" "avl T" "inord T = xs" using ok by (rule tm_okE)
  have "T = Nd (Nd Lf a Lf) b (Nd Lf d Lf)" by (rule avl_three[OF D(3)]) (simp add: D(4) xs)
  then have root: "troot c = b" and "b \<noteq> null" using D(2) by auto
  have "find_loop h b 1 = Some b" by (subst find_loop.simps) (use \<open>b \<noteq> null\<close> keys in simp)
  with \<open>b \<noteq> null\<close> have f: "multimap_find h c 1 = Some b"
    unfolding multimap_find_def tree_find_def root by simp
  have "b \<noteq> endItem c" "distinct [a, b, d]" using tm_ok_facts(4,5)[OF ok] by (auto simp: xs)
  then obtain us vs where uv: "[a, b, d] = us @ b # vs" and n: "multimap_count h c 1 = Some (1 + length (takeWhile (\<lambda>x. tkey h x = 1) vs) +
         (if (\<forall>x\<in>set vs. tkey h x = 1) \<and> tkey h (endItem c) = 1 then 1 else 0))"
    using multimap_count_ok[OF ok, of 1] f by (auto simp: xs)
  have "us @ b # vs = [a] @ b # [d]" using uv by simp
  from split_at[OF this] \<open>distinct [a, b, d]\<close> uv have "vs = [d]" by simp
  then have "multimap_count h c 1 = Some 2" using n e keys by simp
  then show ?thesis using r tm_ok_facts(2)[OF ok] by auto
qed

end
