(* ===== verification/Nstd_CString.thy ===== *)
theory Nstd_CString
  imports Nstd_Prelude "HOL-Library.Word"
begin

unbundle bit_operations_syntax

text \<open>
  Characters and C strings. A \<^verbatim>\<open>char\<close> is a byte, kept as an \<open>8 word\<close>; where the code reads it as a
  signed number the definitions say so with \<open>sint\<close>. A \<^verbatim>\<open>const char*\<close> into a string is an offset into its
  bytes. The functions of \<^verbatim>\<open><cstring>\<close> that the library calls stop at the terminating zero, so they
  see the bytes up to the first zero.
\<close>

type_synonym byte = "8 word"

definition lit :: "string \<Rightarrow> byte list" where
  "lit s = map of_char s"

lemma lit_simps [simp]: "lit [] = []" "lit (c # cs) = of_char c # lit cs"
  by (simp_all add: lit_def)

definition cstr :: "byte list \<Rightarrow> byte list" where
  "cstr s = takeWhile (\<lambda>c. c \<noteq> 0) s"

lemma cstr_simps [simp]: "cstr [] = []" "cstr (c # s) = (if c = 0 then [] else c # cstr s)"
  by (simp_all add: cstr_def)

lemma cstr_nonzero [simp]: "0 \<notin> set (cstr s)"
  by (auto simp: cstr_def dest: set_takeWhileD)

lemma cstr_id: "0 \<notin> set s \<Longrightarrow> cstr s = s"
  by (auto simp: cstr_def takeWhile_eq_all_conv)

lemma cstr_idem [simp]: "cstr (cstr s) = cstr s"
  by (rule cstr_id) simp

lemma cstr_le: "length (cstr s) \<le> length s"
  by (simp add: cstr_def length_takeWhile_le)

lemma set_cstr: "set (cstr s) \<subseteq> set s"
  by (auto simp: cstr_def dest: set_takeWhileD)

section \<open>The library functions\<close>

text \<open>\<^verbatim>\<open>strchr(s, c)\<close>: the terminator counts as part of the string.\<close>

fun strchr :: "byte list \<Rightarrow> byte \<Rightarrow> nat option" where
  "strchr [] c = (if c = 0 then Some 0 else None)"
| "strchr (x # s) c =
     (if x = c then Some 0 else if x = 0 then None else map_option Suc (strchr s c))"

text \<open>\<^verbatim>\<open>strpbrk(s, chars)\<close>: the first character that is one of \<open>chars\<close>.\<close>

fun strpbrk :: "byte list \<Rightarrow> byte list \<Rightarrow> nat option" where
  "strpbrk [] chars = None"
| "strpbrk (x # s) chars =
     (if x = 0 then None else if x \<in> set (cstr chars) then Some 0 else map_option Suc (strpbrk s chars))"

fun is_prefix :: "byte list \<Rightarrow> byte list \<Rightarrow> bool" where
  "is_prefix [] s \<longleftrightarrow> True"
| "is_prefix (x # p) [] \<longleftrightarrow> False"
| "is_prefix (x # p) (y # s) \<longleftrightarrow> x = y \<and> is_prefix p s"

text \<open>\<^verbatim>\<open>strstr(s, str)\<close>: the first place where \<open>str\<close> starts.\<close>

fun strstr_at :: "byte list \<Rightarrow> byte list \<Rightarrow> nat option" where
  "strstr_at [] p = (if p = [] then Some 0 else None)"
| "strstr_at (x # s) p = (if is_prefix p (x # s) then Some 0 else map_option Suc (strstr_at s p))"

definition strstr :: "byte list \<Rightarrow> byte list \<Rightarrow> nat option" where
  "strstr s p = strstr_at (cstr s) (cstr p)"

section \<open>What they compute\<close>

lemma is_prefix_iff: "is_prefix p s \<longleftrightarrow> (\<exists>t. s = p @ t)"
  by (induction p s rule: is_prefix.induct) auto

lemma strpbrk_None: "strpbrk s chars = None \<longleftrightarrow> (\<forall>c\<in>set (cstr s). c \<notin> set (cstr chars))"
  by (induction s) auto

lemma strpbrk_Some:
  "strpbrk s chars = Some n \<Longrightarrow>
     \<exists>u x v. s = u @ x # v \<and> length u = n \<and> x \<noteq> 0 \<and> x \<in> set (cstr chars) \<and>
       0 \<notin> set u \<and> (\<forall>c\<in>set u. c \<notin> set (cstr chars))"
proof (induction s arbitrary: n)
  case (Cons y s)
  show ?case
  proof (cases "y \<in> set (cstr chars)")
    case True
    then show ?thesis using Cons.prems by (intro exI[of _ "[]"] exI[of _ y] exI[of _ s]) (auto split: if_splits)
  next
    case False
    then obtain m where y: "y \<noteq> 0" and m: "strpbrk s chars = Some m" "n = Suc m" using Cons.prems by (auto split: if_splits)
    from Cons.IH[OF m(1)] obtain u x v where "s = u @ x # v \<and> length u = m \<and> x \<noteq> 0 \<and> x \<in> set (cstr chars) \<and>
       0 \<notin> set u \<and> (\<forall>c\<in>set u. c \<notin> set (cstr chars))" by blast
    then show ?thesis using False y m(2) by (intro exI[of _ "y # u"] exI[of _ x] exI[of _ v]) auto
  qed
qed simp

lemma strstr_at_None: "strstr_at s p = None \<longleftrightarrow> (\<nexists>u v. s = u @ p @ v)"
proof (induction s)
  case (Cons x s)
  show ?case
  proof (cases "is_prefix p (x # s)")
    case True
    then obtain t where "x # s = [] @ p @ t" unfolding is_prefix_iff by auto
    then have "\<exists>u v. x # s = u @ p @ v" by blast
    then show ?thesis using True by simp
  next
    case False
    then have "(\<exists>u v. x # s = u @ p @ v) \<longleftrightarrow> (\<exists>u v. s = u @ p @ v)"
      unfolding is_prefix_iff by (auto simp: Cons_eq_append_conv)
    then show ?thesis using False Cons.IH by simp
  qed
qed auto

lemma strstr_at_Some: "strstr_at s p = Some n \<Longrightarrow> \<exists>u v. s = u @ p @ v \<and> length u = n"
proof (induction s arbitrary: n)
  case (Cons x s)
  show ?case
  proof (cases "is_prefix p (x # s)")
    case True
    then show ?thesis using Cons.prems by (auto simp: is_prefix_iff)
  next
    case False
    then obtain m where m: "strstr_at s p = Some m" "n = Suc m" using Cons.prems by auto
    from Cons.IH[OF m(1)] obtain u v where "s = u @ p @ v" "length u = m" by blast
    then show ?thesis using m(2) by (intro exI[of _ "x # u"] exI[of _ v]) simp
  qed
qed (auto split: if_splits)

lemma strstr_at_first: "strstr_at s p = Some n \<Longrightarrow> s = u @ p @ v \<Longrightarrow> n \<le> length u"
proof (induction s arbitrary: n u)
  case (Cons x s)
  show ?case
  proof (cases "is_prefix p (x # s)")
    case False
    then obtain m where m: "strstr_at s p = Some m" "n = Suc m" using Cons.prems(1) by auto
    have "u \<noteq> []" using False Cons.prems(2) unfolding is_prefix_iff by auto
    then obtain w where "u = x # w" "s = w @ p @ v" using Cons.prems(2) by (cases u) auto
    then show ?thesis using Cons.IH[OF m(1)] m(2) by simp
  qed (use Cons.prems(1) in simp)
qed (auto split: if_splits)

end
