(* ===== verification/Nstd_Sha256.thy ===== *)
theory Nstd_Sha256
  imports Nstd_CString
begin

unbundle bit_operations_syntax

text \<open>
  \<^verbatim>\<open>Sha256\<close> (include/nstd/Crypto/Sha256.hpp, src/Crypto/Sha256.cpp): the incremental hash with its
  64-byte buffer and byte counter, the compression function with its rotating array \<^verbatim>\<open>T\<close> and its
  sliding window \<^verbatim>\<open>W\<close> of sixteen words, and the HMAC on top of it. The code is compared with
  SHA-256 as the standard FIPS 180-4 states it (message schedule of 64 words, eight working
  variables, padding of the whole message) and with HMAC as RFC 2104 states it.
\<close>

type_synonym word32 = "32 word"

section \<open>The code\<close>

record sha =
  sstate :: "word32 list"
  scount :: "64 word"
  sbuffer :: "byte list"

text \<open>The macros \<^verbatim>\<open>rotrFixed\<close>, \<^verbatim>\<open>S0\<close>, \<^verbatim>\<open>S1\<close>, \<^verbatim>\<open>s0\<close>, \<^verbatim>\<open>s1\<close>, \<^verbatim>\<open>Ch\<close> and \<^verbatim>\<open>Maj\<close>.\<close>

definition rotrFixed :: "word32 \<Rightarrow> nat \<Rightarrow> word32" where
  "rotrFixed x n = (drop_bit n x OR push_bit (32 - n) x)"

definition S0 :: "word32 \<Rightarrow> word32" where
  "S0 x = (rotrFixed x 2 XOR rotrFixed x 13 XOR rotrFixed x 22)"

definition S1 :: "word32 \<Rightarrow> word32" where
  "S1 x = (rotrFixed x 6 XOR rotrFixed x 11 XOR rotrFixed x 25)"

definition s0 :: "word32 \<Rightarrow> word32" where
  "s0 x = (rotrFixed x 7 XOR rotrFixed x 18 XOR drop_bit 3 x)"

definition s1 :: "word32 \<Rightarrow> word32" where
  "s1 x = (rotrFixed x 17 XOR rotrFixed x 19 XOR drop_bit 10 x)"

definition Ch :: "word32 \<Rightarrow> word32 \<Rightarrow> word32 \<Rightarrow> word32" where
  "Ch x y z = (z XOR (x AND (y XOR z)))"

definition Maj :: "word32 \<Rightarrow> word32 \<Rightarrow> word32 \<Rightarrow> word32" where
  "Maj x y z = ((x AND y) OR (z AND (x OR y)))"

definition sha_K :: "word32 list" where
  "sha_K = [
  0x428a2f98, 0x71374491, 0xb5c0fbcf, 0xe9b5dba5,
  0x3956c25b, 0x59f111f1, 0x923f82a4, 0xab1c5ed5,
  0xd807aa98, 0x12835b01, 0x243185be, 0x550c7dc3,
  0x72be5d74, 0x80deb1fe, 0x9bdc06a7, 0xc19bf174,
  0xe49b69c1, 0xefbe4786, 0x0fc19dc6, 0x240ca1cc,
  0x2de92c6f, 0x4a7484aa, 0x5cb0a9dc, 0x76f988da,
  0x983e5152, 0xa831c66d, 0xb00327c8, 0xbf597fc7,
  0xc6e00bf3, 0xd5a79147, 0x06ca6351, 0x14292967,
  0x27b70a85, 0x2e1b2138, 0x4d2c6dfc, 0x53380d13,
  0x650a7354, 0x766a0abb, 0x81c2c92e, 0x92722c85,
  0xa2bfe8a1, 0xa81a664b, 0xc24b8b70, 0xc76c51a3,
  0xd192e819, 0xd6990624, 0xf40e3585, 0x106aa070,
  0x19a4c116, 0x1e376c08, 0x2748774c, 0x34b0bcb5,
  0x391c0cb3, 0x4ed8aa4a, 0x5b9cca4f, 0x682e6ff3,
  0x748f82ee, 0x78a5636f, 0x84c87814, 0x8cc70208,
  0x90befffa, 0xa4506ceb, 0xbef9a3f7, 0xc67178f2]"

text \<open>The slots \<^verbatim>\<open>T[(k-(i))&7]\<close> that the macros \<^verbatim>\<open>a(i)\<close> to \<^verbatim>\<open>h(i)\<close> name, and the slots
  \<^verbatim>\<open>W[(i-k)&15]\<close>; the subtractions are on unsigned integers.\<close>

definition t_slot :: "nat \<Rightarrow> nat \<Rightarrow> nat" where
  "t_slot k i = nat ((int k - int i) mod 8)"

definition w_slot :: "nat \<Rightarrow> nat \<Rightarrow> nat" where
  "w_slot i k = nat ((int i - int k) mod 16)"

definition blk0 :: "word32 list \<Rightarrow> word32 list \<Rightarrow> nat \<Rightarrow> word32 list" where
  "blk0 data W i = W[i := data ! i]"

definition blk2 :: "word32 list \<Rightarrow> nat \<Rightarrow> word32 list" where
  "blk2 W i =
     W[w_slot i 0 := W ! w_slot i 0 + (s1 (W ! w_slot i 2) + W ! w_slot i 7 + s0 (W ! w_slot i 15))]"

text \<open>\<^verbatim>\<open>R(i)\<close>: one round; the value of \<^verbatim>\<open>blk0(i)\<close> or \<^verbatim>\<open>blk2(i)\<close> is the slot it assigns.\<close>

definition sha_R :: "word32 list \<Rightarrow> nat \<Rightarrow> nat \<Rightarrow> word32 list \<times> word32 list \<Rightarrow> word32 list \<times> word32 list" where
  "sha_R data j i = (\<lambda>(T, W).
     let W1 = (if j \<noteq> 0 then blk2 W i else blk0 data W i);
         T1 = T[t_slot 7 i := T ! t_slot 7 i + (S1 (T ! t_slot 4 i)
                + Ch (T ! t_slot 4 i) (T ! t_slot 5 i) (T ! t_slot 6 i) + sha_K ! (i + j) + W1 ! w_slot i 0)];
         T2 = T1[t_slot 3 i := T1 ! t_slot 3 i + T1 ! t_slot 7 i];
         T3 = T2[t_slot 7 i := T2 ! t_slot 7 i + (S0 (T2 ! t_slot 0 i)
                + Maj (T2 ! t_slot 0 i) (T2 ! t_slot 1 i) (T2 ! t_slot 2 i))]
     in (T3, W1))"

text \<open>\<^verbatim>\<open>Transform\<close>: the array \<^verbatim>\<open>W\<close> starts uninitialised, here as the parameter \<open>W0\<close>.\<close>

definition sha_Transform :: "word32 list \<Rightarrow> word32 list \<Rightarrow> word32 list \<Rightarrow> word32 list" where
  "sha_Transform W0 st data =
     (let (T, _) = fold (\<lambda>j. fold (sha_R data j) [0..<16]) [0, 16, 32, 48] (st, W0)
      in map2 (+) st T)"

definition sha_WriteByteBlock :: "word32 list \<Rightarrow> sha \<Rightarrow> sha" where
  "sha_WriteByteBlock W0 p =
     (let data32 = map (\<lambda>i. push_bit 24 (ucast (sbuffer p ! (i * 4))) + push_bit 16 (ucast (sbuffer p ! (i * 4 + 1)))
                          + push_bit 8 (ucast (sbuffer p ! (i * 4 + 2))) + ucast (sbuffer p ! (i * 4 + 3))) [0..<16]
      in p\<lparr>sstate := sha_Transform W0 (sstate p) data32\<rparr>)"

definition sha_reset :: "sha \<Rightarrow> sha" where
  "sha_reset p = p\<lparr>sstate := [0x6a09e667, 0xbb67ae85, 0x3c6ef372, 0xa54ff53a,
                              0x510e527f, 0x9b05688c, 0x1f83d9ab, 0x5be0cd19],
                   scount := 0\<rparr>"

definition cur_pos :: "sha \<Rightarrow> nat" where
  "cur_pos p = unat ((ucast (scount p) :: word32) AND 0x3F)"

fun update_loop :: "word32 list \<Rightarrow> byte list \<Rightarrow> sha \<Rightarrow> nat \<Rightarrow> sha" where
  "update_loop W0 [] p pos = p"
| "update_loop W0 (x # data) p pos =
     (let p1 = p\<lparr>sbuffer := (sbuffer p)[pos := x], scount := scount p + 1\<rparr>
      in if pos + 1 = 64 then update_loop W0 data (sha_WriteByteBlock W0 p1) 0
         else update_loop W0 data p1 (pos + 1))"

definition sha_update :: "word32 list \<Rightarrow> byte list \<Rightarrow> sha \<Rightarrow> sha" where
  "sha_update W0 data p = update_loop W0 data p (cur_pos p)"

text \<open>The loop that writes zeros up to position 56, through the end of the buffer if it has to.\<close>

lemma and_3F: "(n :: nat) AND 0x3F = n mod 64"
  using take_bit_eq_mask[of 6 n] by (simp add: take_bit_eq_mod mask_eq_exp_minus_1 and.commute)

function pad_loop :: "word32 list \<Rightarrow> sha \<Rightarrow> nat \<Rightarrow> sha \<times> nat" where
  "pad_loop W0 p pos =
     (if pos = 64 - 8 then (p, pos)
      else let pos1 = pos AND 0x3F;
               p1 = (if pos1 = 0 then sha_WriteByteBlock W0 p else p)
           in pad_loop W0 (p1\<lparr>sbuffer := (sbuffer p1)[pos1 := 0]\<rparr>) (pos1 + 1))"
  by pat_completeness auto
termination
proof (relation "measure (\<lambda>(_, _, n :: nat). if n \<le> 56 then 56 - n else if n \<le> 64 then 164 - n else 200)", goal_cases)
  case (2 W0 p pos x xa)
  then have x: "x = pos mod 64" by (simp add: and_3F)
  consider "pos < 56" | "56 < pos \<and> pos < 64" | "pos = 64" | "64 < pos" using 2(1) by linarith
  then show ?case
  proof cases
    case 4
    moreover have "pos mod 64 < 64" by simp
    ultimately show ?thesis using x by (simp, arith)
  qed (use x in auto)
qed simp

declare pad_loop.simps [simp del]

fun length_loop :: "nat \<Rightarrow> 64 word \<Rightarrow> sha \<Rightarrow> nat \<Rightarrow> sha" where
  "length_loop 0 bits p pos = p"
| "length_loop (Suc n) bits p pos =
     length_loop n (push_bit 8 bits) (p\<lparr>sbuffer := (sbuffer p)[pos := ucast (drop_bit 56 bits)]\<rparr>) (pos + 1)"

definition sha_digest :: "word32 list \<Rightarrow> byte list" where
  "sha_digest st = concat (map (\<lambda>i. [ucast (drop_bit 24 (st ! i)), ucast (drop_bit 16 (st ! i)),
                                      ucast (drop_bit 8 (st ! i)), ucast (st ! i)]) [0..<8])"

definition sha_finalize :: "word32 list \<Rightarrow> sha \<Rightarrow> sha \<times> byte list" where
  "sha_finalize W0 p =
     (let lenInBits = push_bit 3 (scount p);
          pos = cur_pos p;
          p1 = p\<lparr>sbuffer := (sbuffer p)[pos := 0x80]\<rparr>;
          (p2, pos2) = pad_loop W0 p1 (pos + 1);
          p3 = sha_WriteByteBlock W0 (length_loop 8 lenInBits p2 pos2)
      in (sha_reset p3, sha_digest (sstate p3)))"

text \<open>The constructor leaves the buffer uninitialised: \<open>p\<close> is the memory of the new object.\<close>

definition sha_hash :: "word32 list \<Rightarrow> sha \<Rightarrow> byte list \<Rightarrow> byte list" where
  "sha_hash W0 p data = snd (sha_finalize W0 (sha_update W0 data (sha_reset p)))"

definition sha_hmac :: "word32 list \<Rightarrow> sha \<Rightarrow> byte list \<Rightarrow> byte list \<Rightarrow> byte list" where
  "sha_hmac W0 p key message =
     (let c0 = sha_reset p;
          (c1, hashKey) =
            (if length key > 64 then
               (let (c, d) = sha_finalize W0 (sha_update W0 key c0) in (c, d @ replicate 32 0))
             else (c0, key @ (if length key < 64 then replicate (64 - length key) 0 else [])));
          oKeyPad = map (\<lambda>i. hashKey ! i XOR 0x5c) [0..<64];
          iKeyPad = map (\<lambda>i. hashKey ! i XOR 0x36) [0..<64];
          c2 = sha_update W0 message (sha_update W0 iKeyPad c1);
          (c3, hash) = sha_finalize W0 c2;
          c4 = sha_update W0 hash (sha_update W0 oKeyPad c3)
      in snd (sha_finalize W0 c4))"

section \<open>SHA-256 and HMAC as the standards state them\<close>

definition fips_Ch :: "word32 \<Rightarrow> word32 \<Rightarrow> word32 \<Rightarrow> word32" where
  "fips_Ch x y z = ((x AND y) XOR (NOT x AND z))"

definition fips_Maj :: "word32 \<Rightarrow> word32 \<Rightarrow> word32 \<Rightarrow> word32" where
  "fips_Maj x y z = ((x AND y) XOR (x AND z) XOR (y AND z))"

definition fips_Sigma0 :: "word32 \<Rightarrow> word32" where
  "fips_Sigma0 x = (word_rotr 2 x XOR word_rotr 13 x XOR word_rotr 22 x)"

definition fips_Sigma1 :: "word32 \<Rightarrow> word32" where
  "fips_Sigma1 x = (word_rotr 6 x XOR word_rotr 11 x XOR word_rotr 25 x)"

definition fips_sigma0 :: "word32 \<Rightarrow> word32" where
  "fips_sigma0 x = (word_rotr 7 x XOR word_rotr 18 x XOR drop_bit 3 x)"

definition fips_sigma1 :: "word32 \<Rightarrow> word32" where
  "fips_sigma1 x = (word_rotr 17 x XOR word_rotr 19 x XOR drop_bit 10 x)"

text \<open>The message schedule, extended word by word.\<close>

fun schedule :: "word32 list \<Rightarrow> nat \<Rightarrow> word32 list" where
  "schedule M 0 = M"
| "schedule M (Suc n) =
     (let w = schedule M n
      in w @ [fips_sigma1 (w ! (n + 14)) + w ! (n + 9) + fips_sigma0 (w ! (n + 1)) + w ! n])"

fun fips_round :: "word32 \<times> word32 \<Rightarrow> word32 list \<Rightarrow> word32 list" where
  "fips_round (k, w) [a, b, c, d, e, f, g, h] =
     (let T1 = h + fips_Sigma1 e + fips_Ch e f g + k + w;
          T2 = fips_Sigma0 a + fips_Maj a b c
      in [T1 + T2, a, b, c, d + T1, e, f, g])"
| "fips_round _ v = v"

definition fips_compress :: "word32 list \<Rightarrow> word32 list \<Rightarrow> word32 list" where
  "fips_compress H M = map2 (+) H (fold fips_round (zip sha_K (schedule M 48)) H)"

definition fips_H0 :: "word32 list" where
  "fips_H0 = [0x6a09e667, 0xbb67ae85, 0x3c6ef372, 0xa54ff53a,
              0x510e527f, 0x9b05688c, 0x1f83d9ab, 0x5be0cd19]"

text \<open>Big-endian bytes of a number and the number that bytes stand for.\<close>

definition be_bytes :: "nat \<Rightarrow> nat \<Rightarrow> byte list" where
  "be_bytes n x = map (\<lambda>i. of_nat (x div 256 ^ (n - 1 - i))) [0..<n]"

definition be_value :: "byte list \<Rightarrow> nat" where
  "be_value bs = foldl (\<lambda>x b. 256 * x + unat b) 0 bs"

text \<open>The padding: a one bit, the least number of zero bits that leaves 64 bits for the length.\<close>

definition fips_pad :: "byte list \<Rightarrow> byte list" where
  "fips_pad m = m @ [0x80] @ replicate (nat ((55 - int (length m)) mod 64)) 0 @ be_bytes 8 (8 * length m)"

fun chunks :: "nat \<Rightarrow> 'a list \<Rightarrow> 'a list list" where
  "chunks n [] = []"
| "chunks n (x # xs) = (if n = 0 then [] else take n (x # xs) # chunks n (drop n (x # xs)))"

definition fips_words :: "byte list \<Rightarrow> word32 list" where
  "fips_words block = map (\<lambda>bs. of_nat (be_value bs)) (chunks 4 block)"

definition fips_sha256 :: "byte list \<Rightarrow> byte list" where
  "fips_sha256 m =
     concat (map (\<lambda>w. be_bytes 4 (unat w))
       (fold (\<lambda>block H. fips_compress H (fips_words block)) (chunks 64 (fips_pad m)) fips_H0))"

text \<open>RFC 2104: the key is hashed if it is longer than a block and padded with zeros to a block.\<close>

definition rfc_hmac :: "byte list \<Rightarrow> byte list \<Rightarrow> byte list" where
  "rfc_hmac key m =
     (let k = (if length key > 64 then fips_sha256 key else key);
          K = k @ replicate (64 - length k) 0
      in fips_sha256 (map (\<lambda>b. b XOR 0x5c) K @ fips_sha256 (map (\<lambda>b. b XOR 0x36) K @ m)))"

section \<open>The compression function\<close>

lemma rotrFixed_eq:
  assumes "0 < n" "n < 32"
  shows "rotrFixed x n = word_rotr n x"
proof (rule bit_word_eqI)
  fix i :: nat
  assume "i < LENGTH(32)"
  then consider "i + n < 32" | "32 \<le> i + n" "(i + n) mod 32 = i + n - 32" "\<not> bit x (n + i)" "i < 32"
    using assms bit_imp_le_length[of x "n + i"] by (cases "i + n < 32") (auto simp: le_mod_geq)
  then show "bit (rotrFixed x n) i \<longleftrightarrow> bit (word_rotr n x) i"
    by cases (use assms in \<open>auto simp: rotrFixed_def bit_simps bit_word_rotr_iff ac_simps\<close>)
qed

lemma sha_functions:
  "S0 = fips_Sigma0" "S1 = fips_Sigma1" "s0 = fips_sigma0" "s1 = fips_sigma1" "Ch = fips_Ch" "Maj = fips_Maj"
proof -
  show "S0 = fips_Sigma0" "S1 = fips_Sigma1" "s0 = fips_sigma0" "s1 = fips_sigma1"
    by (simp_all add: fun_eq_iff S0_def S1_def s0_def s1_def fips_Sigma0_def fips_Sigma1_def
        fips_sigma0_def fips_sigma1_def rotrFixed_eq)
  show "Ch = fips_Ch" "Maj = fips_Maj"
    unfolding fun_eq_iff Ch_def Maj_def fips_Ch_def fips_Maj_def
    by (intro allI bit_word_eqI; auto simp: bit_simps)+
qed

lemma t_slot_facts:
  "t_slot k n < 8" "t_slot (Suc k) (Suc n) = t_slot k n" "t_slot 0 (Suc n) = t_slot 7 n"
  "k < 8 \<Longrightarrow> l < 8 \<Longrightarrow> t_slot k n = t_slot l n \<longleftrightarrow> k = l"
  "j mod 8 = 0 \<Longrightarrow> t_slot k (j + n) = t_slot k n"
proof -
  show "t_slot k n < 8" "t_slot (Suc k) (Suc n) = t_slot k n" by (simp_all add: t_slot_def nat_less_iff)
  have "7 - int n = (int 0 - int (Suc n)) + 8 * 1" by simp
  then show "t_slot 0 (Suc n) = t_slot 7 n" unfolding t_slot_def by (simp only: mod_mult_self2 of_nat_numeral)
  have inj: "(int k - int n) mod 8 = (int l - int n) mod 8 \<Longrightarrow> k = l" if "k < 8" "l < 8"
  proof -
    assume "(int k - int n) mod 8 = (int l - int n) mod 8"
    from mod_add_cong[OF this refl[of "int n mod 8"]] show "k = l" using that by simp
  qed
  show "k < 8 \<Longrightarrow> l < 8 \<Longrightarrow> t_slot k n = t_slot l n \<longleftrightarrow> k = l"
    using inj unfolding t_slot_def by (auto simp: eq_nat_nat_iff)
  assume "j mod 8 = 0"
  then obtain q where "j = 8 * q" by (auto simp: mod_eq_0_iff_dvd)
  then have "int k - int (j + n) = int k - int n + 8 * (- int q)" by simp
  then show "t_slot k (j + n) = t_slot k n" unfolding t_slot_def by (simp only: mod_mult_self2)
qed

text \<open>After \<open>n\<close> rounds the slots of \<^verbatim>\<open>T\<close> hold the working variables.\<close>

definition ring :: "nat \<Rightarrow> word32 list \<Rightarrow> word32 list \<Rightarrow> bool" where
  "ring n T v \<longleftrightarrow> length T = 8 \<and> length v = 8 \<and> (\<forall>k<8. T ! t_slot k n = v ! k)"

lemma all_less_8: "(\<forall>k<8. P k) \<longleftrightarrow> P 0 \<and> P 1 \<and> P 2 \<and> P 3 \<and> P 4 \<and> P 5 \<and> P 6 \<and> P (7 :: nat)"
  by (simp add: numeral_eq_Suc All_less_Suc conj_ac)

lemma length_8: "length v = 8 \<Longrightarrow> \<exists>a b c d e f g h. v = [a, b, c, d, e, f, g, h]"
  by (simp add: numeral_eq_Suc length_Suc_conv) blast

lemma t_slot_next: "t_slot 1 (Suc n) = t_slot 0 n" "t_slot 2 (Suc n) = t_slot 1 n" "t_slot 3 (Suc n) = t_slot 2 n"
  "t_slot 4 (Suc n) = t_slot 3 n" "t_slot 5 (Suc n) = t_slot 4 n" "t_slot 6 (Suc n) = t_slot 5 n"
  "t_slot 7 (Suc n) = t_slot 6 n"
  by (simp_all only: numeral_eq_Suc pred_numeral_simps BitM.simps One_nat_def t_slot_facts(2))

lemma ring_step:
  assumes "ring n T v"
  shows "ring (Suc n)
    (let T1 = T[t_slot 7 n := T ! t_slot 7 n + (fips_Sigma1 (T ! t_slot 4 n)
                + fips_Ch (T ! t_slot 4 n) (T ! t_slot 5 n) (T ! t_slot 6 n) + k + w)];
         T2 = T1[t_slot 3 n := T1 ! t_slot 3 n + T1 ! t_slot 7 n]
     in T2[t_slot 7 n := T2 ! t_slot 7 n + (fips_Sigma0 (T2 ! t_slot 0 n)
                + fips_Maj (T2 ! t_slot 0 n) (T2 ! t_slot 1 n) (T2 ! t_slot 2 n))])
    (fips_round (k, w) v)"
proof -
  obtain a b c d e f g h where v: "v = [a, b, c, d, e, f, g, h]"
    using assms length_8 unfolding ring_def by blast
  have T: "T ! t_slot 0 n = a" "T ! t_slot 1 n = b" "T ! t_slot 2 n = c" "T ! t_slot 3 n = d"
    "T ! t_slot 4 n = e" "T ! t_slot 5 n = f" "T ! t_slot 6 n = g" "T ! t_slot 7 n = h" "length T = 8"
    using assms by (simp_all add: ring_def v all_less_8)
  show ?thesis
    unfolding ring_def all_less_8 t_slot_next t_slot_facts(3) Let_def
    by (simp add: T T[unfolded One_nat_def] t_slot_facts(1,4) nth_list_update v Let_def ac_simps)
qed

text \<open>After \<open>n\<close> rounds the window holds the last sixteen words of the schedule.\<close>

lemma schedule_length [simp]: "length (schedule M n) = length M + n"
  by (induction n) (simp_all add: Let_def)

lemma schedule_stable: "t < length M + n \<Longrightarrow> schedule M (n + m) ! t = schedule M n ! t"
  by (induction m) (simp_all add: Let_def nth_append)

definition sched_word :: "word32 list \<Rightarrow> nat \<Rightarrow> word32" where
  "sched_word M t = schedule M 48 ! t"

lemma sched_word_low: "length M = 16 \<Longrightarrow> t < 16 \<Longrightarrow> sched_word M t = M ! t"
  using schedule_stable[of t M 0 48] by (simp add: sched_word_def)

lemma sched_word_high:
  assumes "length M = 16" "16 \<le> t" "t < 64"
  shows "sched_word M t = fips_sigma1 (sched_word M (t - 2)) + sched_word M (t - 7)
           + fips_sigma0 (sched_word M (t - 15)) + sched_word M (t - 16)"
proof -
  obtain n where n: "t = n + 16" "n < 48" by (rule that[of "t - 16"]) (use assms(2,3) in simp_all)
  have low: "sched_word M s = schedule M n ! s" if "s < n + 16" for s
    using schedule_stable[of s M n "48 - n"] that n(2) assms(1) by (simp add: sched_word_def add.commute)
  have "sched_word M t = schedule M (Suc n) ! t"
    using schedule_stable[of t M "Suc n" "48 - Suc n"] n assms(1) by (simp add: sched_word_def)
  also have "\<dots> = fips_sigma1 (schedule M n ! (n + 14)) + schedule M n ! (n + 9)
      + fips_sigma0 (schedule M n ! (n + 1)) + schedule M n ! n"
    using assms(1) n(1) by (simp add: Let_def nth_append)
  finally show ?thesis using low n(1) by (simp add: add.commute)
qed

definition win :: "word32 list \<Rightarrow> nat \<Rightarrow> word32 list \<Rightarrow> bool" where
  "win M n W \<longleftrightarrow> length W = 16 \<and> (\<forall>t<n. n \<le> t + 16 \<longrightarrow> W ! (t mod 16) = sched_word M t)"

lemma win_upd:
  assumes "win M n W" "x = sched_word M n"
  shows "win M (Suc n) (W[n mod 16 := x])"
  unfolding win_def
proof (intro conjI allI impI)
  show "length (W[n mod 16 := x]) = 16" using assms(1) by (simp add: win_def)
  fix t
  assume t: "t < Suc n" "Suc n \<le> t + 16"
  show "W[n mod 16 := x] ! (t mod 16) = sched_word M t"
  proof (cases "t = n")
    case True
    then show ?thesis using assms by (simp add: win_def)
  next
    case False
    then have "t < n" "\<not> 16 dvd n - t" using t nat_dvd_not_less[of "n - t" 16] by auto
    moreover from this have "t mod 16 \<noteq> n mod 16" using mod_eq_dvd_iff_nat[of t n 16] by simp
    ultimately show ?thesis using assms(1) t by (simp add: win_def)
  qed
qed

lemma w_slot_eq: "k \<le> n \<Longrightarrow> j mod 16 = 0 \<Longrightarrow> n = i + j \<Longrightarrow> w_slot i k = (n - k) mod 16"
proof -
  assume a: "k \<le> n" "j mod 16 = 0" "n = i + j"
  obtain q where "j = 16 * q" using a(2) by (auto simp: mod_eq_0_iff_dvd)
  then have "int (n - k) = int i - int k + 16 * int q" using a(1,3) by simp
  then have "(int i - int k) mod 16 = int ((n - k) mod 16)" by (simp only: of_nat_mod) simp
  then show "w_slot i k = (n - k) mod 16" by (simp add: w_slot_def)
qed

lemma win_step:
  assumes "win M n W" "length M = 16" "n < 64" "n = i + j" "i < 16" "j mod 16 = 0"
  shows "win M (Suc n) (if j \<noteq> 0 then blk2 W i else blk0 M W i)"
    and "(if j \<noteq> 0 then blk2 W i else blk0 M W i) ! w_slot i 0 = sched_word M n"
proof -
  have s0: "w_slot i 0 = n mod 16" using w_slot_eq[of 0 n j i] assms(4,6) by simp
  have len: "length W = 16" using assms(1) by (simp add: win_def)
  have "\<exists>x. (if j \<noteq> 0 then blk2 W i else blk0 M W i) = W[n mod 16 := x] \<and> x = sched_word M n"
  proof (cases "j = 0")
    case True
    then show ?thesis using assms(2,4,5) by (simp add: blk0_def sched_word_low)
  next
    case False
    then have n: "16 \<le> n" using assms(4,6) by presburger
    have at: "W ! w_slot i k = sched_word M (n - k)" if "0 < k" "k < 16" for k
      using that n assms(1) w_slot_eq[of k n j i] assms(4,6) by (auto simp: win_def)
    have "n mod 16 = (n - 16) mod 16" using n by (simp add: le_mod_geq)
    then have "W ! w_slot i 0 = sched_word M (n - 16)" using assms(1) n s0 by (auto simp: win_def)
    then show ?thesis using False at n sched_word_high[OF assms(2) n assms(3)]
      by (simp add: blk2_def s0 sha_functions ac_simps)
  qed
  then obtain x where x: "(if j \<noteq> 0 then blk2 W i else blk0 M W i) = W[n mod 16 := x]" "x = sched_word M n" by blast
  show "win M (Suc n) (if j \<noteq> 0 then blk2 W i else blk0 M W i)" unfolding x(1) by (rule win_upd[OF assms(1) x(2)])
  show "(if j \<noteq> 0 then blk2 W i else blk0 M W i) ! w_slot i 0 = sched_word M n" by (simp only: x(1) s0) (simp add: len x(2))
qed

lemma R_step:
  assumes "win M n W" "ring n T v" "length M = 16" "n < 64" "n = i + j" "i < 16" "j mod 16 = 0"
  shows "\<exists>T' W'. sha_R M j i (T, W) = (T', W') \<and> win M (Suc n) W' \<and>
           ring (Suc n) T' (fips_round (sha_K ! n, sched_word M n) v)"
proof -
  define W1 where "W1 = (if j \<noteq> 0 then blk2 W i else blk0 M W i)"
  have W1: "win M (Suc n) W1" "W1 ! w_slot i 0 = sched_word M n"
    using win_step[OF assms(1,3,4,5,6,7)] by (simp_all only: W1_def)
  have "j mod 8 = 0" using assms(7) by presburger
  then have slot: "t_slot k i = t_slot k n" for k using t_slot_facts(5)[of j k i] assms(5) by (simp add: add.commute)
  show ?thesis
    unfolding sha_R_def prod.case Let_def W1_def[symmetric] slot W1(2) sha_functions assms(5)[symmetric]
    using W1(1) ring_step[OF assms(2), of "sha_K ! n" "sched_word M n"] by (simp only: Let_def prod.inject) blast
qed

definition at_round :: "word32 list \<Rightarrow> word32 list \<Rightarrow> nat \<Rightarrow> word32 list \<times> word32 list \<Rightarrow> bool" where
  "at_round M st n TW \<longleftrightarrow> win M n (snd TW) \<and>
     ring n (fst TW) (fold fips_round (map (\<lambda>t. (sha_K ! t, sched_word M t)) [0..<n]) st)"

lemma at_round_Suc:
  assumes "at_round M st (i + j) TW" "length M = 16" "i + j < 64" "i < 16" "j mod 16 = 0"
  shows "at_round M st (Suc i + j) (sha_R M j i TW)"
proof -
  obtain T W where TW: "TW = (T, W)" by (cases TW)
  have "win M (i + j) W" "ring (i + j) T (fold fips_round (map (\<lambda>t. (sha_K ! t, sched_word M t)) [0..<i + j]) st)"
    using assms(1) by (simp_all only: at_round_def TW fst_conv snd_conv)
  from R_step[OF this assms(2,3) refl assms(4,5)] obtain T' W'
    where "sha_R M j i (T, W) = (T', W')" "win M (Suc (i + j)) W'"
      "ring (Suc (i + j)) T' (fips_round (sha_K ! (i + j), sched_word M (i + j))
         (fold fips_round (map (\<lambda>t. (sha_K ! t, sched_word M t)) [0..<i + j]) st))"
    by (elim exE conjE) (rule that, assumption+)
  then show ?thesis by (simp add: at_round_def TW)
qed

lemma at_round_inner:
  assumes "at_round M st j TW" "length M = 16" "j \<le> 48" "j mod 16 = 0" "i \<le> 16"
  shows "at_round M st (i + j) (fold (sha_R M j) [0..<i] TW)"
  using assms(5)
proof (induction i)
  case (Suc i)
  then show ?case using at_round_Suc[OF Suc.IH assms(2) _ _ assms(4)] assms(3) by simp
qed (use assms(1) in simp)

lemma Transform_ok:
  assumes "length M = 16" "length st = 8" "length W0 = 16"
  shows "sha_Transform W0 st M = fips_compress st M"
proof -
  have st: "t_slot k 0 = k" if "k < 8" for k using that by (simp add: t_slot_def)
  have "at_round M st 0 (st, W0)" using assms by (simp add: at_round_def win_def ring_def st)
  from at_round_inner[OF this assms(1), of 16] have 1: "at_round M st 16 (fold (sha_R M 0) [0..<16] (st, W0))"
    by simp
  from at_round_inner[OF 1 assms(1), of 16]
  have 2: "at_round M st 32 (fold (sha_R M 16) [0..<16] (fold (sha_R M 0) [0..<16] (st, W0)))" by simp
  from at_round_inner[OF 2 assms(1), of 16]
  have 3: "at_round M st 48 (fold (sha_R M 32) [0..<16] (fold (sha_R M 16) [0..<16] (fold (sha_R M 0) [0..<16] (st, W0))))" by simp
  define TW where "TW = fold (\<lambda>j. fold (sha_R M j) [0..<16]) [0, 16, 32, 48] (st, W0)"
  from at_round_inner[OF 3 assms(1), of 16] have "at_round M st 64 TW" by (simp add: TW_def)
  moreover have "zip sha_K (schedule M 48) = map (\<lambda>t. (sha_K ! t, sched_word M t)) [0..<64]"
    by (rule nth_equalityI) (simp_all add: sha_K_def assms(1) sched_word_def)
  ultimately have "ring 64 (fst TW) (fold fips_round (zip sha_K (schedule M 48)) st)" by (simp add: at_round_def)
  moreover have "t_slot k 64 = k" if "k < 8" for k using st[OF that] t_slot_facts(5)[of 64 k 0] by simp
  ultimately have "fst TW = fold fips_round (zip sha_K (schedule M 48)) st" by (auto simp: ring_def intro: nth_equalityI)
  then show ?thesis unfolding sha_Transform_def TW_def[symmetric] by (simp add: fips_compress_def split_beta)
qed

section \<open>Blocks and padding\<close>

text \<open>A fresh or running object: its state after the complete blocks of \<open>m\<close>, the rest of \<open>m\<close> at the
  start of the buffer and the number of bytes of \<open>m\<close> in the counter.\<close>

definition absorb :: "byte list \<Rightarrow> word32 list \<Rightarrow> word32 list" where
  "absorb m st = fold (\<lambda>block H. fips_compress H (fips_words block)) (chunks 64 m) st"

lemma chunks_step: "xs \<noteq> [] \<Longrightarrow> 0 < n \<Longrightarrow> chunks n xs = take n xs # chunks n (drop n xs)"
  by (cases xs) auto

lemma chunks_append: "n dvd length xs \<Longrightarrow> 0 < n \<Longrightarrow> chunks n (xs @ ys) = chunks n xs @ chunks n ys"
proof (induction "length xs" arbitrary: xs rule: less_induct)
  case less
  show ?case
  proof (cases "xs = []")
    case False
    then have "n \<le> length xs" using less.prems by (auto intro: dvd_imp_le)
    moreover from this have "n dvd length (drop n xs)" using less.prems by simp
    ultimately have "chunks n (drop n xs @ ys) = chunks n (drop n xs) @ chunks n ys"
      using less.hyps[of "drop n xs"] less.prems False by simp
    then show ?thesis using \<open>n \<le> length xs\<close> False less.prems by (simp add: chunks_step)
  qed simp
qed

lemma chunks_one: "length xs = n \<Longrightarrow> 0 < n \<Longrightarrow> chunks n xs = [xs]"
  by (cases xs) auto

lemma absorb_append: "64 dvd length xs \<Longrightarrow> absorb (xs @ ys) st = absorb ys (absorb xs st)"
  by (simp add: absorb_def chunks_append)

lemma absorb_block: "length b = 64 \<Longrightarrow> absorb b st = fips_compress st (fips_words b)"
  by (simp add: absorb_def chunks_one)

lemma compress_length [simp]: "length (fips_compress st M) = length st"
proof -
  have r: "length (fips_round kw v) = length v" for kw v by (cases "(kw, v)" rule: fips_round.cases) (auto simp: Let_def)
  have "length (fold fips_round ks st) = length st" for ks st by (induction ks arbitrary: st) (simp_all add: r)
  then show ?thesis by (simp add: fips_compress_def)
qed

lemma chunks_nth:
  "length xs = 4 * m \<Longrightarrow> length (chunks 4 xs) = m \<and>
     (\<forall>i<m. chunks 4 xs ! i = [xs ! (i * 4), xs ! (i * 4 + 1), xs ! (i * 4 + 2), xs ! (i * 4 + 3)])"
proof (induction m arbitrary: xs)
  case (Suc m)
  then have "length xs = Suc (Suc (Suc (Suc (4 * m))))" by simp
  then obtain a b c d ys where xs: "xs = a # b # c # d # ys" "length ys = 4 * m"
    by (auto simp: length_Suc_conv)
  have IH: "length (chunks 4 ys) = m"
    "i < m \<Longrightarrow> chunks 4 ys ! i = [ys ! (i * 4), ys ! (i * 4 + 1), ys ! (i * 4 + 2), ys ! (i * 4 + 3)]" for i
    using Suc.IH[OF xs(2)] by blast+
  have c: "chunks 4 xs = [a, b, c, d] # chunks 4 ys" by (simp add: xs(1))
  show ?case
  proof (intro conjI allI impI)
    fix i
    assume "i < Suc m"
    then show "chunks 4 xs ! i = [xs ! (i * 4), xs ! (i * 4 + 1), xs ! (i * 4 + 2), xs ! (i * 4 + 3)]"
      using IH(2) by (cases i) (simp_all add: c xs(1) numeral_eq_Suc)
  qed (simp add: c IH(1))
qed simp

lemma block_words:
  assumes "length buf = 64"
  shows "map (\<lambda>i. push_bit 24 (ucast (buf ! (i * 4))) + push_bit 16 (ucast (buf ! (i * 4 + 1)))
      + push_bit 8 (ucast (buf ! (i * 4 + 2))) + ucast (buf ! (i * 4 + 3))) [0..<16] = fips_words buf"
proof (rule nth_equalityI)
  show "length (map (\<lambda>i. push_bit 24 (ucast (buf ! (i * 4))) + push_bit 16 (ucast (buf ! (i * 4 + 1)))
      + push_bit 8 (ucast (buf ! (i * 4 + 2))) + ucast (buf ! (i * 4 + 3))) [0..<16]) = length (fips_words buf)"
    using chunks_nth[of buf 16] assms by (simp add: fips_words_def)
  fix i :: nat
  assume "i < length (map (\<lambda>i. push_bit 24 (ucast (buf ! (i * 4))) + push_bit 16 (ucast (buf ! (i * 4 + 1)))
      + push_bit 8 (ucast (buf ! (i * 4 + 2))) + ucast (buf ! (i * 4 + 3)) :: word32) [0..<16])"
  then have i: "i < 16" by simp
  show "map (\<lambda>i. push_bit 24 (ucast (buf ! (i * 4))) + push_bit 16 (ucast (buf ! (i * 4 + 1)))
      + push_bit 8 (ucast (buf ! (i * 4 + 2))) + ucast (buf ! (i * 4 + 3))) [0..<16] ! i = fips_words buf ! i"
    using chunks_nth[of buf 16] assms i
    by (simp add: fips_words_def be_value_def push_bit_eq_mult unsigned_ucast_eq algebra_simps)
qed

section \<open>The buffer\<close>

text \<open>\<open>filled p done rest\<close>: the blocks of \<open>done\<close> are absorbed, \<open>rest\<close> stands at the start of the buffer.\<close>

definition filled :: "sha \<Rightarrow> byte list \<Rightarrow> byte list \<Rightarrow> bool" where
  "filled p done rest \<longleftrightarrow> 64 dvd length done \<and> length rest \<le> 64 \<and> length (sbuffer p) = 64 \<and>
     take (length rest) (sbuffer p) = rest \<and> sstate p = absorb done fips_H0"

lemma absorb_length [simp]: "length (absorb m st) = length st"
proof -
  have "length (fold (\<lambda>block H. fips_compress H (fips_words block)) bs st) = length st" for bs
    by (induction bs arbitrary: st) simp_all
  then show ?thesis by (simp add: absorb_def)
qed

lemma filled_put:
  assumes "filled p done rest" "length rest < 64"
  shows "filled (p\<lparr>sbuffer := (sbuffer p)[length rest := x], scount := n\<rparr>) done (rest @ [x])"
    "filled (p\<lparr>sbuffer := (sbuffer p)[length rest := x]\<rparr>) done (rest @ [x])"
  using assms by (auto simp: filled_def take_Suc_conv_app_nth)

lemma filled_flush:
  assumes "filled p done rest" "length rest = 64" "length W0 = 16"
  shows "filled (sha_WriteByteBlock W0 p) (done @ rest) []" "scount (sha_WriteByteBlock W0 p) = scount p"
proof -
  have b: "sbuffer p = rest" "length (sbuffer p) = 64" using assms by (auto simp: filled_def)
  have w: "length (fips_words rest) = 16" using chunks_nth[of rest 16] assms(2) by (simp add: fips_words_def)
  have st: "sstate p = absorb done fips_H0" "64 dvd length done" using assms(1) by (simp_all add: filled_def)
  have "sstate (sha_WriteByteBlock W0 p) = sha_Transform W0 (sstate p) (fips_words rest)"
    unfolding sha_WriteByteBlock_def Let_def block_words[OF b(2)] by (simp add: b(1))
  also have "\<dots> = absorb (done @ rest) fips_H0"
    using Transform_ok[OF w _ assms(3)] st assms(2) by (simp add: absorb_append absorb_block fips_H0_def)
  finally show "filled (sha_WriteByteBlock W0 p) (done @ rest) []"
    using st(2) assms(2) b by (simp add: filled_def sha_WriteByteBlock_def)
qed (simp add: sha_WriteByteBlock_def)

lemma update_loop_ok:
  assumes "filled p done rest" "length rest < 64" "length W0 = 16"
  shows "\<exists>done' rest'. filled (update_loop W0 data p (length rest)) done' rest' \<and> length rest' < 64 \<and>
    done' @ rest' = done @ rest @ data \<and>
    scount (update_loop W0 data p (length rest)) = scount p + of_nat (length data)"
  using assms(1,2)
proof (induction data arbitrary: p "done" rest)
  case Nil
  then show ?case by auto
next
  case (Cons x data)
  let ?p = "p\<lparr>sbuffer := (sbuffer p)[length rest := x], scount := scount p + 1\<rparr>"
  have put: "filled ?p done (rest @ [x])" by (rule filled_put(1)[OF Cons.prems])
  show ?case
  proof (cases "length rest + 1 = 64")
    case True
    then have full: "length (rest @ [x]) = 64" by simp
    note flush = filled_flush[OF put full assms(3)]
    from Cons.IH[OF flush(1)] obtain done' rest' where
      "filled (update_loop W0 data (sha_WriteByteBlock W0 ?p) 0) done' rest'" "length rest' < 64"
      "done' @ rest' = (done @ rest @ [x]) @ data"
      "scount (update_loop W0 data (sha_WriteByteBlock W0 ?p) 0) = scount p + 1 + of_nat (length data)"
      unfolding flush(2) by auto
    then show ?thesis using True by (intro exI[of _ done'] exI[of _ rest']) (simp add: Let_def add.assoc)
  next
    case False
    then have "length (rest @ [x]) < 64" using Cons.prems(2) by simp
    from Cons.IH[OF put this] show ?thesis using False by (simp add: Let_def add.assoc)
  qed
qed

lemma pad_bound:
  assumes "64 dvd a" "64 dvd b" "a + 56 = b + r + 1 + z" "z < (64 :: nat)" "0 < r" "r \<le> 64" "r \<noteq> 56"
  shows "Suc z < 64"
proof (rule ccontr)
  assume "\<not> Suc z < 64"
  then have "a + 56 = r + (b + 64)" using assms(3,4) by simp
  moreover have "(a + 56) mod 64 = 56" using assms(1) by (auto elim: dvdE)
  moreover obtain k where "b = 64 * k" using assms(2) by (rule dvdE)
  then have "r + (b + 64) = r + 64 * Suc k" by simp
  then have "(r + (b + 64)) mod 64 = r mod 64" by (simp only: mod_mult_self2)
  ultimately have "r mod 64 = 56" by metis
  then show False using assms(5,6,7) by (cases "r = 64") simp_all
qed

lemma pad_loop_ok:
  assumes "filled p done rest" "0 < length rest" "length W0 = 16"
  shows "\<exists>p' done' rest' z. pad_loop W0 p (length rest) = (p', 56) \<and> filled p' done' rest' \<and> length rest' = 56 \<and>
    done' @ rest' = done @ rest @ replicate z 0 \<and> z < 64 \<and> scount p' = scount p"
  using assms(1,2)
proof (induction "if length rest \<le> 56 then 56 - length rest else 120 - length rest" arbitrary: p "done" rest rule: less_induct)
  case less
  have le: "length rest \<le> 64" using less.prems by (simp add: filled_def)
  consider (stop) "length rest = 56" | (full) "length rest = 64" | (more) "length rest \<noteq> 56" "length rest < 64"
    using le by linarith
  then show ?case
  proof cases
    case stop
    then show ?thesis using less.prems by (intro exI[of _ p] exI[of _ "done"] exI[of _ rest] exI[of _ 0]) (simp add: pad_loop.simps)
  next
    case full
    let ?p = "sha_WriteByteBlock W0 p"
    let ?p1 = "?p\<lparr>sbuffer := (sbuffer ?p)[0 := 0]\<rparr>"
    note flush = filled_flush[OF less.prems(1) full assms(3)]
    have put: "filled ?p1 (done @ rest) [0]" using filled_put(2)[OF flush(1), of 0] by simp
    have "(if length [0 :: byte] \<le> 56 then 56 - length [0 :: byte] else 120 - length [0 :: byte])
        < (if length rest \<le> 56 then 56 - length rest else 120 - length rest)" using full by simp
    from less.hyps[OF this put] obtain p' done' rest' z where
      "pad_loop W0 ?p1 1 = (p', 56)" "filled p' done' rest'" "length rest' = 56"
      "done' @ rest' = (done @ rest) @ [0] @ replicate z 0" "z < 64" "scount p' = scount p"
      using flush(2) by auto
    moreover have "pad_loop W0 p (length rest) = pad_loop W0 ?p1 1"
      using full by (simp add: pad_loop.simps[of W0 p] and_3F Let_def)
    moreover have "Suc z < 64"
    proof -
      have "length done' + 56 = length done + 64 + 1 + z" using arg_cong[OF calculation(4), of length] calculation(3) full by simp
      moreover have "64 dvd length done'" "64 dvd length done"
        using \<open>filled p' done' rest'\<close> less.prems(1) by (simp_all add: filled_def)
      ultimately show ?thesis using pad_bound[of "length done'" "length done" 64 z] \<open>z < 64\<close> by simp
    qed
    ultimately show ?thesis by (intro exI[of _ p'] exI[of _ done'] exI[of _ rest'] exI[of _ "Suc z"]) simp
  next
    case more
    let ?p1 = "p\<lparr>sbuffer := (sbuffer p)[length rest := 0]\<rparr>"
    have put: "filled ?p1 done (rest @ [0])" by (rule filled_put(2)[OF less.prems(1) more(2)])
    have "(if length (rest @ [0]) \<le> 56 then 56 - length (rest @ [0]) else 120 - length (rest @ [0]))
        < (if length rest \<le> 56 then 56 - length rest else 120 - length rest)" using more by auto
    from less.hyps[OF this put] obtain p' done' rest' z where
      "pad_loop W0 ?p1 (length rest + 1) = (p', 56)" "filled p' done' rest'" "length rest' = 56"
      "done' @ rest' = done @ rest @ [0] @ replicate z 0" "z < 64" "scount p' = scount p" by auto
    moreover have "pad_loop W0 p (length rest) = pad_loop W0 ?p1 (length rest + 1)"
      using more less.prems(2) by (simp add: pad_loop.simps[of W0 p] and_3F Let_def)
    moreover have "Suc z < 64"
    proof -
      have "length done' + 56 = length done + length rest + 1 + z" using arg_cong[OF calculation(4), of length] calculation(3) by simp
      moreover have "64 dvd length done'" "64 dvd length done"
        using \<open>filled p' done' rest'\<close> less.prems(1) by (simp_all add: filled_def)
      ultimately show ?thesis
        using pad_bound[of "length done'" "length done" "length rest" z] \<open>z < 64\<close> more less.prems(2) by simp
    qed
    ultimately show ?thesis by (intro exI[of _ p'] exI[of _ done'] exI[of _ rest'] exI[of _ "Suc z"]) simp
  qed
qed

lemma length_loop_ok:
  assumes "filled p done rest" "length rest + n \<le> 64"
  shows "filled (length_loop n bits p (length rest)) done
      (rest @ map (\<lambda>i. ucast (drop_bit 56 (push_bit (8 * i) bits))) [0..<n]) \<and>
    scount (length_loop n bits p (length rest)) = scount p"
  using assms
proof (induction n arbitrary: bits p rest)
  case (Suc n)
  let ?x = "ucast (drop_bit 56 bits) :: byte"
  have "length rest < 64" using Suc.prems(2) by simp
  note put = filled_put(2)[OF Suc.prems(1) this, of ?x]
  have sh: "map (\<lambda>i. ucast (drop_bit 56 (push_bit (8 * i) bits)) :: byte) [0..<Suc n]
      = ?x # map (\<lambda>i. ucast (drop_bit 56 (push_bit (8 * i) (push_bit 8 bits)))) [0..<n]"
    by (simp add: map_upt_Suc add.commute del: upt_Suc)
  from Suc.IH[OF put, of "push_bit 8 bits"] Suc.prems(2) show ?case unfolding sh by simp
qed simp

lemma length_bytes:
  "map (\<lambda>i. ucast (drop_bit 56 (push_bit (8 * i) (push_bit 3 (of_nat n :: 64 word)))) :: byte) [0..<8] = be_bytes 8 (8 * n)"
proof -
  have "ucast (drop_bit 56 (push_bit (8 * i) (push_bit 3 (of_nat n :: 64 word)))) = (of_nat (8 * n div 256 ^ (7 - i)) :: byte)"
    if "i < 8" for i
  proof (rule bit_word_eqI)
    fix k :: nat
    assume k: "k < LENGTH(8)"
    have "8 * n div 256 ^ (7 - i) = drop_bit (8 * (7 - i)) (push_bit 3 n)"
      by (simp add: drop_bit_eq_div push_bit_eq_mult power_mult ac_simps)
    moreover have "k + (56 - 8 * i) = 56 + k - 8 * i" "8 * i \<le> 56" "k < 8" using that k by simp_all
    ultimately show "bit (ucast (drop_bit 56 (push_bit (8 * i) (push_bit 3 (of_nat n :: 64 word)))) :: byte) k
        \<longleftrightarrow> bit (of_nat (8 * n div 256 ^ (7 - i)) :: byte) k"
      using that by (auto simp: bit_simps ac_simps diff_mult_distrib2)
  qed
  then show ?thesis by (simp add: be_bytes_def)
qed

lemma cur_pos_eq: "scount p = of_nat n \<Longrightarrow> cur_pos p = n mod 64"
proof -
  assume "scount p = of_nat n"
  then have "unat (ucast (scount p) :: word32) = take_bit 32 (take_bit 64 n)"
    by (simp add: unsigned_ucast_eq unsigned_of_nat)
  also have "\<dots> = n mod 2 ^ 32" by (simp add: take_bit_eq_mod mod_mod_cancel)
  finally show ?thesis by (simp add: cur_pos_def unsigned_and_eq and_3F mod_mod_cancel)
qed

lemma digest_eq: "length st = 8 \<Longrightarrow> sha_digest st = concat (map (\<lambda>w. be_bytes 4 (unat w)) st)"
proof -
  assume l: "length st = 8"
  have w: "[ucast (drop_bit 24 w), ucast (drop_bit 16 w), ucast (drop_bit 8 w), ucast w] = be_bytes 4 (unat w)"
    for w :: word32
  proof -
    have k: "ucast (drop_bit k w) = (of_nat (unat w div 2 ^ k) :: byte)" for k
      by (simp add: drop_bit_eq_div[symmetric] unat_drop_bit_eq[symmetric])
    have u: "[0..<4] = [0, 1, 2, 3 :: nat]" by (simp add: upt_rec)
    have "be_bytes 4 (unat w) = [of_nat (unat w div 2 ^ 24), of_nat (unat w div 2 ^ 16), of_nat (unat w div 2 ^ 8), of_nat (unat w)]"
      by (simp add: be_bytes_def u)
    then show ?thesis by (simp only: k of_nat_unat)
  qed
  have "sha_digest st = concat (map (\<lambda>i. be_bytes 4 (unat (st ! i))) [0..<8])" by (simp only: sha_digest_def w)
  also have "map (\<lambda>i. be_bytes 4 (unat (st ! i))) [0..<8] = map (\<lambda>w. be_bytes 4 (unat w)) st"
    using l by (intro nth_equalityI) simp_all
  finally show ?thesis .
qed

section \<open>The hash and the HMAC\<close>

text \<open>\<open>sha_on p m\<close>: the object has taken in exactly the bytes \<open>m\<close> since its last reset.\<close>

definition sha_on :: "sha \<Rightarrow> byte list \<Rightarrow> bool" where
  "sha_on p m \<longleftrightarrow> scount p = of_nat (length m) \<and>
     (\<exists>done rest. filled p done rest \<and> length rest < 64 \<and> m = done @ rest)"

lemma filled_length: "filled p done rest \<Longrightarrow> length rest < 64 \<Longrightarrow> length (done @ rest) mod 64 = length rest"
  by (auto simp: filled_def)

lemma sha_reset_on: "length (sbuffer p) = 64 \<Longrightarrow> sha_on (sha_reset p) []"
  by (auto simp: sha_on_def filled_def sha_reset_def fips_H0_def absorb_def)

lemma sha_on_buffer: "sha_on p m \<Longrightarrow> length (sbuffer p) = 64"
  by (auto simp: sha_on_def filled_def)

lemma sha_update_on:
  assumes "sha_on p m" "length W0 = 16"
  shows "sha_on (sha_update W0 data p) (m @ data)"
proof -
  obtain d r where r: "filled p d r" "length r < 64" "m = d @ r" using assms(1) by (auto simp: sha_on_def)
  have "cur_pos p = length r"
    using cur_pos_eq[of p "length m"] assms(1) filled_length[OF r(1,2)] by (simp only: sha_on_def r(3))
  moreover obtain d' r' where "filled (update_loop W0 data p (length r)) d' r'" "length r' < 64" "d' @ r' = m @ data"
    "scount (update_loop W0 data p (length r)) = scount p + of_nat (length data)"
    using update_loop_ok[OF r(1,2) assms(2), of data] r(3) by auto
  moreover from this(3) have "m @ data = d' @ r'" by simp
  moreover have "scount p = of_nat (length m)" using assms(1) by (simp add: sha_on_def)
  ultimately show ?thesis unfolding sha_on_def sha_update_def by (metis length_append of_nat_add)
qed

lemma pad_eq:
  assumes "64 dvd length d" "length r = 56" "d @ r = m @ 0x80 # replicate z 0" "z < 64"
  shows "d @ r @ be_bytes 8 (8 * length m) = fips_pad m"
proof -
  obtain q where q: "length d = 64 * q" using assms(1) by (auto elim: dvdE)
  have l: "64 * q + 55 = length m + z" using arg_cong[OF assms(3), of length] assms(2) q by simp
  have "55 - int (length m) = int z - 64 * int q" using l by linarith
  then have "(55 - int (length m)) mod 64 = (int z - 64 * int q) mod 64" by simp
  also have "\<dots> = int z mod 64" using mod_mult_self2[of "int z" 64 "- int q"] by simp
  finally have "nat ((55 - int (length m)) mod 64) = z" using assms(4) by simp
  then show ?thesis using assms(3) by (simp add: fips_pad_def flip: append_assoc)
qed

lemma sha_finalize_on:
  assumes "sha_on p m" "length W0 = 16"
  shows "\<exists>p'. sha_finalize W0 p = (p', fips_sha256 m) \<and> sha_on p' []"
proof -
  obtain d r where r: "filled p d r" "length r < 64" "m = d @ r" using assms(1) by (auto simp: sha_on_def)
  have pos: "cur_pos p = length r"
    using cur_pos_eq[of p "length m"] assms(1) filled_length[OF r(1,2)] by (simp only: sha_on_def r(3))
  let ?p1 = "p\<lparr>sbuffer := (sbuffer p)[length r := 0x80]\<rparr>"
  have "filled ?p1 d (r @ [0x80])" by (rule filled_put(2)[OF r(1,2)])
  from pad_loop_ok[OF this _ assms(2)] obtain p2 d2 r2 z where
    pad: "pad_loop W0 ?p1 (length r + 1) = (p2, 56)" "filled p2 d2 r2" "length r2 = 56"
    "d2 @ r2 = d @ (r @ [0x80]) @ replicate z 0" "z < 64" "scount p2 = scount p" by auto
  let ?p3 = "length_loop 8 (push_bit 3 (scount p)) p2 56"
  have len: "length r2 + 8 \<le> 64" using pad(3) by simp
  have cnt: "scount p = of_nat (length m)" using assms(1) by (simp add: sha_on_def)
  from length_loop_ok[OF pad(2) len, of "push_bit 3 (scount p)"]
  have p3: "filled ?p3 d2 (r2 @ be_bytes 8 (8 * length m))" unfolding cnt length_bytes pad(3) by simp
  have "length (r2 @ be_bytes 8 (8 * length m)) = 64" using pad(3) by (simp add: be_bytes_def)
  note flush = filled_flush(1)[OF p3 this assms(2)]
  have "64 dvd length d2" "d2 @ r2 = m @ 0x80 # replicate z 0" using pad(2,4) r(3) by (simp_all add: filled_def)
  from flush[unfolded pad_eq[OF this(1) pad(3) this(2) pad(5)]]
  have p4: "filled (sha_WriteByteBlock W0 ?p3) (fips_pad m) []" .
  have "sha_digest (sstate (sha_WriteByteBlock W0 ?p3)) = fips_sha256 m"
    using p4 digest_eq[of "absorb (fips_pad m) fips_H0"]
    by (simp add: filled_def fips_sha256_def absorb_def[symmetric]) (simp add: fips_H0_def)
  moreover have "length (sbuffer (sha_WriteByteBlock W0 ?p3)) = 64" using p4 by (simp add: filled_def)
  ultimately show ?thesis
    using sha_reset_on by (simp add: sha_finalize_def Let_def pos pad(1)[simplified])
qed

lemma sha_updates_on:
  assumes "length W0 = 16"
  shows "sha_on p m \<Longrightarrow> sha_on (fold (sha_update W0) parts p) (m @ concat parts)"
proof (induction parts arbitrary: p m)
  case (Cons a parts)
  from Cons.IH[OF sha_update_on[OF Cons.prems assms, of a]] show ?case by simp
qed simp

lemma digest_length: "length (fips_sha256 m) = 32"
proof -
  have "length (concat (map (\<lambda>w. be_bytes 4 (unat (w :: word32))) st)) = 4 * length st" for st
    by (induction st) (simp_all add: be_bytes_def)
  then show ?thesis using absorb_length[of "fips_pad m" fips_H0]
    by (simp add: fips_sha256_def absorb_def[symmetric]) (simp add: fips_H0_def)
qed

text \<open>\<open>is_root n p r\<close>: \<open>r\<close> is the first 32 bits of the fractional part of the \<open>n\<close>-th root of \<open>p\<close>,
  whose integer part is \<open>i\<close>.\<close>

definition is_root :: "nat \<Rightarrow> nat \<Rightarrow> nat \<Rightarrow> nat \<Rightarrow> bool" where
  "is_root n p i r \<longleftrightarrow> r < 2 ^ 32 \<and> (i * 2 ^ 32 + r) ^ n \<le> p * 2 ^ (32 * n) \<and> p * 2 ^ (32 * n) < (i * 2 ^ 32 + r + 1) ^ n"

definition root_part :: "nat \<Rightarrow> nat \<Rightarrow> nat" where
  "root_part n p = length (filter (\<lambda>i. i ^ n \<le> p) [1, 2, 3, 4, 5, 6, 7])"

definition primes64 :: "nat list" where
  "primes64 = [
    2, 3, 5, 7, 11, 13, 17, 19, 23, 29, 31, 37, 41, 43, 47, 53, 59, 61, 67, 71, 73, 79,
    83, 89, 97, 101, 103, 107, 109, 113, 127, 131, 137, 139, 149, 151, 157, 163, 167, 173,
    179, 181, 191, 193, 197, 199, 211, 223, 227, 229, 233, 239, 241, 251, 257, 263, 269,
    271, 277, 281, 283, 293, 307, 311]"

section \<open>Properties\<close>

text \<open>C11. After a reset, any sequence of \<^verbatim>\<open>update\<close> calls followed by \<^verbatim>\<open>finalize\<close> gives the SHA-256
  of the concatenated data as FIPS 180-4 defines it, whatever the split, the earlier contents of the
  buffer and the uninitialised window; and \<^verbatim>\<open>finalize\<close> leaves the object ready for the next message.\<close>

theorem sha_incremental_correct:
  assumes "length (sbuffer p) = 64" "length W0 = 16"
    and "sha_finalize W0 (fold (sha_update W0) parts (sha_reset p)) = (p1, digest)"
  shows "digest = fips_sha256 (concat parts) \<and> length digest = 32 \<and>
    snd (sha_finalize W0 (fold (sha_update W0) parts' p1)) = fips_sha256 (concat parts')"
proof -
  have "sha_on (fold (sha_update W0) parts (sha_reset p)) (concat parts)"
    using sha_updates_on[OF assms(2) sha_reset_on[OF assms(1)]] by simp
  from sha_finalize_on[OF this assms(2)] have 1: "digest = fips_sha256 (concat parts)" "sha_on p1 []"
    using assms(3) by auto
  have "sha_on (fold (sha_update W0) parts' p1) (concat parts')" using sha_updates_on[OF assms(2) 1(2)] by simp
  from sha_finalize_on[OF this assms(2)] 1(1) show ?thesis by (auto simp: digest_length)
qed

theorem sha_incremental_correct_witness:
  "snd (sha_finalize (replicate 16 0) (fold (sha_update (replicate 16 0)) [[1, 2], [], [3]]
     (sha_reset \<lparr>sstate = [], scount = 7, sbuffer = replicate 64 9\<rparr>))) = fips_sha256 [1, 2, 3]"
proof -
  let ?p = "\<lparr>sstate = [], scount = 7, sbuffer = replicate 64 9\<rparr> :: sha"
  obtain p1 d where r: "sha_finalize (replicate 16 0) (fold (sha_update (replicate 16 0)) [[1, 2], [], [3]] (sha_reset ?p)) = (p1, d)"
    by (rule prod.exhaust)
  have "length (sbuffer ?p) = 64" "length (replicate 16 (0 :: word32)) = 16" by simp_all
  from sha_incremental_correct[OF this r] have "d = fips_sha256 [1, 2, 3]" by simp
  then show ?thesis by (simp only: r snd_conv)
qed

text \<open>C12. \<^verbatim>\<open>hmac\<close>, which uses one object for up to three hashes, is the HMAC of RFC 2104 over
  SHA-256, for keys shorter than, as long as and longer than a block.\<close>

theorem sha_hmac_correct:
  assumes "length (sbuffer p) = 64" "length W0 = 16"
  shows "sha_hmac W0 p key m = rfc_hmac key m"
proof -
  define k where "k = (if length key > 64 then fips_sha256 key else key) @ replicate (64 - length (if length key > 64 then fips_sha256 key else key)) 0"
  have k: "length k = 64" by (simp add: k_def digest_length)
  have on0: "sha_on (sha_reset p) []" by (rule sha_reset_on[OF assms(1)])
  obtain c1 where c1: "(if length key > 64 then (let (c, d) = sha_finalize W0 (sha_update W0 key (sha_reset p)) in (c, d @ replicate 32 0))
      else (sha_reset p, key @ (if length key < 64 then replicate (64 - length key) 0 else []))) = (c1, k)" and on1: "sha_on c1 []"
  proof (cases "length key > 64")
    case True
    from sha_finalize_on[OF sha_update_on[OF on0 assms(2)] assms(2), of key] obtain c where
      "sha_finalize W0 (sha_update W0 key (sha_reset p)) = (c, fips_sha256 key)" "sha_on c []" by auto
    then show ?thesis using True by (intro that[of c]) (simp_all add: k_def digest_length)
  next
    case False
    then show ?thesis using on0 by (intro that[of "sha_reset p"]) (auto simp: k_def)
  qed
  have map_nth_64: "map (\<lambda>i. f (k ! i)) [0..<64] = map f k" for f :: "byte \<Rightarrow> byte"
    using k by (intro nth_equalityI) simp_all
  let ?i = "map (\<lambda>b. b XOR 0x36) k" and ?o = "map (\<lambda>b. b XOR 0x5c) k"
  from sha_finalize_on[OF sha_update_on[OF sha_update_on[OF on1 assms(2)] assms(2)] assms(2), of m ?i] obtain c3 where
    c3: "sha_finalize W0 (sha_update W0 m (sha_update W0 ?i c1)) = (c3, fips_sha256 (?i @ m))" "sha_on c3 []" by auto
  from sha_finalize_on[OF sha_update_on[OF sha_update_on[OF c3(2) assms(2)] assms(2)] assms(2), of "fips_sha256 (?i @ m)" ?o]
  have "snd (sha_finalize W0 (sha_update W0 (fips_sha256 (?i @ m)) (sha_update W0 ?o c3))) = fips_sha256 (?o @ fips_sha256 (?i @ m))"
    by auto
  then have "sha_hmac W0 p key m = fips_sha256 (?o @ fips_sha256 (?i @ m))"
    unfolding sha_hmac_def Let_def[of "sha_reset p"] c1
    by (simp add: map_nth_64[of "\<lambda>b. b XOR 0x36"] map_nth_64[of "\<lambda>b. b XOR 0x5c"] c3(1) Let_def)
  then show ?thesis by (simp add: rfc_hmac_def k_def Let_def)
qed

theorem sha_hmac_correct_witness:
  "sha_hmac (replicate 16 0) \<lparr>sstate = [], scount = 7, sbuffer = replicate 64 9\<rparr> [1] [2, 3] = rfc_hmac [1] [2, 3]"
  by (rule sha_hmac_correct) simp_all

text \<open>The tables of constants are right: \<^verbatim>\<open>K\<close> holds the first 32 bits of the fractional parts of
  the cube roots of the first 64 primes, \<^verbatim>\<open>reset\<close> stores those of the square roots of the first eight.\<close>

theorem sha_constants_correct:
  "list_all2 (\<lambda>p k. is_root 3 p (root_part 3 p) (unat k)) primes64 sha_K \<and>
   list_all2 (\<lambda>p k. is_root 2 p (root_part 2 p) (unat k)) (take 8 primes64) (sstate (sha_reset s))"
proof
  show "list_all2 (\<lambda>p k. is_root 3 p (root_part 3 p) (unat k)) primes64 sha_K"
    unfolding primes64_def sha_K_def list_all2_Cons list_all2_Nil
    by (intro conjI; simp add: is_root_def root_part_def)
  show "list_all2 (\<lambda>p k. is_root 2 p (root_part 2 p) (unat k)) (take 8 primes64) (sstate (sha_reset s))"
    by (simp add: primes64_def sha_reset_def is_root_def root_part_def)
qed

end
