(* ===== verification/Nstd_StringOps.thy ===== *)
theory Nstd_StringOps
  imports Nstd_CString
begin

text \<open>
  The algorithms of \<^verbatim>\<open>String\<close> (include/nstd/String.hpp, src/String.cpp) on the value of a string, the
  bytes \<^verbatim>\<open>data->str[0]\<close> to \<^verbatim>\<open>data->str[data->len - 1]\<close>, which a zero follows: searching, comparing,
  replacing, splitting and joining, trimming, upper and lower case, hexadecimal and base 64. The
  sharing of the bytes between strings is the subject of Nstd\_String. A value \<open>None\<close> of an
  operation that returns an option of a result stands for a read outside the string or a loop that
  does not end, as the comment at the definition says.
\<close>

section \<open>Searching\<close>

fun str_find :: "byte list \<Rightarrow> byte \<Rightarrow> nat option" where
  "str_find [] c = None"
| "str_find (x # s) c = (if x = c then Some 0 else map_option Suc (str_find s c))"

text \<open>The loop counts down from \<^verbatim>\<open>p = data->str + data->len - 1\<close>.\<close>

fun findLast_char_loop :: "byte list \<Rightarrow> byte \<Rightarrow> nat \<Rightarrow> nat option" where
  "findLast_char_loop s c 0 = None"
| "findLast_char_loop s c (Suc p) = (if s ! p = c then Some p else findLast_char_loop s c p)"

definition str_findLast :: "byte list \<Rightarrow> byte \<Rightarrow> nat option" where
  "str_findLast s c = findLast_char_loop s c (length s)"

definition str_find_from :: "byte list \<Rightarrow> byte \<Rightarrow> nat \<Rightarrow> nat option" where
  "str_find_from s c start = (if start \<ge> length s then None else map_option ((+) start) (strchr (drop start s) c))"

definition str_find_str :: "byte list \<Rightarrow> byte list \<Rightarrow> nat option" where
  "str_find_str s str = strstr s str"

definition str_find_str_from :: "byte list \<Rightarrow> byte list \<Rightarrow> nat \<Rightarrow> nat option" where
  "str_find_str_from s str start =
     (if start \<ge> length s then None else map_option ((+) start) (strstr (drop start s) str))"

definition str_findOneOf :: "byte list \<Rightarrow> byte list \<Rightarrow> nat option" where
  "str_findOneOf s chars = strpbrk s chars"

definition str_findOneOf_from :: "byte list \<Rightarrow> byte list \<Rightarrow> nat \<Rightarrow> nat option" where
  "str_findOneOf_from s chars start =
     (if start \<ge> length s then None else map_option ((+) start) (strpbrk (drop start s) chars))"

text \<open>The loops of \<^verbatim>\<open>findLast\<close> and \<^verbatim>\<open>findLastOf\<close> on the C string \<open>s\<close>; a search that would start
  behind the terminator is \<open>None\<close>.\<close>

function findLast_loop ::
    "(byte list \<Rightarrow> nat option) \<Rightarrow> byte list \<Rightarrow> nat option \<Rightarrow> nat option \<Rightarrow> nat option option" where
  "findLast_loop search s result match =
     (case match of
        None \<Rightarrow> Some result
      | Some m \<Rightarrow>
          if m + 1 > length s then None
          else findLast_loop search s (Some m) (map_option ((+) (m + 1)) (search (drop (m + 1) s))))"
  by pat_completeness auto
termination
  by (relation "measure (\<lambda>(_, s, _, match). case match of None \<Rightarrow> 0 | Some m \<Rightarrow> Suc (length s - m))")
     (auto split: option.splits)

declare findLast_loop.simps [simp del]

definition str_findLast_str :: "byte list \<Rightarrow> byte list \<Rightarrow> nat option option" where
  "str_findLast_str s str = findLast_loop (\<lambda>t. strstr t str) (cstr s) None (strstr s str)"

definition str_findLastOf :: "byte list \<Rightarrow> byte list \<Rightarrow> nat option option" where
  "str_findLastOf s chars = findLast_loop (\<lambda>t. strpbrk t chars) (cstr s) None (strpbrk s chars)"

definition str_startsWith :: "byte list \<Rightarrow> byte list \<Rightarrow> bool" where
  "str_startsWith s str \<longleftrightarrow> length s \<ge> length str \<and> take (length str) s = str"

definition str_endsWith :: "byte list \<Rightarrow> byte list \<Rightarrow> bool" where
  "str_endsWith s str \<longleftrightarrow> length s \<ge> length str \<and> drop (length s - length str) s = str"

section \<open>Substrings and tokens\<close>

definition str_substr :: "byte list \<Rightarrow> int \<Rightarrow> int \<Rightarrow> byte list" where
  "str_substr s start len =
     (let start1 = (if start < 0 then (if int (length s) + start < 0 then 0 else int (length s) + start)
                    else if start > int (length s) then int (length s) else start);
          stop = (if len \<ge> 0 then (if start1 + len > int (length s) then int (length s) else start1 + len)
                  else int (length s))
      in take (nat (stop - start1)) (drop (nat start1) s))"

definition str_token :: "byte list \<Rightarrow> byte \<Rightarrow> nat \<Rightarrow> byte list \<times> nat" where
  "str_token s separator start =
     (case str_find_from s separator start of
        Some endStr \<Rightarrow> (let len = endStr - start in (str_substr s (int start) (int len), start + len + 1))
      | None \<Rightarrow> (str_substr s (int start) (- 1), length s))"

definition str_token_of :: "byte list \<Rightarrow> byte list \<Rightarrow> nat \<Rightarrow> byte list \<times> nat" where
  "str_token_of s separators start =
     (case strpbrk (drop start s) separators of
        Some len \<Rightarrow> (str_substr s (int start) (int len), start + len + 1)
      | None \<Rightarrow> (str_substr s (int start) (- 1), length s))"

lemma strpbrk_less: "strpbrk s chars = Some n \<Longrightarrow> n < length s"
  using strpbrk_Some by fastforce

function split_loop :: "byte list \<Rightarrow> byte list \<Rightarrow> bool \<Rightarrow> nat \<Rightarrow> byte list list \<Rightarrow> byte list list" where
  "split_loop s separators skipEmpty p tokens =
     (case strpbrk (drop p s) separators of
        Some len \<Rightarrow>
          if len \<noteq> 0 then split_loop s separators skipEmpty (p + len + 1) (tokens @ [str_substr s (int p) (int len)])
          else split_loop s separators skipEmpty (p + 1) (if \<not> skipEmpty then tokens @ [[]] else tokens)
      | None \<Rightarrow>
          if p < length s then tokens @ [str_substr s (int p) (- 1)]
          else if \<not> skipEmpty then tokens @ [[]] else tokens)"
  by pat_completeness auto
termination
  by (relation "measure (\<lambda>(s, _, _, p, _). length s - p)") (auto dest!: strpbrk_less)

declare split_loop.simps [simp del]

definition str_split :: "byte list \<Rightarrow> byte list \<Rightarrow> bool \<Rightarrow> byte list list" where
  "str_split s separators skipEmpty = split_loop s separators skipEmpty 0 []"

text \<open>The overload for a \<^verbatim>\<open>HashSet\<close>, whose \<^verbatim>\<open>append\<close> leaves the set alone when the token is in it.\<close>

definition set_append :: "byte list list \<Rightarrow> byte list \<Rightarrow> byte list list" where
  "set_append tokens t = (if t \<in> set tokens then tokens else tokens @ [t])"

function split_set_loop :: "byte list \<Rightarrow> byte list \<Rightarrow> bool \<Rightarrow> nat \<Rightarrow> byte list list \<Rightarrow> byte list list" where
  "split_set_loop s separators skipEmpty p tokens =
     (case strpbrk (drop p s) separators of
        Some len \<Rightarrow>
          if len \<noteq> 0 then split_set_loop s separators skipEmpty (p + len + 1) (set_append tokens (str_substr s (int p) (int len)))
          else split_set_loop s separators skipEmpty (p + 1) (if \<not> skipEmpty then set_append tokens [] else tokens)
      | None \<Rightarrow>
          if p < length s then set_append tokens (str_substr s (int p) (- 1))
          else if \<not> skipEmpty then set_append tokens [] else tokens)"
  by pat_completeness auto
termination
  by (relation "measure (\<lambda>(s, _, _, p, _). length s - p)") (auto dest!: strpbrk_less)

declare split_set_loop.simps [simp del]

definition str_split_set :: "byte list \<Rightarrow> byte list \<Rightarrow> bool \<Rightarrow> byte list list" where
  "str_split_set s separators skipEmpty = split_set_loop s separators skipEmpty 0 []"

fun join_loop :: "byte list list \<Rightarrow> byte \<Rightarrow> byte list \<Rightarrow> byte list" where
  "join_loop [] separator r = r"
| "join_loop [t] separator r = r @ t"
| "join_loop (t # u # ts) separator r = join_loop (u # ts) separator (r @ t @ [separator])"

definition str_join :: "byte list list \<Rightarrow> byte \<Rightarrow> byte list" where
  "str_join tokens separator = join_loop tokens separator []"

function trim_first :: "byte list \<Rightarrow> byte list \<Rightarrow> nat \<Rightarrow> nat" where
  "trim_first s chars p =
     (if p < length s \<and> strchr chars (s ! p) \<noteq> None then trim_first s chars (p + 1) else p)"
  by pat_completeness auto
termination
  by (relation "measure (\<lambda>(s, _, p). length s - p)") auto

declare trim_first.simps [simp del]

fun trim_last :: "byte list \<Rightarrow> byte list \<Rightarrow> nat \<Rightarrow> nat \<Rightarrow> nat" where
  "trim_last s chars p 0 = 0"
| "trim_last s chars p (Suc e) =
     (if Suc e > p \<and> strchr chars (s ! Suc e) \<noteq> None then trim_last s chars p e else Suc e)"

definition str_trim :: "byte list \<Rightarrow> byte list \<Rightarrow> byte list" where
  "str_trim s chars =
     (if length s \<noteq> 0 then
        (let p = trim_first s chars 0;
             e = trim_last s chars p (length s - 1) + 1;
             newLen = e - p
         in if newLen \<noteq> length s then str_substr s (int p) (int newLen) else s)
      else s)"

section \<open>Replacing\<close>

fun replace_char_loop :: "byte \<Rightarrow> byte \<Rightarrow> byte list \<Rightarrow> byte list" where
  "replace_char_loop needle replacement [] = []"
| "replace_char_loop needle replacement (x # s) =
     (if x = 0 then x # s
      else (if x = needle then replacement else x) # replace_char_loop needle replacement s)"

text \<open>\<^verbatim>\<open>replace(const String&, const String&)\<close>: \<open>p\<close> and \<open>match\<close> are offsets. \<open>None\<close> is a loop that does
  not end, or a needle with a zero inside that takes \<open>p\<close> behind the string.\<close>

partial_function (option) replace_loop ::
    "byte list \<Rightarrow> byte list \<Rightarrow> byte list \<Rightarrow> nat \<Rightarrow> nat \<Rightarrow> byte list \<Rightarrow> byte list option" where
  "replace_loop s needle replacement p match result =
     (let result1 = result @ take (match - p) (drop p s) @ replacement;
          p1 = match + length needle
      in if p1 > length s then None
         else case strstr (drop p1 s) needle of
                None \<Rightarrow> Some (result1 @ drop p1 s)
              | Some m \<Rightarrow> replace_loop s needle replacement p1 (p1 + m) result1)"

definition str_replace :: "byte list \<Rightarrow> byte list \<Rightarrow> byte list \<Rightarrow> byte list option" where
  "str_replace s needle replacement =
     (case strstr s needle of
        None \<Rightarrow> Some s
      | Some match \<Rightarrow> replace_loop s needle replacement 0 match [])"

section \<open>Comparing\<close>

text \<open>\<^verbatim>\<open>*p\<close>: the character under the pointer, the zero at the end of the string.\<close>

definition at0 :: "byte list \<Rightarrow> byte" where
  "at0 s = (case s of [] \<Rightarrow> 0 | c # _ \<Rightarrow> c)"

function c_compare :: "byte list \<Rightarrow> byte list \<Rightarrow> int" where
  "c_compare s1 s2 =
     (if at0 s1 = at0 s2 then (if at0 s1 = 0 then 0 else c_compare (tl s1) (tl s2))
      else uint (at0 s1) - uint (at0 s2))"
  by pat_completeness auto
termination
  by (relation "measure (length \<circ> fst)") (auto simp: at0_def split: list.splits)

declare c_compare.simps [simp del]

fun c_compare_n :: "byte list \<Rightarrow> byte list \<Rightarrow> nat \<Rightarrow> int" where
  "c_compare_n s1 s2 0 = 0"
| "c_compare_n s1 s2 (Suc n) =
     (if at0 s1 = 0 \<or> at0 s1 \<noteq> at0 s2 then uint (at0 s1) - uint (at0 s2) else c_compare_n (tl s1) (tl s2) n)"

definition lowerCaseMap :: "byte list" where
  "lowerCaseMap = [
     0, 1, 2, 3, 4, 5, 6, 7, 8, 9, 10, 11, 12, 13, 14, 15,
     16, 17, 18, 19, 20, 21, 22, 23, 24, 25, 26, 27, 28, 29, 30, 31,
     32, 33, 34, 35, 36, 37, 38, 39, 40, 41, 42, 43, 44, 45, 46, 47,
     48, 49, 50, 51, 52, 53, 54, 55, 56, 57, 58, 59, 60, 61, 62, 63,
     64, 97, 98, 99, 100, 101, 102, 103, 104, 105, 106, 107, 108, 109, 110, 111,
     112, 113, 114, 115, 116, 117, 118, 119, 120, 121, 122, 91, 92, 93, 94, 95,
     96, 97, 98, 99, 100, 101, 102, 103, 104, 105, 106, 107, 108, 109, 110, 111,
     112, 113, 114, 115, 116, 117, 118, 119, 120, 121, 122, 123, 124, 125, 126, 127,
     128, 129, 130, 131, 132, 133, 134, 135, 136, 137, 138, 139, 140, 141, 142, 143,
     144, 145, 146, 147, 148, 149, 150, 151, 152, 153, 154, 155, 156, 157, 158, 159,
     160, 161, 162, 163, 164, 165, 166, 167, 168, 169, 170, 171, 172, 173, 174, 175,
     176, 177, 178, 179, 180, 181, 182, 183, 184, 185, 186, 187, 188, 189, 190, 191,
     192, 193, 194, 195, 196, 197, 198, 199, 200, 201, 202, 203, 204, 205, 206, 207,
     208, 209, 210, 211, 212, 213, 214, 215, 216, 217, 218, 219, 220, 221, 222, 223,
     224, 225, 226, 227, 228, 229, 230, 231, 232, 233, 234, 235, 236, 237, 238, 239,
     240, 241, 242, 243, 244, 245, 246, 247, 248, 249, 250, 251, 252, 253, 254, 255]"

definition upperCaseMap :: "byte list" where
  "upperCaseMap = [
     0, 1, 2, 3, 4, 5, 6, 7, 8, 9, 10, 11, 12, 13, 14, 15,
     16, 17, 18, 19, 20, 21, 22, 23, 24, 25, 26, 27, 28, 29, 30, 31,
     32, 33, 34, 35, 36, 37, 38, 39, 40, 41, 42, 43, 44, 45, 46, 47,
     48, 49, 50, 51, 52, 53, 54, 55, 56, 57, 58, 59, 60, 61, 62, 63,
     64, 65, 66, 67, 68, 69, 70, 71, 72, 73, 74, 75, 76, 77, 78, 79,
     80, 81, 82, 83, 84, 85, 86, 87, 88, 89, 90, 91, 92, 93, 94, 95,
     96, 65, 66, 67, 68, 69, 70, 71, 72, 73, 74, 75, 76, 77, 78, 79,
     80, 81, 82, 83, 84, 85, 86, 87, 88, 89, 90, 123, 124, 125, 126, 127,
     128, 129, 130, 131, 132, 133, 134, 135, 136, 137, 138, 139, 140, 141, 142, 143,
     144, 145, 146, 147, 148, 149, 150, 151, 152, 153, 154, 155, 156, 157, 158, 159,
     160, 161, 162, 163, 164, 165, 166, 167, 168, 169, 170, 171, 172, 173, 174, 175,
     176, 177, 178, 179, 180, 181, 182, 183, 184, 185, 186, 187, 188, 189, 190, 191,
     192, 193, 194, 195, 196, 197, 198, 199, 200, 201, 202, 203, 204, 205, 206, 207,
     208, 209, 210, 211, 212, 213, 214, 215, 216, 217, 218, 219, 220, 221, 222, 223,
     224, 225, 226, 227, 228, 229, 230, 231, 232, 233, 234, 235, 236, 237, 238, 239,
     240, 241, 242, 243, 244, 245, 246, 247, 248, 249, 250, 251, 252, 253, 254, 255]"

definition c_toLowerCase :: "byte \<Rightarrow> byte" where
  "c_toLowerCase c = lowerCaseMap ! unat c"

definition c_toUpperCase :: "byte \<Rightarrow> byte" where
  "c_toUpperCase c = upperCaseMap ! unat c"

text \<open>The difference is that of the two lower case characters \<^verbatim>\<open>c1\<close> and \<^verbatim>\<open>c2\<close>.\<close>

function c_compareIgnoreCase :: "byte list \<Rightarrow> byte list \<Rightarrow> int" where
  "c_compareIgnoreCase s1 s2 =
     (let c1 = c_toLowerCase (at0 s1); c2 = c_toLowerCase (at0 s2)
      in if c1 = c2 then (if at0 s1 = 0 then 0 else c_compareIgnoreCase (tl s1) (tl s2))
         else uint c1 - uint c2)"
  by pat_completeness auto
termination
  by (relation "measure (length \<circ> fst)") (auto simp: at0_def split: list.splits)

declare c_compareIgnoreCase.simps [simp del]

fun c_compareIgnoreCase_n :: "byte list \<Rightarrow> byte list \<Rightarrow> nat \<Rightarrow> int" where
  "c_compareIgnoreCase_n s1 s2 0 = 0"
| "c_compareIgnoreCase_n s1 s2 (Suc n) =
     (let c1 = c_toLowerCase (at0 s1); c2 = c_toLowerCase (at0 s2)
      in if c1 \<noteq> c2 \<or> at0 s1 = 0 then uint c1 - uint c2
         else c_compareIgnoreCase_n (tl s1) (tl s2) n)"

text \<open>The members, which run the same loops on \<^verbatim>\<open>*this\<close> and \<^verbatim>\<open>other\<close>.\<close>

definition str_compare :: "byte list \<Rightarrow> byte list \<Rightarrow> int" where
  "str_compare s other = c_compare s other"

definition str_compare_n :: "byte list \<Rightarrow> byte list \<Rightarrow> nat \<Rightarrow> int" where
  "str_compare_n s other len = c_compare_n s other len"

definition str_compareIgnoreCase :: "byte list \<Rightarrow> byte list \<Rightarrow> int" where
  "str_compareIgnoreCase s other = c_compareIgnoreCase s other"

definition str_compareIgnoreCase_n :: "byte list \<Rightarrow> byte list \<Rightarrow> nat \<Rightarrow> int" where
  "str_compareIgnoreCase_n s other len = c_compareIgnoreCase_n s other len"

definition str_equalsIgnoreCase :: "byte list \<Rightarrow> byte list \<Rightarrow> bool" where
  "str_equalsIgnoreCase s1 s2 \<longleftrightarrow> length s1 = length s2 \<and> str_compareIgnoreCase s1 s2 = 0"

fun map_until_nul :: "(byte \<Rightarrow> byte) \<Rightarrow> byte list \<Rightarrow> byte list" where
  "map_until_nul f [] = []"
| "map_until_nul f (x # s) = (if x = 0 then x # s else f x # map_until_nul f s)"

definition str_toLowerCase :: "byte list \<Rightarrow> byte list" where
  "str_toLowerCase s = map_until_nul (\<lambda>c. lowerCaseMap ! unat c) s"

definition str_toUpperCase :: "byte list \<Rightarrow> byte list" where
  "str_toUpperCase s = map_until_nul (\<lambda>c. upperCaseMap ! unat c) s"

definition c_isSpace :: "byte \<Rightarrow> bool" where
  "c_isSpace c \<longleftrightarrow> (sint c \<ge> 9 \<and> sint c \<le> 13) \<or> sint c = 32"

text \<open>\<^verbatim>\<open>length(const char*)\<close> and the static searches walk to the terminator.\<close>

fun c_length :: "byte list \<Rightarrow> nat" where
  "c_length [] = 0"
| "c_length (x # s) = (if x \<noteq> 0 then Suc (c_length s) else 0)"

fun c_find :: "byte list \<Rightarrow> byte \<Rightarrow> nat option" where
  "c_find [] c = None"
| "c_find (x # s) c = (if x = 0 then None else if x = c then Some 0 else map_option Suc (c_find s c))"

fun c_findLast_loop :: "byte list \<Rightarrow> byte \<Rightarrow> nat \<Rightarrow> nat option \<Rightarrow> nat option" where
  "c_findLast_loop [] c i found = found"
| "c_findLast_loop (x # s) c i found =
     (if x = 0 then found else c_findLast_loop s c (Suc i) (if x = c then Some i else found))"

definition str_toBool :: "byte list \<Rightarrow> bool" where
  "str_toBool s =
     (if length s = 0 \<or> str_equalsIgnoreCase s (lit ''false'') \<or> s = lit ''0'' then False
      else let p = length (takeWhile (\<lambda>c. c = of_char CHR ''0'') s) in
        if at0 (drop p s) = of_char CHR ''.'' then
          (let q = p + 1 + length (takeWhile (\<lambda>c. c = of_char CHR ''0'') (drop (p + 1) s))
           in \<not> (at0 (drop q s) = 0 \<and> (s ! (q - 1) = of_char CHR ''0'' \<or> s ! 0 = of_char CHR ''0'')))
        else True)"

text \<open>\<^verbatim>\<open>hash(const String&)\<close>: the characters are signed and the sum is kept in 64 bits.\<close>

definition str_hash :: "byte list \<Rightarrow> 64 word" where
  "str_hash s =
     (let len = length s;
          h1 = (of_nat len * 16807) XOR scast (at0 s);
          h2 = (h1 * 16807) XOR scast (at0 (drop (len div 2) s))
      in (h2 * 16807) XOR scast (at0 (drop (len - (if len \<noteq> 0 then 1 else 0)) s)))"

section \<open>Hexadecimal and base 64\<close>

definition hex_digits :: "byte list" where
  "hex_digits = lit ''0123456789ABCDEF''"

fun str_fromHex :: "byte list \<Rightarrow> byte list" where
  "str_fromHex [] = []"
| "str_fromHex (b # data) =
     hex_digits ! unat (drop_bit 4 b) # hex_digits ! unat (b AND 0xF) # str_fromHex data"

definition base64de :: "byte list" where
  "base64de = [
     255, 255, 255, 255, 255, 255, 255, 255, 255, 255, 255, 255, 255, 255, 255, 255,
     255, 255, 255, 255, 255, 255, 255, 255, 255, 255, 255, 255, 255, 255, 255, 255,
     255, 255, 255, 255, 255, 255, 255, 255, 255, 255, 255, 62, 255, 255, 255, 63,
     52, 53, 54, 55, 56, 57, 58, 59, 60, 61, 255, 255, 255, 255, 255, 255,
     255, 0, 1, 2, 3, 4, 5, 6, 7, 8, 9, 10, 11, 12, 13, 14,
     15, 16, 17, 18, 19, 20, 21, 22, 23, 24, 25, 255, 255, 255, 255, 255,
     255, 26, 27, 28, 29, 30, 31, 32, 33, 34, 35, 36, 37, 38, 39, 40,
     41, 42, 43, 44, 45, 46, 47, 48, 49, 50, 51]"

text \<open>The loop of \<^verbatim>\<open>fromBase64\<close>: \<open>i\<close> counts the characters read, \<open>j\<close> the bytes written, \<open>out\<close> is the
  buffer. The result is the number of bytes, \<open>Some None\<close> for an invalid character, and \<open>None\<close> for a
  read behind the end of the table \<^verbatim>\<open>base64de\<close>, which has an entry for every character up to \<^verbatim>\<open>'z'\<close>, and for
  a write behind the end of the buffer.\<close>

fun base64_loop :: "byte list \<Rightarrow> nat \<Rightarrow> nat \<Rightarrow> byte list \<Rightarrow> (nat \<times> byte list) option option" where
  "base64_loop [] i j out = Some (Some (j, out))"
| "base64_loop (x # s) i j out =
     (if sint x > sint (of_char CHR ''z'' :: byte) then Some None
      else if unat x \<ge> length base64de then None
      else
        let c = base64de ! unat x in
        if c = 255 then (if x = of_char CHR ''='' then Some (Some (j, out)) else Some None)
        else if i mod 4 = 0 then
          (if j < length out then base64_loop s (i + 1) j (out[j := push_bit 2 c AND 0xFF]) else None)
        else if i mod 4 = 1 then
          (if j + 1 < length out then
             (let out1 = out[j := out ! j OR (drop_bit 4 c AND 0x3)]
              in base64_loop s (i + 1) (j + 1) (out1[j + 1 := push_bit 4 (c AND 0xF)]))
           else None)
        else if i mod 4 = 2 then
          (if j + 1 < length out then
             (let out1 = out[j := out ! j OR (drop_bit 2 c AND 0xF)]
              in base64_loop s (i + 1) (j + 1) (out1[j + 1 := push_bit 6 (c AND 0x3)]))
           else None)
        else (if j < length out then base64_loop s (i + 1) (j + 1) (out[j := out ! j OR c]) else None))"

declare base64_loop.simps(2) [simp del]

definition str_fromBase64 :: "byte list \<Rightarrow> byte list \<Rightarrow> byte list option" where
  "str_fromBase64 fresh s =
     (if length s AND 3 \<noteq> 0 then Some []
      else if fresh = [] then None
      else case base64_loop s 0 0 (fresh[0 := 0]) of
             None \<Rightarrow> None
           | Some None \<Rightarrow> Some []
           | Some (Some (j, out)) \<Rightarrow> Some (take j out))"

end
