(* ===== verification/Nstd_StringProps.thy ===== *)
theory Nstd_StringProps
  imports Nstd_StringOps "HOL-Library.List_Lexorder"
begin

text \<open>
  What the algorithms of Nstd\_StringOps compute: splitting and joining are inverse to each other,
  replacing is the textual replacement from left to right, comparing is the lexicographic order,
  trimming strips both ends, the last match is the last one, base 64 decodes what RFC 4648 encodes.
\<close>

section \<open>Substrings\<close>

lemma substr_from: "str_substr s (int n) (- 1) = drop n s"
  by (auto simp: str_substr_def Let_def)

lemma substr_within: "str_substr s (int n) (int m) = take m (drop n s)"
proof (cases "n + m \<le> length s")
  case True
  then have "\<not> int n + int m > int (length s)" "\<not> int n > int (length s)" by linarith+
  then show ?thesis by (simp add: str_substr_def Let_def)
next
  case False
  then have "int n + int m > int (length s)" by linarith
  then show ?thesis using False by (auto simp: str_substr_def Let_def nat_diff_distrib)
qed

section \<open>Splitting and joining\<close>

text \<open>The fields of a string between the characters that satisfy \<open>P\<close>.\<close>

fun fields :: "('a \<Rightarrow> bool) \<Rightarrow> 'a list \<Rightarrow> 'a list list" where
  "fields P [] = [[]]"
| "fields P (x # s) = (if P x then [] # fields P s else (x # hd (fields P s)) # tl (fields P s))"

lemma fields_nonempty [simp]: "fields P s \<noteq> []"
  by (cases s) auto

lemma fields_field: "\<forall>c\<in>set u. \<not> P c \<Longrightarrow> fields P u = [u]"
  by (induction u) auto

lemma fields_cut: "\<forall>c\<in>set u. \<not> P c \<Longrightarrow> P x \<Longrightarrow> fields P (u @ x # v) = u # fields P v"
  by (induction u) auto

lemma fields_no: "\<forall>t\<in>set (fields P s). \<forall>c\<in>set t. \<not> P c"
proof (induction s)
  case (Cons x s)
  obtain f fs where "fields P s = f # fs" by (cases "fields P s") simp_all
  then show ?case using Cons.IH by simp
qed simp

definition is_sep :: "byte list \<Rightarrow> byte \<Rightarrow> bool" where
  "is_sep separators c \<longleftrightarrow> c \<in> set (cstr separators)"

lemma strpbrk_cases:
  assumes "0 \<notin> set s"
  obtains "strpbrk s seps = None" "\<forall>c\<in>set s. \<not> is_sep seps c"
  | u x v where "strpbrk s seps = Some (length u)" "s = u @ x # v" "is_sep seps x" "\<forall>c\<in>set u. \<not> is_sep seps c"
proof (cases "strpbrk s seps")
  case None
  then show ?thesis using that(1) assms by (simp add: strpbrk_None is_sep_def cstr_id)
next
  case (Some n)
  from strpbrk_Some[OF this] Some that(2) show ?thesis unfolding is_sep_def by blast
qed

lemma split_loop_ok:
  assumes "0 \<notin> set s" "p \<le> length s"
  shows "split_loop s seps skip p tokens = tokens @
    (let fs = fields (is_sep seps) (drop p s) in if skip then filter (\<lambda>t. t \<noteq> []) fs else fs)"
  using assms(2)
proof (induction "length s - p" arbitrary: p tokens rule: less_induct)
  case less
  have d: "0 \<notin> set (drop p s)" using assms(1) by (auto dest: in_set_dropD)
  show ?case
  proof (rule strpbrk_cases[OF d, of seps])
    assume a: "strpbrk (drop p s) seps = None" "\<forall>c\<in>set (drop p s). \<not> is_sep seps c"
    then show ?thesis using less.prems
      by (subst split_loop.simps) (auto simp: fields_field substr_from)
  next
    fix u x v
    assume a: "strpbrk (drop p s) seps = Some (length u)" "drop p s = u @ x # v" "is_sep seps x" "\<forall>c\<in>set u. \<not> is_sep seps c"
    have len: "length s - p = length u + 1 + length v" using arg_cong[OF a(2), of length] by simp
    have v: "drop (p + length u + 1) s = v"
      using arg_cong[OF a(2), of "drop (length u + 1)"] by (simp add: add.commute add.left_commute)
    have f: "fields (is_sep seps) (drop p s) = u # fields (is_sep seps) v"
      unfolding a(2) by (rule fields_cut[OF a(4,3)])
    have sub: "str_substr s (int p) (int (length u)) = u" by (simp add: substr_within a(2))
    have IH: "split_loop s seps skip (p + length u + 1) ts = ts @
        (let fs = fields (is_sep seps) v in if skip then filter (\<lambda>t. t \<noteq> []) fs else fs)" for ts
      using less.hyps[of "p + length u + 1" ts] len less.prems unfolding v by simp
    have step: "split_loop s seps skip p tokens =
       (if length u \<noteq> 0 then split_loop s seps skip (p + length u + 1) (tokens @ [u])
        else split_loop s seps skip (p + length u + 1) (if \<not> skip then tokens @ [[]] else tokens))"
      by (subst split_loop.simps) (simp add: a(1) sub)
    show ?thesis unfolding step IH f by (auto simp: Let_def)
  qed
qed

lemma str_split_ok:
  "0 \<notin> set s \<Longrightarrow> str_split s seps skip =
    (if skip then filter (\<lambda>t. t \<noteq> []) (fields (is_sep seps) s) else fields (is_sep seps) s)"
  by (simp add: str_split_def split_loop_ok Let_def)

lemma split_set_loop_ok: "split_set_loop s seps skip p (fold (\<lambda>t ts. set_append ts t) acc []) =
    fold (\<lambda>t ts. set_append ts t) (split_loop s seps skip p acc) []"
proof (induction s seps skip p acc rule: split_loop.induct)
  case (1 s seps skip p acc)
  show ?case
  proof (cases "strpbrk (drop p s) seps")
    case None
    then show ?thesis by (simp add: split_loop.simps[of s seps skip p] split_set_loop.simps[of s seps skip p])
  next
    case (Some len)
    then show ?thesis using 1[OF Some]
      by (cases skip) (simp_all add: split_loop.simps[of s seps _ p] split_set_loop.simps[of s seps _ p])
  qed
qed

lemma str_split_set_ok: "str_split_set s seps skip = fold (\<lambda>t ts. set_append ts t) (str_split s seps skip) []"
  using split_set_loop_ok[of s seps skip 0 "[]"] by (simp add: str_split_set_def str_split_def)

lemma fold_set_append: "distinct ts \<Longrightarrow> distinct (fold (\<lambda>t ts. set_append ts t) xs ts) \<and>
    set (fold (\<lambda>t ts. set_append ts t) xs ts) = set ts \<union> set xs"
  by (induction xs arbitrary: ts) (auto simp: set_append_def)

lemma join_loop_acc: "join_loop ts c r = r @ join_loop ts c []"
proof (induction ts arbitrary: r)
  case (Cons t ts)
  show ?case using Cons.IH[of "r @ t @ [c]"] Cons.IH[of "t @ [c]"] by (cases ts) simp_all
qed simp

lemma str_join_simps [simp]:
  "str_join [] c = []" "str_join [t] c = t" "ts \<noteq> [] \<Longrightarrow> str_join (t # ts) c = t @ c # str_join ts c"
proof -
  show "ts \<noteq> [] \<Longrightarrow> str_join (t # ts) c = t @ c # str_join ts c"
    using join_loop_acc[of ts c "t @ [c]"] by (cases ts) (simp_all add: str_join_def)
qed (simp_all add: str_join_def)

lemma join_fields: "str_join (fields (\<lambda>x. x = c) s) c = s"
proof (induction s)
  case (Cons x s)
  obtain f fs where f: "fields (\<lambda>x. x = c) s = f # fs" by (cases "fields (\<lambda>x. x = c) s") simp_all
  show ?case using Cons.IH by (cases "fs = []") (auto simp: f)
qed simp

lemma fields_join:
  "ts \<noteq> [] \<Longrightarrow> \<forall>t\<in>set ts. c \<notin> set t \<Longrightarrow> fields (\<lambda>x. x = c) (str_join ts c) = ts"
proof (induction ts)
  case (Cons t ts)
  have t: "\<forall>x\<in>set t. x \<noteq> c" using Cons.prems(2) by auto
  show ?case
  proof (cases "ts = []")
    case True
    then show ?thesis using fields_field[of t "\<lambda>x. x = c"] t by simp
  next
    case False
    then show ?thesis using fields_cut[of t "\<lambda>x. x = c" c] t Cons by simp
  qed
qed simp

lemma join_nonzero: "c \<noteq> 0 \<Longrightarrow> \<forall>t\<in>set ts. 0 \<notin> set t \<Longrightarrow> 0 \<notin> set (str_join ts c)"
  by (induction ts) (case_tac "ts = []"; auto)+

section \<open>Trimming\<close>

definition trimmed :: "byte list \<Rightarrow> byte \<Rightarrow> bool" where
  "trimmed chars c \<longleftrightarrow> c = 0 \<or> c \<in> set (cstr chars)"

lemma strchr_iff: "strchr s c \<noteq> None \<longleftrightarrow> c = 0 \<or> c \<in> set (cstr s)"
  by (induction s) auto

lemmas strchr_Some_iff = strchr_iff[unfolded not_None_eq]

lemma trim_first_ok:
  "p \<le> length s \<Longrightarrow> trim_first s chars p = p + length (takeWhile (trimmed chars) (drop p s))"
proof (induction "length s - p" arbitrary: p rule: less_induct)
  case less
  show ?case
  proof (cases "p < length s")
    case True
    then have "drop p s = s ! p # drop (Suc p) s" by (simp add: Cons_nth_drop_Suc)
    then show ?thesis using less.hyps[of "Suc p"] True
      by (subst trim_first.simps) (auto simp: strchr_Some_iff trimmed_def)
  qed (use less.prems in \<open>simp add: trim_first.simps[of s]\<close>)
qed

lemma trim_last_ok:
  assumes "p < length s" "\<not> trimmed chars (s ! p)" "p \<le> e" "e < length s"
  shows "take (trim_last s chars p e + 1 - p) (drop p s) = rev (dropWhile (trimmed chars) (rev (take (e + 1 - p) (drop p s))))
    \<and> p \<le> trim_last s chars p e"
  using assms(3,4)
proof (induction e)
  case 0
  then show ?case using assms by (simp add: take_Suc_conv_app_nth hd_drop_conv_nth)
next
  case (Suc e)
  have d: "take (Suc (Suc e) - p) (drop p s) = take (Suc e - p) (drop p s) @ [s ! Suc e]"
    using Suc.prems by (simp add: Suc_diff_le take_Suc_conv_app_nth)
  show ?case
  proof (cases "Suc e > p \<and> strchr chars (s ! Suc e) \<noteq> None")
    case True
    then have "trimmed chars (s ! Suc e)" by (simp add: strchr_Some_iff trimmed_def)
    then show ?thesis using Suc True by (simp add: d)
  next
    case False
    then have "\<not> trimmed chars (s ! Suc e)"
      using assms(2) Suc.prems by (cases "Suc e = p") (auto simp: strchr_Some_iff trimmed_def)
    then show ?thesis using False Suc.prems by (auto simp: d)
  qed
qed

lemma str_trim_ok: "str_trim s chars = rev (dropWhile (trimmed chars) (rev (dropWhile (trimmed chars) s)))"
proof (cases "s = []")
  case False
  define p where "p = length (takeWhile (trimmed chars) s)"
  have first: "trim_first s chars 0 = p" using trim_first_ok[of 0 s chars] by (simp add: p_def)
  have dp: "dropWhile (trimmed chars) s = drop p s" by (simp add: p_def dropWhile_eq_drop)
  have cut: "str_trim s chars = take (trim_last s chars p (length s - 1) + 1 - p) (drop p s)"
  proof (cases "trim_last s chars p (length s - 1) + 1 - p = length s")
    case True
    moreover have "trim_last s chars p e \<le> e" for e by (induction e) auto
    then have "trim_last s chars p (length s - 1) \<le> length s - 1" .
    ultimately have "p = 0" using False by (cases s) auto
    then show ?thesis using True False by (simp add: str_trim_def first Let_def)
  next
    case ne: False
    then show ?thesis using False by (simp add: str_trim_def first Let_def substr_within del: of_nat_add of_nat_diff)
  qed
  show ?thesis
  proof (cases "p < length s")
    case True
    then have "\<not> trimmed chars (s ! p)" using nth_length_takeWhile[of "trimmed chars" s] by (simp add: p_def)
    from trim_last_ok[OF True this, of "length s - 1"] True show ?thesis by (simp add: cut dp)
  next
    case no: False
    then have "p = length s" by (metis p_def length_takeWhile_le le_antisym not_less)
    then have z: "dropWhile (trimmed chars) s = []" by (simp add: dp)
    show ?thesis unfolding cut dp[symmetric] z by simp
  qed
qed (simp add: str_trim_def)

section \<open>Searching from the end\<close>

definition last_match :: "(byte list \<Rightarrow> nat option) \<Rightarrow> byte list \<Rightarrow> nat option" where
  "last_match search s =
     (let ms = filter (\<lambda>i. search (drop i s) = Some 0) [0..<length s]
      in if ms = [] then None else Some (last ms))"

text \<open>A search finds the first offset at which it matches, if it has that property of \<^verbatim>\<open>strstr\<close> and
  \<^verbatim>\<open>strpbrk\<close>.\<close>

definition first_match :: "(byte list \<Rightarrow> nat option) \<Rightarrow> bool" where
  "first_match search \<longleftrightarrow> search [] = None \<and>
     (\<forall>x s. 0 \<notin> set (x # s) \<longrightarrow> search (x # s) = (if search (x # s) = Some 0 then Some 0 else map_option Suc (search s)))"

lemma upt_split: "i \<le> j \<Longrightarrow> j \<le> k \<Longrightarrow> [i..<k] = [i..<j] @ [j..<k]"
  using upt_add_eq_append[of i j "k - j"] by simp

lemma first_matchD:
  assumes "first_match search" "0 \<notin> set s"
  shows "search s = None \<Longrightarrow> \<forall>i<length s. search (drop i s) \<noteq> Some 0"
    and "search s = Some n \<Longrightarrow> n < length s \<and> search (drop n s) = Some 0 \<and> (\<forall>i<n. search (drop i s) \<noteq> Some 0)"
  using assms(2)
proof (induction s arbitrary: n)
  case Nil
  { case 1 then show ?case by simp }
  { case 2 then show ?case using assms by (simp add: first_match_def) }
next
  case (Cons x s)
  have e: "search (x # s) = (if search (x # s) = Some 0 then Some 0 else map_option Suc (search s))"
    if "0 \<notin> set (x # s)" using assms(1) that unfolding first_match_def by blast
  { case 1
    then have "search s = None" using e by (metis map_option_is_None option.distinct(1))
    then show ?case using Cons.IH(1) 1 by (auto simp: less_Suc_eq_0_disj) }
  { case 2
    show ?case
    proof (cases "search (x # s) = Some 0")
      case True
      then show ?thesis using 2 by simp
    next
      case False
      then obtain m where m: "search s = Some m" "n = Suc m" using 2 e by (cases "search s") (auto split: if_splits)
      moreover have "0 \<notin> set s" using 2 by simp
      ultimately show ?thesis using Cons.IH(2)[OF m(1)] False by (auto simp: less_Suc_eq_0_disj)
    qed }
qed

lemma findLast_from:
  assumes "first_match search" "0 \<notin> set s" "m < length s" "search (drop m s) = Some 0"
  shows "findLast_loop search s r (Some m) =
     Some (Some (last (filter (\<lambda>i. search (drop i s) = Some 0) [m..<length s])))"
  using assms(3,4)
proof (induction "length s - m" arbitrary: m r rule: less_induct)
  case less
  let ?M = "\<lambda>i. search (drop i s) = Some 0"
  have up: "filter ?M [m..<length s] = m # filter ?M [Suc m..<length s]" using less.prems by (simp add: upt_conv_Cons)
  have z: "0 \<notin> set (drop (Suc m) s)" using assms(2) by (auto dest: in_set_dropD)
  show ?case
  proof (cases "search (drop (Suc m) s)")
    case None
    from first_matchD(1)[OF assms(1) z this] have "\<not> ?M i" if "Suc m \<le> i" "i < length s" for i
      using that by (auto dest!: spec[of _ "i - Suc m"])
    then have "filter ?M [Suc m..<length s] = []" by (auto simp: filter_empty_conv)
    then show ?thesis unfolding up using None less.prems by (simp add: findLast_loop.simps[of search s])
  next
    case (Some n)
    from first_matchD(2)[OF assms(1) z this]
    have n: "n < length s - Suc m" "?M (Suc m + n)" "\<forall>i<n. search (drop i (drop (Suc m) s)) \<noteq> Some 0"
      by (simp_all add: add.commute)
    have "\<not> ?M i" if "Suc m \<le> i" "i < Suc m + n" for i
      using n(3) that by (auto dest!: spec[of _ "i - Suc m"])
    then have e: "filter ?M [Suc m..<Suc m + n] = []" by (auto simp: filter_empty_conv)
    have "[Suc m..<length s] = [Suc m..<Suc m + n] @ [Suc m + n..<length s]"
      by (rule upt_split) (use n(1) in simp_all)
    then have "filter ?M [Suc m..<length s] = filter ?M [Suc m + n..<length s]" using e by simp
    moreover have "filter ?M [Suc m + n..<length s] \<noteq> []" using n(1,2) by (auto simp: filter_empty_conv)
    ultimately have l: "last (filter ?M [m..<length s]) = last (filter ?M [Suc m + n..<length s])" by (simp add: up)
    have "findLast_loop search s r (Some m) = findLast_loop search s (Some m) (Some (Suc m + n))"
      using Some less.prems by (simp add: findLast_loop.simps[of search s r])
    also have "\<dots> = Some (Some (last (filter ?M [Suc m + n..<length s])))"
      using less.hyps[of "Suc m + n" "Some m"] n(1,2) by simp
    finally show ?thesis unfolding l .
  qed
qed

lemma findLast_loop_ok:
  assumes "first_match search" "0 \<notin> set s"
  shows "findLast_loop search s None (search s) = Some (last_match search s)"
proof (cases "search s")
  case None
  then have "filter (\<lambda>i. search (drop i s) = Some 0) [0..<length s] = []"
    using first_matchD(1)[OF assms None] by (auto simp: filter_empty_conv)
  then show ?thesis using None by (simp add: findLast_loop.simps[of search s] last_match_def)
next
  case (Some n)
  let ?M = "\<lambda>i. search (drop i s) = Some 0"
  note n = first_matchD(2)[OF assms Some]
  have e: "filter ?M [0..<n] = []" using n by (auto simp: filter_empty_conv)
  have "[0..<length s] = [0..<n] @ [n..<length s]" by (rule upt_split) (use n in simp_all)
  then have f: "filter ?M [0..<length s] = filter ?M [n..<length s]" using e by simp
  moreover have "filter ?M [n..<length s] \<noteq> []" using n by (auto simp: filter_empty_conv)
  ultimately show ?thesis using findLast_from[OF assms, of n None] n Some by (simp add: last_match_def Let_def)
qed

lemma first_match_strstr: "cstr str \<noteq> [] \<Longrightarrow> first_match (\<lambda>t. strstr t str)"
  by (auto simp: first_match_def strstr_def is_prefix_iff cstr_id)

lemma first_match_strpbrk: "first_match (\<lambda>t. strpbrk t chars)"
  by (auto simp: first_match_def)

lemma strpbrk_cstr: "strpbrk (cstr s) chars = strpbrk s chars"
  by (induction s) auto

lemma findLast_str_ok: "cstr str \<noteq> [] \<Longrightarrow> str_findLast_str s str = Some (last_match (\<lambda>t. strstr t str) (cstr s))"
  using findLast_loop_ok[OF first_match_strstr, of str "cstr s"] by (simp add: str_findLast_str_def strstr_def)

lemma findLastOf_ok: "str_findLastOf s chars = Some (last_match (\<lambda>t. strpbrk t chars) (cstr s))"
  using findLast_loop_ok[OF first_match_strpbrk, of "cstr s" chars]
  by (simp add: str_findLastOf_def strpbrk_cstr)

lemma strstr_empty: "cstr str = [] \<Longrightarrow> strstr t str = Some 0"
  by (cases "cstr t") (simp_all add: strstr_def)

lemma findLast_empty:
  assumes "cstr str = []"
  shows "m \<le> length s \<Longrightarrow> findLast_loop (\<lambda>t. strstr t str) s r (Some m) = None"
proof (induction "length s - m" arbitrary: m r rule: less_induct)
  case less
  show ?case using less.hyps[of "Suc m" "Some m"] less.prems strstr_empty[OF assms]
    by (cases "Suc m \<le> length s") (simp_all add: findLast_loop.simps[of _ s r])
qed

section \<open>Replacing\<close>

text \<open>The replacement of every occurrence from left to right.\<close>

function replace_all :: "'a list \<Rightarrow> 'a list \<Rightarrow> 'a list \<Rightarrow> 'a list" where
  "replace_all needle r s =
     (if s = [] then []
      else if take (length needle) s = needle \<and> needle \<noteq> [] then r @ replace_all needle r (drop (length needle) s)
      else hd s # replace_all needle r (tl s))"
  by pat_completeness auto
termination
  by (relation "measure (\<lambda>(_, _, s). length s)") auto

declare replace_all.simps [simp del]

lemma replace_all_none: "needle \<noteq> [] \<Longrightarrow> \<nexists>u v. s = u @ needle @ v \<Longrightarrow> replace_all needle r s = s"
proof (induction s)
  case (Cons x s)
  have "take (length needle) (x # s) \<noteq> needle"
    using Cons.prems(2) append_take_drop_id[of "length needle" "x # s"] by (metis append_Nil)
  moreover have "\<nexists>u v. s = u @ needle @ v" using Cons.prems(2) by (metis append_Cons)
  ultimately show ?case using Cons.IH[OF Cons.prems(1)] by (subst replace_all.simps) simp
qed (simp add: replace_all.simps)

lemma replace_all_first:
  assumes "needle \<noteq> []" "\<And>u' v'. u @ needle @ v = u' @ needle @ v' \<Longrightarrow> length u \<le> length u'"
  shows "replace_all needle r (u @ needle @ v) = u @ r @ replace_all needle r v"
  using assms(2)
proof (induction u)
  case Nil
  show ?case using assms(1) by (subst replace_all.simps) simp
next
  case (Cons x u)
  have "take (length needle) ((x # u) @ needle @ v) \<noteq> needle"
  proof
    assume "take (length needle) ((x # u) @ needle @ v) = needle"
    then have "(x # u) @ needle @ v = [] @ needle @ drop (length needle) ((x # u) @ needle @ v)"
      using append_take_drop_id[of "length needle" "(x # u) @ needle @ v"] by simp
    from Cons.prems[OF this] show False by simp
  qed
  then have "replace_all needle r ((x # u) @ needle @ v) = x # replace_all needle r (u @ needle @ v)"
    by (subst replace_all.simps) simp
  moreover have "length u \<le> length u'" if "u @ needle @ v = u' @ needle @ v'" for u' v'
    using Cons.prems[of "x # u'" v'] that by simp
  ultimately show ?case using Cons.IH by simp
qed

lemma strstr_Some:
  assumes "strstr s needle = Some n" "0 \<notin> set s" "0 \<notin> set needle" "needle \<noteq> []"
  obtains u v where "s = u @ needle @ v" "length u = n" "replace_all needle r s = u @ r @ replace_all needle r v"
proof -
  have a: "strstr_at s needle = Some n" using assms(1,2,3) by (simp add: strstr_def cstr_id)
  from strstr_at_Some[OF a] obtain u v where uv: "s = u @ needle @ v" "length u = n" by blast
  have "replace_all needle r (u @ needle @ v) = u @ r @ replace_all needle r v"
    by (rule replace_all_first[OF assms(4)]) (use strstr_at_first[OF a] uv in simp)
  then show ?thesis using uv by (intro that[OF uv]) simp
qed

lemma replace_loop_ok:
  assumes "0 \<notin> set s" "0 \<notin> set needle" "needle \<noteq> []"
  shows "drop p s = u @ needle @ v \<Longrightarrow>
    replace_loop s needle r p (p + length u) res = Some (res @ u @ r @ replace_all needle r v)"
proof (induction "length v" arbitrary: p u v res rule: less_induct)
  case less
  have len: "length s = p + length u + length needle + length v"
    using arg_cong[OF less.prems, of length] assms(3) by (cases "p \<le> length s") auto
  have v: "drop (p + length u + length needle) s = v"
    using arg_cong[OF less.prems, of "drop (length u + length needle)"] by (simp add: ac_simps)
  have zv: "0 \<notin> set v" using assms(1) v by (metis in_set_dropD)
  have step: "replace_loop s needle r p (p + length u) res =
     (case strstr v needle of None \<Rightarrow> Some (res @ u @ r @ v)
      | Some m \<Rightarrow> replace_loop s needle r (p + length u + length needle) (p + length u + length needle + m) (res @ u @ r))"
    by (subst replace_loop.simps) (simp add: less.prems v len Let_def split: option.split)
  show ?case
  proof (cases "strstr v needle")
    case None
    then have "\<nexists>u w. v = u @ needle @ w"
      using zv assms(2) by (simp add: strstr_def cstr_id strstr_at_None)
    from replace_all_none[OF assms(3) this] None show ?thesis by (simp add: step)
  next
    case (Some m)
    from strstr_Some[OF Some zv assms(2,3)] obtain u2 v2 where
      v2: "v = u2 @ needle @ v2" "length u2 = m" "replace_all needle r v = u2 @ r @ replace_all needle r v2" .
    then have "length v2 < length v" using assms(3) by simp
    from less.hyps[OF this, of "p + length u + length needle" u2 "res @ u @ r"] v v2 Some show ?thesis by (simp add: step)
  qed
qed

lemma str_replace_ok:
  assumes "0 \<notin> set s" "0 \<notin> set needle" "needle \<noteq> []"
  shows "str_replace s needle r = Some (replace_all needle r s)"
proof (cases "strstr s needle")
  case None
  then have "\<nexists>u w. s = u @ needle @ w" using assms by (simp add: strstr_def cstr_id strstr_at_None)
  from replace_all_none[OF assms(3) this] None show ?thesis by (simp add: str_replace_def)
next
  case (Some m)
  from strstr_Some[OF Some assms] obtain u v where
    "s = u @ needle @ v" "length u = m" "replace_all needle r s = u @ r @ replace_all needle r v" .
  with replace_loop_ok[OF assms, of 0 u v r "[]"] Some show ?thesis by (simp add: str_replace_def)
qed

lemma replace_loop_empty: "replace_loop s needle r p match res = Some y \<Longrightarrow> needle = [] \<Longrightarrow> False"
proof (induction rule: replace_loop.raw_induct[rotated, consumes 1, case_names step])
  case (step loop s needle r p match res y)
  have "strstr t [] = Some 0" for t by (simp add: strstr_empty)
  with step show ?case by (auto simp: Let_def split: if_splits option.splits)
qed

lemma str_replace_empty: "str_replace s [] r = None"
proof -
  have "strstr s [] = Some 0" by (rule strstr_empty) simp
  moreover have "replace_loop s [] r 0 0 [] = None" using replace_loop_empty by fastforce
  ultimately show ?thesis by (simp add: str_replace_def)
qed

section \<open>Comparing\<close>

lemma at0_simps [simp]: "at0 [] = 0" "at0 (c # s) = c"
  by (simp_all add: at0_def)

definition byte_less :: "byte list \<Rightarrow> byte list \<Rightarrow> bool" where
  "byte_less s t \<longleftrightarrow> (s, t) \<in> lexord {(a, b). a < b}"

lemma byte_less_simps [simp]:
  "byte_less [] t \<longleftrightarrow> t \<noteq> []" "\<not> byte_less s []"
  "byte_less (a # s) (b # t) \<longleftrightarrow> a < b \<or> a = b \<and> byte_less s t"
  by (cases t) (simp_all add: byte_less_def)

lemma uint_diff: "uint (a :: byte) - uint b < 0 \<longleftrightarrow> a < b" "uint a - uint b = 0 \<longleftrightarrow> a = b"
  by (simp_all add: word_less_def word_uint_eq_iff)

text \<open>A recursion on the bytes before the first zero for the comparisons.\<close>

fun list_compare :: "byte list \<Rightarrow> byte list \<Rightarrow> int" where
  "list_compare [] [] = 0"
| "list_compare [] (b # t) = - uint b"
| "list_compare (a # s) [] = uint a"
| "list_compare (a # s) (b # t) = (if a = b then list_compare s t else uint a - uint b)"

lemma list_compare_sign:
  "0 \<notin> set s \<Longrightarrow> 0 \<notin> set t \<Longrightarrow> list_compare s t < 0 \<longleftrightarrow> byte_less s t"
  "0 \<notin> set s \<Longrightarrow> 0 \<notin> set t \<Longrightarrow> list_compare s t = 0 \<longleftrightarrow> s = t"
proof (induction s t rule: list_compare.induct)
  case (2 b t)
  { case 1 then show ?case using uint_ge_0[of b] by (simp add: less_le unsigned_eq_0_iff) }
  { case 2 then show ?case by (simp add: unsigned_eq_0_iff) }
next
  case (3 a s)
  { case 1 then show ?case by (simp add: not_less) }
  { case 2 then show ?case by (simp add: unsigned_eq_0_iff) }
next
  case (4 a s b t)
  { case 1 then show ?case using 4 uint_diff by (cases "a = b") simp_all }
  { case 2 then show ?case using 4 uint_diff(2)[of a b] by (cases "a = b") simp_all }
qed simp_all

lemma c_compare_eq: "c_compare s t = list_compare (cstr s) (cstr t)"
proof (induction s t rule: c_compare.induct)
  case (1 s t)
  show ?case
  proof (cases "at0 s = at0 t \<and> at0 s \<noteq> 0")
    case True
    then have "c_compare s t = c_compare (tl s) (tl t)" by (subst c_compare.simps) auto
    also have "\<dots> = list_compare (cstr (tl s)) (cstr (tl t))" using 1 True by blast
    also have "\<dots> = list_compare (cstr s) (cstr t)" using True by (cases s; cases t) auto
    finally show ?thesis .
  next
    case False
    then show ?thesis by (subst c_compare.simps) (cases s; cases t; auto)
  qed
qed

lemma c_compare_n_eq: "c_compare_n s t n = list_compare (take n (cstr s)) (take n (cstr t))"
proof (induction n arbitrary: s t)
  case (Suc n)
  show ?case using Suc.IH[of "tl s" "tl t"] by (cases s; cases t) auto
qed simp

lemma case_tables:
  "lowerCaseMap = map (\<lambda>n. if 65 \<le> n \<and> n \<le> 90 then of_nat (n + 32) else of_nat n) [0..<256]"
  "upperCaseMap = map (\<lambda>n. if 97 \<le> n \<and> n \<le> 122 then of_nat (n - 32) else of_nat n) [0..<256]"
proof -
  have "[0..<256] = 0 # 1 # [2..<256 :: nat]" by (simp add: upt_conv_Cons numeral_2_eq_2)
  then show "lowerCaseMap = map (\<lambda>n. if 65 \<le> n \<and> n \<le> 90 then of_nat (n + 32) else of_nat n) [0..<256]"
    "upperCaseMap = map (\<lambda>n. if 97 \<le> n \<and> n \<le> 122 then of_nat (n - 32) else of_nat n) [0..<256]"
    by (simp_all add: lowerCaseMap_def upperCaseMap_def upt_rec_numeral)
qed

lemma case_maps:
  "c_toLowerCase c = (if 65 \<le> c \<and> c \<le> 90 then c + 32 else c)"
  "c_toUpperCase c = (if 97 \<le> c \<and> c \<le> 122 then c - 32 else c)"
  using unsigned_less[of c, where 'a = nat]
  by (auto simp: c_toLowerCase_def c_toUpperCase_def case_tables word_le_nat_alt of_nat_diff)

lemma lower_zero: "c_toLowerCase c = 0 \<longleftrightarrow> c = 0"
proof -
  have "unat (c + 32) = unat c + 32" if "c \<le> 90" for c :: byte
    using that by (simp add: unat_word_ariths word_le_nat_alt)
  then have "c + 32 \<noteq> 0" if "c \<le> 90" for c :: byte using that by (metis add_is_0 unsigned_0 zero_neq_numeral)
  then show ?thesis by (auto simp: case_maps)
qed

lemma c_compareIgnoreCase_eq:
  "c_compareIgnoreCase s t = list_compare (map c_toLowerCase (cstr s)) (map c_toLowerCase (cstr t))"
proof (induction s t rule: c_compareIgnoreCase.induct)
  case (1 s t)
  let ?l = c_toLowerCase
  have z: "?l 0 = 0" by (simp add: lower_zero)
  show ?case
  proof (cases "?l (at0 s) = ?l (at0 t) \<and> at0 s \<noteq> 0")
    case True
    then have t: "at0 t \<noteq> 0" using lower_zero[of "at0 s"] lower_zero[of "at0 t"] by auto
    have "c_compareIgnoreCase s t = c_compareIgnoreCase (tl s) (tl t)"
      using True by (subst c_compareIgnoreCase.simps) (simp add: Let_def)
    also have "\<dots> = list_compare (map ?l (cstr (tl s))) (map ?l (cstr (tl t)))"
      using 1[OF refl refl] True by blast
    also have "\<dots> = list_compare (map ?l (cstr s)) (map ?l (cstr t))"
      using True t by (cases s; cases t) auto
    finally show ?thesis .
  next
    case False
    then show ?thesis
      by (subst c_compareIgnoreCase.simps) (cases s; cases t; auto simp: Let_def z lower_zero)
  qed
qed

section \<open>Base 64\<close>

text \<open>The encoding of RFC 4648.\<close>

definition b64_alphabet :: "byte list" where
  "b64_alphabet = lit ''ABCDEFGHIJKLMNOPQRSTUVWXYZabcdefghijklmnopqrstuvwxyz0123456789+/''"

definition b64_char :: "byte \<Rightarrow> byte" where
  "b64_char w = b64_alphabet ! unat w"

fun b64_encode :: "byte list \<Rightarrow> byte list" where
  "b64_encode [] = []"
| "b64_encode [a] =
     [b64_char (drop_bit 2 a), b64_char (push_bit 4 (a AND 3)), of_char CHR ''='', of_char CHR ''='']"
| "b64_encode [a, b] =
     [b64_char (drop_bit 2 a), b64_char (push_bit 4 (a AND 3) OR drop_bit 4 b),
      b64_char (push_bit 2 (b AND 0xF)), of_char CHR ''='']"
| "b64_encode (a # b # c # bs) =
     b64_char (drop_bit 2 a) # b64_char (push_bit 4 (a AND 3) OR drop_bit 4 b)
       # b64_char (push_bit 2 (b AND 0xF) OR drop_bit 6 c) # b64_char (c AND 0x3F) # b64_encode bs"

lemma b64_table: "map (\<lambda>c. base64de ! unat c) b64_alphabet = map of_nat [0..<64]"
  "list_all (\<lambda>c. sint c \<le> 122 \<and> unat c < 123) b64_alphabet" "length b64_alphabet = 64" "length base64de = 123"
proof -
  have u: "[0..<64] = 0 # 1 # [2..<64 :: nat]" by (simp add: upt_conv_Cons numeral_2_eq_2)
  show "map (\<lambda>c. base64de ! unat c) b64_alphabet = map of_nat [0..<64]"
    unfolding u by (simp add: b64_alphabet_def base64de_def upt_rec_numeral)
  show "list_all (\<lambda>c. sint c \<le> 122 \<and> unat c < 123) b64_alphabet"
    by (simp add: b64_alphabet_def)
qed (simp_all add: b64_alphabet_def base64de_def)

lemma b64_char_facts:
  assumes "w < 64"
  shows "base64de ! unat (b64_char w) = w" "sint (b64_char w) \<le> 122" "unat (b64_char w) < 123"
proof -
  have w: "unat w < 64" using assms by (simp add: word_less_nat_alt)
  show "base64de ! unat (b64_char w) = w"
    using arg_cong[OF b64_table(1), of "\<lambda>l. l ! unat w"] w b64_table(3) by (simp add: b64_char_def)
  have "b64_char w \<in> set b64_alphabet" using w b64_table(3) by (simp add: b64_char_def)
  then show "sint (b64_char w) \<le> 122" "unat (b64_char w) < 123" using b64_table(2) by (auto simp: list_all_iff)
qed

lemma b64_step:
  assumes "w < 64" "j < length out" "i mod 4 \<in> {1, 2} \<longrightarrow> j + 1 < length out"
  shows "base64_loop (b64_char w # s) i j out =
     (if i mod 4 = 0 then base64_loop s (i + 1) j (out[j := push_bit 2 w AND 0xFF])
      else if i mod 4 = 1 then
        base64_loop s (i + 1) (j + 1) (out[j := out ! j OR (drop_bit 4 w AND 3), j + 1 := push_bit 4 (w AND 0xF)])
      else if i mod 4 = 2 then
        base64_loop s (i + 1) (j + 1) (out[j := out ! j OR (drop_bit 2 w AND 0xF), j + 1 := push_bit 6 (w AND 3)])
      else base64_loop s (i + 1) (j + 1) (out[j := out ! j OR w]))"
proof -
  have "w \<noteq> 255" using assms by auto
  then show ?thesis using assms(2,3) b64_char_facts[OF assms(1)] by (simp add: base64_loop.simps(2) b64_table(4) Let_def)
qed

lemma b64_pad: "base64_loop (of_char CHR ''='' # s) i j out = Some (Some (j, out))"
  by (simp add: base64_loop.simps(2) base64de_def)

lemma byte_bits: "8 \<le> n \<Longrightarrow> \<not> bit (w :: byte) n"
  by (auto dest: bit_imp_le_length)

lemma b64_small:
  fixes a b c :: byte
  shows "drop_bit 2 a < 64" "push_bit 4 (a AND 3) < 64" "push_bit 4 (a AND 3) OR drop_bit 4 b < 64"
    "push_bit 2 (b AND 0xF) < 64" "push_bit 2 (b AND 0xF) OR drop_bit 6 c < 64" "c AND 0x3F < 64"
proof -
  have m: "w < 64 \<longleftrightarrow> \<not> bit w 6 \<and> \<not> bit w 7" for w :: byte
  proof -
    have "w < 64 \<longleftrightarrow> take_bit 6 w = w"
      by (simp add: word_less_nat_alt word_unat_eq_iff unsigned_take_bit_eq take_bit_nat_eq_self_iff)
    also have "\<dots> \<longleftrightarrow> (\<forall>k<8. bit w k \<longrightarrow> k < 6)"
      by (auto simp: bit_eq_iff bit_take_bit_iff dest: bit_imp_le_length)
    also have "\<dots> \<longleftrightarrow> \<not> bit w 6 \<and> \<not> bit w 7"
      by (auto simp: numeral_eq_Suc All_less_Suc)
    finally show ?thesis .
  qed
  show "drop_bit 2 a < 64" "push_bit 4 (a AND 3) < 64" "push_bit 4 (a AND 3) OR drop_bit 4 b < 64"
    "push_bit 2 (b AND 0xF) < 64" "push_bit 2 (b AND 0xF) OR drop_bit 6 c < 64" "c AND 0x3F < 64"
    unfolding m by (simp_all add: bit_simps byte_bits)
qed

lemma byte_eqI:
  fixes a b :: byte
  assumes "bit a 0 = bit b 0" "bit a 1 = bit b 1" "bit a 2 = bit b 2" "bit a 3 = bit b 3"
    "bit a 4 = bit b 4" "bit a 5 = bit b 5" "bit a 6 = bit b 6" "bit a 7 = bit b 7"
  shows "a = b"
proof -
  have "\<forall>k<8. bit a k = bit b k" using assms by (simp add: numeral_eq_Suc All_less_Suc)
  then show ?thesis by (intro bit_word_eqI) simp
qed

lemma b64_join:
  fixes a b c :: byte
  shows "(push_bit 2 (drop_bit 2 a) AND 0xFF) OR (drop_bit 4 (push_bit 4 (a AND 3)) AND 3) = a"
    "(push_bit 2 (drop_bit 2 a) AND 0xFF) OR (drop_bit 4 (push_bit 4 (a AND 3) OR drop_bit 4 b) AND 3) = a"
    "push_bit 4 ((push_bit 4 (a AND 3) OR drop_bit 4 b) AND 0xF) OR (drop_bit 2 (push_bit 2 (b AND 0xF)) AND 0xF) = b"
    "push_bit 4 ((push_bit 4 (a AND 3) OR drop_bit 4 b) AND 0xF) OR (drop_bit 2 (push_bit 2 (b AND 0xF) OR drop_bit 6 c) AND 0xF) = b"
    "push_bit 6 ((push_bit 2 (b AND 0xF) OR drop_bit 6 c) AND 3) OR (c AND 0x3F) = c"
  by (rule byte_eqI; simp add: bit_simps)+

lemma b64_group2:
  assumes "i mod 4 = 0" "w0 < 64" "w1 < 64" "j + 1 < length out"
  shows "base64_loop (b64_char w0 # b64_char w1 # s) i j out = base64_loop s (i + 2) (j + 1)
    (out[j := (push_bit 2 w0 AND 0xFF) OR (drop_bit 4 w1 AND 3), j + 1 := push_bit 4 (w1 AND 0xF)])"
proof -
  have "(i + 1) mod 4 = 1" using assms(1) by presburger
  then show ?thesis using assms by (simp add: b64_step)
qed

lemma b64_group3:
  assumes "i mod 4 = 0" "w0 < 64" "w1 < 64" "w2 < 64" "j + 2 < length out"
  shows "base64_loop (b64_char w0 # b64_char w1 # b64_char w2 # s) i j out = base64_loop s (i + 2 + 1) (j + 1 + 1)
    (out[j := (push_bit 2 w0 AND 0xFF) OR (drop_bit 4 w1 AND 3),
         j + 1 := push_bit 4 (w1 AND 0xF) OR (drop_bit 2 w2 AND 0xF), j + 1 + 1 := push_bit 6 (w2 AND 3)])"
proof -
  have m: "(i + 2) mod 4 = 2" using assms(1) by presburger
  have j: "j + 1 < length out" using assms(5) by simp
  show ?thesis unfolding b64_group2[OF assms(1-3) j] using assms(4,5) m by (simp add: b64_step)
qed

lemma b64_group4:
  assumes "i mod 4 = 0" "w0 < 64" "w1 < 64" "w2 < 64" "w3 < 64" "j + 2 < length out"
  shows "base64_loop (b64_char w0 # b64_char w1 # b64_char w2 # b64_char w3 # s) i j out = base64_loop s (i + 2 + 1 + 1) (j + 1 + 1 + 1)
    (out[j := (push_bit 2 w0 AND 0xFF) OR (drop_bit 4 w1 AND 3),
         j + 1 := push_bit 4 (w1 AND 0xF) OR (drop_bit 2 w2 AND 0xF), j + 1 + 1 := push_bit 6 (w2 AND 3) OR w3])"
proof -
  have m: "(i + 2 + 1) mod 4 = 3" using assms(1) by presburger
  show ?thesis unfolding b64_group3[OF assms(1-4,6)] using assms(5,6) m by (simp add: b64_step)
qed

lemma take_upd: "j < length out \<Longrightarrow> take (Suc j) (out[j := x]) = take j out @ [x]"
  by (simp add: take_Suc_conv_app_nth)

lemma b64_ok:
  assumes "i mod 4 = 0" "j + length (b64_encode bs) < length out"
  shows "\<exists>j' out'. base64_loop (b64_encode bs) i j out = Some (Some (j', out')) \<and> take j' out' = take j out @ bs"
  using assms
proof (induction bs arbitrary: i j out rule: b64_encode.induct)
  case (2 a)
  have j: "j + 1 < length out" using 2(2) by simp
  then have "j < length out" by simp
  note g = b64_group2[OF 2(1) b64_small(1,2) j]
  have "base64_loop (b64_encode [a]) i j out = Some (Some (Suc j, out[j := a, j + 1 := push_bit 4 (push_bit 4 (a AND 3) AND 0xF)]))"
    unfolding b64_encode.simps g b64_pad b64_join by simp
  then show ?case using \<open>j < length out\<close> by (simp add: take_upd)
next
  case (3 a b)
  have j: "j + 2 < length out" using 3(2) by simp
  then have "j + 1 < length out" by simp
  note g = b64_group3[OF 3(1) b64_small(1,3,4) j]
  have "base64_loop (b64_encode [a, b]) i j out = Some (Some (j + 1 + 1, out[j := a, j + 1 := b, j + 1 + 1 := push_bit 6 (push_bit 2 (b AND 0xF) AND 3)]))"
    unfolding b64_encode.simps g b64_pad b64_join by simp
  then show ?case using \<open>j + 1 < length out\<close> by (simp add: take_upd)
next
  case (4 a b c bs)
  have j: "j + 2 < length out" using 4(3) by simp
  note g = b64_group4[OF 4(2) b64_small(1,3,5,6) j]
  let ?o = "out[j := a, j + 1 := b, j + 1 + 1 := c]"
  have e: "base64_loop (b64_encode (a # b # c # bs)) i j out = base64_loop (b64_encode bs) (i + 2 + 1 + 1) (j + 1 + 1 + 1) ?o"
    unfolding b64_encode.simps g b64_join by simp
  have m: "(i + 2 + 1 + 1) mod 4 = 0" using 4(2) by presburger
  have l: "j + 1 + 1 + 1 + length (b64_encode bs) < length ?o" using 4(3) by simp
  from 4(1)[OF m l] obtain j' out' where
    "base64_loop (b64_encode bs) (i + 2 + 1 + 1) (j + 1 + 1 + 1) ?o = Some (Some (j', out'))"
    "take j' out' = take (j + 1 + 1 + 1) ?o @ bs" by (elim exE conjE) (rule that, assumption+)
  moreover have "take (j + 1 + 1 + 1) ?o = take j out @ [a, b, c]" using j by (simp add: take_upd)
  ultimately show ?case using e by auto
qed simp

lemma b64_length: "length (b64_encode bs) mod 4 = 0"
  by (induction bs rule: b64_encode.induct) simp_all

lemma and_3: "(n :: nat) AND 3 = n mod 4"
proof -
  have "(3 :: nat) = mask 2" by (simp add: mask_eq_exp_minus_1)
  then have "n AND 3 = take_bit 2 n" by (metis take_bit_eq_mask)
  then show ?thesis by (simp add: take_bit_eq_mod)
qed

lemma b64_roundtrip:
  assumes "length (b64_encode bs) < length fresh"
  shows "str_fromBase64 fresh (b64_encode bs) = Some bs"
proof -
  have "length (b64_encode bs) AND 3 = 0" using b64_length[of bs] by (simp add: and_3)
  moreover have "length (b64_encode bs) < length (fresh[0 := 0])" using assms by simp
  then obtain j' out' where "base64_loop (b64_encode bs) 0 0 (fresh[0 := 0]) = Some (Some (j', out'))" "take j' out' = bs"
    using b64_ok[of 0 0 bs "fresh[0 := 0]"] by auto
  moreover have "fresh \<noteq> []" using assms by auto
  ultimately show ?thesis by (simp add: str_fromBase64_def)
qed

lemma sint_small: "unat (x :: byte) < 128 \<Longrightarrow> sint x = int (unat x)"
proof -
  assume "unat x < 128"
  then have "int (unat x) < int 128" by (rule of_nat_less_iff[THEN iffD2])
  then have "uint x < 128" by simp
  then have "sint x = uint x" unfolding sint_uint by (intro signed_take_bit_int_eq_self) (simp_all add: order_trans[OF _ uint_ge_0])
  then show "sint x = int (unat x)" by simp
qed

lemma sint_big: "128 \<le> unat (x :: byte) \<Longrightarrow> sint x < 0"
proof -
  assume "128 \<le> unat x"
  then have "128 \<le> uint x" "uint x < 256"
    using unsigned_less[of x, where 'a = int] of_nat_le_iff[of 128 "unat x", where 'a = int, THEN iffD2] by simp_all
  then have "uint x div 128 = 1" by (intro div_pos_geq[THEN trans]) simp_all
  then have "bit (uint x) 7" by (simp add: bit_iff_odd)
  then show "sint x < 0" by (simp add: sint_uint signed_take_bit_negative_iff)
qed

text \<open>The characters that have a value of six bits.\<close>

definition b64_digit :: "byte \<Rightarrow> bool" where
  "b64_digit x \<longleftrightarrow> unat x < length base64de \<and> base64de ! unat x \<noteq> 255"

lemma b64_digit_alphabet: "b64_digit x \<longleftrightarrow> x \<in> set b64_alphabet"
proof -
  have t: "list_all (\<lambda>n. base64de ! n \<noteq> 255 \<longleftrightarrow> of_nat n \<in> set b64_alphabet) [0..<123]" by code_simp
  then have "base64de ! unat x \<noteq> 255 \<longleftrightarrow> x \<in> set b64_alphabet" if "unat x < 123"
    using that unfolding list_all_iff by (metis atLeastLessThan_iff set_upt le0 of_nat_unat ucast_id)
  moreover have "unat x < 123" if "x \<in> set b64_alphabet" using that b64_table(2) by (auto simp: list_all_iff)
  ultimately show ?thesis by (auto simp: b64_digit_def b64_table(4))
qed

text \<open>The loop leaves its table if and only if it comes to a byte from 128 on.\<close>

fun b64_overruns :: "byte list \<Rightarrow> bool" where
  "b64_overruns [] \<longleftrightarrow> False"
| "b64_overruns (x # s) \<longleftrightarrow> 128 \<le> unat x \<or> b64_digit x \<and> b64_overruns s"

lemma b64_overruns_iff:
  "b64_overruns s \<longleftrightarrow> (\<exists>us c vs. s = us @ c # vs \<and> 128 \<le> unat c \<and> (\<forall>u\<in>set us. b64_digit u))"
proof (induction s)
  case (Cons x s)
  have "b64_overruns (x # s)" if "x # s = us @ c # vs" "128 \<le> unat c" "\<forall>u\<in>set us. b64_digit u" for us c vs
    using that Cons by (cases us) auto
  moreover have "\<exists>us c vs. x # s = us @ c # vs \<and> 128 \<le> unat c \<and> (\<forall>u\<in>set us. b64_digit u)" if o: "b64_overruns (x # s)"
  proof (cases "128 \<le> unat x")
    case True
    then show ?thesis by (intro exI[of _ "[]"]) simp
  next
    case False
    then obtain us c vs where "s = us @ c # vs" "128 \<le> unat c" "\<forall>u\<in>set us. b64_digit u" "b64_digit x"
      using o Cons by auto
    then show ?thesis by (intro exI[of _ "x # us"]) auto
  qed
  ultimately show ?case by blast
qed simp

lemma b64_overruns_alphabet:
  "b64_overruns s \<longleftrightarrow> (\<exists>us c vs. s = us @ c # vs \<and> 128 \<le> unat c \<and> set us \<subseteq> set b64_alphabet)"
  unfolding b64_overruns_iff subset_iff b64_digit_alphabet by blast

lemma b64_reads_table:
  assumes "j + length s < length out"
  shows "base64_loop s i j out = None \<longleftrightarrow> b64_overruns s"
  using assms
proof (induction s arbitrary: i j out)
  case (Cons x s)
  have z: "sint (of_char CHR ''z'' :: byte) = 122" by simp
  show ?case
  proof (cases "unat x < 123")
    case True
    then have "\<not> 122 < int (unat x)" by linarith
    moreover have "sint x = int (unat x)" using True by (intro sint_small) simp
    ultimately have n: "\<not> sint x > sint (of_char CHR ''z'' :: byte)" "\<not> unat x \<ge> length base64de" "\<not> 128 \<le> unat x"
      using True unfolding z by (simp_all only: b64_table(4)) simp_all
    have j: "j < length out" "j + 1 < length out" using Cons.prems by simp_all
    show ?thesis
    proof (cases "base64de ! unat x = 255")
      case True
      then show ?thesis using n unfolding base64_loop.simps(2) Let_def if_not_P[OF n(1)] if_not_P[OF n(2)]
        by (simp add: b64_digit_def)
    next
      case False
      have IH: "base64_loop s i' j' out' = None \<longleftrightarrow> b64_overruns s" if "j' \<le> j + 1" "length out' = length out" for i' j' out'
        using that Cons.prems by (intro Cons.IH) simp
      have "b64_overruns (x # s) \<longleftrightarrow> b64_overruns s" using n False by (simp add: b64_digit_def)
      then show ?thesis
        unfolding base64_loop.simps(2) Let_def if_not_P[OF n(1)] if_not_P[OF n(2)] if_not_P[OF False] if_P[OF j(1)] if_P[OF j(2)]
        by (simp add: IH)
    qed
  next
    case False
    then have nd: "\<not> b64_digit x" by (simp add: b64_digit_def b64_table(4))
    show ?thesis
    proof (cases "unat x < 128")
      case True
      have "122 < int (unat x)" using False by linarith
      then have g: "sint x > sint (of_char CHR ''z'' :: byte)" unfolding sint_small[OF True] z .
      show ?thesis unfolding base64_loop.simps(2) if_P[OF g] using nd True by simp
    next
      case big: False
      then have g: "\<not> sint x > sint (of_char CHR ''z'' :: byte)" "unat x \<ge> length base64de"
        using sint_big[of x] unfolding z by (simp_all add: b64_table(4))
      show ?thesis unfolding base64_loop.simps(2) if_not_P[OF g(1)] if_P[OF g(2)] using big by simp
    qed
  qed
qed simp

section \<open>Properties\<close>

text \<open>C13. Splitting without \<^verbatim>\<open>skipEmpty\<close> and joining are inverse to each other: joining the tokens
  with the separator gives the string back, splitting a joined list gives the tokens back if none
  contains the separator; with \<^verbatim>\<open>skipEmpty\<close> the empty tokens are left out, and the overload for sets
  has the same tokens once.\<close>

theorem string_split_join:
  assumes "0 \<notin> set s" "sep \<noteq> 0" "ts \<noteq> []" "\<forall>t\<in>set ts. 0 \<notin> set t \<and> sep \<notin> set t"
  shows "str_join (str_split s [sep] False) sep = s \<and>
    str_split (str_join ts sep) [sep] False = ts \<and>
    str_split s seps True = filter (\<lambda>t. t \<noteq> []) (str_split s seps False) \<and>
    (\<forall>t\<in>set (str_split s seps False). \<forall>c\<in>set (cstr seps). c \<notin> set t) \<and>
    distinct (str_split_set s seps skip) \<and> set (str_split_set s seps skip) = set (str_split s seps skip)"
proof (intro conjI)
  have sep: "is_sep [sep] = (\<lambda>x. x = sep)" using assms(2) by (auto simp: is_sep_def fun_eq_iff)
  show "str_join (str_split s [sep] False) sep = s" using assms(1) by (simp add: str_split_ok sep join_fields)
  have "0 \<notin> set (str_join ts sep)" using join_nonzero[of sep ts] assms(2,4) by blast
  then show "str_split (str_join ts sep) [sep] False = ts"
    using fields_join[of ts sep] assms(3,4) by (simp add: str_split_ok sep)
  show "str_split s seps True = filter (\<lambda>t. t \<noteq> []) (str_split s seps False)" using assms(1) by (simp add: str_split_ok)
  show "\<forall>t\<in>set (str_split s seps False). \<forall>c\<in>set (cstr seps). c \<notin> set t"
    using fields_no[of "is_sep seps" s] assms(1) by (auto simp: str_split_ok is_sep_def)
qed (use fold_set_append[of "[]" "str_split s seps skip"] in \<open>simp_all add: str_split_set_ok\<close>)

theorem string_split_join_witness:
  "str_join (str_split (lit ''a,,b'') (lit '','') False) (of_char CHR '','') = lit ''a,,b'' \<and>
   str_split (lit ''a,,b'') (lit '','') False = [lit ''a'', [], lit ''b'']"
proof -
  let ?c = "of_char CHR '','' :: byte"
  have "0 \<notin> set (lit ''a,,b'')" "?c \<noteq> 0" "[lit ''a'', [], lit ''b''] \<noteq> []"
    "\<forall>t\<in>set [lit ''a'', [], lit ''b'']. 0 \<notin> set t \<and> ?c \<notin> set t" by simp_all
  from string_split_join[OF this, of "[]" True] show ?thesis by simp
qed

text \<open>C14. \<^verbatim>\<open>replace\<close> with a needle that is not empty ends and replaces every occurrence from left to
  right; with an empty needle it never ends, whatever the string.\<close>

theorem string_replace_ends:
  assumes "0 \<notin> set s" "0 \<notin> set needle"
  shows "str_replace s needle r = (if needle = [] then None else Some (replace_all needle r s))"
  using str_replace_ok[OF assms] by (simp add: str_replace_empty)

theorem string_replace_ends_witness:
  "str_replace (lit ''abab'') (lit ''b'') (lit ''xy'') = Some (lit ''axyaxy'') \<and> str_replace (lit ''ab'') [] (lit ''x'') = None"
proof
  have "str_replace (lit ''abab'') (lit ''b'') (lit ''xy'') = Some (replace_all (lit ''b'') (lit ''xy'') (lit ''abab''))"
    using string_replace_ends[of "lit ''abab''" "lit ''b''" "lit ''xy''"] by simp
  then show "str_replace (lit ''abab'') (lit ''b'') (lit ''xy'') = Some (lit ''axyaxy'')" by (simp add: replace_all.simps)
  show "str_replace (lit ''ab'') [] (lit ''x'') = None"
    using string_replace_ends[of "lit ''ab''" "[]" "lit ''x''"] by simp
qed

text \<open>\<^verbatim>\<open>compare\<close> is negative, zero and positive as the bytes up to the first zero are
  lexicographically below, equal or above, the bytes unsigned; with a length it looks at that many
  bytes only, and \<^verbatim>\<open>compareIgnoreCase\<close> at the bytes in lower case.\<close>

theorem string_compare_order:
  "(str_compare s t < 0 \<longleftrightarrow> byte_less (cstr s) (cstr t)) \<and> (str_compare s t = 0 \<longleftrightarrow> cstr s = cstr t) \<and>
   (str_compare_n s t n < 0 \<longleftrightarrow> byte_less (take n (cstr s)) (take n (cstr t))) \<and>
   (str_compare_n s t n = 0 \<longleftrightarrow> take n (cstr s) = take n (cstr t)) \<and>
   (str_compareIgnoreCase s t < 0 \<longleftrightarrow> byte_less (map c_toLowerCase (cstr s)) (map c_toLowerCase (cstr t))) \<and>
   (str_compareIgnoreCase s t = 0 \<longleftrightarrow> map c_toLowerCase (cstr s) = map c_toLowerCase (cstr t))"
proof -
  have "0 \<notin> set (take n (cstr u))" for u by (meson cstr_nonzero in_set_takeD)
  moreover have "0 \<notin> set (map c_toLowerCase (cstr u))" for u
    using lower_zero cstr_nonzero[of u] by (auto simp: eq_commute[of 0])
  ultimately show ?thesis
    unfolding str_compare_def str_compare_n_def str_compareIgnoreCase_def c_compare_eq c_compare_n_eq c_compareIgnoreCase_eq
    by (simp add: list_compare_sign)
qed

text \<open>C15. \<^verbatim>\<open>fromBase64\<close> decodes what the encoding of RFC 4648 makes of any bytes, whatever the memory
  of the new string holds.\<close>

theorem string_base64_roundtrip:
  assumes "length (b64_encode bs) < length fresh"
  shows "str_fromBase64 fresh (b64_encode bs) = Some bs"
  by (rule b64_roundtrip[OF assms])

theorem string_base64_roundtrip_witness:
  "str_fromBase64 (replicate 9 7) (lit ''aGVsbG8='') = Some (lit ''hello'')"
proof -
  have e: "b64_encode (lit ''hello'') = lit ''aGVsbG8=''" by (simp add: b64_char_def b64_alphabet_def)
  show ?thesis using string_base64_roundtrip[of "lit ''hello''" "replicate 9 7"] unfolding e by simp
qed

text \<open>C16. What is read out of bounds. \<^verbatim>\<open>fromBase64\<close> never writes behind the memory it has reserved, and it reads behind
  the end of its table exactly when the length is a multiple of four and a byte from 128 on comes after
  nothing but characters of the alphabet, since the comparison with \<^verbatim>\<open>'z'\<close> is signed; an
  invalid character or a padding character in front of such a byte ends the loop before. \<^verbatim>\<open>findLast\<close> of a needle gives the
  last match, but an empty needle makes it read behind the end of the string, whatever the string.\<close>

theorem string_reads_out_of_bounds:
  assumes "length s < length fresh"
  shows "(str_fromBase64 fresh s = None \<longleftrightarrow>
      length s mod 4 = 0 \<and> (\<exists>us c vs. s = us @ c # vs \<and> 128 \<le> unat c \<and> set us \<subseteq> set b64_alphabet)) \<and>
   (cstr str \<noteq> [] \<longrightarrow> str_findLast_str s str = Some (last_match (\<lambda>t. strstr t str) (cstr s))) \<and>
   (cstr str = [] \<longrightarrow> str_findLast_str s str = None)"
proof (intro conjI impI)
  have "fresh \<noteq> []" "0 + length s < length (fresh[0 := 0])" using assms by auto
  then show "str_fromBase64 fresh s = None \<longleftrightarrow>
      length s mod 4 = 0 \<and> (\<exists>us c vs. s = us @ c # vs \<and> 128 \<le> unat c \<and> set us \<subseteq> set b64_alphabet)"
    unfolding b64_overruns_alphabet[symmetric] str_fromBase64_def
    using b64_reads_table[of 0 s "fresh[0 := 0]" 0] by (auto simp: and_3 split: option.split)
next
  assume "cstr str \<noteq> []"
  then show "str_findLast_str s str = Some (last_match (\<lambda>t. strstr t str) (cstr s))" by (rule findLast_str_ok)
next
  assume "cstr str = []"
  then show "str_findLast_str s str = None" using findLast_empty[of str 0 "cstr s"]
    by (simp add: str_findLast_str_def strstr_empty)
qed

theorem string_reads_out_of_bounds_witness:
  "str_fromBase64 (replicate 5 0) (lit ''QQ=='') \<noteq> None \<and>
   str_fromBase64 (replicate 5 0) (lit ''QQ'' @ [0xE4, 0x3D]) = None \<and>
   str_findLast_str (lit ''aba'') (lit ''a'') = Some (Some 2) \<and> str_findLast_str (lit ''ab'') [] = None"
proof -
  have m: "last_match (\<lambda>t. strstr t (lit ''a'')) (cstr (lit ''aba'')) = Some 2"
  proof -
    have "[0..<3] = [0, 1, 2 :: nat]" by (simp add: upt_rec)
    then show ?thesis by (simp add: last_match_def strstr_def)
  qed
  have q: "b64_digit 0x51" "\<not> b64_digit 0x3D" by (code_simp, code_simp)
  have "\<not> b64_overruns (lit ''QQ=='')" using q by simp
  then have "str_fromBase64 (replicate 5 0) (lit ''QQ=='') \<noteq> None"
    using string_reads_out_of_bounds[of "lit ''QQ==''" "replicate 5 0" "[]"] unfolding b64_overruns_alphabet by simp
  moreover have "b64_overruns (lit ''QQ'' @ [0xE4, 0x3D])" using q by simp
  then have "str_fromBase64 (replicate 5 0) (lit ''QQ'' @ [0xE4, 0x3D]) = None"
    using string_reads_out_of_bounds[of "lit ''QQ'' @ [0xE4, 0x3D]" "replicate 5 0" "[]"] unfolding b64_overruns_alphabet by simp
  moreover have "str_findLast_str (lit ''aba'') (lit ''a'') = Some (Some 2)"
    using string_reads_out_of_bounds[of "lit ''aba''" "replicate 5 0" "lit ''a''"] m by simp
  moreover have "str_findLast_str (lit ''ab'') [] = None"
    using string_reads_out_of_bounds[of "lit ''ab''" "replicate 5 0" "[]"] by simp
  ultimately show ?thesis by blast
qed

end
