(* ===== verification/Nstd_Unicode.thy ===== *)
theory Nstd_Unicode
  imports Nstd_CString
begin

text \<open>
  \<^verbatim>\<open>Unicode\<close> (include/nstd/Unicode.hpp), the variant for 8-bit characters: encoding a code point as
  UTF-8, decoding the first one of a string and checking a string. The machine words are those of
  the code; the encoding is compared with the arithmetic description of UTF-8 in RFC 3629.
\<close>

section \<open>Operations\<close>

text \<open>\<^verbatim>\<open>append\<close>: the result of the call and the string after it.\<close>

definition uni_append :: "32 word \<Rightarrow> byte list \<Rightarrow> bool \<times> byte list" where
  "uni_append ch str =
     (if ch AND NOT (0x80 - 1) = 0 then (True, str @ [ucast ch])
      else if ch AND NOT (0x800 - 1) = 0 then
        (True, str @ [ucast (drop_bit 6 ch OR 0xC0), ucast ((ch AND 0x3F) OR 0x80)])
      else if ch AND NOT (0x10000 - 1) = 0 then
        (True, str @ [ucast (drop_bit 12 ch OR 0xE0), ucast ((drop_bit 6 ch AND 0x3F) OR 0x80),
                      ucast ((ch AND 0x3F) OR 0x80)])
      else if ch < 0x110000 then
        (True, str @ [ucast (drop_bit 18 ch OR 0xF0), ucast ((drop_bit 12 ch AND 0x3F) OR 0x80),
                      ucast ((drop_bit 6 ch AND 0x3F) OR 0x80), ucast ((ch AND 0x3F) OR 0x80)])
      else (False, str))"

fun uni_append_loop :: "32 word list \<Rightarrow> bool \<Rightarrow> byte list \<Rightarrow> bool \<times> byte list" where
  "uni_append_loop [] result str = (result, str)"
| "uni_append_loop (ch # data) result str =
     (let (r, str1) = uni_append ch str in uni_append_loop data (result \<and> r) str1)"

definition uni_append_all :: "32 word list \<Rightarrow> byte list \<Rightarrow> bool \<times> byte list" where
  "uni_append_all data str = uni_append_loop data True str"

definition uni_toString :: "32 word \<Rightarrow> byte list" where
  "uni_toString ch = snd (uni_append ch [])"

definition uni_toString_all :: "32 word list \<Rightarrow> byte list" where
  "uni_toString_all data = snd (uni_append_all data [])"

definition uni_length :: "byte \<Rightarrow> nat" where
  "uni_length ch =
     (if ch AND 0x80 = 0 then 1
      else if ch AND 0xe0 = 0xc0 then 2
      else if ch AND 0xf0 = 0xe0 then 3
      else if ch AND 0xf8 = 0xf0 then 4
      else 0)"

definition utf8Offsets :: "32 word list" where
  "utf8Offsets = [0, 0, 0x00003080, 0x000E2080, 0x03C82080]"

text \<open>\<^verbatim>\<open>fromString(ch, len)\<close> with \<open>s\<close> the memory from \<^verbatim>\<open>ch\<close> on; the cases of the \<^verbatim>\<open>switch\<close> fall through.\<close>

definition uni_fromString :: "byte list \<Rightarrow> nat \<Rightarrow> 32 word" where
  "uni_fromString s len =
     (if len = 0 then 0
      else if s ! 0 AND 0x80 = 0 then ucast (s ! 0)
      else
        let reqLen = uni_length (s ! 0) in
        if len < reqLen then 0
        else
          (let (r4, p4) = (if reqLen = 4 then (push_bit 6 (ucast (s ! 0)), 1) else (0, 0));
               (r3, p3) = (if reqLen = 4 \<or> reqLen = 3 then (push_bit 6 (r4 + ucast (s ! p4)), p4 + 1) else (r4, p4));
               (r2, p2) = (if reqLen = 4 \<or> reqLen = 3 \<or> reqLen = 2 then (push_bit 6 (r3 + ucast (s ! p3)), p3 + 1) else (r3, p3));
               r1 = r2 + ucast (s ! p2)
           in r1 - utf8Offsets ! reqLen))"

text \<open>\<^verbatim>\<open>isValid(ch, len)\<close> on the \<^verbatim>\<open>len\<close> bytes that are left.\<close>

function uni_isValid :: "byte list \<Rightarrow> bool" where
  "uni_isValid s =
     (if s = [] then True
      else
        let minLen = uni_length (s ! 0) in
        if length s < minLen then False
        else if minLen = 4 then
          (if (ucast (s ! 1) OR push_bit 8 (ucast (s ! 2)) OR push_bit 16 (ucast (s ! 3) :: 32 word)) AND 0xc0c0c0 \<noteq> 0x808080
           then False else uni_isValid (drop 4 s))
        else if minLen = 3 then
          (if (ucast (s ! 1) OR push_bit 8 (ucast (s ! 2) :: 32 word)) AND 0xc0c0 \<noteq> 0x8080
           then False else uni_isValid (drop 3 s))
        else if minLen = 2 then (if s ! 1 AND 0xc0 \<noteq> 0x80 then False else uni_isValid (drop 2 s))
        else if minLen = 1 then uni_isValid (drop 1 s)
        else False)"
  by pat_completeness auto
termination
  by (relation "measure length") auto

declare uni_isValid.simps [simp del]

section \<open>The encoding scheme of UTF-8\<close>

text \<open>The bytes of a number below \<^verbatim>\<open>0x110000\<close> by the table in section 3 of RFC 3629. The RFC takes the surrogates, from
  \<^verbatim>\<open>0xD800\<close> to \<^verbatim>\<open>0xDFFF\<close>, out of its scheme; this function, as the code, does not.\<close>

definition utf8 :: "nat \<Rightarrow> byte list" where
  "utf8 n =
     (if n < 0x80 then [of_nat n]
      else if n < 0x800 then [of_nat (0xC0 + n div 64), of_nat (0x80 + n mod 64)]
      else if n < 0x10000 then [of_nat (0xE0 + n div 4096), of_nat (0x80 + n div 64 mod 64), of_nat (0x80 + n mod 64)]
      else [of_nat (0xF0 + n div 262144), of_nat (0x80 + n div 4096 mod 64), of_nat (0x80 + n div 64 mod 64),
            of_nat (0x80 + n mod 64)])"

lemma and_not_mask: "(w :: 32 word) AND NOT (mask n) = 0 \<longleftrightarrow> unat w < 2 ^ n"
proof -
  have "w AND NOT (mask n) = 0 \<longleftrightarrow> take_bit n w = w"
    by (auto simp: bit_eq_iff bit_simps)
  also have "\<dots> \<longleftrightarrow> unat w < 2 ^ n"
    by (simp add: word_unat_eq_iff unsigned_take_bit_eq take_bit_nat_eq_self_iff)
  finally show ?thesis .
qed

lemma tests:
  fixes ch :: "32 word"
  shows "ch AND NOT (0x80 - 1) = 0 \<longleftrightarrow> unat ch < 0x80" "ch AND NOT (0x800 - 1) = 0 \<longleftrightarrow> unat ch < 0x800"
    "ch AND NOT (0x10000 - 1) = 0 \<longleftrightarrow> unat ch < 0x10000" "ch < 0x110000 \<longleftrightarrow> unat ch < 0x110000"
  using and_not_mask[of ch 7] and_not_mask[of ch 11] and_not_mask[of ch 16]
  by (simp_all add: mask_eq_exp_minus_1 word_less_nat_alt)

lemma or_byte:
  fixes w v :: "32 word"
  assumes "unat w < 2 ^ k" "v AND mask k = 0" "unat w + unat v < 256"
  shows "(ucast (w OR v) :: byte) = of_nat (unat v + unat w)"
proof -
  have "take_bit k w = w" using assms(1) by (simp add: word_unat_eq_iff unsigned_take_bit_eq take_bit_nat_eq_self_iff)
  then have "w AND v = (w AND mask k) AND v" by (simp add: take_bit_eq_mask)
  also have "\<dots> = w AND (v AND mask k)" by (simp only: and.assoc and.commute[of "mask k" v])
  finally have "w AND v = 0" using assms(2) by simp
  then have "w OR v = w + v" by (simp add: disjunctive_add_eq_or)
  moreover have "unat (w + v) = unat w + unat v" using assms(3) by (simp add: unat_word_ariths)
  ultimately have "(of_nat (unat (w OR v)) :: byte) = of_nat (unat v + unat w)" by (simp add: add.commute)
  then show ?thesis by simp
qed

lemma six_bits: "unat ((w AND 0x3F) :: 32 word) = unat w mod 64"
proof -
  have "(0x3F :: 32 word) = mask 6" by (simp add: mask_eq_exp_minus_1)
  then have "w AND 0x3F = take_bit 6 w" by (metis take_bit_eq_mask)
  then show ?thesis by (simp only: unsigned_take_bit_eq) (simp add: take_bit_eq_mod)
qed

lemma cont_byte: "(ucast ((w AND 0x3F) OR 0x80 :: 32 word) :: byte) = of_nat (0x80 + unat w mod 64)"
  using or_byte[of "w AND 0x3F" 6 "0x80"] by (simp add: six_bits mask_eq_exp_minus_1)

lemma shifted: "unat (drop_bit n (w :: 32 word)) = unat w div 2 ^ n"
  by (simp only: unat_drop_bit_eq) (simp add: drop_bit_eq_div)

lemma uni_append_ok: "uni_append ch s = (if unat ch < 0x110000 then (True, s @ utf8 (unat ch)) else (False, s))"
proof -
  let ?n = "unat ch"
  have u1: "(ucast ch :: byte) = of_nat ?n" by simp
  have u2: "(ucast (drop_bit 6 ch OR 0xC0) :: byte) = of_nat (0xC0 + ?n div 64)" if "?n < 0x800"
    using or_byte[of "drop_bit 6 ch" 5 "0xC0"] that by (simp add: shifted mask_eq_exp_minus_1 less_mult_imp_div_less)
  have u3: "(ucast (drop_bit 12 ch OR 0xE0) :: byte) = of_nat (0xE0 + ?n div 4096)" if "?n < 0x10000"
    using or_byte[of "drop_bit 12 ch" 4 "0xE0"] that by (simp add: shifted mask_eq_exp_minus_1 less_mult_imp_div_less)
  have u4: "(ucast (drop_bit 18 ch OR 0xF0) :: byte) = of_nat (0xF0 + ?n div 262144)" if "?n < 0x110000"
    using or_byte[of "drop_bit 18 ch" 3 "0xF0"] that by (simp add: shifted mask_eq_exp_minus_1 less_mult_imp_div_less)
  show ?thesis
    unfolding uni_append_def tests cont_byte shifted utf8_def using u1 u2 u3 u4 by simp
qed

section \<open>Lengths and continuation bytes\<close>

lemma byte_table:
  assumes "list_all (\<lambda>n. P (of_nat n :: byte)) [0..<256]"
  shows "P b"
proof -
  have "unat b \<in> set [0..<256]" using unsigned_less[of b, where 'a = nat] by simp
  with assms have "P (of_nat (unat b))" by (simp only: list_all_iff)
  then show ?thesis by simp
qed

lemma bytes_upt: "[0..<256] = 0 # 1 # [2..<256 :: nat]"
proof -
  have "[0..<256] = 0 # [Suc 0..<256]" by (rule upt_conv_Cons) simp
  moreover have "[Suc 0..<256] = Suc 0 # [Suc (Suc 0)..<256]" by (rule upt_conv_Cons) simp
  ultimately show ?thesis by (simp only: One_nat_def numeral_2_eq_2)
qed

lemma uni_length_eq:
  "uni_length b = (if unat b < 128 then 1 else if unat b < 192 then 0 else if unat b < 224 then 2
     else if unat b < 240 then 3 else if unat b < 248 then 4 else 0)"
  by (rule byte_table) (simp add: bytes_upt upt_rec_numeral uni_length_def)

lemma cont_eq: "(b :: byte) AND 0xc0 = 0x80 \<longleftrightarrow> 128 \<le> unat b \<and> unat b < 192"
  by (rule byte_table) (simp add: bytes_upt upt_rec_numeral)

lemma ascii_eq: "(b :: byte) AND 0x80 = 0 \<longleftrightarrow> unat b < 128"
  by (rule byte_table) (simp add: bytes_upt upt_rec_numeral)

definition is_cont :: "byte \<Rightarrow> bool" where
  "is_cont b \<longleftrightarrow> 128 \<le> unat b \<and> unat b < 192"

lemma cont_iff: "(b :: byte) AND 0xc0 = 0x80 \<longleftrightarrow> is_cont b"
  by (simp add: is_cont_def cont_eq)

lemma and_eq_bits:
  fixes X m v :: "32 word"
  assumes "v AND m = v"
  shows "X AND m = v \<longleftrightarrow> list_all (\<lambda>i. bit m i \<longrightarrow> bit X i = bit v i) [0..<32]"
proof -
  have v: "bit v i \<longrightarrow> bit m i" for i using arg_cong[OF assms, of "\<lambda>w. bit w i"] by (auto simp: bit_and_iff)
  have "X AND m = v \<longleftrightarrow> (\<forall>i<32. (bit X i \<and> bit m i) = bit v i)" by (simp add: bit_eq_iff bit_and_iff)
  also have "\<dots> \<longleftrightarrow> (\<forall>i<32. bit m i \<longrightarrow> bit X i = bit v i)" using v by (auto dest: bit_imp_le_length)
  finally show ?thesis by (auto simp: list_all_iff)
qed

lemma cont_bits: "is_cont b \<longleftrightarrow> bit b 7 \<and> \<not> bit b 6"
  unfolding is_cont_def by (rule byte_table) (simp add: bytes_upt upt_rec_numeral)

lemma bits_upt: "[0..<32] = 0 # 1 # [2..<32 :: nat]"
  by (simp add: upt_conv_Cons numeral_2_eq_2)

lemma byte_bit_high: "8 \<le> n \<Longrightarrow> \<not> bit (w :: byte) n"
  by (auto dest: bit_imp_le_length)

lemma cont_two:
  "(ucast (a :: byte) OR push_bit 8 (ucast (b :: byte)) :: 32 word) AND 0xc0c0 = 0x8080 \<longleftrightarrow> is_cont a \<and> is_cont b"
  by (subst and_eq_bits) (auto simp: bits_upt upt_rec_numeral bit_simps cont_bits byte_bit_high)

lemma cont_three:
  "(ucast (a :: byte) OR push_bit 8 (ucast (b :: byte)) OR push_bit 16 (ucast (c :: byte)) :: 32 word)
     AND 0xc0c0c0 = 0x808080 \<longleftrightarrow> is_cont a \<and> is_cont b \<and> is_cont c"
  by (subst and_eq_bits) (auto simp: bits_upt upt_rec_numeral bit_simps cont_bits byte_bit_high)

section \<open>Valid strings\<close>

text \<open>The sequences that \<^verbatim>\<open>isValid\<close> accepts: a lead byte and as many continuation bytes as it asks for.\<close>

definition utf8_seq :: "byte list \<Rightarrow> bool" where
  "utf8_seq q \<longleftrightarrow> q \<noteq> [] \<and> length q = uni_length (q ! 0) \<and> (\<forall>i. 0 < i \<and> i < length q \<longrightarrow> is_cont (q ! i))"

lemma all_between:
  "(\<forall>i. 0 < i \<and> i < Suc 0 \<longrightarrow> P i)" "(\<forall>i. 0 < i \<and> i < 2 \<longrightarrow> P i) \<longleftrightarrow> P 1"
  "(\<forall>i. 0 < i \<and> i < 3 \<longrightarrow> P i) \<longleftrightarrow> P 1 \<and> P 2"
  "(\<forall>i. 0 < i \<and> i < 4 \<longrightarrow> P i) \<longleftrightarrow> P 1 \<and> P 2 \<and> P (3 :: nat)"
  by (auto simp: numeral_eq_Suc less_Suc_eq)

lemma isValid_step:
  assumes "s \<noteq> []"
  shows "uni_isValid s \<longleftrightarrow> 0 < uni_length (s ! 0) \<and> uni_length (s ! 0) \<le> length s \<and>
     utf8_seq (take (uni_length (s ! 0)) s) \<and> uni_isValid (drop (uni_length (s ! 0)) s)"
proof -
  define n where "n = uni_length (s ! 0)"
  have n: "n = 0 \<or> n = 1 \<or> n = 2 \<or> n = 3 \<or> n = 4" by (auto simp: n_def uni_length_def)
  have seq: "utf8_seq (take n s) \<longleftrightarrow> (\<forall>i. 0 < i \<and> i < n \<longrightarrow> is_cont (s ! i))" if "0 < n" "n \<le> length s"
    using that assms by (auto simp: utf8_seq_def n_def)
  show ?thesis
  proof (cases "length s < n")
    case True
    then show ?thesis using assms by (simp add: uni_isValid.simps[of s] n_def Let_def)
  next
    case False
    then have le: "n \<le> length s" by simp
    show ?thesis
      using n assms seq[OF _ le] False
      by (elim disjE) (auto simp: uni_isValid.simps[of s] n_def[symmetric] Let_def cont_iff cont_two cont_three all_between Suc_le_eq)
  qed
qed

lemma isValid_iff: "uni_isValid s \<longleftrightarrow> (\<exists>qs. s = concat qs \<and> (\<forall>q\<in>set qs. utf8_seq q))"
proof
  show "uni_isValid s \<Longrightarrow> \<exists>qs. s = concat qs \<and> (\<forall>q\<in>set qs. utf8_seq q)"
  proof (induction "length s" arbitrary: s rule: less_induct)
    case less
    show ?case
    proof (cases "s = []")
      case False
      let ?n = "uni_length (s ! 0)"
      from less.prems[unfolded isValid_step[OF False]]
      have st: "0 < ?n" "?n \<le> length s" "utf8_seq (take ?n s)" "uni_isValid (drop ?n s)" by simp_all
      have "length (drop ?n s) < length s" using st(1) False by simp
      from less.hyps[OF this st(4)] obtain qs where "drop ?n s = concat qs" "\<forall>q\<in>set qs. utf8_seq q" by blast
      then show ?thesis using st(3) by (intro exI[of _ "take ?n s # qs"]) (metis append_take_drop_id concat.simps(2) set_ConsD)
    qed (auto intro: exI[of _ "[]"])
  qed
next
  have "\<forall>q\<in>set qs. utf8_seq q \<Longrightarrow> uni_isValid (concat qs)" for qs
  proof (induction qs)
    case (Cons q qs)
    have q: "q \<noteq> []" "length q = uni_length (q ! 0)" "utf8_seq q" using Cons.prems by (auto simp: utf8_seq_def)
    then have "concat (q # qs) ! 0 = q ! 0" by (cases q) simp_all
    moreover have "0 < uni_length (q ! 0)" using q by (metis length_greater_0_conv)
    ultimately show ?case using isValid_step[of "concat (q # qs)"] q Cons by simp
  qed (simp add: uni_isValid.simps)
  then show "\<exists>qs. s = concat qs \<and> (\<forall>q\<in>set qs. utf8_seq q) \<Longrightarrow> uni_isValid s" by blast
qed

section \<open>Encoding and decoding\<close>

lemma byte_unat: "n < 256 \<Longrightarrow> unat (of_nat n :: byte) = n"
  by (simp add: unsigned_of_nat take_bit_nat_eq_self)

lemma byte_ex: "n < 256 \<Longrightarrow> \<exists>b :: byte. of_nat n = b \<and> unat b = n"
  using byte_unat by blast

text \<open>The four forms of an encoded code point, by the numbers its bytes stand for.\<close>

lemma utf8_cases:
  assumes "n < 0x110000"
  obtains b where "utf8 n = [b]" "unat b = n" "n < 128"
  | b c where "utf8 n = [b, c]" "unat b = 192 + n div 64" "unat c = 128 + n mod 64" "n div 64 < 32"
  | b c d where "utf8 n = [b, c, d]" "unat b = 224 + n div 4096" "unat c = 128 + n div 64 mod 64"
      "unat d = 128 + n mod 64" "n div 4096 < 16"
  | b c d e where "utf8 n = [b, c, d, e]" "unat b = 240 + n div 262144" "unat c = 128 + n div 4096 mod 64"
      "unat d = 128 + n div 64 mod 64" "unat e = 128 + n mod 64" "n div 262144 < 5"
proof -
  have m: "128 + k mod 64 < 256" for k :: nat by (simp add: trans_less_add1)
  have q: "n < 128 \<Longrightarrow> n < 256" "n < 2048 \<Longrightarrow> n div 64 < 32" "n < 65536 \<Longrightarrow> n div 4096 < 16" "n div 262144 < 5"
    using assms by (auto simp: less_mult_imp_div_less)
  obtain x where x: "of_nat (128 + n mod 64) = (x :: byte)" "unat x = 128 + n mod 64" using byte_ex[OF m] by blast
  obtain y where y: "of_nat (128 + n div 64 mod 64) = (y :: byte)" "unat y = 128 + n div 64 mod 64" using byte_ex[OF m] by blast
  obtain z where z: "of_nat (128 + n div 4096 mod 64) = (z :: byte)" "unat z = 128 + n div 4096 mod 64" using byte_ex[OF m] by blast
  have u: "utf8 n = (if n < 128 then [of_nat n] else if n < 2048 then [of_nat (192 + n div 64), x]
     else if n < 65536 then [of_nat (224 + n div 4096), y, x] else [of_nat (240 + n div 262144), z, y, x])"
    unfolding utf8_def x(1) y(1) z(1) by (simp only: x(1) y(1) z(1))
  consider "n < 128" | "128 \<le> n" "n < 2048" | "2048 \<le> n" "n < 65536" | "65536 \<le> n" by linarith
  then show ?thesis
  proof cases
    case 1
    then show ?thesis using u byte_unat[of n] by (intro that(1)[of "of_nat n"]) simp_all
  next
    case 2
    obtain b where "of_nat (192 + n div 64) = (b :: byte)" "unat b = 192 + n div 64"
      using byte_ex[of "192 + n div 64"] q(2) 2 by auto
    with 2 u x q(2) show ?thesis by (intro that(2)[of b x]) simp_all
  next
    case 3
    obtain b where "of_nat (224 + n div 4096) = (b :: byte)" "unat b = 224 + n div 4096"
      using byte_ex[of "224 + n div 4096"] q(3) 3 by auto
    with 3 u x y q(3) show ?thesis by (intro that(3)[of b y x]) simp_all
  next
    case 4
    obtain b where "of_nat (240 + n div 262144) = (b :: byte)" "unat b = 240 + n div 262144"
      using byte_ex[of "240 + n div 262144"] q(4) 4 by auto
    with 4 u x y z q(4) show ?thesis by (intro that(4)[of b z y x]) simp_all
  qed
qed

lemma cont_mod: "unat (b :: byte) = 128 + k mod 64 \<Longrightarrow> is_cont b"
  by (simp add: is_cont_def)

lemma utf8_lead:
  assumes "n < 0x110000"
  shows "utf8 n \<noteq> []" "uni_length (utf8 n ! 0) = length (utf8 n)" "utf8_seq (utf8 n)"
proof -
  show ne: "utf8 n \<noteq> []" by (rule utf8_cases[OF assms]) simp_all
  show l: "uni_length (utf8 n ! 0) = length (utf8 n)" by (rule utf8_cases[OF assms]) (simp_all add: uni_length_eq)
  show "utf8_seq (utf8 n)"
    using ne l unfolding utf8_seq_def
    by - (rule utf8_cases[OF assms]; auto simp: less_Suc_eq cont_mod)
qed

lemma ucast_nat: "(ucast (b :: byte) :: 32 word) = of_nat (unat b)"
  by simp

lemma push_six: "push_bit 6 (of_nat k :: 32 word) = of_nat (k * 64)"
  by (simp add: push_bit_eq_mult)

lemma div_mod_parts:
  fixes n :: nat
  shows "n div 64 * 64 + n mod 64 = n"
    "(n div 4096 * 64 + n div 64 mod 64) * 64 + n mod 64 = n"
    "((n div 262144 * 64 + n div 4096 mod 64) * 64 + n div 64 mod 64) * 64 + n mod 64 = n"
proof -
  have a: "n div 4096 = n div 64 div 64" "n div 262144 = n div 64 div 64 div 64" by (simp_all add: div_mult2_eq[symmetric])
  show "n div 64 * 64 + n mod 64 = n" by simp
  show "(n div 4096 * 64 + n div 64 mod 64) * 64 + n mod 64 = n" unfolding a by simp
  show "((n div 262144 * 64 + n div 4096 mod 64) * 64 + n div 64 mod 64) * 64 + n mod 64 = n" unfolding a by simp
qed

lemma of_nat_sub: "a = n + k \<Longrightarrow> (of_nat a :: 32 word) - of_nat k = of_nat n"
  by simp

lemma fromString_parts:
  fixes b c d e :: byte
  shows "unat b < 128 \<Longrightarrow> 0 < len \<Longrightarrow> uni_fromString (b # r) len = of_nat (unat b)"
    and "192 \<le> unat b \<Longrightarrow> unat b < 224 \<Longrightarrow> 2 \<le> len \<Longrightarrow>
      uni_fromString (b # c # r) len = of_nat (unat b * 64 + unat c) - of_nat 0x3080"
    and "224 \<le> unat b \<Longrightarrow> unat b < 240 \<Longrightarrow> 3 \<le> len \<Longrightarrow>
      uni_fromString (b # c # d # r) len = of_nat ((unat b * 64 + unat c) * 64 + unat d) - of_nat 0xE2080"
    and "240 \<le> unat b \<Longrightarrow> unat b < 248 \<Longrightarrow> 4 \<le> len \<Longrightarrow>
      uni_fromString (b # c # d # e # r) len = of_nat (((unat b * 64 + unat c) * 64 + unat d) * 64 + unat e) - of_nat 0x3C82080"
proof -
  have p: "push_bit 6 (x :: 32 word) = x * 64" for x by (simp add: push_bit_eq_mult)
  show "unat b < 128 \<Longrightarrow> 0 < len \<Longrightarrow> uni_fromString (b # r) len = of_nat (unat b)"
    by (simp add: uni_fromString_def ascii_eq)
  show "192 \<le> unat b \<Longrightarrow> unat b < 224 \<Longrightarrow> 2 \<le> len \<Longrightarrow>
      uni_fromString (b # c # r) len = of_nat (unat b * 64 + unat c) - of_nat 0x3080"
    by (simp add: uni_fromString_def ascii_eq uni_length_eq utf8Offsets_def Let_def p)
  show "224 \<le> unat b \<Longrightarrow> unat b < 240 \<Longrightarrow> 3 \<le> len \<Longrightarrow>
      uni_fromString (b # c # d # r) len = of_nat ((unat b * 64 + unat c) * 64 + unat d) - of_nat 0xE2080"
    by (simp add: uni_fromString_def ascii_eq uni_length_eq utf8Offsets_def Let_def p)
  show "240 \<le> unat b \<Longrightarrow> unat b < 248 \<Longrightarrow> 4 \<le> len \<Longrightarrow>
      uni_fromString (b # c # d # e # r) len = of_nat (((unat b * 64 + unat c) * 64 + unat d) * 64 + unat e) - of_nat 0x3C82080"
    by (simp add: uni_fromString_def ascii_eq uni_length_eq utf8Offsets_def Let_def p algebra_simps)
qed

lemma fromString_utf8:
  assumes "n < 0x110000" "length (utf8 n) \<le> len"
  shows "uni_fromString (utf8 n @ r) len = of_nat n"
proof (rule utf8_cases[OF assms(1)])
  fix b
  assume "utf8 n = [b]" "unat b = n" "n < 128"
  then show ?thesis using fromString_parts(1)[of b len r] assms(2) by simp
next
  fix b c
  assume u: "utf8 n = [b, c]" "unat b = 192 + n div 64" "unat c = 128 + n mod 64" "n div 64 < 32"
  then have "uni_fromString (utf8 n @ r) len = of_nat (unat b * 64 + unat c) - of_nat 0x3080"
    using fromString_parts(2)[of b len c r] assms(2) by simp
  also have "\<dots> = of_nat n" by (rule of_nat_sub) (use div_mod_parts(1)[of n] in \<open>simp only: u(2,3)\<close>, simp)
  finally show ?thesis .
next
  fix b c d
  assume u: "utf8 n = [b, c, d]" "unat b = 224 + n div 4096" "unat c = 128 + n div 64 mod 64"
    "unat d = 128 + n mod 64" "n div 4096 < 16"
  then have "uni_fromString (utf8 n @ r) len = of_nat ((unat b * 64 + unat c) * 64 + unat d) - of_nat 0xE2080"
    using fromString_parts(3)[of b len c d r] assms(2) by simp
  also have "\<dots> = of_nat n" by (rule of_nat_sub) (use div_mod_parts(2)[of n] in \<open>simp only: u(2,3,4)\<close>, simp)
  finally show ?thesis .
next
  fix b c d e
  assume u: "utf8 n = [b, c, d, e]" "unat b = 240 + n div 262144" "unat c = 128 + n div 4096 mod 64"
    "unat d = 128 + n div 64 mod 64" "unat e = 128 + n mod 64" "n div 262144 < 5"
  then have "uni_fromString (utf8 n @ r) len = of_nat (((unat b * 64 + unat c) * 64 + unat d) * 64 + unat e) - of_nat 0x3C82080"
    using fromString_parts(4)[of b len c d e r] assms(2) by simp
  also have "\<dots> = of_nat n" by (rule of_nat_sub) (use div_mod_parts(3)[of n] in \<open>simp only: u(2-5)\<close>, simp)
  finally show ?thesis .
qed

section \<open>Properties\<close>

text \<open>A reader of a string that takes one code point after the other.\<close>

fun decode :: "nat \<Rightarrow> byte list \<Rightarrow> 32 word list" where
  "decode 0 s = []"
| "decode (Suc n) s = uni_fromString s (length s) # decode n (drop (uni_length (s ! 0)) s)"

lemma append_loop_ok:
  "\<forall>c\<in>set cs. unat c < 0x110000 \<Longrightarrow>
    uni_append_loop cs r s = (r, s @ concat (map (\<lambda>c. utf8 (unat c)) cs))"
  by (induction cs arbitrary: r s) (simp_all add: uni_append_ok)

lemma decode_ok:
  "\<forall>c\<in>set cs. unat c < 0x110000 \<Longrightarrow> decode (length cs) (concat (map (\<lambda>c. utf8 (unat c)) cs)) = cs"
proof (induction cs)
  case (Cons c cs)
  let ?r = "concat (map (\<lambda>c. utf8 (unat c)) cs)"
  have c: "unat c < 0x110000" using Cons.prems by simp
  have "(utf8 (unat c) @ ?r) ! 0 = utf8 (unat c) ! 0" using utf8_lead(1)[OF c] by (cases "utf8 (unat c)") simp_all
  moreover have "uni_fromString (utf8 (unat c) @ ?r) (length (utf8 (unat c) @ ?r)) = c"
    using fromString_utf8[OF c, of "length (utf8 (unat c) @ ?r)" ?r] by simp
  ultimately show ?case using Cons utf8_lead(2)[OF c] by simp
qed simp

text \<open>Surrogates are what the grammar of RFC 3629 leaves out among the sequences of three bytes that begin with \<^verbatim>\<open>0xED\<close>.\<close>

lemma surrogate_div: "0xD800 \<le> n \<and> n < 0xE000 \<longleftrightarrow> n div 4096 = 13 \<and> 32 \<le> n div 64 mod (64 :: nat)"
proof -
  define m where "m = n div 64"
  have "m div 64 = n div 4096" by (simp add: m_def div_mult2_eq[symmetric])
  moreover have "0xD800 \<le> n \<and> n < 0xE000 \<longleftrightarrow> 864 \<le> m \<and> m < 896" unfolding m_def by auto
  moreover have "864 \<le> m \<and> m < 896 \<longleftrightarrow> m div 64 = 13 \<and> 32 \<le> m mod 64"
  proof -
    define q r where "q = m div 64" and "r = m mod 64"
    have "m = 64 * q + r" "r < 64" by (simp_all add: q_def r_def)
    moreover from this have "864 \<le> m \<Longrightarrow> m < 896 \<Longrightarrow> q = 13" by linarith
    ultimately have "864 \<le> m \<and> m < 896 \<longleftrightarrow> q = 13 \<and> 32 \<le> r" by (cases "q = 13") auto
    then show ?thesis by (simp add: q_def r_def)
  qed
  ultimately show ?thesis by (simp add: m_def)
qed

lemma utf8_surrogate:
  assumes "n < 0x110000"
  shows "0xD800 \<le> n \<and> n < 0xE000 \<longleftrightarrow> utf8 n ! 0 = 0xED \<and> 0xA0 \<le> unat (utf8 n ! 1)"
proof -
  have ed: "b = 0xED \<longleftrightarrow> unat b = 237" for b :: byte by (simp add: word_unat_eq_iff)
  show ?thesis
    unfolding surrogate_div
  proof (rule utf8_cases[OF assms])
    fix b
    assume "utf8 n = [b]" "unat b = n" "n < 128"
    then show "n div 4096 = 13 \<and> 32 \<le> n div 64 mod 64 \<longleftrightarrow> utf8 n ! 0 = 0xED \<and> 0xA0 \<le> unat (utf8 n ! 1)"
      using ed[of b] by simp
  next
    fix b c
    assume u: "utf8 n = [b, c]" "unat b = 192 + n div 64" "n div 64 < 32"
    then have "n div 4096 = 0" "unat b \<noteq> 237" by simp_all
    then show "n div 4096 = 13 \<and> 32 \<le> n div 64 mod 64 \<longleftrightarrow> utf8 n ! 0 = 0xED \<and> 0xA0 \<le> unat (utf8 n ! 1)"
      using ed[of b] u(1) by simp
  next
    fix b c d
    assume "utf8 n = [b, c, d]" "unat b = 224 + n div 4096" "unat c = 128 + n div 64 mod 64"
    then show "n div 4096 = 13 \<and> 32 \<le> n div 64 mod 64 \<longleftrightarrow> utf8 n ! 0 = 0xED \<and> 0xA0 \<le> unat (utf8 n ! 1)"
      using ed[of b] by auto
  next
    fix b c d e
    assume u: "utf8 n = [b, c, d, e]" "unat b = 240 + n div 262144" "unat c = 128 + n div 4096 mod 64"
      "unat d = 128 + n div 64 mod 64" "unat e = 128 + n mod 64"
    then have "length (utf8 n) = 4" by simp
    then have "65536 \<le> n" by (simp add: utf8_def split: if_splits)
    then have "16 \<le> n div 4096" by auto
    moreover have "unat b \<noteq> 237" using u(2) by simp
    ultimately show "n div 4096 = 13 \<and> 32 \<le> n div 64 mod 64 \<longleftrightarrow> utf8 n ! 0 = 0xED \<and> 0xA0 \<le> unat (utf8 n ! 1)"
      using ed[of b] u(1) by simp
  qed
qed

text \<open>C17. The numbers below \<^verbatim>\<open>0x110000\<close>, the surrogates included, are appended by the encoding scheme of RFC 3629; the result
  passes \<^verbatim>\<open>isValid\<close>, and reading it code point by code point with \<^verbatim>\<open>fromString\<close> and \<^verbatim>\<open>length\<close> gives
  them back. For the surrogates, which the RFC forbids, and for no other number, the bytes are outside of its grammar: they begin with
  \<^verbatim>\<open>0xED\<close> and a byte from \<^verbatim>\<open>0xA0\<close> on.\<close>

theorem unicode_roundtrip:
  assumes "\<forall>c\<in>set cs. unat c < 0x110000"
  shows "uni_append_all cs s = (True, s @ concat (map (\<lambda>c. utf8 (unat c)) cs)) \<and>
    uni_isValid (uni_toString_all cs) \<and> decode (length cs) (uni_toString_all cs) = cs \<and>
    (\<forall>c\<in>set cs. 0xD800 \<le> unat c \<and> unat c < 0xE000 \<longleftrightarrow>
      uni_toString c ! 0 = 0xED \<and> 0xA0 \<le> unat (uni_toString c ! 1))"
proof (intro conjI ballI)
  have all: "uni_toString_all cs = concat (map (\<lambda>c. utf8 (unat c)) cs)"
    by (simp add: uni_toString_all_def uni_append_all_def append_loop_ok[OF assms])
  show "uni_append_all cs s = (True, s @ concat (map (\<lambda>c. utf8 (unat c)) cs))"
    by (simp add: uni_append_all_def append_loop_ok[OF assms])
  have "\<forall>q\<in>set (map (\<lambda>c. utf8 (unat c)) cs). utf8_seq q" using assms utf8_lead(3) by auto
  then show "uni_isValid (uni_toString_all cs)" unfolding all isValid_iff
    by (intro exI[of _ "map (\<lambda>c. utf8 (unat c)) cs"] conjI) simp_all
  show "decode (length cs) (uni_toString_all cs) = cs" using decode_ok[OF assms] all by simp
next
  fix c
  assume "c \<in> set cs"
  then have c: "unat c < 0x110000" using assms by blast
  then show "0xD800 \<le> unat c \<and> unat c < 0xE000 \<longleftrightarrow> uni_toString c ! 0 = 0xED \<and> 0xA0 \<le> unat (uni_toString c ! 1)"
    using utf8_surrogate[OF c] by (simp add: uni_toString_def uni_append_ok)
qed

theorem unicode_roundtrip_witness:
  "uni_toString_all [0x24, 0x20AC, 0x1F600] = [0x24, 0xE2, 0x82, 0xAC, 0xF0, 0x9F, 0x98, 0x80] \<and>
   decode 3 [0x24, 0xE2, 0x82, 0xAC, 0xF0, 0x9F, 0x98, 0x80] = [0x24, 0x20AC, 0x1F600]"
proof -
  let ?cs = "[0x24, 0x20AC, 0x1F600] :: 32 word list"
  have "\<forall>c\<in>set ?cs. unat c < 0x110000" by simp
  note t = unicode_roundtrip[OF this, of "[]"]
  have e: "concat (map (\<lambda>c. utf8 (unat c)) ?cs) = [0x24, 0xE2, 0x82, 0xAC, 0xF0, 0x9F, 0x98, 0x80]"
    by (simp add: utf8_def)
  have s: "uni_toString_all ?cs = [0x24, 0xE2, 0x82, 0xAC, 0xF0, 0x9F, 0x98, 0x80]"
    using conjunct1[OF t] unfolding e by (simp add: uni_toString_all_def)
  have "length ?cs = 3" by simp
  with conjunct1[OF conjunct2[OF conjunct2[OF t]]] have "decode 3 (uni_toString_all ?cs) = ?cs" by (simp only:)
  then show ?thesis unfolding s by (rule conjI[OF refl])
qed

text \<open>\<^verbatim>\<open>append\<close> refuses exactly the code points from \<^verbatim>\<open>0x110000\<close> on and then leaves the string
  alone; \<^verbatim>\<open>isValid\<close> accepts exactly the strings that are made of lead bytes followed by the
  continuation bytes they ask for. That includes overlong forms, surrogates and numbers above
  \<^verbatim>\<open>0x10FFFF\<close>, none of which UTF-8 allows.\<close>

theorem unicode_accepts:
  "(fst (uni_append ch s) \<longleftrightarrow> unat ch < 0x110000) \<and> (fst (uni_append ch s) \<or> snd (uni_append ch s) = s) \<and>
   (uni_isValid str \<longleftrightarrow> (\<exists>qs. str = concat qs \<and> list_all utf8_seq qs)) \<and>
   uni_isValid [0xC0, 0x80] \<and> uni_isValid [0xED, 0xA0, 0x80] \<and> uni_isValid [0xF7, 0xBF, 0xBF, 0xBF]"
proof (intro conjI)
  show "uni_isValid str \<longleftrightarrow> (\<exists>qs. str = concat qs \<and> list_all utf8_seq qs)" by (simp add: isValid_iff list_all_iff)
qed (simp_all add: uni_append_ok uni_isValid.simps uni_length_def)

end
