(* ===== verification/Nstd_Variant.thy ===== *)
theory Nstd_Variant
  imports Nstd_StringOps
begin

text \<open>
  The values of \<^verbatim>\<open>Variant\<close> (include/nstd/Variant.hpp): the tagged union, the conversions and the
  comparison. The integers keep their widths. Floating-point numbers belong to the C library and
  the compiler: their type and the operations on them that the code uses are the parameter \<open>fp\<close>.
  A map is the list of its pairs in their order, a list the list of its values; of an array the
  address of its memory is kept too, because the comparison of two arrays looks at it. The decimal
  conversions are those of \<^verbatim>\<open>strtol\<close> and \<^verbatim>\<open>printf\<close>.
\<close>

section \<open>Decimal numbers\<close>

definition is_digit :: "byte \<Rightarrow> bool" where
  "is_digit c \<longleftrightarrow> 48 \<le> c \<and> c \<le> 57"

definition is_white :: "byte \<Rightarrow> bool" where
  "is_white c \<longleftrightarrow> 9 \<le> c \<and> c \<le> 13 \<or> c = 32"

definition digits_value :: "byte list \<Rightarrow> nat" where
  "digits_value ds = foldl (\<lambda>n d. 10 * n + (unat d - 48)) 0 ds"

text \<open>The number at the start of a string, as \<^verbatim>\<open>strtol\<close> with base 10 reads it: white space, a sign,
  digits.\<close>

definition c_integer :: "byte list \<Rightarrow> int" where
  "c_integer s =
     (let t = dropWhile is_white s;
          u = (if at0 t = of_char CHR ''-'' \<or> at0 t = of_char CHR ''+'' then tl t else t);
          n = int (digits_value (takeWhile is_digit u))
      in if at0 t = of_char CHR ''-'' then - n else n)"

definition c_strtoll :: "byte list \<Rightarrow> 64 word" where
  "c_strtoll s = (let n = c_integer s in
     if n < - (2 ^ 63) then word_of_int (- (2 ^ 63)) else if n \<ge> 2 ^ 63 then word_of_int (2 ^ 63 - 1) else word_of_int n)"

definition c_strtoull :: "byte list \<Rightarrow> 64 word" where
  "c_strtoull s = (let n = c_integer s in if \<bar>n\<bar> \<ge> 2 ^ 64 then - 1 else word_of_int n)"

fun nat_digits :: "nat \<Rightarrow> byte list" where
  "nat_digits n = (if n < 10 then [of_nat (48 + n)] else nat_digits (n div 10) @ [of_nat (48 + n mod 10)])"

declare nat_digits.simps [simp del]

definition int_digits :: "int \<Rightarrow> byte list" where
  "int_digits i = (if i < 0 then of_char CHR ''-'' # nat_digits (nat (- i)) else nat_digits (nat i))"

section \<open>Values\<close>

text \<open>Floating point: the conversions from and to integers, \<^verbatim>\<open>==\<close>, \<^verbatim>\<open>atof\<close> and \<^verbatim>\<open>printf\<close> with \<^verbatim>\<open>%f\<close>.\<close>

record 'd fp =
  fp_of_int :: "int \<Rightarrow> 'd"
  fp_to_int :: "'d \<Rightarrow> int"
  fp_eq :: "'d \<Rightarrow> 'd \<Rightarrow> bool"
  fp_parse :: "byte list \<Rightarrow> 'd"
  fp_print :: "'d \<Rightarrow> byte list"

datatype 'd variant =
    VNull
  | VBool bool
  | VDouble 'd
  | VInt "32 word"
  | VUInt "32 word"
  | VInt64 "64 word"
  | VUInt64 "64 word"
  | VMap "(byte list \<times> 'd variant) list"
  | VList "'d variant list"
  | VArray nat "'d variant list"
  | VString "byte list"

text \<open>\<^verbatim>\<open>toInt\<close> and its relatives of String.\<close>

definition str_toInt :: "byte list \<Rightarrow> 32 word" where
  "str_toInt s = ucast (c_strtoll s)"

definition str_toUInt :: "byte list \<Rightarrow> 32 word" where
  "str_toUInt s = ucast (c_strtoull s)"

definition str_toInt64 :: "byte list \<Rightarrow> 64 word" where
  "str_toInt64 s = c_strtoll s"

definition str_toUInt64 :: "byte list \<Rightarrow> 64 word" where
  "str_toUInt64 s = c_strtoull s"

definition str_fromInt :: "32 word \<Rightarrow> byte list" where
  "str_fromInt w = int_digits (sint w)"

definition str_fromUInt :: "32 word \<Rightarrow> byte list" where
  "str_fromUInt w = int_digits (uint w)"

definition str_fromInt64 :: "64 word \<Rightarrow> byte list" where
  "str_fromInt64 w = int_digits (sint w)"

definition str_fromUInt64 :: "64 word \<Rightarrow> byte list" where
  "str_fromUInt64 w = int_digits (uint w)"

definition str_fromBool :: "bool \<Rightarrow> byte list" where
  "str_fromBool b = (if b then lit ''true'' else lit ''false'')"

fun v_isNull :: "'d variant \<Rightarrow> bool" where
  "v_isNull VNull \<longleftrightarrow> True"
| "v_isNull _ \<longleftrightarrow> False"

fun v_toBool :: "'d fp \<Rightarrow> 'd variant \<Rightarrow> bool" where
  "v_toBool fp (VBool b) = b"
| "v_toBool fp (VDouble d) = (\<not> fp_eq fp d (fp_of_int fp 0))"
| "v_toBool fp (VInt w) = (w \<noteq> 0)"
| "v_toBool fp (VUInt w) = (w \<noteq> 0)"
| "v_toBool fp (VInt64 w) = (w \<noteq> 0)"
| "v_toBool fp (VUInt64 w) = (w \<noteq> 0)"
| "v_toBool fp (VString s) = str_toBool s"
| "v_toBool fp _ = False"

fun v_toDouble :: "'d fp \<Rightarrow> 'd variant \<Rightarrow> 'd" where
  "v_toDouble fp (VBool b) = fp_of_int fp (if b then 1 else 0)"
| "v_toDouble fp (VDouble d) = d"
| "v_toDouble fp (VInt w) = fp_of_int fp (sint w)"
| "v_toDouble fp (VUInt w) = fp_of_int fp (uint w)"
| "v_toDouble fp (VInt64 w) = fp_of_int fp (sint w)"
| "v_toDouble fp (VUInt64 w) = fp_of_int fp (uint w)"
| "v_toDouble fp (VString s) = fp_parse fp s"
| "v_toDouble fp _ = fp_of_int fp 0"

fun v_toInt :: "'d fp \<Rightarrow> 'd variant \<Rightarrow> 32 word" where
  "v_toInt fp (VBool b) = (if b then 1 else 0)"
| "v_toInt fp (VDouble d) = word_of_int (fp_to_int fp d)"
| "v_toInt fp (VInt w) = w"
| "v_toInt fp (VUInt w) = w"
| "v_toInt fp (VInt64 w) = ucast w"
| "v_toInt fp (VUInt64 w) = ucast w"
| "v_toInt fp (VString s) = str_toInt s"
| "v_toInt fp _ = 0"

fun v_toUInt :: "'d fp \<Rightarrow> 'd variant \<Rightarrow> 32 word" where
  "v_toUInt fp (VBool b) = (if b then 1 else 0)"
| "v_toUInt fp (VDouble d) = word_of_int (fp_to_int fp d)"
| "v_toUInt fp (VInt w) = w"
| "v_toUInt fp (VUInt w) = w"
| "v_toUInt fp (VInt64 w) = ucast w"
| "v_toUInt fp (VUInt64 w) = ucast w"
| "v_toUInt fp (VString s) = str_toUInt s"
| "v_toUInt fp _ = 0"

fun v_toInt64 :: "'d fp \<Rightarrow> 'd variant \<Rightarrow> 64 word" where
  "v_toInt64 fp (VBool b) = (if b then 1 else 0)"
| "v_toInt64 fp (VDouble d) = word_of_int (fp_to_int fp d)"
| "v_toInt64 fp (VInt w) = scast w"
| "v_toInt64 fp (VUInt w) = ucast w"
| "v_toInt64 fp (VInt64 w) = w"
| "v_toInt64 fp (VUInt64 w) = w"
| "v_toInt64 fp (VString s) = str_toInt64 s"
| "v_toInt64 fp _ = 0"

fun v_toUInt64 :: "'d fp \<Rightarrow> 'd variant \<Rightarrow> 64 word" where
  "v_toUInt64 fp (VBool b) = (if b then 1 else 0)"
| "v_toUInt64 fp (VDouble d) = word_of_int (fp_to_int fp d)"
| "v_toUInt64 fp (VInt w) = scast w"
| "v_toUInt64 fp (VUInt w) = ucast w"
| "v_toUInt64 fp (VInt64 w) = w"
| "v_toUInt64 fp (VUInt64 w) = w"
| "v_toUInt64 fp (VString s) = str_toUInt64 s"
| "v_toUInt64 fp _ = 0"

fun v_toMap :: "'d variant \<Rightarrow> (byte list \<times> 'd variant) list" where
  "v_toMap (VMap m) = m"
| "v_toMap _ = []"

fun v_toList :: "'d variant \<Rightarrow> 'd variant list" where
  "v_toList (VList l) = l"
| "v_toList _ = []"

fun v_toArray :: "'d variant \<Rightarrow> nat \<times> 'd variant list" where
  "v_toArray (VArray a l) = (a, l)"
| "v_toArray _ = (0, [])"

fun v_toString :: "'d fp \<Rightarrow> 'd variant \<Rightarrow> byte list" where
  "v_toString fp (VString s) = s"
| "v_toString fp (VBool b) = str_fromBool b"
| "v_toString fp (VDouble d) = fp_print fp d"
| "v_toString fp (VInt w) = str_fromInt w"
| "v_toString fp (VUInt w) = str_fromUInt w"
| "v_toString fp (VInt64 w) = str_fromInt64 w"
| "v_toString fp (VUInt64 w) = str_fromUInt64 w"
| "v_toString fp _ = []"

section \<open>Comparison\<close>

fun v_isString :: "'d variant \<Rightarrow> bool" where
  "v_isString (VString s) \<longleftrightarrow> True"
| "v_isString _ \<longleftrightarrow> False"

text \<open>\<^verbatim>\<open>operator==\<close>. The maps and the lists are compared by the operators of HashMap and List, pair by
  pair and value by value; the arrays, which have no such operator, are converted to pointers.\<close>

function v_eq :: "'d fp \<Rightarrow> 'd variant \<Rightarrow> 'd variant \<Rightarrow> bool"
  and v_eq_list :: "'d fp \<Rightarrow> 'd variant list \<Rightarrow> 'd variant list \<Rightarrow> bool"
  and v_eq_map :: "'d fp \<Rightarrow> (byte list \<times> 'd variant) list \<Rightarrow> (byte list \<times> 'd variant) list \<Rightarrow> bool" where
  "v_eq fp VNull other = v_isNull other"
| "v_eq fp (VBool b) other = (b = v_toBool fp other)"
| "v_eq fp (VDouble d) other = fp_eq fp d (v_toDouble fp other)"
| "v_eq fp (VInt w) other = (w = v_toInt fp other)"
| "v_eq fp (VUInt w) other = (w = v_toUInt fp other)"
| "v_eq fp (VInt64 w) other = (w = v_toInt64 fp other)"
| "v_eq fp (VUInt64 w) other = (w = v_toUInt64 fp other)"
| "v_eq fp (VMap m) other = (case other of VMap m' \<Rightarrow> length m = length m' \<and> v_eq_map fp m m' | _ \<Rightarrow> False)"
| "v_eq fp (VList l) other = (case other of VList l' \<Rightarrow> length l = length l' \<and> v_eq_list fp l l' | _ \<Rightarrow> False)"
| "v_eq fp (VArray a l) other = (case other of VArray a' l' \<Rightarrow> a = a' | _ \<Rightarrow> False)"
| "v_eq fp (VString s) other = (case other of VString s' \<Rightarrow> s = s' | _ \<Rightarrow> v_eq fp other (VString s))"
| "v_eq_list fp (v # l) (w # l') = (v_eq fp v w \<and> v_eq_list fp l l')"
| "v_eq_list fp [] l' = True"
| "v_eq_list fp (v # l) [] = True"
| "v_eq_map fp ((k, v) # m) ((k', v') # m') = (k = k' \<and> v_eq fp v v' \<and> v_eq_map fp m m')"
| "v_eq_map fp [] m' = True"
| "v_eq_map fp (kv # m) [] = True"
  by pat_completeness auto

termination
  by (relation "measure (\<lambda>x. case x of
        Inl (fp, v, w) \<Rightarrow> 2 * (size v + size w) + (if v_isString v \<and> \<not> v_isString w then 1 else 0)
      | Inr (Inl (fp, l, l')) \<Rightarrow> 2 * (size_list size l + size_list size l') + 1
      | Inr (Inr (fp, m, m')) \<Rightarrow> 2 * (size_list (size_prod (\<lambda>x. 0) size) m + size_list (size_prod (\<lambda>x. 0) size) m') + 1)")
     auto

declare v_eq.simps [simp] v_eq_list.simps [simp] v_eq_map.simps [simp]

section \<open>Printing and reading integers\<close>

lemma digit_code:
  assumes "m < 10"
  shows "unat (of_nat (48 + m) :: byte) = 48 + m" "is_digit (of_nat (48 + m))"
proof -
  have "unat (of_nat (48 + m) :: byte) = (48 + m) mod 256"
    unfolding unat_of_nat by simp
  then show u: "unat (of_nat (48 + m) :: byte) = 48 + m"
    using assms by simp
  show "is_digit (of_nat (48 + m))"
    unfolding is_digit_def word_le_nat_alt u using assms by simp
qed

lemma digits_value_snoc [simp]: "digits_value (ds @ [d]) = 10 * digits_value ds + (unat d - 48)"
  by (simp add: digits_value_def)

lemma nat_digits_value [simp]: "digits_value (nat_digits n) = n"
proof (induction n rule: nat_digits.induct)
  case (1 n)
  show ?case
  proof (cases "n < 10")
    case True
    then show ?thesis
      using digits_value_snoc [of "[]"] digit_code(1) [OF True]
      by (subst nat_digits.simps) (simp add: digits_value_def del: of_nat_add of_nat_numeral)
  next
    case False
    then show ?thesis
      using 1 digit_code(1) [of "n mod 10"]
      by (subst nat_digits.simps) (simp del: of_nat_add of_nat_numeral)
  qed
qed

lemma nat_digits_are_digits: "list_all is_digit (nat_digits n)"
proof (induction n rule: nat_digits.induct)
  case (1 n)
  then show ?case
    by (subst nat_digits.simps) (auto simp: digit_code simp del: of_nat_add of_nat_numeral)
qed

lemma nat_digits_nonempty [simp]: "nat_digits n \<noteq> []"
  by (subst nat_digits.simps) simp

lemma digit_neither:
  assumes "is_digit d"
  shows "\<not> is_white d" "d \<noteq> of_char CHR ''-''" "d \<noteq> of_char CHR ''+''" "d \<noteq> 0" "d \<noteq> 46"
  using assms by (auto simp: is_digit_def is_white_def word_le_nat_alt)

lemma at0_append: "s \<noteq> [] \<Longrightarrow> at0 (s @ r) = hd s"
  by (cases s) (auto simp: at0_def)

lemma takeWhile_digits:
  assumes "list_all is_digit ds" "\<not> is_digit (at0 r)"
  shows "takeWhile is_digit (ds @ r) = ds"
proof -
  have "takeWhile is_digit r = []"
    using assms(2) by (cases r) (auto simp: at0_def)
  then show ?thesis
    using assms(1) by (simp add: list_all_iff)
qed

lemma c_integer_digits:
  assumes "\<not> is_digit (at0 r)"
  shows "c_integer (int_digits i @ r) = i"
proof -
  have h: "nat_digits n @ r' = hd (nat_digits n) # tl (nat_digits n) @ r'" for n r'
    using nat_digits_nonempty by (cases "nat_digits n") auto
  have d: "is_digit (hd (nat_digits n))" for n
    using nat_digits_are_digits [of n] nat_digits_nonempty [of n] by (cases "nat_digits n") auto
  note t = takeWhile_digits [OF nat_digits_are_digits assms]
  have m: "\<not> is_white (of_char CHR ''-'')" by (simp add: is_white_def)
  show ?thesis
  proof (cases "i < 0")
    case True
    then show ?thesis
      using m t by (simp add: int_digits_def c_integer_def at0_def)
  next
    case False
    have w: "dropWhile is_white (nat_digits n @ r) = nat_digits n @ r" for n
      by (subst (1 2) h) (simp add: digit_neither(1) [OF d])
    have a: "at0 (nat_digits n @ r) = hd (nat_digits n)" for n
      by (rule at0_append) simp
    show ?thesis
      using False t [of "nat i"] digit_neither(2,3) [OF d [of "nat i"]]
      by (simp add: int_digits_def c_integer_def w a)
  qed
qed


lemma c_integer_print [simp]: "c_integer (int_digits i) = i"
  using c_integer_digits [of "[]" i] by (simp add: at0_def is_digit_def)

lemma str_int_roundtrip:
  "str_toInt (str_fromInt a) = a"
  "str_toUInt (str_fromUInt b) = b"
  "str_toInt64 (str_fromInt64 c) = c"
  "str_toUInt64 (str_fromUInt64 d) = d"
proof -
  have a: "- (2 ^ 31) \<le> sint a" "sint a < 2 ^ 31"
    using sint_greater_eq [of a] sint_less [of a] by simp_all
  have c: "- (2 ^ 63) \<le> sint c" "sint c < 2 ^ 63"
    using sint_greater_eq [of c] sint_less [of c] by simp_all
  have b: "uint b < 2 ^ 32" "0 \<le> uint b"
    using uint_lt2p [of b] by simp_all
  have d: "uint d < 2 ^ 64" "0 \<le> uint d"
    using uint_lt2p [of d] by simp_all
  have ca: "ucast (word_of_int i :: 64 word) = (word_of_int i :: 32 word)" for i :: int
    by (rule bit_word_eqI) (auto simp: bit_simps)
  have sb: "ucast (ucast b :: 64 word) = b"
    by (rule bit_word_eqI) (auto simp: bit_simps)
  have sa: "ucast (scast a :: 64 word) = a"
    by (rule bit_word_eqI) (auto simp: bit_simps)
  show "str_toInt (str_fromInt a) = a"
    using a by (simp add: str_toInt_def str_fromInt_def c_strtoll_def Let_def ca sa)
  show "str_toUInt (str_fromUInt b) = b"
    using b by (simp add: str_toUInt_def str_fromUInt_def c_strtoull_def Let_def ca sb)
  show "str_toInt64 (str_fromInt64 c) = c"
    using c by (simp add: str_toInt64_def str_fromInt64_def c_strtoll_def Let_def)
  show "str_toUInt64 (str_fromUInt64 d) = d"
    using d by (simp add: str_toUInt64_def str_fromUInt64_def c_strtoull_def Let_def)
qed

section \<open>The properties\<close>

text \<open>The doubles inside a value compare equal to themselves (they are not NaN).\<close>

fun v_reflexive :: "'d fp \<Rightarrow> 'd variant \<Rightarrow> bool" where
  "v_reflexive fp (VDouble d) = fp_eq fp d d"
| "v_reflexive fp (VMap m) = (\<forall>kv \<in> set m. v_reflexive fp (snd kv))"
| "v_reflexive fp (VList l) = (\<forall>v \<in> set l. v_reflexive fp v)"
| "v_reflexive fp _ = True"

lemma size_member:
  "(a, b) \<in> set (zip l l') \<Longrightarrow> size a < size (VList l :: 'd variant)"
  "(c, d) \<in> set (zip m m') \<Longrightarrow> size (snd c) < size (VMap m :: 'd variant)"
  for a :: "'d variant" and c :: "byte list \<times> 'd variant"
proof -
  show "size a < size (VList l :: 'd variant)" if "(a, b) \<in> set (zip l l')"
    using size_list_estimation' [OF set_zip_leftD [OF that], of "size a" size] by simp
  show "size (snd c) < size (VMap m :: 'd variant)" if "(c, d) \<in> set (zip m m')"
    using size_list_estimation' [OF set_zip_leftD [OF that], of "size (snd c)" "size_prod (\<lambda>x. 0) size"]
    by (cases c) simp
qed

text \<open>Two values of the same types throughout, with neither doubles nor arrays.\<close>

function v_alike :: "'d variant \<Rightarrow> 'd variant \<Rightarrow> bool" where
  "v_alike VNull w = (case w of VNull \<Rightarrow> True | _ \<Rightarrow> False)"
| "v_alike (VBool _) w = (case w of VBool _ \<Rightarrow> True | _ \<Rightarrow> False)"
| "v_alike (VDouble _) w = False"
| "v_alike (VInt _) w = (case w of VInt _ \<Rightarrow> True | _ \<Rightarrow> False)"
| "v_alike (VUInt _) w = (case w of VUInt _ \<Rightarrow> True | _ \<Rightarrow> False)"
| "v_alike (VInt64 _) w = (case w of VInt64 _ \<Rightarrow> True | _ \<Rightarrow> False)"
| "v_alike (VUInt64 _) w = (case w of VUInt64 _ \<Rightarrow> True | _ \<Rightarrow> False)"
| "v_alike (VMap m) w = (case w of
     VMap m' \<Rightarrow> length m = length m' \<and> (\<forall>p \<in> set (zip m m'). v_alike (snd (fst p)) (snd (snd p))) | _ \<Rightarrow> False)"
| "v_alike (VList l) w = (case w of
     VList l' \<Rightarrow> length l = length l' \<and> (\<forall>p \<in> set (zip l l'). v_alike (fst p) (snd p)) | _ \<Rightarrow> False)"
| "v_alike (VArray _ _) w = False"
| "v_alike (VString _) w = (case w of VString _ \<Rightarrow> True | _ \<Rightarrow> False)"
  by pat_completeness auto

termination
  by (relation "measure (size \<circ> fst)") (auto dest: size_member)

lemma v_eq_list_all2:
  "length l = length l' \<Longrightarrow> v_eq_list fp l l' = list_all2 (v_eq fp) l l'"
  by (induction l l' rule: list_induct2) auto

lemma v_eq_map_all2:
  "length m = length m' \<Longrightarrow>
     v_eq_map fp m m' = list_all2 (\<lambda>kv kv'. fst kv = fst kv' \<and> v_eq fp (snd kv) (snd kv')) m m'"
  by (induction m m' rule: list_induct2) auto

lemma v_eq_alike: "v_alike v w \<Longrightarrow> v_eq fp v w \<longleftrightarrow> v = w"
proof (induction v w rule: v_alike.induct)
  case (8 m w)
  then obtain m' where w: "w = VMap m'" and l: "length m = length m'"
    and a: "\<forall>p \<in> set (zip m m'). v_alike (snd (fst p)) (snd (snd p))"
    by (auto split: variant.splits)
  have "v_eq fp (snd kv) (snd kv') \<longleftrightarrow> snd kv = snd kv'" if "(kv, kv') \<in> set (zip m m')" for kv kv'
    using 8(1) [OF w that] bspec [OF a that] by simp
  then have "v_eq_map fp m m' \<longleftrightarrow> list_all2 (=) m m'"
    using l by (force simp: v_eq_map_all2 list_all2_iff prod_eq_iff)
  then show ?case
    using w l by (auto simp: list.rel_eq)
next
  case (9 l w)
  then obtain l' where w: "w = VList l'" and l: "length l = length l'"
    and a: "\<forall>p \<in> set (zip l l'). v_alike (fst p) (snd p)"
    by (auto split: variant.splits)
  have "v_eq fp v v' \<longleftrightarrow> v = v'" if "(v, v') \<in> set (zip l l')" for v v'
    using 9(1) [OF w that] bspec [OF a that] by simp
  then have "v_eq_list fp l l' \<longleftrightarrow> list_all2 (=) l l'"
    using l by (auto simp: v_eq_list_all2 list_all2_iff)
  then show ?case
    using w l by (auto simp: list.rel_eq)
qed (auto split: variant.splits)

lemma v_eq_refl: "v_reflexive fp v \<Longrightarrow> v_eq fp v v"
proof (induction v)
  case (VMap m)
  have "v_eq fp (snd kv) (snd kv)" if "kv \<in> set m" for kv
    using VMap.IH [OF that] VMap.prems that by (cases kv) auto
  then show ?case
    by (simp add: v_eq_map_all2 list_all2_conv_all_nth)
next
  case (VList l)
  then show ?case
    by (simp add: v_eq_list_all2 list_all2_conv_all_nth)
qed auto

text \<open>C18. The text that a value of a Boolean or integer type is converted to is read back as the same value
  by the conversion of that type; an integer survives the conversion to a type at least as wide and of
  the same sign and back.\<close>

theorem variant_text_roundtrip:
  "v_toBool fp (VString (v_toString fp (VBool b))) = b
   \<and> v_toInt fp (VString (v_toString fp (VInt i))) = i
   \<and> v_toUInt fp (VString (v_toString fp (VUInt u))) = u
   \<and> v_toInt64 fp (VString (v_toString fp (VInt64 l))) = l
   \<and> v_toUInt64 fp (VString (v_toString fp (VUInt64 m))) = m
   \<and> v_toInt fp (VInt64 (v_toInt64 fp (VInt i))) = i
   \<and> v_toUInt fp (VUInt64 (v_toUInt64 fp (VUInt u))) = u
   \<and> sint (v_toInt64 fp (VInt i)) = sint i
   \<and> uint (v_toUInt64 fp (VUInt u)) = uint u"
proof -
  have "ucast (scast i :: 64 word) = i" "ucast (ucast u :: 64 word) = u"
    by (auto intro!: bit_word_eqI simp: bit_simps)
  moreover have "sint (scast i :: 64 word) = sint i"
    by (rule sint_up_scast) (simp add: is_up)
  moreover have "uint (ucast u :: 64 word) = uint u"
    by (rule uint_up_ucast) (simp add: is_up)
  moreover have "str_toBool (str_fromBool True)" "\<not> str_toBool (str_fromBool False)"
    by code_simp+
  then have "str_toBool (str_fromBool b) = b"
    by (cases b) simp_all
  ultimately show ?thesis
    by (simp add: str_int_roundtrip)
qed

text \<open>Comparing with \<^verbatim>\<open>==\<close>: values of the same types throughout, without doubles and arrays, are equal
  when they are the same value, and a value whose doubles are not NaN equals itself. Across types the
  other operand is converted to the type of the left one, so that the operator is neither symmetric nor
  transitive; and two arrays are equal only when they lie at the same address, whatever they contain.\<close>

theorem variant_compare:
  "(v_alike v w \<longrightarrow> v_eq fp v w = (v = w))
   \<and> (v_reflexive fp v \<longrightarrow> v_eq fp v v)
   \<and> v_eq fp (VInt 5) (VInt64 0x100000005) \<and> \<not> v_eq fp (VInt64 0x100000005) (VInt 5)
   \<and> v_eq fp (VString (lit ''1'')) (VInt 1) \<and> v_eq fp (VInt 1) (VString (lit ''01''))
   \<and> \<not> v_eq fp (VString (lit ''1'')) (VString (lit ''01''))
   \<and> v_eq fp (VArray a vs) (VArray a' vs') = (a = a')"
proof -
  have "v_toInt fp (VInt64 0x100000005) = 5" "v_toInt64 fp (VInt 5) \<noteq> 0x100000005"
    "v_toInt fp (VString (lit ''1'')) = 1" "v_toInt fp (VString (lit ''01'')) = 1"
    "lit ''1'' \<noteq> lit ''01''"
    by code_simp+
  then show ?thesis
    using v_eq_alike [of v w fp] v_eq_refl [of fp v] by (simp del: v_toInt.simps v_toInt64.simps)
qed

text \<open>Integers in the place of the doubles, for examples.\<close>

definition example_fp :: "int fp" where
  "example_fp = \<lparr>fp_of_int = id, fp_to_int = id, fp_eq = (=), fp_parse = c_integer, fp_print = (\<lambda>d. int_digits d @ lit ''.0'')\<rparr>"

theorem variant_compare_witness:
  "v_eq example_fp (VList [VMap [([97], VInt 3)], VNull]) (VList [VMap [([97], VInt 3)], VNull])"
  using variant_compare [of "VList [VMap [([97], VInt 3)], VNull]" "VList [VMap [([97], VInt 3)], VNull]" example_fp]
  by simp

end
