(* ===== verification/Nstd_Json.thy ===== *)
theory Nstd_Json
  imports Nstd_Unicode Nstd_Variant
begin

text \<open>
  \<^verbatim>\<open>Json\<close> (src/Document/Json.cpp): the scanner, the parser, the printer and the removal of comments.

  A pointer into the text is the list of the bytes from there to the terminating zero, which is
  included; advancing is \<open>tl\<close>, and reading from an empty list is reading outside of the text. Every
  reading function therefore answers \<open>None\<close> (or \<open>OutOfBounds\<close>) when the code reads behind the
  terminator. The parser's functions recurse through one another and take fuel, \<open>Exhausted\<close> when it
  runs out; \<open>json_terminates\<close> gives an amount that always is enough. The conversions of doubles are the
  parameter \<open>fp\<close> of \<open>Nstd_Variant\<close>.
\<close>

section \<open>The scanner\<close>

type_synonym ptr = "byte list"

text \<open>\<^verbatim>\<open>Position\<close>: the line and the pointer.\<close>

record jpos =
  pline :: int
  ppos :: ptr

text \<open>\<^verbatim>\<open>Json::Private\<close>: the token, its value and its position, the start of the text, the current
  position, and line, column and text of the error once there is one.\<close>

record 'd jstate =
  jtoken :: byte
  jvalue :: "'d variant"
  jtokenPos :: jpos
  jstart :: ptr
  jpos :: jpos
  jerror :: "(int \<times> int \<times> byte list) option"

abbreviation chr :: "char \<Rightarrow> byte" where
  "chr c \<equiv> of_char c"

text \<open>The pointer \<open>n\<close> bytes before \<open>p\<close>.\<close>

definition step_back :: "ptr \<Rightarrow> ptr \<Rightarrow> nat \<Rightarrow> ptr" where
  "step_back start p n = drop (length start - length p - n) start"

fun skipSpace :: "int \<Rightarrow> ptr \<Rightarrow> jpos option" where
  "skipSpace line [] = None"
| "skipSpace line (c # p) =
     (if c = 13 then
        (case p of
           [] \<Rightarrow> None
         | d # p' \<Rightarrow> if d = 10 then skipSpace (line + 1) p' else skipSpace (line + 1) p)
      else if c = 10 then skipSpace (line + 1) p
      else if c_isSpace c then skipSpace line p
      else Some \<lparr>pline = line, ppos = c # p\<rparr>)"

fun column_loop :: "byte list \<Rightarrow> int \<Rightarrow> int" where
  "column_loop [] column = column"
| "column_loop (c # before) column = (if c = 10 \<or> c = 13 then column else column_loop before (column + 1))"

definition syntaxError :: "jpos \<Rightarrow> byte list \<Rightarrow> 'd jstate \<Rightarrow> 'd jstate" where
  "syntaxError pos error st =
     (let before = take (length (jstart st) - length (ppos pos)) (jstart st);
          column = column_loop (rev before) 1
      in st\<lparr>jerror := Some (pline pos, column, error)\<rparr>)"

definition is_hex :: "byte \<Rightarrow> bool" where
  "is_hex c \<longleftrightarrow> is_digit c \<or> 65 \<le> c \<and> c \<le> 70 \<or> 97 \<le> c \<and> c \<le> 102"

definition hex_digit :: "byte \<Rightarrow> 32 word" where
  "hex_digit c = (if is_digit c then ucast c - 48 else if c \<le> 70 then ucast c - 55 else ucast c - 87)"

text \<open>\<^verbatim>\<open>scanf("%x", &w)\<close> on hexadecimal digits: it fails when there are none.\<close>

definition scan_hex :: "byte list \<Rightarrow> 32 word option" where
  "scan_hex k = (if k = [] then None else Some (foldl (\<lambda>w c. 16 * w + hex_digit c) 0 k))"

text \<open>The loop over the digits of \<^verbatim>\<open>\u\<close>: the digits and the pointer, and whether there were \<open>n\<close>.\<close>

fun hex_loop :: "nat \<Rightarrow> byte list \<Rightarrow> ptr \<Rightarrow> (bool \<times> byte list \<times> ptr) option" where
  "hex_loop 0 k p = Some (True, k, p)"
| "hex_loop (Suc i) k [] = None"
| "hex_loop (Suc i) k (c # p) = (if is_hex c then hex_loop i (k @ [c]) p else Some (False, k, c # p))"

text \<open>What scanning a part of a token yields: the position behind it, and the error message or the value.\<close>

type_synonym 'a scanned = "jpos \<times> (byte list + 'a)"

text \<open>The second half of a surrogate pair, behind the digits of the first one, \<open>w1\<close>. The text is needed for
  stepping back.\<close>

definition surrogate_pair :: "ptr \<Rightarrow> int \<Rightarrow> 32 word \<Rightarrow> ptr \<Rightarrow> byte list \<Rightarrow> byte list scanned option" where
  "surrogate_pair start line w1 p1 val =
     (case p1 of
        [] \<Rightarrow> None
      | c # q1 \<Rightarrow>
          if c \<noteq> 92 then Some (\<lparr>pline = line, ppos = p1\<rparr>, Inl (lit ''Expected UTF-8 surrogate pair''))
          else
            case q1 of
              [] \<Rightarrow> None
            | d # q2 \<Rightarrow>
                if d \<noteq> chr CHR ''u'' then Some (\<lparr>pline = line, ppos = p1\<rparr>, Inl (lit ''Expected UTF-8 surrogate pair''))
                else
                  case hex_loop 4 [] q2 of
                    None \<Rightarrow> None
                  | Some (ok2, k2, p2) \<Rightarrow>
                      if \<not> ok2 then Some (\<lparr>pline = line, ppos = p2\<rparr>, Inl (lit ''Expected hexadecimal digit''))
                      else
                        case scan_hex k2 of
                          None \<Rightarrow> Some (\<lparr>pline = line, ppos = step_back start p2 4\<rparr>, Inl (lit ''Expected hexadecimal number''))
                        | Some w2 \<Rightarrow>
                            if w2 AND 0xFC00 \<noteq> 0xDC00 then
                              Some (\<lparr>pline = line, ppos = step_back start p2 6\<rparr>, Inl (lit ''Expected UTF-8 surrogate pair''))
                            else
                              Some (\<lparr>pline = line, ppos = p2\<rparr>,
                                Inr (snd (uni_append (((w2 AND 0x3FF) OR push_bit 10 (w1 AND 0x3FF)) + 0x10000) val))))"

text \<open>The escape \<^verbatim>\<open>\u\<close>, at the first digit.\<close>

definition unicode_escape :: "ptr \<Rightarrow> int \<Rightarrow> ptr \<Rightarrow> byte list \<Rightarrow> byte list scanned option" where
  "unicode_escape start line p val =
     (case hex_loop 4 [] p of
        None \<Rightarrow> None
      | Some (ok, k, p1) \<Rightarrow>
          if \<not> ok then Some (\<lparr>pline = line, ppos = p1\<rparr>, Inl (lit ''Expected hexadecimal digit''))
          else
            case scan_hex k of
              None \<Rightarrow> Some (\<lparr>pline = line, ppos = step_back start p1 4\<rparr>, Inl (lit ''Expected hexadecimal number''))
            | Some w1 \<Rightarrow>
                if w1 AND 0xF800 = 0xD800 \<and> w1 AND 0xFC00 = 0xD800 then surrogate_pair start line w1 p1 val
                else Some (\<lparr>pline = line, ppos = p1\<rparr>, Inr (snd (uni_append w1 val))))"

text \<open>The cases behind a backslash.\<close>

definition escape :: "ptr \<Rightarrow> int \<Rightarrow> ptr \<Rightarrow> byte list \<Rightarrow> byte list scanned option" where
  "escape start line p val =
     (case p of
        [] \<Rightarrow> None
      | c # p' \<Rightarrow>
          if c = 34 \<or> c = 92 \<or> c = 47 then Some (\<lparr>pline = line, ppos = p'\<rparr>, Inr (val @ [c]))
          else if c = chr CHR ''b'' then Some (\<lparr>pline = line, ppos = p'\<rparr>, Inr (val @ [8]))
          else if c = chr CHR ''f'' then Some (\<lparr>pline = line, ppos = p'\<rparr>, Inr (val @ [12]))
          else if c = chr CHR ''n'' then Some (\<lparr>pline = line, ppos = p'\<rparr>, Inr (val @ [10]))
          else if c = chr CHR ''r'' then Some (\<lparr>pline = line, ppos = p'\<rparr>, Inr (val @ [13]))
          else if c = chr CHR ''t'' then Some (\<lparr>pline = line, ppos = p'\<rparr>, Inr (val @ [9]))
          else if c = chr CHR ''u'' then unicode_escape start line p' val
          else Some (\<lparr>pline = line, ppos = p'\<rparr>, Inr (val @ [92, c])))"

lemma hex_loop_length: "hex_loop i k p = Some (b, k', p') \<Longrightarrow> length p' \<le> length p"
  by (induction i k p rule: hex_loop.induct) (auto split: if_splits)

lemma surrogate_pair_length:
  "surrogate_pair start line w1 p val = Some (pos, Inr v) \<Longrightarrow> length (ppos pos) \<le> length p"
  by (auto simp: surrogate_pair_def split: option.splits if_splits list.splits dest!: hex_loop_length)

lemma unicode_escape_length:
  "unicode_escape start line p val = Some (pos, Inr v) \<Longrightarrow> length (ppos pos) \<le> length p"
  by (auto simp: unicode_escape_def split: option.splits if_splits list.splits dest!: surrogate_pair_length hex_loop_length)

lemma escape_length: "escape start line p val = Some (pos, Inr v) \<Longrightarrow> length (ppos pos) < length p"
  by (auto simp: escape_def split: list.splits if_splits dest: unicode_escape_length)

text \<open>The characters of a string, up to the closing quotation mark.\<close>

function string_loop :: "ptr \<Rightarrow> int \<Rightarrow> ptr \<Rightarrow> byte list \<Rightarrow> byte list scanned option" where
  "string_loop start line p val =
     (case p of
        [] \<Rightarrow> None
      | c # p' \<Rightarrow>
          if c = 0 then Some (\<lparr>pline = line, ppos = p\<rparr>, Inl (lit ''Unexpected end of file''))
          else if c = 13 then
            (case p' of
               [] \<Rightarrow> None
             | d # p'' \<Rightarrow> string_loop start (line + 1) (if d = 10 then p'' else p') val)
          else if c = 10 then string_loop start (line + 1) p' val
          else if c = 92 then
            (case escape start line p' val of
               None \<Rightarrow> None
             | Some (pos, Inl msg) \<Rightarrow> Some (pos, Inl msg)
             | Some (pos, Inr val') \<Rightarrow> string_loop start (pline pos) (ppos pos) val')
          else if c = 34 then Some (\<lparr>pline = line, ppos = p'\<rparr>, Inr val)
          else string_loop start line p' (val @ [c]))"
  by pat_completeness auto

termination
  by (relation "measure (\<lambda>(start, line, p, val). length p)") (auto dest: escape_length)

declare string_loop.simps [simp del]

fun number_loop :: "ptr \<Rightarrow> byte list \<Rightarrow> bool \<Rightarrow> (ptr \<times> byte list \<times> bool) option" where
  "number_loop [] n isDouble = None"
| "number_loop (c # p) n isDouble =
     (if c = chr CHR ''E'' \<or> c = chr CHR ''e'' \<or> c = chr CHR ''-'' \<or> c = chr CHR ''+'' then number_loop p (n @ [c]) isDouble
      else if c = chr CHR ''.'' then number_loop p (n @ [c]) True
      else if is_digit c then number_loop p (n @ [c]) isDouble
      else Some (c # p, n, isDouble))"

definition number_value :: "'d fp \<Rightarrow> byte list \<Rightarrow> bool \<Rightarrow> 'd variant" where
  "number_value fp n isDouble =
     (if isDouble then VDouble (fp_parse fp n)
      else let result = str_toInt64 n; resultInt = ucast result :: 32 word in
        if scast resultInt = result then VInt resultInt else VInt64 result)"

text \<open>The cases \<^verbatim>\<open>'t'\<close>, \<^verbatim>\<open>'f'\<close> and \<^verbatim>\<open>'n'\<close>.\<close>

definition word_token :: "byte list \<Rightarrow> 'd variant \<Rightarrow> 'd jstate \<Rightarrow> bool \<times> 'd jstate" where
  "word_token w v st =
     (let pos = jpos st in
      if str_compare_n (ppos pos) w (length w) = 0 then
        (True, st\<lparr>jpos := pos\<lparr>ppos := drop (length w) (ppos pos)\<rparr>, jvalue := v\<rparr>)
      else (False, syntaxError pos (lit ''Expected character'') st))"

definition string_token :: "'d jstate \<Rightarrow> (bool \<times> 'd jstate) option" where
  "string_token st =
     (case string_loop (jstart st) (pline (jpos st)) (tl (ppos (jpos st))) [] of
        None \<Rightarrow> None
      | Some (pos, Inl msg) \<Rightarrow> Some (False, syntaxError pos msg (st\<lparr>jpos := pos\<rparr>))
      | Some (pos, Inr val) \<Rightarrow> Some (True, st\<lparr>jpos := pos, jvalue := VString val\<rparr>))"

definition number_token :: "'d fp \<Rightarrow> 'd jstate \<Rightarrow> (bool \<times> 'd jstate) option" where
  "number_token fp st =
     (let c = hd (ppos (jpos st)); st1 = st\<lparr>jtoken := chr CHR ''#''\<rparr> in
      if c = chr CHR ''-'' \<or> is_digit c then
        (case number_loop (ppos (jpos st)) [] False of
           None \<Rightarrow> None
         | Some (p, n, isDouble) \<Rightarrow>
             Some (True, st1\<lparr>jpos := (jpos st)\<lparr>ppos := p\<rparr>, jvalue := number_value fp n isDouble\<rparr>))
      else Some (False, syntaxError (jpos st) (lit ''Expected character'') st1))"

text \<open>The \<^verbatim>\<open>switch\<close> over the first character of a token, and the whole function.\<close>

definition scan_token :: "'d fp \<Rightarrow> byte \<Rightarrow> 'd jstate \<Rightarrow> (bool \<times> 'd jstate) option" where
  "scan_token fp c st =
     (if c = 0 then Some (True, st)
      else if c \<in> set (lit ''{}[],:'') then Some (True, st\<lparr>jpos := (jpos st)\<lparr>ppos := tl (ppos (jpos st))\<rparr>\<rparr>)
      else if c = 34 then string_token st
      else if c = chr CHR ''t'' then Some (word_token (lit ''true'') (VBool True) st)
      else if c = chr CHR ''f'' then Some (word_token (lit ''false'') (VBool False) st)
      else if c = chr CHR ''n'' then Some (word_token (lit ''null'') VNull st)
      else number_token fp st)"

definition readToken :: "'d fp \<Rightarrow> 'd jstate \<Rightarrow> (bool \<times> 'd jstate) option" where
  "readToken fp st =
     (case skipSpace (pline (jpos st)) (ppos (jpos st)) of
        None \<Rightarrow> None
      | Some pos \<Rightarrow>
          let c = hd (ppos pos) in scan_token fp c (st\<lparr>jpos := pos, jtoken := c, jtokenPos := pos\<rparr>))"

section \<open>The parser\<close>

text \<open>What a call of the parser does: it runs out of fuel, it reads outside of the text, or it returns
  its result, the state and the value it has written to.\<close>

datatype ('s, 'v) jout =
    Exhausted
  | OutOfBounds
  | Returns bool 's 'v

definition after_token :: "(bool \<times> 's) option \<Rightarrow> 'v \<Rightarrow> ('s \<Rightarrow> ('s, 'v) jout) \<Rightarrow> ('s, 'v) jout" where
  "after_token r v k =
     (case r of None \<Rightarrow> OutOfBounds | Some (ok, st) \<Rightarrow> if ok then k st else Returns False st v)"

fun after_call :: "('s, 'v) jout \<Rightarrow> ('s \<Rightarrow> 'v \<Rightarrow> ('s, 'w) jout) \<Rightarrow> ('v \<Rightarrow> 'w) \<Rightarrow> ('s, 'w) jout" where
  "after_call Exhausted k f = Exhausted"
| "after_call OutOfBounds k f = OutOfBounds"
| "after_call (Returns ok st v) k f = (if ok then k st v else Returns False st (f v))"

text \<open>\<^verbatim>\<open>HashMap::append(key, value)\<close>: an existing key keeps its place.\<close>

fun map_put :: "'k \<Rightarrow> 'v \<Rightarrow> ('k \<times> 'v) list \<Rightarrow> ('k \<times> 'v) list" where
  "map_put k v [] = [(k, v)]"
| "map_put k v ((k', v') # m) = (if k = k' then (k, v) # m else (k', v') # map_put k v m)"

definition fails :: "byte list \<Rightarrow> 'd jstate \<Rightarrow> 'v \<Rightarrow> ('d jstate, 'v) jout" where
  "fails msg st v = Returns False (syntaxError (jpos st) msg st) v"

definition expected :: "byte \<Rightarrow> byte list" where
  "expected c = lit ''Expected '' @ [39, c, 39]"

text \<open>The functions call one another; the loops get the parser of their elements as the argument \<open>pv\<close>, which
  \<open>parseValue\<close> sets to itself.\<close>

type_synonym 'd pval = "'d jstate \<Rightarrow> ('d jstate, 'd variant) jout"

primrec array_loop :: "nat \<Rightarrow> 'd fp \<Rightarrow> 'd pval \<Rightarrow> 'd jstate \<Rightarrow> 'd variant list \<Rightarrow> ('d jstate, 'd variant) jout" where
  "array_loop 0 fp pv st l = Exhausted"
| "array_loop (Suc n) fp pv st l =
     (if jtoken st = 93 then after_token (readToken fp st) (VList l) (\<lambda>st1. Returns True st1 (VList l))
      else
        after_call (pv st)
          (\<lambda>st1 v.
             let l1 = l @ [v] in
             if jtoken st1 = 93 then
               after_token (readToken fp st1) (VList l1) (\<lambda>st2. Returns True st2 (VList l1))
             else if jtoken st1 \<noteq> 44 then fails (expected 44) st1 (VList l1)
             else after_token (readToken fp st1) (VList l1) (\<lambda>st2. array_loop n fp pv st2 l1))
          (\<lambda>v. VList (l @ [v])))"

definition parseArray :: "nat \<Rightarrow> 'd fp \<Rightarrow> 'd pval \<Rightarrow> 'd jstate \<Rightarrow> 'd variant \<Rightarrow> ('d jstate, 'd variant) jout" where
  "parseArray n fp pv st result =
     (if jtoken st \<noteq> 91 then fails (expected 91) st result
      else after_token (readToken fp st) result (\<lambda>st1. array_loop n fp pv st1 (v_toList result)))"

primrec object_loop ::
  "nat \<Rightarrow> 'd fp \<Rightarrow> 'd pval \<Rightarrow> 'd jstate \<Rightarrow> (byte list \<times> 'd variant) list \<Rightarrow> ('d jstate, 'd variant) jout" where
  "object_loop 0 fp pv st m = Exhausted"
| "object_loop (Suc n) fp pv st m =
     (if jtoken st = 125 then after_token (readToken fp st) (VMap m) (\<lambda>st1. Returns True st1 (VMap m))
      else if jtoken st \<noteq> 34 then fails (expected 34) st (VMap m)
      else
        let key = v_toString fp (jvalue st) in
        after_token (readToken fp st) (VMap m) (\<lambda>st1.
          if jtoken st1 \<noteq> 58 then fails (expected 58) st1 (VMap m)
          else
            after_token (readToken fp st1) (VMap m) (\<lambda>st2.
              after_call (pv st2)
                (\<lambda>st3 v.
                   let m1 = map_put key v m in
                   if jtoken st3 = 125 then
                     after_token (readToken fp st3) (VMap m1) (\<lambda>st4. Returns True st4 (VMap m1))
                   else if jtoken st3 \<noteq> 44 then fails (expected 44) st3 (VMap m1)
                   else after_token (readToken fp st3) (VMap m1) (\<lambda>st4. object_loop n fp pv st4 m1))
                (\<lambda>v. VMap (map_put key v m)))))"

definition parseObject :: "nat \<Rightarrow> 'd fp \<Rightarrow> 'd pval \<Rightarrow> 'd jstate \<Rightarrow> 'd variant \<Rightarrow> ('d jstate, 'd variant) jout" where
  "parseObject n fp pv st result =
     (if jtoken st \<noteq> 123 then fails (expected 123) st result
      else after_token (readToken fp st) result (\<lambda>st1. object_loop n fp pv st1 (v_toMap result)))"

primrec parseValue :: "nat \<Rightarrow> 'd fp \<Rightarrow> 'd jstate \<Rightarrow> 'd variant \<Rightarrow> ('d jstate, 'd variant) jout" where
  "parseValue 0 fp st result = Exhausted"
| "parseValue (Suc n) fp st result =
     (if jtoken st \<in> set (34 # lit ''#tfn'') then
        after_token (readToken fp st) (jvalue st) (\<lambda>st1. Returns True st1 (jvalue st))
      else if jtoken st = 91 then parseArray n fp (\<lambda>st1. parseValue n fp st1 VNull) st result
      else if jtoken st = 123 then parseObject n fp (\<lambda>st1. parseValue n fp st1 VNull) st result
      else fails (lit ''Unexpected character'') st result)"

text \<open>\<^verbatim>\<open>parse(data, result)\<close>. The fields that a new parser leaves uninitialised are written before they are
  read: the value of the token is that of a new \<^verbatim>\<open>Variant\<close>, the others are arbitrary.\<close>

definition json_start :: "byte list \<Rightarrow> 'd jstate" where
  "json_start data =
     \<lparr>jtoken = 0, jvalue = VNull, jtokenPos = \<lparr>pline = 1, ppos = data @ [0]\<rparr>, jstart = data @ [0],
      jpos = \<lparr>pline = 1, ppos = data @ [0]\<rparr>, jerror = None\<rparr>"

definition json_private_parse :: "nat \<Rightarrow> 'd fp \<Rightarrow> byte list \<Rightarrow> 'd variant \<Rightarrow> ('d jstate, 'd variant) jout" where
  "json_private_parse n fp data result =
     after_token (readToken fp (json_start data)) result (\<lambda>st. parseValue n fp st result)"

text \<open>\<^verbatim>\<open>Json::parse\<close>: whether it succeeds, the text of the error, and the value written.\<close>

definition json_error_text :: "(int \<times> int \<times> byte list) option \<Rightarrow> byte list option" where
  "json_error_text e =
     map_option (\<lambda>(line, column, msg). lit ''Syntax error at line '' @ int_digits line @ lit '', column '' @
       int_digits column @ lit '': '' @ msg) e"

definition json_parse :: "nat \<Rightarrow> 'd fp \<Rightarrow> byte list \<Rightarrow> 'd variant \<Rightarrow> (byte list option, 'd variant) jout" where
  "json_parse n fp data result =
     (case json_private_parse n fp data result of
        Exhausted \<Rightarrow> Exhausted
      | OutOfBounds \<Rightarrow> OutOfBounds
      | Returns ok st v \<Rightarrow> Returns ok (if ok then None else json_error_text (jerror st)) v)"

section \<open>The printer\<close>

text \<open>\<^verbatim>\<open>p\<close> is the string from the pointer to its end, which embedded zeros do not end.\<close>

function escape_loop :: "byte list \<Rightarrow> byte list \<Rightarrow> byte list" where
  "escape_loop p result =
     (case str_findOneOf p [34, 92] of
        None \<Rightarrow> result @ p
      | Some e \<Rightarrow>
          let result1 = (if e > 0 then result @ take e p else result);
              result2 = result1 @ (if p ! e = 34 then [92, 34] else [92, 92])
          in escape_loop (drop (e + 1) p) result2)"
  by pat_completeness auto

termination
  by (relation "measure (\<lambda>(p, result). length p)") (auto simp: str_findOneOf_def dest: strpbrk_less)

declare escape_loop.simps [simp del]

definition appendEscapedString :: "byte list \<Rightarrow> byte list \<Rightarrow> byte list" where
  "appendEscapedString str result = escape_loop str (result @ [34]) @ [34]"

fun appendVariant :: "'d fp \<Rightarrow> 'd variant \<Rightarrow> byte list \<Rightarrow> byte list \<Rightarrow> byte list"
  and append_items :: "'d fp \<Rightarrow> 'd variant list \<Rightarrow> byte list \<Rightarrow> byte list \<Rightarrow> byte list"
  and append_pairs :: "'d fp \<Rightarrow> (byte list \<times> 'd variant) list \<Rightarrow> byte list \<Rightarrow> byte list \<Rightarrow> byte list" where
  "appendVariant fp VNull indentation result = result @ lit ''null''"
| "appendVariant fp (VString s) indentation result = appendEscapedString s result"
| "appendVariant fp (VMap m) indentation result =
     (if m = [] then result @ lit ''{}''
      else append_pairs fp m (indentation @ [9]) (result @ [123, 10]) @ [10] @ indentation @ [125])"
| "appendVariant fp (VList l) indentation result =
     (if l = [] then result @ lit ''[]''
      else append_items fp l (indentation @ [9]) (result @ [91, 10]) @ [10] @ indentation @ [93])"
| "appendVariant fp (VArray a l) indentation result =
     (if l = [] then result @ lit ''[]''
      else append_items fp l (indentation @ [9]) (result @ [91, 10]) @ [10] @ indentation @ [93])"
| "appendVariant fp v indentation result = result @ v_toString fp v"
| "append_items fp [] newIndentation result = result"
| "append_items fp (v # l) newIndentation result =
     (let result1 = appendVariant fp v newIndentation (result @ newIndentation)
      in if l = [] then result1 else append_items fp l newIndentation (result1 @ [44, 10]))"
| "append_pairs fp [] newIndentation result = result"
| "append_pairs fp ((k, v) # m) newIndentation result =
     (let result1 = appendEscapedString k (result @ newIndentation) @ lit '': '';
          result2 = appendVariant fp v newIndentation result1
      in if m = [] then result2 else append_pairs fp m newIndentation (result2 @ [44, 10]))"

definition json_toString :: "'d fp \<Rightarrow> 'd variant \<Rightarrow> byte list" where
  "json_toString fp data = appendVariant fp data [] [] @ [10]"

section \<open>Comments\<close>

lemma at0_nonempty: "at0 s \<noteq> 0 \<Longrightarrow> s \<noteq> []"
  by (auto simp: at0_def)

lemma slash_later: "at0 src = 47 \<Longrightarrow> str_findOneOf src [13, 10] = Some e \<Longrightarrow> 0 < e"
  by (cases src) (auto simp: str_findOneOf_def at0_def)

text \<open>\<^verbatim>\<open>stripComments\<close>: \<open>src\<close> is the rest of the text and \<open>dest\<close> what has been written. The first function is the
  code from the label \<^verbatim>\<open>checkStr\<close> on, the others are the loops over a block comment and a string.\<close>

function strip :: "byte list \<Rightarrow> byte list \<Rightarrow> byte list"
  and strip_block :: "byte list \<Rightarrow> byte list \<Rightarrow> byte list"
  and strip_string :: "byte list \<Rightarrow> byte list \<Rightarrow> byte list" where
  "strip src dest =
     (if at0 src = 0 then dest
      else if at0 src = 47 \<and> at0 (tl src) = 47 then
        (case str_findOneOf src [13, 10] of Some e \<Rightarrow> strip (drop e src) dest | None \<Rightarrow> dest)
      else if at0 src = 47 \<and> at0 (tl src) = 42 then strip_block (drop 2 src) dest
      else if at0 src \<noteq> 34 then strip (tl src) (dest @ [at0 src])
      else strip_string (tl src) (dest @ [at0 src]))"
| "strip_block src dest =
     (case str_findOneOf src [13, 10, 42] of
        Some e \<Rightarrow>
          if src ! e = 42 \<and> at0 (drop (e + 1) src) = 47 then strip (drop (e + 2) src) dest
          else strip_block (drop (e + 1) src) (dest @ [src ! e])
      | None \<Rightarrow> dest)"
| "strip_string src dest =
     (if at0 src = 92 \<and> at0 (tl src) \<noteq> 0 then strip (tl src) (dest @ [at0 src])
      else if at0 src = 34 then strip (tl src) (dest @ [at0 src])
      else if at0 src = 0 then strip src dest
      else strip_string (tl src) (dest @ [at0 src]))"
  by pat_completeness auto

termination
  by (relation "measure (\<lambda>x. case x of Inl (src, dest) \<Rightarrow> 2 * length src
      | Inr (Inl (src, dest)) \<Rightarrow> 2 * length src + 1 | Inr (Inr (src, dest)) \<Rightarrow> 2 * length src + 1)")
     (auto dest: slash_later strpbrk_less simp: str_findOneOf_def at0_def split: list.splits)

declare strip.simps [simp del] strip_block.simps [simp del] strip_string.simps [simp del]

definition stripComments :: "byte list \<Rightarrow> byte list" where
  "stripComments data = strip data []"

end
