(* ===== verification/Nstd_JsonProps.thy ===== *)
theory Nstd_JsonProps
  imports Nstd_Json
begin

section \<open>Reading never leaves the text, and always comes to an end\<close>

text \<open>The terminator is there and no backslash stands directly before a zero.\<close>

fun ended :: "ptr \<Rightarrow> bool" where
  "ended [] = False"
| "ended [c] = (c = 0)"
| "ended (c # d # p) = (\<not> (c = 92 \<and> d = 0) \<and> ended (d # p))"

lemma ended_Cons: "ended (c # p) \<Longrightarrow> c \<noteq> 0 \<Longrightarrow> ended p"
  by (cases p) auto

lemma ended_next: "ended (92 # c # p) \<Longrightarrow> ended p"
  by (cases p) auto

lemma ended_nonempty: "ended p \<Longrightarrow> p \<noteq> []"
  by auto

text \<open>Lines end in LF, CR or both.\<close>

lemma skipSpace_cases:
  assumes "p = [] \<Longrightarrow> P None" "\<And>c p'. p = c # p' \<Longrightarrow> c = 13 \<Longrightarrow> p' = [] \<Longrightarrow> P None"
    and "\<And>c d p'. p = c # d # p' \<Longrightarrow> c = 13 \<Longrightarrow> d = 10 \<Longrightarrow> P (skipSpace (line + 1) p')"
    and "\<And>c p'. p = c # p' \<Longrightarrow> c = 10 \<or> c = 13 \<Longrightarrow> P (skipSpace (line + 1) p')"
    and "\<And>c p'. p = c # p' \<Longrightarrow> c_isSpace c \<Longrightarrow> P (skipSpace line p')"
    and "\<And>c p'. p = c # p' \<Longrightarrow> P (Some \<lparr>pline = line, ppos = p\<rparr>)"
  shows "P (skipSpace line p)"
proof (cases p)
  case (Cons c p')
  then show ?thesis
    using assms(2-) by (cases p') simp_all
qed (use assms(1) in simp)

lemma space_not_zero: "c_isSpace c \<Longrightarrow> c \<noteq> 0"
  by (rule notI) (simp add: c_isSpace_def)

lemma skipSpace_ok:
  "ended p \<Longrightarrow> \<exists>pos. skipSpace line p = Some pos \<and> ended (ppos pos)"
proof (induction "length p" arbitrary: line p rule: less_induct)
  case less
  have e: "ended p'" if "p = c # p'" "c \<noteq> 0" for c p'
    using less.prems that ended_Cons [of c p'] by simp
  show ?case
  proof (rule skipSpace_cases)
    fix c d p' assume "p = c # d # p'" "c = 13" "d = 10"
    then show "\<exists>pos. skipSpace (line + 1) p' = Some pos \<and> ended (ppos pos)"
      using less.hyps [of p' "line + 1"] e [of c "d # p'"] ended_Cons [of d p'] by simp
  next
    fix c p' assume p: "p = c # p'" and "c = 10 \<or> c = 13"
    then have "c \<noteq> 0" by auto
    then show "\<exists>pos. skipSpace (line + 1) p' = Some pos \<and> ended (ppos pos)"
      using less.hyps [of p' "line + 1"] e [OF p] p by simp
  next
    fix c p' assume p: "p = c # p'" and "c_isSpace c"
    then show "\<exists>pos. skipSpace line p' = Some pos \<and> ended (ppos pos)"
      using less.hyps [of p' line] e [OF p] space_not_zero by simp
  qed (use less.prems in auto)
qed

lemma skipSpace_length: "skipSpace line p = Some pos \<Longrightarrow> ppos pos \<noteq> [] \<and> length (ppos pos) \<le> length p"
proof (induction "length p" arbitrary: line p rule: less_induct)
  case less
  have l: "skipSpace ln q = Some pos \<longrightarrow> ppos pos \<noteq> [] \<and> length (ppos pos) \<le> length p"
    if "length q < length p" for ln q
    using less.hyps [OF that, of ln] that by auto
  have "skipSpace line p = Some pos \<longrightarrow> ppos pos \<noteq> [] \<and> length (ppos pos) \<le> length p"
    by (rule skipSpace_cases) ((rule l, simp; fail) | force)+
  then show ?case using less.prems by blast
qed

lemma hex_not_zero: "is_hex c \<Longrightarrow> c \<noteq> 0"
  by (auto simp: is_hex_def is_digit_def)

lemma hex_loop_ok: "ended p \<Longrightarrow> \<exists>r. hex_loop i k p = Some r \<and> ended (snd (snd r))"
  by (induction i k p rule: hex_loop.induct) (auto dest: ended_Cons hex_not_zero)

lemma surrogate_pair_ok:
  assumes "ended p"
  shows "\<exists>pos r. surrogate_pair start line w1 p val = Some (pos, r) \<and> (\<forall>v. r = Inr v \<longrightarrow> ended (ppos pos))"
proof (cases "\<exists>q. p = 92 # chr CHR ''u'' # q")
  case True
  then obtain q where q: "p = 92 # chr CHR ''u'' # q" by blast
  then have "ended q"
    using assms ended_next by blast
  then obtain b k p2 where "hex_loop 4 [] q = Some (b, k, p2)" "ended p2"
    using hex_loop_ok by fastforce
  then show ?thesis
    by (cases "scan_hex k") (simp_all add: surrogate_pair_def q)
next
  case False
  obtain c q where p: "p = c # q"
    using assms by (cases p) auto
  show ?thesis
  proof (cases q)
    case Nil
    then show ?thesis
      using assms p by (simp add: surrogate_pair_def)
  next
    case (Cons d r)
    then show ?thesis
      using False p by (simp add: surrogate_pair_def)
  qed
qed

lemma unicode_escape_ok:
  assumes "ended p"
  shows "\<exists>pos r. unicode_escape start line p val = Some (pos, r) \<and> (\<forall>v. r = Inr v \<longrightarrow> ended (ppos pos))"
proof -
  obtain b k p1 where "hex_loop 4 [] p = Some (b, k, p1)" and "ended p1"
    using hex_loop_ok [OF assms] by fastforce
  then show ?thesis
    using surrogate_pair_ok [of p1] by (cases "scan_hex k") (simp_all add: unicode_escape_def)
qed

lemma escape_ok:
  assumes "ended (92 # p)"
  shows "\<exists>pos r. escape start line p val = Some (pos, r) \<and> (\<forall>v. r = Inr v \<longrightarrow> ended (ppos pos))"
proof (cases p)
  case Nil
  then show ?thesis using assms by simp
next
  case (Cons c q)
  then have "ended q"
    using assms ended_next by blast
  then show ?thesis
    using unicode_escape_ok [of q start line val] Cons by (auto simp: escape_def)
qed

lemma string_loop_ok:
  "ended p \<Longrightarrow> \<exists>pos r. string_loop start line p val = Some (pos, r) \<and> (\<forall>v. r = Inr v \<longrightarrow> ended (ppos pos))"
proof (induction start line p val rule: string_loop.induct)
  case (1 start line p val)
  obtain c p' where p: "p = c # p'"
    using 1(5) by (cases p) auto
  have p': "ended p'" if "c \<noteq> 0"
    using 1(5) p that ended_Cons by blast
  consider "c = 0" | "c = 13" | "c = 10" | "c = 92" | "c = 34" | "c \<notin> {0, 13, 10, 92, 34}" by blast
  then show ?case
  proof cases
    case 2
    obtain d p'' where d: "p' = d # p''"
      using p' 2 by (cases p') auto
    have "ended (if d = 10 then p'' else p')"
      using p' 2 d ended_Cons by auto
    then show ?thesis
      using 1(1) [OF p _ _ d] 2 p d by (subst string_loop.simps) auto
  next
    case 3
    then show ?thesis
      using 1(2) [OF p] p p' by (subst string_loop.simps) auto
  next
    case 4
    then obtain pos r where e: "escape start line p' val = Some (pos, r)" "\<forall>v. r = Inr v \<longrightarrow> ended (ppos pos)"
      using escape_ok 1(5) p by blast
    then show ?thesis
      using 1(3) [OF p] 4 p by (subst string_loop.simps) (auto split: sum.splits)
  next
    case 6
    then show ?thesis
      using 1(4) [OF p] p p' by (subst string_loop.simps) auto
  qed (use p p' in \<open>subst string_loop.simps, simp\<close>)+
qed

lemma string_loop_length: "string_loop start line p val = Some (pos, Inr v) \<Longrightarrow> length (ppos pos) < length p"
proof (induction start line p val rule: string_loop.induct)
  case (1 start line p val)
  obtain c p' where p: "p = c # p'"
    using 1(5) by (cases p) (simp_all add: string_loop.simps)
  note unf = 1(5) [unfolded string_loop.simps [of start line p val]]
  consider "c = 0" | "c = 13" | "c = 10" | "c = 92" | "c = 34" | "c \<notin> {0, 13, 10, 92, 34}" by blast
  then show ?case
  proof cases
    case 2
    then obtain d p'' where d: "p' = d # p''"
      using unf p by (cases p') simp_all
    then show ?thesis
      using 1(1) [OF p _ _ d] unf 2 p by (auto split: if_splits)
  next
    case 3
    then show ?thesis
      using 1(2) [OF p] unf p by simp
  next
    case 4
    then obtain pos' v' where e: "escape start line p' val = Some (pos', Inr v')"
      using unf p by (simp split: option.splits sum.splits prod.splits)
    then show ?thesis
      using 1(3) [OF p _ _ _ _ e refl refl] unf 4 p escape_length [OF e] by simp
  next
    case 6
    then show ?thesis
      using 1(4) [OF p] unf p by simp
  qed (use p unf in auto)
qed

text \<open>Reading a token: it stays in the text, and a token that is not the end of the text is consumed.\<close>

abbreviation left :: "'d jstate \<Rightarrow> nat" where
  "left st \<equiv> length (ppos (jpos st))"

definition rank :: "'d jstate \<Rightarrow> nat" where
  "rank st = left st + (if jtoken st = 0 then 0 else 1)"

lemma number_loop_ok: "ended p \<Longrightarrow> \<exists>p' n' b'. number_loop p n b = Some (p', n', b') \<and> ended p'"
  by (induction p n b rule: number_loop.induct) (auto dest: ended_Cons simp: is_digit_def)

lemma number_loop_length: "number_loop p n b = Some (p', n', b') \<Longrightarrow> length p' \<le> length p"
  by (induction p n b rule: number_loop.induct) (auto split: if_splits)

lemma compare_word_ended:
  "ended p \<Longrightarrow> c_compare_n p w (length w) = 0 \<Longrightarrow> 0 \<notin> set w \<Longrightarrow> ended (drop (length w) p)"
proof (induction w arbitrary: p)
  case (Cons a w)
  obtain c q where p: "p = c # q"
    using Cons.prems(1) by (cases p) auto
  have "uint c = uint a \<Longrightarrow> c = a" by (simp add: word_uint_eq_iff)
  then have "c = a" "c_compare_n q w (length w) = 0"
    using Cons.prems(2,3) p by (auto simp: at0_def split: if_splits)
  then show ?case
    using Cons p ended_Cons by auto
qed simp

lemma scan_token_cases:
  assumes "c = 0 \<Longrightarrow> P (Some (True, st))"
    and "c \<noteq> 0 \<Longrightarrow> P (Some (True, st\<lparr>jpos := (jpos st)\<lparr>ppos := tl (ppos (jpos st))\<rparr>\<rparr>))"
    and "c \<noteq> 0 \<Longrightarrow> P (string_token st)"
    and "\<And>w v. c \<noteq> 0 \<Longrightarrow> 0 \<notin> set w \<Longrightarrow> w \<noteq> [] \<Longrightarrow> P (Some (word_token w v st))"
    and "P (number_token fp st)"
  shows "P (scan_token fp c st)"
  using assms by (simp add: scan_token_def)

lemma readToken_ok:
  assumes "ended (ppos (jpos st))"
  shows "\<exists>b st1. readToken fp st = Some (b, st1) \<and> (b \<longrightarrow> ended (ppos (jpos st1)))"
proof -
  obtain pos where s: "skipSpace (pline (jpos st)) (ppos (jpos st)) = Some pos" and e: "ended (ppos pos)"
    using skipSpace_ok [OF assms] by blast
  obtain c p where p: "ppos pos = c # p"
    using e by (cases "ppos pos") auto
  let ?st = "st\<lparr>jpos := pos, jtoken := c, jtokenPos := pos\<rparr>"
  have e': "ended p" if "c \<noteq> 0"
    using e p that ended_Cons by metis
  have "\<exists>b st1. scan_token fp c ?st = Some (b, st1) \<and> (b \<longrightarrow> ended (ppos (jpos st1)))"
  proof (rule scan_token_cases)
    show "\<exists>b st1. Some (word_token w v ?st) = Some (b, st1) \<and> (b \<longrightarrow> ended (ppos (jpos st1)))"
      if "0 \<notin> set w" for w v
    proof (cases "c_compare_n (ppos pos) w (length w) = 0")
      case True
      then show ?thesis
        using compare_word_ended [OF e True that] by (auto simp: word_token_def str_compare_n_def Let_def)
    next
      case False
      then show ?thesis
        by (auto simp: word_token_def str_compare_n_def Let_def)
    qed
    show "\<exists>b st1. string_token ?st = Some (b, st1) \<and> (b \<longrightarrow> ended (ppos (jpos st1)))" if "c \<noteq> 0"
      using string_loop_ok [OF e' [OF that], of "jstart st" "pline pos" "[]"] p
      by (auto simp: string_token_def split: sum.splits)
    show "\<exists>b st1. number_token fp ?st = Some (b, st1) \<and> (b \<longrightarrow> ended (ppos (jpos st1)))"
      using number_loop_ok [OF e, of "[]" False] by (auto simp: number_token_def Let_def)
  qed (use e e' p in auto)
  then show ?thesis
    using s p by (simp add: readToken_def)
qed

lemma readToken_length:
  assumes "readToken fp st = Some (True, st1)"
  shows "rank st1 \<le> left st"
proof -
  obtain pos where s: "skipSpace (pline (jpos st)) (ppos (jpos st)) = Some pos"
    using assms by (simp add: readToken_def split: option.splits)
  obtain c p where p: "ppos pos = c # p"
    using skipSpace_length [OF s] by (cases "ppos pos") auto
  let ?st = "st\<lparr>jpos := pos, jtoken := c, jtokenPos := pos\<rparr>"
  have "\<forall>st2. scan_token fp c ?st = Some (True, st2) \<longrightarrow> rank st2 \<le> Suc (length p)"
  proof (rule scan_token_cases)
    show "\<forall>st2. Some (word_token w v ?st) = Some (True, st2) \<longrightarrow> rank st2 \<le> Suc (length p)"
      if "w \<noteq> []" for w v
      using that p by (cases w) (auto simp: word_token_def Let_def rank_def)
    show "\<forall>st2. string_token ?st = Some (True, st2) \<longrightarrow> rank st2 \<le> Suc (length p)"
      using p by (fastforce simp: string_token_def rank_def split: option.splits sum.splits dest!: string_loop_length)
    have "rank (?st\<lparr>jtoken := chr CHR ''#'', jpos := pos\<lparr>ppos := q\<rparr>, jvalue := v\<rparr>) \<le> Suc (length p)"
      if "number_loop (ppos pos) [] False = Some (q, n, b)" "c = chr CHR ''-'' \<or> is_digit c" for q n b v
    proof -
      have "length q \<le> length p"
        using that p number_loop_length [of p "[c]" False q n b] number_loop_length [of p "[c]" True q n b]
        by (auto split: if_splits)
      then show ?thesis by (simp add: rank_def)
    qed
    then show "\<forall>st2. number_token fp ?st = Some (True, st2) \<longrightarrow> rank st2 \<le> Suc (length p)"
      using p by (auto simp: number_token_def Let_def split: option.splits)
  qed (use p in \<open>auto simp: rank_def\<close>)
  then have "rank st1 \<le> Suc (length p)"
    using assms s p by (simp add: readToken_def)
  then show ?thesis
    using skipSpace_length [OF s] p by simp
qed

section \<open>Termination\<close>

text \<open>A call that succeeds has consumed the token it began with and read the next one.\<close>

definition progress :: "'d jstate \<Rightarrow> ('d jstate, 'v) jout \<Rightarrow> bool" where
  "progress st r \<longleftrightarrow> r \<noteq> Exhausted \<and> (\<forall>st1 v. r = Returns True st1 v \<longrightarrow> rank st1 < rank st)"

lemma rank_left: "jtoken st \<noteq> 0 \<Longrightarrow> left st < rank st"
  by (simp add: rank_def)

lemma progress_fails [simp]: "progress st (fails msg st1 v)"
  by (simp add: progress_def fails_def)

lemma progress_token:
  assumes "jtoken st \<noteq> 0" "rank st \<le> rank st0"
    and "\<And>st1. rank st1 < rank st \<Longrightarrow> progress st0 (k st1)"
  shows "progress st0 (after_token (readToken fp st) v k)"
proof (cases "readToken fp st")
  case (Some r)
  then show ?thesis
    using assms(3) [of "snd r"] readToken_length [of fp st "snd r"] rank_left [OF assms(1)]
    by (cases r) (auto simp: after_token_def progress_def)
qed (simp add: after_token_def progress_def)

lemma progress_finish:
  assumes "jtoken st \<noteq> 0" "rank st \<le> rank st0"
  shows "progress st0 (after_token (readToken fp st) v (\<lambda>st1. Returns True st1 w))"
  using assms by (intro progress_token) (auto simp: progress_def)

lemma progress_call:
  assumes "progress st r" "\<And>st1 v. rank st1 < rank st \<Longrightarrow> progress st0 (k st1 v)"
  shows "progress st0 (after_call r k f)"
  using assms by (cases r) (auto simp: progress_def)

lemma progress_mono: "progress st1 r \<Longrightarrow> rank st1 \<le> rank st0 \<Longrightarrow> progress st0 r"
  by (fastforce simp: progress_def)

lemma progress_if: "(b \<Longrightarrow> progress st x) \<Longrightarrow> (\<not> b \<Longrightarrow> progress st y) \<Longrightarrow> progress st (if b then x else y)"
  by simp

lemma array_loop_progress:
  assumes "\<And>s. rank s < k \<Longrightarrow> progress s (pv s)"
  shows "rank st < k \<Longrightarrow> rank st < n \<Longrightarrow> progress st (array_loop n fp pv st l)"
proof (induction n arbitrary: st l)
  case (Suc n)
  have loop: "progress st (array_loop n fp pv st1 l1)" if "rank st1 < rank st" for st1 l1
    using Suc.IH [of st1 l1] Suc.prems that progress_mono by fastforce
  show ?case
    unfolding array_loop.simps Let_def
    by (intro progress_if progress_finish progress_call [of st] progress_token assms progress_fails loop)
       (use Suc.prems in auto)
qed simp

lemma object_loop_progress:
  assumes "\<And>s. rank s < k \<Longrightarrow> progress s (pv s)"
  shows "rank st < k \<Longrightarrow> rank st < n \<Longrightarrow> progress st (object_loop n fp pv st m)"
proof (induction n arbitrary: st m)
  case (Suc n)
  have loop: "progress st (object_loop n fp pv st1 m1)" if "rank st1 < rank st" for st1 m1
    using Suc.IH [of st1 m1] Suc.prems that progress_mono by fastforce
  have call: "progress st2 (pv st2)" if "rank st2 < rank st" for st2
    using assms [of st2] Suc.prems that by simp
  have cont: "progress st (after_call (pv st2) f g)"
    if "rank st2 < rank st" "\<And>st3 v. rank st3 < rank st \<Longrightarrow> progress st (f st3 v)" for st2 f g
    by (rule progress_call [OF call [OF that(1)]]) (use that in auto)
  show ?case
    unfolding object_loop.simps Let_def
    by (intro progress_if progress_finish progress_token cont progress_fails loop)
       (use Suc.prems in auto)
qed simp

lemma parseValue_progress: "rank st < n \<Longrightarrow> progress st (parseValue n fp st result)"
proof (induction n arbitrary: st result)
  case (Suc n)
  have loop: "progress st (array_loop n fp (\<lambda>s. parseValue n fp s VNull) st1 l)"
    "progress st (object_loop n fp (\<lambda>s. parseValue n fp s VNull) st1 m)" if "rank st1 < rank st" for st1 l m
    using array_loop_progress [of n "\<lambda>s. parseValue n fp s VNull" st1 n fp l]
      object_loop_progress [of n "\<lambda>s. parseValue n fp s VNull" st1 n fp m] Suc progress_mono [of st1 _ st] that
    by auto
  show ?case
    unfolding parseValue.simps parseArray_def parseObject_def
    by (intro progress_if progress_finish progress_token progress_fails loop)
       (use Suc.prems in \<open>auto simp del: lit_simps simp: lit_def\<close>)
qed simp

text \<open>More fuel does not change a result.\<close>

definition agree :: "('s, 'v) jout \<Rightarrow> ('s, 'v) jout \<Rightarrow> bool" where
  "agree r r' \<longleftrightarrow> r \<noteq> Exhausted \<longrightarrow> r' = r"

lemma agree_refl [simp]: "agree r r"
  by (simp add: agree_def)

lemma agree_if: "(b \<Longrightarrow> agree x x') \<Longrightarrow> (\<not> b \<Longrightarrow> agree y y') \<Longrightarrow> agree (if b then x else y) (if b then x' else y')"
  by simp

lemma agree_token: "(\<And>s. agree (k s) (k' s)) \<Longrightarrow> agree (after_token r v k) (after_token r v k')"
  by (auto simp: after_token_def split: option.splits)

lemma agree_call: "agree r r' \<Longrightarrow> (\<And>s v. agree (k s v) (k' s v)) \<Longrightarrow> agree (after_call r k f) (after_call r' k' f)"
  by (cases r) (auto simp: agree_def)

lemma array_loop_agree:
  assumes "\<And>s. agree (pv s) (pv' s)"
  shows "n \<le> n' \<Longrightarrow> agree (array_loop n fp pv st l) (array_loop n' fp pv' st l)"
proof (induction n arbitrary: n' st l)
  case (Suc n)
  then obtain m where m: "n' = Suc m" "n \<le> m"
    by (cases n') auto
  show ?case
    unfolding m(1) array_loop.simps Let_def
    by (intro agree_if agree_refl agree_call agree_token assms Suc.IH m(2))
qed (simp add: agree_def)

lemma object_loop_agree:
  assumes "\<And>s. agree (pv s) (pv' s)"
  shows "n \<le> n' \<Longrightarrow> agree (object_loop n fp pv st m) (object_loop n' fp pv' st m)"
proof (induction n arbitrary: n' st m)
  case (Suc n)
  then obtain k where k: "n' = Suc k" "n \<le> k"
    by (cases n') auto
  show ?case
    unfolding k(1) object_loop.simps Let_def
    by (intro agree_if agree_refl agree_call agree_token assms Suc.IH k(2))
qed (simp add: agree_def)

lemma parseValue_agree: "n \<le> n' \<Longrightarrow> agree (parseValue n fp st result) (parseValue n' fp st result)"
proof (induction n arbitrary: n' st result)
  case (Suc n)
  then obtain k where k: "n' = Suc k" "n \<le> k"
    by (cases n') auto
  show ?case
    unfolding k(1) parseValue.simps parseArray_def parseObject_def
    by (intro agree_if agree_refl agree_token array_loop_agree object_loop_agree Suc.IH k(2))
qed (simp add: agree_def)

definition json_fuel :: "byte list \<Rightarrow> nat" where
  "json_fuel data = length data + 3"

lemma start_rank: "readToken fp (json_start data) = Some (True, st) \<Longrightarrow> rank st < json_fuel data"
  using readToken_length [of fp "json_start data" st] by (simp add: json_start_def json_fuel_def)

lemma private_parse_returns: "n \<ge> json_fuel data \<Longrightarrow> json_private_parse n fp data result \<noteq> Exhausted"
proof (cases "readToken fp (json_start data)")
  case (Some r)
  assume "n \<ge> json_fuel data"
  then show ?thesis
    using Some start_rank [of fp data "snd r"] parseValue_progress [of "snd r" n fp result]
    by (cases r) (auto simp: json_private_parse_def after_token_def progress_def)
qed (simp add: json_private_parse_def after_token_def)

lemma private_parse_fuel:
  assumes "n \<ge> json_fuel data"
  shows "json_private_parse n fp data result = json_private_parse (json_fuel data) fp data result"
proof -
  have "agree (json_private_parse (json_fuel data) fp data result) (json_private_parse n fp data result)"
    unfolding json_private_parse_def by (intro agree_token parseValue_agree assms)
  then show ?thesis
    using private_parse_returns [of data "json_fuel data" fp result] by (simp add: agree_def)
qed

lemma json_parse_fuel: "n \<ge> json_fuel data \<Longrightarrow> json_parse n fp data result = json_parse (json_fuel data) fp data result"
  using private_parse_fuel [of data n fp result] by (simp add: json_parse_def)

section \<open>Safety\<close>

definition safe :: "('d jstate, 'v) jout \<Rightarrow> bool" where
  "safe r \<longleftrightarrow> r \<noteq> OutOfBounds \<and> (\<forall>st v. r = Returns True st v \<longrightarrow> ended (ppos (jpos st)))"

lemma safe_if: "(b \<Longrightarrow> safe x) \<Longrightarrow> (\<not> b \<Longrightarrow> safe y) \<Longrightarrow> safe (if b then x else y)"
  by simp

lemma safe_token:
  assumes "ended (ppos (jpos st))" "\<And>st1. ended (ppos (jpos st1)) \<Longrightarrow> safe (k st1)"
  shows "safe (after_token (readToken fp st) v k)"
proof -
  obtain b st1 where "readToken fp st = Some (b, st1)" "b \<longrightarrow> ended (ppos (jpos st1))"
    using readToken_ok [OF assms(1)] by blast
  then show ?thesis
    using assms(2) [of st1] by (cases b) (auto simp: after_token_def safe_def)
qed

lemma safe_finish:
  "ended (ppos (jpos st)) \<Longrightarrow> safe (after_token (readToken fp st) v (\<lambda>st1. Returns True st1 w))"
  by (rule safe_token) (auto simp: safe_def)

lemma safe_call:
  "safe r \<Longrightarrow> (\<And>st v. ended (ppos (jpos st)) \<Longrightarrow> safe (k st v)) \<Longrightarrow> safe (after_call r k f)"
  by (cases r) (auto simp: safe_def)

lemma safe_fails [simp]: "safe (fails msg st v)"
  by (simp add: safe_def fails_def)

lemma array_loop_safe:
  assumes "\<And>s. ended (ppos (jpos s)) \<Longrightarrow> safe (pv s)"
  shows "ended (ppos (jpos st)) \<Longrightarrow> safe (array_loop n fp pv st l)"
proof (induction n arbitrary: st l)
  case (Suc n)
  show ?case
    unfolding array_loop.simps Let_def
    by (intro safe_if safe_finish safe_call safe_token assms safe_fails Suc.IH) (use Suc.prems in auto)
qed (simp add: safe_def)

lemma object_loop_safe:
  assumes "\<And>s. ended (ppos (jpos s)) \<Longrightarrow> safe (pv s)"
  shows "ended (ppos (jpos st)) \<Longrightarrow> safe (object_loop n fp pv st m)"
proof (induction n arbitrary: st m)
  case (Suc n)
  show ?case
    unfolding object_loop.simps Let_def
    by (intro safe_if safe_finish safe_call safe_token assms safe_fails Suc.IH) (use Suc.prems in auto)
qed (simp add: safe_def)

lemma parseValue_safe: "ended (ppos (jpos st)) \<Longrightarrow> safe (parseValue n fp st result)"
proof (induction n arbitrary: st result)
  case (Suc n)
  show ?case
    unfolding parseValue.simps parseArray_def parseObject_def
    by (intro safe_if safe_finish safe_token safe_fails array_loop_safe object_loop_safe Suc.IH) (use Suc.prems in auto)
qed (simp add: safe_def)

lemma ended_text: "0 \<notin> set data \<Longrightarrow> ended (data @ [0]) \<longleftrightarrow> data = [] \<or> last data \<noteq> 92"
proof (induction data)
  case (Cons c data)
  then show ?case by (cases data) auto
qed simp

lemma json_parse_safe: "ended (data @ [0]) \<Longrightarrow> json_parse n fp data result \<noteq> OutOfBounds"
  using safe_token [of "json_start data" "\<lambda>st. parseValue n fp st result" fp result] parseValue_safe [of _ n fp result]
  by (auto simp: json_parse_def json_private_parse_def safe_def json_start_def split: jout.splits)

section \<open>Strings\<close>

definition esc :: "byte \<Rightarrow> byte list" where
  "esc c = (if c = 34 \<or> c = 92 then [92, c] else [c])"

lemma esc_plain: "list_all (\<lambda>c. c \<noteq> 34 \<and> c \<noteq> 92) s \<Longrightarrow> concat (map esc s) = s"
  by (induction s) (auto simp: esc_def)

lemma escape_loop_eq: "0 \<notin> set p \<Longrightarrow> escape_loop p result = result @ concat (map esc p)"
proof (induction "length p" arbitrary: p result rule: less_induct)
  case less
  have c: "cstr p = p"
    using less.prems by (rule cstr_id)
  show ?case
  proof (cases "strpbrk p [34, 92]")
    case None
    then have "list_all (\<lambda>c. c \<noteq> 34 \<and> c \<noteq> 92) p"
      using c by (auto simp: strpbrk_None list_all_iff)
    then show ?thesis
      using None by (subst escape_loop.simps) (simp add: str_findOneOf_def esc_plain)
  next
    case (Some e)
    obtain a y b where p: "p = a @ y # b" "length a = e" "y = 34 \<or> y = 92" "list_all (\<lambda>c. c \<noteq> 34 \<and> c \<noteq> 92) a"
      using strpbrk_Some [OF Some] by (auto simp: list_all_iff)
    have i: "escape_loop b r = r @ concat (map esc b)" for r
      using less.prems p by (intro less.hyps) auto
    show ?thesis
      using Some p i by (subst escape_loop.simps) (auto simp: str_findOneOf_def esc_plain esc_def [of 34] esc_def [of 92] Let_def)
  qed
qed

lemma string_loop_step:
  "c \<noteq> 0 \<Longrightarrow> c \<noteq> 10 \<Longrightarrow> c \<noteq> 13 \<Longrightarrow>
     string_loop start line (esc c @ q) val = string_loop start line q (val @ [c])"
  by (subst string_loop.simps) (auto simp: esc_def escape_def)

lemma string_loop_esc:
  "list_all (\<lambda>c. c \<noteq> 0 \<and> c \<noteq> 10 \<and> c \<noteq> 13) s \<Longrightarrow>
     string_loop start line (concat (map esc s) @ 34 # r) val = Some (\<lparr>pline = line, ppos = r\<rparr>, Inr (val @ s))"
proof (induction s arbitrary: val)
  case Nil
  then show ?case by (subst string_loop.simps) simp
next
  case (Cons c s)
  then show ?case
    using string_loop_step [of c start line "concat (map esc s) @ 34 # r" val] by simp
qed

section \<open>Printing and parsing\<close>

text \<open>What the printed text of a value is read back as. The numbers are read as the code reads them.\<close>

primrec json_norm :: "'d fp \<Rightarrow> 'd variant \<Rightarrow> 'd variant" where
  "json_norm fp VNull = VNull"
| "json_norm fp (VBool b) = VBool b"
| "json_norm fp (VDouble d) = VDouble d"
| "json_norm fp (VInt w) = VInt w"
| "json_norm fp (VUInt w) = (if w < 2 ^ 31 then VInt w else VInt64 (ucast w))"
| "json_norm fp (VInt64 w) = (if scast (ucast w :: 32 word) = w then VInt (ucast w) else VInt64 w)"
| "json_norm fp (VUInt64 w) =
     (if w < 2 ^ 31 then VInt (ucast w) else if w < 2 ^ 63 then VInt64 w else VInt64 (2 ^ 63 - 1))"
| "json_norm fp (VMap m) = VMap (map (map_prod id (json_norm fp)) m)"
| "json_norm fp (VList l) = VList (map (json_norm fp) l)"
| "json_norm fp (VArray a l) = VList (map (json_norm fp) l)"
| "json_norm fp (VString s) = VString s"

definition number_char :: "byte \<Rightarrow> bool" where
  "number_char c \<longleftrightarrow> is_digit c \<or> c \<in> set (lit ''Ee-+.'')"

definition json_text :: "byte list \<Rightarrow> bool" where
  "json_text s = list_all (\<lambda>c. c \<noteq> 0 \<and> c \<noteq> 10 \<and> c \<noteq> 13) s"

text \<open>Values that survive: no string holds a zero or a line break, the keys of a map differ, and a double is
  printed as a number with a decimal point that is read back as itself.\<close>

primrec json_plain :: "'d fp \<Rightarrow> 'd variant \<Rightarrow> bool" where
  "json_plain fp VNull = True"
| "json_plain fp (VBool b) = True"
| "json_plain fp (VDouble d) =
     (let t = fp_print fp d in
      t \<noteq> [] \<and> list_all number_char t \<and> 46 \<in> set t \<and> (is_digit (hd t) \<or> hd t = 45) \<and> fp_parse fp t = d)"
| "json_plain fp (VInt w) = True"
| "json_plain fp (VUInt w) = True"
| "json_plain fp (VInt64 w) = True"
| "json_plain fp (VUInt64 w) = True"
| "json_plain fp (VMap m) =
     (distinct (map fst m) \<and> list_all (\<lambda>kv. json_text (fst kv) \<and> snd kv) (map (map_prod id (json_plain fp)) m))"
| "json_plain fp (VList l) = list_all id (map (json_plain fp) l)"
| "json_plain fp (VArray a l) = list_all id (map (json_plain fp) l)"
| "json_plain fp (VString s) = json_text s"

text \<open>The printer appends.\<close>

lemma escape_loop_append: "escape_loop p (r @ q) = r @ escape_loop p q"
proof (induction "length p" arbitrary: p q rule: less_induct)
  case less
  then show ?case
    by (subst (1 2) escape_loop.simps)
       (auto simp: str_findOneOf_def Let_def split: option.splits dest: strpbrk_less)
qed

lemma escaped_append: "appendEscapedString s (r @ result) = r @ appendEscapedString s result"
  by (simp add: appendEscapedString_def escape_loop_append)

lemma append_variant_app:
  fixes v :: "'d variant"
  shows "appendVariant fp v ind (r @ result) = r @ appendVariant fp v ind result"
    "append_items fp l ind (r @ result) = r @ append_items fp l ind result"
    "append_pairs fp m ind (r @ result) = r @ append_pairs fp m ind result"
proof (induction fp v ind result and fp l ind result and fp m ind result
    rule: appendVariant_append_items_append_pairs.induct)
qed (simp_all add: escaped_append Let_def)

lemmas append_variant = append_variant_app [where result = "[]", simplified]

lemma escaped_text:
  assumes "json_text s"
  shows "appendEscapedString s result = result @ 34 # concat (map esc s) @ [34]"
proof -
  have "0 \<notin> set s"
    using assms by (auto simp: json_text_def list_all_iff)
  then show ?thesis
    by (simp add: appendEscapedString_def escape_loop_eq)
qed

text \<open>Tokens behind white space.\<close>

definition blank :: "byte list \<Rightarrow> bool" where
  "blank ws = list_all (\<lambda>c. c = 9 \<or> c = 10 \<or> c = 32) ws"

lemma skipSpace_blank: "blank ws \<Longrightarrow> \<exists>line'. \<forall>p. skipSpace line (ws @ p) = skipSpace line' p"
proof (induction ws arbitrary: line)
  case (Cons c ws)
  obtain line' where "\<forall>p. skipSpace (if c = 10 then line + 1 else line) (ws @ p) = skipSpace line' p"
    using Cons by (fastforce simp: blank_def)
  then show ?case
    using Cons.prems by (intro exI [of _ line']) (auto simp: blank_def c_isSpace_def)
qed auto

definition begins :: "byte \<Rightarrow> bool" where
  "begins c \<longleftrightarrow> c \<noteq> 13 \<and> c \<noteq> 10 \<and> \<not> c_isSpace c"

lemma readToken_blank:
  assumes "blank ws" "ppos (jpos st) = ws @ c # p" "begins c"
  obtains pos where "ppos pos = c # p"
    "readToken fp st = scan_token fp c (st\<lparr>jpos := pos, jtoken := c, jtokenPos := pos\<rparr>)"
proof -
  obtain line where l: "\<forall>p. skipSpace (pline (jpos st)) (ws @ p) = skipSpace line p"
    using skipSpace_blank [OF assms(1)] by blast
  show thesis
    by (rule that [of "\<lparr>pline = line, ppos = c # p\<rparr>"])
       (use assms l in \<open>simp_all add: readToken_def begins_def\<close>)
qed

text \<open>A token that is one of the brackets, the comma or the colon.\<close>

lemma readToken_punct:
  assumes "blank ws" "ppos (jpos st) = ws @ c # p" "c \<in> set (lit ''{}[],:'')"
  shows "\<exists>st1. readToken fp st = Some (True, st1) \<and> jtoken st1 = c \<and> ppos (jpos st1) = p"
proof -
  have b: "begins c" "c \<noteq> 0"
    using assms(3) by (auto simp: begins_def c_isSpace_def)
  obtain pos where "ppos pos = c # p"
    "readToken fp st = scan_token fp c (st\<lparr>jpos := pos, jtoken := c, jtokenPos := pos\<rparr>)"
    using readToken_blank [OF assms(1,2) b(1)] by metis
  then show ?thesis
    using assms(3) b(2) by (simp add: scan_token_def)
qed

lemma readToken_string:
  assumes "blank ws" "ppos (jpos st) = ws @ appendEscapedString s [] @ p" "json_text s"
  shows "\<exists>st1. readToken fp st = Some (True, st1) \<and> jtoken st1 = 34 \<and> jvalue st1 = VString s \<and> ppos (jpos st1) = p"
proof -
  have b: "begins 34"
    by (simp add: begins_def c_isSpace_def)
  have p: "ppos (jpos st) = ws @ 34 # concat (map esc s) @ 34 # p"
    using assms(2) by (simp add: escaped_text [OF assms(3)])
  obtain pos where "ppos pos = 34 # concat (map esc s) @ 34 # p"
    "readToken fp st = scan_token fp 34 (st\<lparr>jpos := pos, jtoken := 34, jtokenPos := pos\<rparr>)"
    using readToken_blank [OF assms(1) p b] by metis
  then show ?thesis
    using string_loop_esc [of s "jstart st" "pline pos" p "[]"] assms(3)
    by (simp add: scan_token_def string_token_def json_text_def)
qed

lemma compare_word: "0 \<notin> set w \<Longrightarrow> c_compare_n (w @ p) w (length w) = 0"
  by (induction w) (auto simp: at0_def)

lemma readToken_word:
  assumes "blank ws" "ppos (jpos st) = ws @ w @ p"
    "(w, v) \<in> {(lit ''true'', VBool True), (lit ''false'', VBool False), (lit ''null'', VNull)}"
  shows "\<exists>st1. readToken fp st = Some (True, st1) \<and> jtoken st1 = hd w \<and> jvalue st1 = v \<and> ppos (jpos st1) = p"
proof -
  have w: "begins (hd w)" "w = hd w # tl w" "0 \<notin> set w" "hd w \<noteq> 0"
    using assms(3) by (auto simp: begins_def c_isSpace_def)
  have p: "ppos (jpos st) = ws @ hd w # tl w @ p"
    using assms(2) w(2) by (metis append_Cons)
  obtain pos where pos: "ppos pos = hd w # tl w @ p"
    "readToken fp st = scan_token fp (hd w) (st\<lparr>jpos := pos, jtoken := hd w, jtokenPos := pos\<rparr>)"
    using readToken_blank [OF assms(1) p w(1)] by metis
  have "scan_token fp (hd w) s = Some (word_token w v s)" for s
    using assms(3) by (auto simp: scan_token_def)
  moreover have "ppos pos = w @ p"
    using pos(1) w(2) by (metis append_Cons)
  ultimately show ?thesis
    using pos(2) compare_word [OF w(3), of p] by (simp add: word_token_def str_compare_n_def Let_def)
qed

lemma space_cases: "c_isSpace c \<Longrightarrow> c \<in> {9, 10, 11, 12, 13, 32}"
proof -
  assume "c_isSpace c"
  then have "sint c \<in> {9, 10, 11, 12, 13, 32}"
    by (auto simp: c_isSpace_def)
  moreover have "c = word_of_int (sint c)" by simp
  ultimately show ?thesis by (elim insertE) auto
qed

lemma number_loop_chars:
  "list_all number_char t \<Longrightarrow> p \<noteq> [] \<Longrightarrow> \<not> number_char (hd p) \<Longrightarrow>
     number_loop (t @ p) n b = Some (p, n @ t, b \<or> 46 \<in> set t)"
proof (induction t arbitrary: n b)
  case Nil
  then show ?case by (cases p) (auto simp: number_char_def)
next
  case (Cons c t)
  then show ?case by (auto simp: number_char_def)
qed

lemma readToken_number:
  assumes "blank ws" "ppos (jpos st) = ws @ t @ p" "list_all number_char t" "t \<noteq> []" "is_digit (hd t) \<or> hd t = 45"
    "p \<noteq> []" "\<not> number_char (hd p)"
  shows "\<exists>st1. readToken fp st = Some (True, st1) \<and> jtoken st1 = chr CHR ''#'' \<and>
    jvalue st1 = number_value fp t (46 \<in> set t) \<and> ppos (jpos st1) = p"
proof -
  have d: "hd t = 45 \<or> 48 \<le> hd t \<and> hd t \<le> 57"
    using assms(5) by (auto simp: is_digit_def)
  have z: "\<not> (48 :: byte) \<le> c" if "c \<in> {0, 44, 34}" for c :: byte
    using that by auto
  have z': "\<not> c \<le> (57 :: byte)" if "c \<in> {123, 125, 91, 93, 58, 116, 102, 110}" for c :: byte
    using that by auto
  have n: "hd t \<notin> {0, 44, 34, 123, 125, 91, 93, 58, 116, 102, 110}"
    using d z z' by force
  have s: "c \<notin> {9, 10, 11, 12, 13, 32}" if "48 \<le> c" for c :: byte
    using that by auto
  have "hd t \<notin> {9, 10, 11, 12, 13, 32}"
    using d s [of "hd t"] by auto
  then have s: "\<not> c_isSpace (hd t)" "hd t \<noteq> 13" "hd t \<noteq> 10"
    using space_cases [of "hd t"] by auto
  then have b: "begins (hd t)"
    by (simp add: begins_def)
  have p: "ppos (jpos st) = ws @ hd t # tl t @ p"
    using assms(2,4) by simp
  obtain pos where pos: "ppos pos = hd t # tl t @ p"
    "readToken fp st = scan_token fp (hd t) (st\<lparr>jpos := pos, jtoken := hd t, jtokenPos := pos\<rparr>)"
    using readToken_blank [OF assms(1) p b] by metis
  have "scan_token fp (hd t) s = number_token fp s" for s
    using n by (simp add: scan_token_def)
  moreover have "ppos pos = t @ p"
    using pos(1) assms(4) by simp
  ultimately show ?thesis
    using pos(2) number_loop_chars [OF assms(3,6,7), of "[]" False] assms(4,5) by (auto simp: number_token_def Let_def)
qed

lemma int_digits_chars:
  "list_all number_char (int_digits i)" "int_digits i \<noteq> []" "is_digit (hd (int_digits i)) \<or> hd (int_digits i) = 45"
  "46 \<notin> set (int_digits i)"
proof -
  have d: "list_all is_digit (nat_digits n)" for n by (rule nat_digits_are_digits)
  have "list_all number_char (nat_digits n)" "46 \<notin> set (nat_digits n)" for n
    using d [of n] by (auto simp: list_all_iff number_char_def is_digit_def)
  moreover have "is_digit (hd (nat_digits n))" for n
    using d [of n] nat_digits_nonempty [of n] by (cases "nat_digits n") auto
  ultimately show "list_all number_char (int_digits i)" "int_digits i \<noteq> []"
    "is_digit (hd (int_digits i)) \<or> hd (int_digits i) = 45" "46 \<notin> set (int_digits i)"
    by (auto simp: int_digits_def number_char_def)
qed

lemma sint_of_int_small:
  "- (2 ^ 31) \<le> i \<Longrightarrow> i < 2 ^ 31 \<Longrightarrow> sint (word_of_int i :: 32 word) = i"
  "- (2 ^ 63) \<le> j \<Longrightarrow> j < 2 ^ 63 \<Longrightarrow> sint (word_of_int j :: 64 word) = j"
  by (simp_all add: int_word_sint)

text \<open>A number that fits into 64 bits is an \<open>int\<close> when it fits into 32 bits.\<close>

lemma number_value_int:
  assumes "- (2 ^ 63) \<le> i" "i < 2 ^ 63"
  shows "number_value fp (int_digits i) False =
    (if - (2 ^ 31) \<le> i \<and> i < 2 ^ 31 then VInt (word_of_int i) else VInt64 (word_of_int i))"
proof -
  have r: "str_toInt64 (int_digits i) = word_of_int i"
    using assms by (simp add: str_toInt64_def c_strtoll_def Let_def)
  have u: "ucast (word_of_int i :: 64 word) = (word_of_int i :: 32 word)"
    by (rule bit_word_eqI) (auto simp: bit_simps)
  have s: "sint (scast w :: 64 word) = sint w" for w :: "32 word"
    by (rule sint_up_scast) (simp add: is_up)
  have "scast (word_of_int i :: 32 word) = (word_of_int i :: 64 word) \<longleftrightarrow> sint (word_of_int i :: 32 word) = i"
    using s [of "word_of_int i"] sint_of_int_small(2) [OF assms] by (metis signed_word_eqI)
  also have "\<dots> \<longleftrightarrow> - (2 ^ 31) \<le> i \<and> i < 2 ^ 31"
    using sint_of_int_small(1) [of i] sint_greater_eq [of "word_of_int i :: 32 word"] sint_less [of "word_of_int i :: 32 word"]
    by auto
  finally show ?thesis
    by (simp add: number_value_def r u Let_def)
qed

lemma number_value_norm:
  "number_value fp (str_fromInt w) False = json_norm fp (VInt w)"
  "number_value fp (str_fromUInt u) False = json_norm fp (VUInt u)"
  "number_value fp (str_fromInt64 l) False = json_norm fp (VInt64 l)"
  "number_value fp (str_fromUInt64 m) False = json_norm fp (VUInt64 m)"
proof -
  have w: "- (2 ^ 31) \<le> sint w" "sint w < 2 ^ 31"
    using sint_greater_eq [of w] sint_less [of w] by simp_all
  show "number_value fp (str_fromInt w) False = json_norm fp (VInt w)"
    using w by (simp add: str_fromInt_def number_value_int)
  have neg: "- (2 ^ 63) \<le> uint x" "- (2 ^ 31) \<le> uint x" for x :: "'x :: len word"
    by (rule order_trans [OF _ uint_ge_0], simp)+
  have u: "0 \<le> uint u" "uint u < 2 ^ 32" "u < 2 ^ 31 \<longleftrightarrow> uint u < 2 ^ 31"
    using uint_lt2p [of u] by (simp_all add: word_less_def)
  show "number_value fp (str_fromUInt u) False = json_norm fp (VUInt u)"
    using u neg [of u] number_value_int [of "uint u" fp] by (simp add: str_fromUInt_def)
  show "number_value fp (str_fromInt64 l) False = json_norm fp (VInt64 l)"
    using str_int_roundtrip(3) [of l] by (simp add: number_value_def)
  have m: "0 \<le> uint m" "uint m < 2 ^ 64" "m < 2 ^ 31 \<longleftrightarrow> uint m < 2 ^ 31" "m < 2 ^ 63 \<longleftrightarrow> uint m < 2 ^ 63"
    using uint_lt2p [of m] by (simp_all add: word_less_def)
  have c: "(word_of_int (uint m) :: 32 word) = ucast m"
    by simp
  have big: "number_value fp (int_digits (uint m)) False = VInt64 (2 ^ 63 - 1)" if "\<not> uint m < 2 ^ 63"
  proof -
    have "str_toInt64 (int_digits (uint m)) = 2 ^ 63 - 1"
      using that m(1) by (simp add: str_toInt64_def c_strtoll_def Let_def)
    then show ?thesis
      by (simp add: number_value_def)
  qed
  show "number_value fp (str_fromUInt64 m) False = json_norm fp (VUInt64 m)"
    using m neg [of m] big number_value_int [of "uint m" fp] by (simp add: str_fromUInt64_def)
qed

section \<open>The round trip\<close>

lemma after_token_True [simp]: "after_token (Some (True, st)) v k = k st"
  by (simp add: after_token_def)

abbreviation finish :: "'d fp \<Rightarrow> 'd jstate \<Rightarrow> 'v \<Rightarrow> ('d jstate, 'v) jout" where
  "finish fp st v \<equiv> after_token (readToken fp st) v (\<lambda>st1. Returns True st1 v)"

definition value_ok :: "'d fp \<Rightarrow> 'd variant \<Rightarrow> bool" where
  "value_ok fp v \<longleftrightarrow>
     (\<forall>st ind ws p res. blank ind \<longrightarrow> blank ws \<longrightarrow> ppos (jpos st) = ws @ appendVariant fp v ind [] @ p \<longrightarrow>
        p \<noteq> [] \<longrightarrow> \<not> number_char (hd p) \<longrightarrow> v_toList res = [] \<longrightarrow> v_toMap res = [] \<longrightarrow>
        (\<exists>st1 st3 k. readToken fp st = Some (True, st1) \<and> jtoken st1 \<noteq> 93 \<and> ppos (jpos st3) = p \<and>
           (\<forall>n\<ge>k. parseValue n fp st1 res = finish fp st3 (json_norm fp v))))"

lemma value_okE:
  assumes "value_ok fp v" "blank ind" "blank ws" "ppos (jpos st) = ws @ appendVariant fp v ind [] @ p"
    "p \<noteq> []" "\<not> number_char (hd p)" "v_toList res = []" "v_toMap res = []"
  obtains st1 st3 k where "readToken fp st = Some (True, st1)" "jtoken st1 \<noteq> 93" "ppos (jpos st3) = p"
    "\<And>n. n \<ge> k \<Longrightarrow> parseValue n fp st1 res = finish fp st3 (json_norm fp v)"
  using assms unfolding value_ok_def by metis

lemma value_okI:
  assumes "\<And>st ind ws p res. blank ind \<Longrightarrow> blank ws \<Longrightarrow> ppos (jpos st) = ws @ appendVariant fp v ind [] @ p \<Longrightarrow>
        p \<noteq> [] \<Longrightarrow> \<not> number_char (hd p) \<Longrightarrow> v_toList res = [] \<Longrightarrow> v_toMap res = [] \<Longrightarrow>
        \<exists>st1 st3 k. readToken fp st = Some (True, st1) \<and> jtoken st1 \<noteq> 93 \<and> ppos (jpos st3) = p \<and>
           (\<forall>n\<ge>k. parseValue n fp st1 res = finish fp st3 (json_norm fp v))"
  shows "value_ok fp v"
  using assms unfolding value_ok_def by blast

lemma scalar_ok:
  assumes "\<And>st ws p. blank ws \<Longrightarrow> ppos (jpos st) = ws @ text @ p \<Longrightarrow> p \<noteq> [] \<Longrightarrow> \<not> number_char (hd p) \<Longrightarrow>
      \<exists>st1. readToken fp st = Some (True, st1) \<and> jtoken st1 \<in> set (34 # lit ''#tfn'') \<and>
        jvalue st1 = json_norm fp v \<and> ppos (jpos st1) = p"
    and "\<And>ind. appendVariant fp v ind [] = text"
  shows "value_ok fp v"
proof (rule value_okI)
  fix st :: "'a jstate" and ind ws p and res :: "'a variant"
  assume "blank ws" "ppos (jpos st) = ws @ appendVariant fp v ind [] @ p" "p \<noteq> []" "\<not> number_char (hd p)"
  then obtain st1 where st1: "readToken fp st = Some (True, st1)" "jtoken st1 \<in> set (34 # lit ''#tfn'')"
    "jvalue st1 = json_norm fp v" "ppos (jpos st1) = p"
    using assms by metis
  have "parseValue n fp st1 res = finish fp st1 (json_norm fp v)" if "n \<ge> 1" for n
    using that st1(2,3) by (cases n) simp_all
  moreover have "jtoken st1 \<noteq> 93"
    using st1(2) by auto
  ultimately show "\<exists>st1 st3 k. readToken fp st = Some (True, st1) \<and> jtoken st1 \<noteq> 93 \<and> ppos (jpos st3) = p \<and>
           (\<forall>n\<ge>k. parseValue n fp st1 res = finish fp st3 (json_norm fp v))"
    using st1(1,4) by blast
qed

lemma items_ok:
  "l \<noteq> [] \<Longrightarrow> (\<And>v. v \<in> set l \<Longrightarrow> value_ok fp v) \<Longrightarrow> blank ind \<Longrightarrow> blank ws \<Longrightarrow> blank ind' \<Longrightarrow>
     ppos (jpos st) = ws @ append_items fp l ind [] @ 10 # ind' @ 93 # p \<Longrightarrow>
     \<exists>st1 st3 k. readToken fp st = Some (True, st1) \<and> ppos (jpos st3) = p \<and>
       (\<forall>n\<ge>k. \<forall>m\<ge>k. \<forall>acc. array_loop n fp (\<lambda>s. parseValue m fp s VNull) st1 acc =
          finish fp st3 (VList (acc @ map (json_norm fp) l)))"
proof (induction l arbitrary: st ws)
  case (Cons v l)
  let ?p = "if l = [] then 10 # ind' @ 93 # p else 44 # (10 # append_items fp l ind [] @ 10 # ind' @ 93 # p)"
  have "append_items fp (v # l) ind [] @ 10 # ind' @ 93 # p = ind @ appendVariant fp v ind [] @ ?p"
    using append_variant(1) [of fp v ind ind]
      append_variant(2) [of fp l ind "ind @ appendVariant fp v ind [] @ [44, 10]"] by (simp add: Let_def)
  then have pos: "ppos (jpos st) = (ws @ ind) @ appendVariant fp v ind [] @ ?p"
    using Cons.prems(6) by simp
  have "blank (ws @ ind)" "?p \<noteq> []" "\<not> number_char (hd ?p)"
    using Cons.prems(3,4) by (auto simp: blank_def number_char_def is_digit_def)
  then obtain st1 st3 k where st1: "readToken fp st = Some (True, st1)" "jtoken st1 \<noteq> 93" "ppos (jpos st3) = ?p"
    "\<And>n. n \<ge> k \<Longrightarrow> parseValue n fp st1 VNull = finish fp st3 (json_norm fp v)"
    using value_okE [OF Cons.prems(2) Cons.prems(3) _ pos, of VNull] by (metis list.set_intros(1) v_toList.simps(2) v_toMap.simps(2))
  show ?case
  proof (cases "l = []")
    case True
    then have "ppos (jpos st3) = (10 # ind') @ 93 # p" "blank (10 # ind')"
      using st1(3) Cons.prems(5) by (simp_all add: blank_def)
    then obtain st4 where st4: "readToken fp st3 = Some (True, st4)" "jtoken st4 = 93" "ppos (jpos st4) = p"
      using readToken_punct [of "10 # ind'" st3 93 p fp] by auto
    have "array_loop n fp (\<lambda>s. parseValue m fp s VNull) st1 acc = finish fp st4 (VList (acc @ map (json_norm fp) (v # l)))"
      if "n \<ge> max k 1" "m \<ge> max k 1" for n m acc
      using that st1(2,4) st4 True by (cases n) (simp_all add: Let_def)
    then show ?thesis
      using st1(1) st4(3) by blast
  next
    case False
    then have "ppos (jpos st3) = [] @ 44 # (10 # append_items fp l ind [] @ 10 # ind' @ 93 # p)"
      using st1(3) by simp
    then obtain st4 where st4: "readToken fp st3 = Some (True, st4)" "jtoken st4 = 44"
      "ppos (jpos st4) = [10] @ append_items fp l ind [] @ 10 # ind' @ 93 # p"
      using readToken_punct [of "[]" st3 44 _ fp] by (auto simp: blank_def)
    obtain st5 st6 k' where st5: "readToken fp st4 = Some (True, st5)" "ppos (jpos st6) = p"
      "\<forall>n\<ge>k'. \<forall>m\<ge>k'. \<forall>acc. array_loop n fp (\<lambda>s. parseValue m fp s VNull) st5 acc =
          finish fp st6 (VList (acc @ map (json_norm fp) l))"
      using Cons.IH [OF False _ Cons.prems(3) _ Cons.prems(5) st4(3)] Cons.prems(2) by (auto simp: blank_def)
    have "array_loop n fp (\<lambda>s. parseValue m fp s VNull) st1 acc = finish fp st6 (VList (acc @ map (json_norm fp) (v # l)))"
      if "n \<ge> Suc (max k k')" "m \<ge> Suc (max k k')" for n m acc
    proof -
      obtain n' where n: "n = Suc n'" "n' \<ge> k'"
        using \<open>n \<ge> Suc (max k k')\<close> by (metis Suc_le_D Suc_le_mono max.bounded_iff)
      have "array_loop n fp (\<lambda>s. parseValue m fp s VNull) st1 acc =
          array_loop n' fp (\<lambda>s. parseValue m fp s VNull) st5 (acc @ [json_norm fp v])"
        using that(2) n(1) st1(2,4) st4 st5(1) by (simp add: Let_def)
      also have "\<dots> = finish fp st6 (VList ((acc @ [json_norm fp v]) @ map (json_norm fp) l))"
        using st5(3) n(2) that(2) by auto
      finally show ?thesis by simp
    qed
    then show ?thesis
      using st1(1) st5(2) by blast
  qed
qed simp

lemma map_put_new: "k \<notin> fst ` set m \<Longrightarrow> map_put k v m = m @ [(k, v)]"
  by (induction m) auto

lemma pairs_ok:
  "m \<noteq> [] \<Longrightarrow> \<forall>kv \<in> set m. json_text (fst kv) \<and> value_ok fp (snd kv) \<Longrightarrow> blank ind \<Longrightarrow> blank ws \<Longrightarrow>
     blank ind' \<Longrightarrow> ppos (jpos st) = ws @ append_pairs fp m ind [] @ 10 # ind' @ 125 # p \<Longrightarrow>
     \<exists>st1 st3 k. readToken fp st = Some (True, st1) \<and> ppos (jpos st3) = p \<and>
       (\<forall>n\<ge>k. \<forall>j\<ge>k. \<forall>acc. distinct (map fst (acc @ m)) \<longrightarrow>
          object_loop n fp (\<lambda>s. parseValue j fp s VNull) st1 acc =
            finish fp st3 (VMap (acc @ map (map_prod id (json_norm fp)) m)))"
proof (induction m arbitrary: st ws)
  case (Cons kv m)
  obtain key v where kv: "kv = (key, v)" by (cases kv)
  let ?p = "if m = [] then 10 # ind' @ 125 # p else 44 # (10 # append_pairs fp m ind [] @ 10 # ind' @ 125 # p)"
  have "append_pairs fp (kv # m) ind [] @ 10 # ind' @ 125 # p =
      ind @ appendEscapedString key [] @ 58 # 32 # appendVariant fp v ind [] @ ?p"
    using append_variant(1) [of fp v ind "ind @ appendEscapedString key [] @ [58, 32]"] escaped_append [of key ind "[]"]
      append_variant(3) [of fp m ind "ind @ appendEscapedString key [] @ [58, 32] @ appendVariant fp v ind [] @ [44, 10]"]
    by (simp add: Let_def kv)
  then have pos: "ppos (jpos st) = (ws @ ind) @ appendEscapedString key [] @ 58 # 32 # appendVariant fp v ind [] @ ?p"
    using Cons.prems(6) by simp
  have key: "json_text key" and v: "value_ok fp v"
    using Cons.prems(2) kv by simp_all
  have b: "blank (ws @ ind)" "blank []" "blank [32]" "?p \<noteq> []" "\<not> number_char (hd ?p)"
    using Cons.prems(3,4) by (auto simp: blank_def number_char_def is_digit_def)
  obtain st1 where st1: "readToken fp st = Some (True, st1)" "jtoken st1 = 34" "jvalue st1 = VString key"
    "ppos (jpos st1) = [] @ 58 # 32 # appendVariant fp v ind [] @ ?p"
    using readToken_string [OF b(1) pos key] by auto
  obtain sc where sc: "readToken fp st1 = Some (True, sc)" "jtoken sc = 58"
    "ppos (jpos sc) = [32] @ appendVariant fp v ind [] @ ?p"
    using readToken_punct [OF b(2) st1(4), of fp] by auto
  obtain st2 st3 k where st2: "readToken fp sc = Some (True, st2)" "ppos (jpos st3) = ?p"
    "\<And>n. n \<ge> k \<Longrightarrow> parseValue n fp st2 VNull = finish fp st3 (json_norm fp v)"
    using value_okE [OF v Cons.prems(3) b(3) sc(3) b(4,5), of VNull] by (metis v_toList.simps(2) v_toMap.simps(2))
  show ?case
  proof (cases "m = []")
    case True
    then have "ppos (jpos st3) = (10 # ind') @ 125 # p" "blank (10 # ind')"
      using st2(2) Cons.prems(5) by (simp_all add: blank_def)
    then obtain st4 where st4: "readToken fp st3 = Some (True, st4)" "jtoken st4 = 125" "ppos (jpos st4) = p"
      using readToken_punct [of "10 # ind'" st3 125 p fp] by auto
    have "object_loop n fp (\<lambda>s. parseValue j fp s VNull) st1 acc =
        finish fp st4 (VMap (acc @ map (map_prod id (json_norm fp)) (kv # m)))"
      if "n \<ge> max k 1" "j \<ge> max k 1" "distinct (map fst (acc @ kv # m))" for n j acc
    proof -
      have "map_put key w acc = acc @ [(key, w)]" for w :: "'a variant"
        using that(3) kv by (intro map_put_new) auto
      then show ?thesis
        using that(1,2) st1(2,3) sc st2(1,3) st4 True kv by (cases n) (simp_all add: Let_def)
    qed
    then show ?thesis
      using st1(1) st4(3) by blast
  next
    case False
    then have "ppos (jpos st3) = [] @ 44 # (10 # append_pairs fp m ind [] @ 10 # ind' @ 125 # p)"
      using st2(2) by simp
    then obtain st4 where st4: "readToken fp st3 = Some (True, st4)" "jtoken st4 = 44"
      "ppos (jpos st4) = [10] @ append_pairs fp m ind [] @ 10 # ind' @ 125 # p"
      using readToken_punct [of "[]" st3 44 _ fp] by (auto simp: blank_def)
    obtain st5 st6 k' where st5: "readToken fp st4 = Some (True, st5)" "ppos (jpos st6) = p"
      "\<forall>n\<ge>k'. \<forall>j\<ge>k'. \<forall>acc. distinct (map fst (acc @ m)) \<longrightarrow>
          object_loop n fp (\<lambda>s. parseValue j fp s VNull) st5 acc =
            finish fp st6 (VMap (acc @ map (map_prod id (json_norm fp)) m))"
    proof -
      have "blank [10]" "\<forall>kv \<in> set m. json_text (fst kv) \<and> value_ok fp (snd kv)"
        using Cons.prems(2) by (simp_all add: blank_def)
      from Cons.IH [OF False this(2) Cons.prems(3) this(1) Cons.prems(5) st4(3)] show thesis
        by (elim exE conjE) (rule that)
    qed
    have "object_loop n fp (\<lambda>s. parseValue j fp s VNull) st1 acc =
        finish fp st6 (VMap (acc @ map (map_prod id (json_norm fp)) (kv # m)))"
      if "n \<ge> Suc (max k k')" "j \<ge> Suc (max k k')" "distinct (map fst (acc @ kv # m))" for n j acc
    proof -
      obtain n' where n: "n = Suc n'" "n' \<ge> k'"
        using \<open>n \<ge> Suc (max k k')\<close> by (metis Suc_le_D Suc_le_mono max.bounded_iff)
      have put: "map_put key w acc = acc @ [(key, w)]" for w :: "'a variant"
        using that(3) kv by (intro map_put_new) auto
      have "object_loop n fp (\<lambda>s. parseValue j fp s VNull) st1 acc =
          object_loop n' fp (\<lambda>s. parseValue j fp s VNull) st5 (acc @ [(key, json_norm fp v)])"
        using that(2) n(1) st1(2,3) sc st2(1,3) st4 st5(1) put by (simp add: Let_def)
      also have "\<dots> = finish fp st6 (VMap ((acc @ [(key, json_norm fp v)]) @ map (map_prod id (json_norm fp)) m))"
        using st5(3) n(2) that(2,3) kv by auto
      finally show ?thesis by (simp add: kv)
    qed
    then show ?thesis
      using st1(1) st5(2) by blast
  qed
qed simp

lemma array_values:
  assumes "array_text \<in> {(VList l), (VArray a l)}" "l \<noteq> [] \<Longrightarrow> \<forall>v \<in> set l. value_ok fp v"
  shows "value_ok fp array_text"
proof (rule value_okI)
  fix st :: "'a jstate" and ind ws p and res :: "'a variant"
  assume blank: "blank ind" "blank ws" and pos: "ppos (jpos st) = ws @ appendVariant fp array_text ind [] @ p"
    and p: "p \<noteq> []" "\<not> number_char (hd p)" and res: "v_toList res = []"
  let ?text = "if l = [] then [] else [10] @ append_items fp l (ind @ [9]) [] @ 10 # ind"
  have "appendVariant fp array_text ind [] = 91 # ?text @ [93]"
    using assms(1) append_variant(2) [of fp l "ind @ [9]" "[91, 10]"] by auto
  then obtain st1 where st1: "readToken fp st = Some (True, st1)" "jtoken st1 = 91" "ppos (jpos st1) = ?text @ 93 # p"
    using readToken_punct [OF blank(2), of st 91 _ fp] pos by fastforce
  have norm: "json_norm fp array_text = VList (map (json_norm fp) l)"
    using assms(1) by auto
  have "\<exists>st2 st3 k. readToken fp st1 = Some (True, st2) \<and> ppos (jpos st3) = p \<and>
      (\<forall>n\<ge>k. \<forall>m\<ge>k. array_loop n fp (\<lambda>s. parseValue m fp s VNull) st2 [] = finish fp st3 (VList (map (json_norm fp) l)))"
  proof (cases "l = []")
    case True
    then obtain st2 where st2: "readToken fp st1 = Some (True, st2)" "jtoken st2 = 93" "ppos (jpos st2) = p"
      using readToken_punct [of "[]" st1 93 p fp] st1(3) by (auto simp: blank_def)
    have "array_loop n fp pv st2 [] = finish fp st2 (VList (map (json_norm fp) l))" if "n \<ge> 1" for n pv
      using that st2(2) True by (cases n) simp_all
    then show ?thesis
      using st2 by blast
  next
    case False
    have "ppos (jpos st1) = [10] @ append_items fp l (ind @ [9]) [] @ 10 # ind @ 93 # p"
      using st1(3) False by simp
    moreover have "blank [10]" "blank (ind @ [9])" "\<And>v. v \<in> set l \<Longrightarrow> value_ok fp v"
      using assms(2) [OF False] blank(1) by (simp_all add: blank_def)
    ultimately obtain st2 st3 k where "readToken fp st1 = Some (True, st2)" "ppos (jpos st3) = p"
      "\<forall>n\<ge>k. \<forall>m\<ge>k. \<forall>acc. array_loop n fp (\<lambda>s. parseValue m fp s VNull) st2 acc =
          finish fp st3 (VList (acc @ map (json_norm fp) l))"
      using items_ok [OF False _ _ _ blank(1), of fp "ind @ [9]" "[10]" st1 p] by metis
    then show ?thesis
      by (intro exI [of _ st2] exI [of _ st3] exI [of _ k]) simp
  qed
  then obtain st2 st3 k where st2: "readToken fp st1 = Some (True, st2)" "ppos (jpos st3) = p"
    "\<And>n m. n \<ge> k \<Longrightarrow> m \<ge> k \<Longrightarrow>
       array_loop n fp (\<lambda>s. parseValue m fp s VNull) st2 [] = finish fp st3 (VList (map (json_norm fp) l))"
    by blast
  have "parseValue n fp st1 res = finish fp st3 (json_norm fp array_text)" if "n \<ge> Suc k" for n
    using that st1(2) st2(1,3) res norm by (cases n) (simp_all add: parseArray_def)
  then show "\<exists>st1 st3 k. readToken fp st = Some (True, st1) \<and> jtoken st1 \<noteq> 93 \<and> ppos (jpos st3) = p \<and>
           (\<forall>n\<ge>k. parseValue n fp st1 res = finish fp st3 (json_norm fp array_text))"
    using st1(1,2) st2(2) by (intro exI [of _ st1] exI [of _ st3] exI [of _ "Suc k"]) simp
qed

lemma object_values:
  assumes "m \<noteq> [] \<Longrightarrow> \<forall>kv \<in> set m. json_text (fst kv) \<and> value_ok fp (snd kv)" "distinct (map fst m)"
  shows "value_ok fp (VMap m)"
proof (rule value_okI)
  fix st :: "'a jstate" and ind ws p and res :: "'a variant"
  assume blank: "blank ind" "blank ws" and pos: "ppos (jpos st) = ws @ appendVariant fp (VMap m) ind [] @ p"
    and p: "p \<noteq> []" "\<not> number_char (hd p)" and res: "v_toMap res = []"
  let ?text = "if m = [] then [] else [10] @ append_pairs fp m (ind @ [9]) [] @ 10 # ind"
  have "appendVariant fp (VMap m) ind [] = 123 # ?text @ [125]"
    using append_variant(3) [of fp m "ind @ [9]" "[123, 10]"] by auto
  then obtain st1 where st1: "readToken fp st = Some (True, st1)" "jtoken st1 = 123" "ppos (jpos st1) = ?text @ 125 # p"
    using readToken_punct [OF blank(2), of st 123 _ fp] pos by fastforce
  have "\<exists>st2 st3 k. readToken fp st1 = Some (True, st2) \<and> ppos (jpos st3) = p \<and>
      (\<forall>n\<ge>k. \<forall>j\<ge>k. object_loop n fp (\<lambda>s. parseValue j fp s VNull) st2 [] =
         finish fp st3 (VMap (map (map_prod id (json_norm fp)) m)))"
  proof (cases "m = []")
    case True
    then obtain st2 where st2: "readToken fp st1 = Some (True, st2)" "jtoken st2 = 125" "ppos (jpos st2) = p"
      using readToken_punct [of "[]" st1 125 p fp] st1(3) by (auto simp: blank_def)
    have "object_loop n fp pv st2 [] = finish fp st2 (VMap (map (map_prod id (json_norm fp)) m))" if "n \<ge> 1" for n pv
      using that st2(2) True by (cases n) simp_all
    then show ?thesis
      using st2 by blast
  next
    case False
    have pos1: "ppos (jpos st1) = [10] @ append_pairs fp m (ind @ [9]) [] @ 10 # ind @ 125 # p"
      using st1(3) False by simp
    obtain st2 st3 k where
      "readToken fp st1 = Some (True, st2)" "ppos (jpos st3) = p"
      "\<forall>n\<ge>k. \<forall>j\<ge>k. \<forall>acc. distinct (map fst (acc @ m)) \<longrightarrow> object_loop n fp (\<lambda>s. parseValue j fp s VNull) st2 acc =
         finish fp st3 (VMap (acc @ map (map_prod id (json_norm fp)) m))"
    proof -
      have "blank [10]" "blank (ind @ [9])" "\<forall>kv \<in> set m. json_text (fst kv) \<and> value_ok fp (snd kv)"
        using assms(1) [OF False] blank(1) by (simp_all add: blank_def)
      from pairs_ok [OF False this(3,2,1) blank(1) pos1] show thesis
        by (elim exE conjE) (rule that)
    qed
    moreover from this(3) have "\<forall>n\<ge>k. \<forall>j\<ge>k. object_loop n fp (\<lambda>s. parseValue j fp s VNull) st2 [] =
         finish fp st3 (VMap (map (map_prod id (json_norm fp)) m))"
      using assms(2) by fastforce
    ultimately show ?thesis by blast
  qed
  then obtain st2 st3 k where st2: "readToken fp st1 = Some (True, st2)" "ppos (jpos st3) = p"
    "\<And>n j. n \<ge> k \<Longrightarrow> j \<ge> k \<Longrightarrow>
       object_loop n fp (\<lambda>s. parseValue j fp s VNull) st2 [] = finish fp st3 (VMap (map (map_prod id (json_norm fp)) m))"
    by blast
  have "parseValue n fp st1 res = finish fp st3 (json_norm fp (VMap m))" if "n \<ge> Suc k" for n
    using that st1(2) st2(1,3) res by (cases n) (simp_all add: parseObject_def)
  then show "\<exists>st1 st3 k. readToken fp st = Some (True, st1) \<and> jtoken st1 \<noteq> 93 \<and> ppos (jpos st3) = p \<and>
           (\<forall>n\<ge>k. parseValue n fp st1 res = finish fp st3 (json_norm fp (VMap m)))"
    using st1(1,2) st2(2) by (intro exI [of _ st1] exI [of _ st3] exI [of _ "Suc k"]) simp
qed

lemma plain_value_ok: "json_plain fp v \<Longrightarrow> value_ok fp v"
proof (induction v)
  case (VMap m)
  then show ?case
    by (intro object_values) (auto simp: list_all_iff snds.simps)
next
  case (VList l)
  then show ?case by (intro array_values) (auto simp: list_all_iff)
next
  case (VArray a l)
  then show ?case by (intro array_values [of _ l a]) (auto simp: list_all_iff)
next
  case VNull
  show ?case
    by (rule scalar_ok [of "lit ''null''"]) (use readToken_word [of _ _ "lit ''null''" _ VNull fp] in fastforce)+
next
  case (VBool b)
  show ?case
    by (rule scalar_ok [of "str_fromBool b"])
       (use readToken_word [of _ _ "str_fromBool b" _ "VBool b" fp] in \<open>fastforce simp: str_fromBool_def split: if_splits\<close>)+
next
  case (VString s)
  then show ?case
    by (intro scalar_ok [of "appendEscapedString s []"]) (use readToken_string [of _ _ s _ fp] in fastforce)+
next
  case (VInt w)
  show ?case
    using readToken_number [of _ _ "str_fromInt w" _ fp] int_digits_chars [of "sint w"] number_value_norm(1) [of fp w]
    by (intro scalar_ok [of "str_fromInt w"]) (fastforce simp: str_fromInt_def)+
next
  case (VUInt w)
  show ?case
    using readToken_number [of _ _ "str_fromUInt w" _ fp] int_digits_chars [of "uint w"] number_value_norm(2) [of fp w]
    by (intro scalar_ok [of "str_fromUInt w"]) (fastforce simp: str_fromUInt_def)+
next
  case (VInt64 w)
  show ?case
    using readToken_number [of _ _ "str_fromInt64 w" _ fp] int_digits_chars [of "sint w"] number_value_norm(3) [of fp w]
    by (intro scalar_ok [of "str_fromInt64 w"]) (fastforce simp: str_fromInt64_def)+
next
  case (VUInt64 w)
  show ?case
    using readToken_number [of _ _ "str_fromUInt64 w" _ fp] int_digits_chars [of "uint w"] number_value_norm(4) [of fp w]
    by (intro scalar_ok [of "str_fromUInt64 w"]) (fastforce simp: str_fromUInt64_def)+
next
  case (VDouble d)
  then show ?case
    using readToken_number [of _ _ "fp_print fp d" _ fp]
    by (intro scalar_ok [of "fp_print fp d"]) (fastforce simp: Let_def number_value_def)+
qed

section \<open>Removing comments\<close>

text \<open>A text in parts: code without slashes and strings, a slash that does not begin a comment, a string without
  backslashes, a comment up to the end of its line, and a comment in which no asterisk stands. Of the comments only the
  line breaks are kept.\<close>

datatype part =
    Code "byte list"
  | Slash byte
  | Quoted "byte list"
  | LineComment "byte list" byte
  | BlockComment "byte list"

fun part_text :: "part \<Rightarrow> byte list" where
  "part_text (Code s) = s"
| "part_text (Slash c) = [47, c]"
| "part_text (Quoted s) = 34 # s @ [34]"
| "part_text (LineComment s nl) = 47 # 47 # s @ [nl]"
| "part_text (BlockComment s) = 47 # 42 # s @ [42, 47]"

fun part_kept :: "part \<Rightarrow> byte list" where
  "part_kept (Code s) = s"
| "part_kept (Slash c) = [47, c]"
| "part_kept (Quoted s) = 34 # s @ [34]"
| "part_kept (LineComment s nl) = [nl]"
| "part_kept (BlockComment s) = filter (\<lambda>c. c = 10 \<or> c = 13) s"

fun part_ok :: "part \<Rightarrow> bool" where
  "part_ok (Code s) = list_all (\<lambda>c. c \<notin> {0, 34, 47}) s"
| "part_ok (Slash c) = (c \<notin> {0, 34, 42, 47})"
| "part_ok (Quoted s) = list_all (\<lambda>c. c \<notin> {0, 34, 92}) s"
| "part_ok (LineComment s nl) = (list_all (\<lambda>c. c \<notin> {0, 10, 13}) s \<and> (nl = 10 \<or> nl = 13))"
| "part_ok (BlockComment s) = list_all (\<lambda>c. c \<notin> {0, 42}) s"

lemma at0_Cons [simp]: "at0 (c # s) = c"
  by (simp add: at0_def)

lemma at0_Nil [simp]: "at0 [] = 0"
  by (simp add: at0_def)

lemma strpbrk_skip: "list_all (\<lambda>c. c \<noteq> 0 \<and> c \<notin> set (cstr chars)) s \<Longrightarrow>
    strpbrk (s @ r) chars = map_option ((+) (length s)) (strpbrk r chars)"
  by (cases "strpbrk r chars"; induction s) auto

lemma strip_code: "list_all (\<lambda>c. c \<notin> {0, 34, 47}) s \<Longrightarrow> strip (s @ r) dest = strip r (dest @ s)"
proof (induction s arbitrary: dest)
  case (Cons c s)
  then show ?case by (subst strip.simps) simp
qed simp

lemma strip_string_body: "list_all (\<lambda>c. c \<notin> {0, 34, 92}) s \<Longrightarrow> strip_string (s @ 34 # r) dest = strip r (dest @ s @ [34])"
proof (induction s arbitrary: dest)
  case Nil
  show ?case by (subst strip_string.simps) simp
next
  case (Cons c s)
  then show ?case by (subst strip_string.simps) simp
qed

lemma strip_block_body:
  "list_all (\<lambda>c. c \<notin> {0, 42}) s \<Longrightarrow>
     strip_block (s @ 42 # 47 # r) dest = strip r (dest @ filter (\<lambda>c. c = 10 \<or> c = 13) s)"
proof (induction "length s" arbitrary: s dest rule: less_induct)
  case less
  show ?case
  proof (cases "\<exists>u x v. s = u @ x # v \<and> (x = 10 \<or> x = 13) \<and> list_all (\<lambda>c. c \<noteq> 10 \<and> c \<noteq> 13) u")
    case True
    then obtain u x v where s: "s = u @ x # v" "x = 10 \<or> x = 13" "list_all (\<lambda>c. c \<noteq> 10 \<and> c \<noteq> 13) u" by blast
    have u: "list_all (\<lambda>c. c \<noteq> 0 \<and> c \<notin> set (cstr [13, 10, 42])) u"
      using less.prems s by (auto simp: list_all_iff)
    have f: "filter (\<lambda>c. c = 10 \<or> c = 13) u = []"
      using s(3) by (auto simp: filter_empty_conv list_all_iff)
    have "strpbrk (s @ 42 # 47 # r) [13, 10, 42] = Some (length u)"
      using strpbrk_skip [OF u, of "x # v @ 42 # 47 # r"] s less.prems by auto
    then have "strip_block (s @ 42 # 47 # r) dest = strip_block (v @ 42 # 47 # r) (dest @ [x])"
      using s(1,2) by (subst strip_block.simps) (auto simp: str_findOneOf_def)
    then show ?thesis
      using less.hyps [of v "dest @ [x]"] less.prems s(1,2) f by auto
  next
    case False
    have n: "list_all (\<lambda>c. c \<noteq> 10 \<and> c \<noteq> 13) s"
      using False split_list_first_prop [of s "\<lambda>c. c = 10 \<or> c = 13"] by (fastforce simp: list_all_iff)
    then have u: "list_all (\<lambda>c. c \<noteq> 0 \<and> c \<notin> set (cstr [13, 10, 42])) s"
      using less.prems by (auto simp: list_all_iff)
    have "filter (\<lambda>c. c = 10 \<or> c = 13) s = []"
      using n by (auto simp: filter_empty_conv list_all_iff)
    then show ?thesis
      using strpbrk_skip [OF u, of "42 # 47 # r"] by (subst strip_block.simps) (simp add: str_findOneOf_def)
  qed
qed

lemma strip_part: "part_ok p \<Longrightarrow> strip (part_text p @ r) dest = strip r (dest @ part_kept p)"
proof (cases p)
  case (Slash c)
  assume "part_ok p"
  then show ?thesis
    using Slash strip_code [of "[c]" r "dest @ [47]"] by (subst strip.simps) simp
next
  case (Quoted s)
  assume "part_ok p"
  then show ?thesis
    using Quoted strip_string_body [of s r "dest @ [34]"] by (subst strip.simps) simp
next
  case (LineComment s nl)
  assume ok: "part_ok p"
  then have u: "list_all (\<lambda>c. c \<noteq> 0 \<and> c \<notin> set (cstr [13, 10])) s"
    using LineComment by (auto simp: list_all_iff)
  have "strpbrk (nl # r) [13, 10] = Some 0"
    using ok LineComment by auto
  then have "strip (part_text p @ r) dest = strip (nl # r) dest"
    using strpbrk_skip [OF u, of "nl # r"] LineComment by (subst strip.simps) (simp add: str_findOneOf_def)
  then show ?thesis
    using strip_code [of "[nl]" r dest] ok LineComment by auto
next
  case (BlockComment s)
  assume "part_ok p"
  then show ?thesis
    using BlockComment strip_block_body [of s r dest] by (subst strip.simps) simp
qed (use strip_code in simp)

lemma strip_parts: "list_all part_ok ps \<Longrightarrow> strip (concat (map part_text ps)) dest = dest @ concat (map part_kept ps)"
proof (induction ps arbitrary: dest)
  case Nil
  show ?case by (subst strip.simps) simp
next
  case (Cons p ps)
  then show ?case
    using strip_part [of p "concat (map part_text ps)" dest] by simp
qed

text \<open>What is written never exceeds what has been read.\<close>

lemma strip_length:
  "length (strip src dest) \<le> length src + length dest"
  "length (strip_block src dest) \<le> length src + length dest"
  "length (strip_string src dest) \<le> length src + length dest"
proof (induction src dest and src dest and src dest rule: strip_strip_block_strip_string.induct)
  case (1 src dest)
  show ?case
  proof (cases src)
    case Nil
    then show ?thesis by (subst strip.simps) simp
  next
    case (Cons c s)
    show ?thesis
    proof (cases "str_findOneOf src [13, 10]")
      case None
      then show ?thesis
        using 1(2-4) Cons by (subst strip.simps) auto
    next
      case (Some e)
      then show ?thesis
        using 1(1) [OF _ _ Some] 1(2-4) Cons by (subst strip.simps) auto
    qed
  qed
next
  case (2 src dest)
  show ?case
  proof (cases "str_findOneOf src [13, 10, 42]")
    case None
    then show ?thesis
      by (subst strip_block.simps) simp
  next
    case (Some e)
    then show ?thesis
      using 2(1,2) [OF Some] strpbrk_less [of src "[13, 10, 42]" e] by (subst strip_block.simps) (auto simp: str_findOneOf_def)
  qed
next
  case (3 src dest)
  show ?case
  proof (cases src)
    case Nil
    then show ?thesis
      using 3(3) by (subst strip_string.simps) simp
  next
    case (Cons c s)
    then show ?thesis
      using 3 by (subst strip_string.simps) auto
  qed
qed

section \<open>The properties\<close>

text \<open>C19. What \<^verbatim>\<open>toString\<close> prints of a value is parsed without error, whatever follows it if that begins
  with a bracket, a comma or a colon, and the result is \<open>json_norm\<close> of the value: arrays have become lists, integers have
  the smaller of the types \<^verbatim>\<open>int\<close> and \<^verbatim>\<open>int64\<close> that holds them, those from 2^63 on have become 2^63 - 1, and everything else is
  the same. The value must be \<open>json_plain\<close>: no string or key in it holds a zero or a line break, the keys of each map differ, and
  each double is printed as a number with a decimal point that is read back as itself.\<close>

theorem json_roundtrip:
  assumes "json_plain fp v" "rest = [] \<or> hd rest \<in> set (lit ''{}[],:'')"
  shows "json_parse (json_fuel (json_toString fp v @ rest)) fp (json_toString fp v @ rest) VNull =
    Returns True None (json_norm fp v)"
proof -
  let ?data = "json_toString fp v @ rest" and ?p = "[10] @ rest @ [0]"
  have pos: "ppos (jpos (json_start ?data)) = [] @ appendVariant fp v [] [] @ ?p"
    by (simp add: json_start_def json_toString_def)
  have blank: "blank []" "blank [10]"
    by (simp_all add: blank_def)
  have p: "?p \<noteq> []" "\<not> number_char (hd ?p)" "v_toList VNull = []" "v_toMap VNull = []"
    by (simp_all add: number_char_def is_digit_def)
  obtain st1 st3 k where st1: "readToken fp (json_start ?data) = Some (True, st1)" "ppos (jpos st3) = ?p"
    "\<And>n. n \<ge> k \<Longrightarrow> parseValue n fp st1 VNull = finish fp st3 (json_norm fp v)"
    using value_okE [OF plain_value_ok [OF assms(1)] blank(1,1) pos p] by metis
  have "\<exists>st4. readToken fp st3 = Some (True, st4)"
  proof (cases rest)
    case Nil
    then have "ppos (jpos st3) = [10] @ 0 # []" "begins 0"
      using st1(2) by (simp_all add: begins_def c_isSpace_def)
    from readToken_blank [OF blank(2) this] show ?thesis
      by (metis scan_token_def)
  next
    case (Cons c r)
    then show ?thesis
      using readToken_punct [OF blank(2), of st3 c "r @ [0]" fp] st1(2) assms(2) by auto
  qed
  then have "json_parse (max k (json_fuel ?data)) fp ?data VNull = Returns True None (json_norm fp v)"
    using st1 by (auto simp: json_parse_def json_private_parse_def)
  then show ?thesis
    using json_parse_fuel [of ?data "max k (json_fuel ?data)" fp VNull] by simp
qed

definition example_value :: "int variant" where
  "example_value = VMap [(lit ''a'', VList [VInt 5, VArray 7 [VNull, VDouble (- 3)], VList []]), (lit ''b'', VString [34, 92, 65])]"

theorem json_roundtrip_witness:
  "json_parse (json_fuel (json_toString example_fp example_value @ [44])) example_fp
     (json_toString example_fp example_value @ [44]) VNull = Returns True None (json_norm example_fp example_value)"
proof (rule json_roundtrip)
  show "json_plain example_fp example_value" by code_simp
qed simp

text \<open>C20. The parser always returns, and with the fuel given by the length of the text: more fuel gives the same
  result.\<close>

theorem json_terminates:
  "json_parse (json_fuel data + k) fp data result \<noteq> Exhausted
   \<and> json_parse (json_fuel data + k) fp data result = json_parse (json_fuel data) fp data result"
proof -
  have "json_parse (json_fuel data) fp data result \<noteq> Exhausted"
    using private_parse_returns [of data "json_fuel data" fp result] by (simp add: json_parse_def split: jout.splits)
  then show ?thesis
    using json_parse_fuel [of data "json_fuel data + k" fp result] by simp
qed

text \<open>C21. Parsing a text without zeros never reads behind its terminator, whatever else is wrong with the text, unless
  it ends with a backslash; a string that the end of the text cuts off behind a backslash makes the scanner
  step over the terminator.\<close>

theorem json_bounds:
  "(0 \<notin> set data \<and> (data = [] \<or> last data \<noteq> 92) \<longrightarrow> json_parse n fp data result \<noteq> OutOfBounds)
   \<and> (json_text s \<longrightarrow> json_parse n fp (34 # concat (map esc s) @ [92]) result = OutOfBounds)"
proof (intro conjI impI)
  assume "0 \<notin> set data \<and> (data = [] \<or> last data \<noteq> 92)"
  then show "json_parse n fp data result \<noteq> OutOfBounds"
    using json_parse_safe [of data n fp result] ended_text [of data] by blast
next
  assume s: "json_text s"
  have cut: "string_loop start line (concat (map esc s) @ [92, 0]) val = None" if "json_text s" for start line val
    using that
  proof (induction s arbitrary: val)
    case Nil
    have "string_loop start line [] v = None" for v
      by (subst string_loop.simps) simp
    then show ?case by (subst string_loop.simps) (simp add: escape_def)
  next
    case (Cons c s)
    then show ?case
      using string_loop_step [of c start line "concat (map esc s) @ [92, 0]" val] by (simp add: json_text_def)
  qed
  have "skipSpace line (34 # p) = Some \<lparr>pline = line, ppos = 34 # p\<rparr>" for line p
    by (simp add: c_isSpace_def)
  then have "readToken fp (json_start (34 # concat (map esc s) @ [92])) = None"
    using cut [OF s] by (simp add: readToken_def scan_token_def string_token_def json_start_def del: skipSpace.simps)
  then show "json_parse n fp (34 # concat (map esc s) @ [92]) result = OutOfBounds"
    by (simp add: json_parse_def json_private_parse_def after_token_def)
qed

theorem json_bounds_witness:
  "json_parse 5 example_fp [91, 47] VNull \<noteq> OutOfBounds \<and> json_parse 5 example_fp (34 # concat (map esc [97, 34]) @ [92]) VNull = OutOfBounds"
  using json_bounds [of "[91, 47]" 5 example_fp VNull "[97, 34]"] by (simp add: json_text_def)

text \<open>\<^verbatim>\<open>stripComments\<close> keeps the code and the strings of a text and removes its comments but for their line
  breaks, when no string holds a backslash and no asterisk stands inside a comment. An asterisk inside a
  comment survives, and behind an escape in a string the code takes the rest of the string for code, so that a
  comment behind the string stays. What is written fits into the buffer.\<close>

theorem json_strip_comments:
  "(list_all part_ok ps \<longrightarrow> stripComments (concat (map part_text ps)) = concat (map part_kept ps))
   \<and> length (stripComments data) \<le> length data
   \<and> stripComments (lit ''/***/'') = lit ''*''
   \<and> stripComments (34 # lit ''a'' @ [92] @ lit ''n'' @ [34] @ lit ''//'') = 34 # lit ''a'' @ [92] @ lit ''n'' @ [34] @ lit ''//''"
proof -
  have "stripComments (lit ''/***/'') = lit ''*''"
    "stripComments (34 # lit ''a'' @ [92] @ lit ''n'' @ [34] @ lit ''//'') = 34 # lit ''a'' @ [92] @ lit ''n'' @ [34] @ lit ''//''"
    by code_simp+
  then show ?thesis
    using strip_parts [of ps "[]"] strip_length(1) [of data "[]"] by (simp add: stripComments_def)
qed

theorem json_strip_comments_witness:
  "stripComments (concat (map part_text [Code [123], LineComment [97] 10, Quoted [47, 47], BlockComment [13, 47]])) =
     concat (map part_kept [Code [123], LineComment [97] 10, Quoted [47, 47], BlockComment [13, 47]])"
  using json_strip_comments [of "[Code [123], LineComment [97] 10, Quoted [47, 47], BlockComment [13, 47]]" "[]"] by simp

text \<open>Texts that are not JSON and are accepted all the same: a comma behind the last value, a line break inside a string,
  which disappears, and a number with an exponent and no decimal point, whose exponent is ignored.\<close>

lemma json_deviations:
  fixes fp :: "int fp"
  shows
  "json_parse 20 fp (lit ''[1,]'') VNull = Returns True None (VList [VInt 1])"
  "json_parse 20 fp ([34, 97, 10, 98, 34]) VNull = Returns True None (VString [97, 98])"
  "json_parse 20 fp (lit ''1e5'') VNull = Returns True None (VInt 1)"
  by code_simp+

end
