(* ===== verification/Nstd_Array.thy ===== *)
theory Nstd_Array
  imports Nstd_Prelude "HOL-Library.Monad_Syntax"
begin

unbundle bit_operations_syntax

text \<open>
  \<^verbatim>\<open>Array\<close> (include/nstd/Array.hpp): elements in one block of memory. The state holds the blocks that are
  allocated, cell by cell (\<open>Some\<close> an object, \<open>None\<close> raw memory), and the arrays, numbered, so that an argument can
  be an element of an array or the array itself. An operation is \<open>None\<close> when the code touches memory that is not
  allocated, reads or destroys an object that is not there, constructs an object over another, frees a block in which an object
  has not been destroyed, or moves a pointer in front of its block. The
  sizes are natural numbers: the products with the size of an element are assumed not to overflow.
\<close>

section \<open>Memory\<close>

text \<open>\<^verbatim>\<open>_begin\<close> (the block, or none), \<^verbatim>\<open>_end\<close> (as an offset) and \<^verbatim>\<open>_capacity\<close>.\<close>

record arr =
  ablock :: "nat option"
  aend :: nat
  acap :: nat

record 'a amem =
  blocks :: "nat \<Rightarrow> 'a option list option"
  fresh :: nat
  arrs :: "nat \<Rightarrow> arr"

definition set_block :: "nat \<Rightarrow> 'a option list option \<Rightarrow> 'a amem \<Rightarrow> 'a amem" where
  "set_block b cs m = m\<lparr>blocks := (blocks m)(b := cs)\<rparr>"

definition set_arr :: "nat \<Rightarrow> arr \<Rightarrow> 'a amem \<Rightarrow> 'a amem" where
  "set_arr i a m = m\<lparr>arrs := (arrs m)(i := a)\<rparr>"

text \<open>The cells of the block a pointer goes into.\<close>

definition cells :: "'a amem \<Rightarrow> nat option \<Rightarrow> 'a option list option" where
  "cells m p = Option.bind p (blocks m)"

definition read_cell :: "'a amem \<Rightarrow> nat option \<Rightarrow> nat \<Rightarrow> 'a option" where
  "read_cell m p i = (case cells m p of None \<Rightarrow> None | Some cs \<Rightarrow> if i < length cs then cs ! i else None)"

text \<open>\<^verbatim>\<open>new(dest)T(value)\<close> in raw memory, \<^verbatim>\<open>dest->~T()\<close> and \<^verbatim>\<open>*dest = value\<close> on an object, and \<^verbatim>\<open>delete[]\<close> of a block without objects.\<close>

definition construct :: "nat option \<Rightarrow> nat \<Rightarrow> 'a \<Rightarrow> 'a amem \<Rightarrow> 'a amem option" where
  "construct p i v m =
     (case (p, cells m p) of
        (Some b, Some cs) \<Rightarrow>
          if i < length cs \<and> cs ! i = None then Some (set_block b (Some (cs[i := Some v])) m) else None
      | _ \<Rightarrow> None)"

definition destroy :: "nat option \<Rightarrow> nat \<Rightarrow> 'a amem \<Rightarrow> 'a amem option" where
  "destroy p i m =
     (case (p, cells m p) of
        (Some b, Some cs) \<Rightarrow>
          if i < length cs \<and> cs ! i \<noteq> None then Some (set_block b (Some (cs[i := None])) m) else None
      | _ \<Rightarrow> None)"

definition assign :: "nat option \<Rightarrow> nat \<Rightarrow> 'a \<Rightarrow> 'a amem \<Rightarrow> 'a amem option" where
  "assign p i v m =
     (case (p, cells m p) of
        (Some b, Some cs) \<Rightarrow>
          if i < length cs \<and> cs ! i \<noteq> None then Some (set_block b (Some (cs[i := Some v])) m) else None
      | _ \<Rightarrow> None)"

definition free_block :: "nat option \<Rightarrow> 'a amem \<Rightarrow> 'a amem option" where
  "free_block p m =
     (case (p, cells m p) of
        (Some b, Some cs) \<Rightarrow> if list_all (\<lambda>c. c = None) cs then Some (set_block b None m) else None
      | _ \<Rightarrow> None)"

text \<open>An argument of type \<^verbatim>\<open>const T&\<close>: an object elsewhere or the element at an offset of a block.\<close>

datatype 'a source = Val 'a | Elem nat nat

fun read_source :: "'a amem \<Rightarrow> 'a source \<Rightarrow> 'a option" where
  "read_source m (Val v) = Some v"
| "read_source m (Elem b i) = read_cell m (Some b) i"

text \<open>The loops; \<open>n\<close> is the distance of the pointer that runs from its end.\<close>

fun arr_copy_loop :: "nat \<Rightarrow> nat option \<Rightarrow> nat \<Rightarrow> nat option \<Rightarrow> nat \<Rightarrow> 'a amem \<Rightarrow> 'a amem option" where
  "arr_copy_loop 0 sb src db dest m = Some m"
| "arr_copy_loop (Suc n) sb src db dest m =
     do { v \<leftarrow> read_cell m sb src; m1 \<leftarrow> construct db dest v m; arr_copy_loop n sb (src + 1) db (dest + 1) m1 }"

fun arr_move_loop :: "nat \<Rightarrow> nat option \<Rightarrow> nat \<Rightarrow> nat option \<Rightarrow> nat \<Rightarrow> 'a amem \<Rightarrow> 'a amem option" where
  "arr_move_loop 0 sb src db dest m = Some m"
| "arr_move_loop (Suc n) sb src db dest m =
     do { v \<leftarrow> read_cell m sb src; m1 \<leftarrow> construct db dest v m; m2 \<leftarrow> destroy sb src m1;
          arr_move_loop n sb (src + 1) db (dest + 1) m2 }"

fun arr_destroy_loop :: "nat \<Rightarrow> nat option \<Rightarrow> nat \<Rightarrow> 'a amem \<Rightarrow> 'a amem option" where
  "arr_destroy_loop 0 b i m = Some m"
| "arr_destroy_loop (Suc n) b i m = do { m1 \<leftarrow> destroy b i m; arr_destroy_loop n b (i + 1) m1 }"

fun arr_fill_loop :: "nat \<Rightarrow> nat option \<Rightarrow> nat \<Rightarrow> 'a source \<Rightarrow> 'a amem \<Rightarrow> 'a amem option" where
  "arr_fill_loop 0 b i src m = Some m"
| "arr_fill_loop (Suc n) b i src m =
     do { v \<leftarrow> read_source m src; m1 \<leftarrow> construct b i v m; arr_fill_loop n b (i + 1) src m1 }"

text \<open>The loop of the \<^verbatim>\<open>remove\<close> functions and the destruction of the last element, at which the pointer stops.\<close>

fun arr_shift_loop :: "nat \<Rightarrow> nat option \<Rightarrow> nat \<Rightarrow> 'a amem \<Rightarrow> 'a amem option" where
  "arr_shift_loop 0 b pos m = destroy b pos m"
| "arr_shift_loop (Suc n) b pos m =
     do { v \<leftarrow> read_cell m b (pos + 1); m1 \<leftarrow> assign b pos v m; arr_shift_loop n b (pos + 1) m1 }"

section \<open>Operations\<close>

definition empty_arr :: "nat \<Rightarrow> arr" where
  "empty_arr capacity = \<lparr>ablock = None, aend = 0, acap = capacity\<rparr>"

definition arr_init :: "nat \<Rightarrow> nat \<Rightarrow> 'a amem \<Rightarrow> 'a amem" where
  "arr_init i capacity m = set_arr i (empty_arr capacity) m"

definition arr_reserve :: "nat \<Rightarrow> nat \<Rightarrow> 'a amem \<Rightarrow> 'a amem option" where
  "arr_reserve i sz m =
     (let a = arrs m i in
      if sz > acap a \<or> (ablock a = None \<and> sz > 0) then
        let capacity = (if sz > acap a then sz else acap a) OR 3;
            newData = fresh m;
            m1 = set_block newData (Some (replicate capacity None)) (m\<lparr>fresh := fresh m + 1\<rparr>)
        in do {
          m2 \<leftarrow> (if ablock a = None then Some m1
                 else do { m2 \<leftarrow> arr_move_loop (aend a) (ablock a) 0 (Some newData) 0 m1; free_block (ablock a) m2 });
          Some (set_arr i \<lparr>ablock = Some newData, aend = (if ablock a = None then 0 else aend a), acap = capacity\<rparr> m2)
        }
      else Some m)"

definition arr_clear :: "nat \<Rightarrow> 'a amem \<Rightarrow> 'a amem option" where
  "arr_clear i m =
     (let a = arrs m i in
      if ablock a = None then Some m
      else do { m1 \<leftarrow> arr_destroy_loop (aend a) (ablock a) 0 m; Some (set_arr i (a\<lparr>aend := 0\<rparr>) m1) })"

text \<open>The common part of the copy constructor and of \<^verbatim>\<open>operator=\<close>: copying the elements into reserved memory.\<close>

definition arr_fill :: "nat \<Rightarrow> nat \<Rightarrow> 'a amem \<Rightarrow> 'a amem option" where
  "arr_fill i other m =
     do {
       m1 \<leftarrow> arr_reserve i (acap (arrs m other)) m;
       let n = aend (arrs m1 other);
       m2 \<leftarrow> arr_copy_loop n (ablock (arrs m1 other)) 0 (ablock (arrs m1 i)) 0 m1;
       Some (set_arr i ((arrs m2 i)\<lparr>aend := n\<rparr>) m2)
     }"

definition arr_copy :: "nat \<Rightarrow> nat \<Rightarrow> 'a amem \<Rightarrow> 'a amem option" where
  "arr_copy i other m = arr_fill i other (arr_init i 0 m)"

definition arr_assign :: "nat \<Rightarrow> nat \<Rightarrow> 'a amem \<Rightarrow> 'a amem option" where
  "arr_assign i other m = do { m1 \<leftarrow> arr_clear i m; arr_fill i other m1 }"

definition arr_destroy :: "nat \<Rightarrow> 'a amem \<Rightarrow> 'a amem option" where
  "arr_destroy i m =
     (let a = arrs m i in
      if ablock a = None then Some (set_arr i (empty_arr 0) m)
      else do { m1 \<leftarrow> arr_destroy_loop (aend a) (ablock a) 0 m; m2 \<leftarrow> free_block (ablock a) m1;
                Some (set_arr i (empty_arr 0) m2) })"

definition arr_front :: "nat \<Rightarrow> 'a amem \<Rightarrow> 'a option" where
  "arr_front i m = read_cell m (ablock (arrs m i)) 0"

definition arr_back :: "nat \<Rightarrow> 'a amem \<Rightarrow> 'a option" where
  "arr_back i m = (if aend (arrs m i) = 0 then None else read_cell m (ablock (arrs m i)) (aend (arrs m i) - 1))"

definition arr_size :: "nat \<Rightarrow> 'a amem \<Rightarrow> nat" where
  "arr_size i m = aend (arrs m i)"

definition arr_isEmpty :: "nat \<Rightarrow> 'a amem \<Rightarrow> bool" where
  "arr_isEmpty i m \<longleftrightarrow> aend (arrs m i) = 0"

definition arr_capacity :: "nat \<Rightarrow> 'a amem \<Rightarrow> nat" where
  "arr_capacity i m = acap (arrs m i)"

definition arr_resize :: "nat \<Rightarrow> nat \<Rightarrow> 'a source \<Rightarrow> 'a amem \<Rightarrow> 'a amem option" where
  "arr_resize i sz v m =
     (let a = arrs m i in
      if sz < aend a then
        do { m1 \<leftarrow> arr_destroy_loop (aend a - sz) (ablock a) sz m; Some (set_arr i (a\<lparr>aend := sz\<rparr>) m1) }
      else
        do {
          m1 \<leftarrow> arr_reserve i sz m;
          m2 \<leftarrow> arr_fill_loop (sz - aend a) (ablock (arrs m1 i)) (aend a) v m1;
          Some (set_arr i ((arrs m2 i)\<lparr>aend := sz\<rparr>) m2)
        })"

definition arr_swap :: "nat \<Rightarrow> nat \<Rightarrow> 'a amem \<Rightarrow> 'a amem" where
  "arr_swap i other m =
     (let tmp = arrs m i; m1 = set_arr i (arrs m other) m in set_arr other tmp m1)"

definition arr_append :: "nat \<Rightarrow> 'a source \<Rightarrow> 'a amem \<Rightarrow> 'a amem option" where
  "arr_append i v m =
     do {
       m1 \<leftarrow> arr_reserve i (aend (arrs m i) + 1) m;
       let a = arrs m1 i;
       x \<leftarrow> read_source m1 v;
       m2 \<leftarrow> construct (ablock a) (aend a) x m1;
       Some (set_arr i (a\<lparr>aend := aend a + 1\<rparr>) m2)
     }"

definition arr_append_array :: "nat \<Rightarrow> nat \<Rightarrow> 'a amem \<Rightarrow> 'a amem option" where
  "arr_append_array i values m =
     (let sz = aend (arrs m i); valuesSize = aend (arrs m values) in
      do {
        m1 \<leftarrow> arr_reserve i (sz + valuesSize) m;
        let a = arrs m1 i;
        m2 \<leftarrow> arr_copy_loop valuesSize (ablock (arrs m1 values)) 0 (ablock a) (aend a) m1;
        Some (set_arr i (a\<lparr>aend := aend a + valuesSize\<rparr>) m2)
      })"

text \<open>\<^verbatim>\<open>append(const T* values, usize size)\<close>, the pointer given by its block and offset.\<close>

definition arr_append_values :: "nat \<Rightarrow> nat \<Rightarrow> nat \<Rightarrow> nat \<Rightarrow> 'a amem \<Rightarrow> 'a amem option" where
  "arr_append_values i b off sz m =
     do {
       m1 \<leftarrow> arr_reserve i (aend (arrs m i) + sz) m;
       let a = arrs m1 i;
       m2 \<leftarrow> arr_copy_loop sz (Some b) off (ablock a) (aend a) m1;
       Some (set_arr i (a\<lparr>aend := aend a + sz\<rparr>) m2)
     }"

text \<open>\<^verbatim>\<open>remove(const Iterator&)\<close>, the iterator given by its offset; it returns an iterator with that offset.\<close>

definition arr_remove_it :: "nat \<Rightarrow> nat \<Rightarrow> 'a amem \<Rightarrow> 'a amem option" where
  "arr_remove_it i pos m =
     (let a = arrs m i in
      if aend a = 0 then None
      else arr_shift_loop (aend a - 1 - pos) (ablock a) pos (set_arr i (a\<lparr>aend := aend a - 1\<rparr>) m))"

definition arr_remove :: "nat \<Rightarrow> nat \<Rightarrow> 'a amem \<Rightarrow> 'a amem option" where
  "arr_remove i index m =
     (let a = arrs m i in
      if index < aend a then
        arr_shift_loop (aend a - 1 - index) (ablock a) index (set_arr i (a\<lparr>aend := aend a - 1\<rparr>) m)
      else Some m)"

definition arr_removeFront :: "nat \<Rightarrow> 'a amem \<Rightarrow> 'a amem option" where
  "arr_removeFront i m = arr_remove_it i 0 m"

definition arr_removeBack :: "nat \<Rightarrow> 'a amem \<Rightarrow> 'a amem option" where
  "arr_removeBack i m = (if aend (arrs m i) = 0 then None else arr_remove_it i (aend (arrs m i) - 1) m)"

fun arr_find_loop :: "nat \<Rightarrow> nat option \<Rightarrow> nat \<Rightarrow> 'a \<Rightarrow> 'a amem \<Rightarrow> nat option" where
  "arr_find_loop 0 b pos v m = Some pos"
| "arr_find_loop (Suc n) b pos v m =
     do { x \<leftarrow> read_cell m b pos; if x = v then Some pos else arr_find_loop n b (pos + 1) v m }"

text \<open>\<^verbatim>\<open>find\<close>: the offset of the element, or that of the end.\<close>

definition arr_find :: "nat \<Rightarrow> 'a \<Rightarrow> 'a amem \<Rightarrow> nat option" where
  "arr_find i v m = arr_find_loop (aend (arrs m i)) (ablock (arrs m i)) 0 v m"

end
