(* ===== verification/Nstd_ArrayProps.thy ===== *)
theory Nstd_ArrayProps
  imports Nstd_Array Nstd_Interfaces
begin

text \<open>
  What the operations of \<open>Nstd_Array\<close> do to the lists of the elements, for any number of arrays in one memory: the
  loops first, then each operation, then whole histories of operations, and what happens when an argument
  is an element of the array itself.
\<close>

section \<open>Memory\<close>

lemma cells_None [simp]: "cells m None = None"
  by (simp add: cells_def)

lemma cells_set_block [simp]:
  "cells (set_block b cs m) (Some b) = cs" "b \<noteq> c \<Longrightarrow> cells (set_block b cs m) (Some c) = cells m (Some c)"
  by (simp_all add: cells_def set_block_def)

lemma cells_set_arr [simp]: "cells (set_arr i a m) p = cells m p"
  by (simp add: cells_def set_arr_def)

lemma arrs_set [simp]:
  "arrs (set_block b cs m) = arrs m" "arrs (set_arr i a m) = (arrs m)(i := a)"
  "fresh (set_block b cs m) = fresh m" "fresh (set_arr i a m) = fresh m"
  by (simp_all add: set_block_def set_arr_def)

lemma set_block_twice [simp]: "set_block b cs (set_block b cs' m) = set_block b cs m"
  by (simp add: set_block_def)

lemma set_block_swap: "b \<noteq> c \<Longrightarrow> set_block b cs (set_block c ds m) = set_block c ds (set_block b cs m)"
  by (simp add: set_block_def fun_upd_twist)

lemma set_block_same: "cells m (Some b) = Some cs \<Longrightarrow> set_block b (Some cs) m = m"
  by (simp add: cells_def set_block_def fun_upd_idem)

lemma upd_middle: "length xs = n \<Longrightarrow> (xs @ y # ys)[n := z] = xs @ z # ys"
  by (auto simp: list_update_append)

section \<open>Loops\<close>

text \<open>Constructing behind \<open>pre\<close> in a block of which \<open>n\<close> cells are still to be written.\<close>

lemma copy_loop_ok:
  assumes "\<And>k. k < length xs \<Longrightarrow> read_cell m sb (src + k) = Some (xs ! k)"
    and "cells m (Some b) = Some (pre @ replicate (length xs) None @ rest)"
    and "sb = Some b \<Longrightarrow> src + length xs \<le> length pre"
  shows "arr_copy_loop (length xs) sb src (Some b) (length pre) m =
    Some (set_block b (Some (pre @ map Some xs @ rest)) m)"
  using assms
proof (induction xs arbitrary: src pre m)
  case Nil
  then show ?case by (simp add: set_block_same)
next
  case (Cons x xs)
  let ?m = "set_block b (Some ((pre @ [Some x]) @ replicate (length xs) None @ rest)) m"
  have r: "read_cell ?m sb (src + 1 + k) = Some (xs ! k)" if "k < length xs" for k
  proof (cases "sb = Some b")
    case True
    have "read_cell m sb (src + Suc k) = Some (xs ! k)"
      using Cons.prems(1) [of "Suc k"] that by simp
    moreover have "src + Suc k < length pre"
      using Cons.prems(3) True that by simp
    ultimately show ?thesis
      using Cons.prems(2) True by (simp add: read_cell_def nth_append)
  next
    case False
    then have "cells ?m sb = cells m sb"
      by (cases sb) auto
    then show ?thesis
      using Cons.prems(1) [of "Suc k"] that by (simp add: read_cell_def)
  qed
  have "arr_copy_loop (length xs) sb (src + 1) (Some b) (length (pre @ [Some x])) ?m =
      Some (set_block b (Some ((pre @ [Some x]) @ map Some xs @ rest)) ?m)"
    using Cons.prems(3) by (intro Cons.IH r) auto
  then show ?case
    using Cons.prems(1) [of 0] Cons.prems(2) by (simp add: construct_def list_update_append upd_middle nth_append)
qed

lemma fill_loop_ok:
  assumes "cells m (Some b) = Some (pre @ replicate n None @ rest)" "v = Val x"
  shows "arr_fill_loop n (Some b) (length pre) v m = Some (set_block b (Some (pre @ replicate n (Some x) @ rest)) m)"
  using assms
proof (induction n arbitrary: pre m)
  case 0
  then show ?case by (simp add: set_block_same)
next
  case (Suc n)
  have "arr_fill_loop n (Some b) (length (pre @ [Some x])) v (set_block b (Some ((pre @ [Some x]) @ replicate n None @ rest)) m) =
      Some (set_block b (Some ((pre @ [Some x]) @ replicate n (Some x) @ rest)) (set_block b (Some ((pre @ [Some x]) @ replicate n None @ rest)) m))"
    by (rule Suc.IH) (simp_all add: Suc.prems(2))
  then show ?case
    using Suc.prems by (simp add: construct_def list_update_append upd_middle nth_append)
qed

lemma destroy_loop_ok:
  assumes "cells m (Some b) = Some (pre @ map Some xs @ rest)"
  shows "arr_destroy_loop (length xs) (Some b) (length pre) m =
    Some (set_block b (Some (pre @ replicate (length xs) None @ rest)) m)"
  using assms
proof (induction xs arbitrary: pre m)
  case Nil
  then show ?case by (simp add: set_block_same)
next
  case (Cons x xs)
  have "arr_destroy_loop (length xs) (Some b) (length (pre @ [None])) (set_block b (Some ((pre @ [None]) @ map Some xs @ rest)) m) =
      Some (set_block b (Some ((pre @ [None]) @ replicate (length xs) None @ rest)) (set_block b (Some ((pre @ [None]) @ map Some xs @ rest)) m))"
    by (rule Cons.IH) simp
  then show ?case
    using Cons.prems by (simp add: destroy_def list_update_append upd_middle nth_append)
qed

lemma move_loop_ok:
  assumes "cells m (Some a) = Some (replicate k None @ map Some xs @ rest')" "a \<noteq> b"
    "cells m (Some b) = Some (pre @ replicate (length xs) None @ rest)"
  shows "arr_move_loop (length xs) (Some a) k (Some b) (length pre) m =
    Some (set_block a (Some (replicate (k + length xs) None @ rest')) (set_block b (Some (pre @ map Some xs @ rest)) m))"
  using assms
proof (induction xs arbitrary: k pre m)
  case Nil
  then show ?case by (simp add: set_block_same)
next
  case (Cons x xs)
  let ?m = "set_block a (Some (replicate (k + 1) None @ map Some xs @ rest'))
      (set_block b (Some ((pre @ [Some x]) @ replicate (length xs) None @ rest)) m)"
  have r: "replicate k None @ None # ys = None # replicate k None @ ys" for ys :: "'a option list"
    by (metis append_Cons replicate_Suc replicate_app_Cons_same)
  have "arr_move_loop (length xs) (Some a) (k + 1) (Some b) (length (pre @ [Some x])) ?m =
      Some (set_block a (Some (replicate (k + 1 + length xs) None @ rest')) (set_block b (Some ((pre @ [Some x]) @ map Some xs @ rest)) ?m))"
    using Cons.prems(2) by (intro Cons.IH) simp_all
  moreover have "arr_move_loop (length (x # xs)) (Some a) k (Some b) (length pre) m =
      arr_move_loop (length xs) (Some a) (k + 1) (Some b) (length (pre @ [Some x])) ?m"
    using Cons.prems
    by (simp add: read_cell_def construct_def destroy_def list_update_append upd_middle nth_append r)
  ultimately show ?case
    using Cons.prems(2) by (simp add: set_block_swap [of b a])
qed

lemma shift_loop_ok:
  assumes "cells m (Some b) = Some (map Some (us @ x # vs) @ rest)"
  shows "arr_shift_loop (length vs) (Some b) (length us) m = Some (set_block b (Some (map Some (us @ vs) @ None # rest)) m)"
  using assms
proof (induction vs arbitrary: us x m)
  case Nil
  then show ?case
    by (simp add: destroy_def nth_append list_update_append)
next
  case (Cons v vs)
  let ?m = "set_block b (Some (map Some ((us @ [v]) @ v # vs) @ rest)) m"
  have "arr_shift_loop (length vs) (Some b) (length (us @ [v])) ?m = Some (set_block b (Some (map Some ((us @ [v]) @ vs) @ None # rest)) ?m)"
    by (rule Cons.IH) simp
  then show ?case
    using Cons.prems by (simp add: assign_def read_cell_def nth_append list_update_append)
qed

section \<open>Operations\<close>

text \<open>An array with memory: its block holds its elements and raw memory behind them.\<close>

definition filled :: "nat \<Rightarrow> 'a list \<Rightarrow> 'a option list" where
  "filled cap xs = map Some xs @ replicate (cap - length xs) None"

definition arr_at :: "'a amem \<Rightarrow> nat \<Rightarrow> nat \<Rightarrow> nat \<Rightarrow> 'a list \<Rightarrow> bool" where
  "arr_at m i b cap xs \<longleftrightarrow>
     arrs m i = \<lparr>ablock = Some b, aend = length xs, acap = cap\<rparr> \<and> cells m (Some b) = Some (filled cap xs)
     \<and> length xs \<le> cap \<and> cap mod 4 = 3 \<and> b < fresh m"

definition arr_none :: "'a amem \<Rightarrow> nat \<Rightarrow> 'a list \<Rightarrow> bool" where
  "arr_none m i xs \<longleftrightarrow> xs = [] \<and> ablock (arrs m i) = None \<and> aend (arrs m i) = 0"

text \<open>The invariant: every array is one of both, no two arrays share a block, and every block belongs to an
  array.\<close>

definition arr_inv :: "'a amem \<Rightarrow> (nat \<Rightarrow> 'a list) \<Rightarrow> bool" where
  "arr_inv m L \<longleftrightarrow>
     (\<forall>i. arr_none m i (L i) \<or> (\<exists>b. arr_at m i b (acap (arrs m i)) (L i)))
     \<and> (\<forall>i j b. ablock (arrs m i) = Some b \<and> ablock (arrs m j) = Some b \<longrightarrow> i = j)
     \<and> (\<forall>b. cells m (Some b) \<noteq> None \<longrightarrow> (\<exists>i. ablock (arrs m i) = Some b))"

lemma set_arr_block: "set_block b cs (set_arr i a m) = set_arr i a (set_block b cs m)"
  by (simp add: set_block_def set_arr_def)

lemma set_arr_twice [simp]: "set_arr i a (set_arr i a' m) = set_arr i a m"
  by (simp add: set_arr_def)

lemma filled_raw [simp]: "list_all (\<lambda>c. c = None) (filled cap [])"
  by (simp add: filled_def list_all_iff)

lemma filled_full [simp]: "length (filled cap xs) = max cap (length xs)"
  by (simp add: filled_def)

lemma filled_read: "k < length xs \<Longrightarrow> filled cap xs ! k = Some (xs ! k)"
  by (simp add: filled_def nth_append)

lemma filled_split:
  "length xs + n \<le> cap \<Longrightarrow> filled cap xs = map Some xs @ replicate n None @ replicate (cap - (length xs + n)) None"
  by (simp add: filled_def replicate_add [symmetric])

lemma inv_cases:
  assumes "arr_inv m L"
  obtains "arr_none m i (L i)" | b cap where "arr_at m i b cap (L i)"
  using assms unfolding arr_inv_def by metis

lemma arr_none_facts:
  "arr_none m i xs \<Longrightarrow> ablock (arrs m i) = None" "arr_none m i xs \<Longrightarrow> aend (arrs m i) = 0" "arr_none m i xs \<Longrightarrow> xs = []"
  by (simp_all add: arr_none_def)

lemma arr_at_facts:
  assumes "arr_at m i b cap xs"
  shows "arrs m i = \<lparr>ablock = Some b, aend = length xs, acap = cap\<rparr>" "cells m (Some b) = Some (filled cap xs)"
    "length xs \<le> cap" "b < fresh m"
  using assms by (simp_all add: arr_at_def)

lemma inv_block_iff:
  assumes "arr_inv m L" "arr_at m i b cap (L i)"
  shows "ablock (arrs m j) = Some b \<longleftrightarrow> j = i"
  using assms unfolding arr_inv_def arr_at_def by auto

lemma arr_read:
  "arr_at m i b cap xs \<Longrightarrow> k < length xs \<Longrightarrow> read_cell m (Some b) k = Some (xs ! k)"
  by (auto simp: arr_at_def read_cell_def filled_read)

lemma inv_read:
  assumes "arr_inv m L" "k < length (L j)"
  shows "read_cell m (ablock (arrs m j)) k = Some (L j ! k)"
proof (cases rule: inv_cases [OF assms(1), of j])
  case 1
  then show ?thesis using assms(2) by (simp add: arr_none_def)
next
  case (2 b cap)
  then show ?thesis
    using arr_read [OF 2 assms(2)] by (simp add: arr_at_def)
qed

text \<open>Changing the elements in their block.\<close>

lemma inv_put:
  assumes inv: "arr_inv m L" and at: "arr_at m i b cap (L i)" and le: "length ys \<le> cap"
  shows "arr_inv (set_arr i \<lparr>ablock = Some b, aend = length ys, acap = cap\<rparr> (set_block b (Some (filled cap ys)) m)) (L(i := ys))"
    (is "arr_inv ?m ?L")
proof -
  have other: "arr_none ?m j (?L j) \<or> (\<exists>b. arr_at ?m j b (acap (arrs ?m j)) (?L j))" if "j \<noteq> i" for j
  proof (cases rule: inv_cases [OF inv, of j])
    case 1
    then show ?thesis using that by (simp add: arr_none_def)
  next
    case (2 c cap')
    then have "c \<noteq> b"
      using inv_block_iff [OF inv at, of j] that by (auto simp: arr_at_def)
    then show ?thesis
      using 2 that by (auto simp: arr_at_def)
  qed
  have "arr_at ?m i b cap ys"
    using at le by (simp add: arr_at_def)
  then have "\<forall>j. arr_none ?m j (?L j) \<or> (\<exists>b. arr_at ?m j b (acap (arrs ?m j)) (?L j))"
    using other by (metis arr.select_convs(3) arr_at_def fun_upd_same)
  moreover have b: "ablock (arrs ?m j) = ablock (arrs m j)" for j
    using at by (simp add: arr_at_def)
  moreover have "cells ?m (Some c) \<noteq> None \<longleftrightarrow> cells m (Some c) \<noteq> None" for c
    using at by (cases "c = b") (simp_all add: arr_at_def)
  ultimately show ?thesis
    using inv unfolding arr_inv_def by simp
qed

text \<open>Moving to a new block.\<close>

lemma inv_fresh: "arr_inv m L \<Longrightarrow> b \<ge> fresh m \<Longrightarrow> cells m (Some b) = None \<and> ablock (arrs m i) \<noteq> Some b"
  unfolding arr_inv_def arr_none_def arr_at_def by (metis arr.select_convs(1) linorder_not_le option.distinct(1) option.inject)

lemma inv_renew:
  assumes inv: "arr_inv m L" and le: "length (L i) \<le> cap" "cap mod 4 = 3"
    and m': "arrs m' = (arrs m)(i := \<lparr>ablock = Some (fresh m), aend = length (L i), acap = cap\<rparr>)"
      "fresh m' = fresh m + 1"
      "\<And>c. cells m' (Some c) = (if c = fresh m then Some (filled cap (L i))
         else if ablock (arrs m i) = Some c then None else cells m (Some c))"
  shows "arr_inv m' L"
proof -
  have f: "cells m (Some (fresh m)) = None" "ablock (arrs m j) \<noteq> Some (fresh m)" for j
    using inv_fresh [OF inv, of "fresh m"] by auto
  have other: "arr_none m' j (L j) \<or> (\<exists>b. arr_at m' j b (acap (arrs m' j)) (L j))" if "j \<noteq> i" for j
  proof (cases rule: inv_cases [OF inv, of j])
    case 1
    then show ?thesis using that m' by (simp add: arr_none_def)
  next
    case (2 c cap')
    have "c \<noteq> fresh m" "ablock (arrs m i) \<noteq> Some c"
      using 2 f(2) [of j] inv_block_iff [OF inv 2, of i] that by (auto simp: arr_at_def)
    then show ?thesis
      using 2 that m' by (auto simp: arr_at_def)
  qed
  have "arr_at m' i (fresh m) cap (L i)"
    using le m' by (simp add: arr_at_def)
  then have "\<forall>j. arr_none m' j (L j) \<or> (\<exists>b. arr_at m' j b (acap (arrs m' j)) (L j))"
    using other by (metis arr.select_convs(3) arr_at_def)
  moreover have "\<forall>j k b. ablock (arrs m' j) = Some b \<and> ablock (arrs m' k) = Some b \<longrightarrow> j = k"
    using inv f(2) m'(1) unfolding arr_inv_def by auto
  moreover have "\<exists>j. ablock (arrs m' j) = Some b" if "cells m' (Some b) \<noteq> None" for b
  proof (cases "b = fresh m")
    case False
    then have "cells m (Some b) \<noteq> None" "ablock (arrs m i) \<noteq> Some b"
      using that m'(3) [of b] by (auto split: if_splits)
    then obtain j where "ablock (arrs m j) = Some b" "j \<noteq> i"
      using inv unfolding arr_inv_def by metis
    then show ?thesis
      using m'(1) by auto
  qed (use m'(1) in \<open>auto intro: exI [of _ i]\<close>)
  ultimately show ?thesis
    unfolding arr_inv_def by blast
qed

lemma or_3: "(n :: nat) OR 3 \<ge> n" "((n :: nat) OR 3) mod 4 = 3"
proof -
  have "int n OR 3 \<ge> int n"
    by (rule or_greater_eq) simp
  then show "n OR 3 \<ge> n"
    by (metis of_nat_le_iff of_nat_numeral of_nat_or_eq)
  have m: "(3 :: nat) = mask 2"
    by (simp add: mask_eq_exp_minus_1)
  have "take_bit 2 (n OR mask 2) = (mask 2 :: nat)"
    by (rule bit_eqI) (auto simp: bit_simps)
  then have "take_bit 2 (n OR 3) = (3 :: nat)"
    by (simp only: m)
  then show "(n OR 3) mod 4 = 3"
    by (simp add: take_bit_eq_mod)
qed

lemma reserve_ok:
  assumes inv: "arr_inv m L"
  shows "\<exists>m1. arr_reserve i n m = Some m1 \<and> arr_inv m1 L \<and> (\<forall>j. j \<noteq> i \<longrightarrow> arrs m1 j = arrs m j)
    \<and> acap (arrs m1 i) \<ge> max n (acap (arrs m i)) \<and> (n > 0 \<or> ablock (arrs m i) \<noteq> None \<longrightarrow> ablock (arrs m1 i) \<noteq> None)
    \<and> (ablock (arrs m i) \<noteq> None \<and> n \<le> acap (arrs m i) \<longrightarrow> m1 = m)
    \<and> (n > acap (arrs m i) \<longrightarrow> ablock (arrs m1 i) = Some (fresh m))"
proof (cases "n > acap (arrs m i) \<or> ablock (arrs m i) = None \<and> n > 0")
  case False
  then show ?thesis
    using inv by (auto simp: arr_reserve_def Let_def)
next
  case True
  let ?cap = "(if n > acap (arrs m i) then n else acap (arrs m i)) OR 3"
  let ?m0 = "m\<lparr>fresh := fresh m + 1\<rparr>"
  let ?m1 = "set_block (fresh m) (Some (replicate ?cap None)) ?m0"
  have cap: "?cap \<ge> max n (acap (arrs m i))" "?cap mod 4 = 3"
    using or_3 [of "if n > acap (arrs m i) then n else acap (arrs m i)"] by (auto split: if_splits)
  have c0: "cells ?m0 p = cells m p" for p
    by (simp add: cells_def)
  show ?thesis
  proof (cases rule: inv_cases [OF inv, of i])
    case 1
    let ?m2 = "set_arr i \<lparr>ablock = Some (fresh m), aend = 0, acap = ?cap\<rparr> ?m1"
    have "arr_reserve i n m = Some ?m2"
      using True arr_none_facts [OF 1] by (simp add: arr_reserve_def Let_def)
    moreover have "arr_inv ?m2 L"
    proof (rule inv_renew [OF inv _ cap(2)])
      show "cells ?m2 (Some c) = (if c = fresh m then Some (filled ?cap (L i))
          else if ablock (arrs m i) = Some c then None else cells m (Some c))" for c
        using arr_none_facts [OF 1] c0 by (cases "c = fresh m") (simp_all add: filled_def)
    qed (use arr_none_facts [OF 1] in simp_all)
    ultimately show ?thesis
      using cap(1) True arr_none_facts [OF 1] by auto
  next
    case (2 b cap0)
    note a = arr_at_facts [OF 2]
    have nb: "b \<noteq> fresh m"
      using a(4) by simp
    let ?m2 = "set_block b (Some (replicate cap0 None)) (set_block (fresh m) (Some (filled ?cap (L i))) ?m0)"
    let ?m3 = "set_arr i \<lparr>ablock = Some (fresh m), aend = length (L i), acap = ?cap\<rparr> (set_block b None ?m2)"
    have l: "length (L i) \<le> ?cap"
      using cap(1) a(1,3) by simp
    have "cells ?m1 (Some b) = Some (replicate 0 None @ map Some (L i) @ replicate (cap0 - length (L i)) None)"
      using nb a(2) c0 by (simp add: filled_def)
    moreover have "cells ?m1 (Some (fresh m)) =
        Some ([] @ replicate (length (L i)) None @ replicate (?cap - length (L i)) None)"
      using l by (simp add: replicate_add [symmetric])
    ultimately have "arr_move_loop (length (L i)) (Some b) 0 (Some (fresh m)) (length ([] :: 'a option list)) ?m1 =
        Some (set_block b (Some (replicate (0 + length (L i)) None @ replicate (cap0 - length (L i)) None))
          (set_block (fresh m) (Some ([] @ map Some (L i) @ replicate (?cap - length (L i)) None)) ?m1))"
      by (rule move_loop_ok [OF _ nb])
    then have "arr_move_loop (length (L i)) (Some b) 0 (Some (fresh m)) 0 ?m1 = Some ?m2"
      using a(3) by (simp add: filled_def replicate_add [symmetric])
    then have "arr_reserve i n m = Some ?m3"
      using True a(1) by (simp add: arr_reserve_def Let_def free_block_def list_all_iff)
    moreover have "arr_inv ?m3 L"
    proof (rule inv_renew [OF inv l cap(2)])
      show "cells ?m3 (Some c) = (if c = fresh m then Some (filled ?cap (L i))
          else if ablock (arrs m i) = Some c then None else cells m (Some c))" for c
        using a(1) c0 nb by (cases "c = fresh m"; cases "c = b") simp_all
    qed simp_all
    ultimately show ?thesis
      using cap(1) True a(1) by auto
  qed
qed

lemma reserve_at:
  assumes "arr_inv m L" "n > 0 \<or> ablock (arrs m i) \<noteq> None"
  obtains m1 b cap where "arr_reserve i n m = Some m1" "arr_inv m1 L" "\<And>j. j \<noteq> i \<Longrightarrow> arrs m1 j = arrs m j"
    "arr_at m1 i b cap (L i)" "n \<le> cap" "acap (arrs m i) \<le> cap"
proof -
  obtain m1 where m1: "arr_reserve i n m = Some m1" "arr_inv m1 L" "\<forall>j. j \<noteq> i \<longrightarrow> arrs m1 j = arrs m j"
    "acap (arrs m1 i) \<ge> max n (acap (arrs m i))" "ablock (arrs m1 i) \<noteq> None"
    using reserve_ok [OF assms(1), of i n] assms(2) by blast
  show thesis
  proof (cases rule: inv_cases [OF m1(2), of i])
    case 1
    then show ?thesis using m1(5) by (simp add: arr_none_def)
  next
    case (2 b cap)
    then show ?thesis
      using that [OF m1(1,2) _ 2] m1(3,4) by (simp add: arr_at_def)
  qed
qed

lemma filled_middle: "length xs + length ys \<le> cap \<Longrightarrow>
    filled cap xs = map Some xs @ replicate (length ys) None @ replicate (cap - length (xs @ ys)) None"
  using filled_split [of xs "length ys" cap] by simp

lemma inv_end: "arr_inv m L \<Longrightarrow> aend (arrs m i) = length (L i)"
  using inv_cases [of m L i] by (metis arr.select_convs(2) arr_at_def arr_none_def list.size(3))

text \<open>Appending a list that a loop writes into the reserved memory.\<close>

lemma append_list_ok:
  assumes "arr_inv m1 L" "arr_at m1 i b cap (L i)" "length (L i) + length ys \<le> cap"
    and "\<And>k. k < length ys \<Longrightarrow> read_cell m1 sb (src + k) = Some (ys ! k)" "sb = Some b \<Longrightarrow> src + length ys \<le> length (L i)"
  shows "\<exists>m2. arr_copy_loop (length ys) sb src (Some b) (length (L i)) m1 = Some m2
    \<and> arr_inv (set_arr i \<lparr>ablock = Some b, aend = length (L i) + length ys, acap = cap\<rparr> m2) (L(i := L i @ ys))
    \<and> arrs m2 = arrs m1"
proof -
  let ?rest = "replicate (cap - length (L i @ ys)) None"
  have "arr_copy_loop (length ys) sb src (Some b) (length (map Some (L i))) m1 =
      Some (set_block b (Some (map Some (L i) @ map Some ys @ ?rest)) m1)"
    using assms(3-5) arr_at_facts(2) [OF assms(2)] filled_middle [OF assms(3)] by (intro copy_loop_ok) auto
  then show ?thesis
    using inv_put [OF assms(1,2), of "L i @ ys"] assms(3) by (simp add: filled_def)
qed

lemma append_ok:
  assumes inv: "arr_inv m L"
  shows "\<exists>m1. arr_append i (Val x) m = Some m1 \<and> arr_inv m1 (L(i := L i @ [x]))"
proof -
  obtain m1 b cap where m1: "arr_reserve i (length (L i) + 1) m = Some m1" "arr_inv m1 L"
    "arr_at m1 i b cap (L i)" "length (L i) + 1 \<le> cap"
    by (rule reserve_at [OF inv, of "length (L i) + 1" i]) auto
  note a = arr_at_facts [OF m1(3)]
  have "construct (Some b) (length (L i)) x m1 = Some (set_block b (Some (filled cap (L i @ [x]))) m1)"
    using a(2) m1(4) filled_middle [of "L i" "[x]" cap] by (simp add: construct_def list_update_append filled_def nth_append)
  then show ?thesis
    using inv_put [OF m1(2,3), of "L i @ [x]"] m1(1,4) a(1) inv_end [OF inv] by (simp add: arr_append_def)
qed

lemma append_array_ok:
  assumes inv: "arr_inv m L"
  shows "\<exists>m1. arr_append_array i j m = Some m1 \<and> arr_inv m1 (L(i := L i @ L j))"
proof (cases "length (L i) + length (L j) > 0 \<or> ablock (arrs m i) \<noteq> None")
  case True
  obtain m1 b cap where m1: "arr_reserve i (length (L i) + length (L j)) m = Some m1" "arr_inv m1 L"
    "arr_at m1 i b cap (L i)" "length (L i) + length (L j) \<le> cap"
    using reserve_at [OF inv True] by metis
  note a = arr_at_facts [OF m1(3)]
  have "\<exists>m2. arr_copy_loop (length (L j)) (ablock (arrs m1 j)) 0 (Some b) (length (L i)) m1 = Some m2
    \<and> arr_inv (set_arr i \<lparr>ablock = Some b, aend = length (L i) + length (L j), acap = cap\<rparr> m2) (L(i := L i @ L j))
    \<and> arrs m2 = arrs m1"
  proof (rule append_list_ok [OF m1(2-4)])
    show "read_cell m1 (ablock (arrs m1 j)) (0 + k) = Some (L j ! k)" if "k < length (L j)" for k
      using inv_read [OF m1(2) that] by simp
    show "0 + length (L j) \<le> length (L i)" if "ablock (arrs m1 j) = Some b"
      using inv_block_iff [OF m1(2,3)] that by simp
  qed
  then show ?thesis
    using m1(1) a(1) inv_end [OF inv] by (auto simp: arr_append_array_def Let_def)
next
  case False
  then have "arr_reserve i 0 m = Some m" "ablock (arrs m i) = None"
    by (simp_all add: arr_reserve_def Let_def)
  then show ?thesis
    using inv False inv_end [OF inv] by (simp add: arr_append_array_def fun_upd_idem set_arr_def)
qed

lemma append_values_ok:
  assumes inv: "arr_inv m L" and j: "j \<noteq> i" "ablock (arrs m j) = Some c" "off + n \<le> length (L j)"
  shows "\<exists>m1. arr_append_values i c off n m = Some m1 \<and> arr_inv m1 (L(i := L i @ take n (drop off (L j))))"
proof (cases "length (L i) + n > 0 \<or> ablock (arrs m i) \<noteq> None")
  case True
  obtain m1 b cap where m1: "arr_reserve i (length (L i) + n) m = Some m1" "arr_inv m1 L"
    "\<And>k. k \<noteq> i \<Longrightarrow> arrs m1 k = arrs m k" "arr_at m1 i b cap (L i)" "length (L i) + n \<le> cap"
    using reserve_at [OF inv True] by metis
  note a = arr_at_facts [OF m1(4)]
  let ?ys = "take n (drop off (L j))"
  have l: "length ?ys = n"
    using j(3) by simp
  have "\<exists>m2. arr_copy_loop (length ?ys) (Some c) off (Some b) (length (L i)) m1 = Some m2
    \<and> arr_inv (set_arr i \<lparr>ablock = Some b, aend = length (L i) + length ?ys, acap = cap\<rparr> m2) (L(i := L i @ ?ys))
    \<and> arrs m2 = arrs m1"
  proof (rule append_list_ok [OF m1(2,4)])
    show "read_cell m1 (Some c) (off + k) = Some (?ys ! k)" if "k < length ?ys" for k
      using inv_read [OF m1(2), of "off + k" j] that j m1(3) [of j] by simp
    show "off + length ?ys \<le> length (L i)" if "Some c = Some b"
      using inv_block_iff [OF m1(2,4), of j] that j m1(3) [of j] by simp
  qed (use m1(5) l in simp)
  then show ?thesis
    using m1(1) a(1) inv_end [OF inv] l by (auto simp: arr_append_values_def Let_def)
next
  case False
  then have "arr_reserve i 0 m = Some m" "ablock (arrs m i) = None"
    by (simp_all add: arr_reserve_def Let_def)
  then show ?thesis
    using inv False inv_end [OF inv] by (simp add: arr_append_values_def fun_upd_idem set_arr_def)
qed

lemma inv_same: "arr_inv m L \<Longrightarrow> L i = xs \<Longrightarrow> arr_inv m (L(i := xs))"
  by (simp add: fun_upd_idem)

lemma filled_drop: "k \<le> length xs \<Longrightarrow> length xs \<le> cap \<Longrightarrow>
    filled cap (take k xs) = map Some (take k xs) @ replicate (length (drop k xs)) None @ replicate (cap - length xs) None"
  by (simp add: filled_def replicate_add [symmetric])

text \<open>Destroying the elements from \<open>k\<close> on.\<close>

lemma truncate_ok:
  assumes inv: "arr_inv m L" and at: "arr_at m i b cap (L i)" and k: "k \<le> length (L i)"
  shows "arr_destroy_loop (length (L i) - k) (Some b) k m = Some (set_block b (Some (filled cap (take k (L i)))) m)"
proof -
  let ?rest = "replicate (cap - length (L i)) None"
  have "cells m (Some b) = Some (map Some (take k (L i)) @ map Some (drop k (L i)) @ ?rest)"
    using arr_at_facts(2) [OF at] by (simp add: filled_def flip: map_append append_assoc)
  from destroy_loop_ok [OF this] show ?thesis
    using k arr_at_facts(3) [OF at] by (simp add: filled_drop)
qed

lemma clear_ok:
  assumes inv: "arr_inv m L"
  shows "\<exists>m1. arr_clear i m = Some m1 \<and> arr_inv m1 (L(i := [])) \<and> (\<forall>j. acap (arrs m1 j) = acap (arrs m j))
    \<and> (\<forall>j. ablock (arrs m1 j) = ablock (arrs m j))"
proof (cases rule: inv_cases [OF inv, of i])
  case 1
  then show ?thesis
    using inv_same [OF inv arr_none_facts(3) [OF 1]] arr_none_facts(1) [OF 1] by (simp add: arr_clear_def Let_def)
next
  case (2 b cap)
  then show ?thesis
    using truncate_ok [OF inv 2, of 0] inv_put [OF inv 2, of "[]"] arr_at_facts [OF 2] by (simp add: arr_clear_def Let_def)
qed

lemma resize_ok:
  assumes inv: "arr_inv m L"
  shows "\<exists>m1. arr_resize i n (Val x) m = Some m1 \<and> arr_inv m1 (L(i := take n (L i) @ replicate (n - length (L i)) x))"
proof (cases "n < length (L i)")
  case True
  then have "\<not> arr_none m i (L i)"
    by (auto simp: arr_none_def)
  then obtain b cap where at: "arr_at m i b cap (L i)"
    using inv_cases [OF inv] by metis
  then show ?thesis
    using truncate_ok [OF inv at, of n] inv_put [OF inv at, of "take n (L i)"] arr_at_facts [OF at] True
    by (simp add: arr_resize_def Let_def)
next
  case False
  show ?thesis
  proof (cases "n > 0 \<or> ablock (arrs m i) \<noteq> None")
    case True
    obtain m1 b cap where m1: "arr_reserve i n m = Some m1" "arr_inv m1 L" "arr_at m1 i b cap (L i)" "n \<le> cap"
      using reserve_at [OF inv True] by metis
    let ?ys = "L i @ replicate (n - length (L i)) x"
    have "arr_fill_loop (n - length (L i)) (Some b) (length (map Some (L i))) (Val x) m1 =
        Some (set_block b (Some (map Some (L i) @ replicate (n - length (L i)) (Some x) @ replicate (cap - n) None)) m1)"
      using arr_at_facts(2) [OF m1(3)] m1(4) False filled_split [of "L i" "n - length (L i)" cap] by (intro fill_loop_ok) simp_all
    then have "arr_fill_loop (n - length (L i)) (Some b) (length (L i)) (Val x) m1 = Some (set_block b (Some (filled cap ?ys)) m1)"
      using False by (simp add: filled_def)
    then show ?thesis
      using inv_put [OF m1(2,3), of ?ys] m1(1,4) arr_at_facts(1) [OF m1(3)] inv_end [OF inv] False
      by (simp add: arr_resize_def Let_def)
  next
    case 2: False
    then have "arr_reserve i 0 m = Some m" "L i = []"
      using False by (simp_all add: arr_reserve_def Let_def)
    then show ?thesis
      using inv 2 inv_end [OF inv, of i] inv_same [OF inv, of i "[]"] by (simp add: arr_resize_def Let_def set_arr_def fun_upd_idem)
  qed
qed

text \<open>An array beside the others is a sequence in the sense of \<open>Nstd_Interfaces\<close>: clearing and appending.\<close>

interpretation aseq: sequence "\<lambda>m xs. arr_inv m (L(i := xs))" "\<lambda>x. arr_append i (Val x)" "arr_clear i" for L i
proof unfold_locales
  show "\<exists>m1. arr_append i (Val x) m = Some m1 \<and> arr_inv m1 (L(i := xs @ [x]))" if "arr_inv m (L(i := xs))" for m xs x
    using append_ok [OF that, of i x] by simp
  show "\<exists>m1. arr_clear i m = Some m1 \<and> arr_inv m1 (L(i := []))" if "arr_inv m (L(i := xs))" for m xs
    using clear_ok [OF that, of i] by auto
qed

lemma remove_loop_ok:
  assumes inv: "arr_inv m L" and k: "k < length (L i)"
  shows "\<exists>m1. arr_shift_loop (length (L i) - 1 - k) (ablock (arrs m i)) k
      (set_arr i ((arrs m i)\<lparr>aend := length (L i) - 1\<rparr>) m) = Some m1
    \<and> arr_inv m1 (L(i := take k (L i) @ drop (Suc k) (L i)))"
proof -
  have "\<not> arr_none m i (L i)"
    using k by (auto simp: arr_none_def)
  then obtain b cap where at: "arr_at m i b cap (L i)"
    using inv_cases [OF inv] by metis
  note a = arr_at_facts [OF at]
  let ?us = "take k (L i)" and ?vs = "drop (Suc k) (L i)"
  have "L i = ?us @ L i ! k # ?vs"
    using k by (rule id_take_nth_drop)
  then have "map Some (L i) = map Some (?us @ L i ! k # ?vs)"
    by metis
  then have "cells (set_arr i ((arrs m i)\<lparr>aend := length (L i) - 1\<rparr>) m) (Some b) =
      Some (map Some (?us @ L i ! k # ?vs) @ replicate (cap - length (L i)) None)"
    using a(2) by (simp add: filled_def)
  from shift_loop_ok [OF this]
  have "arr_shift_loop (length (L i) - 1 - k) (Some b) k (set_arr i ((arrs m i)\<lparr>aend := length (L i) - 1\<rparr>) m) =
      Some (set_block b (Some (map Some (?us @ ?vs) @ None # replicate (cap - length (L i)) None))
        (set_arr i ((arrs m i)\<lparr>aend := length (L i) - 1\<rparr>) m))"
    using k by simp
  moreover have "None # replicate (cap - length (L i)) None = (replicate (cap - length (?us @ ?vs)) None :: 'a option list)"
    using k a(3) by (simp add: Suc_diff_le flip: replicate_Suc)
  moreover have "length (?us @ ?vs) = length (L i) - 1"
    using k by simp
  ultimately show ?thesis
    using inv_put [OF inv at, of "?us @ ?vs"] a(1,3) by (simp add: filled_def set_arr_block)
qed

lemma remove_ok:
  assumes "arr_inv m L"
  shows "\<exists>m1. arr_remove i k m = Some m1 \<and> arr_inv m1 (L(i := take k (L i) @ drop (Suc k) (L i)))"
proof (cases "k < length (L i)")
  case True
  then show ?thesis
    using remove_loop_ok [OF assms True] inv_end [OF assms] by (simp add: arr_remove_def Let_def)
next
  case False
  then show ?thesis
    using inv_same [OF assms] inv_end [OF assms] by (simp add: arr_remove_def Let_def)
qed

lemma remove_it_ok:
  assumes "arr_inv m L" "k < length (L i)"
  shows "\<exists>m1. arr_remove_it i k m = Some m1 \<and> arr_inv m1 (L(i := take k (L i) @ drop (Suc k) (L i)))"
  using remove_loop_ok [OF assms] inv_end [OF assms(1)] assms(2) by (auto simp: arr_remove_it_def Let_def)

lemma fill_ok:
  assumes inv: "arr_inv m L" and i: "L i = []"
  shows "\<exists>m1. arr_fill i j m = Some m1 \<and> arr_inv m1 (L(i := L j))"
proof (cases "acap (arrs m j) > 0 \<or> ablock (arrs m i) \<noteq> None")
  case True
  obtain m1 b cap where m1: "arr_reserve i (acap (arrs m j)) m = Some m1" "arr_inv m1 L"
    "\<And>k. k \<noteq> i \<Longrightarrow> arrs m1 k = arrs m k" "arr_at m1 i b cap (L i)" "acap (arrs m j) \<le> cap"
    using reserve_at [OF inv True] by metis
  have l: "length (L i) + length (L j) \<le> cap"
  proof (cases rule: inv_cases [OF inv, of j])
    case (2 c cap')
    then show ?thesis using m1(5) i by (simp add: arr_at_def)
  qed (simp add: arr_none_def i)
  have "\<exists>m2. arr_copy_loop (length (L j)) (ablock (arrs m1 j)) 0 (Some b) (length (L i)) m1 = Some m2
    \<and> arr_inv (set_arr i \<lparr>ablock = Some b, aend = length (L i) + length (L j), acap = cap\<rparr> m2) (L(i := L i @ L j))
    \<and> arrs m2 = arrs m1"
  proof (rule append_list_ok [OF m1(2,4) l])
    show "read_cell m1 (ablock (arrs m1 j)) (0 + k) = Some (L j ! k)" if "k < length (L j)" for k
      using inv_read [OF m1(2) that] by simp
    show "0 + length (L j) \<le> length (L i)" if "ablock (arrs m1 j) = Some b"
      using inv_block_iff [OF m1(2,4)] that by simp
  qed
  then show ?thesis
    using m1(1) i arr_at_facts(1) [OF m1(4)] inv_end [OF m1(2)] by (auto simp: arr_fill_def Let_def)
next
  case False
  then have r: "arr_reserve i 0 m = Some m" "ablock (arrs m i) = None"
    by (simp_all add: arr_reserve_def Let_def)
  have "L j = []"
    by (rule inv_cases [OF inv, of j]) (use False in \<open>auto simp: arr_none_def arr_at_def\<close>)
  then show ?thesis
    using r False inv i inv_end [OF inv, of i] inv_end [OF inv, of j] inv_same [OF inv i]
    by (simp add: arr_fill_def set_arr_def fun_upd_idem)
qed

lemma assign_ok:
  assumes "arr_inv m L" "i \<noteq> j"
  shows "\<exists>m1. arr_assign i j m = Some m1 \<and> arr_inv m1 (L(i := L j))"
proof -
  obtain m1 where m1: "arr_clear i m = Some m1" "arr_inv m1 (L(i := []))"
    using clear_ok [OF assms(1)] by metis
  then show ?thesis
    using fill_ok [OF m1(2), of i j] assms(2) by (simp add: arr_assign_def)
qed

lemma assign_self:
  assumes "arr_inv m L"
  shows "\<exists>m1. arr_assign i i m = Some m1 \<and> arr_inv m1 (L(i := []))"
proof -
  obtain m1 where m1: "arr_clear i m = Some m1" "arr_inv m1 (L(i := []))"
    using clear_ok [OF assms(1)] by metis
  then show ?thesis
    using fill_ok [OF m1(2), of i i] by (simp add: arr_assign_def)
qed

lemma inv_drop:
  assumes inv: "arr_inv m L" and m': "arrs m' = (arrs m)(i := empty_arr n)" "fresh m' = fresh m"
    "\<And>c. cells m' (Some c) = (if ablock (arrs m i) = Some c then None else cells m (Some c))"
  shows "arr_inv m' (L(i := []))"
proof -
  have "arr_none m' j ((L(i := [])) j) \<or> (\<exists>b. arr_at m' j b (acap (arrs m' j)) ((L(i := [])) j))" for j
  proof (cases "j = i")
    case True
    then show ?thesis using m'(1) by (simp add: arr_none_def empty_arr_def)
  next
    case False
    show ?thesis
    proof (cases rule: inv_cases [OF inv, of j])
      case 1
      then show ?thesis using False m'(1) by (simp add: arr_none_def)
    next
      case (2 c cap)
      have "ablock (arrs m i) \<noteq> Some c"
        using inv_block_iff [OF inv 2, of i] False by simp
      then show ?thesis
        using 2 False m' by (auto simp: arr_at_def)
    qed
  qed
  moreover have "\<forall>j k b. ablock (arrs m' j) = Some b \<and> ablock (arrs m' k) = Some b \<longrightarrow> j = k"
    using inv m'(1) unfolding arr_inv_def by (auto simp: empty_arr_def)
  moreover have "\<exists>j. ablock (arrs m' j) = Some b" if c: "cells m' (Some b) \<noteq> None" for b
  proof -
    have "ablock (arrs m i) \<noteq> Some b" "cells m (Some b) \<noteq> None"
      using c m'(3) [of b] by (auto split: if_splits)
    then obtain j where "ablock (arrs m j) = Some b" "j \<noteq> i"
      using inv unfolding arr_inv_def by metis
    then show ?thesis using m'(1) by auto
  qed
  ultimately show ?thesis
    unfolding arr_inv_def by blast
qed

lemma destroy_ok:
  assumes inv: "arr_inv m L"
  shows "\<exists>m1. arr_destroy i m = Some m1 \<and> arr_inv m1 (L(i := [])) \<and> arrs m1 i = empty_arr 0"
proof (cases rule: inv_cases [OF inv, of i])
  case 1
  then have "arr_destroy i m = Some (set_arr i (empty_arr 0) m)"
    by (simp add: arr_destroy_def arr_none_def Let_def)
  moreover have "arr_inv (set_arr i (empty_arr 0) m) (L(i := []))"
    by (rule inv_drop [OF inv]) (use 1 in \<open>auto simp: arr_none_def\<close>)
  ultimately show ?thesis by simp
next
  case (2 b cap)
  note a = arr_at_facts [OF 2]
  let ?m = "set_arr i (empty_arr 0) (set_block b None m)"
  have "arr_destroy i m = Some ?m"
    using truncate_ok [OF inv 2, of 0] a(1) by (simp add: arr_destroy_def Let_def free_block_def)
  moreover have "cells ?m (Some c) = (if ablock (arrs m i) = Some c then None else cells m (Some c))" for c
    using a(1) by (cases "c = b") simp_all
  then have "arr_inv ?m (L(i := []))"
    by (intro inv_drop [OF inv]) simp_all
  ultimately show ?thesis by simp
qed

lemma arr_init_ok: "arr_inv m L \<Longrightarrow> ablock (arrs m i) = None \<Longrightarrow> arr_inv (arr_init i n m) (L(i := []))"
  by (rule inv_drop [of m]) (auto simp: arr_init_def)

lemma inv_array: "arr_inv m L \<Longrightarrow> arr_none m i (L i) \<or> (\<exists>b. arr_at m i b (acap (arrs m i)) (L i))"
  unfolding arr_inv_def by blast

lemma inv_owner: "arr_inv m L \<Longrightarrow> cells m (Some b) \<noteq> None \<Longrightarrow> \<exists>i. ablock (arrs m i) = Some b"
  unfolding arr_inv_def by blast

lemma swap_ok:
  assumes inv: "arr_inv m L"
  shows "arr_inv (arr_swap i j m) (L(i := L j, j := L i))"
proof -
  define s where "s = id(i := j, j := i)"
  have a: "arrs (arr_swap i j m) k = arrs m (s k)" "(L(i := L j, j := L i)) k = L (s k)" for k
    by (simp_all add: arr_swap_def Let_def s_def)
  have c: "cells (arr_swap i j m) p = cells m p" "fresh (arr_swap i j m) = fresh m" for p
    by (simp_all add: arr_swap_def Let_def)
  have s: "s k = s l \<Longrightarrow> k = l" "s (s k) = k" for k l
    by (auto simp: s_def split: if_splits)
  have at: "arr_none (arr_swap i j m) k xs = arr_none m (s k) xs"
    "arr_at (arr_swap i j m) k b n xs = arr_at m (s k) b n xs" for k b n xs
    by (simp_all only: arr_none_def arr_at_def a c)
  show ?thesis
    unfolding arr_inv_def at a(2)
  proof (intro conjI allI impI)
    show "arr_none m (s k) (L (s k)) \<or> (\<exists>b. arr_at m (s k) b (acap (arrs (arr_swap i j m) k)) (L (s k)))" for k
      using inv unfolding arr_inv_def a(1) by blast
    show "k = l" if "ablock (arrs (arr_swap i j m) k) = Some b \<and> ablock (arrs (arr_swap i j m) l) = Some b" for k l b
      using inv that s(1) unfolding arr_inv_def a(1) by blast
    show "\<exists>k. ablock (arrs (arr_swap i j m) k) = Some b" if "cells (arr_swap i j m) (Some b) \<noteq> None" for b
    proof -
      have "cells m (Some b) \<noteq> None"
        using that by (simp add: c(1))
      then obtain l where "ablock (arrs m l) = Some b"
        using inv_owner [OF inv] by blast
      then show ?thesis
        by (intro exI [of _ "s l"]) (simp add: a(1) s(2))
    qed
  qed
qed

section \<open>Histories\<close>

text \<open>The calls, with the arguments that are not elements of the array itself; \<open>Copy i j\<close> destroys array \<open>i\<close> and
  constructs it anew from \<open>j\<close>.\<close>

datatype 'a arr_call =
    Append nat 'a
  | AppendArray nat nat
  | AppendValues nat nat nat nat
  | Resize nat nat 'a
  | Reserve nat nat
  | Clear nat
  | Assign nat nat
  | Copy nat nat
  | Remove nat nat
  | RemoveIt nat nat
  | RemoveFront nat
  | RemoveBack nat
  | Swap nat nat
  | Destroy nat

fun run_call :: "'a arr_call \<Rightarrow> 'a amem \<Rightarrow> 'a amem option" where
  "run_call (Append i x) m = arr_append i (Val x) m"
| "run_call (AppendArray i j) m = arr_append_array i j m"
| "run_call (AppendValues i j off n) m = do { b \<leftarrow> ablock (arrs m j); arr_append_values i b off n m }"
| "run_call (Resize i n x) m = arr_resize i n (Val x) m"
| "run_call (Reserve i n) m = arr_reserve i n m"
| "run_call (Clear i) m = arr_clear i m"
| "run_call (Assign i j) m = arr_assign i j m"
| "run_call (Copy i j) m = do { m1 \<leftarrow> arr_destroy i m; arr_copy i j m1 }"
| "run_call (Remove i k) m = arr_remove i k m"
| "run_call (RemoveIt i k) m = arr_remove_it i k m"
| "run_call (RemoveFront i) m = arr_removeFront i m"
| "run_call (RemoveBack i) m = arr_removeBack i m"
| "run_call (Swap i j) m = Some (arr_swap i j m)"
| "run_call (Destroy i) m = arr_destroy i m"

text \<open>What a call means for the lists of elements, and when it may be made.\<close>

fun spec_call :: "'a arr_call \<Rightarrow> (nat \<Rightarrow> 'a list) \<Rightarrow> nat \<Rightarrow> 'a list" where
  "spec_call (Append i x) L = L(i := L i @ [x])"
| "spec_call (AppendArray i j) L = L(i := L i @ L j)"
| "spec_call (AppendValues i j off n) L = L(i := L i @ take n (drop off (L j)))"
| "spec_call (Resize i n x) L = L(i := take n (L i) @ replicate (n - length (L i)) x)"
| "spec_call (Reserve i n) L = L"
| "spec_call (Clear i) L = L(i := [])"
| "spec_call (Assign i j) L = L(i := L j)"
| "spec_call (Copy i j) L = L(i := L j)"
| "spec_call (Remove i k) L = L(i := take k (L i) @ drop (Suc k) (L i))"
| "spec_call (RemoveIt i k) L = L(i := take k (L i) @ drop (Suc k) (L i))"
| "spec_call (RemoveFront i) L = L(i := tl (L i))"
| "spec_call (RemoveBack i) L = L(i := butlast (L i))"
| "spec_call (Swap i j) L = L(i := L j, j := L i)"
| "spec_call (Destroy i) L = L(i := [])"

fun legal_call :: "'a arr_call \<Rightarrow> (nat \<Rightarrow> 'a list) \<Rightarrow> bool" where
  "legal_call (AppendValues i j off n) L = (i \<noteq> j \<and> 0 < n \<and> off + n \<le> length (L j))"
| "legal_call (Assign i j) L = (i \<noteq> j)"
| "legal_call (Copy i j) L = (i \<noteq> j)"
| "legal_call (RemoveIt i k) L = (k < length (L i))"
| "legal_call (RemoveFront i) L = (L i \<noteq> [])"
| "legal_call (RemoveBack i) L = (L i \<noteq> [])"
| "legal_call _ L = True"

lemma call_ok:
  assumes inv: "arr_inv m L" and legal: "legal_call c L"
  shows "\<exists>m1. run_call c m = Some m1 \<and> arr_inv m1 (spec_call c L)"
proof (cases c)
  case (AppendValues i j off n)
  have "\<not> arr_none m j (L j)"
    using legal AppendValues by (auto simp: arr_none_def)
  then obtain b where "ablock (arrs m j) = Some b"
    using inv_cases [OF inv, of j] by (metis arr.select_convs(1) arr_at_def)
  then show ?thesis
    using append_values_ok [OF inv, of j i b off n] legal AppendValues by simp
next
  case (Copy i j)
  obtain m1 where m1: "arr_destroy i m = Some m1" "arr_inv m1 (L(i := []))" "arrs m1 i = empty_arr 0"
    using destroy_ok [OF inv] by metis
  then have "arr_inv (arr_init i 0 m1) (L(i := []))"
    using arr_init_ok [OF m1(2), of i 0] by (simp add: empty_arr_def)
  from fill_ok [OF this, of i j] show ?thesis
    using m1(1) legal Copy by (simp add: arr_copy_def)
next
  case (Reserve i n)
  then show ?thesis using reserve_ok [OF inv, of i n] by auto
next
  case (Clear i)
  then show ?thesis using clear_ok [OF inv, of i] by auto
next
  case (Destroy i)
  then show ?thesis using destroy_ok [OF inv, of i] by auto
next
  case (RemoveFront i)
  then show ?thesis
    using remove_it_ok [OF inv, of 0 i] legal by (simp add: arr_removeFront_def drop_Suc)
next
  case (RemoveBack i)
  then show ?thesis
    using remove_it_ok [OF inv, of "length (L i) - 1" i] legal inv_end [OF inv, of i]
    by (simp add: arr_removeBack_def butlast_conv_take)
next
  case (Swap i j)
  then show ?thesis using swap_ok [OF inv] by simp
qed (use append_ok [OF inv] append_array_ok [OF inv] resize_ok [OF inv] assign_ok [OF inv] remove_ok [OF inv]
    remove_it_ok [OF inv] legal in simp_all)

fun run_calls :: "'a arr_call list \<Rightarrow> 'a amem \<Rightarrow> 'a amem option" where
  "run_calls [] m = Some m"
| "run_calls (c # cs) m = do { m1 \<leftarrow> run_call c m; run_calls cs m1 }"

fun legal_calls :: "'a arr_call list \<Rightarrow> (nat \<Rightarrow> 'a list) \<Rightarrow> bool" where
  "legal_calls [] L = True"
| "legal_calls (c # cs) L = (legal_call c L \<and> legal_calls cs (spec_call c L))"

definition arr0 :: "'a amem" where
  "arr0 = \<lparr>blocks = (\<lambda>b. None), fresh = 0, arrs = (\<lambda>i. empty_arr 0)\<rparr>"

lemma arr0_ok: "arr_inv arr0 (\<lambda>i. [])"
  by (simp add: arr_inv_def arr0_def arr_none_def empty_arr_def cells_def)

lemma calls_ok:
  "arr_inv m L \<Longrightarrow> legal_calls cs L \<Longrightarrow> \<exists>m1. run_calls cs m = Some m1 \<and> arr_inv m1 (fold spec_call cs L)"
proof (induction cs arbitrary: m L)
  case (Cons c cs)
  then show ?case
    using call_ok [OF Cons.prems(1), of c] by fastforce
qed auto

lemma arr_find_loop_ok:
  assumes "\<And>k. k < length xs \<Longrightarrow> read_cell m b (p + k) = Some (xs ! k)"
  shows "arr_find_loop (length xs) b p v m = Some (p + length (takeWhile (\<lambda>x. x \<noteq> v) xs))"
  using assms
proof (induction xs arbitrary: p)
  case (Cons x xs)
  have "read_cell m b (p + 1 + k) = Some (xs ! k)" if "k < length xs" for k
    using Cons.prems [of "Suc k"] that by simp
  from Cons.IH [OF this] show ?case
    using Cons.prems [of 0] by simp
qed simp

section \<open>The properties\<close>

text \<open>C22. However many arrays are used, and whatever legal calls are made of them: the code touches only memory that is
  allocated and objects that are there, constructs in raw memory and frees blocks without objects, every array holds the elements
  that the list functions give, the arrays have their own blocks, and no block is lost. A call is legal when a value that is passed is
  not an element of an array, a range that is appended is not empty and belongs to another array, an array is neither assigned to itself nor copied
  from itself (but may be appended to itself), an iterator that is removed points to an element, and \<^verbatim>\<open>removeFront\<close> and \<^verbatim>\<open>removeBack\<close> are not
  called on an empty array.\<close>

theorem array_history_correct:
  assumes "legal_calls cs (\<lambda>i. [])"
  shows "\<exists>m. run_calls cs arr0 = Some m \<and> arr_inv m (fold spec_call cs (\<lambda>i. []))"
  by (rule calls_ok [OF arr0_ok assms])

theorem array_history_correct_witness:
  "\<exists>m. run_calls [Append 0 (1 :: nat), Resize 1 5 7, AppendArray 0 0, Copy 2 1, Remove 2 0, Swap 0 2, AppendValues 1 0 1 2, RemoveBack 2] arr0 = Some m
     \<and> arr_inv m (fold spec_call [Append 0 1, Resize 1 5 7, AppendArray 0 0, Copy 2 1, Remove 2 0, Swap 0 2, AppendValues 1 0 1 2, RemoveBack 2] (\<lambda>i. []))"
  by (rule array_history_correct) simp

text \<open>Reading: size, first and last element and the position of an element, where the first two of an empty array are
  not there; the capacity holds the elements, and where there is a block it is one less than a multiple of four.\<close>

theorem array_queries_correct:
  assumes "arr_inv m L"
  shows "arr_size i m = length (L i) \<and> arr_isEmpty i m = (L i = [])
    \<and> arr_front i m = (if L i = [] then None else Some (hd (L i)))
    \<and> arr_back i m = (if L i = [] then None else Some (last (L i)))
    \<and> arr_find i v m = Some (length (takeWhile (\<lambda>x. x \<noteq> v) (L i)))
    \<and> length (L i) \<le> arr_capacity i m \<and> (L i \<noteq> [] \<longrightarrow> arr_capacity i m mod 4 = 3)"
proof -
  have e: "aend (arrs m i) = length (L i)"
    by (rule inv_end [OF assms])
  have r: "read_cell m (ablock (arrs m i)) k = Some (L i ! k)" if "k < length (L i)" for k
    by (rule inv_read [OF assms that])
  have empty: "read_cell m (ablock (arrs m i)) 0 = None" if "L i = []"
    by (rule inv_cases [OF assms, of i])
       (use that in \<open>auto simp: arr_none_def arr_at_def read_cell_def filled_def\<close>)
  have cap: "length (L i) \<le> acap (arrs m i) \<and> (L i \<noteq> [] \<longrightarrow> acap (arrs m i) mod 4 = 3)"
    by (rule inv_cases [OF assms, of i]) (auto simp: arr_none_def arr_at_def)
  have "arr_find i v m = Some (length (takeWhile (\<lambda>x. x \<noteq> v) (L i)))"
    using arr_find_loop_ok [of "L i" m "ablock (arrs m i)" 0 v] r e by (simp add: arr_find_def)
  moreover have "arr_front i m = (if L i = [] then None else Some (hd (L i)))"
    using r [of 0] empty by (simp add: arr_front_def hd_conv_nth)
  moreover have "arr_back i m = (if L i = [] then None else Some (last (L i)))"
    using r [of "length (L i) - 1"] e by (simp add: arr_back_def last_conv_nth)
  ultimately show ?thesis
    using cap e by (simp add: arr_size_def arr_isEmpty_def arr_capacity_def)
qed

theorem array_queries_correct_witness: "arr_front 3 (arr0 :: nat amem) = None \<and> arr_find 3 (5 :: nat) arr0 = Some 0"
  using array_queries_correct [OF arr0_ok, of 3 "5 :: nat"] by simp

text \<open>C23. Arguments that are parts of the array itself. Appending an element of the array works while the capacity
  lasts; when the block must grow, the code destroys the old elements and frees their block before it copies
  the element, and reads freed memory. Assigning an array to itself empties it. Appending an array to itself
  doubles it.\<close>

theorem array_aliasing:
  assumes "arr_inv m L" "arr_at m i b cap (L i)" "k < length (L i)"
  shows "(length (L i) < cap \<longrightarrow> (\<exists>m1. arr_append i (Elem b k) m = Some m1 \<and> arr_inv m1 (L(i := L i @ [L i ! k]))))
    \<and> (length (L i) = cap \<longrightarrow> arr_append i (Elem b k) m = None)
    \<and> (\<exists>m1. arr_assign i i m = Some m1 \<and> arr_inv m1 (L(i := [])))
    \<and> (\<exists>m1. arr_append_array i i m = Some m1 \<and> arr_inv m1 (L(i := L i @ L i)))"
proof -
  note a = arr_at_facts [OF assms(2)]
  have fits: "\<exists>m1. arr_append i (Elem b k) m = Some m1 \<and> arr_inv m1 (L(i := L i @ [L i ! k]))" if "length (L i) < cap"
  proof -
    have r: "arr_reserve i (Suc (aend (arrs m i))) m = Some m"
      using a(1) that by (simp add: arr_reserve_def)
    have "arr_append i (Elem b k) m = arr_append i (Val (L i ! k)) m"
      using arr_read [OF assms(2,3)] by (simp add: arr_append_def r)
    then show ?thesis
      using append_ok [OF assms(1)] by metis
  qed
  have full: "arr_append i (Elem b k) m = None" if "length (L i) = cap"
  proof -
    obtain m1 where m1: "arr_reserve i (Suc cap) m = Some m1" "arr_inv m1 L" "\<forall>j. j \<noteq> i \<longrightarrow> arrs m1 j = arrs m j"
      "ablock (arrs m1 i) = Some (fresh m)"
      using reserve_ok [OF assms(1), of i "Suc cap"] a(1) by auto
    have "ablock (arrs m1 j) \<noteq> Some b" for j
      using m1(3,4) a(4) inv_block_iff [OF assms(1,2), of j] by (cases "j = i") auto
    then have "cells m1 (Some b) = None"
      using inv_owner [OF m1(2), of b] by blast
    then show ?thesis
      using m1(1) a(1) that by (simp add: arr_append_def read_cell_def)
  qed
  show ?thesis
    using fits full assign_self [OF assms(1)] append_array_ok [OF assms(1)] by blast
qed

theorem array_aliasing_witness:
  "\<exists>m b. arr_inv m ((\<lambda>i. [])(0 := [7, 7, 7 :: nat])) \<and> arr_append 0 (Elem b 0) m = None"
proof -
  let ?L = "(\<lambda>i. [])(0 :: nat := [7, 7, 7 :: nat])"
  let ?m = "set_arr 0 \<lparr>ablock = Some 0, aend = 0, acap = 3\<rparr> (set_block 0 (Some (replicate 3 None)) ((arr0 :: nat amem)\<lparr>fresh := 1\<rparr>))"
  have r: "arr_reserve 0 3 arr0 = Some ?m"
    by (simp add: arr_reserve_def arr0_def empty_arr_def)
  have "arr_fill_loop 3 (Some 0) (length ([] :: nat option list)) (Val (7 :: nat)) ?m = Some (set_block 0 (Some ([] @ replicate 3 (Some 7) @ [])) ?m)"
    by (rule fill_loop_ok) simp_all
  then have "map_option (\<lambda>m. acap (arrs m 0)) (arr_resize 0 3 (Val (7 :: nat)) arr0) = Some 3"
    using r by (simp add: arr_resize_def arr0_def empty_arr_def)
  moreover have l: "take 3 [] @ replicate (3 - length []) (7 :: nat) = [7, 7, 7]"
    by (simp add: numeral_3_eq_3)
  obtain m where m: "arr_resize 0 3 (Val 7) arr0 = Some m" "arr_inv m ?L"
    using resize_ok [OF arr0_ok, of 0 3 "7 :: nat"] unfolding l by blast
  ultimately have "acap (arrs m 0) = 3"
    by simp
  moreover have "arr_none m 0 (?L 0) \<or> (\<exists>b. arr_at m 0 b (acap (arrs m 0)) (?L 0))"
    by (rule inv_array [OF m(2)])
  ultimately obtain b where "arr_at m 0 b 3 (?L 0)"
    by (auto simp: arr_none_def)
  then show ?thesis
    using array_aliasing [OF m(2), of 0 b 3 0] m(2) by (intro exI [of _ m] exI [of _ b]) simp
qed

end
