(* ===== verification/Nstd_Buffer.thy ===== *)
theory Nstd_Buffer
  imports Nstd_Prelude "HOL-Library.Monad_Syntax" "HOL-Library.Word"
begin

text \<open>
  \<^verbatim>\<open>Buffer\<close> (include/nstd/Buffer.hpp): bytes in a window of a block that is one byte longer than the capacity, for the
  terminating zero, or in memory of someone else. The state holds the blocks that are allocated (\<open>None\<close>
  is a byte that was never written) and the buffers, numbered. A buffer without a block points to its own
  field \<^verbatim>\<open>_capacity\<close>, where a zero written through \<^verbatim>\<open>*bufferEnd\<close> clears the lowest byte of the capacity (the bytes of a
  number are stored with the lowest one first). An operation is \<open>None\<close> when the code reads or writes
  outside of a block, copies between overlapping bytes with \<^verbatim>\<open>memcpy\<close> or frees a block twice. Sizes are
  natural numbers.
\<close>

section \<open>Memory\<close>

type_synonym bbyte = "8 word"
type_synonym cell = "bbyte option"

datatype place = Block nat | CapOf nat

type_synonym bptr = "place \<times> nat"

text \<open>\<^verbatim>\<open>buffer\<close>, \<^verbatim>\<open>bufferStart\<close>, \<^verbatim>\<open>bufferEnd\<close> and \<^verbatim>\<open>_capacity\<close>.\<close>

record buf =
  bbuf :: "nat option"
  bstart :: bptr
  bend :: bptr
  bcap :: nat

record bmem =
  bblocks :: "nat \<Rightarrow> cell list option"
  bfresh :: nat
  bufs :: "nat \<Rightarrow> buf"

definition put_buf :: "nat \<Rightarrow> buf \<Rightarrow> bmem \<Rightarrow> bmem" where
  "put_buf i a m = m\<lparr>bufs := (bufs m)(i := a)\<rparr>"

definition put_block :: "nat \<Rightarrow> cell list option \<Rightarrow> bmem \<Rightarrow> bmem" where
  "put_block b cs m = m\<lparr>bblocks := (bblocks m)(b := cs)\<rparr>"

text \<open>\<open>new char[n]\<close>: the block gets the next number.\<close>

definition new_block :: "nat \<Rightarrow> bmem \<Rightarrow> bmem" where
  "new_block n m = put_block (bfresh m) (Some (replicate n None)) (m\<lparr>bfresh := bfresh m + 1\<rparr>)"

definition delete_block :: "nat option \<Rightarrow> bmem \<Rightarrow> bmem option" where
  "delete_block p m =
     (case p of
        None \<Rightarrow> Some m
      | Some b \<Rightarrow> if bblocks m b = None then None else Some (put_block b None m))"

definition window :: "'c list \<Rightarrow> nat \<Rightarrow> nat \<Rightarrow> 'c list" where
  "window cs off n = take n (drop off cs)"

definition overwrite :: "'c list \<Rightarrow> nat \<Rightarrow> 'c list \<Rightarrow> 'c list" where
  "overwrite cs off ys = take off cs @ ys @ drop (off + length ys) cs"

text \<open>\<^verbatim>\<open>Memory::copy\<close> and, with \<open>overlap\<close>, \<^verbatim>\<open>Memory::move\<close>.\<close>

definition copy_bytes :: "bool \<Rightarrow> bptr \<Rightarrow> bptr \<Rightarrow> nat \<Rightarrow> bmem \<Rightarrow> bmem option" where
  "copy_bytes overlap dest src n m =
     (if n = 0 then Some m
      else case (dest, src) of
        ((Block d, doff), (Block s, soff)) \<Rightarrow>
          (case (bblocks m d, bblocks m s) of
             (Some dc, Some sc) \<Rightarrow>
               if doff + n \<le> length dc \<and> soff + n \<le> length sc \<and> (overlap \<or> d \<noteq> s \<or> doff + n \<le> soff \<or> soff + n \<le> doff)
               then Some (put_block d (Some (overwrite dc doff (window sc soff n))) m)
               else None
           | _ \<Rightarrow> None)
      | _ \<Rightarrow> None)"

text \<open>\<^verbatim>\<open>*p = 0\<close>.\<close>

definition put_zero :: "bptr \<Rightarrow> bmem \<Rightarrow> bmem option" where
  "put_zero p m =
     (case p of
        (Block b, off) \<Rightarrow>
          (case bblocks m b of
             Some cs \<Rightarrow> if off < length cs then Some (put_block b (Some (cs[off := Some 0])) m) else None
           | None \<Rightarrow> None)
      | (CapOf i, off) \<Rightarrow>
          if off = 0 then Some (put_buf i ((bufs m i)\<lparr>bcap := bcap (bufs m i) - bcap (bufs m i) mod 256\<rparr>) m) else None)"

abbreviation plus_ptr :: "bptr \<Rightarrow> nat \<Rightarrow> bptr" where
  "plus_ptr p n \<equiv> (fst p, snd p + n)"

section \<open>Operations\<close>

definition buf_size :: "nat \<Rightarrow> bmem \<Rightarrow> nat" where
  "buf_size i m = snd (bend (bufs m i)) - snd (bstart (bufs m i))"

definition buf_capacity :: "nat \<Rightarrow> bmem \<Rightarrow> nat" where
  "buf_capacity i m = bcap (bufs m i)"

definition buf_isEmpty :: "nat \<Rightarrow> bmem \<Rightarrow> bool" where
  "buf_isEmpty i m \<longleftrightarrow> bstart (bufs m i) = bend (bufs m i)"

definition empty_buf :: "nat \<Rightarrow> buf" where
  "empty_buf i = \<lparr>bbuf = None, bstart = (CapOf i, 0), bend = (CapOf i, 0), bcap = 0\<rparr>"

definition buf_init :: "nat \<Rightarrow> bmem \<Rightarrow> bmem" where
  "buf_init i m = put_buf i (empty_buf i) m"

definition buf_init_capacity :: "nat \<Rightarrow> nat \<Rightarrow> bmem \<Rightarrow> bmem option" where
  "buf_init_capacity i capacity m =
     (let b = bfresh m; m1 = new_block (capacity + 1) m;
          m2 = put_buf i \<lparr>bbuf = Some b, bstart = (Block b, 0), bend = (Block b, 0), bcap = capacity\<rparr> m1
      in put_zero (Block b, 0) m2)"

text \<open>The constructor from \<^verbatim>\<open>data\<close> and \<^verbatim>\<open>size\<close>; copying a buffer calls it with the data of the other.\<close>

definition buf_init_data :: "nat \<Rightarrow> bptr \<Rightarrow> nat \<Rightarrow> bmem \<Rightarrow> bmem option" where
  "buf_init_data i data sz m =
     (let b = bfresh m; m1 = new_block (sz + 1) m in
      do {
        m2 \<leftarrow> copy_bytes False (Block b, 0) data sz m1;
        put_zero (Block b, sz) (put_buf i \<lparr>bbuf = Some b, bstart = (Block b, 0), bend = (Block b, sz), bcap = sz\<rparr> m2)
      })"

definition buf_copy :: "nat \<Rightarrow> nat \<Rightarrow> bmem \<Rightarrow> bmem option" where
  "buf_copy i other m = buf_init_data i (bstart (bufs m other)) (buf_size other m) m"

definition buf_destroy :: "nat \<Rightarrow> bmem \<Rightarrow> bmem option" where
  "buf_destroy i m = delete_block (bbuf (bufs m i)) m"

definition buf_attach :: "nat \<Rightarrow> bptr \<Rightarrow> nat \<Rightarrow> bmem \<Rightarrow> bmem option" where
  "buf_attach i data len m =
     do {
       m1 \<leftarrow> delete_block (bbuf (bufs m i)) m;
       Some (put_buf i ((bufs m1 i)\<lparr>bbuf := None, bstart := data, bend := plus_ptr data len\<rparr>) m1)
     }"

text \<open>\<^verbatim>\<open>assign(data, size)\<close>; \<^verbatim>\<open>operator=\<close> is the same code with the data of the other buffer.\<close>

definition buf_assign_data :: "nat \<Rightarrow> bptr \<Rightarrow> nat \<Rightarrow> bmem \<Rightarrow> bmem option" where
  "buf_assign_data i data sz m =
     (let a = bufs m i in
      if sz > bcap a then
        do {
          m1 \<leftarrow> delete_block (bbuf a) m;
          let b = bfresh m1;
          m2 \<leftarrow> copy_bytes False (Block b, 0) data sz (new_block (sz + 1) m1);
          put_zero (Block b, sz) (put_buf i \<lparr>bbuf = Some b, bstart = (Block b, 0), bend = (Block b, sz), bcap = sz\<rparr> m2)
        }
      else case bbuf a of
        None \<Rightarrow> Some m
      | Some b \<Rightarrow>
          do {
            m1 \<leftarrow> copy_bytes False (Block b, 0) data sz m;
            put_zero (Block b, sz) (put_buf i (a\<lparr>bstart := (Block b, 0), bend := (Block b, sz)\<rparr>) m1)
          })"

definition buf_assign :: "nat \<Rightarrow> nat \<Rightarrow> bmem \<Rightarrow> bmem option" where
  "buf_assign i other m = buf_assign_data i (bstart (bufs m other)) (buf_size other m) m"

text \<open>The comparison; \<open>None\<close> when it reads outside of a block or bytes never written.\<close>

definition read_bytes :: "bptr \<Rightarrow> nat \<Rightarrow> bmem \<Rightarrow> bbyte list option" where
  "read_bytes p n m =
     (if n = 0 then Some []
      else case p of
        (Block b, off) \<Rightarrow>
          (case bblocks m b of
             Some cs \<Rightarrow> if off + n \<le> length cs \<and> None \<notin> set (window cs off n) then Some (map the (window cs off n)) else None
           | None \<Rightarrow> None)
      | _ \<Rightarrow> None)"

definition buf_eq :: "nat \<Rightarrow> nat \<Rightarrow> bmem \<Rightarrow> bool option" where
  "buf_eq i other m =
     (let sz = buf_size i m in
      if sz \<noteq> buf_size other m then Some False
      else do { xs \<leftarrow> read_bytes (bstart (bufs m other)) sz m; ys \<leftarrow> read_bytes (bstart (bufs m i)) sz m; Some (xs = ys) })"

text \<open>\<^verbatim>\<open>prepend\<close>: in front of the window, by moving the window inside of the block, or in a new block.\<close>

definition prepend_new :: "nat \<Rightarrow> bptr \<Rightarrow> nat \<Rightarrow> bmem \<Rightarrow> bmem option" where
  "prepend_new i data sz m =
     (let a = bufs m i; oldSize = buf_size i m; requiredCapacity = sz + oldSize;
          b = bfresh m; m1 = new_block (requiredCapacity + 1) m
      in do {
        m2 \<leftarrow> copy_bytes False (Block b, 0) data sz m1;
        m3 \<leftarrow> copy_bytes False (Block b, sz) (bstart a) oldSize m2;
        m4 \<leftarrow> delete_block (bbuf a) m3;
        Some (put_buf i \<lparr>bbuf = Some b, bstart = (Block b, 0), bend = (Block b, requiredCapacity), bcap = requiredCapacity\<rparr> m4)
      })"

definition buf_prepend :: "nat \<Rightarrow> bptr \<Rightarrow> nat \<Rightarrow> bmem \<Rightarrow> bmem option" where
  "buf_prepend i data sz m =
     (let a = bufs m i; oldSize = buf_size i m; requiredCapacity = sz + oldSize in
      case bbuf a of
        Some b \<Rightarrow>
          if snd (bstart a) \<ge> sz then
            let start = (Block b, snd (bstart a) - sz) in
            copy_bytes False start data sz (put_buf i (a\<lparr>bstart := start\<rparr>) m)
          else if bcap a \<ge> requiredCapacity then
            do {
              m1 \<leftarrow> copy_bytes True (Block b, sz) (bstart a) oldSize m;
              m2 \<leftarrow> copy_bytes False (Block b, 0) data sz m1;
              Some (put_buf i (a\<lparr>bstart := (Block b, 0), bend := (Block b, requiredCapacity)\<rparr>) m2)
            }
          else prepend_new i data sz m
      | None \<Rightarrow> prepend_new i data sz m)"

definition buf_prepend_buf :: "nat \<Rightarrow> nat \<Rightarrow> bmem \<Rightarrow> bmem option" where
  "buf_prepend_buf i other m = buf_prepend i (bstart (bufs m other)) (buf_size other m) m"

text \<open>A new block with the old bytes in front, for \<^verbatim>\<open>resize\<close> and \<^verbatim>\<open>reserve\<close>; \<open>n\<close> bytes then belong to the buffer.\<close>

definition buf_grow :: "nat \<Rightarrow> nat \<Rightarrow> nat \<Rightarrow> bmem \<Rightarrow> bmem option" where
  "buf_grow i capacity n m =
     (let a = bufs m i; b = bfresh m; m1 = new_block (capacity + 1) m in
      do {
        m2 \<leftarrow> copy_bytes False (Block b, 0) (bstart a) (buf_size i m) m1;
        m3 \<leftarrow> delete_block (bbuf a) m2;
        put_zero (Block b, n) (put_buf i \<lparr>bbuf = Some b, bstart = (Block b, 0), bend = (Block b, n), bcap = capacity\<rparr> m3)
      })"

definition buf_resize :: "nat \<Rightarrow> nat \<Rightarrow> bmem \<Rightarrow> bmem option" where
  "buf_resize i sz m =
     (let a = bufs m i in
      if sz > bcap a then buf_grow i sz sz m
      else case bbuf a of
        None \<Rightarrow> Some m
      | Some b \<Rightarrow>
          if snd (bstart a) + sz \<le> bcap a then
            put_zero (plus_ptr (bstart a) sz) (put_buf i (a\<lparr>bend := plus_ptr (bstart a) sz\<rparr>) m)
          else
            do {
              m1 \<leftarrow> copy_bytes True (Block b, 0) (bstart a) (buf_size i m) m;
              put_zero (Block b, sz) (put_buf i (a\<lparr>bstart := (Block b, 0), bend := (Block b, sz)\<rparr>) m1)
            })"

text \<open>The part of \<^verbatim>\<open>append\<close> behind the call of \<^verbatim>\<open>resize\<close>.\<close>

definition append_tail :: "nat \<Rightarrow> bptr \<Rightarrow> nat \<Rightarrow> bmem \<Rightarrow> bmem option" where
  "append_tail i data sz m =
     (let p = bend (bufs m i) in
      if snd p < sz then None
      else do { m1 \<leftarrow> copy_bytes False (fst p, snd p - sz) data sz m; put_zero p m1 })"

definition buf_append :: "nat \<Rightarrow> bptr \<Rightarrow> nat \<Rightarrow> bmem \<Rightarrow> bmem option" where
  "buf_append i data sz m =
     do { m1 \<leftarrow> buf_resize i (buf_size i m + sz) m; append_tail i data sz m1 }"

definition buf_append_buf :: "nat \<Rightarrow> nat \<Rightarrow> bmem \<Rightarrow> bmem option" where
  "buf_append_buf i other m =
     (let sz = buf_size other m in
      do { m1 \<leftarrow> buf_resize i (buf_size i m + sz) m; append_tail i (bstart (bufs m1 other)) sz m1 })"

text \<open>Where a buffer that has become empty points to.\<close>

definition home :: "nat \<Rightarrow> buf \<Rightarrow> bptr" where
  "home i a = (case bbuf a of Some b \<Rightarrow> (Block b, 0) | None \<Rightarrow> (CapOf i, 0))"

definition buf_removeFront :: "nat \<Rightarrow> nat \<Rightarrow> bmem \<Rightarrow> bmem" where
  "buf_removeFront i sz m =
     (let a = bufs m i; start = plus_ptr (bstart a) sz in
      if snd start \<ge> snd (bend a) then put_buf i (a\<lparr>bstart := home i a, bend := home i a\<rparr>) m
      else put_buf i (a\<lparr>bstart := start\<rparr>) m)"

definition buf_removeBack :: "nat \<Rightarrow> nat \<Rightarrow> bmem \<Rightarrow> bmem option" where
  "buf_removeBack i sz m =
     (let a = bufs m i;
          a1 = (if snd (bstart a) + sz \<ge> snd (bend a) then a\<lparr>bstart := home i a, bend := home i a\<rparr>
                else a\<lparr>bend := (fst (bend a), snd (bend a) - sz)\<rparr>)
      in put_zero (bend a1) (put_buf i a1 m))"

definition buf_reserve :: "nat \<Rightarrow> nat \<Rightarrow> bmem \<Rightarrow> bmem option" where
  "buf_reserve i capacity m =
     (if capacity \<le> bcap (bufs m i) then Some m else buf_grow i capacity (buf_size i m) m)"

definition buf_clear :: "nat \<Rightarrow> bmem \<Rightarrow> bmem option" where
  "buf_clear i m =
     (let a = bufs m i in
      case bbuf a of
        Some b \<Rightarrow> put_zero (Block b, 0) (put_buf i (a\<lparr>bstart := (Block b, 0), bend := (Block b, 0)\<rparr>) m)
      | None \<Rightarrow> Some (put_buf i (a\<lparr>bend := bstart a\<rparr>) m))"

definition buf_swap :: "nat \<Rightarrow> nat \<Rightarrow> bmem \<Rightarrow> bmem" where
  "buf_swap i other m =
     (let tmp = bufs m i; m1 = put_buf i (bufs m other) m in put_buf other tmp m1)"

definition buf_free :: "nat \<Rightarrow> bmem \<Rightarrow> bmem option" where
  "buf_free i m = do { m1 \<leftarrow> delete_block (bbuf (bufs m i)) m; Some (put_buf i (empty_buf i) m1) }"

end
