(* ===== verification/Nstd_BufferProps.thy ===== *)
theory Nstd_BufferProps
  imports Nstd_Buffer
begin

text \<open>
  The operations of \<open>Nstd_Buffer\<close> on the bytes of a buffer and on its terminating zero, for any number of buffers and
  blocks of data beside them, in any order; and what becomes of a buffer that was attached to foreign
  memory or swapped with one that has no block.
\<close>

section \<open>Windows\<close>

lemma length_window [simp]: "off + n \<le> length cs \<Longrightarrow> length (window cs off n) = n"
  by (simp add: window_def)

lemma length_overwrite [simp]: "off + length ys \<le> length cs \<Longrightarrow> length (overwrite cs off ys) = length cs"
  by (simp add: overwrite_def)

lemma overwrite_Nil [simp]: "overwrite cs off [] = cs"
  by (simp add: overwrite_def)

lemma window_0 [simp]: "window cs off 0 = []"
  by (simp add: window_def)

lemma window_overwrite [simp]: "off + length ys \<le> length cs \<Longrightarrow> window (overwrite cs off ys) off (length ys) = ys"
  by (simp add: window_def overwrite_def)

lemma window_nth: "off + n \<le> length cs \<Longrightarrow> k < n \<Longrightarrow> window cs off n ! k = cs ! (off + k)"
  by (simp add: window_def)

lemma overwrite_nth:
  "off + length ys \<le> length cs \<Longrightarrow> k < length cs \<Longrightarrow>
     overwrite cs off ys ! k = (if off \<le> k \<and> k < off + length ys then ys ! (k - off) else cs ! k)"
  by (auto simp: overwrite_def nth_append min_def)

lemma window_other:
  assumes "off + length ys \<le> length cs" "p + n \<le> length cs" "p + n \<le> off \<or> off + length ys \<le> p"
  shows "window (overwrite cs off ys) p n = window cs p n"
  using assms by (intro nth_equalityI) (auto simp: window_nth overwrite_nth)

lemma window_upd: "p + n \<le> length cs \<Longrightarrow> k < p \<or> p + n \<le> k \<Longrightarrow> window (cs[k := v]) p n = window cs p n"
  by (intro nth_equalityI) (auto simp: window_nth nth_list_update)

lemma window_add: "window cs off (n + k) = window cs off n @ window cs (off + n) k"
  using take_add [of n k "drop off cs"] by (simp add: window_def add.commute)

lemma window_take: "n \<le> k \<Longrightarrow> off + k \<le> length cs \<Longrightarrow> take n (window cs off k) = window cs off n"
  by (simp add: window_def min_def)

lemma window_drop: "n \<le> k \<Longrightarrow> drop n (window cs off k) = window cs (off + n) (k - n)"
  by (simp add: window_def drop_take add.commute)

section \<open>States\<close>

lemma put_simps [simp]:
  "bufs (put_buf i a m) = (bufs m)(i := a)" "bblocks (put_buf i a m) = bblocks m" "bfresh (put_buf i a m) = bfresh m"
  "bufs (put_block b cs m) = bufs m" "bblocks (put_block b cs m) = (bblocks m)(b := cs)" "bfresh (put_block b cs m) = bfresh m"
  "bufs (new_block n m) = bufs m" "bblocks (new_block n m) = (bblocks m)(bfresh m := Some (replicate n None))"
  "bfresh (new_block n m) = bfresh m + 1"
  by (simp_all add: put_buf_def put_block_def new_block_def)

text \<open>A buffer with a block, with its bytes, and terminated if \<open>t\<close>; and a buffer without.\<close>

definition own :: "bmem \<Rightarrow> nat \<Rightarrow> nat \<Rightarrow> bool \<Rightarrow> cell list \<Rightarrow> bool" where
  "own m i b t xs \<longleftrightarrow>
     (\<exists>off cs. bufs m i = \<lparr>bbuf = Some b, bstart = (Block b, off), bend = (Block b, off + length xs), bcap = length cs - 1\<rparr>
        \<and> bblocks m b = Some cs \<and> off + length xs < length cs \<and> window cs off (length xs) = xs
        \<and> (t \<longrightarrow> cs ! (off + length xs) = Some 0))"

definition bare :: "bmem \<Rightarrow> nat \<Rightarrow> cell list \<Rightarrow> bool" where
  "bare m i xs \<longleftrightarrow> xs = [] \<and> bufs m i = empty_buf i"

text \<open>The invariant of all buffers, with the data \<open>E\<close> beside them, the contents \<open>L\<close> and the set \<open>T\<close> of the buffers that
  are terminated.\<close>

definition buf_inv :: "bmem \<Rightarrow> (nat \<Rightarrow> cell list option) \<Rightarrow> (nat \<Rightarrow> cell list) \<Rightarrow> (nat \<Rightarrow> bool) \<Rightarrow> bool" where
  "buf_inv m E L T \<longleftrightarrow>
     (\<forall>i. bare m i (L i) \<or> (\<exists>b. own m i b (T i) (L i)))
     \<and> (\<forall>i j b. bbuf (bufs m i) = Some b \<and> bbuf (bufs m j) = Some b \<longrightarrow> i = j)
     \<and> (\<forall>e xs. E e = Some xs \<longrightarrow> bblocks m e = Some xs \<and> (\<forall>i. bbuf (bufs m i) \<noteq> Some e))
     \<and> (\<forall>b. bblocks m b \<noteq> None \<longrightarrow> E b \<noteq> None \<or> (\<exists>i. bbuf (bufs m i) = Some b))
     \<and> (\<forall>b. b \<ge> bfresh m \<longrightarrow> bblocks m b = None)"

lemma buf_inv_cases:
  assumes "buf_inv m E L T"
  obtains "bare m i (L i)" | b where "own m i b (T i) (L i)"
  using assms unfolding buf_inv_def by blast

lemma inv_shared: "buf_inv m E L T \<Longrightarrow> bbuf (bufs m i) = Some b \<Longrightarrow> bbuf (bufs m j) = Some b \<Longrightarrow> i = j"
  unfolding buf_inv_def by blast

lemma inv_data:
  "buf_inv m E L T \<Longrightarrow> E e = Some xs \<Longrightarrow> bblocks m e = Some xs" "buf_inv m E L T \<Longrightarrow> E e = Some xs \<Longrightarrow> bbuf (bufs m i) \<noteq> Some e"
  unfolding buf_inv_def by blast+

lemma buf_inv_owner: "buf_inv m E L T \<Longrightarrow> bblocks m b \<noteq> None \<Longrightarrow> E b \<noteq> None \<or> (\<exists>i. bbuf (bufs m i) = Some b)"
  unfolding buf_inv_def by blast

lemma buf_inv_fresh: "buf_inv m E L T \<Longrightarrow> b \<ge> bfresh m \<Longrightarrow> bblocks m b = None"
  unfolding buf_inv_def by blast

lemma own_block: "own m i b t xs \<Longrightarrow> bbuf (bufs m i) = Some b \<and> bblocks m b \<noteq> None"
  by (auto simp: own_def)

lemma bare_block: "bare m i xs \<Longrightarrow> bbuf (bufs m i) = None"
  by (auto simp: bare_def empty_buf_def)

lemma inv_block:
  assumes "buf_inv m E L T" "bbuf (bufs m i) = Some b"
  shows "bblocks m b \<noteq> None" "b < bfresh m"
proof -
  show "bblocks m b \<noteq> None"
    by (rule buf_inv_cases [OF assms(1), of i]) (use assms(2) own_block bare_block in fastforce)+
  then show "b < bfresh m"
    using buf_inv_fresh [OF assms(1), of b] by (meson not_le)
qed

lemma inv_own: "buf_inv m E L T \<Longrightarrow> bbuf (bufs m i) = Some b \<Longrightarrow> own m i b (T i) (L i)"
  by (rule buf_inv_cases [of m E L T i]) (auto dest: bare_block, use own_block in fastforce)

text \<open>What an operation on buffer \<open>i\<close> may do to the rest: its block \<open>old\<close> is kept as \<open>new\<close> or freed, a new block is
  fresh, and the others stay.\<close>

definition changed :: "bmem \<Rightarrow> bmem \<Rightarrow> nat \<Rightarrow> nat option \<Rightarrow> bool" where
  "changed m m' i new \<longleftrightarrow>
     (\<forall>j. j \<noteq> i \<longrightarrow> bufs m' j = bufs m j) \<and> bbuf (bufs m' i) = new \<and> bfresh m \<le> bfresh m'
     \<and> (\<forall>b. new = Some b \<longrightarrow> bbuf (bufs m i) = Some b \<or> bfresh m \<le> b \<and> b < bfresh m')
     \<and> (\<forall>c. new \<noteq> Some c \<longrightarrow> bblocks m' c = (if bbuf (bufs m i) = Some c then None else bblocks m c))"

lemma changed_other: "changed m m' i new \<Longrightarrow> j \<noteq> i \<Longrightarrow> bufs m' j = bufs m j"
  by (simp add: changed_def)

lemma inv_changed:
  assumes inv: "buf_inv m E L T" and ch: "changed m m' i new"
    and i: "case new of None \<Rightarrow> bare m' i xs | Some b \<Rightarrow> own m' i b t xs"
  shows "buf_inv m' E (L(i := xs)) (T(i := t))"
proof -
  have other: "bblocks m' c = bblocks m c" if "bbuf (bufs m j) = Some c" "j \<noteq> i" for j c
  proof -
    have "bbuf (bufs m i) \<noteq> Some c" "c < bfresh m"
      using inv_shared [OF inv, of i c j] inv_block [OF inv that(1)] that by auto
    then show ?thesis
      using ch unfolding changed_def by fastforce
  qed
  have "bare m' j ((L(i := xs)) j) \<or> (\<exists>b. own m' j b ((T(i := t)) j) ((L(i := xs)) j))" for j
  proof (cases "j = i")
    case True
    then show ?thesis using i by (auto split: option.splits)
  next
    case False
    show ?thesis
    proof (cases rule: buf_inv_cases [OF inv, of j])
      case 1
      then show ?thesis using False changed_other [OF ch False] by (simp add: bare_def)
    next
      case (2 b)
      then show ?thesis
        using False changed_other [OF ch False] other [of j b] own_block [OF 2] by (auto simp: own_def)
    qed
  qed
  moreover have "j = k" if "bbuf (bufs m' j) = Some b" "bbuf (bufs m' k) = Some b" for j k b
  proof -
    have new: "bbuf (bufs m' i) = Some b \<Longrightarrow> l \<noteq> i \<Longrightarrow> bbuf (bufs m l) \<noteq> Some b" for l
      using ch inv_shared [OF inv, of i b l] inv_block(2) [OF inv, of l b] unfolding changed_def by fastforce
    show ?thesis
      using that new [of j] new [of k] changed_other [OF ch] inv_shared [OF inv, of j b k] by metis
  qed
  moreover have "bblocks m' e = Some ys \<and> bbuf (bufs m' j) \<noteq> Some e" if e: "E e = Some ys" for e ys j
  proof -
    have old: "bblocks m e = Some ys" "\<And>j. bbuf (bufs m j) \<noteq> Some e"
      using inv_data [OF inv e] by auto
    then have "e < bfresh m"
      using buf_inv_fresh [OF inv, of e] by (cases "bfresh m \<le> e") auto
    then have n: "new \<noteq> Some e"
      using ch old(2) [of i] unfolding changed_def by auto
    then show ?thesis
      using ch old unfolding changed_def by (cases "j = i") auto
  qed
  moreover have "E b \<noteq> None \<or> (\<exists>j. bbuf (bufs m' j) = Some b)" if b: "bblocks m' b \<noteq> None" for b
  proof (cases "new = Some b")
    case True
    then show ?thesis using ch unfolding changed_def by auto
  next
    case False
    then have o: "bbuf (bufs m i) \<noteq> Some b" "bblocks m b \<noteq> None"
      using ch b unfolding changed_def by (auto split: if_splits)
    show ?thesis
    proof (cases "E b")
      case None
      then obtain j where "bbuf (bufs m j) = Some b"
        using buf_inv_owner [OF inv o(2)] by blast
      moreover have "j \<noteq> i"
        using o(1) calculation by auto
      ultimately show ?thesis
        using changed_other [OF ch] by metis
    qed simp
  qed
  moreover have "bblocks m' b = None" if b: "b \<ge> bfresh m'" for b
  proof -
    have "bfresh m \<le> b"
      using ch b unfolding changed_def by simp
    moreover have "new \<noteq> Some b"
      using ch b calculation inv_block(2) [OF inv, of i b] unfolding changed_def by fastforce
    ultimately show ?thesis
      using ch buf_inv_fresh [OF inv, of b] unfolding changed_def by auto
  qed
  ultimately show ?thesis
    unfolding buf_inv_def by blast
qed

lemma inv_changed_own:
  "buf_inv m E L T \<Longrightarrow> changed m m' i (Some b) \<Longrightarrow> own m' i b t xs \<Longrightarrow> buf_inv m' E (L(i := xs)) (T(i := t))"
  using inv_changed [of m E L T m' i "Some b" xs t] by simp

lemma inv_changed_bare:
  "buf_inv m E L T \<Longrightarrow> changed m m' i None \<Longrightarrow> bare m' i xs \<Longrightarrow> buf_inv m' E (L(i := xs)) (T(i := t))"
  using inv_changed [of m E L T m' i None xs t] by simp

section \<open>Copying\<close>

text \<open>Bytes that an operation on buffer \<open>i\<close> may read: at a pointer outside of the block of that buffer.\<close>

definition source :: "bmem \<Rightarrow> nat \<Rightarrow> bptr \<Rightarrow> cell list \<Rightarrow> bool" where
  "source m i p ys \<longleftrightarrow>
     ys = [] \<or> (\<exists>s off sc. p = (Block s, off) \<and> bblocks m s = Some sc \<and> off + length ys \<le> length sc
       \<and> window sc off (length ys) = ys \<and> bbuf (bufs m i) \<noteq> Some s \<and> s < bfresh m)"

lemma copy_source:
  assumes "source m0 i p ys" "\<And>s. s < bfresh m0 \<Longrightarrow> bbuf (bufs m0 i) \<noteq> Some s \<Longrightarrow> bblocks m s = bblocks m0 s"
    and "bblocks m d = Some dc" "off + length ys \<le> length dc" "d \<ge> bfresh m0 \<or> bbuf (bufs m0 i) = Some d"
  shows "copy_bytes overlap (Block d, off) p (length ys) m = Some (put_block d (Some (overwrite dc off ys)) m)"
proof (cases "ys = []")
  case True
  then show ?thesis
    using assms(3) by (simp add: copy_bytes_def put_block_def fun_upd_idem)
next
  case False
  then obtain s o' sc where s: "p = (Block s, o')" "bblocks m0 s = Some sc" "o' + length ys \<le> length sc"
    "window sc o' (length ys) = ys" "bbuf (bufs m0 i) \<noteq> Some s" "s < bfresh m0"
    using assms(1) by (auto simp: source_def)
  moreover have "bblocks m s = Some sc" "s \<noteq> d"
    using assms(2) [of s] assms(5) s by auto
  ultimately show ?thesis
    using False assms(3,4) by (simp add: copy_bytes_def)
qed

lemma source_data:
  assumes "buf_inv m E L T" "E e = Some xs" "off + n \<le> length xs"
  shows "source m i (Block e, off) (window xs off n)"
proof -
  have "bblocks m e = Some xs" "bbuf (bufs m i) \<noteq> Some e"
    using inv_data [OF assms(1,2)] by auto
  moreover have "e < bfresh m"
    using calculation buf_inv_fresh [OF assms(1), of e] by (cases "bfresh m \<le> e") auto
  ultimately show ?thesis
    using assms(3) by (auto simp: source_def)
qed

lemma source_buf:
  assumes "buf_inv m E L T" "j \<noteq> i"
  shows "source m i (bstart (bufs m j)) (L j)" "buf_size j m = length (L j)"
proof -
  show "source m i (bstart (bufs m j)) (L j)"
  proof (cases rule: buf_inv_cases [OF assms(1), of j])
    case (2 b)
    then have "bbuf (bufs m i) \<noteq> Some b" "b < bfresh m"
      using inv_shared [OF assms(1), of i b j] inv_block(2) [OF assms(1), of j b] own_block [OF 2] assms(2) by auto
    then show ?thesis
      using 2 by (auto simp: own_def source_def)
  qed (simp add: bare_def source_def)
  show "buf_size j m = length (L j)"
    by (rule buf_inv_cases [OF assms(1), of j]) (auto simp: bare_def own_def buf_size_def empty_buf_def)
qed

lemma inv_size: "buf_inv m E L T \<Longrightarrow> buf_size i m = length (L i)"
  by (rule buf_inv_cases [of m E L T i]) (auto simp: bare_def own_def buf_size_def empty_buf_def)

lemma put_zero_block [simp]:
  "bblocks m b = Some cs \<Longrightarrow> off < length cs \<Longrightarrow> put_zero (Block b, off) m = Some (put_block b (Some (cs[off := Some 0])) m)"
  by (simp add: put_zero_def)

section \<open>Operations\<close>

text \<open>A buffer in a new block: the constructors, and what frees the old block before or after.\<close>

lemma changed_new:
  assumes "bufs m' = (bufs m)(i := a)" "bbuf a = Some (bfresh m)" "bfresh m' = bfresh m + 1"
    "\<And>c. c \<noteq> bfresh m \<Longrightarrow> bblocks m' c = (if bbuf (bufs m i) = Some c then None else bblocks m c)"
  shows "changed m m' i (Some (bfresh m))"
  using assms unfolding changed_def by auto

lemma delete_ok:
  assumes "buf_inv m E L T"
  shows "\<exists>m1. delete_block (bbuf (bufs m i)) m = Some m1 \<and> bufs m1 = bufs m \<and> bfresh m1 = bfresh m
    \<and> (\<forall>c. bblocks m1 c = (if bbuf (bufs m i) = Some c then None else bblocks m c))"
  using inv_block(1) [OF assms, of i] by (cases "bbuf (bufs m i)") (auto simp: delete_block_def)

lemma init_data_ok:
  assumes inv: "buf_inv m E L T" and src: "source m i p ys"
  shows "\<exists>m1 m2. buf_destroy i m = Some m1 \<and> buf_init_data i p (length ys) m1 = Some m2 \<and> buf_inv m2 E (L(i := ys)) (T(i := True))"
proof -
  obtain m1 where m1: "delete_block (bbuf (bufs m i)) m = Some m1" "bufs m1 = bufs m" "bfresh m1 = bfresh m"
    "\<And>c. bblocks m1 c = (if bbuf (bufs m i) = Some c then None else bblocks m c)"
    using delete_ok [OF inv] by blast
  let ?b = "bfresh m" and ?n = "length ys"
  let ?cs = "overwrite (replicate (?n + 1) None) 0 ys"
  let ?a = "\<lparr>bbuf = Some ?b, bstart = (Block ?b, 0), bend = (Block ?b, ?n), bcap = ?n\<rparr>"
  let ?m2 = "put_block ?b (Some (?cs[?n := Some 0])) (put_buf i ?a (put_block ?b (Some ?cs) (new_block (?n + 1) m1)))"
  have "copy_bytes False (Block ?b, 0) p ?n (new_block (?n + 1) m1) = Some (put_block ?b (Some ?cs) (new_block (?n + 1) m1))"
    by (rule copy_source [OF src]) (use m1 in auto)
  then have r: "buf_init_data i p ?n m1 = Some ?m2"
    using m1(3) by (simp add: buf_init_data_def Let_def)
  have "changed m ?m2 i (Some ?b)"
    using m1 by (intro changed_new [where a = ?a]) simp_all
  moreover have "own ?m2 i ?b True ys"
    by (auto simp: own_def window_upd overwrite_nth)
  ultimately have "buf_inv ?m2 E (L(i := ys)) (T(i := True))"
    by (rule inv_changed_own [OF inv])
  then show ?thesis
    using m1(1) r by (auto simp: buf_destroy_def)
qed

lemma init_capacity_ok:
  assumes inv: "buf_inv m E L T"
  shows "\<exists>m1 m2. buf_destroy i m = Some m1 \<and> buf_init_capacity i n m1 = Some m2 \<and> buf_inv m2 E (L(i := [])) (T(i := True))"
proof -
  obtain m1 where m1: "delete_block (bbuf (bufs m i)) m = Some m1" "bufs m1 = bufs m" "bfresh m1 = bfresh m"
    "\<And>c. bblocks m1 c = (if bbuf (bufs m i) = Some c then None else bblocks m c)"
    using delete_ok [OF inv] by blast
  let ?b = "bfresh m"
  let ?a = "\<lparr>bbuf = Some ?b, bstart = (Block ?b, 0), bend = (Block ?b, 0), bcap = n\<rparr>"
  let ?m2 = "put_block ?b (Some ((replicate (n + 1) None)[0 := Some 0])) (put_buf i ?a (new_block (n + 1) m1))"
  have r: "buf_init_capacity i n m1 = Some ?m2"
    using m1(3) by (simp add: buf_init_capacity_def Let_def)
  have "changed m ?m2 i (Some ?b)"
    using m1 by (intro changed_new [where a = ?a]) simp_all
  moreover have "own ?m2 i ?b True []"
    by (auto simp: own_def)
  ultimately have "buf_inv ?m2 E (L(i := [])) (T(i := True))"
    by (rule inv_changed_own [OF inv])
  then show ?thesis
    using m1(1) r by (auto simp: buf_destroy_def)
qed

text \<open>Changes inside of the block.\<close>

lemma changed_same:
  assumes "bufs m' = (bufs m)(i := a)" "bbuf a = bbuf (bufs m i)" "bfresh m' = bfresh m"
    "\<And>c. bbuf (bufs m i) \<noteq> Some c \<Longrightarrow> bblocks m' c = bblocks m c"
  shows "changed m m' i (bbuf (bufs m i))"
  using assms unfolding changed_def by auto

lemma inv_in_place:
  assumes inv: "buf_inv m E L T" and own: "own m i b (T i) (L i)"
    and m': "bufs m' = (bufs m)(i := a)" "bfresh m' = bfresh m" "\<And>c. c \<noteq> b \<Longrightarrow> bblocks m' c = bblocks m c"
    and own': "own m' i b t xs"
  shows "buf_inv m' E (L(i := xs)) (T(i := t))"
proof -
  have b: "bbuf (bufs m i) = Some b"
    using own_block [OF own] by blast
  have "bbuf a = Some b"
    using own_block [OF own'] m'(1) by simp
  then have "changed m m' i (Some b)"
    using changed_same [of m' m i a] m' b by simp
  then show ?thesis
    by (rule inv_changed_own [OF inv _ own'])
qed

lemma ownE:
  assumes "own m i b t xs"
  obtains off cs where
    "bufs m i = \<lparr>bbuf = Some b, bstart = (Block b, off), bend = (Block b, off + length xs), bcap = length cs - 1\<rparr>"
    "bblocks m b = Some cs" "off + length xs < length cs" "window cs off (length xs) = xs"
    "t \<longrightarrow> cs ! (off + length xs) = Some 0"
  using assms by (auto simp: own_def)

lemma ownI:
  assumes "bufs m i = \<lparr>bbuf = Some b, bstart = (Block b, off), bend = (Block b, e), bcap = length cs - 1\<rparr>"
    "bblocks m b = Some cs" "e = off + length xs" "e < length cs" "window cs off (length xs) = xs"
    "t \<Longrightarrow> cs ! e = Some 0"
  shows "own m i b t xs"
  using assms by (auto simp: own_def)

lemma assign_data_ok:
  assumes inv: "buf_inv m E L T" and src: "source m i p ys"
  shows "\<exists>m1. buf_assign_data i p (length ys) m = Some m1 \<and> buf_inv m1 E (L(i := ys)) (T(i := True))"
proof (cases "length ys > bcap (bufs m i)")
  case True
  obtain m1 where m1: "delete_block (bbuf (bufs m i)) m = Some m1" "bufs m1 = bufs m" "bfresh m1 = bfresh m"
    "\<And>c. bblocks m1 c = (if bbuf (bufs m i) = Some c then None else bblocks m c)"
    using delete_ok [OF inv] by blast
  obtain m2 where m2: "buf_init_data i p (length ys) m1 = Some m2" "buf_inv m2 E (L(i := ys)) (T(i := True))"
    using init_data_ok [OF inv src] m1(1) by (auto simp: buf_destroy_def)
  moreover have "buf_assign_data i p (length ys) m = buf_init_data i p (length ys) m1"
    using True m1(1) by (simp add: buf_assign_data_def buf_init_data_def Let_def)
  ultimately show ?thesis by simp
next
  case False
  show ?thesis
  proof (cases rule: buf_inv_cases [OF inv, of i])
    case 1
    then have "ys = []" "L i = []"
      using False by (auto simp: bare_def empty_buf_def)
    then show ?thesis
      using 1 False inv inv_changed_bare [OF inv, of m i "[]" True] by (auto simp: buf_assign_data_def bare_def empty_buf_def changed_def)
  next
    case (2 b)
    then obtain off cs where a: "bufs m i = \<lparr>bbuf = Some b, bstart = (Block b, off), bend = (Block b, off + length (L i)), bcap = length cs - 1\<rparr>"
      "bblocks m b = Some cs" "off + length (L i) < length cs"
      by (rule ownE)
    let ?n = "length ys"
    have l: "?n < length cs"
      using False a(1,3) by simp
    let ?cs = "(overwrite cs 0 ys)[?n := Some 0]"
    let ?m1 = "put_block b (Some ?cs) (put_buf i \<lparr>bbuf = Some b, bstart = (Block b, 0), bend = (Block b, ?n), bcap = length cs - 1\<rparr>
        (put_block b (Some (overwrite cs 0 ys)) m))"
    have "copy_bytes False (Block b, 0) p ?n m = Some (put_block b (Some (overwrite cs 0 ys)) m)"
      by (rule copy_source [OF src]) (use a l in auto)
    then have r: "buf_assign_data i p ?n m = Some ?m1"
      using False a(1) l by (simp add: buf_assign_data_def Let_def)
    have "own ?m1 i b True ys"
      by (rule ownI [of _ _ _ 0 ?n ?cs]) (use l in \<open>simp_all add: window_upd\<close>)
    then have "buf_inv ?m1 E (L(i := ys)) (T(i := True))"
      by (rule inv_in_place [OF inv 2, rotated 3]) simp_all
    then show ?thesis
      using r by blast
  qed
qed

lemma source_changed:
  assumes "source m i p ys" "changed m m1 i new"
  shows "source m1 i p ys"
proof (cases "ys = []")
  case False
  then obtain s off sc where s: "p = (Block s, off)" "bblocks m s = Some sc" "off + length ys \<le> length sc"
    "window sc off (length ys) = ys" "bbuf (bufs m i) \<noteq> Some s" "s < bfresh m"
    using assms(1) by (auto simp: source_def)
  have n: "new \<noteq> Some s" "bbuf (bufs m1 i) = new" "bfresh m \<le> bfresh m1"
    using assms(2) s(5,6) unfolding changed_def by auto
  then have "bblocks m1 s = bblocks m s"
    using assms(2) s(5) unfolding changed_def by simp
  then show ?thesis
    using s n by (auto simp: source_def)
qed (simp add: source_def)

lemma grow_ok:
  assumes inv: "buf_inv m E L T" and n: "length (L i) \<le> n" "n \<le> capacity"
  shows "\<exists>m1. buf_grow i capacity n m = Some m1 \<and> buf_inv m1 E (L(i := L i @ replicate (n - length (L i)) None)) (T(i := True))
    \<and> changed m m1 i (bbuf (bufs m1 i))"
proof -
  let ?b = "bfresh m" and ?xs = "L i @ replicate (n - length (L i)) None"
  let ?a = "\<lparr>bbuf = Some ?b, bstart = (Block ?b, 0), bend = (Block ?b, n), bcap = capacity\<rparr>"
  let ?cs = "overwrite (replicate (capacity + 1) None) 0 (L i)"
  let ?m1 = "put_block ?b (Some ?cs) (new_block (capacity + 1) m)"
  have src: "source m (Suc i) (bstart (bufs m i)) (L i)"
    by (rule source_buf(1) [OF inv]) simp
  have "copy_bytes False (Block ?b, 0) (bstart (bufs m i)) (length (L i)) (new_block (capacity + 1) m) = Some ?m1"
    by (rule copy_source [OF src]) (use n in auto)
  moreover obtain m2 where m2: "delete_block (bbuf (bufs m i)) ?m1 = Some m2" "bufs m2 = bufs m" "bfresh m2 = bfresh m + 1"
    "\<And>c. bblocks m2 c = (if bbuf (bufs m i) = Some c then None else bblocks ?m1 c)"
    using inv_block [OF inv, of i] by (cases "bbuf (bufs m i)") (auto simp: delete_block_def)
  moreover have nb: "bbuf (bufs m i) \<noteq> Some ?b"
    using inv_block(2) [OF inv, of i ?b] by auto
  ultimately have r: "buf_grow i capacity n m = Some (put_block ?b (Some (?cs[n := Some 0])) (put_buf i ?a m2))" (is "_ = Some ?m3")
    using inv_size [OF inv, of i] n by (simp add: buf_grow_def Let_def)
  have ch: "changed m ?m3 i (Some ?b)"
    using m2 by (intro changed_new [where a = ?a]) simp_all
  have w: "window (?cs[n := Some 0]) 0 n = ?xs"
  proof -
    have "window (replicate (capacity + 1) (None :: cell)) (length (L i)) (n - length (L i)) = replicate (n - length (L i)) None"
      using n by (simp add: window_def del: replicate_Suc)
    then have "window ?cs (length (L i)) (n - length (L i)) = replicate (n - length (L i)) None"
      using n window_other [of 0 "L i" "replicate (capacity + 1) None" "length (L i)" "n - length (L i)"] by simp
    then show ?thesis
      using n window_add [of ?cs 0 "length (L i)" "n - length (L i)"] by (simp add: window_upd)
  qed
  have "own ?m3 i ?b True ?xs"
    by (rule ownI [of _ _ _ 0 n "?cs[n := Some 0]"]) (use n w in simp_all)
  then have "buf_inv ?m3 E (L(i := ?xs)) (T(i := True))"
    by (rule inv_changed_own [OF inv ch])
  then show ?thesis
    using r ch by (intro exI [of _ ?m3]) simp
qed

lemma changed_in_place:
  "own m i b t xs \<Longrightarrow> bufs m' = (bufs m)(i := a) \<Longrightarrow> bfresh m' = bfresh m \<Longrightarrow> (\<And>c. c \<noteq> b \<Longrightarrow> bblocks m' c = bblocks m c) \<Longrightarrow>
     bbuf a = Some b \<Longrightarrow> changed m m' i (Some b)"
  using changed_same [of m' m i a] own_block [of m i b t xs] by auto

lemma inv_bare: "buf_inv m E L T \<Longrightarrow> bare m i (L i) \<Longrightarrow> buf_inv m E (L(i := [])) (T(i := t)) \<and> changed m m i None"
  using inv_changed_bare [of m E L T m i "[]" t] by (auto simp: changed_def bare_def empty_buf_def)

lemma buf_resize_ok:
  assumes inv: "buf_inv m E L T"
  shows "\<exists>m1 zs. buf_resize i n m = Some m1 \<and> buf_inv m1 E (L(i := take n (L i) @ zs)) (T(i := True))
    \<and> length zs = n - length (L i) \<and> changed m m1 i (bbuf (bufs m1 i))"
proof (cases "n > bcap (bufs m i)")
  case True
  have "length (L i) \<le> bcap (bufs m i)"
    by (rule buf_inv_cases [OF inv, of i]) (auto simp: bare_def own_def)
  then have l: "length (L i) \<le> n"
    using True by simp
  show ?thesis
    using grow_ok [OF inv l order_refl] True l by (simp add: buf_resize_def) (metis length_replicate)
next
  case False
  show ?thesis
  proof (cases rule: buf_inv_cases [OF inv, of i])
    case 1
    then have "buf_resize i n m = Some m" "L i = []" "bbuf (bufs m i) = None" "n = 0"
      using False by (auto simp: buf_resize_def bare_def empty_buf_def)
    then show ?thesis
      using inv_bare [OF inv 1] by auto
  next
    case (2 b)
    then obtain off cs where a: "bufs m i = \<lparr>bbuf = Some b, bstart = (Block b, off), bend = (Block b, off + length (L i)), bcap = length cs - 1\<rparr>"
      "bblocks m b = Some cs" "off + length (L i) < length cs" "window cs off (length (L i)) = L i"
      by (rule ownE)
    show ?thesis
    proof (cases "off + n < length cs")
      case True
      let ?a = "(bufs m i)\<lparr>bend := (Block b, off + n)\<rparr>" and ?cs = "cs[off + n := Some 0]"
      let ?m1 = "put_block b (Some ?cs) (put_buf i ?a m)"
      obtain zs where w: "window cs off n = take n (L i) @ zs" "length zs = n - length (L i)"
      proof (cases "n \<le> length (L i)")
        case True
        then show ?thesis
          using that [of "[]"] window_take [of n "length (L i)" off cs] a(3,4) by simp
      next
        case False
        then show ?thesis
          using that [of "window cs (off + length (L i)) (n - length (L i))"] window_add [of cs off "length (L i)" "n - length (L i)"]
            a(4) True by simp
      qed
      have "off + n \<le> length cs - 1"
        using True by simp
      then have r: "buf_resize i n m = Some ?m1"
        using False True a(1,2) by (simp add: buf_resize_def Let_def)
      have m: "min (length (L i)) n + (n - length (L i)) = n"
        by (simp add: min_def)
      have "own ?m1 i b True (take n (L i) @ zs)"
        by (rule ownI [of _ _ _ off "off + n" ?cs]) (use a w True m in \<open>simp_all add: window_upd\<close>)
      then have "buf_inv ?m1 E (L(i := take n (L i) @ zs)) (T(i := True))"
        by (rule inv_in_place [OF inv 2, rotated 3]) simp_all
      moreover have "changed m ?m1 i (Some b)"
        by (rule changed_in_place [OF 2, of _ ?a]) (simp_all add: a(1))
      ultimately show ?thesis
        using r w(2) by (intro exI [of _ ?m1] exI [of _ zs]) (simp add: a(1))
    next
      case 3: False
      have l: "length (L i) < n" "n < length cs"
        using 3 False a(1,3) by simp_all
      let ?cs1 = "overwrite cs 0 (L i)"
      let ?a = "(bufs m i)\<lparr>bstart := (Block b, 0), bend := (Block b, n)\<rparr>" and ?cs = "?cs1[n := Some 0]"
      let ?m1 = "put_block b (Some ?cs) (put_buf i ?a (put_block b (Some ?cs1) m))"
      let ?zs = "window ?cs1 (length (L i)) (n - length (L i))"
      have "copy_bytes True (Block b, 0) (Block b, off) (length (L i)) m = Some (put_block b (Some ?cs1) m)"
        using a(2-4) l by (simp add: copy_bytes_def put_block_def fun_upd_idem)
      then have r: "buf_resize i n m = Some ?m1"
        using False 3 a(1,2) inv_size [OF inv, of i] l by (simp add: buf_resize_def Let_def)
      have w: "window ?cs1 0 n = L i @ ?zs"
        using window_add [of ?cs1 0 "length (L i)" "n - length (L i)"] l by simp
      have "own ?m1 i b True (L i @ ?zs)"
        by (rule ownI [of _ _ _ 0 n ?cs]) (use a(1) w l in \<open>simp_all add: window_upd\<close>)
      then have "buf_inv ?m1 E (L(i := L i @ ?zs)) (T(i := True))"
        by (rule inv_in_place [OF inv 2, rotated 3]) simp_all
      moreover have "changed m ?m1 i (Some b)"
        by (rule changed_in_place [OF 2, of _ ?a]) (simp_all add: a(1))
      ultimately show ?thesis
        using r l by (intro exI [of _ ?m1] exI [of _ ?zs]) (simp add: a(1))
    qed
  qed
qed

text \<open>Behind \<^verbatim>\<open>resize\<close>, \<open>append\<close> writes over the bytes that it has added.\<close>

lemma append_tail_ok:
  assumes inv: "buf_inv m E L T" and l: "L i = xs @ zs" "length zs = length ys"
    and src: "source m i p ys \<or> (\<exists>b. own m i b (T i) (L i)) \<and> p = bstart (bufs m i) \<and> xs = ys"
  shows "\<exists>m1. append_tail i p (length ys) m = Some m1 \<and> buf_inv m1 E (L(i := xs @ ys)) (T(i := True))"
proof (cases rule: buf_inv_cases [OF inv, of i])
  case 1
  then have e: "bufs m i = empty_buf i" "xs = []" "ys = []" "L i = []"
    using l by (auto simp: bare_def)
  have "append_tail i p 0 m = Some m"
    by (simp add: append_tail_def e(1) copy_bytes_def put_zero_def put_buf_def empty_buf_def fun_upd_idem e(1) [unfolded empty_buf_def])
  then show ?thesis
    using e inv_bare [OF inv 1, of True] by simp
next
  case (2 b)
  then obtain off cs where a: "bufs m i = \<lparr>bbuf = Some b, bstart = (Block b, off), bend = (Block b, off + length (L i)), bcap = length cs - 1\<rparr>"
    "bblocks m b = Some cs" "off + length (L i) < length cs" "window cs off (length (L i)) = L i"
    by (rule ownE)
  let ?at = "off + length xs" and ?fin = "off + length xs + length ys"
  let ?cs1 = "overwrite cs ?at ys"
  let ?m1 = "put_block b (Some (?cs1[?fin := Some 0])) (put_block b (Some ?cs1) m)"
  have e: "?fin < length cs" "length (L i) = length xs + length ys"
    using l a(3) by simp_all
  have a1: "bufs m i = \<lparr>bbuf = Some b, bstart = (Block b, off), bend = (Block b, ?fin), bcap = length cs - 1\<rparr>"
    using a(1) e(2) by (simp add: add.assoc)
  have c: "copy_bytes False (Block b, ?at) p (length ys) m = Some (put_block b (Some ?cs1) m)"
    using src
  proof
    assume "source m i p ys"
    then show ?thesis
      by (rule copy_source) (use a1 a(2) e in auto)
  next
    assume s: "(\<exists>b. own m i b (T i) (L i)) \<and> p = bstart (bufs m i) \<and> xs = ys"
    then have "window cs off (length ys) = ys"
      using window_take [of "length ys" "length (L i)" off cs] a(3,4) l by simp
    then show ?thesis
      using s a1 a(2) e by (cases "ys = []") (simp_all add: copy_bytes_def put_block_def fun_upd_idem)
  qed
  then have r: "append_tail i p (length ys) m = Some ?m1"
    using a1 a(2) e by (simp add: append_tail_def Let_def)
  have w: "window ?cs1 off (length (xs @ ys)) = xs @ ys"
    using window_add [of ?cs1 off "length xs" "length ys"] window_other [of ?at ys cs off "length xs"]
      window_take [of "length xs" "length (L i)" off cs] a(4) l(1) e by simp
  have "own ?m1 i b True (xs @ ys)"
    by (rule ownI [of _ _ _ off ?fin "?cs1[?fin := Some 0]"]) (use a1 w e in \<open>simp_all add: window_upd\<close>)
  then have "buf_inv ?m1 E (L(i := xs @ ys)) (T(i := True))"
    by (rule inv_in_place [OF inv 2, of _ "bufs m i", rotated 3]) simp_all
  then show ?thesis
    using r by blast
qed

lemma buf_append_ok:
  assumes inv: "buf_inv m E L T" and src: "source m i p ys"
  shows "\<exists>m1. buf_append i p (length ys) m = Some m1 \<and> buf_inv m1 E (L(i := L i @ ys)) (T(i := True))"
proof -
  obtain m1 zs where m1: "buf_resize i (length (L i) + length ys) m = Some m1"
    "buf_inv m1 E (L(i := L i @ zs)) (T(i := True))" "length zs = length ys" "changed m m1 i (bbuf (bufs m1 i))"
    using buf_resize_ok [OF inv, of i "length (L i) + length ys"] by auto
  have "source m1 i p ys"
    by (rule source_changed [OF src m1(4)])
  then show ?thesis
    using append_tail_ok [OF m1(2), of i "L i" zs ys p] m1(1,3) inv_size [OF inv, of i] by (simp add: buf_append_def)
qed

lemma append_buf_ok:
  assumes inv: "buf_inv m E L T"
  shows "\<exists>m1. buf_append_buf i j m = Some m1 \<and> buf_inv m1 E (L(i := L i @ L j)) (T(i := True))"
proof -
  obtain m1 zs where m1: "buf_resize i (length (L i) + length (L j)) m = Some m1"
    "buf_inv m1 E (L(i := L i @ zs)) (T(i := True))" "length zs = length (L j)" "changed m m1 i (bbuf (bufs m1 i))"
    using buf_resize_ok [OF inv, of i "length (L i) + length (L j)"] by auto
  have "source m1 i (bstart (bufs m1 j)) (L j) \<or>
      (\<exists>b. own m1 i b ((T(i := True)) i) ((L(i := L i @ zs)) i)) \<and> bstart (bufs m1 j) = bstart (bufs m1 i) \<and> L i = L j"
  proof (cases "i = j")
    case True
    show ?thesis
    proof (cases rule: buf_inv_cases [OF m1(2), of i])
      case 1
      then show ?thesis using True by (simp add: bare_def source_def)
    next
      case (2 b)
      then show ?thesis using True by auto
    qed
  next
    case False
    then show ?thesis
      using source_changed [OF source_buf(1) [OF inv, of j i] m1(4)] changed_other [OF m1(4), of j] by simp
  qed
  then show ?thesis
    using append_tail_ok [OF m1(2), of i "L i" zs "L j"] m1(1,3) inv_size [OF inv] by (simp add: buf_append_buf_def Let_def)
qed

lemma prepend_new_ok:
  assumes inv: "buf_inv m E L T" and src: "source m i p ys"
  shows "\<exists>m1. prepend_new i p (length ys) m = Some m1 \<and> buf_inv m1 E (L(i := ys @ L i)) (T(i := False))"
proof -
  let ?b = "bfresh m" and ?n = "length ys + length (L i)"
  let ?a = "\<lparr>bbuf = Some ?b, bstart = (Block ?b, 0), bend = (Block ?b, ?n), bcap = ?n\<rparr>"
  let ?R = "replicate (?n + 1) (None :: cell)"
  let ?cs1 = "overwrite ?R 0 ys"
  let ?cs = "overwrite ?cs1 (length ys) (L i)"
  let ?m1 = "put_block ?b (Some ?cs1) (new_block (?n + 1) m)"
  let ?m2 = "put_block ?b (Some ?cs) ?m1"
  have own_src: "source m (Suc i) (bstart (bufs m i)) (L i)"
    by (rule source_buf(1) [OF inv]) simp
  have "copy_bytes False (Block ?b, 0) p (length ys) (new_block (?n + 1) m) = Some ?m1"
    by (rule copy_source [OF src]) auto
  moreover have "copy_bytes False (Block ?b, length ys) (bstart (bufs m i)) (length (L i)) ?m1 = Some ?m2"
    by (rule copy_source [OF own_src]) auto
  moreover obtain m3 where m3: "delete_block (bbuf (bufs m i)) ?m2 = Some m3" "bufs m3 = bufs m" "bfresh m3 = bfresh m + 1"
    "\<And>c. bblocks m3 c = (if bbuf (bufs m i) = Some c then None else bblocks ?m2 c)"
    using inv_block [OF inv, of i] by (cases "bbuf (bufs m i)") (auto simp: delete_block_def)
  moreover have nb: "bbuf (bufs m i) \<noteq> Some ?b"
    using inv_block(2) [OF inv, of i ?b] by auto
  ultimately have r: "prepend_new i p (length ys) m = Some (put_buf i ?a m3)" (is "_ = Some ?m4")
    using inv_size [OF inv, of i] by (simp add: prepend_new_def Let_def)
  have ch: "changed m ?m4 i (Some ?b)"
    using m3 by (intro changed_new [where a = ?a]) simp_all
  have "window ?cs 0 (length ys) = ys"
    using window_other [of "length ys" "L i" ?cs1 0 "length ys"] window_overwrite [of 0 ys ?R] by simp
  then have "window ?cs 0 ?n = ys @ L i"
    using window_add [of ?cs 0 "length ys" "length (L i)"] window_overwrite [of "length ys" "L i" ?cs1] by simp
  then have "own ?m4 i ?b False (ys @ L i)"
    using m3(4) [of ?b] nb by (intro ownI [of _ _ _ 0 ?n ?cs]) simp_all
  then have "buf_inv ?m4 E (L(i := ys @ L i)) (T(i := False))"
    by (rule inv_changed_own [OF inv ch])
  then show ?thesis
    using r by blast
qed

lemma prepend_ok:
  assumes inv: "buf_inv m E L T" and src: "source m i p ys"
  shows "\<exists>m1. buf_prepend i p (length ys) m = Some m1 \<and> buf_inv m1 E (L(i := ys @ L i)) (T(i := False))"
proof (cases rule: buf_inv_cases [OF inv, of i])
  case 1
  then have "buf_prepend i p (length ys) m = prepend_new i p (length ys) m"
    by (simp add: buf_prepend_def bare_def empty_buf_def)
  then show ?thesis
    using prepend_new_ok [OF assms] by simp
next
  case (2 b)
  then obtain off cs where a: "bufs m i = \<lparr>bbuf = Some b, bstart = (Block b, off), bend = (Block b, off + length (L i)), bcap = length cs - 1\<rparr>"
    "bblocks m b = Some cs" "off + length (L i) < length cs" "window cs off (length (L i)) = L i"
    by (rule ownE)
  show ?thesis
  proof (cases "length ys \<le> off")
    case True
    let ?off = "off - length ys"
    let ?a = "(bufs m i)\<lparr>bstart := (Block b, ?off)\<rparr>" and ?cs = "overwrite cs ?off ys"
    let ?m1 = "put_block b (Some ?cs) (put_buf i ?a m)"
    have "copy_bytes False (Block b, ?off) p (length ys) (put_buf i ?a m) = Some ?m1"
      by (rule copy_source [OF src]) (use a True in auto)
    then have r: "buf_prepend i p (length ys) m = Some ?m1"
      using a(1) True by (simp add: buf_prepend_def Let_def)
    have "window ?cs ?off (length ys + length (L i)) = ys @ L i"
      using window_add [of ?cs ?off "length ys" "length (L i)"] window_overwrite [of ?off ys cs]
        window_other [of ?off ys cs off "length (L i)"] a(3,4) True by simp
    then have "own ?m1 i b False (ys @ L i)"
      by (intro ownI [of _ _ _ ?off "off + length (L i)" ?cs]) (use a True in simp_all)
    then have "buf_inv ?m1 E (L(i := ys @ L i)) (T(i := False))"
      by (rule inv_in_place [OF inv 2, rotated 3]) simp_all
    then show ?thesis
      using r by blast
  next
    case False
    show ?thesis
    proof (cases "length ys + length (L i) \<le> bcap (bufs m i)")
      case True
      have l: "length ys + length (L i) < length cs"
        using True a(1,3) by simp
      let ?cs1 = "overwrite cs (length ys) (L i)"
      let ?cs = "overwrite ?cs1 0 ys"
      let ?a = "(bufs m i)\<lparr>bstart := (Block b, 0), bend := (Block b, length ys + length (L i))\<rparr>"
      let ?m1 = "put_block b (Some ?cs1) m"
      let ?m2 = "put_buf i ?a (put_block b (Some ?cs) ?m1)"
      have "copy_bytes True (Block b, length ys) (bstart (bufs m i)) (length (L i)) m = Some ?m1"
        using a l by (simp add: copy_bytes_def put_block_def fun_upd_idem)
      moreover have "copy_bytes False (Block b, 0) p (length ys) ?m1 = Some (put_block b (Some ?cs) ?m1)"
        by (rule copy_source [OF src]) (use a l in auto)
      ultimately have r: "buf_prepend i p (length ys) m = Some ?m2"
        using a(1) l True False inv_size [OF inv, of i] by (simp add: buf_prepend_def Let_def)
      have "window ?cs 0 (length ys + length (L i)) = ys @ L i"
        using window_add [of ?cs 0 "length ys" "length (L i)"] window_overwrite [of 0 ys ?cs1]
          window_other [of 0 ys ?cs1 "length ys" "length (L i)"] window_overwrite [of "length ys" "L i" cs] l by simp
      then have "own ?m2 i b False (ys @ L i)"
        by (intro ownI [of _ _ _ 0 "length ys + length (L i)" ?cs]) (use a(1) l in simp_all)
      then have "buf_inv ?m2 E (L(i := ys @ L i)) (T(i := False))"
        by (rule inv_in_place [OF inv 2, rotated 3]) simp_all
      then show ?thesis
        using r by blast
    next
      case 3: False
      then have "buf_prepend i p (length ys) m = prepend_new i p (length ys) m"
        using False a(1) inv_size [OF inv, of i] by (simp add: buf_prepend_def Let_def)
      then show ?thesis
        using prepend_new_ok [OF assms] by simp
    qed
  qed
qed

lemma inv_weaken:
  assumes "buf_inv m E L (T(i := True))"
  shows "buf_inv m E L T"
proof -
  have "bare m j (L j) \<or> (\<exists>b. own m j b (T j) (L j))" for j
  proof (cases rule: buf_inv_cases [OF assms, of j])
    case (2 b)
    then show ?thesis
      by (cases "j = i") (auto simp: own_def)
  qed simp
  then show ?thesis
    using assms unfolding buf_inv_def by blast
qed

lemma buf_reserve_ok:
  assumes inv: "buf_inv m E L T"
  shows "\<exists>m1. buf_reserve i n m = Some m1 \<and> buf_inv m1 E L T"
proof (cases "n \<le> bcap (bufs m i)")
  case True
  then show ?thesis using inv by (simp add: buf_reserve_def)
next
  case False
  have "length (L i) \<le> bcap (bufs m i)"
    by (rule buf_inv_cases [OF inv, of i]) (auto simp: bare_def own_def)
  then obtain m1 where m1: "buf_grow i n (length (L i)) m = Some m1" "buf_inv m1 E L (T(i := True))"
    using grow_ok [OF inv order_refl, of i n] False by (auto simp: fun_upd_idem)
  have "buf_inv m1 E L T"
    by (rule inv_weaken [OF m1(2)])
  then show ?thesis
    using m1(1) False inv_size [OF inv, of i] by (simp add: buf_reserve_def)
qed

lemma removeFront_ok:
  assumes inv: "buf_inv m E L T"
  shows "buf_inv (buf_removeFront i n m) E (L(i := drop n (L i))) (T(i := T i \<and> n < length (L i)))"
proof (cases rule: buf_inv_cases [OF inv, of i])
  case 1
  then have "buf_removeFront i n m = m" "L i = []"
    by (simp_all add: buf_removeFront_def bare_def empty_buf_def home_def put_buf_def fun_upd_idem Let_def)
  then show ?thesis
    using inv_bare [OF inv 1] by simp
next
  case (2 b)
  then obtain off cs where a: "bufs m i = \<lparr>bbuf = Some b, bstart = (Block b, off), bend = (Block b, off + length (L i)), bcap = length cs - 1\<rparr>"
    "bblocks m b = Some cs" "off + length (L i) < length cs" "window cs off (length (L i)) = L i"
    "T i \<longrightarrow> cs ! (off + length (L i)) = Some 0"
    by (rule ownE)
  have "own (buf_removeFront i n m) i b (T i \<and> n < length (L i)) (drop n (L i))"
  proof (cases "n < length (L i)")
    case True
    then show ?thesis
      using a window_drop [of n "length (L i)" cs off]
      by (intro ownI [of _ _ _ "off + n" "off + length (L i)" cs]) (simp_all add: buf_removeFront_def Let_def)
  next
    case False
    then show ?thesis
      using a by (intro ownI [of _ _ _ 0 0 cs]) (auto simp: buf_removeFront_def home_def Let_def)
  qed
  then show ?thesis
    by (rule inv_in_place [OF inv 2, of _ "bufs (buf_removeFront i n m) i", rotated 3])
       (simp_all add: buf_removeFront_def Let_def)
qed

lemma removeBack_ok:
  assumes inv: "buf_inv m E L T"
  shows "\<exists>m1. buf_removeBack i n m = Some m1 \<and> buf_inv m1 E (L(i := take (length (L i) - n) (L i))) (T(i := True))"
proof (cases rule: buf_inv_cases [OF inv, of i])
  case 1
  then have "buf_removeBack i n m = Some m" "L i = []"
    by (simp_all add: buf_removeBack_def bare_def empty_buf_def home_def put_buf_def put_zero_def fun_upd_idem Let_def)
  then show ?thesis
    using inv_bare [OF inv 1] by simp
next
  case (2 b)
  then obtain off cs where a: "bufs m i = \<lparr>bbuf = Some b, bstart = (Block b, off), bend = (Block b, off + length (L i)), bcap = length cs - 1\<rparr>"
    "bblocks m b = Some cs" "off + length (L i) < length cs" "window cs off (length (L i)) = L i"
    by (rule ownE)
  let ?k = "length (L i) - n"
  let ?p = "if n \<ge> length (L i) then 0 else off" and ?e = "if n \<ge> length (L i) then 0 else off + ?k"
  let ?a = "(bufs m i)\<lparr>bstart := (Block b, ?p), bend := (Block b, ?e)\<rparr>"
  let ?m1 = "put_block b (Some (cs[?e := Some 0])) (put_buf i ?a m)"
  have e: "?e < length cs" "0 < length cs"
    using a(3) by auto
  have r: "buf_removeBack i n m = Some ?m1"
    using a(1,2) e by (auto simp: buf_removeBack_def home_def Let_def)
  have "own ?m1 i b True (take ?k (L i))"
    using a e window_take [of ?k "length (L i)" off cs]
    by (intro ownI [of _ _ _ ?p ?e "cs[?e := Some 0]"]) (auto simp: window_upd)
  then have "buf_inv ?m1 E (L(i := take ?k (L i))) (T(i := True))"
    by (rule inv_in_place [OF inv 2, of _ ?a, rotated 3]) simp_all
  then show ?thesis
    using r by blast
qed

lemma buf_clear_ok:
  assumes inv: "buf_inv m E L T"
  shows "\<exists>m1. buf_clear i m = Some m1 \<and> buf_inv m1 E (L(i := [])) (T(i := True))"
proof (cases rule: buf_inv_cases [OF inv, of i])
  case 1
  then have "buf_clear i m = Some m" "L i = []"
    by (simp_all add: buf_clear_def bare_def empty_buf_def put_buf_def fun_upd_idem Let_def)
  then show ?thesis
    using inv_bare [OF inv 1] by simp
next
  case (2 b)
  then obtain off cs where a: "bufs m i = \<lparr>bbuf = Some b, bstart = (Block b, off), bend = (Block b, off + length (L i)), bcap = length cs - 1\<rparr>"
    "bblocks m b = Some cs" "off + length (L i) < length cs"
    by (rule ownE)
  let ?a = "(bufs m i)\<lparr>bstart := (Block b, 0), bend := (Block b, 0)\<rparr>"
  let ?m1 = "put_block b (Some (cs[0 := Some 0])) (put_buf i ?a m)"
  have e: "0 < length cs"
    using a(3) by auto
  have r: "buf_clear i m = Some ?m1"
    using a(1,2) e by (simp add: buf_clear_def Let_def)
  have "own ?m1 i b True []"
    using a(1) e by (intro ownI [of _ _ _ 0 0 "cs[0 := Some 0]"]) simp_all
  then have "buf_inv ?m1 E (L(i := [])) (T(i := True))"
    by (rule inv_in_place [OF inv 2, of _ ?a, rotated 3]) simp_all
  then show ?thesis
    using r by blast
qed

lemma free_ok:
  assumes inv: "buf_inv m E L T"
  shows "\<exists>m1. buf_free i m = Some m1 \<and> buf_inv m1 E (L(i := [])) (T(i := True))"
proof -
  obtain m1 where m1: "delete_block (bbuf (bufs m i)) m = Some m1" "bufs m1 = bufs m" "bfresh m1 = bfresh m"
    "\<And>c. bblocks m1 c = (if bbuf (bufs m i) = Some c then None else bblocks m c)"
    using delete_ok [OF inv] by blast
  let ?m2 = "put_buf i (empty_buf i) m1"
  have "changed m ?m2 i None"
    using m1 by (simp add: changed_def empty_buf_def)
  moreover have "bare ?m2 i []"
    by (simp add: bare_def)
  ultimately have "buf_inv ?m2 E (L(i := [])) (T(i := True))"
    by (rule inv_changed_bare [OF inv])
  then show ?thesis
    using m1(1) by (simp add: buf_free_def)
qed

text \<open>Swapping two buffers that have blocks.\<close>

lemma buf_swap_ok:
  assumes inv: "buf_inv m E L T" and o: "bbuf (bufs m i) \<noteq> None" "bbuf (bufs m j) \<noteq> None"
  shows "buf_inv (buf_swap i j m) E (L(i := L j, j := L i)) (T(i := T j, j := T i))"
proof -
  define s where "s = id(i := j, j := i)"
  have a: "bufs (buf_swap i j m) k = bufs m (s k)" "(L(i := L j, j := L i)) k = L (s k)" "(T(i := T j, j := T i)) k = T (s k)" for k
    by (simp_all add: buf_swap_def Let_def s_def)
  have c: "bblocks (buf_swap i j m) = bblocks m" "bfresh (buf_swap i j m) = bfresh m"
    by (simp_all add: buf_swap_def Let_def)
  have s: "s k = s l \<Longrightarrow> k = l" "s (s k) = k" for k l
    by (auto simp: s_def split: if_splits)
  show ?thesis
    unfolding buf_inv_def a c
  proof (intro conjI allI impI)
    show "bare (buf_swap i j m) k (L (s k)) \<or> (\<exists>b. own (buf_swap i j m) k b (T (s k)) (L (s k)))" for k
    proof (cases rule: buf_inv_cases [OF inv, of "s k"])
      case 1
      then have "s k \<noteq> i" "s k \<noteq> j"
        using o bare_block by auto
      then have "s k = k"
        by (auto simp: s_def split: if_splits)
      then show ?thesis using 1 by (simp add: bare_def a)
    next
      case (2 b)
      then show ?thesis by (auto simp: own_def a c)
    qed
    show "k = l" if "bbuf (bufs m (s k)) = Some b \<and> bbuf (bufs m (s l)) = Some b" for k l b
      using inv_shared [OF inv, of "s k" b "s l"] that s(1) by blast
    show "bblocks m e = Some xs" "bbuf (bufs m (s k)) \<noteq> Some e" if "E e = Some xs" for e xs k
      using inv_data [OF inv that] by auto
    show "E b \<noteq> None \<or> (\<exists>k. bbuf (bufs m (s k)) = Some b)" if "bblocks m b \<noteq> None" for b
      using buf_inv_owner [OF inv that] s(2) by metis
    show "bblocks m b = None" if "b \<ge> bfresh m" for b
      by (rule buf_inv_fresh [OF inv that])
  qed
qed


section \<open>Histories\<close>

text \<open>The calls; \<open>e\<close>, \<open>off\<close> and \<open>n\<close> are a piece of the data beside the buffers, and the constructors follow the destruction
  of the buffer that was there.\<close>

datatype buf_call =
    Construct nat nat
  | ConstructData nat nat nat nat
  | CopyBuf nat nat
  | AssignData nat nat nat nat
  | AssignBuf nat nat
  | Prepend nat nat nat nat
  | PrependBuf nat nat
  | Append nat nat nat nat
  | AppendBuf nat nat
  | Resize nat nat
  | Reserve nat nat
  | RemoveFront nat nat
  | RemoveBack nat nat
  | Clear nat
  | Swap nat nat
  | Free nat

fun buf_run :: "buf_call \<Rightarrow> bmem \<Rightarrow> bmem option" where
  "buf_run (Construct i n) m = do { m1 \<leftarrow> buf_destroy i m; buf_init_capacity i n m1 }"
| "buf_run (ConstructData i e off n) m = do { m1 \<leftarrow> buf_destroy i m; buf_init_data i (Block e, off) n m1 }"
| "buf_run (CopyBuf i j) m = do { m1 \<leftarrow> buf_destroy i m; buf_copy i j m1 }"
| "buf_run (AssignData i e off n) m = buf_assign_data i (Block e, off) n m"
| "buf_run (AssignBuf i j) m = buf_assign i j m"
| "buf_run (Prepend i e off n) m = buf_prepend i (Block e, off) n m"
| "buf_run (PrependBuf i j) m = buf_prepend_buf i j m"
| "buf_run (Append i e off n) m = buf_append i (Block e, off) n m"
| "buf_run (AppendBuf i j) m = buf_append_buf i j m"
| "buf_run (Resize i n) m = buf_resize i n m"
| "buf_run (Reserve i n) m = buf_reserve i n m"
| "buf_run (RemoveFront i n) m = Some (buf_removeFront i n m)"
| "buf_run (RemoveBack i n) m = buf_removeBack i n m"
| "buf_run (Clear i) m = buf_clear i m"
| "buf_run (Swap i j) m = Some (buf_swap i j m)"
| "buf_run (Free i) m = buf_free i m"

text \<open>What a call means for the bytes of the buffers, up to the bytes \<open>zs\<close> that \<open>resize\<close> adds; and for the set of the
  buffers that are terminated, which only \<open>prepend\<close> and \<open>removeFront\<close> leave.\<close>

fun buf_spec :: "(nat \<Rightarrow> cell list option) \<Rightarrow> buf_call \<Rightarrow> cell list \<Rightarrow> (nat \<Rightarrow> cell list) \<Rightarrow> nat \<Rightarrow> cell list" where
  "buf_spec E (Construct i n) zs L = L(i := [])"
| "buf_spec E (ConstructData i e off n) zs L = L(i := window (the (E e)) off n)"
| "buf_spec E (CopyBuf i j) zs L = L(i := L j)"
| "buf_spec E (AssignData i e off n) zs L = L(i := window (the (E e)) off n)"
| "buf_spec E (AssignBuf i j) zs L = L(i := L j)"
| "buf_spec E (Prepend i e off n) zs L = L(i := window (the (E e)) off n @ L i)"
| "buf_spec E (PrependBuf i j) zs L = L(i := L j @ L i)"
| "buf_spec E (Append i e off n) zs L = L(i := L i @ window (the (E e)) off n)"
| "buf_spec E (AppendBuf i j) zs L = L(i := L i @ L j)"
| "buf_spec E (Resize i n) zs L = L(i := take n (L i) @ take (n - length (L i)) zs)"
| "buf_spec E (Reserve i n) zs L = L"
| "buf_spec E (RemoveFront i n) zs L = L(i := drop n (L i))"
| "buf_spec E (RemoveBack i n) zs L = L(i := take (length (L i) - n) (L i))"
| "buf_spec E (Clear i) zs L = L(i := [])"
| "buf_spec E (Swap i j) zs L = L(i := L j, j := L i)"
| "buf_spec E (Free i) zs L = L(i := [])"

fun buf_ends :: "buf_call \<Rightarrow> (nat \<Rightarrow> cell list) \<Rightarrow> (nat \<Rightarrow> bool) \<Rightarrow> nat \<Rightarrow> bool" where
  "buf_ends (Construct i n) L T = T(i := True)"
| "buf_ends (ConstructData i e off n) L T = T(i := True)"
| "buf_ends (CopyBuf i j) L T = T(i := True)"
| "buf_ends (AssignData i e off n) L T = T(i := True)"
| "buf_ends (AssignBuf i j) L T = T(i := True)"
| "buf_ends (Prepend i e off n) L T = T(i := False)"
| "buf_ends (PrependBuf i j) L T = T(i := False)"
| "buf_ends (Append i e off n) L T = T(i := True)"
| "buf_ends (AppendBuf i j) L T = T(i := True)"
| "buf_ends (Resize i n) L T = T(i := True)"
| "buf_ends (Reserve i n) L T = T"
| "buf_ends (RemoveFront i n) L T = T(i := T i \<and> n < length (L i))"
| "buf_ends (RemoveBack i n) L T = T(i := True)"
| "buf_ends (Clear i) L T = T(i := True)"
| "buf_ends (Swap i j) L T = T(i := T j, j := T i)"
| "buf_ends (Free i) L T = T(i := True)"

text \<open>The sizes of the buffers after a call.\<close>

fun buf_sizes :: "buf_call \<Rightarrow> (nat \<Rightarrow> nat) \<Rightarrow> nat \<Rightarrow> nat" where
  "buf_sizes (Construct i n) N = N(i := 0)"
| "buf_sizes (ConstructData i e off n) N = N(i := n)"
| "buf_sizes (CopyBuf i j) N = N(i := N j)"
| "buf_sizes (AssignData i e off n) N = N(i := n)"
| "buf_sizes (AssignBuf i j) N = N(i := N j)"
| "buf_sizes (Prepend i e off n) N = N(i := n + N i)"
| "buf_sizes (PrependBuf i j) N = N(i := N j + N i)"
| "buf_sizes (Append i e off n) N = N(i := N i + n)"
| "buf_sizes (AppendBuf i j) N = N(i := N i + N j)"
| "buf_sizes (Resize i n) N = N(i := n)"
| "buf_sizes (Reserve i n) N = N"
| "buf_sizes (RemoveFront i n) N = N(i := N i - n)"
| "buf_sizes (RemoveBack i n) N = N(i := N i - n)"
| "buf_sizes (Clear i) N = N(i := 0)"
| "buf_sizes (Swap i j) N = N(i := N j, j := N i)"
| "buf_sizes (Free i) N = N(i := 0)"

text \<open>Calls with pieces inside of the data and with other buffers (a buffer may be appended to itself); \<open>swap\<close> only when
  neither buffer is empty.\<close>

definition in_data :: "(nat \<Rightarrow> cell list option) \<Rightarrow> nat \<Rightarrow> nat \<Rightarrow> nat \<Rightarrow> bool" where
  "in_data E e off n \<longleftrightarrow> (case E e of Some xs \<Rightarrow> off + n \<le> length xs | None \<Rightarrow> False)"

fun buf_legal :: "(nat \<Rightarrow> cell list option) \<Rightarrow> buf_call \<Rightarrow> (nat \<Rightarrow> nat) \<Rightarrow> bool" where
  "buf_legal E (ConstructData i e off n) N = in_data E e off n"
| "buf_legal E (AssignData i e off n) N = in_data E e off n"
| "buf_legal E (Prepend i e off n) N = in_data E e off n"
| "buf_legal E (Append i e off n) N = in_data E e off n"
| "buf_legal E (CopyBuf i j) N = (i \<noteq> j)"
| "buf_legal E (AssignBuf i j) N = (i \<noteq> j)"
| "buf_legal E (PrependBuf i j) N = (i \<noteq> j)"
| "buf_legal E (Swap i j) N = (0 < N i \<and> 0 < N j)"
| "buf_legal E _ N = True"

lemma legal_piece:
  assumes "buf_inv m E L T" "in_data E e off n"
  shows "source m i (Block e, off) (window (the (E e)) off n)" "length (window (the (E e)) off n) = n"
  using source_data [OF assms(1)] assms(2) by (auto simp: in_data_def split: option.splits)

lemma buf_call_ok:
  assumes inv: "buf_inv m E L T" and legal: "buf_legal E c (\<lambda>i. length (L i))"
  shows "\<exists>m1 zs. buf_run c m = Some m1 \<and> buf_inv m1 E (buf_spec E c zs L) (buf_ends c L T)
    \<and> (\<lambda>i. length (buf_spec E c zs L i)) = buf_sizes c (\<lambda>i. length (L i))"
proof (cases c)
  case (Construct i n)
  then show ?thesis using init_capacity_ok [OF inv, of i n] by (auto simp: fun_eq_iff)
next
  case (ConstructData i e off n)
  then have p: "source m i (Block e, off) (window (the (E e)) off n)" "length (window (the (E e)) off n) = n"
    using legal legal_piece [OF inv] by simp_all
  show ?thesis
    using ConstructData init_data_ok [OF inv p(1)] p(2) by (auto simp: fun_eq_iff)
next
  case (CopyBuf i j)
  then have "i \<noteq> j" using legal by simp
  then have s: "source m i (bstart (bufs m j)) (L j)" "buf_size j m = length (L j)"
    using source_buf [OF inv, of j i] by auto
  obtain m1 m2 where "buf_destroy i m = Some m1" "buf_init_data i (bstart (bufs m j)) (length (L j)) m1 = Some m2"
    "buf_inv m2 E (L(i := L j)) (T(i := True))"
    using init_data_ok [OF inv s(1)] by auto
  moreover from this(1) have "bufs m1 = bufs m"
    by (auto simp: buf_destroy_def delete_block_def split: option.splits if_splits)
  ultimately show ?thesis
    using CopyBuf s(2) by (simp add: buf_copy_def buf_size_def fun_eq_iff)
next
  case (AssignData i e off n)
  then have p: "source m i (Block e, off) (window (the (E e)) off n)" "length (window (the (E e)) off n) = n"
    using legal legal_piece [OF inv] by simp_all
  show ?thesis
    using AssignData assign_data_ok [OF inv p(1)] p(2) by (auto simp: fun_eq_iff)
next
  case (AssignBuf i j)
  then show ?thesis
    using source_buf [OF inv, of j i] assign_data_ok [OF inv, of i "bstart (bufs m j)" "L j"] legal by (auto simp add: buf_assign_def fun_eq_iff)
next
  case (Prepend i e off n)
  then have p: "source m i (Block e, off) (window (the (E e)) off n)" "length (window (the (E e)) off n) = n"
    using legal legal_piece [OF inv] by simp_all
  show ?thesis
    using Prepend prepend_ok [OF inv p(1)] p(2) by (auto simp: fun_eq_iff)
next
  case (PrependBuf i j)
  then show ?thesis
    using source_buf [OF inv, of j i] prepend_ok [OF inv, of i "bstart (bufs m j)" "L j"] legal by (auto simp add: buf_prepend_buf_def fun_eq_iff)
next
  case (Append i e off n)
  then have p: "source m i (Block e, off) (window (the (E e)) off n)" "length (window (the (E e)) off n) = n"
    using legal legal_piece [OF inv] by simp_all
  show ?thesis
    using Append buf_append_ok [OF inv p(1)] p(2) by (auto simp: fun_eq_iff)
next
  case (AppendBuf i j)
  then show ?thesis using append_buf_ok [OF inv, of i j] by (auto simp: fun_eq_iff)
next
  case (Resize i n)
  obtain m1 zs where "buf_resize i n m = Some m1" "buf_inv m1 E (L(i := take n (L i) @ zs)) (T(i := True))" "length zs = n - length (L i)"
    using buf_resize_ok [OF inv, of i n] by blast
  then show ?thesis
    using Resize by (intro exI [of _ m1] exI [of _ zs]) (simp add: fun_eq_iff)
next
  case (Reserve i n)
  then show ?thesis using buf_reserve_ok [OF inv, of i n] by (auto simp: fun_eq_iff)
next
  case (RemoveFront i n)
  then show ?thesis using removeFront_ok [OF inv, of i n] by (auto simp: fun_eq_iff)
next
  case (RemoveBack i n)
  then show ?thesis using removeBack_ok [OF inv, of i n] by (auto simp: fun_eq_iff)
next
  case (Clear i)
  then show ?thesis using buf_clear_ok [OF inv, of i] by (auto simp: fun_eq_iff)
next
  case (Swap i j)
  have "bbuf (bufs m k) \<noteq> None" if "L k \<noteq> []" for k
    by (rule buf_inv_cases [OF inv, of k]) (use that own_block in \<open>auto simp: bare_def\<close>)
  then show ?thesis
    using buf_swap_ok [OF inv, of i j] legal Swap by (simp add: fun_eq_iff)
next
  case (Free i)
  then show ?thesis using free_ok [OF inv, of i] by (auto simp: fun_eq_iff)
qed

fun buf_runs :: "buf_call list \<Rightarrow> bmem \<Rightarrow> bmem option" where
  "buf_runs [] m = Some m"
| "buf_runs (c # cs) m = do { m1 \<leftarrow> buf_run c m; buf_runs cs m1 }"

text \<open>The meaning of a history, with the bytes added by each call; the calls must be legal where they are made.\<close>

fun buf_specs :: "(nat \<Rightarrow> cell list option) \<Rightarrow> (buf_call \<times> cell list) list \<Rightarrow> (nat \<Rightarrow> cell list) \<Rightarrow> nat \<Rightarrow> cell list" where
  "buf_specs E [] L = L"
| "buf_specs E ((c, zs) # cs) L = buf_specs E cs (buf_spec E c zs L)"

fun buf_all_end :: "(nat \<Rightarrow> cell list option) \<Rightarrow> (buf_call \<times> cell list) list \<Rightarrow> (nat \<Rightarrow> cell list) \<Rightarrow> (nat \<Rightarrow> bool) \<Rightarrow> nat \<Rightarrow> bool" where
  "buf_all_end E [] L T = T"
| "buf_all_end E ((c, zs) # cs) L T = buf_all_end E cs (buf_spec E c zs L) (buf_ends c L T)"

fun buf_all_legal :: "(nat \<Rightarrow> cell list option) \<Rightarrow> buf_call list \<Rightarrow> (nat \<Rightarrow> nat) \<Rightarrow> bool" where
  "buf_all_legal E [] N \<longleftrightarrow> True"
| "buf_all_legal E (c # cs) N \<longleftrightarrow> buf_legal E c N \<and> buf_all_legal E cs (buf_sizes c N)"

lemma buf_history_ok:
  "buf_inv m E L T \<Longrightarrow> buf_all_legal E cs (\<lambda>i. length (L i)) \<Longrightarrow>
     \<exists>m1 zss. buf_runs cs m = Some m1 \<and> length zss = length cs
       \<and> buf_inv m1 E (buf_specs E (zip cs zss) L) (buf_all_end E (zip cs zss) L T)"
proof (induction cs arbitrary: m L T)
  case Nil
  then show ?case by simp
next
  case (Cons c cs)
  then have legal: "buf_legal E c (\<lambda>i. length (L i))" "buf_all_legal E cs (buf_sizes c (\<lambda>i. length (L i)))"
    by simp_all
  obtain m1 zs where 1: "buf_run c m = Some m1" "buf_inv m1 E (buf_spec E c zs L) (buf_ends c L T)"
    "(\<lambda>i. length (buf_spec E c zs L i)) = buf_sizes c (\<lambda>i. length (L i))"
    using buf_call_ok [OF Cons.prems(1) legal(1)] by (elim exE conjE) (rule that)
  obtain m2 zss where "buf_runs cs m1 = Some m2" "length zss = length cs"
    "buf_inv m2 E (buf_specs E (zip cs zss) (buf_spec E c zs L)) (buf_all_end E (zip cs zss) (buf_spec E c zs L) (buf_ends c L T))"
    using Cons.IH [OF 1(2)] legal(2) unfolding 1(3) by blast
  then show ?case
    using 1(1) by (intro exI [of _ m2] exI [of _ "zs # zss"]) simp
qed

text \<open>What can be seen of a buffer: the bytes from its start and the byte behind its end.\<close>

definition holds_bytes :: "bmem \<Rightarrow> bptr \<Rightarrow> cell list \<Rightarrow> bool" where
  "holds_bytes m p xs \<longleftrightarrow>
     xs = [] \<or> (\<exists>b off cs. p = (Block b, off) \<and> bblocks m b = Some cs \<and> off + length xs \<le> length cs \<and> window cs off (length xs) = xs)"

fun zero_at :: "bmem \<Rightarrow> bptr \<Rightarrow> bool" where
  "zero_at m (Block b, off) = (case bblocks m b of Some cs \<Rightarrow> off < length cs \<and> cs ! off = Some 0 | None \<Rightarrow> False)"
| "zero_at m (CapOf i, off) = (off = 0 \<and> bcap (bufs m i) mod 256 = 0)"

lemma inv_seen:
  assumes "buf_inv m E L T"
  shows "holds_bytes m (bstart (bufs m i)) (L i) \<and> buf_size i m = length (L i) \<and> buf_isEmpty i m = (L i = [])
    \<and> length (L i) \<le> buf_capacity i m \<and> (T i \<longrightarrow> zero_at m (bend (bufs m i)))"
  by (rule buf_inv_cases [OF assms, of i])
    (auto simp: bare_def own_def holds_bytes_def buf_size_def buf_isEmpty_def buf_capacity_def empty_buf_def)

lemma holds_read:
  "holds_bytes m p xs \<Longrightarrow> None \<notin> set xs \<Longrightarrow> read_bytes p (length xs) m = Some (map the xs)"
  by (auto simp: holds_bytes_def read_bytes_def)

lemma inv_eq:
  assumes inv: "buf_inv m E L T" and w: "None \<notin> set (L i)" "None \<notin> set (L j)"
  shows "buf_eq i j m = Some (L i = L j)"
proof (cases "length (L i) = length (L j)")
  case True
  have "map the (L j) = map the (L i) \<longleftrightarrow> L i = L j"
  proof
    assume "map the (L j) = map the (L i)"
    then have "map (Some \<circ> the) (L j) = map (Some \<circ> the) (L i)"
      by (metis list.map_comp)
    moreover have "map (Some \<circ> the) xs = xs" if "None \<notin> set xs" for xs :: "cell list"
      using that by (induction xs) auto
    ultimately show "L i = L j"
      using w by metis
  qed simp
  then show ?thesis
    using holds_read [of m "bstart (bufs m j)" "L j"] holds_read [of m "bstart (bufs m i)" "L i"] inv_seen [OF inv] w True
    by (simp add: buf_eq_def Let_def)
qed (use inv_seen [OF inv] in \<open>auto simp: buf_eq_def Let_def\<close>)

text \<open>The memory at the beginning: the data, and empty buffers.\<close>

definition buf_begin :: "(nat \<Rightarrow> cell list option) \<Rightarrow> nat \<Rightarrow> bmem" where
  "buf_begin E fresh = \<lparr>bblocks = E, bfresh = fresh, bufs = empty_buf\<rparr>"

lemma begin_inv: "\<forall>e\<ge>fresh. E e = None \<Longrightarrow> buf_inv (buf_begin E fresh) E (\<lambda>i. []) (\<lambda>i. True)"
  by (auto simp: buf_inv_def bare_def buf_begin_def empty_buf_def)

text \<open>C24. On any number of buffers, starting from empty ones, any sequence of calls that keeps to the rule \<open>buf_all_legal\<close> reads and
  writes only inside of allocated blocks, never copies between overlapping bytes with \<open>memcpy\<close> and frees no block twice. The
  buffers then hold what the list functions say, with any bytes \<open>zss\<close> where \<open>resize\<close> added some; sizes and comparison agree, the
  capacity is enough, a zero follows the bytes of every buffer that was not left by \<open>prepend\<close> or by \<open>removeFront\<close> of
  all its bytes; the data is unchanged, and every other block belongs to a buffer. The rule: bytes that are passed are a piece of the
  data \<open>E\<close>, which no buffer owns; a buffer is not assigned, copied or prepended to itself (it may be appended to itself);
  \<^verbatim>\<open>swap\<close> is called on two buffers that hold bytes; and \<^verbatim>\<open>attach\<close> is not called.\<close>

theorem buffer_history_correct:
  assumes "\<forall>e\<ge>fresh. E e = None" and "buf_all_legal E cs (\<lambda>i. 0)"
  shows "\<exists>m zss. buf_runs cs (buf_begin E fresh) = Some m \<and> length zss = length cs
    \<and> (\<forall>i. let xs = buf_specs E (zip cs zss) (\<lambda>i. []) i in
         holds_bytes m (bstart (bufs m i)) xs \<and> buf_size i m = length xs \<and> buf_isEmpty i m = (xs = [])
         \<and> length xs \<le> buf_capacity i m
         \<and> (buf_all_end E (zip cs zss) (\<lambda>i. []) (\<lambda>i. True) i \<longrightarrow> zero_at m (bend (bufs m i))))
    \<and> (\<forall>i j. let xs = buf_specs E (zip cs zss) (\<lambda>i. []) i; ys = buf_specs E (zip cs zss) (\<lambda>i. []) j in
         None \<notin> set xs \<and> None \<notin> set ys \<longrightarrow> buf_eq i j m = Some (xs = ys))
    \<and> (\<forall>e xs. E e = Some xs \<longrightarrow> bblocks m e = Some xs)
    \<and> (\<forall>b. bblocks m b \<noteq> None \<longrightarrow> E b \<noteq> None \<or> (\<exists>i. bbuf (bufs m i) = Some b))"
proof -
  obtain m zss where m: "buf_runs cs (buf_begin E fresh) = Some m" "length zss = length cs"
    "buf_inv m E (buf_specs E (zip cs zss) (\<lambda>i. [])) (buf_all_end E (zip cs zss) (\<lambda>i. []) (\<lambda>i. True))"
    using buf_history_ok [OF begin_inv [OF assms(1)], of cs] assms(2) by (simp only: list.size) blast
  show ?thesis
    unfolding Let_def
    using m inv_seen [OF m(3)] inv_eq [OF m(3)] inv_data(1) [OF m(3)] buf_inv_owner [OF m(3)]
    by (intro exI [of _ m] exI [of _ zss]) blast
qed

text \<open>The data is four bytes long; the second buffer is filled from the first, which is then appended to itself.\<close>

theorem buffer_history_correct_witness:
  "\<exists>m zss. buf_runs [Append 0 7 1 2, Prepend 0 7 0 1, CopyBuf 1 0, AppendBuf 0 0, RemoveFront 0 4, Resize 1 5, Swap 0 1, RemoveBack 1 1]
      (buf_begin [7 \<mapsto> map Some [1, 2, 3, 4]] 8) = Some m \<and> length zss = 8
    \<and> buf_specs [7 \<mapsto> map Some [1, 2, 3, 4]] (zip [Append 0 7 1 2, Prepend 0 7 0 1, CopyBuf 1 0, AppendBuf 0 0, RemoveFront 0 4,
        Resize 1 5, Swap 0 1, RemoveBack 1 1] zss) (\<lambda>i. []) 1 = map Some [2]
    \<and> holds_bytes m (bstart (bufs m 1)) (map Some [2])"
proof -
  let ?E = "[7 \<mapsto> map Some [1, 2, 3, 4]] :: nat \<Rightarrow> cell list option"
  let ?cs = "[Append 0 7 1 2, Prepend 0 7 0 1, CopyBuf 1 0, AppendBuf 0 0, RemoveFront 0 4, Resize 1 5, Swap 0 1, RemoveBack 1 1]"
  have l: "\<forall>e\<ge>8. ?E e = None" "buf_all_legal ?E ?cs (\<lambda>i. 0)"
    by (simp_all add: in_data_def)
  obtain m zss where 1: "buf_runs ?cs (buf_begin ?E 8) = Some m" "length zss = length ?cs"
    "holds_bytes m (bstart (bufs m 1)) (buf_specs ?E (zip ?cs zss) (\<lambda>i. []) 1)"
    using buffer_history_correct [OF l] unfolding Let_def by blast
  have "buf_specs ?E (zip ?cs zss) (\<lambda>i. []) 1 = map Some [2]"
    using 1(2) by (auto simp: length_Suc_conv window_def)
  then show ?thesis
    using 1 by (intro exI [of _ m] exI [of _ zss]) simp
qed

section \<open>Memory of others\<close>

lemma attach_result:
  assumes "delete_block (bbuf (bufs m i)) m = Some m0"
  shows "buf_attach i p len m = Some (put_buf i ((bufs m i)\<lparr>bbuf := None, bstart := p, bend := plus_ptr p len\<rparr>) m0)"
proof -
  have "bufs m0 = bufs m"
    using assms by (auto simp: delete_block_def split: option.splits if_splits)
  then show ?thesis
    using assms by (simp add: buf_attach_def)
qed

lemma grow_overflow:
  assumes "n + 1 < buf_size i m"
  shows "buf_grow i n k m = None"
proof -
  have "copy_bytes False (Block (bfresh m), 0) (bstart (bufs m i)) (buf_size i m) (new_block (n + 1) m) = None"
    using assms by (auto simp: copy_bytes_def split: place.splits option.splits prod.splits)
  then show ?thesis
    by (simp add: buf_grow_def Let_def)
qed

text \<open>A buffer that is attached to \<open>len\<close> bytes keeps its old capacity. A \<open>resize\<close> or an assignment to
  at most that many bytes does nothing at all; \<open>resize\<close> and \<open>reserve\<close> to more, but to fewer than \<open>len - 1\<close>, copy
  all \<open>len\<close> bytes to a smaller block; \<open>append\<close> within the old capacity overwrites the last bytes of
  the attached memory and the byte behind it; and \<open>removeBack\<close> of nothing writes behind the attached memory. After \<open>swap\<close> with a
  buffer without block, a buffer points to the field \<open>_capacity\<close> of the other one: appending nothing to it clears
  the lowest byte of the capacity of the other.\<close>

theorem buffer_foreign_memory:
  assumes "delete_block (bbuf (bufs m i)) m = Some m0" and "bblocks m0 e = Some cs" and "off + len \<le> length cs"
    and "C = buf_capacity i m"
  shows "(\<exists>m1. buf_attach i (Block e, off) len m = Some m1 \<and> buf_size i m1 = len \<and> buf_capacity i m1 = C
    \<and> (\<forall>n\<le>C. buf_resize i n m1 = Some m1)
    \<and> (\<forall>p. \<forall>n\<le>C. buf_assign_data i p n m1 = Some m1)
    \<and> (\<forall>n. C < n \<and> n + 1 < len \<longrightarrow> buf_resize i n m1 = None \<and> buf_reserve i n m1 = None)
    \<and> (\<forall>f ys n. bblocks m1 f = Some ys \<and> f \<noteq> e \<and> n \<le> length ys \<and> 0 < n \<and> n \<le> len \<and> len + n \<le> C \<and> off + len < length cs \<longrightarrow>
         buf_append i (Block f, 0) n m1
           = Some (put_block e (Some ((overwrite cs (off + len - n) (take n ys))[off + len := Some 0]))
               (put_block e (Some (overwrite cs (off + len - n) (take n ys))) m1)))
    \<and> (0 < len \<and> off + len = length cs \<longrightarrow> buf_removeBack i 0 m1 = None))
    \<and> (\<forall>j p. i \<noteq> j \<and> bufs m j = empty_buf j \<longrightarrow>
         (\<exists>m2. buf_append i p 0 (buf_swap i j m) = Some m2
           \<and> buf_capacity j (buf_swap i j m) = C \<and> buf_capacity j m2 = C - C mod 256))"
proof -
  let ?m1 = "put_buf i ((bufs m i)\<lparr>bbuf := None, bstart := (Block e, off), bend := (Block e, off + len)\<rparr>) m0"
  have C: "bcap (bufs m i) = C"
    using assms(4) by (simp add: buf_capacity_def)
  have size: "buf_size i ?m1 = len"
    by (simp add: buf_size_def)
  have "\<forall>n. C < n \<and> n + 1 < len \<longrightarrow> buf_resize i n ?m1 = None \<and> buf_reserve i n ?m1 = None"
    using grow_overflow [of _ i ?m1] size by (simp add: buf_resize_def buf_reserve_def C)
  moreover have "\<forall>n\<le>C. buf_resize i n ?m1 = Some ?m1"
    by (simp add: buf_resize_def C Let_def)
  moreover have "\<forall>p. \<forall>n\<le>C. buf_assign_data i p n ?m1 = Some ?m1"
    by (simp add: buf_assign_data_def C Let_def)
  moreover have "buf_append i (Block f, 0) n ?m1
      = Some (put_block e (Some ((overwrite cs (off + len - n) (take n ys))[off + len := Some 0]))
          (put_block e (Some (overwrite cs (off + len - n) (take n ys))) ?m1))"
    if "bblocks ?m1 f = Some ys \<and> f \<noteq> e \<and> n \<le> length ys \<and> 0 < n \<and> n \<le> len \<and> len + n \<le> C \<and> off + len < length cs" for f ys n
  proof -
    have "buf_resize i (len + n) ?m1 = Some ?m1"
      using that calculation(2) by blast
    moreover have "copy_bytes False (Block e, off + len - n) (Block f, 0) n ?m1
        = Some (put_block e (Some (overwrite cs (off + len - n) (take n ys))) ?m1)"
      using that assms(2) by (simp add: copy_bytes_def window_def)
    ultimately show ?thesis
      using that size by (simp add: buf_append_def append_tail_def)
  qed
  moreover have "buf_removeBack i 0 ?m1 = None" if "0 < len \<and> off + len = length cs"
    using that assms(2) by (simp add: buf_removeBack_def put_zero_def Let_def)
  ultimately have 1: "\<exists>m1. buf_attach i (Block e, off) len m = Some m1 \<and> buf_size i m1 = len \<and> buf_capacity i m1 = C
    \<and> (\<forall>n\<le>C. buf_resize i n m1 = Some m1)
    \<and> (\<forall>p. \<forall>n\<le>C. buf_assign_data i p n m1 = Some m1)
    \<and> (\<forall>n. C < n \<and> n + 1 < len \<longrightarrow> buf_resize i n m1 = None \<and> buf_reserve i n m1 = None)
    \<and> (\<forall>f ys n. bblocks m1 f = Some ys \<and> f \<noteq> e \<and> n \<le> length ys \<and> 0 < n \<and> n \<le> len \<and> len + n \<le> C \<and> off + len < length cs \<longrightarrow>
         buf_append i (Block f, 0) n m1
           = Some (put_block e (Some ((overwrite cs (off + len - n) (take n ys))[off + len := Some 0]))
               (put_block e (Some (overwrite cs (off + len - n) (take n ys))) m1)))
    \<and> (0 < len \<and> off + len = length cs \<longrightarrow> buf_removeBack i 0 m1 = None)"
    using size attach_result [OF assms(1), of "(Block e, off)" len] by (intro exI [of _ ?m1]) (simp add: buf_capacity_def C)
  have "\<exists>m2. buf_append i p 0 (buf_swap i j m) = Some m2 \<and> buf_capacity j (buf_swap i j m) = C \<and> buf_capacity j m2 = C - C mod 256"
    if "i \<noteq> j" "bufs m j = empty_buf j" for j p
    using that by (simp add: buf_append_def buf_resize_def append_tail_def buf_swap_def buf_size_def empty_buf_def copy_bytes_def put_zero_def
        buf_capacity_def C Let_def)
  then show ?thesis
    by (intro conjI [OF 1]) blast
qed

text \<open>Attaching a new buffer to four bytes and resizing it to two writes behind a block of three bytes.\<close>

theorem buffer_foreign_memory_witness:
  "\<exists>m1. buf_attach 0 (Block 7, 0) 4 (buf_begin [7 \<mapsto> map Some [1, 2, 3, 4]] 8) = Some m1
     \<and> buf_resize 0 2 m1 = None \<and> buf_removeBack 0 0 m1 = None \<and> buf_assign_data 0 (Block 7, 0) 0 m1 = Some m1"
proof -
  let ?m = "buf_begin [7 \<mapsto> map Some [1, 2, 3, 4]] 8"
  have "delete_block (bbuf (bufs ?m 0)) ?m = Some ?m" "bblocks ?m 7 = Some (map Some [1, 2, 3, 4])"
    "0 + 4 \<le> length (map Some [1, 2, 3, 4 :: bbyte])" "0 = buf_capacity 0 ?m"
    by (simp_all add: buf_begin_def empty_buf_def delete_block_def buf_capacity_def)
  from conjunct1 [OF buffer_foreign_memory [OF this]] show ?thesis
    by auto
qed

end
