(* ===== verification/Nstd_Xml.thy ===== *)
theory Nstd_Xml
  imports Nstd_Json "HOL-Library.Monad_Syntax" "HOL-Library.Sublist"
begin

text \<open>
  \<^verbatim>\<open>Xml\<close> (src/Document/Xml.cpp, include/nstd/Document/Xml.hpp): the scanner, the parser and the printer of documents.

  Pointers into the text are the bytes from there to the terminating zero, as in \<open>Nstd_Json\<close>; the result
  of a function that reads or writes through a pointer is \<open>None\<close>, or \<open>OutOfBounds\<close>, when it leaves the text or writes behind
  the capacity of the string it fills. The functions of the parser take fuel, \<open>Exhausted\<close> when it runs out. The
  values of \<^verbatim>\<open>String\<close> and \<^verbatim>\<open>Xml::Variant\<close> are modelled without their reference counts.
\<close>

section \<open>Escapes\<close>

text \<open>Bytes are written behind those already there, up to the capacity of the string.\<close>

definition emit :: "nat \<Rightarrow> byte list \<Rightarrow> byte list \<Rightarrow> byte list option" where
  "emit cap xs dest = (if length dest + length xs \<le> cap then Some (dest @ xs) else None)"

definition escapeChars :: "byte list" where
  "escapeChars = [39, 34, 38, 60, 62]"

definition escapeStrings :: "byte list list" where
  "escapeStrings = map lit [''apos'', ''quot'', ''amp'', ''lt'', ''gt'']"

text \<open>\<^verbatim>\<open>scanf("%u")\<close>, with the conversion of \<^verbatim>\<open>strtoul\<close> cut to 32 bits.\<close>

definition scan_uint :: "byte list \<Rightarrow> 32 word option" where
  "scan_uint s =
     (let t = dropWhile is_white s;
          u = (if at0 t = of_char CHR ''-'' \<or> at0 t = of_char CHR ''+'' then tl t else t)
      in if takeWhile is_digit u = [] then None else Some (ucast (c_strtoull s)))"

text \<open>What a sequence between \<^verbatim>\<open>&\<close> and \<^verbatim>\<open>;\<close> stands for, \<open>None\<close> when it is none.\<close>

definition sequence_value :: "byte list \<Rightarrow> byte list option" where
  "sequence_value str =
     (if at0 str = of_char CHR ''#'' then map_option uni_toString (scan_uint (tl str))
      else map_option (\<lambda>c. [c]) (map_of (zip escapeStrings escapeChars) str))"

lemma c_find_less: "c_find s c = Some n \<Longrightarrow> n < length s"
  by (induction s arbitrary: n) (auto split: if_splits)

function unescape_loop :: "nat \<Rightarrow> byte list \<Rightarrow> byte list \<Rightarrow> byte list option" where
  "unescape_loop cap src dest =
     (if src = [] then Some dest
      else if hd src \<noteq> 38 then Option.bind (emit cap [hd src] dest) (unescape_loop cap (tl src))
      else
        let s = tl src in
        case c_find s (of_char CHR '';'') of
          None \<Rightarrow> Option.bind (emit cap [38] dest) (unescape_loop cap s)
        | Some e \<Rightarrow>
            (case sequence_value (take e s) of
               None \<Rightarrow> Option.bind (emit cap [38] dest) (unescape_loop cap s)
             | Some xs \<Rightarrow> Option.bind (emit cap xs dest) (unescape_loop cap (drop (e + 1) s))))"
  by pat_completeness auto

termination
  by (relation "measure (\<lambda>(cap, src, dest). length src)") (auto dest: c_find_less)

declare unescape_loop.simps [simp del]

definition unescapeString :: "byte list \<Rightarrow> byte list option" where
  "unescapeString str =
     (case c_find str 38 of
        None \<Rightarrow> Some str
      | Some n \<Rightarrow> Option.bind (emit (length str) (take n str) []) (unescape_loop (length str) (drop n str)))"

text \<open>\<^verbatim>\<open>resize\<close> does nothing here; \<^verbatim>\<open>reserve\<close> makes the capacity large enough.\<close>

definition xml_reserve :: "nat \<Rightarrow> nat \<Rightarrow> nat" where
  "xml_reserve need cap = (if need \<le> cap then cap else need OR 3)"

fun escape_chars :: "nat \<Rightarrow> byte list \<Rightarrow> byte list \<Rightarrow> byte list option" where
  "escape_chars cap [] dest = Some dest"
| "escape_chars cap (c # s) dest =
     (if c AND 0xc0 \<noteq> 0 \<or> c AND 0xe0 = 0 then Option.bind (emit cap [c] dest) (escape_chars cap s)
      else
        case c_find escapeChars c of
          Some k \<Rightarrow>
            let es = escapeStrings ! k; cap1 = xml_reserve (length dest + length es + 1 + length (c # s)) cap in
            Option.bind (emit cap1 [38] dest) (\<lambda>d1.
              Option.bind (emit cap1 es d1) (\<lambda>d2.
                Option.bind (emit cap1 [of_char CHR '';''] d2) (escape_chars cap1 s)))
        | None \<Rightarrow> Option.bind (emit cap [c] dest) (escape_chars cap s))"

definition escapeString :: "byte list \<Rightarrow> byte list option" where
  "escapeString str = escape_chars (length str + 200) str []"

section \<open>The scanner\<close>

record xpos =
  xline :: int
  xptr :: ptr
  xlineStart :: ptr

datatype xtoken =
    StartTagBegin
  | TagEnd
  | EndTagBegin
  | EmptyTagEnd
  | EqualsSign
  | StringType
  | NameType

text \<open>\<^verbatim>\<open>Xml::Private\<close>: the token with its value and position, the position, and line, column and text of the error.\<close>

record xstate =
  xtok :: xtoken
  xvalue :: "byte list"
  xtokenPos :: xpos
  xcur :: xpos
  xerror :: "int \<times> int \<times> byte list"

definition xpos_column :: "xpos \<Rightarrow> int" where
  "xpos_column pos = int (length (xlineStart pos)) - int (length (xptr pos)) + 1"

definition xsyntaxError :: "xpos \<Rightarrow> byte list \<Rightarrow> xstate \<Rightarrow> xstate" where
  "xsyntaxError pos msg st = st\<lparr>xerror := (xline pos, xpos_column pos, msg)\<rparr>"

text \<open>The position behind the end of a line, at a carriage return or a line feed.\<close>

definition newline :: "int \<Rightarrow> ptr \<Rightarrow> xpos option" where
  "newline line p =
     (if hd p = 13 then
        (case tl p of
           [] \<Rightarrow> None
         | d # q \<Rightarrow> let r = (if d = 10 then q else d # q) in Some \<lparr>xline = line + 1, xptr = r, xlineStart = r\<rparr>)
      else Some \<lparr>xline = line + 1, xptr = tl p, xlineStart = tl p\<rparr>)"

lemma newline_suffix: "newline line p = Some pos \<Longrightarrow> suffix (xptr pos) (tl p)"
  by (auto simp: newline_def Let_def suffix_ConsI split: if_splits list.splits)

lemma newline_length: "newline line p = Some pos \<Longrightarrow> p \<noteq> [] \<Longrightarrow> length (xptr pos) < length p"
  using suffix_length_le [OF newline_suffix] by (cases p) force+

lemma suffix_tl: "suffix q (tl p) \<Longrightarrow> suffix q p"
  by (cases p) (auto intro: suffix_ConsI)

lemma suffix_drops: "suffix (tl (drop n p)) p" "suffix (drop k (drop n p)) p"
  using suffix_tl suffix_drop suffix_order.trans by blast+

lemma findOneOf_less: "str_findOneOf s chars = Some n \<Longrightarrow> n < length s"
  by (auto simp: str_findOneOf_def dest: strpbrk_less)

lemma findOneOf_drop: "str_findOneOf s chars = Some n \<Longrightarrow> drop n s \<noteq> []"
  using findOneOf_less by fastforce

text \<open>The loop over a comment, behind its beginning: the position and whether the comment was closed.\<close>

function comment_loop :: "int \<Rightarrow> ptr \<Rightarrow> ptr \<Rightarrow> (bool \<times> xpos) option" where
  "comment_loop line p ls =
     (case str_findOneOf p [of_char CHR ''-'', 10, 13] of
        None \<Rightarrow> Some (False, \<lparr>xline = line, xptr = drop (c_length p) p, xlineStart = ls\<rparr>)
      | Some e \<Rightarrow>
          let q = drop e p in
          if hd q = 13 \<or> hd q = 10 then
            (case newline line q of
               None \<Rightarrow> None
             | Some pos \<Rightarrow> comment_loop (xline pos) (xptr pos) (xlineStart pos))
          else if c_compare_n (tl q) (lit ''->'') 2 = 0 then Some (True, \<lparr>xline = line, xptr = drop 3 q, xlineStart = ls\<rparr>)
          else comment_loop line (tl q) ls)"
  by pat_completeness auto

termination
  by (relation "measure (\<lambda>(line, p, ls). length p)")
     (auto dest!: newline_length findOneOf_drop dest: findOneOf_less)

declare comment_loop.simps [simp del]

lemma comment_loop_suffix: "comment_loop line p ls = Some (b, pos) \<Longrightarrow> suffix (xptr pos) p"
proof (induction line p ls rule: comment_loop.induct)
  case (1 line p ls)
  show ?case
  proof (cases "str_findOneOf p [of_char CHR ''-'', 10, 13]")
    case None
    then show ?thesis
      using 1(3) by (auto simp: comment_loop.simps [of line p ls] suffix_drop)
  next
    case (Some e)
    note IH = 1(1) [OF Some refl] 1(2) [OF Some refl]
    have suf: "suffix (tl (drop e p)) p" "suffix (drop 3 (drop e p)) p"
      by (rule suffix_drops)+
    show ?thesis
    proof (cases "hd (drop e p) = 13 \<or> hd (drop e p) = 10")
      case True
      then obtain pos' where n: "newline line (drop e p) = Some pos'" "comment_loop (xline pos') (xptr pos') (xlineStart pos') = Some (b, pos)"
        using 1(3) Some by (auto simp: comment_loop.simps [of line p ls] Let_def split: option.splits)
      then show ?thesis
        using IH(1) [OF True n] newline_suffix [OF n(1)] suf(1) by (meson suffix_order.trans)
    next
      case False
      then show ?thesis
        using 1(3) Some IH(2) [OF False] suf
        by (auto simp: comment_loop.simps [of line p ls] Let_def intro: suffix_order.trans split: if_splits)
    qed
  qed
qed

text \<open>\<^verbatim>\<open>skipSpace\<close>; \<^verbatim>\<open><\<close> is followed by a comment or it is not a space.\<close>

function xskipSpace :: "int \<Rightarrow> ptr \<Rightarrow> ptr \<Rightarrow> xpos option" where
  "xskipSpace line p ls =
     (if p = [] then None
      else if hd p = 13 \<or> hd p = 10 then
        (case newline line p of
           None \<Rightarrow> None
         | Some pos \<Rightarrow> xskipSpace (xline pos) (xptr pos) (xlineStart pos))
      else if hd p = of_char CHR ''<'' \<and> c_compare_n (tl p) (lit ''!--'') 3 = 0 then
        (case comment_loop line (drop 4 p) ls of
           None \<Rightarrow> None
         | Some (closed, pos) \<Rightarrow> if closed then xskipSpace (xline pos) (xptr pos) (xlineStart pos) else Some pos)
      else if c_isSpace (hd p) then xskipSpace line (tl p) ls
      else Some \<lparr>xline = line, xptr = p, xlineStart = ls\<rparr>)"
  by pat_completeness auto

termination
  by (relation "measure (\<lambda>(line, p, ls). length p)")
     (auto dest!: newline_length comment_loop_suffix suffix_length_le simp: neq_Nil_conv)

declare xskipSpace.simps [simp del]

definition name_char :: "byte \<Rightarrow> bool" where
  "name_char c \<longleftrightarrow> c \<noteq> 0 \<and> c \<noteq> 47 \<and> c \<noteq> 62 \<and> c \<noteq> 61 \<and> \<not> c_isSpace c"

text \<open>The cases of a string and of a name, at the position of the state.\<close>

definition xstring_token :: "xstate \<Rightarrow> (bool \<times> xstate) option" where
  "xstring_token st =
     (let p = xptr (xcur st); q = hd p in
      case str_findOneOf (tl p) [q, 13, 10] of
        None \<Rightarrow> Some (False, xsyntaxError (xcur st) (lit ''Unexpected end of file'') st)
      | Some e \<Rightarrow>
          if tl p ! e \<noteq> q then Some (False, xsyntaxError (xcur st) (lit ''New line in string'') st)
          else
            case unescapeString (take e (tl p)) of
              None \<Rightarrow> None
            | Some val \<Rightarrow> Some (True, st\<lparr>xvalue := val, xtok := StringType, xcur := (xcur st)\<lparr>xptr := drop (e + 1) (tl p)\<rparr>\<rparr>))"

definition xname_token :: "xstate \<Rightarrow> bool \<times> xstate" where
  "xname_token st =
     (let p = xptr (xcur st); name = takeWhile name_char p in
      if name = [] then (False, xsyntaxError (xcur st) (lit ''Expected name'') st)
      else (True, st\<lparr>xvalue := name, xtok := NameType, xcur := (xcur st)\<lparr>xptr := dropWhile name_char p\<rparr>\<rparr>))"

definition xtake :: "nat \<Rightarrow> xtoken \<Rightarrow> xstate \<Rightarrow> bool \<times> xstate" where
  "xtake n t st = (True, st\<lparr>xtok := t, xcur := (xcur st)\<lparr>xptr := drop n (xptr (xcur st))\<rparr>\<rparr>)"

definition xscan :: "xstate \<Rightarrow> (bool \<times> xstate) option" where
  "xscan st =
     (let p = xptr (xcur st); c = hd p; d = at0 (tl p) in
      if c = 60 then Some (if d = 47 then xtake 2 EndTagBegin st else xtake 1 StartTagBegin st)
      else if c = 62 then Some (xtake 1 TagEnd st)
      else if c = 0 then Some (False, xsyntaxError (xcur st) (lit ''Unexpected end of file'') st)
      else if c = 61 then Some (xtake 1 EqualsSign st)
      else if c = 34 \<or> c = 39 then xstring_token st
      else if c = 47 \<and> d = 62 then Some (xtake 2 EmptyTagEnd st)
      else Some (xname_token st))"

definition xskip :: "xstate \<Rightarrow> xstate option" where
  "xskip st =
     map_option (\<lambda>pos. st\<lparr>xcur := pos\<rparr>) (xskipSpace (xline (xcur st)) (xptr (xcur st)) (xlineStart (xcur st)))"

definition xreadToken :: "xstate \<Rightarrow> (bool \<times> xstate) option" where
  "xreadToken st = (case xskip st of None \<Rightarrow> None | Some st1 \<Rightarrow> xscan (st1\<lparr>xtokenPos := xcur st1\<rparr>))"

section \<open>The parser\<close>

text \<open>\<^verbatim>\<open>Xml::Element\<close> with line, column, type, attributes and content, and the three types of \<^verbatim>\<open>Xml::Variant\<close>.\<close>

datatype xelement =
    Element (eline: int) (ecolumn: int) (etype: "byte list") (eattributes: "(byte list \<times> byte list) list") (econtent: "xvariant list")
  and xvariant =
    XNull
  | XElement xelement
  | XText "byte list"

definition fresh_element :: xelement where
  "fresh_element = Element 0 0 [] [] []"

definition at_token :: "xstate \<Rightarrow> xelement \<Rightarrow> xelement" where
  "at_token st e = Element (xline (xtokenPos st)) (xpos_column (xtokenPos st)) (etype e) (eattributes e) (econtent e)"

definition set_type :: "byte list \<Rightarrow> xelement \<Rightarrow> xelement" where
  "set_type t e = Element (eline e) (ecolumn e) t (eattributes e) (econtent e)"

definition add_attribute :: "byte list \<Rightarrow> byte list \<Rightarrow> xelement \<Rightarrow> xelement" where
  "add_attribute k v e = Element (eline e) (ecolumn e) (etype e) (map_put k v (eattributes e)) (econtent e)"

definition add_content :: "xvariant \<Rightarrow> xelement \<Rightarrow> xelement" where
  "add_content v e = Element (eline e) (ecolumn e) (etype e) (eattributes e) (econtent e @ [v])"

type_synonym 'v xout = "(xstate, 'v) jout"

definition xfails :: "byte list \<Rightarrow> xstate \<Rightarrow> 'v \<Rightarrow> 'v xout" where
  "xfails msg st v = Returns False (xsyntaxError (xtokenPos st) msg st) v"

text \<open>\<^verbatim>\<open>parseText\<close>: the loop looks for the next \<^verbatim>\<open><\<close>; the answer is the position and whether there is one.\<close>

function text_loop :: "int \<Rightarrow> ptr \<Rightarrow> ptr \<Rightarrow> (bool \<times> xpos) option" where
  "text_loop line p ls =
     (case str_findOneOf p [60, 13, 10] of
        None \<Rightarrow> Some (False, \<lparr>xline = line, xptr = drop (c_length p) p, xlineStart = ls\<rparr>)
      | Some e \<Rightarrow>
          let q = drop e p in
          if hd q = 13 \<or> hd q = 10 then
            (case newline line q of
               None \<Rightarrow> None
             | Some pos \<Rightarrow> text_loop (xline pos) (xptr pos) (xlineStart pos))
          else Some (True, \<lparr>xline = line, xptr = q, xlineStart = ls\<rparr>))"
  by pat_completeness auto

termination
  by (relation "measure (\<lambda>(line, p, ls). length p)") (auto dest!: newline_length findOneOf_drop)

declare text_loop.simps [simp del]

definition parseText :: "xstate \<Rightarrow> (bool \<times> xstate \<times> byte list) option" where
  "parseText st =
     (let start = xptr (xcur st) in
      case text_loop (xline (xcur st)) start (xlineStart (xcur st)) of
        None \<Rightarrow> None
      | Some (found, pos) \<Rightarrow>
          if \<not> found then Some (False, xsyntaxError pos (lit ''Unexpected end of file'') (st\<lparr>xcur := pos\<rparr>), [])
          else
            map_option (\<lambda>text. (True, st\<lparr>xcur := pos\<rparr>, text)) (unescapeString (take (length start - length (xptr pos)) start)))"

text \<open>The loop over the attributes; \<open>k\<close> is what follows behind \<^verbatim>\<open>>\<close>.\<close>

primrec attribute_loop :: "nat \<Rightarrow> (xstate \<Rightarrow> xelement \<Rightarrow> xelement xout) \<Rightarrow> xstate \<Rightarrow> xelement \<Rightarrow> xelement xout" where
  "attribute_loop 0 k st e = Exhausted"
| "attribute_loop (Suc n) k st e =
     after_token (xreadToken st) e (\<lambda>st1.
       if xtok st1 = EmptyTagEnd then Returns True st1 e
       else if xtok st1 = TagEnd then k st1 e
       else if xtok st1 = NameType then
         after_token (xreadToken st1) e (\<lambda>st2.
           if xtok st2 \<noteq> EqualsSign then xfails (lit ''Expected '' @ [39, 61, 39]) st2 e
           else
             after_token (xreadToken st2) e (\<lambda>st3.
               if xtok st3 \<noteq> StringType then xfails (lit ''Expected string'') st3 e
               else attribute_loop n k st3 (add_attribute (xvalue st1) (xvalue st3) e)))
       else attribute_loop n k st1 e)"

text \<open>Behind \<^verbatim>\<open></\<close>.\<close>

definition end_tag :: "xstate \<Rightarrow> xelement \<Rightarrow> xelement xout" where
  "end_tag st e =
     after_token (xreadToken st) e (\<lambda>st1.
       if xtok st1 \<noteq> NameType then xfails (lit ''Expected tag name'') st1 e
       else if xvalue st1 \<noteq> etype e then xfails (lit ''Expected end tag of '' @ [39] @ etype e @ [39]) st1 e
       else
         after_token (xreadToken st1) e (\<lambda>st2.
           if xtok st2 \<noteq> TagEnd then xfails (lit ''Expected '' @ [39, 62, 39]) st2 e
           else Returns True st2 e))"

text \<open>The loop over the content; \<open>pe\<close> parses an element behind \<^verbatim>\<open><\<close>.\<close>

primrec content_loop :: "nat \<Rightarrow> (xstate \<Rightarrow> xelement xout) \<Rightarrow> xstate \<Rightarrow> xelement \<Rightarrow> xelement xout" where
  "content_loop 0 pe st e = Exhausted"
| "content_loop (Suc n) pe st e =
     (case xreadToken st of
        None \<Rightarrow> OutOfBounds
      | Some (ok, st1) \<Rightarrow>
          if ok \<and> xtok st1 = EndTagBegin then end_tag st1 e
          else if ok \<and> xtok st1 = StartTagBegin then
            after_call (pe st1)
              (\<lambda>st2 e1. content_loop n pe st2 (add_content (XElement e1) e)) (\<lambda>e1. add_content (XElement e1) e)
          else
            case parseText (if ok then st1\<lparr>xcur := xcur st\<rparr> else st1) of
              None \<Rightarrow> OutOfBounds
            | Some (ok2, st2, text) \<Rightarrow>
                if \<not> ok2 then Returns False st2 e else content_loop n pe st2 (add_content (XText text) e))"

primrec parseElement :: "nat \<Rightarrow> xstate \<Rightarrow> xelement \<Rightarrow> xelement xout" where
  "parseElement 0 st e = Exhausted"
| "parseElement (Suc n) st e =
     (let e1 = at_token st e in
      after_token (xreadToken st) e1 (\<lambda>st1.
        if xtok st1 \<noteq> NameType then xfails (lit ''Expected tag name'') st1 e1
        else
          attribute_loop n (content_loop n (\<lambda>st2. parseElement n st2 fresh_element)) st1 (set_type (xvalue st1) e1)))"

text \<open>The loop in a processing instruction: the position behind it, \<open>Inl\<close> when it does not end.\<close>

lemma xskipSpace_suffix: "xskipSpace line p ls = Some pos \<Longrightarrow> suffix (xptr pos) p"
proof (induction line p ls rule: xskipSpace.induct)
  case (1 line p ls)
  consider "p = []" | "p \<noteq> []" "hd p = 13 \<or> hd p = 10"
    | "p \<noteq> []" "\<not> (hd p = 13 \<or> hd p = 10)" "hd p = of_char CHR ''<'' \<and> c_compare_n (tl p) (lit ''!--'') 3 = 0"
    | "p \<noteq> []" "\<not> (hd p = 13 \<or> hd p = 10)" "\<not> (hd p = of_char CHR ''<'' \<and> c_compare_n (tl p) (lit ''!--'') 3 = 0)" by blast
  then show ?case
  proof cases
    case 2
    then obtain pos' where n: "newline line p = Some pos'" "xskipSpace (xline pos') (xptr pos') (xlineStart pos') = Some pos"
      using 1(4) by (auto simp: xskipSpace.simps [of line p ls] split: option.splits)
    then show ?thesis
      using 1(1) [OF 2 n] newline_suffix [OF n(1)] suffix_tl suffix_order.trans by blast
  next
    case 3
    then obtain b pos' where n: "comment_loop line (drop 4 p) ls = Some (b, pos')"
      "(if b then xskipSpace (xline pos') (xptr pos') (xlineStart pos') else Some pos') = Some pos"
      using 1(4) by (auto simp: xskipSpace.simps [of line p ls] split: option.splits)
    have "suffix (xptr pos') p"
      using comment_loop_suffix [OF n(1)] suffix_drop suffix_order.trans by blast
    then show ?thesis
      using 1(2) [OF 3 n(1) refl] n(2) suffix_order.trans by (cases b) auto
  next
    case 4
    then show ?thesis
      using 1(3) [OF 4] 1(4) suffix_tl by (auto simp: xskipSpace.simps [of line p ls] split: if_splits)
  qed (use 1(4) in \<open>simp add: xskipSpace.simps\<close>)
qed

function instruction_loop :: "xpos \<Rightarrow> (unit + xpos) option" where
  "instruction_loop pos =
     (case str_findOneOf (xptr pos) [13, 10, 63] of
        None \<Rightarrow> Some (Inl ())
      | Some e \<Rightarrow>
          let q = drop e (xptr pos) in
          if hd q = 63 \<and> at0 (tl q) = 62 then Some (Inr (pos\<lparr>xptr := drop 2 q\<rparr>))
          else
            case xskipSpace (xline pos) (tl q) (xlineStart pos) of
              None \<Rightarrow> None
            | Some pos1 \<Rightarrow> instruction_loop pos1)"
  by pat_completeness auto

termination
  by (relation "measure (\<lambda>pos. length (xptr pos))") (auto dest!: xskipSpace_suffix suffix_length_le findOneOf_less)

declare instruction_loop.simps [simp del]

text \<open>The loop over the instructions at the beginning of a document; \<open>Inl\<close> is the position of one that does not end.\<close>

lemma instruction_loop_suffix: "instruction_loop pos = Some (Inr pos1) \<Longrightarrow> suffix (xptr pos1) (xptr pos)"
proof (induction pos rule: instruction_loop.induct)
  case (1 pos)
  show ?case
  proof (cases "str_findOneOf (xptr pos) [13, 10, 63]")
    case (Some e)
    note IH = 1(1) [OF Some refl]
    have suf: "suffix (tl (drop e (xptr pos))) (xptr pos)" "suffix (drop 2 (drop e (xptr pos))) (xptr pos)"
      by (rule suffix_drops)+
    show ?thesis
    proof (cases "hd (drop e (xptr pos)) = 63 \<and> at0 (tl (drop e (xptr pos))) = 62")
      case True
      then show ?thesis
        using 1(2) Some suf by (auto simp: instruction_loop.simps [of pos])
    next
      case False
      then obtain pos2 where n: "xskipSpace (xline pos) (tl (drop e (xptr pos))) (xlineStart pos) = Some pos2"
        "instruction_loop pos2 = Some (Inr pos1)"
        using 1(2) Some
        by (simp only: instruction_loop.simps [of pos] Let_def option.case if_False split: option.splits if_splits) auto
      then show ?thesis
        using IH [OF False n] xskipSpace_suffix [OF n(1)] suf(1) suffix_order.trans by blast
    qed
  qed (use 1(2) in \<open>simp add: instruction_loop.simps [of pos]\<close>)
qed

function instructions :: "xpos \<Rightarrow> (xpos + xpos) option" where
  "instructions pos =
     (if at0 (xptr pos) = 60 \<and> at0 (tl (xptr pos)) = 63 then
        (case instruction_loop (pos\<lparr>xptr := drop 2 (xptr pos)\<rparr>) of
           None \<Rightarrow> None
         | Some (Inl u) \<Rightarrow> Some (Inl pos)
         | Some (Inr pos1) \<Rightarrow>
             (case xskipSpace (xline pos1) (xptr pos1) (xlineStart pos1) of
                None \<Rightarrow> None
              | Some pos2 \<Rightarrow> instructions pos2))
      else Some (Inr pos))"
  by pat_completeness auto

termination
  by (relation "measure (\<lambda>pos. length (xptr pos))")
     (auto dest!: xskipSpace_suffix instruction_loop_suffix suffix_length_le simp: at0_def split: list.splits)

declare instructions.simps [simp del]

text \<open>\<^verbatim>\<open>Private::parse\<close>. The fields of a new parser are written before they are read, but for the error.\<close>

definition xml_start :: "byte list \<Rightarrow> xstate" where
  "xml_start data =
     (let pos = \<lparr>xline = 1, xptr = data @ [0], xlineStart = data @ [0]\<rparr> in
      \<lparr>xtok = NameType, xvalue = [], xtokenPos = pos, xcur = pos, xerror = (0, 0, [])\<rparr>)"

definition xml_private_parse :: "nat \<Rightarrow> byte list \<Rightarrow> xelement \<Rightarrow> xelement xout" where
  "xml_private_parse n data e =
     (case xskip (xml_start data) of
        None \<Rightarrow> OutOfBounds
      | Some st \<Rightarrow>
          (case instructions (xcur st) of
             None \<Rightarrow> OutOfBounds
           | Some (Inl pos) \<Rightarrow> Returns False (xsyntaxError pos (lit ''Unexpected end of file'') st) e
           | Some (Inr pos) \<Rightarrow>
               after_token (xreadToken (st\<lparr>xcur := pos\<rparr>)) e (\<lambda>st1.
                 if xtok st1 \<noteq> StartTagBegin then xfails (lit ''Expected '' @ [39, 60, 39]) st1 e
                 else parseElement n st1 e)))"

text \<open>\<^verbatim>\<open>Xml::parse\<close>: whether it succeeds, the text of the error and the element.\<close>

definition xml_error_text :: "int \<times> int \<times> byte list \<Rightarrow> byte list" where
  "xml_error_text err =
     (case err of (line, column, msg) \<Rightarrow>
        lit ''Syntax error at line '' @ int_digits line @ lit '', column '' @ int_digits column @ lit '': '' @ cstr msg)"

definition xml_parse :: "nat \<Rightarrow> byte list \<Rightarrow> xelement \<Rightarrow> (byte list option, xelement) jout" where
  "xml_parse n data e =
     (case xml_private_parse n (cstr data) e of
        Exhausted \<Rightarrow> Exhausted
      | OutOfBounds \<Rightarrow> OutOfBounds
      | Returns ok st e1 \<Rightarrow> Returns ok (if ok then None else Some (xml_error_text (xerror st))) e1)"

section \<open>The printer\<close>

fun attributes_text :: "(byte list \<times> byte list) list \<Rightarrow> byte list option" where
  "attributes_text [] = Some []"
| "attributes_text ((k, v) # as) =
     do { s \<leftarrow> escapeString v; t \<leftarrow> attributes_text as; Some ([32] @ k @ [61, 34] @ s @ [34] @ t) }"

fun element_text :: "xelement \<Rightarrow> byte list option"
  and contents_text :: "xvariant list \<Rightarrow> byte list option" where
  "element_text (Element l c type as content) =
     do {
       a \<leftarrow> attributes_text as;
       if content = [] then Some ([60] @ type @ a @ [47, 62])
       else do { t \<leftarrow> contents_text content; Some ([60] @ type @ a @ [62] @ t @ [60, 47] @ type @ [62]) }
     }"
| "contents_text [] = Some []"
| "contents_text (XNull # vs) = contents_text vs"
| "contents_text (XElement e # vs) = do { s \<leftarrow> element_text e; t \<leftarrow> contents_text vs; Some (s @ t) }"
| "contents_text (XText x # vs) = do { s \<leftarrow> escapeString x; t \<leftarrow> contents_text vs; Some (s @ t) }"

definition xml_toString :: "xelement \<Rightarrow> byte list option" where
  "xml_toString e =
     map_option (\<lambda>s. lit ''<?xml version='' @ [34] @ lit ''1.0'' @ [34] @ lit '' encoding='' @ [34] @ lit ''UTF-8'' @ [34]
       @ lit ''?>'' @ [10] @ s) (element_text e)"

end
