(* ===== verification/Nstd_XmlProps.thy ===== *)
theory Nstd_XmlProps
  imports Nstd_Xml
begin

text \<open>
  Properties of \<open>Nstd_Xml\<close>: escapes stay inside of the capacity and can be undone; the parser never leaves the text; it ends on
  documents without comments but not on every document with one; and what is printed is read back.
\<close>

section \<open>Escapes\<close>

lemma emit_ok [simp]: "length dest + length xs \<le> cap \<Longrightarrow> emit cap xs dest = Some (dest @ xs)"
  by (simp add: emit_def)

lemma uni_toString_length: "length (uni_toString w) \<le> 4"
  by (simp add: uni_toString_def uni_append_def)

lemma scan_uint_nonempty: "scan_uint s = Some w \<Longrightarrow> s \<noteq> []"
  by (auto simp: scan_uint_def at0_def Let_def)

lemma sequence_value_length: "sequence_value str = Some xs \<Longrightarrow> length xs \<le> length str + 2"
proof (cases "at0 str = of_char CHR ''#''")
  case True
  assume "sequence_value str = Some xs"
  then obtain w where w: "scan_uint (tl str) = Some w" "xs = uni_toString w"
    using True by (auto simp: sequence_value_def)
  then have "2 \<le> length str"
    using scan_uint_nonempty [OF w(1)] by (cases str) (auto simp: Suc_le_eq)
  then show ?thesis
    using w(2) uni_toString_length [of w] by simp
qed (auto simp: sequence_value_def)

lemma unescape_loop_ok:
  "length dest + length src \<le> cap \<Longrightarrow>
     \<exists>r. unescape_loop cap src dest = Some r \<and> length r \<le> length dest + length src"
proof (induction cap src dest rule: unescape_loop.induct)
  case (1 cap src dest)
  consider "src = []" | c s where "src = c # s" "c \<noteq> 38" | s where "src = 38 # s"
    by (cases src) auto
  then show ?case
  proof cases
    case 1
    then show ?thesis by (simp add: unescape_loop.simps)
  next
    case 2
    then show ?thesis
      using 1(1) [of "dest @ [c]"] 1(5) by (subst unescape_loop.simps) simp
  next
    case (3 s)
    have copy: "\<exists>r. unescape_loop cap s (dest @ [38]) = Some r \<and> length r \<le> length dest + length src"
      if "c_find s (of_char CHR '';'') = None
        \<or> (\<exists>e. c_find s (of_char CHR '';'') = Some e \<and> sequence_value (take e s) = None)"
      using that 1(2,3) [of s] 1(5) 3 by fastforce
    show ?thesis
    proof (cases "c_find s (of_char CHR '';'')")
      case None
      then show ?thesis
        using copy 1(5) 3 by (subst unescape_loop.simps) simp
    next
      case (Some e)
      show ?thesis
      proof (cases "sequence_value (take e s)")
        case None
        then show ?thesis
          using copy Some 1(5) 3 by (subst unescape_loop.simps) simp
      next
        case xs: (Some xs)
        have "length xs \<le> e + 2" "e < length s"
          using sequence_value_length [OF xs] c_find_less [OF Some] by simp_all
        then show ?thesis
          using 1(4) [of s e xs "dest @ xs"] Some xs 1(5) 3 by (subst unescape_loop.simps) fastforce
      qed
    qed
  qed
qed

lemma unescapeString_ok: "\<exists>r. unescapeString s = Some r \<and> length r \<le> length s"
proof (cases "c_find s 38")
  case (Some n)
  then show ?thesis
    using c_find_less [OF Some] unescape_loop_ok [of "take n s" "drop n s" "length s"] by (auto simp: unescapeString_def)
qed (simp add: unescapeString_def)

text \<open>The text that stands for a character.\<close>

definition escaped :: "byte \<Rightarrow> byte list" where
  "escaped c = (case map_of (zip escapeChars escapeStrings) c of Some es \<Rightarrow> [38] @ es @ [of_char CHR '';''] | None \<Rightarrow> [c])"

abbreviation escaped_all :: "byte list \<Rightarrow> byte list" where
  "escaped_all s \<equiv> concat (map escaped s)"

lemma escaped_eq:
  "escaped c = (if c = 39 then lit ''&apos;'' else if c = 34 then lit ''&quot;'' else if c = 38 then lit ''&amp;''
     else if c = 60 then lit ''&lt;'' else if c = 62 then lit ''&gt;'' else [c])"
  by (simp add: escaped_def escapeChars_def escapeStrings_def)

lemma reserve_le: "need \<le> xml_reserve need cap"
proof -
  have "int need \<le> int need OR 3"
    by (rule or_greater_eq) simp
  then have "need \<le> need OR 3"
    by (metis of_nat_le_iff of_nat_numeral of_nat_or_eq)
  then show ?thesis
    by (simp add: xml_reserve_def)
qed

lemma reserve_room: "need \<le> n \<Longrightarrow> n \<le> xml_reserve n cap \<and> need \<le> xml_reserve n cap"
  using reserve_le order_trans by blast

lemma escape_special:
  assumes "c \<in> {39, 34, 38, 60, 62}"
  shows "\<exists>k. c_find escapeChars c = Some k \<and> escaped c = [38] @ escapeStrings ! k @ [of_char CHR '';'']
    \<and> \<not> (c AND 0xc0 \<noteq> 0 \<or> c AND 0xe0 = 0)"
  using assms by (auto simp: escapeChars_def escapeStrings_def escaped_eq)

lemma escape_chars_ok: "length dest + length s \<le> cap \<Longrightarrow> escape_chars cap s dest = Some (dest @ escaped_all s)"
proof (induction s arbitrary: cap dest)
  case (Cons c s)
  show ?case
  proof (cases "c \<in> {39, 34, 38, 60, 62}")
    case True
    then obtain k where k: "c_find escapeChars c = Some k" "escaped c = [38] @ escapeStrings ! k @ [of_char CHR '';'']"
      "\<not> (c AND 0xc0 \<noteq> 0 \<or> c AND 0xe0 = 0)"
      using escape_special by blast
    let ?es = "escapeStrings ! k" and ?need = "length dest + length (escapeStrings ! k) + 1 + length (c # s)"
    have room: "length dest + length ?es + length s + 2 \<le> xml_reserve ?need cap"
      using reserve_room [of "length dest + length ?es + length s + 2" ?need cap] by simp
    then have "escape_chars (xml_reserve ?need cap) s (dest @ [38] @ ?es @ [of_char CHR '';'']) = Some (dest @ escaped c @ escaped_all s)"
      using Cons.IH [of "dest @ [38] @ ?es @ [of_char CHR '';'']" "xml_reserve ?need cap"] k(2) by simp
    then show ?thesis
      using k(1,3) room by (simp add: Let_def)
  next
    case False
    then have "c_find escapeChars c = None" "escaped c = [c]"
      by (auto simp: escapeChars_def escaped_eq)
    then show ?thesis
      using Cons.IH [of "dest @ [c]" cap] Cons.prems by auto
  qed
qed simp

lemma escapeString_eq: "escapeString s = Some (escaped_all s)"
  using escape_chars_ok [of "[]" s "length s + 200"] by (simp add: escapeString_def)

lemma unescape_escaped:
  assumes "0 < length (escaped c)" "length dest < cap"
  shows "unescape_loop cap (escaped c @ t) dest = unescape_loop cap t (dest @ [c])"
proof (cases "c \<in> {39, 34, 38, 60, 62}")
  case True
  then show ?thesis
    using assms(2) by (elim insertE emptyE)
      (simp_all add: unescape_loop.simps [of _ "_ # _"] escaped_eq sequence_value_def escapeStrings_def escapeChars_def at0_def)
next
  case False
  then show ?thesis
    using assms(2) by (simp add: unescape_loop.simps [of _ "_ # _"] escaped_eq)
qed

lemma unescape_loop_escaped:
  "length dest + length s \<le> cap \<Longrightarrow> unescape_loop cap (escaped_all s) dest = Some (dest @ s)"
proof (induction s arbitrary: dest)
  case Nil
  then show ?case by (simp add: unescape_loop.simps)
next
  case (Cons c s)
  have "escaped c \<noteq> []"
    by (simp add: escaped_eq)
  then show ?case
    using Cons.IH [of "dest @ [c]"] Cons.prems by (simp add: unescape_escaped)
qed

lemma escaped_length: "length s \<le> length (escaped_all s)"
  by (induction s) (simp_all add: escaped_eq)

lemma c_find_escaped:
  "0 \<notin> set s \<Longrightarrow> case c_find (escaped_all s) 38 of
      None \<Rightarrow> escaped_all s = s
    | Some n \<Rightarrow> \<exists>u v. s = u @ v \<and> n = length u \<and> escaped_all s = u @ escaped_all v"
proof (induction s)
  case (Cons c s)
  show ?case
  proof (cases "c \<in> {39, 34, 38, 60, 62}")
    case True
    then have "c_find (escaped_all (c # s)) 38 = Some 0"
      by (auto simp: escaped_eq)
    then show ?thesis
      by (auto intro: exI [of _ "[]"])
  next
    case False
    then have e: "escaped_all (c # s) = c # escaped_all s" "c \<noteq> 38"
      by (auto simp: escaped_eq)
    show ?thesis
    proof (cases "c_find (escaped_all s) 38")
      case None
      then show ?thesis
        using e Cons by simp
    next
      case (Some n)
      then obtain u v where "s = u @ v" "n = length u" "escaped_all s = u @ escaped_all v"
        using Cons by auto
      then show ?thesis
        unfolding e(1) using e Cons.prems Some by (simp, intro exI [of _ "c # u"] exI [of _ v]) simp
    qed
  qed
qed simp

lemma unescape_escapeString: "0 \<notin> set s \<Longrightarrow> unescapeString (escaped_all s) = Some s"
proof -
  assume s: "0 \<notin> set s"
  show ?thesis
  proof (cases "c_find (escaped_all s) 38")
    case None
    then show ?thesis
      using c_find_escaped [OF s] by (simp add: unescapeString_def)
  next
    case (Some n)
    then obtain u v where "s = u @ v" "n = length u" "escaped_all s = u @ escaped_all v"
      using c_find_escaped [OF s] by auto
    then show ?thesis
      using Some unescape_loop_escaped [of u v "length u + length (escaped_all v)"] escaped_length [of v]
      by (simp add: unescapeString_def)
  qed
qed

text \<open>Unescaping any string stays inside of the string that is reserved for the result, which is no longer than the
  original; escaping any string stays inside of the reserved capacity too, replaces exactly the five special characters, and for a string
  without zeros unescaping gives it back.\<close>

theorem xml_escapes_correct:
  "(\<exists>r. unescapeString s = Some r \<and> length r \<le> length s)
    \<and> escapeString s = Some (escaped_all s)
    \<and> (0 \<notin> set s \<longrightarrow> Option.bind (escapeString s) unescapeString = Some s)"
  using unescapeString_ok escapeString_eq unescape_escapeString by simp

theorem xml_escapes_correct_witness:
  "Option.bind (escapeString (lit ''a<b>&c'')) unescapeString = Some (lit ''a<b>&c'')"
  using xml_escapes_correct [of "lit ''a<b>&c''"] by (auto simp del: escaped_eq simp: set_eq_iff)

section \<open>Reading stays in the text\<close>

text \<open>A pointer at or before the terminator.\<close>

definition inside :: "ptr \<Rightarrow> bool" where
  "inside p \<longleftrightarrow> (\<exists>s. 0 \<notin> set s \<and> p = s @ [0])"

lemma inside_cases: "inside p \<Longrightarrow> p = [0] \<or> (\<exists>c q. p = c # q \<and> c \<noteq> 0 \<and> inside q)"
  unfolding inside_def by (metis append_Cons append_Nil list.set_intros(1,2) neq_Nil_conv)

lemma inside_0 [simp]: "inside [0]"
  by (auto simp: inside_def)

lemma inside_Cons [simp]: "inside (c # q) \<longleftrightarrow> (if c = 0 then q = [] else inside q)"
  by (auto simp: inside_def Cons_eq_append_conv)

lemma inside_Nil [simp]: "\<not> inside []"
  by (simp add: inside_def)

lemma inside_append: "inside (u @ q) \<Longrightarrow> 0 \<notin> set u \<Longrightarrow> inside q"
  by (induction u) (auto split: if_splits)

lemma inside_length: "inside p \<Longrightarrow> drop (c_length p) p = [0]"
  by (induction p) (auto split: if_splits)

lemma inside_dropWhile: "inside p \<Longrightarrow> (\<And>c. P c \<Longrightarrow> c \<noteq> 0) \<Longrightarrow> inside (dropWhile P p)"
  by (induction p) (auto split: if_splits)

lemma inside_found:
  assumes "inside p" "str_findOneOf p chars = Some e"
  obtains c q where "drop e p = c # q" "c \<noteq> 0" "c \<in> set chars" "inside q" "tl (drop e p) = q"
proof -
  obtain u c q where p: "p = u @ c # q" "length u = e" "c \<noteq> 0" "c \<in> set (cstr chars)" "0 \<notin> set u"
    using strpbrk_Some assms(2) unfolding str_findOneOf_def by blast
  moreover have "inside (c # q)"
    using inside_append [of u "c # q"] assms(1) p by simp
  ultimately show ?thesis
    using that [of c q] set_cstr [of chars] by auto
qed

lemma inside_compare: "inside p \<Longrightarrow> c_compare_n p w (length w) = 0 \<Longrightarrow> 0 \<notin> set w \<Longrightarrow> inside (drop (length w) p)"
proof (induction w arbitrary: p)
  case (Cons a w)
  then show ?case
    using inside_cases [OF Cons.prems(1)] by (auto simp: at0_def word_uint_eq_iff split: if_splits)
qed simp

lemma inside_comment: "inside p \<Longrightarrow> c_compare_n p (lit ''!--'') 3 = 0 \<Longrightarrow> inside (drop 3 p)"
  and inside_comment_end: "inside p \<Longrightarrow> c_compare_n p (lit ''->'') 2 = 0 \<Longrightarrow> inside (drop 2 p)"
proof -
  have "length (lit ''!--'') = 3" "length (lit ''->'') = 2" "0 \<notin> set (lit ''!--'')" "0 \<notin> set (lit ''->'')"
    by simp_all
  then show "inside p \<Longrightarrow> c_compare_n p (lit ''!--'') 3 = 0 \<Longrightarrow> inside (drop 3 p)"
    "inside p \<Longrightarrow> c_compare_n p (lit ''->'') 2 = 0 \<Longrightarrow> inside (drop 2 p)"
    using inside_compare [of p] by metis+
qed

lemma newline_ok: "inside (c # q) \<Longrightarrow> c \<noteq> 0 \<Longrightarrow> \<exists>pos. newline line (c # q) = Some pos \<and> inside (xptr pos)"
  by (cases q) (auto simp: newline_def Let_def split: if_splits)

lemma comment_loop_ok: "inside p \<Longrightarrow> \<exists>b pos. comment_loop line p ls = Some (b, pos) \<and> inside (xptr pos)"
proof (induction line p ls rule: comment_loop.induct)
  case (1 line p ls)
  show ?case
  proof (cases "str_findOneOf p [of_char CHR ''-'', 10, 13]")
    case None
    then show ?thesis
      using inside_length [OF 1(3)] by (simp add: comment_loop.simps [of line p ls] exI [of _ False])
  next
    case (Some e)
    note IH = 1(1) [OF Some refl] 1(2) [OF Some refl]
    obtain c q where q: "drop e p = c # q" "c \<noteq> 0" "inside q" "inside (c # q)"
      by (rule inside_found [OF 1(3) Some]) auto
    show ?thesis
    proof (cases "c = 13 \<or> c = 10")
      case True
      then show ?thesis
        using newline_ok [OF q(4,2), of line] IH(1) Some q by (auto simp: comment_loop.simps [of line p ls])
    next
      case False
      then show ?thesis
        using IH(2) Some q inside_comment_end [of q]
        by (cases "c_compare_n q (lit ''->'') 2 = 0")
          (simp_all add: comment_loop.simps [of line p ls] Let_def exI [of _ True] del: lit_simps)
    qed
  qed
qed

lemma xskipSpace_ok: "inside p \<Longrightarrow> \<exists>pos. xskipSpace line p ls = Some pos \<and> inside (xptr pos)"
proof (induction line p ls rule: xskipSpace.induct)
  case (1 line p ls)
  then obtain c q where p: "p = c # q"
    by (cases p) auto
  show ?case
  proof (cases "c = 0")
    case True
    then show ?thesis
      using 1(4) p by (subst xskipSpace.simps) (simp add: c_isSpace_def)
  next
    case False
    then have q: "inside q"
      using 1(4) p by simp
    consider "hd p = 13 \<or> hd p = 10" | "\<not> (hd p = 13 \<or> hd p = 10)" "hd p = of_char CHR ''<'' \<and> c_compare_n (tl p) (lit ''!--'') 3 = 0"
      | "\<not> (hd p = 13 \<or> hd p = 10)" "\<not> (hd p = of_char CHR ''<'' \<and> c_compare_n (tl p) (lit ''!--'') 3 = 0)" by blast
    then show ?thesis
    proof cases
      case 1
      then show ?thesis
        using newline_ok [of c q line] "1.IH"(1) "1.prems" p False by (subst xskipSpace.simps) auto
    next
      case 2
      then have "inside (drop 4 p)"
        using inside_comment [OF q] p by simp
      then obtain b pos where "comment_loop line (drop 4 p) ls = Some (b, pos)" "inside (xptr pos)"
        using comment_loop_ok by blast
      then show ?thesis
        using "1.IH"(2) [OF _ 2 _ refl] 2 p by (subst xskipSpace.simps) (cases b; simp del: lit_simps)
    next
      case 3
      then show ?thesis
        using "1.IH"(3) [OF _ 3] "1.prems" q p by (subst xskipSpace.simps) (auto simp del: lit_simps)
    qed
  qed
qed

lemma at0_cons: "at0 p = c \<Longrightarrow> c \<noteq> 0 \<Longrightarrow> p = c # tl p"
  by (cases p) (auto simp: at0_def)

lemma text_loop_ok:
  "inside p \<Longrightarrow> \<exists>b pos. text_loop line p ls = Some (b, pos) \<and> inside (xptr pos)
     \<and> (b \<longrightarrow> (\<exists>u. p = u @ xptr pos \<and> 60 \<notin> set u \<and> hd (xptr pos) = 60)) \<and> (\<not> b \<longrightarrow> 60 \<notin> set p)"
proof (induction line p ls rule: text_loop.induct)
  case (1 line p ls)
  show ?case
  proof (cases "str_findOneOf p [60, 13, 10]")
    case None
    obtain s where "p = s @ [0]" "0 \<notin> set s"
      using 1(2) by (auto simp: inside_def)
    moreover from this have "cstr p = s"
      by (auto simp: cstr_def takeWhile_append)
    ultimately have "60 \<notin> set p"
      using None by (auto simp: str_findOneOf_def strpbrk_None)
    then show ?thesis
      using None inside_length [OF 1(2)] by (simp add: text_loop.simps [of line p ls] exI [of _ False])
  next
    case (Some e)
    obtain u c q where p: "p = u @ c # q" "length u = e" "c \<noteq> 0" "c \<in> set [60, 13, 10]" "0 \<notin> set u" "60 \<notin> set u"
      using strpbrk_Some [of p "[60, 13, 10]" e] Some by (auto simp: str_findOneOf_def)
    have q: "inside (c # q)"
      using inside_append [of u "c # q"] 1(2) p by simp
    show ?thesis
    proof (cases "c = 60")
      case True
      then show ?thesis
        using Some p q by (intro exI [of _ True] exI [of _ "\<lparr>xline = line, xptr = c # q, xlineStart = ls\<rparr>"] conjI impI exI [of _ u])
          (simp_all add: text_loop.simps [of line "u @ 60 # q" ls])
    next
      case False
      then obtain pos where n: "newline line (c # q) = Some pos" "inside (xptr pos)"
        using newline_ok [OF q p(3)] by blast
      have "\<exists>w. c # q = w @ xptr pos \<and> 60 \<notin> set w"
        using n(1) False by (cases q) (auto simp: newline_def Let_def split: if_splits)
      then obtain w where w: "c # q = w @ xptr pos" "60 \<notin> set w" by blast
      obtain b pos2 where t: "text_loop (xline pos) (xptr pos) (xlineStart pos) = Some (b, pos2)" "inside (xptr pos2)"
        "b \<longrightarrow> (\<exists>u. xptr pos = u @ xptr pos2 \<and> 60 \<notin> set u \<and> hd (xptr pos2) = 60)" "\<not> b \<longrightarrow> 60 \<notin> set (xptr pos)"
        using 1(1) [OF Some refl _ _ n(2)] n(1) p(1,2,4) False by auto
      have "text_loop line p ls = Some (b, pos2)"
        using Some p(2,4) n(1) t(1) False unfolding p(1) by (subst text_loop.simps) auto
      moreover have "\<exists>u. p = u @ xptr pos2 \<and> 60 \<notin> set u" if b: "b"
      proof -
        obtain u2 where "xptr pos = u2 @ xptr pos2" "60 \<notin> set u2"
          using t(3) b by blast
        then show ?thesis
          using p(1,6) w by (intro exI [of _ "u @ w @ u2"]) simp
      qed
      moreover have "60 \<notin> set p" if "\<not> b"
      proof -
        have "60 \<notin> set (c # q)"
          unfolding w(1) using t(4) that w(2) by simp
        then show ?thesis
          using p(1,6) by simp
      qed
      ultimately show ?thesis
        using t(2,3) by auto
    qed
  qed
qed

abbreviation xleft :: "xstate \<Rightarrow> nat" where
  "xleft st \<equiv> length (xptr (xcur st))"

abbreviation xinside :: "xstate \<Rightarrow> bool" where
  "xinside st \<equiv> inside (xptr (xcur st))"

lemma xstring_token_ok:
  assumes "inside (c # q)" "c \<noteq> 0" "xptr (xcur st) = c # q"
  shows "\<exists>b st1. xstring_token st = Some (b, st1) \<and> xinside st1 \<and> (b \<longrightarrow> xleft st1 < xleft st)"
proof (cases "str_findOneOf q [c, 13, 10]")
  case None
  then show ?thesis
    using assms by (auto simp: xstring_token_def xsyntaxError_def)
next
  case (Some e)
  have "inside q"
    using assms(1,2) by simp
  from inside_found [OF this Some] obtain d r where r: "drop e q = d # r" "inside r" "tl (drop e q) = r"
    by metis
  have "drop (Suc e) q = r"
    using r(3) by (simp add: drop_Suc tl_drop)
  moreover have "length r < Suc (length q)"
    using r(1) by (metis length_Cons length_drop less_Suc_eq_le diff_le_self Suc_leD)
  moreover obtain v where "unescapeString (take e q) = Some v"
    using unescapeString_ok by blast
  ultimately show ?thesis
    using Some assms r(2) by (cases "q ! e = c") (auto simp: xstring_token_def xsyntaxError_def)
qed

lemma name_char_not_zero: "name_char c \<Longrightarrow> c \<noteq> 0"
  by (simp add: name_char_def)

lemma xname_token_ok:
  assumes "xinside st" "xname_token st = (b, st1)"
  shows "xinside st1 \<and> (b \<longrightarrow> xleft st1 < xleft st)"
proof (cases "takeWhile name_char (xptr (xcur st)) = []")
  case False
  have "length (dropWhile name_char p) < length p" if "takeWhile name_char p \<noteq> []" for p
    using that by (cases p) (auto simp: less_Suc_eq_le length_dropWhile_le split: if_splits)
  then show ?thesis
    using assms False inside_dropWhile [OF assms(1), of name_char] name_char_not_zero by (auto simp: xname_token_def Let_def)
qed (use assms in \<open>auto simp: xname_token_def xsyntaxError_def Let_def\<close>)

lemma xscan_ok:
  assumes "xinside st"
  shows "\<exists>b st1. xscan st = Some (b, st1) \<and> xinside st1 \<and> (b \<longrightarrow> xleft st1 < xleft st)"
proof -
  obtain c q where p: "xptr (xcur st) = c # q"
    using assms by (cases "xptr (xcur st)") auto
  consider "c = 60" | "c = 62" | "c = 0" | "c = 61" | "c = 34 \<or> c = 39" | "c = 47" "at0 q = 62" | "c \<notin> {60, 62, 0, 61, 34, 39}" "\<not> (c = 47 \<and> at0 q = 62)"
    by blast
  then show ?thesis
  proof cases
    case 1
    have q: "inside q" "inside (drop 1 q)" if "at0 q = 47"
      using that assms 1 p by (cases q; auto simp: at0_def)+
    show ?thesis
    proof (cases "at0 q = 47")
      case True
      then have "xscan st = Some (xtake 2 EndTagBegin st)"
        using p 1 by (simp add: xscan_def Let_def)
      then show ?thesis
        using q [OF True] p by (simp add: xtake_def numeral_2_eq_2 exI [of _ True])
    next
      case False
      then have "xscan st = Some (xtake 1 StartTagBegin st)"
        using p 1 by (simp add: xscan_def Let_def)
      then show ?thesis
        using assms p 1 by (simp add: xtake_def exI [of _ True])
    qed
  next
    case 5
    then have "c \<notin> {60, 62, 0, 61}"
      by auto
    then have "xscan st = xstring_token st" "c \<noteq> 0"
      using 5 p by (simp_all add: xscan_def Let_def)
    then show ?thesis
      using xstring_token_ok [of c q st] assms p by metis
  next
    case 6
    have "inside (drop 1 q)"
      using assms 6 p by (cases q) (auto simp: at0_def)
    moreover have "xscan st = Some (xtake 2 EmptyTagEnd st)"
      using p 6 by (simp add: xscan_def Let_def)
    ultimately show ?thesis
      using p by (simp add: xtake_def numeral_2_eq_2 exI [of _ True])
  next
    case 7
    then have "xscan st = Some (xname_token st)"
      using p by (auto simp: xscan_def Let_def)
    then show ?thesis
      using xname_token_ok [OF assms] by (cases "xname_token st") simp
  next
    case 2
    then show ?thesis
      using assms p by (simp add: xscan_def xtake_def Let_def exI [of _ True])
  next
    case 3
    then show ?thesis
      using assms p by (simp add: xscan_def xsyntaxError_def Let_def exI [of _ False])
  next
    case 4
    then show ?thesis
      using assms p by (simp add: xscan_def xtake_def Let_def exI [of _ True])
  qed
qed

lemma xskip_ok:
  assumes "xinside st"
  shows "\<exists>st1. xskip st = Some st1 \<and> xinside st1 \<and> xleft st1 \<le> xleft st"
proof -
  obtain pos where "xskipSpace (xline (xcur st)) (xptr (xcur st)) (xlineStart (xcur st)) = Some pos" "inside (xptr pos)"
    using xskipSpace_ok [OF assms] by blast
  then show ?thesis
    using suffix_length_le [OF xskipSpace_suffix] by (auto simp: xskip_def)
qed

lemma xreadToken_ok:
  assumes "xinside st"
  shows "\<exists>b st1. xreadToken st = Some (b, st1) \<and> xinside st1 \<and> (b \<longrightarrow> xleft st1 < xleft st)"
proof -
  obtain st0 where st0: "xskip st = Some st0" "xinside st0" "xleft st0 \<le> xleft st"
    using xskip_ok [OF assms] by blast
  then show ?thesis
    using xscan_ok [of "st0\<lparr>xtokenPos := xcur st0\<rparr>"] by (fastforce simp: xreadToken_def)
qed

lemma parseText_ok:
  assumes "xinside st"
  shows "\<exists>b st1 t. parseText st = Some (b, st1, t) \<and> xinside st1
    \<and> (b \<longrightarrow> (\<exists>u. xptr (xcur st) = u @ xptr (xcur st1) \<and> 60 \<notin> set u \<and> hd (xptr (xcur st1)) = 60 \<and> unescapeString u = Some t))
    \<and> (\<not> b \<longrightarrow> 60 \<notin> set (xptr (xcur st)))"
proof -
  obtain b pos where t: "text_loop (xline (xcur st)) (xptr (xcur st)) (xlineStart (xcur st)) = Some (b, pos)" "inside (xptr pos)"
    "b \<longrightarrow> (\<exists>u. xptr (xcur st) = u @ xptr pos \<and> 60 \<notin> set u \<and> hd (xptr pos) = 60)" "\<not> b \<longrightarrow> 60 \<notin> set (xptr (xcur st))"
    using text_loop_ok [OF assms] by blast
  show ?thesis
  proof (cases b)
    case True
    then obtain u where u: "xptr (xcur st) = u @ xptr pos" "60 \<notin> set u" "hd (xptr pos) = 60"
      using t(3) by blast
    then have "take (xleft st - length (xptr pos)) (xptr (xcur st)) = u"
      by simp
    moreover obtain v where "unescapeString u = Some v"
      using unescapeString_ok by blast
    ultimately have "parseText st = Some (True, st\<lparr>xcur := pos\<rparr>, v)"
      using t(1) True by (simp add: parseText_def Let_def)
    then show ?thesis
      using u t(2) \<open>unescapeString u = Some v\<close> by auto
  next
    case False
    then have "parseText st = Some (False, xsyntaxError pos (lit ''Unexpected end of file'') (st\<lparr>xcur := pos\<rparr>), [])"
      using t(1) by (simp add: parseText_def Let_def del: lit_simps)
    then show ?thesis
      using t(2,4) False by (auto simp add: xsyntaxError_def)
  qed
qed

text \<open>A call from inside of the text stays there.\<close>

definition stays :: "'v xout \<Rightarrow> bool" where
  "stays r \<longleftrightarrow> r \<noteq> OutOfBounds \<and> (\<forall>st v. r = Returns True st v \<longrightarrow> xinside st)"

lemma stays_fails [simp]: "stays (xfails msg st v)" "stays (Returns False st v)" "stays Exhausted"
  by (simp_all add: stays_def xfails_def)

lemma stays_token: "xinside st \<Longrightarrow> (\<And>st1. xinside st1 \<Longrightarrow> stays (k st1)) \<Longrightarrow> stays (after_token (xreadToken st) v k)"
  using xreadToken_ok [of st] by (fastforce simp: after_token_def)

lemma stays_call: "stays r \<Longrightarrow> (\<And>st1 v. xinside st1 \<Longrightarrow> stays (k st1 v)) \<Longrightarrow> stays (after_call r k f)"
  by (cases r) (auto simp: stays_def)

lemma stays_if: "(b \<Longrightarrow> stays x) \<Longrightarrow> (\<not> b \<Longrightarrow> stays y) \<Longrightarrow> stays (if b then x else y)"
  by simp

lemma stays_return [simp]: "xinside st \<Longrightarrow> stays (Returns b st v)"
  by (simp add: stays_def)

lemma attribute_loop_stays:
  "(\<And>s e. xinside s \<Longrightarrow> stays (k s e)) \<Longrightarrow> xinside st \<Longrightarrow> stays (attribute_loop n k st e)"
proof (induction n arbitrary: st e)
  case (Suc n)
  show ?case
    unfolding attribute_loop.simps
    by (intro stays_token stays_if stays_fails stays_return Suc.IH Suc.prems) assumption+
qed simp

lemma end_tag_stays: "xinside st \<Longrightarrow> stays (end_tag st e)"
  unfolding end_tag_def by (intro stays_token stays_if stays_fails stays_return)

lemma content_loop_stays:
  "(\<And>s. xinside s \<Longrightarrow> stays (pe s)) \<Longrightarrow> xinside st \<Longrightarrow> stays (content_loop n pe st e)"
proof (induction n arbitrary: st e)
  case (Suc n)
  obtain ok st1 where t: "xreadToken st = Some (ok, st1)" "xinside st1"
    using xreadToken_ok [OF Suc.prems(2)] by blast
  let ?st = "if ok then st1\<lparr>xcur := xcur st\<rparr> else st1"
  have "xinside ?st"
    using t(2) Suc.prems(2) by simp
  then obtain b st2 x where "parseText ?st = Some (b, st2, x)" "xinside st2"
    using parseText_ok by blast
  moreover have "stays (after_call (pe st1) (\<lambda>st2 e1. content_loop n pe st2 (add_content (XElement e1) e)) (\<lambda>e1. add_content (XElement e1) e))"
    by (intro stays_call Suc.IH Suc.prems(1) t(2)) assumption+
  ultimately show ?case
    using Suc.IH [OF Suc.prems(1)] end_tag_stays [OF t(2)] t(1) by simp
qed simp

lemma parseElement_stays: "xinside st \<Longrightarrow> stays (parseElement n st e)"
proof (induction n arbitrary: st e)
  case (Suc n)
  show ?case
    unfolding parseElement.simps Let_def
    by (intro stays_token stays_if stays_fails attribute_loop_stays content_loop_stays Suc.IH Suc.prems) assumption+
qed simp

lemma instruction_loop_ok:
  "inside (xptr pos) \<Longrightarrow> \<exists>r. instruction_loop pos = Some r \<and> (\<forall>pos1. r = Inr pos1 \<longrightarrow> inside (xptr pos1))"
proof (induction pos rule: instruction_loop.induct)
  case (1 pos)
  show ?case
  proof (cases "str_findOneOf (xptr pos) [13, 10, 63]")
    case None
    then show ?thesis by (simp add: instruction_loop.simps [of pos])
  next
    case (Some e)
    obtain c q where q: "drop e (xptr pos) = c # q" "c \<noteq> 0" "inside q"
      by (rule inside_found [OF 1(2) Some]) auto
    show ?thesis
    proof (cases "c = 63 \<and> at0 q = 62")
      case True
      then have "inside (drop 1 q)"
        using q(3) by (cases q) (auto simp: at0_def)
      then show ?thesis
        using Some True q(1) by (simp add: instruction_loop.simps [of pos] numeral_2_eq_2)
    next
      case False
      obtain pos2 where p2: "xskipSpace (xline pos) q (xlineStart pos) = Some pos2" "inside (xptr pos2)"
        using xskipSpace_ok [OF q(3)] by blast
      then show ?thesis
        using 1(1) [OF Some refl _ _ p2(2)] False Some q(1) by (auto simp: instruction_loop.simps [of pos])
    qed
  qed
qed

lemma instructions_ok:
  "inside (xptr pos) \<Longrightarrow> \<exists>r. instructions pos = Some r \<and> (\<forall>pos1. r = Inr pos1 \<longrightarrow> inside (xptr pos1))"
proof (induction pos rule: instructions.induct)
  case (1 pos)
  show ?case
  proof (cases "at0 (xptr pos) = 60 \<and> at0 (tl (xptr pos)) = 63")
    case True
    have n: "(60 :: byte) \<noteq> 0" "(63 :: byte) \<noteq> 0"
      by simp_all
    have "xptr pos = 60 # tl (xptr pos)" "tl (xptr pos) = 63 # tl (tl (xptr pos))"
      using True n at0_cons by blast+
    then obtain q where "xptr pos = 60 # 63 # q"
      by metis
    then have q: "drop 2 (xptr pos) = q" "inside q"
      using 1(2) by simp_all
    then obtain r where r: "instruction_loop (pos\<lparr>xptr := drop 2 (xptr pos)\<rparr>) = Some r" "\<forall>pos1. r = Inr pos1 \<longrightarrow> inside (xptr pos1)"
      using instruction_loop_ok [of "pos\<lparr>xptr := q\<rparr>"] by auto
    show ?thesis
    proof (cases r)
      case (Inl u)
      then show ?thesis using r(1) True by (simp add: instructions.simps [of pos])
    next
      case (Inr pos1)
      then obtain pos2 where p2: "xskipSpace (xline pos1) (xptr pos1) (xlineStart pos1) = Some pos2" "inside (xptr pos2)"
        using r(2) xskipSpace_ok by blast
      then show ?thesis
        using 1(1) [OF True r(1) Inr p2] r(1) Inr True by (auto simp: instructions.simps [of pos])
    qed
  next
    case False
    then have "instructions pos = Some (Inr pos)"
      using instructions.simps [of pos] by (simp only: if_False)
    then show ?thesis
      using 1(2) by simp
  qed
qed

lemma inside_start [simp]: "0 \<notin> set data \<Longrightarrow> xinside (xml_start data)"
  by (auto simp: xml_start_def inside_def Let_def)

text \<open>C27. Whatever the document, the parser reads no byte behind its terminating zero and writes none behind the capacity
  of a string.\<close>

theorem xml_parse_inside: "xml_parse n data e \<noteq> OutOfBounds"
proof -
  obtain st where st: "xskip (xml_start (cstr data)) = Some st" "xinside st"
    using xskip_ok [OF inside_start, of "cstr data"] by auto
  then obtain r where r: "instructions (xcur st) = Some r" "\<forall>pos1. r = Inr pos1 \<longrightarrow> inside (xptr pos1)"
    using instructions_ok by blast
  have "stays (xml_private_parse n (cstr data) e)"
  proof (cases r)
    case (Inr pos)
    then have "xinside (st\<lparr>xcur := pos\<rparr>)"
      using r(2) by simp
    then have "stays (after_token (xreadToken (st\<lparr>xcur := pos\<rparr>)) e (\<lambda>st1.
        if xtok st1 \<noteq> StartTagBegin then xfails (lit ''Expected '' @ [39, 60, 39]) st1 e else parseElement n st1 e))"
      by (intro stays_token stays_if stays_fails parseElement_stays)
    then show ?thesis
      using st(1) r(1) Inr by (simp add: xml_private_parse_def)
  qed (use st(1) r(1) in \<open>simp add: xml_private_parse_def\<close>)
  then show ?thesis
    by (auto simp: xml_parse_def stays_def split: jout.splits)
qed

section \<open>Termination\<close>

text \<open>White space in front of anything but a comment.\<close>

definition comment_at :: "ptr \<Rightarrow> bool" where
  "comment_at p \<longleftrightarrow> hd p = 60 \<and> c_compare_n (tl p) (lit ''!--'') 3 = 0"

lemma space_not_zero': "c_isSpace c \<Longrightarrow> c \<noteq> 0"
  by (rule notI) (simp add: c_isSpace_def)

lemma xskipSpace_plain:
  "inside p \<Longrightarrow> \<not> comment_at (dropWhile c_isSpace p) \<Longrightarrow>
     \<exists>pos. xskipSpace line p ls = Some pos \<and> xptr pos = dropWhile c_isSpace p"
proof (induction line p ls rule: xskipSpace.induct)
  case (1 line p ls)
  then obtain c q where p: "p = c # q"
    by (cases p) auto
  have nl: "c_isSpace 13" "c_isSpace 10" "\<not> c_isSpace 60"
    by (simp_all add: c_isSpace_def)
  consider "hd p = 13 \<or> hd p = 10" | "\<not> (hd p = 13 \<or> hd p = 10)" "c_isSpace c" | "\<not> c_isSpace c" by blast
  then show ?case
  proof cases
    case 1
    then obtain pos where n: "newline line p = Some pos" "inside (xptr pos)"
      using newline_ok [of c q line] "1.prems" p by auto
    have "dropWhile c_isSpace (xptr pos) = dropWhile c_isSpace p"
      using n(1) 1 p nl by (auto simp: newline_def Let_def split: if_splits list.splits)
    then show ?thesis
      using "1.IH"(1) [OF _ 1 n(1) n(2)] "1.prems" 1 n(1) p by (subst xskipSpace.simps) auto
  next
    case 2
    then have "\<not> (hd p = of_char CHR ''<'' \<and> c_compare_n (tl p) (lit ''!--'') 3 = 0)"
      using p nl(3) by auto
    then show ?thesis
      using "1.IH"(3) [of] "1.prems" 2 p space_not_zero' [of c] by (subst xskipSpace.simps) auto
  next
    case 3
    then have "\<not> comment_at p" "dropWhile c_isSpace p = p"
      using "1.prems" p by auto
    then have "xskipSpace line p ls = Some \<lparr>xline = line, xptr = p, xlineStart = ls\<rparr>"
      using 3 nl p by (subst xskipSpace.simps) (auto simp: comment_at_def)
    then show ?thesis
      using \<open>dropWhile c_isSpace p = p\<close> by simp
  qed
qed

definition comment_free :: "ptr \<Rightarrow> bool" where
  "comment_free p \<longleftrightarrow> (\<nexists>u v. p = u @ lit ''<!--'' @ v)"

lemma comment_free_suffix: "comment_free p \<Longrightarrow> suffix q p \<Longrightarrow> comment_free q"
  unfolding comment_free_def suffix_def by (metis append.assoc)

lemma compare_prefix: "c_compare_n p w (length w) = 0 \<Longrightarrow> 0 \<notin> set w \<Longrightarrow> \<exists>v. p = w @ v"
proof (induction w arbitrary: p)
  case (Cons a w)
  then show ?case
    by (cases p) (auto simp: at0_def word_uint_eq_iff split: if_splits)
qed simp

lemma comment_free_at: "comment_free p \<Longrightarrow> suffix q p \<Longrightarrow> \<not> comment_at q"
proof
  assume p: "comment_free p" "suffix q p" and c: "comment_at q"
  have "length (lit ''!--'') = 3" "0 \<notin> set (lit ''!--'')"
    by simp_all
  then obtain v where "tl q = lit ''!--'' @ v"
    using compare_prefix [of "tl q" "lit ''!--''"] c unfolding comment_at_def by metis
  moreover have "q = 60 # tl q" if "q \<noteq> []"
    using that c by (cases q) (auto simp: comment_at_def)
  ultimately have "q = [] @ lit ''<!--'' @ v"
    by (cases "q = []") auto
  then show False
    using comment_free_suffix [OF p] unfolding comment_free_def by blast
qed

definition good :: "xstate \<Rightarrow> bool" where
  "good st \<longleftrightarrow> xinside st \<and> comment_free (xptr (xcur st))"

lemma good_suffix: "good st \<Longrightarrow> xinside st1 \<Longrightarrow> suffix (xptr (xcur st1)) (xptr (xcur st)) \<Longrightarrow> good st1"
  using comment_free_suffix by (auto simp: good_def)

lemma good_skip:
  assumes "good st"
  shows "\<exists>st1. xskip st = Some st1 \<and> xptr (xcur st1) = dropWhile c_isSpace (xptr (xcur st))"
proof -
  have "\<not> comment_at (dropWhile c_isSpace (xptr (xcur st)))"
    using assms comment_free_at suffix_dropWhile by (auto simp: good_def)
  then show ?thesis
    using xskipSpace_plain [of "xptr (xcur st)" "xline (xcur st)" "xlineStart (xcur st)"] assms by (auto simp: xskip_def good_def)
qed

lemma xscan_suffix: "xscan st = Some (b, st1) \<Longrightarrow> suffix (xptr (xcur st1)) (xptr (xcur st))"
  by (auto simp: xscan_def xtake_def xstring_token_def xname_token_def xsyntaxError_def Let_def suffix_drop suffix_dropWhile
      simp flip: drop_Suc intro!: suffix_drop intro: suffix_order.trans [OF suffix_drop suffix_tl] split: if_splits option.splits)

lemma good_token:
  assumes "good st"
  shows "\<exists>b st1. xreadToken st = Some (b, st1) \<and> good st1 \<and> xleft st1 \<le> xleft st \<and> (b \<longrightarrow> xleft st1 < xleft st)
    \<and> (\<not> (b \<and> (xtok st1 = StartTagBegin \<or> xtok st1 = EndTagBegin)) \<longrightarrow>
         hd (xptr (xcur st)) \<noteq> 60 \<and> (\<not> b \<longrightarrow> hd (xptr (xcur st1)) \<noteq> 60))"
proof -
  let ?p = "xptr (xcur st)"
  obtain st0 where st0: "xskip st = Some st0" "xptr (xcur st0) = dropWhile c_isSpace ?p"
    using good_skip [OF assms] by blast
  let ?st = "st0\<lparr>xtokenPos := xcur st0\<rparr>"
  have i: "inside (dropWhile c_isSpace ?p)"
    using assms inside_dropWhile [of ?p c_isSpace] space_not_zero' by (auto simp: good_def)
  then obtain b st1 where st1: "xscan ?st = Some (b, st1)" "xinside st1" "b \<longrightarrow> xleft st1 < length (dropWhile c_isSpace ?p)"
    using xscan_ok [of ?st] st0(2) by auto
  have suf: "suffix (xptr (xcur st1)) (dropWhile c_isSpace ?p)"
    using xscan_suffix [OF st1(1)] st0(2) by simp
  then have "suffix (xptr (xcur st1)) ?p"
    using suffix_dropWhile suffix_order.trans by blast
  then have "good st1" "xleft st1 \<le> xleft st"
    using good_suffix [OF assms st1(2)] suffix_length_le by auto
  moreover have "b \<longrightarrow> xleft st1 < xleft st"
    using st1(3) length_dropWhile_le [of c_isSpace ?p] by linarith
  moreover have "hd ?p \<noteq> 60 \<and> (\<not> b \<longrightarrow> hd (xptr (xcur st1)) \<noteq> 60)"
    if t: "\<not> (b \<and> (xtok st1 = StartTagBegin \<or> xtok st1 = EndTagBegin))"
  proof -
    have d: "hd (dropWhile c_isSpace ?p) \<noteq> 60"
    proof
      assume "hd (dropWhile c_isSpace ?p) = 60"
      then have "b \<and> (xtok st1 = StartTagBegin \<or> xtok st1 = EndTagBegin)"
        using st1(1) st0(2) by (auto simp: xscan_def xtake_def Let_def split: if_splits)
      then show False using t by blast
    qed
    moreover have "hd ?p \<noteq> 60"
    proof
      assume "hd ?p = 60"
      then have "dropWhile c_isSpace ?p = ?p"
        using i by (cases ?p) (auto simp: c_isSpace_def)
      then show False using d \<open>hd ?p = 60\<close> by simp
    qed
    moreover have "xcur st1 = xcur st0" if "\<not> b"
      using st1(1) that
      by (auto simp: xscan_def xtake_def xstring_token_def xname_token_def xsyntaxError_def Let_def split: if_splits option.splits)
    ultimately show ?thesis
      using st0(2) by auto
  qed
  ultimately show ?thesis
    using st0(1) st1(1) by (auto simp: xreadToken_def)
qed

text \<open>A call ends, and when it succeeds it has read something.\<close>

definition ends :: "nat \<Rightarrow> 'v xout \<Rightarrow> bool" where
  "ends n r \<longleftrightarrow> r \<noteq> Exhausted \<and> (\<forall>st v. r = Returns True st v \<longrightarrow> good st \<and> xleft st < n)"

lemma ends_simps [simp]: "ends n (xfails msg st v)" "ends n (Returns False st v)" "ends n OutOfBounds"
  by (simp_all add: ends_def xfails_def)

lemma ends_return: "good st \<Longrightarrow> xleft st < n \<Longrightarrow> ends n (Returns b st v)"
  by (simp add: ends_def)

lemma ends_token:
  "good st \<Longrightarrow> (\<And>st1. good st1 \<Longrightarrow> xleft st1 < xleft st \<Longrightarrow> ends n (k st1)) \<Longrightarrow> ends n (after_token (xreadToken st) v k)"
  using good_token [of st] by (fastforce simp: after_token_def)

lemma ends_call: "ends m r \<Longrightarrow> (\<And>st1 v. good st1 \<Longrightarrow> xleft st1 < m \<Longrightarrow> ends n (k st1 v)) \<Longrightarrow> ends n (after_call r k f)"
  by (cases r) (auto simp: ends_def)

lemma ends_mono: "ends n r \<Longrightarrow> n \<le> m \<Longrightarrow> ends m r"
  by (fastforce simp: ends_def)

lemma ends_if: "(b \<Longrightarrow> ends n x) \<Longrightarrow> (\<not> b \<Longrightarrow> ends n y) \<Longrightarrow> ends n (if b then x else y)"
  by simp

lemma attribute_loop_ends:
  assumes "\<And>s e. good s \<Longrightarrow> xleft s < m \<Longrightarrow> ends m (k s e)"
  shows "good st \<Longrightarrow> xleft st \<le> m \<Longrightarrow> xleft st < n \<Longrightarrow> ends m (attribute_loop n k st e)"
proof (induction n arbitrary: st e)
  case (Suc n)
  show ?case
    unfolding attribute_loop.simps
    by (intro ends_token ends_if ends_simps ends_return assms Suc.IH Suc.prems(1)) (use Suc.prems in \<open>simp_all\<close>)
qed simp

lemma end_tag_ends: "good st \<Longrightarrow> xleft st \<le> m \<Longrightarrow> ends m (end_tag st e)"
  unfolding end_tag_def by (intro ends_token ends_if ends_simps ends_return) simp_all

lemma content_loop_ends:
  assumes "\<And>s. good s \<Longrightarrow> xleft s < m \<Longrightarrow> ends (xleft s) (pe s)"
  shows "good st \<Longrightarrow> xleft st \<le> m \<Longrightarrow> xleft st < n \<Longrightarrow> ends m (content_loop n pe st e)"
proof (induction n arbitrary: st e)
  case (Suc n)
  obtain ok st1 where t: "xreadToken st = Some (ok, st1)" "good st1" "xleft st1 \<le> xleft st" "ok \<longrightarrow> xleft st1 < xleft st"
    "\<not> (ok \<and> (xtok st1 = StartTagBegin \<or> xtok st1 = EndTagBegin)) \<longrightarrow>
       hd (xptr (xcur st)) \<noteq> 60 \<and> (\<not> ok \<longrightarrow> hd (xptr (xcur st1)) \<noteq> 60)"
    using good_token [OF Suc.prems(1)] by blast
  consider (tag) "ok" "xtok st1 = EndTagBegin" | (element) "ok" "xtok st1 = StartTagBegin"
    | (chars) "\<not> (ok \<and> (xtok st1 = StartTagBegin \<or> xtok st1 = EndTagBegin))" by blast
  then show ?case
  proof cases
    case tag
    then show ?thesis
      using end_tag_ends [OF t(2), of m e] t Suc.prems by simp
  next
    case element
    have "ends m (after_call (pe st1) (\<lambda>st2 e1. content_loop n pe st2 (add_content (XElement e1) e)) (\<lambda>e1. add_content (XElement e1) e))"
      by (rule ends_call [OF assms [OF t(2)]], use element t Suc.prems in simp, rule Suc.IH)
        (use element t Suc.prems in simp_all)
    then show ?thesis
      using element t(1) by simp
  next
    case chars
    let ?st = "if ok then st1\<lparr>xcur := xcur st\<rparr> else st1"
    have st: "good ?st" "xleft ?st \<le> xleft st" "hd (xptr (xcur ?st)) \<noteq> 60"
      using t chars Suc.prems(1) by (auto simp: good_def)
    obtain b st2 x where p: "parseText ?st = Some (b, st2, x)" "xinside st2"
      "b \<longrightarrow> (\<exists>u. xptr (xcur ?st) = u @ xptr (xcur st2) \<and> 60 \<notin> set u \<and> hd (xptr (xcur st2)) = 60)"
      using parseText_ok [of ?st] st(1) by (auto simp: good_def)
    have "ends m (content_loop n pe st2 (add_content (XText x) e))" if b: "b"
    proof -
      obtain u where u: "xptr (xcur ?st) = u @ xptr (xcur st2)" "hd (xptr (xcur st2)) = 60"
        using p(3) b by blast
      then have "u \<noteq> []"
        using st(3) by auto
      then have "xleft st2 < xleft ?st"
        using u(1) by simp
      moreover have "good st2"
        by (rule good_suffix [OF st(1) p(2)]) (simp add: u(1) suffix_def)
      ultimately show ?thesis
        using Suc.IH [of st2] Suc.prems st(2) by simp
    qed
    then show ?thesis
      using chars t(1) p(1) by auto
  qed
qed simp

lemma parseElement_ends: "good st \<Longrightarrow> xleft st < n \<Longrightarrow> ends (xleft st) (parseElement n st e)"
proof (induction n arbitrary: st e)
  case (Suc n)
  have "ends (xleft st) (attribute_loop n (content_loop n (\<lambda>st2. parseElement n st2 fresh_element)) st1 e1)"
    if "good st1" "xleft st1 < xleft st" for st1 e1
  proof (rule attribute_loop_ends [OF _ that(1)])
    show "ends (xleft st) (content_loop n (\<lambda>st2. parseElement n st2 fresh_element) s e2)" if "good s" "xleft s < xleft st" for s e2
      by (rule content_loop_ends [OF Suc.IH that(1)]) (use that Suc.prems in simp_all)
  qed (use that Suc.prems in simp_all)
  then show ?case
    unfolding parseElement.simps Let_def using Suc.prems(1) by (intro ends_token ends_if ends_simps)
qed simp

lemma instructions_suffix: "instructions pos = Some (Inr pos1) \<Longrightarrow> suffix (xptr pos1) (xptr pos)"
proof (induction pos rule: instructions.induct)
  case (1 pos)
  show ?case
  proof (cases "at0 (xptr pos) = 60 \<and> at0 (tl (xptr pos)) = 63")
    case True
    have "instructions pos = (case instruction_loop (pos\<lparr>xptr := drop 2 (xptr pos)\<rparr>) of
           None \<Rightarrow> None
         | Some (Inl u) \<Rightarrow> Some (Inl pos)
         | Some (Inr pos1) \<Rightarrow>
             (case xskipSpace (xline pos1) (xptr pos1) (xlineStart pos1) of None \<Rightarrow> None | Some pos2 \<Rightarrow> instructions pos2))"
      unfolding instructions.simps [of pos] using True by (rule if_P)
    then obtain pos2 pos3 where n: "instruction_loop (pos\<lparr>xptr := drop 2 (xptr pos)\<rparr>) = Some (Inr pos2)"
      "xskipSpace (xline pos2) (xptr pos2) (xlineStart pos2) = Some pos3" "instructions pos3 = Some (Inr pos1)"
      using 1(2) by (auto split: option.splits sum.splits)
    then show ?thesis
      using 1(1) [OF True n(1) refl n(2,3)] instruction_loop_suffix [OF n(1)] xskipSpace_suffix [OF n(2)] suffix_drop [of 2 "xptr pos"]
      by (auto intro: suffix_order.trans)
  next
    case False
    have "instructions pos = Some (Inr pos)"
      unfolding instructions.simps [of pos] using False by (rule if_not_P)
    then show ?thesis
      using 1(2) by simp
  qed
qed

lemma good_start: "comment_free (data @ [0]) \<Longrightarrow> 0 \<notin> set data \<Longrightarrow> good (xml_start data)"
  by (simp add: good_def) (simp add: xml_start_def Let_def)

lemma compare_numeral:
  "c_compare_n s1 s2 (numeral k) =
     (if at0 s1 = 0 \<or> at0 s1 \<noteq> at0 s2 then uint (at0 s1) - uint (at0 s2) else c_compare_n (tl s1) (tl s2) (pred_numeral k))"
  by (simp add: numeral_eq_Suc)

section \<open>What is printed is read back\<close>

text \<open>Names, attribute values and texts that survive. A text must not be empty, be only white space, or begin with white space
  before a slash, and no two texts may be neighbours.\<close>

definition name_ok :: "byte list \<Rightarrow> bool" where
  "name_ok w \<longleftrightarrow> w \<noteq> [] \<and> (\<forall>c\<in>set w. name_char c) \<and> hd w \<notin> {60, 34, 39}"

definition text_ok :: "byte list \<Rightarrow> bool" where
  "text_ok t \<longleftrightarrow> 0 \<notin> set t \<and> dropWhile c_isSpace t \<noteq> [] \<and> (hd (dropWhile c_isSpace t) = 47 \<longrightarrow> \<not> c_isSpace (hd t))"

definition attributes_ok :: "(byte list \<times> byte list) list \<Rightarrow> bool" where
  "attributes_ok as \<longleftrightarrow> distinct (map fst as) \<and> (\<forall>(k, v)\<in>set as. name_ok k \<and> 0 \<notin> set v \<and> 10 \<notin> set v \<and> 13 \<notin> set v)"

fun text_first :: "xvariant list \<Rightarrow> bool" where
  "text_first (XText t # vs) \<longleftrightarrow> True"
| "text_first vs \<longleftrightarrow> False"

fun element_ok :: "xelement \<Rightarrow> bool"
  and contents_ok :: "xvariant list \<Rightarrow> bool" where
  "element_ok (Element l c type as vs) \<longleftrightarrow> name_ok type \<and> hd type \<noteq> 33 \<and> hd type \<noteq> 63 \<and> attributes_ok as \<and> contents_ok vs"
| "contents_ok [] \<longleftrightarrow> True"
| "contents_ok (XNull # vs) \<longleftrightarrow> False"
| "contents_ok (XElement e # vs) \<longleftrightarrow> element_ok e \<and> contents_ok vs"
| "contents_ok (XText t # vs) \<longleftrightarrow> text_ok t \<and> \<not> text_first vs \<and> contents_ok vs"

text \<open>An element without the lines and columns.\<close>

fun strip_element :: "xelement \<Rightarrow> xelement"
  and strip_contents :: "xvariant list \<Rightarrow> xvariant list" where
  "strip_element (Element l c type as vs) = Element 0 0 type as (strip_contents vs)"
| "strip_contents [] = []"
| "strip_contents (XNull # vs) = XNull # strip_contents vs"
| "strip_contents (XElement e # vs) = XElement (strip_element e) # strip_contents vs"
| "strip_contents (XText t # vs) = XText t # strip_contents vs"

lemma strip_append: "strip_contents (vs @ ws) = strip_contents vs @ strip_contents ws"
proof (induction vs)
  case (Cons v vs)
  then show ?case by (cases v) simp_all
qed simp

text \<open>The printed text, without the bounds of the strings.\<close>

definition attributes_print :: "(byte list \<times> byte list) list \<Rightarrow> byte list" where
  "attributes_print as = concat (map (\<lambda>(k, v). 32 # k @ 61 # 34 # escaped_all v @ [34]) as)"

fun element_print :: "xelement \<Rightarrow> byte list"
  and contents_print :: "xvariant list \<Rightarrow> byte list" where
  "element_print (Element l c type as vs) =
     60 # type @ attributes_print as @ (if vs = [] then [47, 62] else 62 # contents_print vs @ 60 # 47 # type @ [62])"
| "contents_print [] = []"
| "contents_print (XNull # vs) = contents_print vs"
| "contents_print (XElement e # vs) = element_print e @ contents_print vs"
| "contents_print (XText t # vs) = escaped_all t @ contents_print vs"

lemma attributes_text_eq: "attributes_text as = Some (attributes_print as)"
  by (induction as rule: attributes_text.induct) (simp_all add: attributes_print_def escapeString_eq)

lemma element_text_eq: "element_text e = Some (element_print e)" "contents_text vs = Some (contents_print vs)"
  by (induction e and vs rule: element_text_contents_text.induct) (simp_all add: attributes_text_eq escapeString_eq)

subsection \<open>Tokens\<close>

lemma escaped_set:
  "c \<in> set (escaped_all s) \<Longrightarrow> c \<notin> {39, 34, 60, 62} \<and> (c \<in> {0, 10, 13} \<longrightarrow> c \<in> set s)"
proof -
  have "c \<notin> {39, 34, 60, 62} \<and> (c \<in> {0, 10, 13} \<longrightarrow> c = d)" if "c \<in> set (escaped d)" for c d
  proof (cases "d \<in> {39, 34, 38, 60, 62}")
    case True
    have "c \<in> set (concat (map escaped [39, 34, 38, 60, 62])) \<Longrightarrow> c \<notin> {39, 34, 60, 62} \<and> c \<notin> {0, 10, 13}" for c
      by (simp add: escaped_eq) (elim disjE, simp_all)
    then show ?thesis
      using that True by auto
  next
    case False
    then show ?thesis
      using that by (simp add: escaped_eq)
  qed
  then show "c \<in> set (escaped_all s) \<Longrightarrow> c \<notin> {39, 34, 60, 62} \<and> (c \<in> {0, 10, 13} \<longrightarrow> c \<in> set s)"
    by fastforce
qed

lemma escaped_space: "dropWhile c_isSpace (escaped_all s) = escaped_all (dropWhile c_isSpace s)"
proof (induction s)
  case (Cons c s)
  show ?case
  proof (cases "c \<in> {39, 34, 38, 60, 62}")
    case True
    have "\<not> c_isSpace 38" "\<not> c_isSpace c"
      using True by (auto simp: c_isSpace_def)
    moreover obtain w where "escaped c = 38 # w"
      using escape_special [OF True] by auto
    ultimately show ?thesis by simp
  next
    case False
    then have "escaped c = [c]"
      by (simp add: escaped_eq)
    then show ?thesis
      using Cons by simp
  qed
qed simp

lemma read_at:
  assumes "inside (xptr (xcur st))" "\<not> comment_at (dropWhile c_isSpace (xptr (xcur st)))"
  shows "\<exists>st0. xptr (xcur st0) = dropWhile c_isSpace (xptr (xcur st)) \<and> xreadToken st = xscan st0"
proof -
  obtain pos where "xskipSpace (xline (xcur st)) (xptr (xcur st)) (xlineStart (xcur st)) = Some pos"
    "xptr pos = dropWhile c_isSpace (xptr (xcur st))"
    using xskipSpace_plain [OF assms] by blast
  then show ?thesis
    by (intro exI [of _ "st\<lparr>xcur := pos, xtokenPos := pos\<rparr>"]) (simp add: xreadToken_def xskip_def)
qed

text \<open>A state that has read a token with this type and value and stands there.\<close>

definition reads :: "xstate \<Rightarrow> xtoken \<Rightarrow> byte list \<Rightarrow> xstate \<Rightarrow> bool" where
  "reads st t rest st1 \<longleftrightarrow> xreadToken st = Some (True, st1) \<and> xtok st1 = t \<and> xptr (xcur st1) = rest \<and> inside rest"

lemma read_symbols:
  assumes "inside (xptr (xcur st))"
  shows "xptr (xcur st) = 62 # rest \<Longrightarrow> \<exists>st1. reads st TagEnd rest st1"
    "xptr (xcur st) = 61 # rest \<Longrightarrow> \<exists>st1. reads st EqualsSign rest st1"
    "xptr (xcur st) = 47 # 62 # rest \<Longrightarrow> \<exists>st1. reads st EmptyTagEnd rest st1"
    "xptr (xcur st) = 60 # 47 # rest \<Longrightarrow> \<exists>st1. reads st EndTagBegin rest st1"
    "xptr (xcur st) = 60 # c # rest \<Longrightarrow> c \<noteq> 47 \<Longrightarrow> c \<noteq> 33 \<Longrightarrow> c \<noteq> 0 \<Longrightarrow> \<exists>st1. reads st StartTagBegin (c # rest) st1"
proof -
  have s: "\<not> c_isSpace 62" "\<not> c_isSpace 61" "\<not> c_isSpace 47" "\<not> c_isSpace 60"
    by (simp_all add: c_isSpace_def)
  show "\<exists>st1. reads st TagEnd rest st1" if "xptr (xcur st) = 62 # rest"
    using read_at [OF assms] assms that s by (auto simp: reads_def xscan_def xtake_def comment_at_def)
  show "\<exists>st1. reads st EqualsSign rest st1" if "xptr (xcur st) = 61 # rest"
    using read_at [OF assms] assms that s by (auto simp: reads_def xscan_def xtake_def comment_at_def)
  show "\<exists>st1. reads st EmptyTagEnd rest st1" if "xptr (xcur st) = 47 # 62 # rest"
    using read_at [OF assms] assms that s by (auto simp: reads_def xscan_def xtake_def comment_at_def at0_def)
  show "\<exists>st1. reads st EndTagBegin rest st1" if "xptr (xcur st) = 60 # 47 # rest"
    using read_at [OF assms] assms that s by (auto simp: reads_def xscan_def xtake_def comment_at_def compare_numeral at0_def)
  show "\<exists>st1. reads st StartTagBegin (c # rest) st1" if "xptr (xcur st) = 60 # c # rest" "c \<noteq> 47" "c \<noteq> 33" "c \<noteq> 0"
  proof -
    have "\<not> comment_at (60 # c # rest)"
      using that(3,4) by (auto simp: comment_at_def compare_numeral at0_def word_uint_eq_iff)
    then show ?thesis
      using read_at [OF assms] assms that s by (auto simp: reads_def xscan_def xtake_def at0_def)
  qed
qed

lemma read_name:
  assumes "inside (xptr (xcur st))" "xptr (xcur st) = ws @ name @ c # rest" "\<forall>c\<in>set ws. c_isSpace c" "name_ok name" "\<not> name_char c"
  shows "\<exists>st1. reads st NameType (c # rest) st1 \<and> xvalue st1 = name"
proof -
  obtain d w where n: "name = d # w" "name_char d" "d \<notin> {60, 34, 39}"
    using assms(4) by (cases name) (auto simp: name_ok_def)
  have d: "dropWhile c_isSpace (xptr (xcur st)) = name @ c # rest"
    using assms(2,3) n by (simp add: name_char_def)
  have "\<not> comment_at (name @ c # rest)"
    using n by (simp add: comment_at_def)
  then obtain st0 where st0: "xptr (xcur st0) = name @ c # rest" "xreadToken st = xscan st0"
    using read_at [OF assms(1)] d by auto
  have "0 \<notin> set ws" "0 \<notin> set name"
    using assms(3,4) space_not_zero' name_char_not_zero by (auto simp: name_ok_def)
  then have "inside (c # rest)"
    using assms(1,2) inside_append [of "ws @ name" "c # rest"] by simp
  moreover have "takeWhile name_char (name @ c # rest) = name" "dropWhile name_char (name @ c # rest) = c # rest"
    using assms(4,5) by (auto simp: name_ok_def)
  moreover have "d \<noteq> 62" "d \<noteq> 0" "d \<noteq> 61" "d \<noteq> 47"
    using n(2) by (auto simp: name_char_def)
  ultimately show ?thesis
    using st0 n by (auto simp: reads_def xscan_def xname_token_def Let_def)
qed

lemma findOneOf_at: "0 \<notin> set u \<Longrightarrow> \<forall>x\<in>set u. x \<notin> set (cstr chars) \<Longrightarrow> c \<noteq> 0 \<Longrightarrow> c \<in> set (cstr chars) \<Longrightarrow>
   str_findOneOf (u @ c # r) chars = Some (length u)"
  unfolding str_findOneOf_def by (induction u) auto

lemma read_string:
  assumes "inside (xptr (xcur st))" "xptr (xcur st) = 34 # escaped_all v @ 34 # rest" "0 \<notin> set v" "10 \<notin> set v" "13 \<notin> set v"
  shows "\<exists>st1. reads st StringType rest st1 \<and> xvalue st1 = v"
proof -
  have s: "\<not> c_isSpace 34" "\<not> comment_at (34 # escaped_all v @ 34 # rest)"
    by (simp_all add: c_isSpace_def comment_at_def)
  obtain st0 where st0: "xptr (xcur st0) = 34 # escaped_all v @ 34 # rest" "xreadToken st = xscan st0"
    using read_at [OF assms(1)] assms(2) s by auto
  have n: "x \<noteq> 0 \<and> x \<noteq> 34 \<and> x \<noteq> 13 \<and> x \<noteq> 10" if "x \<in> set (escaped_all v)" for x
    using escaped_set [OF that] assms(3-5) by auto
  have "str_findOneOf (escaped_all v @ 34 # rest) [34, 13, 10] = Some (length (escaped_all v))"
    by (rule findOneOf_at) (use n in auto)
  moreover have "inside rest"
    using inside_append [of "34 # escaped_all v @ [34]" rest] assms(1,2) n by auto
  ultimately show ?thesis
    using st0 unescape_escapeString [OF assms(3)] by (simp add: reads_def xscan_def xstring_token_def Let_def nth_append)
qed

text \<open>A text that is followed by \<^verbatim>\<open><\<close>: whatever token it begins with, it is read as a text.\<close>

lemma escaped_begins:
  "\<exists>z. escaped c = (if c \<in> {39, 34, 38, 60, 62} then 38 else c) # z \<and> (c \<notin> {39, 34, 38, 60, 62} \<longrightarrow> z = [])"
proof (cases "c \<in> {39, 34, 38, 60, 62}")
  case True
  then show ?thesis
    using escape_special [OF True] by auto
qed (simp add: escaped_eq)

lemma read_no_tag:
  assumes "inside (xptr (xcur st))" "xptr (xcur st) = escaped_all t @ 60 # rest" "text_ok t"
  shows "\<exists>ok st1. xreadToken st = Some (ok, st1) \<and> \<not> (ok \<and> (xtok st1 = StartTagBegin \<or> xtok st1 = EndTagBegin))
    \<and> (\<not> ok \<longrightarrow> xptr (xcur st1) = xptr (xcur st))"
proof -
  let ?u = "dropWhile c_isSpace t"
  obtain c w where u: "?u = c # w" "\<not> c_isSpace c" "c = 47 \<longrightarrow> \<not> c_isSpace (hd t)" "c \<noteq> 0"
    using assms(3) hd_dropWhile [of c_isSpace t] set_dropWhileD [of _ c_isSpace t] by (cases ?u) (auto simp: text_ok_def)
  have d: "dropWhile c_isSpace (xptr (xcur st)) = escaped_all ?u @ 60 # rest"
  proof -
    have "escaped_all ?u \<noteq> []"
      using u(1) by (simp add: escaped_eq)
    then have "\<not> (\<forall>x\<in>set (escaped_all t). c_isSpace x)"
      using escaped_space [of t] by (metis dropWhile_eq_Nil_conv)
    then show ?thesis
      using escaped_space [of t] assms(2) by (auto simp: dropWhile_append)
  qed
  obtain z where z: "escaped c = (if c \<in> {39, 34, 38, 60, 62} then 38 else c) # z" "c \<notin> {39, 34, 38, 60, 62} \<longrightarrow> z = []"
    using escaped_begins by blast
  define d0 where "d0 = (if c \<in> {39, 34, 38, 60, 62} then 38 else c)"
  define w0 where "w0 = z @ escaped_all w @ 60 # rest"
  have e: "escaped_all ?u @ 60 # rest = d0 # w0"
    using u(1) z(1) by (simp add: d0_def w0_def del: insert_iff)
  have n: "d0 \<notin> {60, 62, 34, 39, 0}"
    using u(4) by (auto simp: d0_def)
  obtain st0 where st0: "xptr (xcur st0) = d0 # w0" "xreadToken st = xscan st0"
    using read_at [OF assms(1)] d e n by (auto simp: comment_at_def)
  show ?thesis
  proof (cases "d0 = 61 \<or> d0 = 47 \<and> at0 w0 = 62")
    case True
    then have "xscan st0 = Some (xtake 1 EqualsSign st0) \<or> xscan st0 = Some (xtake 2 EmptyTagEnd st0)"
      using st0(1) by (auto simp: xscan_def Let_def)
    then show ?thesis
      using st0(2) by (auto simp: xtake_def)
  next
    case False
    then have x: "xscan st0 = Some (xname_token st0)"
      using st0(1) n by (auto simp: xscan_def Let_def)
    show ?thesis
    proof (cases "name_char d0")
      case True
      then show ?thesis
        using x st0 by (simp add: xname_token_def Let_def exI [of _ True])
    next
      case no: False
      have "d0 = 47"
      proof -
        have "\<not> c_isSpace d0"
          using u(2) by (auto simp: c_isSpace_def d0_def)
        then show ?thesis
          using no n False by (auto simp: name_char_def)
      qed
      then have "t = ?u"
        using u(1,3) by (cases t) (auto simp: d0_def split: if_splits)
      then have "xptr (xcur st0) = xptr (xcur st)"
        using st0(1) e assms(2) by simp
      then show ?thesis
        using x st0 no by (auto simp: xname_token_def xsyntaxError_def Let_def)
    qed
  qed
qed

lemma split_unique: "u @ c # r = v @ c # q \<Longrightarrow> c \<notin> set u \<Longrightarrow> c \<notin> set v \<Longrightarrow> u = v \<and> r = q"
proof (induction u arbitrary: v)
  case Nil
  then show ?case by (cases v) auto
next
  case (Cons a u)
  then show ?case by (cases v) auto
qed

lemma read_text:
  assumes "inside (xptr (xcur st))" "xptr (xcur st) = escaped_all t @ 60 # rest" "0 \<notin> set t"
  shows "\<exists>st1. parseText st = Some (True, st1, t) \<and> xptr (xcur st1) = 60 # rest \<and> inside (60 # rest)"
proof -
  obtain b st1 x where p: "parseText st = Some (b, st1, x)" "inside (xptr (xcur st1))"
    "b \<longrightarrow> (\<exists>u. xptr (xcur st) = u @ xptr (xcur st1) \<and> 60 \<notin> set u \<and> hd (xptr (xcur st1)) = 60 \<and> unescapeString u = Some x)"
    "\<not> b \<longrightarrow> 60 \<notin> set (xptr (xcur st))"
    using parseText_ok [OF assms(1)] by blast
  have b
    using p(4) assms(2) by auto
  then obtain u where u: "xptr (xcur st) = u @ xptr (xcur st1)" "60 \<notin> set u" "hd (xptr (xcur st1)) = 60" "unescapeString u = Some x"
    using p(3) by blast
  have n: "60 \<notin> set (escaped_all t)"
  proof
    assume "60 \<in> set (escaped_all t)"
    then show False
      using escaped_set by blast
  qed
  obtain r where r: "xptr (xcur st1) = 60 # r"
    using p(2) u(3) by (cases "xptr (xcur st1)") auto
  have "u @ 60 # r = escaped_all t @ 60 # rest"
    using assms(2) u(1) r by simp
  then have "u = escaped_all t \<and> r = rest"
    by (rule split_unique [OF _ u(2) n])
  then have "x = t" "r = rest"
    using u(4) unescape_escapeString [OF assms(3)] by simp_all
  then show ?thesis
    using p(1,2) \<open>b\<close> r by (intro exI [of _ st1]) simp
qed

subsection \<open>Texts behind comments\<close>

text \<open>The body of a comment, and a first byte of a text that the scanner takes for a token other than a tag or a string.\<close>

definition comment_body :: "byte list \<Rightarrow> bool" where
  "comment_body b \<longleftrightarrow> 0 \<notin> set b \<and> (\<nexists>u v. b = u @ lit ''-->'' @ v)"

definition plain_begin :: "byte \<Rightarrow> bool" where
  "plain_begin c \<longleftrightarrow> c \<notin> {0, 34, 39, 47, 60} \<and> \<not> c_isSpace c"

lemma comment_body_drop: "comment_body (u @ b) \<Longrightarrow> comment_body b"
  unfolding comment_body_def by (metis append.assoc in_set_conv_decomp set_append UnI2)

lemma comment_mid:
  assumes "comment_body (45 # w)"
  shows "c_compare_n (w @ 45 # 45 # 62 # x) (lit ''->'') 2 \<noteq> 0"
proof
  assume a: "c_compare_n (w @ 45 # 45 # 62 # x) (lit ''->'') 2 = 0"
  have "length (lit ''->'') = 2" "0 \<notin> set (lit ''->'')"
    by simp_all
  with a obtain v where "w @ 45 # 45 # 62 # x = lit ''->'' @ v"
    using compare_prefix [of "w @ 45 # 45 # 62 # x" "lit ''->''"] by (simp only:) blast
  then have v: "w @ 45 # 45 # 62 # x = 45 # 62 # v"
    by simp
  then obtain w' where "w = 45 # 62 # w'"
    by (cases w; cases "tl w") auto
  then have "45 # w = [] @ lit ''-->'' @ w'"
    by simp
  then show False
    using assms unfolding comment_body_def by blast
qed

lemma comment_closed:
  "comment_body b \<Longrightarrow> \<exists>pos. comment_loop line (b @ 45 # 45 # 62 # x) ls = Some (True, pos) \<and> xptr pos = x"
proof (induction b arbitrary: line ls rule: length_induct)
  case (1 b)
  define u where "u = takeWhile (\<lambda>c. c \<notin> {45, 10, 13}) b"
  define v where "v = dropWhile (\<lambda>c. c \<notin> {45, 10, 13}) b"
  have b: "b = u @ v"
    by (simp add: u_def v_def)
  have chars: "set (cstr [of_char CHR ''-'', 10, 13]) = {45, 10, 13}"
    by simp
  have "0 \<notin> set b"
    using 1(2) by (simp add: comment_body_def)
  then have u: "0 \<notin> set u" "\<forall>y\<in>set u. y \<notin> set (cstr [of_char CHR ''-'', 10, 13])"
    unfolding chars using set_takeWhileD unfolding u_def by fast+
  have found: "str_findOneOf (b @ 45 # 45 # 62 # x) [of_char CHR ''-'', 10, 13] = Some (length u)"
    if "v @ 45 # 45 # 62 # x = c # r" "c \<in> {45, 10, 13}" for c r
    unfolding b append_assoc that(1) by (rule findOneOf_at [OF u]) (use that(2) in auto)
  show ?case
  proof (cases v)
    case Nil
    have "c_compare_n (45 # 62 # x) (lit ''->'') 2 = 0"
      by (simp add: compare_numeral at0_def)
    then show ?thesis
      using found [of 45] b Nil by (simp add: comment_loop.simps [of line "u @ _"])
  next
    case (Cons c w)
    then have c: "c \<in> {45, 10, 13}"
      using hd_dropWhile [of "\<lambda>c. c \<notin> {45, 10, 13}" b] unfolding v_def by (metis list.distinct(1) list.sel(1))
    define q where "q = w @ 45 # 45 # 62 # x"
    have drop: "drop (length u) (b @ 45 # 45 # 62 # x) = c # q"
      using b Cons by (simp add: q_def)
    have f: "str_findOneOf (b @ 45 # 45 # 62 # x) [45, 10, 13] = Some (length u)"
      using found [of c] c Cons by simp
    have w: "comment_body w" "length w < length b"
      using 1(2) b Cons comment_body_drop [of "u @ [c]" w] by simp_all
    show ?thesis
    proof (cases "c = 45")
      case True
      have "comment_body (45 # w)"
        using 1(2) b Cons True comment_body_drop by simp
      then have "comment_loop line (b @ 45 # 45 # 62 # x) ls = comment_loop line q ls"
        using comment_mid [of w x] True by (simp add: comment_loop.simps [of line "b @ _"] f drop Let_def q_def del: drop_append)
      then show ?thesis
        using 1(1) w unfolding q_def by simp
    next
      case False
      then have nl: "c = 13 \<or> c = 10"
        using c by blast
      have "\<exists>pos b'. newline line (c # q) = Some pos \<and> xptr pos = b' @ 45 # 45 # 62 # x \<and> comment_body b' \<and> length b' < length b"
      proof (cases "c = 13 \<and> w \<noteq> [] \<and> hd w = 10")
        case True
        then obtain w' where "w = 10 # w'"
          by (cases w) auto
        then show ?thesis
          using True w comment_body_drop [of "[10]" w'] by (intro exI [of _ "\<lparr>xline = line + 1, xptr = w' @ 45 # 45 # 62 # x, xlineStart = w' @ 45 # 45 # 62 # x\<rparr>"] exI [of _ w'])
             (simp add: newline_def q_def Let_def)
      next
        case no: False
        then show ?thesis
          using nl w by (intro exI [of _ "\<lparr>xline = line + 1, xptr = q, xlineStart = q\<rparr>"] exI [of _ w])
             (cases w; auto simp: newline_def q_def Let_def)
      qed
      then obtain pos b' where p: "newline line (c # q) = Some pos" "xptr pos = b' @ 45 # 45 # 62 # x" "comment_body b'" "length b' < length b"
        by (elim exE conjE) (rule that)
      then have "comment_loop line (b @ 45 # 45 # 62 # x) ls = comment_loop (xline pos) (xptr pos) (xlineStart pos)"
        using nl by (simp add: comment_loop.simps [of line "b @ _"] f drop Let_def del: drop_append)
      then show ?thesis
        using 1(1) p by simp
    qed
  qed
qed

text \<open>Behind a comment the scanner reads a token of the text.\<close>

lemma text_token:
  assumes "xptr (xcur st) = lit ''<!--'' @ b @ lit ''-->'' @ c # r" "comment_body b" "plain_begin c"
  shows "\<exists>st1. xreadToken st = Some (True, st1) \<and> xtok st1 \<notin> {StartTagBegin, EndTagBegin}"
proof -
  have c: "c \<noteq> 60" "c \<noteq> 13" "c \<noteq> 10" "\<not> c_isSpace c"
    using assms(3) by (auto simp: plain_begin_def c_isSpace_def)
  obtain pos where pos: "comment_loop (xline (xcur st)) (b @ 45 # 45 # 62 # c # r) (xlineStart (xcur st)) = Some (True, pos)" "xptr pos = c # r"
    using comment_closed [OF assms(2)] by blast
  have "c_compare_n (33 # 45 # 45 # z) (lit ''!--'') 3 = 0" for z
    by (simp add: compare_numeral at0_def)
  then have "xskipSpace (xline (xcur st)) (xptr (xcur st)) (xlineStart (xcur st)) = xskipSpace (xline pos) (c # r) (xlineStart pos)"
    using pos by (subst xskipSpace.simps) (simp add: assms(1))
  also have "\<dots> = Some \<lparr>xline = xline pos, xptr = c # r, xlineStart = xlineStart pos\<rparr>"
    using c by (subst xskipSpace.simps) simp
  finally obtain st0 where st0: "xreadToken st = xscan st0" "xptr (xcur st0) = c # r"
    by (simp add: xreadToken_def xskip_def)
  show ?thesis
  proof (cases "c = 62 \<or> c = 61")
    case True
    then show ?thesis
      using st0 by (auto simp: xscan_def xtake_def Let_def)
  next
    case False
    then have "name_char c"
      using assms(3) by (auto simp: plain_begin_def name_char_def)
    then show ?thesis
      using st0 False assms(3) by (auto simp: xscan_def xname_token_def Let_def plain_begin_def)
  qed
qed

text \<open>From there the loop over the content goes back to the comment.\<close>

lemma comment_hangs:
  assumes "comment_body b" "plain_begin c"
  shows "xptr (xcur st) = lit ''<!--'' @ b @ lit ''-->'' @ c # r \<Longrightarrow> content_loop n pe st e = Exhausted"
proof (induction n arbitrary: st e)
  case (Suc n)
  obtain st1 where t: "xreadToken st = Some (True, st1)" "xtok st1 \<notin> {StartTagBegin, EndTagBegin}"
    using text_token [OF Suc.prems assms] by blast
  have "\<exists>st2. parseText (st1\<lparr>xcur := xcur st\<rparr>) = Some (True, st2, []) \<and> xptr (xcur st2) = xptr (xcur st)"
    by (simp add: parseText_def Suc.prems text_loop.simps [of _ "_ # _"] str_findOneOf_def unescapeString_def Let_def)
  then obtain st2 where "parseText (st1\<lparr>xcur := xcur st\<rparr>) = Some (True, st2, [])" "xptr (xcur st2) = xptr (xcur st)"
    by blast
  then show ?case
    using t Suc by simp
qed simp

lemma document_hangs:
  assumes "name_ok name" "hd name \<noteq> 33" "hd name \<noteq> 63" "comment_body b" "plain_begin c"
  shows "xml_parse k (60 # name @ 62 # lit ''<!--'' @ b @ lit ''-->'' @ c # r) e = Exhausted"
proof -
  define t where "t = lit ''<!--'' @ b @ lit ''-->'' @ c # cstr r @ [0]"
  define data where "data = 60 # name @ 62 # lit ''<!--'' @ b @ lit ''-->'' @ c # r"
  have z: "0 \<notin> set name" "0 \<notin> set b" "c \<noteq> 0"
    using assms(1,4,5) by (auto simp: name_ok_def name_char_def comment_body_def plain_begin_def)
  obtain d w where n: "name = d # w" "name_char d" "d \<notin> {60, 34, 39, 33, 63}"
    using assms(1-3) by (cases name) (auto simp: name_ok_def)
  have cstr: "cstr (u @ v) = u @ cstr v" if "0 \<notin> set u" for u v
    using that by (induction u) auto
  have data: "cstr data @ [0] = 60 # name @ 62 # t"
    using z cstr [of name] cstr [of b] by (simp add: data_def t_def)
  have d: "d \<noteq> 47" "d \<noteq> 0" "d \<noteq> 33"
    using n by (auto simp: name_char_def)
  have i: "inside (60 # name @ 62 # t)"
    unfolding inside_def data [symmetric] using cstr_nonzero by blast
  define st where "st = xml_start (cstr data)"
  have st: "xptr (xcur st) = 60 # name @ 62 # t" "inside (xptr (xcur st))"
    using data i by (simp_all add: st_def xml_start_def Let_def)
  have "\<not> comment_at (60 # name @ 62 # t)"
    using n d by (auto simp: comment_at_def compare_numeral at0_def word_uint_eq_iff)
  moreover have "\<not> c_isSpace 60"
    by (simp add: c_isSpace_def)
  ultimately obtain pos where pos: "xskipSpace (xline (xcur st)) (xptr (xcur st)) (xlineStart (xcur st)) = Some pos" "xptr pos = 60 # name @ 62 # t"
    using xskipSpace_plain [OF st(2)] st(1) by auto
  define st0 where "st0 = st\<lparr>xcur := pos\<rparr>"
  have st0: "xskip st = Some st0" "xptr (xcur st0) = 60 # d # w @ 62 # t" "inside (xptr (xcur st0))"
    using pos i n(1) by (simp_all add: xskip_def st0_def)
  have ins: "instructions (xcur st0) = Some (Inr (xcur st0))"
    using n st0(2) by (subst instructions.simps) (simp add: at0_def)
  obtain st1 where st1: "reads st0 StartTagBegin (d # w @ 62 # t) st1"
    using read_symbols(5) [OF st0(3,2) d(1,3,2)] by blast
  have "\<not> name_char 62"
    by (simp add: name_char_def)
  then obtain st2 where st2: "reads st1 NameType (62 # t) st2"
    using read_name [of st1 "[]" name 62 t] st1 n(1) assms(1) by (auto simp: reads_def)
  obtain st3 where st3: "reads st2 TagEnd t st3"
    using read_symbols(1) [of st2 t] st2 by (auto simp: reads_def)
  have "content_loop n pe st3 e1 = Exhausted" for n pe e1
    using comment_hangs [OF assms(4,5)] st3 by (simp add: reads_def t_def)
  moreover have "xml_private_parse k (cstr data) e = parseElement k st1 e"
    using st0(1) ins st1 by (simp add: xml_private_parse_def st_def [symmetric] after_token_def reads_def)
  moreover have "parseElement k st1 e = Exhausted" if "\<And>n pe e1. content_loop n pe st3 e1 = Exhausted"
  proof (cases k)
    case (Suc n)
    then show ?thesis
      using st2 st3 that by (cases n) (simp_all add: after_token_def reads_def Let_def)
  qed simp
  ultimately have "xml_parse k data e = Exhausted"
    by (simp add: xml_parse_def)
  then show ?thesis
    by (simp add: data_def)
qed

subsection \<open>Elements\<close>

lemma put_new: "k \<notin> fst ` set m \<Longrightarrow> map_put k v m = m @ [(k, v)]"
  by (induction m) auto

definition with_attributes :: "(byte list \<times> byte list) list \<Rightarrow> xelement \<Rightarrow> xelement" where
  "with_attributes as e = Element (eline e) (ecolumn e) (etype e) (eattributes e @ as) (econtent e)"

lemma with_attributes_simps [simp]:
  "with_attributes [] e = e" "etype (with_attributes as e) = etype e" "econtent (with_attributes as e) = econtent e"
  "k \<notin> fst ` set (eattributes e) \<Longrightarrow> with_attributes as (add_attribute k v e) = with_attributes ((k, v) # as) e"
  by (simp_all add: with_attributes_def add_attribute_def put_new)

lemma parse_attributes:
  "inside (xptr (xcur st)) \<Longrightarrow> xptr (xcur st) = attributes_print as @ rest \<Longrightarrow> attributes_ok as \<Longrightarrow>
     fst ` set as \<inter> fst ` set (eattributes e) = {} \<Longrightarrow>
     \<exists>st1. attribute_loop (length as + n) k st e = attribute_loop n k st1 (with_attributes as e)
       \<and> xptr (xcur st1) = rest \<and> inside rest"
proof (induction as arbitrary: st e)
  case Nil
  then show ?case by (auto simp: attributes_print_def)
next
  case (Cons a as)
  obtain key val where a: "a = (key, val)" by (cases a)
  have ok: "name_ok key" "0 \<notin> set val" "10 \<notin> set val" "13 \<notin> set val" "attributes_ok as" "key \<notin> fst ` set as"
    using Cons.prems(3) a by (auto simp: attributes_ok_def)
  have p: "xptr (xcur st) = [32] @ key @ 61 # 34 # escaped_all val @ 34 # attributes_print as @ rest"
    using Cons.prems(2) a by (simp add: attributes_print_def)
  have c: "c_isSpace 32" "\<not> name_char 61"
    by (simp_all add: c_isSpace_def name_char_def)
  obtain st1 where st1: "reads st NameType (61 # 34 # escaped_all val @ 34 # attributes_print as @ rest) st1" "xvalue st1 = key"
    using read_name [OF Cons.prems(1) p _ ok(1) c(2)] c(1) by auto
  then obtain st2 where st2: "reads st1 EqualsSign (34 # escaped_all val @ 34 # attributes_print as @ rest) st2"
    using read_symbols(2) [of st1] by (auto simp: reads_def)
  then obtain st3 where st3: "reads st2 StringType (attributes_print as @ rest) st3" "xvalue st3 = val"
    using read_string [of st2 val] ok by (auto simp: reads_def)
  have "\<exists>st4. attribute_loop (length as + n) k st3 (add_attribute key val e) = attribute_loop n k st4 (with_attributes as (add_attribute key val e))
    \<and> xptr (xcur st4) = rest \<and> inside rest"
    by (rule Cons.IH [OF _ _ ok(5)]) (use st3 Cons.prems(4) a ok(6) in \<open>auto simp: reads_def add_attribute_def put_new\<close>)
  moreover have "attribute_loop (length (a # as) + n) k st e = attribute_loop (length as + n) k st3 (add_attribute key val e)"
    using st1 st2 st3 by (simp add: reads_def after_token_def)
  moreover have "with_attributes as (add_attribute key val e) = with_attributes (a # as) e"
    using Cons.prems(4) a by simp
  ultimately show ?case
    by simp
qed

text \<open>Enough fuel for an element.\<close>

fun fuel_element :: "xelement \<Rightarrow> nat"
  and fuel_contents :: "xvariant list \<Rightarrow> nat" where
  "fuel_element (Element l c type as vs) = 2 + length as + fuel_contents vs"
| "fuel_contents [] = 1"
| "fuel_contents (XNull # vs) = 1 + fuel_contents vs"
| "fuel_contents (XElement e # vs) = 1 + fuel_element e + fuel_contents vs"
| "fuel_contents (XText t # vs) = 1 + fuel_contents vs"

lemma print_length:
  "element_ok e \<Longrightarrow> fuel_element e < length (element_print e)" "contents_ok vs \<Longrightarrow> fuel_contents vs \<le> length (contents_print vs) + 1"
proof (induction e and vs rule: element_ok_contents_ok.induct)
  case (1 l c type as vs)
  have "length as \<le> length (attributes_print as)"
    by (induction as) (auto simp: attributes_print_def)
  moreover have "1 \<le> length type"
    using 1 by (cases type) (auto simp: name_ok_def)
  ultimately show ?case
    using 1 by (cases "vs = []") auto
next
  case (5 t vs)
  then have "t \<noteq> []"
    by (auto simp: text_ok_def)
  then have "1 \<le> length t"
    by (cases t) auto
  then have "1 \<le> length (escaped_all t)"
    using escaped_length [of t] by linarith
  then show ?case
    using 5 by simp
qed simp_all

definition with_contents :: "xvariant list \<Rightarrow> xelement \<Rightarrow> xelement" where
  "with_contents vs e = Element (eline e) (ecolumn e) (etype e) (eattributes e) (econtent e @ vs)"

lemma with_contents_simps [simp]:
  "with_contents [] e = e" "with_contents vs (add_content v e) = with_contents (v # vs) e" "etype (add_content v e) = etype e"
  by (simp_all add: with_contents_def add_content_def)

lemma parse_end:
  assumes "inside (xptr (xcur st))" "xptr (xcur st) = etype e @ 62 # rest" "name_ok (etype e)"
  shows "\<exists>st1. end_tag st e = Returns True st1 e \<and> xptr (xcur st1) = rest \<and> inside rest"
proof -
  have "\<not> name_char 62"
    by (simp add: name_char_def)
  then obtain st1 where st1: "reads st NameType (62 # rest) st1" "xvalue st1 = etype e"
    using read_name [OF assms(1), where ws = "[]" and name = "etype e" and c = 62] assms(2,3) by auto
  then obtain st2 where "reads st1 TagEnd rest st2"
    using read_symbols(1) [of st1] by (auto simp: reads_def)
  then show ?thesis
    using st1 by (auto simp: reads_def end_tag_def after_token_def)
qed

text \<open>Contents always are followed by \<^verbatim>\<open></\<close>, and an element begins with \<^verbatim>\<open><\<close> and a name.\<close>

lemma element_begins:
  assumes "element_ok e"
  obtains c p where "element_print e = 60 # c # p" "c \<noteq> 47" "c \<noteq> 33" "c \<noteq> 0" "c \<noteq> 63"
proof (cases e)
  case (Element l col type as vs)
  then obtain c w where "type = c # w" "name_char c" "c \<noteq> 33" "c \<noteq> 63"
    using assms by (cases type) (auto simp: name_ok_def)
  then show ?thesis
    using that [of c] Element by (simp add: name_char_def)
qed

lemma contents_begin:
  assumes "contents_ok vs" "\<not> text_first vs"
  shows "\<exists>r. contents_print vs @ 60 # 47 # q = 60 # r"
proof (cases vs)
  case (Cons v vs')
  then obtain e where e: "v = XElement e" "element_ok e"
    using assms by (cases v) auto
  from element_begins [OF e(2)] show ?thesis
    using Cons e(1) by (metis append_Cons append_assoc contents_print.simps(3))
qed simp

definition parses :: "nat \<Rightarrow> xelement \<Rightarrow> bool" where
  "parses n e \<longleftrightarrow>
     (\<forall>st rest. inside (xptr (xcur st)) \<and> xptr (xcur st) = tl (element_print e) @ rest \<longrightarrow>
        (\<exists>st1 e1. parseElement n st fresh_element = Returns True st1 e1 \<and> strip_element e1 = strip_element e
           \<and> xptr (xcur st1) = rest \<and> inside rest))"

lemma parse_contents:
  "contents_ok vs \<Longrightarrow> (\<And>e. XElement e \<in> set vs \<Longrightarrow> parses m e) \<Longrightarrow> length vs < n \<Longrightarrow>
     inside (xptr (xcur st)) \<Longrightarrow> xptr (xcur st) = contents_print vs @ 60 # 47 # etype e0 @ 62 # rest \<Longrightarrow> name_ok (etype e0) \<Longrightarrow>
     \<exists>st1 ws. content_loop n (\<lambda>st2. parseElement m st2 fresh_element) st e0 = Returns True st1 (with_contents ws e0)
       \<and> strip_contents ws = strip_contents vs \<and> xptr (xcur st1) = rest \<and> inside rest"
proof (induction vs arbitrary: n st e0)
  case Nil
  then obtain n' where n: "n = Suc n'"
    by (cases n) auto
  obtain st1 where st1: "reads st EndTagBegin (etype e0 @ 62 # rest) st1"
    using read_symbols(4) [OF Nil.prems(4)] Nil.prems(5) by auto
  then obtain st2 where "end_tag st1 e0 = Returns True st2 e0" "xptr (xcur st2) = rest" "inside rest"
    using parse_end [of st1 e0 rest] Nil.prems(6) by (auto simp: reads_def)
  then show ?case
    using st1 n by (intro exI [of _ st2] exI [of _ "[]"]) (simp add: reads_def)
next
  case (Cons v vs)
  obtain n' where n: "n = Suc n'" "length vs < n'"
    using Cons.prems(3) by (cases n) auto
  let ?q = "etype e0 @ 62 # rest"
  show ?case
  proof (cases v)
    case XNull
    then show ?thesis using Cons.prems(1) by simp
  next
    case (XElement e)
    then have ok: "element_ok e" "contents_ok vs" "parses m e"
      using Cons.prems(1,2) by auto
    obtain c p where c: "element_print e = 60 # c # p" "c \<noteq> 47" "c \<noteq> 33" "c \<noteq> 0"
      using element_begins [OF ok(1)] by metis
    have "xptr (xcur st) = 60 # c # p @ contents_print vs @ 60 # 47 # ?q"
      using Cons.prems(5) XElement c(1) by simp
    then obtain st1 where st1: "reads st StartTagBegin (c # p @ contents_print vs @ 60 # 47 # ?q) st1"
      using read_symbols(5) [OF Cons.prems(4)] c by blast
    moreover have "inside (xptr (xcur st1)) \<and> xptr (xcur st1) = tl (element_print e) @ contents_print vs @ 60 # 47 # ?q"
      using st1 c(1) by (simp add: reads_def)
    then obtain st2 e1 where st2: "parseElement m st1 fresh_element = Returns True st2 e1" "strip_element e1 = strip_element e"
      "xptr (xcur st2) = contents_print vs @ 60 # 47 # ?q" "inside (contents_print vs @ 60 # 47 # ?q)"
      using ok(3) unfolding parses_def by blast
    have "\<exists>st3 ws. content_loop n' (\<lambda>st2. parseElement m st2 fresh_element) st2 (add_content (XElement e1) e0)
        = Returns True st3 (with_contents ws (add_content (XElement e1) e0))
      \<and> strip_contents ws = strip_contents vs \<and> xptr (xcur st3) = rest \<and> inside rest"
      by (rule Cons.IH [OF ok(2) _ n(2)]) (use Cons.prems st2 in simp_all)
    then obtain st3 ws where "content_loop n' (\<lambda>st2. parseElement m st2 fresh_element) st2 (add_content (XElement e1) e0)
        = Returns True st3 (with_contents ws (add_content (XElement e1) e0))"
      "strip_contents ws = strip_contents vs" "xptr (xcur st3) = rest" "inside rest"
      by blast
    ultimately show ?thesis
      using n(1) XElement st2(1,2) by (intro exI [of _ st3] exI [of _ "XElement e1 # ws"]) (simp add: reads_def)
  next
    case (XText t)
    then have ok: "text_ok t" "contents_ok vs" "\<not> text_first vs" "0 \<notin> set t"
      using Cons.prems(1) by (auto simp: text_ok_def)
    obtain r where r: "contents_print vs @ 60 # 47 # ?q = 60 # r"
      using contents_begin [OF ok(2,3)] by blast
    then have p: "xptr (xcur st) = escaped_all t @ 60 # r"
      using Cons.prems(5) XText by simp
    obtain b st1 where st1: "xreadToken st = Some (b, st1)" "\<not> (b \<and> (xtok st1 = StartTagBegin \<or> xtok st1 = EndTagBegin))"
      "\<not> b \<longrightarrow> xptr (xcur st1) = xptr (xcur st)"
      using read_no_tag [OF Cons.prems(4) p ok(1)] by blast
    let ?st = "if b then st1\<lparr>xcur := xcur st\<rparr> else st1"
    have "xptr (xcur ?st) = escaped_all t @ 60 # r"
      using st1(3) p by simp
    then obtain st2 where st2: "parseText ?st = Some (True, st2, t)" "xptr (xcur st2) = 60 # r" "inside (60 # r)"
      using read_text [of ?st t r] Cons.prems(4) p ok(4) by auto
    have "\<exists>st3 ws. content_loop n' (\<lambda>st2. parseElement m st2 fresh_element) st2 (add_content (XText t) e0)
        = Returns True st3 (with_contents ws (add_content (XText t) e0))
      \<and> strip_contents ws = strip_contents vs \<and> xptr (xcur st3) = rest \<and> inside rest"
      by (rule Cons.IH [OF ok(2) _ n(2)]) (use Cons.prems st2 r in simp_all)
    then obtain st3 ws where "content_loop n' (\<lambda>st2. parseElement m st2 fresh_element) st2 (add_content (XText t) e0)
        = Returns True st3 (with_contents ws (add_content (XText t) e0))"
      "strip_contents ws = strip_contents vs" "xptr (xcur st3) = rest" "inside rest"
      by blast
    then show ?thesis
      using n(1) XText st1(1,2) st2(1) by (intro exI [of _ st3] exI [of _ "XText t # ws"]) auto
  qed
qed

lemma fuel_contents_length: "length vs < fuel_contents vs" "XElement e \<in> set vs \<Longrightarrow> fuel_element e < fuel_contents vs"
proof -
  show "length vs < fuel_contents vs"
  proof (induction vs)
    case (Cons v vs)
    then show ?case by (cases v) simp_all
  qed simp
  show "XElement e \<in> set vs \<Longrightarrow> fuel_element e < fuel_contents vs"
  proof (induction vs)
    case (Cons v vs)
    then show ?case by (cases v) auto
  qed simp
qed

lemma contents_elements: "contents_ok vs \<Longrightarrow> XElement e \<in> set vs \<Longrightarrow> element_ok e"
proof (induction vs)
  case (Cons v vs)
  then show ?case by (cases v) auto
qed simp

lemma parse_element: "element_ok e \<Longrightarrow> fuel_element e \<le> n \<Longrightarrow> parses n e"
proof (induction n arbitrary: e)
  case 0
  then show ?case by (cases e) simp
next
  case (Suc n)
  obtain l c type as vs where e: "e = Element l c type as vs"
    by (cases e)
  have ok: "name_ok type" "attributes_ok as" "contents_ok vs" "length as + fuel_contents vs < n"
    using Suc.prems e by auto
  let ?fin = "if vs = [] then [47, 62] else 62 # contents_print vs @ 60 # 47 # type @ [62]"
  show ?case
    unfolding parses_def
  proof (intro allI impI)
    fix st :: xstate and rest :: ptr
    assume a: "inside (xptr (xcur st)) \<and> xptr (xcur st) = tl (element_print e) @ rest"
    then have st: "inside (xptr (xcur st))"
      by blast
    have p: "xptr (xcur st) = type @ attributes_print as @ ?fin @ rest"
      using a e by simp
    have nc: "\<not> name_char 32" "\<not> name_char 47" "\<not> name_char 62"
      by (simp_all add: name_char_def c_isSpace_def)
    obtain d r where d: "attributes_print as @ ?fin @ rest = d # r" "\<not> name_char d"
      using nc by (cases as; cases "vs = []") (auto simp: attributes_print_def)
    obtain st1 where st1: "reads st NameType (d # r) st1" "xvalue st1 = type"
      using read_name [OF st, where ws = "[]" and name = type and c = d and rest = r] p d ok(1) by auto
    define e1 where "e1 = set_type (xvalue st1) (at_token st fresh_element)"
    let ?k = "content_loop n (\<lambda>st2. parseElement n st2 fresh_element)"
    have e1: "etype e1 = type" "eattributes e1 = []" "econtent e1 = []"
      by (simp_all add: e1_def set_type_def at_token_def fresh_element_def st1(2))
    have "inside (xptr (xcur st1))" "xptr (xcur st1) = attributes_print as @ ?fin @ rest"
      using st1(1) d(1) by (simp_all add: reads_def)
    from parse_attributes [OF this ok(2), of e1 "n - length as" ?k] e1(2) ok(4)
    obtain st2 where st2: "attribute_loop n ?k st1 e1 = attribute_loop (n - length as) ?k st2 (with_attributes as e1)"
      "xptr (xcur st2) = ?fin @ rest" "inside (?fin @ rest)"
      by auto
    have run: "parseElement (Suc n) st fresh_element = attribute_loop (n - length as) ?k st2 (with_attributes as e1)"
      using st1 st2(1) by (simp add: reads_def after_token_def e1_def)
    obtain m where m: "n - length as = Suc m"
      using ok(4) by (cases "n - length as") auto
    let ?e2 = "with_attributes as e1"
    have strip: "strip_element (with_contents ws ?e2) = strip_element e" if "strip_contents ws = strip_contents vs" for ws
      using that e e1 by (simp add: with_contents_def with_attributes_def)
    show "\<exists>st1 e1. parseElement (Suc n) st fresh_element = Returns True st1 e1 \<and> strip_element e1 = strip_element e
        \<and> xptr (xcur st1) = rest \<and> inside rest"
    proof (cases "vs = []")
      case True
      then obtain st3 where "reads st2 EmptyTagEnd rest st3"
        using read_symbols(3) [of st2 rest] st2(2,3) by auto
      then have "parseElement (Suc n) st fresh_element = Returns True st3 (with_contents [] ?e2)" "xptr (xcur st3) = rest" "inside rest"
        using run m by (simp_all add: reads_def after_token_def)
      then show ?thesis
        using strip [of "[]"] True by (intro exI [of _ st3] exI [of _ "with_contents [] ?e2"] conjI) simp_all
    next
      case False
      let ?q = "contents_print vs @ 60 # 47 # type @ 62 # rest"
      obtain st3 where st3: "reads st2 TagEnd ?q st3"
        using read_symbols(1) [of st2 ?q] st2(2,3) False by auto
      have "\<exists>st4 ws. ?k st3 ?e2 = Returns True st4 (with_contents ws ?e2) \<and> strip_contents ws = strip_contents vs
        \<and> xptr (xcur st4) = rest \<and> inside rest"
      proof (rule parse_contents [OF ok(3)])
        show "parses n e'" if "XElement e' \<in> set vs" for e'
          by (rule Suc.IH [OF contents_elements [OF ok(3) that]]) (use fuel_contents_length(2) [OF that] ok(4) in simp)
        show "length vs < n"
          using fuel_contents_length(1) [of vs] ok(4) by simp
      qed (use st3 e1 ok(1) in \<open>simp_all add: reads_def\<close>)
      moreover have "parseElement (Suc n) st fresh_element = ?k st3 ?e2"
        using run m st3 by (simp add: reads_def after_token_def)
      ultimately show ?thesis
        using strip by metis
    qed
  qed
qed

lemma print_nonzero: "element_ok e \<Longrightarrow> 0 \<notin> set (element_print e)" "contents_ok vs \<Longrightarrow> 0 \<notin> set (contents_print vs)"
proof -
  have name: "0 \<notin> set w" if "name_ok w" for w
    using that name_char_not_zero by (auto simp: name_ok_def)
  have esc: "0 \<notin> set (escaped_all s)" if "0 \<notin> set s" for s
    using escaped_set [of 0 s] that by blast
  have attrs: "0 \<notin> set (attributes_print as)" if "attributes_ok as" for as
    using that name esc unfolding attributes_ok_def attributes_print_def by fastforce
  show "element_ok e \<Longrightarrow> 0 \<notin> set (element_print e)" "contents_ok vs \<Longrightarrow> 0 \<notin> set (contents_print vs)"
  proof (induction e and vs rule: element_ok_contents_ok.induct)
    case (1 l c type as vs)
    then show ?case
      using name [of type] attrs [of as] by simp
  next
    case (5 t vs)
    then show ?case
      using esc [of t] by (simp add: text_ok_def)
  qed simp_all
qed

definition xml_head :: "byte list" where
  "xml_head = lit ''?xml version='' @ [34] @ lit ''1.0'' @ [34] @ lit '' encoding='' @ [34] @ lit ''UTF-8'' @ [34]"

lemma head_plain: "0 \<notin> set xml_head" "63 \<notin> set (tl xml_head)" "13 \<notin> set xml_head" "10 \<notin> set xml_head" "hd xml_head = 63"
  by (simp_all add: xml_head_def)

lemma toString_eq: "xml_toString e = Some (60 # xml_head @ [63, 62, 10] @ element_print e)"
  by (simp add: xml_toString_def xml_head_def element_text_eq)

lemma head_skipped:
  assumes "element_ok e" "xptr pos = 60 # xml_head @ [63, 62, 10] @ element_print e @ [0]"
  shows "\<exists>pos1. instructions pos = Some (Inr pos1) \<and> xptr pos1 = element_print e @ [0]"
proof -
  let ?r = "10 # element_print e @ [0]"
  obtain c p where c: "element_print e = 60 # c # p" "c \<noteq> 47" "c \<noteq> 33" "c \<noteq> 0" "c \<noteq> 63"
    using element_begins [OF assms(1)] by metis
  have h: "xml_head = 63 # tl xml_head"
    by (simp add: xml_head_def)
  have "str_findOneOf (tl xml_head @ 63 # 62 # ?r) [13, 10, 63] = Some (length (tl xml_head))"
    by (rule findOneOf_at) (use head_plain h in \<open>auto dest: list.set_sel(2) [rotated]\<close>)
  then have "instruction_loop (pos\<lparr>xptr := tl xml_head @ 63 # 62 # ?r\<rparr>) = Some (Inr (pos\<lparr>xptr := ?r\<rparr>))"
    by (subst instruction_loop.simps) (simp add: at0_def numeral_2_eq_2)
  moreover have "inside ?r"
    using print_nonzero(1) [OF assms(1)] by (auto simp: inside_def)
  moreover have d: "dropWhile c_isSpace ?r = element_print e @ [0]"
    using c(1) by (simp add: c_isSpace_def)
  moreover have "\<not> comment_at (element_print e @ [0])"
    using c by (auto simp: comment_at_def compare_numeral at0_def word_uint_eq_iff)
  ultimately obtain pos1 where pos1: "instruction_loop (pos\<lparr>xptr := tl xml_head @ 63 # 62 # ?r\<rparr>) = Some (Inr (pos\<lparr>xptr := ?r\<rparr>))"
    "xskipSpace (xline pos) ?r (xlineStart pos) = Some pos1" "xptr pos1 = element_print e @ [0]"
    using xskipSpace_plain [of ?r "xline pos" "xlineStart pos"] by auto
  have "drop 2 (xptr pos) = tl xml_head @ 63 # 62 # ?r" "at0 (xptr pos) = 60" "at0 (tl (xptr pos)) = 63"
    using assms(2) h by (metis append_Cons append_Nil drop0 drop_Suc_Cons numeral_2_eq_2, simp_all add: at0_def xml_head_def)
  moreover have "instructions pos1 = Some (Inr pos1)"
    using pos1(3) c by (subst instructions.simps) (simp add: at0_def)
  ultimately show ?thesis
    using pos1 by (subst instructions.simps) simp
qed

text \<open>C26. On a document without comments the parser always ends: fuel for two more calls than the text has
  bytes is enough. But when the content of an element, at its beginning or behind a text or an inner element, goes on with a comment
  that a text follows, no fuel is enough: the parser goes back to the beginning of the comment, adds an empty text and starts again,
  forever. The first byte of the text may be anything but white space, \<^verbatim>\<open><\<close>, a slash and a quote. So it is for
  every document \<^verbatim>\<open><name><!--...-->\<close> with such a byte behind it.\<close>

theorem xml_parse_terminates:
  "(comment_free (cstr data) \<and> length data + 2 \<le> n \<longrightarrow> xml_parse n data e \<noteq> Exhausted)
    \<and> (name_ok name \<and> hd name \<notin> {33, 63} \<and> comment_body b \<and> plain_begin c \<longrightarrow>
        xml_parse k (60 # name @ 62 # lit ''<!--'' @ b @ lit ''-->'' @ c # r) e = Exhausted)
    \<and> (comment_body b \<and> plain_begin c \<and> xptr (xcur st) = lit ''<!--'' @ b @ lit ''-->'' @ c # r \<longrightarrow>
        content_loop k (\<lambda>st1. parseElement j st1 fresh_element) st e = Exhausted)"
proof (intro conjI impI)
  assume a: "comment_free (cstr data) \<and> length data + 2 \<le> n"
  have "comment_free (cstr data @ [0])"
    unfolding comment_free_def
  proof
    assume "\<exists>u v. cstr data @ [0] = u @ lit ''<!--'' @ v"
    then obtain u v where uv: "cstr data @ [0] = u @ lit ''<!--'' @ v" by blast
    then have "v \<noteq> []"
      by (cases v rule: rev_cases) (auto dest: arg_cong [of _ _ last])
    then obtain w where "v = w @ [0]"
      using uv by (cases v rule: rev_cases) (auto simp: append_eq_append_conv2)
    then show False
      using uv a by (auto simp: comment_free_def)
  qed
  then have start: "good (xml_start (cstr data))"
    by (simp add: good_start)
  obtain st where st: "xskip (xml_start (cstr data)) = Some st" "xptr (xcur st) = dropWhile c_isSpace (xptr (xcur (xml_start (cstr data))))"
    using good_skip [OF start] by blast
  have "xinside st"
    using xskip_ok [of "xml_start (cstr data)"] st(1) by auto
  then have "good st"
    using good_suffix [OF start] st(2) suffix_dropWhile by metis
  have l: "xleft st \<le> length data + 1"
    using st(2) length_dropWhile_le [of c_isSpace "cstr data @ [0]"] cstr_le [of data] by (simp add: xml_start_def Let_def)
  obtain r where r: "instructions (xcur st) = Some r" "\<forall>pos1. r = Inr pos1 \<longrightarrow> inside (xptr pos1)"
    using instructions_ok [OF \<open>xinside st\<close>] by blast
  have "xml_private_parse n (cstr data) e \<noteq> Exhausted"
  proof (cases r)
    case (Inr pos)
    have suf: "suffix (xptr pos) (xptr (xcur st))"
      using instructions_suffix r(1) Inr by blast
    then have "good (st\<lparr>xcur := pos\<rparr>)"
      using good_suffix [OF \<open>good st\<close>, of "st\<lparr>xcur := pos\<rparr>"] r(2) Inr by simp
    moreover have "xleft (st\<lparr>xcur := pos\<rparr>) < n"
      using suffix_length_le [OF suf] l a by simp
    then have "ends n (parseElement n st1 e)" if "good st1" "xleft st1 < xleft (st\<lparr>xcur := pos\<rparr>)" for st1
      using ends_mono [OF parseElement_ends [OF that(1), of n e]] that(2) by simp
    ultimately have "ends n (after_token (xreadToken (st\<lparr>xcur := pos\<rparr>)) e (\<lambda>st1.
        if xtok st1 \<noteq> StartTagBegin then xfails (lit ''Expected '' @ [39, 60, 39]) st1 e else parseElement n st1 e))"
      by (intro ends_token ends_if ends_simps) blast+
    then show ?thesis
      using st(1) r(1) Inr by (simp add: xml_private_parse_def ends_def)
  qed (use st(1) r(1) in \<open>simp add: xml_private_parse_def\<close>)
  then show "xml_parse n data e \<noteq> Exhausted"
    by (auto simp: xml_parse_def split: jout.splits)
next
  assume "name_ok name \<and> hd name \<notin> {33, 63} \<and> comment_body b \<and> plain_begin c"
  then show "xml_parse k (60 # name @ 62 # lit ''<!--'' @ b @ lit ''-->'' @ c # r) e = Exhausted"
    by (intro document_hangs) simp_all
next
  assume "comment_body b \<and> plain_begin c \<and> xptr (xcur st) = lit ''<!--'' @ b @ lit ''-->'' @ c # r"
  then show "content_loop k (\<lambda>st1. parseElement j st1 fresh_element) st e = Exhausted"
    using comment_hangs by blast
qed

text \<open>The first part on an element without content, the second on \<^verbatim>\<open><a><!-- -->t</a>\<close>.\<close>

theorem xml_parse_terminates_witness:
  "xml_parse 6 (lit ''<a/>'') fresh_element \<noteq> Exhausted \<and> xml_parse 9 (lit ''<a><!-- -->t</a>'') fresh_element = Exhausted"
proof -
  have "\<nexists>u v. lit ''<a/>'' = u @ lit ''<!--'' @ v"
    by (auto dest!: arg_cong [of _ _ "\<lambda>s. 33 \<in> set s"])
  moreover have "name_ok [97] \<and> hd [97 :: byte] \<notin> {33, 63}" "plain_begin 116"
    by (simp_all add: name_ok_def name_char_def plain_begin_def c_isSpace_def)
  moreover have "comment_body [32]"
    by (auto simp: comment_body_def dest!: arg_cong [of _ _ "\<lambda>s. 45 \<in> set s"])
  ultimately show ?thesis
    using xml_parse_terminates [of "lit ''<a/>''" 6 fresh_element "[97]" "[32]" 116 9 "lit ''</a>''"]
    by (simp add: comment_free_def)
qed

text \<open>C25. What \<^verbatim>\<open>toString\<close> prints of an element is parsed to the same element again, apart from lines and columns: if names
  are names, keys are different, the values have no line ends, and if every text has more than white space, does not begin with
  white space before a slash and has no other text as its neighbour. Fuel for as many calls as the text has bytes is
  enough.\<close>

theorem xml_roundtrip:
  assumes "element_ok e"
  shows "\<exists>s. xml_toString e = Some s
    \<and> (\<forall>n\<ge>length s. \<exists>e1. xml_parse n s fresh_element = Returns True None e1 \<and> strip_element e1 = strip_element e)"
proof -
  let ?s = "60 # xml_head @ [63, 62, 10] @ element_print e"
  have z: "0 \<notin> set ?s"
    using head_plain(1) print_nonzero(1) [OF assms] by simp
  have "\<exists>e1. xml_parse n ?s fresh_element = Returns True None e1 \<and> strip_element e1 = strip_element e" if n: "length ?s \<le> n" for n
  proof -
    let ?st = "xml_start ?s"
    have p: "xptr (xcur ?st) = ?s @ [0]" "inside (xptr (xcur ?st))"
      using z by (auto simp: xml_start_def Let_def inside_def)
    have "\<not> c_isSpace 60" "\<not> comment_at (?s @ [0])"
      by (simp_all add: c_isSpace_def comment_at_def compare_numeral at0_def xml_head_def)
    then obtain pos where sk: "xskipSpace (xline (xcur ?st)) (xptr (xcur ?st)) (xlineStart (xcur ?st)) = Some pos" "xptr pos = ?s @ [0]"
      using xskipSpace_plain [OF p(2), of "xline (xcur ?st)" "xlineStart (xcur ?st)"] p(1) by auto
    then have pos: "xskip ?st = Some (?st\<lparr>xcur := pos\<rparr>)" "xptr pos = ?s @ [0]"
      by (simp_all add: xskip_def)
    then obtain pos1 where pos1: "instructions pos = Some (Inr pos1)" "xptr pos1 = element_print e @ [0]"
      using head_skipped [OF assms] by auto
    let ?st1 = "?st\<lparr>xcur := pos1\<rparr>"
    have i: "inside (xptr (xcur ?st1))"
      using pos1(2) print_nonzero(1) [OF assms] by (auto simp: inside_def)
    obtain c q where c: "element_print e = 60 # c # q" "c \<noteq> 47" "c \<noteq> 33" "c \<noteq> 0"
      using element_begins [OF assms] by metis
    then obtain st2 where st2: "reads ?st1 StartTagBegin (tl (element_print e) @ [0]) st2"
      using read_symbols(5) [OF i, of c "q @ [0]"] pos1(2) by auto
    have "fuel_element e \<le> n"
      using print_length(1) [OF assms] n by simp
    then have "parses n e"
      by (rule parse_element [OF assms])
    then obtain st3 e1 where "parseElement n st2 fresh_element = Returns True st3 e1" "strip_element e1 = strip_element e"
      using st2 unfolding parses_def reads_def by metis
    moreover from this have "xml_private_parse n ?s fresh_element = Returns True st3 e1"
      using pos(1) pos1(1) st2 by (simp add: xml_private_parse_def reads_def after_token_def)
    ultimately show ?thesis
      using cstr_id [OF z] by (simp add: xml_parse_def)
  qed
  then show ?thesis
    using toString_eq by blast
qed

theorem xml_roundtrip_witness:
  "\<exists>s e1. xml_toString (Element 3 1 (lit ''ab'') [(lit ''x'', lit ''1<2'')] [XText (lit '' a&b''), XElement (Element 0 0 (lit ''c'') [] [])]) = Some s
     \<and> xml_parse (length s) s fresh_element = Returns True None e1
     \<and> strip_element e1 = Element 0 0 (lit ''ab'') [(lit ''x'', lit ''1<2'')] [XText (lit '' a&b''), XElement (Element 0 0 (lit ''c'') [] [])]"
proof -
  let ?e = "Element 3 1 (lit ''ab'') [(lit ''x'', lit ''1<2'')] [XText (lit '' a&b''), XElement (Element 0 0 (lit ''c'') [] [])]"
  have "element_ok ?e"
    by (simp add: name_ok_def name_char_def c_isSpace_def attributes_ok_def text_ok_def)
  from xml_roundtrip [OF this] show ?thesis
    by fastforce
qed

end
