(* ===== verification/Nstd_Queue.thy ===== *)
theory Nstd_Queue
  imports Main "HOL-Library.Word"
begin

unbundle bit_operations_syntax

text \<open>
  \<^verbatim>\<open>LockFreeQueue\<close> of the thread pool (src/Future.cpp): a ring of nodes with two counters each, in which threads
  take places by compare-and-swap, and \<^verbatim>\<open>FastSignal\<close>.

  A thread is inside of a call at a program point, the constructors of \<open>qpc\<close>; \<open>thread_step\<close> does its next access to shared memory.
  The accesses of all threads are interleaved arbitrarily, each of them atomic and seen by all threads at once. An
  object is constructed only where there is none and is read and destroyed only where there is one: everything
  else is \<open>None\<close>. The counters are integers: fewer than \<open>2 ^ 64\<close> calls of \<^verbatim>\<open>push\<close>.
\<close>

section \<open>The queue\<close>

record 'a qnode =
  ndata :: "'a option"
  ntail :: int
  nhead :: int

record 'a queue =
  qcapacity :: int
  qmask :: int
  qnodes :: "int \<Rightarrow> 'a qnode"
  qtail :: int
  qhead :: int

text \<open>The constructor: the mask below the next power of two.\<close>

definition capacity_mask :: "64 word \<Rightarrow> 64 word" where
  "capacity_mask capacity =
     (let m0 = capacity - 1;
          m1 = m0 OR drop_bit 1 m0;
          m2 = m1 OR drop_bit 2 m1;
          m3 = m2 OR drop_bit 4 m2;
          m4 = m3 OR drop_bit 8 m3
      in m4 OR drop_bit 16 m4)"

definition queue_init :: "64 word \<Rightarrow> 'a queue" where
  "queue_init capacity =
     \<lparr>qcapacity = uint (capacity_mask capacity + 1), qmask = uint (capacity_mask capacity),
      qnodes = (\<lambda>i. \<lparr>ndata = None, ntail = i, nhead = - 1\<rparr>), qtail = 0, qhead = 0\<rparr>"

text \<open>\<^verbatim>\<open>size\<close> reads the head first, in the queue \<open>q\<close>, and the tail later, when the queue may have become \<open>q'\<close>.\<close>

definition queue_size :: "'a queue \<Rightarrow> 'a queue \<Rightarrow> int" where
  "queue_size q q' = qtail q' - qhead q"

definition slot :: "'a queue \<Rightarrow> int \<Rightarrow> int" where
  "slot q k = k AND qmask q"

definition node :: "'a queue \<Rightarrow> int \<Rightarrow> 'a qnode" where
  "node q k = qnodes q (slot q k)"

definition set_node :: "int \<Rightarrow> 'a qnode \<Rightarrow> 'a queue \<Rightarrow> 'a queue" where
  "set_node k n q = q\<lparr>qnodes := (qnodes q)(slot q k := n)\<rparr>"

text \<open>The next access of a thread: in \<^verbatim>\<open>push\<close>, reading \<open>_tail\<close>, the check of the node, the compare-and-swap,
  the construction of the object and its publication; in \<^verbatim>\<open>pop\<close> correspondingly, with the copy and the destruction of
  the object.\<close>

datatype 'a qpc =
    Idle
  | PushRead 'a
  | PushCheck 'a int
  | PushSwap 'a int
  | PushWrite 'a int
  | PushPublish int
  | PopRead
  | PopCheck int
  | PopSwap int
  | PopTake int
  | PopDestroy int 'a
  | PopRelease int 'a

text \<open>What a step tells: that it is a call, that it has taken a place in the queue, or that the call has returned.\<close>

datatype 'a qevent =
    Silent
  | CallPush 'a
  | CallPop
  | Enqueued 'a
  | Dequeued
  | ReturnPush bool
  | ReturnEmpty
  | ReturnPop int 'a

fun thread_step :: "'a qpc \<Rightarrow> 'a queue \<Rightarrow> ('a qevent \<times> 'a qpc \<times> 'a queue) option" where
  "thread_step Idle q = None"
| "thread_step (PushRead d) q = Some (Silent, PushCheck d (qtail q), q)"
| "thread_step (PushCheck d tail) q =
     (if ntail (node q tail) \<noteq> tail then Some (ReturnPush False, Idle, q) else Some (Silent, PushSwap d tail, q))"
| "thread_step (PushSwap d tail) q =
     (if qtail q = tail then Some (Enqueued d, PushWrite d tail, q\<lparr>qtail := tail + 1\<rparr>)
      else Some (Silent, PushCheck d (qtail q), q))"
| "thread_step (PushWrite d tail) q =
     (case ndata (node q tail) of
        Some x \<Rightarrow> None
      | None \<Rightarrow> Some (Silent, PushPublish tail, set_node tail ((node q tail)\<lparr>ndata := Some d\<rparr>) q))"
| "thread_step (PushPublish tail) q = Some (ReturnPush True, Idle, set_node tail ((node q tail)\<lparr>nhead := tail\<rparr>) q)"
| "thread_step PopRead q = Some (Silent, PopCheck (qhead q), q)"
| "thread_step (PopCheck head) q =
     (if nhead (node q head) \<noteq> head then Some (ReturnEmpty, Idle, q) else Some (Silent, PopSwap head, q))"
| "thread_step (PopSwap head) q =
     (if qhead q = head then Some (Dequeued, PopTake head, q\<lparr>qhead := head + 1\<rparr>)
      else Some (Silent, PopCheck (qhead q), q))"
| "thread_step (PopTake head) q =
     (case ndata (node q head) of
        None \<Rightarrow> None
      | Some x \<Rightarrow> Some (Silent, PopDestroy head x, q))"
| "thread_step (PopDestroy head x) q =
     (case ndata (node q head) of
        None \<Rightarrow> None
      | Some y \<Rightarrow> Some (Silent, PopRelease head x, set_node head ((node q head)\<lparr>ndata := None\<rparr>) q))"
| "thread_step (PopRelease head x) q =
     Some (ReturnPop head x, Idle, set_node head ((node q head)\<lparr>ntail := head + qcapacity q\<rparr>) q)"

section \<open>Threads\<close>

record 'a qsys =
  squeue :: "'a queue"
  spc :: "nat \<Rightarrow> 'a qpc"

definition sys_init :: "64 word \<Rightarrow> 'a qsys" where
  "sys_init capacity = \<lparr>squeue = queue_init capacity, spc = (\<lambda>t. Idle)\<rparr>"

inductive sys_step :: "'a qsys \<Rightarrow> nat \<Rightarrow> 'a qevent \<Rightarrow> 'a qsys \<Rightarrow> bool" where
  call_push: "spc s t = Idle \<Longrightarrow> sys_step s t (CallPush d) (s\<lparr>spc := (spc s)(t := PushRead d)\<rparr>)"
| call_pop: "spc s t = Idle \<Longrightarrow> sys_step s t CallPop (s\<lparr>spc := (spc s)(t := PopRead)\<rparr>)"
| run: "thread_step (spc s t) (squeue s) = Some (e, pc, q) \<Longrightarrow> sys_step s t e \<lparr>squeue = q, spc = (spc s)(t := pc)\<rparr>"

inductive_cases sys_stepE: "sys_step s t e s'"

text \<open>A run with its events in their order.\<close>

inductive sys_run :: "'a qsys \<Rightarrow> (nat \<times> 'a qevent) list \<Rightarrow> 'a qsys \<Rightarrow> bool" where
  run_none: "sys_run s [] s"
| run_step: "sys_run s tr s1 \<Longrightarrow> sys_step s1 t e s2 \<Longrightarrow> sys_run s (tr @ [(t, e)]) s2"

text \<open>The values in the order in which they have taken their places, the number of places taken by \<^verbatim>\<open>pop\<close>, and the places and
  values that \<^verbatim>\<open>pop\<close> has returned.\<close>

fun enqueued :: "(nat \<times> 'a qevent) list \<Rightarrow> 'a list" where
  "enqueued [] = []"
| "enqueued ((t, Enqueued d) # tr) = d # enqueued tr"
| "enqueued (_ # tr) = enqueued tr"

fun dequeued :: "(nat \<times> 'a qevent) list \<Rightarrow> nat" where
  "dequeued [] = 0"
| "dequeued ((t, Dequeued) # tr) = Suc (dequeued tr)"
| "dequeued (_ # tr) = dequeued tr"

fun returned :: "(nat \<times> 'a qevent) list \<Rightarrow> (int \<times> 'a) list" where
  "returned [] = []"
| "returned ((t, ReturnPop k x) # tr) = (k, x) # returned tr"
| "returned (_ # tr) = returned tr"

section \<open>The signal\<close>

text \<open>\<^verbatim>\<open>FastSignal\<close> over a \<^verbatim>\<open>Signal\<close> that is set or not; \<^verbatim>\<open>wait\<close> of the latter goes on only when it is set.\<close>

record fsignal =
  fstate :: bool
  fset :: bool

datatype fpc =
    Rest
  | SetSwap
  | SetSignal
  | ResetSwap
  | ResetSignal
  | WaitLoad
  | WaitSignal

text \<open>The next access of a thread, \<open>None\<close> when it has to wait.\<close>

fun signal_step :: "fpc \<Rightarrow> fsignal \<Rightarrow> (fpc \<times> fsignal) option" where
  "signal_step Rest f = None"
| "signal_step SetSwap f = Some (if \<not> fstate f then SetSignal else Rest, f\<lparr>fstate := True\<rparr>)"
| "signal_step SetSignal f = Some (Rest, f\<lparr>fset := True\<rparr>)"
| "signal_step ResetSwap f = Some (if fstate f then ResetSignal else Rest, f\<lparr>fstate := False\<rparr>)"
| "signal_step ResetSignal f = Some (Rest, f\<lparr>fset := False\<rparr>)"
| "signal_step WaitLoad f = Some (if fstate f then Rest else WaitSignal, f)"
| "signal_step WaitSignal f = (if fset f then Some (Rest, f) else None)"

inductive fsys_step :: "fsignal \<times> (nat \<Rightarrow> fpc) \<Rightarrow> fsignal \<times> (nat \<Rightarrow> fpc) \<Rightarrow> bool" where
  fcall: "pc t = Rest \<Longrightarrow> p \<in> {SetSwap, ResetSwap, WaitLoad} \<Longrightarrow> fsys_step (f, pc) (f, pc(t := p))"
| frun: "signal_step (pc t) f = Some (p, f1) \<Longrightarrow> fsys_step (f, pc) (f1, pc(t := p))"

end
