(* ===== verification/Nstd_QueueInv.thy ===== *)
theory Nstd_QueueInv
  imports Nstd_Queue
begin

text \<open>
  The invariant of the queue of \<open>Nstd_Queue\<close> under every interleaving of its threads: what holds of the nodes of the
  ring, what each thread knows at its program point, and which places have been returned.
\<close>

section \<open>The ring\<close>

lemma smear_step:
  assumes "\<And>n. bit (y :: 64 word) n \<longleftrightarrow> (\<exists>j<m. bit (x :: 64 word) (n + j))"
  shows "bit (y OR drop_bit m y) n \<longleftrightarrow> (\<exists>j<2 * m. bit x (n + j))"
proof -
  have "(\<exists>j<m. bit x (m + n + j)) \<longleftrightarrow> (\<exists>j<2 * m. m \<le> j \<and> bit x (n + j))"
  proof
    assume "\<exists>j<m. bit x (m + n + j)"
    then obtain j where "j < m" "bit x (m + n + j)" by blast
    then show "\<exists>j<2 * m. m \<le> j \<and> bit x (n + j)"
      by (intro exI [of _ "m + j"]) (simp add: ac_simps)
  next
    assume "\<exists>j<2 * m. m \<le> j \<and> bit x (n + j)"
    then obtain j where "j < 2 * m" "m \<le> j" "bit x (n + j)" by blast
    then show "\<exists>j<m. bit x (m + n + j)"
      by (intro exI [of _ "j - m"]) (auto simp: ac_simps)
  qed
  then have "bit (drop_bit m y) n \<longleftrightarrow> (\<exists>j<2 * m. m \<le> j \<and> bit x (n + j))"
    using assms by (simp add: bit_drop_bit_eq add.commute)
  moreover have "bit y n \<longleftrightarrow> (\<exists>j<2 * m. j < m \<and> bit x (n + j))"
    unfolding assms by (rule ex_cong1) auto
  ultimately show ?thesis
    by (auto simp: bit_or_iff not_less) (meson not_less)
qed

lemma capacity_mask_bit: "bit (capacity_mask c) n \<longleftrightarrow> (\<exists>j<32. bit (c - 1) (n + j))"
proof -
  have 0: "bit (c - 1) n \<longleftrightarrow> (\<exists>j<1. bit (c - 1) (n + j))" for n
    by auto
  note 1 = smear_step [OF 0, simplified]
  note 2 = smear_step [OF 1, simplified]
  note 4 = smear_step [OF 2, simplified]
  note 8 = smear_step [OF 4, simplified]
  note 16 = smear_step [OF 8, simplified]
  show ?thesis
    using 16 [of n] by (simp add: capacity_mask_def Let_def)
qed

lemma capacity_mask_ok:
  assumes "0 < uint c" "uint c \<le> 2 ^ 32"
  shows "\<exists>k\<le>32. uint (capacity_mask c) = 2 ^ k - 1 \<and> uint (capacity_mask c + 1) = 2 ^ k \<and> uint c \<le> 2 ^ k
    \<and> (\<forall>l. uint c \<le> 2 ^ l \<longrightarrow> k \<le> l)"
proof -
  let ?x = "c - 1"
  have x: "uint ?x = uint c - 1"
    using assms(1) uint_sub_lem [of 1 c] by simp
  define k where "k = (LEAST l. uint c \<le> 2 ^ l)"
  have k: "uint c \<le> 2 ^ k" "k \<le> 32"
    unfolding k_def using assms(2) by (rule LeastI, rule Least_le)
  have least: "k \<le> l" if "uint c \<le> 2 ^ l" for l
    unfolding k_def using that by (rule Least_le)
  have b: "bit ?x m \<longleftrightarrow> odd ((uint c - 1) div 2 ^ m)" for m
  proof -
    have "bit ?x m \<longleftrightarrow> bit (uint ?x) m"
      using bit_imp_le_length [of ?x m] by (auto simp: bit_uint_iff)
    then show ?thesis
      by (simp add: x bit_iff_odd)
  qed
  have "capacity_mask c = mask k"
  proof (rule bit_word_eqI)
    fix n
    assume "n < LENGTH(64)"
    show "bit (capacity_mask c) n = bit (mask k :: 64 word) n"
    proof (cases "n < k")
      case True
      have low: "2 ^ (k - 1) \<le> uint c - 1"
        using least [of "k - 1"] True by (cases "uint c \<le> 2 ^ (k - 1)") auto
      have "(uint c - 1) div 2 ^ (k - 1) = 1"
      proof (rule int_div_pos_eq)
        show "uint c - 1 = 2 ^ (k - 1) * 1 + (uint c - 1 - 2 ^ (k - 1))" by simp
        have "(2 :: int) ^ k = 2 * 2 ^ (k - 1)"
          using True by (cases k) simp_all
        then show "uint c - 1 - 2 ^ (k - 1) < 2 ^ (k - 1)"
          using k(1) by simp
      qed (use low in simp)
      then have "bit ?x (n + (k - 1 - n))"
        using True by (simp add: b)
      moreover have "k - 1 - n < 32"
        using k(2) True by simp
      ultimately have "bit (capacity_mask c) n"
        unfolding capacity_mask_bit by blast
      then show ?thesis
        using True k(2) by (simp add: bit_mask_iff)
    next
      case False
      have "\<not> bit ?x (n + j)" for j
      proof -
        have "(2 :: int) ^ k \<le> 2 ^ (n + j)"
          using False by (intro power_increasing) simp_all
        then have "(uint c - 1) div 2 ^ (n + j) = 0"
          using k(1) assms(1) by (intro div_pos_pos_trivial) linarith+
        then show ?thesis
          by (simp add: b)
      qed
      then show ?thesis
        using False by (simp add: capacity_mask_bit bit_mask_iff)
    qed
  qed
  moreover have m: "uint (mask k :: 64 word) = 2 ^ k - 1"
    unfolding uint_mask_eq using k(2) by (simp add: min_def mask_eq_exp_minus_1)
  moreover have "uint (mask k + 1 :: 64 word) = 2 ^ k"
  proof -
    have "(2 :: int) ^ k \<le> 2 ^ 32"
      using k(2) by (intro power_increasing) simp_all
    then have "uint (mask k :: 64 word) + uint (1 :: 64 word) < 2 ^ LENGTH(64)"
      using m by simp
    then have "uint (mask k + 1 :: 64 word) = uint (mask k :: 64 word) + uint (1 :: 64 word)"
      by (rule iffD1 [OF uint_add_lem])
    then show ?thesis
      by (simp add: m)
  qed
  ultimately show ?thesis
    using k least by (intro exI [of _ k]) auto
qed

section \<open>The invariant\<close>

text \<open>The place that a thread holds: in \<^verbatim>\<open>push\<close> from the swap to the publication, in \<^verbatim>\<open>pop\<close> from the swap to the release.\<close>

fun pop_place :: "'a qpc \<Rightarrow> int option" where
  "pop_place (PopTake k) = Some k"
| "pop_place (PopDestroy k x) = Some k"
| "pop_place (PopRelease k x) = Some k"
| "pop_place _ = None"

fun place :: "'a qpc \<Rightarrow> int option" where
  "place (PushWrite d k) = Some k"
| "place (PushPublish k) = Some k"
| "place pc = pop_place pc"

lemma pop_place_place: "pop_place pc = Some k \<Longrightarrow> place pc = Some k"
  by (cases pc) simp_all

text \<open>What a thread knows at its program point, with the values \<open>ins\<close> in the order of their places.\<close>

fun pc_ok :: "'a queue \<Rightarrow> 'a list \<Rightarrow> 'a qpc \<Rightarrow> bool" where
  "pc_ok q ins (PushSwap d k) \<longleftrightarrow> k \<le> ntail (node q k)"
| "pc_ok q ins (PopSwap k) \<longleftrightarrow> k \<le> nhead (node q k)"
| "pc_ok q ins (PushWrite d k) \<longleftrightarrow> 0 \<le> k \<and> k < qtail q \<and> ntail (node q k) = k \<and> nhead (node q k) \<noteq> k
     \<and> ndata (node q k) = None \<and> ins ! nat k = d"
| "pc_ok q ins (PushPublish k) \<longleftrightarrow> 0 \<le> k \<and> k < qtail q \<and> ntail (node q k) = k \<and> nhead (node q k) \<noteq> k
     \<and> ndata (node q k) = Some (ins ! nat k)"
| "pc_ok q ins (PopTake k) \<longleftrightarrow> 0 \<le> k \<and> k < qhead q \<and> ntail (node q k) = k \<and> nhead (node q k) = k
     \<and> ndata (node q k) = Some (ins ! nat k)"
| "pc_ok q ins (PopDestroy k x) \<longleftrightarrow> 0 \<le> k \<and> k < qhead q \<and> ntail (node q k) = k \<and> nhead (node q k) = k
     \<and> ndata (node q k) = Some (ins ! nat k) \<and> x = ins ! nat k"
| "pc_ok q ins (PopRelease k x) \<longleftrightarrow> 0 \<le> k \<and> k < qhead q \<and> ntail (node q k) = k \<and> nhead (node q k) = k
     \<and> ndata (node q k) = None \<and> x = ins ! nat k"
| "pc_ok q ins _ \<longleftrightarrow> True"

text \<open>A node with the place \<open>k\<close> of its counter \<open>tail\<close>.\<close>

definition node_ok :: "'a queue \<Rightarrow> 'a list \<Rightarrow> int \<Rightarrow> bool" where
  "node_ok q ins i \<longleftrightarrow>
     (let n = qnodes q i; k = ntail n in
        slot q k = i \<and> 0 \<le> k \<and> k - qcapacity q < qhead q
        \<and> (nhead n = k \<or> nhead n = - 1 \<or> nhead n \<le> k - qcapacity q)
        \<and> (nhead n = k \<longrightarrow> k < qtail q)
        \<and> (nhead n = k \<and> qhead q \<le> k \<longrightarrow> ndata n = Some (ins ! nat k))
        \<and> (qtail q \<le> k \<longrightarrow> ndata n = None))"

definition ring_ok :: "'a queue \<Rightarrow> 'a list \<Rightarrow> nat \<Rightarrow> bool" where
  "ring_ok q ins n \<longleftrightarrow>
     (\<exists>m. qmask q = 2 ^ m - 1 \<and> qcapacity q = 2 ^ m) \<and> (\<forall>i. 0 \<le> i \<and> i < qcapacity q \<longrightarrow> node_ok q ins i)
     \<and> qtail q = int (length ins) \<and> qhead q = int n \<and> n \<le> length ins \<and> qtail q \<le> qhead q + qcapacity q"

definition threads_ok :: "'a queue \<Rightarrow> 'a list \<Rightarrow> (nat \<Rightarrow> 'a qpc) \<Rightarrow> bool" where
  "threads_ok q ins pcs \<longleftrightarrow>
     (\<forall>t. pc_ok q ins (pcs t)) \<and> (\<forall>t u k. place (pcs t) = Some k \<and> place (pcs u) = Some k \<longrightarrow> t = u)"

definition returns_ok :: "(nat \<Rightarrow> 'a qpc) \<Rightarrow> 'a list \<Rightarrow> nat \<Rightarrow> (int \<times> 'a) list \<Rightarrow> bool" where
  "returns_ok pcs ins n rets \<longleftrightarrow>
     distinct (map fst rets) \<and> (\<forall>(k, x)\<in>set rets. 0 \<le> k \<and> k < int n \<and> x = ins ! nat k)
     \<and> (\<forall>k. 0 \<le> k \<and> k < int n \<longrightarrow> (k \<in> fst ` set rets \<longleftrightarrow> (\<nexists>t. pop_place (pcs t) = Some k)))"

definition queue_inv :: "'a qsys \<Rightarrow> 'a list \<Rightarrow> nat \<Rightarrow> (int \<times> 'a) list \<Rightarrow> bool" where
  "queue_inv s ins n rets \<longleftrightarrow>
     ring_ok (squeue s) ins n \<and> threads_ok (squeue s) ins (spc s) \<and> returns_ok (spc s) ins n rets"

lemma slot_simps [simp]:
  "slot (q\<lparr>qtail := x\<rparr>) = slot q" "slot (q\<lparr>qhead := x\<rparr>) = slot q" "slot (set_node k n q) = slot q"
  "node (q\<lparr>qtail := x\<rparr>) = node q" "node (q\<lparr>qhead := x\<rparr>) = node q"
  "qtail (set_node k n q) = qtail q" "qhead (set_node k n q) = qhead q" "qcapacity (set_node k n q) = qcapacity q"
  "qmask (set_node k n q) = qmask q" "qnodes (set_node k n q) = (qnodes q)(slot q k := n)"
  by (auto simp: slot_def node_def set_node_def fun_eq_iff)

lemma node_set [simp]: "node (set_node k n q) j = (if slot q j = slot q k then n else node q j)"
  by (simp add: node_def)

lemma ring_slot: "ring_ok q ins n \<Longrightarrow> slot q k = k mod qcapacity q"
  by (auto simp: ring_ok_def slot_def take_bit_eq_mod simp flip: mask_eq_exp_minus_1 take_bit_eq_mask)

lemma ring_capacity: "ring_ok q ins n \<Longrightarrow> 0 < qcapacity q"
  by (auto simp: ring_ok_def)

lemma ring_node:
  assumes "ring_ok q ins n"
  shows "node_ok q ins (slot q k)"
  using assms ring_capacity [OF assms] by (simp add: ring_slot [OF assms]) (simp add: ring_ok_def)

text \<open>Places with the same node that are less than the capacity apart are equal.\<close>

lemma slot_unique:
  assumes "ring_ok q ins n" "slot q j = slot q k" "k \<le> j" "j < k + qcapacity q"
  shows "j = k"
proof -
  have "qcapacity q dvd j - k"
    using assms(2) by (simp add: ring_slot [OF assms(1)] mod_eq_dvd_iff)
  then show ?thesis
    using zdvd_not_zless [of "j - k" "qcapacity q"] assms(3,4) by linarith
qed

lemma node_cong: "slot q j = slot q k \<Longrightarrow> node q j = node q k"
  by (simp add: node_def)

text \<open>A place that a thread holds belongs to its node, so that changing a node leaves alone what the others know.\<close>

lemma pc_ok_place: "pc_ok q ins pc \<Longrightarrow> place pc = Some j \<Longrightarrow> ntail (node q j) = j"
  by (cases pc) simp_all

lemma pc_ok_frame:
  assumes "pc_ok q ins pc" "ntail (node q k) = k" "place pc \<noteq> Some k" "k \<le> ntail x" "nhead (node q k) \<le> nhead x"
  shows "pc_ok (set_node k x q) ins pc"
proof -
  have *: "slot q j \<noteq> slot q k" if "place pc = Some j" for j
  proof
    assume "slot q j = slot q k"
    from node_cong [OF this] have "ntail (node q j) = ntail (node q k)"
      by (rule arg_cong)
    then have "j = k"
      unfolding pc_ok_place [OF assms(1) that] assms(2) .
    then show False
      using that assms(3) by simp
  qed
  have n: "node q j = node q k" if "slot q j = slot q k" for j
    using that by (rule node_cong)
  show ?thesis
  proof (cases pc)
    case (PushSwap d j)
    then show ?thesis using assms n [of j] by auto
  next
    case (PopSwap j)
    then show ?thesis using assms n [of j] by auto
  qed (use assms(1) * in \<open>simp_all\<close>)
qed

lemma pc_ok_tail: "pc_ok q ins pc \<Longrightarrow> qtail q = int (length ins) \<Longrightarrow> qhead q \<le> qtail q \<Longrightarrow> pc_ok (q\<lparr>qtail := qtail q + 1\<rparr>) (ins @ [d]) pc"
  by (cases pc) (auto simp: nth_append)

lemma pc_ok_head: "pc_ok q ins pc \<Longrightarrow> pc_ok (q\<lparr>qhead := qhead q + 1\<rparr>) ins pc"
  by (cases pc) auto

lemma ring_set:
  assumes "ring_ok q ins n" "node_ok (set_node k x q) ins (slot q k)"
  shows "ring_ok (set_node k x q) ins n"
proof -
  have "node_ok (set_node k x q) ins i" if "0 \<le> i" "i < qcapacity q" for i
  proof (cases "i = slot q k")
    case False
    then have "node_ok (set_node k x q) ins i = node_ok q ins i"
      by (simp add: node_ok_def)
    then show ?thesis
      using assms(1) that by (simp add: ring_ok_def)
  qed (use assms(2) in simp)
  then show ?thesis
    using assms(1) by (simp add: ring_ok_def)
qed

lemma ring_tail:
  assumes "ring_ok q ins n" "int (length ins) < int n + qcapacity q"
  shows "ring_ok (q\<lparr>qtail := qtail q + 1\<rparr>) (ins @ [d]) n"
proof -
  have "node_ok (q\<lparr>qtail := qtail q + 1\<rparr>) (ins @ [d]) i" if "0 \<le> i" "i < qcapacity q" for i
  proof -
    have "node_ok q ins i" "qtail q = int (length ins)"
      using assms(1) that by (simp_all add: ring_ok_def)
    then show ?thesis
      by (auto simp: node_ok_def Let_def nth_append nat_less_iff)
  qed
  then show ?thesis
    using assms(1,2) by (simp add: ring_ok_def)
qed

lemma ring_head:
  assumes "ring_ok q ins n" "n < length ins"
  shows "ring_ok (q\<lparr>qhead := qhead q + 1\<rparr>) ins (Suc n)"
  using assms by (fastforce simp: ring_ok_def node_ok_def Let_def)

lemma threads_pc:
  assumes "threads_ok q ins pcs" "pc_ok q ins pc" "\<And>u k. place pc = Some k \<Longrightarrow> u \<noteq> t \<Longrightarrow> place (pcs u) \<noteq> Some k"
  shows "threads_ok q ins (pcs(t := pc))"
  using assms by (auto simp: threads_ok_def)

lemma threads_set:
  assumes "threads_ok q ins pcs" "place (pcs t) = Some k" "ntail (node q k) = k" "k \<le> ntail x" "nhead (node q k) \<le> nhead x"
    and "pc_ok (set_node k x q) ins pc" "place pc = Some k \<or> place pc = None"
  shows "threads_ok (set_node k x q) ins (pcs(t := pc))"
proof -
  have "pc_ok (set_node k x q) ins (pcs u)" if "u \<noteq> t" for u
    by (rule pc_ok_frame) (use assms that in \<open>auto simp: threads_ok_def\<close>)
  then show ?thesis
    using assms by (auto simp: threads_ok_def)
qed

lemma returns_pc:
  "returns_ok pcs ins n rets \<Longrightarrow> pop_place pc = pop_place (pcs t) \<Longrightarrow> returns_ok (pcs(t := pc)) ins n rets"
  unfolding returns_ok_def by (simp add: fun_upd_def) metis

section \<open>Every step keeps the invariant\<close>

lemma pc_ok_bounds: "pc_ok q ins pc \<Longrightarrow> place pc = Some k \<Longrightarrow> qhead q \<le> qtail q \<Longrightarrow> 0 \<le> k \<and> k < qtail q"
  by (cases pc) auto

lemma inv_pc:
  assumes "queue_inv s ins n rets" "pc_ok (squeue s) ins pc" "place pc = place (spc s t)" "pop_place pc = pop_place (spc s t)"
  shows "queue_inv (s\<lparr>spc := (spc s)(t := pc)\<rparr>) ins n rets"
  unfolding queue_inv_def
proof (intro conjI)
  show "ring_ok (squeue (s\<lparr>spc := (spc s)(t := pc)\<rparr>)) ins n"
    using assms(1) by (simp add: queue_inv_def)
  have "place (spc s u) \<noteq> Some k" if "place pc = Some k" "u \<noteq> t" for u k
    using assms(1,3) that unfolding queue_inv_def threads_ok_def by metis
  then show "threads_ok (squeue (s\<lparr>spc := (spc s)(t := pc)\<rparr>)) ins (spc (s\<lparr>spc := (spc s)(t := pc)\<rparr>))"
    using assms(1,2) by (simp add: queue_inv_def threads_pc)
  show "returns_ok (spc (s\<lparr>spc := (spc s)(t := pc)\<rparr>)) ins n rets"
    using assms(1,4) by (simp add: queue_inv_def returns_pc)
qed

lemma inv_swap_push:
  assumes "queue_inv s ins n rets" "spc s t = PushSwap d k" "qtail (squeue s) = k"
  shows "queue_inv \<lparr>squeue = (squeue s)\<lparr>qtail := k + 1\<rparr>, spc = (spc s)(t := PushWrite d k)\<rparr> (ins @ [d]) n rets"
proof -
  define q where "q = squeue s"
  have r: "ring_ok q ins n" and th: "threads_ok q ins (spc s)" and re: "returns_ok (spc s) ins n rets"
    using assms(1) by (simp_all add: queue_inv_def q_def)
  have T: "qtail q = k" "k = int (length ins)" "qhead q \<le> k"
    using r assms(3) by (auto simp: ring_ok_def q_def)
  have ok: "node_ok q ins (slot q k)"
    by (rule ring_node [OF r])
  define N where "N = ntail (node q k)"
  have "pc_ok q ins (PushSwap d k)"
    using th assms(2) unfolding threads_ok_def by metis
  then have "k \<le> N"
    by (simp add: N_def)
  moreover have "slot q N = slot q k" "N - qcapacity q < qhead q"
    using ok by (simp_all add: node_ok_def Let_def N_def node_def)
  ultimately have N: "N = k"
    using slot_unique [OF r, of N k] T(3) by simp
  have free: "nhead (node q k) \<noteq> k" "ndata (node q k) = None"
    using ok N T(1) by (simp_all add: node_ok_def Let_def N_def node_def)
  have "pc_ok (q\<lparr>qtail := qtail q + 1\<rparr>) (ins @ [d]) (spc s u)" for u
    using th T by (intro pc_ok_tail) (simp_all add: threads_ok_def)
  then have "threads_ok (q\<lparr>qtail := qtail q + 1\<rparr>) (ins @ [d]) (spc s)"
    using th by (simp add: threads_ok_def)
  moreover have "pc_ok (q\<lparr>qtail := qtail q + 1\<rparr>) (ins @ [d]) (PushWrite d k)"
    using N free T by (simp add: N_def)
  moreover have "place (spc s u) \<noteq> Some k" for u
    using th pc_ok_bounds [of q ins "spc s u" k] T unfolding threads_ok_def by auto
  ultimately have "threads_ok (q\<lparr>qtail := qtail q + 1\<rparr>) (ins @ [d]) ((spc s)(t := PushWrite d k))"
    by (intro threads_pc) simp_all
  moreover have "ring_ok (q\<lparr>qtail := qtail q + 1\<rparr>) (ins @ [d]) n"
  proof (rule ring_tail [OF r])
    show "int (length ins) < int n + qcapacity q"
      using \<open>N - qcapacity q < qhead q\<close> N T(2) r by (auto simp: ring_ok_def)
  qed
  moreover have "returns_ok ((spc s)(t := PushWrite d k)) (ins @ [d]) n rets"
  proof -
    have "n \<le> length ins"
      using r by (simp add: ring_ok_def)
    then have "returns_ok (spc s) (ins @ [d]) n rets"
      using re by (fastforce simp: returns_ok_def nth_append)
    then show ?thesis
      by (rule returns_pc) (simp add: assms(2))
  qed
  ultimately show ?thesis
    using T(1) by (simp add: queue_inv_def q_def)
qed

lemma inv_swap_pop:
  assumes "queue_inv s ins n rets" "spc s t = PopSwap k" "qhead (squeue s) = k"
  shows "queue_inv \<lparr>squeue = (squeue s)\<lparr>qhead := k + 1\<rparr>, spc = (spc s)(t := PopTake k)\<rparr> ins (Suc n) rets"
proof -
  define q where "q = squeue s"
  have r: "ring_ok q ins n" and th: "threads_ok q ins (spc s)" and re: "returns_ok (spc s) ins n rets"
    using assms(1) by (simp_all add: queue_inv_def q_def)
  have H: "qhead q = k" "k = int n" "qtail q = int (length ins)"
    using r assms(3) by (auto simp: ring_ok_def q_def)
  have ok: "node_ok q ins (slot q k)"
    by (rule ring_node [OF r])
  define N where "N = ntail (node q k)"
  have "pc_ok q ins (PopSwap k)"
    using th assms(2) unfolding threads_ok_def by metis
  then have "k \<le> nhead (node q k)"
    by simp
  moreover have Nb: "slot q N = slot q k" "N - qcapacity q < k"
    and "nhead (node q k) = N \<or> nhead (node q k) = - 1 \<or> nhead (node q k) \<le> N - qcapacity q"
    using ok H(1) by (simp_all add: node_ok_def Let_def N_def node_def)
  ultimately have h: "nhead (node q k) = N" "k \<le> N"
    using H(2) by auto
  have N: "N = k"
    using slot_unique [OF r Nb(1) h(2)] Nb(2) by simp
  have full: "k < qtail q" "ndata (node q k) = Some (ins ! nat k)"
    using ok N h H(1) by (simp_all add: node_ok_def Let_def N_def node_def)
  have "pc_ok (q\<lparr>qhead := qhead q + 1\<rparr>) ins (spc s u)" for u
    using th by (intro pc_ok_head) (simp add: threads_ok_def)
  then have "threads_ok (q\<lparr>qhead := qhead q + 1\<rparr>) ins (spc s)"
    using th by (simp add: threads_ok_def)
  moreover have "pc_ok (q\<lparr>qhead := qhead q + 1\<rparr>) ins (PopTake k)"
    using N h full H by (simp add: N_def)
  moreover have free: "place (spc s u) \<noteq> Some k" for u
  proof
    assume "place (spc s u) = Some k"
    moreover have "pc_ok q ins (spc s u)"
      using th by (simp add: threads_ok_def)
    ultimately show False
      using h(1) N H(1) by (cases "spc s u") auto
  qed
  ultimately have "threads_ok (q\<lparr>qhead := qhead q + 1\<rparr>) ins ((spc s)(t := PopTake k))"
    by (intro threads_pc) simp_all
  moreover have "ring_ok (q\<lparr>qhead := qhead q + 1\<rparr>) ins (Suc n)"
    using full(1) H by (intro ring_head [OF r]) simp
  moreover have "returns_ok ((spc s)(t := PopTake k)) ins (Suc n) rets"
    unfolding returns_ok_def
  proof (intro conjI allI impI)
    show "distinct (map fst rets)"
      using re by (simp add: returns_ok_def)
    show "\<forall>(k, x)\<in>set rets. 0 \<le> k \<and> k < int (Suc n) \<and> x = ins ! nat k"
      using re by (fastforce simp: returns_ok_def)
    fix j
    assume j: "0 \<le> j \<and> j < int (Suc n)"
    show "j \<in> fst ` set rets \<longleftrightarrow> (\<nexists>u. pop_place (((spc s)(t := PopTake k)) u) = Some j)"
    proof (cases "j = k")
      case True
      have "k \<notin> fst ` set rets"
        using re H(2) by (fastforce simp: returns_ok_def)
      then show ?thesis
        using True by (auto intro: exI [of _ t])
    next
      case False
      then have "(\<exists>u. pop_place (((spc s)(t := PopTake k)) u) = Some j) \<longleftrightarrow> (\<exists>u. pop_place (spc s u) = Some j)"
        using assms(2) by (metis fun_upd_apply option.discI option.inject pop_place.simps(1,12))
      moreover have "j < int n"
        using False j H(2) by simp
      ultimately show ?thesis
        using re j unfolding returns_ok_def by blast
    qed
  qed
  ultimately show ?thesis
    using H(1) by (simp add: queue_inv_def q_def)
qed

lemma inv_set:
  assumes "queue_inv s ins n rets" "place (spc s t) = Some k"
    and "k \<le> ntail x" "nhead (node (squeue s) k) \<le> nhead x" "node_ok (set_node k x (squeue s)) ins (slot (squeue s) k)"
    and "pc_ok (set_node k x (squeue s)) ins pc" "place pc = Some k \<or> place pc = None"
    and "returns_ok ((spc s)(t := pc)) ins n rets'"
  shows "queue_inv \<lparr>squeue = set_node k x (squeue s), spc = (spc s)(t := pc)\<rparr> ins n rets'"
proof -
  have "pc_ok (squeue s) ins (spc s t)"
    using assms(1) by (simp add: queue_inv_def threads_ok_def)
  then have "ntail (node (squeue s) k) = k"
    using assms(2) by (rule pc_ok_place)
  then have "threads_ok (set_node k x (squeue s)) ins ((spc s)(t := pc))"
    using assms(1) by (intro threads_set assms(2-4,6,7)) (simp_all add: queue_inv_def)
  moreover have "ring_ok (set_node k x (squeue s)) ins n"
    using assms(1) by (intro ring_set assms(5)) (simp add: queue_inv_def)
  ultimately show ?thesis
    using assms(8) by (simp add: queue_inv_def)
qed

lemma returns_release:
  assumes "returns_ok pcs ins n rets" "pop_place (pcs t) = Some k" "0 \<le> k" "k < int n" "pop_place pc = None"
    and "\<And>u. pop_place (pcs u) = Some k \<Longrightarrow> u = t"
  shows "returns_ok (pcs(t := pc)) ins n (rets @ [(k, ins ! nat k)])"
  unfolding returns_ok_def
proof (intro conjI allI impI)
  have "k \<notin> fst ` set rets"
    using assms(1-4) unfolding returns_ok_def by blast
  then show "distinct (map fst (rets @ [(k, ins ! nat k)]))"
    using assms(1) by (simp add: returns_ok_def)
  show "\<forall>(j, x)\<in>set (rets @ [(k, ins ! nat k)]). 0 \<le> j \<and> j < int n \<and> x = ins ! nat j"
    using assms(1,3,4) by (auto simp: returns_ok_def)
  fix j
  assume j: "0 \<le> j \<and> j < int n"
  show "j \<in> fst ` set (rets @ [(k, ins ! nat k)]) \<longleftrightarrow> (\<nexists>u. pop_place ((pcs(t := pc)) u) = Some j)"
  proof (cases "j = k")
    case True
    have "pop_place ((pcs(t := pc)) u) \<noteq> Some k" for u
      using assms(5,6) by (cases "u = t") auto
    then show ?thesis
      using True by simp
  next
    case False
    then have "(\<exists>u. pop_place ((pcs(t := pc)) u) = Some j) \<longleftrightarrow> (\<exists>u. pop_place (pcs u) = Some j)"
      using assms(2,5) by (metis fun_upd_apply option.discI option.inject)
    then show ?thesis
      using assms(1) j False by (simp add: returns_ok_def)
  qed
qed

lemma inv_run:
  assumes "queue_inv s ins n rets" "thread_step (spc s t) (squeue s) = Some (e, pc, q)"
  shows "queue_inv \<lparr>squeue = q, spc = (spc s)(t := pc)\<rparr> (ins @ enqueued [(t, e)]) (n + dequeued [(t, e)]) (rets @ returned [(t, e)])"
proof -
  define q0 where "q0 = squeue s"
  have r: "ring_ok q0 ins n" and th: "threads_ok q0 ins (spc s)" and re: "returns_ok (spc s) ins n rets"
    using assms(1) by (simp_all add: queue_inv_def q0_def)
  have own: "pc_ok q0 ins (spc s t)"
    using th by (simp add: threads_ok_def)
  have only: "u = t" if "place (spc s t) = Some k" "pop_place (spc s u) = Some k" for u k
    using th that pop_place_place [OF that(2)] unfolding threads_ok_def by metis
  have bounds: "qhead q0 = int n" "qtail q0 = int (length ins)" "n \<le> length ins"
    using r by (simp_all add: ring_ok_def)
  have eta: "s\<lparr>spc := x\<rparr> = \<lparr>squeue = q0, spc = x\<rparr>" for x
    by (simp add: q0_def)
  note stay = inv_pc [OF assms(1), of _ t, unfolded eta, folded q0_def]
  show ?thesis
  proof (cases "spc s t")
    case Idle
    then show ?thesis using assms(2) by simp
  next
    case (PushRead d)
    then show ?thesis
      using assms(2) stay [of "PushCheck d (qtail q0)"] by (auto simp: q0_def)
  next
    case (PushCheck d k)
    show ?thesis
    proof (cases "ntail (node q0 k) = k")
      case True
      then show ?thesis
        using assms(2) PushCheck stay [of "PushSwap d k"] by (auto simp: q0_def)
    next
      case False
      then show ?thesis
        using assms(2) PushCheck stay [of Idle] by (auto simp: q0_def)
    qed
  next
    case (PushSwap d k)
    show ?thesis
    proof (cases "qtail q0 = k")
      case True
      then show ?thesis
        using assms(2) PushSwap inv_swap_push [OF assms(1) PushSwap] by (auto simp: q0_def)
    next
      case False
      then show ?thesis
        using assms(2) PushSwap stay [of "PushCheck d (qtail q0)"] by (auto simp: q0_def)
    qed
  next
    case (PushWrite d k)
    define x where "x = (node q0 k)\<lparr>ndata := Some d\<rparr>"
    have k: "ntail (node q0 k) = k" "ins ! nat k = d" "0 \<le> k" "k < qtail q0" "nhead (node q0 k) \<noteq> k" "ndata (node q0 k) = None"
      using own PushWrite by simp_all
    have "node_ok (set_node k x q0) ins (slot q0 k)"
      using ring_node [OF r, of k] k by (simp add: node_ok_def Let_def x_def flip: node_def)
    moreover have "returns_ok ((spc s)(t := PushPublish k)) ins n rets"
      by (rule returns_pc [OF re]) (simp add: PushWrite)
    ultimately have "queue_inv \<lparr>squeue = set_node k x q0, spc = (spc s)(t := PushPublish k)\<rparr> ins n rets"
      unfolding q0_def by (intro inv_set [OF assms(1)]) (simp_all add: PushWrite x_def k flip: q0_def)
    then show ?thesis
      using assms(2) PushWrite k by (auto simp: x_def q0_def)
  next
    case (PushPublish k)
    define x where "x = (node q0 k)\<lparr>nhead := k\<rparr>"
    have k: "ntail (node q0 k) = k" "0 \<le> k" "k < qtail q0" "nhead (node q0 k) \<noteq> k" "ndata (node q0 k) = Some (ins ! nat k)"
      using own PushPublish by simp_all
    have ok: "node_ok q0 ins (slot q0 k)"
      by (rule ring_node [OF r])
    then have "nhead (node q0 k) \<le> k"
      using k ring_capacity [OF r] by (auto simp: node_ok_def Let_def simp flip: node_def)
    moreover have "node_ok (set_node k x q0) ins (slot q0 k)"
      using ok k by (simp add: node_ok_def Let_def x_def flip: node_def)
    moreover have "returns_ok ((spc s)(t := Idle)) ins n rets"
      by (rule returns_pc [OF re]) (simp add: PushPublish)
    ultimately have "queue_inv \<lparr>squeue = set_node k x q0, spc = (spc s)(t := Idle)\<rparr> ins n rets"
      unfolding q0_def by (intro inv_set [OF assms(1)]) (simp_all add: PushPublish x_def k flip: q0_def)
    then show ?thesis
      using assms(2) PushPublish by (auto simp: x_def q0_def)
  next
    case PopRead
    then show ?thesis
      using assms(2) stay [of "PopCheck (qhead q0)"] by (auto simp: q0_def)
  next
    case (PopCheck k)
    show ?thesis
    proof (cases "nhead (node q0 k) = k")
      case True
      then show ?thesis
        using assms(2) PopCheck stay [of "PopSwap k"] by (auto simp: q0_def)
    next
      case False
      then show ?thesis
        using assms(2) PopCheck stay [of Idle] by (auto simp: q0_def)
    qed
  next
    case (PopSwap k)
    show ?thesis
    proof (cases "qhead q0 = k")
      case True
      then show ?thesis
        using assms(2) PopSwap inv_swap_pop [OF assms(1) PopSwap] by (auto simp: q0_def)
    next
      case False
      then show ?thesis
        using assms(2) PopSwap stay [of "PopCheck (qhead q0)"] by (auto simp: q0_def)
    qed
  next
    case (PopTake k)
    then have "queue_inv \<lparr>squeue = q0, spc = (spc s)(t := PopDestroy k (ins ! nat k))\<rparr> ins n rets"
      using own by (intro stay) simp_all
    then show ?thesis
      using assms(2) PopTake own by (auto simp: q0_def)
  next
    case (PopDestroy k y)
    define x where "x = (node q0 k)\<lparr>ndata := None\<rparr>"
    have k: "ntail (node q0 k) = k" "0 \<le> k" "k < qhead q0" "nhead (node q0 k) = k" "ndata (node q0 k) = Some (ins ! nat k)" "y = ins ! nat k"
      using own PopDestroy by simp_all
    have "node_ok (set_node k x q0) ins (slot q0 k)"
      using ring_node [OF r, of k] k by (simp add: node_ok_def Let_def x_def flip: node_def)
    moreover have "returns_ok ((spc s)(t := PopRelease k y)) ins n rets"
      by (rule returns_pc [OF re]) (simp add: PopDestroy)
    ultimately have "queue_inv \<lparr>squeue = set_node k x q0, spc = (spc s)(t := PopRelease k y)\<rparr> ins n rets"
      unfolding q0_def by (intro inv_set [OF assms(1)]) (simp_all add: PopDestroy x_def k flip: q0_def)
    then show ?thesis
      using assms(2) PopDestroy k by (auto simp: x_def q0_def)
  next
    case (PopRelease k y)
    define x where "x = (node q0 k)\<lparr>ntail := k + qcapacity q0\<rparr>"
    have k: "ntail (node q0 k) = k" "0 \<le> k" "k < qhead q0" "nhead (node q0 k) = k" "ndata (node q0 k) = None" "y = ins ! nat k"
      using own PopRelease by simp_all
    have c: "0 < qcapacity q0"
      by (rule ring_capacity [OF r])
    have "node_ok (set_node k x q0) ins (slot q0 k)"
      using k c bounds by (simp add: node_ok_def Let_def x_def ring_slot [OF r])
    moreover have "returns_ok ((spc s)(t := Idle)) ins n (rets @ [(k, ins ! nat k)])"
      using k bounds only PopRelease by (intro returns_release [OF re]) simp_all
    ultimately have "queue_inv \<lparr>squeue = set_node k x q0, spc = (spc s)(t := Idle)\<rparr> ins n (rets @ [(k, ins ! nat k)])"
      unfolding q0_def using c by (intro inv_set [OF assms(1)]) (simp_all add: PopRelease x_def k flip: q0_def)
    then show ?thesis
      using assms(2) PopRelease k by (auto simp: x_def q0_def)
  qed
qed

end
