(* ===== verification/Nstd_QueueProps.thy ===== *)
theory Nstd_QueueProps
  imports Nstd_QueueInv
begin

text \<open>
  Properties of the queue and the signal of \<open>Nstd_Queue\<close> under every interleaving: objects are handled correctly and every value
  arrives once, in order; all calls come to their end; but calls may fail without need, and a signal may be lost.
\<close>

section \<open>Runs\<close>

lemma enqueued_append: "enqueued (tr @ tr') = enqueued tr @ enqueued tr'"
  by (induction tr rule: enqueued.induct) simp_all

lemma dequeued_append: "dequeued (tr @ tr') = dequeued tr + dequeued tr'"
  by (induction tr rule: dequeued.induct) simp_all

lemma returned_append: "returned (tr @ tr') = returned tr @ returned tr'"
  by (induction tr rule: returned.induct) simp_all

lemma inv_init:
  assumes "0 < uint c" "uint c \<le> 2 ^ 32"
  shows "queue_inv (sys_init c) [] 0 []"
proof -
  obtain k where k: "uint (capacity_mask c) = 2 ^ k - 1" "uint (capacity_mask c + 1) = 2 ^ k"
    using capacity_mask_ok [OF assms] by blast
  have "i AND (2 ^ k - 1) = i" if "0 \<le> i" "i < 2 ^ k" for i :: int
    using that by (simp flip: mask_eq_exp_minus_1 take_bit_eq_mask add: take_bit_int_eq_self)
  then have "node_ok (queue_init c) [] i" if "0 \<le> i" "i < 2 ^ k" for i
    using that k by (simp add: node_ok_def queue_init_def slot_def Let_def)
  then show ?thesis
    using k by (auto simp: queue_inv_def ring_ok_def threads_ok_def returns_ok_def sys_init_def) (auto simp: queue_init_def)
qed

lemma inv_step:
  assumes "queue_inv s ins n rets" "sys_step s t e s'"
  shows "queue_inv s' (ins @ enqueued [(t, e)]) (n + dequeued [(t, e)]) (rets @ returned [(t, e)])"
  using assms(2)
proof cases
  case (call_push d)
  then show ?thesis
    using inv_pc [OF assms(1), of "PushRead d" t] by simp
next
  case call_pop
  then show ?thesis
    using inv_pc [OF assms(1), of PopRead t] by simp
next
  case (run pc q)
  then show ?thesis
    using inv_run [OF assms(1) run(2)] by simp
qed

lemma inv_sys_run:
  assumes "sys_run s tr s'" "queue_inv s ins n rets"
  shows "queue_inv s' (ins @ enqueued tr) (n + dequeued tr) (rets @ returned tr)"
  using assms
proof induction
  case (run_step s tr s1 t e s2)
  then show ?case
    using inv_step [OF run_step.IH [OF run_step.prems] run_step.hyps(2)]
    by (simp only: enqueued_append dequeued_append returned_append append_assoc add.assoc)
qed simp

lemma thread_step_capacity: "thread_step pc q = Some (e, pc', q') \<Longrightarrow> qcapacity q' = qcapacity q"
  by (cases pc) (auto split: if_splits option.splits)

lemma sys_run_capacity: "sys_run s tr s' \<Longrightarrow> qcapacity (squeue s') = qcapacity (squeue s)"
proof (induction rule: sys_run.induct)
  case (run_step s tr s1 t e s2)
  from run_step.hyps(2) have "qcapacity (squeue s2) = qcapacity (squeue s1)"
    by (auto elim!: sys_stepE dest: thread_step_capacity)
  then show ?case
    using run_step.IH by simp
qed simp

lemma inv_progress: "queue_inv s ins n rets \<Longrightarrow> spc s t \<noteq> Idle \<Longrightarrow> thread_step (spc s t) (squeue s) \<noteq> None"
proof -
  assume "queue_inv s ins n rets" and t: "spc s t \<noteq> Idle"
  then have "pc_ok (squeue s) ins (spc s t)"
    by (simp add: queue_inv_def threads_ok_def)
  then show ?thesis
    using t by (cases "spc s t") simp_all
qed

text \<open>How often a thread has taken a place in \<^verbatim>\<open>push\<close>, and how often \<^verbatim>\<open>push\<close> has returned true to it.\<close>

definition claims :: "nat \<Rightarrow> (nat \<times> 'a qevent) list \<Rightarrow> nat" where
  "claims t tr = length (enqueued (filter (\<lambda>x. fst x = t) tr))"

definition accepts :: "nat \<Rightarrow> (nat \<times> 'a qevent) list \<Rightarrow> nat" where
  "accepts t tr = length (filter (\<lambda>x. x = (t, ReturnPush True)) tr)"

fun publishing :: "'a qpc \<Rightarrow> bool" where
  "publishing (PushWrite d k) = True"
| "publishing (PushPublish k) = True"
| "publishing _ = False"

lemma claims_run: "sys_run s tr s' \<Longrightarrow> (\<And>t. \<not> publishing (spc s t)) \<Longrightarrow> claims t tr = accepts t tr + (if publishing (spc s' t) then 1 else 0)"
proof (induction rule: sys_run.induct)
  case (run_step s tr s1 u e s2)
  have IH: "claims t tr = accepts t tr + (if publishing (spc s1 t) then 1 else 0)"
    by (rule run_step.IH) (rule run_step.prems)
  from run_step.hyps(2) show ?case
  proof cases
    case (run pc q)
    then show ?thesis
      using IH
      by (cases "spc s1 u") (auto simp: claims_def accepts_def enqueued_append split: if_splits option.splits)
  qed (use IH in \<open>auto simp: claims_def accepts_def enqueued_append\<close>)
qed (simp add: claims_def accepts_def)

section \<open>Safety and order\<close>

text \<open>C28. No interleaving of any number of threads constructs an object over another, or reads or destroys one that is not there: in
  every state that is reached, every thread inside of a call can do its next access.\<close>

theorem queue_objects_safe:
  assumes "0 < uint c" "uint c \<le> 2 ^ 32" "sys_run (sys_init c) tr s" "spc s t \<noteq> Idle"
  shows "\<exists>e pc q. thread_step (spc s t) (squeue s) = Some (e, pc, q)"
  using inv_progress [OF inv_sys_run [OF assms(3) inv_init [OF assms(1,2)]] assms(4)] by auto

lemma queue_objects_safe_witness:
  "\<exists>e pc q. thread_step (PushRead (7 :: nat)) (queue_init 2) = Some (e, pc, q)"
proof -
  have "sys_step (sys_init 2) 0 (CallPush 7) ((sys_init 2)\<lparr>spc := (spc (sys_init 2))(0 := PushRead (7 :: nat))\<rparr>)"
    by (rule call_push) (simp add: sys_init_def)
  from run_step [OF run_none this]
  have "sys_run (sys_init 2) ([] @ [(0, CallPush 7)]) ((sys_init 2)\<lparr>spc := (spc (sys_init 2))(0 := PushRead (7 :: nat))\<rparr>)" .
  from queue_objects_safe [OF _ _ this, of 0] show ?thesis
    by (simp add: sys_init_def)
qed

lemma sys_run_append: "sys_run s1 tr1 s2 \<Longrightarrow> sys_run s tr s1 \<Longrightarrow> sys_run s (tr @ tr1) s2"
proof (induction rule: sys_run.induct)
  case (run_step s1 tr1 s2 t e s3)
  then show ?case
    using sys_run.run_step [of s "tr @ tr1" s2 t e s3] by simp
qed simp

text \<open>C29. The queue is a bounded first-in-first-out queue: the value returned from place \<open>k\<close> is the \<open>k\<close>th that has taken a place, no
  place is returned twice, there are never more values in the queue than its capacity (the least power of two from the
  demanded one on), \<^verbatim>\<open>size\<close> is the difference of the places taken by \<^verbatim>\<open>push\<close> until it reads the tail and those taken by \<^verbatim>\<open>pop\<close> until it reads
  the head, which is the number of values when no other thread comes between, a thread outside of calls has taken as many places as \<^verbatim>\<open>push\<close> has returned true to
  it, and when no call is under way all values taken have been returned.\<close>

theorem queue_fifo:
  assumes "0 < uint c" "uint c \<le> 2 ^ 32" "sys_run (sys_init c) tr s"
  shows "(\<forall>(k, x)\<in>set (returned tr). 0 \<le> k \<and> k < int (dequeued tr) \<and> x = enqueued tr ! nat k)
    \<and> distinct (map fst (returned tr))
    \<and> dequeued tr \<le> length (enqueued tr)
    \<and> (\<exists>m. uint c \<le> 2 ^ m \<and> (\<forall>l. uint c \<le> 2 ^ l \<longrightarrow> m \<le> l) \<and> int (length (enqueued tr)) \<le> int (dequeued tr) + 2 ^ m)
    \<and> (\<forall>tr1 s1. sys_run s tr1 s1 \<longrightarrow> queue_size (squeue s) (squeue s1) = int (length (enqueued (tr @ tr1))) - int (dequeued tr))
    \<and> (\<forall>t. spc s t = Idle \<longrightarrow> claims t tr = accepts t tr)
    \<and> ((\<forall>t. spc s t = Idle) \<longrightarrow> fst ` set (returned tr) = {0..<int (dequeued tr)})"
proof -
  have "queue_inv s (enqueued tr) (dequeued tr) (returned tr)"
    using inv_sys_run [OF assms(3) inv_init [OF assms(1,2)]] by simp
  then have r: "ring_ok (squeue s) (enqueued tr) (dequeued tr)" and re: "returns_ok (spc s) (enqueued tr) (dequeued tr) (returned tr)"
    by (simp_all add: queue_inv_def)
  obtain m where m: "uint (capacity_mask c + 1) = 2 ^ m" "uint c \<le> 2 ^ m" "\<forall>l. uint c \<le> 2 ^ l \<longrightarrow> m \<le> l"
    using capacity_mask_ok [OF assms(1,2)] by blast
  have "qcapacity (squeue s) = 2 ^ m"
    using sys_run_capacity [OF assms(3)] m(1) by (simp add: sys_init_def queue_init_def)
  then have "int (length (enqueued tr)) \<le> int (dequeued tr) + 2 ^ m"
    using r by (simp add: ring_ok_def)
  then have 1: "\<exists>m. uint c \<le> 2 ^ m \<and> (\<forall>l. uint c \<le> 2 ^ l \<longrightarrow> m \<le> l) \<and> int (length (enqueued tr)) \<le> int (dequeued tr) + 2 ^ m"
    using m by blast
  have 2: "dequeued tr \<le> length (enqueued tr)"
    using r by (simp add: ring_ok_def)
  have 5: "queue_size (squeue s) (squeue s1) = int (length (enqueued (tr @ tr1))) - int (dequeued tr)" if "sys_run s tr1 s1" for tr1 s1
  proof -
    have "queue_inv s1 (enqueued (tr @ tr1)) (dequeued (tr @ tr1)) (returned (tr @ tr1))"
      using inv_sys_run [OF sys_run_append [OF that assms(3)] inv_init [OF assms(1,2)]] by simp
    then show ?thesis
      using r by (simp add: queue_inv_def ring_ok_def queue_size_def)
  qed
  have 3: "\<forall>t. spc s t = Idle \<longrightarrow> claims t tr = accepts t tr"
    using claims_run [OF assms(3)] by (simp add: sys_init_def)
  have 4: "fst ` set (returned tr) = {0..<int (dequeued tr)}" if "\<forall>t. spc s t = Idle"
  proof -
    have "k \<in> fst ` set (returned tr)" if "0 \<le> k" "k < int (dequeued tr)" for k
      using re that \<open>\<forall>t. spc s t = Idle\<close> unfolding returns_ok_def by simp
    moreover have "0 \<le> k \<and> k < int (dequeued tr)" if "k \<in> fst ` set (returned tr)" for k
      using re that unfolding returns_ok_def by fastforce
    ultimately show ?thesis
      by (intro set_eqI iffI) (simp_all only: atLeastLessThan_iff)
  qed
  show ?thesis
    using re 1 2 3 4 5 unfolding returns_ok_def by blast
qed

section \<open>Computed runs\<close>

text \<open>A schedule: calls of \<^verbatim>\<open>push\<close> and \<^verbatim>\<open>pop\<close> and single steps of threads.\<close>

datatype 'a qorder = Push nat 'a | Pop nat | Step nat

fun follow :: "'a qsys \<Rightarrow> 'a qorder list \<Rightarrow> ((nat \<times> 'a qevent) list \<times> 'a qsys) option" where
  "follow s [] = Some ([], s)"
| "follow s (Push t d # os) =
     (case spc s t of
        Idle \<Rightarrow> map_option (\<lambda>(tr, s'). ((t, CallPush d) # tr, s')) (follow (s\<lparr>spc := (spc s)(t := PushRead d)\<rparr>) os)
      | _ \<Rightarrow> None)"
| "follow s (Pop t # os) =
     (case spc s t of
        Idle \<Rightarrow> map_option (\<lambda>(tr, s'). ((t, CallPop) # tr, s')) (follow (s\<lparr>spc := (spc s)(t := PopRead)\<rparr>) os)
      | _ \<Rightarrow> None)"
| "follow s (Step t # os) =
     (case thread_step (spc s t) (squeue s) of
        Some (e, pc, q) \<Rightarrow> map_option (\<lambda>(tr, s'). ((t, e) # tr, s')) (follow \<lparr>squeue = q, spc = (spc s)(t := pc)\<rparr> os)
      | None \<Rightarrow> None)"

lemma run_cons: "sys_run s1 tr s2 \<Longrightarrow> sys_step s t e s1 \<Longrightarrow> sys_run s ((t, e) # tr) s2"
proof (induction rule: sys_run.induct)
  case (run_none s1)
  then show ?case
    using sys_run.run_step [OF sys_run.run_none run_none] by simp
next
  case (run_step s1 tr s2 u f s3)
  then show ?case
    using sys_run.run_step [of s "(t, e) # tr" s2 u f s3] by simp
qed

lemma follow_run: "follow s os = Some (tr, s') \<Longrightarrow> sys_run s tr s'"
proof (induction s os arbitrary: tr rule: follow.induct)
  case (2 s t d os)
  then show ?case
    by (auto split: qpc.splits intro!: run_cons call_push)
next
  case (3 s t os)
  then show ?case
    by (auto split: qpc.splits intro!: run_cons call_pop)
next
  case (4 s t os)
  then show ?case
    by (auto split: option.splits intro!: run_cons run)
qed (simp add: run_none)

lemma queue_init_2: "queue_init 2 = \<lparr>qcapacity = 2, qmask = 1, qnodes = (\<lambda>i. \<lparr>ndata = None, ntail = i, nhead = - 1\<rparr>), qtail = 0, qhead = 0\<rparr>"
  by (simp add: queue_init_def capacity_mask_def Let_def)

definition push_alone :: "nat \<Rightarrow> 'a \<Rightarrow> 'a qorder list" where
  "push_alone t d = Push t d # replicate 5 (Step t)"

definition pop_alone :: "nat \<Rightarrow> 'a qorder list" where
  "pop_alone t = Pop t # replicate 6 (Step t)"

lemmas alone = push_alone_def pop_alone_def eval_nat_numeral

lemma queue_fifo_witness:
  "\<exists>tr s. sys_run (sys_init 2) tr s \<and> returned tr = [(0, 5 :: nat)] \<and> enqueued tr = [5, 6] \<and> queue_size (squeue s) (squeue s) = 1"
proof -
  have "\<exists>tr s. follow (sys_init 2) (push_alone 0 (5 :: nat) @ push_alone 1 6 @ pop_alone 0) = Some (tr, s)
    \<and> returned tr = [(0, 5)] \<and> enqueued tr = [5, 6] \<and> dequeued tr = 1"
    by (simp add: alone sys_init_def queue_init_2 slot_def node_def set_node_def)
  then obtain tr s where tr: "sys_run (sys_init 2) tr s" "returned tr = [(0, 5 :: nat)]" "enqueued tr = [5, 6]" "dequeued tr = 1"
    using follow_run by blast
  have "\<forall>tr1 s1. sys_run s tr1 s1 \<longrightarrow> queue_size (squeue s) (squeue s1) = int (length (enqueued (tr @ tr1))) - int (dequeued tr)"
    using queue_fifo [OF _ _ tr(1)] by simp
  then have "queue_size (squeue s) (squeue s) = int (length (enqueued (tr @ []))) - int (dequeued tr)"
    using sys_run.run_none by blast
  then show ?thesis
    using tr by auto
qed

section \<open>Calls that fail without need\<close>

lemma all_prefixes: "list_all P [0..<Suc n] \<longleftrightarrow> (\<forall>i\<le>n. P i)"
  by (auto simp: list_all_iff less_Suc_eq_le)

text \<open>C31. \<^verbatim>\<open>push\<close> may return false although the queue holds less than its capacity during the whole call, and \<^verbatim>\<open>pop\<close> although it is
  never empty during the whole call: the position that the thread has read is outdated when it checks the node.\<close>

theorem queue_spurious_failures:
  "(\<exists>tr s. sys_run (sys_init 2) tr (s :: nat qsys) \<and> tr \<noteq> [] \<and> last tr = (0, ReturnPush False)
      \<and> (\<forall>i\<le>length tr. length (enqueued (take i tr)) \<le> dequeued (take i tr) + 1))
   \<and> (\<exists>tr tr' s. sys_run (sys_init 2) (tr @ (0, CallPop) # tr') (s :: nat qsys) \<and> tr' \<noteq> [] \<and> last tr' = (0, ReturnEmpty)
      \<and> (\<forall>i\<le>length tr'. dequeued (tr @ take i tr') < length (enqueued (tr @ take i tr'))))"
proof (rule conjI)
  have "\<exists>tr s. follow (sys_init 2) ([Push 0 (7 :: nat), Step 0] @ push_alone 1 8 @ pop_alone 1 @ [Step 0]) = Some (tr, s)
    \<and> tr \<noteq> [] \<and> last tr = (0, ReturnPush False)
    \<and> list_all (\<lambda>i. length (enqueued (take i tr)) \<le> dequeued (take i tr) + 1) [0..<Suc (length tr)]"
    by (simp add: alone sys_init_def queue_init_2 slot_def node_def set_node_def)
  then show "\<exists>tr s. sys_run (sys_init 2) tr (s :: nat qsys) \<and> tr \<noteq> [] \<and> last tr = (0, ReturnPush False)
      \<and> (\<forall>i\<le>length tr. length (enqueued (take i tr)) \<le> dequeued (take i tr) + 1)"
    unfolding all_prefixes using follow_run by blast
next
  have "\<exists>tr s. follow (sys_init 2) (push_alone 1 (7 :: nat) @ push_alone 1 8 @ [Pop 0, Step 0] @ pop_alone 1 @ push_alone 1 9 @ [Step 0])
      = Some (tr, s) \<and> tr = take 12 tr @ (0, CallPop) # drop 13 tr \<and> drop 13 tr \<noteq> [] \<and> last (drop 13 tr) = (0, ReturnEmpty)
    \<and> list_all (\<lambda>i. dequeued (take 12 tr @ take i (drop 13 tr)) < length (enqueued (take 12 tr @ take i (drop 13 tr))))
        [0..<Suc (length (drop 13 tr))]"
    by (simp add: alone sys_init_def queue_init_2 slot_def node_def set_node_def)
  then show "\<exists>tr tr' s. sys_run (sys_init 2) (tr @ (0, CallPop) # tr') (s :: nat qsys) \<and> tr' \<noteq> [] \<and> last tr' = (0, ReturnEmpty)
      \<and> (\<forall>i\<le>length tr'. dequeued (tr @ take i tr') < length (enqueued (tr @ take i tr')))"
    unfolding all_prefixes using follow_run by metis
qed

lemma queue_spurious_failures_witness:
  "\<exists>tr s. sys_run (sys_init 2) tr (s :: nat qsys) \<and> last tr = (0, ReturnPush False) \<and> length (enqueued tr) < dequeued tr + 2"
proof -
  from conjunct1 [OF queue_spurious_failures] obtain tr and s :: "nat qsys" where "sys_run (sys_init 2) tr s" "last tr = (0, ReturnPush False)"
    "\<forall>i\<le>length tr. length (enqueued (take i tr)) \<le> dequeued (take i tr) + 1"
    by (elim exE conjE) (rule that)
  then show ?thesis
    by (intro exI [of _ tr] exI [of _ s]) (auto dest: spec [of _ "length tr"])
qed

section \<open>Every call ends\<close>

fun is_call :: "'a qevent \<Rightarrow> bool" where
  "is_call (CallPush d) = True"
| "is_call CallPop = True"
| "is_call _ = False"

fun undecided :: "'a qpc \<Rightarrow> bool" where
  "undecided (PushRead d) = True"
| "undecided (PushCheck d k) = True"
| "undecided (PushSwap d k) = True"
| "undecided PopRead = True"
| "undecided (PopCheck k) = True"
| "undecided (PopSwap k) = True"
| "undecided _ = False"

text \<open>The accesses to the end of the call or to the next swap that succeeds, while the counters are \<open>tail\<close> and \<open>head\<close>.\<close>

fun accesses :: "int \<Rightarrow> int \<Rightarrow> 'a qpc \<Rightarrow> nat" where
  "accesses tail head Idle = 0"
| "accesses tail head (PushRead d) = 3"
| "accesses tail head (PushCheck d k) = (if k = tail then 2 else 4)"
| "accesses tail head (PushSwap d k) = (if k = tail then 1 else 3)"
| "accesses tail head (PushWrite d k) = 2"
| "accesses tail head (PushPublish k) = 1"
| "accesses tail head PopRead = 3"
| "accesses tail head (PopCheck k) = (if k = head then 2 else 4)"
| "accesses tail head (PopSwap k) = (if k = head then 1 else 3)"
| "accesses tail head (PopTake k) = 3"
| "accesses tail head (PopDestroy k x) = 2"
| "accesses tail head (PopRelease k x) = 1"

definition weight :: "nat \<Rightarrow> 'a queue \<Rightarrow> 'a qpc \<Rightarrow> nat" where
  "weight a q pc = accesses (qtail q) (qhead q) pc + (if undecided pc then 4 * a + 1 else 0)"

lemma accesses_le: "accesses tail head pc \<le> 4"
  by (cases pc) simp_all

text \<open>A step brings its thread nearer to the end, or it changes a counter and pays for the delay of all others.\<close>

lemma thread_step_weight:
  assumes "thread_step pc q = Some (e, pc', q')"
  shows "weight a q' pc' < weight a q pc \<and> qtail q' = qtail q \<and> qhead q' = qhead q \<or> weight a q' pc' + 4 * a \<le> weight a q pc + 3"
proof (cases pc)
  case (PushSwap d k)
  then show ?thesis using assms by (cases "qtail q = k") (auto simp: weight_def)
next
  case (PopSwap k)
  then show ?thesis using assms by (cases "qhead q = k") (auto simp: weight_def)
qed (use assms in \<open>auto simp: weight_def split: if_splits option.splits\<close>)

definition potential :: "nat set \<Rightarrow> 'a qsys \<Rightarrow> nat" where
  "potential A s = (\<Sum>t\<in>A. weight (card A) (squeue s) (spc s t))"

lemma step_potential:
  assumes "finite A" "t \<in> A" "thread_step (spc s t) (squeue s) = Some (e, pc, q)"
  shows "potential A \<lparr>squeue = q, spc = (spc s)(t := pc)\<rparr> < potential A s"
proof -
  let ?a = "card A"
  define s' where "s' = \<lparr>squeue = q, spc = (spc s)(t := pc)\<rparr>"
  have split: "potential A s = weight ?a (squeue s) (spc s t) + (\<Sum>u\<in>A - {t}. weight ?a (squeue s) (spc s u))"
    "potential A s' = weight ?a q pc + (\<Sum>u\<in>A - {t}. weight ?a q (spc s u))"
    unfolding potential_def s'_def using assms(1,2) by (simp_all add: sum.remove)
  from thread_step_weight [OF assms(3), of ?a]
  have "potential A s' < potential A s"
  proof
    assume w: "weight ?a q pc < weight ?a (squeue s) (spc s t) \<and> qtail q = qtail (squeue s) \<and> qhead q = qhead (squeue s)"
    then have "(\<Sum>u\<in>A - {t}. weight ?a q (spc s u)) = (\<Sum>u\<in>A - {t}. weight ?a (squeue s) (spc s u))"
      by (simp add: weight_def)
    then show ?thesis
      using split w by simp
  next
    assume w: "weight ?a q pc + 4 * ?a \<le> weight ?a (squeue s) (spc s t) + 3"
    have "weight ?a q (spc s u) \<le> weight ?a (squeue s) (spc s u) + 4" for u
      unfolding weight_def using accesses_le [of "qtail q" "qhead q" "spc s u"] by simp
    then have "(\<Sum>u\<in>A - {t}. weight ?a q (spc s u)) \<le> (\<Sum>u\<in>A - {t}. weight ?a (squeue s) (spc s u) + 4)"
      by (intro sum_mono)
    also have "\<dots> = (\<Sum>u\<in>A - {t}. weight ?a (squeue s) (spc s u)) + 4 * (?a - 1)"
      using assms(1,2) by (simp add: sum.distrib)
    finally show ?thesis
      using split w assms(1,2) by (cases ?a) simp_all
  qed
  then show ?thesis
    by (simp add: s'_def)
qed

lemma run_potential:
  assumes "sys_run s tr s'" "finite A" "\<And>t. spc s t \<noteq> Idle \<Longrightarrow> t \<in> A" "\<And>t e. (t, e) \<in> set tr \<Longrightarrow> \<not> is_call e"
  shows "(\<forall>t. spc s' t \<noteq> Idle \<longrightarrow> t \<in> A) \<and> length tr + potential A s' \<le> potential A s"
  using assms
proof (induction rule: sys_run.induct)
  case (run_step s tr s1 t e s2)
  have IH: "spc s1 u \<noteq> Idle \<Longrightarrow> u \<in> A" "length tr + potential A s1 \<le> potential A s" for u
    using run_step.IH [OF run_step.prems(1,2)] run_step.prems(3) by auto
  have e: "\<not> is_call e"
    using run_step.prems(3) [of t e] by simp
  from run_step.hyps(2) show ?case
  proof cases
    case (run pc q)
    have "spc s1 t \<noteq> Idle"
      using run(2) by auto
    then have "t \<in> A"
      by (rule IH)
    then show ?thesis
      using step_potential [OF run_step.prems(1) \<open>t \<in> A\<close> run(2)] IH run(1) by auto
  qed (use e in simp_all)
qed simp

lemma potential_le:
  assumes "finite A"
  shows "potential A s \<le> card A * (4 * card A + 5)"
proof -
  have "weight a q pc \<le> 4 * a + 5" for a and q :: "'a queue" and pc
    unfolding weight_def using accesses_le [of "qtail q" "qhead q" pc] by simp
  then show ?thesis
    unfolding potential_def using assms sum_bounded_above [of A "\<lambda>t. weight (card A) (squeue s) (spc s t)" "4 * card A + 5"] by simp
qed

lemma busy_finite: "sys_run s tr s' \<Longrightarrow> finite {t. spc s t \<noteq> Idle} \<Longrightarrow> finite {t. spc s' t \<noteq> Idle}"
proof (induction rule: sys_run.induct)
  case (run_step s tr s1 t e s2)
  have "{u. spc s2 u \<noteq> Idle} \<subseteq> insert t {u. spc s1 u \<noteq> Idle}"
    using run_step.hyps(2) by (auto elim!: sys_stepE split: if_splits)
  then show ?case
    using run_step.IH [OF run_step.prems] by (meson finite_insert finite_subset)
qed

text \<open>C30. From every state that is reached, with \<open>a\<close> calls under way, every run without new calls has at most \<open>a * (4 * a + 5)\<close>
  accesses, and it can go on until all calls have returned, whatever the order of the threads.\<close>

theorem queue_calls_end:
  assumes "0 < uint c" "uint c \<le> 2 ^ 32" "sys_run (sys_init c) tr s" "a = card {t. spc s t \<noteq> Idle}"
    and "sys_run s tr' s'" "\<And>t e. (t, e) \<in> set tr' \<Longrightarrow> \<not> is_call e"
  shows "length tr' \<le> a * (4 * a + 5)
    \<and> ((\<forall>t. spc s' t = Idle) \<or> (\<exists>t e s''. sys_step s' t e s'' \<and> \<not> is_call e))"
proof -
  have fin: "finite {t. spc s t \<noteq> Idle}"
    by (rule busy_finite [OF assms(3)]) (simp add: sys_init_def)
  have "length tr' + potential {t. spc s t \<noteq> Idle} s' \<le> potential {t. spc s t \<noteq> Idle} s"
    using run_potential [OF assms(5) fin _ assms(6)] by simp
  then have 1: "length tr' \<le> a * (4 * a + 5)"
    using potential_le [OF fin, of s] assms(4) by simp
  have inv: "queue_inv s' (enqueued tr @ enqueued tr') (dequeued tr + dequeued tr') (returned tr @ returned tr')"
    using inv_sys_run [OF assms(5) inv_sys_run [OF assms(3) inv_init [OF assms(1,2)]]] by simp
  have "\<exists>e s''. sys_step s' t e s'' \<and> \<not> is_call e" if t: "spc s' t \<noteq> Idle" for t
  proof -
    obtain e pc q where step: "thread_step (spc s' t) (squeue s') = Some (e, pc, q)"
      using inv_progress [OF inv t] by auto
    then have "\<not> is_call e"
      by (cases "spc s' t") (auto split: if_splits option.splits)
    then show ?thesis
      using run [of s' t] step by blast
  qed
  then show ?thesis
    using 1 by blast
qed

lemma queue_calls_end_witness:
  "\<exists>s tr' s'. sys_run s tr' (s' :: nat qsys) \<and> length tr' = 3 \<and> length tr' \<le> 9 \<and> (\<exists>t e s''. sys_step s' t e s'' \<and> \<not> is_call e)"
proof -
  define s where "s = (sys_init 2)\<lparr>spc := (spc (sys_init 2))(0 := PushRead (7 :: nat))\<rparr>"
  have "\<exists>tr. follow (sys_init 2) [Push 0 (7 :: nat)] = Some (tr, s)"
    by (simp add: s_def sys_init_def)
  then obtain tr where tr: "sys_run (sys_init 2) tr s"
    using follow_run by blast
  have "{t. spc s t \<noteq> Idle} = {0}"
    by (auto simp: s_def sys_init_def)
  then have a: "1 = card {t. spc s t \<noteq> Idle}"
    by simp
  have "\<exists>tr' s'. follow s [Step 0, Step 0, Step 0] = Some (tr', s') \<and> length tr' = 3 \<and> list_all (\<lambda>(t, e). \<not> is_call e) tr' \<and> spc s' 0 \<noteq> Idle"
    by (simp add: s_def sys_init_def queue_init_2 slot_def node_def set_node_def)
  then obtain tr' s' where tr': "sys_run s tr' s'" "length tr' = 3" "list_all (\<lambda>(t, e). \<not> is_call e) tr'" "spc s' 0 \<noteq> Idle"
    using follow_run by blast
  have "length tr' \<le> 1 * (4 * 1 + 5) \<and> ((\<forall>t. spc s' t = Idle) \<or> (\<exists>t e s''. sys_step s' t e s'' \<and> \<not> is_call e))"
    by (rule queue_calls_end [OF _ _ tr a tr'(1)]) (use tr'(3) in \<open>auto simp: list_all_iff\<close>)
  moreover have "\<not> (\<forall>t. spc s' t = Idle)"
    using tr'(4) by blast
  ultimately have "length tr' \<le> 9 \<and> (\<exists>t e s''. sys_step s' t e s'' \<and> \<not> is_call e)"
    by simp
  then show ?thesis
    using tr'(1,2) by blast
qed

section \<open>The signal\<close>

fun fcall_ok :: "bool \<Rightarrow> fpc \<Rightarrow> bool" where
  "fcall_ok resets ResetSwap = resets"
| "fcall_ok resets _ = True"

text \<open>A run of calls and accesses, with or without calls of \<^verbatim>\<open>reset\<close>.\<close>

definition freach :: "bool \<Rightarrow> fsignal \<times> (nat \<Rightarrow> fpc) \<Rightarrow> fsignal \<times> (nat \<Rightarrow> fpc) \<Rightarrow> bool" where
  "freach resets = (\<lambda>x y. fsys_step x y \<and> (\<forall>t. fcall_ok resets (snd y t)))\<^sup>*\<^sup>*"

definition fstart :: "fsignal \<times> (nat \<Rightarrow> fpc)" where
  "fstart = (\<lparr>fstate = False, fset = False\<rparr>, \<lambda>t. Rest)"

text \<open>A schedule of the signal: calls and accesses.\<close>

fun ffollow :: "fsignal \<times> (nat \<Rightarrow> fpc) \<Rightarrow> (nat \<times> fpc option) list \<Rightarrow> (fsignal \<times> (nat \<Rightarrow> fpc)) option" where
  "ffollow x [] = Some x"
| "ffollow (f, pc) ((t, Some p) # os) =
     (if pc t = Rest \<and> p \<in> {SetSwap, ResetSwap, WaitLoad} then ffollow (f, pc(t := p)) os else None)"
| "ffollow (f, pc) ((t, None) # os) =
     (case signal_step (pc t) f of Some (p, f') \<Rightarrow> ffollow (f', pc(t := p)) os | None \<Rightarrow> None)"

lemma freach_step: "fsys_step x y \<Longrightarrow> freach True y z \<Longrightarrow> freach True x z"
proof -
  have "fcall_ok True p" for p
    by (cases p) simp_all
  then show "fsys_step x y \<Longrightarrow> freach True y z \<Longrightarrow> freach True x z"
    unfolding freach_def by (intro converse_rtranclp_into_rtranclp [of _ x y z]) simp_all
qed

lemma ffollow_reach: "ffollow x os = Some y \<Longrightarrow> freach True x y"
proof (induction x os rule: ffollow.induct)
  case (2 f pc t p os)
  then show ?case
    by (auto split: if_splits intro!: freach_step [of "(f, pc)" "(f, pc(t := p))"] fcall)
next
  case (3 f pc t os)
  then show ?case
    by (auto split: option.splits intro!: freach_step [of "(f, pc)"] frun)
qed (simp add: freach_def)

lemma lost_stays:
  assumes "freach False x y" "fstate (fst x)" "\<not> fset (fst x)" "snd x 0 = WaitSignal" "\<forall>t. snd x t \<in> {Rest, SetSwap, WaitLoad, WaitSignal}"
  shows "fstate (fst y) \<and> \<not> fset (fst y) \<and> snd y 0 = WaitSignal \<and> (\<forall>t. snd y t \<in> {Rest, SetSwap, WaitLoad, WaitSignal})"
  using assms(1) unfolding freach_def
proof (induction rule: rtranclp_induct)
  case (step y z)
  from step.hyps(2) have "fsys_step y z" and ok: "\<forall>t. fcall_ok False (snd z t)"
    by simp_all
  from this(1) show ?case
  proof cases
    case (fcall pc t p f)
    then have "p \<noteq> ResetSwap"
      using ok by (auto dest: spec [of _ t])
    then show ?thesis
      using fcall step.IH by auto
  next
    case (frun pc t f p f1)
    have old: "fstate f" "\<not> fset f" "pc 0 = WaitSignal" "\<forall>u. pc u \<in> {Rest, SetSwap, WaitLoad, WaitSignal}"
      using frun(1) step.IH by simp_all
    have "pc t \<in> {Rest, SetSwap, WaitLoad, WaitSignal}"
      using old(4) by blast
    then have new: "fstate f1 \<and> \<not> fset f1 \<and> p = Rest \<and> pc t \<noteq> WaitSignal"
      using frun(3) old(1,2) by auto
    then have "t \<noteq> 0"
      using old(3) by metis
    then show ?thesis
      using old new frun(2) by simp
  qed
qed (use assms in simp)

text \<open>C32. A signal may be lost: when \<^verbatim>\<open>set\<close> comes between the two accesses of a \<^verbatim>\<open>reset\<close>, all calls of both return, the state is
  set and the inner signal is not. A thread that has read the state before then waits for ever, whatever \<^verbatim>\<open>set\<close> is called
  afterwards, until somebody calls \<^verbatim>\<open>reset\<close> again.\<close>

theorem signal_lost:
  "\<exists>f pc. freach True fstart (f, pc) \<and> pc 0 = WaitSignal \<and> (\<forall>t. t \<noteq> 0 \<longrightarrow> pc t = Rest) \<and> fstate f
    \<and> (\<forall>f' pc'. freach False (f, pc) (f', pc') \<longrightarrow> pc' 0 = WaitSignal \<and> signal_step (pc' 0) f' = None)"
proof -
  let ?os = "[(2, Some SetSwap), (2, None), (2, None), (1, Some ResetSwap), (1, None), (0, Some WaitLoad), (0, None),
    (2, Some SetSwap), (2, None), (2, None), (1, None)]"
  define y where "y = (\<lparr>fstate = True, fset = False\<rparr>, ((\<lambda>t. Rest) :: nat \<Rightarrow> fpc)(0 := WaitSignal))"
  have "\<exists>z. ffollow fstart ?os = Some z \<and> z = y"
    by (simp add: fstart_def y_def fun_upd_twist) (auto simp: fun_eq_iff)
  then have r: "freach True fstart y"
    using ffollow_reach by blast
  have "pc' 0 = WaitSignal \<and> signal_step (pc' 0) f' = None" if "freach False y (f', pc')" for f' pc'
    using lost_stays [OF that] by (auto simp: y_def)
  then show ?thesis
    using r unfolding y_def
    by (intro exI [of _ "\<lparr>fstate = True, fset = False\<rparr>"] exI [of _ "(\<lambda>t. Rest)(0 := WaitSignal)"]) simp
qed

lemma signal_lost_witness: "\<exists>f pc. freach True fstart (f, pc) \<and> fstate f \<and> pc 0 = WaitSignal \<and> signal_step (pc 0) f = None"
  using signal_lost unfolding freach_def by (elim exE conjE) (rule exI, rule exI, intro conjI, assumption+, blast)

end
