(* ===== verification/Nstd_Path.thy ===== *)
theory Nstd_Path
  imports Nstd_StringProps
begin

text \<open>
  The functions of \<^verbatim>\<open>File\<close> that work on paths (src/File.cpp): the parts of a path, simplification, relative and absolute
  paths. Paths are byte strings, positions count from the start of the string, and a loop that runs from the end of the
  string counts down to 0, the position in front of the start.
\<close>

section \<open>The parts of a path\<close>

definition path_sep :: "byte \<Rightarrow> bool" where
  "path_sep c \<longleftrightarrow> c = 92 \<or> c = 47"

fun directory_loop :: "byte list \<Rightarrow> nat \<Rightarrow> byte list" where
  "directory_loop file 0 = lit ''.''"
| "directory_loop file (Suc pos) = (if path_sep (file ! pos) then str_substr file 0 (int pos) else directory_loop file pos)"

definition getDirectoryName :: "byte list \<Rightarrow> byte list" where
  "getDirectoryName file = directory_loop file (length file)"

fun base_loop :: "byte list \<Rightarrow> nat \<Rightarrow> nat" where
  "base_loop file 0 = 0"
| "base_loop file (Suc pos) = (if path_sep (file ! pos) then pos + 1 else base_loop file pos)"

definition getBaseName :: "byte list \<Rightarrow> byte list \<Rightarrow> byte list" where
  "getBaseName file extension =
     (let result = base_loop file (length file);
          resultLen = length file - result;
          extensionLen = length extension
      in if extensionLen \<noteq> 0 then
           (if at0 extension = 46 then
              (if resultLen \<ge> extensionLen \<and> c_compare (drop (result + resultLen - extensionLen) file) extension = 0
               then take (resultLen - extensionLen) (drop result file)
               else take resultLen (drop result file))
            else
              (if resultLen \<ge> extensionLen + 1 \<and> file ! (result + (resultLen - (extensionLen + 1))) = 46
                 \<and> c_compare (drop (result + resultLen - extensionLen) file) extension = 0
               then take (resultLen - (extensionLen + 1)) (drop result file)
               else take resultLen (drop result file)))
         else take resultLen (drop result file))"

fun stem_loop :: "byte list \<Rightarrow> nat \<Rightarrow> nat option \<Rightarrow> nat \<times> nat option" where
  "stem_loop file 0 dot = (0, dot)"
| "stem_loop file (Suc pos) dot =
     (if file ! pos = 46 then stem_loop file pos (Some pos)
      else if path_sep (file ! pos) then (pos + 1, dot)
      else stem_loop file pos dot)"

definition getStem :: "byte list \<Rightarrow> byte list \<Rightarrow> byte list" where
  "getStem file extension =
     (if extension \<noteq> [] then getBaseName file extension
      else
        (let (result, dot) = stem_loop file (length file) None;
             resultLen = (case dot of Some d \<Rightarrow> d - result | None \<Rightarrow> length file - result)
         in take resultLen (drop result file)))"

fun extension_loop :: "byte list \<Rightarrow> nat \<Rightarrow> byte list" where
  "extension_loop file 0 = []"
| "extension_loop file (Suc pos) =
     (if file ! pos = 46 then take (length file - (pos + 1)) (drop (pos + 1) file)
      else if path_sep (file ! pos) then []
      else extension_loop file pos)"

definition getExtension :: "byte list \<Rightarrow> byte list" where
  "getExtension file = extension_loop file (length file)"

section \<open>Simplification\<close>

function skip_seps :: "byte list \<Rightarrow> nat \<Rightarrow> nat" where
  "skip_seps path start = (if start < length path \<and> path_sep (path ! start) then skip_seps path (start + 1) else start)"
  by pat_completeness auto
termination
  by (relation "measure (\<lambda>(path, start). length path - start)") auto

function chunk_end :: "byte list \<Rightarrow> nat \<Rightarrow> nat" where
  "chunk_end path fin = (if fin < length path \<and> \<not> path_sep (path ! fin) then chunk_end path (fin + 1) else fin)"
  by pat_completeness auto
termination
  by (relation "measure (\<lambda>(path, fin). length path - fin)") auto

declare skip_seps.simps [simp del] chunk_end.simps [simp del]

text \<open>The search for the last separator of the result; 0 is the position in front of it.\<close>

fun last_sep :: "byte list \<Rightarrow> nat \<Rightarrow> nat" where
  "last_sep result 0 = 0"
| "last_sep result (Suc pos) = (if path_sep (result ! pos) then Suc pos else last_sep result pos)"

definition append_chunk :: "bool \<Rightarrow> byte list \<Rightarrow> byte list \<Rightarrow> byte list" where
  "append_chunk startsWithSlash result chunk = (if result \<noteq> [] \<or> startsWithSlash then result @ [47] else result) @ chunk"

definition simplify_step :: "bool \<Rightarrow> byte list \<Rightarrow> byte list \<Rightarrow> byte list" where
  "simplify_step startsWithSlash result chunk =
     (if length chunk = 2 \<and> at0 chunk = 46 \<and> chunk ! 1 = 46 \<and> result \<noteq> [] then
        (let pos = last_sep result (length result)
         in if c_compare (drop pos result) (lit ''..'') \<noteq> 0 then take (pos - 1) result
            else append_chunk startsWithSlash result chunk)
      else if length chunk = 1 \<and> at0 chunk = 46 then result
      else append_chunk startsWithSlash result chunk)"

lemma skip_seps_ge: "start \<le> skip_seps path start"
  by (induction path start rule: skip_seps.induct) (subst skip_seps.simps, auto)

lemma chunk_end_ge: "fin \<le> chunk_end path fin"
  by (induction path fin rule: chunk_end.induct) (subst chunk_end.simps, auto)

function simplify_loop :: "byte list \<Rightarrow> bool \<Rightarrow> nat \<Rightarrow> byte list \<Rightarrow> byte list" where
  "simplify_loop path startsWithSlash start result =
     (let start1 = skip_seps path start;
          fin = chunk_end path start1
      in if fin = start1 then result
         else
           (let result1 = simplify_step startsWithSlash result (take (fin - start1) (drop start1 path))
            in if fin \<ge> length path then result1 else simplify_loop path startsWithSlash (fin + 1) result1))"
  by pat_completeness auto
termination
proof (relation "measure (\<lambda>(path, _, start, _). length path - start)")
  fix path start and startsWithSlash :: bool and result result1 :: "byte list" and start1 fin
  assume "start1 = skip_seps path start" "fin = chunk_end path start1" "\<not> length path \<le> fin"
  then show "((path, startsWithSlash, fin + 1, result1), (path, startsWithSlash, start, result))
      \<in> measure (\<lambda>(path, _, start, _). length path - start)"
    using skip_seps_ge [of start path] chunk_end_ge [of start1 path] by simp
qed simp

declare simplify_loop.simps [simp del]

definition simplifyPath :: "byte list \<Rightarrow> byte list" where
  "simplifyPath path = simplify_loop path (at0 path = 47 \<or> at0 path = 92) 0 []"

section \<open>Absolute and relative paths\<close>

definition isAbsolutePath :: "byte list \<Rightarrow> bool" where
  "isAbsolutePath path \<longleftrightarrow>
     at0 path = 47 \<or> at0 path = 92 \<or> (length path > 2 \<and> path ! 1 = 58 \<and> (path ! 2 = 47 \<or> path ! 2 = 92))"

text \<open>The rest of a string of the given length; \<open>None\<close> when the length is below 0 and wraps around.\<close>

definition rest_of :: "byte list \<Rightarrow> nat \<Rightarrow> byte list option" where
  "rest_of s n = (if length s < n then None else Some (drop n s))"

lemma findLast_less: "findLast_char_loop s c p = Some n \<Longrightarrow> n < p"
  by (induction s c p rule: findLast_char_loop.induct) (auto split: if_splits)

function relative_loop :: "byte list \<Rightarrow> byte list \<Rightarrow> byte list \<Rightarrow> byte list option" where
  "relative_loop simTo simFrom result =
     (if length simFrom > 0 then
        (let from1 = take (length simFrom - 1) simFrom
         in case str_findLast from1 47 of
              None \<Rightarrow> Some []
            | Some newEnd \<Rightarrow>
                (let from2 = take (newEnd + 1) from1
                 in if c_compare_n simTo from2 (length from2) = 0
                    then map_option (\<lambda>r. result @ r) (rest_of simTo (length from2))
                    else relative_loop simTo from2 (result @ lit ''../'')))
      else Some [])"
  by pat_completeness auto
termination
  by (relation "measure (\<lambda>(_, simFrom, _). length simFrom)") (auto simp: min_less_iff_disj)

declare relative_loop.simps [simp del]

definition getRelativePath :: "byte list \<Rightarrow> byte list \<Rightarrow> byte list option" where
  "getRelativePath from to =
     (let simFrom = simplifyPath from;
          simTo = simplifyPath to
      in if simFrom = simTo then Some (lit ''.'')
         else
           (let simFrom1 = simFrom @ [47]
            in if c_compare_n simTo simFrom1 (length simFrom1) = 0 then rest_of simTo (length simFrom1)
               else relative_loop simTo simFrom1 (lit ''../'')))"

text \<open>The current directory is a parameter.\<close>

definition getAbsolutePath :: "byte list \<Rightarrow> byte list \<Rightarrow> byte list" where
  "getAbsolutePath currentDirectory path = (if isAbsolutePath path then path else currentDirectory @ [47] @ path)"

end
