(* ===== verification/Nstd_PathProps.thy ===== *)
theory Nstd_PathProps
  imports Nstd_Path
begin

text \<open>
  Properties of \<open>Nstd_Path\<close>: the parts of a path make up the path; simplifying is the normal form of the list of its names, leaves
  its meaning alone and is idempotent; a relative path leads from the one directory to the other, where it exists.
\<close>

section \<open>The parts of a path\<close>

definition base_of :: "byte list \<Rightarrow> byte list" where
  "base_of file = rev (takeWhile (\<lambda>c. \<not> path_sep c) (rev file))"

lemma base_of_seps: "\<forall>c\<in>set (base_of file). \<not> path_sep c"
  by (auto simp: base_of_def dest: set_takeWhileD)

lemma file_parts: "base_of file = file \<or> (\<exists>d s. file = d @ s # base_of file \<and> path_sep s)"
proof -
  let ?P = "\<lambda>c. \<not> path_sep c"
  have split: "file = rev (dropWhile ?P (rev file)) @ base_of file"
    unfolding base_of_def by (simp flip: rev_append)
  show ?thesis
  proof (cases "dropWhile ?P (rev file)")
    case Nil
    then show ?thesis using split by (metis append_Nil rev.simps(1))
  next
    case (Cons s d)
    then have "path_sep s"
      using hd_dropWhile [of ?P "rev file"] by simp
    then show ?thesis
      using split Cons by (intro disjI2 exI [of _ "rev d"] exI [of _ s]) simp
  qed
qed

text \<open>The loops run over characters that do not end them.\<close>

lemma loops_skip:
  assumes "\<forall>c\<in>set v. \<not> path_sep c" "f = x @ v @ y" "n = length x + length v"
  shows "base_loop f n = base_loop f (length x)"
    and "directory_loop f n = directory_loop f (length x)"
    and "46 \<notin> set v \<Longrightarrow> extension_loop f n = extension_loop f (length x)"
    and "stem_loop f n dot = stem_loop f (length x) (if 46 \<in> set v then Some (length x + length (takeWhile (\<lambda>c. c \<noteq> 46) v)) else dot)"
  using assms
proof (induction v arbitrary: y n dot rule: rev_induct)
  case (snoc c v)
  { case 1 then show ?case using snoc.IH(1) [of "c # y" "length x + length v"] by (simp add: nth_append) }
  { case 2 then show ?case using snoc.IH(2) [of "c # y" "length x + length v"] by (simp add: nth_append) }
  { case 3 then show ?case using snoc.IH(3) [of "c # y" "length x + length v"] by (simp add: nth_append) }
  { case 4 then show ?case using snoc.IH(4) [of "c # y" "length x + length v"] by (auto simp: nth_append takeWhile_append) }
qed simp_all

lemma file_split:
  obtains "base_of f = f" "f = [] @ base_of f @ []" "length f = length ([] :: byte list) + length (base_of f)"
  | d s where "f = d @ s # base_of f" "path_sep s" "s \<noteq> 46" "f ! length d = s" "length f = Suc (length d) + length (base_of f)"
    "f = (d @ [s]) @ base_of f @ []" "length f = length (d @ [s]) + length (base_of f)"
proof -
  have *: "f ! length d = s \<and> length f = Suc (length d) + length (base_of f)" if "f = d @ s # base_of f" for d s
    by (rule conjI) (subst that, simp add: nth_append)+
  consider "base_of f = f" | d s where "f = d @ s # base_of f" "path_sep s"
    using file_parts [of f] by blast
  then show ?thesis
  proof cases
    case (2 d s)
    then show ?thesis
      using * [OF 2(1)] by (intro that(2) [of d s]) (auto simp: path_sep_def)
  qed (simp add: that(1))
qed

lemmas skip_base = loops_skip [OF base_of_seps]

lemma base_loop_eq: "base_loop f (length f) = length f - length (base_of f)"
proof (cases f rule: file_split)
  case 1
  then show ?thesis using skip_base(1) [OF 1(2,3)] by simp
next
  case (2 d s)
  then show ?thesis using skip_base(1) [OF 2(6,7)] by simp
qed

lemma directory_correct:
  "base_of f = f \<and> getDirectoryName f = lit ''.'' \<or> (\<exists>s. f = getDirectoryName f @ s # base_of f \<and> path_sep s)"
proof (cases f rule: file_split)
  case 1
  then show ?thesis using skip_base(2) [OF 1(2,3)] by (simp add: getDirectoryName_def)
next
  case (2 d s)
  have "take (length d) f = d"
    by (subst 2(1)) simp
  then have "getDirectoryName f = d"
    unfolding getDirectoryName_def skip_base(2) [OF 2(6,7)] using 2(2,4,5) by (simp add: str_substr_def)
  then show ?thesis
    using 2(1,2) by blast
qed

lemma stem_correct: "getStem f [] = takeWhile (\<lambda>c. c \<noteq> 46) (base_of f)"
proof -
  let ?b = "base_of f"
  have t: "take (length (takeWhile (\<lambda>c. c \<noteq> 46) ?b)) ?b = takeWhile (\<lambda>c. c \<noteq> 46) ?b"
    by (metis takeWhile_eq_take)
  have no: "46 \<notin> set ?b \<Longrightarrow> takeWhile (\<lambda>c. c \<noteq> 46) ?b = ?b"
    by (metis (mono_tags, lifting) takeWhile_eq_all_conv)
  show ?thesis
  proof (cases f rule: file_split)
    case 1
    have "stem_loop f (length f) None = (0, if 46 \<in> set f then Some (length (takeWhile (\<lambda>c. c \<noteq> 46) f)) else None)"
      using skip_base(4) [OF 1(2,3), of None] 1(1) by simp
    note stem = this
    show ?thesis
    proof (cases "46 \<in> set f")
      case True
      then show ?thesis using stem t 1(1) by (simp add: getStem_def)
    next
      case False
      then have "takeWhile (\<lambda>c. c \<noteq> 46) f = f"
        using no 1(1) by simp
      then show ?thesis
        unfolding 1(1) by (simp only: getStem_def stem) (simp add: False)
    qed
  next
    case (2 d s)
    have "drop (Suc (length d)) f = ?b"
      by (subst 2(1)) simp
    moreover have "stem_loop f (length f) None = (Suc (length d),
        if 46 \<in> set ?b then Some (Suc (length d) + length (takeWhile (\<lambda>c. c \<noteq> 46) ?b)) else None)"
      unfolding skip_base(4) [OF 2(6,7)] using 2(2,3,4) by simp
    moreover have "length f - Suc (length d) = length ?b"
      using 2(5) by simp
    ultimately have "getStem f [] =
        take (if 46 \<in> set ?b then length (takeWhile (\<lambda>c. c \<noteq> 46) ?b) else length ?b) ?b"
      by (simp add: getStem_def)
    also have "\<dots> = takeWhile (\<lambda>c. c \<noteq> 46) ?b"
    proof (cases "46 \<in> set ?b")
      case False
      from no [OF this] show ?thesis
        using False by (simp del: takeWhile_eq_all_conv)
    qed (simp add: t)
    finally show ?thesis .
  qed
qed

lemma extension_correct:
  "if 46 \<in> set (base_of f) then \<exists>n. base_of f = n @ 46 # getExtension f \<and> 46 \<notin> set (getExtension f)
   else getExtension f = []"
proof (cases "46 \<in> set (base_of f)")
  case True
  then obtain n e where b: "base_of f = n @ 46 # e" "46 \<notin> set e"
    by (metis split_list_last)
  obtain d where d: "f = d @ base_of f"
    using file_parts [of f] by (metis append_Cons append_Nil append_assoc)
  then have f: "f = d @ n @ 46 # e"
    using b(1) by simp
  have seps: "\<forall>c\<in>set e. \<not> path_sep c"
    using base_of_seps [of f] b(1) by simp
  have "f ! (length d + length n) = 46" "length f = length d + length n + 1 + length e" "drop (length d + length n + 1) f = e"
    by (subst f, simp add: nth_append)+
  moreover have "extension_loop f (length f) = extension_loop f (length (d @ n @ [46]))"
    by (rule loops_skip(3) [OF seps, of _ _ "[]"]) (use f b(2) in simp_all)
  ultimately have "getExtension f = e"
    by (simp add: getExtension_def)
  then show ?thesis
    using True b by auto
next
  case False
  have "getExtension f = []"
  proof (cases f rule: file_split)
    case 1
    then show ?thesis using skip_base(3) [OF 1(2,3)] False by (simp add: getExtension_def)
  next
    case (2 d s)
    then show ?thesis unfolding getExtension_def skip_base(3) [OF 2(6,7) False] by simp
  qed
  then show ?thesis
    using False by simp
qed

lemma compare_eq: "0 \<notin> set s \<Longrightarrow> 0 \<notin> set t \<Longrightarrow> c_compare s t = 0 \<longleftrightarrow> s = t"
  by (simp add: c_compare_eq cstr_id list_compare_sign)

text \<open>The extension with its dot.\<close>

definition with_dot :: "byte list \<Rightarrow> byte list" where
  "with_dot extension = (if at0 extension = 46 then extension else 46 # extension)"

definition strip_suffix :: "byte list \<Rightarrow> byte list \<Rightarrow> byte list" where
  "strip_suffix e b = (if length e \<le> length b \<and> drop (length b - length e) b = e then take (length b - length e) b else b)"

lemma base_name_correct:
  assumes "0 \<notin> set f" "0 \<notin> set extension"
  shows "getBaseName f extension = (if extension = [] then base_of f else strip_suffix (with_dot extension) (base_of f))"
proof -
  let ?b = "base_of f" and ?e = "extension"
  obtain d where f: "f = d @ ?b"
    using file_parts [of f] by (metis append_Cons append_Nil append_assoc)
  then have len: "length f = length d + length ?b"
    by (metis length_append)
  then have start: "base_loop f (length f) = length d" "length f - length d = length ?b"
    using base_loop_eq [of f] by linarith+
  have b: "drop (length d + n) f = drop n ?b" for n
    by (subst f) simp
  have b2: "0 \<notin> set ?b"
    using assms(1) by (auto simp: base_of_def dest: set_takeWhileD)
  have dropped: "drop (length d + length ?b - length ?e) f = drop (length ?b - length ?e) ?b" if "length ?e \<le> length ?b"
    using b [of "length ?b - length ?e"] that by simp
  have cmp: "c_compare (drop n ?b) ?e = 0 \<longleftrightarrow> drop n ?b = ?e" for n
    using assms(2) b2 by (intro compare_eq) (auto dest: in_set_dropD)
  have plain: "drop (length d) f = ?b"
    using b [of 0] by simp
  have idx: "f ! (length d + n) = ?b ! n" for n
    by (subst f) (simp only: nth_append_length_plus)
  have "getBaseName f ?e =
     (if ?e = [] then ?b
      else if at0 ?e = 46 then
        (if length ?e \<le> length ?b \<and> drop (length ?b - length ?e) ?b = ?e then take (length ?b - length ?e) ?b else ?b)
      else
        (if length ?e + 1 \<le> length ?b \<and> ?b ! (length ?b - (length ?e + 1)) = 46 \<and> drop (length ?b - length ?e) ?b = ?e
         then take (length ?b - (length ?e + 1)) ?b else ?b))"
    unfolding getBaseName_def Let_def start plain idx using dropped cmp [of "length ?b - length ?e"]
    by (cases "?e = []"; cases "length ?e \<le> length ?b") simp_all
  moreover have "drop (length ?b - (length ?e + 1)) ?b = 46 # ?e \<longleftrightarrow>
      ?b ! (length ?b - (length ?e + 1)) = 46 \<and> drop (length ?b - length ?e) ?b = ?e" if "length ?e + 1 \<le> length ?b"
    using that Cons_nth_drop_Suc [of "length ?b - (length ?e + 1)" ?b, symmetric] by (simp add: Suc_diff_Suc)
  ultimately show ?thesis
    by (cases "?e = []"; cases "at0 ?e = 46"; cases "length ?e + 1 \<le> length ?b") (simp_all add: with_dot_def strip_suffix_def)
qed

section \<open>Simplification\<close>

text \<open>The names of a path, and the step that removes \<^verbatim>\<open>.\<close> and \<^verbatim>\<open>..\<close> from a list of names.\<close>

function path_names :: "byte list \<Rightarrow> byte list list" where
  "path_names p =
     (let q = dropWhile path_sep p
      in if q = [] then [] else takeWhile (\<lambda>c. \<not> path_sep c) q # path_names (dropWhile (\<lambda>c. \<not> path_sep c) q))"
  by pat_completeness auto
termination
proof (relation "measure length")
  fix p q :: "byte list"
  assume q: "q = dropWhile path_sep p" "q \<noteq> []"
  then have "\<not> path_sep (hd q)"
    using hd_dropWhile [of path_sep p] by simp
  then have "length (dropWhile (\<lambda>c. \<not> path_sep c) q) < length q"
    using q(2) by (cases q) (simp_all add: length_dropWhile_le le_imp_less_Suc)
  then show "(dropWhile (\<lambda>c. \<not> path_sep c) q, p) \<in> measure length"
    using q(1) length_dropWhile_le [of path_sep p] by simp
qed simp

declare path_names.simps [simp del]

definition norm_step :: "byte list list \<Rightarrow> byte list \<Rightarrow> byte list list" where
  "norm_step ns c =
     (if c = [46] then ns else if c = [46, 46] \<and> ns \<noteq> [] \<and> last ns \<noteq> [46, 46] then butlast ns else ns @ [c])"

definition norm :: "byte list list \<Rightarrow> byte list list" where
  "norm cs = foldl norm_step [] cs"

definition path_text :: "bool \<Rightarrow> byte list list \<Rightarrow> byte list" where
  "path_text slash ns = (if slash then concat (map ((#) 47) ns) else tl (concat (map ((#) 47) ns)))"

definition names_ok :: "byte list list \<Rightarrow> bool" where
  "names_ok ns \<longleftrightarrow> (\<forall>n\<in>set ns. n \<noteq> [] \<and> 0 \<notin> set n \<and> (\<forall>c\<in>set n. \<not> path_sep c))"

lemma names_ok_Cons: "names_ok (c # cs) \<longleftrightarrow> c \<noteq> [] \<and> 0 \<notin> set c \<and> (\<forall>x\<in>set c. \<not> path_sep x) \<and> names_ok cs"
  by (auto simp: names_ok_def)

lemma names_ok_append: "names_ok (ms @ ns) \<longleftrightarrow> names_ok ms \<and> names_ok ns"
  by (auto simp: names_ok_def)

lemma path_text_simps: "path_text slash [] = []" "names_ok ns \<Longrightarrow> path_text slash ns = [] \<longleftrightarrow> ns = []"
  "path_text slash (ns @ [n]) = (if ns \<noteq> [] \<or> slash then path_text slash ns @ 47 # n else n)"
  by (cases ns; auto simp: path_text_def names_ok_def)+

lemma skip_seps_drop: "drop (skip_seps path i) path = dropWhile path_sep (drop i path) \<and> (i \<le> length path \<longrightarrow> skip_seps path i \<le> length path)"
proof (induction path i rule: skip_seps.induct)
  case (1 path i)
  show ?case
  proof (cases "i < length path")
    case True
    then show ?thesis
      using 1 by (subst (1 2) skip_seps.simps) (simp flip: Cons_nth_drop_Suc)
  qed (subst (1 2) skip_seps.simps, simp)
qed

lemma chunk_end_drop: "i \<le> length path \<Longrightarrow> drop (chunk_end path i) path = dropWhile (\<lambda>c. \<not> path_sep c) (drop i path)
    \<and> take (chunk_end path i - i) (drop i path) = takeWhile (\<lambda>c. \<not> path_sep c) (drop i path) \<and> chunk_end path i \<le> length path"
proof (induction path i rule: chunk_end.induct)
  case (1 path i)
  show ?case
  proof (cases "i < length path \<and> \<not> path_sep (path ! i)")
    case True
    have "chunk_end path i = chunk_end path (i + 1)"
      using True by (subst chunk_end.simps) simp
    moreover have "chunk_end path (i + 1) - i = Suc (chunk_end path (i + 1) - (i + 1))"
      using chunk_end_ge [of "i + 1" path] by simp
    ultimately show ?thesis
      using 1 True by (simp flip: Cons_nth_drop_Suc)
  next
    case False
    then have "chunk_end path i = i"
      by (subst chunk_end.simps) (rule if_not_P)
    moreover have "takeWhile (\<lambda>c. \<not> path_sep c) (drop i path) = []" "dropWhile (\<lambda>c. \<not> path_sep c) (drop i path) = drop i path"
      using False 1(2) by (cases "i < length path"; simp flip: Cons_nth_drop_Suc)+
    ultimately show ?thesis
      using 1(2) by simp
  qed
qed

lemma simplify_loop_eq:
  "start \<le> length path \<Longrightarrow> simplify_loop path slash start result = foldl (simplify_step slash) result (path_names (drop start path))"
proof (induction path slash start result rule: simplify_loop.induct)
  case (1 path slash start result)
  define s where "s = skip_seps path start"
  define e where "e = chunk_end path s"
  define q where "q = dropWhile path_sep (drop start path)"
  define w where "w = takeWhile (\<lambda>c. \<not> path_sep c) q"
  have q: "drop s path = q" "s \<le> length path"
    using skip_seps_drop [of path start] 1(2) by (simp_all add: s_def q_def)
  have e: "drop e path = dropWhile (\<lambda>c. \<not> path_sep c) q" "take (e - s) (drop s path) = w" "e \<le> length path" "s \<le> e"
    using chunk_end_drop [OF q(2)] chunk_end_ge [of s path] q(1) by (simp_all add: e_def w_def)
  have names: "path_names (drop start path) = (if q = [] then [] else w # path_names (drop e path))"
    unfolding e(1) w_def q_def by (subst path_names.simps) (simp only: Let_def)
  have loop: "simplify_loop path slash start result =
      (if e = s then result
       else if e \<ge> length path then simplify_step slash result w else simplify_loop path slash (e + 1) (simplify_step slash result w))"
    unfolding e(2) [symmetric] unfolding e_def s_def by (subst simplify_loop.simps) (simp only: Let_def)
  show ?case
  proof (cases "q = []")
    case True
    then have "s = e"
      using q e(3,4) by simp
    then show ?thesis
      unfolding names loop using True by simp
  next
    case False
    have "\<not> path_sep (hd q)"
      using False hd_dropWhile unfolding q_def by blast
    then have "w \<noteq> []"
      using False by (cases q) (simp_all add: w_def)
    then have ne: "e \<noteq> s"
      using e(2) by auto
    show ?thesis
    proof (cases "e \<ge> length path")
      case True
      then have "path_names (drop e path) = []"
        by (subst path_names.simps) simp
      then show ?thesis
        unfolding names loop using True ne False by simp
    next
      case lt: False
      have d: "drop e path = path ! e # drop (e + 1) path"
        using lt by (simp add: Cons_nth_drop_Suc)
      then have "dropWhile (\<lambda>c. \<not> path_sep c) q \<noteq> []"
        using e(1) by (metis list.discI)
      from hd_dropWhile [OF this] have "path_sep (path ! e)"
        unfolding e(1) [symmetric] d by simp
      then have "path_names (drop e path) = path_names (drop (e + 1) path)"
        unfolding d by (subst (1 2) path_names.simps) simp
      moreover have "simplify_loop path slash (e + 1) (simplify_step slash result w) =
          foldl (simplify_step slash) (simplify_step slash result w) (path_names (drop (e + 1) path))"
        using lt by (intro 1(1) [OF s_def e_def ne]) (simp_all add: e(2))
      ultimately show ?thesis
        unfolding names loop using lt ne False by simp
    qed
  qed
qed

lemma last_sep_skip: "\<forall>c\<in>set v. \<not> path_sep c \<Longrightarrow> last_sep (x @ v @ y) (length x + length v) = last_sep (x @ v @ y) (length x)"
proof (induction v arbitrary: y rule: rev_induct)
  case (snoc c v)
  then show ?case using snoc.IH [of "c # y"] by (simp add: nth_append)
qed simp

lemma append_chunk_text: "names_ok ns \<Longrightarrow> append_chunk slash (path_text slash ns) c = path_text slash (ns @ [c])"
  by (simp add: append_chunk_def path_text_simps)

lemma simplify_step_text:
  assumes "names_ok ns"
  shows "simplify_step slash (path_text slash ns) c = path_text slash (norm_step ns c)"
proof (cases "c = [46, 46] \<and> ns \<noteq> []")
  case True
  define ms n where "ms = butlast ns" and "n = last ns"
  have ns: "ns = ms @ [n]"
    using True by (simp add: ms_def n_def)
  have n: "0 \<notin> set n" "\<forall>c\<in>set n. \<not> path_sep c"
    using assms by (auto simp: ns names_ok_def)
  let ?t = "path_text slash ns"
  have "drop (last_sep ?t (length ?t)) ?t = n \<and> take (last_sep ?t (length ?t) - 1) ?t = path_text slash ms"
  proof (cases "ms \<noteq> [] \<or> slash")
    case True
    then have t: "?t = (path_text slash ms @ [47]) @ n @ []"
      by (simp add: ns path_text_simps)
    moreover have "length ?t = length (path_text slash ms @ [47]) + length n"
      using t by simp
    ultimately have "last_sep ?t (length ?t) = last_sep ?t (length (path_text slash ms @ [47]))"
      using last_sep_skip [OF n(2), of "path_text slash ms @ [47]" "[]"] by simp
    also have "\<dots> = Suc (length (path_text slash ms))"
      using t by (simp add: path_sep_def)
    finally show ?thesis
      using t by simp
  next
    case False
    then have t: "?t = n"
      by (simp add: ns path_text_def)
    then have "last_sep ?t (length ?t) = 0"
      using last_sep_skip [OF n(2), of "[]" "[]"] by simp
    then show ?thesis
      using False t by (simp add: path_text_simps)
  qed
  moreover have "c_compare n (lit ''..'') = 0 \<longleftrightarrow> n = [46, 46]"
    using compare_eq [OF n(1), of "[46, 46]"] by simp
  moreover have "?t \<noteq> []"
    using assms True by (simp add: path_text_simps)
  ultimately have "simplify_step slash ?t c = (if n \<noteq> [46, 46] then path_text slash ms else append_chunk slash ?t c)"
    using True by (simp add: simplify_step_def Let_def at0_def del: lit_simps)
  moreover have "norm_step ns c = (if n \<noteq> [46, 46] then ms else ns @ [c])"
    using True by (simp add: norm_step_def ms_def n_def)
  ultimately show ?thesis
    using append_chunk_text [OF assms, of slash c] by presburger
next
  case False
  have "length c = 2 \<and> at0 c = 46 \<and> c ! 1 = 46 \<and> path_text slash ns \<noteq> [] \<longleftrightarrow> c = [46, 46] \<and> ns \<noteq> []"
    unfolding path_text_simps(2) [OF assms] by (cases c; cases "tl c") (auto simp: at0_def)
  then have A: "\<not> (length c = 2 \<and> at0 c = 46 \<and> c ! 1 = 46 \<and> path_text slash ns \<noteq> [])"
    using False by (simp only: simp_thms)
  have B: "length c = 1 \<and> at0 c = 46 \<longleftrightarrow> c = [46]"
    by (cases c; cases "tl c") (auto simp: at0_def)
  have "simplify_step slash (path_text slash ns) c =
      (if c = [46] then path_text slash ns else append_chunk slash (path_text slash ns) c)"
    unfolding simplify_step_def if_not_P [OF A] B by (rule refl)
  moreover have "norm_step ns c = (if c = [46] then ns else ns @ [c])"
    unfolding norm_step_def using False by presburger
  ultimately show ?thesis
    using append_chunk_text [OF assms, of slash c] by presburger
qed

lemma names_ok_step:
  assumes "names_ok ns" "names_ok [c]"
  shows "names_ok (norm_step ns c)"
proof -
  have "names_ok (butlast ns)" "names_ok (ns @ [c])"
    using assms by (auto simp: names_ok_def dest: in_set_butlastD)
  then show ?thesis
    using assms(1) unfolding norm_step_def by presburger
qed

lemma fold_text:
  "names_ok ns \<Longrightarrow> names_ok cs \<Longrightarrow> foldl (simplify_step slash) (path_text slash ns) cs = path_text slash (foldl norm_step ns cs)
    \<and> names_ok (foldl norm_step ns cs)"
proof (induction cs arbitrary: ns)
  case (Cons c cs)
  have c: "names_ok [c]" "names_ok cs"
    using Cons.prems(2) by (simp_all add: names_ok_def)
  show ?case
    using Cons.IH [OF names_ok_step [OF Cons.prems(1) c(1)] c(2)]
    by (simp only: foldl_Cons simplify_step_text [OF Cons.prems(1)])
qed simp

lemma path_names_ok: "0 \<notin> set p \<Longrightarrow> names_ok (path_names p)"
proof (induction p rule: path_names.induct)
  case (1 p)
  define q where "q = dropWhile path_sep p"
  have names: "path_names p = (if q = [] then [] else takeWhile (\<lambda>c. \<not> path_sep c) q # path_names (dropWhile (\<lambda>c. \<not> path_sep c) q))"
    unfolding q_def by (subst path_names.simps) (simp only: Let_def)
  show ?case
  proof (cases "q = []")
    case True
    then show ?thesis
      unfolding names by (simp add: names_ok_def)
  next
    case False
    have q0: "0 \<notin> set q"
      using 1(2) by (auto simp: q_def dest: set_dropWhileD)
    then have "0 \<notin> set (dropWhile (\<lambda>c. \<not> path_sep c) q)"
      by (auto dest: set_dropWhileD)
    then have "names_ok (path_names (dropWhile (\<lambda>c. \<not> path_sep c) q))"
      by (rule 1(1) [OF q_def False])
    moreover have "takeWhile (\<lambda>c. \<not> path_sep c) q \<noteq> []"
      using False hd_dropWhile [of path_sep p] by (cases q) (auto simp: q_def)
    moreover have "\<forall>x\<in>set (takeWhile (\<lambda>c. \<not> path_sep c) q). x \<in> set q \<and> \<not> path_sep x"
      by (auto dest: set_takeWhileD)
    ultimately show ?thesis
      unfolding names if_not_P [OF False] names_ok_Cons using q0 by blast
  qed
qed

lemma at0_sep: "(at0 p = 47 \<or> at0 p = 92) = path_sep (at0 p)"
  by (auto simp: path_sep_def)

lemma simplify_eq:
  assumes "0 \<notin> set p"
  shows "simplifyPath p = path_text (path_sep (at0 p)) (norm (path_names p))" "names_ok (norm (path_names p))"
proof -
  have nil: "names_ok []"
    by (simp add: names_ok_def)
  note f = fold_text [OF nil path_names_ok [OF assms], of "path_sep (at0 p)", unfolded path_text_simps(1)]
  have "simplifyPath p = foldl (simplify_step (path_sep (at0 p))) [] (path_names p)"
    unfolding simplifyPath_def at0_sep using simplify_loop_eq [of 0 p] by simp
  then show "simplifyPath p = path_text (path_sep (at0 p)) (norm (path_names p))" "names_ok (norm (path_names p))"
    using f unfolding norm_def by simp_all
qed

text \<open>The names of a text made from names, of two paths one behind the other, and the repeated step on a normal list.\<close>

lemma names_word: "\<forall>c\<in>set n. \<not> path_sep c \<Longrightarrow> n \<noteq> [] \<Longrightarrow> r = [] \<or> path_sep (hd r) \<Longrightarrow> path_names (n @ r) = n # path_names r"
proof -
  assume n: "\<forall>c\<in>set n. \<not> path_sep c" "n \<noteq> []" and r: "r = [] \<or> path_sep (hd r)"
  have q: "dropWhile path_sep (n @ r) = n @ r"
    using n by (cases n) simp_all
  have w: "takeWhile (\<lambda>c. \<not> path_sep c) (n @ r) = n" "dropWhile (\<lambda>c. \<not> path_sep c) (n @ r) = r"
    using n r by (cases r; simp)+
  show ?thesis
    using n(2) by (subst path_names.simps) (simp only: Let_def q w, simp)
qed

lemma names_sep: "path_sep s \<Longrightarrow> path_names (s # r) = path_names r"
  by (subst (1 2) path_names.simps) simp

lemma names_seps: "\<forall>c\<in>set u. path_sep c \<Longrightarrow> path_names (u @ t) = path_names t"
  by (induction u) (simp_all add: names_sep)

lemma names_empty: "path_names [] = []"
  by (subst path_names.simps) simp

lemma names_rest: "path_sep s \<Longrightarrow> path_names (p @ s # r) = path_names p @ path_names r"
proof (induction p rule: path_names.induct)
  case (1 p)
  show ?case
  proof (cases "dropWhile path_sep p")
    case Nil
    then have "\<forall>c\<in>set p. path_sep c"
      by (simp add: dropWhile_eq_Nil_conv)
    then have "path_names (p @ s # r) = path_names r" "path_names p = []"
      using names_seps [of p "s # r"] names_seps [of p "[]"] by (simp_all add: names_sep names_empty 1(2))
    then show ?thesis
      by simp
  next
    case (Cons c q)
    define w v where "w = takeWhile (\<lambda>c. \<not> path_sep c) (c # q)" and "v = dropWhile (\<lambda>c. \<not> path_sep c) (c # q)"
    have c: "\<not> path_sep c"
      using Cons by (metis hd_dropWhile list.sel(1) list.discI)
    have v: "v = [] \<or> path_sep (hd v)" "v @ s # r = [] \<or> path_sep (hd (v @ s # r))"
      using hd_dropWhile [of "\<lambda>c. \<not> path_sep c" "c # q"] 1(2) unfolding v_def by (auto simp: hd_append simp del: dropWhile.simps)
    have w: "w \<noteq> []" "\<forall>c\<in>set w. \<not> path_sep c" "c # q = w @ v"
      using c by (auto simp: w_def v_def dest: set_takeWhileD simp del: dropWhile.simps(2)) simp_all
    have p: "p = takeWhile path_sep p @ w @ v"
      using takeWhile_dropWhile_id [of path_sep p] unfolding Cons w(3) by simp
    have pre: "path_names (takeWhile path_sep p @ t) = path_names t" for t
      by (rule names_seps) (auto dest: set_takeWhileD)
    have IH: "path_names (v @ s # r) = path_names v @ path_names r"
      unfolding v_def using Cons by (intro 1(1)) (simp_all add: 1(2))
    have "path_names (p @ s # r) = path_names (w @ v @ s # r)"
      by (subst p) (simp add: pre)
    also have "\<dots> = w # path_names (v @ s # r)"
      by (rule names_word [OF w(2,1) v(2)])
    also have "\<dots> = path_names (w @ v) @ path_names r"
      by (simp add: IH names_word [OF w(2,1) v(1)])
    also have "path_names (w @ v) = path_names p"
      by (subst p) (simp add: pre)
    finally show ?thesis .
  qed
qed

lemma names_text: "names_ok ns \<Longrightarrow> path_names (path_text slash ns) = ns"
proof (induction ns rule: rev_induct)
  case (snoc n ns)
  have n: "\<forall>c\<in>set n. \<not> path_sep c" "n \<noteq> []" "names_ok ns"
    using snoc.prems by (simp_all add: names_ok_def)
  have "path_names n = [n]"
    using names_word [OF n(1,2), of "[]"] by (simp add: names_empty)
  then show ?case
    using snoc.IH [OF n(3)] by (simp add: path_text_simps(3) names_rest path_sep_def names_empty)
qed (simp add: path_text_simps names_empty)

lemma norm_snoc: "norm (cs @ [c]) = norm_step (norm cs) c"
  by (simp add: norm_def)

definition normal :: "byte list list \<Rightarrow> bool" where
  "normal ns \<longleftrightarrow> (\<exists>k ms. ns = replicate k [46, 46] @ ms \<and> [46] \<notin> set ms \<and> [46, 46] \<notin> set ms)"

lemma normal_norm: "normal (norm cs)"
proof (induction cs rule: rev_induct)
  case (snoc c cs)
  then obtain k ms where ns: "norm cs = replicate k [46, 46] @ ms" "[46] \<notin> set ms" "[46, 46] \<notin> set ms"
    unfolding normal_def by blast
  consider "c = [46]" | "c = [46, 46]" "ms = []" | "c = [46, 46]" "ms \<noteq> []" | "c \<noteq> [46]" "c \<noteq> [46, 46]"
    by blast
  then show ?case
  proof cases
    case 2
    have "norm (cs @ [c]) = replicate (Suc k) [46, 46] @ []"
      using 2 ns(1) by (cases k) (simp_all add: norm_snoc norm_step_def flip: replicate_append_same)
    then show ?thesis
      unfolding normal_def by (metis empty_iff empty_set)
  next
    case 3
    then have "last ms \<noteq> [46, 46]"
      using ns(3) last_in_set by metis
    then have "norm (cs @ [c]) = replicate k [46, 46] @ butlast ms"
      using 3 ns(1) by (simp add: norm_snoc norm_step_def butlast_append)
    then show ?thesis
      unfolding normal_def using ns(2,3) in_set_butlastD by metis
  next
    case 4
    then have "norm (cs @ [c]) = replicate k [46, 46] @ ms @ [c]"
      using ns(1) by (simp add: norm_snoc norm_step_def)
    then show ?thesis
      unfolding normal_def using ns(2,3) 4 by (intro exI [of _ k] exI [of _ "ms @ [c]"]) simp
  qed (use snoc in \<open>simp add: norm_snoc norm_step_def\<close>)
qed (simp add: normal_def norm_def)

lemma norm_normal: "normal ns \<Longrightarrow> norm ns = ns"
proof -
  have up: "norm (replicate k [46, 46]) = replicate k [46, 46]" for k
  proof (induction k)
    case (Suc k)
    have "norm (replicate k [46, 46] @ [[46, 46]]) = replicate k [46, 46] @ [[46, 46]]"
      unfolding norm_snoc Suc.IH by (cases k) (simp_all add: norm_step_def)
    then show ?case
      by (simp add: replicate_append_same)
  qed (simp add: norm_def)
  have "norm (replicate k [46, 46] @ ms) = replicate k [46, 46] @ ms" if "[46] \<notin> set ms" "[46, 46] \<notin> set ms" for k ms
    using that
  proof (induction ms rule: rev_induct)
    case (snoc m ms)
    then show ?case
      unfolding append_assoc [symmetric] norm_snoc by (auto simp: norm_step_def)
  qed (simp add: up)
  then show "normal ns \<Longrightarrow> norm ns = ns"
    unfolding normal_def by blast
qed

section \<open>Where a path leads to\<close>

text \<open>A directory is the list of the names from the root to it; the root is its own parent, and there are no symbolic links.\<close>

definition enter :: "byte list list \<Rightarrow> byte list \<Rightarrow> byte list list" where
  "enter d n = (if n = [46] then d else if n = [46, 46] then butlast d else d @ [n])"

definition walk :: "byte list list \<Rightarrow> byte list list \<Rightarrow> byte list list" where
  "walk d ns = foldl enter d ns"

definition destination :: "byte list list \<Rightarrow> byte list \<Rightarrow> byte list list" where
  "destination d p = walk (if path_sep (at0 p) then [] else d) (path_names p)"

lemma walk_append: "walk d (ms @ ns) = walk (walk d ms) ns"
  by (simp add: walk_def)

lemma walk_snoc: "walk d (ns @ [n]) = enter (walk d ns) n"
  by (simp add: walk_def)

lemma normal_butlast: "normal (ns @ [n]) \<Longrightarrow> normal ns"
proof -
  assume "normal (ns @ [n])"
  then obtain k ms where ms: "ns @ [n] = replicate k [46, 46] @ ms" "[46] \<notin> set ms" "[46, 46] \<notin> set ms"
    unfolding normal_def by blast
  show ?thesis
  proof (cases ms rule: rev_cases)
    case Nil
    then have "ns = replicate (k - 1) [46, 46]"
      using ms(1) by (cases k) (simp_all flip: replicate_append_same)
    then show ?thesis
      unfolding normal_def by (intro exI [of _ "k - 1"] exI [of _ "[]"]) simp
  next
    case (snoc ms' m)
    then show ?thesis
      unfolding normal_def using ms by (intro exI [of _ k] exI [of _ ms']) simp
  qed
qed

lemma normal_last: "normal (ns @ [n]) \<Longrightarrow> n \<noteq> [46] \<and> (n = [46, 46] \<longrightarrow> (\<exists>k. ns = replicate k [46, 46]))"
proof -
  assume "normal (ns @ [n])"
  then obtain k ms where ms: "ns @ [n] = replicate k [46, 46] @ ms" "[46] \<notin> set ms" "[46, 46] \<notin> set ms"
    unfolding normal_def by blast
  show ?thesis
  proof (cases ms rule: rev_cases)
    case Nil
    then show ?thesis
      using ms(1) by (cases k) (auto simp flip: replicate_append_same)
  qed (use ms in auto)
qed

lemma walk_norm: "walk d (norm cs) = walk d cs"
proof (induction cs rule: rev_induct)
  case (snoc c cs)
  show ?case
  proof (cases "c = [46, 46] \<and> norm cs \<noteq> [] \<and> last (norm cs) \<noteq> [46, 46]")
    case True
    then obtain ms n where ns: "norm cs = ms @ [n]" "n \<noteq> [46, 46]"
      by (metis append_butlast_last_id)
    then have "n \<noteq> [46]"
      using normal_last [of ms n] normal_norm [of cs] by simp
    then have "enter (walk d (norm cs)) [46, 46] = walk d ms"
      using ns by (simp add: walk_snoc enter_def)
    then show ?thesis
      using True ns snoc.IH by (simp add: norm_snoc norm_step_def walk_snoc)
  next
    case False
    then have "norm (cs @ [c]) = (if c = [46] then norm cs else norm cs @ [c])"
      unfolding norm_snoc norm_step_def by presburger
    then show ?thesis
      using snoc.IH by (simp add: walk_snoc enter_def)
  qed
qed (simp add: norm_def)

lemma walk_ups: "normal (ms @ ns) \<Longrightarrow> walk (walk [] (ms @ ns)) (replicate (length ns) [46, 46]) = walk [] ms"
proof (induction ns rule: rev_induct)
  case (snoc n ns)
  have nm: "normal ((ms @ ns) @ [n])"
    using snoc.prems by simp
  have "enter (walk [] ((ms @ ns) @ [n])) [46, 46] = walk [] (ms @ ns)"
  proof (cases "n = [46, 46]")
    case True
    then obtain k where "ms @ ns = replicate k [46, 46]"
      using normal_last [OF nm] by blast
    moreover have "walk [] (replicate k [46, 46]) = []" for k
      by (induction k) (simp_all add: walk_def enter_def)
    ultimately show ?thesis
      by (simp add: walk_snoc enter_def)
  next
    case False
    then show ?thesis
      unfolding walk_snoc using normal_last [OF nm] by (simp add: enter_def)
  qed
  then show ?case
    using snoc.IH [OF normal_butlast [OF nm]] by (simp add: walk_def)
qed (simp add: walk_def)

lemma at0_text:
  assumes "names_ok ns"
  shows "path_sep (at0 (path_text slash ns)) \<longleftrightarrow> slash \<and> ns \<noteq> []"
proof (cases ns)
  case Nil
  then show ?thesis
    by (simp add: path_text_def at0_def path_sep_def)
next
  case (Cons n ms)
  then have "n \<noteq> []" "\<forall>c\<in>set n. \<not> path_sep c"
    using assms by (simp_all add: names_ok_def)
  then show ?thesis
    using Cons by (cases n) (auto simp: path_text_def at0_def path_sep_def)
qed

lemma destination_simplify:
  assumes "0 \<notin> set p"
  shows "destination d (simplifyPath p) = (if path_sep (at0 p) \<and> norm (path_names p) = [] then d else destination d p)"
proof -
  let ?ns = "norm (path_names p)" and ?slash = "path_sep (at0 p)"
  note s = simplify_eq [OF assms]
  show ?thesis
  proof (cases "?slash \<and> ?ns = []")
    case True
    then show ?thesis
      using s by (simp add: path_text_simps destination_def names_empty walk_def at0_def path_sep_def)
  next
    case False
    then have "path_sep (at0 (simplifyPath p)) = ?slash"
      using at0_text [OF s(2), of ?slash] s(1) by auto
    moreover have "path_names (simplifyPath p) = ?ns"
      unfolding s(1) by (rule names_text [OF s(2)])
    ultimately show ?thesis
      unfolding if_not_P [OF False] by (simp add: destination_def walk_norm)
  qed
qed

section \<open>Relative paths\<close>

lemma compare_starts: "0 \<notin> set w \<Longrightarrow> c_compare_n p w (length w) = 0 \<longleftrightarrow> (\<exists>v. p = w @ v)"
proof (induction w arbitrary: p)
  case (Cons c w)
  show ?case
  proof (cases p)
    case Nil
    then show ?thesis
      using Cons.prems by (auto simp: at0_def unsigned_eq_0_iff)
  next
    case (Cons a q)
    then show ?thesis
      using Cons.prems Cons.IH [of q] by (auto simp: at0_def unsigned_eq_0_iff dest: unsigned_word_eqI)
  qed
qed simp

definition ups :: "nat \<Rightarrow> byte list" where
  "ups k = concat (replicate k [46, 46, 47])"

lemma ups_snoc: "ups k @ [46, 46, 47] = ups (Suc k)"
  unfolding ups_def by (simp flip: replicate_append_same)

lemma ups_names: "path_names (ups k @ v) = replicate k [46, 46] @ path_names v"
proof (induction k)
  case (Suc k)
  have "path_names [46, 46] = [[46, 46]]"
    using names_word [of "[46, 46]" "[]"] by (simp add: path_sep_def names_empty)
  then have "path_names ([46, 46] @ 47 # (ups k @ v)) = [46, 46] # path_names (ups k @ v)"
    using names_rest [of 47 "[46, 46]" "ups k @ v"] by (simp add: path_sep_def)
  then show ?case
    using Suc.IH by (simp add: ups_def)
qed (simp add: ups_def)

text \<open>What follows a directory in a text.\<close>

lemma text_rest:
  assumes "names_ok ms" "names_ok ns" "path_text True ns = path_text True ms @ 47 # v"
  shows "ns = ms @ path_names v" "v = path_text False (path_names v)" "path_names v \<noteq> []"
proof -
  show ns: "ns = ms @ path_names v"
    using arg_cong [OF assms(3), of path_names] names_rest [of 47 "path_text True ms" v] names_text [OF assms(1)] names_text [OF assms(2)]
    by (simp add: path_sep_def)
  then have "concat (map ((#) 47) (path_names v)) = 47 # v"
    using assms(3) by (simp add: path_text_def)
  then show "v = path_text False (path_names v)" "path_names v \<noteq> []"
    by (auto simp: path_text_def)
qed

lemma findLast_text: "47 \<notin> set x \<Longrightarrow> str_findLast (t @ 47 # x) 47 = Some (length t)"
proof -
  have "47 \<notin> set x \<Longrightarrow> findLast_char_loop ((t @ [47]) @ x @ y) 47 (length (t @ [47]) + length x) = Some (length t)" for y
  proof (induction x arbitrary: y rule: rev_induct)
    case (snoc c x)
    then show ?case
      using snoc.IH [of "c # y"] by (simp add: nth_append)
  qed (simp add: nth_append)
  from this [of "[]"] show "47 \<notin> set x \<Longrightarrow> ?thesis"
    by (simp add: str_findLast_def)
qed

lemma relative_loop_correct:
  assumes "names_ok ns" "ns \<noteq> []" "names_ok ms" "\<nexists>v. path_text True ns = path_text True ms @ 47 # v"
  shows "\<exists>ls rs v. ms = ls @ rs \<and> rs \<noteq> [] \<and> path_text True ns = path_text True ls @ 47 # v
    \<and> relative_loop (path_text True ns) (path_text True ms @ [47]) (ups k) = Some (ups (k + length rs - 1) @ v)"
  using assms(3,4)
proof (induction ms arbitrary: k rule: rev_induct)
  case Nil
  then have False
    using assms(2) by (cases ns) (simp_all add: path_text_def)
  then show ?case ..
next
  case (snoc x ms)
  have x: "\<forall>c\<in>set x. \<not> path_sep c" "names_ok ms" and zero: "0 \<notin> set (path_text True ms)"
    using snoc.prems(1) by (auto simp: names_ok_def path_text_def)
  then have last: "str_findLast (path_text True ms @ 47 # x) 47 = Some (length (path_text True ms))"
    by (intro findLast_text) (auto simp: path_sep_def)
  let ?to = "path_text True ns" and ?from = "path_text True ms @ [47]"
  have loop: "relative_loop ?to (path_text True (ms @ [x]) @ [47]) (ups k) =
      (if c_compare_n ?to ?from (length ?from) = 0 then map_option (\<lambda>r. ups k @ r) (rest_of ?to (length ?from))
       else relative_loop ?to ?from (ups (Suc k)))"
    by (subst relative_loop.simps) (simp add: path_text_simps(3) last Let_def ups_snoc)
  have cmp: "c_compare_n ?to ?from (length ?from) = 0 \<longleftrightarrow> (\<exists>v. ?to = ?from @ v)"
    using zero by (intro compare_starts) simp
  show ?case
  proof (cases "\<exists>v. ?to = path_text True ms @ 47 # v")
    case True
    then obtain v where v: "?to = ?from @ v"
      by auto
    then have "c_compare_n ?to ?from (length ?from) = 0"
      using cmp by blast
    moreover have "rest_of ?to (length ?from) = Some v"
      unfolding v by (simp add: rest_of_def)
    ultimately show ?thesis
      using v unfolding loop by (intro exI [of _ ms] exI [of _ "[x]"] exI [of _ v]) simp
  next
    case False
    from snoc.IH [OF x(2) this, of "Suc k"] obtain ls rs v where IH: "ms = ls @ rs" "rs \<noteq> []" "?to = path_text True ls @ 47 # v"
      "relative_loop ?to ?from (ups (Suc k)) = Some (ups (Suc k + length rs - 1) @ v)"
      by blast
    have "c_compare_n ?to ?from (length ?from) \<noteq> 0"
      using False cmp by auto
    then have "relative_loop ?to (path_text True (ms @ [x]) @ [47]) (ups k) = Some (ups (k + length (rs @ [x]) - 1) @ v)"
      using IH(4) unfolding loop by simp
    then show ?thesis
      using IH(1,3) by (intro exI [of _ ls] exI [of _ "rs @ [x]"] exI [of _ v]) simp
  qed
qed

subsection \<open>Between relative paths\<close>

















section \<open>The properties\<close>

text \<open>The absolute path leads where the path leads from the current directory.\<close>

lemma absolute_path_leads:
  assumes "path_sep (at0 cwd)" "isAbsolutePath path \<Longrightarrow> path_sep (at0 path)"
  shows "isAbsolutePath (getAbsolutePath cwd path) \<and> destination d (getAbsolutePath cwd path) = destination (destination d cwd) path"
proof (cases "isAbsolutePath path")
  case True
  then show ?thesis
    using assms(2) by (simp add: getAbsolutePath_def destination_def)
next
  case False
  then have "\<not> path_sep (at0 path)"
    by (simp add: isAbsolutePath_def path_sep_def)
  moreover have "at0 (cwd @ 47 # path) = at0 cwd"
    using assms(1) by (cases cwd) (simp_all add: at0_def path_sep_def)
  ultimately show ?thesis
    using False assms(1) names_rest [of 47 cwd path]
    by (auto simp: getAbsolutePath_def destination_def isAbsolutePath_def path_sep_def walk_append)
qed

text \<open>C35. The parts make up the path: the base name is what follows the last separator, the directory what precedes it, or \<^verbatim>\<open>.\<close>, the
  stem ends at the first dot of the base name and the extension begins behind its last one; a given extension is removed
  from the base name exactly when the name ends in it, whether it is given with its dot or without.\<close>

theorem path_parts_correct:
  "(getBaseName f [] = f \<and> getDirectoryName f = lit ''.'' \<or> (\<exists>s. f = getDirectoryName f @ s # getBaseName f [] \<and> path_sep s))
    \<and> (\<forall>c\<in>set (getBaseName f []). \<not> path_sep c)
    \<and> getStem f [] = takeWhile (\<lambda>c. c \<noteq> 46) (getBaseName f [])
    \<and> (if 46 \<in> set (getBaseName f []) then \<exists>n. getBaseName f [] = n @ 46 # getExtension f \<and> 46 \<notin> set (getExtension f)
       else getExtension f = [])
    \<and> (0 \<notin> set f \<and> 0 \<notin> set e \<and> e \<noteq> [] \<longrightarrow>
       getStem f e = getBaseName f e \<and> getBaseName f e = strip_suffix (with_dot e) (getBaseName f []))"
proof -
  define b where "b = base_of f"
  obtain d where d: "f = d @ b"
    using file_parts [of f] unfolding b_def by (metis append_Cons append_Nil append_assoc)
  have "take (length f - (length f - length b)) (drop (length f - length b) f) = b"
    unfolding d by simp
  then have base: "getBaseName f [] = base_of f"
    unfolding b_def by (simp add: getBaseName_def base_loop_eq)
  show ?thesis
    unfolding base using directory_correct [of f] base_of_seps [of f] stem_correct [of f] extension_correct [of f]
      base_name_correct [of f e] by (auto simp: getStem_def)
qed

lemma path_parts_correct_witness:
  "getBaseName (lit ''a/b.txt'') (lit ''txt'') = lit ''b'' \<and> getStem (lit ''a/b.txt'') (lit ''txt'') = lit ''b''"
proof -
  have "getBaseName (lit ''a/b.txt'') [] = lit ''b.txt''"
    by code_simp
  moreover have "getStem (lit ''a/b.txt'') (lit ''txt'') = getBaseName (lit ''a/b.txt'') (lit ''txt'') \<and>
      getBaseName (lit ''a/b.txt'') (lit ''txt'') = strip_suffix (with_dot (lit ''txt'')) (getBaseName (lit ''a/b.txt'') [])"
    by (rule mp [OF conjunct2 [OF conjunct2 [OF conjunct2 [OF conjunct2 [OF path_parts_correct]]]]]) simp
  ultimately show ?thesis
    by (simp add: strip_suffix_def with_dot_def at0_def)
qed

text \<open>C33. Simplifying a path gives the text of the normal form of its names, in which \<^verbatim>\<open>.\<close> is gone and \<^verbatim>\<open>..\<close> stands at the
  beginning only, and it is idempotent. The result leads to the same directory from every directory, except when the path begins with a separator
  and its names lead back to the root: then the result is the empty string, which leads to the current directory.\<close>

theorem path_simplify_correct:
  assumes "0 \<notin> set p"
  shows "simplifyPath p = path_text (path_sep (at0 p)) (norm (path_names p)) \<and> normal (norm (path_names p))
    \<and> simplifyPath (simplifyPath p) = simplifyPath p
    \<and> destination d (simplifyPath p) = (if path_sep (at0 p) \<and> norm (path_names p) = [] then d else destination d p)"
proof -
  let ?ns = "norm (path_names p)" and ?slash = "path_sep (at0 p)"
  note s = simplify_eq [OF assms]
  have names: "path_names (simplifyPath p) = ?ns"
    unfolding s(1) by (rule names_text [OF s(2)])
  have zero: "0 \<notin> set (simplifyPath p)"
    unfolding s(1) using s(2) by (cases ?ns) (auto simp: path_text_def names_ok_def)
  have "path_sep (at0 (simplifyPath p)) \<longleftrightarrow> ?slash \<and> ?ns \<noteq> []"
    unfolding s(1) by (rule at0_text [OF s(2)])
  then have "path_text (path_sep (at0 (simplifyPath p))) ?ns = path_text ?slash ?ns"
    by (cases ?ns) (simp_all add: path_text_simps)
  then have "simplifyPath (simplifyPath p) = simplifyPath p"
    unfolding simplify_eq(1) [OF zero] names norm_normal [OF normal_norm] by (simp only: s(1))
  then show ?thesis
    using s(1) normal_norm [of "path_names p"] destination_simplify [OF assms] by simp
qed

lemma path_simplify_correct_witness:
  "simplifyPath (simplifyPath (lit ''a/./b/../../c'')) = simplifyPath (lit ''a/./b/../../c'')"
  by (rule path_simplify_correct [THEN conjunct2, THEN conjunct2, THEN conjunct1]) simp

text \<open>C34. Between two paths that begin with a separator, the relative path is found and leads from the first directory to the second, unless
  the second is the root. (Paths with a drive, which \<^verbatim>\<open>isAbsolutePath\<close> accepts too, are not covered.)\<close>

theorem path_relative_correct:
  assumes "0 \<notin> set from" "0 \<notin> set to" "path_sep (at0 from)" "path_sep (at0 to)" "destination [] to \<noteq> []"
  shows "\<exists>rel. getRelativePath from to = Some rel \<and> destination (destination d from) rel = destination d to"
proof -
  let ?F = "norm (path_names from)" and ?T = "norm (path_names to)"
  have s: "simplifyPath from = path_text True ?F" "simplifyPath to = path_text True ?T" "names_ok ?F" "names_ok ?T"
    using simplify_eq [OF assms(1)] simplify_eq [OF assms(2)] assms(3,4) by (simp_all only: simp_thms)
  have d: "destination d from = walk [] ?F" "destination d to = walk [] ?T"
    using assms(3,4) by (simp_all add: destination_def walk_norm)
  have T: "?T \<noteq> []"
  proof
    assume "?T = []"
    then have "walk [] (path_names to) = []"
      using walk_norm [of "[]" "path_names to"] by (simp add: walk_def)
    then show False
      using assms(4,5) by (simp add: destination_def)
  qed
  have zero: "0 \<notin> set (path_text True ?F @ [47])"
    using s(3) by (auto simp: path_text_def names_ok_def)
  have rest: "destination e (ups k @ v) = walk e (replicate k [46, 46] @ path_names v)"
    if "names_ok (path_names v)" "v = path_text False (path_names v)" for e k v
  proof -
    have "\<not> path_sep (at0 v)"
      using at0_text [OF that(1), of False] that(2) by simp
    then have "\<not> path_sep (at0 (ups k @ v))"
      by (cases k) (simp_all add: ups_def at0_def path_sep_def)
    then show ?thesis
      by (simp add: destination_def ups_names)
  qed
  consider "?F = ?T" | "?F \<noteq> ?T" "\<exists>v. path_text True ?T = path_text True ?F @ 47 # v"
    | "?F \<noteq> ?T" "\<nexists>v. path_text True ?T = path_text True ?F @ 47 # v"
    by blast
  then show ?thesis
  proof cases
    case 1
    have "destination e [46] = e" for e
      using names_word [of "[46]" "[]"] by (simp add: destination_def at0_def path_sep_def names_empty walk_def enter_def)
    then show ?thesis
      using 1 s d by (simp add: getRelativePath_def)
  next
    case 2
    then obtain v where v: "path_text True ?T = path_text True ?F @ 47 # v"
      by blast
    note t = text_rest [OF s(3,4) v]
    have "c_compare_n (path_text True ?T) (path_text True ?F @ [47]) (length (path_text True ?F @ [47])) = 0"
      unfolding compare_starts [OF zero] using v by simp
    then have "getRelativePath from to = Some v"
      using 2(1) names_text [OF s(3)] names_text [OF s(4)] v by (simp add: getRelativePath_def s(1,2) rest_of_def Let_def)
    moreover have "names_ok (path_names v)"
      using s(4) unfolding t(1) names_ok_append by (rule conjunct2)
    ultimately show ?thesis
      using rest [of v "walk [] ?F" 0] t(1,2) d by (simp add: ups_def walk_append)
  next
    case 3
    from relative_loop_correct [OF s(4) T s(3) 3(2), of 1] obtain ls rs v where r: "?F = ls @ rs" "path_text True ?T = path_text True ls @ 47 # v"
      "relative_loop (path_text True ?T) (path_text True ?F @ [47]) (ups 1) = Some (ups (length rs) @ v)"
      by auto
    have ls: "names_ok ls"
      using s(3) unfolding r(1) names_ok_append by (rule conjunct1)
    note t = text_rest [OF ls s(4) r(2)]
    have cmp: "c_compare_n (path_text True ?T) (path_text True ?F @ [47]) (length (path_text True ?F @ [47])) \<noteq> 0"
      unfolding compare_starts [OF zero] using 3(2) by simp
    have ne: "path_text True ?F \<noteq> path_text True ?T"
      using 3(1) names_text [OF s(3)] names_text [OF s(4)] by metis
    have "ups 1 = lit ''../''"
      by (simp add: ups_def)
    then have "getRelativePath from to = Some (ups (length rs) @ v)"
      using r(3) unfolding getRelativePath_def s(1,2) Let_def if_not_P [OF cmp] if_not_P [OF ne] by (simp only:)
    moreover have "names_ok (path_names v)"
      using s(4) unfolding t(1) names_ok_append by (rule conjunct2)
    moreover have "walk (walk [] ?F) (replicate (length rs) [46, 46]) = walk [] ls"
      unfolding r(1) by (rule walk_ups) (use normal_norm [of "path_names from"] r(1) in simp)
    ultimately show ?thesis
      using rest [of v "walk [] ?F" "length rs"] t(1,2) d by (simp add: walk_append)
  qed
qed

lemma path_relative_correct_witness:
  "\<exists>rel. getRelativePath (lit ''/a/b'') (lit ''/a/c'') = Some rel \<and> destination (destination [] (lit ''/a/b'')) rel = destination [] (lit ''/a/c'')"
proof -
  have "path_names (lit ''/a/c'') = [lit ''a'', lit ''c'']"
    using names_text [of "[lit ''a'', lit ''c'']" True] by (simp add: path_text_def names_ok_def path_sep_def)
  then show ?thesis
    by (intro path_relative_correct) (simp_all add: at0_def path_sep_def destination_def walk_def enter_def)
qed



end
