(* ===== verification/Nstd_Callback.thy ===== *)
theory Nstd_Callback
  imports Main
begin

text \<open>
  \<^verbatim>\<open>Callback\<close> (include/nstd/Callback.hpp, src/Callback.cpp): emitters with signals, listeners with slots, and the emission of a
  signal, during which the called slots may connect and disconnect slots, destroy emitters and listeners and emit signals
  again.

  Emitters, listeners, signals and slot functions are numbers; an emitter or listener that does not exist any more is \<open>None\<close>. The
  objects \<open>SignalActivation\<close> are on the stack, the innermost first. Slots and activations have numbers for their addresses.
  An operation is \<open>None\<close> when it uses an object that does not exist.
\<close>

section \<open>The state\<close>

datatype slot_state = Connected | Connecting | Disconnected

record cslot =
  receiver :: nat
  sfun :: nat
  sstate :: slot_state

record signal_data =
  activation :: "nat option"
  slots :: "(nat \<times> cslot) list"
  dirty :: bool

text \<open>Where an emission is: in front of the test of the loop, inside of a slot, or behind it.\<close>

datatype phase = Test | Calling | After

record frame =
  fid :: nat
  fdata :: "nat \<times> nat"
  fnext :: "nat option"
  invalidated :: bool
  cur :: "nat option"
  phase :: phase

record cb =
  emitters :: "nat \<Rightarrow> (nat \<times> signal_data) list option"
  listeners :: "nat \<Rightarrow> (nat \<times> (nat \<times> nat) list) list option"
  frames :: "frame list"
  fresh :: nat

text \<open>Insertion into a map, which keeps its keys in order, or the replacement of the value of a key.\<close>

fun put :: "nat \<Rightarrow> 'a \<Rightarrow> (nat \<times> 'a) list \<Rightarrow> (nat \<times> 'a) list" where
  "put k v [] = [(k, v)]"
| "put k v ((j, w) # xs) = (if k = j then (k, v) # xs else if k < j then (k, v) # (j, w) # xs else (j, w) # put k v xs)"

section \<open>Connecting\<close>

definition connect :: "nat \<Rightarrow> nat \<Rightarrow> nat \<Rightarrow> nat \<Rightarrow> cb \<Rightarrow> cb option" where
  "connect e g r s st =
     (case emitters st e of
        None \<Rightarrow> None
      | Some m \<Rightarrow>
          (case listeners st r of
             None \<Rightarrow> None
           | Some l \<Rightarrow>
               (let d = (case map_of m g of None \<Rightarrow> \<lparr>activation = None, slots = [], dirty = False\<rparr> | Some d \<Rightarrow> d);
                    active = (activation d \<noteq> None);
                    x = \<lparr>receiver = r, sfun = s, sstate = (if active then Connecting else Connected)\<rparr>;
                    d1 = d\<lparr>slots := slots d @ [(fresh st, x)], dirty := dirty d \<or> active\<rparr>;
                    es = (case map_of l e of None \<Rightarrow> [] | Some es \<Rightarrow> es)
                in Some (st\<lparr>emitters := (emitters st)(e := Some (put g d1 m)),
                            listeners := (listeners st)(r := Some (put e (es @ [(g, s)]) l)),
                            fresh := fresh st + 1\<rparr>))))"

text \<open>The first slot with the receiver and the function is marked while the signal is active, and removed otherwise.\<close>

fun unhook_loop :: "nat \<Rightarrow> nat \<Rightarrow> bool \<Rightarrow> (nat \<times> cslot) list \<Rightarrow> (nat \<times> cslot) list option" where
  "unhook_loop r s active [] = None"
| "unhook_loop r s active ((i, x) # xs) =
     (if receiver x = r \<and> sfun x = s
      then Some (if active then (i, x\<lparr>sstate := Disconnected\<rparr>) # xs else xs)
      else map_option ((#) (i, x)) (unhook_loop r s active xs))"

definition unhook :: "nat \<Rightarrow> nat \<Rightarrow> signal_data \<Rightarrow> signal_data" where
  "unhook r s d =
     (case unhook_loop r s (activation d \<noteq> None) (slots d) of
        None \<Rightarrow> d
      | Some xs \<Rightarrow> d\<lparr>slots := xs, dirty := dirty d \<or> activation d \<noteq> None\<rparr>)"

definition disconnect :: "nat \<Rightarrow> nat \<Rightarrow> nat \<Rightarrow> nat \<Rightarrow> cb \<Rightarrow> cb option" where
  "disconnect e g r s st =
     (case emitters st e of
        None \<Rightarrow> None
      | Some m \<Rightarrow>
          (case map_of m g of
             None \<Rightarrow> Some st
           | Some d \<Rightarrow>
               (let st1 = st\<lparr>emitters := (emitters st)(e := Some (put g (unhook r s d) m))\<rparr>
                in case listeners st1 r of
                     None \<Rightarrow> None
                   | Some l \<Rightarrow>
                       (case map_of l e of
                          None \<Rightarrow> None
                        | Some es \<Rightarrow> Some (st1\<lparr>listeners := (listeners st1)(r := Some (put e (remove1 (g, s) es) l))\<rparr>)))))"

section \<open>Destroying\<close>

definition invalidate :: "nat option \<Rightarrow> frame list \<Rightarrow> frame list option" where
  "invalidate a fs =
     (case a of
        None \<Rightarrow> Some fs
      | Some n \<Rightarrow> if n \<in> set (map fid fs) then Some (map (\<lambda>f. if fid f = n then f\<lparr>invalidated := True\<rparr> else f) fs) else None)"

fun forget_slots ::
    "nat \<Rightarrow> nat \<Rightarrow> (nat \<times> cslot) list \<Rightarrow> (nat \<Rightarrow> (nat \<times> (nat \<times> nat) list) list option) \<Rightarrow> (nat \<Rightarrow> (nat \<times> (nat \<times> nat) list) list option) option"
where
  "forget_slots e g [] ls = Some ls"
| "forget_slots e g ((i, x) # xs) ls =
     (if sstate x = Disconnected then forget_slots e g xs ls
      else
        (case ls (receiver x) of
           None \<Rightarrow> None
         | Some l \<Rightarrow>
             forget_slots e g xs
               (case map_of l e of
                  None \<Rightarrow> ls
                | Some es \<Rightarrow> ls(receiver x := Some (put e (remove1 (g, sfun x) es) l)))))"

fun forget_signals :: "nat \<Rightarrow> (nat \<times> signal_data) list \<Rightarrow> cb \<Rightarrow> cb option" where
  "forget_signals e [] st = Some st"
| "forget_signals e ((g, d) # m) st =
     (case invalidate (activation d) (frames st) of
        None \<Rightarrow> None
      | Some fs \<Rightarrow>
          (case forget_slots e g (slots d) (listeners st) of
             None \<Rightarrow> None
           | Some ls \<Rightarrow> forget_signals e m (st\<lparr>frames := fs, listeners := ls\<rparr>)))"

definition destroy_emitter :: "nat \<Rightarrow> cb \<Rightarrow> cb option" where
  "destroy_emitter e st =
     (case emitters st e of
        None \<Rightarrow> None
      | Some m \<Rightarrow> map_option (\<lambda>st1. st1\<lparr>emitters := (emitters st1)(e := None)\<rparr>) (forget_signals e m st))"

fun unhook_entries :: "nat \<Rightarrow> nat \<Rightarrow> (nat \<times> nat) list \<Rightarrow> cb \<Rightarrow> cb option" where
  "unhook_entries r e [] st = Some st"
| "unhook_entries r e ((g, s) # es) st =
     (case emitters st e of
        None \<Rightarrow> None
      | Some m \<Rightarrow>
          unhook_entries r e es
            (case map_of m g of
               None \<Rightarrow> st
             | Some d \<Rightarrow> st\<lparr>emitters := (emitters st)(e := Some (put g (unhook r s d) m))\<rparr>))"

fun unhook_emitters :: "nat \<Rightarrow> (nat \<times> (nat \<times> nat) list) list \<Rightarrow> cb \<Rightarrow> cb option" where
  "unhook_emitters r [] st = Some st"
| "unhook_emitters r ((e, es) # l) st =
     (case unhook_entries r e es st of None \<Rightarrow> None | Some st1 \<Rightarrow> unhook_emitters r l st1)"

definition destroy_listener :: "nat \<Rightarrow> cb \<Rightarrow> cb option" where
  "destroy_listener r st =
     (case listeners st r of
        None \<Rightarrow> None
      | Some l \<Rightarrow> map_option (\<lambda>st1. st1\<lparr>listeners := (listeners st1)(r := None)\<rparr>) (unhook_emitters r l st))"

section \<open>Emitting\<close>

text \<open>The constructor of the activation; without data for the signal its loop has nothing to do and its destructor does nothing.\<close>

definition emit :: "nat \<Rightarrow> nat \<Rightarrow> cb \<Rightarrow> cb option" where
  "emit e g st =
     (case emitters st e of
        None \<Rightarrow> None
      | Some m \<Rightarrow>
          (case map_of m g of
             None \<Rightarrow> Some st
           | Some d \<Rightarrow>
               (let f = \<lparr>fid = fresh st, fdata = (e, g), fnext = activation d, invalidated = False,
                         cur = (case slots d of [] \<Rightarrow> None | (i, x) # xs \<Rightarrow> Some i), phase = Test\<rparr>
                in Some (st\<lparr>emitters := (emitters st)(e := Some (put g (d\<lparr>activation := Some (fresh st)\<rparr>) m)),
                            frames := f # frames st, fresh := fresh st + 1\<rparr>))))"

fun next_slot :: "nat \<Rightarrow> (nat \<times> cslot) list \<Rightarrow> nat option" where
  "next_slot i [] = None"
| "next_slot i ((j, x) # xs) = (if i = j then (case xs of [] \<Rightarrow> None | (k, y) # ys \<Rightarrow> Some k) else next_slot i xs)"

fun clean_slots :: "(nat \<times> cslot) list \<Rightarrow> (nat \<times> cslot) list" where
  "clean_slots [] = []"
| "clean_slots ((i, x) # xs) =
     (case sstate x of
        Disconnected \<Rightarrow> clean_slots xs
      | Connecting \<Rightarrow> (i, x\<lparr>sstate := Connected\<rparr>) # clean_slots xs
      | Connected \<Rightarrow> (i, x) # clean_slots xs)"

text \<open>The destructor of the innermost activation \<open>f\<close>, the others being \<open>fs\<close>.\<close>

definition leave :: "frame \<Rightarrow> frame list \<Rightarrow> cb \<Rightarrow> cb option" where
  "leave f fs st =
     (if \<not> invalidated f then
        (case emitters st (fst (fdata f)) of
           None \<Rightarrow> None
         | Some m \<Rightarrow>
             (case map_of m (snd (fdata f)) of
                None \<Rightarrow> None
              | Some d \<Rightarrow>
                  (let d1 = d\<lparr>activation := fnext f\<rparr>;
                       d2 = (if fnext f = None \<and> dirty d then d1\<lparr>slots := clean_slots (slots d), dirty := False\<rparr> else d1)
                   in Some (st\<lparr>emitters := (emitters st)(fst (fdata f) := Some (put (snd (fdata f)) d2 m)), frames := fs\<rparr>))))
      else map_option (\<lambda>fs1. st\<lparr>frames := fs1\<rparr>) (invalidate (fnext f) fs))"

text \<open>The data of the emission, and one step of its loop; it tells which slot of which listener is called.\<close>

definition frame_slots :: "frame \<Rightarrow> cb \<Rightarrow> (nat \<times> cslot) list option" where
  "frame_slots f st =
     (case emitters st (fst (fdata f)) of None \<Rightarrow> None | Some m \<Rightarrow> map_option slots (map_of m (snd (fdata f))))"

definition emit_step :: "cb \<Rightarrow> ((nat \<times> nat) option \<times> cb) option" where
  "emit_step st =
     (case frames st of
        [] \<Rightarrow> None
      | f # fs \<Rightarrow>
          (case phase f of
             Test \<Rightarrow>
               (case cur f of
                  None \<Rightarrow> map_option (Pair None) (leave f fs st)
                | Some i \<Rightarrow>
                    (case Option.bind (frame_slots f st) (\<lambda>xs. map_of xs i) of
                       None \<Rightarrow> None
                     | Some x \<Rightarrow>
                         if sstate x = Connected then
                           (case listeners st (receiver x) of
                              None \<Rightarrow> None
                            | Some l \<Rightarrow> Some (Some (receiver x, sfun x), st\<lparr>frames := f\<lparr>phase := Calling\<rparr> # fs\<rparr>))
                         else Some (None, st\<lparr>frames := f\<lparr>phase := After\<rparr> # fs\<rparr>)))
           | Calling \<Rightarrow> Some (None, st\<lparr>frames := f\<lparr>phase := After\<rparr> # fs\<rparr>)
           | After \<Rightarrow>
               if invalidated f then map_option (Pair None) (leave f fs st)
               else
                 (case cur f of
                    None \<Rightarrow> None
                  | Some i \<Rightarrow>
                      (case frame_slots f st of
                         None \<Rightarrow> None
                       | Some xs \<Rightarrow>
                           if i \<in> set (map fst xs)
                           then Some (None, st\<lparr>frames := f\<lparr>cur := next_slot i xs, phase := Test\<rparr> # fs\<rparr>)
                           else None))))"

section \<open>The machine\<close>

text \<open>What the program does: outside of emissions, or in the slot that is being called.\<close>

datatype order =
    Connect nat nat nat nat
  | Disconnect nat nat nat nat
  | DestroyEmitter nat
  | DestroyListener nat
  | Emit nat nat

fun obey :: "order \<Rightarrow> cb \<Rightarrow> cb option" where
  "obey (Connect e g r s) st = connect e g r s st"
| "obey (Disconnect e g r s) st = disconnect e g r s st"
| "obey (DestroyEmitter e) st = destroy_emitter e st"
| "obey (DestroyListener r) st = destroy_listener r st"
| "obey (Emit e g) st = emit e g st"

definition free_run :: "cb \<Rightarrow> bool" where
  "free_run st \<longleftrightarrow> (case frames st of [] \<Rightarrow> True | f # fs \<Rightarrow> phase f = Calling)"

definition cb_start :: cb where
  "cb_start = \<lparr>emitters = (\<lambda>e. Some []), listeners = (\<lambda>r. Some []), frames = [], fresh = 0\<rparr>"

end
