(* ===== verification/Nstd_CallbackInv.thy ===== *)
theory Nstd_CallbackInv
  imports Nstd_Callback
begin

text \<open>
  The invariant of \<open>Nstd_Callback\<close>: the slots of the emitters and the lists of the listeners agree, the activations of a signal on the
  stack form the chain that begins at its data, and positions of loops are positions of slots.
\<close>

section \<open>Maps\<close>

definition ksorted :: "(nat \<times> 'a) list \<Rightarrow> bool" where
  "ksorted m \<longleftrightarrow> sorted_wrt (<) (map fst m)"

lemma map_of_put [simp]: "map_of (put k v m) = (map_of m)(k \<mapsto> v)"
  by (induction k v m rule: put.induct) (auto simp: fun_eq_iff)

lemma set_put: "fst ` set (put k v m) = insert k (fst ` set m)"
  by (induction k v m rule: put.induct) auto

lemma ksorted_put: "ksorted m \<Longrightarrow> ksorted (put k v m)"
proof (induction k v m rule: put.induct)
  case (2 k v j w xs)
  have "\<forall>i\<in>fst ` set (put k v xs). j < i" if "j < k"
    using 2 that by (auto simp: set_put ksorted_def)
  then show ?case
    using 2 by (auto simp: ksorted_def)
qed (simp add: ksorted_def)

lemma ksorted_distinct: "ksorted m \<Longrightarrow> distinct (map fst m)"
  unfolding ksorted_def by (simp add: strict_sorted_imp_sorted strict_sorted_iff)

lemma put_same: "ksorted m \<Longrightarrow> map_of m k = Some v \<Longrightarrow> put k v m = m"
proof (induction k v m rule: put.induct)
  case (2 k v j w xs)
  show ?case
  proof (cases "k = j")
    case False
    then have "k \<in> fst ` set xs"
      using 2(3) by (auto simp: dest: map_of_SomeD intro: rev_image_eqI)
    then have "\<not> k < j"
      using 2(2) by (auto simp: ksorted_def)
    then show ?thesis
      using False 2 by (simp add: ksorted_def)
  qed (use 2 in simp)
qed simp

section \<open>The invariant\<close>

definition sig :: "cb \<Rightarrow> nat \<Rightarrow> nat \<Rightarrow> signal_data option" where
  "sig st e g = (case emitters st e of None \<Rightarrow> None | Some m \<Rightarrow> map_of m g)"

definition ents_of :: "(nat \<Rightarrow> (nat \<times> (nat \<times> nat) list) list option) \<Rightarrow> nat \<Rightarrow> nat \<Rightarrow> (nat \<times> nat) list" where
  "ents_of ls r e = (case ls r of None \<Rightarrow> [] | Some l \<Rightarrow> (case map_of l e of None \<Rightarrow> [] | Some es \<Rightarrow> es))"

abbreviation ents :: "cb \<Rightarrow> nat \<Rightarrow> nat \<Rightarrow> (nat \<times> nat) list" where
  "ents st \<equiv> ents_of (listeners st)"

definition slot_key :: "nat \<times> cslot \<Rightarrow> nat \<times> nat" where
  "slot_key x = (receiver (snd x), sfun (snd x))"

text \<open>The slots that are not disconnected, by listener and function, with their number.\<close>

definition live :: "(nat \<times> cslot) list \<Rightarrow> nat \<times> nat \<Rightarrow> nat" where
  "live xs k = length (filter (\<lambda>x. slot_key x = k \<and> sstate (snd x) \<noteq> Disconnected) xs)"

abbreviation hooks :: "signal_data \<Rightarrow> nat \<times> nat \<Rightarrow> nat" where
  "hooks d \<equiv> live (slots d)"

definition keys :: "signal_data \<Rightarrow> (nat \<times> nat) list" where
  "keys d = map slot_key (slots d)"

lemma live_simps [simp]: "live [] k = 0" "live (xs @ ys) k = live xs k + live ys k"
  "live (x # xs) k = (if slot_key x = k \<and> sstate (snd x) \<noteq> Disconnected then 1 else 0) + live xs k"
  by (simp_all add: live_def)

lemma live_iff: "0 < live xs (r, s) \<longleftrightarrow> (\<exists>x\<in>set xs. sstate (snd x) \<noteq> Disconnected \<and> slot_key x = (r, s))"
  by (induction xs) auto

lemma count_remove1: "count_list (remove1 a xs) b = count_list xs b - (if a = b then 1 else 0)"
  by (induction xs) auto

lemma count_pos: "0 < count_list xs a \<longleftrightarrow> a \<in> set xs"
  by (induction xs) auto

text \<open>The slots of a signal. A slot that is disconnected is the only one for its listener and function.\<close>

definition slots_ok :: "nat \<Rightarrow> signal_data \<Rightarrow> bool" where
  "slots_ok n d \<longleftrightarrow>
     distinct (map fst (slots d)) \<and> (\<forall>i\<in>fst ` set (slots d). i < n)
     \<and> (\<forall>x\<in>set (slots d). sstate (snd x) = Disconnected \<longrightarrow> count_list (keys d) (slot_key x) = 1)
     \<and> (\<not> dirty d \<longrightarrow> (\<forall>x\<in>set (slots d). sstate (snd x) = Connected)) \<and> (activation d = None \<longrightarrow> \<not> dirty d)"

fun linked :: "nat option \<Rightarrow> frame list \<Rightarrow> bool" where
  "linked a [] \<longleftrightarrow> a = None"
| "linked a (f # fs) \<longleftrightarrow> a = Some (fid f) \<and> linked (fnext f) fs"

definition chain :: "nat \<Rightarrow> nat \<Rightarrow> frame list \<Rightarrow> frame list" where
  "chain e g fs = filter (\<lambda>f. fdata f = (e, g)) fs"

definition live_chain :: "signal_data \<Rightarrow> frame list \<Rightarrow> bool" where
  "live_chain d c \<longleftrightarrow> linked (activation d) c \<and> (\<forall>f\<in>set c. \<not> invalidated f \<and> (\<forall>i. cur f = Some i \<longrightarrow> i \<in> fst ` set (slots d)))"

definition dead_chain :: "frame list \<Rightarrow> bool" where
  "dead_chain c \<longleftrightarrow> c = [] \<or> invalidated (hd c) \<and> linked (Some (fid (hd c))) c"

definition chains_ok :: "cb \<Rightarrow> bool" where
  "chains_ok st \<longleftrightarrow>
     (\<forall>e g. case sig st e g of
        Some d \<Rightarrow> live_chain d (chain e g (frames st))
      | None \<Rightarrow> if emitters st e = None then dead_chain (chain e g (frames st)) else chain e g (frames st) = [])"

definition frames_ok :: "nat \<Rightarrow> frame list \<Rightarrow> bool" where
  "frames_ok n fs \<longleftrightarrow>
     distinct (map fid fs) \<and> (\<forall>f\<in>set fs. fid f < n \<and> (phase f = Test \<longrightarrow> \<not> invalidated f) \<and> (phase f \<noteq> Test \<longrightarrow> cur f \<noteq> None))
     \<and> (\<forall>f\<in>set (tl fs). phase f = Calling)"

definition maps_ok :: "cb \<Rightarrow> bool" where
  "maps_ok st \<longleftrightarrow> (\<forall>e m. emitters st e = Some m \<longrightarrow> ksorted m) \<and> (\<forall>r l. listeners st r = Some l \<longrightarrow> ksorted l)"

definition links_ok :: "cb \<Rightarrow> bool" where
  "links_ok st \<longleftrightarrow> (\<forall>r e g s. count_list (ents st r e) (g, s) = (case sig st e g of None \<Rightarrow> 0 | Some d \<Rightarrow> hooks d (r, s)))"

definition cb_inv :: "cb \<Rightarrow> bool" where
  "cb_inv st \<longleftrightarrow> maps_ok st \<and> (\<forall>e g d. sig st e g = Some d \<longrightarrow> slots_ok (fresh st) d) \<and> links_ok st \<and> chains_ok st
     \<and> frames_ok (fresh st) (frames st)"

lemma inv_start: "cb_inv cb_start"
  by (simp add: cb_inv_def cb_start_def maps_ok_def links_ok_def chains_ok_def frames_ok_def sig_def ents_of_def ksorted_def chain_def)

lemma sig_alive: "sig st e g = Some d \<Longrightarrow> \<exists>m. emitters st e = Some m \<and> map_of m g = Some d"
  by (simp add: sig_def split: option.splits)

lemma links_count: "links_ok st \<Longrightarrow> sig st e g = Some d \<Longrightarrow> count_list (ents st r e) (g, s) = hooks d (r, s)"
  by (simp add: links_ok_def)

lemma links_iff: "links_ok st \<Longrightarrow> (g, s) \<in> set (ents st r e) \<longleftrightarrow> (\<exists>d. sig st e g = Some d \<and> 0 < hooks d (r, s))"
  unfolding count_pos [symmetric] by (auto simp: links_ok_def split: option.splits)

lemma hooked_alive: "links_ok st \<Longrightarrow> sig st e g = Some d \<Longrightarrow> 0 < hooks d (r, s) \<Longrightarrow> \<exists>l es. listeners st r = Some l \<and> map_of l e = Some es \<and> (g, s) \<in> set es"
proof -
  assume "links_ok st" "sig st e g = Some d" "0 < hooks d (r, s)"
  then have "(g, s) \<in> set (ents st r e)"
    using links_iff by blast
  then show ?thesis
    by (cases "listeners st r"; cases "map_of (the (listeners st r)) e") (simp_all add: ents_of_def)
qed

lemma chain_simps [simp]: "chain e g [] = []"
  "chain e g (f # fs) = (if fdata f = (e, g) then f # chain e g fs else chain e g fs)"
  by (simp_all add: chain_def)

lemma chain_set: "f \<in> set (chain e g fs) \<longleftrightarrow> f \<in> set fs \<and> fdata f = (e, g)"
  by (auto simp: chain_def)

lemma chain_map: "(\<And>f. fdata (h f) = fdata f) \<Longrightarrow> chain e g (map h fs) = map h (chain e g fs)"
  by (simp add: chain_def filter_map comp_def)

lemma linked_map: "(\<And>f. fid (h f) = fid f \<and> fnext (h f) = fnext f) \<Longrightarrow> linked a (map h fs) = linked a fs"
  by (induction fs arbitrary: a) simp_all

lemma linked_hd: "linked a c \<Longrightarrow> a = (case c of [] \<Rightarrow> None | f # fs \<Rightarrow> Some (fid f))"
  by (cases c) simp_all

section \<open>Replacing the data of a signal\<close>

definition set_sig :: "nat \<Rightarrow> nat \<Rightarrow> signal_data \<Rightarrow> cb \<Rightarrow> cb" where
  "set_sig e g d st = st\<lparr>emitters := (emitters st)(e := Some (put g d (the (emitters st e))))\<rparr>"

lemma sig_set: "emitters st e \<noteq> None \<Longrightarrow> sig (set_sig e g d st) e' g' = (if e' = e \<and> g' = g then Some d else sig st e' g')"
  by (auto simp: sig_def set_sig_def)

lemma set_sig_simps [simp]: "listeners (set_sig e g d st) = listeners st" "frames (set_sig e g d st) = frames st"
  "fresh (set_sig e g d st) = fresh st" "emitters (set_sig e g d st) e' = None \<longleftrightarrow> e' \<noteq> e \<and> emitters st e' = None"
  by (simp_all add: set_sig_def)

lemma maps_set_sig: "maps_ok st \<Longrightarrow> emitters st e \<noteq> None \<Longrightarrow> maps_ok (set_sig e g d st)"
  by (auto simp: maps_ok_def set_sig_def intro: ksorted_put split: if_splits)

text \<open>What connects and disconnects: one signal gets new data and one listener a new list.\<close>

definition set_ents :: "nat \<Rightarrow> nat \<Rightarrow> (nat \<times> nat) list \<Rightarrow> cb \<Rightarrow> cb" where
  "set_ents r e es st = st\<lparr>listeners := (listeners st)(r := Some (put e es (the (listeners st r))))\<rparr>"

lemma set_ents_simps [simp]: "emitters (set_ents r e es st) = emitters st" "frames (set_ents r e es st) = frames st"
  "fresh (set_ents r e es st) = fresh st" "sig (set_ents r e es st) = sig st"
  "listeners (set_ents r e es st) r' = None \<longleftrightarrow> r' \<noteq> r \<and> listeners st r' = None"
  by (simp_all add: set_ents_def sig_def [abs_def])

lemma ents_set: "listeners st r \<noteq> None \<Longrightarrow> ents (set_ents r e es st) r' e' = (if r' = r \<and> e' = e then es else ents st r' e')"
  by (auto simp: ents_of_def set_ents_def)

lemma maps_set_ents: "maps_ok st \<Longrightarrow> listeners st r \<noteq> None \<Longrightarrow> maps_ok (set_ents r e es st)"
  by (auto simp: maps_ok_def set_ents_def intro: ksorted_put split: if_splits)

lemma chains_set_sig:
  assumes "chains_ok st" "emitters st e \<noteq> None" "live_chain d (chain e g (frames st))"
  shows "chains_ok (set_sig e g d st)"
  unfolding chains_ok_def
proof (intro allI)
  fix e' g'
  show "case sig (set_sig e g d st) e' g' of
      Some d' \<Rightarrow> live_chain d' (chain e' g' (frames (set_sig e g d st)))
    | None \<Rightarrow> if emitters (set_sig e g d st) e' = None then dead_chain (chain e' g' (frames (set_sig e g d st)))
        else chain e' g' (frames (set_sig e g d st)) = []"
    using assms(3) assms(1) [unfolded chains_ok_def, rule_format, of e' g'] assms(2)
    by (auto simp: sig_set split: option.splits)
qed

lemma chains_cong: "emitters st' = emitters st \<Longrightarrow> frames st' = frames st \<Longrightarrow> chains_ok st' = chains_ok st"
  by (simp only: chains_ok_def sig_def)

lemma inv_chain: "cb_inv st \<Longrightarrow> sig st e g = Some d \<Longrightarrow> live_chain d (chain e g (frames st))"
  unfolding cb_inv_def chains_ok_def by (metis option.simps(5))

lemma cb_inv_same:
  assumes "cb_inv st" "emitters st' = emitters st" "frames st' = frames st" "fresh st' = fresh st"
    "\<And>q e. ents st' q e = ents st q e" "maps_ok st'"
  shows "cb_inv st'"
proof -
  have "sig st' = sig st"
    by (simp add: sig_def fun_eq_iff assms(2))
  then show ?thesis
    using assms chains_cong [OF assms(2,3)] by (simp add: cb_inv_def links_ok_def)
qed

lemma inv_change:
  assumes "cb_inv st" "emitters st e \<noteq> None" "listeners st r \<noteq> None" "slots_ok n d" "fresh st \<le> n"
    and "live_chain d (chain e g (frames st))"
    and "\<And>h s. count_list es (h, s) = (if h = g then hooks d (r, s) else count_list (ents st r e) (h, s))"
    and "\<And>q s. q \<noteq> r \<Longrightarrow> hooks d (q, s) = count_list (ents st q e) (g, s)"
  shows "cb_inv (set_ents r e es (set_sig e g d st)\<lparr>fresh := n\<rparr>)"
proof -
  define st' where "st' = set_ents r e es (set_sig e g d st)\<lparr>fresh := n\<rparr>"
  have f: "frames st' = frames st" "fresh st' = n" "emitters st' = emitters (set_sig e g d st)"
    by (simp_all add: st'_def)
  have sig: "sig st' e' g' = (if e' = e \<and> g' = g then Some d else sig st e' g')" for e' g'
    using assms(2) sig_set [of st e g d e' g'] by (simp add: st'_def sig_def)
  have ents: "ents st' r' e' = (if r' = r \<and> e' = e then es else ents st r' e')" for r' e'
    using assms(3) ents_set [of "set_sig e g d st" r e es r' e'] by (simp add: st'_def)
  have "maps_ok st"
    using assms(1) by (simp add: cb_inv_def)
  then have "maps_ok (set_ents r e es (set_sig e g d st))"
    using assms(2,3) by (intro maps_set_ents maps_set_sig) simp_all
  then have 1: "maps_ok st'"
    by (simp add: maps_ok_def st'_def)
  have 2: "slots_ok (fresh st') d'" if "sig st' e' g' = Some d'" for e' g' d'
  proof (cases "e' = e \<and> g' = g")
    case False
    then have "sig st e' g' = Some d'"
      using that sig by metis
    then have "slots_ok (fresh st) d'"
      using assms(1) unfolding cb_inv_def by blast
    then show ?thesis
      using assms(5) f(2) by (auto simp: slots_ok_def)
  qed (use that assms(4) f(2) in \<open>auto simp: sig\<close>)
  have links: "links_ok st"
    using assms(1) by (simp add: cb_inv_def)
  have "count_list (ents st' q e') (h, s) = (case sig st' e' h of None \<Rightarrow> 0 | Some d' \<Rightarrow> hooks d' (q, s))" for q e' h s
  proof (cases "e' = e")
    case True
    show ?thesis
    proof (cases "h = g")
      case hg: True
      then show ?thesis
        using True assms(7) [of g s] assms(8) [of q s] by (cases "q = r") (simp_all add: sig ents)
    next
      case hg: False
      then show ?thesis
        using True assms(7) [of h s] links by (cases "q = r"; cases "sig st e h") (auto simp: sig ents links_ok_def)
    qed
  next
    case False
    then show ?thesis
      using links by (simp add: sig ents links_ok_def)
  qed
  then have 3: "links_ok st'"
    by (simp add: links_ok_def)
  have 4: "chains_ok st'"
    using chains_set_sig [OF _ assms(2,6)] assms(1) chains_cong [of st' "set_sig e g d st"] f by (simp add: cb_inv_def)
  have 5: "frames_ok (fresh st') (frames st')"
    using assms(1,5) f by (fastforce simp: cb_inv_def frames_ok_def)
  show ?thesis
    using 1 2 3 4 5 unfolding cb_inv_def st'_def by blast
qed

section \<open>Connecting\<close>

text \<open>The rule for programs. While a signal is active, \<^verbatim>\<open>disconnect\<close> and the end of a listener find the first slot for a listener and a
  function, also a disconnected one. So no second slot may be there then, and none may be added to a disconnected one. Outside of the
  emissions of a signal, the same function may have any number of slots.\<close>

definition single :: "nat \<Rightarrow> nat \<Rightarrow> nat \<times> nat \<Rightarrow> cb \<Rightarrow> bool" where
  "single e g k st \<longleftrightarrow>
     (case sig st e g of None \<Rightarrow> True | Some d \<Rightarrow> activation d = None \<or> count_list (keys d) k = 1)"

fun allowed :: "order \<Rightarrow> cb \<Rightarrow> bool" where
  "allowed (Connect e g r s) st \<longleftrightarrow>
     emitters st e \<noteq> None \<and> listeners st r \<noteq> None
     \<and> (case sig st e g of None \<Rightarrow> True
        | Some d \<Rightarrow> \<forall>x\<in>set (slots d). slot_key x = (r, s) \<longrightarrow> sstate (snd x) \<noteq> Disconnected)"
| "allowed (Disconnect e g r s) st \<longleftrightarrow> (g, s) \<in> set (ents st r e) \<and> single e g (r, s) st"
| "allowed (DestroyEmitter e) st \<longleftrightarrow> emitters st e \<noteq> None"
| "allowed (DestroyListener r) st \<longleftrightarrow>
     (case listeners st r of None \<Rightarrow> False
      | Some l \<Rightarrow> \<forall>(e, es)\<in>set l. \<forall>(g, s)\<in>set es. single e g (r, s) st)"
| "allowed (Emit e g) st \<longleftrightarrow> emitters st e \<noteq> None"

definition new_data :: signal_data where
  "new_data = \<lparr>activation = None, slots = [], dirty = False\<rparr>"

lemma connect_inv:
  assumes "cb_inv st" "allowed (Connect e g r s) st"
  shows "\<exists>st'. connect e g r s st = Some st' \<and> cb_inv st'"
proof -
  obtain m l where ml: "emitters st e = Some m" "listeners st r = Some l"
    using assms(2) by auto
  define d where "d = (case sig st e g of None \<Rightarrow> new_data | Some d \<Rightarrow> d)"
  define x where "x = (fresh st, \<lparr>receiver = r, sfun = s, sstate = (if activation d \<noteq> None then Connecting else Connected)\<rparr>)"
  define d1 where "d1 = d\<lparr>slots := slots d @ [x], dirty := dirty d \<or> activation d \<noteq> None\<rparr>"
  have "slots_ok (fresh st) d \<and> live_chain d (chain e g (frames st))"
  proof (cases "sig st e g")
    case None
    then have "chain e g (frames st) = []"
      using assms(1) ml(1) unfolding cb_inv_def chains_ok_def by (metis option.simps(3,4))
    then show ?thesis
      using None by (simp_all add: d_def new_data_def slots_ok_def live_chain_def)
  next
    case (Some d0)
    then show ?thesis
      using assms(1) inv_chain [OF assms(1) Some] by (simp add: d_def cb_inv_def)
  qed
  then have d: "slots_ok (fresh st) d" "live_chain d (chain e g (frames st))"
    by simp_all
  have key: "slot_key x = (r, s)" "sstate (snd x) \<noteq> Disconnected"
    by (simp_all add: x_def slot_key_def)
  have new: "sstate (snd y) \<noteq> Disconnected" if "y \<in> set (slots d)" "slot_key y = (r, s)" for y
    using assms(2) that by (auto simp: d_def new_data_def split: option.splits)
  have hook: "hooks d1 k = hooks d k + (if k = (r, s) then 1 else 0)" for k
    using key by (simp add: d1_def)
  have old: "hooks d (q, t) = count_list (ents st q e) (g, t)" for q t
    using assms(1) unfolding cb_inv_def links_ok_def
    by (cases "sig st e g") (auto simp: d_def new_data_def)
  have "slots_ok (fresh st + 1) d1"
    using d(1) key new by (auto simp: slots_ok_def d1_def x_def keys_def less_Suc_eq)
  moreover have "live_chain d1 (chain e g (frames st))"
    using d(2) by (auto simp: live_chain_def d1_def)
  moreover have "count_list (ents st r e @ [(g, s)]) (h, t) = (if h = g then hooks d1 (r, t) else count_list (ents st r e) (h, t))" for h t
    using old [of r t] by (auto simp: hook)
  moreover have "q \<noteq> r \<Longrightarrow> hooks d1 (q, t) = count_list (ents st q e) (g, t)" for q t
    using old [of q t] by (auto simp: hook)
  ultimately have "cb_inv (set_ents r e (ents st r e @ [(g, s)]) (set_sig e g d1 st)\<lparr>fresh := fresh st + 1\<rparr>)"
    using ml by (intro inv_change [OF assms(1)]) simp_all
  moreover have "connect e g r s st = Some (set_ents r e (ents st r e @ [(g, s)]) (set_sig e g d1 st)\<lparr>fresh := fresh st + 1\<rparr>)"
  proof -
    have "sig st e g = map_of m g" "ents st r e = (case map_of l e of None \<Rightarrow> [] | Some es \<Rightarrow> es)"
      using ml by (simp_all add: sig_def ents_of_def)
    then have "(case map_of m g of None \<Rightarrow> new_data | Some d \<Rightarrow> d) = d" "(case map_of l e of None \<Rightarrow> [] | Some es \<Rightarrow> es) = ents st r e"
      by (simp_all add: d_def)
    then show ?thesis
      unfolding connect_def ml option.case new_data_def [symmetric] Let_def
      using ml by (simp add: set_ents_def set_sig_def d1_def x_def)
  qed
  ultimately show ?thesis
    by blast
qed

section \<open>Disconnecting\<close>

definition mark :: "nat \<times> cslot \<Rightarrow> nat \<times> cslot" where
  "mark x = (fst x, (snd x)\<lparr>sstate := Disconnected\<rparr>)"

lemma mark_simps [simp]: "fst (mark x) = fst x" "slot_key (mark x) = slot_key x" "sstate (snd (mark x)) = Disconnected"
  by (simp_all add: mark_def slot_key_def)

lemma unhook_loop_split:
  assumes "slot_key x = (r, s)"
  shows "(\<forall>y\<in>set us. slot_key y \<noteq> (r, s)) \<Longrightarrow> unhook_loop r s active (us @ x # vs) = Some (us @ (if active then mark x # vs else vs))"
proof (induction us)
  case Nil
  then show ?case
    using assms by (cases x) (auto simp: slot_key_def mark_def)
next
  case (Cons y us)
  then show ?case
    by (cases y) (auto simp: slot_key_def)
qed

lemma unhook_ok:
  assumes "slots_ok n d" "0 < hooks d (r, s)" "activation d = None \<or> count_list (keys d) (r, s) = 1"
  shows "slots_ok n (unhook r s d)" "hooks (unhook r s d) k = hooks d k - (if k = (r, s) then 1 else 0)"
    "live_chain d c \<Longrightarrow> live_chain (unhook r s d) c" "activation (unhook r s d) = activation d"
    "activation d \<noteq> None \<Longrightarrow> keys (unhook r s d) = keys d"
proof -
  have d: "distinct (map fst (slots d))" "\<forall>i\<in>fst ` set (slots d). i < n"
    "\<forall>x\<in>set (slots d). sstate (snd x) = Disconnected \<longrightarrow> count_list (keys d) (slot_key x) = 1"
    "\<not> dirty d \<longrightarrow> (\<forall>x\<in>set (slots d). sstate (snd x) = Connected)" "activation d = None \<longrightarrow> \<not> dirty d"
    using assms(1) by (simp_all add: slots_ok_def)
  have "\<exists>x\<in>set (slots d). slot_key x = (r, s)"
    using assms(2) live_iff by blast
  then obtain us x vs where x: "slots d = us @ x # vs" "slot_key x = (r, s)" "\<forall>y\<in>set us. slot_key y \<noteq> (r, s)"
    using split_list_first_prop [of "slots d" "\<lambda>x. slot_key x = (r, s)"] by blast
  note loop = unhook_loop_split [OF x(2,3), of "activation d \<noteq> None" vs, folded x(1)]
  have none: "live us (r, s) = 0"
    using x(3) by (auto simp: live_def filter_empty_conv)
  have "slots_ok n (unhook r s d) \<and> hooks (unhook r s d) k = hooks d k - (if k = (r, s) then 1 else 0)
    \<and> (live_chain d c \<longrightarrow> live_chain (unhook r s d) c) \<and> activation (unhook r s d) = activation d
    \<and> (activation d \<noteq> None \<longrightarrow> keys (unhook r s d) = keys d)"
  proof (cases "activation d")
    case None
    then have u: "unhook r s d = d\<lparr>slots := us @ vs\<rparr>"
      using loop by (simp add: unhook_def)
    have con: "\<forall>y\<in>set (us @ x # vs). sstate (snd y) = Connected"
      using d(4,5) None x(1) by simp
    have "live_chain d c \<Longrightarrow> c = []"
      using None by (cases c) (simp_all add: live_chain_def)
    then show ?thesis
      unfolding u using None d(1,2,5) con x(1,2) by (auto simp: slots_ok_def live_chain_def)
  next
    case (Some a)
    then have u: "unhook r s d = d\<lparr>slots := us @ mark x # vs, dirty := True\<rparr>"
      using loop by (simp add: unhook_def)
    have one: "count_list (keys d) (r, s) = 1"
      using assms(3) Some by simp
    then have "count_list (map slot_key vs) (r, s) = 0"
      using x(1,2) by (simp add: keys_def)
    then have vs: "\<forall>y\<in>set vs. slot_key y \<noteq> (r, s)"
      by (metis count_list_0_iff image_eqI list.set_map)
    then have "live vs (r, s) = 0"
      by (auto simp: live_def filter_empty_conv)
    then have xs: "sstate (snd x) \<noteq> Disconnected"
      using assms(2) none x(1) by (auto split: if_splits)
    have keys: "keys (unhook r s d) = keys d"
      using x(1) by (simp add: u keys_def)
    have "slots_ok n (unhook r s d)"
      using d(1-3) one x(1,2) Some keys unfolding slots_ok_def u by (auto simp: keys_def)
    then show ?thesis
      using keys x(1,2) xs none \<open>live vs (r, s) = 0\<close> Some by (auto simp: u live_chain_def)
  qed
  then show "slots_ok n (unhook r s d)" "hooks (unhook r s d) k = hooks d k - (if k = (r, s) then 1 else 0)"
    "live_chain d c \<Longrightarrow> live_chain (unhook r s d) c" "activation (unhook r s d) = activation d"
    "activation d \<noteq> None \<Longrightarrow> keys (unhook r s d) = keys d"
    by simp_all
qed

lemma single_set:
  assumes "emitters st e \<noteq> None" "sig st e g = Some d" "activation d' = activation d" "activation d \<noteq> None \<Longrightarrow> keys d' = keys d"
  shows "single e' g' k (set_ents r e es (set_sig e g d' st)) = single e' g' k st"
  using assms by (cases "activation d") (auto simp: single_def sig_set split: option.splits)

lemma disconnect_inv:
  assumes "cb_inv st" "(g, s) \<in> set (ents st r e)" "single e g (r, s) st"
  shows "\<exists>d. sig st e g = Some d
    \<and> disconnect e g r s st = Some (set_ents r e (remove1 (g, s) (ents st r e)) (set_sig e g (unhook r s d) st))
    \<and> cb_inv (set_ents r e (remove1 (g, s) (ents st r e)) (set_sig e g (unhook r s d) st))
    \<and> (\<forall>e' g' k. single e' g' k (set_ents r e (remove1 (g, s) (ents st r e)) (set_sig e g (unhook r s d) st)) = single e' g' k st)"
proof -
  have links: "links_ok st"
    using assms(1) by (simp add: cb_inv_def)
  then obtain d where d: "sig st e g = Some d" "0 < hooks d (r, s)"
    using assms(2) links_iff by blast
  obtain m where m: "emitters st e = Some m" "map_of m g = Some d"
    using sig_alive [OF d(1)] by blast
  obtain l es where l: "listeners st r = Some l" "map_of l e = Some es"
    using hooked_alive [OF links d] by blast
  then have es: "ents st r e = es"
    by (simp add: ents_of_def)
  have ok: "slots_ok (fresh st) d"
    using assms(1) d(1) by (simp add: cb_inv_def)
  have one: "activation d = None \<or> count_list (keys d) (r, s) = 1"
    using assms(3) d(1) by (simp add: single_def)
  note u = unhook_ok [OF ok d(2) one]
  note old = links_count [OF links d(1)]
  have "cb_inv (set_ents r e (remove1 (g, s) es) (set_sig e g (unhook r s d) st)\<lparr>fresh := fresh st\<rparr>)"
  proof (rule inv_change [OF assms(1)])
    show "live_chain (unhook r s d) (chain e g (frames st))"
      by (rule u(3) [OF inv_chain [OF assms(1) d(1)]])
    show "count_list (remove1 (g, s) es) (h, t) = (if h = g then hooks (unhook r s d) (r, t) else count_list (ents st r e) (h, t))" for h t
      using old [of r t] by (auto simp: u(2) es count_remove1)
    show "hooks (unhook r s d) (q, t) = count_list (ents st q e) (g, t)" if "q \<noteq> r" for q t
      using old [of q t] that by (simp add: u(2))
  qed (use m l u(1) in simp_all)
  moreover have "set_ents r e (remove1 (g, s) es) (set_sig e g (unhook r s d) st)\<lparr>fresh := fresh st\<rparr>
      = set_ents r e (remove1 (g, s) es) (set_sig e g (unhook r s d) st)"
    by (simp add: set_ents_def set_sig_def)
  moreover have "disconnect e g r s st = Some (set_ents r e (remove1 (g, s) es) (set_sig e g (unhook r s d) st))"
    using m l by (simp add: disconnect_def Let_def set_ents_def set_sig_def)
  moreover have "single e' g' k (set_ents r e (remove1 (g, s) es) (set_sig e g (unhook r s d) st)) = single e' g' k st" for e' g' k
    using m(1) by (intro single_set [OF _ d(1) u(4,5)]) simp_all
  ultimately show ?thesis
    using d(1) es by auto
qed

section \<open>Destroying a listener\<close>

lemma update_swap: "st\<lparr>listeners := a, emitters := b\<rparr> = st\<lparr>emitters := b, listeners := a\<rparr>" for st :: cb
  by simp

lemma unhook_entries_listeners:
  "unhook_entries r e es (st\<lparr>listeners := ls\<rparr>) = map_option (\<lambda>s. s\<lparr>listeners := ls\<rparr>) (unhook_entries r e es st)"
proof (induction r e es st rule: unhook_entries.induct)
  case (2 r e g s es st)
  show ?case
  proof (cases "emitters st e")
    case (Some m)
    then show ?thesis
      using 2 [OF Some] by (cases "map_of m g") (simp_all add: update_swap)
  qed simp
qed simp

lemma unhook_emitters_listeners:
  "unhook_emitters r l (st\<lparr>listeners := ls\<rparr>) = map_option (\<lambda>s. s\<lparr>listeners := ls\<rparr>) (unhook_emitters r l st)"
proof (induction r l st rule: unhook_emitters.induct)
  case (2 r e es l st)
  then show ?case
    by (cases "unhook_entries r e es st") (simp_all add: unhook_entries_listeners)
qed simp

definition same_but :: "nat \<Rightarrow> cb \<Rightarrow> cb \<Rightarrow> bool" where
  "same_but r st st' \<longleftrightarrow> frames st' = frames st \<and> fresh st' = fresh st \<and> (\<forall>e. (emitters st' e = None) = (emitters st e = None))
     \<and> (\<forall>q. (listeners st' q = None) = (listeners st q = None)) \<and> (\<forall>q e. q \<noteq> r \<longrightarrow> ents st' q e = ents st q e)
     \<and> (\<forall>e g k. single e g k st' = single e g k st)"

lemma same_but_trans: "same_but r st st' \<Longrightarrow> same_but r st' st'' \<Longrightarrow> same_but r st st''"
  by (simp add: same_but_def)

lemma unhook_entries_inv:
  "cb_inv st \<Longrightarrow> ents st r e = es \<Longrightarrow> (\<And>g s. (g, s) \<in> set es \<Longrightarrow> single e g (r, s) st) \<Longrightarrow>
    \<exists>st'. unhook_entries r e es st = Some (st'\<lparr>listeners := listeners st\<rparr>) \<and> cb_inv st' \<and> same_but r st st'
      \<and> ents st' r e = [] \<and> (\<forall>e'. e' \<noteq> e \<longrightarrow> ents st' r e' = ents st r e')"
proof (induction es arbitrary: st)
  case Nil
  then show ?case
    by (intro exI [of _ st]) (simp add: same_but_def)
next
  case (Cons a es)
  obtain g s where a: "a = (g, s)" by fastforce
  have "(g, s) \<in> set (ents st r e)" "single e g (r, s) st"
    using Cons.prems(2,3) a by simp_all
  from disconnect_inv [OF Cons.prems(1) this] obtain d where d: "sig st e g = Some d"
    "cb_inv (set_ents r e es (set_sig e g (unhook r s d) st))"
    "\<And>e' g' k. single e' g' k (set_ents r e es (set_sig e g (unhook r s d) st)) = single e' g' k st"
    using Cons.prems(2) a by auto
  let ?st1 = "set_ents r e es (set_sig e g (unhook r s d) st)"
  obtain m where m: "emitters st e = Some m" "map_of m g = Some d"
    using sig_alive [OF d(1)] by blast
  have alive: "listeners st r \<noteq> None"
    using Cons.prems(2) by (auto simp: ents_of_def split: option.splits)
  then have ents: "ents ?st1 q e' = (if q = r \<and> e' = e then es else ents st q e')" for q e'
    using ents_set [of "set_sig e g (unhook r s d) st" r e es q e'] by simp
  from Cons.IH [OF d(2)] obtain st' where IH: "unhook_entries r e es ?st1 = Some (st'\<lparr>listeners := listeners ?st1\<rparr>)" "cb_inv st'"
    "same_but r ?st1 st'" "ents st' r e = []" "\<forall>e'. e' \<noteq> e \<longrightarrow> ents st' r e' = ents ?st1 r e'"
    using ents d(3) Cons.prems(3) by auto
  have "unhook_entries r e (a # es) st = unhook_entries r e es (?st1\<lparr>listeners := listeners st\<rparr>)"
    using m a by (simp add: set_ents_def set_sig_def)
  also have "\<dots> = Some (st'\<lparr>listeners := listeners st\<rparr>)"
    unfolding unhook_entries_listeners IH(1) by simp
  finally have "unhook_entries r e (a # es) st = Some (st'\<lparr>listeners := listeners st\<rparr>)" .
  moreover have "same_but r st ?st1"
    using m alive ents d(3) by (auto simp: same_but_def)
  ultimately show ?case
    using IH ents same_but_trans [OF _ IH(3)] by (intro exI [of _ st']) simp
qed

lemma unhook_emitters_inv:
  "cb_inv st \<Longrightarrow> listeners st r \<noteq> None \<Longrightarrow> distinct (map fst l) \<Longrightarrow> (\<And>e es. (e, es) \<in> set l \<Longrightarrow> ents st r e = es) \<Longrightarrow>
    (\<And>e es g s. (e, es) \<in> set l \<Longrightarrow> (g, s) \<in> set es \<Longrightarrow> single e g (r, s) st) \<Longrightarrow>
    \<exists>st'. unhook_emitters r l st = Some (st'\<lparr>listeners := listeners st\<rparr>) \<and> cb_inv st' \<and> same_but r st st'
      \<and> (\<forall>e\<in>fst ` set l. ents st' r e = []) \<and> (\<forall>e. e \<notin> fst ` set l \<longrightarrow> ents st' r e = ents st r e)"
proof (induction l arbitrary: st)
  case Nil
  then show ?case
    by (intro exI [of _ st]) (simp add: same_but_def)
next
  case (Cons a l)
  obtain e es where a: "a = (e, es)" by fastforce
  have "ents st r e = es" "\<And>g s. (g, s) \<in> set es \<Longrightarrow> single e g (r, s) st"
    using Cons.prems(4) [of e es] Cons.prems(5) [of e es] a by auto
  from unhook_entries_inv [OF Cons.prems(1) this] obtain st1 where st1: "unhook_entries r e es st = Some (st1\<lparr>listeners := listeners st\<rparr>)"
    "cb_inv st1" "same_but r st st1" "ents st1 r e = []" "\<forall>e'. e' \<noteq> e \<longrightarrow> ents st1 r e' = ents st r e'"
    by blast
  have out: "e \<notin> fst ` set l"
    using Cons.prems(3) a by simp
  have "\<exists>st'. unhook_emitters r l st1 = Some (st'\<lparr>listeners := listeners st1\<rparr>) \<and> cb_inv st' \<and> same_but r st1 st'
      \<and> (\<forall>e\<in>fst ` set l. ents st' r e = []) \<and> (\<forall>e. e \<notin> fst ` set l \<longrightarrow> ents st' r e = ents st1 r e)"
  proof (rule Cons.IH [OF st1(2)])
    show "listeners st1 r \<noteq> None"
      using st1(3) Cons.prems(2) by (simp add: same_but_def)
    show "ents st1 r e' = es'" if "(e', es') \<in> set l" for e' es'
    proof -
      have "e' \<noteq> e"
        using out that by (metis fst_conv image_eqI)
      then show ?thesis
        using st1(5) Cons.prems(4) [of e' es'] that by simp
    qed
    show "single e' g (r, s) st1" if "(e', es') \<in> set l" "(g, s) \<in> set es'" for e' es' g s
      using st1(3) Cons.prems(5) [of e' es' g s] that by (simp add: same_but_def)
  qed (use Cons.prems(3) in simp)
  then obtain st' where st': "unhook_emitters r l st1 = Some (st'\<lparr>listeners := listeners st1\<rparr>)" "cb_inv st'" "same_but r st1 st'"
    "\<forall>e\<in>fst ` set l. ents st' r e = []" "\<forall>e. e \<notin> fst ` set l \<longrightarrow> ents st' r e = ents st1 r e"
    by blast
  have "unhook_emitters r (a # l) st = Some (st'\<lparr>listeners := listeners st\<rparr>)"
    by (simp add: a st1(1) unhook_emitters_listeners st'(1))
  moreover have "ents st' r e = []"
    using st'(5) out st1(4) by simp
  ultimately show ?case
    using st' st1(5) same_but_trans [OF st1(3) st'(3)] a by (intro exI [of _ st']) auto
qed

lemma destroy_listener_inv:
  assumes "cb_inv st" "allowed (DestroyListener r) st"
  shows "\<exists>st'. destroy_listener r st = Some st' \<and> cb_inv st'"
proof -
  obtain l where l: "listeners st r = Some l" and one: "\<And>e es g s. (e, es) \<in> set l \<Longrightarrow> (g, s) \<in> set es \<Longrightarrow> single e g (r, s) st"
    using assms(2) by (fastforce split: option.splits)
  have "ksorted l"
    using assms(1) l by (simp add: cb_inv_def maps_ok_def)
  then have dist: "distinct (map fst l)"
    by (rule ksorted_distinct)
  have "ents st r e = es" if "(e, es) \<in> set l" for e es
    using dist that l by (simp add: ents_of_def)
  then have "\<exists>st'. unhook_emitters r l st = Some (st'\<lparr>listeners := listeners st\<rparr>) \<and> cb_inv st' \<and> same_but r st st'
      \<and> (\<forall>e\<in>fst ` set l. ents st' r e = []) \<and> (\<forall>e. e \<notin> fst ` set l \<longrightarrow> ents st' r e = ents st r e)"
    using l one by (intro unhook_emitters_inv [OF assms(1) _ dist]) simp_all
  then obtain st1 where st1: "unhook_emitters r l st = Some (st1\<lparr>listeners := listeners st\<rparr>)" "cb_inv st1"
    "same_but r st st1" "\<forall>e\<in>fst ` set l. ents st1 r e = []" "\<forall>e. e \<notin> fst ` set l \<longrightarrow> ents st1 r e = ents st r e"
    by blast
  have none: "ents st1 r e = []" for e
  proof (cases "e \<in> fst ` set l")
    case False
    then have "map_of l e = None"
      by (simp add: map_of_eq_None_iff)
    then show ?thesis
      using st1(5) False l by (simp add: ents_of_def)
  qed (use st1(4) in blast)
  define st' where "st' = st1\<lparr>listeners := (listeners st)(r := None)\<rparr>"
  have "destroy_listener r st = Some st'"
    using l st1(1) by (simp add: destroy_listener_def st'_def)
  moreover have "cb_inv st'"
  proof (rule cb_inv_same [OF st1(2)])
    show "ents st' q e = ents st1 q e" for q e
      using none st1(3) by (cases "q = r") (simp_all add: st'_def ents_of_def same_but_def)
    show "maps_ok st'"
      using st1(2) assms(1) by (simp add: cb_inv_def maps_ok_def st'_def)
  qed (simp_all add: st'_def)
  ultimately show ?thesis
    by blast
qed

section \<open>Destroying an emitter\<close>

text \<open>The entries of a listener for one emitter that the slots of a list, or the signals of a map, take away.\<close>

definition forgets where
  "forgets e g xs ls ls' \<longleftrightarrow> (\<forall>r. (ls' r = None) = (ls r = None)) \<and> (\<forall>r l. ls' r = Some l \<longrightarrow> ksorted l)
     \<and> (\<forall>r e'. e' \<noteq> e \<longrightarrow> ents_of ls' r e' = ents_of ls r e')
     \<and> (\<forall>r h s. count_list (ents_of ls' r e) (h, s) = count_list (ents_of ls r e) (h, s) - (if h = g then live xs (r, s) else 0))"

lemma forget_slots_ok:
  "(\<And>x. x \<in> set xs \<Longrightarrow> sstate (snd x) \<noteq> Disconnected \<Longrightarrow> ls (receiver (snd x)) \<noteq> None) \<Longrightarrow>
   (\<And>r l. ls r = Some l \<Longrightarrow> ksorted l) \<Longrightarrow>
    \<exists>ls'. forget_slots e g xs ls = Some ls' \<and> forgets e g xs ls ls'"
proof (induction e g xs ls rule: forget_slots.induct)
  case (2 e g i x xs ls)
  show ?case
  proof (cases "sstate x = Disconnected")
    case True
    then show ?thesis
      using 2(1) [OF True] 2(3,4) by (auto simp: forgets_def)
  next
    case False
    obtain l where l: "ls (receiver x) = Some l"
      using 2(3) [of "(i, x)"] False by auto
    define ls1 where "ls1 = (case map_of l e of None \<Rightarrow> ls | Some es \<Rightarrow> ls(receiver x := Some (put e (remove1 (g, sfun x) es) l)))"
    have ls1: "(ls1 r = None) = (ls r = None)" "e' \<noteq> e \<Longrightarrow> ents_of ls1 r e' = ents_of ls r e'"
      "ents_of ls1 r e = (if r = receiver x then remove1 (g, sfun x) (ents_of ls r e) else ents_of ls r e)" for r e'
      using l by (auto simp: ls1_def ents_of_def split: option.splits)
    have sorted: "ls1 r = Some l' \<Longrightarrow> ksorted l'" for r l'
      using 2(4) l by (auto simp: ls1_def intro: ksorted_put split: option.splits if_splits)
    have alive: "y \<in> set xs \<Longrightarrow> sstate (snd y) \<noteq> Disconnected \<Longrightarrow> ls1 (receiver (snd y)) \<noteq> None" for y
      using 2(3) [of y] ls1(1) by simp
    have "\<exists>ls'. forget_slots e g xs ls1 = Some ls' \<and> forgets e g xs ls1 ls'"
      by (rule 2(2) [OF False l, folded ls1_def]) (fact alive sorted)+
    then obtain ls' where "forget_slots e g xs ls1 = Some ls'" and "forgets e g xs ls1 ls'"
      by blast
    note ls' = this(1) this(2) [unfolded forgets_def, THEN conjunct1] this(2) [unfolded forgets_def, THEN conjunct2, THEN conjunct1]
      this(2) [unfolded forgets_def, THEN conjunct2, THEN conjunct2, THEN conjunct1]
      this(2) [unfolded forgets_def, THEN conjunct2, THEN conjunct2, THEN conjunct2]
    have "forget_slots e g ((i, x) # xs) ls = Some ls'"
      using False l ls'(1) by (simp add: ls1_def)
    moreover have "count_list (ents_of ls' r e) (h, s) = count_list (ents_of ls r e) (h, s) - (if h = g then live ((i, x) # xs) (r, s) else 0)" for r h s
      unfolding ls'(5) [rule_format] ls1(3) using False by (auto simp: slot_key_def count_remove1)
    ultimately show ?thesis
      using ls' ls1 unfolding forgets_def by (intro exI [of _ ls']) simp
  qed
qed (simp add: forgets_def)

definition doomed :: "(nat \<times> signal_data) list \<Rightarrow> nat \<Rightarrow> nat \<Rightarrow> nat \<Rightarrow> nat" where
  "doomed m r h s = sum_list (map (\<lambda>(g, d). if h = g then hooks d (r, s) else 0) m)"

definition hit :: "nat set \<Rightarrow> frame \<Rightarrow> frame" where
  "hit ns f = (if fid f \<in> ns then f\<lparr>invalidated := True\<rparr> else f)"

lemma hit_simps [simp]: "fid (hit ns f) = fid f" "fdata (hit ns f) = fdata f" "fnext (hit ns f) = fnext f" "cur (hit ns f) = cur f"
  "phase (hit ns f) = phase f" "invalidated (hit ns f) = (invalidated f \<or> fid f \<in> ns)" "hit ns (hit ms f) = hit (ns \<union> ms) f" "hit {} f = f"
  by (simp_all add: hit_def)

lemma invalidate_hit: "(\<And>n. a = Some n \<Longrightarrow> n \<in> set (map fid fs)) \<Longrightarrow> invalidate a fs = Some (map (hit (set_option a)) fs)"
  by (cases a) (simp_all add: invalidate_def hit_def [abs_def] map_idI)

lemma forget_signals_ok:
  "(\<And>g d. (g, d) \<in> set m \<Longrightarrow> activation d \<noteq> None \<Longrightarrow> the (activation d) \<in> set (map fid (frames st))) \<Longrightarrow>
   (\<And>g d x. (g, d) \<in> set m \<Longrightarrow> x \<in> set (slots d) \<Longrightarrow> sstate (snd x) \<noteq> Disconnected \<Longrightarrow> listeners st (receiver (snd x)) \<noteq> None) \<Longrightarrow>
   (\<And>r l. listeners st r = Some l \<Longrightarrow> ksorted l) \<Longrightarrow>
    \<exists>fs ls. forget_signals e m st = Some (st\<lparr>frames := fs, listeners := ls\<rparr>) \<and> (\<forall>r. (ls r = None) = (listeners st r = None))
      \<and> (\<forall>r l. ls r = Some l \<longrightarrow> ksorted l) \<and> (\<forall>r e'. e' \<noteq> e \<longrightarrow> ents_of ls r e' = ents st r e')
      \<and> (\<forall>r h s. count_list (ents_of ls r e) (h, s) = count_list (ents st r e) (h, s) - doomed m r h s)
      \<and> fs = map (hit {n. \<exists>(g, d)\<in>set m. activation d = Some n}) (frames st)"
proof (induction e m st rule: forget_signals.induct)
  case (1 e st)
  then show ?case
    by (intro exI [of _ "frames st"] exI [of _ "listeners st"]) (simp add: doomed_def map_idI case_prod_beta')
next
  case (2 e g d m st)
  define fs1 where "fs1 = map (hit (set_option (activation d))) (frames st)"
  have inval: "invalidate (activation d) (frames st) = Some fs1"
    unfolding fs1_def using 2(2) [of g d] by (intro invalidate_hit) auto
  have "\<exists>ls'. forget_slots e g (slots d) (listeners st) = Some ls' \<and> forgets e g (slots d) (listeners st) ls'"
    using 2(3) [of g d] 2(4) by (intro forget_slots_ok) auto
  then obtain ls1 where "forget_slots e g (slots d) (listeners st) = Some ls1" and "forgets e g (slots d) (listeners st) ls1"
    by blast
  note ls1 = this(1) this(2) [unfolded forgets_def, THEN conjunct1] this(2) [unfolded forgets_def, THEN conjunct2, THEN conjunct1]
    this(2) [unfolded forgets_def, THEN conjunct2, THEN conjunct2, THEN conjunct1]
    this(2) [unfolded forgets_def, THEN conjunct2, THEN conjunct2, THEN conjunct2]
  let ?st1 = "st\<lparr>frames := fs1, listeners := ls1\<rparr>"
  have "\<exists>fs ls. forget_signals e m ?st1 = Some (?st1\<lparr>frames := fs, listeners := ls\<rparr>) \<and> (\<forall>r. (ls r = None) = (listeners ?st1 r = None))
      \<and> (\<forall>r l. ls r = Some l \<longrightarrow> ksorted l) \<and> (\<forall>r e'. e' \<noteq> e \<longrightarrow> ents_of ls r e' = ents ?st1 r e')
      \<and> (\<forall>r h s. count_list (ents_of ls r e) (h, s) = count_list (ents ?st1 r e) (h, s) - doomed m r h s)
      \<and> fs = map (hit {n. \<exists>(g, d)\<in>set m. activation d = Some n}) (frames ?st1)"
  proof (rule 2(1) [OF inval ls1(1)])
    fix g' d'
    assume g': "(g', d') \<in> set m"
    then show "activation d' \<noteq> None \<Longrightarrow> the (activation d') \<in> set (map fid (frames ?st1))"
      using 2(2) [of g' d'] by (simp add: fs1_def image_image)
    show "x \<in> set (slots d') \<Longrightarrow> sstate (snd x) \<noteq> Disconnected \<Longrightarrow> listeners ?st1 (receiver (snd x)) \<noteq> None" for x
      using 2(3) [of g' d' x] g' ls1(2) by simp
  qed (use ls1(3) in auto)
  then obtain fs ls where IH: "forget_signals e m ?st1 = Some (?st1\<lparr>frames := fs, listeners := ls\<rparr>)" "\<forall>r. (ls r = None) = (ls1 r = None)"
    "\<forall>r l. ls r = Some l \<longrightarrow> ksorted l" "\<forall>r e'. e' \<noteq> e \<longrightarrow> ents_of ls r e' = ents_of ls1 r e'"
    "\<forall>r h s. count_list (ents_of ls r e) (h, s) = count_list (ents_of ls1 r e) (h, s) - doomed m r h s"
    "fs = map (hit {n. \<exists>(g, d)\<in>set m. activation d = Some n}) fs1"
    by auto
  have 1: "count_list (ents_of ls r e) (h, s) = count_list (ents st r e) (h, s) - doomed ((g, d) # m) r h s" for r h s
    unfolding IH(5) [rule_format] ls1(5) [rule_format] by (simp add: doomed_def)
  have 2: "fs = map (hit {n. \<exists>(g, d)\<in>set ((g, d) # m). activation d = Some n}) (frames st)"
    unfolding IH(6) fs1_def map_map by (rule map_cong) (auto simp: hit_def)
  have "forget_signals e ((g, d) # m) st = Some (st\<lparr>frames := fs, listeners := ls\<rparr>)"
    using inval ls1(1) IH(1) by simp
  then show ?case
    using 1 2 IH(2,3,4) ls1(2,4) by (intro exI [of _ fs] exI [of _ ls]) simp
qed

lemma free_calling: "frames_ok n fs \<Longrightarrow> free_run st \<Longrightarrow> frames st = fs \<Longrightarrow> f \<in> set fs \<Longrightarrow> phase f = Calling"
  by (cases fs) (auto simp: frames_ok_def free_run_def)

lemma frames_hit:
  assumes "frames_ok n fs" "\<And>f. f \<in> set fs \<Longrightarrow> phase f = Calling"
  shows "frames_ok n (map (hit ns) fs)"
  using assms by (fastforce simp: frames_ok_def comp_def simp flip: map_tl)

lemma chain_hit: "chain e g (map (hit ns) fs) = map (hit ns) (chain e g fs)"
  by (rule chain_map) simp

lemma linked_hit: "linked a (map (hit ns) c) = linked a c"
  by (rule linked_map) simp

lemma hit_same: "(\<And>f. f \<in> set c \<Longrightarrow> fid f \<notin> ns) \<Longrightarrow> map (hit ns) c = c"
  by (simp add: map_idI hit_def)

lemma destroy_emitter_inv:
  assumes "cb_inv st" "emitters st e \<noteq> None" "free_run st"
  shows "\<exists>st'. destroy_emitter e st = Some st' \<and> cb_inv st'"
proof -
  obtain m where m: "emitters st e = Some m"
    using assms(2) by blast
  have maps: "maps_ok st" and links: "links_ok st" and chains: "chains_ok st" and fr: "frames_ok (fresh st) (frames st)"
    using assms(1) by (simp_all add: cb_inv_def)
  have "distinct (map fst m)"
    using maps m by (auto simp: maps_ok_def intro: ksorted_distinct)
  then have sig: "(g, d) \<in> set m \<longleftrightarrow> sig st e g = Some d" for g d
    using m by (simp add: sig_def)
  define ns where "ns = {n. \<exists>(g, d)\<in>set m. activation d = Some n}"
  have head: "\<exists>f c. chain e g (frames st) = f # c \<and> fid f = n" if "sig st e g = Some d" "activation d = Some n" for g d n
    using inv_chain [OF assms(1) that(1)] that(2) by (cases "chain e g (frames st)") (auto simp: live_chain_def)
  have member: "\<exists>f\<in>set (frames st). fid f = n \<and> fst (fdata f) = e" if "n \<in> ns" for n
  proof -
    obtain g d where "sig st e g = Some d" "activation d = Some n"
      using \<open>n \<in> ns\<close> sig by (auto simp: ns_def)
    then obtain f c where "chain e g (frames st) = f # c" "fid f = n"
      using head by blast
    then show ?thesis
      using chain_set [of f e g "frames st"] by (metis fst_conv list.set_intros(1))
  qed
  have mine: "fst (fdata f) = e" if "f \<in> set (frames st)" "fid f \<in> ns" for f
  proof -
    obtain f' where "f' \<in> set (frames st)" "fid f' = fid f" "fst (fdata f') = e"
      using member [OF \<open>fid f \<in> ns\<close>] by blast
    moreover have "inj_on fid (set (frames st))"
      using fr by (simp add: frames_ok_def distinct_map)
    ultimately show ?thesis
      using that(1) by (metis inj_onD)
  qed
  have "\<exists>fs ls. forget_signals e m st = Some (st\<lparr>frames := fs, listeners := ls\<rparr>) \<and> (\<forall>r. (ls r = None) = (listeners st r = None))
      \<and> (\<forall>r l. ls r = Some l \<longrightarrow> ksorted l) \<and> (\<forall>r e'. e' \<noteq> e \<longrightarrow> ents_of ls r e' = ents st r e')
      \<and> (\<forall>r h s. count_list (ents_of ls r e) (h, s) = count_list (ents st r e) (h, s) - doomed m r h s)
      \<and> fs = map (hit {n. \<exists>(g, d)\<in>set m. activation d = Some n}) (frames st)"
  proof (rule forget_signals_ok)
    show "the (activation d) \<in> set (map fid (frames st))" if gd: "(g, d) \<in> set m" "activation d \<noteq> None" for g d
    proof -
      have "the (activation d) \<in> ns"
        using gd by (auto simp: ns_def)
      from member [OF this] obtain f where "f \<in> set (frames st)" "fid f = the (activation d)"
        by blast
      then show ?thesis
        by (metis image_eqI list.set_map)
    qed
    show "listeners st (receiver (snd x)) \<noteq> None" if "(g, d) \<in> set m" "x \<in> set (slots d)" "sstate (snd x) \<noteq> Disconnected" for g d x
    proof -
      have "0 < hooks d (receiver (snd x), sfun (snd x))"
        using that(2,3) by (auto simp: live_iff slot_key_def)
      then show ?thesis
        using hooked_alive [OF links, of e g d] that(1) sig by blast
    qed
    show "ksorted l" if "listeners st r = Some l" for r l
      using maps that by (simp add: maps_ok_def)
  qed
  then obtain fs ls where f: "forget_signals e m st = Some (st\<lparr>frames := fs, listeners := ls\<rparr>)"
    and ls: "\<forall>r l. ls r = Some l \<longrightarrow> ksorted l" "\<forall>r e'. e' \<noteq> e \<longrightarrow> ents_of ls r e' = ents st r e'"
    "\<forall>r h s. count_list (ents_of ls r e) (h, s) = count_list (ents st r e) (h, s) - doomed m r h s" and fs: "fs = map (hit ns) (frames st)"
    unfolding ns_def by blast
  define st' where "st' = st\<lparr>frames := fs, listeners := ls, emitters := (emitters st)(e := None)\<rparr>"
  have st': "frames st' = fs" "listeners st' = ls" "fresh st' = fresh st" "emitters st' = (emitters st)(e := None)"
    by (simp_all add: st'_def)
  have sig': "sig st' e' g = (if e' = e then None else sig st e' g)" for e' g
    by (simp add: sig_def st')
  have gone: "count_list (ents_of ls r e) (h, s) = 0" for r h s
  proof (cases "sig st e h")
    case None
    then show ?thesis
      using ls(3) links by (simp add: links_ok_def)
  next
    case (Some d)
    then have "(h, d) \<in> set m"
      using sig by blast
    then have "hooks d (r, s) \<in> set (map (\<lambda>(g, d). if h = g then hooks d (r, s) else 0) m)"
      by force
    then have "hooks d (r, s) \<le> doomed m r h s"
      unfolding doomed_def by (intro member_le_sum_list) simp_all
    then show ?thesis
      using ls(3) links_count [OF links Some] by simp
  qed
  have "maps_ok st'"
    using maps ls(1) by (simp add: maps_ok_def st')
  moreover have "links_ok st'"
    unfolding links_ok_def
  proof (intro allI)
    show "count_list (ents st' r e') (g, s) = (case sig st' e' g of None \<Rightarrow> 0 | Some d \<Rightarrow> hooks d (r, s))" for r e' g s
      using links ls(2) gone by (cases "e' = e") (simp_all add: links_ok_def st' sig')
  qed
  moreover have "frames_ok (fresh st') (frames st')"
    unfolding st' fs by (rule frames_hit [OF fr free_calling [OF fr assms(3) refl]])
  moreover have "chains_ok st'"
    unfolding chains_ok_def
  proof (intro allI)
    fix e' g
    let ?c = "chain e' g (frames st)"
    have c: "chain e' g (frames st') = map (hit ns) ?c"
      by (simp add: st' fs chain_hit)
    note old = chains [unfolded chains_ok_def, rule_format, of e' g]
    show "case sig st' e' g of Some d \<Rightarrow> live_chain d (chain e' g (frames st'))
      | None \<Rightarrow> if emitters st' e' = None then dead_chain (chain e' g (frames st')) else chain e' g (frames st') = []"
    proof (cases "e' = e")
      case False
      have "map (hit ns) ?c = ?c"
        using mine False by (intro hit_same) (metis chain_set fst_conv)
      then have same: "chain e' g (frames st') = ?c" "sig st' e' g = sig st e' g" "emitters st' e' = emitters st e'"
        using False by (simp_all add: c sig' st'(4))
      show ?thesis
        unfolding same by (rule old)
    next
      case True
      have "dead_chain (map (hit ns) ?c)"
      proof (cases "sig st e g")
        case None
        then show ?thesis
          using old True m by (simp add: dead_chain_def)
      next
        case (Some d)
        then have lc: "linked (activation d) ?c"
          using inv_chain [OF assms(1) Some] True by (simp add: live_chain_def)
        show ?thesis
        proof (cases ?c)
          case (Cons f c')
          then have a: "activation d = Some (fid f)"
            using lc by simp
          then have "fid f \<in> ns"
            using Some sig by (auto simp: ns_def)
          moreover have "linked (Some (fid f)) (map (hit ns) ?c)"
            using lc a by (simp add: linked_hit)
          ultimately show ?thesis
            using Cons by (simp add: dead_chain_def)
        qed (simp add: dead_chain_def)
      qed
      moreover have "sig st' e' g = None" "emitters st' e' = None"
        using True by (simp_all add: sig' st'(4))
      ultimately show ?thesis
        unfolding c using True by simp
    qed
  qed
  moreover have "slots_ok (fresh st') d" if "sig st' e' g = Some d" for e' g d
  proof -
    have "sig st e' g = Some d"
      using that sig' by (metis option.discI)
    then show ?thesis
      using assms(1) by (simp add: cb_inv_def st')
  qed
  ultimately have "cb_inv st'"
    by (simp add: cb_inv_def)
  moreover have "destroy_emitter e st = Some st'"
    using m f by (simp add: destroy_emitter_def st'_def)
  ultimately show ?thesis
    by blast
qed

section \<open>Emitting\<close>

lemma inv_sig:
  assumes "cb_inv st" "emitters st e \<noteq> None" "slots_ok n d" "fresh st \<le> n" "hooks d = hooks d0" "sig st e g = Some d0"
    and "live_chain d (chain e g fs)" "\<And>e' g'. (e', g') \<noteq> (e, g) \<Longrightarrow> chain e' g' fs = chain e' g' (frames st)" "frames_ok n fs"
  shows "cb_inv (set_sig e g d st\<lparr>frames := fs, fresh := n\<rparr>)"
proof -
  define st' where "st' = set_sig e g d st\<lparr>frames := fs, fresh := n\<rparr>"
  have st': "frames st' = fs" "fresh st' = n" "listeners st' = listeners st" "emitters st' = emitters (set_sig e g d st)"
    by (simp_all add: st'_def)
  have sig: "sig st' e' g' = (if e' = e \<and> g' = g then Some d else sig st e' g')" for e' g'
    using assms(2) sig_set [of st e g d e' g'] by (simp add: st'_def sig_def)
  have "maps_ok (set_sig e g d st)"
    using assms(1,2) by (intro maps_set_sig) (simp add: cb_inv_def)
  then have "maps_ok st'"
    by (simp add: maps_ok_def st')
  moreover have "links_ok st'"
    using assms(1,5,6) by (simp add: cb_inv_def links_ok_def sig st')
  moreover have "slots_ok (fresh st') d'" if "sig st' e' g' = Some d'" for e' g' d'
  proof (cases "e' = e \<and> g' = g")
    case False
    then have "sig st e' g' = Some d'"
      using that sig by metis
    then have "slots_ok (fresh st) d'"
      using assms(1) unfolding cb_inv_def by blast
    then show ?thesis
      using assms(4) st'(2) by (auto simp: slots_ok_def)
  qed (use that assms(3) st'(2) in \<open>auto simp: sig\<close>)
  moreover have "chains_ok st'"
    unfolding chains_ok_def
  proof (intro allI)
    fix e' g'
    show "case sig st' e' g' of Some d \<Rightarrow> live_chain d (chain e' g' (frames st'))
      | None \<Rightarrow> if emitters st' e' = None then dead_chain (chain e' g' (frames st')) else chain e' g' (frames st') = []"
    proof (cases "e' = e \<and> g' = g")
      case True
      then show ?thesis
        using assms(7) by (simp add: sig st')
    next
      case False
      then have same: "sig st' e' g' = sig st e' g'" "chain e' g' (frames st') = chain e' g' (frames st)"
        using assms(8) sig st'(1) by auto
      have alive: "(emitters st' e' = None) = (emitters st e' = None)"
        using assms(2) by (auto simp: st')
      have "chains_ok st"
        using assms(1) by (simp add: cb_inv_def)
      then show ?thesis
        unfolding same alive chains_ok_def by blast
    qed
  qed
  ultimately show ?thesis
    using assms(9) st' unfolding cb_inv_def st'_def by simp
qed

lemma emit_inv:
  assumes "cb_inv st" "emitters st e \<noteq> None" "free_run st"
  shows "\<exists>st'. emit e g st = Some st' \<and> cb_inv st'"
proof -
  obtain m where m: "emitters st e = Some m"
    using assms(2) by blast
  show ?thesis
  proof (cases "map_of m g")
    case None
    then show ?thesis
      using m assms(1) by (simp add: emit_def)
  next
    case (Some d)
    then have sig: "sig st e g = Some d"
      using m by (simp add: sig_def)
    define f where "f = \<lparr>fid = fresh st, fdata = (e, g), fnext = activation d, invalidated = False,
        cur = (case slots d of [] \<Rightarrow> None | (i, x) # xs \<Rightarrow> Some i), phase = Test\<rparr>"
    define d1 where "d1 = d\<lparr>activation := Some (fresh st)\<rparr>"
    have ok: "slots_ok (fresh st) d"
      using assms(1) sig by (simp add: cb_inv_def)
    have cf: "cur f = Some i \<Longrightarrow> i \<in> fst ` set (slots d)" for i
      by (cases "slots d") (auto simp: f_def)
    have fr: "frames_ok (fresh st) (frames st)"
      using assms(1) by (simp add: cb_inv_def)
    have "cb_inv (set_sig e g d1 st\<lparr>frames := f # frames st, fresh := fresh st + 1\<rparr>)"
    proof (rule inv_sig [OF assms(1,2) _ _ _ sig])
      show "slots_ok (fresh st + 1) d1"
        using ok by (auto simp: slots_ok_def d1_def keys_def)
      show "hooks d1 = hooks d"
        by (simp add: d1_def)
      show "live_chain d1 (chain e g (f # frames st))"
        using inv_chain [OF assms(1) sig] cf by (auto simp: live_chain_def d1_def f_def)
      show "chain e' g' (f # frames st) = chain e' g' (frames st)" if "(e', g') \<noteq> (e, g)" for e' g'
        using that by (auto simp: f_def)
      show "frames_ok (fresh st + 1) (f # frames st)"
        using fr free_calling [OF fr assms(3) refl] by (fastforce simp: frames_ok_def f_def)
    qed simp
    moreover have "emit e g st = Some (set_sig e g d1 st\<lparr>frames := f # frames st, fresh := fresh st + 1\<rparr>)"
      using m Some by (simp add: emit_def Let_def set_sig_def d1_def f_def)
    ultimately show ?thesis
      by blast
  qed
qed

section \<open>The loop of an emission\<close>

lemma clean_slots_eq: "clean_slots xs = map (\<lambda>x. (fst x, (snd x)\<lparr>sstate := Connected\<rparr>)) (filter (\<lambda>x. sstate (snd x) \<noteq> Disconnected) xs)"
  by (induction xs rule: clean_slots.induct) (auto split: slot_state.splits)

lemma clean_ok:
  assumes "slots_ok n d"
  shows "slots_ok n (d\<lparr>activation := None, slots := clean_slots (slots d), dirty := False\<rparr>)"
    and "live (clean_slots xs) = live xs"
proof -
  let ?c = "\<lambda>x :: nat \<times> cslot. (fst x, (snd x)\<lparr>sstate := Connected\<rparr>)"
  have c: "fst \<circ> ?c = fst" "\<And>x. slot_key (?c x) = slot_key x"
    by (auto simp: fun_eq_iff slot_key_def)
  show "slots_ok n (d\<lparr>activation := None, slots := clean_slots (slots d), dirty := False\<rparr>)"
    using assms by (auto simp: slots_ok_def clean_slots_eq c distinct_map_filter)
  show "live (clean_slots xs) = live xs"
    by (rule ext) (induction xs; simp add: clean_slots_eq c(2))
qed

lemma top_chain:
  assumes "cb_inv st" "frames st = f # fs" "fdata f = (e, g)"
  shows "if invalidated f then emitters st e = None \<and> linked (fnext f) (chain e g fs)
    else \<exists>d. sig st e g = Some d \<and> linked (fnext f) (chain e g fs) \<and> live_chain d (f # chain e g fs)"
proof -
  have c: "chain e g (frames st) = f # chain e g fs"
    using assms(2,3) by simp
  have "chains_ok st"
    using assms(1) by (simp add: cb_inv_def)
  note this [unfolded chains_ok_def, rule_format, of e g, unfolded c]
  then show ?thesis
    by (cases "sig st e g") (auto simp: live_chain_def dead_chain_def split: if_splits)
qed

lemma leave_inv:
  assumes "cb_inv st" "frames st = f # fs"
  shows "\<exists>st'. leave f fs st = Some st' \<and> cb_inv st'"
proof -
  obtain e g where data: "fdata f = (e, g)"
    by fastforce
  have fr: "frames_ok (fresh st) (f # fs)"
    using assms by (simp add: cb_inv_def)
  have "f' \<in> set (tl fs) \<Longrightarrow> f' \<in> set fs" for f'
    by (cases fs) simp_all
  then have fr1: "frames_ok (fresh st) fs" and calling: "\<And>f'. f' \<in> set fs \<Longrightarrow> phase f' = Calling"
    using fr by (simp_all add: frames_ok_def)
  note top = top_chain [OF assms data]
  show ?thesis
  proof (cases "invalidated f")
    case False
    then obtain d where d: "sig st e g = Some d" "linked (fnext f) (chain e g fs)" "live_chain d (f # chain e g fs)"
      using top by auto
    obtain m where m: "emitters st e = Some m" "map_of m g = Some d"
      using sig_alive [OF d(1)] by blast
    define d2 where "d2 = (if fnext f = None \<and> dirty d then d\<lparr>activation := fnext f, slots := clean_slots (slots d), dirty := False\<rparr>
        else d\<lparr>activation := fnext f\<rparr>)"
    have ok: "slots_ok (fresh st) d"
      using assms(1) d(1) by (simp add: cb_inv_def)
    have "cb_inv (set_sig e g d2 st\<lparr>frames := fs, fresh := fresh st\<rparr>)"
    proof (rule inv_sig [OF assms(1) _ _ _ _ d(1)])
      show "slots_ok (fresh st) d2"
        using clean_ok(1) [OF ok] ok by (cases "fnext f") (auto simp: d2_def slots_ok_def keys_def)
      show "hooks d2 = hooks d"
        by (simp add: d2_def clean_ok(2) [OF ok])
      show "live_chain d2 (chain e g fs)"
        using d(2,3) by (cases "chain e g fs") (auto simp: live_chain_def d2_def)
      show "chain e' g' fs = chain e' g' (frames st)" if "(e', g') \<noteq> (e, g)" for e' g'
        using that data assms(2) by auto
    qed (use m fr1 in simp_all)
    moreover have "leave f fs st = Some (set_sig e g d2 st\<lparr>frames := fs, fresh := fresh st\<rparr>)"
      using False m data by (simp add: leave_def Let_def set_sig_def d2_def)
    ultimately show ?thesis
      by blast
  next
    case True
    then have dead: "emitters st e = None" "linked (fnext f) (chain e g fs)"
      using top by auto
    let ?ns = "set_option (fnext f)"
    have member: "\<exists>f'\<in>set fs. fid f' = n \<and> fdata f' = (e, g) \<and> (\<exists>c. chain e g fs = f' # c)" if "fnext f = Some n" for n
      using dead(2) that chain_set [of _ e g fs] by (cases "chain e g fs") auto
    have other: "fid f' \<notin> ?ns" if "f' \<in> set fs" "fdata f' \<noteq> (e, g)" for f'
    proof
      assume "fid f' \<in> ?ns"
      then obtain f'' where "f'' \<in> set fs" "fid f'' = fid f'" "fdata f'' = (e, g)"
        using member by (metis elem_set)
      moreover have "inj_on fid (set fs)"
        using fr1 by (simp add: frames_ok_def distinct_map)
      ultimately show False
        using that by (metis inj_onD)
    qed
    have inval: "invalidate (fnext f) fs = Some (map (hit ?ns) fs)"
      using member by (intro invalidate_hit) force
    define st' where "st' = st\<lparr>frames := map (hit ?ns) fs\<rparr>"
    have "chains_ok st'"
      unfolding chains_ok_def
    proof (intro allI)
      fix e' g'
      have old: "case sig st e' g' of Some d \<Rightarrow> live_chain d (chain e' g' (frames st))
          | None \<Rightarrow> if emitters st e' = None then dead_chain (chain e' g' (frames st)) else chain e' g' (frames st) = []"
        using assms(1) by (simp add: cb_inv_def chains_ok_def)
      have st': "sig st' e' g' = sig st e' g'" "emitters st' e' = emitters st e'" "frames st' = map (hit ?ns) fs"
        by (simp_all add: st'_def sig_def)
      show "case sig st' e' g' of Some d \<Rightarrow> live_chain d (chain e' g' (frames st'))
        | None \<Rightarrow> if emitters st' e' = None then dead_chain (chain e' g' (frames st')) else chain e' g' (frames st') = []"
      proof (cases "(e', g') = (e, g)")
        case True
        have "dead_chain (map (hit ?ns) (chain e g fs))"
        proof (cases "chain e g fs")
          case (Cons f' c)
          then have n: "fnext f = Some (fid f')"
            using dead(2) by simp
          have "linked (Some (fid f')) (map (hit ?ns) (chain e g fs))"
            using dead(2) n by (simp add: linked_hit)
          then show ?thesis
            using Cons n by (simp add: dead_chain_def)
        qed (simp add: dead_chain_def)
        moreover have "sig st' e' g' = None" "emitters st' e' = None" "chain e' g' (frames st') = map (hit ?ns) (chain e g fs)"
          unfolding st' chain_hit using True dead(1) by (simp_all add: sig_def)
        ultimately show ?thesis
          by simp
      next
        case False
        have "map (hit ?ns) (chain e' g' fs) = chain e' g' fs"
          using other False by (intro hit_same) (metis chain_set)
        then have "chain e' g' (frames st') = chain e' g' (frames st)"
          using False data assms(2) by (auto simp: st' chain_hit)
        then show ?thesis
          using old by (simp only: st')
      qed
    qed
    moreover have "frames_ok (fresh st) (map (hit ?ns) fs)"
      by (rule frames_hit [OF fr1 calling])
    ultimately have "cb_inv st'"
      using assms(1) by (simp add: cb_inv_def maps_ok_def links_ok_def st'_def sig_def)
    moreover have "leave f fs st = Some st'"
      using True inval by (simp add: leave_def st'_def)
    ultimately show ?thesis
      by blast
  qed
qed

text \<open>Only the position and the phase of the innermost activation change.\<close>

lemma inv_top:
  assumes "cb_inv st" "frames st = f # fs" "fid f' = fid f" "fdata f' = fdata f" "fnext f' = fnext f" "invalidated f' = invalidated f"
    and "phase f' = Test \<longrightarrow> \<not> invalidated f'" "phase f' \<noteq> Test \<longrightarrow> cur f' \<noteq> None"
    and "\<And>d i. sig st (fst (fdata f)) (snd (fdata f)) = Some d \<Longrightarrow> cur f' = Some i \<Longrightarrow> i \<in> fst ` set (slots d)"
  shows "cb_inv (st\<lparr>frames := f' # fs\<rparr>)"
proof -
  define st' where "st' = st\<lparr>frames := f' # fs\<rparr>"
  have st': "frames st' = f' # fs" "fresh st' = fresh st" "listeners st' = listeners st" "emitters st' = emitters st" "sig st' = sig st"
    by (simp_all add: st'_def sig_def fun_eq_iff)
  have "chains_ok st'"
    unfolding chains_ok_def
  proof (intro allI)
    fix e g
    have old: "case sig st e g of Some d \<Rightarrow> live_chain d (chain e g (frames st))
        | None \<Rightarrow> if emitters st e = None then dead_chain (chain e g (frames st)) else chain e g (frames st) = []"
      using assms(1) by (simp add: cb_inv_def chains_ok_def)
    show "case sig st' e g of Some d \<Rightarrow> live_chain d (chain e g (frames st'))
        | None \<Rightarrow> if emitters st' e = None then dead_chain (chain e g (frames st')) else chain e g (frames st') = []"
    proof (cases "fdata f = (e, g)")
      case True
      then show ?thesis
        using old assms(2-6) assms(9) by (cases "sig st e g") (auto simp: st' live_chain_def dead_chain_def split: if_splits)
    next
      case False
      then have "chain e g (frames st') = chain e g (frames st)"
        using assms(2,4) by (simp add: st')
      then show ?thesis
        using old by (simp only: st')
    qed
  qed
  moreover have "frames_ok (fresh st) (f' # fs)"
    using assms(1-3,7,8) by (simp add: cb_inv_def frames_ok_def)
  moreover have "maps_ok st'" "links_ok st'"
    using assms(1) by (simp_all add: cb_inv_def maps_ok_def links_ok_def st')
  ultimately show ?thesis
    using assms(1) unfolding cb_inv_def st'_def [symmetric] st' by blast
qed

lemma next_slot_in: "next_slot i xs = Some j \<Longrightarrow> j \<in> fst ` set xs"
  by (induction i xs rule: next_slot.induct) (auto split: if_splits list.splits)

text \<open>A step of the loop can always be done, and it calls a slot only when that is connected.\<close>

lemma emit_step_inv:
  assumes "cb_inv st" "frames st = f # fs"
  shows "\<exists>c st'. emit_step st = Some (c, st') \<and> cb_inv st' \<and>
    (\<forall>r s. c = Some (r, s) \<longrightarrow> listeners st r \<noteq> None \<and> (snd (fdata f), s) \<in> set (ents st r (fst (fdata f))))"
proof -
  obtain e g where data: "fdata f = (e, g)"
    by fastforce
  note top = top_chain [OF assms data]
  have fr: "phase f = Test \<longrightarrow> \<not> invalidated f" "phase f \<noteq> Test \<longrightarrow> cur f \<noteq> None"
    using assms by (simp_all add: cb_inv_def frames_ok_def)
  obtain stl where l: "leave f fs st = Some stl" "cb_inv stl"
    using leave_inv [OF assms] by blast
  have live: "\<exists>d. sig st e g = Some d \<and> frame_slots f st = Some (slots d) \<and> (\<forall>i. cur f = Some i \<longrightarrow> i \<in> fst ` set (slots d))" if "\<not> invalidated f"
  proof -
    obtain d where d: "sig st e g = Some d" "live_chain d (f # chain e g fs)"
      using top \<open>\<not> invalidated f\<close> by auto
    obtain m where "emitters st e = Some m" "map_of m g = Some d"
      using sig_alive [OF d(1)] by blast
    then show ?thesis
      using d data by (auto simp: frame_slots_def live_chain_def)
  qed
  show ?thesis
  proof (cases "phase f")
    case Test
    then obtain d where d: "sig st e g = Some d" "frame_slots f st = Some (slots d)" "\<forall>i. cur f = Some i \<longrightarrow> i \<in> fst ` set (slots d)"
      using live fr(1) by blast
    show ?thesis
    proof (cases "cur f")
      case None
      then show ?thesis
        using Test assms(2) l by (simp add: emit_step_def)
    next
      case (Some i)
      have "i \<in> fst ` set (slots d)"
        using d(3) Some by blast
      then obtain x where x: "map_of (slots d) i = Some x"
        by (metis map_of_eq_None_iff not_None_eq)
      show ?thesis
      proof (cases "sstate x = Connected")
        case True
        then have "0 < hooks d (receiver x, sfun x)"
          using map_of_SomeD [OF x] by (force simp: live_iff slot_key_def)
        moreover have links: "links_ok st"
          using assms(1) by (simp add: cb_inv_def)
        ultimately have r: "listeners st (receiver x) \<noteq> None" "(g, sfun x) \<in> set (ents st (receiver x) e)"
          using hooked_alive [OF links d(1), of "receiver x" "sfun x"] d(1) links_iff by blast+
        then obtain lr where lr: "listeners st (receiver x) = Some lr"
          by blast
        have "cb_inv (st\<lparr>frames := f\<lparr>phase := Calling\<rparr> # fs\<rparr>)"
          using Some d(1,3) data by (intro inv_top [OF assms]) simp_all
        then show ?thesis
          using Test Some d(2) x True r lr assms(2) data by (simp add: emit_step_def)
      next
        case False
        have "cb_inv (st\<lparr>frames := f\<lparr>phase := After\<rparr> # fs\<rparr>)"
          using Some d(1,3) data by (intro inv_top [OF assms]) simp_all
        then show ?thesis
          using Test Some d(2) x False assms(2) by (simp add: emit_step_def)
      qed
    qed
  next
    case Calling
    have "i \<in> fst ` set (slots d)" if "sig st e g = Some d" "cur f = Some i" for d i
    proof -
      have "emitters st e \<noteq> None"
        using sig_alive [OF that(1)] by blast
      then have "\<not> invalidated f"
        using top by auto
      then show ?thesis
        using live that by auto
    qed
    then have "cb_inv (st\<lparr>frames := f\<lparr>phase := After\<rparr> # fs\<rparr>)"
      using Calling fr(2) data by (intro inv_top [OF assms]) simp_all
    then show ?thesis
      using Calling assms(2) by (simp add: emit_step_def)
  next
    case After
    show ?thesis
    proof (cases "invalidated f")
      case True
      then show ?thesis
        using After assms(2) l by (simp add: emit_step_def)
    next
      case False
      then obtain d where d: "sig st e g = Some d" "frame_slots f st = Some (slots d)" "\<forall>i. cur f = Some i \<longrightarrow> i \<in> fst ` set (slots d)"
        using live by blast
      obtain i where i: "cur f = Some i" "i \<in> fst ` set (slots d)"
        using fr(2) After d(3) by auto
      have "cb_inv (st\<lparr>frames := f\<lparr>cur := next_slot i (slots d), phase := Test\<rparr> # fs\<rparr>)"
        using False d(1) data next_slot_in by (intro inv_top [OF assms]) auto
      then show ?thesis
        using After False i d(2) assms(2) by (simp add: emit_step_def)
    qed
  qed
qed

end
