(* ===== verification/Nstd_CallbackProps.thy ===== *)
theory Nstd_CallbackProps
  imports Nstd_CallbackInv
begin

text \<open>
  Properties of \<open>Nstd_Callback\<close>: a program that keeps to the rule \<open>allowed\<close> may connect, disconnect, destroy and emit
  whatever it likes while it is being called; an emission calls all slots that are connected, in their order; and what
  happens to a program that breaks the rule.
\<close>

section \<open>Runs\<close>

inductive cb_run :: "cb \<Rightarrow> (nat \<times> nat) list \<Rightarrow> cb \<Rightarrow> bool" where
  run_start: "cb_run st [] st"
| run_order: "cb_run st tr st1 \<Longrightarrow> free_run st1 \<Longrightarrow> allowed ord st1 \<Longrightarrow> obey ord st1 = Some st2 \<Longrightarrow> cb_run st tr st2"
| run_loop: "cb_run st tr st1 \<Longrightarrow> emit_step st1 = Some (c, st2) \<Longrightarrow> cb_run st (tr @ (case c of None \<Rightarrow> [] | Some x \<Rightarrow> [x])) st2"

lemma obey_inv:
  assumes "cb_inv st" "free_run st" "allowed ord st"
  shows "\<exists>st'. obey ord st = Some st' \<and> cb_inv st'"
proof (cases ord)
  case (Connect e g r s)
  then show ?thesis using connect_inv [OF assms(1)] assms(3) by simp
next
  case (Disconnect e g r s)
  then show ?thesis using disconnect_inv [OF assms(1), of g s r e] assms(3) by auto
next
  case (DestroyEmitter e)
  then show ?thesis using destroy_emitter_inv [OF assms(1) _ assms(2)] assms(3) by simp
next
  case (DestroyListener r)
  then show ?thesis using destroy_listener_inv [OF assms(1)] assms(3) by simp
next
  case (Emit e g)
  then show ?thesis using emit_inv [OF assms(1) _ assms(2)] assms(3) by simp
qed

lemma run_inv: "cb_run st tr st' \<Longrightarrow> cb_inv st \<Longrightarrow> cb_inv st'"
proof (induction rule: cb_run.induct)
  case (run_order st tr st1 ord st2)
  then show ?case
    using obey_inv [of st1 ord] by auto
next
  case (run_loop st tr st1 c st2)
  then have inv: "cb_inv st1"
    by blast
  obtain f fs where "frames st1 = f # fs"
    using run_loop(2) by (cases "frames st1") (auto simp: emit_step_def)
  then show ?case
    using emit_step_inv [OF inv] run_loop(2) by auto
qed

text \<open>C37. Whatever a program does that keeps to the rule \<open>allowed\<close>, nothing uses an object that does not exist any more: in every state that is
  reached, also in the middle of nested emissions, the loop of the emission can go on and every operation that the rule allows returns, and a
  slot that is called belongs to a listener that exists and has it connected to the signal that is emitted. The rule asks that emitters and
  listeners exist when they are used, that only a connected function is disconnected, and, for a signal that is being emitted, that a function is not
  connected again after it has been disconnected and that no function with more than one slot there is disconnected or loses its listener. The
  same function may be connected any number of times.\<close>

theorem callback_safe:
  assumes "cb_run cb_start tr st"
  shows "(frames st \<noteq> [] \<longrightarrow> (\<exists>c st'. emit_step st = Some (c, st')))
    \<and> (free_run st \<and> allowed ord st \<longrightarrow> (\<exists>st'. obey ord st = Some st'))
    \<and> (\<forall>f fs r s st'. frames st = f # fs \<and> emit_step st = Some (Some (r, s), st') \<longrightarrow>
        listeners st r \<noteq> None \<and> (snd (fdata f), s) \<in> set (ents st r (fst (fdata f))))"
proof -
  have inv: "cb_inv st"
    by (rule run_inv [OF assms inv_start])
  have "frames st \<noteq> [] \<longrightarrow> (\<exists>c st'. emit_step st = Some (c, st'))"
    using emit_step_inv [OF inv] by (cases "frames st") auto
  moreover have "free_run st \<and> allowed ord st \<longrightarrow> (\<exists>st'. obey ord st = Some st')"
    using obey_inv [OF inv] by blast
  moreover have "\<forall>f fs r s st'. frames st = f # fs \<and> emit_step st = Some (Some (r, s), st') \<longrightarrow>
      listeners st r \<noteq> None \<and> (snd (fdata f), s) \<in> set (ents st r (fst (fdata f)))"
    using emit_step_inv [OF inv] by auto
  ultimately show ?thesis
    by blast
qed

lemma live_listener:
  assumes "cb_inv st" "sig st e g = Some d" "x \<in> set (slots d)" "sstate (snd x) \<noteq> Disconnected"
  shows "listeners st (receiver (snd x)) \<noteq> None"
proof -
  have "0 < hooks d (receiver (snd x), sfun (snd x))"
    using assms(3,4) by (auto simp: live_iff slot_key_def)
  then show ?thesis
    using hooked_alive [OF _ assms(2)] assms(1) unfolding cb_inv_def by blast
qed

text \<open>C38. In every state that a program which keeps to the rule reaches, also in the middle of nested emissions, the two sides of the
  connections agree: a listener lists a function for a signal of an emitter as many times as the signal has slots for it that are not
  disconnected; a slot that is disconnected is the only one for its function, every listener of another slot exists, and
  outside of emissions all slots are connected.\<close>

theorem callback_consistent:
  assumes "cb_run cb_start tr st"
  shows "count_list (ents st r e) (g, s) =
      (case sig st e g of None \<Rightarrow> 0
       | Some d \<Rightarrow> length (filter (\<lambda>x. slot_key x = (r, s) \<and> sstate (snd x) \<noteq> Disconnected) (slots d)))
    \<and> (\<forall>d. sig st e g = Some d \<longrightarrow>
         (\<forall>x\<in>set (slots d). sstate (snd x) = Disconnected \<longrightarrow> count_list (map slot_key (slots d)) (slot_key x) = 1)
       \<and> (\<forall>x\<in>set (slots d). sstate (snd x) \<noteq> Disconnected \<longrightarrow> listeners st (receiver (snd x)) \<noteq> None)
       \<and> (frames st = [] \<longrightarrow> activation d = None \<and> (\<forall>x\<in>set (slots d). sstate (snd x) = Connected)))"
proof -
  have inv: "cb_inv st"
    by (rule run_inv [OF assms inv_start])
  then have links: "links_ok st"
    by (simp add: cb_inv_def)
  have "count_list (ents st r e) (g, s) =
      (case sig st e g of None \<Rightarrow> 0
       | Some d \<Rightarrow> length (filter (\<lambda>x. slot_key x = (r, s) \<and> sstate (snd x) \<noteq> Disconnected) (slots d)))"
    using links by (simp add: links_ok_def live_def split: option.split)
  moreover have "(\<forall>x\<in>set (slots d). sstate (snd x) = Disconnected \<longrightarrow> count_list (map slot_key (slots d)) (slot_key x) = 1)
      \<and> (\<forall>x\<in>set (slots d). sstate (snd x) \<noteq> Disconnected \<longrightarrow> listeners st (receiver (snd x)) \<noteq> None)
      \<and> (frames st = [] \<longrightarrow> activation d = None \<and> (\<forall>x\<in>set (slots d). sstate (snd x) = Connected))" if d: "sig st e g = Some d" for d
  proof (intro conjI ballI impI)
    have ok: "slots_ok (fresh st) d"
      using inv d by (simp add: cb_inv_def)
    then show "count_list (map slot_key (slots d)) (slot_key x) = 1" if "x \<in> set (slots d)" "sstate (snd x) = Disconnected" for x
      using that by (simp add: slots_ok_def keys_def)
    show "listeners st (receiver (snd x)) \<noteq> None" if "x \<in> set (slots d)" "sstate (snd x) \<noteq> Disconnected" for x
      by (rule live_listener [OF inv d that])
    assume "frames st = []"
    then show none: "activation d = None"
      using inv_chain [OF inv d] by (simp add: live_chain_def)
    show "sstate (snd x) = Connected" if "x \<in> set (slots d)" for x
      using ok none that by (simp add: slots_ok_def)
  qed
  ultimately show ?thesis
    by blast
qed

section \<open>Whole emissions\<close>

fun emission :: "nat \<Rightarrow> cb \<Rightarrow> ((nat \<times> nat) list \<times> cb) option" where
  "emission 0 st = Some ([], st)"
| "emission (Suc n) st =
     (case emit_step st of
        None \<Rightarrow> None
      | Some (c, st1) \<Rightarrow> map_option (\<lambda>(cs, st2). ((case c of None \<Rightarrow> [] | Some x \<Rightarrow> [x]) @ cs, st2)) (emission n st1))"

lemma next_slot_split: "distinct (map fst (xs @ (i, x) # ys)) \<Longrightarrow>
    next_slot i (xs @ (i, x) # ys) = (case ys of [] \<Rightarrow> None | (k, y) # zs \<Rightarrow> Some k)"
  by (induction xs) auto

definition first_slot :: "(nat \<times> cslot) list \<Rightarrow> nat option" where
  "first_slot ys = (case ys of [] \<Rightarrow> None | (k, y) # zs \<Rightarrow> Some k)"

lemma leave_cong: "leave (f\<lparr>cur := c, phase := p\<rparr>) fs st = leave f fs st"
  by (simp add: leave_def split: option.splits)

lemma leave_frames: "leave f fs (st\<lparr>frames := gs\<rparr>) = leave f fs st"
  by (simp add: leave_def split: option.splits)

lemma emission_rest:
  assumes "frame_slots f st = Some (xs @ ys)" "\<not> invalidated f" "distinct (map fst (xs @ ys))" "leave f fs st = Some st2"
    and "\<And>x. x \<in> set ys \<Longrightarrow> sstate (snd x) = Connected \<Longrightarrow> listeners st (receiver (snd x)) \<noteq> None"
  shows "\<exists>n. emission n (st\<lparr>frames := f\<lparr>cur := first_slot ys, phase := Test\<rparr> # fs\<rparr>) =
    Some (map slot_key (filter (\<lambda>x. sstate (snd x) = Connected) ys), st2)"
  using assms
proof (induction ys arbitrary: xs)
  case Nil
  have "emission (Suc 0) (st\<lparr>frames := f\<lparr>cur := first_slot [], phase := Test\<rparr> # fs\<rparr>) = Some ([], st2)"
    using Nil by (simp add: emit_step_def first_slot_def leave_cong leave_frames)
  then show ?case
    unfolding filter.simps(1) list.map(1) by (rule exI)
next
  case (Cons y ys)
  obtain i x where y: "y = (i, x)" by fastforce
  let ?st = "\<lambda>c p. st\<lparr>frames := f\<lparr>cur := c, phase := p\<rparr> # fs\<rparr>"
  have slots: "frame_slots (f\<lparr>cur := c, phase := p\<rparr>) (?st c' p') = Some (xs @ (i, x) # ys)" for c p c' p'
    using Cons.prems(1) y by (simp add: frame_slots_def split: option.splits)
  have lookup: "map_of (xs @ (i, x) # ys) i = Some x"
    using Cons.prems(3) y by (auto simp: map_of_append map_add_def map_of_eq_None_iff split: option.splits) (metis fst_conv image_eqI map_of_SomeD)
  obtain n where n: "emission n (?st (first_slot ys) Test) = Some (map slot_key (filter (\<lambda>x. sstate (snd x) = Connected) ys), st2)"
    using Cons.IH [of "xs @ [y]"] Cons.prems by auto
  have after: "emit_step (?st (Some i) After) = Some (None, ?st (first_slot ys) Test)"
    using Cons.prems(2,3) y slots [of After "Some i" After "Some i"] next_slot_split [of xs i x ys]
    by (simp add: emit_step_def first_slot_def)
  show ?case
  proof (cases "sstate x = Connected")
    case True
    then obtain l where "listeners st (receiver x) = Some l"
      using Cons.prems(5) [of y] y by auto
    then have "emit_step (?st (Some i) Test) = Some (Some (receiver x, sfun x), ?st (Some i) Calling)"
      using slots [of Test "Some i" Test "Some i"] lookup True by (simp add: emit_step_def)
    moreover have "emit_step (?st (Some i) Calling) = Some (None, ?st (Some i) After)"
      by (simp add: emit_step_def)
    ultimately have "emission (Suc (Suc (Suc n))) (?st (Some i) Test) =
        Some ((receiver x, sfun x) # map slot_key (filter (\<lambda>x. sstate (snd x) = Connected) ys), st2)"
      using after n by simp
    then show ?thesis
      using True y by (intro exI [of _ "Suc (Suc (Suc n))"]) (simp add: first_slot_def slot_key_def del: emission.simps)
  next
    case False
    then have "emit_step (?st (Some i) Test) = Some (None, ?st (Some i) After)"
      using slots [of Test "Some i" Test "Some i"] lookup by (simp add: emit_step_def)
    then have "emission (Suc (Suc n)) (?st (Some i) Test) = Some (map slot_key (filter (\<lambda>x. sstate (snd x) = Connected) ys), st2)"
      using after n by simp
    then show ?thesis
      using False y by (intro exI [of _ "Suc (Suc n)"]) (simp add: first_slot_def del: emission.simps)
  qed
qed

lemma put_put: "put k v (put k w m) = put k v m"
  by (induction k w m rule: put.induct) auto

text \<open>C39. An emission that the slots do not interfere with, nested or not, calls the slots of the signal that are connected, each once and
  in the order in which they have been connected, and ends; afterwards everything is as before.\<close>

theorem callback_emission:
  assumes "cb_run cb_start tr st" "free_run st" "sig st e g = Some d"
  shows "\<exists>n st1. emit e g st = Some st1
    \<and> emission n st1 = Some (map slot_key (filter (\<lambda>x. sstate (snd x) = Connected) (slots d)), st\<lparr>fresh := fresh st + 1\<rparr>)"
proof -
  have inv: "cb_inv st"
    by (rule run_inv [OF assms(1) inv_start])
  obtain m where m: "emitters st e = Some m" "map_of m g = Some d"
    using sig_alive [OF assms(3)] by blast
  have sorted: "ksorted m"
    using inv m(1) by (simp add: cb_inv_def maps_ok_def)
  have ok: "slots_ok (fresh st) d"
    using inv assms(3) by (simp add: cb_inv_def)
  define f where "f = \<lparr>fid = fresh st, fdata = (e, g), fnext = activation d, invalidated = False, cur = first_slot (slots d), phase = Test\<rparr>"
  define m1 where "m1 = put g (d\<lparr>activation := Some (fresh st)\<rparr>) m"
  define st1 where "st1 = st\<lparr>emitters := (emitters st)(e := Some m1), frames := f # frames st, fresh := fresh st + 1\<rparr>"
  have "emit e g st = Some st1"
    using m by (simp add: emit_def Let_def st1_def m1_def f_def first_slot_def)
  moreover have "\<exists>n. emission n (st1\<lparr>frames := f\<lparr>cur := first_slot (slots d), phase := Test\<rparr> # frames st\<rparr>) =
      Some (map slot_key (filter (\<lambda>x. sstate (snd x) = Connected) (slots d)), st\<lparr>fresh := fresh st + 1\<rparr>)"
  proof (rule emission_rest [of f st1 "[]"])
    show "frame_slots f st1 = Some ([] @ slots d)"
      by (simp add: frame_slots_def f_def st1_def m1_def)
    show "distinct (map fst ([] @ slots d))"
      using ok by (simp add: slots_ok_def)
    have "put g d m1 = m"
      by (simp add: m1_def put_put put_same [OF sorted m(2)])
    moreover have "d\<lparr>activation := activation d\<rparr> = d"
      by simp
    moreover have "activation d = None \<longrightarrow> \<not> dirty d"
      using ok by (simp add: slots_ok_def)
    moreover have "(emitters st)(e \<mapsto> m) = emitters st"
      using m(1) by auto
    ultimately show "leave f (frames st) st1 = Some (st\<lparr>fresh := fresh st + 1\<rparr>)"
      by (auto simp: leave_def f_def st1_def Let_def m1_def)
    show "listeners st1 (receiver (snd x)) \<noteq> None" if "x \<in> set (slots d)" "sstate (snd x) = Connected" for x
      using live_listener [OF inv assms(3) that(1)] that(2) by (simp add: st1_def)
  qed (simp add: f_def)
  moreover have "st1\<lparr>frames := f\<lparr>cur := first_slot (slots d), phase := Test\<rparr> # frames st\<rparr> = st1"
    by (simp add: st1_def f_def)
  ultimately show ?thesis
    by auto
qed

section \<open>What goes wrong otherwise\<close>

text \<open>A program: its orders, and \<open>None\<close> for a step of the loop.\<close>

fun perform :: "order option list \<Rightarrow> cb \<Rightarrow> cb option" where
  "perform [] st = Some st"
| "perform (Some ord # os) st = Option.bind (obey ord st) (perform os)"
| "perform (None # os) st = Option.bind (emit_step st) (\<lambda>(c, st1). perform os st1)"

fun keeps :: "order option list \<Rightarrow> cb \<Rightarrow> bool" where
  "keeps [] st = True"
| "keeps (Some ord # os) st = (free_run st \<and> allowed ord st \<and> (case obey ord st of None \<Rightarrow> False | Some st1 \<Rightarrow> keeps os st1))"
| "keeps (None # os) st = (case emit_step st of None \<Rightarrow> False | Some (c, st1) \<Rightarrow> keeps os st1)"

lemma perform_run: "cb_run cb_start tr st \<Longrightarrow> keeps os st \<Longrightarrow> \<exists>tr' st'. perform os st = Some st' \<and> cb_run cb_start tr' st'"
proof (induction os st arbitrary: tr rule: keeps.induct)
  case (2 ord os st)
  then obtain st1 where "obey ord st = Some st1" "keeps os st1"
    by (auto split: option.splits)
  then show ?case
    using 2 run_order [of cb_start tr st ord st1] by auto
next
  case (3 os st)
  then obtain c st1 where "emit_step st = Some (c, st1)" "keeps os st1"
    by (auto split: option.splits)
  then show ?case
    using 3 run_loop [of cb_start tr st c st1] by auto
qed auto

lemmas machine = connect_def disconnect_def unhook_def destroy_listener_def destroy_emitter_def emit_def emit_step_def leave_def
  frame_slots_def invalidate_def cb_start_def free_run_def single_def keys_def ents_of_def Let_def

text \<open>An emission that comes to a connected slot of a listener that does not exist any more.\<close>

lemma emission_dead:
  assumes "frame_slots f st = Some (xs @ ys)" "\<not> invalidated f" "distinct (map fst (xs @ ys))"
    and "y \<in> set ys" "sstate (snd y) = Connected" "listeners st (receiver (snd y)) = None"
  shows "\<exists>n. emission n (st\<lparr>frames := f\<lparr>cur := first_slot ys, phase := Test\<rparr> # fs\<rparr>) = None"
  using assms
proof (induction ys arbitrary: xs)
  case (Cons y' ys)
  obtain i x where y': "y' = (i, x)" by fastforce
  let ?st = "\<lambda>c p. st\<lparr>frames := f\<lparr>cur := c, phase := p\<rparr> # fs\<rparr>"
  have slots: "frame_slots (f\<lparr>cur := c, phase := p\<rparr>) (?st c' p') = Some (xs @ (i, x) # ys)" for c p c' p'
    using Cons.prems(1) y' by (simp add: frame_slots_def split: option.splits)
  have lookup: "map_of (xs @ (i, x) # ys) i = Some x"
    using Cons.prems(3) y' by (auto simp: map_of_append map_add_def map_of_eq_None_iff split: option.splits) (metis fst_conv image_eqI map_of_SomeD)
  have after: "emit_step (?st (Some i) After) = Some (None, ?st (first_slot ys) Test)"
    using Cons.prems(2,3) y' slots [of After "Some i" After "Some i"] next_slot_split [of xs i x ys]
    by (simp add: emit_step_def first_slot_def)
  have first: "first_slot (y' # ys) = Some i"
    using y' by (simp add: first_slot_def)
  show ?case
  proof (cases "sstate x = Connected \<and> listeners st (receiver x) = None")
    case True
    then have "emit_step (?st (Some i) Test) = None"
      using slots [of Test "Some i" Test "Some i"] lookup by (simp add: emit_step_def)
    then have "emission (Suc 0) (?st (Some i) Test) = None"
      by simp
    then show ?thesis
      unfolding first by (rule exI)
  next
    case False
    then have "y \<noteq> y'"
      using y' Cons.prems(5,6) by auto
    then have "\<exists>n. emission n (?st (first_slot ys) Test) = None"
      using Cons.prems by (intro Cons.IH [of "xs @ [y']"]) simp_all
    then obtain n where n: "emission n (?st (first_slot ys) Test) = None"
      by blast
    show ?thesis
    proof (cases "sstate x = Connected")
      case True
      then obtain l where "listeners st (receiver x) = Some l"
        using False by auto
      then have "emit_step (?st (Some i) Test) = Some (Some (receiver x, sfun x), ?st (Some i) Calling)"
        using slots [of Test "Some i" Test "Some i"] lookup True by (simp add: emit_step_def)
      moreover have "emit_step (?st (Some i) Calling) = Some (None, ?st (Some i) After)"
        by (simp add: emit_step_def)
      ultimately have "emission (Suc (Suc (Suc n))) (?st (Some i) Test) = None"
        using after n by simp
      then show ?thesis
        unfolding first by (rule exI)
    next
      case no: False
      then have "emit_step (?st (Some i) Test) = Some (None, ?st (Some i) After)"
        using slots [of Test "Some i" Test "Some i"] lookup by (simp add: emit_step_def)
      then have "emission (Suc (Suc n)) (?st (Some i) Test) = None"
        using after n by simp
      then show ?thesis
        unfolding first by (rule exI)
    qed
  qed
qed simp

text \<open>A slot that stands behind another one for the same listener and function stays as it is when the listener ends.\<close>

definition kept :: "nat \<Rightarrow> nat \<Rightarrow> nat \<Rightarrow> cb \<Rightarrow> cb \<Rightarrow> bool" where
  "kept e g j st st' \<longleftrightarrow>
     frames st' = frames st \<and> listeners st' = listeners st \<and> (\<forall>q. (emitters st' q = None) = (emitters st q = None))
     \<and> (\<exists>d d'. sig st e g = Some d \<and> sig st' e g = Some d' \<and> activation d' = activation d
          \<and> map fst (slots d') = map fst (slots d) \<and> keys d' = keys d \<and> slots d' ! j = slots d ! j)"

lemma kept_trans: "kept e g j st st1 \<Longrightarrow> kept e g j st1 st2 \<Longrightarrow> kept e g j st st2"
  unfolding kept_def by (elim conjE exE) simp

lemma unhook_loop_none: "\<forall>y\<in>set xs. slot_key y \<noteq> (r, s) \<Longrightarrow> unhook_loop r s active xs = None"
  by (induction r s active xs rule: unhook_loop.induct) (auto simp: slot_key_def)

definition behind :: "nat \<Rightarrow> nat \<Rightarrow> nat \<Rightarrow> signal_data \<Rightarrow> bool" where
  "behind j r s d \<longleftrightarrow> activation d \<noteq> None \<and> j < length (keys d) \<and> keys d ! j = (r, s) \<and> (\<exists>i<j. keys d ! i = (r, s))"

lemma unhook_behind:
  assumes "behind j r s d"
  shows "activation (unhook r t d) = activation d \<and> map fst (slots (unhook r t d)) = map fst (slots d)
    \<and> keys (unhook r t d) = keys d \<and> slots (unhook r t d) ! j = slots d ! j"
proof (cases "\<exists>x\<in>set (slots d). slot_key x = (r, t)")
  case True
  then obtain us x vs where x: "slots d = us @ x # vs" "slot_key x = (r, t)" "\<forall>y\<in>set us. slot_key y \<noteq> (r, t)"
    using split_list_first_prop [of "slots d" "\<lambda>x. slot_key x = (r, t)"] by blast
  obtain i where i: "i < j" "keys d ! i = (r, s)" "keys d ! j = (r, s)" "j < length (keys d)"
    using assms by (auto simp: behind_def)
  have "j \<noteq> length us"
  proof
    assume j: "j = length us"
    then have "t = s" "us ! i \<in> set us" "slot_key (us ! i) = (r, s)"
      using i x(1,2) by (simp_all add: keys_def nth_append)
    then show False
      using x(3) by blast
  qed
  moreover have "unhook r t d = d\<lparr>slots := us @ mark x # vs, dirty := True\<rparr>"
    using unhook_loop_split [OF x(2,3), of True vs] x(1) assms by (simp add: unhook_def behind_def)
  ultimately show ?thesis
    using x(1) by (simp add: keys_def nth_append nth_Cons')
next
  case False
  then have "unhook r t d = d"
    by (simp add: unhook_def unhook_loop_none)
  then show ?thesis
    by simp
qed

lemma entries_kept:
  assumes "sig st e g = Some d" "behind j r s d" "es \<noteq> [] \<Longrightarrow> emitters st e' \<noteq> None"
  shows "\<exists>st'. unhook_entries r e' es st = Some st' \<and> kept e g j st st'"
  using assms
proof (induction es arbitrary: st d)
  case Nil
  then show ?case
    by (simp add: kept_def)
next
  case (Cons a es)
  obtain g' t where a: "a = (g', t)" by fastforce
  obtain m where m: "emitters st e' = Some m"
    using Cons.prems(3) by auto
  define st1 where "st1 = (case map_of m g' of None \<Rightarrow> st | Some d' \<Rightarrow> set_sig e' g' (unhook r t d') st)"
  have run: "unhook_entries r e' (a # es) st = unhook_entries r e' es st1"
    using m a by (simp add: st1_def set_sig_def split: option.splits)
  have "kept e g j st st1"
  proof (cases "map_of m g'")
    case None
    then show ?thesis
      using Cons.prems(1) by (simp add: st1_def kept_def)
  next
    case (Some d')
    then have d': "sig st e' g' = Some d'"
      using m by (simp add: sig_def)
    have alive: "emitters st e' \<noteq> None"
      using m by simp
    show ?thesis
    proof (cases "e' = e \<and> g' = g")
      case True
      then have "d' = d"
        using d' Cons.prems(1) by simp
      then show ?thesis
        using Some True m Cons.prems(1) unhook_behind [OF Cons.prems(2), of t] sig_set [OF alive, of g' "unhook r t d'" e g]
        by (auto simp: st1_def kept_def)
    next
      case False
      then show ?thesis
        using Some m Cons.prems(1) sig_set [OF alive, of g' "unhook r t d'" e g] by (auto simp: st1_def kept_def)
    qed
  qed
  moreover from this obtain d1 where d1: "sig st1 e g = Some d1" "activation d1 = activation d" "keys d1 = keys d"
    using Cons.prems(1) by (auto simp: kept_def)
  have "\<exists>st'. unhook_entries r e' es st1 = Some st' \<and> kept e g j st1 st'"
  proof (rule Cons.IH [OF d1(1)])
    show "behind j r s d1"
      using Cons.prems(2) d1(2,3) by (simp add: behind_def)
    show "emitters st1 e' \<noteq> None"
      using \<open>kept e g j st st1\<close> m by (simp add: kept_def)
  qed
  ultimately show ?case
    unfolding run using kept_trans by blast
qed

lemma emitters_kept:
  assumes "sig st e g = Some d" "behind j r s d" "\<And>e' es. (e', es) \<in> set l \<Longrightarrow> es \<noteq> [] \<Longrightarrow> emitters st e' \<noteq> None"
  shows "\<exists>st'. unhook_emitters r l st = Some st' \<and> kept e g j st st'"
  using assms
proof (induction l arbitrary: st d)
  case Nil
  then show ?case
    by (simp add: kept_def)
next
  case (Cons a l)
  obtain e' es where a: "a = (e', es)" by fastforce
  obtain st1 where st1: "unhook_entries r e' es st = Some st1" "kept e g j st st1"
    using entries_kept [OF Cons.prems(1,2), of es e'] Cons.prems(3) [of e' es] a by auto
  then obtain d1 where d1: "sig st1 e g = Some d1" "activation d1 = activation d" "keys d1 = keys d"
    using Cons.prems(1) by (auto simp: kept_def)
  have "\<exists>st'. unhook_emitters r l st1 = Some st' \<and> kept e g j st1 st'"
  proof (rule Cons.IH [OF d1(1)])
    show "behind j r s d1"
      using Cons.prems(2) d1(2,3) by (simp add: behind_def)
    show "emitters st1 q \<noteq> None" if "(q, fs) \<in> set l" "fs \<noteq> []" for q fs
      using st1(2) Cons.prems(3) [of q fs] that by (simp add: kept_def)
  qed
  then show ?case
    using a st1 kept_trans by auto
qed

lemma listener_kept:
  assumes "cb_inv st" "sig st e g = Some d" "behind j r s d" "listeners st r = Some l"
  shows "\<exists>st' d'. destroy_listener r st = Some st' \<and> listeners st' = (listeners st)(r := None) \<and> frames st' = frames st
    \<and> sig st' e g = Some d' \<and> map fst (slots d') = map fst (slots d) \<and> keys d' = keys d \<and> slots d' ! j = slots d ! j"
proof -
  have "ksorted l"
    using assms(1,4) by (simp add: cb_inv_def maps_ok_def)
  then have dist: "distinct (map fst l)"
    by (rule ksorted_distinct)
  have links: "links_ok st"
    using assms(1) by (simp add: cb_inv_def)
  have "emitters st e' \<noteq> None" if es: "(e', es) \<in> set l" "es \<noteq> []" for e' es
  proof -
    obtain h t where "(h, t) \<in> set es"
      using es(2) by (cases es) auto
    moreover have "ents st r e' = es"
      using dist es(1) assms(4) by (simp add: ents_of_def)
    ultimately obtain d' where "sig st e' h = Some d'"
      using links_iff [OF links] by blast
    then show ?thesis
      using sig_alive by blast
  qed
  then obtain st1 where st1: "unhook_emitters r l st = Some st1" "kept e g j st st1"
    using emitters_kept [OF assms(2,3), of l] by blast
  then obtain d' where d': "sig st1 e g = Some d'" "map fst (slots d') = map fst (slots d)" "keys d' = keys d" "slots d' ! j = slots d ! j"
    using assms(2) by (auto simp: kept_def)
  have "sig (st1\<lparr>listeners := (listeners st1)(r := None)\<rparr>) = sig st1"
    by (simp add: sig_def fun_eq_iff)
  then show ?thesis
    using st1 d' assms(4) by (intro exI [of _ "st1\<lparr>listeners := (listeners st1)(r := None)\<rparr>"] exI [of _ d'])
      (simp add: destroy_listener_def kept_def)
qed

text \<open>The emission goes on behind the slot that is being called.\<close>

lemma emission_goes_on:
  assumes "frames st = f # fs" "phase f = Calling" "frame_slots f st = Some (xs @ (i, x) # ys)" "cur f = Some i" "\<not> invalidated f"
    "distinct (map fst (xs @ (i, x) # ys))" "y \<in> set ys" "sstate (snd y) = Connected" "listeners st (receiver (snd y)) = None"
  shows "\<exists>n. emission n st = None"
proof -
  have slots: "frame_slots (f\<lparr>phase := p\<rparr>) (st\<lparr>frames := gs\<rparr>) = Some (xs @ (i, x) # ys)" for p gs
    using assms(3) by (simp add: frame_slots_def split: option.splits)
  have "frame_slots f st = Some ((xs @ [(i, x)]) @ ys)" "distinct (map fst ((xs @ [(i, x)]) @ ys))"
    using assms(3,6) by simp_all
  from emission_dead [OF this(1) assms(5) this(2) assms(7-9)] obtain n where
    n: "emission n (st\<lparr>frames := f\<lparr>cur := first_slot ys, phase := Test\<rparr> # fs\<rparr>) = None"
    by blast
  have "emit_step st = Some (None, st\<lparr>frames := f\<lparr>phase := After\<rparr> # fs\<rparr>)"
    using assms(1,2) by (simp add: emit_step_def)
  moreover have "emit_step (st\<lparr>frames := f\<lparr>phase := After\<rparr> # fs\<rparr>) =
      Some (None, st\<lparr>frames := f\<lparr>cur := first_slot ys, phase := Test\<rparr> # fs\<rparr>)"
    using assms(4-6) slots [of After "f\<lparr>phase := After\<rparr> # fs"] next_slot_split [of xs i x ys]
    by (simp add: emit_step_def first_slot_def)
  ultimately have "emission (Suc (Suc n)) st = None"
    using n by simp
  then show ?thesis
    by (rule exI)
qed

text \<open>Connecting and disconnecting a function of which a disconnected slot is still there.\<close>

lemma reconnect_hangs:
  assumes "cb_inv st" "sig st e g = Some d" "activation d \<noteq> None" "z \<in> set (slots d)" "slot_key z = (r, s)" "sstate (snd z) = Disconnected"
    "listeners st r = Some l"
  shows "\<exists>st1 st2 d2. connect e g r s st = Some st1 \<and> disconnect e g r s st1 = Some st2 \<and> sig st2 e g = Some d2
    \<and> hooks d2 (r, s) = 1 \<and> (g, s) \<notin> set (ents st2 r e)"
proof -
  obtain m where m: "emitters st e = Some m" "map_of m g = Some d"
    using sig_alive [OF assms(2)] by blast
  have links: "links_ok st" and ok: "slots_ok (fresh st) d"
    using assms(1,2) by (simp_all add: cb_inv_def)
  have one: "count_list (keys d) (r, s) = 1"
    using ok assms(4-6) by (metis slots_ok_def)
  obtain us x vs where x: "slots d = us @ x # vs" "slot_key x = (r, s)" "\<forall>y\<in>set us. slot_key y \<noteq> (r, s)"
    using split_list_first_prop [of "slots d" "\<lambda>x. slot_key x = (r, s)"] assms(4,5) by blast
  have "count_list (map slot_key vs) (r, s) = 0"
    using one x(1,2) by (simp add: keys_def)
  then have vs: "\<forall>y\<in>set vs. slot_key y \<noteq> (r, s)"
    by (metis count_list_0_iff image_eqI list.set_map)
  then have "z = x"
    using x assms(4,5) by auto
  then have none: "hooks d (r, s) = 0"
    using x(1,3) vs assms(6) by (auto simp: live_def filter_empty_conv)
  then have "count_list (ents st r e) (g, s) = 0"
    using links_count [OF links assms(2)] by simp
  then have out: "(g, s) \<notin> set (ents st r e)"
    using count_pos by (metis less_irrefl)
  define y where "y = (fresh st, \<lparr>receiver = r, sfun = s, sstate = Connecting\<rparr>)"
  define d1 where "d1 = d\<lparr>slots := slots d @ [y], dirty := True\<rparr>"
  define st1 where "st1 = (set_ents r e (ents st r e @ [(g, s)]) (set_sig e g d1 st))\<lparr>fresh := fresh st + 1\<rparr>"
  have es: "(case map_of l e of None \<Rightarrow> [] | Some es \<Rightarrow> es) = ents st r e"
    using assms(7) by (simp add: ents_of_def)
  have "connect e g r s st = Some st1"
    unfolding connect_def m(1) assms(7) option.case m(2) Let_def es
    using m(1) assms(3,7) by (simp add: st1_def set_ents_def set_sig_def d1_def y_def)
  moreover have "unhook r s d1 = d1\<lparr>slots := us @ mark x # vs @ [y]\<rparr>"
    using unhook_loop_split [OF x(2,3), of True "vs @ [y]"] x(1) assms(3) by (simp add: unhook_def d1_def)
  then have "hooks (unhook r s d1) (r, s) = 1"
    using x(1,3) vs by (simp add: y_def slot_key_def) (auto simp: live_def filter_empty_conv slot_key_def)
  moreover have l1: "listeners st1 r = Some (put e (ents st r e @ [(g, s)]) l)" "emitters st1 e = Some (put g d1 m)"
    using m(1) assms(7) by (simp_all add: st1_def set_ents_def set_sig_def)
  define st2 where "st2 = set_ents r e (ents st r e) (set_sig e g (unhook r s d1) st1)"
  have "remove1 (g, s) (ents st r e @ [(g, s)]) = ents st r e"
    using out by (simp add: remove1_append)
  then have "disconnect e g r s st1 = Some st2"
    using l1 by (simp add: disconnect_def Let_def st2_def set_ents_def set_sig_def)
  moreover have "sig st2 e g = Some (unhook r s d1)"
    using l1 sig_set [of st1 e g "unhook r s d1" e g] by (simp add: st2_def)
  moreover have "ents st2 r e = ents st r e"
    using l1 ents_set [of "set_sig e g (unhook r s d1) st1" r e "ents st r e" r e] by (simp add: st2_def)
  ultimately show ?thesis
    using out by auto
qed

text \<open>C40. What happens when the rule is broken. While a slot is being called: when a connected slot behind it is for the same listener and function as that slot or one
  in front, and the listener is destroyed, the emission comes to a slot of a listener that does not exist any more. While a signal is
  being emitted, connecting a function that has been disconnected, and disconnecting it again, leaves its new slot connected but
  takes it from the list of the listener, whose end then does not disconnect it. And disconnecting a function from a signal that has slots uses an entry that does not
  exist when the listener has never been connected to the emitter.\<close>

theorem callback_misuse:
  assumes "cb_run cb_start tr st" "sig st e g = Some d" "listeners st r = Some l"
  shows "(frames st = f # fs \<and> phase f = Calling \<and> fdata f = (e, g) \<and> cur f = Some i \<and> slots d = xs @ (i, x) # ys
        \<and> y \<in> set ys \<and> slot_key y = (r, s) \<and> sstate (snd y) = Connected \<and> (r, s) \<in> slot_key ` set (xs @ [(i, x)]) \<longrightarrow>
      (\<exists>st' n. destroy_listener r st = Some st' \<and> listeners st' r = None \<and> emission n st' = None))
    \<and> (activation d \<noteq> None \<and> z \<in> set (slots d) \<and> slot_key z = (r, s) \<and> sstate (snd z) = Disconnected \<longrightarrow>
      (\<exists>st1 st2 d2. connect e g r s st = Some st1 \<and> disconnect e g r s st1 = Some st2 \<and> sig st2 e g = Some d2
        \<and> hooks d2 (r, s) = 1 \<and> (g, s) \<notin> set (ents st2 r e)))
    \<and> (map_of l e = None \<longrightarrow> disconnect e g r s st = None)"
proof (intro conjI impI)
  have inv: "cb_inv st"
    by (rule run_inv [OF assms(1) inv_start])
  { assume a: "frames st = f # fs \<and> phase f = Calling \<and> fdata f = (e, g) \<and> cur f = Some i \<and> slots d = xs @ (i, x) # ys
        \<and> y \<in> set ys \<and> slot_key y = (r, s) \<and> sstate (snd y) = Connected \<and> (r, s) \<in> slot_key ` set (xs @ [(i, x)])"
    let ?us = "xs @ [(i, x)]"
    obtain k where k: "k < length ?us" "slot_key (?us ! k) = (r, s)"
      using a by (metis imageE in_set_conv_nth)
    obtain n where n: "n < length ys" "ys ! n = y"
      using a by (metis in_set_conv_nth)
    define j where "j = length ?us + n"
    have sl: "slots d = ?us @ ys" "slots d ! j = y" "slots d ! k = ?us ! k" "j < length (slots d)"
      using a n k(1) by (simp_all add: j_def nth_append)
    have f: "live_chain d (chain e g (f # fs))"
      using inv_chain [OF inv assms(2)] a by simp
    then have live: "\<not> invalidated f" "activation d \<noteq> None"
      using a by (simp_all add: live_chain_def)
    have key: "keys d ! n = slot_key (slots d ! n)" if "n < length (slots d)" for n
      using that by (simp add: keys_def)
    have kj: "k < j"
      using k(1) by (simp add: j_def)
    have "keys d ! j = (r, s)" "keys d ! k = (r, s)" "j < length (keys d)"
      using key [OF sl(4)] key [of k] kj sl(2,3,4) k(2) a by (simp_all add: keys_def)
    then have "behind j r s d"
      using live(2) kj unfolding behind_def by blast
    from listener_kept [OF inv assms(2) this assms(3)] obtain st' d' where st': "destroy_listener r st = Some st'" "listeners st' = (listeners st)(r := None)"
      "frames st' = frames st" "sig st' e g = Some d'" "map fst (slots d') = map fst (slots d)" "keys d' = keys d" "slots d' ! j = slots d ! j"
      by blast
    define us' ys' where "us' = take (length xs) (slots d')" and "ys' = drop (Suc (length xs)) (slots d')"
    have len: "length (slots d') = length (slots d)"
      using st'(5) by (metis length_map)
    then have lx: "length xs < length (slots d')"
      using a by simp
    have at: "fst (slots d' ! length xs) = i"
    proof -
      have "fst (slots d' ! length xs) = map fst (slots d) ! length xs"
        using nth_map [OF lx, of fst] st'(5) by simp
      also have "\<dots> = fst (slots d ! length xs)"
        using lx len by simp
      also have "slots d ! length xs = (i, x)"
        using a by simp
      finally show ?thesis
        by simp
    qed
    obtain x' where "slots d' ! length xs = (i, x')"
      using at by (cases "slots d' ! length xs") simp
    then have d': "slots d' = us' @ (i, x') # ys'"
      using id_take_nth_drop [OF lx] by (simp add: us'_def ys'_def)
    have y': "y \<in> set ys'"
    proof -
      have "ys' ! n = slots d' ! j" "n < length ys'"
        using len lx n a sl(4) by (simp_all add: ys'_def j_def)
      then show ?thesis
        using st'(7) sl(2) by (metis nth_mem)
    qed
    have "slots_ok (fresh st) d"
      using inv assms(2) by (simp add: cb_inv_def)
    then have "distinct (map fst (us' @ (i, x') # ys'))"
      using st'(5) unfolding d' slots_ok_def by simp
    moreover have "frame_slots f st' = Some (us' @ (i, x') # ys')"
      using st'(4) a sig_alive [OF st'(4)] d' by (auto simp: frame_slots_def)
    moreover have "receiver (snd y) = r"
      using a by (simp add: slot_key_def)
    ultimately have "\<exists>n. emission n st' = None"
      using a live(1) st'(2,3) y' by (intro emission_goes_on [of st' f fs us' i x' ys' y]) simp_all
    then show "\<exists>st' n. destroy_listener r st = Some st' \<and> listeners st' r = None \<and> emission n st' = None"
      using st'(1,2) by auto }
  { assume "activation d \<noteq> None \<and> z \<in> set (slots d) \<and> slot_key z = (r, s) \<and> sstate (snd z) = Disconnected"
    then show "\<exists>st1 st2 d2. connect e g r s st = Some st1 \<and> disconnect e g r s st1 = Some st2 \<and> sig st2 e g = Some d2
        \<and> hooks d2 (r, s) = 1 \<and> (g, s) \<notin> set (ents st2 r e)"
      using reconnect_hangs [OF inv assms(2) _ _ _ _ assms(3)] by blast }
  { assume none: "map_of l e = None"
    obtain m where "emitters st e = Some m" "map_of m g = Some d"
      using sig_alive [OF assms(2)] by blast
    then show "disconnect e g r s st = None"
      using none assms(3) by (simp add: disconnect_def Let_def) }
qed

lemma witness_run:
  "keeps [Some (Connect 0 0 0 1), Some (Connect 0 0 1 2)] cb_start"
  "keeps [Some (Connect 0 0 0 1), Some (Connect 0 0 0 1)] cb_start"
  "keeps [Some (Connect 0 0 0 1), Some (Connect 0 0 0 1), Some (Disconnect 0 0 0 1), Some (Emit 0 0)] cb_start"
  "keeps [Some (Connect 0 0 0 1), Some (Connect 0 0 0 1), Some (Emit 0 0), None] cb_start"
  "keeps [Some (Connect 0 0 0 1), Some (Emit 0 0), None, Some (Disconnect 0 0 0 1)] cb_start"
  by (simp_all add: machine sig_def slot_key_def)

lemma callback_safe_witness:
  "\<exists>st. perform [Some (Connect 0 0 0 1), Some (Connect 0 0 0 1), Some (Disconnect 0 0 0 1), Some (Emit 0 0)] cb_start = Some st
    \<and> (\<exists>c st'. emit_step st = Some (c, st'))"
proof -
  obtain tr st where st: "perform [Some (Connect 0 0 0 1), Some (Connect 0 0 0 1), Some (Disconnect 0 0 0 1), Some (Emit 0 0)] cb_start = Some st"
    "cb_run cb_start tr st"
    using perform_run [OF run_start witness_run(3)] by blast
  have "frames st \<noteq> []"
    using st(1) by (auto simp: machine)
  then show ?thesis
    using callback_safe [OF st(2), of "Emit 0 0"] st(1) by blast
qed

lemma callback_consistent_witness:
  "\<exists>st. perform [Some (Connect 0 0 0 1), Some (Connect 0 0 0 1)] cb_start = Some st \<and> count_list (ents st 0 0) (0, 1) = 2"
proof -
  obtain tr st where st: "perform [Some (Connect 0 0 0 1), Some (Connect 0 0 0 1)] cb_start = Some st" "cb_run cb_start tr st"
    using perform_run [OF run_start witness_run(2)] by blast
  have "\<exists>d. sig st 0 0 = Some d \<and> length (filter (\<lambda>x. slot_key x = (0, 1) \<and> sstate (snd x) \<noteq> Disconnected) (slots d)) = 2"
    using st(1) by (auto simp: machine sig_def slot_key_def)
  then show ?thesis
    using conjunct1 [OF callback_consistent [OF st(2), of 0 0 0 1]] st(1) by auto
qed

lemma callback_emission_witness:
  "\<exists>st d n st1. perform [Some (Connect 0 0 0 1), Some (Connect 0 0 1 2)] cb_start = Some st \<and> emit 0 0 st = Some st1
    \<and> emission n st1 = Some ([(0, 1), (1, 2)], st\<lparr>fresh := fresh st + 1\<rparr>)"
proof -
  obtain tr st where st: "perform [Some (Connect 0 0 0 1), Some (Connect 0 0 1 2)] cb_start = Some st" "cb_run cb_start tr st"
    using perform_run [OF run_start witness_run(1)] by blast
  have "free_run st" "\<exists>d. sig st 0 0 = Some d \<and> map slot_key (filter (\<lambda>x. sstate (snd x) = Connected) (slots d)) = [(0, 1), (1, 2)]"
    using st(1) by (auto simp: machine sig_def slot_key_def)
  then show ?thesis
    using callback_emission [OF st(2), of 0 0] st(1) by auto
qed

lemma callback_misuse_witness:
  "(\<exists>st st' n. perform [Some (Connect 0 0 0 1), Some (Connect 0 0 0 1), Some (Emit 0 0), None] cb_start = Some st
      \<and> destroy_listener 0 st = Some st' \<and> emission n st' = None)
    \<and> (\<exists>st st1 st2 d. perform [Some (Connect 0 0 0 1), Some (Emit 0 0), None, Some (Disconnect 0 0 0 1)] cb_start = Some st
      \<and> connect 0 0 0 1 st = Some st1 \<and> disconnect 0 0 0 1 st1 = Some st2 \<and> sig st2 0 0 = Some d \<and> hooks d (0, 1) = 1 \<and> ents st2 0 0 = [])"
proof
  obtain tr st where st: "perform [Some (Connect 0 0 0 1), Some (Connect 0 0 0 1), Some (Emit 0 0), None] cb_start = Some st" "cb_run cb_start tr st"
    using perform_run [OF run_start witness_run(4)] by blast
  have "\<exists>d f i x y l. sig st 0 0 = Some d \<and> listeners st 0 = Some l \<and> frames st = f # [] \<and> phase f = Calling \<and> fdata f = (0, 0) \<and> cur f = Some i
      \<and> slots d = [] @ (i, x) # [y] \<and> slot_key y = (0, 1) \<and> sstate (snd y) = Connected \<and> slot_key (i, x) = (0, 1)"
    using st(1) by (auto simp: machine sig_def slot_key_def)
  then obtain d f i x y l where d: "sig st 0 0 = Some d" "listeners st 0 = Some l" "frames st = f # []" "phase f = Calling" "fdata f = (0, 0)"
    "cur f = Some i" "slots d = [] @ (i, x) # [y]" "slot_key y = (0, 1)" "sstate (snd y) = Connected" "slot_key (i, x) = (0, 1)"
    by blast
  have m: "(0, 1) \<in> slot_key ` set ([] @ [(i, x)])"
    by (rule image_eqI [where x = "(i, x)"], rule d(10) [symmetric], simp)
  have y: "y \<in> set [y]"
    by simp
  have "\<exists>st' n. destroy_listener 0 st = Some st' \<and> listeners st' 0 = None \<and> emission n st' = None"
    by (rule callback_misuse [where xs = "[]" and x = x and ys = "[y]", OF st(2) d(1,2), THEN conjunct1, rule_format])
      (intro conjI; fact d m y)
  then show "\<exists>st st' n. perform [Some (Connect 0 0 0 1), Some (Connect 0 0 0 1), Some (Emit 0 0), None] cb_start = Some st
      \<and> destroy_listener 0 st = Some st' \<and> emission n st' = None"
    using st(1) by blast
next
  obtain tr st where st: "perform [Some (Connect 0 0 0 1), Some (Emit 0 0), None, Some (Disconnect 0 0 0 1)] cb_start = Some st" "cb_run cb_start tr st"
    using perform_run [OF run_start witness_run(5)] by blast
  have "\<exists>d l z. sig st 0 0 = Some d \<and> listeners st 0 = Some l \<and> activation d \<noteq> None \<and> z \<in> set (slots d) \<and> slot_key z = (0, 1)
      \<and> sstate (snd z) = Disconnected \<and> ents st 0 0 = []"
    using st(1) by (auto simp: machine sig_def slot_key_def)
  then obtain d l z where d: "sig st 0 0 = Some d" "listeners st 0 = Some l" "activation d \<noteq> None \<and> z \<in> set (slots d) \<and> slot_key z = (0, 1)
      \<and> sstate (snd z) = Disconnected"
    by blast
  from callback_misuse [OF st(2) d(1,2), THEN conjunct2, THEN conjunct1, rule_format, OF d(3)] obtain st1 st2 d2 where
    r: "connect 0 0 0 1 st = Some st1" "disconnect 0 0 0 1 st1 = Some st2" "sig st2 0 0 = Some d2" "hooks d2 (0, 1) = 1"
    by blast
  have "ents st2 0 0 = []"
    using st(1) r(1,2) by (auto simp: machine)
  then show "\<exists>st st1 st2 d. perform [Some (Connect 0 0 0 1), Some (Emit 0 0), None, Some (Disconnect 0 0 0 1)] cb_start = Some st
      \<and> connect 0 0 0 1 st = Some st1 \<and> disconnect 0 0 0 1 st1 = Some st2 \<and> sig st2 0 0 = Some d \<and> hooks d (0, 1) = 1 \<and> ents st2 0 0 = []"
    using st(1) r by blast
qed

end
