(* ===== verification/Spec2Isabelle.thy ===== *)
theory Spec2Isabelle
  imports Nstd_PoolList Nstd_HashMap Nstd_HashSet Nstd_PoolMap Nstd_MultiMap Nstd_Sha256 Nstd_StringProps Nstd_Unicode
    Nstd_Variant Nstd_JsonProps Nstd_ArrayProps Nstd_BufferProps Nstd_XmlProps Nstd_QueueProps Nstd_PathProps
    Nstd_CallbackProps
begin

text \<open>
  A verification of the core of \<^bold>\<open>libnstd\<close>: the containers, the string algorithms, SHA-256, the conversion of
  Unicode, variants, JSON, XML, paths, signals and slots, and the queue of the thread pool. The paths below are relative to the repository; \<^verbatim>\<open>include/nstd\<close> holds the
  templates and classes, \<^verbatim>\<open>src\<close> their implementation files.

  \<^bold>\<open>The program and its parts.\<close> libnstd is a C++ library without a main program. Its containers keep
  items in blocks that they allocate themselves and never give back before they are destroyed: a removed
  item goes to a free list of the container and is used again. The items are linked into a list, from an
  end item inside the container object; hash containers chain the items of a bucket in addition, trees link
  them as an AVL tree in addition. \<^verbatim>\<open>String\<close> is a byte string behind the C functions on zero-terminated
  strings; \<^verbatim>\<open>Variant\<close> holds strings, numbers, lists, arrays and hash maps; \<^verbatim>\<open>Json\<close> reads and writes variants and
  uses \<^verbatim>\<open>Unicode\<close> for escapes; \<^verbatim>\<open>Sha256\<close> works on byte strings and buffers.

  \<^bold>\<open>How code becomes definitions.\<close> A class is a record of its fields, an operation a function that is given the
  memory and the object and returns both; what a program could do and must not do is \<open>None\<close> where the model can see it: a read or write outside of a
  string, a buffer or an array, an object that is used without being there or constructed over another (\<open>Nstd_Array\<close>, \<open>Nstd_Queue\<close>,
  \<open>Nstd_Callback\<close>), a loop that does not end. There a theorem that an operation is \<open>Some\<close> is a theorem about safety and
  termination too. The linked containers are different: the fields of their items are total functions of the address, so that an access
  through a null or foreign pointer is not \<open>None\<close> but reads or changes whatever the function has there. What excludes such accesses are
  the invariants (\<open>list_ok\<close>, \<open>hash_ok\<close>, \<open>tm_ok\<close>), which say of every pointer of a container which of its items it points to, and the
  rule that no operation changes the items of another container; \<open>None\<close> is a loop that does not end there. Loops over pointers are
  \<^verbatim>\<open>partial_function (option)\<close> or recursion over a count that the code has; the parsers of JSON and XML take fuel.
  Machine integers have the width of the code (\<open>8 word\<close>, \<open>32 word\<close>, \<open>64 word\<close>) where the code computes with
  their bits or lets them wrap around; sizes are natural numbers, that is, sums of sizes are assumed not to
  overflow.

  \<^bold>\<open>The theories.\<close>
  \<^item> \<open>Nstd_Prelude\<close>: lemmas on lists and functions that the others share. \<open>Nstd_Interfaces\<close>: what a
    dictionary promises, as locales over the operations of a container and a relation between its state
    and a map, a set or a list of pairs; each is interpreted by the containers below, and the theorems on
    histories of operations come from these interpretations.
  \<^item> \<open>Nstd_Links\<close>: addresses, items, the free list and the doubly linked list that \<^verbatim>\<open>List\<close>, \<^verbatim>\<open>PoolList\<close>,
    \<^verbatim>\<open>HashMap\<close>, \<^verbatim>\<open>HashSet\<close>, \<^verbatim>\<open>PoolMap\<close>, \<^verbatim>\<open>Map\<close> and \<^verbatim>\<open>MultiMap\<close> have in common, with segments of the list as
    invariant and the rule that an operation leaves the items of other containers alone.
  \<^item> \<open>Nstd_List\<close> (List.hpp, with the quick sort that swaps values between items), \<open>Nstd_PoolList\<close> (PoolList.hpp).
  \<^item> \<open>Nstd_HashTable\<close> (buckets and chains with the address of the cell that points to an item),
    \<open>Nstd_HashMap\<close>, \<open>Nstd_HashSet\<close>, \<open>Nstd_PoolMap\<close> (the headers of the same names). The hash function is a
    parameter, of which nothing is assumed.
  \<^item> \<open>Nstd_Avl\<close> (trees with heights, contexts and rebalancing on values), \<open>Nstd_AvlTree\<close> (the same in memory:
    rotations, \<^verbatim>\<open>rebal\<close> and the walk upwards), \<open>Nstd_TreeRemove\<close> (unlinking an item by its predecessor or
    successor), \<open>Nstd_TreeCont\<close> (what Map and MultiMap share), \<open>Nstd_Map\<close> and \<open>Nstd_MultiMap\<close> (Map.hpp, MultiMap.hpp,
    with insertion by a hint). Keys are a linear order.
  \<^item> \<open>Nstd_CString\<close> (the C functions the strings use), \<open>Nstd_StringOps\<close> (String.hpp and String.cpp on the values of
    strings), \<open>Nstd_StringProps\<close> (their properties).
  \<^item> \<open>Nstd_Sha256\<close> (Crypto/Sha256.hpp and .cpp: compression over the ring buffer of the code, incremental hashing
    in blocks, padding, HMAC), compared with the textbook description over lists.
  \<^item> \<open>Nstd_Unicode\<close> (Unicode.hpp), compared with the arithmetic of UTF-8, which the code applies to surrogates too.
  \<^item> \<open>Nstd_Variant\<close> (Variant.hpp: types, conversions, comparison; floating point is the parameter \<open>fp\<close>).
  \<^item> \<open>Nstd_Json\<close> and \<open>Nstd_JsonProps\<close> (Document/Json.cpp: scanner, parser, printer, removal of comments).
  \<^item> \<open>Nstd_Xml\<close> and \<open>Nstd_XmlProps\<close> (Document/Xml.cpp: escapes, scanner, parser, printer).
  \<^item> \<open>Nstd_Array\<close> and \<open>Nstd_ArrayProps\<close> (Array.hpp: blocks with cells that hold an object or not; objects are constructed in raw cells
    only, and a block is freed when it holds no object),
    \<open>Nstd_Buffer\<close> and \<open>Nstd_BufferProps\<close> (Buffer.hpp: blocks of bytes with a terminating zero).
  \<^item> \<open>Nstd_Path\<close> and \<open>Nstd_PathProps\<close> (the functions of File.cpp on paths, compared with lists of names and with the
    directories that they lead to).
  \<^item> \<open>Nstd_Callback\<close>, \<open>Nstd_CallbackInv\<close> and \<open>Nstd_CallbackProps\<close> (Callback.hpp and .cpp: emitters and listeners as a machine
    whose steps are the operations of the program and the steps of the emissions on the stack). The rule \<open>allowed\<close> under which
    the program is safe is not in the code, which has no documentation of its own: emitters and listeners exist when they are used, only what is connected is disconnected,
    and, while a signal is being emitted, a function is not connected to it again after its disconnection, and a function with more than
    one slot there is neither disconnected nor loses its listener. The same function may be connected any number of times, as
    \<^verbatim>\<open>TestCallback.cpp\<close> does. \<open>callback_misuse\<close> says what happens otherwise.
  \<^item> \<open>Nstd_Queue\<close>, \<open>Nstd_QueueInv\<close> and \<open>Nstd_QueueProps\<close> (Future.cpp: the lock-free queue of the thread pool as a
    step relation over the shared accesses of its threads, its invariant and its properties; the signal that its threads wait
    for). Memory is taken to be sequentially consistent. The counters of the code are
    \<^verbatim>\<open>usize\<close> and wrap around, those of the model are unbounded integers: the theorems are about runs with fewer than \<open>2 ^ 64\<close> calls,
    which no computer leaves. \<^verbatim>\<open>size\<close> is given two states, since its two reads may have steps of other threads between them.

  \<^bold>\<open>What the lemmas show.\<close> For every container: an invariant (the shape of its memory and the values in it), that
  each operation returns, keeps the invariant, changes the contents as the list or map functions say
  and touches no item of another container; from that, theorems on arbitrary sequences of operations
  and on operations between two containers, an object given as its own argument included. For the
  algorithms on strings, bytes and text: equality with a specification over lists, round trips, and
  what happens outside of the documented inputs. A number of properties state what the code does where it
  does something that it cannot mean; the findings of the manifest point at them.

  \<^bold>\<open>Fuel and bounds.\<close> The parsers of JSON and XML have fuel. \<open>json_fuel\<close>, three more than the length of the text, always is
  enough (\<open>json_terminates\<close>): each call consumes the token it begins with;
  for XML two more than the length is enough when nothing opens a comment, and no fuel is enough for certain texts behind a comment in the content of an
  element (\<open>xml_parse_terminates\<close> says which). The heights of the trees are
  bounded by the logarithm of their size (\<open>map_balanced\<close>).

  \<^bold>\<open>Not modelled.\<close> The sharing of data by copies of \<^verbatim>\<open>String\<close> and \<^verbatim>\<open>Variant\<close> (reference counts); \<^verbatim>\<open>printf\<close> and \<^verbatim>\<open>scanf\<close>
  beyond decimal and hexadecimal integers; the wide-character builds; allocation failure. Of the other
  classes, RefCount, the thread pool around the queue of Future and the command line of Process are code of
  their own that is not modelled yet; Socket, Server, the rest of File, Directory, Console, Log, Error, Debug, Time, Thread, Mutex,
  Semaphore, Signal, Monitor, Atomic, Library, System, Memory and Math are thin layers over the operating system, the C library
  or compiler intrinsics, whose behaviour lies outside of the repository.
\<close>

end
